(* ===== verification/IOS_Prelude.thy ===== *)
theory IOS_Prelude
  imports Main "HOL-Library.Word"
begin

text \<open>
  Shared vocabulary of the development: the fixed-width integer types of
  \<^verbatim>\<open>inferenceos/base.h\<close>, the stable error numbers of
  \<^verbatim>\<open>inferenceos/errors.h\<close>, the little-endian byte codecs that every on-disk
  structure uses, and generic facts on lists and words.

  Conventions used everywhere.
  \<^item> \<open>ios_u8\<close> to \<open>ios_u64\<close> are words of that width; \<open>ios_size\<close> is a natural number and
    the comparisons with \<open>SIZE_MAX\<close> are written out where the code makes them.
  \<^item> A function that returns \<open>ios_status\<close> and an output value is a function into
    \<open>'a res\<close>: \<open>Inl e\<close> is \<open>IOS_ERROR(e)\<close>, \<open>Inr v\<close> is \<open>IOS_OK\<close> with the output \<open>v\<close>.
    Where a failing call still changes state the state is returned beside the result.
  \<^item> A pointer that the code only checks against \<open>NULL\<close> and then uses is the value it
    points to; a pointer whose \<open>NULL\<close> is a meaningful state is an \<open>option\<close>.
\<close>

unbundle bit_operations_syntax

section \<open>Integer types and error numbers\<close>

type_synonym u8 = "8 word"
type_synonym u16 = "16 word"
type_synonym u32 = "32 word"
type_synonym u64 = "64 word"
type_synonym ios_size = nat
type_synonym bytes = "u8 list"

abbreviation SIZE_MAX :: nat where "SIZE_MAX \<equiv> 18446744073709551615"
abbreviation UINT32_MAX :: nat where "UINT32_MAX \<equiv> 4294967295"

datatype ios_error =
    IOS_E_INVALID_ARGUMENT | IOS_E_BAD_ADDRESS | IOS_E_OUT_OF_RANGE | IOS_E_OVERFLOW
  | IOS_E_NOT_SUPPORTED | IOS_E_UNSUPPORTED_VERSION | IOS_E_INVALID_FLAGS | IOS_E_NOT_FOUND
  | IOS_E_ALREADY_EXISTS | IOS_E_NO_MEMORY | IOS_E_NO_SPACE | IOS_E_ACCESS_DENIED
  | IOS_E_BAD_HANDLE | IOS_E_WRONG_HANDLE_TYPE | IOS_E_BUSY | IOS_E_WOULD_BLOCK
  | IOS_E_TIMEOUT | IOS_E_INTERRUPTED | IOS_E_IO | IOS_E_CORRUPT | IOS_E_READ_ONLY
  | IOS_E_NOT_EMPTY | IOS_E_PROTOCOL | IOS_E_INVALID_STATE | IOS_E_UNKNOWN_SYSCALL
  | IOS_E_UNEXPECTED_FORMAT

type_synonym 'a res = "ios_error + 'a"

fun ios_error_number :: "ios_error \<Rightarrow> nat" where
  "ios_error_number IOS_E_INVALID_ARGUMENT = 1"
| "ios_error_number IOS_E_BAD_ADDRESS = 2"
| "ios_error_number IOS_E_OUT_OF_RANGE = 3"
| "ios_error_number IOS_E_OVERFLOW = 4"
| "ios_error_number IOS_E_NOT_SUPPORTED = 5"
| "ios_error_number IOS_E_UNSUPPORTED_VERSION = 6"
| "ios_error_number IOS_E_INVALID_FLAGS = 7"
| "ios_error_number IOS_E_NOT_FOUND = 8"
| "ios_error_number IOS_E_ALREADY_EXISTS = 9"
| "ios_error_number IOS_E_NO_MEMORY = 10"
| "ios_error_number IOS_E_NO_SPACE = 11"
| "ios_error_number IOS_E_ACCESS_DENIED = 12"
| "ios_error_number IOS_E_BAD_HANDLE = 13"
| "ios_error_number IOS_E_WRONG_HANDLE_TYPE = 14"
| "ios_error_number IOS_E_BUSY = 15"
| "ios_error_number IOS_E_WOULD_BLOCK = 16"
| "ios_error_number IOS_E_TIMEOUT = 17"
| "ios_error_number IOS_E_INTERRUPTED = 18"
| "ios_error_number IOS_E_IO = 19"
| "ios_error_number IOS_E_CORRUPT = 20"
| "ios_error_number IOS_E_READ_ONLY = 21"
| "ios_error_number IOS_E_NOT_EMPTY = 22"
| "ios_error_number IOS_E_PROTOCOL = 23"
| "ios_error_number IOS_E_INVALID_STATE = 24"
| "ios_error_number IOS_E_UNKNOWN_SYSCALL = 25"
| "ios_error_number IOS_E_UNEXPECTED_FORMAT = 26"

text \<open>The ABI value of a result: zero for success, the negated error number otherwise.\<close>

definition ios_status_value :: "'a res \<Rightarrow> int" where
  "ios_status_value r = (case r of Inl e \<Rightarrow> - int (ios_error_number e) | Inr _ \<Rightarrow> 0)"

definition IOS_FAILED :: "'a res \<Rightarrow> bool" where
  "IOS_FAILED r \<longleftrightarrow> ios_status_value r < 0"

definition IOS_SUCCEEDED :: "'a res \<Rightarrow> bool" where
  "IOS_SUCCEEDED r \<longleftrightarrow> 0 \<le> ios_status_value r"

lemma ios_error_number_pos [simp]: "0 < ios_error_number e"
  by (cases e) simp_all

lemma IOS_FAILED_simps [simp]: "IOS_FAILED (Inl e)" "\<not> IOS_FAILED (Inr v)"
  by (simp_all add: IOS_FAILED_def ios_status_value_def)

lemma IOS_SUCCEEDED_simps [simp]: "\<not> IOS_SUCCEEDED (Inl e)" "IOS_SUCCEEDED (Inr v)"
  by (simp_all add: IOS_SUCCEEDED_def ios_status_value_def not_le)

lemma IOS_FAILED_iff: "IOS_FAILED r \<longleftrightarrow> (\<exists>e. r = Inl e)"
  by (cases r) simp_all

lemma IOS_SUCCEEDED_iff: "IOS_SUCCEEDED r \<longleftrightarrow> (\<exists>v. r = Inr v)"
  by (cases r) simp_all

lemma ios_error_number_inject: "ios_error_number e = ios_error_number f \<longleftrightarrow> e = f"
  by (cases e; cases f) simp_all

text \<open>Errors are ordered by their ABI number.\<close>

instantiation ios_error :: linorder
begin
definition less_eq_ios_error :: "ios_error \<Rightarrow> ios_error \<Rightarrow> bool" where
  "less_eq_ios_error e f \<longleftrightarrow> ios_error_number e \<le> ios_error_number f"
definition less_ios_error :: "ios_error \<Rightarrow> ios_error \<Rightarrow> bool" where
  "less_ios_error e f \<longleftrightarrow> ios_error_number e < ios_error_number f"
instance
  by standard (auto simp: less_eq_ios_error_def less_ios_error_def ios_error_number_inject)
end

section \<open>Collections used by the component proofs\<close>

named_theorems ios_defs \<open>definitions of guards and small helpers, unfolded by component proofs\<close>
named_theorems codec_simps \<open>byte-level codec facts\<close>

section \<open>Little-endian codecs\<close>

text \<open>
  Every file of the file system has its own static \<open>write_u16\<close>, \<open>write_u32\<close>,
  \<open>read_u16\<close>, \<open>read_u32\<close>; they are byte for byte the same loops, over \<open>n\<close> bytes.
\<close>

definition write_le :: "nat \<Rightarrow> 'a::len word \<Rightarrow> bytes" where
  "write_le n v = map (\<lambda>index. ucast (drop_bit (index * 8) v)) [0..<n]"

definition read_le :: "nat \<Rightarrow> bytes \<Rightarrow> 'a::len word" where
  "read_le n bs = foldl (\<lambda>value index. value OR push_bit (index * 8) (ucast (bs ! index))) 0 [0..<n]"

definition write_u16 :: "u16 \<Rightarrow> bytes" where
  "write_u16 v = [ucast v, ucast (drop_bit 8 v)]"

definition write_u32 :: "u32 \<Rightarrow> bytes" where "write_u32 = write_le 4"
definition write_u64 :: "u64 \<Rightarrow> bytes" where "write_u64 = write_le 8"

definition read_u16 :: "bytes \<Rightarrow> u16" where
  "read_u16 bs = ucast (bs ! 0) OR push_bit 8 (ucast (bs ! 1))"

definition read_u32 :: "bytes \<Rightarrow> u32" where "read_u32 = read_le 4"
definition read_u64 :: "bytes \<Rightarrow> u64" where "read_u64 = read_le 8"

lemma length_write_le [simp]: "length (write_le n v) = n"
  by (simp add: write_le_def)

lemma length_write_u [simp]:
  "length (write_u16 a) = 2" "length (write_u32 b) = 4" "length (write_u64 c) = 8"
  by (simp_all add: write_u16_def write_u32_def write_u64_def)

lemma bit_read_le:
  "bit (read_le n bs :: 'a::len word) k \<longleftrightarrow>
     k < 8 * n \<and> k < LENGTH('a) \<and> bit (bs ! (k div 8)) (k mod 8)"
proof (induction n)
  case 0
  then show ?case by (simp add: read_le_def)
next
  case (Suc n)
  have step: "read_le (Suc n) bs = (read_le n bs :: 'a word) OR push_bit (n * 8) (ucast (bs ! n))"
    by (simp add: read_le_def)
  show ?case
  proof (cases "k < 8 * n")
    case True
    then show ?thesis by (auto simp: step bit_or_iff Suc bit_push_bit_iff)
  next
    case False
    have split: "k - n * 8 < 8 \<and> k div 8 = n \<and> k mod 8 = k - n * 8" if "k < 8 * Suc n"
    proof -
      define j where "j = k - n * 8"
      have "k = n * 8 + j" "j < 8" using False that by (simp_all add: j_def)
      then show ?thesis by simp
    qed
    have out: "\<not> bit (bs ! n) (k - n * 8)" if "\<not> k < 8 * Suc n"
      using that by (auto dest: bit_imp_le_length)
    show ?thesis
      using False split out
      by (cases "k < 8 * Suc n")
        (auto simp: step bit_or_iff Suc bit_push_bit_iff bit_ucast_iff possible_bit_word
          intro: less_imp_diff_less)
  qed
qed

lemma bit_write_le:
  "i < n \<Longrightarrow> bit (write_le n v ! i) k \<longleftrightarrow> k < 8 \<and> bit v (8 * i + k)"
  by (auto simp: write_le_def bit_ucast_iff bit_drop_bit_eq possible_bit_word ac_simps)

lemma read_write_le:
  assumes "LENGTH('a::len) \<le> 8 * n"
  shows "read_le n (write_le n v) = (v :: 'a word)"
proof (rule bit_word_eqI)
  fix k
  assume k: "k < LENGTH('a)"
  then have "k < 8 * n" "k div 8 < n" using assms by auto
  then show "bit (read_le n (write_le n v) :: 'a word) k \<longleftrightarrow> bit v k"
    using k by (simp add: bit_read_le bit_write_le)
qed

lemma read_le_cong: "take n bs = take n cs \<Longrightarrow> n \<le> length bs \<Longrightarrow> n \<le> length cs \<Longrightarrow> read_le n bs = read_le n cs"
  unfolding read_le_def by (rule foldl_cong) (auto, metis nth_take)

lemma read_write_u32 [simp, codec_simps]: "read_u32 (write_u32 v) = v"
  by (simp add: read_u32_def write_u32_def read_write_le)

lemma read_write_u64 [simp, codec_simps]: "read_u64 (write_u64 v) = v"
  by (simp add: read_u64_def write_u64_def read_write_le)

lemma read_write_u16 [simp, codec_simps]: "read_u16 (write_u16 v) = v"
  by (rule bit_word_eqI)
    (auto simp: read_u16_def write_u16_def bit_or_iff bit_push_bit_iff bit_ucast_iff
      bit_drop_bit_eq possible_bit_word)

lemma write_read_le:
  assumes "length bs = n" and "8 * n \<le> LENGTH('a::len)"
  shows "write_le n (read_le n bs :: 'a word) = bs"
proof (rule nth_equalityI)
  fix i assume "i < length (write_le n (read_le n bs :: 'a word))"
  then have i: "i < n" by simp
  show "write_le n (read_le n bs :: 'a word) ! i = bs ! i"
  proof (rule bit_word_eqI)
    fix k assume k: "k < LENGTH(8)"
    then have "8 * i + k < 8 * n" using i by simp
    moreover have "(8 * i + k) div 8 = i" "(8 * i + k) mod 8 = k" using k by simp_all
    ultimately show "bit (write_le n (read_le n bs :: 'a word) ! i) k \<longleftrightarrow> bit (bs ! i) k"
      using i k assms(2) by (simp add: bit_write_le bit_read_le)
  qed
qed (use assms in simp)

lemma write_read_u32: "length bs = 4 \<Longrightarrow> write_u32 (read_u32 bs) = bs"
  by (simp add: write_u32_def read_u32_def write_read_le)

lemma read_u32_inj: "length a = 4 \<Longrightarrow> length b = 4 \<Longrightarrow> read_u32 a = read_u32 b \<longleftrightarrow> a = b"
  by (metis write_read_u32)

lemma write_read_u64: "length bs = 8 \<Longrightarrow> write_u64 (read_u64 bs) = bs"
  by (simp add: write_u64_def read_u64_def write_read_le)

lemma write_read_u16:
  assumes "length bs = 2"
  shows "write_u16 (read_u16 bs) = bs"
proof -
  obtain a b where bs: "bs = [a, b]" using assms by (auto simp: length_Suc_conv numeral_2_eq_2)
  have "(ucast (read_u16 bs) :: u8) = a" "(ucast (drop_bit 8 (read_u16 bs)) :: u8) = b"
    by (rule bit_word_eqI; auto simp: bs read_u16_def bit_or_iff bit_push_bit_iff bit_ucast_iff
        bit_drop_bit_eq possible_bit_word dest: bit_imp_le_length)+
  then show ?thesis by (simp add: write_u16_def bs)
qed

section \<open>Bytes and lists\<close>

definition all_zero :: "bytes \<Rightarrow> bool" where
  "all_zero bs \<longleftrightarrow> (\<forall>b \<in> set bs. b = 0)"

lemma all_zero_simps [simp]:
  "all_zero []" "all_zero (b # bs) \<longleftrightarrow> b = 0 \<and> all_zero bs" "all_zero (replicate n 0)"
  by (auto simp: all_zero_def)

text \<open>\<open>memcpy(dst + offset, src, length src)\<close> on a byte array.\<close>

definition overwrite :: "'a list \<Rightarrow> nat \<Rightarrow> 'a list \<Rightarrow> 'a list" where
  "overwrite dst off src = take off dst @ src @ drop (off + length src) dst"

lemma length_overwrite [simp]:
  "off + length src \<le> length dst \<Longrightarrow> length (overwrite dst off src) = length dst"
  by (simp add: overwrite_def)

lemma nth_overwrite:
  "off + length src \<le> length dst \<Longrightarrow> i < length dst \<Longrightarrow>
     overwrite dst off src ! i = (if off \<le> i \<and> i < off + length src then src ! (i - off) else dst ! i)"
  by (auto simp: overwrite_def nth_append min_def)

text \<open>
  A byte-wise fold whose step is injective in the state and in the byte tells apart two
  inputs of the same length that differ in one byte.
\<close>

lemma foldl_inj_state:
  assumes "\<And>c d b. f c b = f d b \<Longrightarrow> c = d" and "foldl f c xs = foldl f d xs"
  shows "c = d"
  using assms(2) by (induction xs arbitrary: c d) (auto dest: assms(1))

lemma foldl_update_neq:
  assumes inj: "\<And>c d b. f c b = f d b \<Longrightarrow> c = d" "\<And>c a b. f c a = f c b \<Longrightarrow> a = b"
    and i: "i < length xs" "xs ! i \<noteq> b"
  shows "foldl f c (xs[i := b]) \<noteq> foldl f c xs"
proof
  let ?s = "foldl f c (take i xs)"
  assume "foldl f c (xs[i := b]) = foldl f c xs"
  then have "foldl f c (take i xs @ b # drop (Suc i) xs)
      = foldl f c (take i xs @ xs ! i # drop (Suc i) xs)"
    using i(1) by (simp add: upd_conv_take_nth_drop flip: id_take_nth_drop)
  then have "foldl f (f ?s b) (drop (Suc i) xs) = foldl f (f ?s (xs ! i)) (drop (Suc i) xs)"
    by simp
  with inj(1) have "f ?s b = f ?s (xs ! i)" by (rule foldl_inj_state)
  with inj(2) i(2) show False by blast
qed

text \<open>A field of a packed structure: \<open>len\<close> bytes at offset \<open>off\<close>.\<close>

definition field_at :: "nat \<Rightarrow> nat \<Rightarrow> 'a list \<Rightarrow> 'a list" where
  "field_at off len bs = take len (drop off bs)"

lemma length_field_at: "off + len \<le> length bs \<Longrightarrow> length (field_at off len bs) = len"
  by (simp add: field_at_def)

section \<open>First match in an array\<close>

text \<open>
  The search loops over tables of slots: the index of the first element that satisfies the
  condition.
\<close>

primrec find_index :: "('a \<Rightarrow> bool) \<Rightarrow> 'a list \<Rightarrow> nat option" where
  "find_index P [] = None"
| "find_index P (x # xs) = (if P x then Some 0 else map_option Suc (find_index P xs))"

lemma find_index_None: "find_index P xs = None \<longleftrightarrow> (\<forall>x \<in> set xs. \<not> P x)"
  by (induction xs) auto

lemma find_index_Some: "find_index P xs = Some i \<longleftrightarrow> i < length xs \<and> P (xs ! i) \<and> (\<forall>j < i. \<not> P (xs ! j))"
proof (induction xs arbitrary: i)
  case (Cons x xs)
  show ?case
  proof (cases i)
    case 0
    then show ?thesis by (cases "find_index P xs") auto
  next
    case (Suc k)
    then show ?thesis using Cons.IH [of k] by (auto simp: All_less_Suc2)
  qed
qed simp

lemma find_index_SomeD:
  assumes "find_index P xs = Some i"
  shows "i < length xs" and "P (xs ! i)"
  using assms by (simp_all add: find_index_Some)

lemma find_index_unique:
  assumes "i < length xs" and "P (xs ! i)" and "\<And>j. j < length xs \<Longrightarrow> P (xs ! j) \<Longrightarrow> j = i"
  shows "find_index P xs = Some i"
  unfolding find_index_Some
proof (intro conjI allI impI notI)
  fix j assume "j < i" and "P (xs ! j)"
  then show False using assms(1) assms(3) [of j] by simp
qed (fact assms)+

end
