(* ===== verification/Fs_Hash.thy ===== *)
theory Fs_Hash
  imports IOS_Prelude
begin

text \<open>
  The checksums of InferenceOS-FS: \<open>ios_fs_crc32_iso_hdlc\<close> (crc32.c), the FNV-1a hash of an
  extension and its eight-digit text (hash.c). The lemmas say that both are injective in a
  single byte, so a record with one damaged byte never keeps its checksum, and that the
  hash text is a faithful rendering of the hash.
\<close>

section \<open>CRC-32/ISO-HDLC\<close>

text \<open>One round of the inner loop, the eight rounds of one input byte, and the whole loop.\<close>

definition crc32_bit :: "u32 \<Rightarrow> u32" where
  "crc32_bit crc = drop_bit 1 crc XOR (if crc AND 1 \<noteq> 0 then 0xedb88320 else 0)"

definition crc32_byte :: "u32 \<Rightarrow> u8 \<Rightarrow> u32" where
  "crc32_byte crc b = (crc32_bit ^^ 8) (crc XOR ucast b)"

definition ios_fs_crc32_iso_hdlc :: "bytes \<Rightarrow> u32" where
  "ios_fs_crc32_iso_hdlc input = foldl crc32_byte 0xffffffff input XOR 0xffffffff"

section \<open>FNV-1a and its text\<close>

definition fnv1a32_byte :: "u32 \<Rightarrow> u8 \<Rightarrow> u32" where
  "fnv1a32_byte hash b = (hash XOR ucast b) * 0x01000193"

definition ios_fs_fnv1a32 :: "bytes \<Rightarrow> u32" where
  "ios_fs_fnv1a32 input = foldl fnv1a32_byte 0x811c9dc5 input"

text \<open>\<open>static const ios_u8 digits[] = "0123456789ABCDEF"\<close>\<close>

definition hash_digits :: bytes where
  "hash_digits = [48, 49, 50, 51, 52, 53, 54, 55, 56, 57, 65, 66, 67, 68, 69, 70]"

text \<open>The loop fills the text from its last position to its first.\<close>

primrec hash_text_loop :: "nat \<Rightarrow> u32 \<Rightarrow> bytes \<Rightarrow> bytes" where
  "hash_text_loop 0 hash out = out"
| "hash_text_loop (Suc n) hash out =
     hash_text_loop n (drop_bit 4 hash) (hash_digits ! unat (hash AND 0x0f) # out)"

definition ios_fs_hash_text :: "u32 \<Rightarrow> bytes" where
  "ios_fs_hash_text hash = hash_text_loop 8 hash []"

section \<open>One-byte sensitivity\<close>

lemma xor_right_cancel: "(a :: 'a::len word) XOR b = c XOR b \<longleftrightarrow> a = c"
  by (auto simp: bit_eq_iff bit_xor_iff)

lemma xor_left_cancel: "(b :: 'a::len word) XOR a = b XOR c \<longleftrightarrow> a = c"
  by (auto simp: bit_eq_iff bit_xor_iff)

lemma crc32_bit_top: "bit (crc32_bit c) 31 \<longleftrightarrow> odd c"
proof -
  have "bit (0xedb88320 :: u32) 31" by (simp add: bit_numeral_rec)
  moreover have "\<not> bit (drop_bit 1 c) 31"
    using bit_imp_le_length [of c 32] by (auto simp: bit_drop_bit_eq)
  ultimately show ?thesis
    by (simp add: crc32_bit_def bit_xor_iff and_one_eq odd_iff_mod_2_eq_one)
qed

lemma crc32_bit_inj: "crc32_bit c = crc32_bit d \<longleftrightarrow> c = d"
proof
  assume eq: "crc32_bit c = crc32_bit d"
  then have odd: "odd c \<longleftrightarrow> odd d" using crc32_bit_top by metis
  let ?p = "if odd d then 0xedb88320 else 0 :: u32"
  have "drop_bit 1 c XOR ?p = drop_bit 1 d XOR ?p"
    using eq odd by (simp add: crc32_bit_def and_one_eq odd_iff_mod_2_eq_one)
  then have half: "drop_bit 1 c = drop_bit 1 d" by (simp only: xor_right_cancel)
  show "c = d"
  proof (rule bit_word_eqI)
    fix n :: nat
    show "bit c n \<longleftrightarrow> bit d n"
    proof (cases n)
      case 0 then show ?thesis using odd by (simp add: bit_0)
    next
      case (Suc m)
      then show ?thesis using half by (metis bit_drop_bit_eq comp_apply plus_1_eq_Suc)
    qed
  qed
qed simp

lemma crc32_bits_inj: "(crc32_bit ^^ n) c = (crc32_bit ^^ n) d \<longleftrightarrow> c = d"
  by (induction n) (simp_all add: crc32_bit_inj)

lemma ucast_u8_u32_inj: "(ucast (a :: u8) :: u32) = ucast b \<longleftrightarrow> a = b"
proof
  assume eq: "(ucast a :: u32) = ucast b"
  show "a = b"
  proof (rule bit_word_eqI)
    fix n assume "n < LENGTH(8)"
    then show "bit a n \<longleftrightarrow> bit b n"
      using arg_cong [OF eq, of "\<lambda>w. bit w n"] by (simp add: bit_ucast_iff)
  qed
qed simp

lemma crc32_byte_inj_state: "crc32_byte c b = crc32_byte d b \<Longrightarrow> c = d"
  by (simp add: crc32_byte_def crc32_bits_inj xor_right_cancel)

lemma crc32_byte_inj_byte: "crc32_byte c a = crc32_byte c b \<Longrightarrow> a = b"
  by (simp add: crc32_byte_def crc32_bits_inj xor_left_cancel ucast_u8_u32_inj)

lemma crc32_one_byte:
  assumes "i < length bs" and "bs ! i \<noteq> b"
  shows "ios_fs_crc32_iso_hdlc (bs[i := b]) \<noteq> ios_fs_crc32_iso_hdlc bs"
  using foldl_update_neq [of crc32_byte i bs b, OF crc32_byte_inj_state crc32_byte_inj_byte assms]
  by (simp add: ios_fs_crc32_iso_hdlc_def xor_right_cancel)

text \<open>The FNV prime is odd, hence invertible modulo \<open>2 ^ 32\<close>.\<close>

lemma fnv_prime_inverse: "(0x01000193 :: u32) * 0x359c449b = 1"
  by simp

lemma fnv_mult_inj: "(a :: u32) * 0x01000193 = b * 0x01000193 \<longleftrightarrow> a = b"
proof
  assume "a * 0x01000193 = b * 0x01000193"
  then have "(a * 0x01000193) * 0x359c449b = (b * 0x01000193) * 0x359c449b"
    by (rule arg_cong)
  then show "a = b" by (simp only: mult.assoc fnv_prime_inverse mult_1_right)
qed simp

lemma fnv1a32_byte_inj_state: "fnv1a32_byte c b = fnv1a32_byte d b \<Longrightarrow> c = d"
  unfolding fnv1a32_byte_def fnv_mult_inj xor_right_cancel .

lemma fnv1a32_byte_inj_byte: "fnv1a32_byte c a = fnv1a32_byte c b \<Longrightarrow> a = b"
  unfolding fnv1a32_byte_def fnv_mult_inj xor_left_cancel ucast_u8_u32_inj .

lemma fnv1a32_one_byte:
  assumes "i < length bs" and "bs ! i \<noteq> b"
  shows "ios_fs_fnv1a32 (bs[i := b]) \<noteq> ios_fs_fnv1a32 bs"
  using foldl_update_neq [of fnv1a32_byte i bs b, OF fnv1a32_byte_inj_state fnv1a32_byte_inj_byte assms]
  by (simp add: ios_fs_fnv1a32_def)

section \<open>The hash text\<close>

lemma hash_text_loop_append: "hash_text_loop n h out = hash_text_loop n h [] @ out"
proof (induction n arbitrary: h out)
  case (Suc n)
  show ?case
    using Suc [of "drop_bit 4 h" "hash_digits ! unat (h AND 0x0f) # out"]
      Suc [of "drop_bit 4 h" "[hash_digits ! unat (h AND 0x0f)]"] by simp
qed simp

lemma length_hash_text_loop: "length (hash_text_loop n h out) = n + length out"
  by (induction n arbitrary: h out) simp_all

lemma length_hash_text [simp]: "length (ios_fs_hash_text h) = 8"
  by (simp add: ios_fs_hash_text_def length_hash_text_loop)

lemma nibble_take_bit: "(h :: u32) AND 0x0f = take_bit 4 h"
  by (simp add: take_bit_eq_mask mask_eq_exp_minus_1)

lemma nibble_less: "unat ((h :: u32) AND 0x0f) < 16"
  using take_bit_nat_less_exp [of 4 "unat h"] by (simp add: nibble_take_bit unsigned_take_bit_eq)

lemma hash_digit_in: "hash_digits ! unat ((h :: u32) AND 0x0f) \<in> set hash_digits"
  using nibble_less [of h] by (intro nth_mem) (simp add: hash_digits_def)

lemma hash_digit_inj:
  "hash_digits ! unat ((h :: u32) AND 0x0f) = hash_digits ! unat (k AND 0x0f) \<longleftrightarrow> h AND 0x0f = k AND 0x0f"
proof -
  have "distinct hash_digits" "length hash_digits = 16" by (simp_all add: hash_digits_def)
  then show ?thesis using nibble_less [of h] nibble_less [of k]
    by (simp add: nth_eq_iff_index_eq word_eq_iff_unsigned [where ?'a = nat, symmetric])
qed

lemma set_hash_text_loop: "set (hash_text_loop n h out) \<subseteq> set hash_digits \<union> set out"
proof (induction n arbitrary: h out)
  case (Suc n)
  have "set (hash_text_loop n (drop_bit 4 h) (hash_digits ! unat (h AND 0x0f) # out))
      \<subseteq> set hash_digits \<union> set (hash_digits ! unat (h AND 0x0f) # out)" by (rule Suc)
  then show ?case using hash_digit_in [of h] by auto
qed simp

lemma set_hash_text: "set (ios_fs_hash_text h) \<subseteq> set hash_digits"
  using set_hash_text_loop [of 8 h "[]"] by (simp add: ios_fs_hash_text_def)

lemma hash_text_loop_inj:
  "hash_text_loop n h [] = hash_text_loop n k [] \<Longrightarrow> take_bit (4 * n) h = take_bit (4 * n) k"
proof (induction n arbitrary: h k)
  case (Suc n)
  let ?d = "\<lambda>h. [hash_digits ! unat (h AND 0x0f)]"
  have "hash_text_loop n (drop_bit 4 h) [] @ ?d h = hash_text_loop n (drop_bit 4 k) [] @ ?d k"
    using Suc.prems hash_text_loop_append [of n "drop_bit 4 h" "?d h"]
      hash_text_loop_append [of n "drop_bit 4 k" "?d k"] by simp
  then have texts: "hash_text_loop n (drop_bit 4 h) [] = hash_text_loop n (drop_bit 4 k) []"
    and digits: "?d h = ?d k" by (simp_all only: append1_eq_conv simp_thms)
  have high: "take_bit (4 * n) (drop_bit 4 h) = take_bit (4 * n) (drop_bit 4 k)"
    by (rule Suc.IH [OF texts])
  have low: "take_bit 4 h = take_bit 4 k"
    using digits by (simp add: hash_digit_inj flip: nibble_take_bit)
  have hi: "bit h (4 + i) = bit k (4 + i)" if "i < 4 * n" for i
    using arg_cong [OF high, of "\<lambda>w. bit w i"] that by (simp add: bit_take_bit_iff bit_drop_bit_eq)
  have lo: "bit h i = bit k i" if "i < 4" for i
    using arg_cong [OF low, of "\<lambda>w. bit w i"] that by (simp add: bit_take_bit_iff)
  show ?case
  proof (rule bit_word_eqI)
    fix i :: nat
    show "bit (take_bit (4 * Suc n) h) i \<longleftrightarrow> bit (take_bit (4 * Suc n) k) i"
      using hi [of "i - 4"] lo [of i] by (cases "i < 4") (auto simp: bit_take_bit_iff)
  qed
qed simp

lemma hash_text_inj: "ios_fs_hash_text h = ios_fs_hash_text k \<longleftrightarrow> h = k"
proof
  assume "ios_fs_hash_text h = ios_fs_hash_text k"
  then have "take_bit 32 h = take_bit 32 k"
    using hash_text_loop_inj [of 8 h k] by (simp add: ios_fs_hash_text_def)
  then show "h = k" by (simp add: take_bit_word_eq_self)
qed simp

end
