(* ===== verification/Fs_Records.thy ===== *)
theory Fs_Records
  imports Fs_Hash
begin

text \<open>
  Directory records of InferenceOS-FS (records.h, records.c): 8.3 names, the primary record
  that carries the authoritative extension, and the companion record that carries the hash
  of that extension. Disk structures are records of byte fields; \<open>..._bytes\<close> and \<open>..._of\<close>
  are the two directions of the C cast between a structure and its 32 bytes.
\<close>

section \<open>Disk structures\<close>

record primary_disk =
  pd_name :: bytes
  pd_attributes :: u8
  pd_reserved :: u8
  pd_create_tenth :: u8
  pd_create_time :: bytes
  pd_create_date :: bytes
  pd_access_date :: bytes
  pd_first_cluster_high :: bytes
  pd_write_time :: bytes
  pd_write_date :: bytes
  pd_first_cluster_low :: bytes
  pd_file_size :: bytes

record companion_disk =
  cd_record_type :: u8
  cd_record_version :: u8
  cd_hash_algorithm_id :: u8
  cd_flags :: u8
  cd_extension_length :: u8
  cd_primary_name_checksum :: u8
  cd_reserved0 :: bytes
  cd_extension_hash_text :: bytes
  cd_crc32 :: bytes
  cd_reserved1 :: bytes

definition primary_disk_bytes :: "primary_disk \<Rightarrow> bytes" where
  "primary_disk_bytes d =
     pd_name d @ [pd_attributes d, pd_reserved d, pd_create_tenth d]
     @ pd_create_time d @ pd_create_date d @ pd_access_date d @ pd_first_cluster_high d
     @ pd_write_time d @ pd_write_date d @ pd_first_cluster_low d @ pd_file_size d"

definition primary_disk_of :: "bytes \<Rightarrow> primary_disk" where
  "primary_disk_of bs =
     \<lparr>pd_name = field_at 0 11 bs, pd_attributes = bs ! 11, pd_reserved = bs ! 12,
      pd_create_tenth = bs ! 13, pd_create_time = field_at 14 2 bs,
      pd_create_date = field_at 16 2 bs, pd_access_date = field_at 18 2 bs,
      pd_first_cluster_high = field_at 20 2 bs, pd_write_time = field_at 22 2 bs,
      pd_write_date = field_at 24 2 bs, pd_first_cluster_low = field_at 26 2 bs,
      pd_file_size = field_at 28 4 bs\<rparr>"

definition primary_disk_wf :: "primary_disk \<Rightarrow> bool" where
  "primary_disk_wf d \<longleftrightarrow> length (pd_name d) = 11 \<and> length (pd_create_time d) = 2
     \<and> length (pd_create_date d) = 2 \<and> length (pd_access_date d) = 2
     \<and> length (pd_first_cluster_high d) = 2 \<and> length (pd_write_time d) = 2
     \<and> length (pd_write_date d) = 2 \<and> length (pd_first_cluster_low d) = 2
     \<and> length (pd_file_size d) = 4"

definition companion_disk_bytes :: "companion_disk \<Rightarrow> bytes" where
  "companion_disk_bytes d =
     [cd_record_type d, cd_record_version d, cd_hash_algorithm_id d, cd_flags d,
      cd_extension_length d, cd_primary_name_checksum d]
     @ cd_reserved0 d @ cd_extension_hash_text d @ cd_crc32 d @ cd_reserved1 d"

definition companion_disk_of :: "bytes \<Rightarrow> companion_disk" where
  "companion_disk_of bs =
     \<lparr>cd_record_type = bs ! 0, cd_record_version = bs ! 1, cd_hash_algorithm_id = bs ! 2,
      cd_flags = bs ! 3, cd_extension_length = bs ! 4, cd_primary_name_checksum = bs ! 5,
      cd_reserved0 = field_at 6 2 bs, cd_extension_hash_text = field_at 8 8 bs,
      cd_crc32 = field_at 16 4 bs, cd_reserved1 = field_at 20 12 bs\<rparr>"

definition companion_disk_wf :: "companion_disk \<Rightarrow> bool" where
  "companion_disk_wf d \<longleftrightarrow> length (cd_reserved0 d) = 2
     \<and> length (cd_extension_hash_text d) = 8 \<and> length (cd_crc32 d) = 4
     \<and> length (cd_reserved1 d) = 12"

section \<open>Decoded values\<close>

record ios_fs_primary =
  p_name :: bytes
  p_attributes :: u8
  p_first_cluster :: u32
  p_file_size :: u32

record ios_fs_companion =
  c_committed :: bool
  c_extension_length :: u8
  c_primary_name_checksum :: u8
  c_extension_hash_text :: bytes

abbreviation IOS_FS_ATTRIBUTE_DIRECTORY :: u8 where "IOS_FS_ATTRIBUTE_DIRECTORY \<equiv> 0x10"
abbreviation IOS_FS_ATTRIBUTE_REGULAR :: u8 where "IOS_FS_ATTRIBUTE_REGULAR \<equiv> 0x20"
abbreviation IOS_FS_COMPANION_RECORD_TYPE :: u8 where "IOS_FS_COMPANION_RECORD_TYPE \<equiv> 0xf1"
abbreviation IOS_FS_COMPANION_FLAG_COMMITTED :: u8 where "IOS_FS_COMPANION_FLAG_COMMITTED \<equiv> 1"
abbreviation IOS_FS_COMPANION_VERSION :: u8 where "IOS_FS_COMPANION_VERSION \<equiv> 1"
abbreviation IOS_FS_HASH_FNV1A32 :: u8 where "IOS_FS_HASH_FNV1A32 \<equiv> 1"
abbreviation IOS_FS_MAX_DATA_CLUSTER :: nat where "IOS_FS_MAX_DATA_CLUSTER \<equiv> 268435439"

section \<open>Names\<close>

definition supported_name_byte :: "u8 \<Rightarrow> bool" where
  "supported_name_byte v \<longleftrightarrow>
     (65 \<le> v \<and> v \<le> 90) \<or> (48 \<le> v \<and> v \<le> 57) \<or> v = 95 \<or> v = 45"

text \<open>One of the two loops of \<open>valid_stored_name\<close>: supported bytes, then spaces only.\<close>

fun padded_field :: "bool \<Rightarrow> bytes \<Rightarrow> bool" where
  "padded_field padding [] = True"
| "padded_field padding (b # bs) =
     (if b = 32 then padded_field True bs
      else if padding \<or> \<not> supported_name_byte b then False
      else padded_field padding bs)"

definition valid_stored_name :: "bytes \<Rightarrow> bool" where
  "valid_stored_name name \<longleftrightarrow>
     name ! 0 \<noteq> 32 \<and> padded_field False (field_at 0 8 name) \<and> padded_field False (field_at 8 3 name)"

definition valid_hash_text :: "bytes \<Rightarrow> bool" where
  "valid_hash_text txt \<longleftrightarrow>
     list_all (\<lambda>b. (48 \<le> b \<and> b \<le> 57) \<or> (65 \<le> b \<and> b \<le> 70)) (take 8 txt)"

definition upcase :: "u8 \<Rightarrow> u8" where
  "upcase v = (if 97 \<le> v \<and> v \<le> 122 then v - (97 - 65) else v)"

text \<open>
  The loop of \<open>ios_fs_name_canonicalize_83\<close> over the bytes of the C string before its
  terminator: output array, the two lengths and the \<open>in_extension\<close> flag are its variables.
\<close>

fun canonicalize_loop :: "bytes \<Rightarrow> bytes \<Rightarrow> nat \<Rightarrow> nat \<Rightarrow> bool \<Rightarrow> bytes res" where
  "canonicalize_loop [] output base_length extension_length in_extension = Inr output"
| "canonicalize_loop (c # cursor) output base_length extension_length in_extension =
     (if c = 46 then
        if in_extension \<or> base_length = 0 then Inl IOS_E_INVALID_ARGUMENT
        else canonicalize_loop cursor output base_length extension_length True
      else let value = upcase c in
        if \<not> supported_name_byte value then Inl IOS_E_INVALID_ARGUMENT
        else if \<not> in_extension then
          if base_length = 8 then Inl IOS_E_INVALID_ARGUMENT
          else canonicalize_loop cursor (output[base_length := value]) (base_length + 1)
                 extension_length in_extension
        else
          if extension_length = 3 then Inl IOS_E_INVALID_ARGUMENT
          else canonicalize_loop cursor (output[8 + extension_length := value]) base_length
                 (extension_length + 1) in_extension)"

definition ios_fs_name_canonicalize_83 :: "bytes \<Rightarrow> bytes res" where
  "ios_fs_name_canonicalize_83 input =
     (if input = [] then Inl IOS_E_INVALID_ARGUMENT
      else canonicalize_loop input (replicate 11 32) 0 0 False)"

text \<open>\<open>while (count != 0 && name[8 + count - 1] == ' ') --count\<close>\<close>

primrec trim_extension :: "bytes \<Rightarrow> nat \<Rightarrow> nat" where
  "trim_extension name 0 = 0"
| "trim_extension name (Suc count) =
     (if name ! (8 + count) = 32 then trim_extension name count else Suc count)"

text \<open>The result is the zero-padded three-byte output array and the length.\<close>

definition ios_fs_name_extension :: "bytes \<Rightarrow> (bytes \<times> nat) res" where
  "ios_fs_name_extension name =
     (if \<not> valid_stored_name name then Inl IOS_E_INVALID_ARGUMENT
      else let count = trim_extension name 3
        in Inr (overwrite (replicate 3 0) 0 (field_at 8 count name), count))"

fun extension_query_loop :: "bytes \<Rightarrow> bytes \<Rightarrow> nat \<Rightarrow> (bytes \<times> nat) res" where
  "extension_query_loop [] output count =
     (if count = 0 then Inl IOS_E_INVALID_ARGUMENT else Inr (output, count))"
| "extension_query_loop (c # cursor) output count =
     (let value = upcase c in
      if \<not> supported_name_byte value \<or> count = 3 then Inl IOS_E_INVALID_ARGUMENT
      else extension_query_loop cursor (output[count := value]) (count + 1))"

definition ios_fs_extension_query_canonicalize :: "bytes \<Rightarrow> (bytes \<times> nat) res" where
  "ios_fs_extension_query_canonicalize input =
     (if length input = 0 \<or> length input > 4 then Inl IOS_E_INVALID_ARGUMENT
      else if hd input = 46 then
        if length input = 1 then Inl IOS_E_INVALID_ARGUMENT
        else extension_query_loop (drop 1 input) (replicate 3 0) 0
      else extension_query_loop input (replicate 3 0) 0)"

definition name_checksum_step :: "u8 \<Rightarrow> u8 \<Rightarrow> u8" where
  "name_checksum_step checksum b =
     (if checksum AND 1 \<noteq> 0 then 0x80 else 0) + drop_bit 1 checksum + b"

definition ios_fs_primary_name_checksum :: "bytes \<Rightarrow> u8" where
  "ios_fs_primary_name_checksum name = foldl name_checksum_step 0 (take 11 name)"

section \<open>Primary records\<close>

text \<open>
  The condition on name, attributes, cluster and size that both \<open>ios_fs_primary_encode\<close>
  and \<open>ios_fs_primary_decode\<close> test.
\<close>

definition primary_fields_rejected :: "bytes \<Rightarrow> u8 \<Rightarrow> u32 \<Rightarrow> u32 \<Rightarrow> bool" where
  "primary_fields_rejected name attributes first_cluster file_size \<longleftrightarrow>
     \<not> valid_stored_name name
     \<or> (attributes \<noteq> IOS_FS_ATTRIBUTE_REGULAR \<and> attributes \<noteq> IOS_FS_ATTRIBUTE_DIRECTORY)
     \<or> (attributes = IOS_FS_ATTRIBUTE_DIRECTORY \<and> file_size \<noteq> 0)
     \<or> (attributes = IOS_FS_ATTRIBUTE_REGULAR \<and> file_size = 0 \<and> first_cluster \<noteq> 0)
     \<or> ((file_size \<noteq> 0 \<or> attributes = IOS_FS_ATTRIBUTE_DIRECTORY) \<and> first_cluster < 2)
     \<or> unat first_cluster > IOS_FS_MAX_DATA_CLUSTER"

definition ios_fs_primary_encode :: "ios_fs_primary \<Rightarrow> primary_disk res" where
  "ios_fs_primary_encode value =
     (if primary_fields_rejected (p_name value) (p_attributes value) (p_first_cluster value)
           (p_file_size value)
      then Inl IOS_E_INVALID_ARGUMENT
      else Inr \<lparr>pd_name = p_name value, pd_attributes = p_attributes value, pd_reserved = 0,
             pd_create_tenth = 0, pd_create_time = [0, 0], pd_create_date = [0, 0],
             pd_access_date = [0, 0],
             pd_first_cluster_high = write_u16 (ucast (drop_bit 16 (p_first_cluster value))),
             pd_write_time = [0, 0], pd_write_date = [0, 0],
             pd_first_cluster_low = write_u16 (ucast (p_first_cluster value)),
             pd_file_size = write_u32 (p_file_size value)\<rparr>)"

definition primary_disk_cluster :: "primary_disk \<Rightarrow> u32" where
  "primary_disk_cluster disk =
     push_bit 16 (ucast (read_u16 (pd_first_cluster_high disk)))
     OR ucast (read_u16 (pd_first_cluster_low disk))"

definition ios_fs_primary_decode :: "primary_disk \<Rightarrow> ios_fs_primary res" where
  "ios_fs_primary_decode disk =
     (if pd_name disk ! 0 = 0 \<or> pd_name disk ! 0 = 0xe5 then Inl IOS_E_NOT_FOUND
      else
        let first_cluster = primary_disk_cluster disk;
            file_size = read_u32 (pd_file_size disk)
        in if primary_fields_rejected (pd_name disk) (pd_attributes disk) first_cluster file_size
              \<or> pd_reserved disk \<noteq> 0 \<or> pd_create_tenth disk \<noteq> 0
              \<or> \<not> all_zero (pd_create_time disk) \<or> \<not> all_zero (pd_create_date disk)
              \<or> \<not> all_zero (pd_access_date disk) \<or> \<not> all_zero (pd_write_time disk)
              \<or> \<not> all_zero (pd_write_date disk)
           then Inl IOS_E_PROTOCOL
           else Inr \<lparr>p_name = pd_name disk, p_attributes = pd_attributes disk,
                  p_first_cluster = first_cluster, p_file_size = file_size\<rparr>)"

section \<open>Companion records\<close>

definition companion_crc :: "companion_disk \<Rightarrow> u32" where
  "companion_crc disk =
     ios_fs_crc32_iso_hdlc (companion_disk_bytes (disk\<lparr>cd_crc32 := replicate 4 0\<rparr>))"

definition ios_fs_companion_encode :: "bytes \<Rightarrow> bool \<Rightarrow> companion_disk res" where
  "ios_fs_companion_encode primary_name committed =
     (case ios_fs_name_extension primary_name of
        Inl e \<Rightarrow> Inl e
      | Inr (extension, len) \<Rightarrow>
          let disk = \<lparr>cd_record_type = IOS_FS_COMPANION_RECORD_TYPE,
                      cd_record_version = IOS_FS_COMPANION_VERSION,
                      cd_hash_algorithm_id = IOS_FS_HASH_FNV1A32,
                      cd_flags = (if committed then IOS_FS_COMPANION_FLAG_COMMITTED else 0),
                      cd_extension_length = of_nat len,
                      cd_primary_name_checksum = ios_fs_primary_name_checksum primary_name,
                      cd_reserved0 = replicate 2 0,
                      cd_extension_hash_text = ios_fs_hash_text (ios_fs_fnv1a32 (take len extension)),
                      cd_crc32 = replicate 4 0, cd_reserved1 = replicate 12 0\<rparr>
          in Inr (disk\<lparr>cd_crc32 := write_u32 (companion_crc disk)\<rparr>))"

definition ios_fs_companion_decode :: "companion_disk \<Rightarrow> ios_fs_companion res" where
  "ios_fs_companion_decode disk =
     (if companion_crc disk \<noteq> read_u32 (cd_crc32 disk) then Inl IOS_E_CORRUPT
      else if cd_record_type disk \<noteq> IOS_FS_COMPANION_RECORD_TYPE
        \<or> cd_record_version disk \<noteq> IOS_FS_COMPANION_VERSION
        \<or> cd_hash_algorithm_id disk \<noteq> IOS_FS_HASH_FNV1A32
        \<or> cd_flags disk AND NOT IOS_FS_COMPANION_FLAG_COMMITTED \<noteq> 0
        \<or> cd_extension_length disk > 3
        \<or> \<not> all_zero (cd_reserved0 disk)
        \<or> \<not> valid_hash_text (cd_extension_hash_text disk)
        \<or> \<not> all_zero (cd_reserved1 disk) then Inl IOS_E_PROTOCOL
      else Inr \<lparr>c_committed = (cd_flags disk AND IOS_FS_COMPANION_FLAG_COMMITTED \<noteq> 0),
                 c_extension_length = cd_extension_length disk,
                 c_primary_name_checksum = cd_primary_name_checksum disk,
                 c_extension_hash_text = cd_extension_hash_text disk\<rparr>)"

definition ios_fs_record_pair_validate :: "companion_disk \<Rightarrow> primary_disk \<Rightarrow> unit res" where
  "ios_fs_record_pair_validate companion_disk primary_disk =
     (case ios_fs_companion_decode companion_disk of
        Inl e \<Rightarrow> Inl e
      | Inr companion \<Rightarrow>
         (case ios_fs_primary_decode primary_disk of
            Inl e \<Rightarrow> Inl (if e = IOS_E_NOT_FOUND then IOS_E_CORRUPT else e)
          | Inr primary \<Rightarrow>
             (case ios_fs_name_extension (p_name primary) of
                Inl e \<Rightarrow> Inl IOS_E_CORRUPT
              | Inr (extension, len) \<Rightarrow>
                 let expected_hash = ios_fs_hash_text (ios_fs_fnv1a32 (take len extension)) in
                 if \<not> c_committed companion
                    \<or> p_attributes primary \<noteq> IOS_FS_ATTRIBUTE_REGULAR
                    \<or> unat (c_extension_length companion) \<noteq> len
                    \<or> c_primary_name_checksum companion \<noteq> ios_fs_primary_name_checksum (p_name primary)
                    \<or> c_extension_hash_text companion \<noteq> expected_hash
                 then Inl IOS_E_CORRUPT else Inr ())))"

definition ios_fs_primary_types_equal ::
  "ios_fs_primary \<Rightarrow> ios_fs_primary \<Rightarrow> bytes \<Rightarrow> bytes \<Rightarrow> bool" where
  "ios_fs_primary_types_equal left right left_hash right_hash =
     (if left_hash \<noteq> right_hash then False
      else case (ios_fs_name_extension (p_name left), ios_fs_name_extension (p_name right)) of
        (Inr (left_extension, left_length), Inr (right_extension, right_length)) \<Rightarrow>
          left_length = right_length
          \<and> take left_length left_extension = take left_length right_extension
      | _ \<Rightarrow> False)"


section \<open>Structure casts\<close>

lemma companion_disk_of_bytes [codec_simps]:
  "companion_disk_wf d \<Longrightarrow> companion_disk_of (companion_disk_bytes d) = d"
  by (cases d) (simp add: companion_disk_of_def companion_disk_bytes_def companion_disk_wf_def field_at_def)

lemma primary_disk_of_bytes [codec_simps]:
  "primary_disk_wf d \<Longrightarrow> primary_disk_of (primary_disk_bytes d) = d"
  by (cases d)
    (simp add: primary_disk_of_def primary_disk_bytes_def primary_disk_wf_def field_at_def nth_append)

lemma length_disk_bytes [simp]:
  "companion_disk_wf c \<Longrightarrow> length (companion_disk_bytes c) = 32"
  "primary_disk_wf p \<Longrightarrow> length (primary_disk_bytes p) = 32"
  by (simp_all add: companion_disk_bytes_def companion_disk_wf_def primary_disk_bytes_def
      primary_disk_wf_def)

lemma disk_of_wf [simp]:
  "length bs = 32 \<Longrightarrow> companion_disk_wf (companion_disk_of bs)"
  "length bs = 32 \<Longrightarrow> primary_disk_wf (primary_disk_of bs)"
  by (simp_all add: companion_disk_wf_def companion_disk_of_def primary_disk_wf_def
      primary_disk_of_def field_at_def)

lemma companion_bytes_with_crc:
  assumes "length bs = 32" and "length z = 4"
  shows "companion_disk_bytes ((companion_disk_of bs)\<lparr>cd_crc32 := z\<rparr>) = overwrite bs 16 z"
  using assms
  by (intro nth_equalityI)
    (auto simp: companion_disk_bytes_def companion_disk_of_def field_at_def nth_append nth_Cons'
      nth_overwrite, auto simp: le_Suc_eq numeral_eq_Suc)

lemma companion_crc_of:
  "length bs = 32 \<Longrightarrow>
    companion_crc (companion_disk_of bs) = ios_fs_crc32_iso_hdlc (overwrite bs 16 (replicate 4 0))"
  by (simp add: companion_crc_def companion_bytes_with_crc)

lemma overwrite_update_outside:
  assumes "off + length src \<le> length bs" and "i < length bs" and "i < off \<or> off + length src \<le> i"
  shows "overwrite (bs[i := b]) off src = (overwrite bs off src)[i := b]"
  using assms by (intro nth_equalityI) (auto simp: nth_overwrite nth_list_update)

lemma overwrite_update_inside:
  assumes "off + length src \<le> length bs" and "off \<le> i" and "i < off + length src"
  shows "overwrite (bs[i := b]) off src = overwrite bs off src"
  using assms by (intro nth_equalityI) (auto simp: nth_overwrite nth_list_update)

text \<open>
  A record sealed by the checksum of its bytes, taken with the checksum field zero, is no
  longer sealed after the change of any single byte.
\<close>

lemma crc_field_one_byte:
  assumes "off + 4 \<le> length bs" and "i < length bs" and "bs ! i \<noteq> b"
    and crc: "ios_fs_crc32_iso_hdlc (overwrite bs off (replicate 4 0)) = read_u32 (field_at off 4 bs)"
  shows "ios_fs_crc32_iso_hdlc (overwrite (bs[i := b]) off (replicate 4 0))
    \<noteq> read_u32 (field_at off 4 (bs[i := b]))"
proof (cases "off \<le> i \<and> i < off + 4")
  let ?z = "\<lambda>bs. overwrite bs off (replicate 4 (0 :: u8))"
  case True
  then have "?z (bs[i := b]) = ?z bs" using assms(1) by (simp add: overwrite_update_inside)
  moreover have "field_at off 4 (bs[i := b]) \<noteq> field_at off 4 bs"
  proof
    assume "field_at off 4 (bs[i := b]) = field_at off 4 bs"
    then have "field_at off 4 (bs[i := b]) ! (i - off) = field_at off 4 bs ! (i - off)" by simp
    moreover have "i - off < 4" "off + (i - off) = i" using True by auto
    ultimately show False using assms(1-3) by (simp add: field_at_def)
  qed
  ultimately show ?thesis using crc assms(1) by (simp add: read_u32_inj length_field_at)
next
  let ?z = "\<lambda>bs. overwrite bs off (replicate 4 (0 :: u8))"
  case False
  then have "?z (bs[i := b]) = (?z bs)[i := b]" and "field_at off 4 (bs[i := b]) = field_at off 4 bs"
    using assms(1,2) by (auto simp: overwrite_update_outside field_at_def drop_update_swap)
  moreover have "?z bs ! i \<noteq> b" using False assms(1-3) by (auto simp: nth_overwrite)
  ultimately show ?thesis using crc32_one_byte [of i "?z bs" b] crc assms(1,2) by simp
qed

section \<open>Names are well formed and round-trip\<close>

text \<open>The stored name made of base \<open>bs\<close> and extension \<open>es\<close>.\<close>

definition stored_name :: "bytes \<Rightarrow> bytes \<Rightarrow> bytes" where
  "stored_name bs es = bs @ replicate (8 - length bs) 32 @ es @ replicate (3 - length es) 32"

definition name_parts_ok :: "bytes \<Rightarrow> bytes \<Rightarrow> bool" where
  "name_parts_ok bs es \<longleftrightarrow> length bs \<le> 8 \<and> length es \<le> 3
     \<and> list_all supported_name_byte bs \<and> list_all supported_name_byte es"

lemma not_supported_space [simp]: "\<not> supported_name_byte 32"
  and not_supported_dot [simp]: "\<not> supported_name_byte 46"
  and not_supported_zero [simp]: "\<not> supported_name_byte 0"
  and not_supported_deleted [simp]: "\<not> supported_name_byte 0xe5"
  by (simp_all add: supported_name_byte_def)

lemma padded_field_spaces [simp]: "padded_field p (replicate n 32)"
  by (induction n arbitrary: p) simp_all

lemma padded_field_supported:
  "list_all supported_name_byte bs \<Longrightarrow> padded_field False (bs @ replicate n 32)"
  by (induction bs) auto

lemma padded_field_False_iff:
  "padded_field False fs \<longleftrightarrow> (\<exists>bs n. fs = bs @ replicate n 32 \<and> list_all supported_name_byte bs)"
proof (induction fs)
  case Nil
  then show ?case by simp
next
  case (Cons b fs)
  have spaces: "padded_field True xs \<longleftrightarrow> xs = replicate (length xs) 32" for xs
    by (induction xs) auto
  show ?case
  proof (cases "b = 32")
    case True
    have "b # fs = bs @ replicate n 32 \<and> list_all supported_name_byte bs \<longleftrightarrow>
       bs = [] \<and> b # fs = replicate n 32" for bs n
      using True by (cases bs) auto
    moreover have "fs = replicate (length fs) 32 \<longleftrightarrow> (\<exists>n. b # fs = replicate n 32)"
      using True by (metis length_replicate list.size(4) add.commute plus_1_eq_Suc replicate_Suc list.inject)
    ultimately show ?thesis using True by (simp add: spaces)
  next
    case False
    show ?thesis
    proof
      assume "padded_field False (b # fs)"
      then have "supported_name_byte b" "padded_field False fs" using False by (auto split: if_splits)
      with Cons.IH obtain bs n where "fs = bs @ replicate n 32" "list_all supported_name_byte bs" by auto
      with \<open>supported_name_byte b\<close> show "\<exists>bs n. b # fs = bs @ replicate n 32 \<and> list_all supported_name_byte bs"
        by (intro exI [of _ "b # bs"] exI [of _ n]) simp
    next
      assume "\<exists>bs n. b # fs = bs @ replicate n 32 \<and> list_all supported_name_byte bs"
      then show "padded_field False (b # fs)" by (auto simp del: padded_field.simps intro: padded_field_supported)
    qed
  qed
qed

lemma length_stored_name [simp]: "name_parts_ok bs es \<Longrightarrow> length (stored_name bs es) = 11"
  by (simp add: name_parts_ok_def stored_name_def)

lemma stored_name_fields:
  assumes "name_parts_ok bs es"
  shows "field_at 0 8 (stored_name bs es) = bs @ replicate (8 - length bs) 32"
    and "field_at 8 3 (stored_name bs es) = es @ replicate (3 - length es) 32"
  using assms by (simp_all add: stored_name_def field_at_def name_parts_ok_def)

lemma stored_name_valid:
  assumes "name_parts_ok bs es" and "bs \<noteq> []"
  shows "valid_stored_name (stored_name bs es)"
proof -
  obtain c cs where bs: "bs = c # cs" using assms(2) by (cases bs) auto
  then have "stored_name bs es ! 0 \<noteq> 32" using assms(1) by (auto simp: stored_name_def name_parts_ok_def)
  then show ?thesis
    using assms(1) unfolding valid_stored_name_def stored_name_fields [OF assms(1)]
    by (simp add: padded_field_supported name_parts_ok_def)
qed

lemma valid_stored_name_iff:
  assumes "length name = 11"
  shows "valid_stored_name name \<longleftrightarrow> (\<exists>bs es. name = stored_name bs es \<and> name_parts_ok bs es \<and> bs \<noteq> [])"
proof
  assume valid: "valid_stored_name name"
  then obtain bs n es m where
    fields: "field_at 0 8 name = bs @ replicate n 32" "list_all supported_name_byte bs"
      "field_at 8 3 name = es @ replicate m 32" "list_all supported_name_byte es"
    by (auto simp: valid_stored_name_def padded_field_False_iff)
  have "length bs + n = 8" "length es + m = 3"
    using arg_cong [OF fields(1), of length] arg_cong [OF fields(3), of length] assms
    by (simp_all add: field_at_def)
  then have nm: "n = 8 - length bs" "m = 3 - length es" "length bs \<le> 8" "length es \<le> 3" by simp_all
  have "name = field_at 0 8 name @ field_at 8 3 name" using assms by (simp add: field_at_def)
  then have "name = stored_name bs es" by (simp add: stored_name_def nm(1,2) fields(1,3))
  moreover have "name_parts_ok bs es" using fields nm by (simp add: name_parts_ok_def)
  moreover have "bs \<noteq> []"
    using valid \<open>name = stored_name bs es\<close> by (auto simp: valid_stored_name_def stored_name_def nth_append)
  ultimately show "\<exists>bs es. name = stored_name bs es \<and> name_parts_ok bs es \<and> bs \<noteq> []" by blast
qed (auto intro: stored_name_valid)

lemma valid_stored_name_first:
  assumes "length name = 11" and "valid_stored_name name"
  shows "supported_name_byte (name ! 0)"
  using assms by (auto simp: valid_stored_name_iff stored_name_def name_parts_ok_def neq_Nil_conv)

section \<open>Canonicalisation\<close>

lemma stored_name_base_update:
  assumes "length bs < 8" and "length es \<le> 3"
  shows "(stored_name bs es)[length bs := v] = stored_name (bs @ [v]) es"
proof -
  obtain n where n: "8 - length bs = Suc n" using assms(1) by (cases "8 - length bs") auto
  then have "8 - length (bs @ [v]) = n" by simp
  then show ?thesis by (simp add: stored_name_def n list_update_append)
qed

lemma stored_name_extension_update:
  assumes "length bs \<le> 8" and "length es < 3"
  shows "(stored_name bs es)[8 + length es := v] = stored_name bs (es @ [v])"
proof -
  obtain n where n: "3 - length es = Suc n" using assms(2) by (cases "3 - length es") auto
  then have "3 - length (es @ [v]) = n" by simp
  then show ?thesis using assms(1) by (auto simp: stored_name_def n list_update_append)
qed

lemma canonicalize_loop_shape:
  assumes "canonicalize_loop cursor (stored_name bs es) (length bs) (length es) ext = Inr output"
    and "name_parts_ok bs es" and "cursor \<noteq> [] \<or> bs \<noteq> []" and "ext \<longrightarrow> bs \<noteq> []"
  shows "\<exists>bs' es'. output = stored_name bs' es' \<and> name_parts_ok bs' es' \<and> bs' \<noteq> []"
  using assms
proof (induction cursor arbitrary: bs es ext)
  case Nil
  then show ?case by auto
next
  case (Cons c cursor)
  consider (dot) "c = 46" "\<not> ext" "bs \<noteq> []"
      "canonicalize_loop cursor (stored_name bs es) (length bs) (length es) True = Inr output"
    | (base) "\<not> ext" "length bs < 8" "supported_name_byte (upcase c)"
      "canonicalize_loop cursor ((stored_name bs es)[length bs := upcase c]) (length bs + 1)
         (length es) ext = Inr output"
    | (extension) ext "length es < 3" "supported_name_byte (upcase c)"
      "canonicalize_loop cursor ((stored_name bs es)[8 + length es := upcase c]) (length bs)
         (length es + 1) ext = Inr output"
    using Cons.prems(1,2) by (fastforce simp: Let_def name_parts_ok_def split: if_splits)
  then show ?case
  proof cases
    case dot
    then show ?thesis using Cons.IH [of bs es True] Cons.prems by auto
  next
    case base
    then show ?thesis
      using Cons.IH [of "bs @ [upcase c]" es ext] Cons.prems(2)
      by (auto simp: stored_name_base_update name_parts_ok_def)
  next
    case extension
    then show ?thesis
      using Cons.IH [of bs "es @ [upcase c]" ext] Cons.prems(2,4)
      by (auto simp: stored_name_extension_update name_parts_ok_def)
  qed
qed

lemma stored_name_empty: "stored_name [] [] = replicate 11 32"
  by (simp add: stored_name_def flip: replicate_add)

lemma canonicalize_shape:
  assumes "ios_fs_name_canonicalize_83 input = Inr output"
  shows "\<exists>bs es. output = stored_name bs es \<and> name_parts_ok bs es \<and> bs \<noteq> []"
proof (rule canonicalize_loop_shape)
  show "canonicalize_loop input (stored_name [] []) (length []) (length []) False = Inr output"
    using assms by (simp add: ios_fs_name_canonicalize_83_def stored_name_empty split: if_splits)
qed (use assms in \<open>auto simp: ios_fs_name_canonicalize_83_def name_parts_ok_def split: if_splits\<close>)

text \<open>The dotted text of a stored name: what a user types to get exactly that name.\<close>

definition name_text :: "bytes \<Rightarrow> bytes \<Rightarrow> bytes" where
  "name_text bs es = bs @ (if es = [] then [] else 46 # es)"

lemma upcase_supported [simp]: "supported_name_byte v \<Longrightarrow> upcase v = v"
  by (auto simp: supported_name_byte_def upcase_def word_less_nat_alt word_le_nat_alt)

lemma canonicalize_loop_base:
  "list_all supported_name_byte cs \<Longrightarrow> length (bs @ cs) \<le> 8 \<Longrightarrow> length es \<le> 3 \<Longrightarrow>
   canonicalize_loop (cs @ cursor) (stored_name bs es) (length bs) n False
   = canonicalize_loop cursor (stored_name (bs @ cs) es) (length (bs @ cs)) n False"
proof (induction cs arbitrary: bs)
  case (Cons c cs)
  then have "c \<noteq> 46" by auto
  with Cons show ?case using Cons.IH [of "bs @ [c]"] by (simp add: stored_name_base_update)
qed simp

lemma canonicalize_loop_extension:
  "list_all supported_name_byte cs \<Longrightarrow> length (es @ cs) \<le> 3 \<Longrightarrow> length bs \<le> 8 \<Longrightarrow>
   canonicalize_loop cs (stored_name bs es) n (length es) True = Inr (stored_name bs (es @ cs))"
proof (induction cs arbitrary: es)
  case (Cons c cs)
  then have "c \<noteq> 46" by auto
  with Cons show ?case using Cons.IH [of "es @ [c]"] by (simp add: stored_name_extension_update)
qed simp

lemma canonicalize_name_text:
  assumes "name_parts_ok bs es" and "bs \<noteq> []"
  shows "ios_fs_name_canonicalize_83 (name_text bs es) = Inr (stored_name bs es)"
proof -
  have "ios_fs_name_canonicalize_83 (name_text bs es)
      = canonicalize_loop (bs @ (if es = [] then [] else 46 # es)) (stored_name [] []) 0 0 False"
    using assms(2) by (simp add: ios_fs_name_canonicalize_83_def name_text_def stored_name_empty)
  also have "\<dots> = canonicalize_loop (if es = [] then [] else 46 # es) (stored_name bs []) (length bs) 0 False"
    using assms(1) canonicalize_loop_base [of bs "[]" "[]"] by (simp add: name_parts_ok_def)
  also have "\<dots> = Inr (stored_name bs es)"
    using assms canonicalize_loop_extension [of es "[]" bs] by (simp add: name_parts_ok_def)
  finally show ?thesis .
qed

section \<open>Extensions\<close>

lemma trim_extension_stored:
  assumes "name_parts_ok bs es" and "k \<le> 3 - length es"
  shows "trim_extension (stored_name bs es) (length es + k) = length es"
  using assms(2)
proof (induction k)
  case 0
  have last: "es ! n \<noteq> 32" if "n < length es" for n
    using assms(1) that by (auto simp: name_parts_ok_def list_all_length)
  show ?case
  proof (cases es rule: rev_cases)
    case (snoc es' e)
    then have "stored_name bs es ! (8 + length es') = es ! length es'"
      using assms(1) by (auto simp: stored_name_def nth_append name_parts_ok_def)
    then show ?thesis using last [of "length es'"] snoc by simp
  qed simp
next
  case (Suc k)
  then have "stored_name bs es ! (8 + (length es + k)) = 32"
    using assms(1) by (auto simp: stored_name_def nth_append name_parts_ok_def)
  with Suc show ?case by simp
qed

lemma name_extension_stored:
  assumes "name_parts_ok bs es" and "bs \<noteq> []"
  shows "ios_fs_name_extension (stored_name bs es)
       = Inr (es @ replicate (3 - length es) 0, length es)"
proof -
  have "trim_extension (stored_name bs es) 3 = length es"
    using trim_extension_stored [OF assms(1), of "3 - length es"] assms(1) by (simp add: name_parts_ok_def)
  moreover have "field_at 8 (length es) (stored_name bs es) = es"
    using assms(1) by (simp add: stored_name_def field_at_def name_parts_ok_def)
  ultimately show ?thesis
    using stored_name_valid [OF assms]
    by (simp add: ios_fs_name_extension_def Let_def overwrite_def)
qed

lemma name_extension_cases:
  assumes "length name = 11" and "ios_fs_name_extension name = Inr (ext, len)"
  obtains bs es where "name = stored_name bs es" "name_parts_ok bs es" "bs \<noteq> []"
    "ext = es @ replicate (3 - length es) 0" "len = length es"
proof -
  have "valid_stored_name name" using assms(2) by (auto simp: ios_fs_name_extension_def split: if_splits)
  then obtain bs es where "name = stored_name bs es" "name_parts_ok bs es" "bs \<noteq> []"
    using assms(1) valid_stored_name_iff by blast
  then show ?thesis using that assms(2) name_extension_stored by auto
qed

lemma name_extension_ok_iff:
  "(\<exists>r. ios_fs_name_extension name = Inr r) \<longleftrightarrow> valid_stored_name name"
  by (simp add: ios_fs_name_extension_def Let_def)

lemma extension_query_loop_eq:
  "length out + length cs \<le> 3 \<Longrightarrow> list_all supported_name_byte (map upcase cs) \<Longrightarrow> out @ cs \<noteq> [] \<Longrightarrow>
   extension_query_loop cs (out @ replicate (3 - length out) 0) (length out)
   = Inr (out @ map upcase cs @ replicate (3 - length out - length cs) 0, length out + length cs)"
proof (induction cs arbitrary: out)
  case Nil
  then show ?case by simp
next
  case (Cons c cs)
  obtain n where n: "3 - length out = Suc n" using Cons.prems(1) by (cases "3 - length out") auto
  then have n': "3 - length (out @ [upcase c]) = n" by simp
  have upd: "(out @ replicate (3 - length out) 0)[length out := upcase c]
      = (out @ [upcase c]) @ replicate (3 - length (out @ [upcase c])) 0"
    unfolding n n' by (simp add: list_update_append)
  have "length out \<noteq> 3" using Cons.prems(1) by auto
  then show ?case
    using Cons.IH [of "out @ [upcase c]"] Cons.prems by (simp add: upd del: append_assoc)
qed

section \<open>Records round-trip\<close>

lemma all_zero_replicate: "all_zero bs \<longleftrightarrow> bs = replicate (length bs) 0"
  by (induction bs) auto

lemma all_zero_two: "length bs = 2 \<Longrightarrow> all_zero bs \<longleftrightarrow> bs = [0, 0]"
  by (simp add: all_zero_replicate numeral_2_eq_2)

lemma cluster_halves:
  "push_bit 16 (ucast (ucast (drop_bit 16 (c :: u32)) :: u16)) OR ucast (ucast c :: u16) = c"
  by (rule bit_word_eqI)
    (auto simp: bit_or_iff bit_push_bit_iff bit_ucast_iff bit_drop_bit_eq possible_bit_word)

lemma cluster_halves_high:
  "ucast (drop_bit 16 (push_bit 16 (ucast (h :: u16) :: u32)) OR drop_bit 16 (ucast (l :: u16))) = h"
  by (rule bit_word_eqI)
    (auto simp: bit_or_iff bit_push_bit_iff bit_ucast_iff bit_drop_bit_eq possible_bit_word
      dest: bit_imp_le_length)

lemma cluster_halves_low: "ucast (push_bit 16 (ucast (h :: u16) :: u32) OR ucast (l :: u16)) = l"
  by (rule bit_word_eqI)
    (auto simp: bit_or_iff bit_push_bit_iff bit_ucast_iff possible_bit_word)

lemma primary_fields_first:
  assumes "length name = 11" and "\<not> primary_fields_rejected name a c sz"
  shows "name ! 0 \<noteq> 0" and "name ! 0 \<noteq> 0xe5"
  using valid_stored_name_first [OF assms(1)] assms(2)
  by (auto simp: primary_fields_rejected_def supported_name_byte_def)

lemma primary_decode_encode:
  assumes "length (p_name v) = 11" and "ios_fs_primary_encode v = Inr d"
  shows "ios_fs_primary_decode d = Inr v"
proof -
  have ok: "\<not> primary_fields_rejected (p_name v) (p_attributes v) (p_first_cluster v) (p_file_size v)"
    using assms(2) by (auto simp: ios_fs_primary_encode_def split: if_splits)
  then show ?thesis
    using assms primary_fields_first [OF assms(1) ok]
    by (auto simp: ios_fs_primary_encode_def ios_fs_primary_decode_def primary_disk_cluster_def
        cluster_halves Let_def)
qed

lemma primary_encode_wf:
  "length (p_name v) = 11 \<Longrightarrow> ios_fs_primary_encode v = Inr d \<Longrightarrow> primary_disk_wf d"
  by (auto simp: ios_fs_primary_encode_def primary_disk_wf_def split: if_splits)

lemma primary_decode_Inr:
  assumes "ios_fs_primary_decode d = Inr v"
  shows "\<not> primary_fields_rejected (p_name v) (p_attributes v) (p_first_cluster v) (p_file_size v)"
    and "p_name v = pd_name d"
  using assms by (auto simp: ios_fs_primary_decode_def Let_def split: if_splits)

lemma primary_encode_decode:
  assumes "primary_disk_wf d" and "ios_fs_primary_decode d = Inr v"
  shows "ios_fs_primary_encode v = Inr d"
  using assms
  by (cases d)
    (auto simp: ios_fs_primary_decode_def ios_fs_primary_encode_def primary_disk_cluster_def
      primary_disk_wf_def Let_def cluster_halves_high cluster_halves_low write_read_u16
      write_read_u32 all_zero_two split: if_splits)

lemma valid_hash_text_hash [simp]: "valid_hash_text (ios_fs_hash_text h)"
proof -
  have "(48 \<le> b \<and> b \<le> 57) \<or> (65 \<le> b \<and> b \<le> 70)" if "b \<in> set hash_digits" for b
    using that by (auto simp: hash_digits_def)
  then show ?thesis using set_hash_text [of h] by (auto simp: valid_hash_text_def list_all_iff)
qed

lemma companion_crc_irrelevant [simp]: "companion_crc (d\<lparr>cd_crc32 := x\<rparr>) = companion_crc d"
  by (simp add: companion_crc_def)

lemma companion_encode_wf:
  "ios_fs_companion_encode name committed = Inr d \<Longrightarrow> companion_disk_wf d"
  by (auto simp: ios_fs_companion_encode_def companion_disk_wf_def Let_def split: sum.splits)

lemma committed_flags: "(f :: u8) AND NOT 1 = 0 \<Longrightarrow> f AND 1 \<noteq> 0 \<longleftrightarrow> f = 1"
proof -
  assume "f AND NOT 1 = 0"
  then have "f = f AND 1"
    by (metis bit.conj_disj_distrib bit.disj_cancel_right or.right_neutral and.right_neutral or.commute)
  then show "f AND 1 \<noteq> 0 \<longleftrightarrow> f = 1"
    by (metis and_one_eq mod2_eq_if zero_neq_one)
qed

lemma companion_decode_crc:
  "ios_fs_companion_decode d = Inr c \<Longrightarrow> companion_crc d = read_u32 (cd_crc32 d)"
  by (auto simp: ios_fs_companion_decode_def split: if_splits)

lemma companion_decode_encode:
  assumes "length name = 11" and "ios_fs_companion_encode name committed = Inr d"
    and "ios_fs_name_extension name = Inr (ext, len)"
  shows "ios_fs_companion_decode d = Inr
     \<lparr>c_committed = committed, c_extension_length = of_nat len,
      c_primary_name_checksum = ios_fs_primary_name_checksum name,
      c_extension_hash_text = ios_fs_hash_text (ios_fs_fnv1a32 (take len ext))\<rparr>"
proof -
  have "len \<le> 3"
    using assms(1,3) by (elim name_extension_cases) (auto simp: name_parts_ok_def)
  then have "\<not> (of_nat len :: u8) > 3" by (simp add: not_less word_le_nat_alt unat_of_nat)
  then show ?thesis
    using assms(2,3) by (cases committed)
      (auto simp: ios_fs_companion_encode_def ios_fs_companion_decode_def companion_crc_def Let_def)
qed

text \<open>A validating pair carries exactly the companion that encoding would produce.\<close>

lemma pair_validate_Inr_cases:
  assumes "ios_fs_record_pair_validate cd pd = Inr ()"
  obtains c p ext len where "ios_fs_companion_decode cd = Inr c" "ios_fs_primary_decode pd = Inr p"
    "ios_fs_name_extension (p_name p) = Inr (ext, len)" "c_committed c"
    "p_attributes p = IOS_FS_ATTRIBUTE_REGULAR" "unat (c_extension_length c) = len"
    "c_primary_name_checksum c = ios_fs_primary_name_checksum (p_name p)"
    "c_extension_hash_text c = ios_fs_hash_text (ios_fs_fnv1a32 (take len ext))"
  using assms
  by (auto simp: ios_fs_record_pair_validate_def Let_def split: sum.splits prod.splits if_splits)

lemma companion_decode_fields:
  assumes "companion_disk_wf cd" and "ios_fs_companion_decode cd = Inr c" and "c_committed c"
  shows "cd = (let d = \<lparr>cd_record_type = IOS_FS_COMPANION_RECORD_TYPE,
      cd_record_version = IOS_FS_COMPANION_VERSION, cd_hash_algorithm_id = IOS_FS_HASH_FNV1A32,
      cd_flags = IOS_FS_COMPANION_FLAG_COMMITTED, cd_extension_length = c_extension_length c,
      cd_primary_name_checksum = c_primary_name_checksum c, cd_reserved0 = replicate 2 0,
      cd_extension_hash_text = c_extension_hash_text c, cd_crc32 = replicate 4 0,
      cd_reserved1 = replicate 12 0\<rparr> in d\<lparr>cd_crc32 := write_u32 (companion_crc d)\<rparr>)"
proof -
  have crc: "companion_crc cd = read_u32 (cd_crc32 cd)"
    and flags: "cd_flags cd AND NOT 1 = 0" "cd_flags cd AND 1 \<noteq> 0"
    using assms(2,3) by (auto simp: ios_fs_companion_decode_def split: if_splits)
  have "cd_flags cd = 1" using flags committed_flags by blast
  moreover have "cd_crc32 cd = write_u32 (companion_crc cd)"
    using assms(1) by (simp add: crc write_read_u32 companion_disk_wf_def)
  ultimately show ?thesis
    using assms
    by (cases cd)
      (auto simp: ios_fs_companion_decode_def companion_disk_wf_def Let_def companion_crc_def
        all_zero_replicate split: if_splits)
qed

lemma pair_validate_iff:
  assumes "companion_disk_wf cd" and "primary_disk_wf pd"
  shows "ios_fs_record_pair_validate cd pd = Inr () \<longleftrightarrow>
    (\<exists>p. ios_fs_primary_decode pd = Inr p \<and> p_attributes p = IOS_FS_ATTRIBUTE_REGULAR
       \<and> ios_fs_companion_encode (p_name p) True = Inr cd)"
    (is "?valid \<longleftrightarrow> ?canonical")
proof
  assume ?valid
  then obtain c p ext len where parts: "ios_fs_companion_decode cd = Inr c"
    "ios_fs_primary_decode pd = Inr p" "ios_fs_name_extension (p_name p) = Inr (ext, len)"
    "c_committed c" "p_attributes p = IOS_FS_ATTRIBUTE_REGULAR" "unat (c_extension_length c) = len"
    "c_primary_name_checksum c = ios_fs_primary_name_checksum (p_name p)"
    "c_extension_hash_text c = ios_fs_hash_text (ios_fs_fnv1a32 (take len ext))"
    by (rule pair_validate_Inr_cases)
  have "of_nat len = c_extension_length c" using parts(6) by (auto simp: of_nat_unat)
  then have "ios_fs_companion_encode (p_name p) True = Inr cd"
    using parts companion_decode_fields [OF assms(1) parts(1,4)]
    by (simp add: ios_fs_companion_encode_def Let_def)
  with parts show ?canonical by blast
next
  assume ?canonical
  then obtain p where p: "ios_fs_primary_decode pd = Inr p" "p_attributes p = IOS_FS_ATTRIBUTE_REGULAR"
    "ios_fs_companion_encode (p_name p) True = Inr cd" by blast
  have len: "length (p_name p) = 11" using primary_decode_Inr(2) [OF p(1)] assms(2) by (simp add: primary_disk_wf_def)
  obtain ext n where ext: "ios_fs_name_extension (p_name p) = Inr (ext, n)"
    using p(3) by (auto simp: ios_fs_companion_encode_def split: sum.splits)
  then have "n \<le> 3" using len by (elim name_extension_cases) (auto simp: name_parts_ok_def)
  then have "unat (of_nat n :: u8) = n" by (simp add: unat_of_nat)
  then show ?valid
    using p ext companion_decode_encode [OF len p(3) ext]
    by (simp add: ios_fs_record_pair_validate_def Let_def)
qed

lemma pair_validate_uncommitted:
  assumes "length name = 11" and "ios_fs_companion_encode name False = Inr cd"
  shows "\<exists>e. ios_fs_record_pair_validate cd pd = Inl e"
proof -
  obtain ext n where ext: "ios_fs_name_extension name = Inr (ext, n)"
    using assms(2) by (auto simp: ios_fs_companion_encode_def split: sum.splits)
  show ?thesis
    using companion_decode_encode [OF assms ext]
    by (auto simp: ios_fs_record_pair_validate_def Let_def split: sum.splits prod.splits)
qed

lemma companion_one_byte:
  assumes "length bs = 32" and "i < 32" and "bs ! i \<noteq> b"
    and "ios_fs_companion_decode (companion_disk_of bs) = Inr c"
  shows "ios_fs_companion_decode (companion_disk_of (bs[i := b])) = Inl IOS_E_CORRUPT"
proof -
  have "ios_fs_crc32_iso_hdlc (overwrite bs 16 (replicate 4 0)) = read_u32 (field_at 16 4 bs)"
    using companion_decode_crc [OF assms(4)] assms(1) by (simp add: companion_crc_of)
      (simp add: companion_disk_of_def)
  then have "companion_crc (companion_disk_of (bs[i := b]))
      \<noteq> read_u32 (cd_crc32 (companion_disk_of (bs[i := b])))"
    using crc_field_one_byte [of 16 bs i b] assms(1-3) by (simp add: companion_crc_of)
      (simp add: companion_disk_of_def)
  then show ?thesis by (simp add: ios_fs_companion_decode_def)
qed

section \<open>Queries and names agree on extensions\<close>

lemma upcase_dot [simp]: "upcase 46 = 46"
  by (simp add: upcase_def)

lemma canonicalize_loop_extension_Inr:
  assumes "canonicalize_loop cs (stored_name bs es) n (length es) True = Inr output"
    and "length bs \<le> 8" and "length es \<le> 3"
  shows "output = stored_name bs (es @ map upcase cs) \<and> list_all supported_name_byte (map upcase cs)
     \<and> length es + length cs \<le> 3"
  using assms
proof (induction cs arbitrary: es)
  case (Cons c cs)
  then have step: "supported_name_byte (upcase c)" "length es < 3"
      "canonicalize_loop cs ((stored_name bs es)[8 + length es := upcase c]) n (length es + 1) True = Inr output"
    by (auto simp: Let_def split: if_splits)
  then show ?case using Cons.IH [of "es @ [upcase c]"] assms(2) by (simp add: stored_name_extension_update)
qed simp

lemma canonicalize_loop_dotted:
  assumes "canonicalize_loop (cs @ 46 # e) (stored_name bs []) (length bs) 0 False = Inr output"
    and "name_parts_ok bs []"
  shows "\<exists>bs'. output = stored_name bs' (map upcase e) \<and> name_parts_ok bs' (map upcase e) \<and> bs' \<noteq> []"
  using assms
proof (induction cs arbitrary: bs)
  case Nil
  then have "canonicalize_loop e (stored_name bs []) (length bs) (length ([] :: bytes)) True = Inr output"
    and "bs \<noteq> []" by (auto split: if_splits)
  then show ?case
    using canonicalize_loop_extension_Inr [of e bs "[]"] Nil.prems(2) by (auto simp: name_parts_ok_def)
next
  case (Cons c cs)
  show ?case
  proof (cases "c = 46")
    case True
    then have "canonicalize_loop (cs @ 46 # e) (stored_name bs []) (length bs) (length ([] :: bytes)) True = Inr output"
      using Cons.prems(1) by (auto split: if_splits)
    then show ?thesis
      using canonicalize_loop_extension_Inr [of "cs @ 46 # e" bs "[]"] Cons.prems(2)
      by (auto simp: name_parts_ok_def)
  next
    case False
    then have "supported_name_byte (upcase c)" "length bs \<noteq> 8"
        "canonicalize_loop (cs @ 46 # e) ((stored_name bs [])[length bs := upcase c]) (length bs + 1) 0 False = Inr output"
      using Cons.prems(1) by (auto simp: Let_def split: if_splits)
    then show ?thesis
      using Cons.IH [of "bs @ [upcase c]"] Cons.prems(2)
      by (auto simp: name_parts_ok_def stored_name_base_update)
  qed
qed

lemma query_matches_name:
  assumes "ios_fs_name_canonicalize_83 (base @ 46 # e) = Inr name" and "e \<noteq> []"
  shows "ios_fs_extension_query_canonicalize e = ios_fs_name_extension name
       \<and> ios_fs_extension_query_canonicalize (46 # e) = ios_fs_name_extension name"
proof -
  have "canonicalize_loop (base @ 46 # e) (stored_name [] []) (length ([] :: bytes)) 0 False = Inr name"
    using assms(1) by (simp add: ios_fs_name_canonicalize_83_def stored_name_empty)
  then obtain bs where bs: "name = stored_name bs (map upcase e)" "name_parts_ok bs (map upcase e)" "bs \<noteq> []"
    using canonicalize_loop_dotted [of base e "[]" name] by (auto simp: name_parts_ok_def)
  have len: "length e \<le> 3" and "list_all supported_name_byte (map upcase e)"
    using bs(2) by (simp_all add: name_parts_ok_def)
  then have "extension_query_loop e (replicate 3 0) 0 = ios_fs_name_extension name"
    using extension_query_loop_eq [of "[]" e] assms(2) name_extension_stored [OF bs(2,3)] bs(1) by simp
  moreover have "hd e \<noteq> 46"
    using \<open>list_all supported_name_byte (map upcase e)\<close> assms(2) by (cases e) auto
  ultimately show ?thesis
    using len assms(2) by (simp add: ios_fs_extension_query_canonicalize_def)
qed

section \<open>Properties\<close>

text \<open>The 8.3 canonicaliser produces exactly the valid stored names: every successful
  result is an 11-byte valid stored name, and every valid stored name is the result of
  canonicalising some text.\<close>

theorem canonicalize_exactly_valid_names:
  "(\<exists>input. ios_fs_name_canonicalize_83 input = Inr name)
     \<longleftrightarrow> length name = 11 \<and> valid_stored_name name"
proof
  assume "\<exists>input. ios_fs_name_canonicalize_83 input = Inr name"
  then obtain bs es where "name = stored_name bs es" "name_parts_ok bs es" "bs \<noteq> []"
    using canonicalize_shape by blast
  then show "length name = 11 \<and> valid_stored_name name" by (simp add: stored_name_valid)
next
  assume "length name = 11 \<and> valid_stored_name name"
  then show "\<exists>input. ios_fs_name_canonicalize_83 input = Inr name"
    using valid_stored_name_iff canonicalize_name_text by metis
qed

text \<open>Encoding and decoding of a primary record are inverse: a 32-byte structure decodes to
  a value exactly when that value (with an 11-byte name) encodes to that structure.\<close>

theorem primary_encode_iff_decode:
  "primary_disk_wf d \<and> ios_fs_primary_decode d = Inr v
     \<longleftrightarrow> length (p_name v) = 11 \<and> ios_fs_primary_encode v = Inr d"
  using primary_encode_decode primary_decode_encode primary_encode_wf primary_decode_Inr(2)
  by (metis primary_disk_wf_def)

text \<open>C31: A companion/primary pair validates exactly when the primary decodes to a regular file
  and the companion is, byte for byte, the committed companion of that file's name.\<close>

theorem record_pair_validate_exact:
  assumes "companion_disk_wf cd" and "primary_disk_wf pd"
  shows "ios_fs_record_pair_validate cd pd = Inr () \<longleftrightarrow>
    (\<exists>p. ios_fs_primary_decode pd = Inr p \<and> p_attributes p = IOS_FS_ATTRIBUTE_REGULAR
       \<and> ios_fs_companion_encode (p_name p) True = Inr cd)"
  using assms by (rule pair_validate_iff)

text \<open>Any damage to a single byte of a decodable 32-byte companion record, its checksum
  bytes included, makes it decode to the corruption error.\<close>

theorem companion_single_byte_damage:
  assumes "length bs = 32" and "i < 32" and "bs ! i \<noteq> b"
    and "ios_fs_companion_decode (companion_disk_of bs) = Inr c"
  shows "ios_fs_companion_decode (companion_disk_of (bs[i := b])) = Inl IOS_E_CORRUPT"
  using assms by (rule companion_one_byte)

text \<open>An extension query, with or without its leading dot, canonicalises to exactly the
  extension that a file created under a dotted name with that extension carries.\<close>

theorem extension_query_matches_name:
  assumes "ios_fs_name_canonicalize_83 (base @ 46 # e) = Inr name" and "e \<noteq> []"
  shows "ios_fs_extension_query_canonicalize e = ios_fs_name_extension name
       \<and> ios_fs_extension_query_canonicalize (46 # e) = ios_fs_name_extension name"
  using assms by (rule query_matches_name)

text \<open>Type comparison by hash is exact: given the hash texts of the two extensions, two
  primary records have equal types if and only if their extensions are equal.\<close>

theorem primary_types_equal_exact:
  assumes "ios_fs_name_extension (p_name l) = Inr (el, nl)"
    and "ios_fs_name_extension (p_name r) = Inr (er, nr)"
  shows "ios_fs_primary_types_equal l r (ios_fs_hash_text (ios_fs_fnv1a32 (take nl el)))
       (ios_fs_hash_text (ios_fs_fnv1a32 (take nr er))) \<longleftrightarrow> nl = nr \<and> take nl el = take nr er"
  using assms by (auto simp: ios_fs_primary_types_equal_def)

section \<open>Witnesses\<close>

text \<open>The name \<^verbatim>\<open>A.TXT\<close> and the records of an empty regular file of that name.\<close>

definition name_A_TXT :: bytes where
  "name_A_TXT = [65, 32, 32, 32, 32, 32, 32, 32, 84, 88, 84]"

definition primary_A_TXT :: ios_fs_primary where
  "primary_A_TXT = \<lparr>p_name = name_A_TXT, p_attributes = 0x20, p_first_cluster = 0, p_file_size = 0\<rparr>"

definition primary_disk_A_TXT :: primary_disk where
  "primary_disk_A_TXT = projr (ios_fs_primary_encode primary_A_TXT)"

definition companion_disk_A_TXT :: companion_disk where
  "companion_disk_A_TXT = projr (ios_fs_companion_encode name_A_TXT True)"

lemma valid_A_TXT: "length name_A_TXT = 11" "valid_stored_name name_A_TXT"
  by (simp_all add: name_A_TXT_def valid_stored_name_def field_at_def supported_name_byte_def)

lemma extension_A_TXT: "ios_fs_name_extension name_A_TXT = Inr ([84, 88, 84], 3)"
  using valid_A_TXT(2)
  by (simp add: ios_fs_name_extension_def numeral_3_eq_3 overwrite_def)
    (simp add: name_A_TXT_def field_at_def)

lemma encode_A_TXT:
  "ios_fs_primary_encode primary_A_TXT = Inr primary_disk_A_TXT"
  "ios_fs_companion_encode name_A_TXT True = Inr companion_disk_A_TXT"
  using valid_A_TXT(2) extension_A_TXT
  by (simp_all add: primary_disk_A_TXT_def companion_disk_A_TXT_def ios_fs_primary_encode_def
      primary_A_TXT_def primary_fields_rejected_def ios_fs_companion_encode_def Let_def)

lemma wf_A_TXT: "companion_disk_wf companion_disk_A_TXT" "primary_disk_wf primary_disk_A_TXT"
  using companion_encode_wf [OF encode_A_TXT(2)] primary_encode_wf [OF _ encode_A_TXT(1)] valid_A_TXT
  by (simp_all add: primary_A_TXT_def)

lemma decode_A_TXT: "ios_fs_primary_decode primary_disk_A_TXT = Inr primary_A_TXT"
  using primary_decode_encode [OF _ encode_A_TXT(1)] valid_A_TXT by (simp add: primary_A_TXT_def)

theorem record_pair_validate_exact_witness:
  "ios_fs_record_pair_validate companion_disk_A_TXT primary_disk_A_TXT = Inr ()"
  using record_pair_validate_exact [OF wf_A_TXT] decode_A_TXT encode_A_TXT(2)
  by (simp add: primary_A_TXT_def)

theorem companion_single_byte_damage_witness:
  "ios_fs_companion_decode (companion_disk_of ((companion_disk_bytes companion_disk_A_TXT)[3 := 0]))
     = Inl IOS_E_CORRUPT"
proof -
  let ?bs = "companion_disk_bytes companion_disk_A_TXT"
  have "ios_fs_companion_decode (companion_disk_of ?bs) =
      Inr (projr (ios_fs_companion_decode companion_disk_A_TXT))"
    using companion_decode_encode [OF valid_A_TXT(1) encode_A_TXT(2) extension_A_TXT] wf_A_TXT
    by (simp add: companion_disk_of_bytes)
  moreover have "length ?bs = 32" using wf_A_TXT by simp
  moreover have "?bs ! 3 \<noteq> 0"
    using encode_A_TXT(2) extension_A_TXT
    by (simp add: companion_disk_A_TXT_def ios_fs_companion_encode_def companion_disk_bytes_def Let_def)
  ultimately show ?thesis
    using companion_single_byte_damage [of ?bs 3 0] by simp
qed

theorem extension_query_matches_name_witness:
  "ios_fs_extension_query_canonicalize [116, 120, 116] = Inr ([84, 88, 84], 3)"
proof -
  have "ios_fs_name_canonicalize_83 ([65] @ 46 # [116, 120, 116]) = Inr name_A_TXT"
    by code_simp
  from extension_query_matches_name [OF this] show ?thesis by (simp add: extension_A_TXT)
qed

theorem primary_types_equal_exact_witness:
  "ios_fs_primary_types_equal primary_A_TXT primary_A_TXT
     (ios_fs_hash_text (ios_fs_fnv1a32 [84, 88, 84])) (ios_fs_hash_text (ios_fs_fnv1a32 [84, 88, 84]))"
  using primary_types_equal_exact [of primary_A_TXT "[84, 88, 84]" 3 primary_A_TXT "[84, 88, 84]" 3]
    extension_A_TXT by (simp add: primary_A_TXT_def)

end
