(* ===== verification/Fs_Superblock.thy ===== *)
theory Fs_Superblock
  imports Fs_Records
begin

text \<open>
  The superblock (format.h, superblock.c). The disk structure has only byte and byte-array
  fields, so it is the list of its 512 bytes, with the offsets that format.h asserts; the
  encoder concatenates the fields in the order of the structure.
\<close>

section \<open>Values and layout\<close>

record ios_fs_superblock =
  sb_total_sectors :: u64
  sb_sectors_per_fat :: u32
  sb_registry_start_sector :: u64
  sb_volume_serial :: u32
  sb_flags :: u16
  sb_volume_label :: bytes

abbreviation IOS_FS_SECTOR_SIZE :: nat where "IOS_FS_SECTOR_SIZE \<equiv> 512"
abbreviation IOS_FS_SECTORS_PER_CLUSTER :: nat where "IOS_FS_SECTORS_PER_CLUSTER \<equiv> 8"
abbreviation IOS_FS_SUPERBLOCK_SECTORS :: nat where "IOS_FS_SUPERBLOCK_SECTORS \<equiv> 2"
abbreviation IOS_FS_REGISTRY_SECTORS :: nat where "IOS_FS_REGISTRY_SECTORS \<equiv> 4096"
abbreviation IOS_FS_ROOT_CLUSTER :: nat where "IOS_FS_ROOT_CLUSTER \<equiv> 2"

definition IOS_FS_MAGIC :: bytes where
  "IOS_FS_MAGIC = [0x49, 0x4e, 0x46, 0x4f, 0x53, 0x46, 0x53, 0x31]"

definition valid_label :: "bytes \<Rightarrow> bool" where
  "valid_label label \<longleftrightarrow>
     (\<forall>value \<in> set label. value = 0x20 \<or> (0x41 \<le> value \<and> value \<le> 0x5a)
        \<or> (0x30 \<le> value \<and> value \<le> 0x39) \<or> value = 0x5f)"

definition superblock_crc :: "bytes \<Rightarrow> u32" where
  "superblock_crc disk =
     foldl crc32_byte 0xffffffff
       (map (\<lambda>index. if index \<ge> 0x48 \<and> index < 0x4c then 0 else disk ! index) [0..<512]) XOR 0xffffffff"

text \<open>
  The tests that encoder and decoder share. \<open>IOS_FS_SUPERBLOCK_SECTORS + sectors_per_fat\<close> is
  an addition of an \<open>int\<close> constant and a 32-bit unsigned value: it wraps at 32 bits before the
  comparison with the 64-bit registry start.
\<close>

definition superblock_rejected :: "u64 \<Rightarrow> u32 \<Rightarrow> u64 \<Rightarrow> u16 \<Rightarrow> bytes \<Rightarrow> bool" where
  "superblock_rejected total_sectors sectors_per_fat registry_start_sector flags label \<longleftrightarrow>
     total_sectors = 0 \<or> sectors_per_fat = 0 \<or> flags \<noteq> 0
     \<or> registry_start_sector \<noteq> ucast (2 + sectors_per_fat)
     \<or> registry_start_sector > 0xffffffffffffffff - 4096
     \<or> registry_start_sector + 4096 \<ge> total_sectors
     \<or> \<not> valid_label label"

text \<open>The bytes of the structure around a given checksum field.\<close>

definition superblock_bytes :: "ios_fs_superblock \<Rightarrow> bytes \<Rightarrow> bytes" where
  "superblock_bytes values crc =
     IOS_FS_MAGIC @ write_u16 1 @ write_u16 80 @ write_u16 512 @ [8, 1] @ write_u16 2
     @ write_u16 32 @ write_u16 32 @ write_u16 (sb_flags values)
     @ write_u64 (sb_total_sectors values) @ write_u32 (sb_sectors_per_fat values) @ write_u32 2
     @ write_u64 (sb_registry_start_sector values) @ write_u32 4096
     @ write_u32 (sb_volume_serial values) @ sb_volume_label values @ [1]
     @ write_u16 1 @ write_u16 1 @ crc @ replicate 4 0 @ replicate 430 0 @ write_u16 0xaa55"

definition ios_fs_superblock_encode :: "ios_fs_superblock \<Rightarrow> bytes res" where
  "ios_fs_superblock_encode values =
     (if superblock_rejected (sb_total_sectors values) (sb_sectors_per_fat values)
           (sb_registry_start_sector values) (sb_flags values) (sb_volume_label values)
      then Inl IOS_E_INVALID_ARGUMENT
      else Inr (superblock_bytes values (write_u32 (superblock_crc (superblock_bytes values (replicate 4 0))))))"

definition ios_fs_superblock_decode :: "bytes \<Rightarrow> ios_fs_superblock res" where
  "ios_fs_superblock_decode disk =
     (if superblock_crc disk \<noteq> read_u32 (field_at 0x48 4 disk) then Inl IOS_E_CORRUPT
      else
        let total_sectors = read_u64 (field_at 0x18 8 disk);
            fat_sectors = read_u32 (field_at 0x20 4 disk);
            registry_start = read_u64 (field_at 0x28 8 disk)
        in if field_at 0 8 disk \<noteq> IOS_FS_MAGIC
             \<or> read_u16 (field_at 0x08 2 disk) \<noteq> 1
             \<or> read_u16 (field_at 0x0a 2 disk) \<noteq> 80
             \<or> read_u16 (field_at 0x0c 2 disk) \<noteq> 512
             \<or> disk ! 0x0e \<noteq> 8 \<or> disk ! 0x0f \<noteq> 1
             \<or> read_u16 (field_at 0x10 2 disk) \<noteq> 2
             \<or> read_u16 (field_at 0x12 2 disk) \<noteq> 32
             \<or> read_u16 (field_at 0x14 2 disk) \<noteq> 32
             \<or> superblock_rejected total_sectors fat_sectors registry_start
                 (read_u16 (field_at 0x16 2 disk)) (field_at 0x38 11 disk)
             \<or> read_u32 (field_at 0x24 4 disk) \<noteq> 2
             \<or> read_u32 (field_at 0x30 4 disk) \<noteq> 4096
             \<or> disk ! 0x43 \<noteq> 1
             \<or> read_u16 (field_at 0x44 2 disk) \<noteq> 1
             \<or> read_u16 (field_at 0x46 2 disk) \<noteq> 1
             \<or> \<not> all_zero (field_at 0x4c 4 disk) \<or> \<not> all_zero (field_at 0x50 430 disk)
             \<or> read_u16 (field_at 0x1fe 2 disk) \<noteq> 0xaa55
           then Inl IOS_E_PROTOCOL
           else Inr \<lparr>sb_total_sectors = total_sectors, sb_sectors_per_fat = fat_sectors,
                  sb_registry_start_sector = registry_start,
                  sb_volume_serial = read_u32 (field_at 0x34 4 disk),
                  sb_flags = read_u16 (field_at 0x16 2 disk),
                  sb_volume_label = field_at 0x38 11 disk\<rparr>)"

datatype ios_fs_superblock_pair_state =
    IOS_FS_SUPERBLOCK_PAIR_READ_WRITE | IOS_FS_SUPERBLOCK_PAIR_DIAGNOSTIC
  | IOS_FS_SUPERBLOCK_PAIR_REJECTED

definition ios_fs_superblock_classify_pair :: "bytes \<Rightarrow> bytes \<Rightarrow> ios_fs_superblock_pair_state" where
  "ios_fs_superblock_classify_pair primary backup =
     (let primary_valid = IOS_SUCCEEDED (ios_fs_superblock_decode primary);
          backup_valid = IOS_SUCCEEDED (ios_fs_superblock_decode backup)
      in if \<not> primary_valid \<and> \<not> backup_valid then IOS_FS_SUPERBLOCK_PAIR_REJECTED
         else if \<not> primary_valid \<or> \<not> backup_valid then IOS_FS_SUPERBLOCK_PAIR_DIAGNOSTIC
         else if primary = backup then IOS_FS_SUPERBLOCK_PAIR_READ_WRITE
         else IOS_FS_SUPERBLOCK_PAIR_DIAGNOSTIC)"

section \<open>The checksum\<close>

lemma superblock_crc_overwrite:
  assumes "length d = 512"
  shows "superblock_crc d = ios_fs_crc32_iso_hdlc (overwrite d 0x48 (replicate 4 0))"
proof -
  have "map (\<lambda>i. if i \<ge> 0x48 \<and> i < 0x4c then 0 else d ! i) [0..<512] = overwrite d 0x48 (replicate 4 0)"
    using assms by (intro nth_equalityI) (auto simp: nth_overwrite)
  then show ?thesis by (simp add: superblock_crc_def ios_fs_crc32_iso_hdlc_def)
qed

section \<open>Round trip\<close>

lemma length_superblock_bytes [simp]:
  "length (sb_volume_label v) = 11 \<Longrightarrow> length crc = 4 \<Longrightarrow> length (superblock_bytes v crc) = 512"
  by (simp add: superblock_bytes_def IOS_FS_MAGIC_def)

lemma superblock_bytes_crc_free:
  assumes "length (sb_volume_label v) = 11" and "length crc = 4"
  shows "superblock_crc (superblock_bytes v crc) = superblock_crc (superblock_bytes v (replicate 4 0))"
proof -
  have "overwrite (superblock_bytes v crc) 0x48 (replicate 4 0) = superblock_bytes v (replicate 4 0)"
    if "length crc = 4" for crc
    using assms(1) that by (simp add: overwrite_def superblock_bytes_def IOS_FS_MAGIC_def)
  then show ?thesis using assms by (simp add: superblock_crc_overwrite)
qed

lemma field_drop: "k = off + len \<Longrightarrow> field_at off len d @ drop k d = drop off d"
  by (simp add: field_at_def) (metis add.commute append_take_drop_id drop_drop)

lemma nth_drop: "k = Suc off \<Longrightarrow> off < length d \<Longrightarrow> d ! off # drop k d = drop off d"
  by (simp add: Cons_nth_drop_Suc)

lemma superblock_split:
  assumes "length d = 512"
  shows "d = field_at 0 8 d @ field_at 0x08 2 d @ field_at 0x0a 2 d @ field_at 0x0c 2 d @ [d ! 0x0e, d ! 0x0f]
    @ field_at 0x10 2 d @ field_at 0x12 2 d @ field_at 0x14 2 d @ field_at 0x16 2 d @ field_at 0x18 8 d
    @ field_at 0x20 4 d @ field_at 0x24 4 d @ field_at 0x28 8 d @ field_at 0x30 4 d @ field_at 0x34 4 d
    @ field_at 0x38 11 d @ [d ! 0x43] @ field_at 0x44 2 d @ field_at 0x46 2 d @ field_at 0x48 4 d
    @ field_at 0x4c 4 d @ field_at 0x50 430 d @ field_at 0x1fe 2 d"
proof -
  have "field_at 0x1fe 2 d = drop 0x1fe d" using assms by (simp add: field_at_def)
  then show ?thesis using assms by (simp add: field_drop nth_drop)
qed

lemma superblock_decode_encode:
  assumes "length (sb_volume_label v) = 11" and "ios_fs_superblock_encode v = Inr d"
  shows "ios_fs_superblock_decode d = Inr v" and "length d = 512"
proof -
  let ?crc = "write_u32 (superblock_crc (superblock_bytes v (replicate 4 0)))"
  have ok: "\<not> superblock_rejected (sb_total_sectors v) (sb_sectors_per_fat v)
           (sb_registry_start_sector v) (sb_flags v) (sb_volume_label v)"
    and d: "d = superblock_bytes v ?crc"
    using assms(2) by (auto simp: ios_fs_superblock_encode_def split: if_splits)
  have crc: "superblock_crc d = superblock_crc (superblock_bytes v (replicate 4 0))"
    using assms(1) superblock_bytes_crc_free [of v ?crc] by (simp add: d)
  have f: "field_at 0x48 4 d = ?crc" "field_at 0x18 8 d = write_u64 (sb_total_sectors v)"
    "field_at 0x20 4 d = write_u32 (sb_sectors_per_fat v)" "field_at 0x28 8 d = write_u64 (sb_registry_start_sector v)"
    "field_at 0 8 d = IOS_FS_MAGIC" "field_at 0x08 2 d = write_u16 1" "field_at 0x0a 2 d = write_u16 80"
    "field_at 0x0c 2 d = write_u16 512" "d ! 0x0e = 8" "d ! 0x0f = 1" "field_at 0x10 2 d = write_u16 2"
    "field_at 0x12 2 d = write_u16 32" "field_at 0x14 2 d = write_u16 32" "field_at 0x16 2 d = write_u16 (sb_flags v)"
    "field_at 0x38 11 d = sb_volume_label v" "field_at 0x24 4 d = write_u32 2" "field_at 0x30 4 d = write_u32 4096"
    "d ! 0x43 = 1" "field_at 0x44 2 d = write_u16 1" "field_at 0x46 2 d = write_u16 1"
    "field_at 0x4c 4 d = replicate 4 0" "field_at 0x50 430 d = replicate 430 0" "field_at 0x1fe 2 d = write_u16 0xaa55"
    "field_at 0x34 4 d = write_u32 (sb_volume_serial v)"
    using assms(1) unfolding d superblock_bytes_def IOS_FS_MAGIC_def
    by (simp_all add: field_at_def nth_append)
  show "ios_fs_superblock_decode d = Inr v"
    using ok crc by (simp add: ios_fs_superblock_decode_def f)
  show "length d = 512" using assms(1) by (simp add: d)
qed

lemma superblock_encode_decode:
  assumes len: "length d = 512" and dec: "ios_fs_superblock_decode d = Inr v"
  shows "ios_fs_superblock_encode v = Inr d" and "length (sb_volume_label v) = 11"
proof -
  let ?r16 = "\<lambda>off. read_u16 (field_at off 2 d)"
  have crc: "superblock_crc d = read_u32 (field_at 0x48 4 d)"
    using dec by (auto simp: ios_fs_superblock_decode_def split: if_splits)
  have v: "v = \<lparr>sb_total_sectors = read_u64 (field_at 0x18 8 d), sb_sectors_per_fat = read_u32 (field_at 0x20 4 d),
      sb_registry_start_sector = read_u64 (field_at 0x28 8 d), sb_volume_serial = read_u32 (field_at 0x34 4 d),
      sb_flags = ?r16 0x16, sb_volume_label = field_at 0x38 11 d\<rparr>"
    and vals: "field_at 0 8 d = IOS_FS_MAGIC" "?r16 0x08 = 1" "?r16 0x0a = 80" "?r16 0x0c = 512"
    "d ! 0x0e = 8" "d ! 0x0f = 1" "?r16 0x10 = 2" "?r16 0x12 = 32" "?r16 0x14 = 32"
    "read_u32 (field_at 0x24 4 d) = 2" "read_u32 (field_at 0x30 4 d) = 4096" "d ! 0x43 = 1"
    "?r16 0x44 = 1" "?r16 0x46 = 1" "all_zero (field_at 0x4c 4 d)" "all_zero (field_at 0x50 430 d)" "?r16 0x1fe = 0xaa55"
    and ok: "\<not> superblock_rejected (read_u64 (field_at 0x18 8 d)) (read_u32 (field_at 0x20 4 d))
      (read_u64 (field_at 0x28 8 d)) (?r16 0x16) (field_at 0x38 11 d)"
    using dec by (auto simp: ios_fs_superblock_decode_def Let_def split: if_splits)
  show label: "length (sb_volume_label v) = 11" using len by (simp add: v length_field_at)
  have w16: "field_at off 2 d = write_u16 (?r16 off)" if "off + 2 \<le> 512" for off
    using that len by (simp add: write_read_u16 length_field_at)
  have w32: "field_at off 4 d = write_u32 (read_u32 (field_at off 4 d))" if "off + 4 \<le> 512" for off
    using that len by (simp add: write_read_u32 length_field_at)
  have w64: "field_at off 8 d = write_u64 (read_u64 (field_at off 8 d))" if "off + 8 \<le> 512" for off
    using that len by (simp add: write_read_u64 length_field_at)
  have zero: "bs = replicate (length bs) 0" if "all_zero bs" for bs :: bytes
    using that replicate_length_same [of bs 0] by (simp add: all_zero_def)
  have bytes: "d = superblock_bytes v (field_at 0x48 4 d)"
  proof -
    have z: "field_at 0x4c 4 d = replicate 4 0" "field_at 0x50 430 d = replicate 430 0"
      using zero [OF vals(15)] zero [OF vals(16)] len by (simp_all add: length_field_at)
    have f: "field_at 0x08 2 d = write_u16 1" "field_at 0x0a 2 d = write_u16 80" "field_at 0x0c 2 d = write_u16 512"
      "field_at 0x10 2 d = write_u16 2" "field_at 0x12 2 d = write_u16 32" "field_at 0x14 2 d = write_u16 32"
      "field_at 0x24 4 d = write_u32 2" "field_at 0x30 4 d = write_u32 4096"
      "field_at 0x44 2 d = write_u16 1" "field_at 0x46 2 d = write_u16 1" "field_at 0x1fe 2 d = write_u16 0xaa55"
      using w16 [of "0x08"] w16 [of "0x0a"] w16 [of "0x0c"] w16 [of "0x10"] w16 [of "0x12"] w16 [of "0x14"]
        w32 [of "0x24"] w32 [of "0x30"] w16 [of "0x44"] w16 [of "0x46"] w16 [of "0x1fe"] vals by simp_all
    have g: "write_u16 (?r16 0x16) = field_at 0x16 2 d" "write_u64 (read_u64 (field_at 0x18 8 d)) = field_at 0x18 8 d"
      "write_u32 (read_u32 (field_at 0x20 4 d)) = field_at 0x20 4 d" "write_u64 (read_u64 (field_at 0x28 8 d)) = field_at 0x28 8 d"
      "write_u32 (read_u32 (field_at 0x34 4 d)) = field_at 0x34 4 d"
      using w16 [of "0x16"] w64 [of "0x18"] w32 [of "0x20"] w64 [of "0x28"] w32 [of "0x34"] by simp_all
    show ?thesis
      unfolding superblock_bytes_def v ios_fs_superblock.select_convs g
      using superblock_split [OF len] unfolding vals f z by simp
  qed
  have len4: "length (field_at 0x48 4 d) = 4" using len by (simp add: length_field_at)
  have "superblock_crc (superblock_bytes v (replicate 4 0)) = superblock_crc d"
    using superblock_bytes_crc_free [OF label len4] bytes by simp
  then have "write_u32 (superblock_crc (superblock_bytes v (replicate 4 0))) = field_at 0x48 4 d"
    using crc len4 by (simp add: write_read_u32)
  then show "ios_fs_superblock_encode v = Inr d"
    using ok bytes by (simp add: ios_fs_superblock_encode_def v)
qed

section \<open>Properties\<close>

text \<open>The superblock codec is exact: a sector is the encoding of values exactly when it is 512
  bytes long and decodes to them.\<close>

theorem superblock_encode_iff_decode:
  assumes "length (sb_volume_label v) = 11"
  shows "ios_fs_superblock_encode v = Inr d \<longleftrightarrow> length d = 512 \<and> ios_fs_superblock_decode d = Inr v"
  using superblock_decode_encode [OF assms] superblock_encode_decode by blast

text \<open>Damage of any single byte of a valid superblock is detected: the copy no longer decodes,
  and a volume with one damaged copy is classified for diagnostic use, never for writing.\<close>

theorem superblock_single_byte_damage:
  assumes "length d = 512" and "ios_fs_superblock_decode d = Inr v" and "i < 512" and "d ! i \<noteq> b"
  shows "ios_fs_superblock_decode (d[i := b]) = Inl IOS_E_CORRUPT
    \<and> ios_fs_superblock_classify_pair d d = IOS_FS_SUPERBLOCK_PAIR_READ_WRITE
    \<and> ios_fs_superblock_classify_pair (d[i := b]) d = IOS_FS_SUPERBLOCK_PAIR_DIAGNOSTIC
    \<and> ios_fs_superblock_classify_pair d (d[i := b]) = IOS_FS_SUPERBLOCK_PAIR_DIAGNOSTIC"
proof -
  have "ios_fs_crc32_iso_hdlc (overwrite d 0x48 (replicate 4 0)) = read_u32 (field_at 0x48 4 d)"
    using assms(1,2) by (auto simp: ios_fs_superblock_decode_def superblock_crc_overwrite split: if_splits)
  then have "superblock_crc (d[i := b]) \<noteq> read_u32 (field_at 0x48 4 (d[i := b]))"
    using crc_field_one_byte [of "0x48" d i b] assms(1,3,4) by (simp add: superblock_crc_overwrite)
  then have "ios_fs_superblock_decode (d[i := b]) = Inl IOS_E_CORRUPT"
    by (simp add: ios_fs_superblock_decode_def)
  with assms(2) show ?thesis by (simp add: ios_fs_superblock_classify_pair_def)
qed

section \<open>Witnesses\<close>

definition superblock_sample :: ios_fs_superblock where
  "superblock_sample = \<lparr>sb_total_sectors = 97656250, sb_sectors_per_fat = 95270,
     sb_registry_start_sector = 95272, sb_volume_serial = 7, sb_flags = 0, sb_volume_label = replicate 11 0x41\<rparr>"

definition superblock_sample_disk :: bytes where
  "superblock_sample_disk = superblock_bytes superblock_sample
     (write_u32 (superblock_crc (superblock_bytes superblock_sample (replicate 4 0))))"

lemma superblock_sample_encode: "ios_fs_superblock_encode superblock_sample = Inr superblock_sample_disk"
  by (simp add: ios_fs_superblock_encode_def superblock_sample_disk_def superblock_sample_def
      superblock_rejected_def valid_label_def)

theorem superblock_encode_iff_decode_witness:
  "ios_fs_superblock_decode superblock_sample_disk = Inr superblock_sample"
proof -
  have "length (sb_volume_label superblock_sample) = 11" by (simp add: superblock_sample_def)
  from superblock_encode_iff_decode [OF this] show ?thesis using superblock_sample_encode by blast
qed

theorem superblock_single_byte_damage_witness:
  "ios_fs_superblock_decode (superblock_sample_disk[0 := 0]) = Inl IOS_E_CORRUPT"
proof -
  have "length (sb_volume_label superblock_sample) = 11" by (simp add: superblock_sample_def)
  note d = superblock_decode_encode [OF this superblock_sample_encode]
  have "superblock_sample_disk ! 0 \<noteq> 0"
    by (simp add: superblock_sample_disk_def superblock_bytes_def IOS_FS_MAGIC_def)
  then show ?thesis using superblock_single_byte_damage [OF d(2,1), of 0 0] by simp
qed

end
