(* ===== verification/Fs_Fat.thy ===== *)
theory Fs_Fat
  imports Fs_Records
begin

text \<open>
  The file allocation table (fat.h, fat.c). The table is the list of its 32-bit entries, so
  \<open>entry_count\<close> is its length; a cluster number is the index of its entry. The inductive
  predicate \<open>fat_chain\<close> is the specification: what a cluster chain is. The lemmas relate
  every loop of the code to it.
\<close>

section \<open>Entries\<close>

abbreviation IOS_FS_FAT_FREE :: u32 where "IOS_FS_FAT_FREE \<equiv> 0"
abbreviation IOS_FS_FAT_BAD :: u32 where "IOS_FS_FAT_BAD \<equiv> 0x0ffffff7"
abbreviation IOS_FS_FAT_RESERVED_FIRST :: u32 where "IOS_FS_FAT_RESERVED_FIRST \<equiv> 0x0ffffff0"
abbreviation IOS_FS_FAT_RESERVED_LAST :: u32 where "IOS_FS_FAT_RESERVED_LAST \<equiv> 0x0ffffff6"
abbreviation IOS_FS_FAT_EOC_FIRST :: u32 where "IOS_FS_FAT_EOC_FIRST \<equiv> 0x0ffffff8"
abbreviation IOS_FS_FAT_END_OF_CHAIN :: u32 where "IOS_FS_FAT_END_OF_CHAIN \<equiv> 0x0fffffff"
abbreviation IOS_FS_FAT_VALUE_MASK :: u32 where "IOS_FS_FAT_VALUE_MASK \<equiv> 0x0fffffff"
abbreviation IOS_FS_FAT_UPPER_MASK :: u32 where "IOS_FS_FAT_UPPER_MASK \<equiv> 0xf0000000"

definition valid_cluster :: "nat \<Rightarrow> nat \<Rightarrow> bool" where
  "valid_cluster cluster entry_count \<longleftrightarrow>
     cluster \<ge> 2 \<and> cluster < entry_count \<and> cluster \<le> IOS_FS_MAX_DATA_CLUSTER"

definition valid_entry_count :: "nat \<Rightarrow> bool" where
  "valid_entry_count entry_count \<longleftrightarrow> entry_count > 2 \<and> entry_count \<le> IOS_FS_MAX_DATA_CLUSTER + 1"

text \<open>The result is the \<open>eoc\<close> flag.\<close>

definition classify_next :: "u32 \<Rightarrow> nat \<Rightarrow> bool res" where
  "classify_next raw entry_count =
     (if raw AND IOS_FS_FAT_UPPER_MASK \<noteq> 0 then Inl IOS_E_PROTOCOL
      else let value = raw AND IOS_FS_FAT_VALUE_MASK in
        if value \<ge> IOS_FS_FAT_EOC_FIRST then Inr True
        else if value = IOS_FS_FAT_FREE \<or> value = IOS_FS_FAT_BAD
          \<or> (value \<ge> IOS_FS_FAT_RESERVED_FIRST \<and> value \<le> IOS_FS_FAT_RESERVED_LAST)
          \<or> \<not> valid_cluster (unat value) entry_count then Inl IOS_E_CORRUPT
        else Inr False)"

definition ios_fs_fat_entry_encode :: "u32 \<Rightarrow> bytes res" where
  "ios_fs_fat_entry_encode value =
     (if value AND IOS_FS_FAT_UPPER_MASK \<noteq> 0 then Inl IOS_E_INVALID_ARGUMENT
      else Inr (write_u32 value))"

definition ios_fs_fat_entry_decode :: "bytes \<Rightarrow> u32 res" where
  "ios_fs_fat_entry_decode disk =
     (let decoded = read_u32 disk in
      if decoded AND IOS_FS_FAT_UPPER_MASK \<noteq> 0 then Inl IOS_E_PROTOCOL else Inr decoded)"

text \<open>The cluster an entry points to.\<close>

definition fat_next :: "u32 list \<Rightarrow> nat \<Rightarrow> nat" where
  "fat_next fat cluster = unat (fat ! cluster AND IOS_FS_FAT_VALUE_MASK)"

section \<open>Traversal\<close>

text \<open>
  The body of the \<open>while (count < entry_count)\<close> loop; the first argument is the number of
  iterations left, \<open>clusters\<close> the clusters stored so far.
\<close>

primrec traverse_loop :: "nat \<Rightarrow> u32 list \<Rightarrow> nat \<Rightarrow> nat \<Rightarrow> nat list \<Rightarrow> nat list res" where
  "traverse_loop 0 fat cluster_capacity cluster clusters = Inl IOS_E_CORRUPT"
| "traverse_loop (Suc left) fat cluster_capacity cluster clusters =
     (if \<not> valid_cluster cluster (length fat) then Inl IOS_E_CORRUPT
      else if cluster \<in> set clusters then Inl IOS_E_CORRUPT
      else if length clusters = cluster_capacity then Inl IOS_E_NO_SPACE
      else case classify_next (fat ! cluster) (length fat) of
          Inl e \<Rightarrow> Inl e
        | Inr eoc \<Rightarrow>
            if eoc then Inr (clusters @ [cluster])
            else traverse_loop left fat cluster_capacity (fat_next fat cluster) (clusters @ [cluster]))"

definition ios_fs_fat_traverse :: "u32 list \<Rightarrow> nat \<Rightarrow> nat \<Rightarrow> nat list res" where
  "ios_fs_fat_traverse fat start cluster_capacity =
     (if \<not> valid_entry_count (length fat) \<or> cluster_capacity = 0
         \<or> \<not> valid_cluster start (length fat) then Inl IOS_E_INVALID_ARGUMENT
      else traverse_loop (length fat) fat cluster_capacity start [])"

section \<open>Allocation and release\<close>

text \<open>The scan over the candidate clusters, which stops when enough are found.\<close>

fun allocate_scan :: "u32 list \<Rightarrow> nat \<Rightarrow> nat list \<Rightarrow> nat list \<Rightarrow> nat list" where
  "allocate_scan fat requested [] clusters = clusters"
| "allocate_scan fat requested (cluster # rest) clusters =
     (if length clusters < requested then
        if fat ! cluster = IOS_FS_FAT_FREE
        then allocate_scan fat requested rest (clusters @ [cluster])
        else allocate_scan fat requested rest clusters
      else clusters)"

text \<open>The second loop: each cluster points to the next one, the last ends the chain.\<close>

fun allocate_link :: "u32 list \<Rightarrow> nat list \<Rightarrow> u32 list" where
  "allocate_link fat [] = fat"
| "allocate_link fat [cluster] = fat[cluster := IOS_FS_FAT_END_OF_CHAIN]"
| "allocate_link fat (cluster # next # rest) =
     allocate_link (fat[cluster := of_nat next]) (next # rest)"

definition ios_fs_fat_allocate :: "u32 list \<Rightarrow> nat \<Rightarrow> nat \<Rightarrow> (u32 list \<times> nat list) res" where
  "ios_fs_fat_allocate fat requested cluster_capacity =
     (if \<not> valid_entry_count (length fat) \<or> requested = 0 \<or> requested > cluster_capacity
      then Inl IOS_E_INVALID_ARGUMENT
      else let clusters = allocate_scan fat requested [2..<length fat] [] in
        if length clusters \<noteq> requested then Inl IOS_E_NO_SPACE
        else Inr (allocate_link fat clusters, clusters))"

definition release_clusters :: "u32 list \<Rightarrow> nat list \<Rightarrow> u32 list" where
  "release_clusters fat clusters = foldl (\<lambda>fat cluster. fat[cluster := IOS_FS_FAT_FREE]) fat clusters"

definition ios_fs_fat_free :: "u32 list \<Rightarrow> nat \<Rightarrow> nat \<Rightarrow> u32 list res" where
  "ios_fs_fat_free fat start workspace_capacity =
     (case ios_fs_fat_traverse fat start workspace_capacity of
        Inl e \<Rightarrow> Inl e
      | Inr clusters \<Rightarrow> Inr (release_clusters fat clusters))"

section \<open>Ownership and capacity\<close>

primrec ownership_walk :: "nat \<Rightarrow> u32 list \<Rightarrow> nat \<Rightarrow> nat \<Rightarrow> nat list \<Rightarrow> nat list res" where
  "ownership_walk 0 fat owner cluster owner_map = Inl IOS_E_CORRUPT"
| "ownership_walk (Suc left) fat owner cluster owner_map =
     (if \<not> valid_cluster cluster (length fat) \<or> owner_map ! cluster \<noteq> 0 then Inl IOS_E_CORRUPT
      else let owner_map = owner_map[cluster := owner + 1] in
        case classify_next (fat ! cluster) (length fat) of
          Inl e \<Rightarrow> Inl e
        | Inr eoc \<Rightarrow>
            if eoc then Inr owner_map
            else ownership_walk left fat owner (fat_next fat cluster) owner_map)"

fun ownership_loop :: "u32 list \<Rightarrow> nat \<Rightarrow> nat list \<Rightarrow> nat list \<Rightarrow> nat list res" where
  "ownership_loop fat owner [] owner_map = Inr owner_map"
| "ownership_loop fat owner (start # starts) owner_map =
     (if \<not> valid_cluster start (length fat) then Inl IOS_E_CORRUPT
      else case ownership_walk (length fat) fat owner start owner_map of
          Inl e \<Rightarrow> Inl e
        | Inr owner_map \<Rightarrow> ownership_loop fat (owner + 1) starts owner_map)"

text \<open>The result is the first \<open>entry_count\<close> entries of \<open>owner_map\<close>.\<close>

definition ios_fs_fat_validate_ownership :: "u32 list \<Rightarrow> nat list \<Rightarrow> nat \<Rightarrow> nat list res" where
  "ios_fs_fat_validate_ownership fat starts owner_map_count =
     (if length starts = 0 \<or> \<not> valid_entry_count (length fat) \<or> owner_map_count < length fat
         \<or> length starts > UINT32_MAX then Inl IOS_E_INVALID_ARGUMENT
      else ownership_loop fat 0 starts (replicate (length fat) 0))"

text \<open>The running \<open>capacity\<close> is at most \<open>2 ^ 28 * 2 ^ 32\<close>: the 64-bit sum never wraps.\<close>

primrec capacity_loop :: "nat \<Rightarrow> u32 list \<Rightarrow> nat \<Rightarrow> nat \<Rightarrow> nat \<Rightarrow> nat \<Rightarrow> unit res" where
  "capacity_loop 0 fat file_size cluster_bytes cluster capacity = Inl IOS_E_CORRUPT"
| "capacity_loop (Suc left) fat file_size cluster_bytes cluster capacity =
     (if \<not> valid_cluster cluster (length fat) then Inl IOS_E_CORRUPT
      else let capacity = capacity + cluster_bytes in
        case classify_next (fat ! cluster) (length fat) of
          Inl e \<Rightarrow> Inl e
        | Inr eoc \<Rightarrow>
            if eoc then (if capacity \<ge> file_size then Inr () else Inl IOS_E_CORRUPT)
            else capacity_loop left fat file_size cluster_bytes (fat_next fat cluster) capacity)"

definition ios_fs_fat_validate_file_capacity :: "u32 list \<Rightarrow> nat \<Rightarrow> nat \<Rightarrow> nat \<Rightarrow> unit res" where
  "ios_fs_fat_validate_file_capacity fat start file_size cluster_bytes =
     (if file_size = 0 then (if start = 0 then Inr () else Inl IOS_E_CORRUPT)
      else if cluster_bytes = 0 \<or> \<not> valid_entry_count (length fat)
        \<or> \<not> valid_cluster start (length fat) then Inl IOS_E_INVALID_ARGUMENT
      else capacity_loop (length fat) fat file_size cluster_bytes start 0)"

section \<open>Specification: cluster chains\<close>

inductive fat_chain :: "u32 list \<Rightarrow> nat \<Rightarrow> nat list \<Rightarrow> bool" for fat where
  fat_chain_last: "valid_cluster c (length fat) \<Longrightarrow> classify_next (fat ! c) (length fat) = Inr True
     \<Longrightarrow> fat_chain fat c [c]"
| fat_chain_link: "valid_cluster c (length fat) \<Longrightarrow> classify_next (fat ! c) (length fat) = Inr False
     \<Longrightarrow> fat_chain fat (fat_next fat c) cs \<Longrightarrow> fat_chain fat c (c # cs)"

inductive_cases fat_chain_NilE [elim!]: "fat_chain fat c []"
inductive_simps fat_chain_Cons: "fat_chain fat c (d # cs)"

lemma fat_chain_hd: "fat_chain fat c cs \<Longrightarrow> cs \<noteq> [] \<and> hd cs = c"
  by (cases cs) (auto simp: fat_chain_Cons)

lemma fat_chain_deterministic: "fat_chain fat c cs \<Longrightarrow> fat_chain fat c ds \<Longrightarrow> cs = ds"
proof (induction arbitrary: ds rule: fat_chain.induct)
  case (fat_chain_last c)
  from fat_chain_last.prems show ?case by cases (use fat_chain_last.hyps in auto)
next
  case (fat_chain_link c cs)
  from fat_chain_link.prems obtain ds' where "ds = c # ds'" "fat_chain fat (fat_next fat c) ds'"
    by cases (use fat_chain_link.hyps(2) in auto)
  with fat_chain_link.IH show ?case by blast
qed

lemma fat_chain_valid: "fat_chain fat c cs \<Longrightarrow> d \<in> set cs \<Longrightarrow> valid_cluster d (length fat)"
  by (induction rule: fat_chain.induct) auto

lemma fat_chain_entry:
  "fat_chain fat c cs \<Longrightarrow> d \<in> set cs \<Longrightarrow> \<exists>eoc. classify_next (fat ! d) (length fat) = Inr eoc"
  by (induction rule: fat_chain.induct) auto

lemma fat_chain_suffix: "fat_chain fat c (xs @ d # ys) \<Longrightarrow> fat_chain fat d (d # ys)"
proof (induction xs arbitrary: c)
  case (Cons x xs)
  then show ?case by (cases "xs @ d # ys") (auto simp: fat_chain_Cons [of fat c])
qed (auto simp: fat_chain_Cons)

lemma fat_chain_distinct: "fat_chain fat c cs \<Longrightarrow> distinct cs"
proof (induction rule: fat_chain.induct)
  case (fat_chain_link c cs)
  have whole: "fat_chain fat c (c # cs)" using fat_chain_link.hyps by (rule fat_chain.fat_chain_link)
  have "c \<notin> set cs"
  proof
    assume "c \<in> set cs"
    then obtain xs ys where "cs = xs @ c # ys" by (auto simp: in_set_conv_decomp)
    with whole have "fat_chain fat c (c # ys)" using fat_chain_suffix [of fat c "c # xs" c ys] by simp
    with whole have "c # cs = c # ys" by (rule fat_chain_deterministic)
    with \<open>cs = xs @ c # ys\<close> show False by simp
  qed
  with fat_chain_link.IH show ?case by simp
qed simp

lemma fat_chain_length: "fat_chain fat c cs \<Longrightarrow> length cs \<le> length fat"
proof -
  assume chain: "fat_chain fat c cs"
  then have "set cs \<subseteq> {..<length fat}" by (auto dest: fat_chain_valid simp: valid_cluster_def)
  then have "card (set cs) \<le> length fat" by (metis card_lessThan card_mono finite_lessThan)
  then show ?thesis using chain by (simp add: distinct_card fat_chain_distinct)
qed

lemma fat_chain_cong:
  assumes "fat_chain fat c cs" and "length fat' = length fat" and "\<And>d. d \<in> set cs \<Longrightarrow> fat' ! d = fat ! d"
  shows "fat_chain fat' c cs"
  using assms
proof (induction rule: fat_chain.induct)
  case (fat_chain_last c)
  then show ?case by (intro fat_chain.fat_chain_last) auto
next
  case (fat_chain_link c cs)
  then have "fat_next fat' c = fat_next fat c" by (simp add: fat_next_def)
  with fat_chain_link show ?case by (intro fat_chain.fat_chain_link) auto
qed

section \<open>Traversal computes the chain\<close>

lemma traverse_loop_sound:
  "traverse_loop n fat cap c clusters = Inr cs \<Longrightarrow> length clusters \<le> cap \<Longrightarrow>
    \<exists>ds. cs = clusters @ ds \<and> fat_chain fat c ds \<and> length cs \<le> cap"
proof (induction n arbitrary: c clusters)
  case (Suc n)
  then have valid: "valid_cluster c (length fat)" "length clusters \<noteq> cap"
    by (auto split: if_splits)
  obtain eoc where eoc: "classify_next (fat ! c) (length fat) = Inr eoc"
    using Suc.prems(1) by (auto split: if_splits sum.splits)
  show ?case
  proof (cases eoc)
    case True
    then show ?thesis using Suc.prems valid eoc
      by (intro exI [of _ "[c]"]) (auto intro: fat_chain.intros split: if_splits)
  next
    case False
    then have "traverse_loop n fat cap (fat_next fat c) (clusters @ [c]) = Inr cs"
      using Suc.prems(1) eoc by (auto split: if_splits)
    then obtain ds where "cs = (clusters @ [c]) @ ds" "fat_chain fat (fat_next fat c) ds" "length cs \<le> cap"
      using Suc.IH [of "fat_next fat c" "clusters @ [c]"] Suc.prems(2) valid(2) by auto
    then show ?thesis using valid(1) eoc False
      by (intro exI [of _ "c # ds"]) (auto intro: fat_chain.intros)
  qed
qed simp

lemma traverse_loop_complete:
  "fat_chain fat c ds \<Longrightarrow> length ds \<le> n \<Longrightarrow> length clusters + length ds \<le> cap \<Longrightarrow>
    distinct (clusters @ ds) \<Longrightarrow> traverse_loop n fat cap c clusters = Inr (clusters @ ds)"
proof (induction arbitrary: n clusters rule: fat_chain.induct)
  case (fat_chain_last c)
  then show ?case by (cases n) auto
next
  case (fat_chain_link c cs)
  then obtain m where "n = Suc m" by (cases n) auto
  then show ?case using fat_chain_link.prems fat_chain_link.hyps fat_chain_link.IH [of m "clusters @ [c]"] by auto
qed

lemma traverse_iff_chain:
  "ios_fs_fat_traverse fat start cap = Inr cs \<longleftrightarrow>
     valid_entry_count (length fat) \<and> fat_chain fat start cs \<and> length cs \<le> cap"
proof
  assume "ios_fs_fat_traverse fat start cap = Inr cs"
  then have "valid_entry_count (length fat)" "traverse_loop (length fat) fat cap start [] = Inr cs"
    by (auto simp: ios_fs_fat_traverse_def split: if_splits)
  then show "valid_entry_count (length fat) \<and> fat_chain fat start cs \<and> length cs \<le> cap"
    using traverse_loop_sound [of "length fat" fat cap start "[]" cs] by auto
next
  assume spec: "valid_entry_count (length fat) \<and> fat_chain fat start cs \<and> length cs \<le> cap"
  then have "cs \<noteq> []" "start \<in> set cs" using fat_chain_hd [of fat start cs] by auto
  moreover have "valid_cluster start (length fat)"
    using spec \<open>start \<in> set cs\<close> fat_chain_valid by blast
  moreover have "0 < cap" using spec \<open>cs \<noteq> []\<close> by (cases cs) auto
  ultimately show "ios_fs_fat_traverse fat start cap = Inr cs"
    using spec traverse_loop_complete [of fat start cs "length fat" "[]" cap]
    by (auto simp: ios_fs_fat_traverse_def fat_chain_length fat_chain_distinct)
qed

section \<open>Allocation\<close>

lemma allocate_scan_eq:
  "length acc \<le> k \<Longrightarrow> allocate_scan fat k cs acc = acc @ take (k - length acc) (filter (\<lambda>c. fat ! c = 0) cs)"
proof (induction cs arbitrary: acc)
  case (Cons c cs)
  show ?case
  proof (cases "length acc < k")
    case True
    then obtain j where j: "k - length acc = Suc j" by (cases "k - length acc") auto
    then have "k - Suc (length acc) = j" by simp
    with j show ?thesis using Cons.IH [of "acc @ [c]"] Cons.IH [of acc] True by auto
  qed (use Cons.prems in auto)
qed simp

definition free_clusters :: "u32 list \<Rightarrow> nat list" where
  "free_clusters fat = filter (\<lambda>c. fat ! c = IOS_FS_FAT_FREE) [2..<length fat]"

lemma allocate_eq:
  "ios_fs_fat_allocate fat k cap =
     (if \<not> valid_entry_count (length fat) \<or> k = 0 \<or> k > cap then Inl IOS_E_INVALID_ARGUMENT
      else if length (free_clusters fat) < k then Inl IOS_E_NO_SPACE
      else Inr (allocate_link fat (take k (free_clusters fat)), take k (free_clusters fat)))"
  by (auto simp: ios_fs_fat_allocate_def allocate_scan_eq free_clusters_def Let_def)

lemma length_allocate_link [simp]: "length (allocate_link fat cs) = length fat"
  by (induction fat cs rule: allocate_link.induct) simp_all

lemma allocate_link_other: "c \<notin> set cs \<Longrightarrow> allocate_link fat cs ! c = fat ! c"
  by (induction fat cs rule: allocate_link.induct) auto

lemma classify_end_of_chain [simp]: "classify_next IOS_FS_FAT_END_OF_CHAIN n = Inr True"
  by (simp add: classify_next_def)

lemma data_cluster_mask:
  assumes "c \<le> IOS_FS_MAX_DATA_CLUSTER"
  shows "(of_nat c :: u32) AND IOS_FS_FAT_VALUE_MASK = of_nat c"
    and "(of_nat c :: u32) AND IOS_FS_FAT_UPPER_MASK = 0"
proof -
  have mask: "IOS_FS_FAT_VALUE_MASK = mask 28" by (simp add: mask_eq_exp_minus_1)
  have "take_bit 28 (of_nat c :: u32) = of_nat c"
    using assms by (simp add: take_bit_of_nat take_bit_nat_eq_self)
  then show low: "(of_nat c :: u32) AND IOS_FS_FAT_VALUE_MASK = of_nat c"
    by (simp add: mask take_bit_eq_mask)
  have "(of_nat c :: u32) AND IOS_FS_FAT_UPPER_MASK
      = (of_nat c AND IOS_FS_FAT_VALUE_MASK) AND IOS_FS_FAT_UPPER_MASK" by (simp only: low)
  also have "\<dots> = of_nat c AND (IOS_FS_FAT_VALUE_MASK AND IOS_FS_FAT_UPPER_MASK)"
    by (simp only: and.assoc)
  also have "\<dots> = 0" by simp
  finally show "(of_nat c :: u32) AND IOS_FS_FAT_UPPER_MASK = 0" .
qed

lemma classify_data_cluster:
  assumes "valid_cluster c n"
  shows "classify_next (of_nat c) n = Inr False" and "unat (of_nat c AND IOS_FS_FAT_VALUE_MASK) = c"
proof -
  have c: "2 \<le> c" "c \<le> IOS_FS_MAX_DATA_CLUSTER" using assms by (auto simp: valid_cluster_def)
  have unat: "unat (of_nat c :: u32) = c" using c(2) by (simp add: unat_of_nat)
  then show "unat (of_nat c AND IOS_FS_FAT_VALUE_MASK) = c" by (simp add: data_cluster_mask [OF c(2)])
  show "classify_next (of_nat c) n = Inr False"
    using c unat assms
    by (auto simp: classify_next_def data_cluster_mask [OF c(2)] Let_def word_le_nat_alt
        word_unat_eq_iff)
qed

lemma allocate_link_chain:
  "distinct cs \<Longrightarrow> cs \<noteq> [] \<Longrightarrow> (\<And>c. c \<in> set cs \<Longrightarrow> valid_cluster c (length fat)) \<Longrightarrow>
    fat_chain (allocate_link fat cs) (hd cs) cs"
proof (induction fat cs rule: allocate_link.induct)
  case (2 fat c)
  then show ?case by (auto intro!: fat_chain.fat_chain_last simp: valid_cluster_def)
next
  case (3 fat c d cs)
  let ?fat = "allocate_link (fat[c := of_nat d]) (d # cs)"
  have valid: "valid_cluster c (length fat)" "valid_cluster d (length fat)" using 3(4) by auto
  have "fat_chain ?fat d (d # cs)" using 3 by auto
  moreover have "?fat ! c = of_nat d"
    using 3(2) valid by (subst allocate_link_other) (auto simp: valid_cluster_def)
  ultimately show ?case
    using valid classify_data_cluster [OF valid(2)]
    by (auto intro!: fat_chain.fat_chain_link simp: fat_next_def)
qed simp

lemma free_clusters_facts:
  assumes "valid_entry_count (length fat)"
  shows "distinct (free_clusters fat)"
    and "c \<in> set (free_clusters fat) \<Longrightarrow> fat ! c = 0 \<and> valid_cluster c (length fat)"
  using assms by (auto simp: free_clusters_def valid_cluster_def valid_entry_count_def)

lemma allocate_facts:
  assumes "ios_fs_fat_allocate fat k cap = Inr (fat', cs)"
  shows "valid_entry_count (length fat)" "length cs = k" "0 < k" "k \<le> cap" "distinct cs"
    "\<And>c. c \<in> set cs \<Longrightarrow> fat ! c = 0 \<and> valid_cluster c (length fat)"
    "length fat' = length fat" "\<And>c. c \<notin> set cs \<Longrightarrow> fat' ! c = fat ! c"
    "fat_chain fat' (hd cs) cs"
proof -
  have a: "valid_entry_count (length fat)" "0 < k" "k \<le> cap" "k \<le> length (free_clusters fat)"
      "cs = take k (free_clusters fat)" "fat' = allocate_link fat cs"
    using assms by (auto simp: allocate_eq split: if_splits)
  then show "valid_entry_count (length fat)" "length cs = k" "0 < k" "k \<le> cap" "distinct cs"
      "length fat' = length fat" "\<And>c. c \<notin> set cs \<Longrightarrow> fat' ! c = fat ! c"
    using free_clusters_facts(1) [OF a(1)] by (auto simp: allocate_link_other distinct_take)
  show free: "\<And>c. c \<in> set cs \<Longrightarrow> fat ! c = 0 \<and> valid_cluster c (length fat)"
    using free_clusters_facts(2) [OF a(1)] a(5) by (auto dest: in_set_takeD)
  have "cs \<noteq> []" using \<open>length cs = k\<close> a(2) by auto
  from allocate_link_chain [OF \<open>distinct cs\<close> this, of fat] free show "fat_chain fat' (hd cs) cs"
    unfolding a(6) by blast
qed

text \<open>A free entry is on no chain, so allocation never touches one.\<close>

lemma chain_not_free: "fat_chain fat c cs \<Longrightarrow> d \<in> set cs \<Longrightarrow> fat ! d \<noteq> 0"
  using fat_chain_entry by (fastforce simp: classify_next_def)

lemma allocate_disjoint_chain:
  assumes "ios_fs_fat_allocate fat k cap = Inr (fat', cs)" and "fat_chain fat s xs"
  shows "set xs \<inter> set cs = {}" and "fat_chain fat' s xs"
proof -
  show disj: "set xs \<inter> set cs = {}"
    using allocate_facts(6) [OF assms(1)] chain_not_free [OF assms(2)] by auto
  then show "fat_chain fat' s xs"
    using allocate_facts(7,8) [OF assms(1)] by (intro fat_chain_cong [OF assms(2)]) auto
qed

section \<open>Release\<close>

lemma length_release [simp]: "length (release_clusters fat cs) = length fat"
  unfolding release_clusters_def by (induction cs arbitrary: fat) auto

lemma nth_release:
  "(\<And>c. c \<in> set cs \<Longrightarrow> c < length fat) \<Longrightarrow>
    release_clusters fat cs ! d = (if d \<in> set cs then IOS_FS_FAT_FREE else fat ! d)"
  unfolding release_clusters_def by (induction cs arbitrary: fat) (auto simp: nth_list_update)

lemma chain_lt: "fat_chain fat s xs \<Longrightarrow> c \<in> set xs \<Longrightarrow> c < length fat"
  by (auto dest: fat_chain_valid simp: valid_cluster_def)

lemma free_iff:
  "ios_fs_fat_free fat start cap = Inr fat' \<longleftrightarrow>
     (\<exists>cs. valid_entry_count (length fat) \<and> fat_chain fat start cs \<and> length cs \<le> cap
        \<and> fat' = release_clusters fat cs)"
proof
  assume "ios_fs_fat_free fat start cap = Inr fat'"
  then obtain cs where "ios_fs_fat_traverse fat start cap = Inr cs" "fat' = release_clusters fat cs"
    by (auto simp: ios_fs_fat_free_def split: sum.splits)
  then show "\<exists>cs. valid_entry_count (length fat) \<and> fat_chain fat start cs \<and> length cs \<le> cap
      \<and> fat' = release_clusters fat cs"
    unfolding traverse_iff_chain by blast
next
  assume "\<exists>cs. valid_entry_count (length fat) \<and> fat_chain fat start cs \<and> length cs \<le> cap
      \<and> fat' = release_clusters fat cs"
  then obtain cs where "ios_fs_fat_traverse fat start cap = Inr cs" "fat' = release_clusters fat cs"
    unfolding traverse_iff_chain by blast
  then show "ios_fs_fat_free fat start cap = Inr fat'" by (simp add: ios_fs_fat_free_def)
qed

lemma allocate_free_id:
  assumes "ios_fs_fat_allocate fat k cap = Inr (fat', cs)" and "k \<le> cap'"
  shows "ios_fs_fat_free fat' (hd cs) cap' = Inr fat"
proof -
  note facts = allocate_facts [OF assms(1)]
  have "release_clusters fat' cs = fat"
  proof (rule nth_equalityI)
    fix i
    show "release_clusters fat' cs ! i = fat ! i"
      using facts(6-8) by (subst nth_release) (auto simp: valid_cluster_def)
  qed (simp add: facts(7))
  then show ?thesis
    using facts assms(2) by (auto simp: free_iff intro!: exI [of _ cs])
qed

section \<open>Ownership\<close>

text \<open>Marking a list of clusters in the owner map.\<close>

definition mark_owner :: "nat \<Rightarrow> nat list \<Rightarrow> nat list \<Rightarrow> nat list" where
  "mark_owner owner cs owner_map = foldl (\<lambda>m c. m[c := owner + 1]) owner_map cs"

lemma mark_owner_simps [simp]:
  "mark_owner w [] m = m" "mark_owner w (c # cs) m = mark_owner w cs (m[c := w + 1])"
  by (simp_all add: mark_owner_def)

lemma length_mark_owner [simp]: "length (mark_owner w cs m) = length m"
  by (induction cs arbitrary: m) auto

lemma nth_mark_owner:
  "(\<And>c. c \<in> set cs \<Longrightarrow> c < length m) \<Longrightarrow> mark_owner w cs m ! d = (if d \<in> set cs then w + 1 else m ! d)"
  by (induction cs arbitrary: m) (auto simp: nth_list_update)

lemma ownership_walk_sound:
  "ownership_walk n fat w c m = Inr m' \<Longrightarrow> length m = length fat \<Longrightarrow>
    \<exists>cs. fat_chain fat c cs \<and> m' = mark_owner w cs m \<and> (\<forall>d \<in> set cs. m ! d = 0)"
proof (induction n arbitrary: c m)
  case (Suc n)
  then have valid: "valid_cluster c (length fat)" "m ! c = 0" by (auto split: if_splits)
  obtain eoc where eoc: "classify_next (fat ! c) (length fat) = Inr eoc"
    using Suc.prems(1) by (auto simp: Let_def split: if_splits sum.splits)
  show ?case
  proof (cases eoc)
    case True
    then show ?thesis using Suc.prems valid eoc
      by (intro exI [of _ "[c]"]) (auto intro: fat_chain.intros)
  next
    case False
    then have "ownership_walk n fat w (fat_next fat c) (m[c := w + 1]) = Inr m'"
      using Suc.prems(1) eoc valid by auto
    then obtain cs where cs: "fat_chain fat (fat_next fat c) cs" "m' = mark_owner w cs (m[c := w + 1])"
        "\<forall>d \<in> set cs. m[c := w + 1] ! d = 0"
      using Suc.IH [of "fat_next fat c" "m[c := w + 1]"] Suc.prems(2) by auto
    have "\<forall>d \<in> set cs. m ! d = 0"
      using cs(3) valid(1) Suc.prems(2) by (metis Suc_eq_plus1 nat.distinct(1) nth_list_update_eq nth_list_update_neq valid_cluster_def)
    then show ?thesis using valid eoc False cs
      by (intro exI [of _ "c # cs"]) (auto intro: fat_chain.intros)
  qed
qed simp

lemma ownership_walk_complete:
  "fat_chain fat c cs \<Longrightarrow> length cs \<le> n \<Longrightarrow> length m = length fat \<Longrightarrow> distinct cs \<Longrightarrow> (\<forall>d \<in> set cs. m ! d = 0) \<Longrightarrow>
    ownership_walk n fat w c m = Inr (mark_owner w cs m)"
proof (induction arbitrary: n m rule: fat_chain.induct)
  case (fat_chain_last c)
  then show ?case by (cases n) auto
next
  case (fat_chain_link c cs)
  then obtain k where "n = Suc k" by (cases n) auto
  moreover have "\<forall>d \<in> set cs. m[c := w + 1] ! d = 0"
    using fat_chain_link.prems by (metis distinct.simps(2) list.set_intros(2) nth_list_update_neq)
  ultimately show ?case
    using fat_chain_link.prems fat_chain_link.hyps fat_chain_link.IH [of k "m[c := w + 1]"] by auto
qed

lemma ownership_walk_iff:
  "length m = length fat \<Longrightarrow> ownership_walk (length fat) fat w c m = Inr m' \<longleftrightarrow>
    (\<exists>cs. fat_chain fat c cs \<and> m' = mark_owner w cs m \<and> (\<forall>d \<in> set cs. m ! d = 0))"
  using ownership_walk_sound ownership_walk_complete fat_chain_length fat_chain_distinct by metis

text \<open>Marking the chains of successive owners.\<close>

fun mark_owners :: "nat \<Rightarrow> nat list list \<Rightarrow> nat list \<Rightarrow> nat list" where
  "mark_owners w [] m = m"
| "mark_owners w (cs # css) m = mark_owners (w + 1) css (mark_owner w cs m)"

lemma ownership_loop_Cons:
  assumes "length m = length fat"
  shows "ownership_loop fat w (s # starts) m = Inr m' \<longleftrightarrow>
      (\<exists>cs. fat_chain fat s cs \<and> (\<forall>d \<in> set cs. m ! d = 0)
         \<and> ownership_loop fat (w + 1) starts (mark_owner w cs m) = Inr m')"
    (is "?loop \<longleftrightarrow> ?spec")
proof
  assume ?loop
  then obtain b where "ownership_walk (length fat) fat w s m = Inr b"
      "ownership_loop fat (w + 1) starts b = Inr m'"
    by (auto split: if_splits sum.splits)
  then show ?spec using ownership_walk_sound assms by blast
next
  assume ?spec
  then obtain cs where cs: "fat_chain fat s cs" "\<forall>d \<in> set cs. m ! d = 0"
      "ownership_loop fat (w + 1) starts (mark_owner w cs m) = Inr m'" by blast
  then have "ownership_walk (length fat) fat w s m = Inr (mark_owner w cs m)"
    using assms by (simp add: ownership_walk_complete fat_chain_length fat_chain_distinct)
  moreover have "valid_cluster s (length fat)"
    using cs(1) fat_chain_hd fat_chain_valid by (metis list.set_sel(1))
  ultimately show ?loop using cs(3) by simp
qed

lemma ownership_loop_iff:
  "length m = length fat \<Longrightarrow> ownership_loop fat w starts m = Inr m' \<longleftrightarrow>
    (\<exists>css. list_all2 (fat_chain fat) starts css \<and> m' = mark_owners w css m
       \<and> distinct (concat css) \<and> (\<forall>d \<in> set (concat css). m ! d = 0))"
proof (induction starts arbitrary: w m)
  case Nil
  then show ?case by auto
next
  case (Cons s starts)
  have zero: "(\<forall>d \<in> set ds. mark_owner w cs m ! d = 0) \<longleftrightarrow> set cs \<inter> set ds = {} \<and> (\<forall>d \<in> set ds. m ! d = 0)"
    if "fat_chain fat s cs" for cs ds
    using chain_lt [OF that] Cons.prems by (subst nth_mark_owner) (auto split: if_splits)
  have IH: "ownership_loop fat (w + 1) starts (mark_owner w cs m) = Inr m' \<longleftrightarrow>
      (\<exists>css. list_all2 (fat_chain fat) starts css \<and> m' = mark_owners w (cs # css) m
         \<and> distinct (concat css) \<and> set cs \<inter> set (concat css) = {} \<and> (\<forall>d \<in> set (concat css). m ! d = 0))"
    if "fat_chain fat s cs" for cs
    using Cons.IH [of "mark_owner w cs m" "w + 1"] Cons.prems zero [OF that] by (simp del: set_concat)
  show ?case
  proof
    assume "ownership_loop fat w (s # starts) m = Inr m'"
    then obtain cs where cs: "fat_chain fat s cs" "\<forall>d \<in> set cs. m ! d = 0"
        "ownership_loop fat (w + 1) starts (mark_owner w cs m) = Inr m'"
      unfolding ownership_loop_Cons [OF Cons.prems] by blast
    from cs(3) obtain css where css: "list_all2 (fat_chain fat) starts css" "m' = mark_owners w (cs # css) m"
        "distinct (concat css)" "set cs \<inter> set (concat css) = {}" "\<forall>d \<in> set (concat css). m ! d = 0"
      unfolding IH [OF cs(1)] by blast
    have "\<forall>d \<in> set (concat (cs # css)). m ! d = 0" using cs(2) css(5) by (simp del: set_concat) blast
    moreover have "distinct (concat (cs # css))"
      using css(3,4) fat_chain_distinct [OF cs(1)] by (simp del: set_concat)
    ultimately show "\<exists>css. list_all2 (fat_chain fat) (s # starts) css \<and> m' = mark_owners w css m
       \<and> distinct (concat css) \<and> (\<forall>d \<in> set (concat css). m ! d = 0)"
      using cs(1) css(1,2) by (intro exI [of _ "cs # css"]) simp
  next
    assume "\<exists>css. list_all2 (fat_chain fat) (s # starts) css \<and> m' = mark_owners w css m
       \<and> distinct (concat css) \<and> (\<forall>d \<in> set (concat css). m ! d = 0)"
    then obtain cs css where css: "fat_chain fat s cs" "list_all2 (fat_chain fat) starts css"
        "m' = mark_owners w (cs # css) m" "distinct (cs @ concat css)" "\<forall>d \<in> set (cs @ concat css). m ! d = 0"
      unfolding list_all2_Cons1 by (metis concat.simps(2))
    have "ownership_loop fat (w + 1) starts (mark_owner w cs m) = Inr m'"
      unfolding IH [OF css(1)] using css(2-5) by (intro exI [of _ css]) (simp del: set_concat add: ball_Un)
    then show "ownership_loop fat w (s # starts) m = Inr m'"
      unfolding ownership_loop_Cons [OF Cons.prems] using css(1,5) by (intro exI [of _ cs]) simp
  qed
qed

text \<open>After a successful validation the map names, for every cluster, the owner whose chain holds it.\<close>

lemma length_mark_owners [simp]: "length (mark_owners w css m) = length m"
  by (induction w css m rule: mark_owners.induct) auto

lemma nth_mark_owners:
  assumes "distinct (concat css)" and "\<And>c. c \<in> set (concat css) \<Longrightarrow> c < length m" and "d \<in> set (css ! i)"
    and "i < length css"
  shows "mark_owners w css m ! d = w + i + 1"
  using assms
proof (induction w css m arbitrary: i rule: mark_owners.induct)
  case (2 w cs css m)
  have keep: "mark_owners v ds m' ! d = m' ! d"
    if "d \<notin> set (concat ds)" "\<And>c. c \<in> set (concat ds) \<Longrightarrow> c < length m'" for v ds m'
    using that by (induction v ds m' rule: mark_owners.induct) (auto simp: nth_mark_owner)
  show ?case
  proof (cases i)
    case 0
    then have "d \<notin> set (concat css)" using 2(2,4) by auto
    moreover have "c < length (mark_owner w cs m)" if "c \<in> set (concat css)" for c
      using 2(3) [of c] that by simp
    moreover have "d \<in> set cs" "d < length m" using 0 2(3) [of d] 2(4) by simp_all
    moreover have "mark_owner w cs m ! d = w + 1"
      using 2(3) \<open>d \<in> set cs\<close> by (subst nth_mark_owner) auto
    ultimately show ?thesis using 0 keep [of css "mark_owner w cs m" "w + 1"] by simp
  next
    case (Suc j)
    then show ?thesis using 2(1) [of j] 2(2-5) by auto
  qed
qed simp

section \<open>File capacity\<close>

lemma capacity_loop_iff:
  "fat_chain fat c cs \<Longrightarrow> length cs \<le> n \<Longrightarrow>
    capacity_loop n fat fsize cb c cap = (if fsize \<le> cap + length cs * cb then Inr () else Inl IOS_E_CORRUPT)"
proof (induction arbitrary: n cap rule: fat_chain.induct)
  case (fat_chain_last c)
  then show ?case by (cases n) auto
next
  case (fat_chain_link c cs)
  then obtain k where "n = Suc k" by (cases n) auto
  then show ?case using fat_chain_link.prems fat_chain_link.hyps fat_chain_link.IH [of k "cap + cb"]
    by (simp add: algebra_simps)
qed

lemma capacity_loop_sound: "capacity_loop n fat fsize cb c cap = Inr () \<Longrightarrow> \<exists>cs. fat_chain fat c cs"
proof (induction n arbitrary: c cap)
  case (Suc n)
  then obtain eoc where eoc: "classify_next (fat ! c) (length fat) = Inr eoc" "valid_cluster c (length fat)"
    by (auto simp: Let_def split: if_splits sum.splits)
  show ?case
  proof (cases eoc)
    case True
    with eoc show ?thesis by (auto intro: fat_chain.intros)
  next
    case False
    with Suc eoc have "\<exists>cs. fat_chain fat (fat_next fat c) cs" by simp
    with eoc False show ?thesis by (auto intro: fat_chain.intros)
  qed
qed simp

lemma file_capacity_iff:
  assumes "fsize \<noteq> 0"
  shows "ios_fs_fat_validate_file_capacity fat start fsize cb = Inr () \<longleftrightarrow>
    cb \<noteq> 0 \<and> valid_entry_count (length fat)
    \<and> (\<exists>cs. fat_chain fat start cs \<and> fsize \<le> length cs * cb)"
proof (cases "\<exists>cs. fat_chain fat start cs")
  case True
  then obtain cs where cs: "fat_chain fat start cs" by blast
  then have "valid_cluster start (length fat)" using fat_chain_hd fat_chain_valid by (metis list.set_sel(1))
  moreover have "(\<exists>cs. fat_chain fat start cs \<and> fsize \<le> length cs * cb) \<longleftrightarrow> fsize \<le> length cs * cb"
    using cs fat_chain_deterministic by blast
  ultimately show ?thesis
    using assms capacity_loop_iff [OF cs fat_chain_length [OF cs], of fsize cb 0]
    by (auto simp: ios_fs_fat_validate_file_capacity_def)
next
  case False
  then show ?thesis
    using assms capacity_loop_sound [of "length fat" fat fsize cb start 0]
    by (auto simp: ios_fs_fat_validate_file_capacity_def)
qed

section \<open>Properties\<close>

text \<open>C29: Traversal is exact. It succeeds with a list of clusters exactly when the table has a
  valid size, the list is the cluster chain of the start cluster and it fits the caller's
  array; in particular a cyclic, dangling or reserved link is always refused.\<close>

theorem fat_traverse_exact:
  "ios_fs_fat_traverse fat start cap = Inr cs \<longleftrightarrow>
     valid_entry_count (length fat) \<and> fat_chain fat start cs \<and> length cs \<le> cap"
  by (rule traverse_iff_chain)

text \<open>C30: A successful allocation returns the requested number of distinct clusters that were free,
  links them into a chain that a traversal finds, changes no other entry and leaves every
  existing chain intact and disjoint from the new one.\<close>

theorem fat_allocate_correct:
  assumes "ios_fs_fat_allocate fat k cap = Inr (fat', cs)"
  shows "length cs = k \<and> distinct cs \<and> (\<forall>c \<in> set cs. fat ! c = IOS_FS_FAT_FREE)
    \<and> ios_fs_fat_traverse fat' (hd cs) cap = Inr cs
    \<and> (\<forall>c. c \<notin> set cs \<longrightarrow> fat' ! c = fat ! c)
    \<and> (\<forall>s xs. fat_chain fat s xs \<longrightarrow> set xs \<inter> set cs = {} \<and> fat_chain fat' s xs)"
  using allocate_facts [OF assms] allocate_disjoint_chain [OF assms]
  by (auto simp: traverse_iff_chain)

text \<open>With valid arguments allocation fails exactly when fewer clusters are free than
  requested, and then with the no-space error.\<close>

theorem fat_allocate_fails_iff_full:
  assumes "valid_entry_count (length fat)" and "0 < k" and "k \<le> cap"
  shows "ios_fs_fat_allocate fat k cap = Inl e \<longleftrightarrow>
    e = IOS_E_NO_SPACE \<and> length (filter (\<lambda>c. fat ! c = IOS_FS_FAT_FREE) [2..<length fat]) < k"
  using assms by (auto simp: allocate_eq free_clusters_def)

text \<open>Releasing a freshly allocated chain restores the table bit for bit.\<close>

theorem fat_allocate_free_roundtrip:
  assumes "ios_fs_fat_allocate fat k cap = Inr (fat', cs)" and "k \<le> cap'"
  shows "ios_fs_fat_free fat' (hd cs) cap' = Inr fat"
  using assms by (rule allocate_free_id)

text \<open>Releasing a chain frees exactly its clusters and keeps every chain that shares no
  cluster with it.\<close>

theorem fat_free_correct:
  assumes "ios_fs_fat_free fat start cap = Inr fat'"
  shows "\<exists>cs. fat_chain fat start cs
    \<and> (\<forall>c. fat' ! c = (if c \<in> set cs then IOS_FS_FAT_FREE else fat ! c))
    \<and> (\<forall>s xs. fat_chain fat s xs \<longrightarrow> set xs \<inter> set cs = {} \<longrightarrow> fat_chain fat' s xs)"
proof -
  obtain cs where cs: "fat_chain fat start cs" "fat' = release_clusters fat cs"
    using assms by (auto simp: free_iff)
  have entry: "fat' ! c = (if c \<in> set cs then IOS_FS_FAT_FREE else fat ! c)" for c
    using chain_lt [OF cs(1)] unfolding cs(2) by (rule nth_release)
  have "fat_chain fat' s xs" if "fat_chain fat s xs" "set xs \<inter> set cs = {}" for s xs
    using that(2) entry by (intro fat_chain_cong [OF that(1)]) (auto simp: cs(2))
  with cs(1) entry show ?thesis by blast
qed

text \<open>Ownership validation succeeds exactly when every start cluster begins a well-formed
  chain and no cluster lies on two of the chains.\<close>

theorem fat_ownership_exact:
  assumes "starts \<noteq> []" and "length starts \<le> UINT32_MAX" and "valid_entry_count (length fat)"
    and "length fat \<le> map_count"
  shows "(\<exists>m. ios_fs_fat_validate_ownership fat starts map_count = Inr m) \<longleftrightarrow>
    (\<exists>css. list_all2 (fat_chain fat) starts css \<and> distinct (concat css))"
proof -
  have "ios_fs_fat_validate_ownership fat starts map_count
      = ownership_loop fat 0 starts (replicate (length fat) 0)"
    using assms by (simp add: ios_fs_fat_validate_ownership_def)
  moreover have "replicate (length fat) 0 ! d = (0 :: nat)"
    if "list_all2 (fat_chain fat) starts css" "d \<in> set (concat css)" for css d
    using that by (auto simp: list_all2_conv_all_nth in_set_conv_nth intro: nth_replicate)
      (metis chain_lt nth_mem nth_replicate)
  ultimately show ?thesis by (simp add: ownership_loop_iff) blast
qed

text \<open>A non-empty file passes the capacity check exactly when its start cluster begins a
  well-formed chain whose clusters hold at least the file's size.\<close>

theorem fat_file_capacity_exact:
  assumes "fsize \<noteq> 0"
  shows "ios_fs_fat_validate_file_capacity fat start fsize cb = Inr () \<longleftrightarrow>
    cb \<noteq> 0 \<and> valid_entry_count (length fat)
    \<and> (\<exists>cs. fat_chain fat start cs \<and> fsize \<le> length cs * cb)"
  using assms by (rule file_capacity_iff)

section \<open>Witnesses\<close>

text \<open>A table of six entries with the one-cluster root chain at cluster 2.\<close>

definition small_fat :: "u32 list" where
  "small_fat = [0x0fffffff, 0x0fffffff, 0x0fffffff, 0, 0, 0]"

definition small_fat_allocated :: "u32 list" where
  "small_fat_allocated = [0x0fffffff, 0x0fffffff, 0x0fffffff, 4, 0x0fffffff, 0]"

lemma small_fat_allocate: "ios_fs_fat_allocate small_fat 2 4 = Inr (small_fat_allocated, [3, 4])"
  by (simp add: small_fat_def small_fat_allocated_def ios_fs_fat_allocate_def valid_entry_count_def upt_rec)

lemma small_fat_root: "fat_chain small_fat 2 [2]"
  by (rule fat_chain.fat_chain_last) (simp_all add: small_fat_def valid_cluster_def classify_next_def)

theorem fat_allocate_correct_witness:
  "ios_fs_fat_traverse small_fat_allocated 3 4 = Inr [3, 4] \<and> fat_chain small_fat_allocated 2 [2]"
  using fat_allocate_correct [OF small_fat_allocate] small_fat_root by auto

theorem fat_allocate_fails_iff_full_witness:
  "ios_fs_fat_allocate small_fat 4 4 = Inl IOS_E_NO_SPACE"
  using fat_allocate_fails_iff_full [of small_fat 4 4 IOS_E_NO_SPACE]
  by (simp add: small_fat_def valid_entry_count_def upt_rec)

theorem fat_allocate_free_roundtrip_witness:
  "ios_fs_fat_free small_fat_allocated 3 2 = Inr small_fat"
  using fat_allocate_free_roundtrip [OF small_fat_allocate, of 2] by simp

lemma small_fat_free: "ios_fs_fat_free small_fat_allocated 3 2 = Inr small_fat"
  using allocate_free_id [OF small_fat_allocate, of 2] by simp

theorem fat_free_correct_witness: "\<exists>cs. fat_chain small_fat_allocated 3 cs"
  using fat_free_correct [OF small_fat_free] by blast

theorem fat_ownership_exact_witness:
  "\<exists>m. ios_fs_fat_validate_ownership small_fat [2] 6 = Inr m"
proof -
  have "list_all2 (fat_chain small_fat) [2] [[2]]" using small_fat_root by simp
  then show ?thesis
    using fat_ownership_exact [of "[2]" small_fat 6]
    by (auto simp: small_fat_def valid_entry_count_def intro!: exI [of _ "[[2]]"])
qed

theorem fat_file_capacity_exact_witness:
  "ios_fs_fat_validate_file_capacity small_fat 2 4096 4096 = Inr ()"
  using fat_file_capacity_exact [of 4096 small_fat 2 4096] small_fat_root
  by (auto simp: small_fat_def valid_entry_count_def intro!: exI [of _ "[2]"])

end
