(* ===== verification/Block_Device.thy ===== *)
theory Block_Device
  imports IOS_Prelude
begin

text \<open>
  The generic block device (block.h, device.c). The driver behind a device is a record of
  functions on the driver's state, exactly the function pointers of
  \<^verbatim>\<open>struct ios_block_device_operations\<close>; the locale \<open>block_driver\<close> states what the rest of
  the system relies on of a driver. The driver of the test support library, a sparse disk with
  fault injection (\<^verbatim>\<open>tests/support/fake_block.c\<close>), is modelled and shown to be an instance.
  Sector numbers and counts are naturals: every comparison that guards the 64-bit arithmetic
  is written out.
\<close>

section \<open>Devices\<close>

datatype ios_block_device_status =
    IOS_BLOCK_DEVICE_OFFLINE | IOS_BLOCK_DEVICE_READY
  | IOS_BLOCK_DEVICE_READ_ONLY | IOS_BLOCK_DEVICE_FAILED

record 'd ios_block_device_operations =
  op_read :: "'d \<Rightarrow> nat \<Rightarrow> nat \<Rightarrow> 'd \<times> bytes res"
  op_write :: "'d \<Rightarrow> nat \<Rightarrow> nat \<Rightarrow> bytes \<Rightarrow> 'd \<times> unit res"
  op_flush :: "'d \<Rightarrow> 'd \<times> unit res"

record 'd ios_block_device =
  bd_context :: 'd
  bd_operations :: "'d ios_block_device_operations"
  bd_sector_count :: nat
  bd_logical_sector_size :: nat
  bd_status :: ios_block_device_status

abbreviation IOS_BLOCK_SECTOR_SIZE :: nat where "IOS_BLOCK_SECTOR_SIZE \<equiv> 512"
abbreviation UINT64_MAX :: nat where "UINT64_MAX \<equiv> 18446744073709551615"

definition validate_range :: "'d ios_block_device \<Rightarrow> nat \<Rightarrow> nat \<Rightarrow> unit res" where
  "validate_range device first_sector sector_count =
     (if sector_count = 0 then Inl IOS_E_INVALID_ARGUMENT
      else if bd_status device = IOS_BLOCK_DEVICE_OFFLINE \<or> bd_status device = IOS_BLOCK_DEVICE_FAILED
      then Inl IOS_E_INVALID_STATE
      else if first_sector \<ge> bd_sector_count device
        \<or> sector_count > bd_sector_count device - first_sector then Inl IOS_E_OUT_OF_RANGE
      else Inr ())"

definition block_device_initialize ::
  "'d \<Rightarrow> 'd ios_block_device_operations \<Rightarrow> nat \<Rightarrow> nat \<Rightarrow> ios_block_device_status \<Rightarrow> 'd ios_block_device res" where
  "block_device_initialize context operations logical_sector_size sector_count status =
     (if logical_sector_size = 0 \<or> sector_count = 0 \<or> status = IOS_BLOCK_DEVICE_OFFLINE
      then Inl IOS_E_INVALID_ARGUMENT
      else Inr \<lparr>bd_context = context, bd_operations = operations, bd_sector_count = sector_count,
             bd_logical_sector_size = logical_sector_size, bd_status = status\<rparr>)"

definition block_device_read ::
  "'d ios_block_device \<Rightarrow> nat \<Rightarrow> nat \<Rightarrow> 'd ios_block_device \<times> bytes res" where
  "block_device_read device first_sector sector_count =
     (case validate_range device first_sector sector_count of
        Inl e \<Rightarrow> (device, Inl e)
      | Inr _ \<Rightarrow>
         (case op_read (bd_operations device) (bd_context device) first_sector sector_count of
            (context, r) \<Rightarrow> (device\<lparr>bd_context := context\<rparr>, r)))"

definition block_device_write ::
  "'d ios_block_device \<Rightarrow> nat \<Rightarrow> nat \<Rightarrow> bytes \<Rightarrow> 'd ios_block_device \<times> unit res" where
  "block_device_write device first_sector sector_count buffer =
     (case validate_range device first_sector sector_count of
        Inl e \<Rightarrow> (device, Inl e)
      | Inr _ \<Rightarrow>
          if bd_status device = IOS_BLOCK_DEVICE_READ_ONLY then (device, Inl IOS_E_READ_ONLY)
          else case op_write (bd_operations device) (bd_context device) first_sector sector_count buffer of
                 (context, r) \<Rightarrow> (device\<lparr>bd_context := context\<rparr>, r))"

definition block_device_flush :: "'d ios_block_device \<Rightarrow> 'd ios_block_device \<times> unit res" where
  "block_device_flush device =
     (if bd_status device = IOS_BLOCK_DEVICE_OFFLINE \<or> bd_status device = IOS_BLOCK_DEVICE_FAILED
      then (device, Inl IOS_E_INVALID_STATE)
      else case op_flush (bd_operations device) (bd_context device) of
             (context, r) \<Rightarrow> (device\<lparr>bd_context := context\<rparr>, r))"

definition block_device_capacity_bytes :: "'d ios_block_device \<Rightarrow> nat" where
  "block_device_capacity_bytes device =
     (if bd_logical_sector_size device = 0
         \<or> bd_sector_count device > UINT64_MAX div bd_logical_sector_size device then 0
      else bd_sector_count device * bd_logical_sector_size device)"

definition block_device_get_status :: "'d ios_block_device \<Rightarrow> ios_block_device_status" where
  "block_device_get_status device = bd_status device"

section \<open>What a driver promises\<close>

text \<open>The bytes of \<open>n\<close> sectors from \<open>first\<close> on, and the \<open>i\<close>-th sector of a buffer.\<close>

definition sectors_of :: "(nat \<Rightarrow> bytes) \<Rightarrow> nat \<Rightarrow> nat \<Rightarrow> bytes" where
  "sectors_of contents first n = concat (map (\<lambda>i. contents (first + i)) [0..<n])"

definition sector_of :: "bytes \<Rightarrow> nat \<Rightarrow> bytes" where
  "sector_of buffer i = field_at (i * IOS_BLOCK_SECTOR_SIZE) IOS_BLOCK_SECTOR_SIZE buffer"

definition put_sectors :: "(nat \<Rightarrow> bytes) \<Rightarrow> nat \<Rightarrow> nat \<Rightarrow> bytes \<Rightarrow> nat \<Rightarrow> bytes" where
  "put_sectors contents first n buffer s =
     (if first \<le> s \<and> s < first + n then sector_of buffer (s - first) else contents s)"

text \<open>
  \<open>contents\<close> is what the medium holds, \<open>ok\<close> the driver's own invariant. A read or a flush
  changes nothing, a successful read returns the medium's sectors, a successful write replaces
  exactly the addressed sectors, and a failed write may leave anything in the addressed sectors
  and nothing else anywhere.
\<close>

locale block_driver =
  fixes ops :: "'d ios_block_device_operations"
    and contents :: "'d \<Rightarrow> nat \<Rightarrow> bytes"
    and ok :: "'d \<Rightarrow> bool"
  assumes sector_length: "ok d \<Longrightarrow> length (contents d s) = IOS_BLOCK_SECTOR_SIZE"
    and read_keeps: "ok d \<Longrightarrow> op_read ops d s n = (d', r) \<Longrightarrow> ok d' \<and> contents d' = contents d"
    and read_data: "ok d \<Longrightarrow> op_read ops d s n = (d', Inr bs) \<Longrightarrow> bs = sectors_of (contents d) s n"
    and write_ok: "ok d \<Longrightarrow> length buf = n * IOS_BLOCK_SECTOR_SIZE \<Longrightarrow> op_write ops d s n buf = (d', w) \<Longrightarrow> ok d'"
    and write_other: "ok d \<Longrightarrow> length buf = n * IOS_BLOCK_SECTOR_SIZE \<Longrightarrow> op_write ops d s n buf = (d', w)
      \<Longrightarrow> \<not> (s \<le> t \<and> t < s + n) \<Longrightarrow> contents d' t = contents d t"
    and write_data: "ok d \<Longrightarrow> length buf = n * IOS_BLOCK_SECTOR_SIZE \<Longrightarrow> op_write ops d s n buf = (d', Inr ())
      \<Longrightarrow> contents d' = put_sectors (contents d) s n buf"
    and flush_keeps: "ok d \<Longrightarrow> op_flush ops d = (d', w) \<Longrightarrow> ok d' \<and> contents d' = contents d"
begin

text \<open>The same laws for a device that this driver serves.\<close>

definition dev_ok :: "'d ios_block_device \<Rightarrow> bool" where
  "dev_ok device \<longleftrightarrow> bd_operations device = ops \<and> ok (bd_context device)"

lemma device_read_keeps:
  assumes "dev_ok device" and "block_device_read device s n = (device', r)"
  shows "dev_ok device'" and "contents (bd_context device') = contents (bd_context device)"
    and "bd_sector_count device' = bd_sector_count device" and "bd_status device' = bd_status device"
    and "bd_logical_sector_size device' = bd_logical_sector_size device"
  using assms read_keeps
  by (auto simp: block_device_read_def dev_ok_def split: sum.splits prod.splits)

lemma device_read_data:
  assumes "dev_ok device" and "block_device_read device s n = (device', Inr bs)"
  shows "bs = sectors_of (contents (bd_context device)) s n"
  using assms read_data
  by (auto simp: block_device_read_def dev_ok_def split: sum.splits prod.splits)

lemma device_write_keeps:
  assumes "dev_ok device" and "length buf = n * IOS_BLOCK_SECTOR_SIZE"
    and "block_device_write device s n buf = (device', r)"
  shows "dev_ok device'" and "bd_sector_count device' = bd_sector_count device"
    and "bd_status device' = bd_status device"
    and "bd_logical_sector_size device' = bd_logical_sector_size device"
    and "\<not> (s \<le> t \<and> t < s + n) \<Longrightarrow> contents (bd_context device') t = contents (bd_context device) t"
  using assms write_ok write_other
  by (auto simp: block_device_write_def dev_ok_def split: sum.splits prod.splits if_splits)

lemma device_write_data:
  assumes "dev_ok device" and "length buf = n * IOS_BLOCK_SECTOR_SIZE"
    and "block_device_write device s n buf = (device', Inr ())"
  shows "contents (bd_context device') = put_sectors (contents (bd_context device)) s n buf"
  using assms write_data
  by (auto simp: block_device_write_def dev_ok_def split: sum.splits prod.splits if_splits)

lemma device_flush_keeps:
  assumes "dev_ok device" and "block_device_flush device = (device', r)"
  shows "dev_ok device'" and "contents (bd_context device') = contents (bd_context device)"
    and "bd_sector_count device' = bd_sector_count device" and "bd_status device' = bd_status device"
    and "bd_logical_sector_size device' = bd_logical_sector_size device"
  using assms flush_keeps
  by (auto simp: block_device_flush_def dev_ok_def split: prod.splits if_splits)

end

lemma sectors_of_1 [simp]: "sectors_of f s (Suc 0) = f s"
  by (simp add: sectors_of_def)

lemma put_sectors_1: "length buf = IOS_BLOCK_SECTOR_SIZE \<Longrightarrow> put_sectors f s (Suc 0) buf = f(s := buf)"
  by (auto simp: put_sectors_def sector_of_def field_at_def)

section \<open>The test driver\<close>

text \<open>The fault injector: rules that make the \<open>k\<close>-th occurrence of an operation fail.\<close>

datatype ios_fault_operation = IOS_FAULT_BLOCK_READ | IOS_FAULT_BLOCK_WRITE | IOS_FAULT_BLOCK_FLUSH

record ios_fault_rule =
  fr_operation :: ios_fault_operation
  fr_first_occurrence :: nat
  fr_interval :: nat
  fr_remaining_failures :: nat
  fr_status :: ios_error
  fr_enabled :: bool

record ios_fault_injector =
  fi_rules :: "ios_fault_rule list"
  fi_occurrences :: "ios_fault_operation \<Rightarrow> nat"

definition fault_injector_check ::
  "ios_fault_injector option \<Rightarrow> ios_fault_operation \<Rightarrow> ios_fault_injector option \<times> unit res" where
  "fault_injector_check injector operation =
     (case injector of
        None \<Rightarrow> (None, Inr ())
      | Some fi \<Rightarrow>
          let occurrence = fi_occurrences fi operation + 1;
              fi = fi\<lparr>fi_occurrences := (fi_occurrences fi)(operation := occurrence)\<rparr>
          in case find_index (\<lambda>rule. fr_enabled rule \<and> fr_operation rule = operation
                   \<and> occurrence \<ge> fr_first_occurrence rule
                   \<and> (occurrence - fr_first_occurrence rule) mod fr_interval rule = 0) (fi_rules fi) of
               None \<Rightarrow> (Some fi, Inr ())
             | Some index \<Rightarrow>
                 let rule = fi_rules fi ! index;
                     remaining = fr_remaining_failures rule - 1
                 in (Some (fi\<lparr>fi_rules := (fi_rules fi)[index :=
                       rule\<lparr>fr_remaining_failures := remaining, fr_enabled := (remaining \<noteq> 0)\<rparr>]\<rparr>),
                     Inl (fr_status rule)))"

text \<open>A materialised sector, or \<open>None\<close> for an entry that is not used.\<close>

record ios_fake_block =
  fb_sector_count :: nat
  fb_entries :: "(nat \<times> bytes) option list"
  fb_materialized_count :: nat
  fb_faults :: "ios_fault_injector option"
  fb_durable_generation :: nat
  fb_initialized :: bool

abbreviation fb_entry_capacity :: "ios_fake_block \<Rightarrow> nat" where
  "fb_entry_capacity d \<equiv> length (fb_entries d)"

definition fake_validate_range :: "ios_fake_block \<Rightarrow> nat \<Rightarrow> nat \<Rightarrow> unit res" where
  "fake_validate_range d first_sector sector_count =
     (if \<not> fb_initialized d \<or> sector_count = 0 \<or> first_sector \<ge> fb_sector_count d
         \<or> sector_count > fb_sector_count d - first_sector then Inl IOS_E_OUT_OF_RANGE else Inr ())"

definition fake_find_entry :: "ios_fake_block \<Rightarrow> nat \<Rightarrow> nat option" where
  "fake_find_entry d sector = find_index (\<lambda>entry. map_option fst entry = Some sector) (fb_entries d)"

definition fake_materialize :: "ios_fake_block \<Rightarrow> nat \<Rightarrow> ios_fake_block \<times> nat option" where
  "fake_materialize d sector =
     (case fake_find_entry d sector of
        Some index \<Rightarrow> (d, Some index)
      | None \<Rightarrow>
         (case find_index (\<lambda>entry. entry = None) (fb_entries d) of
            None \<Rightarrow> (d, None)
          | Some index \<Rightarrow>
              (d\<lparr>fb_entries := (fb_entries d)[index := Some (sector, replicate IOS_BLOCK_SECTOR_SIZE 0)],
                 fb_materialized_count := fb_materialized_count d + 1\<rparr>, Some index)))"

definition fake_sector :: "ios_fake_block \<Rightarrow> nat \<Rightarrow> bytes" where
  "fake_sector d sector =
     (case fake_find_entry d sector of
        None \<Rightarrow> replicate IOS_BLOCK_SECTOR_SIZE 0
      | Some index \<Rightarrow> snd (the (fb_entries d ! index)))"

definition fake_block_read :: "ios_fake_block \<Rightarrow> nat \<Rightarrow> nat \<Rightarrow> ios_fake_block \<times> bytes res" where
  "fake_block_read d first_sector sector_count =
     (case fake_validate_range d first_sector sector_count of
        Inl e \<Rightarrow> (d, Inl e)
      | Inr _ \<Rightarrow>
         (case fault_injector_check (fb_faults d) IOS_FAULT_BLOCK_READ of
            (faults, Inl e) \<Rightarrow> (d\<lparr>fb_faults := faults\<rparr>, Inl e)
          | (faults, Inr _) \<Rightarrow>
              (d\<lparr>fb_faults := faults\<rparr>,
               Inr (concat (map (\<lambda>index. fake_sector d (first_sector + index)) [0..<sector_count])))))"

fun fake_write_loop :: "ios_fake_block \<Rightarrow> nat \<Rightarrow> bytes \<Rightarrow> nat list \<Rightarrow> ios_fake_block \<times> unit res" where
  "fake_write_loop d first_sector input [] = (d, Inr ())"
| "fake_write_loop d first_sector input (index # rest) =
     (case fake_materialize d (first_sector + index) of
        (d, None) \<Rightarrow> (d, Inl IOS_E_INVALID_STATE)
      | (d, Some entry) \<Rightarrow>
          fake_write_loop
            (d\<lparr>fb_entries := (fb_entries d)[entry := Some (first_sector + index, sector_of input index)]\<rparr>)
            first_sector input rest)"

definition fake_block_write :: "ios_fake_block \<Rightarrow> nat \<Rightarrow> nat \<Rightarrow> bytes \<Rightarrow> ios_fake_block \<times> unit res" where
  "fake_block_write d first_sector sector_count input =
     (case fake_validate_range d first_sector sector_count of
        Inl e \<Rightarrow> (d, Inl e)
      | Inr _ \<Rightarrow>
         (case fault_injector_check (fb_faults d) IOS_FAULT_BLOCK_WRITE of
            (faults, Inl e) \<Rightarrow> (d\<lparr>fb_faults := faults\<rparr>, Inl e)
          | (faults, Inr _) \<Rightarrow>
              let d = d\<lparr>fb_faults := faults\<rparr>;
                  needed = length (filter (\<lambda>index. fake_find_entry d (first_sector + index) = None) [0..<sector_count])
              in if needed > fb_entry_capacity d - fb_materialized_count d then (d, Inl IOS_E_NO_SPACE)
                 else fake_write_loop d first_sector input [0..<sector_count]))"

definition fake_block_flush :: "ios_fake_block \<Rightarrow> ios_fake_block \<times> unit res" where
  "fake_block_flush d =
     (if \<not> fb_initialized d then (d, Inl IOS_E_INVALID_STATE)
      else case fault_injector_check (fb_faults d) IOS_FAULT_BLOCK_FLUSH of
          (faults, Inl e) \<Rightarrow> (d\<lparr>fb_faults := faults\<rparr>, Inl e)
        | (faults, Inr _) \<Rightarrow>
            (d\<lparr>fb_faults := faults, fb_durable_generation := fb_durable_generation d + 1\<rparr>, Inr ()))"

definition fake_operations :: "ios_fake_block ios_block_device_operations" where
  "fake_operations = \<lparr>op_read = fake_block_read, op_write = fake_block_write, op_flush = fake_block_flush\<rparr>"

text \<open>Used entries hold whole sectors and no sector is held twice.\<close>

definition fake_ok :: "ios_fake_block \<Rightarrow> bool" where
  "fake_ok d \<longleftrightarrow>
     (\<forall>i < length (fb_entries d). \<forall>s bs. fb_entries d ! i = Some (s, bs) \<longrightarrow> length bs = IOS_BLOCK_SECTOR_SIZE
        \<and> (\<forall>j < length (fb_entries d). \<forall>cs. fb_entries d ! j = Some (s, cs) \<longrightarrow> j = i))"

lemma fake_find_Some:
  "fake_find_entry d s = Some i \<Longrightarrow> i < length (fb_entries d) \<and> (\<exists>bs. fb_entries d ! i = Some (s, bs))"
  using find_index_SomeD [of _ "fb_entries d" i] unfolding fake_find_entry_def by fastforce

lemma fake_ok_length:
  "fake_ok d \<Longrightarrow> i < length (fb_entries d) \<Longrightarrow> fb_entries d ! i = Some (s, bs) \<Longrightarrow> length bs = IOS_BLOCK_SECTOR_SIZE"
  unfolding fake_ok_def by blast

lemma fake_ok_inj:
  "fake_ok d \<Longrightarrow> i < length (fb_entries d) \<Longrightarrow> j < length (fb_entries d)
    \<Longrightarrow> fb_entries d ! i = Some (s, bs) \<Longrightarrow> fb_entries d ! j = Some (s, cs) \<Longrightarrow> j = i"
  unfolding fake_ok_def by blast

lemma fake_find_None:
  "fake_find_entry d s = None \<longleftrightarrow> (\<forall>i < length (fb_entries d). \<forall>bs. fb_entries d ! i \<noteq> Some (s, bs))"
  by (auto simp: fake_find_entry_def find_index_None all_set_conv_all_nth)

lemma fake_sector_entry:
  assumes "fake_ok d" and "i < length (fb_entries d)" and "fb_entries d ! i = Some (s, bs)"
  shows "fake_sector d s = bs"
proof -
  have "fake_find_entry d s = Some i"
    unfolding fake_find_entry_def
  proof (rule find_index_unique)
    fix j assume "j < length (fb_entries d)" and "map_option fst (fb_entries d ! j) = Some s"
    then show "j = i" using fake_ok_inj [OF assms(1,2) _ assms(3)] by (cases "fb_entries d ! j") auto
  qed (use assms in auto)
  with assms(3) show ?thesis by (simp add: fake_sector_def)
qed

lemma fake_sector_cases:
  assumes "fake_ok d"
  shows "fake_sector d s = bs \<longleftrightarrow>
    (\<exists>i < length (fb_entries d). fb_entries d ! i = Some (s, bs))
    \<or> (bs = replicate IOS_BLOCK_SECTOR_SIZE 0 \<and> (\<forall>i < length (fb_entries d). \<forall>cs. fb_entries d ! i \<noteq> Some (s, cs)))"
proof (cases "fake_find_entry d s")
  case None
  then show ?thesis using fake_find_None [of d s] by (auto simp: fake_sector_def)
next
  case (Some i)
  then obtain bs' where at: "i < length (fb_entries d)" "fb_entries d ! i = Some (s, bs')"
    using fake_find_Some by blast
  then have "fake_sector d s = bs'" using assms by (simp add: fake_sector_entry)
  moreover have "cs = bs'" if "j < length (fb_entries d)" "fb_entries d ! j = Some (s, cs)" for j cs
    using fake_ok_inj [OF assms at(1) that(1) at(2) that(2)] at(2) that(2) by simp
  ultimately show ?thesis using at by blast
qed

lemma length_fake_sector: "fake_ok d \<Longrightarrow> length (fake_sector d s) = IOS_BLOCK_SECTOR_SIZE"
  using fake_sector_cases [of d s "fake_sector d s"] fake_ok_length by force

text \<open>Storing one sector at the entry that \<open>materialize\<close> gives.\<close>

lemma fake_store:
  assumes ok: "fake_ok d" and "fake_materialize d s = (d', Some i)" and "length bs = IOS_BLOCK_SECTOR_SIZE"
  defines "e \<equiv> d'\<lparr>fb_entries := (fb_entries d')[i := Some (s, bs)]\<rparr>"
  shows "fake_ok e" and "fake_sector e = (fake_sector d)(s := bs)"
proof -
  have i: "i < length (fb_entries d)" and ent: "fb_entries e = (fb_entries d)[i := Some (s, bs)]"
    and at: "fb_entries d ! i = None \<and> fake_find_entry d s = None \<or> (\<exists>cs. fb_entries d ! i = Some (s, cs))"
    using assms(2) fake_find_Some [of d s i]
    by (auto simp: fake_materialize_def e_def split: option.splits dest: find_index_SomeD)
  have other: "j = i" if "j < length (fb_entries d)" "fb_entries d ! j = Some (s, cs)" for j cs
    using at that fake_ok_inj [OF ok i that(1) _ that(2)] fake_find_None [of d s] by blast
  show ok': "fake_ok e"
    unfolding fake_ok_def ent length_list_update
  proof (intro allI impI conjI)
    fix j t cs
    assume j: "j < length (fb_entries d)" "(fb_entries d)[i := Some (s, bs)] ! j = Some (t, cs)"
    then show "length cs = IOS_BLOCK_SECTOR_SIZE"
      using assms(3) fake_ok_length [OF ok j(1)] by (cases "j = i") (auto simp: i)
    fix k ds
    assume k: "k < length (fb_entries d)" "(fb_entries d)[i := Some (s, bs)] ! k = Some (t, ds)"
    have upd: "fb_entries d ! l = Some (t, es) \<and> l \<noteq> i \<or> l = i \<and> t = s"
      if "(fb_entries d)[i := Some (s, bs)] ! l = Some (t, es)" for l es
      using that i by (cases "l = i") auto
    show "k = j"
      using upd [OF j(2)] upd [OF k(2)] other [OF j(1)] other [OF k(1)] fake_ok_inj [OF ok j(1) k(1)]
      by blast
  qed
  show "fake_sector e = (fake_sector d)(s := bs)"
  proof
    fix t
    show "fake_sector e t = ((fake_sector d)(s := bs)) t"
    proof (cases "t = s")
      case True
      then show ?thesis using i ent by (auto intro: fake_sector_entry [OF ok'])
    next
      case False
      then have "fb_entries e ! j = Some (t, cs) \<longleftrightarrow> fb_entries d ! j = Some (t, cs)"
        if "j < length (fb_entries d)" for j cs
        using that at i ent by (auto simp: nth_list_update)
      then have "fake_sector e t = cs \<longleftrightarrow> fake_sector d t = cs" for cs
        unfolding fake_sector_cases [OF ok] fake_sector_cases [OF ok'] using ent
        by (metis length_list_update)
      with False show ?thesis by simp
    qed
  qed
qed


lemma fake_write_loop_ok:
  assumes "fake_write_loop d first buf is = (d', r)" and "fake_ok d"
    and "\<And>i. i \<in> set is \<Longrightarrow> length (sector_of buf i) = IOS_BLOCK_SECTOR_SIZE"
  shows "fake_ok d' \<and> (\<forall>t. t \<notin> (\<lambda>i. first + i) ` set is \<longrightarrow> fake_sector d' t = fake_sector d t)
    \<and> (r = Inr () \<longrightarrow> distinct is \<longrightarrow> (\<forall>i \<in> set is. fake_sector d' (first + i) = sector_of buf i))"
  using assms
proof (induction d first buf "is" rule: fake_write_loop.induct)
  case (2 d first buf i "is")
  obtain dm where dm: "fake_materialize d (first + i) = (dm, None) \<or> (\<exists>e. fake_materialize d (first + i) = (dm, Some e))"
    by (metis option.exhaust prod.exhaust)
  then show ?case
  proof
    assume none: "fake_materialize d (first + i) = (dm, None)"
    then have "dm = d" by (auto simp: fake_materialize_def split: option.splits)
    with none 2(2,3) show ?thesis by auto
  next
    assume "\<exists>e. fake_materialize d (first + i) = (dm, Some e)"
    then obtain e where e: "fake_materialize d (first + i) = (dm, Some e)" by blast
    let ?d = "dm\<lparr>fb_entries := (fb_entries dm)[e := Some (first + i, sector_of buf i)]\<rparr>"
    have len: "length (sector_of buf i) = IOS_BLOCK_SECTOR_SIZE" using 2(4) by simp
    note st = fake_store [OF 2(3) e len]
    have IH: "fake_ok d' \<and> (\<forall>t. t \<notin> (\<lambda>i. first + i) ` set is \<longrightarrow> fake_sector d' t = fake_sector ?d t)
      \<and> (r = Inr () \<longrightarrow> distinct is \<longrightarrow> (\<forall>i \<in> set is. fake_sector d' (first + i) = sector_of buf i))"
      using 2(1) [OF e [symmetric] refl] 2(2,4) e st(1) by simp
    have "fake_sector d' (first + i) = sector_of buf i" if "i \<notin> set is"
    proof -
      have "first + i \<notin> (\<lambda>i. first + i) ` set is" using that by auto
      then have "fake_sector d' (first + i) = fake_sector ?d (first + i)" using IH by blast
      then show ?thesis by (simp add: st(2))
    qed
    with IH st(2) show ?thesis by auto
  qed
qed auto

lemma length_sector_of: "length buf = n * IOS_BLOCK_SECTOR_SIZE \<Longrightarrow> i < n \<Longrightarrow> length (sector_of buf i) = IOS_BLOCK_SECTOR_SIZE"
  unfolding sector_of_def by (rule length_field_at) auto

lemma fake_entries_only:
  "fb_entries d = fb_entries d' \<Longrightarrow> fake_sector d = fake_sector d'"
  "fb_entries d = fb_entries d' \<Longrightarrow> fake_ok d = fake_ok d'"
  by (simp_all add: fake_sector_def fake_find_entry_def fake_ok_def fun_eq_iff cong: option.case_cong)

lemma fake_sector_faults [simp]:
  "fake_sector (d\<lparr>fb_faults := f\<rparr>) = fake_sector d" "fake_ok (d\<lparr>fb_faults := f\<rparr>) = fake_ok d"
  "fake_sector (d\<lparr>fb_faults := f, fb_durable_generation := g\<rparr>) = fake_sector d"
  "fake_ok (d\<lparr>fb_faults := f, fb_durable_generation := g\<rparr>) = fake_ok d"
  by (rule fake_entries_only, simp)+

lemma fake_write_cases:
  assumes "fake_block_write d s n buf = (d', r)"
  shows "(\<exists>e f. r = Inl e \<and> d' = d\<lparr>fb_faults := f\<rparr>)
    \<or> (\<exists>f. fake_write_loop (d\<lparr>fb_faults := f\<rparr>) s buf [0..<n] = (d', r))"
proof (cases "fake_validate_range d s n")
  case (Inl e)
  then have "r = Inl e" "d' = d\<lparr>fb_faults := fb_faults d\<rparr>" using assms by (simp_all add: fake_block_write_def)
  then show ?thesis by blast
next
  case (Inr u)
  then show ?thesis using assms
    by (auto simp: fake_block_write_def Let_def split: sum.splits prod.splits if_splits)
qed

lemma fake_write_laws:
  assumes "fake_ok d" and "length buf = n * IOS_BLOCK_SECTOR_SIZE" and "fake_block_write d s n buf = (d', r)"
  shows "fake_ok d'" and "\<not> (s \<le> t \<and> t < s + n) \<Longrightarrow> fake_sector d' t = fake_sector d t"
    and "r = Inr () \<Longrightarrow> fake_sector d' = put_sectors (fake_sector d) s n buf"
proof -
  have range: "t \<in> (\<lambda>i. s + i) ` set [0..<n] \<longleftrightarrow> s \<le> t \<and> t < s + n" for t
    by (auto simp: image_iff Bex_def intro!: exI [of _ "t - s"])
  have loop: "fake_ok d' \<and> (\<forall>t. t \<notin> (\<lambda>i. s + i) ` set [0..<n] \<longrightarrow> fake_sector d' t = fake_sector d t)
      \<and> (\<forall>i \<in> set [0..<n]. r = Inr () \<longrightarrow> fake_sector d' (s + i) = sector_of buf i)"
    if "fake_write_loop (d\<lparr>fb_faults := f\<rparr>) s buf [0..<n] = (d', r)" for f
    using fake_write_loop_ok [OF that] assms(1,2) by (auto simp: length_sector_of)
  from fake_write_cases [OF assms(3)] have all: "fake_ok d'
      \<and> (\<forall>t. t \<notin> (\<lambda>i. s + i) ` set [0..<n] \<longrightarrow> fake_sector d' t = fake_sector d t)
      \<and> (\<forall>i \<in> set [0..<n]. r = Inr () \<longrightarrow> fake_sector d' (s + i) = sector_of buf i)"
    using loop assms(1) by auto
  show "fake_ok d'" using all by blast
  show "\<not> (s \<le> t \<and> t < s + n) \<Longrightarrow> fake_sector d' t = fake_sector d t" using all range by blast
  show "fake_sector d' = put_sectors (fake_sector d) s n buf" if "r = Inr ()"
  proof
    fix t
    show "fake_sector d' t = put_sectors (fake_sector d) s n buf t"
    proof (cases "s \<le> t \<and> t < s + n")
      case True
      then have "t - s \<in> set [0..<n]" "s + (t - s) = t" by auto
      with True that all show ?thesis by (metis put_sectors_def)
    next
      case False
      with all range show ?thesis by (auto simp: put_sectors_def)
    qed
  qed
qed

interpretation fake: block_driver fake_operations fake_sector fake_ok
proof
  fix d d' :: ios_fake_block and s n t :: nat and r :: "bytes res" and w :: "unit res" and buf bs :: bytes
  assume ok: "fake_ok d"
  show "length (fake_sector d s) = IOS_BLOCK_SECTOR_SIZE" using ok by (rule length_fake_sector)
  show "fake_ok d' \<and> fake_sector d' = fake_sector d" if "op_read fake_operations d s n = (d', r)"
    using that ok by (auto simp: fake_operations_def fake_block_read_def split: sum.splits prod.splits)
  show "bs = sectors_of (fake_sector d) s n" if "op_read fake_operations d s n = (d', Inr bs)"
    using that by (auto simp: fake_operations_def fake_block_read_def sectors_of_def split: sum.splits prod.splits)
  show "fake_ok d' \<and> fake_sector d' = fake_sector d" if "op_flush fake_operations d = (d', w)"
    using that ok by (auto simp: fake_operations_def fake_block_flush_def split: sum.splits prod.splits if_splits)
  assume len: "length buf = n * IOS_BLOCK_SECTOR_SIZE"
  show "fake_ok d'" if "op_write fake_operations d s n buf = (d', w)"
    using that fake_write_laws(1) [OF ok len] by (simp add: fake_operations_def)
  show "fake_sector d' t = fake_sector d t"
    if "op_write fake_operations d s n buf = (d', w)" "\<not> (s \<le> t \<and> t < s + n)"
    using that fake_write_laws(2) [OF ok len] by (simp add: fake_operations_def)
  show "fake_sector d' = put_sectors (fake_sector d) s n buf"
    if "op_write fake_operations d s n buf = (d', Inr ())"
    using that fake_write_laws(3) [OF ok len] by (simp add: fake_operations_def)
qed

end
