(* ===== verification/Fs_Format.thy ===== *)
theory Fs_Format
  imports Fs_Superblock Fs_Fat Block_Device
begin

text \<open>
  Volume geometry and the formatter (format.h, formatter.c). The binary search for the length
  of the file allocation table is shown to find the least length that can describe its own
  volume, and the formatter to leave exactly the documented initial volume on the medium.
  Sector counts are naturals; \<open>geometry_no_overflow\<close> shows that no 64-bit value the search
  computes wraps.
\<close>

section \<open>Geometry\<close>

record ios_fs_geometry =
  g_total_sectors :: nat
  g_fat_sectors :: nat
  g_registry_start_sector :: nat
  g_data_start_sector :: nat
  g_cluster_count :: nat
  g_usable_bytes :: nat

abbreviation FAT_ENTRIES_PER_SECTOR :: nat where "FAT_ENTRIES_PER_SECTOR \<equiv> 128"
abbreviation FORMAT_WRITE_SECTORS :: nat where "FORMAT_WRITE_SECTORS \<equiv> 8"
abbreviation IOS_FS_MINIMUM_VOLUME_BYTES :: nat where "IOS_FS_MINIMUM_VOLUME_BYTES \<equiv> 50000000000"

definition fixed_sectors :: "nat \<Rightarrow> nat" where
  "fixed_sectors candidate = IOS_FS_SUPERBLOCK_SECTORS + candidate + IOS_FS_REGISTRY_SECTORS"

definition data_clusters :: "nat \<Rightarrow> nat \<Rightarrow> nat" where
  "data_clusters total_sectors candidate =
     (total_sectors - fixed_sectors candidate) div IOS_FS_SECTORS_PER_CLUSTER"

definition required_fat_sectors :: "nat \<Rightarrow> nat \<Rightarrow> nat" where
  "required_fat_sectors total_sectors candidate =
     (data_clusters total_sectors candidate + 2 + (FAT_ENTRIES_PER_SECTOR - 1)) div FAT_ENTRIES_PER_SECTOR"

function geometry_search :: "nat \<Rightarrow> nat \<Rightarrow> nat \<Rightarrow> nat res" where
  "geometry_search total_sectors low high =
     (if low < high then
        let candidate = low + (high - low) div 2 in
        if candidate > UINT64_MAX - IOS_FS_SUPERBLOCK_SECTORS - IOS_FS_REGISTRY_SECTORS then Inl IOS_E_OVERFLOW
        else if fixed_sectors candidate \<ge> total_sectors then Inl IOS_E_NO_SPACE
        else if data_clusters total_sectors candidate > UINT64_MAX - 2 then Inl IOS_E_OVERFLOW
        else if required_fat_sectors total_sectors candidate \<le> candidate
        then geometry_search total_sectors low candidate
        else geometry_search total_sectors (candidate + 1) high
      else Inr low)"
  by pat_completeness auto
termination
  by (relation "measure (\<lambda>(sectors, low, high). high - low)") (auto simp: Let_def intro!: diff_less_mono2)

declare geometry_search.simps [simp del]

definition ios_fs_calculate_geometry :: "nat \<Rightarrow> nat \<Rightarrow> ios_fs_geometry res" where
  "ios_fs_calculate_geometry logical_sector_size total_sectors =
     (if logical_sector_size \<noteq> IOS_FS_SECTOR_SIZE then Inl IOS_E_INVALID_ARGUMENT
      else if total_sectors < IOS_FS_MINIMUM_VOLUME_BYTES div IOS_FS_SECTOR_SIZE then Inl IOS_E_NO_SPACE
      else case geometry_search total_sectors 1
             ((total_sectors div IOS_FS_SECTORS_PER_CLUSTER + 2 + (FAT_ENTRIES_PER_SECTOR - 1)) div FAT_ENTRIES_PER_SECTOR) of
          Inl e \<Rightarrow> Inl e
        | Inr low \<Rightarrow>
            if low > UINT32_MAX then Inl IOS_E_OUT_OF_RANGE
            else if fixed_sectors low \<ge> total_sectors then Inl IOS_E_NO_SPACE
            else let cluster_count = data_clusters total_sectors low in
              if cluster_count = 0 \<or> cluster_count > IOS_FS_MAX_DATA_CLUSTER - 1
                 \<or> cluster_count > UINT32_MAX \<or> low * FAT_ENTRIES_PER_SECTOR < cluster_count + 2
              then Inl IOS_E_OUT_OF_RANGE
              else Inr \<lparr>g_total_sectors = total_sectors, g_fat_sectors = low,
                     g_registry_start_sector = IOS_FS_SUPERBLOCK_SECTORS + low,
                     g_data_start_sector = IOS_FS_SUPERBLOCK_SECTORS + low + IOS_FS_REGISTRY_SECTORS,
                     g_cluster_count = cluster_count,
                     g_usable_bytes = cluster_count * IOS_FS_SECTORS_PER_CLUSTER * IOS_FS_SECTOR_SIZE\<rparr>)"

section \<open>The search\<close>

text \<open>A table of \<open>c\<close> sectors describes all clusters that remain beside it.\<close>

definition fits :: "nat \<Rightarrow> nat \<Rightarrow> bool" where
  "fits sectors c \<longleftrightarrow> required_fat_sectors sectors c \<le> c"

lemma fits_mono: "fits sectors c \<Longrightarrow> c \<le> d \<Longrightarrow> fits sectors d"
proof -
  assume fits: "fits sectors c" and le: "c \<le> d"
  have "required_fat_sectors sectors d \<le> required_fat_sectors sectors c"
    unfolding required_fat_sectors_def data_clusters_def fixed_sectors_def
    using le by (intro div_le_mono add_le_mono diff_le_mono2) auto
  with fits le show ?thesis by (simp add: fits_def)
qed

lemma fits_iff: "fits sectors c \<longleftrightarrow> data_clusters sectors c + 2 \<le> c * FAT_ENTRIES_PER_SECTOR"
  by (auto simp: fits_def required_fat_sectors_def)

lemma geometry_search_least:
  "low \<le> high \<Longrightarrow> fits sectors high \<Longrightarrow> fixed_sectors high < sectors \<Longrightarrow> sectors \<le> UINT64_MAX
    \<Longrightarrow> (\<And>c. c < low \<Longrightarrow> 0 < c \<Longrightarrow> \<not> fits sectors c)
    \<Longrightarrow> \<exists>c. geometry_search sectors low high = Inr c \<and> low \<le> c \<and> c \<le> high \<and> fits sectors c
      \<and> (\<forall>d. 0 < d \<longrightarrow> d < c \<longrightarrow> \<not> fits sectors d)"
proof (induction sectors low high rule: geometry_search.induct)
  case (1 sectors low high)
  show ?case
  proof (cases "low < high")
    case False
    then show ?thesis using 1(3,4,7) by (subst geometry_search.simps) auto
  next
    case True
    define m where "m = low + (high - low) div 2"
    have m: "low \<le> m" "m < high" using True by (auto simp: m_def)
    have guards: "\<not> m > UINT64_MAX - IOS_FS_SUPERBLOCK_SECTORS - IOS_FS_REGISTRY_SECTORS"
      "\<not> fixed_sectors m \<ge> sectors" "\<not> data_clusters sectors m > UINT64_MAX - 2"
      using m(2) 1(5,6) by (auto simp: fixed_sectors_def data_clusters_def)
    note step = geometry_search.simps [of sectors low high, folded m_def]
    show ?thesis
    proof (cases "fits sectors m")
      case fit: True
      have "geometry_search sectors low high = geometry_search sectors low m"
        using step True guards fit m_def by (simp add: fits_def Let_def)
      moreover have "\<exists>c. geometry_search sectors low m = Inr c \<and> low \<le> c \<and> c \<le> m \<and> fits sectors c
          \<and> (\<forall>d. 0 < d \<longrightarrow> d < c \<longrightarrow> \<not> fits sectors d)"
        using 1(1) [OF True m_def guards] fit m 1(6,7) guards(2) by (auto simp: fits_def)
      ultimately show ?thesis using m by (metis le_trans less_imp_le)
    next
      case unfit: False
      have less: "\<not> fits sectors c" if "c < m + 1" for c
        using fits_mono [of sectors c m] unfit that by auto
      have "geometry_search sectors low high = geometry_search sectors (m + 1) high"
        using step True guards unfit m_def by (simp add: fits_def Let_def)
      moreover have "\<exists>c. geometry_search sectors (m + 1) high = Inr c \<and> m + 1 \<le> c \<and> c \<le> high \<and> fits sectors c
          \<and> (\<forall>d. 0 < d \<longrightarrow> d < c \<longrightarrow> \<not> fits sectors d)"
        using 1(2) [OF True m_def guards] unfit m 1(4-6) less by (auto simp: fits_def)
      ultimately show ?thesis using m by (metis add_leE le_trans)
    qed
  qed
qed

definition geometry_high :: "nat \<Rightarrow> nat" where
  "geometry_high sectors = (sectors div IOS_FS_SECTORS_PER_CLUSTER + 2 + (FAT_ENTRIES_PER_SECTOR - 1)) div FAT_ENTRIES_PER_SECTOR"

lemma geometry_high_fits: "fits sectors (geometry_high sectors)"
proof -
  have "data_clusters sectors (geometry_high sectors) \<le> sectors div IOS_FS_SECTORS_PER_CLUSTER"
    unfolding data_clusters_def by (intro div_le_mono) auto
  then show ?thesis unfolding fits_def required_fat_sectors_def geometry_high_def
    by (intro div_le_mono) auto
qed

lemma geometry_high_bounds:
  assumes "IOS_FS_MINIMUM_VOLUME_BYTES div IOS_FS_SECTOR_SIZE \<le> sectors"
  shows "1 \<le> geometry_high sectors" and "fixed_sectors (geometry_high sectors) < sectors"
    and "geometry_high sectors \<le> sectors div 1024 + 2"
proof -
  show le: "geometry_high sectors \<le> sectors div 1024 + 2"
    unfolding geometry_high_def by (simp add: div_mult2_eq [of _ 8 128, simplified])
  show "1 \<le> geometry_high sectors" using assms unfolding geometry_high_def by simp
  show "fixed_sectors (geometry_high sectors) < sectors"
    using le assms by (simp add: fixed_sectors_def)
qed

lemma geometry_search_result:
  assumes "IOS_FS_MINIMUM_VOLUME_BYTES div IOS_FS_SECTOR_SIZE \<le> sectors" and "sectors \<le> UINT64_MAX"
  obtains low where "geometry_search sectors 1 (geometry_high sectors) = Inr low" "1 \<le> low" "low \<le> geometry_high sectors"
    "fits sectors low" "\<And>c. 0 < c \<Longrightarrow> c < low \<Longrightarrow> \<not> fits sectors c" "fixed_sectors low < sectors"
proof -
  note hb = geometry_high_bounds [OF assms(1)]
  obtain low where low: "geometry_search sectors 1 (geometry_high sectors) = Inr low" "1 \<le> low" "low \<le> geometry_high sectors"
    "fits sectors low" "\<forall>c. 0 < c \<longrightarrow> c < low \<longrightarrow> \<not> fits sectors c"
    using geometry_search_least [OF hb(1) geometry_high_fits hb(2) assms(2)] by auto
  have "fixed_sectors low < sectors" using low(3) hb(2) by (simp add: fixed_sectors_def)
  with low that show thesis by blast
qed

text \<open>A found geometry is the least one, and it is consistent.\<close>

lemma geometry_Inr:
  assumes "ios_fs_calculate_geometry sz sectors = Inr g" and "sectors \<le> UINT64_MAX"
  shows "sz = IOS_FS_SECTOR_SIZE" and "IOS_FS_MINIMUM_VOLUME_BYTES div IOS_FS_SECTOR_SIZE \<le> sectors"
    and "g_total_sectors g = sectors" and "g_registry_start_sector g = IOS_FS_SUPERBLOCK_SECTORS + g_fat_sectors g"
    and "g_data_start_sector g = fixed_sectors (g_fat_sectors g)" and "fixed_sectors (g_fat_sectors g) < sectors"
    and "g_cluster_count g = data_clusters sectors (g_fat_sectors g)"
    and "0 < g_cluster_count g" and "g_cluster_count g \<le> IOS_FS_MAX_DATA_CLUSTER - 1"
    and "fits sectors (g_fat_sectors g)" and "0 < g_fat_sectors g"
    and "\<And>c. 0 < c \<Longrightarrow> c < g_fat_sectors g \<Longrightarrow> \<not> fits sectors c"
    and "g_usable_bytes g = g_cluster_count g * 4096"
proof -
  show sz: "sz = IOS_FS_SECTOR_SIZE" and min: "IOS_FS_MINIMUM_VOLUME_BYTES div IOS_FS_SECTOR_SIZE \<le> sectors"
    using assms(1) by (auto simp: ios_fs_calculate_geometry_def split: if_splits)
  obtain low where low: "geometry_search sectors 1 (geometry_high sectors) = Inr low" "1 \<le> low"
    "fits sectors low" "\<And>c. 0 < c \<Longrightarrow> c < low \<Longrightarrow> \<not> fits sectors c" "fixed_sectors low < sectors"
    using geometry_search_result [OF min assms(2)] by blast
  have g: "g = \<lparr>g_total_sectors = sectors, g_fat_sectors = low,
      g_registry_start_sector = IOS_FS_SUPERBLOCK_SECTORS + low,
      g_data_start_sector = IOS_FS_SUPERBLOCK_SECTORS + low + IOS_FS_REGISTRY_SECTORS,
      g_cluster_count = data_clusters sectors low,
      g_usable_bytes = data_clusters sectors low * IOS_FS_SECTORS_PER_CLUSTER * IOS_FS_SECTOR_SIZE\<rparr>"
    and cc: "0 < data_clusters sectors low" "data_clusters sectors low \<le> IOS_FS_MAX_DATA_CLUSTER - 1"
    using assms(1) low(1,5) sz min
    by (auto simp: ios_fs_calculate_geometry_def geometry_high_def Let_def split: if_splits)
  show "g_total_sectors g = sectors" and "g_registry_start_sector g = IOS_FS_SUPERBLOCK_SECTORS + g_fat_sectors g"
    and "g_data_start_sector g = fixed_sectors (g_fat_sectors g)" and "fixed_sectors (g_fat_sectors g) < sectors"
    and "g_cluster_count g = data_clusters sectors (g_fat_sectors g)"
    and "0 < g_cluster_count g" and "g_cluster_count g \<le> IOS_FS_MAX_DATA_CLUSTER - 1"
    and "fits sectors (g_fat_sectors g)" and "0 < g_fat_sectors g"
    and "g_usable_bytes g = g_cluster_count g * 4096"
    using low cc by (simp_all add: g fixed_sectors_def)
  show "\<And>c. 0 < c \<Longrightarrow> c < g_fat_sectors g \<Longrightarrow> \<not> fits sectors c" using low(4) by (simp add: g)
qed

lemma data_clusters_Suc: "data_clusters sectors c \<le> data_clusters sectors (Suc c) + 1"
  by (simp add: data_clusters_def fixed_sectors_def)

lemma fat_sectors_bound:
  assumes "ios_fs_calculate_geometry sz sectors = Inr g" and "sectors \<le> UINT64_MAX"
  shows "g_fat_sectors g \<le> 2097153"
proof (cases "g_fat_sectors g \<le> 1")
  case False
  note g = geometry_Inr [OF assms]
  let ?c = "g_fat_sectors g - 1"
  have "\<not> fits sectors ?c" using False by (intro g(12)) auto
  then have "?c * FAT_ENTRIES_PER_SECTOR < data_clusters sectors ?c + 2" by (simp add: fits_iff)
  also have "data_clusters sectors ?c \<le> g_cluster_count g + 1"
    using data_clusters_Suc [of sectors ?c] False g(7) by simp
  finally show ?thesis using g(9) by simp
qed simp

section \<open>Formatting\<close>

function zero_sectors :: "'d ios_block_device \<Rightarrow> nat \<Rightarrow> nat \<Rightarrow> 'd ios_block_device \<times> unit res" where
  "zero_sectors device first_sector sector_count =
     (if sector_count \<noteq> 0 then
        let chunk = (if sector_count < FORMAT_WRITE_SECTORS then sector_count else FORMAT_WRITE_SECTORS) in
        (case block_device_write device first_sector chunk (replicate (chunk * IOS_FS_SECTOR_SIZE) 0) of
           (device, Inl e) \<Rightarrow> (device, Inl e)
         | (device, Inr _) \<Rightarrow> zero_sectors device (first_sector + chunk) (sector_count - chunk))
      else (device, Inr ()))"
  by pat_completeness auto
termination by (relation "measure (\<lambda>(device, first, count). count)") (auto split: if_splits)

declare zero_sectors.simps [simp del]

definition initial_fat_sector :: bytes where
  "initial_fat_sector = write_u32 IOS_FS_FAT_END_OF_CHAIN @ write_u32 IOS_FS_FAT_END_OF_CHAIN
     @ write_u32 IOS_FS_FAT_END_OF_CHAIN @ replicate (IOS_FS_SECTOR_SIZE - 12) 0"

definition ios_fs_format ::
  "'d ios_block_device \<Rightarrow> u32 \<Rightarrow> bytes \<Rightarrow> 'd ios_block_device \<times> ios_fs_geometry res" where
  "ios_fs_format device volume_serial volume_label =
     (if block_device_get_status device \<noteq> IOS_BLOCK_DEVICE_READY
      then (device, Inl (if block_device_get_status device = IOS_BLOCK_DEVICE_READ_ONLY
                         then IOS_E_READ_ONLY else IOS_E_INVALID_STATE))
      else case ios_fs_calculate_geometry (bd_logical_sector_size device) (bd_sector_count device) of
        Inl e \<Rightarrow> (device, Inl e)
      | Inr calculated \<Rightarrow>
        (case ios_fs_superblock_encode \<lparr>sb_total_sectors = of_nat (g_total_sectors calculated),
             sb_sectors_per_fat = of_nat (g_fat_sectors calculated),
             sb_registry_start_sector = of_nat (g_registry_start_sector calculated),
             sb_volume_serial = volume_serial, sb_flags = 0, sb_volume_label = volume_label\<rparr> of
          Inl e \<Rightarrow> (device, Inl e)
        | Inr superblock \<Rightarrow>
        (case zero_sectors device IOS_FS_SUPERBLOCK_SECTORS
             (g_data_start_sector calculated + IOS_FS_SECTORS_PER_CLUSTER - IOS_FS_SUPERBLOCK_SECTORS) of
          (device, Inl e) \<Rightarrow> (device, Inl e)
        | (device, Inr _) \<Rightarrow>
        (case block_device_write device IOS_FS_SUPERBLOCK_SECTORS 1 initial_fat_sector of
          (device, Inl e) \<Rightarrow> (device, Inl e)
        | (device, Inr _) \<Rightarrow>
        (case block_device_write device 1 1 superblock of
          (device, Inl e) \<Rightarrow> (device, Inl e)
        | (device, Inr _) \<Rightarrow>
        (case block_device_write device 0 1 superblock of
          (device, Inl e) \<Rightarrow> (device, Inl e)
        | (device, Inr _) \<Rightarrow>
        (case block_device_flush device of
          (device, Inl e) \<Rightarrow> (device, Inl e)
        | (device, Inr _) \<Rightarrow> (device, Inr calculated))))))))"

text \<open>The volume that the formatter leaves.\<close>

definition formatted_medium :: "(nat \<Rightarrow> bytes) \<Rightarrow> ios_fs_geometry \<Rightarrow> bytes \<Rightarrow> nat \<Rightarrow> bytes" where
  "formatted_medium f g superblock s =
     (if s = 0 \<or> s = 1 then superblock
      else if s = 2 then initial_fat_sector
      else if s < g_data_start_sector g + IOS_FS_SECTORS_PER_CLUSTER then replicate IOS_FS_SECTOR_SIZE 0
      else f s)"

lemma sector_of_zeros: "i < n \<Longrightarrow> sector_of (replicate (n * IOS_BLOCK_SECTOR_SIZE) x) i = replicate IOS_BLOCK_SECTOR_SIZE x"
proof -
  assume "i < n"
  then have "i * IOS_BLOCK_SECTOR_SIZE + IOS_BLOCK_SECTOR_SIZE \<le> n * IOS_BLOCK_SECTOR_SIZE" by simp
  then show ?thesis unfolding sector_of_def field_at_def by (simp add: min_def)
qed

lemma length_initial_fat_sector: "length initial_fat_sector = IOS_BLOCK_SECTOR_SIZE"
  by (simp add: initial_fat_sector_def)

text \<open>A driver that never fails: with it the formatter succeeds.\<close>

definition reliable_operations :: "'d ios_block_device_operations \<Rightarrow> bool" where
  "reliable_operations ops \<longleftrightarrow>
     (\<forall>d s n buf. snd (op_write ops d s n buf) = Inr ()) \<and> (\<forall>d. snd (op_flush ops d) = Inr ())"

context block_driver
begin

lemma zero_sectors_contents:
  "zero_sectors dev first n = (dev', r) \<Longrightarrow> dev_ok dev \<Longrightarrow> dev_ok dev'
    \<and> bd_sector_count dev' = bd_sector_count dev \<and> bd_status dev' = bd_status dev
    \<and> bd_logical_sector_size dev' = bd_logical_sector_size dev
    \<and> (r = Inr () \<longrightarrow> contents (bd_context dev')
        = (\<lambda>s. if first \<le> s \<and> s < first + n then replicate IOS_BLOCK_SECTOR_SIZE 0 else contents (bd_context dev) s))"
proof (induction dev first n rule: zero_sectors.induct)
  case (1 dev first n)
  show ?case
  proof (cases "n = 0")
    case True
    then have "dev' = dev" using 1(2) by (subst (asm) zero_sectors.simps) simp
    with True show ?thesis using 1(3) by (auto simp: fun_eq_iff)
  next
    case False
    define k where "k = (if n < FORMAT_WRITE_SECTORS then n else FORMAT_WRITE_SECTORS)"
    have k: "0 < k" "k \<le> n" using False by (auto simp: k_def)
    obtain dv w where w: "block_device_write dev first k (replicate (k * IOS_FS_SECTOR_SIZE) 0) = (dv, w)"
      by (cases "block_device_write dev first k (replicate (k * IOS_FS_SECTOR_SIZE) 0)")
    have len: "length (replicate (k * IOS_FS_SECTOR_SIZE) (0 :: u8)) = k * IOS_BLOCK_SECTOR_SIZE" by simp
    note keeps = device_write_keeps [OF 1(3) len w]
    note step = zero_sectors.simps [of dev first n, folded k_def]
    show ?thesis
    proof (cases w)
      case (Inl e)
      then have "dev' = dv" "r = Inl e" using 1(2) step False w by (simp_all add: Let_def)
      then show ?thesis using keeps by simp
    next
      case (Inr u)
      then have rest: "zero_sectors dv (first + k) (n - k) = (dev', r)"
        using 1(2) step False w by (simp add: Let_def)
      have IH: "dev_ok dev' \<and> bd_sector_count dev' = bd_sector_count dv \<and> bd_status dev' = bd_status dv
        \<and> bd_logical_sector_size dev' = bd_logical_sector_size dv
        \<and> (r = Inr () \<longrightarrow> contents (bd_context dev')
          = (\<lambda>s. if first + k \<le> s \<and> s < first + k + (n - k) then replicate IOS_BLOCK_SECTOR_SIZE 0 else contents (bd_context dv) s))"
        using 1(1) [OF False k_def w [symmetric] Inr rest keeps(1)] .
      have "contents (bd_context dv) = put_sectors (contents (bd_context dev)) first k (replicate (k * IOS_FS_SECTOR_SIZE) 0)"
        using device_write_data [OF 1(3) len] w Inr by simp
      then have "contents (bd_context dv) s = (if first \<le> s \<and> s < first + k then replicate IOS_BLOCK_SECTOR_SIZE 0 else contents (bd_context dev) s)" for s
        by (auto simp: put_sectors_def sector_of_zeros)
      with IH keeps k show ?thesis by (auto simp: fun_eq_iff)
    qed
  qed
qed

lemma format_contents:
  assumes ok: "dev_ok dev" and fmt: "ios_fs_format dev serial label = (dev', Inr g)"
    and label: "length label = 11" and cnt: "bd_sector_count dev \<le> UINT64_MAX"
  shows "\<exists>sb. ios_fs_superblock_encode \<lparr>sb_total_sectors = of_nat (g_total_sectors g),
             sb_sectors_per_fat = of_nat (g_fat_sectors g),
             sb_registry_start_sector = of_nat (g_registry_start_sector g),
             sb_volume_serial = serial, sb_flags = 0, sb_volume_label = label\<rparr> = Inr sb
    \<and> ios_fs_calculate_geometry (bd_logical_sector_size dev) (bd_sector_count dev) = Inr g
    \<and> dev_ok dev' \<and> bd_sector_count dev' = bd_sector_count dev
    \<and> bd_logical_sector_size dev' = bd_logical_sector_size dev \<and> bd_status dev' = IOS_BLOCK_DEVICE_READY
    \<and> contents (bd_context dev') = formatted_medium (contents (bd_context dev)) g sb"
proof -
  have ready: "bd_status dev = IOS_BLOCK_DEVICE_READY"
    using fmt by (auto simp: ios_fs_format_def block_device_get_status_def split: if_splits)
  obtain d1 d2 d3 d4 sb where
    geo: "ios_fs_calculate_geometry (bd_logical_sector_size dev) (bd_sector_count dev) = Inr g"
    and enc: "ios_fs_superblock_encode \<lparr>sb_total_sectors = of_nat (g_total_sectors g),
             sb_sectors_per_fat = of_nat (g_fat_sectors g),
             sb_registry_start_sector = of_nat (g_registry_start_sector g),
             sb_volume_serial = serial, sb_flags = 0, sb_volume_label = label\<rparr> = Inr sb"
    and z: "zero_sectors dev IOS_FS_SUPERBLOCK_SECTORS
             (g_data_start_sector g + IOS_FS_SECTORS_PER_CLUSTER - IOS_FS_SUPERBLOCK_SECTORS) = (d1, Inr ())"
    and w1: "block_device_write d1 IOS_FS_SUPERBLOCK_SECTORS 1 initial_fat_sector = (d2, Inr ())"
    and w2: "block_device_write d2 1 1 sb = (d3, Inr ())"
    and w3: "block_device_write d3 0 1 sb = (d4, Inr ())"
    and fl: "block_device_flush d4 = (dev', Inr ())"
    using fmt ready
    by (auto simp: ios_fs_format_def block_device_get_status_def split: sum.splits prod.splits)
  have sb: "length sb = 1 * IOS_BLOCK_SECTOR_SIZE"
    using superblock_decode_encode(2) [OF _ enc] label by simp
  have ft: "length initial_fat_sector = 1 * IOS_BLOCK_SECTOR_SIZE" by (simp add: length_initial_fat_sector)
  note Z = zero_sectors_contents [OF z ok]
  note W1 = device_write_keeps(1-4) [OF conjunct1 [OF Z] ft w1] device_write_data [OF conjunct1 [OF Z] ft w1]
  note W2 = device_write_keeps(1-4) [OF W1(1) sb w2] device_write_data [OF W1(1) sb w2]
  note W3 = device_write_keeps(1-4) [OF W2(1) sb w3] device_write_data [OF W2(1) sb w3]
  note F = device_flush_keeps [OF W3(1) fl]
  have start: "2 \<le> g_data_start_sector g" using geometry_Inr(5) [OF geo cnt] by (simp add: fixed_sectors_def)
  have "contents (bd_context dev') = ((((\<lambda>s. if 2 \<le> s \<and> s < g_data_start_sector g + 8 then replicate 512 0
      else contents (bd_context dev) s)(2 := initial_fat_sector))(1 := sb))(0 := sb))"
    using F(2) W1(5) W2(5) W3(5) Z start sb ft by (simp add: put_sectors_1 add.commute)
  then have "contents (bd_context dev') = formatted_medium (contents (bd_context dev)) g sb"
    by (auto simp: formatted_medium_def fun_eq_iff)
  then show ?thesis using geo enc F W1 W2 W3 Z ready by auto
qed

lemma reliable_write:
  assumes "reliable_operations ops" and "dev_ok dev" and "bd_status dev = IOS_BLOCK_DEVICE_READY" and "0 < n"
    and "s + n \<le> bd_sector_count dev"
  obtains dev' where "block_device_write dev s n buf = (dev', Inr ())"
proof -
  obtain d w where w: "op_write ops (bd_context dev) s n buf = (d, w)" by (cases "op_write ops (bd_context dev) s n buf")
  have "w = Inr ()" using assms(1) w by (simp add: reliable_operations_def) (metis snd_conv)
  with w assms(2-5) have "block_device_write dev s n buf = (dev\<lparr>bd_context := d\<rparr>, Inr ())"
    by (auto simp: block_device_write_def validate_range_def dev_ok_def)
  with that show thesis by blast
qed

lemma reliable_zero_sectors:
  "reliable_operations ops \<Longrightarrow> dev_ok dev \<Longrightarrow> bd_status dev = IOS_BLOCK_DEVICE_READY \<Longrightarrow> first + n \<le> bd_sector_count dev
    \<Longrightarrow> \<exists>dev'. zero_sectors dev first n = (dev', Inr ())"
proof (induction dev first n rule: zero_sectors.induct)
  case (1 dev first n)
  show ?case
  proof (cases "n = 0")
    case True
    then show ?thesis by (subst zero_sectors.simps) simp
  next
    case False
    define k where "k = (if n < FORMAT_WRITE_SECTORS then n else FORMAT_WRITE_SECTORS)"
    have k: "0 < k" "k \<le> n" using False by (auto simp: k_def)
    let ?z = "replicate (k * IOS_FS_SECTOR_SIZE) (0 :: u8)"
    obtain dv where w: "block_device_write dev first k ?z = (dv, Inr ())"
      using reliable_write [OF 1(2-4) k(1)] 1(5) k(2) by (metis add_le_mono le_refl le_trans)
    have len: "length ?z = k * IOS_BLOCK_SECTOR_SIZE" by simp
    note keeps = device_write_keeps [OF 1(3) len w]
    have "\<exists>dev'. zero_sectors dv (first + k) (n - k) = (dev', Inr ())"
      using 1(1) [OF False k_def w [symmetric] refl 1(2) keeps(1)] keeps 1(4,5) k by simp
    then show ?thesis using w False zero_sectors.simps [of dev first n, folded k_def] by (simp add: Let_def)
  qed
qed

end

text \<open>The values that the formatter encodes are always accepted.\<close>

lemma unat_of_nat_64: "n \<le> UINT64_MAX \<Longrightarrow> unat (of_nat n :: u64) = n"
  by (simp add: unsigned_of_nat take_bit_nat_eq_self)

lemma unat_of_nat_32: "n \<le> UINT32_MAX \<Longrightarrow> unat (of_nat n :: u32) = n"
  by (simp add: unsigned_of_nat take_bit_nat_eq_self)

lemma geometry_encodes:
  assumes geo: "ios_fs_calculate_geometry sz sectors = Inr g" and max: "sectors \<le> UINT64_MAX" and label: "valid_label label"
  shows "\<not> superblock_rejected (of_nat (g_total_sectors g)) (of_nat (g_fat_sectors g))
    (of_nat (g_registry_start_sector g)) 0 label"
proof -
  note g = geometry_Inr [OF geo max]
  have fat: "g_fat_sectors g \<le> 2097153" using fat_sectors_bound [OF geo max] .
  have reg: "(ucast (2 + of_nat (g_fat_sectors g) :: u32) :: u64) = of_nat (g_registry_start_sector g)"
  proof -
    have "(2 + of_nat (g_fat_sectors g) :: u32) = of_nat (2 + g_fat_sectors g)" by simp
    then have "unat (2 + of_nat (g_fat_sectors g) :: u32) = 2 + g_fat_sectors g"
      using fat unat_of_nat_32 [of "2 + g_fat_sectors g"] by simp
    then show ?thesis using g(4) by (metis of_nat_unat)
  qed
  have u: "unat (of_nat (g_registry_start_sector g) :: u64) = 2 + g_fat_sectors g"
    "unat (of_nat (g_total_sectors g) :: u64) = sectors"
    using fat g(3,4) max unat_of_nat_64 [of "2 + g_fat_sectors g"] unat_of_nat_64 [of sectors] by simp_all
  have sum: "unat (of_nat (g_registry_start_sector g) + 4096 :: u64) = 2 + g_fat_sectors g + 4096"
  proof -
    have "(of_nat (g_registry_start_sector g) + 4096 :: u64) = of_nat (2 + g_fat_sectors g + 4096)"
      using g(4) by simp
    then show ?thesis using fat unat_of_nat_64 [of "2 + g_fat_sectors g + 4096"] by simp
  qed
  have "(of_nat (g_total_sectors g) :: u64) \<noteq> 0" using u(2) g(2) by auto
  moreover have "(of_nat (g_fat_sectors g) :: u32) \<noteq> 0"
    using g(11) fat unat_of_nat_32 [of "g_fat_sectors g"] by auto
  moreover have "\<not> (of_nat (g_registry_start_sector g) :: u64) > 0xffffffffffffffff - 4096"
    using u(1) fat by (simp add: word_less_nat_alt)
  moreover have "\<not> (of_nat (g_registry_start_sector g) + 4096 :: u64) \<ge> of_nat (g_total_sectors g)"
    using sum u(2) g(6) by (simp add: word_le_nat_alt fixed_sectors_def)
  ultimately show ?thesis using reg label by (simp add: superblock_rejected_def)
qed

context block_driver
begin

lemma format_total:
  assumes "reliable_operations ops" and ok: "dev_ok dev" and ready: "bd_status dev = IOS_BLOCK_DEVICE_READY"
    and geo: "ios_fs_calculate_geometry (bd_logical_sector_size dev) (bd_sector_count dev) = Inr g"
    and max: "bd_sector_count dev \<le> UINT64_MAX" and label: "length label = 11" "valid_label label"
  shows "\<exists>dev'. ios_fs_format dev serial label = (dev', Inr g)"
proof -
  let ?vals = "\<lparr>sb_total_sectors = of_nat (g_total_sectors g), sb_sectors_per_fat = of_nat (g_fat_sectors g),
    sb_registry_start_sector = of_nat (g_registry_start_sector g), sb_volume_serial = serial, sb_flags = 0,
    sb_volume_label = label\<rparr>"
  note g = geometry_Inr [OF geo max]
  obtain sb where enc: "ios_fs_superblock_encode ?vals = Inr sb"
    using geometry_encodes [OF geo max label(2)] by (simp add: ios_fs_superblock_encode_def)
  have sb: "length sb = 1 * IOS_BLOCK_SECTOR_SIZE" using superblock_decode_encode(2) [OF _ enc] label by simp
  have ft: "length initial_fat_sector = 1 * IOS_BLOCK_SECTOR_SIZE" by (simp add: length_initial_fat_sector)
  have "IOS_FS_SECTORS_PER_CLUSTER \<le> bd_sector_count dev - fixed_sectors (g_fat_sectors g)"
    using g(7,8) unfolding data_clusters_def by (metis div_less le_zero_eq linorder_not_le not_gr_zero)
  then have room: "IOS_FS_SUPERBLOCK_SECTORS + (g_data_start_sector g + IOS_FS_SECTORS_PER_CLUSTER - IOS_FS_SUPERBLOCK_SECTORS)
      \<le> bd_sector_count dev" "3 \<le> bd_sector_count dev"
    using g(5,6) by (auto simp: fixed_sectors_def)
  obtain d1 where z: "zero_sectors dev IOS_FS_SUPERBLOCK_SECTORS
      (g_data_start_sector g + IOS_FS_SECTORS_PER_CLUSTER - IOS_FS_SUPERBLOCK_SECTORS) = (d1, Inr ())"
    using reliable_zero_sectors [OF assms(1) ok ready room(1)] by blast
  note Z = zero_sectors_contents [OF z ok]
  obtain d2 where w1: "block_device_write d1 IOS_FS_SUPERBLOCK_SECTORS 1 initial_fat_sector = (d2, Inr ())"
    using reliable_write [OF assms(1) conjunct1 [OF Z], of 1 2] Z ready room(2) by auto
  note W1 = device_write_keeps(1-4) [OF conjunct1 [OF Z] ft w1]
  obtain d3 where w2: "block_device_write d2 1 1 sb = (d3, Inr ())"
    using reliable_write [OF assms(1) W1(1), of 1 1] W1 Z ready room(2) by auto
  note W2 = device_write_keeps(1-4) [OF W1(1) sb w2]
  obtain d4 where w3: "block_device_write d3 0 1 sb = (d4, Inr ())"
    using reliable_write [OF assms(1) W2(1), of 1 0] W2 W1 Z ready room(2) by auto
  note W3 = device_write_keeps(1-4) [OF W2(1) sb w3]
  obtain d5 where fl: "block_device_flush d4 = (d5, Inr ())"
  proof -
    obtain d w where w: "op_flush ops (bd_context d4) = (d, w)" by (cases "op_flush ops (bd_context d4)")
    have "w = Inr ()" using assms(1) w by (simp add: reliable_operations_def) (metis snd_conv)
    then have "block_device_flush d4 = (d4\<lparr>bd_context := d\<rparr>, Inr ())"
      using w W3 W2 W1 Z ready by (simp add: block_device_flush_def dev_ok_def)
    with that show thesis by blast
  qed
  show ?thesis
    using ready geo enc z w1 w2 w3 fl by (simp add: ios_fs_format_def block_device_get_status_def)
qed

end

section \<open>Properties\<close>

text \<open>The geometry search finds the least file allocation table that can hold an entry for
  every data cluster beside it; the areas follow one another, the data area fits the device,
  and the table size is one that the allocation table code accepts.\<close>

theorem geometry_correct:
  assumes "ios_fs_calculate_geometry sz sectors = Inr g" and "sectors \<le> UINT64_MAX"
  shows "g_data_start_sector g = g_registry_start_sector g + IOS_FS_REGISTRY_SECTORS
    \<and> g_registry_start_sector g = IOS_FS_SUPERBLOCK_SECTORS + g_fat_sectors g
    \<and> g_data_start_sector g + g_cluster_count g * IOS_FS_SECTORS_PER_CLUSTER \<le> sectors
    \<and> valid_entry_count (g_cluster_count g + 2)
    \<and> g_cluster_count g + 2 \<le> g_fat_sectors g * FAT_ENTRIES_PER_SECTOR
    \<and> (\<forall>c. 0 < c \<and> c < g_fat_sectors g \<longrightarrow> c * FAT_ENTRIES_PER_SECTOR < data_clusters sectors c + 2)"
proof -
  note g = geometry_Inr [OF assms]
  have "g_cluster_count g * IOS_FS_SECTORS_PER_CLUSTER \<le> sectors - fixed_sectors (g_fat_sectors g)"
    unfolding g(7) data_clusters_def by (rule div_times_less_eq_dividend)
  moreover have "c * FAT_ENTRIES_PER_SECTOR < data_clusters sectors c + 2" if "0 < c" "c < g_fat_sectors g" for c
    using g(12) [OF that] by (simp add: fits_iff)
  ultimately show ?thesis
    using g(4,5,6,7,8,9,10) by (auto simp: fixed_sectors_def valid_entry_count_def fits_iff)
qed

text \<open>Every device from the minimum volume size up to the largest cluster number has a
  geometry; the search ends and none of its overflow errors can occur.\<close>

theorem geometry_exists:
  assumes "IOS_FS_MINIMUM_VOLUME_BYTES div IOS_FS_SECTOR_SIZE \<le> sectors"
    and "sectors div IOS_FS_SECTORS_PER_CLUSTER \<le> IOS_FS_MAX_DATA_CLUSTER - 1"
  shows "\<exists>g. ios_fs_calculate_geometry IOS_FS_SECTOR_SIZE sectors = Inr g"
proof -
  have max: "sectors \<le> UINT64_MAX" using assms(2) by simp
  obtain low where low: "geometry_search sectors 1 (geometry_high sectors) = Inr low" "1 \<le> low"
    "low \<le> geometry_high sectors" "fits sectors low" "fixed_sectors low < sectors"
    using geometry_search_result [OF assms(1) max] by blast
  have le: "geometry_high sectors \<le> sectors div 1024 + 2" using geometry_high_bounds(3) [OF assms(1)] .
  have clusters: "data_clusters sectors low \<le> IOS_FS_MAX_DATA_CLUSTER - 1"
    using assms(2) unfolding data_clusters_def by (meson diff_le_self div_le_mono le_trans)
  have "IOS_FS_SECTORS_PER_CLUSTER \<le> sectors - fixed_sectors low"
    using low(3) le assms(1) by (simp add: fixed_sectors_def)
  then have "data_clusters sectors low \<noteq> 0" by (simp add: data_clusters_def)
  moreover have "low \<le> UINT32_MAX" using low(3) le assms(2) by simp
  ultimately show ?thesis
    using low(1) [unfolded geometry_high_def] low(4,5) assms(1) clusters
    by (auto simp: ios_fs_calculate_geometry_def Let_def fits_iff not_less)
qed

text \<open>On a device whose driver does not fail, formatting a large enough device with a valid
  label succeeds and leaves the initial volume: two equal superblocks that encode the
  geometry, a table whose first three entries end a chain, a zeroed table, registry and root
  cluster, and every later sector untouched.\<close>

theorem format_correct:
  assumes "block_driver ops contents ok" and "reliable_operations ops"
    and "bd_operations dev = ops" and "ok (bd_context dev)" and "bd_status dev = IOS_BLOCK_DEVICE_READY"
    and "ios_fs_calculate_geometry (bd_logical_sector_size dev) (bd_sector_count dev) = Inr g"
    and "bd_sector_count dev \<le> UINT64_MAX" and "length label = 11" and "valid_label label"
  shows "\<exists>dev' sb. ios_fs_format dev serial label = (dev', Inr g)
    \<and> ios_fs_superblock_decode sb = Inr \<lparr>sb_total_sectors = of_nat (bd_sector_count dev),
         sb_sectors_per_fat = of_nat (g_fat_sectors g),
         sb_registry_start_sector = of_nat (g_registry_start_sector g),
         sb_volume_serial = serial, sb_flags = 0, sb_volume_label = label\<rparr>
    \<and> contents (bd_context dev') = formatted_medium (contents (bd_context dev)) g sb"
proof -
  have dev: "block_driver.dev_ok ops ok dev"
    using assms(3,4) by (simp add: block_driver.dev_ok_def [OF assms(1)])
  obtain dev' where fmt: "ios_fs_format dev serial label = (dev', Inr g)"
    using block_driver.format_total [OF assms(1,2) dev assms(5-9)] by blast
  obtain sb where sb: "ios_fs_superblock_encode \<lparr>sb_total_sectors = of_nat (g_total_sectors g),
      sb_sectors_per_fat = of_nat (g_fat_sectors g), sb_registry_start_sector = of_nat (g_registry_start_sector g),
      sb_volume_serial = serial, sb_flags = 0, sb_volume_label = label\<rparr> = Inr sb"
    "contents (bd_context dev') = formatted_medium (contents (bd_context dev)) g sb"
    using block_driver.format_contents [OF assms(1) dev fmt assms(8,7)] by blast
  have "ios_fs_superblock_decode sb = Inr \<lparr>sb_total_sectors = of_nat (g_total_sectors g),
      sb_sectors_per_fat = of_nat (g_fat_sectors g), sb_registry_start_sector = of_nat (g_registry_start_sector g),
      sb_volume_serial = serial, sb_flags = 0, sb_volume_label = label\<rparr>"
    using superblock_decode_encode(1) [OF _ sb(1)] assms(8) by simp
  then show ?thesis using fmt sb(2) geometry_Inr(3) [OF assms(6,7)] by auto
qed

section \<open>Witnesses\<close>

lemma sample_geometry: "\<exists>g. ios_fs_calculate_geometry IOS_FS_SECTOR_SIZE 97656250 = Inr g"
proof -
  obtain low where low: "geometry_search 97656250 1 (geometry_high 97656250) = Inr low" "1 \<le> low"
    "low \<le> geometry_high 97656250" "fits 97656250 low" "fixed_sectors low < 97656250"
    using geometry_search_result [of 97656250] by auto
  have "data_clusters 97656250 low \<noteq> 0"
    using low(3) by (simp add: data_clusters_def fixed_sectors_def geometry_high_def)
  moreover have "data_clusters 97656250 low \<le> 97656250 div 8"
    unfolding data_clusters_def by (intro div_le_mono) auto
  ultimately show ?thesis
    using low by (auto simp: ios_fs_calculate_geometry_def geometry_high_def Let_def fits_iff not_less)
qed

theorem geometry_correct_witness:
  "\<exists>g. ios_fs_calculate_geometry IOS_FS_SECTOR_SIZE 97656250 = Inr g
    \<and> g_data_start_sector g + g_cluster_count g * IOS_FS_SECTORS_PER_CLUSTER \<le> 97656250"
proof -
  obtain g where g: "ios_fs_calculate_geometry IOS_FS_SECTOR_SIZE 97656250 = Inr g"
    using sample_geometry by blast
  show ?thesis using geometry_correct [OF g] g by auto
qed

theorem geometry_exists_witness: "\<exists>g. ios_fs_calculate_geometry IOS_FS_SECTOR_SIZE 97656250 = Inr g"
  by (rule geometry_exists) simp_all

text \<open>A disk whose state is its contents and that never fails.\<close>

definition plain_operations :: "(nat \<Rightarrow> bytes) ios_block_device_operations" where
  "plain_operations = \<lparr>op_read = (\<lambda>d s n. (d, Inr (sectors_of d s n))),
     op_write = (\<lambda>d s n buf. (if length buf = n * IOS_BLOCK_SECTOR_SIZE then put_sectors d s n buf else d, Inr ())),
     op_flush = (\<lambda>d. (d, Inr ()))\<rparr>"

lemma plain_driver: "block_driver plain_operations (\<lambda>d. d) (\<lambda>d. \<forall>s. length (d s) = IOS_BLOCK_SECTOR_SIZE)"
  by unfold_locales
    (auto simp: plain_operations_def put_sectors_def length_sector_of)

definition plain_device :: "(nat \<Rightarrow> bytes) ios_block_device" where
  "plain_device = \<lparr>bd_context = (\<lambda>_. replicate IOS_BLOCK_SECTOR_SIZE 0), bd_operations = plain_operations,
     bd_sector_count = 97656250, bd_logical_sector_size = IOS_BLOCK_SECTOR_SIZE,
     bd_status = IOS_BLOCK_DEVICE_READY\<rparr>"

theorem format_correct_witness:
  "\<exists>dev' g. ios_fs_format plain_device 7 (replicate 11 0x41) = (dev', Inr g)"
proof -
  obtain g where g: "ios_fs_calculate_geometry IOS_FS_SECTOR_SIZE 97656250 = Inr g"
    using sample_geometry by blast
  have "reliable_operations plain_operations" by (simp add: reliable_operations_def plain_operations_def)
  then show ?thesis
    using format_correct [OF plain_driver, of plain_device g "replicate 11 0x41" 7] g
    by (auto simp: plain_device_def valid_label_def)
qed

end
