(* ===== verification/Vfs_Mount.thy ===== *)
theory Vfs_Mount
  imports IOS_Prelude
begin

text \<open>
  Mount registry and mount life cycle (vfs.h, mount.c, unmount.c). A mount is referenced by
  the registry and by its users, so mounts live in a store indexed by address; the registry
  holds addresses. The unmount callbacks are fields of the mount, functions on the context that
  the mount carries. The step relation \<open>vfs_step\<close> has one rule per operation; the invariant
  \<open>vfs_ok\<close> holds in every reachable state.
\<close>

section \<open>State\<close>

datatype ios_mount_state = IOS_MOUNT_RW | IOS_MOUNT_DIAGNOSTIC | IOS_MOUNT_REJECTED

datatype ios_vfs_object_kind = IOS_VFS_OBJECT_DIRECTORY | IOS_VFS_OBJECT_REGULAR_FILE

datatype ios_vfs_mount_lifecycle =
  IOS_VFS_MOUNT_DETACHED | IOS_VFS_MOUNT_ACTIVE | IOS_VFS_MOUNT_DRAINING

record ios_vfs_object =
  vo_identity :: nat
  vo_kind :: ios_vfs_object_kind
  vo_reference_count :: nat

record 'c ios_vfs_mount =
  vm_driver_name :: "string option"
  vm_has_driver_context :: bool
  vm_has_device :: bool
  vm_root :: "ios_vfs_object option"
  vm_state :: ios_mount_state
  vm_unmount_context :: 'c
  vm_unmount_sync :: "('c \<Rightarrow> 'c \<times> unit res) option"
  vm_unmount_invalidate :: "('c \<Rightarrow> 'c) option"
  vm_active_operations :: nat
  vm_generation :: nat
  vm_lifecycle :: ios_vfs_mount_lifecycle
  vm_mounted :: bool

abbreviation IOS_VFS_MAX_MOUNTS :: nat where "IOS_VFS_MAX_MOUNTS \<equiv> 8"
abbreviation IOS_VFS_ROOT_OBJECT_ID :: nat where "IOS_VFS_ROOT_OBJECT_ID \<equiv> 2"

record ios_vfs_mount_registry =
  mr_mounts :: "nat list"
  mr_root :: "nat option"
  mr_next_generation :: nat

record 'c vfs =
  v_mounts :: "nat \<Rightarrow> 'c ios_vfs_mount"
  v_registry :: ios_vfs_mount_registry

abbreviation set_mount :: "'c vfs \<Rightarrow> nat \<Rightarrow> 'c ios_vfs_mount \<Rightarrow> 'c vfs" where
  "set_mount v a m \<equiv> v\<lparr>v_mounts := (v_mounts v)(a := m)\<rparr>"

section \<open>Operations\<close>

definition vfs_mount_registry_initialize :: ios_vfs_mount_registry where
  "vfs_mount_registry_initialize = \<lparr>mr_mounts = [], mr_root = None, mr_next_generation = 1\<rparr>"

definition vfs_mount_root :: "'c vfs \<Rightarrow> nat \<Rightarrow> string \<Rightarrow> 'c vfs \<times> unit res" where
  "vfs_mount_root v a path =
     (let m = v_mounts v a; registry = v_registry v in
      if path \<noteq> ''/'' \<or> vm_driver_name m = None \<or> \<not> vm_has_driver_context m \<or> \<not> vm_has_device m
         \<or> vm_root m = None \<or> vm_state m = IOS_MOUNT_REJECTED then (v, Inl IOS_E_INVALID_ARGUMENT)
      else if mr_root registry \<noteq> None \<or> vm_mounted m then (v, Inl IOS_E_ALREADY_EXISTS)
      else if length (mr_mounts registry) \<ge> IOS_VFS_MAX_MOUNTS then (v, Inl IOS_E_NO_SPACE)
      else if mr_next_generation registry = UINT32_MAX then (v, Inl IOS_E_OVERFLOW)
      else (\<lparr>v_mounts = (v_mounts v)(a := m\<lparr>vm_generation := mr_next_generation registry,
               vm_active_operations := 0, vm_lifecycle := IOS_VFS_MOUNT_ACTIVE, vm_mounted := True\<rparr>),
             v_registry = registry\<lparr>mr_next_generation := mr_next_generation registry + 1,
               mr_mounts := mr_mounts registry @ [a], mr_root := Some a\<rparr>\<rparr>, Inr ()))"

definition vfs_root_mount :: "'c vfs \<Rightarrow> nat option" where
  "vfs_root_mount v = mr_root (v_registry v)"

text \<open>\<open>++reference_count\<close> is a 32-bit increment without a guard.\<close>

definition vfs_mount_begin_operation :: "'c ios_vfs_mount \<Rightarrow> bool \<Rightarrow> 'c ios_vfs_mount \<times> unit res" where
  "vfs_mount_begin_operation m mutation =
     (if \<not> vm_mounted m then (m, Inl IOS_E_INVALID_STATE)
      else if vm_lifecycle m = IOS_VFS_MOUNT_DRAINING then (m, Inl IOS_E_BUSY)
      else if vm_lifecycle m \<noteq> IOS_VFS_MOUNT_ACTIVE then (m, Inl IOS_E_INVALID_STATE)
      else if mutation \<and> vm_state m \<noteq> IOS_MOUNT_RW then (m, Inl IOS_E_READ_ONLY)
      else if vm_active_operations m = UINT32_MAX then (m, Inl IOS_E_OVERFLOW)
      else (m\<lparr>vm_active_operations := vm_active_operations m + 1,
              vm_root := map_option (\<lambda>r. r\<lparr>vo_reference_count := (vo_reference_count r + 1) mod 2 ^ 32\<rparr>) (vm_root m)\<rparr>,
            Inr ()))"

definition vfs_mount_end_operation :: "'c ios_vfs_mount \<Rightarrow> 'c ios_vfs_mount \<times> unit res" where
  "vfs_mount_end_operation m =
     (if \<not> vm_mounted m
         \<or> (vm_lifecycle m \<noteq> IOS_VFS_MOUNT_ACTIVE \<and> vm_lifecycle m \<noteq> IOS_VFS_MOUNT_DRAINING)
         \<or> vm_active_operations m = 0
         \<or> (case vm_root m of None \<Rightarrow> True | Some r \<Rightarrow> vo_reference_count r = 0)
      then (m, Inl IOS_E_INVALID_STATE)
      else (m\<lparr>vm_active_operations := vm_active_operations m - 1,
              vm_root := map_option (\<lambda>r. r\<lparr>vo_reference_count := vo_reference_count r - 1\<rparr>) (vm_root m)\<rparr>,
            Inr ()))"

text \<open>
  The driver's enumeration callback is a parameter on the driver's state; its output is the
  list of entries, so the count it reports is that list's length.
\<close>

definition vfs_enumerate ::
  "('x \<Rightarrow> nat \<Rightarrow> nat \<Rightarrow> nat \<Rightarrow> 'x \<times> ('e list \<times> nat) res) option \<Rightarrow> 'c ios_vfs_mount \<Rightarrow> 'x
    \<Rightarrow> nat \<Rightarrow> nat \<Rightarrow> nat \<Rightarrow> 'c ios_vfs_mount \<times> 'x \<times> ('e list \<times> nat) res" where
  "vfs_enumerate driver_enumerate m x directory_identity continuation capacity =
     (if directory_identity = 0 \<or> capacity = 0 then (m, x, Inl IOS_E_INVALID_ARGUMENT)
      else case driver_enumerate of
        None \<Rightarrow> (m, x, Inl IOS_E_NOT_SUPPORTED)
      | Some enum \<Rightarrow>
        (case vfs_mount_begin_operation m False of
          (m, Inl e) \<Rightarrow> (m, x, Inl e)
        | (m, Inr _) \<Rightarrow>
          (case enum x directory_identity continuation capacity of
            (x, status) \<Rightarrow>
             (case vfs_mount_end_operation m of
               (m, end_status) \<Rightarrow>
                (case status of
                   Inl e \<Rightarrow> (m, x, Inl e)
                 | Inr (entries, next_continuation) \<Rightarrow>
                    (case end_status of
                       Inl e \<Rightarrow> (m, x, Inl e)
                     | Inr _ \<Rightarrow>
                        if length entries > capacity \<or> (next_continuation \<noteq> 0 \<and> length entries = 0)
                        then (m, x, Inl IOS_E_PROTOCOL)
                        else (m, x, Inr (entries, next_continuation))))))))"

definition vfs_mount_configure_unmount ::
  "'c ios_vfs_mount \<Rightarrow> 'c \<Rightarrow> ('c \<Rightarrow> 'c \<times> unit res) \<Rightarrow> ('c \<Rightarrow> 'c) \<Rightarrow> 'c ios_vfs_mount \<times> unit res" where
  "vfs_mount_configure_unmount m context sync invalidate =
     (if vm_lifecycle m = IOS_VFS_MOUNT_DRAINING then (m, Inl IOS_E_BUSY)
      else (m\<lparr>vm_unmount_context := context, vm_unmount_sync := Some sync,
              vm_unmount_invalidate := Some invalidate\<rparr>, Inr ()))"

text \<open>The two optional callbacks of an unmount.\<close>

definition run_unmount_sync :: "'c ios_vfs_mount \<Rightarrow> 'c \<times> unit res" where
  "run_unmount_sync m =
     (case vm_unmount_sync m of
        None \<Rightarrow> (vm_unmount_context m, Inr ())
      | Some sync \<Rightarrow> sync (vm_unmount_context m))"

definition run_unmount_invalidate :: "'c ios_vfs_mount \<Rightarrow> 'c" where
  "run_unmount_invalidate m =
     (case vm_unmount_invalidate m of
        None \<Rightarrow> vm_unmount_context m
      | Some invalidate \<Rightarrow> invalidate (vm_unmount_context m))"

definition vfs_unmount_root :: "'c vfs \<Rightarrow> 'c vfs \<times> unit res" where
  "vfs_unmount_root v =
     (case mr_root (v_registry v) of
        None \<Rightarrow> (v, Inl IOS_E_NOT_FOUND)
      | Some a \<Rightarrow>
          let m = v_mounts v a in
          if \<not> vm_mounted m \<or> vm_root m = None
             \<or> (vm_lifecycle m \<noteq> IOS_VFS_MOUNT_ACTIVE \<and> vm_lifecycle m \<noteq> IOS_VFS_MOUNT_DRAINING)
          then (v, Inl IOS_E_INVALID_STATE)
          else let m = m\<lparr>vm_lifecycle := IOS_VFS_MOUNT_DRAINING\<rparr> in
            if vm_active_operations m \<noteq> 0 \<or> vo_reference_count (the (vm_root m)) \<noteq> 0
            then (set_mount v a m, Inl IOS_E_BUSY)
            else
             (case run_unmount_sync m of
                (context, Inl e) \<Rightarrow>
                  (set_mount v a (m\<lparr>vm_unmount_context := context, vm_lifecycle := IOS_VFS_MOUNT_ACTIVE\<rparr>), Inl e)
              | (context, Inr _) \<Rightarrow>
                  let m = m\<lparr>vm_unmount_context := context\<rparr>;
                      m = m\<lparr>vm_unmount_context := run_unmount_invalidate m\<rparr>
                  in (\<lparr>v_mounts = (v_mounts v)(a := m\<lparr>vm_mounted := False, vm_lifecycle := IOS_VFS_MOUNT_DETACHED\<rparr>),
                       v_registry = (v_registry v)\<lparr>mr_root := None, mr_mounts := []\<rparr>\<rparr>, Inr ())))"

section \<open>Reachable states\<close>

inductive vfs_step :: "'c vfs \<Rightarrow> 'c vfs \<Rightarrow> bool" where
  step_mount: "vfs_mount_root v a path = (v', r) \<Longrightarrow> vfs_step v v'"
| step_unmount: "vfs_unmount_root v = (v', r) \<Longrightarrow> vfs_step v v'"
| step_begin: "vfs_mount_begin_operation (v_mounts v a) mutation = (m, r) \<Longrightarrow> vfs_step v (set_mount v a m)"
| step_end: "vfs_mount_end_operation (v_mounts v a) = (m, r) \<Longrightarrow> vfs_step v (set_mount v a m)"
| step_configure: "vfs_mount_configure_unmount (v_mounts v a) c sync invl = (m, r) \<Longrightarrow> vfs_step v (set_mount v a m)"

definition vfs_initial :: "'c vfs \<Rightarrow> bool" where
  "vfs_initial v \<longleftrightarrow> v_registry v = vfs_mount_registry_initialize
     \<and> (\<forall>a. \<not> vm_mounted (v_mounts v a) \<and> vm_lifecycle (v_mounts v a) = IOS_VFS_MOUNT_DETACHED
          \<and> vm_active_operations (v_mounts v a) = 0
          \<and> (\<forall>r. vm_root (v_mounts v a) = Some r \<longrightarrow> vo_reference_count r = 0))"

inductive vfs_reachable :: "'c vfs \<Rightarrow> bool" where
  reach_initial: "vfs_initial v \<Longrightarrow> vfs_reachable v"
| reach_step: "vfs_reachable v \<Longrightarrow> vfs_step v v' \<Longrightarrow> vfs_reachable v'"

text \<open>
  Exactly the root is mounted; a mount is active or draining exactly when it is mounted; the
  root object's reference count is the number of operations in progress; an operation is in
  progress only on a mounted file system.
\<close>

definition mount_ok :: "nat \<Rightarrow> 'c ios_vfs_mount \<Rightarrow> bool" where
  "mount_ok next_generation m \<longleftrightarrow>
     (vm_mounted m \<longleftrightarrow> vm_lifecycle m \<noteq> IOS_VFS_MOUNT_DETACHED)
     \<and> vm_active_operations m \<le> UINT32_MAX
     \<and> (case vm_root m of None \<Rightarrow> \<not> vm_mounted m \<and> vm_active_operations m = 0
        | Some r \<Rightarrow> vo_reference_count r = vm_active_operations m)
     \<and> (\<not> vm_mounted m \<longrightarrow> vm_active_operations m = 0)
     \<and> (vm_mounted m \<longrightarrow> vm_state m \<noteq> IOS_MOUNT_REJECTED \<and> vm_generation m < next_generation)"

definition vfs_ok :: "'c vfs \<Rightarrow> bool" where
  "vfs_ok v \<longleftrightarrow> (\<forall>a. mount_ok (mr_next_generation (v_registry v)) (v_mounts v a))
     \<and> (\<forall>a. vm_mounted (v_mounts v a) \<longleftrightarrow> mr_root (v_registry v) = Some a)
     \<and> mr_mounts (v_registry v) = (case mr_root (v_registry v) of None \<Rightarrow> [] | Some a \<Rightarrow> [a])
     \<and> mr_next_generation (v_registry v) \<le> UINT32_MAX"

lemma mount_ok_mono: "mount_ok g m \<Longrightarrow> g \<le> h \<Longrightarrow> mount_ok h m"
  by (auto simp: mount_ok_def split: option.splits)

lemma vfs_ok_set:
  assumes "vfs_ok v" and "mount_ok (mr_next_generation (v_registry v)) m" and "vm_mounted m = vm_mounted (v_mounts v a)"
  shows "vfs_ok (set_mount v a m)"
  using assms by (auto simp: vfs_ok_def)

lemma begin_ok:
  assumes "mount_ok g m" and "vfs_mount_begin_operation m mutation = (m', r)"
  shows "mount_ok g m' \<and> vm_mounted m' = vm_mounted m"
  using assms
  by (auto simp: vfs_mount_begin_operation_def mount_ok_def split: if_splits option.splits)

lemma end_ok:
  assumes "mount_ok g m" and "vfs_mount_end_operation m = (m', r)"
  shows "mount_ok g m' \<and> vm_mounted m' = vm_mounted m"
  using assms
  by (auto simp: vfs_mount_end_operation_def mount_ok_def split: if_splits option.splits)

lemma configure_ok:
  assumes "mount_ok g m" and "vfs_mount_configure_unmount m c sync invl = (m', r)"
  shows "mount_ok g m' \<and> vm_mounted m' = vm_mounted m"
  using assms
  by (auto simp: vfs_mount_configure_unmount_def mount_ok_def split: if_splits option.splits)

lemma mount_root_ok:
  assumes ok: "vfs_ok v" and step: "vfs_mount_root v a path = (v', r)"
  shows "vfs_ok v'"
proof (cases "v' = v")
  case False
  let ?g = "mr_next_generation (v_registry v)"
  have root: "mr_root (v_registry v) = None" and v': "v' = \<lparr>v_mounts = (v_mounts v)(a := (v_mounts v a)\<lparr>vm_generation := ?g,
               vm_active_operations := 0, vm_lifecycle := IOS_VFS_MOUNT_ACTIVE, vm_mounted := True\<rparr>),
             v_registry = (v_registry v)\<lparr>mr_next_generation := ?g + 1,
               mr_mounts := mr_mounts (v_registry v) @ [a], mr_root := Some a\<rparr>\<rparr>"
    and guards: "vm_root (v_mounts v a) \<noteq> None" "vm_state (v_mounts v a) \<noteq> IOS_MOUNT_REJECTED" "?g \<noteq> UINT32_MAX"
    using step False by (auto simp: vfs_mount_root_def Let_def split: if_splits)
  have old: "mount_ok ?g (v_mounts v b)" "\<not> vm_mounted (v_mounts v b)" for b
    using ok root by (auto simp: vfs_ok_def)
  have "mount_ok (?g + 1) (v_mounts v b)" for b using old(1) [of b] by (rule mount_ok_mono) simp
  moreover have "mount_ok (?g + 1) (v_mounts v' a)"
    using old [of a] guards by (auto simp: v' mount_ok_def split: option.splits)
  ultimately show ?thesis
    using ok root old(2) guards(3) by (auto simp: v' vfs_ok_def)
qed (use ok in simp)

lemma unmount_cases:
  assumes "vfs_unmount_root v = (v', r)" and "vfs_ok v"
  shows "v' = v \<and> r \<noteq> Inr () \<or> (\<exists>a m. mr_root (v_registry v) = Some a \<and> vm_mounted (v_mounts v a)
    \<and> vm_root m = vm_root (v_mounts v a) \<and> vm_active_operations m = vm_active_operations (v_mounts v a)
    \<and> vm_state m = vm_state (v_mounts v a) \<and> vm_generation m = vm_generation (v_mounts v a)
    \<and> (r \<noteq> Inr () \<and> v' = set_mount v a m \<and> vm_mounted m \<and> vm_lifecycle m \<noteq> IOS_VFS_MOUNT_DETACHED
       \<or> r = Inr () \<and> \<not> vm_mounted m \<and> vm_lifecycle m = IOS_VFS_MOUNT_DETACHED \<and> vm_active_operations m = 0
         \<and> v' = \<lparr>v_mounts = (v_mounts v)(a := m), v_registry = (v_registry v)\<lparr>mr_root := None, mr_mounts := []\<rparr>\<rparr>))"
proof (cases "mr_root (v_registry v)")
  case None
  then show ?thesis using assms(1) by (auto simp: vfs_unmount_root_def)
next
  case (Some a)
  have m: "vm_mounted (v_mounts v a)" using Some assms(2) by (auto simp: vfs_ok_def)
  define d where "d = (v_mounts v a)\<lparr>vm_lifecycle := IOS_VFS_MOUNT_DRAINING\<rparr>"
  obtain c st where y: "run_unmount_sync d = (c, st)" by (cases "run_unmount_sync d")
  show ?thesis
  proof (cases "vm_root (v_mounts v a) = None \<or> (vm_lifecycle (v_mounts v a) \<noteq> IOS_VFS_MOUNT_ACTIVE
      \<and> vm_lifecycle (v_mounts v a) \<noteq> IOS_VFS_MOUNT_DRAINING)")
    case True
    then show ?thesis using assms(1) Some m by (auto simp: vfs_unmount_root_def)
  next
    case live: False
    show ?thesis
    proof (cases "vm_active_operations (v_mounts v a) \<noteq> 0 \<or> vo_reference_count (the (vm_root (v_mounts v a))) \<noteq> 0")
      case True
      then have "v' = set_mount v a d \<and> r = Inl IOS_E_BUSY"
        using assms(1) Some m live by (auto simp: vfs_unmount_root_def d_def Let_def)
      then show ?thesis using Some m by (intro disjI2 exI [of _ a] exI [of _ d]) (auto simp: d_def)
    next
      case idle: False
      show ?thesis
      proof (cases st)
        case (Inl e)
        let ?m = "d\<lparr>vm_unmount_context := c, vm_lifecycle := IOS_VFS_MOUNT_ACTIVE\<rparr>"
        have "v' = set_mount v a ?m \<and> r = Inl e"
          using assms(1) Some m live idle y Inl by (auto simp: vfs_unmount_root_def d_def Let_def)
        then show ?thesis using Some m by (intro disjI2 exI [of _ a] exI [of _ ?m]) (auto simp: d_def)
      next
        case (Inr u)
        let ?i = "d\<lparr>vm_unmount_context := c\<rparr>"
        let ?m = "d\<lparr>vm_unmount_context := run_unmount_invalidate ?i, vm_mounted := False, vm_lifecycle := IOS_VFS_MOUNT_DETACHED\<rparr>"
        have "v' = \<lparr>v_mounts = (v_mounts v)(a := ?m), v_registry = (v_registry v)\<lparr>mr_root := None, mr_mounts := []\<rparr>\<rparr> \<and> r = Inr ()"
          using assms(1) Some m live idle y Inr by (auto simp: vfs_unmount_root_def d_def Let_def)
        then show ?thesis using Some m idle by (intro disjI2 exI [of _ a] exI [of _ ?m]) (auto simp: d_def)
      qed
    qed
  qed
qed

lemma unmount_ok:
  assumes ok: "vfs_ok v" and step: "vfs_unmount_root v = (v', r)"
  shows "vfs_ok v'"
  using unmount_cases [OF step ok]
proof (elim disjE exE conjE)
  fix a :: nat and m :: "'a ios_vfs_mount"
  assume a: "mr_root (v_registry v) = Some a" "vm_root m = vm_root (v_mounts v a)"
    "vm_active_operations m = vm_active_operations (v_mounts v a)" "vm_state m = vm_state (v_mounts v a)"
    "vm_generation m = vm_generation (v_mounts v a)" "vm_mounted (v_mounts v a)"
  have old: "mount_ok (mr_next_generation (v_registry v)) (v_mounts v b)" "vm_mounted (v_mounts v b) \<longleftrightarrow> b = a" for b
    using ok a(1) by (auto simp: vfs_ok_def)
  show ?thesis if "v' = set_mount v a m" "vm_mounted m" "vm_lifecycle m \<noteq> IOS_VFS_MOUNT_DETACHED"
  proof -
    have "mount_ok (mr_next_generation (v_registry v)) m"
      using that a old(1) [of a] by (auto simp: mount_ok_def split: option.splits)
    then show ?thesis using that(1,2) a(6) vfs_ok_set [OF ok, of m a] by simp
  qed
  show ?thesis if "\<not> vm_mounted m" "vm_lifecycle m = IOS_VFS_MOUNT_DETACHED" "vm_active_operations m = 0"
    "v' = \<lparr>v_mounts = (v_mounts v)(a := m), v_registry = (v_registry v)\<lparr>mr_root := None, mr_mounts := []\<rparr>\<rparr>"
  proof -
    have "mount_ok (mr_next_generation (v_registry v)) m"
      using that a old(1) [of a] by (auto simp: mount_ok_def split: option.splits)
    then show ?thesis using that ok old a(1) by (auto simp: vfs_ok_def)
  qed
qed (use ok in auto)

lemma vfs_step_ok: "vfs_step v v' \<Longrightarrow> vfs_ok v \<Longrightarrow> vfs_ok v'"
proof (induction rule: vfs_step.induct)
  case (step_begin v a mutation m r)
  then have "mount_ok (mr_next_generation (v_registry v)) (v_mounts v a)" by (auto simp: vfs_ok_def)
  note m = begin_ok [OF this step_begin.hyps]
  show ?case using vfs_ok_set [OF step_begin.prems conjunct1 [OF m] conjunct2 [OF m]] .
next
  case (step_end v a m r)
  then have "mount_ok (mr_next_generation (v_registry v)) (v_mounts v a)" by (auto simp: vfs_ok_def)
  note m = end_ok [OF this step_end.hyps]
  show ?case using vfs_ok_set [OF step_end.prems conjunct1 [OF m] conjunct2 [OF m]] .
next
  case (step_configure v a c sync invl m r)
  then have "mount_ok (mr_next_generation (v_registry v)) (v_mounts v a)" by (auto simp: vfs_ok_def)
  note m = configure_ok [OF this step_configure.hyps]
  show ?case using vfs_ok_set [OF step_configure.prems conjunct1 [OF m] conjunct2 [OF m]] .
qed (blast intro: mount_root_ok unmount_ok)+

lemma vfs_reachable_ok: "vfs_reachable v \<Longrightarrow> vfs_ok v"
proof (induction rule: vfs_reachable.induct)
  case (reach_initial v)
  then show ?case
    by (auto simp: vfs_initial_def vfs_ok_def mount_ok_def vfs_mount_registry_initialize_def split: option.split)
qed (rule vfs_step_ok)

section \<open>Properties\<close>

text \<open>C38: In every reachable state the life cycle invariant holds: exactly the registered root is
  mounted, no rejected file system is mounted, and the reference count of the root object is
  the number of operations in progress, so that it never wraps.\<close>

theorem vfs_reachable_invariant:
  assumes "vfs_reachable v"
  shows "vfs_ok v"
  using assms by (rule vfs_reachable_ok)

text \<open>The root is unmounted only when no operation is in progress; after a refused or failed
  unmount it is still mounted and registered, and operations that change the file system run
  only on a mount in read-write state that is not draining.\<close>

theorem vfs_unmount_safe:
  assumes "vfs_reachable v" and "vfs_unmount_root v = (v', r)" and "mr_root (v_registry v) = Some a"
  shows "(r = Inr () \<longrightarrow> vm_active_operations (v_mounts v a) = 0 \<and> \<not> vm_mounted (v_mounts v' a) \<and> mr_root (v_registry v') = None)
    \<and> (r \<noteq> Inr () \<longrightarrow> vm_mounted (v_mounts v' a) \<and> mr_root (v_registry v') = Some a
        \<and> vm_active_operations (v_mounts v' a) = vm_active_operations (v_mounts v a))
    \<and> (snd (vfs_mount_begin_operation (v_mounts v' a) True) = Inr () \<longrightarrow>
        vm_state (v_mounts v' a) = IOS_MOUNT_RW \<and> vm_lifecycle (v_mounts v' a) = IOS_VFS_MOUNT_ACTIVE)"
proof -
  have ok: "vfs_ok v" using assms(1) by (rule vfs_reachable_ok)
  have m: "vm_mounted (v_mounts v a)" using ok assms(3) by (auto simp: vfs_ok_def)
  have "snd (vfs_mount_begin_operation x True) = Inr () \<longrightarrow> vm_state x = IOS_MOUNT_RW \<and> vm_lifecycle x = IOS_VFS_MOUNT_ACTIVE"
    for x :: "'a ios_vfs_mount" by (auto simp: vfs_mount_begin_operation_def)
  moreover have "(r = Inr () \<longrightarrow> vm_active_operations (v_mounts v a) = 0 \<and> \<not> vm_mounted (v_mounts v' a) \<and> mr_root (v_registry v') = None)
    \<and> (r \<noteq> Inr () \<longrightarrow> vm_mounted (v_mounts v' a) \<and> mr_root (v_registry v') = Some a
        \<and> vm_active_operations (v_mounts v' a) = vm_active_operations (v_mounts v a))"
    using unmount_cases [OF assms(2) ok] assms(3) m by auto
  ultimately show ?thesis by blast
qed

section \<open>Witnesses\<close>

definition sample_mount :: "unit ios_vfs_mount" where
  "sample_mount = \<lparr>vm_driver_name = Some ''InferenceOS-FS'', vm_has_driver_context = True, vm_has_device = True,
     vm_root = Some \<lparr>vo_identity = 2, vo_kind = IOS_VFS_OBJECT_DIRECTORY, vo_reference_count = 0\<rparr>,
     vm_state = IOS_MOUNT_RW, vm_unmount_context = (), vm_unmount_sync = None, vm_unmount_invalidate = None,
     vm_active_operations = 0, vm_generation = 0, vm_lifecycle = IOS_VFS_MOUNT_DETACHED, vm_mounted = False\<rparr>"

definition sample_vfs :: "unit vfs" where
  "sample_vfs = \<lparr>v_mounts = (\<lambda>_. sample_mount), v_registry = vfs_mount_registry_initialize\<rparr>"

definition sample_mounted :: "unit vfs" where
  "sample_mounted = fst (vfs_mount_root sample_vfs 0 ''/'')"

lemma sample_reachable: "vfs_reachable sample_mounted"
proof -
  have "vfs_reachable sample_vfs"
    by (rule reach_initial) (simp add: vfs_initial_def sample_vfs_def sample_mount_def)
  moreover have "vfs_step sample_vfs sample_mounted"
    unfolding sample_mounted_def by (rule step_mount) (rule prod.collapse [symmetric])
  ultimately show ?thesis by (rule reach_step)
qed

theorem vfs_reachable_invariant_witness: "vfs_ok sample_mounted"
  using vfs_reachable_invariant [OF sample_reachable] .

lemma sample_mounted_root: "mr_root (v_registry sample_mounted) = Some 0"
  by (simp add: sample_mounted_def vfs_mount_root_def sample_vfs_def sample_mount_def
      vfs_mount_registry_initialize_def Let_def)

theorem vfs_unmount_safe_witness: "mr_root (v_registry (fst (vfs_unmount_root sample_mounted))) = None"
proof -
  have "snd (vfs_unmount_root sample_mounted) = Inr ()"
    by (simp add: vfs_unmount_root_def sample_mounted_def vfs_mount_root_def sample_vfs_def sample_mount_def
      vfs_mount_registry_initialize_def run_unmount_sync_def run_unmount_invalidate_def Let_def)
  then show ?thesis
    using vfs_unmount_safe [OF sample_reachable prod.collapse [symmetric] sample_mounted_root] by blast
qed

end
