(* ===== verification/Fs_Mount.thy ===== *)
theory Fs_Mount
  imports Fs_Format Vfs_Mount
begin

text \<open>
  Mounting a volume: the on-disk validation of the root chain and of cluster ownership
  (validator.c), the probe that classifies a volume (mount.c) and the mount report
  (diagnostic_mount.c). Reads go through the block device; \<open>disk_fat\<close> is the table that the
  medium holds, and the root check is shown to accept exactly the volumes whose root cluster
  begins a well-formed chain of \<open>Fs_Fat\<close>.
\<close>

section \<open>Ownership of clusters\<close>

datatype ios_fs_allocation_owner_kind = IOS_FS_OWNER_DIRECTORY | IOS_FS_OWNER_REGULAR_FILE

record ios_fs_allocation_owner =
  ao_first_cluster :: nat
  ao_file_size :: nat
  ao_kind :: ios_fs_allocation_owner_kind

text \<open>
  The validator has its own copies of \<open>valid_cluster\<close> and \<open>valid_entry_count\<close>, equal to those of
  fat.c; its \<open>classify_next\<close> reports reserved upper bits as corruption and returns the link.
\<close>

definition validator_classify_next :: "u32 \<Rightarrow> nat \<Rightarrow> (nat \<times> bool) res" where
  "validator_classify_next raw entry_count =
     (if raw AND IOS_FS_FAT_UPPER_MASK \<noteq> 0 then Inl IOS_E_CORRUPT
      else let raw = raw AND IOS_FS_FAT_VALUE_MASK in
        if raw \<ge> IOS_FS_FAT_EOC_FIRST then Inr (0, True)
        else if raw = IOS_FS_FAT_FREE \<or> raw = IOS_FS_FAT_BAD
          \<or> (raw \<ge> IOS_FS_FAT_RESERVED_FIRST \<and> raw \<le> IOS_FS_FAT_RESERVED_LAST)
          \<or> \<not> valid_cluster (unat raw) entry_count then Inl IOS_E_CORRUPT
        else Inr (unat raw, False))"

text \<open>The walk of one owner's chain: the marked map and the capacity in bytes.\<close>

primrec owner_walk :: "nat \<Rightarrow> u32 list \<Rightarrow> nat \<Rightarrow> nat \<Rightarrow> nat \<Rightarrow> nat list \<Rightarrow> (nat list \<times> nat) res" where
  "owner_walk 0 fat owner_index cluster capacity owner_map = Inl IOS_E_CORRUPT"
| "owner_walk (Suc left) fat owner_index cluster capacity owner_map =
     (if \<not> valid_cluster cluster (length fat) \<or> owner_map ! cluster \<noteq> 0 then Inl IOS_E_CORRUPT
      else let owner_map = owner_map[cluster := owner_index + 1] in
        if capacity > UINT64_MAX - IOS_FS_SECTOR_SIZE * IOS_FS_SECTORS_PER_CLUSTER then Inl IOS_E_OVERFLOW
        else let capacity = capacity + IOS_FS_SECTOR_SIZE * IOS_FS_SECTORS_PER_CLUSTER in
          case validator_classify_next (fat ! cluster) (length fat) of
            Inl e \<Rightarrow> Inl e
          | Inr (next, end_of_chain) \<Rightarrow>
              if end_of_chain then Inr (owner_map, capacity)
              else owner_walk left fat owner_index next capacity owner_map)"

fun owners_loop :: "u32 list \<Rightarrow> nat \<Rightarrow> ios_fs_allocation_owner list \<Rightarrow> nat list \<Rightarrow> nat list res" where
  "owners_loop fat owner_index [] owner_map = Inr owner_map"
| "owners_loop fat owner_index (owner # owners) owner_map =
     (if ao_kind owner = IOS_FS_OWNER_REGULAR_FILE \<and> ao_file_size owner = 0 then
        if ao_first_cluster owner \<noteq> 0 then Inl IOS_E_CORRUPT
        else owners_loop fat (owner_index + 1) owners owner_map
      else if \<not> valid_cluster (ao_first_cluster owner) (length fat) then Inl IOS_E_CORRUPT
      else case owner_walk (length fat) fat owner_index (ao_first_cluster owner) 0 owner_map of
          Inl e \<Rightarrow> Inl e
        | Inr (owner_map, capacity) \<Rightarrow>
            if ao_kind owner = IOS_FS_OWNER_REGULAR_FILE \<and> capacity < ao_file_size owner then Inl IOS_E_CORRUPT
            else owners_loop fat (owner_index + 1) owners owner_map)"

definition ios_fs_validate_owners :: "u32 list \<Rightarrow> ios_fs_allocation_owner list \<Rightarrow> nat \<Rightarrow> nat list res" where
  "ios_fs_validate_owners fat owners owner_map_count =
     (if length owners = 0 \<or> length owners > UINT32_MAX \<or> \<not> valid_entry_count (length fat)
         \<or> owner_map_count < length fat then Inl IOS_E_INVALID_ARGUMENT
      else owners_loop fat 0 owners (replicate (length fat) 0))"

section \<open>The root chain on disk\<close>

definition read_fat_entry ::
  "'d ios_block_device \<Rightarrow> ios_fs_geometry \<Rightarrow> nat \<Rightarrow> 'd ios_block_device \<times> u32 res" where
  "read_fat_entry device geometry cluster =
     (let entry_count = g_cluster_count geometry + IOS_FS_ROOT_CLUSTER;
          fat_sector = IOS_FS_SUPERBLOCK_SECTORS + cluster div FAT_ENTRIES_PER_SECTOR;
          offset = cluster mod FAT_ENTRIES_PER_SECTOR * 4
      in if \<not> valid_cluster cluster entry_count \<or> fat_sector \<ge> g_registry_start_sector geometry
         then (device, Inl IOS_E_CORRUPT)
         else case block_device_read device fat_sector 1 of
             (device, Inl e) \<Rightarrow> (device, Inl e)
           | (device, Inr sector) \<Rightarrow>
              (case ios_fs_fat_entry_decode (field_at offset 4 sector) of
                 Inl _ \<Rightarrow> (device, Inl IOS_E_CORRUPT)
               | Inr value \<Rightarrow> (device, Inr value)))"

definition advance ::
  "'d ios_block_device \<Rightarrow> ios_fs_geometry \<Rightarrow> nat \<Rightarrow> 'd ios_block_device \<times> (nat \<times> bool) res" where
  "advance device geometry cluster =
     (case read_fat_entry device geometry cluster of
        (device, Inl e) \<Rightarrow> (device, Inl e)
      | (device, Inr raw) \<Rightarrow>
          (device, validator_classify_next raw (g_cluster_count geometry + IOS_FS_ROOT_CLUSTER)))"

definition reserved_entry_ok :: "bytes \<Rightarrow> nat \<Rightarrow> bool" where
  "reserved_entry_ok sector index =
     (case ios_fs_fat_entry_decode (field_at (index * 4) 4 sector) of
        Inl _ \<Rightarrow> False | Inr value \<Rightarrow> value \<ge> IOS_FS_FAT_EOC_FIRST)"

definition validate_reserved_entries :: "'d ios_block_device \<Rightarrow> 'd ios_block_device \<times> unit res" where
  "validate_reserved_entries device =
     (case block_device_read device IOS_FS_SUPERBLOCK_SECTORS 1 of
        (device, Inl e) \<Rightarrow> (device, Inl e)
      | (device, Inr sector) \<Rightarrow>
          (device, if \<forall>index \<in> {0..<IOS_FS_ROOT_CLUSTER}. reserved_entry_ok sector index
                   then Inr () else Inl IOS_E_CORRUPT))"

text \<open>
  The two-speed walk. The result of the fast half step is the device, the new position of the
  fast cursor and whether it has ended.
\<close>

definition advance_fast ::
  "'d ios_block_device \<Rightarrow> ios_fs_geometry \<Rightarrow> nat \<Rightarrow> 'd ios_block_device \<times> (nat \<times> bool) res" where
  "advance_fast device geometry fast =
     (case advance device geometry fast of
        (device, Inl e) \<Rightarrow> (device, Inl e)
      | (device, Inr (next, end_of_chain)) \<Rightarrow>
          if end_of_chain then (device, Inr (fast, True))
          else case advance device geometry next of
              (device, Inl e) \<Rightarrow> (device, Inl e)
            | (device, Inr (next2, end_of_chain)) \<Rightarrow>
                (device, Inr (if end_of_chain then (next, True) else (next2, False))))"

primrec root_chain_loop ::
  "nat \<Rightarrow> 'd ios_block_device \<Rightarrow> ios_fs_geometry \<Rightarrow> nat \<Rightarrow> nat \<Rightarrow> bool \<Rightarrow> nat \<Rightarrow> 'd ios_block_device \<times> nat res" where
  "root_chain_loop 0 device geometry slow fast fast_ended count = (device, Inl IOS_E_CORRUPT)"
| "root_chain_loop (Suc left) device geometry slow fast fast_ended count =
     (case advance device geometry slow of
        (device, Inl e) \<Rightarrow> (device, Inl e)
      | (device, Inr (next, end_of_chain)) \<Rightarrow>
          if end_of_chain then (device, Inr (count + 1))
          else if fast_ended then root_chain_loop left device geometry next fast True (count + 1)
          else case advance_fast device geometry fast of
              (device, Inl e) \<Rightarrow> (device, Inl e)
            | (device, Inr (fast, fast_ended)) \<Rightarrow>
                if \<not> fast_ended \<and> next = fast then (device, Inl IOS_E_CORRUPT)
                else root_chain_loop left device geometry next fast fast_ended (count + 1))"

definition ios_fs_validate_root_chain ::
  "'d ios_block_device \<Rightarrow> ios_fs_geometry \<Rightarrow> 'd ios_block_device \<times> nat res" where
  "ios_fs_validate_root_chain device geometry =
     (if g_cluster_count geometry = 0 \<or> g_cluster_count geometry > IOS_FS_MAX_DATA_CLUSTER - 1
      then (device, Inl IOS_E_INVALID_ARGUMENT)
      else case validate_reserved_entries device of
          (device, Inl e) \<Rightarrow> (device, Inl e)
        | (device, Inr _) \<Rightarrow>
            root_chain_loop (g_cluster_count geometry) device geometry IOS_FS_ROOT_CLUSTER IOS_FS_ROOT_CLUSTER False 0)"

section \<open>Mount report\<close>

datatype ios_fs_mount_reason =
    IOS_FS_MOUNT_REASON_NONE | IOS_FS_MOUNT_REASON_NOT_PROBED | IOS_FS_MOUNT_REASON_DEVICE_GEOMETRY
  | IOS_FS_MOUNT_REASON_SUPERBLOCKS_INVALID | IOS_FS_MOUNT_REASON_PRIMARY_INVALID
  | IOS_FS_MOUNT_REASON_BACKUP_INVALID | IOS_FS_MOUNT_REASON_SUPERBLOCK_DISAGREEMENT
  | IOS_FS_MOUNT_REASON_ROOT_CHAIN_UNSAFE | IOS_FS_MOUNT_REASON_DEVICE_IO

datatype ios_fs_trusted_superblock =
    IOS_FS_TRUSTED_SUPERBLOCK_NONE | IOS_FS_TRUSTED_SUPERBLOCK_PRIMARY
  | IOS_FS_TRUSTED_SUPERBLOCK_BACKUP | IOS_FS_TRUSTED_SUPERBLOCK_BOTH

record ios_fs_mount_report =
  rp_state :: ios_mount_state
  rp_reason :: ios_fs_mount_reason
  rp_trusted_superblock :: ios_fs_trusted_superblock
  rp_bounds_trusted :: bool
  rp_read_only :: bool

record 'c ios_fs_mount =
  fm_vfs :: "'c ios_vfs_mount"
  fm_superblock :: ios_fs_superblock
  fm_geometry :: ios_fs_geometry
  fm_report :: ios_fs_mount_report

fun state_for_reason :: "ios_fs_mount_reason \<Rightarrow> ios_mount_state" where
  "state_for_reason IOS_FS_MOUNT_REASON_NONE = IOS_MOUNT_RW"
| "state_for_reason IOS_FS_MOUNT_REASON_PRIMARY_INVALID = IOS_MOUNT_DIAGNOSTIC"
| "state_for_reason IOS_FS_MOUNT_REASON_BACKUP_INVALID = IOS_MOUNT_DIAGNOSTIC"
| "state_for_reason IOS_FS_MOUNT_REASON_SUPERBLOCK_DISAGREEMENT = IOS_MOUNT_DIAGNOSTIC"
| "state_for_reason _ = IOS_MOUNT_REJECTED"

definition ios_fs_mount_report_set ::
  "'c ios_fs_mount \<Rightarrow> ios_fs_mount_reason \<Rightarrow> ios_fs_trusted_superblock \<Rightarrow> bool \<Rightarrow> 'c ios_fs_mount" where
  "ios_fs_mount_report_set mount reason trusted_superblock bounds_trusted =
     (let state = state_for_reason reason in
      mount\<lparr>fm_report := \<lparr>rp_state = state, rp_reason = reason, rp_trusted_superblock = trusted_superblock,
              rp_bounds_trusted = bounds_trusted, rp_read_only = (state = IOS_MOUNT_DIAGNOSTIC)\<rparr>,
            fm_vfs := (fm_vfs mount)\<lparr>vm_state := state\<rparr>\<rparr>)"

definition ios_fs_diagnostic_begin_read :: "'c ios_fs_mount \<Rightarrow> 'c ios_fs_mount \<times> unit res" where
  "ios_fs_diagnostic_begin_read mount =
     (if vm_state (fm_vfs mount) \<noteq> IOS_MOUNT_DIAGNOSTIC \<or> \<not> rp_bounds_trusted (fm_report mount)
         \<or> \<not> rp_read_only (fm_report mount) then (mount, Inl IOS_E_INVALID_STATE)
      else case vfs_mount_begin_operation (fm_vfs mount) False of (m, r) \<Rightarrow> (mount\<lparr>fm_vfs := m\<rparr>, r))"

definition ios_fs_diagnostic_end_read :: "'c ios_fs_mount \<Rightarrow> 'c ios_fs_mount \<times> unit res" where
  "ios_fs_diagnostic_end_read mount =
     (if vm_state (fm_vfs mount) \<noteq> IOS_MOUNT_DIAGNOSTIC then (mount, Inl IOS_E_INVALID_STATE)
      else case vfs_mount_end_operation (fm_vfs mount) of (m, r) \<Rightarrow> (mount\<lparr>fm_vfs := m\<rparr>, r))"

section \<open>Probe\<close>

definition zero_geometry :: ios_fs_geometry where
  "zero_geometry = \<lparr>g_total_sectors = 0, g_fat_sectors = 0, g_registry_start_sector = 0,
     g_data_start_sector = 0, g_cluster_count = 0, g_usable_bytes = 0\<rparr>"

definition zero_superblock :: ios_fs_superblock where
  "zero_superblock = \<lparr>sb_total_sectors = 0, sb_sectors_per_fat = 0, sb_registry_start_sector = 0,
     sb_volume_serial = 0, sb_flags = 0, sb_volume_label = replicate 11 0\<rparr>"

text \<open>The mount after \<open>memset\<close> and the assignments that follow it; \<open>null\<close> is the unset unmount context.\<close>

definition fresh_mount :: "'c \<Rightarrow> 'c ios_fs_mount" where
  "fresh_mount null =
     \<lparr>fm_vfs = \<lparr>vm_driver_name = Some ''InferenceOS-FS'', vm_has_driver_context = True, vm_has_device = True,
        vm_root = Some \<lparr>vo_identity = IOS_VFS_ROOT_OBJECT_ID, vo_kind = IOS_VFS_OBJECT_DIRECTORY, vo_reference_count = 0\<rparr>,
        vm_state = IOS_MOUNT_RW, vm_unmount_context = null, vm_unmount_sync = None, vm_unmount_invalidate = None,
        vm_active_operations = 0, vm_generation = 0, vm_lifecycle = IOS_VFS_MOUNT_DETACHED, vm_mounted = False\<rparr>,
      fm_superblock = zero_superblock, fm_geometry = zero_geometry,
      fm_report = \<lparr>rp_state = IOS_MOUNT_RW, rp_reason = IOS_FS_MOUNT_REASON_NONE,
        rp_trusted_superblock = IOS_FS_TRUSTED_SUPERBLOCK_NONE, rp_bounds_trusted = False, rp_read_only = False\<rparr>\<rparr>"

text \<open>The result and the new value of \<open>*geometry\<close>.\<close>

definition geometry_matches ::
  "ios_fs_superblock \<Rightarrow> 'd ios_block_device \<Rightarrow> ios_fs_geometry \<Rightarrow> bool \<times> ios_fs_geometry" where
  "geometry_matches superblock device geometry =
     (if unat (sb_total_sectors superblock) \<noteq> bd_sector_count device then (False, geometry)
      else case ios_fs_calculate_geometry (bd_logical_sector_size device) (bd_sector_count device) of
          Inl e \<Rightarrow> (False, zero_geometry)
        | Inr g \<Rightarrow> (g_fat_sectors g = unat (sb_sectors_per_fat superblock)
             \<and> g_registry_start_sector g = unat (sb_registry_start_sector superblock), g))"

definition superblock_bounds ::
  "ios_fs_superblock res \<Rightarrow> 'd ios_block_device \<Rightarrow> ios_fs_geometry \<Rightarrow> bool \<times> ios_fs_geometry" where
  "superblock_bounds status device geometry =
     (case status of Inl _ \<Rightarrow> (False, geometry) | Inr superblock \<Rightarrow> geometry_matches superblock device geometry)"

definition ios_fs_mount_probe ::
  "'c \<Rightarrow> 'd ios_block_device \<Rightarrow> 'd ios_block_device \<times> 'c ios_fs_mount \<times> unit res" where
  "ios_fs_mount_probe null device =
     (let mount = ios_fs_mount_report_set (fresh_mount null) IOS_FS_MOUNT_REASON_NOT_PROBED
                    IOS_FS_TRUSTED_SUPERBLOCK_NONE False;
          io_error = (\<lambda>device. (device, ios_fs_mount_report_set mount IOS_FS_MOUNT_REASON_DEVICE_IO
                    IOS_FS_TRUSTED_SUPERBLOCK_NONE False, Inl IOS_E_IO))
      in if bd_logical_sector_size device \<noteq> IOS_FS_SECTOR_SIZE
            \<or> bd_sector_count device < IOS_FS_MINIMUM_VOLUME_BYTES div IOS_FS_SECTOR_SIZE
      then (device, ios_fs_mount_report_set mount IOS_FS_MOUNT_REASON_DEVICE_GEOMETRY
                      IOS_FS_TRUSTED_SUPERBLOCK_NONE False, Inr ())
      else case block_device_read device 0 1 of
        (device, Inl _) \<Rightarrow> io_error device
      | (device, Inr primary_disk) \<Rightarrow>
     (case block_device_read device 1 1 of
        (device, Inl _) \<Rightarrow> io_error device
      | (device, Inr backup_disk) \<Rightarrow>
        let primary_status = ios_fs_superblock_decode primary_disk;
            backup_status = ios_fs_superblock_decode backup_disk;
            (primary_bounds, geometry) = superblock_bounds primary_status device (fm_geometry mount);
            (backup_bounds, geometry) = superblock_bounds backup_status device geometry;
            mount = mount\<lparr>fm_geometry := geometry\<rparr>
        in if \<not> primary_bounds \<and> \<not> backup_bounds
        then (device, ios_fs_mount_report_set mount
               (if IOS_SUCCEEDED primary_status \<or> IOS_SUCCEEDED backup_status
                then IOS_FS_MOUNT_REASON_DEVICE_GEOMETRY else IOS_FS_MOUNT_REASON_SUPERBLOCKS_INVALID)
               IOS_FS_TRUSTED_SUPERBLOCK_NONE False, Inr ())
        else case ios_fs_validate_root_chain device geometry of
          (device, Inl e) \<Rightarrow>
            (device, ios_fs_mount_report_set mount
               (if e = IOS_E_CORRUPT then IOS_FS_MOUNT_REASON_ROOT_CHAIN_UNSAFE else IOS_FS_MOUNT_REASON_DEVICE_IO)
               (if primary_bounds then IOS_FS_TRUSTED_SUPERBLOCK_PRIMARY else IOS_FS_TRUSTED_SUPERBLOCK_BACKUP) True,
             if e = IOS_E_CORRUPT then Inr () else Inl e)
        | (device, Inr _) \<Rightarrow>
            if primary_bounds \<and> backup_bounds
               \<and> ios_fs_superblock_classify_pair primary_disk backup_disk = IOS_FS_SUPERBLOCK_PAIR_READ_WRITE
            then (device, ios_fs_mount_report_set (mount\<lparr>fm_superblock := projr primary_status\<rparr>)
                   IOS_FS_MOUNT_REASON_NONE IOS_FS_TRUSTED_SUPERBLOCK_BOTH True, Inr ())
            else (device, ios_fs_mount_report_set
                   (mount\<lparr>fm_superblock := projr (if primary_bounds then primary_status else backup_status)\<rparr>)
                   (if primary_bounds \<and> backup_bounds then IOS_FS_MOUNT_REASON_SUPERBLOCK_DISAGREEMENT
                    else if primary_bounds then IOS_FS_MOUNT_REASON_BACKUP_INVALID
                    else IOS_FS_MOUNT_REASON_PRIMARY_INVALID)
                   (if primary_bounds \<and> backup_bounds then IOS_FS_TRUSTED_SUPERBLOCK_BOTH
                    else if primary_bounds then IOS_FS_TRUSTED_SUPERBLOCK_PRIMARY
                    else IOS_FS_TRUSTED_SUPERBLOCK_BACKUP) True, Inr ())))"

text \<open>The probed mount is placed at address \<open>a\<close> of the mount store and registered there.\<close>

definition ios_fs_mount_root ::
  "'c \<Rightarrow> 'd ios_block_device \<Rightarrow> 'c vfs \<Rightarrow> nat \<Rightarrow> 'd ios_block_device \<times> 'c ios_fs_mount \<times> 'c vfs \<times> unit res" where
  "ios_fs_mount_root null device v a =
     (case ios_fs_mount_probe null device of
        (device, mount, status) \<Rightarrow>
          let v = set_mount v a (fm_vfs mount) in
          (case status of
             Inl e \<Rightarrow> (device, mount, v, Inl e)
           | Inr _ \<Rightarrow>
               if vm_state (fm_vfs mount) = IOS_MOUNT_REJECTED then (device, mount, v, Inl IOS_E_CORRUPT)
               else case vfs_mount_root v a ''/'' of
                   (v, r) \<Rightarrow> (device, mount\<lparr>fm_vfs := v_mounts v a\<rparr>, v, r)))"

section \<open>The table on the medium\<close>

definition disk_fat :: "(nat \<Rightarrow> bytes) \<Rightarrow> nat \<Rightarrow> u32 list" where
  "disk_fat medium cluster_count =
     map (\<lambda>c. read_u32 (field_at (c mod FAT_ENTRIES_PER_SECTOR * 4) 4
            (medium (IOS_FS_SUPERBLOCK_SECTORS + c div FAT_ENTRIES_PER_SECTOR))))
       [0..<cluster_count + IOS_FS_ROOT_CLUSTER]"

lemma length_disk_fat [simp]: "length (disk_fat medium n) = n + IOS_FS_ROOT_CLUSTER"
  by (simp add: disk_fat_def)

lemma nth_disk_fat:
  "c < n + IOS_FS_ROOT_CLUSTER \<Longrightarrow> disk_fat medium n ! c =
     read_u32 (field_at (c mod FAT_ENTRIES_PER_SECTOR * 4) 4
       (medium (IOS_FS_SUPERBLOCK_SECTORS + c div FAT_ENTRIES_PER_SECTOR)))"
  by (simp add: disk_fat_def del: upt_Suc)

text \<open>Both classifications of an entry accept the same links.\<close>

lemma validator_classify_Inr:
  "validator_classify_next raw n = Inr (next, eoc) \<longleftrightarrow>
     classify_next raw n = Inr eoc \<and> next = (if eoc then 0 else unat (raw AND IOS_FS_FAT_VALUE_MASK))"
  by (auto simp: validator_classify_next_def classify_next_def Let_def)

lemma validator_classify_Inl: "validator_classify_next raw n = Inl e \<Longrightarrow> e = IOS_E_CORRUPT"
  by (auto simp: validator_classify_next_def Let_def split: if_splits)

lemma classify_Inr_upper: "classify_next raw n = Inr eoc \<Longrightarrow> raw AND IOS_FS_FAT_UPPER_MASK = 0"
  by (auto simp: classify_next_def split: if_splits)

lemma fat_chain_nth:
  "fat_chain fat c cs \<Longrightarrow> i < length cs \<Longrightarrow> valid_cluster (cs ! i) (length fat)
     \<and> classify_next (fat ! (cs ! i)) (length fat) = Inr (Suc i = length cs)
     \<and> (Suc i < length cs \<longrightarrow> fat_next fat (cs ! i) = cs ! Suc i)"
proof (induction arbitrary: i rule: fat_chain.induct)
  case (fat_chain_link c cs)
  note tail = fat_chain_hd [OF fat_chain_link.hyps(3)]
  show ?case
  proof (cases i)
    case 0
    then show ?thesis using fat_chain_link.hyps tail by (auto simp: hd_conv_nth)
  next
    case (Suc j)
    then show ?thesis using fat_chain_link.IH [of j] fat_chain_link.prems by auto
  qed
qed auto

lemma fat_chain_length_data:
  assumes "fat_chain fat c cs" and "length fat = n + IOS_FS_ROOT_CLUSTER"
  shows "length cs \<le> n"
proof -
  have "set cs \<subseteq> {2..<n + 2}" using assms by (auto dest: fat_chain_valid simp: valid_cluster_def)
  then have "card (set cs) \<le> card {2..<n + 2}" by (intro card_mono) auto
  then show ?thesis using fat_chain_distinct [OF assms(1)] by (simp add: distinct_card)
qed

section \<open>The root check accepts exactly the well-formed chains\<close>

text \<open>A driver whose reads never fail, and a geometry whose table lies on the device.\<close>

definition reliable_reads :: "'d ios_block_device_operations \<Rightarrow> bool" where
  "reliable_reads ops \<longleftrightarrow> (\<forall>d s n. \<exists>bs. snd (op_read ops d s n) = Inr bs)"

definition table_on_device :: "ios_fs_geometry \<Rightarrow> 'd ios_block_device \<Rightarrow> bool" where
  "table_on_device g device \<longleftrightarrow>
     g_cluster_count g + IOS_FS_ROOT_CLUSTER \<le> (g_registry_start_sector g - IOS_FS_SUPERBLOCK_SECTORS) * FAT_ENTRIES_PER_SECTOR
     \<and> g_registry_start_sector g \<le> bd_sector_count device \<and> 0 < g_cluster_count g
     \<and> g_cluster_count g \<le> IOS_FS_MAX_DATA_CLUSTER - 1"

lemma geometry_table_on_device:
  assumes "ios_fs_calculate_geometry sz (bd_sector_count device) = Inr g" and "bd_sector_count device \<le> UINT64_MAX"
  shows "table_on_device g device"
  using geometry_Inr [OF assms]
  by (auto simp: table_on_device_def fits_iff fixed_sectors_def)

definition same_device :: "'d ios_block_device \<Rightarrow> 'd ios_block_device \<Rightarrow> bool" where
  "same_device a b \<longleftrightarrow> bd_sector_count a = bd_sector_count b \<and> bd_status a = bd_status b
     \<and> bd_logical_sector_size a = bd_logical_sector_size b"

context block_driver
begin

definition unread :: "'d ios_block_device \<Rightarrow> 'd ios_block_device \<Rightarrow> bool" where
  "unread device device' \<longleftrightarrow> dev_ok device' \<and> contents (bd_context device') = contents (bd_context device)
     \<and> same_device device' device"

lemma unread_refl: "dev_ok device \<Longrightarrow> unread device device"
  by (simp add: unread_def same_device_def)

lemma unread_trans: "unread a b \<Longrightarrow> unread b c \<Longrightarrow> unread a c"
  by (simp add: unread_def same_device_def)

lemma unread_ok: "unread a b \<Longrightarrow> dev_ok b"
  by (simp add: unread_def)

lemma device_read_unread: "dev_ok device \<Longrightarrow> block_device_read device s n = (device', r) \<Longrightarrow> unread device device'"
  using device_read_keeps [of device s n device' r] by (simp add: unread_def same_device_def)

lemma reliable_read:
  assumes "reliable_reads ops" and "dev_ok device" and "bd_status device \<noteq> IOS_BLOCK_DEVICE_OFFLINE"
    and "bd_status device \<noteq> IOS_BLOCK_DEVICE_FAILED" and "s < bd_sector_count device"
  obtains device' where "block_device_read device s 1 = (device', Inr (contents (bd_context device) s))"
    and "unread device device'"
proof -
  obtain d r where r: "op_read ops (bd_context device) s 1 = (d, r)" by (cases "op_read ops (bd_context device) s 1")
  then obtain bs where "r = Inr bs" using assms(1) unfolding reliable_reads_def by (metis snd_conv)
  with r assms have rd: "block_device_read device s 1 = (device\<lparr>bd_context := d\<rparr>, Inr bs)"
    by (auto simp: block_device_read_def validate_range_def dev_ok_def)
  moreover have "bs = contents (bd_context device) s" using device_read_data [OF assms(2) rd] by simp
  ultimately show thesis using that device_read_unread [OF assms(2) rd] by simp
qed

lemma advance_sound:
  assumes ok: "dev_ok device" and adv: "advance device g c = (device', r)"
  defines "fat \<equiv> disk_fat (contents (bd_context device)) (g_cluster_count g)"
  shows "unread device device'"
    and "r = Inr (next, eoc) \<Longrightarrow> valid_cluster c (length fat) \<and> classify_next (fat ! c) (length fat) = Inr eoc
      \<and> (\<not> eoc \<longrightarrow> next = fat_next fat c)"
proof -
  obtain d1 q where rd: "block_device_read device (IOS_FS_SUPERBLOCK_SECTORS + c div FAT_ENTRIES_PER_SECTOR) 1 = (d1, q)"
    by (cases "block_device_read device (IOS_FS_SUPERBLOCK_SECTORS + c div FAT_ENTRIES_PER_SECTOR) 1")
  note keep = device_read_unread [OF ok rd] and refl = unread_refl [OF ok]
  show "unread device device'"
    using adv rd keep refl by (auto simp: advance_def read_fat_entry_def Let_def split: if_splits sum.splits)
  assume r: "r = Inr (next, eoc)"
  show "valid_cluster c (length fat) \<and> classify_next (fat ! c) (length fat) = Inr eoc
      \<and> (\<not> eoc \<longrightarrow> next = fat_next fat c)"
  proof (cases q)
    case (Inr sector)
    have sec: "sector = contents (bd_context device) (IOS_FS_SUPERBLOCK_SECTORS + c div FAT_ENTRIES_PER_SECTOR)"
      using device_read_data [OF ok, of _ 1] rd Inr by simp
    have vc: "valid_cluster c (g_cluster_count g + IOS_FS_ROOT_CLUSTER)"
      and dec: "validator_classify_next (read_u32 (field_at (c mod FAT_ENTRIES_PER_SECTOR * 4) 4 sector))
         (g_cluster_count g + IOS_FS_ROOT_CLUSTER) = Inr (next, eoc)"
      using adv rd Inr r
      by (auto simp: advance_def read_fat_entry_def ios_fs_fat_entry_decode_def Let_def split: if_splits)
    have "fat ! c = read_u32 (field_at (c mod FAT_ENTRIES_PER_SECTOR * 4) 4 sector)"
      unfolding fat_def sec using vc by (intro nth_disk_fat) (simp add: valid_cluster_def)
    then show ?thesis using vc dec by (auto simp: validator_classify_Inr fat_next_def fat_def)
  qed (use adv rd r in \<open>auto simp: advance_def read_fat_entry_def Let_def split: if_splits\<close>)
qed

lemma advance_complete:
  assumes rel: "reliable_reads ops" and ok: "dev_ok device" and on: "table_on_device g device"
    and st: "bd_status device \<noteq> IOS_BLOCK_DEVICE_OFFLINE" "bd_status device \<noteq> IOS_BLOCK_DEVICE_FAILED"
  defines "fat \<equiv> disk_fat (contents (bd_context device)) (g_cluster_count g)"
  assumes vc: "valid_cluster c (length fat)" and cl: "classify_next (fat ! c) (length fat) = Inr eoc"
  shows "\<exists>device'. advance device g c = (device', Inr (if eoc then 0 else fat_next fat c, eoc)) \<and> unread device device'"
proof -
  let ?s = "IOS_FS_SUPERBLOCK_SECTORS + c div FAT_ENTRIES_PER_SECTOR"
  have c: "c < g_cluster_count g + IOS_FS_ROOT_CLUSTER" using vc by (simp add: valid_cluster_def fat_def)
  then have "c < (g_registry_start_sector g - IOS_FS_SUPERBLOCK_SECTORS) * FAT_ENTRIES_PER_SECTOR"
    using on by (simp add: table_on_device_def)
  then have s: "?s < g_registry_start_sector g" by (auto simp: less_diff_conv div_less_iff_less_mult)
  then have "?s < bd_sector_count device" using on by (simp add: table_on_device_def)
  from reliable_read [OF rel ok st this] obtain d1 where
    rd: "block_device_read device ?s 1 = (d1, Inr (contents (bd_context device) ?s))" and un: "unread device d1" .
  have nth: "fat ! c = read_u32 (field_at (c mod FAT_ENTRIES_PER_SECTOR * 4) 4 (contents (bd_context device) ?s))"
    unfolding fat_def using c by (rule nth_disk_fat)
  have "read_fat_entry device g c = (d1, Inr (fat ! c))"
    using rd s vc classify_Inr_upper [OF cl] nth
    by (auto simp: read_fat_entry_def ios_fs_fat_entry_decode_def Let_def fat_def)
  moreover have "validator_classify_next (fat ! c) (g_cluster_count g + IOS_FS_ROOT_CLUSTER)
      = Inr (if eoc then 0 else fat_next fat c, eoc)"
    using cl by (simp add: validator_classify_Inr fat_next_def fat_def)
  ultimately show ?thesis using un by (simp add: advance_def)
qed

lemma advance_fast_unread:
  assumes "dev_ok device" and "advance_fast device g c = (device', r)"
  shows "unread device device'"
proof -
  obtain d1 q where a: "advance device g c = (d1, q)" by (cases "advance device g c")
  note u = advance_sound(1) [OF assms(1) a]
  show ?thesis
  proof (cases q)
    case (Inr p)
    obtain nx eoc where p: "p = (nx, eoc)" by (cases p)
    obtain d2 q2 where b: "advance d1 g nx = (d2, q2)" by (cases "advance d1 g nx")
    note u2 = unread_trans [OF u advance_sound(1) [OF unread_ok [OF u] b]]
    show ?thesis using assms(2) a b Inr p u u2
      by (auto simp: advance_fast_def split: if_splits sum.splits)
  qed (use assms(2) a u in \<open>simp add: advance_fast_def\<close>)
qed

lemma root_chain_loop_sound:
  assumes "dev_ok device" and "root_chain_loop left device g slow fast fe count = (device', r)"
  shows "unread device device' \<and> (\<forall>n. r = Inr n \<longrightarrow>
    (\<exists>cs. fat_chain (disk_fat (contents (bd_context device)) (g_cluster_count g)) slow cs \<and> n = count + length cs))"
  using assms
proof (induction "left" arbitrary: device slow fast fe count)
  case 0
  then show ?case by (auto simp: unread_refl)
next
  case (Suc m)
  let ?F = "\<lambda>d. disk_fat (contents (bd_context d)) (g_cluster_count g)"
  obtain d1 q where a: "advance device g slow = (d1, q)" by (cases "advance device g slow")
  note u = advance_sound(1) [OF Suc.prems(1) a]
  show ?case
  proof (cases q)
    case (Inr p)
    obtain nx eoc where p: "p = (nx, eoc)" by (cases p)
    note s = advance_sound(2) [OF Suc.prems(1) a, of nx eoc, unfolded Inr p, simplified]
    have step: ?thesis if d: "unread d1 d2" and l: "root_chain_loop m d2 g nx f' fe' (count + 1) = (device', r)"
      and "\<not> eoc" for d2 f' fe'
    proof -
      have ud: "unread device d2" using u d by (rule unread_trans)
      then have same: "?F d2 = ?F device" by (simp add: unread_def)
      note ih = Suc.IH [OF unread_ok [OF ud] l]
      show ?thesis
      proof (intro conjI allI impI)
        show "unread device device'" using ih ud unread_trans by blast
        fix n assume "r = Inr n"
        then obtain cs where "fat_chain (?F device) nx cs" "n = count + 1 + length cs" using ih same by auto
        then show "\<exists>cs. fat_chain (?F device) slow cs \<and> n = count + length cs"
          using s \<open>\<not> eoc\<close> by (intro exI [of _ "slow # cs"]) (auto intro: fat_chain.fat_chain_link)
      qed
    qed
    show ?thesis
    proof (cases eoc)
      case True
      then have "device' = d1" "r = Inr (count + 1)" using Suc.prems(2) a Inr p by auto
      then show ?thesis using u s True by (auto intro!: exI [of _ "[slow]"] fat_chain.fat_chain_last)
    next
      case ne: False
      show ?thesis
      proof (cases fe)
        case True
        then have "root_chain_loop m d1 g nx fast True (count + 1) = (device', r)"
          using Suc.prems(2) a Inr p ne by simp
        then show ?thesis using step [OF unread_refl [OF unread_ok [OF u]] _ ne] by blast
      next
        case False
        obtain d2 q2 where b: "advance_fast d1 g fast = (d2, q2)" by (cases "advance_fast d1 g fast")
        note u2 = advance_fast_unread [OF unread_ok [OF u] b] and t = unread_trans [OF u]
        show ?thesis
        proof (cases q2)
          case (Inr p2)
          obtain f' fe' where p2: "p2 = (f', fe')" by (cases p2)
          have "(device' = d2 \<and> r = Inl IOS_E_CORRUPT)
              \<or> root_chain_loop m d2 g nx f' fe' (count + 1) = (device', r)"
            using Suc.prems(2) a \<open>q = Inr p\<close> p ne False b Inr p2 by (simp split: if_splits)
          then show ?thesis
          proof
            assume "device' = d2 \<and> r = Inl IOS_E_CORRUPT"
            then show ?thesis using t [OF u2] by simp
          next
            assume "root_chain_loop m d2 g nx f' fe' (count + 1) = (device', r)"
            then show ?thesis using step [OF u2 _ ne] by blast
          qed
        next
          case (Inl e)
          then show ?thesis using Suc.prems(2) a \<open>q = Inr p\<close> p ne False b t [OF u2] by auto
        qed
      qed
    qed
  qed (use Suc.prems(2) a u in auto)
qed

text \<open>The fast cursor is at twice the position of the slow one until it reaches the end.\<close>

definition fast_position :: "nat list \<Rightarrow> nat \<Rightarrow> nat \<Rightarrow> bool \<Rightarrow> bool" where
  "fast_position cs k fast fe \<longleftrightarrow> fe \<or> (2 * k < length cs \<and> fast = cs ! (2 * k))"

lemma advance_fast_complete:
  assumes rel: "reliable_reads ops" and ok: "dev_ok device" and on: "table_on_device g device"
    and st: "bd_status device \<noteq> IOS_BLOCK_DEVICE_OFFLINE" "bd_status device \<noteq> IOS_BLOCK_DEVICE_FAILED"
    and chain: "fat_chain (disk_fat (contents (bd_context device)) (g_cluster_count g)) c cs"
    and k: "2 * k < length cs"
  shows "\<exists>d f fe. advance_fast device g (cs ! (2 * k)) = (d, Inr (f, fe)) \<and> unread device d
    \<and> fast_position cs (Suc k) f fe"
proof -
  note at = fat_chain_nth [OF chain]
  from advance_complete [OF rel ok on st] at [OF k] obtain d1 where
    a: "advance device g (cs ! (2 * k)) = (d1, Inr (if Suc (2 * k) = length cs then 0
      else fat_next (disk_fat (contents (bd_context device)) (g_cluster_count g)) (cs ! (2 * k)), Suc (2 * k) = length cs))"
    and u: "unread device d1" by blast
  show ?thesis
  proof (cases "Suc (2 * k) = length cs")
    case True
    then show ?thesis using a u by (auto simp: advance_fast_def fast_position_def)
  next
    case False
    then have k1: "Suc (2 * k) < length cs" using k by simp
    have same: "contents (bd_context d1) = contents (bd_context device)" "bd_status d1 = bd_status device"
      "table_on_device g d1"
      using u on by (simp_all add: unread_def same_device_def table_on_device_def)
    from advance_complete [OF rel unread_ok [OF u] same(3), unfolded same, OF st] at [OF k1] obtain d2 where
      b: "advance d1 g (cs ! Suc (2 * k)) = (d2, Inr (if Suc (Suc (2 * k)) = length cs then 0
        else fat_next (disk_fat (contents (bd_context device)) (g_cluster_count g)) (cs ! Suc (2 * k)), Suc (Suc (2 * k)) = length cs))"
      and u2: "unread d1 d2" by blast
    show ?thesis using a b at [OF k] at [OF k1] k1 False unread_trans [OF u u2]
      by (auto simp: advance_fast_def fast_position_def)
  qed
qed

lemma root_chain_loop_complete:
  assumes rel: "reliable_reads ops" and "dev_ok device" and "table_on_device g device"
    and "bd_status device \<noteq> IOS_BLOCK_DEVICE_OFFLINE" "bd_status device \<noteq> IOS_BLOCK_DEVICE_FAILED"
    and "fat_chain (disk_fat (contents (bd_context device)) (g_cluster_count g)) c cs"
    and "k < length cs" and "length cs - k \<le> left" and "fast_position cs k fast fe"
  shows "\<exists>d. root_chain_loop left device g (cs ! k) fast fe count = (d, Inr (count + (length cs - k)))"
  using assms(2-)
proof (induction "left" arbitrary: device k fast fe count)
  case (Suc m)
  let ?fat = "disk_fat (contents (bd_context device)) (g_cluster_count g)"
  note at = fat_chain_nth [OF Suc.prems(5)]
  from advance_complete [OF rel Suc.prems(1-4)] at [OF Suc.prems(6)] obtain d1 where
    a: "advance device g (cs ! k) = (d1, Inr (if Suc k = length cs then 0 else fat_next ?fat (cs ! k), Suc k = length cs))"
    and u: "unread device d1" by blast
  show ?case
  proof (cases "Suc k = length cs")
    case False
    then have k1: "Suc k < length cs" using Suc.prems(6) by simp
    have nx: "fat_next ?fat (cs ! k) = cs ! Suc k" using at [OF Suc.prems(6)] k1 by blast
    have go: "\<exists>d. root_chain_loop m d2 g (cs ! Suc k) f' fe' (count + 1) = (d, Inr (count + (length cs - k)))"
      if un: "unread device d2" and pos: "fast_position cs (Suc k) f' fe'" for d2 f' fe'
    proof -
      have "table_on_device g d2" using un Suc.prems(2) by (simp add: unread_def same_device_def table_on_device_def)
      moreover have "length cs - Suc k \<le> m" using Suc.prems(7) by simp
      ultimately have "\<exists>d. root_chain_loop m d2 g (cs ! Suc k) f' fe' (count + 1) = (d, Inr (count + 1 + (length cs - Suc k)))"
        using Suc.prems un pos k1 by (intro Suc.IH) (auto simp: unread_def same_device_def)
      moreover have "count + 1 + (length cs - Suc k) = count + (length cs - k)" using k1 by simp
      ultimately show ?thesis by metis
    qed
    show ?thesis
    proof (cases fe)
      case True
      then show ?thesis using a nx False go [OF u, of fast True] by (simp add: fast_position_def)
    next
      case nfe: False
      then have f: "2 * k < length cs" "fast = cs ! (2 * k)" using Suc.prems(8) by (auto simp: fast_position_def)
      have same: "contents (bd_context d1) = contents (bd_context device)" "bd_status d1 = bd_status device"
        "table_on_device g d1"
        using u Suc.prems(2) by (simp_all add: unread_def same_device_def table_on_device_def)
      from advance_fast_complete [OF rel unread_ok [OF u] same(3), unfolded same, OF Suc.prems(3-5) f(1)]
      obtain d2 f' fe' where b: "advance_fast d1 g fast = (d2, Inr (f', fe'))" and u2: "unread d1 d2"
        and pos: "fast_position cs (Suc k) f' fe'" unfolding f(2) by blast
      have "\<not> (\<not> fe' \<and> cs ! Suc k = f')"
        using pos fat_chain_distinct [OF Suc.prems(5)] k1 by (auto simp: fast_position_def nth_eq_iff_index_eq)
      then show ?thesis using a nx False nfe b go [OF unread_trans [OF u u2] pos] by auto
    qed
  qed (use a in auto)
qed simp

lemma validate_root_chain_sound:
  assumes ok: "dev_ok device" and r: "ios_fs_validate_root_chain device g = (device', r)"
  shows "unread device device'" and "r = Inr n \<Longrightarrow>
    (\<forall>i \<in> {0..<IOS_FS_ROOT_CLUSTER}. reserved_entry_ok (contents (bd_context device) IOS_FS_SUPERBLOCK_SECTORS) i)
    \<and> (\<exists>cs. fat_chain (disk_fat (contents (bd_context device)) (g_cluster_count g)) IOS_FS_ROOT_CLUSTER cs \<and> length cs = n)"
proof -
  obtain d1 q where rd: "block_device_read device IOS_FS_SUPERBLOCK_SECTORS 1 = (d1, q)"
    by (cases "block_device_read device IOS_FS_SUPERBLOCK_SECTORS 1")
  note u = device_read_unread [OF ok rd]
  obtain d2 q2 where l: "root_chain_loop (g_cluster_count g) d1 g IOS_FS_ROOT_CLUSTER IOS_FS_ROOT_CLUSTER False 0 = (d2, q2)"
    by (cases "root_chain_loop (g_cluster_count g) d1 g IOS_FS_ROOT_CLUSTER IOS_FS_ROOT_CLUSTER False 0")
  note ls = root_chain_loop_sound [OF unread_ok [OF u] l]
  show "unread device device'"
    using r rd l unread_refl [OF ok] u unread_trans [OF u] ls
    by (auto simp: ios_fs_validate_root_chain_def validate_reserved_entries_def split: if_splits sum.splits)
  assume rn: "r = Inr n"
  then obtain sector where q: "q = Inr sector" "\<forall>i \<in> {0..<IOS_FS_ROOT_CLUSTER}. reserved_entry_ok sector i" "q2 = Inr n"
    using r rd l
    by (auto simp: ios_fs_validate_root_chain_def validate_reserved_entries_def split: if_splits sum.splits)
  moreover have "sector = contents (bd_context device) IOS_FS_SUPERBLOCK_SECTORS"
    using device_read_data [OF ok, of _ 1] rd q(1) by simp
  ultimately show "(\<forall>i \<in> {0..<IOS_FS_ROOT_CLUSTER}. reserved_entry_ok (contents (bd_context device) IOS_FS_SUPERBLOCK_SECTORS) i)
    \<and> (\<exists>cs. fat_chain (disk_fat (contents (bd_context device)) (g_cluster_count g)) IOS_FS_ROOT_CLUSTER cs \<and> length cs = n)"
    using ls u by (auto simp: unread_def)
qed

lemma validate_root_chain_complete:
  assumes rel: "reliable_reads ops" and ok: "dev_ok device" and on: "table_on_device g device"
    and st: "bd_status device \<noteq> IOS_BLOCK_DEVICE_OFFLINE" "bd_status device \<noteq> IOS_BLOCK_DEVICE_FAILED"
    and res: "\<forall>i \<in> {0..<IOS_FS_ROOT_CLUSTER}. reserved_entry_ok (contents (bd_context device) IOS_FS_SUPERBLOCK_SECTORS) i"
    and chain: "fat_chain (disk_fat (contents (bd_context device)) (g_cluster_count g)) IOS_FS_ROOT_CLUSTER cs"
  shows "\<exists>d. ios_fs_validate_root_chain device g = (d, Inr (length cs))"
proof -
  have "IOS_FS_SUPERBLOCK_SECTORS < bd_sector_count device"
  proof -
    have "IOS_FS_SUPERBLOCK_SECTORS < g_registry_start_sector g"
      using on unfolding table_on_device_def by (cases "g_registry_start_sector g \<le> 2") auto
    then show ?thesis using on by (simp add: table_on_device_def)
  qed
  from reliable_read [OF rel ok st this] obtain d1 where
    rd: "block_device_read device IOS_FS_SUPERBLOCK_SECTORS 1 = (d1, Inr (contents (bd_context device) IOS_FS_SUPERBLOCK_SECTORS))"
    and u: "unread device d1" .
  have c0: "cs ! 0 = IOS_FS_ROOT_CLUSTER" "0 < length cs" using fat_chain_hd [OF chain] by (auto simp: hd_conv_nth)
  have len: "length cs - 0 \<le> g_cluster_count g" using fat_chain_length_data [OF chain] by simp
  have pos: "fast_position cs 0 (cs ! 0) False" using c0 by (simp add: fast_position_def)
  have same: "contents (bd_context d1) = contents (bd_context device)" "bd_status d1 = bd_status device"
    "table_on_device g d1"
    using u on by (simp_all add: unread_def same_device_def table_on_device_def)
  from root_chain_loop_complete [OF rel unread_ok [OF u] same(3), unfolded same, OF st chain c0(2) len pos, of 0]
  obtain d where "root_chain_loop (g_cluster_count g) d1 g IOS_FS_ROOT_CLUSTER IOS_FS_ROOT_CLUSTER False 0 = (d, Inr (length cs))"
    using c0 by auto
  then show ?thesis
    using rd res on by (auto simp: ios_fs_validate_root_chain_def validate_reserved_entries_def table_on_device_def)
qed

end

section \<open>What the probe decides\<close>

text \<open>A superblock copy the probe trusts, and a root the probe trusts, as facts of the medium.\<close>

definition superblock_trusted :: "bytes \<Rightarrow> nat \<Rightarrow> nat \<Rightarrow> bool" where
  "superblock_trusted disk sector_size sector_count \<longleftrightarrow>
     (\<exists>sb g. ios_fs_superblock_decode disk = Inr sb \<and> ios_fs_calculate_geometry sector_size sector_count = Inr g
        \<and> unat (sb_total_sectors sb) = sector_count \<and> unat (sb_sectors_per_fat sb) = g_fat_sectors g
        \<and> unat (sb_registry_start_sector sb) = g_registry_start_sector g)"

definition root_trusted :: "(nat \<Rightarrow> bytes) \<Rightarrow> nat \<Rightarrow> bool" where
  "root_trusted medium cluster_count \<longleftrightarrow>
     (\<forall>i \<in> {0..<IOS_FS_ROOT_CLUSTER}. reserved_entry_ok (medium IOS_FS_SUPERBLOCK_SECTORS) i)
     \<and> (\<exists>cs. fat_chain (disk_fat medium cluster_count) IOS_FS_ROOT_CLUSTER cs)"

lemma superblock_bounds_iff:
  "fst (superblock_bounds (ios_fs_superblock_decode disk) device g0)
     \<longleftrightarrow> superblock_trusted disk (bd_logical_sector_size device) (bd_sector_count device)"
  by (auto simp: superblock_bounds_def geometry_matches_def superblock_trusted_def split: sum.splits if_splits)

lemma superblock_bounds_geometry:
  assumes "fst (superblock_bounds status device g0)"
  shows "ios_fs_calculate_geometry (bd_logical_sector_size device) (bd_sector_count device)
     = Inr (snd (superblock_bounds status device g0))"
  using assms by (auto simp: superblock_bounds_def geometry_matches_def split: sum.splits if_splits)

text \<open>The geometry after both copies have been looked at.\<close>

lemma probe_geometry:
  assumes "superblock_bounds s1 device g0 = (b1, g1)" and "superblock_bounds s2 device g1 = (b2, g2)" and "b1 \<or> b2"
  shows "ios_fs_calculate_geometry (bd_logical_sector_size device) (bd_sector_count device) = Inr g2"
  using assms by (auto simp: superblock_bounds_def geometry_matches_def split: sum.splits if_splits)

lemma state_report_set [simp]:
  "vm_state (fm_vfs (ios_fs_mount_report_set m reason t b)) = state_for_reason reason"
  "rp_reason (fm_report (ios_fs_mount_report_set m reason t b)) = reason"
  "fm_superblock (ios_fs_mount_report_set m reason t b) = fm_superblock m"
  "fm_geometry (ios_fs_mount_report_set m reason t b) = fm_geometry m"
  by (simp_all add: ios_fs_mount_report_set_def Let_def)

context block_driver
begin

text \<open>The probe after its two reads, with the medium's sectors in place of the buffers.\<close>

definition decided_state :: "'d ios_block_device \<Rightarrow> bool \<Rightarrow> ios_mount_state" where
  "decided_state device root =
     (let trusted = (\<lambda>i. superblock_trusted (contents (bd_context device) i)
                           (bd_logical_sector_size device) (bd_sector_count device))
      in if \<not> (trusted 0 \<or> trusted 1) \<or> \<not> root then IOS_MOUNT_REJECTED
         else if trusted 0 \<and> trusted 1 \<and> contents (bd_context device) 0 = contents (bd_context device) 1
         then IOS_MOUNT_RW else IOS_MOUNT_DIAGNOSTIC)"

lemma probe_after_reads:
  assumes ok: "dev_ok device"
    and sz: "bd_logical_sector_size device = IOS_FS_SECTOR_SIZE"
      "IOS_FS_MINIMUM_VOLUME_BYTES div IOS_FS_SECTOR_SIZE \<le> bd_sector_count device"
    and r0: "block_device_read device 0 1 = (d1, Inr p)" and r1: "block_device_read d1 1 1 = (d2, Inr b)"
    and probe: "ios_fs_mount_probe null device = (device', m, r)"
  shows "unread device device'"
    and "\<exists>root. vm_state (fm_vfs m) = decided_state device root \<and>
      (\<forall>g. ios_fs_calculate_geometry (bd_logical_sector_size device) (bd_sector_count device) = Inr g \<longrightarrow>
         root = IOS_SUCCEEDED (snd (ios_fs_validate_root_chain d2 g)))"
    and "vm_state (fm_vfs m) = IOS_MOUNT_RW \<Longrightarrow> ios_fs_superblock_decode (contents (bd_context device) 0) = Inr (fm_superblock m)
      \<and> ios_fs_calculate_geometry (bd_logical_sector_size device) (bd_sector_count device) = Inr (fm_geometry m)
      \<and> r = Inr ()"
proof -
  note u1 = device_read_unread [OF ok r0]
  note u2 = unread_trans [OF u1 device_read_unread [OF unread_ok [OF u1] r1]]
  let ?c = "contents (bd_context device)"
  have data: "p = ?c 0" "b = ?c 1"
    using device_read_data [OF ok r0] device_read_data [OF unread_ok [OF u1] r1] u1 by (auto simp: unread_def)
  have dev: "bd_logical_sector_size d2 = bd_logical_sector_size device" "bd_sector_count d2 = bd_sector_count device"
    using u2 by (simp_all add: unread_def same_device_def)
  obtain b1 g1 where sb1: "superblock_bounds (ios_fs_superblock_decode (?c 0)) d2 zero_geometry = (b1, g1)" by fastforce
  obtain b2 g2 where sb2: "superblock_bounds (ios_fs_superblock_decode (?c 1)) d2 g1 = (b2, g2)" by fastforce
  have t: "b1 = superblock_trusted (?c 0) (bd_logical_sector_size device) (bd_sector_count device)"
    "b2 = superblock_trusted (?c 1) (bd_logical_sector_size device) (bd_sector_count device)"
    using superblock_bounds_iff [of "?c 0" d2 zero_geometry] superblock_bounds_iff [of "?c 1" d2 g1] sb1 sb2 dev by simp_all
  have geo: "ios_fs_calculate_geometry (bd_logical_sector_size device) (bd_sector_count device) = Inr g2" if "b1 \<or> b2"
    using probe_geometry [OF sb1 sb2 that] dev by simp
  have ds: "decided_state device root = (if \<not> (b1 \<or> b2) \<or> \<not> root then IOS_MOUNT_REJECTED
      else if b1 \<and> b2 \<and> ?c 0 = ?c 1 then IOS_MOUNT_RW else IOS_MOUNT_DIAGNOSTIC)" for root
    by (simp add: decided_state_def t)
  obtain d3 q where root: "ios_fs_validate_root_chain d2 g2 = (d3, q)" by (cases "ios_fs_validate_root_chain d2 g2")
  note u3 = unread_trans [OF u2 validate_root_chain_sound(1) [OF unread_ok [OF u2] root]]
  note unf = ios_fs_mount_probe_def Let_def r0 r1 data sb1 sb2 root
  have z: "fm_geometry (fresh_mount null) = zero_geometry" by (simp add: fresh_mount_def)
  show "unread device device'"
    using probe sz u2 u3 by (auto simp: unf z simp del: One_nat_def split: if_splits sum.splits)
  have dec: "b1 \<Longrightarrow> \<exists>sb. ios_fs_superblock_decode (?c 0) = Inr sb" "b2 \<Longrightarrow> \<exists>sb. ios_fs_superblock_decode (?c 1) = Inr sb"
    unfolding t superblock_trusted_def by blast+
  have pair: "b1 \<Longrightarrow> b2 \<Longrightarrow> ios_fs_superblock_classify_pair (?c 0) (?c 1) = IOS_FS_SUPERBLOCK_PAIR_READ_WRITE \<longleftrightarrow> ?c 0 = ?c 1"
    using dec by (auto simp: ios_fs_superblock_classify_pair_def)
  have st: "vm_state (fm_vfs m) = decided_state device (IOS_SUCCEEDED q)"
    using probe sz pair
    by (cases q; cases b1; cases b2) (auto simp: unf z ds simp del: One_nat_def split: if_splits)
  show "\<exists>root. vm_state (fm_vfs m) = decided_state device root \<and>
      (\<forall>g. ios_fs_calculate_geometry (bd_logical_sector_size device) (bd_sector_count device) = Inr g \<longrightarrow>
         root = IOS_SUCCEEDED (snd (ios_fs_validate_root_chain d2 g)))"
  proof (cases "b1 \<or> b2")
    case True
    then show ?thesis using st geo root by auto
  next
    case False
    then show ?thesis
      using st by (cases "ios_fs_calculate_geometry (bd_logical_sector_size device) (bd_sector_count device)")
        (auto simp: ds simp del: One_nat_def)
  qed
  assume rw: "vm_state (fm_vfs m) = IOS_MOUNT_RW"
  then have b: "b1" "b2" "\<exists>n. q = Inr n" "?c 0 = ?c 1"
    using st by (auto simp: ds IOS_SUCCEEDED_iff simp del: One_nat_def split: if_splits)
  then obtain n where q: "q = Inr n" by blast
  have rw_pair: "ios_fs_superblock_classify_pair (?c 0) (?c 1) = IOS_FS_SUPERBLOCK_PAIR_READ_WRITE"
    using pair b by blast
  have "fm_superblock m = projr (ios_fs_superblock_decode (?c 0)) \<and> fm_geometry m = g2 \<and> r = Inr ()"
    using probe sz b(1,2) q rw_pair by (auto simp: unf z simp del: One_nat_def split: if_splits)
  then show "ios_fs_superblock_decode (?c 0) = Inr (fm_superblock m)
      \<and> ios_fs_calculate_geometry (bd_logical_sector_size device) (bd_sector_count device) = Inr (fm_geometry m)
      \<and> r = Inr ()"
    using b geo dec by auto
qed

lemma probe_device_geometry:
  assumes "dev_ok device" and "bd_logical_sector_size device \<noteq> IOS_FS_SECTOR_SIZE
      \<or> \<not> IOS_FS_MINIMUM_VOLUME_BYTES div IOS_FS_SECTOR_SIZE \<le> bd_sector_count device"
    and "ios_fs_mount_probe null device = (device', m, r)"
  shows "device' = device" and "vm_state (fm_vfs m) = IOS_MOUNT_REJECTED"
    and "ios_fs_calculate_geometry (bd_logical_sector_size device) (bd_sector_count device) \<noteq> Inr g"
  using assms by (auto simp: ios_fs_mount_probe_def Let_def ios_fs_calculate_geometry_def split: if_splits)

lemma probe_rw:
  assumes ok: "dev_ok device" and probe: "ios_fs_mount_probe null device = (device', m, r)"
    and rw: "vm_state (fm_vfs m) = IOS_MOUNT_RW"
  shows "unread device device'"
    and "ios_fs_superblock_decode (contents (bd_context device) 0) = Inr (fm_superblock m)"
    and "ios_fs_calculate_geometry (bd_logical_sector_size device) (bd_sector_count device) = Inr (fm_geometry m)"
    and "superblock_trusted (contents (bd_context device) 0) (bd_logical_sector_size device) (bd_sector_count device)"
    and "contents (bd_context device) 1 = contents (bd_context device) 0"
    and "root_trusted (contents (bd_context device)) (g_cluster_count (fm_geometry m))" and "r = Inr ()"
proof -
  have sz: "bd_logical_sector_size device = IOS_FS_SECTOR_SIZE"
    "IOS_FS_MINIMUM_VOLUME_BYTES div IOS_FS_SECTOR_SIZE \<le> bd_sector_count device"
    using probe_device_geometry(2) [OF ok _ probe] rw by auto
  obtain d1 q1 where r0: "block_device_read device 0 1 = (d1, q1)" by (cases "block_device_read device 0 1")
  obtain d2 q2 where r1: "block_device_read d1 1 1 = (d2, q2)" by (cases "block_device_read d1 1 1")
  obtain p b where q: "q1 = Inr p" "q2 = Inr b"
    using probe sz r0 r1 rw
    by (cases q1; cases q2) (auto simp: ios_fs_mount_probe_def Let_def simp del: One_nat_def split: if_splits)
  note after = probe_after_reads [OF ok sz r0 [unfolded q] r1 [unfolded q] probe]
  show "unread device device'" by (rule after)
  show dec: "ios_fs_superblock_decode (contents (bd_context device) 0) = Inr (fm_superblock m)"
    and geo: "ios_fs_calculate_geometry (bd_logical_sector_size device) (bd_sector_count device) = Inr (fm_geometry m)"
    and "r = Inr ()"
    using after(3) [OF rw] by blast+
  from after(2) geo obtain root where st: "vm_state (fm_vfs m) = decided_state device root"
    "root = IOS_SUCCEEDED (snd (ios_fs_validate_root_chain d2 (fm_geometry m)))" by blast
  show "superblock_trusted (contents (bd_context device) 0) (bd_logical_sector_size device) (bd_sector_count device)"
    and "contents (bd_context device) 1 = contents (bd_context device) 0"
    using st rw by (auto simp: decided_state_def Let_def split: if_splits)
  obtain d3 n where root: "ios_fs_validate_root_chain d2 (fm_geometry m) = (d3, Inr n)"
    using st rw by (cases "ios_fs_validate_root_chain d2 (fm_geometry m)")
      (auto simp: decided_state_def Let_def IOS_SUCCEEDED_iff split: if_splits)
  note u1 = device_read_unread [OF ok r0]
  note u2 = unread_trans [OF u1 device_read_unread [OF unread_ok [OF u1] r1]]
  show "root_trusted (contents (bd_context device)) (g_cluster_count (fm_geometry m))"
    using validate_root_chain_sound(2) [OF unread_ok [OF u2] root] u2 by (auto simp: root_trusted_def unread_def)
qed

lemma probe_decides:
  assumes rel: "reliable_reads ops" and ok: "dev_ok device" and st: "bd_status device = IOS_BLOCK_DEVICE_READY"
    and max: "bd_sector_count device \<le> UINT64_MAX"
    and geo: "ios_fs_calculate_geometry (bd_logical_sector_size device) (bd_sector_count device) = Inr g"
    and probe: "ios_fs_mount_probe null device = (device', m, r)"
  shows "vm_state (fm_vfs m) = decided_state device (root_trusted (contents (bd_context device)) (g_cluster_count g))"
proof -
  have sz: "bd_logical_sector_size device = IOS_FS_SECTOR_SIZE"
    "IOS_FS_MINIMUM_VOLUME_BYTES div IOS_FS_SECTOR_SIZE \<le> bd_sector_count device"
    using geometry_Inr(1,2) [OF geo max] by simp_all
  then have big: "0 < bd_sector_count device" "1 < bd_sector_count device" by simp_all
  have live: "bd_status device \<noteq> IOS_BLOCK_DEVICE_OFFLINE" "bd_status device \<noteq> IOS_BLOCK_DEVICE_FAILED"
    using st by simp_all
  obtain d1 where r0: "block_device_read device 0 1 = (d1, Inr (contents (bd_context device) 0))" and u1: "unread device d1"
    using reliable_read [OF rel ok live big(1)] by blast
  have s1: "bd_status d1 = bd_status device" "bd_sector_count d1 = bd_sector_count device"
    using u1 by (simp_all add: unread_def same_device_def)
  obtain d2 where r1: "block_device_read d1 1 1 = (d2, Inr (contents (bd_context d1) 1))" and v: "unread d1 d2"
    using reliable_read [OF rel unread_ok [OF u1], of 1] live big(2) s1 by auto
  note u2 = unread_trans [OF u1 v]
  from probe_after_reads(2) [OF ok sz r0 r1 probe] geo obtain root where
    root: "vm_state (fm_vfs m) = decided_state device root" "root = IOS_SUCCEEDED (snd (ios_fs_validate_root_chain d2 g))"
    by blast
  have s2: "contents (bd_context d2) = contents (bd_context device)" "bd_status d2 = bd_status device"
    "table_on_device g d2"
    using u2 geometry_table_on_device [OF geo max] by (simp_all add: unread_def same_device_def table_on_device_def)
  obtain d3 q where c: "ios_fs_validate_root_chain d2 g = (d3, q)" by (cases "ios_fs_validate_root_chain d2 g")
  have "(\<exists>n. q = Inr n) \<longleftrightarrow> root_trusted (contents (bd_context device)) (g_cluster_count g)"
  proof
    assume "\<exists>n. q = Inr n"
    then show "root_trusted (contents (bd_context device)) (g_cluster_count g)"
      using validate_root_chain_sound(2) [OF unread_ok [OF u2] c] s2 by (auto simp: root_trusted_def)
  next
    assume "root_trusted (contents (bd_context device)) (g_cluster_count g)"
    then show "\<exists>n. q = Inr n"
      using validate_root_chain_complete [OF rel unread_ok [OF u2] s2(3)] s2 live c by (auto simp: root_trusted_def)
  qed
  then show ?thesis using root c by (simp add: IOS_SUCCEEDED_iff)
qed

end

section \<open>A formatted volume\<close>

lemma initial_fat_entries:
  "read_u32 (field_at 0 4 initial_fat_sector) = IOS_FS_FAT_END_OF_CHAIN"
  "read_u32 (field_at 4 4 initial_fat_sector) = IOS_FS_FAT_END_OF_CHAIN"
  "read_u32 (field_at 8 4 initial_fat_sector) = IOS_FS_FAT_END_OF_CHAIN"
  by (simp_all add: field_at_def initial_fat_sector_def)

lemma formatted_root_trusted:
  assumes "0 < g_cluster_count g"
  shows "root_trusted (formatted_medium f g sb) (g_cluster_count g)"
proof -
  have at: "formatted_medium f g sb IOS_FS_SUPERBLOCK_SECTORS = initial_fat_sector" by (simp add: formatted_medium_def)
  have "reserved_entry_ok initial_fat_sector i" if "i \<in> {0..<IOS_FS_ROOT_CLUSTER}" for i
    using that initial_fat_entries
    by (auto simp: reserved_entry_ok_def ios_fs_fat_entry_decode_def less_2_cases_iff)
  moreover have "disk_fat (formatted_medium f g sb) (g_cluster_count g) ! IOS_FS_ROOT_CLUSTER = IOS_FS_FAT_END_OF_CHAIN"
    using assms nth_disk_fat [of IOS_FS_ROOT_CLUSTER] by (simp add: at initial_fat_entries)
  then have "fat_chain (disk_fat (formatted_medium f g sb) (g_cluster_count g)) IOS_FS_ROOT_CLUSTER [IOS_FS_ROOT_CLUSTER]"
    using assms by (intro fat_chain.fat_chain_last) (auto simp: valid_cluster_def)
  ultimately show ?thesis using at by (auto simp: root_trusted_def)
qed

context block_driver
begin

lemma format_mounts:
  assumes rel: "reliable_operations ops" "reliable_reads ops" and dev: "dev_ok dev"
    and ready: "bd_status dev = IOS_BLOCK_DEVICE_READY"
    and geo: "ios_fs_calculate_geometry (bd_logical_sector_size dev) (bd_sector_count dev) = Inr g"
    and max: "bd_sector_count dev \<le> UINT64_MAX" and label: "length label = 11" "valid_label label"
  shows "\<exists>dev' dev'' m. ios_fs_format dev serial label = (dev', Inr g) \<and> dev_ok dev'
    \<and> same_device dev' dev
    \<and> ios_fs_mount_probe null dev' = (dev'', m, Inr ()) \<and> vm_state (fm_vfs m) = IOS_MOUNT_RW
    \<and> fm_geometry m = g \<and> sb_volume_serial (fm_superblock m) = serial \<and> sb_volume_label (fm_superblock m) = label"
proof -
  obtain dev' where fmt: "ios_fs_format dev serial label = (dev', Inr g)"
    using format_total [OF rel(1) dev ready geo max label] by blast
  obtain sb where sb: "ios_fs_superblock_encode \<lparr>sb_total_sectors = of_nat (g_total_sectors g),
      sb_sectors_per_fat = of_nat (g_fat_sectors g), sb_registry_start_sector = of_nat (g_registry_start_sector g),
      sb_volume_serial = serial, sb_flags = 0, sb_volume_label = label\<rparr> = Inr sb"
    and dev': "dev_ok dev'" "bd_sector_count dev' = bd_sector_count dev"
      "bd_logical_sector_size dev' = bd_logical_sector_size dev" "bd_status dev' = IOS_BLOCK_DEVICE_READY"
    and med: "contents (bd_context dev') = formatted_medium (contents (bd_context dev)) g sb"
    using format_contents [OF dev fmt label(1) max] by blast
  note g = geometry_Inr [OF geo max]
  have dec: "ios_fs_superblock_decode sb = Inr \<lparr>sb_total_sectors = of_nat (g_total_sectors g),
      sb_sectors_per_fat = of_nat (g_fat_sectors g), sb_registry_start_sector = of_nat (g_registry_start_sector g),
      sb_volume_serial = serial, sb_flags = 0, sb_volume_label = label\<rparr>"
    using superblock_decode_encode(1) [OF _ sb] label(1) by simp
  have "g_fat_sectors g \<le> 2097153" using fat_sectors_bound [OF geo max] .
  then have "unat (of_nat (g_registry_start_sector g) :: u64) = g_registry_start_sector g" "unat (of_nat (g_fat_sectors g) :: u32) = g_fat_sectors g"
    using g(4) by (intro unat_of_nat_64 unat_of_nat_32; simp)+
  then have trusted: "superblock_trusted sb (bd_logical_sector_size dev) (bd_sector_count dev)"
    using dec geo max g(3) unfolding superblock_trusted_def by (simp add: unat_of_nat_64)
  obtain dev'' m r where probe: "ios_fs_mount_probe null dev' = (dev'', m, r)"
    by (cases "ios_fs_mount_probe null dev'") auto
  have "vm_state (fm_vfs m) = IOS_MOUNT_RW"
    using probe_decides [OF rel(2) dev'(1,4) _ _ probe] geo max dev' med trusted
      formatted_root_trusted [OF g(8)]
    by (auto simp: decided_state_def Let_def formatted_medium_def)
  note rw = this probe_rw [OF dev'(1) probe this]
  have "fm_superblock m = \<lparr>sb_total_sectors = of_nat (g_total_sectors g),
      sb_sectors_per_fat = of_nat (g_fat_sectors g), sb_registry_start_sector = of_nat (g_registry_start_sector g),
      sb_volume_serial = serial, sb_flags = 0, sb_volume_label = label\<rparr>"
    using rw(3) dec med by (simp add: formatted_medium_def)
  then show ?thesis using fmt probe rw dev' geo by (simp add: same_device_def ready)
qed

end

section \<open>Properties\<close>

text \<open>The two-speed walk that checks the root directory on disk accepts a volume with \<open>n\<close>
  clusters exactly when the two reserved entries are end marks and the root cluster begins a
  chain of \<open>n\<close> distinct clusters in the table the medium holds: a cycle, a link out of range, a
  free, bad or reserved entry is always found, and no well-formed chain is refused.\<close>
theorem root_chain_exact:
  assumes "block_driver ops contents ok" and "reliable_reads ops" and "bd_operations dev = ops"
    and "ok (bd_context dev)" and "bd_status dev = IOS_BLOCK_DEVICE_READY" and "table_on_device g dev"
  shows "(\<exists>dev'. ios_fs_validate_root_chain dev g = (dev', Inr n)) \<longleftrightarrow>
    (\<forall>i \<in> {0..<IOS_FS_ROOT_CLUSTER}. reserved_entry_ok (contents (bd_context dev) IOS_FS_SUPERBLOCK_SECTORS) i)
    \<and> (\<exists>cs. fat_chain (disk_fat (contents (bd_context dev)) (g_cluster_count g)) IOS_FS_ROOT_CLUSTER cs \<and> length cs = n)"
proof -
  have dev: "block_driver.dev_ok ops ok dev" using assms(3,4) by (simp add: block_driver.dev_ok_def [OF assms(1)])
  show ?thesis
    using block_driver.validate_root_chain_sound(2) [OF assms(1) dev]
      block_driver.validate_root_chain_complete [OF assms(1,2) dev assms(6)] assms(5) by auto
qed

text \<open>C2: A volume is mounted read-write only when both superblock copies on the medium are the
  same bytes, that copy decodes and describes exactly this device's geometry, and the root
  chain is well formed, whatever errors the device reports on the way; probing changes nothing
  on the medium.\<close>
theorem mount_read_write_sound:
  assumes "block_driver ops contents ok" and "bd_operations dev = ops" and "ok (bd_context dev)"
    and "ios_fs_mount_probe null dev = (dev', m, r)" and "vm_state (fm_vfs m) = IOS_MOUNT_RW"
  shows "ios_fs_superblock_decode (contents (bd_context dev) 0) = Inr (fm_superblock m)
    \<and> contents (bd_context dev) 1 = contents (bd_context dev) 0
    \<and> ios_fs_calculate_geometry (bd_logical_sector_size dev) (bd_sector_count dev) = Inr (fm_geometry m)
    \<and> superblock_trusted (contents (bd_context dev) 0) (bd_logical_sector_size dev) (bd_sector_count dev)
    \<and> root_trusted (contents (bd_context dev)) (g_cluster_count (fm_geometry m))
    \<and> r = Inr () \<and> contents (bd_context dev') = contents (bd_context dev)"
proof -
  have dev: "block_driver.dev_ok ops ok dev" using assms(2,3) by (simp add: block_driver.dev_ok_def [OF assms(1)])
  note rw = block_driver.probe_rw [OF assms(1) dev assms(4,5)]
  then show ?thesis by (simp add: block_driver.unread_def [OF assms(1)])
qed

text \<open>On a device whose reads succeed the probe decides by the medium alone: no trusted
  superblock copy or an unsound root chain rejects the volume, two identical trusted copies
  give a read-write mount, every other case a diagnostic one.\<close>
theorem mount_probe_exact:
  assumes "block_driver ops contents ok" and "reliable_reads ops" and "bd_operations dev = ops"
    and "ok (bd_context dev)" and "bd_status dev = IOS_BLOCK_DEVICE_READY" and "bd_sector_count dev \<le> UINT64_MAX"
    and "ios_fs_calculate_geometry (bd_logical_sector_size dev) (bd_sector_count dev) = Inr g"
    and "ios_fs_mount_probe null dev = (dev', m, r)"
  shows "vm_state (fm_vfs m) =
    (let trusted = (\<lambda>i. superblock_trusted (contents (bd_context dev) i) (bd_logical_sector_size dev) (bd_sector_count dev))
     in if \<not> (trusted 0 \<or> trusted 1) \<or> \<not> root_trusted (contents (bd_context dev)) (g_cluster_count g) then IOS_MOUNT_REJECTED
        else if trusted 0 \<and> trusted 1 \<and> contents (bd_context dev) 0 = contents (bd_context dev) 1 then IOS_MOUNT_RW
        else IOS_MOUNT_DIAGNOSTIC)"
proof -
  have dev: "block_driver.dev_ok ops ok dev" using assms(3,4) by (simp add: block_driver.dev_ok_def [OF assms(1)])
  show ?thesis
    using block_driver.probe_decides [OF assms(1,2) dev assms(5-8)]
    by (simp only: block_driver.decided_state_def [OF assms(1)])
qed


section \<open>Witnesses\<close>

lemma plain_reliable: "reliable_operations plain_operations" "reliable_reads plain_operations"
  by (simp_all add: reliable_operations_def reliable_reads_def plain_operations_def)

lemma plain_dev_ok:
  "block_driver.dev_ok plain_operations (\<lambda>d. \<forall>s. length (d s) = IOS_BLOCK_SECTOR_SIZE) dev \<longleftrightarrow>
     bd_operations dev = plain_operations \<and> (\<forall>s. length (bd_context dev s) = IOS_BLOCK_SECTOR_SIZE)"
  by (rule block_driver.dev_ok_def [OF plain_driver])

lemma sample_mounted:
  obtains g dev dev' m where "bd_operations dev = plain_operations" and "\<forall>s. length (bd_context dev s) = IOS_BLOCK_SECTOR_SIZE"
    and "same_device dev plain_device"
    and "ios_fs_calculate_geometry (bd_logical_sector_size dev) (bd_sector_count dev) = Inr g"
    and "ios_fs_mount_probe () dev = (dev', m, Inr ())" and "vm_state (fm_vfs m) = IOS_MOUNT_RW"
proof -
  obtain g where g: "ios_fs_calculate_geometry IOS_FS_SECTOR_SIZE 97656250 = Inr g" using sample_geometry by blast
  have "block_driver.dev_ok plain_operations (\<lambda>d. \<forall>s. length (d s) = IOS_BLOCK_SECTOR_SIZE) plain_device"
    by (simp add: plain_dev_ok plain_device_def)
  from block_driver.format_mounts [OF plain_driver plain_reliable this, of g "replicate 11 0x41" 7 "()"] g
  show thesis using that by (auto simp: plain_device_def valid_label_def plain_dev_ok same_device_def)
qed

lemma sample_table:
  obtains g where "table_on_device g plain_device" and "0 < g_cluster_count g"
  using sample_geometry geometry_table_on_device [of _ plain_device]
  by (auto simp: plain_device_def table_on_device_def)

theorem root_chain_exact_witness:
  "\<exists>g dev'. ios_fs_validate_root_chain
     (plain_device\<lparr>bd_context := formatted_medium (\<lambda>_. replicate 512 0) g (replicate 512 0)\<rparr>) g = (dev', Inr 1)"
proof -
  obtain g where g: "table_on_device g plain_device" "0 < g_cluster_count g" by (rule sample_table)
  let ?m = "formatted_medium (\<lambda>_. replicate 512 0) g (replicate 512 0)"
  let ?d = "plain_device\<lparr>bd_context := ?m\<rparr>"
  have len: "\<forall>s. length (?m s) = IOS_BLOCK_SECTOR_SIZE" by (simp add: formatted_medium_def length_initial_fat_sector)
  have "disk_fat ?m (g_cluster_count g) ! IOS_FS_ROOT_CLUSTER = IOS_FS_FAT_END_OF_CHAIN"
    using g(2) nth_disk_fat [of IOS_FS_ROOT_CLUSTER] by (simp add: formatted_medium_def initial_fat_entries)
  then have "fat_chain (disk_fat ?m (g_cluster_count g)) IOS_FS_ROOT_CLUSTER [IOS_FS_ROOT_CLUSTER]"
    using g(2) by (intro fat_chain.fat_chain_last) (auto simp: valid_cluster_def)
  moreover have "\<forall>i \<in> {0..<IOS_FS_ROOT_CLUSTER}. reserved_entry_ok (?m IOS_FS_SUPERBLOCK_SECTORS) i"
    using formatted_root_trusted [OF g(2)] unfolding root_trusted_def by blast
  ultimately have "(\<exists>dev'. ios_fs_validate_root_chain ?d g = (dev', Inr 1))"
    using root_chain_exact [OF plain_driver plain_reliable(2), of ?d g 1] len g(1)
    by (auto simp: plain_device_def table_on_device_def intro!: exI [of _ "[IOS_FS_ROOT_CLUSTER]"])
  then show ?thesis by blast
qed

theorem mount_read_write_sound_witness:
  "\<exists>dev dev' m. ios_fs_mount_probe () dev = (dev', m, Inr ()) \<and> bd_context dev 1 = bd_context dev 0
     \<and> root_trusted (bd_context dev) (g_cluster_count (fm_geometry m))"
proof -
  obtain g dev dev' m where d: "bd_operations dev = plain_operations" "\<forall>s. length (bd_context dev s) = IOS_BLOCK_SECTOR_SIZE"
    and p: "ios_fs_mount_probe () dev = (dev', m, Inr ())" "vm_state (fm_vfs m) = IOS_MOUNT_RW" by (rule sample_mounted)
  from mount_read_write_sound [OF plain_driver d p] p(1) show ?thesis by blast
qed

theorem mount_probe_exact_witness:
  "\<exists>(dev :: (nat \<Rightarrow> bytes) ios_block_device) dev' m r. ios_fs_mount_probe () dev = (dev', m, r)
     \<and> superblock_trusted (bd_context dev 0) (bd_logical_sector_size dev) (bd_sector_count dev)"
proof -
  obtain g dev dev' m where d: "bd_operations dev = plain_operations" "\<forall>s. length (bd_context dev s) = IOS_BLOCK_SECTOR_SIZE"
    and s: "same_device dev plain_device"
    and g: "ios_fs_calculate_geometry (bd_logical_sector_size dev) (bd_sector_count dev) = Inr g"
    and p: "ios_fs_mount_probe () dev = (dev', m, Inr ())" "vm_state (fm_vfs m) = IOS_MOUNT_RW" by (rule sample_mounted)
  have "bd_status dev = IOS_BLOCK_DEVICE_READY" "bd_sector_count dev \<le> UINT64_MAX"
    using s by (simp_all add: same_device_def plain_device_def)
  from mount_probe_exact [OF plain_driver plain_reliable(2) d this g p(1)] p(2)
  have "superblock_trusted (bd_context dev 0) (bd_logical_sector_size dev) (bd_sector_count dev)"
    by (simp add: Let_def split: if_splits)
  with p(1) show ?thesis by blast
qed


end
