(* ===== verification/Fs_Registry.thy ===== *)
theory Fs_Registry
  imports Fs_Records
begin

text \<open>
  The extension registry (registry_record.c, registry.c): a table of checksummed records, one
  for each file type, that points at the last directory entry of that type. The table is a
  hint: the theorems show that a lookup returns exactly the matching files whatever the table
  holds, and that refresh and rebuild keep it consistent. The registry of the code is a pointer
  to an array and its capacity; here it is the list of its slots.
\<close>

section \<open>Records\<close>

record registry_record_disk =
  rd_record_type :: u8
  rd_record_version :: u8
  rd_flags :: u8
  rd_extension_length :: u8
  rd_hash_algorithm_id :: u8
  rd_reserved0 :: bytes
  rd_canonical_extension :: bytes
  rd_reserved1 :: u8
  rd_extension_hash_text :: bytes
  rd_last_directory_cluster :: bytes
  rd_last_directory_slot :: bytes
  rd_update_generation :: bytes
  rd_crc32 :: bytes

definition registry_disk_bytes :: "registry_record_disk \<Rightarrow> bytes" where
  "registry_disk_bytes d =
     [rd_record_type d, rd_record_version d, rd_flags d, rd_extension_length d, rd_hash_algorithm_id d]
     @ rd_reserved0 d @ rd_canonical_extension d @ [rd_reserved1 d] @ rd_extension_hash_text d
     @ rd_last_directory_cluster d @ rd_last_directory_slot d @ rd_update_generation d @ rd_crc32 d"

definition registry_disk_of :: "bytes \<Rightarrow> registry_record_disk" where
  "registry_disk_of bs =
     \<lparr>rd_record_type = bs ! 0, rd_record_version = bs ! 1, rd_flags = bs ! 2,
      rd_extension_length = bs ! 3, rd_hash_algorithm_id = bs ! 4, rd_reserved0 = field_at 5 3 bs,
      rd_canonical_extension = field_at 8 3 bs, rd_reserved1 = bs ! 11,
      rd_extension_hash_text = field_at 12 8 bs, rd_last_directory_cluster = field_at 20 4 bs,
      rd_last_directory_slot = field_at 24 2 bs, rd_update_generation = field_at 26 2 bs,
      rd_crc32 = field_at 28 4 bs\<rparr>"

definition registry_disk_wf :: "registry_record_disk \<Rightarrow> bool" where
  "registry_disk_wf d \<longleftrightarrow> length (rd_reserved0 d) = 3 \<and> length (rd_canonical_extension d) = 3
     \<and> length (rd_extension_hash_text d) = 8 \<and> length (rd_last_directory_cluster d) = 4
     \<and> length (rd_last_directory_slot d) = 2 \<and> length (rd_update_generation d) = 2
     \<and> length (rd_crc32 d) = 4"

record ios_fs_registry_record =
  rr_active :: bool
  rr_extension_length :: u8
  rr_canonical_extension :: bytes
  rr_extension_hash_text :: bytes
  rr_last_directory_cluster :: u32
  rr_last_directory_slot :: u16
  rr_update_generation :: u16

abbreviation IOS_FS_REGISTRY_RECORD_TYPE :: u8 where "IOS_FS_REGISTRY_RECORD_TYPE \<equiv> 0xe1"
abbreviation IOS_FS_REGISTRY_FLAG_ACTIVE :: u8 where "IOS_FS_REGISTRY_FLAG_ACTIVE \<equiv> 1"
abbreviation IOS_FS_REGISTRY_VERSION :: u8 where "IOS_FS_REGISTRY_VERSION \<equiv> 1"
abbreviation IOS_FS_EXTENSION_SIZE :: nat where "IOS_FS_EXTENSION_SIZE \<equiv> 3"

text \<open>The supported bytes are those of names.\<close>

definition supported_extension_byte :: "u8 \<Rightarrow> bool" where
  "supported_extension_byte value \<longleftrightarrow>
     (65 \<le> value \<and> value \<le> 90) \<or> (48 \<le> value \<and> value \<le> 57) \<or> value = 95 \<or> value = 45"

definition valid_value_extension :: "ios_fs_registry_record \<Rightarrow> bool" where
  "valid_value_extension value \<longleftrightarrow>
     (let n = unat (rr_extension_length value) in
      n \<le> IOS_FS_EXTENSION_SIZE
      \<and> list_all supported_extension_byte (take n (rr_canonical_extension value))
      \<and> all_zero (drop n (rr_canonical_extension value)))"

definition valid_disk_extension :: "registry_record_disk \<Rightarrow> bool" where
  "valid_disk_extension disk \<longleftrightarrow>
     (let n = unat (rd_extension_length disk) in
      n \<le> IOS_FS_EXTENSION_SIZE
      \<and> list_all supported_extension_byte (take n (rd_canonical_extension disk))
      \<and> list_all (\<lambda>b. b = 32) (drop n (rd_canonical_extension disk)))"

definition registry_record_crc :: "registry_record_disk \<Rightarrow> u32" where
  "registry_record_crc disk =
     ios_fs_crc32_iso_hdlc (registry_disk_bytes (disk\<lparr>rd_crc32 := replicate 4 0\<rparr>))"

definition ios_fs_registry_record_encode :: "ios_fs_registry_record \<Rightarrow> registry_record_disk res" where
  "ios_fs_registry_record_encode value =
     (if \<not> valid_value_extension value then Inl IOS_E_INVALID_ARGUMENT
      else let extension = take (unat (rr_extension_length value)) (rr_canonical_extension value);
               disk = \<lparr>rd_record_type = IOS_FS_REGISTRY_RECORD_TYPE, rd_record_version = IOS_FS_REGISTRY_VERSION,
                 rd_flags = (if rr_active value then IOS_FS_REGISTRY_FLAG_ACTIVE else 0),
                 rd_extension_length = rr_extension_length value, rd_hash_algorithm_id = IOS_FS_HASH_FNV1A32,
                 rd_reserved0 = replicate 3 0, rd_canonical_extension = overwrite (replicate 3 32) 0 extension,
                 rd_reserved1 = 0, rd_extension_hash_text = ios_fs_hash_text (ios_fs_fnv1a32 extension),
                 rd_last_directory_cluster = write_u32 (rr_last_directory_cluster value),
                 rd_last_directory_slot = write_u16 (rr_last_directory_slot value),
                 rd_update_generation = write_u16 (rr_update_generation value), rd_crc32 = replicate 4 0\<rparr>
        in Inr (disk\<lparr>rd_crc32 := write_u32 (registry_record_crc disk)\<rparr>))"

definition ios_fs_registry_record_decode :: "registry_record_disk \<Rightarrow> ios_fs_registry_record res" where
  "ios_fs_registry_record_decode disk =
     (if rd_record_type disk \<noteq> IOS_FS_REGISTRY_RECORD_TYPE then Inl IOS_E_CORRUPT
      else if rd_record_version disk \<noteq> IOS_FS_REGISTRY_VERSION then Inl IOS_E_UNSUPPORTED_VERSION
      else if registry_record_crc disk \<noteq> read_u32 (rd_crc32 disk)
        \<or> rd_flags disk AND NOT IOS_FS_REGISTRY_FLAG_ACTIVE \<noteq> 0
        \<or> rd_hash_algorithm_id disk \<noteq> IOS_FS_HASH_FNV1A32
        \<or> \<not> all_zero (rd_reserved0 disk) \<or> rd_reserved1 disk \<noteq> 0
        \<or> \<not> valid_disk_extension disk then Inl IOS_E_CORRUPT
      else let extension = take (unat (rd_extension_length disk)) (rd_canonical_extension disk) in
        if rd_extension_hash_text disk \<noteq> ios_fs_hash_text (ios_fs_fnv1a32 extension) then Inl IOS_E_CORRUPT
        else Inr \<lparr>rr_active = (rd_flags disk AND IOS_FS_REGISTRY_FLAG_ACTIVE \<noteq> 0),
               rr_extension_length = rd_extension_length disk,
               rr_canonical_extension = overwrite (replicate 3 0) 0 extension,
               rr_extension_hash_text = rd_extension_hash_text disk,
               rr_last_directory_cluster = read_u32 (rd_last_directory_cluster disk),
               rr_last_directory_slot = read_u16 (rd_last_directory_slot disk),
               rr_update_generation = read_u16 (rd_update_generation disk)\<rparr>)"

section \<open>The registry\<close>

datatype registry_health =
    IOS_FS_REGISTRY_DISABLED | IOS_FS_REGISTRY_HEALTHY | IOS_FS_REGISTRY_STALE
  | IOS_FS_REGISTRY_FULL | IOS_FS_REGISTRY_CORRUPT | IOS_FS_REGISTRY_REBUILDING

record ios_fs_registry_source_entry =
  se_companion :: companion_disk
  se_primary :: primary_disk
  se_directory_cluster :: u32
  se_primary_slot :: u16

record ios_fs_registry =
  rg_records :: "registry_record_disk list"
  rg_enabled :: bool
  rg_health :: registry_health

definition zero_registry_disk :: registry_record_disk where
  "zero_registry_disk = registry_disk_of (replicate 32 0)"

definition zero_registry_record :: ios_fs_registry_record where
  "zero_registry_record = \<lparr>rr_active = False, rr_extension_length = 0, rr_canonical_extension = replicate 3 0,
     rr_extension_hash_text = replicate 8 0, rr_last_directory_cluster = 0, rr_last_directory_slot = 0,
     rr_update_generation = 0\<rparr>"

definition empty_slot :: "registry_record_disk \<Rightarrow> bool" where
  "empty_slot record = all_zero (registry_disk_bytes record)"

text \<open>An extension that a caller passes is the list of its \<open>extension_length\<close> bytes.\<close>

definition valid_extension :: "bytes \<Rightarrow> bool" where
  "valid_extension extension \<longleftrightarrow>
     length extension \<le> IOS_FS_EXTENSION_SIZE \<and> list_all supported_extension_byte extension"

definition same_extension :: "bytes \<Rightarrow> nat \<Rightarrow> bytes \<Rightarrow> nat \<Rightarrow> bool" where
  "same_extension left left_length right right_length \<longleftrightarrow>
     left_length = right_length \<and> take left_length left = take left_length right"

definition source_extension :: "ios_fs_registry_source_entry \<Rightarrow> (bytes \<times> nat) res" where
  "source_extension entry =
     (case ios_fs_record_pair_validate (se_companion entry) (se_primary entry) of
        Inl e \<Rightarrow> Inl e
      | Inr _ \<Rightarrow>
         (case ios_fs_primary_decode (se_primary entry) of
            Inl e \<Rightarrow> Inl e
          | Inr primary \<Rightarrow> ios_fs_name_extension (p_name primary)))"

fun find_active_loop ::
  "registry_record_disk list \<Rightarrow> nat \<Rightarrow> bytes \<Rightarrow> (nat \<times> ios_fs_registry_record) option
     \<Rightarrow> (nat \<times> ios_fs_registry_record) option res" where
  "find_active_loop [] index extension found = Inr found"
| "find_active_loop (d # records) index extension found =
     (if empty_slot d then find_active_loop records (index + 1) extension found
      else case ios_fs_registry_record_decode d of
        Inl _ \<Rightarrow> Inl IOS_E_CORRUPT
      | Inr decoded \<Rightarrow>
          if rr_active decoded
             \<and> same_extension (rr_canonical_extension decoded) (unat (rr_extension_length decoded))
                 extension (length extension)
          then if found \<noteq> None then Inl IOS_E_CORRUPT
               else find_active_loop records (index + 1) extension (Some (index, decoded))
          else find_active_loop records (index + 1) extension found)"

definition find_active_record ::
  "ios_fs_registry \<Rightarrow> bytes \<Rightarrow> ios_fs_registry \<times> (nat \<times> ios_fs_registry_record) res" where
  "find_active_record registry extension =
     (case find_active_loop (rg_records registry) 0 extension None of
        Inl e \<Rightarrow> (registry\<lparr>rg_health := IOS_FS_REGISTRY_CORRUPT\<rparr>, Inl e)
      | Inr None \<Rightarrow> (registry, Inl IOS_E_NOT_FOUND)
      | Inr (Some found) \<Rightarrow> (registry, Inr found))"

text \<open>Initialisation: the inner loop over the slots before the current one, and the outer loop;
  the result is whether the table is corrupt.\<close>

fun prior_conflict :: "ios_fs_registry_record \<Rightarrow> registry_record_disk list \<Rightarrow> bool" where
  "prior_conflict current [] = False"
| "prior_conflict current (d # prior) =
     (if empty_slot d then prior_conflict current prior
      else case ios_fs_registry_record_decode d of
        Inl _ \<Rightarrow> True
      | Inr previous \<Rightarrow>
          if rr_active previous
             \<and> same_extension (rr_canonical_extension current) (unat (rr_extension_length current))
                 (rr_canonical_extension previous) (unat (rr_extension_length previous))
          then True else prior_conflict current prior)"

fun initialize_loop :: "registry_record_disk list \<Rightarrow> registry_record_disk list \<Rightarrow> bool" where
  "initialize_loop prior [] = False"
| "initialize_loop prior (d # records) =
     (if empty_slot d then initialize_loop (prior @ [d]) records
      else case ios_fs_registry_record_decode d of
        Inl _ \<Rightarrow> True
      | Inr current \<Rightarrow>
          if \<not> rr_active current then initialize_loop (prior @ [d]) records
          else if prior_conflict current prior then True
          else initialize_loop (prior @ [d]) records)"

definition ios_fs_registry_initialize :: "registry_record_disk list \<Rightarrow> bool \<Rightarrow> ios_fs_registry res" where
  "ios_fs_registry_initialize records enabled =
     (if length records = 0 \<or> length records > SIZE_MAX div 32 then Inl IOS_E_INVALID_ARGUMENT
      else Inr \<lparr>rg_records = records, rg_enabled = enabled,
             rg_health = (if \<not> enabled then IOS_FS_REGISTRY_DISABLED
                          else if initialize_loop [] records then IOS_FS_REGISTRY_CORRUPT
                          else IOS_FS_REGISTRY_HEALTHY)\<rparr>)"

definition ios_fs_registry_enabled :: "ios_fs_registry \<Rightarrow> bool" where
  "ios_fs_registry_enabled registry = rg_enabled registry"

definition ios_fs_registry_health :: "ios_fs_registry \<Rightarrow> registry_health" where
  "ios_fs_registry_health registry = rg_health registry"

fun active_count_loop :: "registry_record_disk list \<Rightarrow> nat \<Rightarrow> nat" where
  "active_count_loop [] count = count"
| "active_count_loop (d # records) count =
     (if empty_slot d then active_count_loop records count
      else case ios_fs_registry_record_decode d of
        Inl _ \<Rightarrow> 0
      | Inr record \<Rightarrow> active_count_loop records (if rr_active record then count + 1 else count))"

definition ios_fs_registry_active_count :: "ios_fs_registry \<Rightarrow> nat" where
  "ios_fs_registry_active_count registry =
     (if \<not> rg_enabled registry \<or> rg_health registry = IOS_FS_REGISTRY_CORRUPT
         \<or> rg_health registry = IOS_FS_REGISTRY_REBUILDING then 0
      else active_count_loop (rg_records registry) 0)"

definition ios_fs_registry_find ::
  "ios_fs_registry \<Rightarrow> bytes \<Rightarrow> ios_fs_registry \<times> (nat \<times> ios_fs_registry_record) res" where
  "ios_fs_registry_find registry extension =
     (if \<not> valid_extension extension then (registry, Inl IOS_E_INVALID_ARGUMENT)
      else if \<not> rg_enabled registry \<or> rg_health registry = IOS_FS_REGISTRY_CORRUPT
        \<or> rg_health registry = IOS_FS_REGISTRY_REBUILDING then (registry, Inl IOS_E_NOT_FOUND)
      else find_active_record registry extension)"

section \<open>Refresh\<close>

text \<open>The scan for the slot of the extension and for the first reusable slot.\<close>

fun refresh_scan ::
  "registry_record_disk list \<Rightarrow> nat \<Rightarrow> bytes \<Rightarrow> nat \<Rightarrow> nat option \<Rightarrow> nat option \<Rightarrow> ios_fs_registry_record
     \<Rightarrow> (nat option \<times> nat option \<times> ios_fs_registry_record) res" where
  "refresh_scan [] index extension len target available previous = Inr (target, available, previous)"
| "refresh_scan (d # records) index extension len target available previous =
     (if empty_slot d
      then refresh_scan records (index + 1) extension len target
             (if available = None then Some index else available) previous
      else case ios_fs_registry_record_decode d of
        Inl _ \<Rightarrow> Inl IOS_E_CORRUPT
      | Inr decoded \<Rightarrow>
          if \<not> rr_active decoded
          then refresh_scan records (index + 1) extension len target
                 (if available = None then Some index else available) previous
          else if same_extension (rr_canonical_extension decoded) (unat (rr_extension_length decoded)) extension len
          then if target \<noteq> None then Inl IOS_E_CORRUPT
               else refresh_scan records (index + 1) extension len (Some index) available decoded
          else refresh_scan records (index + 1) extension len target available previous)"

text \<open>The result is \<open>record_index\<close>, \<open>None\<close> for \<open>SIZE_MAX\<close>.\<close>

definition ios_fs_registry_refresh ::
  "ios_fs_registry \<Rightarrow> companion_disk \<Rightarrow> primary_disk \<Rightarrow> u32 \<Rightarrow> u16 \<Rightarrow> ios_fs_registry \<times> nat option res" where
  "ios_fs_registry_refresh registry companion primary directory_cluster primary_slot =
     (if \<not> rg_enabled registry then (registry, Inr None)
      else let was_full = (rg_health registry = IOS_FS_REGISTRY_FULL) in
        if rg_health registry = IOS_FS_REGISTRY_CORRUPT \<or> rg_health registry = IOS_FS_REGISTRY_STALE
        then (registry, Inl IOS_E_CORRUPT)
        else if rg_health registry = IOS_FS_REGISTRY_REBUILDING then (registry, Inl IOS_E_INVALID_STATE)
        else case source_extension \<lparr>se_companion = companion, se_primary = primary,
               se_directory_cluster = directory_cluster, se_primary_slot = primary_slot\<rparr> of
          Inl e \<Rightarrow> (registry, Inl e)
        | Inr (extension, extension_length) \<Rightarrow>
         (case refresh_scan (rg_records registry) 0 extension extension_length None None zero_registry_record of
            Inl e \<Rightarrow> (registry\<lparr>rg_health := IOS_FS_REGISTRY_CORRUPT\<rparr>, Inl e)
          | Inr (target, available, previous) \<Rightarrow>
             (case (if target = None \<and> \<not> was_full then available else target) of
                None \<Rightarrow> (registry\<lparr>rg_health := IOS_FS_REGISTRY_FULL\<rparr>, Inl IOS_E_NO_SPACE)
              | Some target \<Rightarrow>
                 (case ios_fs_registry_record_encode
                     \<lparr>rr_active = True, rr_extension_length = of_nat extension_length,
                      rr_canonical_extension = overwrite (replicate 3 0) 0 (take extension_length extension),
                      rr_extension_hash_text = replicate 8 0,
                      rr_last_directory_cluster = directory_cluster, rr_last_directory_slot = primary_slot,
                      rr_update_generation = (if rr_active previous then rr_update_generation previous + 1 else 1)\<rparr> of
                    Inl e \<Rightarrow> (registry, Inl e)
                  | Inr encoded \<Rightarrow>
                     (registry\<lparr>rg_records := (rg_records registry)[target := encoded]\<rparr>, Inr (Some target))))))"

section \<open>Rebuild\<close>

fun duplicate_extension :: "ios_fs_registry_source_entry list \<Rightarrow> bytes \<Rightarrow> nat \<Rightarrow> bool res" where
  "duplicate_extension [] extension len = Inr False"
| "duplicate_extension (entry # prior) extension len =
     (case source_extension entry of
        Inl e \<Rightarrow> Inl e
      | Inr (prior_extension, prior_length) \<Rightarrow>
          if same_extension extension len prior_extension prior_length then Inr True
          else duplicate_extension prior extension len)"

fun rebuild_check ::
  "ios_fs_registry_source_entry list \<Rightarrow> ios_fs_registry_source_entry list \<Rightarrow> nat \<Rightarrow> nat \<Rightarrow> unit res" where
  "rebuild_check prior [] unique_count capacity = Inr ()"
| "rebuild_check prior (entry # entries) unique_count capacity =
     (case source_extension entry of
        Inl e \<Rightarrow> Inl e
      | Inr (extension, len) \<Rightarrow>
         (case duplicate_extension prior extension len of
            Inl e \<Rightarrow> Inl e
          | Inr duplicate \<Rightarrow>
              if duplicate then rebuild_check (prior @ [entry]) entries unique_count capacity
              else if unique_count + 1 > capacity then Inl IOS_E_NO_SPACE
              else rebuild_check (prior @ [entry]) entries (unique_count + 1) capacity))"

definition validate_rebuild_entries :: "ios_fs_registry_source_entry list \<Rightarrow> nat \<Rightarrow> unit res" where
  "validate_rebuild_entries entries capacity = rebuild_check [] entries 0 capacity"

text \<open>The search among the records written so far.\<close>

fun rebuild_search ::
  "registry_record_disk list \<Rightarrow> nat \<Rightarrow> bytes \<Rightarrow> nat \<Rightarrow> (nat \<times> ios_fs_registry_record) option res" where
  "rebuild_search [] slot extension len = Inr None"
| "rebuild_search (d # records) slot extension len =
     (case ios_fs_registry_record_decode d of
        Inl e \<Rightarrow> Inl e
      | Inr record \<Rightarrow>
          if same_extension (rr_canonical_extension record) (unat (rr_extension_length record)) extension len
          then Inr (Some (slot, record))
          else rebuild_search records (slot + 1) extension len)"

text \<open>The main loop; a failure returns the table as it was left.\<close>

fun rebuild_loop ::
  "ios_fs_registry_source_entry list \<Rightarrow> registry_record_disk list \<Rightarrow> nat \<Rightarrow> registry_record_disk list \<times> unit res" where
  "rebuild_loop [] records active_count = (records, Inr ())"
| "rebuild_loop (entry # entries) records active_count =
     (case source_extension entry of
        Inl e \<Rightarrow> (records, Inl e)
      | Inr (extension, len) \<Rightarrow>
         (case rebuild_search (take active_count records) 0 extension len of
            Inl e \<Rightarrow> (records, Inl e)
          | Inr found \<Rightarrow>
              let (target, record, active_count) =
                    (case found of Some (slot, record) \<Rightarrow> (slot, record, active_count)
                     | None \<Rightarrow> (active_count, zero_registry_record, active_count + 1));
                  record = record\<lparr>rr_active := True, rr_extension_length := of_nat len,
                    rr_canonical_extension := overwrite (replicate 3 0) 0 (take len extension),
                    rr_last_directory_cluster := se_directory_cluster entry,
                    rr_last_directory_slot := se_primary_slot entry,
                    rr_update_generation := rr_update_generation record + 1\<rparr>
              in case ios_fs_registry_record_encode record of
                   Inl e \<Rightarrow> (records, Inl e)
                 | Inr encoded \<Rightarrow> rebuild_loop entries (records[target := encoded]) active_count))"

definition ios_fs_registry_rebuild ::
  "ios_fs_registry \<Rightarrow> ios_fs_registry_source_entry list \<Rightarrow> ios_fs_registry \<times> unit res" where
  "ios_fs_registry_rebuild registry entries =
     (if \<not> rg_enabled registry then (registry, Inr ())
      else case validate_rebuild_entries entries (length (rg_records registry)) of
        Inl e \<Rightarrow> (if e = IOS_E_NO_SPACE then registry\<lparr>rg_health := IOS_FS_REGISTRY_FULL\<rparr> else registry, Inl e)
      | Inr _ \<Rightarrow>
         (case rebuild_loop entries (replicate (length (rg_records registry)) zero_registry_disk) 0 of
            (records, Inl e) \<Rightarrow> (registry\<lparr>rg_records := records, rg_health := IOS_FS_REGISTRY_CORRUPT\<rparr>, Inl e)
          | (records, Inr _) \<Rightarrow> (registry\<lparr>rg_records := records, rg_health := IOS_FS_REGISTRY_HEALTHY\<rparr>, Inr ())))"

section \<open>Lookup\<close>

text \<open>The state of the loop: \<open>hint_valid\<close> and the matches so far; the result keeps them on failure.\<close>

fun lookup_loop ::
  "ios_fs_registry_source_entry list \<Rightarrow> nat \<Rightarrow> bytes \<Rightarrow> ios_fs_registry_record option \<Rightarrow> nat \<Rightarrow> bool \<Rightarrow> nat list
     \<Rightarrow> bool \<times> nat list \<times> unit res" where
  "lookup_loop [] index extension hint match_capacity hint_valid matches = (hint_valid, matches, Inr ())"
| "lookup_loop (entry # entries) index extension hint match_capacity hint_valid matches =
     (case source_extension entry of
        Inl e \<Rightarrow> (hint_valid, matches, Inl e)
      | Inr (ext, len) \<Rightarrow>
          let same = same_extension ext len extension (length extension);
              hint_valid = (hint_valid \<or> (case hint of None \<Rightarrow> False | Some h \<Rightarrow>
                  se_directory_cluster entry = rr_last_directory_cluster h
                  \<and> se_primary_slot entry = rr_last_directory_slot h \<and> same))
          in if \<not> same then lookup_loop entries (index + 1) extension hint match_capacity hint_valid matches
             else if length matches = match_capacity then (hint_valid, matches, Inl IOS_E_NO_SPACE)
             else lookup_loop entries (index + 1) extension hint match_capacity hint_valid (matches @ [index]))"

definition ios_fs_registry_lookup ::
  "ios_fs_registry \<Rightarrow> ios_fs_registry_source_entry list \<Rightarrow> bytes \<Rightarrow> nat \<Rightarrow> ios_fs_registry \<times> nat list \<times> unit res" where
  "ios_fs_registry_lookup registry entries extension match_capacity =
     (if \<not> valid_extension extension then (registry, [], Inl IOS_E_INVALID_ARGUMENT)
      else let inspect_hint = (rg_enabled registry \<and> rg_health registry = IOS_FS_REGISTRY_HEALTHY);
               (registry, hint, inspect_hint) =
                 (if inspect_hint
                  then case find_active_record registry extension of
                      (registry, Inr (_, h)) \<Rightarrow> (registry, Some h, True)
                    | (registry, Inl e) \<Rightarrow> (registry, None, e = IOS_E_NOT_FOUND)
                  else (registry, None, False))
        in case lookup_loop entries 0 extension hint match_capacity False [] of
             (hint_valid, matches, Inl e) \<Rightarrow> (registry, matches, Inl e)
           | (hint_valid, matches, Inr _) \<Rightarrow>
               (if inspect_hint \<and> ((hint \<noteq> None \<and> \<not> hint_valid) \<or> (hint = None \<and> matches \<noteq> []))
                then registry\<lparr>rg_health := IOS_FS_REGISTRY_STALE\<rparr> else registry, matches, Inr ()))"

section \<open>The record codec\<close>

lemma registry_disk_of_bytes [codec_simps]:
  "registry_disk_wf d \<Longrightarrow> registry_disk_of (registry_disk_bytes d) = d"
  by (cases d) (simp add: registry_disk_of_def registry_disk_bytes_def registry_disk_wf_def field_at_def nth_append)

lemma registry_disk_wf_of [simp]: "length bs = 32 \<Longrightarrow> registry_disk_wf (registry_disk_of bs)"
  by (simp add: registry_disk_wf_def registry_disk_of_def field_at_def)

lemma take_Suc_field: "off < length bs \<Longrightarrow> drop off bs = bs ! off # drop (off + 1) bs"
  by (simp add: Cons_nth_drop_Suc)

lemma drop_field: "drop off bs = field_at off n bs @ drop (off + n) bs"
  by (simp add: field_at_def add.commute flip: drop_drop)

lemma registry_bytes_with_crc:
  assumes "length bs = 32" and "length z = 4"
  shows "registry_disk_bytes ((registry_disk_of bs)\<lparr>rd_crc32 := z\<rparr>) = overwrite bs 28 z"
proof -
  have step: "drop k bs = bs ! k # drop (k + 1) bs" if "k < 32" for k
    using that assms(1) by (intro take_Suc_field) simp
  have "bs = drop 0 bs" by simp
  also have "\<dots> = bs ! 0 # drop 1 bs" using step [of 0] by simp
  also have "drop 1 bs = bs ! 1 # bs ! 2 # drop 3 bs" using step [of 1] step [of 2] by (simp add: numeral_2_eq_2 numeral_3_eq_3)
  also have "drop 3 bs = bs ! 3 # bs ! 4 # drop 5 bs" using step [of 3] step [of 4] by simp
  also have "drop 5 bs = field_at 5 3 bs @ field_at 8 3 bs @ bs ! 11 # drop 12 bs"
    using assms(1) drop_field [of 5 bs 3] drop_field [of 8 bs 3] take_Suc_field [of 11 bs] by simp
  also have "drop 12 bs = field_at 12 8 bs @ field_at 20 4 bs @ field_at 24 2 bs @ field_at 26 2 bs @ drop 28 bs"
    using drop_field [of 12 bs 8] drop_field [of 20 bs 4] drop_field [of 24 bs 2] drop_field [of 26 bs 2] by simp
  finally have bs: "bs = (bs ! 0 # bs ! 1 # bs ! 2 # bs ! 3 # bs ! 4 # field_at 5 3 bs @ field_at 8 3 bs @ bs ! 11
      # field_at 12 8 bs @ field_at 20 4 bs @ field_at 24 2 bs @ field_at 26 2 bs) @ drop 28 bs" by simp
  have "take 28 bs = (bs ! 0 # bs ! 1 # bs ! 2 # bs ! 3 # bs ! 4 # field_at 5 3 bs @ field_at 8 3 bs @ bs ! 11
      # field_at 12 8 bs @ field_at 20 4 bs @ field_at 24 2 bs @ field_at 26 2 bs)"
    using assms(1) by (subst bs, subst take_append) (simp add: length_field_at)
  then show ?thesis
    using assms by (simp add: overwrite_def registry_disk_bytes_def registry_disk_of_def)
qed

lemma registry_crc_of:
  "length bs = 32 \<Longrightarrow>
    registry_record_crc (registry_disk_of bs) = ios_fs_crc32_iso_hdlc (overwrite bs 28 (replicate 4 0))"
  by (simp add: registry_record_crc_def registry_bytes_with_crc)

lemma registry_decode_crc:
  "ios_fs_registry_record_decode d = Inr v \<Longrightarrow> registry_record_crc d = read_u32 (rd_crc32 d)"
  by (auto simp: ios_fs_registry_record_decode_def split: if_splits)

lemma registry_one_byte:
  assumes "length bs = 32" and "i < 32" and "bs ! i \<noteq> b"
    and "ios_fs_registry_record_decode (registry_disk_of bs) = Inr v"
  shows "\<exists>e. ios_fs_registry_record_decode (registry_disk_of (bs[i := b])) = Inl e"
proof -
  have crc32: "rd_crc32 (registry_disk_of xs) = field_at 28 4 xs" for xs by (simp add: registry_disk_of_def)
  have "registry_record_crc (registry_disk_of (bs[i := b])) \<noteq> read_u32 (rd_crc32 (registry_disk_of (bs[i := b])))"
    using crc_field_one_byte [of 28 bs i b] registry_decode_crc [OF assms(4)] assms(1-3)
    by (simp add: registry_crc_of crc32)
  then show ?thesis by (auto simp: ios_fs_registry_record_decode_def)
qed

lemma supported_extension_byte_eq: "supported_extension_byte = supported_name_byte"
  by (simp add: fun_eq_iff supported_extension_byte_def supported_name_byte_def)

text \<open>The extension a record is about.\<close>

definition rec_ext :: "ios_fs_registry_record \<Rightarrow> bytes" where
  "rec_ext v = take (unat (rr_extension_length v)) (rr_canonical_extension v)"

lemma registry_crc_irrelevant [simp]: "registry_record_crc (d\<lparr>rd_crc32 := x\<rparr>) = registry_record_crc d"
  by (simp add: registry_record_crc_def)

lemma registry_decode_encode:
  assumes len: "length (rr_canonical_extension v) = 3" and enc: "ios_fs_registry_record_encode v = Inr d"
  shows "registry_disk_wf d" and "\<not> empty_slot d"
    and "ios_fs_registry_record_decode d = Inr (v\<lparr>rr_extension_hash_text := ios_fs_hash_text (ios_fs_fnv1a32 (rec_ext v))\<rparr>)"
proof -
  let ?n = "unat (rr_extension_length v)"
  have val: "?n \<le> 3" "list_all supported_extension_byte (take ?n (rr_canonical_extension v))"
    "all_zero (drop ?n (rr_canonical_extension v))"
    using enc by (auto simp: ios_fs_registry_record_encode_def valid_value_extension_def Let_def split: if_splits)
  have d: "d = (let disk = \<lparr>rd_record_type = IOS_FS_REGISTRY_RECORD_TYPE, rd_record_version = IOS_FS_REGISTRY_VERSION,
                 rd_flags = (if rr_active v then IOS_FS_REGISTRY_FLAG_ACTIVE else 0),
                 rd_extension_length = rr_extension_length v, rd_hash_algorithm_id = IOS_FS_HASH_FNV1A32,
                 rd_reserved0 = replicate 3 0, rd_canonical_extension = overwrite (replicate 3 32) 0 (rec_ext v),
                 rd_reserved1 = 0, rd_extension_hash_text = ios_fs_hash_text (ios_fs_fnv1a32 (rec_ext v)),
                 rd_last_directory_cluster = write_u32 (rr_last_directory_cluster v),
                 rd_last_directory_slot = write_u16 (rr_last_directory_slot v),
                 rd_update_generation = write_u16 (rr_update_generation v), rd_crc32 = replicate 4 0\<rparr>
        in disk\<lparr>rd_crc32 := write_u32 (registry_record_crc disk)\<rparr>)"
    using enc by (auto simp: ios_fs_registry_record_encode_def rec_ext_def Let_def split: if_splits)
  have ext: "length (rec_ext v) = ?n" using len val(1) by (simp add: rec_ext_def)
  have disk: "take ?n (overwrite (replicate 3 32) 0 (rec_ext v)) = rec_ext v"
    "drop ?n (overwrite (replicate 3 32) 0 (rec_ext v)) = replicate (3 - ?n) 32"
    using ext by (simp_all add: overwrite_def)
  have "overwrite (replicate 3 0) 0 (rec_ext v) = rr_canonical_extension v"
  proof -
    have "drop ?n (rr_canonical_extension v) = replicate (3 - ?n) 0"
      using val(3) len by (metis all_zero_replicate length_drop)
    then show ?thesis using append_take_drop_id [of ?n "rr_canonical_extension v"] ext
      by (simp add: overwrite_def rec_ext_def)
  qed
  moreover have "(1 :: u8) AND NOT 1 = 0" by simp
  ultimately show "ios_fs_registry_record_decode d
      = Inr (v\<lparr>rr_extension_hash_text := ios_fs_hash_text (ios_fs_fnv1a32 (rec_ext v))\<rparr>)"
    using val disk ext
    by (simp add: d Let_def ios_fs_registry_record_decode_def valid_disk_extension_def rec_ext_def [symmetric] list_all_iff
        registry_record_crc_def)
  show "registry_disk_wf d" using ext val(1) by (simp add: d Let_def registry_disk_wf_def)
  show "\<not> empty_slot d" by (simp add: d Let_def empty_slot_def registry_disk_bytes_def)
qed

section \<open>The table as a map from extensions to records\<close>

lemma registry_decode_shape:
  assumes "ios_fs_registry_record_decode d = Inr v"
  shows "length (rr_canonical_extension v) = 3" and "unat (rr_extension_length v) \<le> 3"
proof -
  show "unat (rr_extension_length v) \<le> 3"
    using assms by (auto simp: ios_fs_registry_record_decode_def Let_def valid_disk_extension_def split: if_splits)
  then have "length (take (unat (rr_extension_length v)) x) \<le> 3" for x :: bytes by simp
  then show "length (rr_canonical_extension v) = 3"
    using assms by (auto simp: ios_fs_registry_record_decode_def Let_def split: if_splits)
qed

lemma same_extension_iff:
  "m \<le> length l \<Longrightarrow> n \<le> length r \<Longrightarrow> same_extension l m r n \<longleftrightarrow> take m l = take n r"
  unfolding same_extension_def by (metis length_take min.absorb2)

lemma same_extension_rec:
  assumes "ios_fs_registry_record_decode d = Inr v" and "n \<le> length ext"
  shows "same_extension (rr_canonical_extension v) (unat (rr_extension_length v)) ext n \<longleftrightarrow> rec_ext v = take n ext"
  using registry_decode_shape [OF assms(1)] assms(2) by (simp add: same_extension_iff rec_ext_def)

definition slot_sane :: "registry_record_disk \<Rightarrow> bool" where
  "slot_sane d \<longleftrightarrow> empty_slot d \<or> (\<exists>v. ios_fs_registry_record_decode d = Inr v)"

definition active_at :: "registry_record_disk \<Rightarrow> ios_fs_registry_record option" where
  "active_at d = (if empty_slot d then None
     else case ios_fs_registry_record_decode d of Inl _ \<Rightarrow> None
       | Inr v \<Rightarrow> if rr_active v then Some v else None)"

text \<open>The slots, numbered from \<open>k\<close>, whose active record is about \<open>ext\<close>.\<close>

fun hits :: "nat \<Rightarrow> registry_record_disk list \<Rightarrow> bytes \<Rightarrow> (nat \<times> ios_fs_registry_record) list" where
  "hits k [] ext = []"
| "hits k (d # ds) ext =
     (case active_at d of None \<Rightarrow> hits (k + 1) ds ext
      | Some v \<Rightarrow> if rec_ext v = ext then (k, v) # hits (k + 1) ds ext else hits (k + 1) ds ext)"

lemma hits_iff:
  "(i, v) \<in> set (hits k ds ext) \<longleftrightarrow> k \<le> i \<and> i < k + length ds \<and> active_at (ds ! (i - k)) = Some v \<and> rec_ext v = ext"
proof (induction ds arbitrary: k)
  case (Cons d ds)
  show ?case
  proof (cases "i = k")
    case True
    then show ?thesis using Cons.IH [of "k + 1"] by (auto split: option.splits)
  next
    case False
    have "(d # ds) ! (i - k) = ds ! (i - Suc k)" if "k \<le> i" using False that by (simp add: nth_Cons')
    then show ?thesis using Cons.IH [of "k + 1"] False by (auto split: option.splits)
  qed
qed simp

lemma hits_distinct: "distinct (map fst (hits k ds ext))"
proof (induction ds arbitrary: k)
  case (Cons d ds)
  have "k \<notin> fst ` set (hits (Suc k) ds ext)" using hits_iff [of k _ "Suc k" ds ext] by auto
  then show ?case using Cons.IH [of "Suc k"] by (auto split: option.splits)
qed simp

definition registry_ok :: "registry_record_disk list \<Rightarrow> bool" where
  "registry_ok records \<longleftrightarrow> list_all slot_sane records \<and> (\<forall>ext. length (hits 0 records ext) \<le> 1)"

lemma find_active_loop_eq:
  "find_active_loop ds k ext found =
     (if \<not> list_all slot_sane ds \<or> length (hits k ds ext) + (if found = None then 0 else 1) > 1 then Inl IOS_E_CORRUPT
      else Inr (if found = None \<and> hits k ds ext \<noteq> [] then Some (hd (hits k ds ext)) else found))"
proof (induction ds arbitrary: k found)
  case (Cons d ds)
  show ?case
  proof (cases "empty_slot d \<or> (\<exists>e. ios_fs_registry_record_decode d = Inl e)")
    case True
    then show ?thesis using Cons.IH [of "k + 1" found] by (auto simp: slot_sane_def active_at_def)
  next
    case False
    then obtain v where v: "ios_fs_registry_record_decode d = Inr v" "\<not> empty_slot d"
      by (cases "ios_fs_registry_record_decode d") auto
    note same = same_extension_rec [OF v(1) order_refl, of ext]
    show ?thesis
      using v same Cons.IH [of "k + 1" found] Cons.IH [of "k + 1" "Some (k, v)"]
      by (cases found) (auto simp: slot_sane_def active_at_def)
  qed
qed simp

lemma find_ok:
  assumes "registry_ok (rg_records r)"
  shows "find_active_record r ext =
    (r, case hits 0 (rg_records r) ext of [] \<Rightarrow> Inl IOS_E_NOT_FOUND | h # _ \<Rightarrow> Inr h)"
proof -
  have "length (hits 0 (rg_records r) ext) \<le> 1" using assms by (simp add: registry_ok_def)
  moreover have "list_all slot_sane (rg_records r)" using assms by (simp add: registry_ok_def)
  ultimately show ?thesis
    by (auto simp: find_active_record_def find_active_loop_eq split: list.splits)
qed

text \<open>An undamaged table is a map from extensions to the slot and the record.\<close>

definition reg_map :: "registry_record_disk list \<Rightarrow> bytes \<rightharpoonup> nat \<times> ios_fs_registry_record" where
  "reg_map ds ext = (case hits 0 ds ext of [] \<Rightarrow> None | h # _ \<Rightarrow> Some h)"

lemma reg_map_SomeD:
  assumes "reg_map ds ext = Some (i, v)"
  shows "i < length ds" and "active_at (ds ! i) = Some v" and "rec_ext v = ext"
proof -
  have "(i, v) \<in> set (hits 0 ds ext)" using assms by (auto simp: reg_map_def split: list.splits)
  then show "i < length ds" and "active_at (ds ! i) = Some v" and "rec_ext v = ext" by (auto simp: hits_iff)
qed

lemma reg_map_None: "reg_map ds ext = None \<longleftrightarrow> (\<forall>i v. i < length ds \<longrightarrow> active_at (ds ! i) = Some v \<longrightarrow> rec_ext v \<noteq> ext)"
proof -
  have "reg_map ds ext = None \<longleftrightarrow> set (hits 0 ds ext) = {}" by (auto simp: reg_map_def split: list.splits)
  also have "\<dots> \<longleftrightarrow> (\<forall>i v. (i, v) \<notin> set (hits 0 ds ext))" by (metis equals0D equals0I surj_pair)
  finally show ?thesis by (auto simp: hits_iff)
qed

lemma registry_ok_iff:
  "registry_ok ds \<longleftrightarrow> list_all slot_sane ds \<and>
     (\<forall>i j v w. i < length ds \<longrightarrow> j < length ds \<longrightarrow> active_at (ds ! i) = Some v \<longrightarrow> active_at (ds ! j) = Some w
        \<longrightarrow> rec_ext v = rec_ext w \<longrightarrow> i = j)" (is "_ \<longleftrightarrow> _ \<and> ?inj")
proof -
  have "(\<forall>ext. length (hits 0 ds ext) \<le> 1) \<longleftrightarrow> ?inj"
  proof
    assume len: "\<forall>ext. length (hits 0 ds ext) \<le> 1"
    show ?inj
    proof (intro allI impI)
      fix i j v w assume a: "i < length ds" "j < length ds" "active_at (ds ! i) = Some v" "active_at (ds ! j) = Some w"
        "rec_ext v = rec_ext w"
      then have "(i, v) \<in> set (hits 0 ds (rec_ext v))" "(j, w) \<in> set (hits 0 ds (rec_ext v))" by (auto simp: hits_iff)
      moreover have "length (hits 0 ds (rec_ext v)) \<le> 1" using len by blast
      ultimately show "i = j" by (cases "hits 0 ds (rec_ext v)") auto
    qed
  next
    assume inj: ?inj
    show "\<forall>ext. length (hits 0 ds ext) \<le> 1"
    proof (intro allI)
      fix ext
      have "fst ` set (hits 0 ds ext) \<subseteq> {i}" if "i \<in> fst ` set (hits 0 ds ext)" for i
        using that inj by (fastforce simp: hits_iff)
      then have "card (fst ` set (hits 0 ds ext)) \<le> 1" by (metis (no_types, lifting) all_not_in_conv card.empty card_mono
          finite.emptyI finite_insert is_singletonI is_singleton_altdef le0)
      then show "length (hits 0 ds ext) \<le> 1" using hits_distinct [of 0 ds ext] by (metis distinct_card length_map set_map)
    qed
  qed
  then show ?thesis by (simp add: registry_ok_def)
qed

lemma reg_map_iff:
  assumes "registry_ok ds"
  shows "reg_map ds ext = Some (i, v) \<longleftrightarrow> i < length ds \<and> active_at (ds ! i) = Some v \<and> rec_ext v = ext" (is "?l \<longleftrightarrow> ?r")
proof
  assume r: ?r
  then have "reg_map ds ext \<noteq> None" by (auto simp: reg_map_None)
  then obtain j w where jw: "reg_map ds ext = Some (j, w)" by auto
  note reg_map_SomeD [OF jw]
  then have "j = i" using assms r by (auto simp: registry_ok_iff)
  then show ?l using jw \<open>active_at (ds ! j) = Some w\<close> r by simp
qed (auto dest: reg_map_SomeD)

lemma find_map:
  assumes "registry_ok (rg_records r)"
  shows "find_active_record r ext =
    (r, case reg_map (rg_records r) ext of None \<Rightarrow> Inl IOS_E_NOT_FOUND | Some h \<Rightarrow> Inr h)"
  using find_ok [OF assms] by (auto simp: reg_map_def split: list.splits)

text \<open>Writing an active record over the record of its extension, or into an unused slot.\<close>

lemma reg_map_update:
  assumes ok: "registry_ok ds" and t: "t < length ds" and new: "active_at d = Some v" "slot_sane d"
    and free: "(\<exists>w. reg_map ds (rec_ext v) = Some (t, w)) \<or> active_at (ds ! t) = None \<and> reg_map ds (rec_ext v) = None"
  shows "registry_ok (ds[t := d])" and "reg_map (ds[t := d]) = (reg_map ds)(rec_ext v \<mapsto> (t, v))"
proof -
  have clash: "i = t" if "i < length ds" "active_at (ds ! i) = Some w" "rec_ext w = rec_ext v" for i w
  proof -
    have "reg_map ds (rec_ext v) = Some (i, w)" using that by (simp add: reg_map_iff [OF ok])
    then show ?thesis using free by auto
  qed
  have at: "active_at (ds[t := d] ! i) = (if i = t then Some v else active_at (ds ! i))" if "i < length ds" for i
    using that new(1) by (simp add: nth_list_update)
  show ok': "registry_ok (ds[t := d])"
  proof -
    have inj: "i = j" if "i < length ds" "j < length ds" "active_at (ds ! i) = Some w" "active_at (ds ! j) = Some x"
      "rec_ext w = rec_ext x" for i j w x
      using ok that unfolding registry_ok_iff by blast
    have "list_all slot_sane (ds[t := d])"
      using ok new(2) by (auto simp: registry_ok_iff list_all_iff dest: set_update_subset_insert [THEN subsetD])
    moreover have "i = j" if "i < length ds" "j < length ds" "active_at (ds[t := d] ! i) = Some w"
      "active_at (ds[t := d] ! j) = Some x" "rec_ext w = rec_ext x" for i j w x
      using that(3-5) at [OF that(1)] at [OF that(2)] inj [OF that(1,2)] clash [OF that(1), of w] clash [OF that(2), of x]
      by (auto split: if_splits)
    ultimately show ?thesis by (auto simp: registry_ok_iff)
  qed
  show "reg_map (ds[t := d]) = (reg_map ds)(rec_ext v \<mapsto> (t, v))"
  proof
    fix ext
    show "reg_map (ds[t := d]) ext = ((reg_map ds)(rec_ext v \<mapsto> (t, v))) ext"
    proof (cases "ext = rec_ext v")
      case True
      have "reg_map (ds[t := d]) (rec_ext v) = Some (t, v)" unfolding reg_map_iff [OF ok'] using t at [OF t] by simp
      then show ?thesis using True by simp
    next
      case False
      have "reg_map (ds[t := d]) ext = Some (i, w) \<longleftrightarrow> reg_map ds ext = Some (i, w)" for i w
      proof (cases "i < length ds")
        case True
        have "active_at (ds ! t) = Some w \<Longrightarrow> rec_ext w \<noteq> ext"
          using free False reg_map_SomeD(2,3) [of ds "rec_ext v" t] by auto
        then show ?thesis using at [OF True] False by (auto simp: reg_map_iff [OF ok'] reg_map_iff [OF ok])
      qed (simp add: reg_map_iff [OF ok'] reg_map_iff [OF ok])
      then have "reg_map (ds[t := d]) ext = reg_map ds ext"
        by (metis option.exhaust surj_pair)
      then show ?thesis using False by simp
    qed
  qed
qed

section \<open>Source entries\<close>

text \<open>The disk structures of an entry have their fixed sizes.\<close>

definition entry_wf :: "ios_fs_registry_source_entry \<Rightarrow> bool" where
  "entry_wf e \<longleftrightarrow> companion_disk_wf (se_companion e) \<and> primary_disk_wf (se_primary e)"

definition entry_ext :: "ios_fs_registry_source_entry \<Rightarrow> bytes option" where
  "entry_ext e = (case source_extension e of Inl _ \<Rightarrow> None | Inr (ext, n) \<Rightarrow> Some (take n ext))"

lemma source_extension_shape:
  assumes "entry_wf e" and "source_extension e = Inr (ext, n)"
  shows "length ext = 3" and "n \<le> 3" and "list_all supported_extension_byte (take n ext)"
    and "overwrite (replicate 3 0) 0 (take n ext) = ext" and "entry_ext e = Some (take n ext)"
proof -
  obtain p where p: "ios_fs_primary_decode (se_primary e) = Inr p" "ios_fs_name_extension (p_name p) = Inr (ext, n)"
    using assms(2) by (auto simp: source_extension_def split: sum.splits)
  have "length (p_name p) = 11"
    using primary_decode_Inr(2) [OF p(1)] assms(1) by (simp add: entry_wf_def primary_disk_wf_def)
  from name_extension_cases [OF this p(2)] obtain bs es where
    es: "name_parts_ok bs es" "ext = es @ replicate (3 - length es) 0" "n = length es" by metis
  then show "length ext = 3" "n \<le> 3" "list_all supported_extension_byte (take n ext)"
    "overwrite (replicate 3 0) 0 (take n ext) = ext"
    by (auto simp: name_parts_ok_def supported_extension_byte_eq overwrite_def)
  show "entry_ext e = Some (take n ext)" using assms(2) by (simp add: entry_ext_def)
qed

section \<open>Lookup\<close>

lemma same_extension_entry:
  assumes "entry_wf e" and "source_extension e = Inr (ext, n)"
  shows "same_extension ext n q (length q) \<longleftrightarrow> entry_ext e = Some q"
  using source_extension_shape [OF assms] by (simp add: same_extension_iff)

fun matching :: "nat \<Rightarrow> ios_fs_registry_source_entry list \<Rightarrow> bytes \<Rightarrow> nat list" where
  "matching k [] q = []"
| "matching k (e # es) q = (if entry_ext e = Some q then [k] else []) @ matching (k + 1) es q"

lemma matching_eq: "matching k es q = filter (\<lambda>i. entry_ext (es ! (i - k)) = Some q) [k..<k + length es]"
proof (induction es arbitrary: k)
  case (Cons e es)
  have "filter (\<lambda>i. entry_ext (es ! (i - Suc k)) = Some q) [Suc k..<Suc k + length es]
      = filter (\<lambda>i. entry_ext ((e # es) ! (i - k)) = Some q) [Suc k..<Suc k + length es]"
    by (intro filter_cong) (auto simp: nth_Cons')
  then show ?case using Cons.IH [of "Suc k"] by (simp add: upt_conv_Cons del: upt_Suc)
qed simp

lemma lookup_loop_eq:
  assumes "\<forall>e \<in> set es. entry_wf e \<and> entry_ext e \<noteq> None" and "length ms \<le> cap"
  shows "\<exists>hv'. lookup_loop es k q hint cap hv ms = (hv', take cap (ms @ matching k es q),
      if length (ms @ matching k es q) \<le> cap then Inr () else Inl IOS_E_NO_SPACE)
    \<and> (length (ms @ matching k es q) \<le> cap \<longrightarrow> hv' = (hv \<or> (\<exists>h e. hint = Some h \<and> e \<in> set es \<and> entry_ext e = Some q
         \<and> se_directory_cluster e = rr_last_directory_cluster h \<and> se_primary_slot e = rr_last_directory_slot h)))"
  using assms
proof (induction es arbitrary: k hv ms)
  case (Cons e es)
  obtain ext n where src: "source_extension e = Inr (ext, n)"
    using Cons.prems(1) by (auto simp: entry_ext_def split: sum.splits)
  have same: "same_extension ext n q (length q) \<longleftrightarrow> entry_ext e = Some q"
    using Cons.prems(1) by (intro same_extension_entry src) simp
  have wf: "\<forall>e \<in> set es. entry_wf e \<and> entry_ext e \<noteq> None" using Cons.prems(1) by simp
  define hv1 where "hv1 = (hv \<or> (case hint of None \<Rightarrow> False | Some h \<Rightarrow>
      se_directory_cluster e = rr_last_directory_cluster h \<and> se_primary_slot e = rr_last_directory_slot h
      \<and> entry_ext e = Some q))"
  show ?case
  proof (cases "entry_ext e = Some q")
    case True
    show ?thesis
    proof (cases "length ms = cap")
      case True
      then show ?thesis using \<open>entry_ext e = Some q\<close> by (simp add: src same Let_def)
    next
      case False
      then have "length (ms @ [k]) \<le> cap" using Cons.prems(2) by simp
      from Cons.IH [OF wf this, of "Suc k" hv1] show ?thesis
        using True False
        by (auto simp: src same Let_def hv1_def split: option.splits)
    qed
  next
    case False
    from Cons.IH [OF wf Cons.prems(2), of "Suc k" hv1] False show ?thesis
      by (auto simp: src same Let_def hv1_def split: option.splits)
  qed
qed simp

lemma find_active_records [simp]: "rg_records (fst (find_active_record r ext)) = rg_records r"
  by (auto simp: find_active_record_def split: sum.splits option.splits)

lemma lookup_eq:
  assumes "\<forall>e \<in> set es. entry_wf e \<and> entry_ext e \<noteq> None" and "valid_extension q"
  shows "\<exists>r'. ios_fs_registry_lookup r es q cap = (r', take cap (matching 0 es q),
      if length (matching 0 es q) \<le> cap then Inr () else Inl IOS_E_NO_SPACE) \<and> rg_records r' = rg_records r"
proof -
  obtain r1 f where f: "find_active_record r q = (r1, f)" by (cases "find_active_record r q")
  then have r1: "rg_records r1 = rg_records r" using find_active_records [of r q] by simp
  define hint where "hint = (if rg_enabled r \<and> rg_health r = IOS_FS_REGISTRY_HEALTHY
     then (case f of Inl _ \<Rightarrow> None | Inr (_, h) \<Rightarrow> Some h) else None)"
  obtain hv where "lookup_loop es 0 q hint cap False [] = (hv, take cap (matching 0 es q),
      if length (matching 0 es q) \<le> cap then Inr () else Inl IOS_E_NO_SPACE)"
    using lookup_loop_eq [OF assms(1), of "[]" cap 0 q hint False] by auto
  then show ?thesis
    using assms(2) f r1 by (auto simp: ios_fs_registry_lookup_def Let_def hint_def split: sum.splits if_splits)
qed

section \<open>Refresh\<close>

lemma active_at_unused: "slot_sane d \<Longrightarrow> active_at d = None \<longleftrightarrow> empty_slot d \<or> (\<exists>v. ios_fs_registry_record_decode d = Inr v \<and> \<not> rr_active v)"
  by (auto simp: slot_sane_def active_at_def)

lemma refresh_scan_eq:
  assumes "n \<le> length ext"
  shows "refresh_scan ds k ext n target avail prev =
     (if \<not> list_all slot_sane ds \<or> length (hits k ds (take n ext)) + (if target = None then 0 else 1) > 1 then Inl IOS_E_CORRUPT
      else Inr (if target = None \<and> hits k ds (take n ext) \<noteq> [] then Some (fst (hd (hits k ds (take n ext)))) else target,
        if avail = None then map_option (\<lambda>i. k + i) (find_index (\<lambda>d. active_at d = None) ds) else avail,
        if hits k ds (take n ext) \<noteq> [] then snd (hd (hits k ds (take n ext))) else prev))"
proof (induction ds arbitrary: k target avail prev)
  case (Cons d ds)
  have shift: "map_option ((+) k \<circ> Suc) z = map_option ((+) (Suc k)) z" for z by (cases z) auto
  show ?case
  proof (cases "empty_slot d \<or> (\<exists>e. ios_fs_registry_record_decode d = Inl e)")
    case True
    then show ?thesis
      using Cons.IH [of "k + 1" target "if avail = None then Some k else avail" prev]
      by (auto simp: slot_sane_def active_at_def)
  next
    case False
    then obtain v where v: "ios_fs_registry_record_decode d = Inr v" "\<not> empty_slot d"
      by (cases "ios_fs_registry_record_decode d") auto
    note same = same_extension_rec [OF v(1) assms]
    have sane: "slot_sane d" using v by (simp add: slot_sane_def)
    show ?thesis
    proof (cases "rr_active v")
      case True
      then have act: "active_at d = Some v" using v by (simp add: active_at_def)
      show ?thesis
        using v same True sane act Cons.IH [of "k + 1" target avail prev] Cons.IH [of "k + 1" "Some k" avail v]
        by (cases target) (auto simp: shift option.map_comp)
    next
      case False
      then have act: "active_at d = None" using v by (simp add: active_at_def)
      show ?thesis
        using v False sane act Cons.IH [of "k + 1" target "if avail = None then Some k else avail" prev] by auto
    qed
  qed
qed simp

text \<open>The record that refresh and rebuild write for a source entry.\<close>

lemma encode_entry_record:
  assumes wf: "entry_wf e" and src: "source_extension e = Inr (ext, n)"
    and v: "rr_extension_length v = of_nat n" "rr_canonical_extension v = overwrite (replicate 3 0) 0 (take n ext)" "rr_active v"
  obtains d where "ios_fs_registry_record_encode v = Inr d" and "slot_sane d"
    and "active_at d = Some (v\<lparr>rr_extension_hash_text := ios_fs_hash_text (ios_fs_fnv1a32 (take n ext))\<rparr>)"
    and "rec_ext v = take n ext"
proof -
  note sh = source_extension_shape [OF wf src]
  have n: "unat (rr_extension_length v) = n" using v(1) sh(2) by (simp add: unat_of_nat)
  have ext: "rr_canonical_extension v = ext" using v(2) sh(4) by simp
  have zero: "all_zero (drop n ext)"
  proof -
    have "drop n ext = drop n (overwrite (replicate 3 0) 0 (take n ext))" by (simp only: sh(4))
    also have "\<dots> = replicate (3 - n) 0" using sh(1,2) by (simp add: overwrite_def)
    finally show ?thesis by simp
  qed
  have rext: "rec_ext v = take n ext" by (simp add: rec_ext_def n ext)
  have "valid_value_extension v" using sh(2,3) zero by (simp add: valid_value_extension_def Let_def n ext)
  then obtain d where d: "ios_fs_registry_record_encode v = Inr d" by (auto simp: ios_fs_registry_record_encode_def Let_def)
  note de = registry_decode_encode [OF _ d, unfolded ext, OF sh(1)]
  have "active_at d = Some (v\<lparr>rr_extension_hash_text := ios_fs_hash_text (ios_fs_fnv1a32 (take n ext))\<rparr>)"
    using de v(3) rext by (simp add: active_at_def)
  moreover have "slot_sane d" using de by (auto simp: slot_sane_def)
  ultimately show thesis using that d rext by blast
qed

lemma refresh_eq:
  assumes en: "rg_enabled r" and h: "rg_health r = IOS_FS_REGISTRY_HEALTHY" and ok: "registry_ok (rg_records r)"
    and wf: "entry_wf e" and q: "entry_ext e = Some q"
  defines "next_generation \<equiv> (case reg_map (rg_records r) q of None \<Rightarrow> 1 | Some (_, w) \<Rightarrow> rr_update_generation w + 1)"
  shows "(\<exists>r' t v. ios_fs_registry_refresh r (se_companion e) (se_primary e) (se_directory_cluster e) (se_primary_slot e)
        = (r', Inr (Some t)) \<and> rg_health r' = IOS_FS_REGISTRY_HEALTHY \<and> rg_enabled r' \<and> registry_ok (rg_records r')
      \<and> reg_map (rg_records r') = (reg_map (rg_records r))(q \<mapsto> (t, v))
      \<and> rr_last_directory_cluster v = se_directory_cluster e \<and> rr_last_directory_slot v = se_primary_slot e
      \<and> rr_update_generation v = next_generation)
    \<or> ios_fs_registry_refresh r (se_companion e) (se_primary e) (se_directory_cluster e) (se_primary_slot e)
        = (r\<lparr>rg_health := IOS_FS_REGISTRY_FULL\<rparr>, Inl IOS_E_NO_SPACE)
      \<and> reg_map (rg_records r) q = None \<and> (\<forall>d \<in> set (rg_records r). active_at d \<noteq> None)"
proof -
  let ?ds = "rg_records r"
  obtain ext n where src: "source_extension e = Inr (ext, n)" and qn: "q = take n ext"
    using q by (auto simp: entry_ext_def split: sum.splits)
  have src': "source_extension \<lparr>se_companion = se_companion e, se_primary = se_primary e,
      se_directory_cluster = se_directory_cluster e, se_primary_slot = se_primary_slot e\<rparr> = Inr (ext, n)"
    using src by (cases e) simp
  note sh = source_extension_shape [OF wf src]
  have one: "length (hits 0 ?ds q) \<le> 1" and sane: "list_all slot_sane ?ds" using ok by (auto simp: registry_ok_def)
  define target where "target = map_option fst (reg_map ?ds q)"
  define avail where "avail = find_index (\<lambda>d. active_at d = None) ?ds"
  define previous where "previous = (case reg_map ?ds q of None \<Rightarrow> zero_registry_record | Some (_, w) \<Rightarrow> w)"
  have shift0: "map_option ((+) (0 :: nat)) z = z" for z by (cases z) auto
  have scan: "refresh_scan ?ds 0 ext n None None zero_registry_record = Inr (target, avail, previous)"
    using one sane sh(1,2) unfolding target_def avail_def previous_def reg_map_def
    by (auto simp: refresh_scan_eq qn [symmetric] shift0 split: list.splits)
  have active: "rr_active w" if "reg_map ?ds q = Some (i, w)" for i w
    using reg_map_SomeD(2) [OF that] by (auto simp: active_at_def split: if_splits sum.splits)
  have gen: "(if rr_active previous then rr_update_generation previous + 1 else 1) = next_generation"
    using active by (auto simp: previous_def next_generation_def zero_registry_record_def split: option.splits)
  let ?v = "\<lparr>rr_active = True, rr_extension_length = of_nat n,
      rr_canonical_extension = overwrite (replicate 3 0) 0 (take n ext),
      rr_extension_hash_text = replicate 8 0,
      rr_last_directory_cluster = se_directory_cluster e, rr_last_directory_slot = se_primary_slot e,
      rr_update_generation = next_generation\<rparr>"
  obtain d where enc: "ios_fs_registry_record_encode ?v = Inr d" "slot_sane d"
    "active_at d = Some (?v\<lparr>rr_extension_hash_text := ios_fs_hash_text (ios_fs_fnv1a32 (take n ext))\<rparr>)" "rec_ext ?v = take n ext"
    by (rule encode_entry_record [OF wf src, of ?v]) auto
  let ?w = "?v\<lparr>rr_extension_hash_text := ios_fs_hash_text (ios_fs_fnv1a32 (take n ext))\<rparr>"
  have rw: "rec_ext ?w = q" using enc(4) qn by (simp add: rec_ext_def)
  show ?thesis
  proof (cases "if target = None then avail else target")
    case None
    then have "reg_map ?ds q = None" "\<forall>d \<in> set ?ds. active_at d \<noteq> None"
      by (auto simp: target_def avail_def find_index_None split: if_splits)
    then show ?thesis using None en h src' scan by (auto simp: ios_fs_registry_refresh_def Let_def split: if_splits)
  next
    case (Some t)
    have res: "ios_fs_registry_refresh r (se_companion e) (se_primary e) (se_directory_cluster e) (se_primary_slot e)
        = (r\<lparr>rg_records := ?ds[t := d]\<rparr>, Inr (Some t))"
      using Some en h src' scan enc(1) unfolding gen [symmetric] by (simp add: ios_fs_registry_refresh_def Let_def)
    have t: "t < length ?ds" "(\<exists>w. reg_map ?ds q = Some (t, w)) \<or> active_at (?ds ! t) = None \<and> reg_map ?ds q = None"
      using Some reg_map_SomeD(1) [of ?ds q] find_index_SomeD [of _ ?ds t]
      by (auto simp: target_def avail_def split: if_splits)
    note up = reg_map_update [OF ok t(1) enc(3,2), unfolded rw, OF t(2)]
    show ?thesis using res up h en by (intro disjI1 exI [of _ t] exI [of _ ?w] exI [of _ "r\<lparr>rg_records := ?ds[t := d]\<rparr>"]) simp
  qed
qed

section \<open>Rebuild\<close>

definition exts :: "ios_fs_registry_source_entry list \<Rightarrow> bytes set" where
  "exts es = {q. Some q \<in> entry_ext ` set es}"

lemma exts_simps [simp]:
  "exts [] = {}" "entry_ext e = Some q \<Longrightarrow> exts (e # es) = insert q (exts es)" "exts (es @ fs) = exts es \<union> exts fs"
  by (auto simp: exts_def)

lemma finite_exts [simp]: "finite (exts es)"
proof -
  have "exts es \<subseteq> (the \<circ> entry_ext) ` set es" 
  proof
    fix q assume "q \<in> exts es"
    then obtain e where "e \<in> set es" "entry_ext e = Some q" by (auto simp: exts_def)
    then show "q \<in> (the \<circ> entry_ext) ` set es" by (intro image_eqI [of _ _ e]) auto
  qed
  then show ?thesis by (rule finite_subset) simp
qed

lemma duplicate_extension_eq:
  assumes "entry_wf e" and "source_extension e = Inr (ext, n)" and "\<forall>e \<in> set prior. entry_wf e \<and> entry_ext e \<noteq> None"
  shows "duplicate_extension prior ext n = Inr (take n ext \<in> exts prior)"
  using assms(3)
proof (induction prior)
  case (Cons p prior)
  obtain x m where p: "source_extension p = Inr (x, m)" using Cons.prems by (auto simp: entry_ext_def split: sum.splits)
  have pw: "entry_wf p" using Cons.prems by simp
  note a = source_extension_shape [OF pw p] and b = source_extension_shape [OF assms(1,2)]
  have "same_extension ext n x m \<longleftrightarrow> take n ext = take m x" using a b by (simp add: same_extension_iff)
  then show ?case using Cons a(5) p by auto
qed simp

lemma rebuild_check_eq:
  assumes "\<forall>e \<in> set (prior @ es). entry_wf e \<and> entry_ext e \<noteq> None" and "card (exts prior) \<le> cap"
  shows "rebuild_check prior es (card (exts prior)) cap =
    (if card (exts (prior @ es)) \<le> cap then Inr () else Inl IOS_E_NO_SPACE)"
  using assms
proof (induction es arbitrary: prior)
  case (Cons e es)
  have ew: "entry_wf e" using Cons.prems by simp
  obtain ext n where e: "source_extension e = Inr (ext, n)" using Cons.prems by (auto simp: entry_ext_def split: sum.splits)
  have q: "entry_ext e = Some (take n ext)" using source_extension_shape(5) [OF ew e] .
  have dup: "duplicate_extension prior ext n = Inr (take n ext \<in> exts prior)"
    using Cons.prems by (intro duplicate_extension_eq [OF ew e]) auto
  have pe: "exts (prior @ [e]) = insert (take n ext) (exts prior)" using q by simp
  show ?case
  proof (cases "take n ext \<in> exts prior")
    case True
    then have "exts (prior @ [e]) = exts prior" using pe by auto
    then show ?thesis using Cons.IH [of "prior @ [e]"] Cons.prems e dup True q by auto
  next
    case False
    then have c: "card (exts (prior @ [e])) = card (exts prior) + 1" using pe by simp
    have "exts (prior @ [e]) \<subseteq> exts (prior @ e # es)" using q by auto
    then have le: "card (exts (prior @ [e])) \<le> card (exts (prior @ e # es))" by (intro card_mono) simp
    show ?thesis
    proof (cases "card (exts prior) + 1 > cap")
      case True
      then show ?thesis using e dup False c le by simp
    next
      case ok: False
      then show ?thesis using Cons.IH [of "prior @ [e]"] Cons.prems(1) e dup False c by simp
    qed
  qed
qed simp

lemma hits_append: "hits k (ds @ fs) ext = hits k ds ext @ hits (k + length ds) fs ext"
  by (induction ds arbitrary: k) (auto split: option.splits)

lemma hits_inactive: "\<forall>d \<in> set ds. active_at d = None \<Longrightarrow> hits k ds ext = []"
  by (induction ds arbitrary: k) auto

lemma rebuild_search_eq:
  assumes "\<forall>d \<in> set ds. active_at d \<noteq> None" and "n \<le> length ext"
  shows "rebuild_search ds k ext n = Inr (case hits k ds (take n ext) of [] \<Rightarrow> None | h # _ \<Rightarrow> Some h)"
  using assms(1)
proof (induction ds arbitrary: k)
  case (Cons d ds)
  then obtain v where v: "active_at d = Some v" by auto
  then have dec: "ios_fs_registry_record_decode d = Inr v" by (auto simp: active_at_def split: if_splits sum.splits)
  show ?case using v dec same_extension_rec [OF dec assms(2)] Cons.IH [of "Suc k"] Cons.prems by auto
qed simp

text \<open>The first \<open>active_count\<close> slots are in use, the rest are not.\<close>

definition rebuild_inv :: "registry_record_disk list \<Rightarrow> nat \<Rightarrow> bool" where
  "rebuild_inv recs ac \<longleftrightarrow> ac \<le> length recs \<and> registry_ok recs
     \<and> (\<forall>i < length recs. active_at (recs ! i) \<noteq> None \<longleftrightarrow> i < ac)"

lemma rebuild_search_map:
  assumes inv: "rebuild_inv recs ac" and n: "n \<le> length ext"
  shows "rebuild_search (take ac recs) 0 ext n = Inr (reg_map recs (take n ext))"
proof -
  have len: "length (take ac recs) = ac" using inv by (simp add: rebuild_inv_def)
  have act: "\<forall>d \<in> set (take ac recs). active_at d \<noteq> None"
    using inv by (auto simp: rebuild_inv_def in_set_conv_nth)
  have "active_at (recs ! (ac + i)) = None" if "i < length recs - ac" for i
  proof -
    have "ac + i < length recs" using that by simp
    then show ?thesis using inv unfolding rebuild_inv_def by (metis not_add_less1)
  qed
  then have "\<forall>d \<in> set (drop ac recs). active_at d = None" by (auto simp: in_set_conv_nth)
  then have "hits 0 recs (take n ext) = hits 0 (take ac recs) (take n ext)"
    using hits_append [of 0 "take ac recs" "drop ac recs"] hits_inactive by simp
  then show ?thesis using rebuild_search_eq [OF act n] by (simp add: reg_map_def)
qed

lemma rebuild_inv_update:
  assumes "rebuild_inv recs ac" and "registry_ok (recs[t := d])" and "active_at d \<noteq> None" and "t < length recs" and "t \<le> ac"
  shows "rebuild_inv (recs[t := d]) (if t = ac then ac + 1 else ac)"
  using assms by (auto simp: rebuild_inv_def nth_list_update)

lemma find_snoc: "find P (xs @ [y]) = (case find P xs of None \<Rightarrow> if P y then Some y else None | Some x \<Rightarrow> Some x)"
  by (induction xs) auto

definition location :: "(nat \<times> ios_fs_registry_record) option \<Rightarrow> (u32 \<times> u16) option" where
  "location = map_option (\<lambda>(i, v). (rr_last_directory_cluster v, rr_last_directory_slot v))"

definition last_location :: "ios_fs_registry_source_entry list \<Rightarrow> bytes \<Rightarrow> (u32 \<times> u16) option" where
  "last_location es q = map_option (\<lambda>e. (se_directory_cluster e, se_primary_slot e))
     (find (\<lambda>e. entry_ext e = Some q) (rev es))"

lemma last_location_Cons:
  "last_location (e # es) q = (case last_location es q of Some l \<Rightarrow> Some l
     | None \<Rightarrow> if entry_ext e = Some q then Some (se_directory_cluster e, se_primary_slot e) else None)"
  by (auto simp: last_location_def find_snoc split: option.splits)

lemma rebuild_loop_correct:
  assumes "rebuild_inv recs ac" and "\<forall>e \<in> set es. entry_wf e \<and> entry_ext e \<noteq> None"
    and "card (exts es - dom (reg_map recs)) \<le> length recs - ac"
  shows "\<exists>recs'. rebuild_loop es recs ac = (recs', Inr ()) \<and> registry_ok recs' \<and> length recs' = length recs
    \<and> (\<forall>q. location (reg_map recs' q) = (case last_location es q of Some l \<Rightarrow> Some l | None \<Rightarrow> location (reg_map recs q)))"
  using assms
proof (induction es arbitrary: recs ac)
  case Nil
  then show ?case by (auto simp: rebuild_inv_def last_location_def)
next
  case (Cons e es)
  have ok: "registry_ok recs" and ac: "ac \<le> length recs" using Cons.prems(1) by (auto simp: rebuild_inv_def)
  have ew: "entry_wf e" and es: "\<forall>e \<in> set es. entry_wf e \<and> entry_ext e \<noteq> None" using Cons.prems(2) by auto
  obtain ext n where src: "source_extension e = Inr (ext, n)" using Cons.prems(2) by (auto simp: entry_ext_def split: sum.splits)
  note sh = source_extension_shape [OF ew src]
  let ?q = "take n ext"
  have search: "rebuild_search (take ac recs) 0 ext n = Inr (reg_map recs ?q)"
    using sh by (intro rebuild_search_map Cons.prems(1)) simp
  define t where "t = (case reg_map recs ?q of None \<Rightarrow> ac | Some (i, _) \<Rightarrow> i)"
  define old where "old = (case reg_map recs ?q of None \<Rightarrow> zero_registry_record | Some (_, w) \<Rightarrow> w)"
  define ac' where "ac' = (if t = ac then ac + 1 else ac)"
  have room: "reg_map recs ?q = None \<Longrightarrow> ac < length recs"
  proof -
    assume "reg_map recs ?q = None"
    then have "?q \<in> exts (e # es) - dom (reg_map recs)" using sh(5) by auto
    then have "0 < card (exts (e # es) - dom (reg_map recs))" by (metis card_gt_0_iff empty_iff finite_Diff finite_exts)
    then show "ac < length recs" using Cons.prems(3) by linarith
  qed
  have old_slot: "i < ac" if "reg_map recs ?q = Some (i, w)" for i w
    using reg_map_SomeD [OF that] Cons.prems(1) by (auto simp: rebuild_inv_def)
  have t: "t < length recs" "t \<le> ac" "(\<exists>w. reg_map recs ?q = Some (t, w)) \<or> active_at (recs ! t) = None \<and> reg_map recs ?q = None"
    using room old_slot ac Cons.prems(1) by (fastforce simp: t_def rebuild_inv_def split: option.splits)+
  have ac'_eq: "(case reg_map recs ?q of None \<Rightarrow> ac + 1 | Some _ \<Rightarrow> ac) = ac'"
    using old_slot by (auto simp: ac'_def t_def split: option.splits)
  let ?v = "old\<lparr>rr_active := True, rr_extension_length := of_nat n,
      rr_canonical_extension := overwrite (replicate 3 0) 0 ?q,
      rr_last_directory_cluster := se_directory_cluster e, rr_last_directory_slot := se_primary_slot e,
      rr_update_generation := rr_update_generation old + 1\<rparr>"
  obtain d where enc: "ios_fs_registry_record_encode ?v = Inr d" "slot_sane d"
    "active_at d = Some (?v\<lparr>rr_extension_hash_text := ios_fs_hash_text (ios_fs_fnv1a32 ?q)\<rparr>)" "rec_ext ?v = ?q"
    by (rule encode_entry_record [OF ew src, of ?v]) auto
  let ?w = "?v\<lparr>rr_extension_hash_text := ios_fs_hash_text (ios_fs_fnv1a32 ?q)\<rparr>"
  have rw: "rec_ext ?w = ?q" using enc(4) by (simp add: rec_ext_def)
  note up = reg_map_update [OF ok t(1) enc(3,2), unfolded rw, OF t(3)]
  have step: "rebuild_loop (e # es) recs ac = rebuild_loop es (recs[t := d]) ac'"
    using src search enc(1) unfolding ac'_eq [symmetric]
    by (auto simp: t_def old_def Let_def split: option.splits)
  have inv': "rebuild_inv (recs[t := d]) ac'"
    unfolding ac'_def using enc(3) by (intro rebuild_inv_update Cons.prems(1) up(1) t) simp
  have "card (exts es - dom (reg_map (recs[t := d]))) \<le> length recs - ac'"
  proof (cases "reg_map recs ?q")
    case None
    have "exts es - dom (reg_map (recs[t := d])) \<subseteq> (exts (e # es) - dom (reg_map recs)) - {?q}"
      using up(2) sh(5) by auto
    then have "card (exts es - dom (reg_map (recs[t := d]))) \<le> card ((exts (e # es) - dom (reg_map recs)) - {?q})"
      by (intro card_mono) auto
    also have "\<dots> = card (exts (e # es) - dom (reg_map recs)) - 1"
      using None sh(5) by (subst card_Diff_singleton) auto
    finally show ?thesis using Cons.prems(3) None by (simp add: ac'_def t_def)
  next
    case (Some p)
    then have "exts es - dom (reg_map (recs[t := d])) = exts (e # es) - dom (reg_map recs)" using up(2) sh(5) by auto
    moreover have "ac' = ac" using Some old_slot by (cases p) (auto simp: ac'_def t_def)
    ultimately show ?thesis using Cons.prems(3) by simp
  qed
  then obtain recs' where r: "rebuild_loop es (recs[t := d]) ac' = (recs', Inr ())" "registry_ok recs'"
    "length recs' = length recs"
    "\<And>q. location (reg_map recs' q) = (case last_location es q of Some l \<Rightarrow> Some l | None \<Rightarrow> location (reg_map (recs[t := d]) q))"
    using Cons.IH [OF inv' es] by auto
  have "location (reg_map recs' q) = (case last_location (e # es) q of Some l \<Rightarrow> Some l | None \<Rightarrow> location (reg_map recs q))" for q
    using r(4) [of q] sh(5) up(2) by (auto simp: last_location_Cons location_def split: option.splits)
  then show ?case using step r by auto
qed

lemma zero_disk_unused [simp]: "empty_slot zero_registry_disk" "active_at zero_registry_disk = None" "slot_sane zero_registry_disk"
proof -
  show "empty_slot zero_registry_disk"
    by (simp add: empty_slot_def zero_registry_disk_def registry_disk_of_def registry_disk_bytes_def field_at_def all_zero_def)
  then show "active_at zero_registry_disk = None" "slot_sane zero_registry_disk"
    by (simp_all add: active_at_def slot_sane_def)
qed

lemma rebuild_eq:
  assumes "rg_enabled r" and "\<forall>e \<in> set es. entry_wf e \<and> entry_ext e \<noteq> None"
  shows "if card (exts es) \<le> length (rg_records r)
    then \<exists>r'. ios_fs_registry_rebuild r es = (r', Inr ()) \<and> rg_health r' = IOS_FS_REGISTRY_HEALTHY \<and> rg_enabled r'
      \<and> registry_ok (rg_records r') \<and> length (rg_records r') = length (rg_records r)
      \<and> (\<forall>q. location (reg_map (rg_records r') q) = last_location es q)
    else ios_fs_registry_rebuild r es = (r\<lparr>rg_health := IOS_FS_REGISTRY_FULL\<rparr>, Inl IOS_E_NO_SPACE)"
proof -
  let ?z = "replicate (length (rg_records r)) zero_registry_disk"
  have check: "validate_rebuild_entries es (length (rg_records r)) =
      (if card (exts es) \<le> length (rg_records r) then Inr () else Inl IOS_E_NO_SPACE)"
    using rebuild_check_eq [of "[]" es "length (rg_records r)"] assms(2) by (simp add: validate_rebuild_entries_def)
  have none: "reg_map ?z q = None" for q by (simp add: reg_map_None)
  have inv: "rebuild_inv ?z 0"
    by (auto simp: rebuild_inv_def registry_ok_iff list_all_iff)
  show ?thesis
  proof (cases "card (exts es) \<le> length (rg_records r)")
    case True
    have "card (exts es - dom (reg_map ?z)) \<le> length ?z - 0" using True none by (simp add: dom_def)
    from rebuild_loop_correct [OF inv assms(2) this] obtain recs where
      l: "rebuild_loop es ?z 0 = (recs, Inr ())" "registry_ok recs" "length recs = length ?z"
        "\<forall>q. location (reg_map recs q) = (case last_location es q of Some l \<Rightarrow> Some l | None \<Rightarrow> location (reg_map ?z q))"
      by blast
    have "location (reg_map recs q) = last_location es q" for q
      using l(4) none by (auto simp: location_def split: option.splits)
    then show ?thesis using True check assms(1) l by (simp add: ios_fs_registry_rebuild_def)
  qed (use check assms(1) in \<open>simp add: ios_fs_registry_rebuild_def\<close>)
qed

section \<open>Properties\<close>

text \<open>The registry is only a hint. Whatever its slots hold and whatever its health, a lookup
  returns the indices of exactly the files with the requested extension, in order and cut off
  at the capacity, reports lack of space exactly when there are more, and changes no slot.\<close>
theorem registry_lookup_exact:
  assumes "\<forall>e \<in> set entries. entry_wf e \<and> entry_ext e \<noteq> None" and "valid_extension q"
  shows "\<exists>r'. ios_fs_registry_lookup r entries q cap =
      (r', take cap (filter (\<lambda>i. entry_ext (entries ! i) = Some q) [0..<length entries]),
       if length (filter (\<lambda>i. entry_ext (entries ! i) = Some q) [0..<length entries]) \<le> cap
       then Inr () else Inl IOS_E_NO_SPACE)
    \<and> rg_records r' = rg_records r"
  using lookup_eq [OF assms] by (simp add: matching_eq)

text \<open>On a healthy table a refresh acts on the map from extensions to records: it binds the
  extension of the file to a slot whose record holds the file's place and the next generation,
  changes no other binding and keeps the table consistent; or it fails, only because the
  extension has no record and every slot is in use, changes nothing and marks the table full.\<close>
theorem registry_refresh_correct:
  assumes "rg_enabled r" and "rg_health r = IOS_FS_REGISTRY_HEALTHY" and "registry_ok (rg_records r)"
    and "entry_wf e" and "entry_ext e = Some q"
  shows "(\<exists>r' t v. ios_fs_registry_refresh r (se_companion e) (se_primary e) (se_directory_cluster e) (se_primary_slot e)
        = (r', Inr (Some t)) \<and> rg_health r' = IOS_FS_REGISTRY_HEALTHY \<and> rg_enabled r' \<and> registry_ok (rg_records r')
      \<and> reg_map (rg_records r') = (reg_map (rg_records r))(q \<mapsto> (t, v))
      \<and> rr_last_directory_cluster v = se_directory_cluster e \<and> rr_last_directory_slot v = se_primary_slot e
      \<and> rr_update_generation v = (case reg_map (rg_records r) q of None \<Rightarrow> 1 | Some (_, w) \<Rightarrow> rr_update_generation w + 1))
    \<or> ios_fs_registry_refresh r (se_companion e) (se_primary e) (se_directory_cluster e) (se_primary_slot e)
        = (r\<lparr>rg_health := IOS_FS_REGISTRY_FULL\<rparr>, Inl IOS_E_NO_SPACE)
      \<and> reg_map (rg_records r) q = None \<and> (\<forall>d \<in> set (rg_records r). active_at d \<noteq> None)"
  using assms by (rule refresh_eq)

text \<open>A rebuild from the directory entries succeeds exactly when the table has a slot for every
  extension; it then ends healthy and consistent, and finds for every extension the place of
  the last file that has it and nothing for any other extension. Otherwise it changes no slot.\<close>
theorem registry_rebuild_correct:
  assumes "rg_enabled r" and "\<forall>e \<in> set entries. entry_wf e \<and> entry_ext e \<noteq> None"
  shows "if card (exts entries) \<le> length (rg_records r)
    then \<exists>r'. ios_fs_registry_rebuild r entries = (r', Inr ()) \<and> rg_health r' = IOS_FS_REGISTRY_HEALTHY \<and> rg_enabled r'
      \<and> registry_ok (rg_records r') \<and> length (rg_records r') = length (rg_records r)
      \<and> (\<forall>q. location (reg_map (rg_records r') q) = last_location entries q)
    else ios_fs_registry_rebuild r entries = (r\<lparr>rg_health := IOS_FS_REGISTRY_FULL\<rparr>, Inl IOS_E_NO_SPACE)"
  using assms by (rule rebuild_eq)

text \<open>A registry record that is written reads back as itself, with the hash of its extension;
  and any damage to one byte of a readable record makes it unreadable.\<close>
theorem registry_record_integrity:
  assumes "length (rr_canonical_extension v) = 3" and "ios_fs_registry_record_encode v = Inr d"
    and "i < 32" and "registry_disk_bytes d ! i \<noteq> b"
  shows "ios_fs_registry_record_decode d = Inr (v\<lparr>rr_extension_hash_text := ios_fs_hash_text (ios_fs_fnv1a32 (rec_ext v))\<rparr>)
    \<and> (\<exists>e. ios_fs_registry_record_decode (registry_disk_of ((registry_disk_bytes d)[i := b])) = Inl e)"
proof -
  note de = registry_decode_encode [OF assms(1,2)]
  have "length (registry_disk_bytes d) = 32" using de(1) by (simp add: registry_disk_bytes_def registry_disk_wf_def)
  then show ?thesis using registry_one_byte [of "registry_disk_bytes d" i b] assms(3,4) de by (simp add: registry_disk_of_bytes)
qed

section \<open>Witnesses\<close>

definition source_A_TXT :: ios_fs_registry_source_entry where
  "source_A_TXT = \<lparr>se_companion = companion_disk_A_TXT, se_primary = primary_disk_A_TXT,
     se_directory_cluster = 2, se_primary_slot = 1\<rparr>"

lemma source_A_TXT_ok: "entry_wf source_A_TXT" "entry_ext source_A_TXT = Some [84, 88, 84]"
proof -
  have "ios_fs_record_pair_validate companion_disk_A_TXT primary_disk_A_TXT = Inr ()"
    using pair_validate_iff [OF wf_A_TXT] decode_A_TXT encode_A_TXT(2) by (simp add: primary_A_TXT_def)
  then show "entry_ext source_A_TXT = Some [84, 88, 84]"
    using decode_A_TXT extension_A_TXT by (simp add: entry_ext_def source_extension_def source_A_TXT_def primary_A_TXT_def)
  show "entry_wf source_A_TXT" using wf_A_TXT by (simp add: entry_wf_def source_A_TXT_def)
qed

definition fresh_registry :: ios_fs_registry where
  "fresh_registry = \<lparr>rg_records = replicate 2 zero_registry_disk, rg_enabled = True, rg_health = IOS_FS_REGISTRY_HEALTHY\<rparr>"

lemma fresh_registry_ok: "registry_ok (rg_records fresh_registry)"
  by (auto simp: registry_ok_iff fresh_registry_def list_all_iff)

theorem registry_lookup_exact_witness:
  "\<exists>r'. ios_fs_registry_lookup fresh_registry [source_A_TXT] [84, 88, 84] 1 = (r', [0], Inr ())"
  using registry_lookup_exact [of "[source_A_TXT]" "[84, 88, 84]" fresh_registry 1] source_A_TXT_ok
  by (auto simp: valid_extension_def supported_extension_byte_def)

theorem registry_refresh_correct_witness:
  "\<exists>r' t. ios_fs_registry_refresh fresh_registry companion_disk_A_TXT primary_disk_A_TXT 2 1 = (r', Inr (Some t))
     \<and> reg_map (rg_records r') [84, 88, 84] \<noteq> None"
  using registry_refresh_correct [OF _ _ fresh_registry_ok source_A_TXT_ok]
  by (auto simp: fresh_registry_def source_A_TXT_def)

theorem registry_rebuild_correct_witness:
  "\<exists>r'. ios_fs_registry_rebuild fresh_registry [source_A_TXT] = (r', Inr ())
     \<and> location (reg_map (rg_records r') [84, 88, 84]) = Some (2, 1)"
proof -
  have "card (exts [source_A_TXT]) \<le> 2" using source_A_TXT_ok by simp
  then show ?thesis
    using registry_rebuild_correct [of fresh_registry "[source_A_TXT]"] source_A_TXT_ok
    by (auto simp: fresh_registry_def last_location_def source_A_TXT_def)
qed

theorem registry_record_integrity_witness:
  "\<exists>d e. ios_fs_registry_record_encode zero_registry_record = Inr d
     \<and> ios_fs_registry_record_decode (registry_disk_of ((registry_disk_bytes d)[0 := 0])) = Inl e"
proof -
  have "valid_value_extension zero_registry_record" by (simp add: valid_value_extension_def zero_registry_record_def)
  then obtain d where d: "ios_fs_registry_record_encode zero_registry_record = Inr d"
    by (auto simp: ios_fs_registry_record_encode_def Let_def)
  then have "registry_disk_bytes d ! 0 \<noteq> 0"
    by (auto simp: ios_fs_registry_record_encode_def Let_def registry_disk_bytes_def split: if_splits)
  then show ?thesis
    using registry_record_integrity [OF _ d, of 0 0] d by (auto simp: zero_registry_record_def)
qed

end
