(* ===== verification/Fs_Directory.thy ===== *)
theory Fs_Directory
  imports Fs_Records
begin

text \<open>
  Directory contents (directory.h, directory.c). The slot array is the list of its 32-byte
  slots, so \<open>slot_count\<close> is its length. The specification is the relation
  \<open>directory_lists\<close>: which entries the slots from a given one on hold. The scan is shown to
  compute it, together with the duplicate-name rule, and the search for a free pair of slots
  is shown to give a place where a new file becomes visible to the scan.
\<close>

section \<open>Entries\<close>

datatype ios_fs_directory_entry_kind =
    IOS_FS_DIRECTORY_ENTRY_REGULAR
  | IOS_FS_DIRECTORY_ENTRY_DIRECTORY
  | IOS_FS_DIRECTORY_ENTRY_INTERNAL

record ios_fs_directory_entry =
  de_primary :: ios_fs_primary
  de_primary_slot :: nat
  de_companion_slot :: nat
  de_kind :: ios_fs_directory_entry_kind

abbreviation IOS_FS_PRIMARY_RECORD_SIZE :: nat where "IOS_FS_PRIMARY_RECORD_SIZE \<equiv> 32"
abbreviation IOS_FS_DIRECTORY_SLOTS_PER_CLUSTER :: nat where
  "IOS_FS_DIRECTORY_SLOTS_PER_CLUSTER \<equiv> 128"

definition slot_at :: "bytes list \<Rightarrow> nat \<Rightarrow> bytes" where
  "slot_at slots index = slots ! index"

definition slots_of :: "bytes \<Rightarrow> bytes list" where
  "slots_of buffer = map (\<lambda>index. field_at (index * IOS_FS_PRIMARY_RECORD_SIZE) IOS_FS_PRIMARY_RECORD_SIZE buffer)
     [0..<length buffer div IOS_FS_PRIMARY_RECORD_SIZE]"

definition is_internal_name :: "bytes \<Rightarrow> bool" where
  "is_internal_name name \<longleftrightarrow>
     (if name ! 0 \<noteq> 0x2e then False
      else if name ! 1 = 0x2e then (\<forall>index \<in> {2..<11}. name ! index = 0x20)
      else (\<forall>index \<in> {1..<11}. name ! index = 0x20))"

definition decode_internal :: "primary_disk \<Rightarrow> ios_fs_primary res" where
  "decode_internal disk =
     (if \<not> is_internal_name (pd_name disk) \<or> pd_attributes disk \<noteq> IOS_FS_ATTRIBUTE_DIRECTORY
      then Inl IOS_E_PROTOCOL
      else let bs = primary_disk_bytes disk in
        if (\<exists>index \<in> {0x0c..<0x14}. bs ! index \<noteq> 0) \<or> (\<exists>index \<in> {0x16..<0x1a}. bs ! index \<noteq> 0)
          \<or> (\<exists>index \<in> {0x1c..<0x20}. bs ! index \<noteq> 0) then Inl IOS_E_PROTOCOL
        else let cluster = (push_bit 16 (ucast (pd_first_cluster_high disk ! 0))
                  OR push_bit 24 (ucast (pd_first_cluster_high disk ! 1))
                  OR ucast (pd_first_cluster_low disk ! 0)
                  OR push_bit 8 (ucast (pd_first_cluster_low disk ! 1)) :: u32) in
          if cluster < 2 \<or> unat cluster > IOS_FS_MAX_DATA_CLUSTER then Inl IOS_E_PROTOCOL
          else Inr \<lparr>p_name = pd_name disk, p_attributes = pd_attributes disk,
                 p_first_cluster = cluster, p_file_size = 0\<rparr>)"

definition duplicate_name :: "ios_fs_directory_entry list \<Rightarrow> bytes \<Rightarrow> bool" where
  "duplicate_name entries name \<longleftrightarrow>
     (\<exists>entry \<in> set entries. de_kind entry \<noteq> IOS_FS_DIRECTORY_ENTRY_INTERNAL
        \<and> p_name (de_primary entry) = name)"

section \<open>Scan\<close>

text \<open>
  The part of the loop body that decodes the record at an occupied slot: the entry and the
  slot at which the loop continues.
\<close>

definition scan_entry :: "bytes list \<Rightarrow> nat \<Rightarrow> nat \<Rightarrow> (ios_fs_directory_entry \<times> nat) res" where
  "scan_entry slots slots_per_cluster slot =
     (let bs = slot_at slots slot in
      if bs ! 0 = IOS_FS_COMPANION_RECORD_TYPE then
        if slot + 1 \<ge> length slots \<or> slot mod slots_per_cluster + 1 \<ge> slots_per_cluster
        then Inl IOS_E_CORRUPT
        else let primary_disk = primary_disk_of (slot_at slots (slot + 1)) in
          (case ios_fs_record_pair_validate (companion_disk_of bs) primary_disk of
             Inl _ \<Rightarrow> Inl IOS_E_CORRUPT
           | Inr _ \<Rightarrow>
              (case ios_fs_primary_decode primary_disk of
                 Inl _ \<Rightarrow> Inl IOS_E_CORRUPT
               | Inr primary \<Rightarrow>
                   Inr (\<lparr>de_primary = primary, de_primary_slot = slot + 1, de_companion_slot = slot,
                         de_kind = IOS_FS_DIRECTORY_ENTRY_REGULAR\<rparr>, slot + 2)))
      else let disk = primary_disk_of bs in
        if is_internal_name (pd_name disk) then
          (case decode_internal disk of
             Inl e \<Rightarrow> Inl e
           | Inr primary \<Rightarrow>
               Inr (\<lparr>de_primary = primary, de_primary_slot = slot, de_companion_slot = SIZE_MAX,
                     de_kind = IOS_FS_DIRECTORY_ENTRY_INTERNAL\<rparr>, slot + 1))
        else
          (case ios_fs_primary_decode disk of
             Inl e \<Rightarrow> Inl e
           | Inr primary \<Rightarrow>
               if p_attributes primary \<noteq> IOS_FS_ATTRIBUTE_DIRECTORY then Inl IOS_E_CORRUPT
               else Inr (\<lparr>de_primary = primary, de_primary_slot = slot, de_companion_slot = SIZE_MAX,
                          de_kind = IOS_FS_DIRECTORY_ENTRY_DIRECTORY\<rparr>, slot + 1)))"

lemma scan_entry_next: "scan_entry slots spc slot = Inr (entry, next) \<Longrightarrow> slot < next \<and> next \<le> slot + 2"
  by (auto simp: scan_entry_def Let_def split: if_splits sum.splits)

function scan_loop ::
  "bytes list \<Rightarrow> nat \<Rightarrow> nat \<Rightarrow> nat \<Rightarrow> ios_fs_directory_entry list \<Rightarrow> ios_fs_directory_entry list res" where
  "scan_loop slots slots_per_cluster entry_capacity slot entries =
     (if slot \<ge> length slots then Inr entries
      else if slot_at slots slot ! 0 = 0 then Inr entries
      else if slot_at slots slot ! 0 = 0xe5
      then scan_loop slots slots_per_cluster entry_capacity (slot + 1) entries
      else case scan_entry slots slots_per_cluster slot of
          Inl e \<Rightarrow> Inl e
        | Inr (entry, next) \<Rightarrow>
            if duplicate_name entries (p_name (de_primary entry)) then Inl IOS_E_ALREADY_EXISTS
            else if length entries = entry_capacity then Inl IOS_E_NO_SPACE
            else scan_loop slots slots_per_cluster entry_capacity next (entries @ [entry]))"
  by pat_completeness auto
termination
proof (relation "measure (\<lambda>(slots, spc, cap, slot, entries). length slots - slot)")
  show "wf (measure (\<lambda>(slots, spc, cap, slot, entries). length slots - slot))" by (rule wf_measure)
qed (auto dest!: scan_entry_next)

declare scan_loop.simps [simp del]

definition ios_fs_directory_scan ::
  "bytes list \<Rightarrow> nat \<Rightarrow> nat \<Rightarrow> ios_fs_directory_entry list res" where
  "ios_fs_directory_scan slots slots_per_cluster entry_capacity =
     (if length slots = 0 \<or> length slots > SIZE_MAX div IOS_FS_PRIMARY_RECORD_SIZE
         \<or> slots_per_cluster = 0 \<or> length slots mod slots_per_cluster \<noteq> 0
      then Inl IOS_E_INVALID_ARGUMENT
      else scan_loop slots slots_per_cluster entry_capacity 0 [])"

section \<open>Free slots\<close>

definition slot_available :: "bytes \<Rightarrow> bool \<Rightarrow> bool" where
  "slot_available bs after_end \<longleftrightarrow> after_end \<or> bs ! 0 = 0 \<or> bs ! 0 = 0xe5"

function find_pair_loop :: "bytes list \<Rightarrow> nat \<Rightarrow> nat \<Rightarrow> bool \<Rightarrow> nat res" where
  "find_pair_loop slots slots_per_cluster slot after_end =
     (if slot + 1 < length slots then
        let current = slot_at slots slot;
            next = slot_at slots (slot + 1);
            after_end = (after_end \<or> current ! 0 = 0)
        in if slot mod slots_per_cluster + 1 < slots_per_cluster
              \<and> slot_available current after_end
              \<and> slot_available next (after_end \<or> next ! 0 = 0)
           then Inr slot
           else find_pair_loop slots slots_per_cluster (slot + 1) after_end
      else Inl IOS_E_NO_SPACE)"
  by pat_completeness auto
termination by (relation "measure (\<lambda>(slots, spc, slot, after_end). length slots - slot)") auto

declare find_pair_loop.simps [simp del]

definition ios_fs_directory_find_pair_slots :: "bytes list \<Rightarrow> nat \<Rightarrow> nat res" where
  "ios_fs_directory_find_pair_slots slots slots_per_cluster =
     (if length slots < 2 \<or> length slots > SIZE_MAX div IOS_FS_PRIMARY_RECORD_SIZE
         \<or> slots_per_cluster < 2 \<or> length slots mod slots_per_cluster \<noteq> 0
      then Inl IOS_E_INVALID_ARGUMENT
      else find_pair_loop slots slots_per_cluster 0 False)"

section \<open>Specification: what a directory holds\<close>

inductive directory_lists ::
  "bytes list \<Rightarrow> nat \<Rightarrow> nat \<Rightarrow> ios_fs_directory_entry list \<Rightarrow> bool" for slots spc where
  lists_full: "length slots \<le> slot \<Longrightarrow> directory_lists slots spc slot []"
| lists_end: "slot < length slots \<Longrightarrow> slots ! slot ! 0 = 0 \<Longrightarrow> directory_lists slots spc slot []"
| lists_deleted: "slot < length slots \<Longrightarrow> slots ! slot ! 0 = 0xe5
    \<Longrightarrow> directory_lists slots spc (slot + 1) es \<Longrightarrow> directory_lists slots spc slot es"
| lists_entry: "slot < length slots \<Longrightarrow> slots ! slot ! 0 \<noteq> 0 \<Longrightarrow> slots ! slot ! 0 \<noteq> 0xe5
    \<Longrightarrow> scan_entry slots spc slot = Inr (e, nxt) \<Longrightarrow> directory_lists slots spc nxt es
    \<Longrightarrow> directory_lists slots spc slot (e # es)"

text \<open>No entry repeats the name of an earlier regular file or directory.\<close>

definition names_ok :: "ios_fs_directory_entry list \<Rightarrow> bool" where
  "names_ok = sorted_wrt (\<lambda>e f. de_kind e \<noteq> IOS_FS_DIRECTORY_ENTRY_INTERNAL
     \<longrightarrow> p_name (de_primary e) \<noteq> p_name (de_primary f))"

lemma names_ok_snoc: "names_ok (es @ [e]) \<longleftrightarrow> names_ok es \<and> \<not> duplicate_name es (p_name (de_primary e))"
  by (auto simp: names_ok_def sorted_wrt_append duplicate_name_def)

lemma names_ok_appendD: "names_ok (es @ fs) \<Longrightarrow> names_ok es"
  by (simp add: names_ok_def sorted_wrt_append)

lemma scan_loop_sound:
  "scan_loop slots spc cap slot acc = Inr es \<Longrightarrow> names_ok acc \<Longrightarrow> length acc \<le> cap \<Longrightarrow>
    \<exists>ds. es = acc @ ds \<and> directory_lists slots spc slot ds \<and> names_ok es \<and> length es \<le> cap"
proof (induction slots spc cap slot acc rule: scan_loop.induct)
  case (1 slots spc cap slot acc)
  note unfold = scan_loop.simps [of slots spc cap slot acc]
  consider (full) "length slots \<le> slot" | (zero) "slot < length slots" "slots ! slot ! 0 = 0"
    | (deleted) "slot < length slots" "slots ! slot ! 0 = 0xe5"
    | (entry) "slot < length slots" "slots ! slot ! 0 \<noteq> 0" "slots ! slot ! 0 \<noteq> 0xe5"
    by fastforce
  then show ?case
  proof cases
    case deleted
    then have "scan_loop slots spc cap (slot + 1) acc = Inr es"
      using 1(3) unfold by (simp add: slot_at_def)
    then obtain ds where "es = acc @ ds" "directory_lists slots spc (slot + 1) ds" "names_ok es" "length es \<le> cap"
      using 1(1) deleted 1(4,5) by (auto simp: slot_at_def)
    with deleted show ?thesis by (auto intro: lists_deleted)
  next
    case entry
    then obtain e n where e: "scan_entry slots spc slot = Inr (e, n)"
        "\<not> duplicate_name acc (p_name (de_primary e))" "length acc \<noteq> cap"
        "scan_loop slots spc cap n (acc @ [e]) = Inr es"
      using 1(3) unfold by (auto simp: slot_at_def split: sum.splits if_splits)
    have "names_ok (acc @ [e])" using 1(4) e(2) by (simp add: names_ok_snoc)
    then obtain ds where "es = (acc @ [e]) @ ds" "directory_lists slots spc n ds" "names_ok es" "length es \<le> cap"
      using 1(2) [OF _ _ _ e(1) refl e(2,3) e(4)] entry e(3) 1(5) by (auto simp: slot_at_def)
    with entry e(1) show ?thesis by (auto intro: lists_entry)
  qed (use 1(3-5) unfold in \<open>auto simp: slot_at_def intro: lists_full lists_end\<close>)
qed

lemma scan_loop_complete:
  "directory_lists slots spc slot ds \<Longrightarrow> names_ok (acc @ ds) \<Longrightarrow> length (acc @ ds) \<le> cap \<Longrightarrow>
    scan_loop slots spc cap slot acc = Inr (acc @ ds)"
proof (induction arbitrary: acc rule: directory_lists.induct)
  case (lists_entry slot e n es)
  then have "names_ok (acc @ [e])" using names_ok_appendD [of "acc @ [e]" es] by simp
  then have "\<not> duplicate_name acc (p_name (de_primary e))" by (simp add: names_ok_snoc)
  then show ?case using lists_entry by (subst scan_loop.simps) (simp add: slot_at_def)
qed (subst scan_loop.simps, simp add: slot_at_def)+

lemma scan_iff:
  "ios_fs_directory_scan slots spc cap = Inr es \<longleftrightarrow>
     slots \<noteq> [] \<and> length slots \<le> SIZE_MAX div IOS_FS_PRIMARY_RECORD_SIZE \<and> spc \<noteq> 0
     \<and> length slots mod spc = 0 \<and> directory_lists slots spc 0 es \<and> names_ok es \<and> length es \<le> cap"
proof -
  have "scan_loop slots spc cap 0 [] = Inr es \<longleftrightarrow> directory_lists slots spc 0 es \<and> names_ok es \<and> length es \<le> cap"
    using scan_loop_sound [of slots spc cap 0 "[]" es] scan_loop_complete [of slots spc 0 es "[]" cap]
    by (auto simp: names_ok_def)
  then show ?thesis by (auto simp: ios_fs_directory_scan_def)
qed

section \<open>What a listed entry is\<close>

lemma first_byte: "pd_name (primary_disk_of bs) ! 0 = bs ! 0"
  by (simp add: primary_disk_of_def field_at_def)

lemma primary_decode_first_byte:
  "ios_fs_primary_decode d = Inr p \<Longrightarrow> pd_name d ! 0 \<noteq> 0 \<and> pd_name d ! 0 \<noteq> 0xe5"
  by (auto simp: ios_fs_primary_decode_def split: if_splits)

text \<open>The place and the content of one entry.\<close>

definition entry_in :: "bytes list \<Rightarrow> nat \<Rightarrow> ios_fs_directory_entry \<Rightarrow> bool" where
  "entry_in slots spc e \<longleftrightarrow> de_primary_slot e < length slots \<and>
     (let disk = primary_disk_of (slots ! de_primary_slot e) in
      case de_kind e of
        IOS_FS_DIRECTORY_ENTRY_REGULAR \<Rightarrow>
          de_primary_slot e = de_companion_slot e + 1
          \<and> de_companion_slot e div spc = de_primary_slot e div spc
          \<and> ios_fs_record_pair_validate (companion_disk_of (slots ! de_companion_slot e)) disk = Inr ()
          \<and> ios_fs_primary_decode disk = Inr (de_primary e)
      | IOS_FS_DIRECTORY_ENTRY_DIRECTORY \<Rightarrow>
          ios_fs_primary_decode disk = Inr (de_primary e)
          \<and> p_attributes (de_primary e) = IOS_FS_ATTRIBUTE_DIRECTORY
      | IOS_FS_DIRECTORY_ENTRY_INTERNAL \<Rightarrow> decode_internal disk = Inr (de_primary e))"

lemma same_cluster: "slot mod spc + 1 < spc \<Longrightarrow> Suc slot div spc = slot div (spc :: nat)"
  by (simp add: div_Suc mod_Suc)

lemma scan_entry_in:
  assumes "scan_entry slots spc slot = Inr (e, next)" and "slot < length slots"
  shows "entry_in slots spc e"
  using assms same_cluster [of slot spc]
  by (auto simp: scan_entry_def slot_at_def entry_in_def Let_def not_le split: if_splits sum.splits)

lemma scan_entry_slots:
  assumes "scan_entry slots spc slot = Inr (e, next)"
  shows "next = de_primary_slot e + 1 \<and> de_primary_slot e \<in> {slot, slot + 1}
    \<and> (de_primary_slot e = slot + 1 \<longrightarrow> de_kind e = IOS_FS_DIRECTORY_ENTRY_REGULAR \<and> de_companion_slot e = slot)"
  using assms by (auto simp: scan_entry_def Let_def split: if_splits sum.splits)

lemma lists_entry_in: "directory_lists slots spc slot es \<Longrightarrow> e \<in> set es \<Longrightarrow> entry_in slots spc e"
  by (induction rule: directory_lists.induct) (auto dest: scan_entry_in)

text \<open>Every slot before the end marker is deleted or belongs to an entry.\<close>

definition occupies :: "nat \<Rightarrow> ios_fs_directory_entry \<Rightarrow> bool" where
  "occupies s e \<longleftrightarrow> s = de_primary_slot e
     \<or> (de_kind e = IOS_FS_DIRECTORY_ENTRY_REGULAR \<and> s = de_companion_slot e)"

lemma lists_occupied:
  "directory_lists slots spc slot es \<Longrightarrow> slot \<le> s \<Longrightarrow> s < length slots
    \<Longrightarrow> (\<And>t. slot \<le> t \<Longrightarrow> t \<le> s \<Longrightarrow> slots ! t ! 0 \<noteq> 0) \<Longrightarrow> slots ! s ! 0 \<noteq> 0xe5
    \<Longrightarrow> \<exists>e \<in> set es. occupies s e"
proof (induction rule: directory_lists.induct)
  case (lists_deleted slot es)
  then show ?case by (cases "slot = s") auto
next
  case (lists_entry slot e n es)
  show ?case
  proof (cases "n \<le> s")
    case True
    with lists_entry scan_entry_next [OF lists_entry(4)] show ?thesis by fastforce
  next
    case False
    with lists_entry.prems(1) scan_entry_slots [OF lists_entry(4)] have "occupies s e"
      by (auto simp: occupies_def)
    then show ?thesis by simp
  qed
qed auto

section \<open>The pair search\<close>

lemma find_pair_loop_sound:
  assumes "find_pair_loop slots spc slot after_end = Inr s"
  shows "slot \<le> s \<and> s + 1 < length slots \<and> s mod spc + 1 < spc
    \<and> (after_end \<or> (\<exists>t \<in> {slot..s}. slots ! t ! 0 = 0)
         \<or> (slots ! s ! 0 = 0xe5 \<and> (slots ! (s + 1) ! 0 = 0 \<or> slots ! (s + 1) ! 0 = 0xe5)))
    \<and> (\<forall>t. slot \<le> t \<and> t < s \<and> slots ! t ! 0 = 0 \<longrightarrow> \<not> t mod spc + 1 < spc)"
  using assms
proof (induction slots spc slot after_end rule: find_pair_loop.induct)
  case (1 slots spc slot after_end)
  have lt: "slot + 1 < length slots" using 1(2) by (subst (asm) find_pair_loop.simps) (auto split: if_splits)
  define ae where "ae \<longleftrightarrow> after_end \<or> slots ! slot ! 0 = 0"
  define hit where "hit \<longleftrightarrow> slot mod spc + 1 < spc \<and> slot_available (slots ! slot) ae
    \<and> slot_available (slots ! (slot + 1)) (ae \<or> slots ! (slot + 1) ! 0 = 0)"
  have step: "find_pair_loop slots spc slot after_end
      = (if hit then Inr slot else find_pair_loop slots spc (slot + 1) ae)"
    using lt by (subst find_pair_loop.simps) (simp add: Let_def slot_at_def hit_def ae_def)
  show ?case
  proof (cases hit)
    case True
    then have "s = slot" using 1(2) step by simp
    with True lt show ?thesis by (auto simp: hit_def ae_def slot_available_def)
  next
    case False
    then have "find_pair_loop slots spc (slot + 1) ae = Inr s" using 1(2) step by simp
    then have IH: "slot + 1 \<le> s \<and> s + 1 < length slots \<and> s mod spc + 1 < spc
      \<and> (ae \<or> (\<exists>t \<in> {slot + 1..s}. slots ! t ! 0 = 0)
         \<or> (slots ! s ! 0 = 0xe5 \<and> (slots ! (s + 1) ! 0 = 0 \<or> slots ! (s + 1) ! 0 = 0xe5)))
      \<and> (\<forall>t. slot + 1 \<le> t \<and> t < s \<and> slots ! t ! 0 = 0 \<longrightarrow> \<not> t mod spc + 1 < spc)"
      using 1(1) [OF lt refl refl] False by (simp add: slot_at_def hit_def ae_def)
    have "\<not> slot mod spc + 1 < spc" if "slots ! slot ! 0 = 0"
      using False that by (auto simp: hit_def ae_def slot_available_def)
    moreover have "after_end \<or> (\<exists>t \<in> {slot..s}. slots ! t ! 0 = 0)"
      if "ae \<or> (\<exists>t \<in> {slot + 1..s}. slots ! t ! 0 = 0)"
    proof -
      have "{slot..s} = insert slot {slot + 1..s}" using IH by auto
      with that show ?thesis unfolding ae_def by auto
    qed
    ultimately show ?thesis using IH
      by (metis Suc_eq_plus1 Suc_leD Suc_leI le_neq_implies_less)
  qed
qed

text \<open>In a directory of one cluster the search stops at or before the end marker.\<close>

lemma find_pair_single_cluster:
  assumes "ios_fs_directory_find_pair_slots slots (length slots) = Inr s"
  shows "s + 1 < length slots" and "\<And>t. t < s \<Longrightarrow> slots ! t ! 0 \<noteq> 0"
    and "slots ! s ! 0 = 0
      \<or> (slots ! s ! 0 = 0xe5 \<and> (slots ! (s + 1) ! 0 = 0 \<or> slots ! (s + 1) ! 0 = 0xe5))"
proof -
  have loop: "find_pair_loop slots (length slots) 0 False = Inr s"
    using assms by (auto simp: ios_fs_directory_find_pair_slots_def split: if_splits)
  note facts = find_pair_loop_sound [OF loop]
  show lt: "s + 1 < length slots" using facts by blast
  show nz: "slots ! t ! 0 \<noteq> 0" if "t < s" for t
    using facts that lt by auto
  show "slots ! s ! 0 = 0
      \<or> (slots ! s ! 0 = 0xe5 \<and> (slots ! (s + 1) ! 0 = 0 \<or> slots ! (s + 1) ! 0 = 0xe5))"
    using facts nz by (metis atLeastAtMost_iff le_neq_implies_less)
qed

section \<open>A new file becomes visible\<close>

lemma lists_tail_zero:
  assumes "length slots \<le> slot \<or> slots ! slot ! 0 = 0"
  shows "directory_lists slots spc slot []"
  using assms by (cases "slot < length slots") (auto intro: lists_full lists_end)

lemma scan_entry_cong:
  assumes "length slots' = length slots" and "slots' ! slot = slots ! slot" and "slots' ! (slot + 1) = slots ! (slot + 1)"
  shows "scan_entry slots' spc slot = scan_entry slots spc slot"
  using assms by (simp add: scan_entry_def slot_at_def Let_def)

lemma scan_entry_single:
  assumes "scan_entry slots spc slot = Inr (e, slot + 1)" and "length slots' = length slots"
    and "slots' ! slot = slots ! slot"
  shows "scan_entry slots' spc slot = Inr (e, slot + 1)"
  using assms by (auto simp: scan_entry_def slot_at_def Let_def split: if_splits sum.splits)

lemma lists_agree:
  "directory_lists slots spc slot es \<Longrightarrow> length slots' = length slots
    \<Longrightarrow> (\<And>t. slot \<le> t \<Longrightarrow> slots' ! t = slots ! t) \<Longrightarrow> directory_lists slots' spc slot es"
proof (induction rule: directory_lists.induct)
  case (lists_entry slot e n es)
  have "scan_entry slots' spc slot = Inr (e, n)"
    using lists_entry.hyps(4) lists_entry.prems by (subst scan_entry_cong) auto
  moreover have "directory_lists slots' spc n es"
    using lists_entry.IH lists_entry.prems scan_entry_next [OF lists_entry.hyps(4)] by simp
  ultimately show ?case using lists_entry.hyps(1-3) lists_entry.prems
    by (intro directory_lists.lists_entry) auto
qed (auto intro: directory_lists.intros)

lemma scan_entry_pair_primary:
  assumes "scan_entry slots spc slot = Inr (e, slot + 2)"
  shows "slot + 1 < length slots \<and> slots ! (slot + 1) ! 0 \<noteq> 0 \<and> slots ! (slot + 1) ! 0 \<noteq> 0xe5"
  using assms primary_decode_first_byte first_byte
  by (fastforce simp: scan_entry_def slot_at_def Let_def split: if_splits sum.splits)

text \<open>
  The pair at the slots \<open>s\<close> and \<open>s + 1\<close> replaces deleted slots or the end marker; the entries
  before and after it are those of the old directory.
\<close>

lemma lists_insert:
  assumes "directory_lists slots spc slot es" and "slot \<le> s" and "s + 1 < length slots"
    and live: "\<And>t. t < s \<Longrightarrow> slots ! t ! 0 \<noteq> 0"
    and free: "slots ! s ! 0 = 0 \<or> (slots ! s ! 0 = 0xe5 \<and> (slots ! (s + 1) ! 0 = 0 \<or> slots ! (s + 1) ! 0 = 0xe5))"
    and tail: "\<And>t u. t < u \<Longrightarrow> u < length slots \<Longrightarrow> slots ! t ! 0 = 0 \<Longrightarrow> slots ! u ! 0 = 0"
    and new: "scan_entry (slots[s := c, s + 1 := p]) spc s = Inr (e, s + 2)" and "c ! 0 \<noteq> 0" "c ! 0 \<noteq> 0xe5"
  shows "\<exists>xs ys. es = xs @ ys \<and> directory_lists (slots[s := c, s + 1 := p]) spc slot (xs @ e # ys)"
  using assms(1-3)
proof (induction rule: directory_lists.induct)
  let ?S = "slots[s := c, s + 1 := p]"
  have "length slots \<le> s + 2 \<or> slots ! (s + 2) ! 0 = 0" if "slots ! s ! 0 = 0 \<or> slots ! (s + 1) ! 0 = 0"
    using that tail [of s "s + 2"] tail [of "s + 1" "s + 2"]
    by (cases "s + 2 < length slots") auto
  then have rest_end: "directory_lists ?S spc (s + 2) []" if "slots ! s ! 0 = 0 \<or> slots ! (s + 1) ! 0 = 0"
    using that by (intro lists_tail_zero) auto
  have here: "directory_lists ?S spc s (e # ys)" if "directory_lists ?S spc (s + 2) ys" for ys
    using that new assms(3,8,9) by (intro lists_entry [where nxt = "s + 2"]) auto
  {
    case (lists_end slot)
    then have "slot = s" using live [of slot] by (cases "slot < s") auto
    with lists_end here [OF rest_end] show ?case by auto
  next
    case (lists_deleted slot es)
    show ?case
    proof (cases "slot = s")
      case False
      with lists_deleted obtain xs ys where "es = xs @ ys" "directory_lists ?S spc (slot + 1) (xs @ e # ys)" by auto
      moreover have "?S ! slot ! 0 = 0xe5" "slot < length ?S" using False lists_deleted by auto
      ultimately show ?thesis using directory_lists.lists_deleted [of slot ?S spc "xs @ e # ys"] by blast
    next
      case True
      have "\<exists>ys. es = ys \<and> directory_lists ?S spc (s + 2) ys"
        using lists_deleted.hyps(3)
      proof cases
        case lists_end
        with True rest_end show ?thesis by auto
      next
        case lists_deleted
        with True show ?thesis by (auto intro: lists_agree)
      next
        case lists_entry
        with free True lists_deleted.hyps(2) show ?thesis by auto
      qed (use True lists_deleted.prems in auto)
      then have "directory_lists ?S spc slot ([] @ e # es)" using here True by simp
      then show ?thesis by (intro exI [of _ "[]"] exI [of _ es]) simp
    qed
  next
    case (lists_entry slot f n es)
    have "slot \<noteq> s" using free lists_entry.hyps(2,3) by auto
    then have lt: "slot < s" using lists_entry.prems by simp
    have n: "n = slot + 1 \<or> (n = slot + 2 \<and> slot + 1 \<noteq> s)"
    proof (cases "n = slot + 1")
      case False
      then have n2: "n = slot + 2" using scan_entry_next [OF lists_entry.hyps(4)] by simp
      then have "slot + 1 \<noteq> s"
        using scan_entry_pair_primary [of slots spc slot f] lists_entry.hyps(4) free by auto
      with n2 show ?thesis by simp
    qed simp
    have same: "scan_entry ?S spc slot = Inr (f, n)"
      using n
    proof
      assume "n = slot + 1"
      then show ?thesis using lists_entry.hyps(4) lt scan_entry_single [of slots spc slot f ?S] by simp
    next
      assume "n = slot + 2 \<and> slot + 1 \<noteq> s"
      then show ?thesis using lists_entry.hyps(4) lt by (subst scan_entry_cong) auto
    qed
    have "n \<le> s" using n lt by auto
    with lists_entry obtain xs ys where "es = xs @ ys" "directory_lists ?S spc n (xs @ e # ys)" by auto
    then have "directory_lists ?S spc slot ((f # xs) @ e # ys)"
      using same lists_entry.hyps(1-3) lt by (auto intro: directory_lists.lists_entry)
    with \<open>es = xs @ ys\<close> show ?case by (intro exI [of _ "f # xs"] exI [of _ ys]) simp
  }
qed auto

lemma companion_encode_type:
  "ios_fs_companion_encode name committed = Inr cd
    \<Longrightarrow> companion_disk_bytes cd ! 0 = IOS_FS_COMPANION_RECORD_TYPE"
  by (auto simp: ios_fs_companion_encode_def companion_disk_bytes_def Let_def split: sum.splits)

lemma internal_name_dot: "is_internal_name name \<Longrightarrow> name ! 0 = 0x2e"
  by (rule ccontr) (simp add: is_internal_name_def)

lemma valid_stored_name_not_dot: "length name = 11 \<Longrightarrow> valid_stored_name name \<Longrightarrow> name ! 0 \<noteq> 0x2e"
  by (cases name) (auto simp: valid_stored_name_def supported_name_byte_def field_at_def split: if_splits)

lemma names_ok_insert:
  assumes "names_ok (xs @ ys)" and "\<not> duplicate_name (xs @ ys) (p_name (de_primary e))"
    and "\<And>f. f \<in> set ys \<Longrightarrow> de_kind f = IOS_FS_DIRECTORY_ENTRY_INTERNAL \<Longrightarrow> p_name (de_primary f) \<noteq> p_name (de_primary e)"
  shows "names_ok (xs @ e # ys)"
  using assms by (fastforce simp: names_ok_def sorted_wrt_append duplicate_name_def)

lemma decode_internal_name:
  "decode_internal d = Inr p \<Longrightarrow> is_internal_name (pd_name d) \<and> p_name p = pd_name d"
  by (auto simp: decode_internal_def Let_def split: if_splits)

lemma entry_in_internal_name:
  assumes "entry_in slots spc e" and "de_kind e = IOS_FS_DIRECTORY_ENTRY_INTERNAL"
  shows "p_name (de_primary e) ! 0 = 0x2e"
  using assms decode_internal_name internal_name_dot by (auto simp: entry_in_def Let_def)

text \<open>The scan does not read beyond the end marker.\<close>

lemma scan_loop_cut:
  "slots ! t ! 0 = 0 \<Longrightarrow> t < length slots \<Longrightarrow> length slots' = length slots
    \<Longrightarrow> (\<And>u. u \<le> t \<Longrightarrow> slots' ! u = slots ! u) \<Longrightarrow> slot \<le> t
    \<Longrightarrow> scan_loop slots' spc cap slot es = scan_loop slots spc cap slot es"
proof (induction slots spc cap slot es rule: scan_loop.induct)
  case (1 slots spc cap slot es)
  note S = scan_loop.simps [of slots spc cap slot es] and S' = scan_loop.simps [of slots' spc cap slot es]
  show ?case
  proof (cases "slots ! slot ! 0 = 0 \<or> slots ! slot ! 0 = 0xe5")
    case True
    moreover have "slot \<noteq> t" if "slots ! slot ! 0 \<noteq> 0" using that 1(3) by auto
    ultimately show ?thesis using 1(1,3-7) by (subst S, subst S') (auto simp: slot_at_def)
  next
    case False
    then have lt: "slot < t" using 1(3,7) by (cases "slot = t") auto
    then have same: "scan_entry slots' spc slot = scan_entry slots spc slot"
      using 1(5,6) by (intro scan_entry_cong) auto
    have "n \<le> t" if "scan_entry slots spc slot = Inr (e, n)" for e n
      using scan_entry_next [OF that] scan_entry_pair_primary [of slots spc slot e] that lt 1(3)
      by (cases "n = slot + 2 \<and> t = slot + 1") auto
    then show ?thesis
      using False same 1(2-7) lt
      by (subst S, subst S') (auto simp: slot_at_def split: sum.split)
  qed
qed

section \<open>Properties\<close>

text \<open>A successful scan lists exactly the directory. Every entry lies at slots of the array and
  decodes there; a regular file is a validating companion and primary pair in adjacent slots
  of one cluster; no two files or directories have the same name; and every slot before the
  end marker that is not deleted belongs to a listed entry.\<close>

theorem directory_scan_correct:
  assumes "ios_fs_directory_scan slots spc cap = Inr es"
  shows "(\<forall>e \<in> set es. entry_in slots spc e)
    \<and> distinct (map (p_name \<circ> de_primary) (filter (\<lambda>e. de_kind e \<noteq> IOS_FS_DIRECTORY_ENTRY_INTERNAL) es))
    \<and> (\<forall>s < length slots. (\<forall>t \<le> s. slots ! t ! 0 \<noteq> 0) \<and> slots ! s ! 0 \<noteq> 0xe5 \<longrightarrow> (\<exists>e \<in> set es. occupies s e))
    \<and> length es \<le> cap"
proof -
  have lists: "directory_lists slots spc 0 es" and names: "names_ok es" and "length es \<le> cap"
    using assms by (auto simp: scan_iff)
  moreover have "distinct (map (p_name \<circ> de_primary) (filter (\<lambda>e. de_kind e \<noteq> IOS_FS_DIRECTORY_ENTRY_INTERNAL) es))"
    using names by (induction es) (auto simp: names_ok_def)
  ultimately show ?thesis using lists_entry_in [OF lists] lists_occupied [OF lists] by blast
qed

text \<open>A pair of slots that the search returns is adjacent, lies in one cluster and within the
  array, and at the first slot or before it the directory ends, or both slots are deleted or
  the second ends the directory.\<close>

theorem directory_find_pair_slots_correct:
  assumes "ios_fs_directory_find_pair_slots slots spc = Inr s"
  shows "s + 1 < length slots \<and> s div spc = (s + 1) div spc
    \<and> ((\<exists>t \<le> s. slots ! t ! 0 = 0)
         \<or> (slots ! s ! 0 = 0xe5 \<and> (slots ! (s + 1) ! 0 = 0 \<or> slots ! (s + 1) ! 0 = 0xe5)))"
proof -
  have "find_pair_loop slots spc 0 False = Inr s"
    using assms by (auto simp: ios_fs_directory_find_pair_slots_def split: if_splits)
  from find_pair_loop_sound [OF this] show ?thesis using same_cluster [of s spc] by auto
qed

text \<open>A new file becomes visible. In a directory cluster whose slots after the end marker are
  all zero, writing a committed pair with an unused name into the slots that the search
  returns makes the scan list the new file and all the old entries, in slot order.\<close>

theorem directory_insert_visible:
  assumes scan: "ios_fs_directory_scan slots (length slots) cap = Inr es" and "length es < cap"
    and find: "ios_fs_directory_find_pair_slots slots (length slots) = Inr s"
    and tail: "\<forall>t u. t < u \<and> u < length slots \<and> slots ! t ! 0 = 0 \<longrightarrow> slots ! u ! 0 = 0"
    and primary: "length (p_name primary) = 11" "p_attributes primary = IOS_FS_ATTRIBUTE_REGULAR"
    and enc: "ios_fs_primary_encode primary = Inr pd" "ios_fs_companion_encode (p_name primary) True = Inr cd"
    and fresh: "\<not> duplicate_name es (p_name primary)"
  shows "\<exists>xs ys. es = xs @ ys \<and> ios_fs_directory_scan
      (slots[s := companion_disk_bytes cd, s + 1 := primary_disk_bytes pd]) (length slots) cap
    = Inr (xs @ \<lparr>de_primary = primary, de_primary_slot = s + 1, de_companion_slot = s,
                de_kind = IOS_FS_DIRECTORY_ENTRY_REGULAR\<rparr> # ys)"
proof -
  let ?c = "companion_disk_bytes cd" and ?p = "primary_disk_bytes pd"
  let ?S = "slots[s := ?c, s + 1 := ?p]"
  let ?e = "\<lparr>de_primary = primary, de_primary_slot = s + 1, de_companion_slot = s,
                de_kind = IOS_FS_DIRECTORY_ENTRY_REGULAR\<rparr>"
  have wf: "companion_disk_wf cd" "primary_disk_wf pd"
    using enc primary(1) by (auto intro: companion_encode_wf primary_encode_wf)
  have dec: "ios_fs_primary_decode pd = Inr primary" using primary(1) enc(1) by (rule primary_decode_encode)
  have valid: "ios_fs_record_pair_validate cd pd = Inr ()"
    using pair_validate_iff [OF wf] dec primary(2) enc(2) by blast
  have c0: "?c ! 0 = IOS_FS_COMPANION_RECORD_TYPE"
    using enc(2) by (rule companion_encode_type)
  note found = find_pair_single_cluster [OF find]
  have new: "scan_entry ?S (length slots) s = Inr (?e, s + 2)"
    using found(1) c0 valid dec wf by (simp add: scan_entry_def slot_at_def codec_simps Let_def)
  have lists: "directory_lists slots (length slots) 0 es" and ok: "names_ok es"
    using scan by (auto simp: scan_iff)
  obtain xs ys where es: "es = xs @ ys" and new_lists: "directory_lists ?S (length slots) 0 (xs @ ?e # ys)"
    using lists_insert [OF lists _ found(1) found(2,3) _ new] tail c0 by auto
  have "p_name (de_primary f) ! 0 = 0x2e" if "f \<in> set es" "de_kind f = IOS_FS_DIRECTORY_ENTRY_INTERNAL" for f
    using that lists_entry_in [OF lists] entry_in_internal_name by blast
  moreover have "p_name primary ! 0 \<noteq> 0x2e"
    using primary_decode_Inr(1) [OF dec] primary(1)
    by (auto simp: primary_fields_rejected_def dest: valid_stored_name_not_dot)
  ultimately have "names_ok (xs @ ?e # ys)"
    using ok fresh es by (intro names_ok_insert) (simp, simp, metis Un_iff ios_fs_directory_entry.select_convs(1) set_append)
  with new_lists scan \<open>length es < cap\<close> es have "ios_fs_directory_scan ?S (length slots) cap = Inr (xs @ ?e # ys)"
    by (simp add: scan_iff)
  with es show ?thesis by blast
qed

text \<open>With more than one cluster the search and the scan disagree: when the end marker is the
  last slot of a cluster, the search returns slots of the next cluster, and a file written
  there is not listed.\<close>

theorem directory_pair_after_end_invisible:
  assumes "slots ! t ! 0 = 0" and "t < s" and "t < length slots"
    and "ios_fs_directory_find_pair_slots slots spc = Inr s"
  shows "ios_fs_directory_scan (slots[s := c, s + 1 := p]) spc cap
    = ios_fs_directory_scan slots spc cap"
proof -
  have "scan_loop (slots[s := c, s + 1 := p]) spc cap slot es = scan_loop slots spc cap slot es"
    if "slot \<le> t" for slot es
    using that assms(1-3) by (intro scan_loop_cut [of slots t]) auto
  then show ?thesis by (simp add: ios_fs_directory_scan_def)
qed

section \<open>Witnesses\<close>

text \<open>A cluster of four slots: a deleted slot, the pair of \<open>A.TXT\<close> and the end marker.\<close>

definition small_directory :: "bytes list" where
  "small_directory = [replicate 32 0xe5, companion_disk_bytes companion_disk_A_TXT,
     primary_disk_bytes primary_disk_A_TXT, replicate 32 0]"

definition entry_A_TXT :: ios_fs_directory_entry where
  "entry_A_TXT = \<lparr>de_primary = primary_A_TXT, de_primary_slot = 2, de_companion_slot = 1,
     de_kind = IOS_FS_DIRECTORY_ENTRY_REGULAR\<rparr>"

lemma companion_A_TXT_type: "companion_disk_bytes companion_disk_A_TXT ! 0 = IOS_FS_COMPANION_RECORD_TYPE"
  using encode_A_TXT(2) by (rule companion_encode_type)

lemma pair_A_TXT: "ios_fs_record_pair_validate companion_disk_A_TXT primary_disk_A_TXT = Inr ()"
  using pair_validate_iff [OF wf_A_TXT] decode_A_TXT encode_A_TXT(2) by (auto simp: primary_A_TXT_def)

lemma small_directory_scan: "ios_fs_directory_scan small_directory 4 8 = Inr [entry_A_TXT]"
proof -
  have "scan_entry small_directory 4 1 = Inr (entry_A_TXT, 3)"
    using wf_A_TXT pair_A_TXT decode_A_TXT
    by (simp add: scan_entry_def slot_at_def small_directory_def companion_A_TXT_type codec_simps entry_A_TXT_def)
  then have "directory_lists small_directory 4 1 [entry_A_TXT]"
    by (intro lists_entry [where nxt = 3] lists_end)
      (simp_all add: small_directory_def companion_A_TXT_type flip: One_nat_def)
  then have "directory_lists small_directory 4 0 [entry_A_TXT]"
    using lists_deleted [of 0 small_directory 4 "[entry_A_TXT]"] by (simp add: small_directory_def)
  then show ?thesis by (simp add: scan_iff names_ok_def small_directory_def)
qed

theorem directory_scan_correct_witness: "entry_in small_directory 4 entry_A_TXT"
  using directory_scan_correct [OF small_directory_scan] by simp

text \<open>An empty directory of one cluster of four slots.\<close>

definition empty_directory :: "bytes list" where
  "empty_directory = replicate 4 (replicate 32 0)"

lemma empty_directory_find: "ios_fs_directory_find_pair_slots empty_directory (length empty_directory) = Inr 0"
  by (simp add: ios_fs_directory_find_pair_slots_def find_pair_loop.simps empty_directory_def slot_at_def
      slot_available_def)

lemma empty_directory_scan: "ios_fs_directory_scan empty_directory (length empty_directory) 8 = Inr []"
  by (simp add: ios_fs_directory_scan_def scan_loop.simps empty_directory_def slot_at_def)

theorem directory_find_pair_slots_correct_witness:
  "(0 :: nat) + 1 < length empty_directory \<and> (\<exists>t \<le> 0. empty_directory ! t ! 0 = 0)"
  using directory_find_pair_slots_correct [OF empty_directory_find] by (auto simp: empty_directory_def)

theorem directory_insert_visible_witness:
  "ios_fs_directory_scan (empty_directory[0 := companion_disk_bytes companion_disk_A_TXT,
       0 + 1 := primary_disk_bytes primary_disk_A_TXT]) (length empty_directory) 8
   = Inr [\<lparr>de_primary = primary_A_TXT, de_primary_slot = 0 + 1, de_companion_slot = 0,
           de_kind = IOS_FS_DIRECTORY_ENTRY_REGULAR\<rparr>]"
proof -
  have "\<exists>xs ys. [] = xs @ ys \<and> ios_fs_directory_scan (empty_directory[0 := companion_disk_bytes companion_disk_A_TXT,
       0 + 1 := primary_disk_bytes primary_disk_A_TXT]) (length empty_directory) 8
     = Inr (xs @ \<lparr>de_primary = primary_A_TXT, de_primary_slot = 0 + 1, de_companion_slot = 0,
           de_kind = IOS_FS_DIRECTORY_ENTRY_REGULAR\<rparr> # ys)"
    by (rule directory_insert_visible [OF empty_directory_scan _ empty_directory_find])
      (use encode_A_TXT valid_A_TXT in \<open>simp_all add: empty_directory_def primary_A_TXT_def duplicate_name_def\<close>)
  then show ?thesis by auto
qed

text \<open>Two clusters of two slots whose end marker is the last slot of the first cluster.\<close>

definition split_directory :: "bytes list" where
  "split_directory = [0x41 # replicate 31 0, replicate 32 0, replicate 32 0, replicate 32 0]"

lemma split_directory_find: "ios_fs_directory_find_pair_slots split_directory 2 = Inr 2"
  by (simp add: ios_fs_directory_find_pair_slots_def find_pair_loop.simps split_directory_def slot_at_def
      slot_available_def)

theorem directory_pair_after_end_invisible_witness:
  "ios_fs_directory_scan (split_directory[2 := companion_disk_bytes companion_disk_A_TXT,
       2 + 1 := primary_disk_bytes primary_disk_A_TXT]) 2 8 = ios_fs_directory_scan split_directory 2 8"
  by (rule directory_pair_after_end_invisible [OF _ _ _ split_directory_find, of 1])
    (simp_all add: split_directory_def)

end
