(* ===== verification/Fs_Transaction.thy ===== *)
theory Fs_Transaction
  imports Fs_Registry
begin

text \<open>
  Ordered file transactions (transaction.h, transaction.c). The seven callbacks of the operations
  table are supplied by the user of the module: they are a parameter, a record of functions over
  a context. The locale \<open>commit_storage\<close> states what the callbacks promise about the image that a
  power loss leaves behind; the theorems show that the order of calls in save, create, rename and
  delete keeps every such image consistent.
\<close>

section \<open>State\<close>

record 'c ios_fs_transaction_operations =
  to_persist_content :: "'c \<Rightarrow> bytes \<Rightarrow> 'c \<times> unit res"
  to_persist_allocation :: "'c \<Rightarrow> 'c \<times> unit res"
  to_persist_primary :: "'c \<Rightarrow> primary_disk \<Rightarrow> 'c \<times> unit res"
  to_persist_companion :: "'c \<Rightarrow> companion_disk \<Rightarrow> 'c \<times> unit res"
  to_persist_deleted_pair :: "'c \<Rightarrow> 'c \<times> unit res"
  to_release_allocation :: "'c \<Rightarrow> u32 \<Rightarrow> 'c \<times> unit res"
  to_barrier :: "'c \<Rightarrow> 'c \<times> unit res"

record 'c ios_fs_transaction =
  tx_context :: 'c
  tx_operations :: "'c ios_fs_transaction_operations"
  tx_registry :: "ios_fs_registry option"
  tx_registry_directory_cluster :: u32
  tx_registry_primary_slot :: u16
  tx_writable :: bool

section \<open>Operations\<close>

text \<open>The idiom \<^verbatim>\<open>status = f(); if (IOS_FAILED(status)) return status;\<close> before the rest \<open>g\<close>.\<close>

definition seq_op :: "('c \<Rightarrow> 'c \<times> unit res) \<Rightarrow> ('c \<Rightarrow> 'c \<times> unit res) \<Rightarrow> 'c \<Rightarrow> 'c \<times> unit res" where
  "seq_op f g c = (case f c of (c, Inl e) \<Rightarrow> (c, Inl e) | (c, Inr _) \<Rightarrow> g c)"

definition validate_transaction :: "'c ios_fs_transaction \<Rightarrow> unit res" where
  "validate_transaction transaction = (if tx_writable transaction then Inr () else Inl IOS_E_READ_ONLY)"

definition persist_companion ::
  "'c ios_fs_transaction_operations \<Rightarrow> bytes \<Rightarrow> bool \<Rightarrow> 'c \<Rightarrow> 'c \<times> unit res" where
  "persist_companion operations name committed context =
     (case ios_fs_companion_encode name committed of
        Inl e \<Rightarrow> (context, Inl e)
      | Inr companion \<Rightarrow> to_persist_companion operations context companion)"

definition refresh_registry_after_commit ::
  "'c ios_fs_transaction \<Rightarrow> primary_disk \<Rightarrow> 'c ios_fs_transaction" where
  "refresh_registry_after_commit transaction primary =
     (case tx_registry transaction of
        None \<Rightarrow> transaction
      | Some registry \<Rightarrow>
         (case ios_fs_companion_encode (pd_name primary) True of
            Inl e \<Rightarrow> transaction
          | Inr companion \<Rightarrow>
              transaction\<lparr>tx_registry := Some (fst (ios_fs_registry_refresh registry companion primary
                (tx_registry_directory_cluster transaction) (tx_registry_primary_slot transaction)))\<rparr>))"

definition ios_fs_transaction_initialize ::
  "'c \<Rightarrow> 'c ios_fs_transaction_operations \<Rightarrow> bool \<Rightarrow> 'c ios_fs_transaction \<times> unit res" where
  "ios_fs_transaction_initialize context operations writable =
     (let transaction = \<lparr>tx_context = context, tx_operations = operations, tx_registry = None,
            tx_registry_directory_cluster = 0, tx_registry_primary_slot = 0, tx_writable = writable\<rparr>;
          status = validate_transaction transaction
      in (transaction, if status = Inl IOS_E_READ_ONLY then Inr () else status))"

definition ios_fs_transaction_attach_registry ::
  "'c ios_fs_transaction \<Rightarrow> ios_fs_registry \<Rightarrow> u32 \<Rightarrow> u16 \<Rightarrow> 'c ios_fs_transaction" where
  "ios_fs_transaction_attach_registry transaction registry directory_cluster primary_slot =
     transaction\<lparr>tx_registry := Some registry, tx_registry_directory_cluster := directory_cluster,
       tx_registry_primary_slot := primary_slot\<rparr>"

definition save_sequence ::
  "'c ios_fs_transaction_operations \<Rightarrow> bytes \<Rightarrow> primary_disk \<Rightarrow> bytes \<Rightarrow> 'c \<Rightarrow> 'c \<times> unit res" where
  "save_sequence operations name primary_disk content =
     seq_op (persist_companion operations name False)
    (seq_op (to_barrier operations)
    (seq_op (\<lambda>context. to_persist_content operations context content)
    (seq_op (to_barrier operations)
    (seq_op (to_persist_allocation operations)
    (seq_op (to_barrier operations)
    (seq_op (\<lambda>context. to_persist_primary operations context primary_disk)
    (seq_op (persist_companion operations name True)
            (to_barrier operations))))))))"

definition ios_fs_transaction_save ::
  "'c ios_fs_transaction \<Rightarrow> ios_fs_primary \<Rightarrow> bytes \<Rightarrow> 'c ios_fs_transaction \<times> unit res" where
  "ios_fs_transaction_save transaction primary content =
     (case validate_transaction transaction of
        Inl e \<Rightarrow> (transaction, Inl e)
      | Inr _ \<Rightarrow>
         if length content \<noteq> unat (p_file_size primary) then (transaction, Inl IOS_E_INVALID_ARGUMENT)
         else case ios_fs_primary_encode primary of
             Inl e \<Rightarrow> (transaction, Inl e)
           | Inr primary_disk \<Rightarrow>
              (case save_sequence (tx_operations transaction) (p_name primary) primary_disk content
                      (tx_context transaction) of
                 (context, Inl e) \<Rightarrow> (transaction\<lparr>tx_context := context\<rparr>, Inl e)
               | (context, Inr _) \<Rightarrow>
                   (refresh_registry_after_commit (transaction\<lparr>tx_context := context\<rparr>) primary_disk, Inr ())))"

definition ios_fs_transaction_create ::
  "'c ios_fs_transaction \<Rightarrow> ios_fs_primary \<Rightarrow> bytes \<Rightarrow> 'c ios_fs_transaction \<times> unit res" where
  "ios_fs_transaction_create transaction primary content = ios_fs_transaction_save transaction primary content"

definition rename_sequence ::
  "'c ios_fs_transaction_operations \<Rightarrow> bytes \<Rightarrow> bytes \<Rightarrow> primary_disk \<Rightarrow> 'c \<Rightarrow> 'c \<times> unit res" where
  "rename_sequence operations old_name new_name renamed_disk =
     seq_op (persist_companion operations old_name False)
    (seq_op (to_barrier operations)
    (seq_op (\<lambda>context. to_persist_primary operations context renamed_disk)
    (seq_op (persist_companion operations new_name True)
            (to_barrier operations))))"

definition ios_fs_transaction_rename ::
  "'c ios_fs_transaction \<Rightarrow> companion_disk \<Rightarrow> primary_disk \<Rightarrow> bytes \<Rightarrow> bool \<Rightarrow> 'c ios_fs_transaction \<times> unit res" where
  "ios_fs_transaction_rename transaction current_companion current_primary new_name destination_exists =
     (case validate_transaction transaction of
        Inl e \<Rightarrow> (transaction, Inl e)
      | Inr _ \<Rightarrow>
         if destination_exists then (transaction, Inl IOS_E_ALREADY_EXISTS)
         else case ios_fs_record_pair_validate current_companion current_primary of
             Inl e \<Rightarrow> (transaction, Inl e)
           | Inr _ \<Rightarrow>
          (case ios_fs_primary_decode current_primary of
             Inl e \<Rightarrow> (transaction, Inl e)
           | Inr primary \<Rightarrow>
          (case ios_fs_primary_encode (primary\<lparr>p_name := new_name\<rparr>) of
             Inl e \<Rightarrow> (transaction, Inl e)
           | Inr renamed_disk \<Rightarrow>
              (case rename_sequence (tx_operations transaction) (pd_name current_primary) new_name renamed_disk
                      (tx_context transaction) of
                 (context, Inl e) \<Rightarrow> (transaction\<lparr>tx_context := context\<rparr>, Inl e)
               | (context, Inr _) \<Rightarrow>
                   (refresh_registry_after_commit (transaction\<lparr>tx_context := context\<rparr>) renamed_disk, Inr ())))))"

definition delete_sequence ::
  "'c ios_fs_transaction_operations \<Rightarrow> bytes \<Rightarrow> u32 \<Rightarrow> 'c \<Rightarrow> 'c \<times> unit res" where
  "delete_sequence operations name first_cluster =
     seq_op (persist_companion operations name False)
    (seq_op (to_barrier operations)
    (seq_op (to_persist_deleted_pair operations)
    (seq_op (to_barrier operations)
    (seq_op (\<lambda>context. if first_cluster \<noteq> 0 then to_release_allocation operations context first_cluster
                        else (context, Inr ()))
            (to_barrier operations)))))"

definition ios_fs_transaction_delete ::
  "'c ios_fs_transaction \<Rightarrow> companion_disk \<Rightarrow> primary_disk \<Rightarrow> 'c ios_fs_transaction \<times> unit res" where
  "ios_fs_transaction_delete transaction current_companion current_primary =
     (case validate_transaction transaction of
        Inl e \<Rightarrow> (transaction, Inl e)
      | Inr _ \<Rightarrow>
         (case ios_fs_record_pair_validate current_companion current_primary of
            Inl e \<Rightarrow> (transaction, Inl e)
          | Inr _ \<Rightarrow>
             (case ios_fs_primary_decode current_primary of
                Inl e \<Rightarrow> (transaction, Inl e)
              | Inr primary \<Rightarrow>
                 (case delete_sequence (tx_operations transaction) (p_name primary) (p_first_cluster primary)
                         (tx_context transaction) of
                    (context, r) \<Rightarrow> (transaction\<lparr>tx_context := context\<rparr>, r)))))"

section \<open>Storage and power loss\<close>

text \<open>
  What a power loss leaves of one file: its pair of records, its content area, whether its
  allocation chain is recorded and whether it was released. Companion and primary records lie
  in one sector each and are written whole; content and the two marks of a deletion may be torn.
\<close>

record commit_image =
  im_companion :: companion_disk
  im_primary :: primary_disk
  im_content :: bytes
  im_allocated :: bool
  im_released :: bool

datatype update = Content bytes | Allocation | Primary primary_disk | Companion companion_disk | Deleted | Release u32

definition delete_companion :: "companion_disk \<Rightarrow> companion_disk" where
  "delete_companion cd = cd\<lparr>cd_record_type := 0xe5\<rparr>"

definition delete_primary :: "primary_disk \<Rightarrow> primary_disk" where
  "delete_primary pd = pd\<lparr>pd_name := (pd_name pd)[0 := 0xe5]\<rparr>"

fun app :: "update \<Rightarrow> commit_image \<Rightarrow> commit_image" where
  "app (Content bs) im = im\<lparr>im_content := bs\<rparr>"
| "app Allocation im = im\<lparr>im_allocated := True\<rparr>"
| "app (Primary pd) im = im\<lparr>im_primary := pd\<rparr>"
| "app (Companion cd) im = im\<lparr>im_companion := cd\<rparr>"
| "app Deleted im = im\<lparr>im_companion := delete_companion (im_companion im), im_primary := delete_primary (im_primary im)\<rparr>"
| "app (Release k) im = im\<lparr>im_released := True\<rparr>"

fun torn :: "update \<Rightarrow> commit_image \<Rightarrow> commit_image set" where
  "torn (Content bs) im = {im\<lparr>im_content := x\<rparr> | x. True}"
| "torn Deleted im = {im\<lparr>im_companion := delete_companion (im_companion im)\<rparr>,
     im\<lparr>im_primary := delete_primary (im_primary im)\<rparr>, app Deleted im}"
| "torn u im = {app u im}"

fun perform :: "'c ios_fs_transaction_operations \<Rightarrow> update \<Rightarrow> 'c \<Rightarrow> 'c \<times> unit res" where
  "perform ops (Content bs) c = to_persist_content ops c bs"
| "perform ops Allocation c = to_persist_allocation ops c"
| "perform ops (Primary pd) c = to_persist_primary ops c pd"
| "perform ops (Companion cd) c = to_persist_companion ops c cd"
| "perform ops Deleted c = to_persist_deleted_pair ops c"
| "perform ops (Release k) c = to_release_allocation ops c k"

text \<open>
  \<open>vis\<close> is the image that all accepted updates give, \<open>crash\<close> the images that a power loss at this
  moment may leave. An update reaches the medium at any time, or not, or in part; a barrier that
  succeeds leaves exactly the visible image; one that fails may have written anything pending. A
  power loss between two calls is the failure of the second call.
\<close>

text \<open>A file is visible when its pair of records validates.\<close>

definition visible :: "commit_image \<Rightarrow> bool" where
  "visible im \<longleftrightarrow> ios_fs_record_pair_validate (im_companion im) (im_primary im) = Inr ()"

lemma delete_companion_hidden: "ios_fs_record_pair_validate (delete_companion cd) pd \<noteq> Inr ()"
  by (simp add: ios_fs_record_pair_validate_def ios_fs_companion_decode_def delete_companion_def)

lemma perform_eq:
  "perform ops (Content bs) = (\<lambda>c. to_persist_content ops c bs)"
  "perform ops Allocation = to_persist_allocation ops"
  "perform ops (Primary pd) = (\<lambda>c. to_persist_primary ops c pd)"
  "perform ops Deleted = to_persist_deleted_pair ops"
  "perform ops (Release k) = (\<lambda>c. to_release_allocation ops c k)"
  by (simp_all add: fun_eq_iff)

locale commit_storage =
  fixes ops :: "'c ios_fs_transaction_operations"
    and vis :: "'c \<Rightarrow> commit_image"
    and crash :: "'c \<Rightarrow> commit_image set"
  assumes perform_vis: "perform ops u c = (c', Inr ()) \<Longrightarrow> vis c' = app u (vis c)"
    and perform_crash: "perform ops u c = (c', r) \<Longrightarrow> crash c' \<subseteq> crash c \<union> \<Union> (torn u ` crash c)"
    and barrier_ok: "to_barrier ops c = (c', Inr ()) \<Longrightarrow> vis c' = vis c \<and> crash c' = {vis c}"
    and barrier_fails: "to_barrier ops c = (c', Inl e) \<Longrightarrow> crash c' \<subseteq> crash c \<union> {vis c}"
begin

text \<open>A triple: from visible image \<open>V\<close> and possible images \<open>X\<close>, success leads to \<open>V'\<close> and \<open>X'\<close>,
  failure to possible images within \<open>R\<close>.\<close>

definition tri :: "commit_image \<Rightarrow> commit_image set \<Rightarrow> ('c \<Rightarrow> 'c \<times> unit res) \<Rightarrow> commit_image \<Rightarrow> commit_image set
    \<Rightarrow> commit_image set \<Rightarrow> bool" where
  "tri V X f V' X' R \<longleftrightarrow> (\<forall>c c' r. vis c = V \<and> crash c \<subseteq> X \<and> f c = (c', r) \<longrightarrow>
     (case r of Inl e \<Rightarrow> crash c' \<subseteq> R | Inr _ \<Rightarrow> vis c' = V' \<and> crash c' \<subseteq> X'))"

lemma tri_seq:
  assumes "tri V X f V1 X1 R" and "tri V1 X1 g V2 X2 R"
  shows "tri V X (seq_op f g) V2 X2 R"
  unfolding tri_def
proof (intro allI impI, elim conjE)
  fix c c' r assume c: "vis c = V" "crash c \<subseteq> X" "seq_op f g c = (c', r)"
  obtain c1 r1 where f: "f c = (c1, r1)" by (cases "f c")
  show "case r of Inl e \<Rightarrow> crash c' \<subseteq> R | Inr _ \<Rightarrow> vis c' = V2 \<and> crash c' \<subseteq> X2"
  proof (cases r1)
    case (Inl e)
    then show ?thesis using assms(1) c f by (force simp: tri_def seq_op_def)
  next
    case (Inr u)
    then have "vis c1 = V1" "crash c1 \<subseteq> X1" using assms(1) c(1,2) f by (force simp: tri_def)+
    moreover have "g c1 = (c', r)" using c(3) f Inr by (simp add: seq_op_def)
    ultimately show ?thesis using assms(2) by (simp add: tri_def)
  qed
qed

lemma tri_perform:
  assumes "app u V = V'" and "X \<union> \<Union> (torn u ` X) \<subseteq> X'" and "X' \<subseteq> R"
  shows "tri V X (perform ops u) V' X' R"
  unfolding tri_def
proof (intro allI impI, elim conjE)
  fix c c' r assume c: "vis c = V" "crash c \<subseteq> X" "perform ops u c = (c', r)"
  then have sub: "crash c' \<subseteq> X'" using perform_crash [OF c(3)] assms(2) by blast
  show "case r of Inl e \<Rightarrow> crash c' \<subseteq> R | Inr _ \<Rightarrow> vis c' = V' \<and> crash c' \<subseteq> X'"
    using sub assms(1,3) c perform_vis by (cases r) auto
qed

lemma tri_barrier:
  assumes "X \<subseteq> R" and "V \<in> R"
  shows "tri V X (to_barrier ops) V {V} R"
  unfolding tri_def
proof (intro allI impI, elim conjE)
  fix c c' r assume c: "vis c = V" "crash c \<subseteq> X" "to_barrier ops c = (c', r)"
  show "case r of Inl e \<Rightarrow> crash c' \<subseteq> R | Inr _ \<Rightarrow> vis c' = V \<and> crash c' \<subseteq> {V}"
    using assms c barrier_ok [of c c'] barrier_fails [of c c'] by (cases r) auto
qed

lemma tri_companion:
  assumes "ios_fs_companion_encode name committed = Inr cd" and "tri V X (perform ops (Companion cd)) V' X' R"
  shows "tri V X (persist_companion ops name committed) V' X' R"
  using assms by (simp add: tri_def persist_companion_def)

lemma tri_run:
  assumes "tri V {V} f V' X' R" and "vis c = V" and "crash c = {V}" and "f c = (c', r)"
  shows "r = Inl e \<Longrightarrow> crash c' \<subseteq> R" and "r = Inr () \<Longrightarrow> vis c' = V' \<and> crash c' \<subseteq> X'"
proof -
  have "case r of Inl e \<Rightarrow> crash c' \<subseteq> R | Inr _ \<Rightarrow> vis c' = V' \<and> crash c' \<subseteq> X'"
    using assms unfolding tri_def by blast
  then show "r = Inl e \<Longrightarrow> crash c' \<subseteq> R" and "r = Inr () \<Longrightarrow> vis c' = V' \<and> crash c' \<subseteq> X'" by simp_all
qed

text \<open>The three sequences. An image whose companion is uncommitted never validates.\<close>

lemma save_tri:
  assumes unc: "ios_fs_companion_encode name False = Inr cu" "\<And>pd. ios_fs_record_pair_validate cu pd \<noteq> Inr ()"
    and com: "ios_fs_companion_encode name True = Inr cc"
    and new: "new = V\<lparr>im_companion := cc, im_primary := pd, im_content := bs, im_allocated := True\<rparr>"
    and good: "\<And>im. im \<in> R \<longleftrightarrow> (visible im \<longrightarrow> im = V \<or> im = new \<or> im = new\<lparr>im_primary := im_primary V\<rparr>)"
  shows "tri V {V} (save_sequence ops name pd bs) new {new} R"
proof -
  let ?V1 = "V\<lparr>im_companion := cu\<rparr>"
  let ?V2 = "?V1\<lparr>im_content := bs\<rparr>" let ?V3 = "?V2\<lparr>im_allocated := True\<rparr>" let ?V4 = "?V3\<lparr>im_primary := pd\<rparr>"
  have R: "V \<in> R" "new \<in> R" "new\<lparr>im_primary := im_primary V\<rparr> \<in> R" by (simp_all add: good)
  have hidden: "im \<in> R" if "im_companion im = cu" for im using unc(2) that by (simp add: good visible_def)
  have new': "?V4\<lparr>im_companion := cc\<rparr> = new" "?V3\<lparr>im_companion := cc\<rparr> = new\<lparr>im_primary := im_primary V\<rparr>"
    by (simp_all add: new)
  have "tri V {V} (persist_companion ops name False) ?V1 {V, ?V1} R"
    using R hidden by (intro tri_companion [OF unc(1)] tri_perform) auto
  moreover have "tri ?V1 {V, ?V1} (to_barrier ops) ?V1 {?V1} R" using R hidden by (intro tri_barrier) auto
  moreover have "tri ?V1 {?V1} (\<lambda>c. to_persist_content ops c bs) ?V2 (insert ?V1 {?V1\<lparr>im_content := x\<rparr> | x. True}) R"
    using hidden by (intro tri_perform [of "Content bs", unfolded perform_eq]) auto
  moreover have "tri ?V2 (insert ?V1 {?V1\<lparr>im_content := x\<rparr> | x. True}) (to_barrier ops) ?V2 {?V2} R"
    using hidden by (intro tri_barrier) auto
  moreover have "tri ?V2 {?V2} (to_persist_allocation ops) ?V3 {?V2, ?V3} R"
    using hidden by (intro tri_perform [of Allocation, unfolded perform_eq]) auto
  moreover have "tri ?V3 {?V2, ?V3} (to_barrier ops) ?V3 {?V3} R" using hidden by (intro tri_barrier) auto
  moreover have "tri ?V3 {?V3} (\<lambda>c. to_persist_primary ops c pd) ?V4 {?V3, ?V4} R"
    using hidden by (intro tri_perform [of "Primary pd", unfolded perform_eq]) auto
  moreover have "tri ?V4 {?V3, ?V4} (persist_companion ops name True) new
      {?V3, ?V4, new, new\<lparr>im_primary := im_primary V\<rparr>} R"
    using R hidden new' by (intro tri_companion [OF com] tri_perform) auto
  moreover have "tri new {?V3, ?V4, new, new\<lparr>im_primary := im_primary V\<rparr>} (to_barrier ops) new {new} R"
    using R hidden by (intro tri_barrier) auto
  ultimately show ?thesis unfolding save_sequence_def by (blast intro: tri_seq)
qed

lemma rename_tri:
  assumes unc: "ios_fs_companion_encode old_name False = Inr cu" "\<And>pd. ios_fs_record_pair_validate cu pd \<noteq> Inr ()"
    and com: "ios_fs_companion_encode new_name True = Inr cc"
    and new: "new = V\<lparr>im_companion := cc, im_primary := pd\<rparr>"
    and good: "\<And>im. im \<in> R \<longleftrightarrow> (visible im \<longrightarrow> im = V \<or> im = new \<or> im = new\<lparr>im_primary := im_primary V\<rparr>)"
  shows "tri V {V} (rename_sequence ops old_name new_name pd) new {new} R"
proof -
  let ?V1 = "V\<lparr>im_companion := cu\<rparr>" let ?V2 = "?V1\<lparr>im_primary := pd\<rparr>"
  have R: "V \<in> R" "new \<in> R" "new\<lparr>im_primary := im_primary V\<rparr> \<in> R" by (simp_all add: good)
  have hidden: "im \<in> R" if "im_companion im = cu" for im using unc(2) that by (simp add: good visible_def)
  have new': "?V2\<lparr>im_companion := cc\<rparr> = new" "?V1\<lparr>im_companion := cc\<rparr> = new\<lparr>im_primary := im_primary V\<rparr>"
    by (simp_all add: new)
  have "tri V {V} (persist_companion ops old_name False) ?V1 {V, ?V1} R"
    using R hidden by (intro tri_companion [OF unc(1)] tri_perform) auto
  moreover have "tri ?V1 {V, ?V1} (to_barrier ops) ?V1 {?V1} R" using R hidden by (intro tri_barrier) auto
  moreover have "tri ?V1 {?V1} (\<lambda>c. to_persist_primary ops c pd) ?V2 {?V1, ?V2} R"
    using hidden by (intro tri_perform [of "Primary pd", unfolded perform_eq]) auto
  moreover have "tri ?V2 {?V1, ?V2} (persist_companion ops new_name True) new
      {?V1, ?V2, new, new\<lparr>im_primary := im_primary V\<rparr>} R"
    using R hidden new' by (intro tri_companion [OF com] tri_perform) auto
  moreover have "tri new {?V1, ?V2, new, new\<lparr>im_primary := im_primary V\<rparr>} (to_barrier ops) new {new} R"
    using R hidden by (intro tri_barrier) auto
  ultimately show ?thesis unfolding rename_sequence_def by (blast intro: tri_seq)
qed

lemma delete_tri:
  assumes unc: "ios_fs_companion_encode name False = Inr cu" "\<And>pd. ios_fs_record_pair_validate cu pd \<noteq> Inr ()"
    and new: "new = V\<lparr>im_companion := delete_companion cu, im_primary := delete_primary (im_primary V),
      im_released := im_released V \<or> k \<noteq> 0\<rparr>"
    and good: "\<And>im. im \<in> R \<longleftrightarrow> (visible im \<longrightarrow> im = V)"
  shows "tri V {V} (delete_sequence ops name k) new {new} R"
proof -
  let ?V1 = "V\<lparr>im_companion := cu\<rparr>" let ?V2 = "app Deleted ?V1"
  have hidden: "im \<in> R" if "im_companion im = cu \<or> im_companion im = delete_companion cu" for im
    using unc(2) that delete_companion_hidden by (auto simp: good visible_def)
  have "tri V {V} (persist_companion ops name False) ?V1 {V, ?V1} R"
    using hidden good by (intro tri_companion [OF unc(1)] tri_perform) auto
  moreover have "tri ?V1 {V, ?V1} (to_barrier ops) ?V1 {?V1} R" using good hidden by (intro tri_barrier) auto
  moreover have "tri ?V1 {?V1} (to_persist_deleted_pair ops) ?V2 ({?V1} \<union> torn Deleted ?V1) R"
    using hidden by (intro tri_perform [of Deleted, unfolded perform_eq]) auto
  moreover have "tri ?V2 ({?V1} \<union> torn Deleted ?V1) (to_barrier ops) ?V2 {?V2} R"
    using hidden by (intro tri_barrier) auto
  moreover have "tri ?V2 {?V2} (\<lambda>c. if k \<noteq> 0 then to_release_allocation ops c k else (c, Inr ())) new {?V2, new} R"
  proof (cases "k = 0")
    case True
    then have "new = ?V2" by (simp add: new)
    then show ?thesis using True by (simp add: tri_def)
  next
    case False
    then show ?thesis
      using hidden tri_perform [of "Release k" ?V2 new "{?V2}" "{?V2, new}" R, unfolded perform_eq] by (simp add: new)
  qed
  moreover have "tri new {?V2, new} (to_barrier ops) new {new} R"
    using hidden by (intro tri_barrier) (auto simp: new)
  ultimately show ?thesis unfolding delete_sequence_def by (blast intro: tri_seq)
qed

end

section \<open>The operations over a storage\<close>

definition saved :: "ios_fs_primary \<Rightarrow> bytes \<Rightarrow> commit_image \<Rightarrow> commit_image" where
  "saved primary content im = im\<lparr>im_companion := projr (ios_fs_companion_encode (p_name primary) True),
     im_primary := projr (ios_fs_primary_encode primary), im_content := content, im_allocated := True\<rparr>"

definition renamed :: "ios_fs_primary \<Rightarrow> bytes \<Rightarrow> commit_image \<Rightarrow> commit_image" where
  "renamed primary name im = im\<lparr>im_companion := projr (ios_fs_companion_encode name True),
     im_primary := projr (ios_fs_primary_encode (primary\<lparr>p_name := name\<rparr>))\<rparr>"

lemma refresh_registry_context [simp]:
  "tx_context (refresh_registry_after_commit tx pd) = tx_context tx"
  by (simp add: refresh_registry_after_commit_def split: option.splits sum.splits)

lemma companion_encode_total:
  assumes "valid_stored_name name"
  obtains cd where "ios_fs_companion_encode name committed = Inr cd"
  using assms by (auto simp: ios_fs_companion_encode_def ios_fs_name_extension_def Let_def)

lemma primary_encode_name: "ios_fs_primary_encode primary = Inr pd \<Longrightarrow> valid_stored_name (p_name primary)"
  by (auto simp: ios_fs_primary_encode_def primary_fields_rejected_def split: if_splits)

lemma primary_decode_name:
  "ios_fs_primary_decode pd = Inr primary \<Longrightarrow> p_name primary = pd_name pd \<and> valid_stored_name (pd_name pd)"
  by (auto simp: ios_fs_primary_decode_def primary_fields_rejected_def Let_def split: if_splits)

text \<open>Either the call is refused before any callback, or the whole sequence runs.\<close>

lemma save_cases:
  assumes "ios_fs_transaction_save tx primary content = (tx', r)"
  obtains (refused) "tx' = tx" "r \<noteq> Inr ()"
  | (run) pd c where "ios_fs_primary_encode primary = Inr pd" "tx_context tx' = c"
      "save_sequence (tx_operations tx) (p_name primary) pd content (tx_context tx) = (c, r)"
      "r \<noteq> Inr () \<Longrightarrow> tx_registry tx' = tx_registry tx"
proof (cases "validate_transaction tx = Inr () \<and> length content = unat (p_file_size primary)")
  case True
  show thesis
  proof (cases "ios_fs_primary_encode primary")
    case (Inl e)
    then show thesis using assms True refused by (auto simp: ios_fs_transaction_save_def)
  next
    case (Inr pd)
    obtain c q where "save_sequence (tx_operations tx) (p_name primary) pd content (tx_context tx) = (c, q)"
      by (cases "save_sequence (tx_operations tx) (p_name primary) pd content (tx_context tx)")
    then show thesis using assms True Inr by (cases q) (auto simp: ios_fs_transaction_save_def intro!: run)
  qed
next
  case False
  then have "tx' = tx \<and> r \<noteq> Inr ()"
    using assms by (auto simp: ios_fs_transaction_save_def split: if_splits sum.splits)
  then show thesis using refused by blast
qed

lemma rename_cases:
  assumes "ios_fs_transaction_rename tx cd pd name exists = (tx', r)"
  obtains (refused) "tx' = tx" "r \<noteq> Inr ()"
  | (run) primary rd c where "ios_fs_primary_decode pd = Inr primary"
      "ios_fs_primary_encode (primary\<lparr>p_name := name\<rparr>) = Inr rd" "tx_context tx' = c" "\<not> exists"
      "rename_sequence (tx_operations tx) (pd_name pd) name rd (tx_context tx) = (c, r)"
      "r \<noteq> Inr () \<Longrightarrow> tx_registry tx' = tx_registry tx"
proof (cases "validate_transaction tx = Inr () \<and> \<not> exists \<and> ios_fs_record_pair_validate cd pd = Inr ()")
  case True
  show thesis
  proof (cases "ios_fs_primary_decode pd")
    case (Inl e)
    then show thesis using assms True refused by (auto simp: ios_fs_transaction_rename_def)
  next
    case dec: (Inr primary)
    show thesis
    proof (cases "ios_fs_primary_encode (primary\<lparr>p_name := name\<rparr>)")
      case (Inl e)
      then show thesis using assms True dec refused by (auto simp: ios_fs_transaction_rename_def)
    next
      case (Inr rd)
      obtain c q where "rename_sequence (tx_operations tx) (pd_name pd) name rd (tx_context tx) = (c, q)"
        by (cases "rename_sequence (tx_operations tx) (pd_name pd) name rd (tx_context tx)")
      then show thesis using assms True Inr dec by (cases q) (auto simp: ios_fs_transaction_rename_def intro!: run)
    qed
  qed
next
  case False
  then have "tx' = tx \<and> r \<noteq> Inr ()"
    using assms by (auto simp: ios_fs_transaction_rename_def split: if_splits sum.splits)
  then show thesis using refused by blast
qed

lemma delete_cases:
  assumes "ios_fs_transaction_delete tx cd pd = (tx', r)"
  obtains (refused) "tx' = tx" "r \<noteq> Inr ()"
  | (run) primary c where "ios_fs_primary_decode pd = Inr primary" "tx_context tx' = c"
      "delete_sequence (tx_operations tx) (p_name primary) (p_first_cluster primary) (tx_context tx) = (c, r)"
proof (cases "validate_transaction tx = Inr () \<and> ios_fs_record_pair_validate cd pd = Inr ()")
  case True
  show thesis
  proof (cases "ios_fs_primary_decode pd")
    case (Inl e)
    then show thesis using assms True refused by (auto simp: ios_fs_transaction_delete_def)
  next
    case (Inr primary)
    obtain c q where "delete_sequence (tx_operations tx) (p_name primary) (p_first_cluster primary) (tx_context tx) = (c, q)"
      by (cases "delete_sequence (tx_operations tx) (p_name primary) (p_first_cluster primary) (tx_context tx)")
    then show thesis using assms True Inr by (auto simp: ios_fs_transaction_delete_def intro!: run)
  qed
next
  case False
  then have "tx' = tx \<and> r \<noteq> Inr ()"
    using assms by (auto simp: ios_fs_transaction_delete_def split: if_splits sum.splits)
  then show thesis using refused by blast
qed

text \<open>What a power loss may leave during a replacement of \<open>old\<close> by \<open>new\<close>.\<close>

definition commit_states :: "commit_image \<Rightarrow> commit_image \<Rightarrow> commit_image set" where
  "commit_states old new = {im. visible im \<longrightarrow> im = old \<or> im = new \<or> im = new\<lparr>im_primary := im_primary old\<rparr>}"

lemma encoded_companions:
  assumes "length name = 11" and "valid_stored_name name"
  obtains cu cc where "ios_fs_companion_encode name False = Inr cu" and "\<And>pd. ios_fs_record_pair_validate cu pd \<noteq> Inr ()"
    and "ios_fs_companion_encode name True = Inr cc"
proof -
  obtain cu cc where cu: "ios_fs_companion_encode name False = Inr cu"
    and cc: "ios_fs_companion_encode name True = Inr cc" using companion_encode_total [OF assms(2)] by metis
  show thesis using pair_validate_uncommitted [OF assms(1) cu] by (intro that [OF cu _ cc]) (metis Inl_Inr_False)
qed

lemma save_outcome:
  assumes st: "commit_storage (tx_operations tx) vis crash" and idle: "crash (tx_context tx) = {vis (tx_context tx)}"
    and len: "length (p_name primary) = 11" and save: "ios_fs_transaction_save tx primary content = (tx', r)"
  shows "crash (tx_context tx') \<subseteq> commit_states (vis (tx_context tx)) (saved primary content (vis (tx_context tx)))
    \<and> (r = Inr () \<longrightarrow> crash (tx_context tx') \<subseteq> {saved primary content (vis (tx_context tx))})
    \<and> (r \<noteq> Inr () \<longrightarrow> tx_registry tx' = tx_registry tx)"
  using save
proof (cases rule: save_cases)
  case refused
  then show ?thesis using idle by (simp add: commit_states_def)
next
  case (run pd c)
  let ?V = "vis (tx_context tx)"
  obtain cu cc where enc: "ios_fs_companion_encode (p_name primary) False = Inr cu"
    "\<And>pd. ios_fs_record_pair_validate cu pd \<noteq> Inr ()" "ios_fs_companion_encode (p_name primary) True = Inr cc"
    using encoded_companions [OF len primary_encode_name [OF run(1)]] by metis
  have tri: "commit_storage.tri vis crash ?V {?V} (save_sequence (tx_operations tx) (p_name primary) pd content)
      (saved primary content ?V) {saved primary content ?V} (commit_states ?V (saved primary content ?V))"
    by (rule commit_storage.save_tri [OF st enc]) (simp_all add: saved_def enc run(1) commit_states_def)
  have "saved primary content ?V \<in> commit_states ?V (saved primary content ?V)" by (simp add: commit_states_def)
  then show ?thesis
    using commit_storage.tri_run [OF st tri refl idle run(3)] run(2,4) by (cases r) auto
qed

section \<open>Properties\<close>


text \<open>Creating a file in free slots is all or nothing: when the old primary slot holds no valid
  record, every image in which the new pair validates is the complete new file.\<close>

theorem create_all_or_nothing:
  assumes "commit_storage (tx_operations tx) vis crash" and "crash (tx_context tx) = {vis (tx_context tx)}"
    and "length (p_name primary) = 11" and "ios_fs_primary_decode (im_primary (vis (tx_context tx))) = Inl e"
    and "ios_fs_transaction_create tx primary content = (tx', r)"
  shows "\<forall>im \<in> crash (tx_context tx'). visible im \<longrightarrow> im = saved primary content (vis (tx_context tx))"
proof -
  have "\<not> visible im" if "im_primary im = im_primary (vis (tx_context tx))" for im
    using assms(4) that by (auto simp: visible_def ios_fs_record_pair_validate_def split: sum.splits)
  then show ?thesis
    using save_outcome [OF assms(1-3) assms(5) [unfolded ios_fs_transaction_create_def]]
    by (force simp: commit_states_def)
qed


text \<open>Deleting never frees storage of a visible file: whatever fails, an image whose pair
  validates is the old image, with nothing released. Success leaves a pair that does not validate
  and the allocation released.\<close>

theorem delete_crash_safe:
  assumes "commit_storage (tx_operations tx) vis crash" and "crash (tx_context tx) = {vis (tx_context tx)}"
    and "length (pd_name pd) = 11" and "ios_fs_transaction_delete tx cd pd = (tx', r)"
  shows "(\<forall>im \<in> crash (tx_context tx'). visible im \<longrightarrow> im = vis (tx_context tx))
    \<and> (r = Inr () \<longrightarrow> (\<forall>im \<in> crash (tx_context tx'). \<not> visible im
         \<and> (\<forall>primary. ios_fs_primary_decode pd = Inr primary \<and> p_first_cluster primary \<noteq> 0 \<longrightarrow> im_released im)))"
  using assms(4)
proof (cases rule: delete_cases)
  case refused
  then show ?thesis using assms(2) by simp
next
  case (run primary c)
  let ?V = "vis (tx_context tx)" and ?R = "{im. visible im \<longrightarrow> im = vis (tx_context tx)}"
  have name: "length (p_name primary) = 11" "valid_stored_name (p_name primary)"
    using primary_decode_name [OF run(1)] assms(3) by simp_all
  obtain cu where cu: "ios_fs_companion_encode (p_name primary) False = Inr cu"
    "\<And>pd. ios_fs_record_pair_validate cu pd \<noteq> Inr ()" using encoded_companions [OF name] by metis
  define new where "new = ?V\<lparr>im_companion := delete_companion cu, im_primary := delete_primary (im_primary ?V),
      im_released := im_released ?V \<or> p_first_cluster primary \<noteq> 0\<rparr>"
  have tri: "commit_storage.tri vis crash ?V {?V} (delete_sequence (tx_operations tx) (p_name primary) (p_first_cluster primary))
      new {new} ?R"
    by (rule commit_storage.delete_tri [OF assms(1) cu new_def]) simp
  have "\<not> visible new" by (simp add: visible_def new_def delete_companion_hidden)
  moreover have "im_released new" if "p_first_cluster primary \<noteq> 0" using that by (simp add: new_def)
  ultimately show ?thesis
    using commit_storage.tri_run [OF assms(1) tri refl assms(2) run(3)] run(1,2) by (cases r) auto
qed

section \<open>A storage with write-back and scripted failures\<close>

text \<open>
  Accepted updates stay pending in any combination until a barrier; each call consumes one entry
  of the script and fails when it is \<open>True\<close>.
\<close>

record script_storage =
  ss_visible :: commit_image
  ss_possible :: "commit_image list"
  ss_script :: "bool list"

definition script_fails :: "script_storage \<Rightarrow> bool" where
  "script_fails s \<longleftrightarrow> ss_script s \<noteq> [] \<and> hd (ss_script s)"

definition script_update :: "update \<Rightarrow> script_storage \<Rightarrow> script_storage \<times> unit res" where
  "script_update u s =
     (let s' = s\<lparr>ss_script := tl (ss_script s)\<rparr> in
      if script_fails s then (s', Inl IOS_E_IO)
      else (s'\<lparr>ss_visible := app u (ss_visible s), ss_possible := ss_possible s @ map (app u) (ss_possible s)\<rparr>, Inr ()))"

definition script_barrier :: "script_storage \<Rightarrow> script_storage \<times> unit res" where
  "script_barrier s =
     (let s' = s\<lparr>ss_script := tl (ss_script s)\<rparr> in
      if script_fails s then (s', Inl IOS_E_IO) else (s'\<lparr>ss_possible := [ss_visible s]\<rparr>, Inr ()))"

definition script_operations :: "script_storage ios_fs_transaction_operations" where
  "script_operations = \<lparr>to_persist_content = \<lambda>s bs. script_update (Content bs) s,
     to_persist_allocation = script_update Allocation, to_persist_primary = \<lambda>s pd. script_update (Primary pd) s,
     to_persist_companion = \<lambda>s cd. script_update (Companion cd) s, to_persist_deleted_pair = script_update Deleted,
     to_release_allocation = \<lambda>s k. script_update (Release k) s, to_barrier = script_barrier\<rparr>"

lemma perform_script: "perform script_operations u = script_update u"
  by (cases u) (simp_all add: script_operations_def fun_eq_iff)

lemma app_torn: "app u im \<in> torn u im"
  by (cases u) auto

interpretation script: commit_storage script_operations ss_visible "\<lambda>s. set (ss_possible s)"
proof
  fix u c c' r e
  show "perform script_operations u c = (c', Inr ()) \<Longrightarrow> ss_visible c' = app u (ss_visible c)"
    by (auto simp: perform_script script_update_def Let_def split: if_splits)
  show "perform script_operations u c = (c', r) \<Longrightarrow> set (ss_possible c') \<subseteq> set (ss_possible c) \<union> \<Union> (torn u ` set (ss_possible c))"
    by (auto simp: perform_script script_update_def Let_def split: if_splits) (use app_torn in blast)
  show "to_barrier script_operations c = (c', Inr ()) \<Longrightarrow> ss_visible c' = ss_visible c \<and> set (ss_possible c') = {ss_visible c}"
    by (auto simp: script_operations_def script_barrier_def Let_def split: if_splits)
  show "to_barrier script_operations c = (c', Inl e) \<Longrightarrow> set (ss_possible c') \<subseteq> set (ss_possible c) \<union> {ss_visible c}"
    by (auto simp: script_operations_def script_barrier_def Let_def split: if_splits)
qed

section \<open>Witnesses\<close>

text \<open>A file A.TXT with committed records, and the same slots after its deletion.\<close>

definition image_A_TXT :: commit_image where
  "image_A_TXT = \<lparr>im_companion = companion_disk_A_TXT, im_primary = primary_disk_A_TXT, im_content = [],
     im_allocated = True, im_released = False\<rparr>"

definition image_free :: commit_image where
  "image_free = app Deleted image_A_TXT"

definition script_transaction :: "commit_image \<Rightarrow> bool list \<Rightarrow> script_storage ios_fs_transaction" where
  "script_transaction im script = fst (ios_fs_transaction_initialize
     \<lparr>ss_visible = im, ss_possible = [im], ss_script = script\<rparr> script_operations True)"

lemma script_transaction_simps [simp]:
  "tx_operations (script_transaction im script) = script_operations"
  "tx_context (script_transaction im script) = \<lparr>ss_visible = im, ss_possible = [im], ss_script = script\<rparr>"
  "validate_transaction (script_transaction im script) = Inr ()"
  by (simp_all add: script_transaction_def ios_fs_transaction_initialize_def Let_def validate_transaction_def)

lemma companion_A_TXT:
  obtains cu where "ios_fs_companion_encode name_A_TXT False = Inr cu"
  using companion_encode_total [OF valid_A_TXT(2)] by blast

lemma script_save: "\<exists>tx'. ios_fs_transaction_save (script_transaction im []) primary_A_TXT [] = (tx', Inr ())"
proof -
  obtain cu where cu: "ios_fs_companion_encode name_A_TXT False = Inr cu" by (rule companion_A_TXT)
  have name: "p_name primary_A_TXT = name_A_TXT" "p_file_size primary_A_TXT = 0" by (simp_all add: primary_A_TXT_def)
  show ?thesis
    by (simp add: ios_fs_transaction_save_def encode_A_TXT name save_sequence_def seq_op_def persist_companion_def
        cu script_operations_def script_update_def script_barrier_def script_fails_def Let_def)
qed


lemma image_free_primary: "ios_fs_primary_decode (im_primary image_free) = Inl IOS_E_NOT_FOUND"
  using wf_A_TXT(2)
  by (cases "pd_name primary_disk_A_TXT")
    (auto simp: image_free_def image_A_TXT_def delete_primary_def ios_fs_primary_decode_def primary_disk_wf_def)

theorem create_all_or_nothing_witness:
  "{im \<in> set (ss_possible (tx_context (fst
       (ios_fs_transaction_create (script_transaction image_free [False, False, True]) primary_A_TXT [])))). visible im}
     \<subseteq> {saved primary_A_TXT [] image_free}"
  using create_all_or_nothing [of "script_transaction image_free [False, False, True]" ss_visible
      "\<lambda>s. set (ss_possible s)" primary_A_TXT, OF _ _ _ _ surjective_pairing]
    image_free_primary script.commit_storage_axioms valid_A_TXT(1) by (auto simp: primary_A_TXT_def)


theorem delete_crash_safe_witness:
  "{im \<in> set (ss_possible (tx_context (fst (ios_fs_transaction_delete (script_transaction image_A_TXT [False, False, False, True])
      companion_disk_A_TXT primary_disk_A_TXT)))). visible im} \<subseteq> {image_A_TXT}"
  using delete_crash_safe [of "script_transaction image_A_TXT [False, False, False, True]" ss_visible
      "\<lambda>s. set (ss_possible s)" primary_disk_A_TXT, OF _ _ _ surjective_pairing]
    script.commit_storage_axioms wf_A_TXT(2) by (auto simp: primary_disk_wf_def)

end
