(* ===== verification/Block_Cache.thy ===== *)
theory Block_Cache
  imports Block_Device
begin

text \<open>
  The sector cache (block.h, cache.c). The cache holds its device, so one state record carries
  both. The abstract state of a cache is \<open>cache_view\<close>: for every sector the cached bytes when
  the sector is resident and the medium's bytes otherwise. Every operation is shown to act on
  that view as a plain array of sectors: reads return it, writes update it, eviction, pinning
  and failed I/O leave it alone, and a successful barrier makes the medium equal to it.
  Generations are naturals with the wrap guard written out; \<open>use_clock\<close> wraps as in the code.
\<close>

section \<open>State\<close>

datatype ios_block_cache_state =
    IOS_BLOCK_CACHE_EMPTY | IOS_BLOCK_CACHE_CLEAN | IOS_BLOCK_CACHE_DIRTY | IOS_BLOCK_CACHE_ERROR

record ios_block_cache_entry =
  ce_bytes :: bytes
  ce_sector :: nat
  ce_dirty_generation :: nat
  ce_last_use :: u64
  ce_pin_count :: nat
  ce_state :: ios_block_cache_state
  ce_io_active :: bool

record 'd ios_block_cache =
  bc_device :: "'d ios_block_device"
  bc_entries :: "ios_block_cache_entry list"
  bc_current_generation :: nat
  bc_use_clock :: u64

abbreviation IOS_BLOCK_CACHE_MAX_ENTRIES :: nat where "IOS_BLOCK_CACHE_MAX_ENTRIES \<equiv> 256"

text \<open>An entry after \<open>memset(entry, 0, sizeof(*entry))\<close>.\<close>

definition zero_entry :: ios_block_cache_entry where
  "zero_entry = \<lparr>ce_bytes = replicate IOS_BLOCK_SECTOR_SIZE 0, ce_sector = 0, ce_dirty_generation = 0,
     ce_last_use = 0, ce_pin_count = 0, ce_state = IOS_BLOCK_CACHE_EMPTY, ce_io_active = False\<rparr>"

section \<open>Operations\<close>

definition cache_holds :: "nat \<Rightarrow> ios_block_cache_entry \<Rightarrow> bool" where
  "cache_holds sector entry \<longleftrightarrow> ce_state entry \<noteq> IOS_BLOCK_CACHE_EMPTY \<and> ce_sector entry = sector"

definition find_entry :: "'d ios_block_cache \<Rightarrow> nat \<Rightarrow> nat option" where
  "find_entry cache sector = find_index (cache_holds sector) (bc_entries cache)"

fun select_victim_loop ::
  "nat \<Rightarrow> ios_block_cache_entry list \<Rightarrow> (nat \<times> u64) option \<Rightarrow> nat option" where
  "select_victim_loop index [] victim = map_option fst victim"
| "select_victim_loop index (entry # rest) victim =
     (if ce_pin_count entry \<noteq> 0 \<or> ce_io_active entry then select_victim_loop (index + 1) rest victim
      else if ce_state entry = IOS_BLOCK_CACHE_EMPTY then Some index
      else if ce_state entry = IOS_BLOCK_CACHE_CLEAN
        \<and> (case victim of None \<Rightarrow> True | Some (_, last_use) \<Rightarrow> ce_last_use entry < last_use)
      then select_victim_loop (index + 1) rest (Some (index, ce_last_use entry))
      else select_victim_loop (index + 1) rest victim)"

definition select_victim :: "'d ios_block_cache \<Rightarrow> nat option" where
  "select_victim cache = select_victim_loop 0 (bc_entries cache) None"

definition acquire_entry ::
  "'d ios_block_cache \<Rightarrow> nat \<Rightarrow> bool \<Rightarrow> 'd ios_block_cache \<times> nat res" where
  "acquire_entry cache sector load =
     (if sector \<ge> bd_sector_count (bc_device cache) then (cache, Inl IOS_E_OUT_OF_RANGE)
      else let clock = bc_use_clock cache + 1 in
        case find_entry cache sector of
          Some index \<Rightarrow>
            (cache\<lparr>bc_use_clock := clock,
                   bc_entries := (bc_entries cache)[index := (bc_entries cache ! index)\<lparr>ce_last_use := clock\<rparr>]\<rparr>,
             Inr index)
        | None \<Rightarrow>
           (case select_victim cache of
              None \<Rightarrow> (cache, Inl IOS_E_WOULD_BLOCK)
            | Some index \<Rightarrow>
                let cache = cache\<lparr>bc_use_clock := clock\<rparr>;
                    entry = zero_entry\<lparr>ce_sector := sector, ce_last_use := clock\<rparr>
                in if load then
                     (case block_device_read (bc_device cache) sector 1 of
                        (device, Inl e) \<Rightarrow>
                          (cache\<lparr>bc_device := device, bc_entries := (bc_entries cache)[index := zero_entry]\<rparr>, Inl e)
                      | (device, Inr bs) \<Rightarrow>
                          (cache\<lparr>bc_device := device, bc_entries := (bc_entries cache)[index :=
                             entry\<lparr>ce_bytes := bs, ce_state := IOS_BLOCK_CACHE_CLEAN\<rparr>]\<rparr>, Inr index))
                   else (cache\<lparr>bc_entries := (bc_entries cache)[index :=
                           entry\<lparr>ce_state := IOS_BLOCK_CACHE_CLEAN\<rparr>]\<rparr>, Inr index)))"

definition block_cache_initialize :: "'d ios_block_device \<Rightarrow> nat \<Rightarrow> 'd ios_block_cache res" where
  "block_cache_initialize device entry_count =
     (if entry_count = 0 \<or> entry_count > IOS_BLOCK_CACHE_MAX_ENTRIES
         \<or> bd_logical_sector_size device \<noteq> IOS_BLOCK_SECTOR_SIZE
         \<or> bd_status device = IOS_BLOCK_DEVICE_OFFLINE \<or> bd_status device = IOS_BLOCK_DEVICE_FAILED
      then Inl IOS_E_INVALID_ARGUMENT
      else Inr \<lparr>bc_device = device, bc_entries = replicate entry_count zero_entry,
             bc_current_generation = 1, bc_use_clock = 0\<rparr>)"

definition block_cache_read :: "'d ios_block_cache \<Rightarrow> nat \<Rightarrow> 'd ios_block_cache \<times> bytes res" where
  "block_cache_read cache sector =
     (case acquire_entry cache sector True of
        (cache, Inl e) \<Rightarrow> (cache, Inl e)
      | (cache, Inr index) \<Rightarrow> (cache, Inr (ce_bytes (bc_entries cache ! index))))"

definition block_cache_write ::
  "'d ios_block_cache \<Rightarrow> nat \<Rightarrow> bytes \<Rightarrow> nat \<Rightarrow> 'd ios_block_cache \<times> unit res" where
  "block_cache_write cache sector buffer generation =
     (if generation = 0 \<or> generation > bc_current_generation cache then (cache, Inl IOS_E_INVALID_ARGUMENT)
      else if bd_status (bc_device cache) = IOS_BLOCK_DEVICE_READ_ONLY then (cache, Inl IOS_E_READ_ONLY)
      else case acquire_entry cache sector False of
          (cache, Inl e) \<Rightarrow> (cache, Inl e)
        | (cache, Inr index) \<Rightarrow>
            (cache\<lparr>bc_entries := (bc_entries cache)[index := (bc_entries cache ! index)
                \<lparr>ce_bytes := buffer, ce_dirty_generation := generation, ce_state := IOS_BLOCK_CACHE_DIRTY\<rparr>]\<rparr>,
             Inr ()))"

definition block_cache_pin :: "'d ios_block_cache \<Rightarrow> nat \<Rightarrow> 'd ios_block_cache \<times> unit res" where
  "block_cache_pin cache sector =
     (case acquire_entry cache sector True of
        (cache, Inl e) \<Rightarrow> (cache, Inl e)
      | (cache, Inr index) \<Rightarrow>
          let entry = bc_entries cache ! index in
          if ce_pin_count entry = UINT32_MAX then (cache, Inl IOS_E_OVERFLOW)
          else (cache\<lparr>bc_entries := (bc_entries cache)[index := entry\<lparr>ce_pin_count := ce_pin_count entry + 1\<rparr>]\<rparr>,
                Inr ()))"

definition block_cache_unpin :: "'d ios_block_cache \<Rightarrow> nat \<Rightarrow> 'd ios_block_cache \<times> unit res" where
  "block_cache_unpin cache sector =
     (case find_entry cache sector of
        None \<Rightarrow> (cache, Inl IOS_E_INVALID_STATE)
      | Some index \<Rightarrow>
          let entry = bc_entries cache ! index in
          if ce_pin_count entry = 0 then (cache, Inl IOS_E_INVALID_STATE)
          else (cache\<lparr>bc_entries := (bc_entries cache)[index := entry\<lparr>ce_pin_count := ce_pin_count entry - 1\<rparr>]\<rparr>,
                Inr ()))"

definition block_cache_advance_generation :: "'d ios_block_cache \<Rightarrow> 'd ios_block_cache \<times> nat res" where
  "block_cache_advance_generation cache =
     (if bc_current_generation cache = UINT64_MAX then (cache, Inl IOS_E_OVERFLOW)
      else (cache\<lparr>bc_current_generation := bc_current_generation cache + 1\<rparr>,
            Inr (bc_current_generation cache + 1)))"

definition needs_write :: "nat \<Rightarrow> ios_block_cache_entry \<Rightarrow> bool" where
  "needs_write target entry \<longleftrightarrow>
     (ce_state entry = IOS_BLOCK_CACHE_DIRTY \<or> ce_state entry = IOS_BLOCK_CACHE_ERROR)
     \<and> ce_dirty_generation entry \<le> target"

text \<open>The first loop of the barrier: write every due entry, remember the first error.\<close>

fun barrier_write_loop ::
  "nat \<Rightarrow> 'd ios_block_device \<Rightarrow> ios_block_cache_entry list \<Rightarrow> ios_error option
    \<Rightarrow> 'd ios_block_device \<times> ios_block_cache_entry list \<times> ios_error option" where
  "barrier_write_loop target device [] first_error = (device, [], first_error)"
| "barrier_write_loop target device (entry # rest) first_error =
     (if \<not> needs_write target entry then
        (case barrier_write_loop target device rest first_error of
           (device, rest, first_error) \<Rightarrow> (device, entry # rest, first_error))
      else case block_device_write device (ce_sector entry) 1 (ce_bytes entry) of
          (device, Inl e) \<Rightarrow>
            (case barrier_write_loop target device rest
                    (case first_error of None \<Rightarrow> Some e | Some f \<Rightarrow> Some f) of
               (device, rest, first_error) \<Rightarrow>
                 (device, entry\<lparr>ce_io_active := False, ce_state := IOS_BLOCK_CACHE_ERROR\<rparr> # rest, first_error))
        | (device, Inr _) \<Rightarrow>
            (case barrier_write_loop target device rest first_error of
               (device, rest, first_error) \<Rightarrow>
                 (device, entry\<lparr>ce_io_active := False, ce_state := IOS_BLOCK_CACHE_DIRTY\<rparr> # rest, first_error)))"

definition block_cache_barrier :: "'d ios_block_cache \<Rightarrow> nat \<Rightarrow> 'd ios_block_cache \<times> unit res" where
  "block_cache_barrier cache target =
     (if target = 0 \<or> target > bc_current_generation cache then (cache, Inl IOS_E_INVALID_ARGUMENT)
      else case barrier_write_loop target (bc_device cache) (bc_entries cache) None of
          (device, entries, Some e) \<Rightarrow> (cache\<lparr>bc_device := device, bc_entries := entries\<rparr>, Inl e)
        | (device, entries, None) \<Rightarrow>
           (case block_device_flush device of
              (device, Inl e) \<Rightarrow>
                (cache\<lparr>bc_device := device, bc_entries := map (\<lambda>entry.
                   if ce_state entry = IOS_BLOCK_CACHE_DIRTY \<and> ce_dirty_generation entry \<le> target
                   then entry\<lparr>ce_state := IOS_BLOCK_CACHE_ERROR\<rparr> else entry) entries\<rparr>, Inl e)
            | (device, Inr _) \<Rightarrow>
                (cache\<lparr>bc_device := device, bc_entries := map (\<lambda>entry.
                   if needs_write target entry
                   then entry\<lparr>ce_state := IOS_BLOCK_CACHE_CLEAN, ce_dirty_generation := 0\<rparr> else entry) entries\<rparr>,
                 Inr ())))"

definition block_cache_invalidate :: "'d ios_block_cache \<Rightarrow> 'd ios_block_cache" where
  "block_cache_invalidate cache =
     cache\<lparr>bc_entries := replicate (length (bc_entries cache)) zero_entry, bc_use_clock := 0\<rparr>"

section \<open>The view of an entry list over a medium\<close>

definition entries_view :: "ios_block_cache_entry list \<Rightarrow> (nat \<Rightarrow> bytes) \<Rightarrow> nat \<Rightarrow> bytes" where
  "entries_view es f s =
     (case find_index (cache_holds s) es of Some i \<Rightarrow> ce_bytes (es ! i) | None \<Rightarrow> f s)"

definition unique_sectors :: "ios_block_cache_entry list \<Rightarrow> bool" where
  "unique_sectors es \<longleftrightarrow>
     (\<forall>i < length es. \<forall>j < length es. cache_holds (ce_sector (es ! i)) (es ! i)
        \<longrightarrow> cache_holds (ce_sector (es ! i)) (es ! j) \<longrightarrow> j = i)"

lemma unique_sectorsD:
  "unique_sectors es \<Longrightarrow> i < length es \<Longrightarrow> j < length es \<Longrightarrow> cache_holds s (es ! i) \<Longrightarrow> cache_holds s (es ! j) \<Longrightarrow> j = i"
  unfolding unique_sectors_def cache_holds_def by metis

lemma unique_sectorsI:
  "(\<And>i j s. i < length es \<Longrightarrow> j < length es \<Longrightarrow> cache_holds s (es ! i) \<Longrightarrow> cache_holds s (es ! j) \<Longrightarrow> j = i)
    \<Longrightarrow> unique_sectors es"
  unfolding unique_sectors_def by blast

lemma view_hit:
  assumes "unique_sectors es" and "i < length es" and "cache_holds s (es ! i)"
  shows "entries_view es f s = ce_bytes (es ! i)"
proof -
  have "find_index (cache_holds s) es = Some i"
    using assms(2,3) unique_sectorsD [OF assms(1,2) _ assms(3)] by (rule find_index_unique)
  then show ?thesis by (simp add: entries_view_def)
qed

lemma view_miss: "(\<And>i. i < length es \<Longrightarrow> \<not> cache_holds s (es ! i)) \<Longrightarrow> entries_view es f s = f s"
proof -
  assume "\<And>i. i < length es \<Longrightarrow> \<not> cache_holds s (es ! i)"
  then have "find_index (cache_holds s) es = None" by (auto simp: find_index_None in_set_conv_nth)
  then show ?thesis by (simp add: entries_view_def)
qed

lemma view_cases:
  assumes "unique_sectors es"
  obtains (hit) i where "i < length es" "cache_holds s (es ! i)" "\<And>f. entries_view es f s = ce_bytes (es ! i)"
  | (miss) "\<And>i. i < length es \<Longrightarrow> \<not> cache_holds s (es ! i)" "\<And>f. entries_view es f s = f s"
  using view_hit [OF assms] view_miss by metis

text \<open>Entry lists that hold the same sectors with the same bytes have the same view.\<close>

lemma view_same:
  assumes "unique_sectors es" and "length es' = length es"
    and holds: "\<And>i s. i < length es \<Longrightarrow> cache_holds s (es' ! i) = cache_holds s (es ! i)"
    and bytes: "\<And>i s. i < length es \<Longrightarrow> cache_holds s (es ! i) \<Longrightarrow> ce_bytes (es' ! i) = ce_bytes (es ! i)"
    and base: "\<And>s. (\<And>i. i < length es \<Longrightarrow> \<not> cache_holds s (es ! i)) \<Longrightarrow> f' s = f s"
  shows "unique_sectors es'" and "entries_view es' f' = entries_view es f"
proof -
  show u: "unique_sectors es'"
    using assms(2) holds unique_sectorsD [OF assms(1)] by (intro unique_sectorsI) auto
  show "entries_view es' f' = entries_view es f"
  proof
    fix s
    show "entries_view es' f' s = entries_view es f s"
    proof (rule view_cases [OF assms(1), of s])
      fix i assume i: "i < length es" "cache_holds s (es ! i)" "\<And>f. entries_view es f s = ce_bytes (es ! i)"
      then show ?thesis using view_hit [OF u, of i s f'] assms(2) holds bytes by simp
    next
      assume "\<And>i. i < length es \<Longrightarrow> \<not> cache_holds s (es ! i)" and miss: "\<And>f. entries_view es f s = f s"
      then show ?thesis using view_miss [of es' s f'] assms(2) holds base by simp
    qed
  qed
qed

text \<open>Replacing an evictable entry.\<close>

lemma view_replace:
  assumes u: "unique_sectors es" and i: "i < length es"
    and evict: "\<forall>t. cache_holds t (es ! i) \<longrightarrow> ce_bytes (es ! i) = f t"
    and fresh: "\<forall>j < length es. \<not> cache_holds s (es ! j)"
  shows "cache_holds s e \<Longrightarrow> unique_sectors (es[i := e])"
    and "cache_holds s e \<Longrightarrow> entries_view (es[i := e]) f = (entries_view es f)(s := ce_bytes e)"
    and "ce_state e = IOS_BLOCK_CACHE_EMPTY \<Longrightarrow> unique_sectors (es[i := e])"
    and "ce_state e = IOS_BLOCK_CACHE_EMPTY \<Longrightarrow> entries_view (es[i := e]) f = entries_view es f"
proof -
  have nth: "cache_holds t (es[i := e] ! j) \<longleftrightarrow> (if j = i then cache_holds t e else cache_holds t (es ! j))"
    if "j < length es" for t j using that i by simp
  have sector: "t = s" if "cache_holds s e" "cache_holds t e" for t
    using that by (simp add: cache_holds_def)
  have empty: "\<not> cache_holds t e" if "ce_state e = IOS_BLOCK_CACHE_EMPTY" for t
    using that by (simp add: cache_holds_def)
  show u1: "unique_sectors (es[i := e])" if "cache_holds s e"
    using nth fresh sector [OF that] unique_sectorsD [OF u] by (intro unique_sectorsI) (auto split: if_splits)
  show u2: "unique_sectors (es[i := e])" if "ce_state e = IOS_BLOCK_CACHE_EMPTY"
    using nth empty [OF that] unique_sectorsD [OF u] by (intro unique_sectorsI) (auto split: if_splits)
  have rest: "entries_view (es[i := e]) f t = entries_view es f t"
    if "unique_sectors (es[i := e])" "\<not> cache_holds t e" for t
  proof (rule view_cases [OF u, of t])
    fix j assume j: "j < length es" "cache_holds t (es ! j)" "\<And>f. entries_view es f t = ce_bytes (es ! j)"
    show ?thesis
    proof (cases "j = i")
      case True
      have "\<not> cache_holds t (es[i := e] ! k)" if "k < length es" for k
        using nth [OF that] \<open>\<not> cache_holds t e\<close> unique_sectorsD [OF u j(1) that j(2)] True by auto
      then show ?thesis using view_miss [of "es[i := e]" t f] j True evict by simp
    next
      case False
      then show ?thesis using view_hit [OF that(1), of j t f] j nth [OF j(1)] by simp
    qed
  next
    assume "\<And>j. j < length es \<Longrightarrow> \<not> cache_holds t (es ! j)" and "\<And>f. entries_view es f t = f t"
    then show ?thesis using view_miss [of "es[i := e]" t f] nth that(2) by (simp split: if_splits)
  qed
  show "entries_view (es[i := e]) f = (entries_view es f)(s := ce_bytes e)" if "cache_holds s e"
  proof
    fix t
    have "entries_view (es[i := e]) f s = ce_bytes e"
      using view_hit [OF u1 [OF that], of i s f] that i by simp
    then show "entries_view (es[i := e]) f t = ((entries_view es f)(s := ce_bytes e)) t"
      using rest [OF u1 [OF that], of t] sector [OF that, of t] by (cases "t = s") auto
  qed
  show "entries_view (es[i := e]) f = entries_view es f" if "ce_state e = IOS_BLOCK_CACHE_EMPTY"
    using rest [OF u2 [OF that] empty [OF that]] by (auto simp: fun_eq_iff)
qed

section \<open>Victims\<close>

definition evictable :: "ios_block_cache_entry \<Rightarrow> bool" where
  "evictable e \<longleftrightarrow> ce_pin_count e = 0 \<and> \<not> ce_io_active e
     \<and> (ce_state e = IOS_BLOCK_CACHE_EMPTY \<or> ce_state e = IOS_BLOCK_CACHE_CLEAN)"

lemma select_victim_loop_evictable:
  "select_victim_loop k es v = Some i \<Longrightarrow>
    (i = fst (the v) \<and> v \<noteq> None) \<or> (k \<le> i \<and> i < k + length es \<and> evictable (es ! (i - k)))"
proof (induction k es v rule: select_victim_loop.induct)
  case (2 k e es v)
  have shift: "k \<le> i \<and> i < k + length (e # es) \<and> evictable ((e # es) ! (i - k))"
    if "k + 1 \<le> i \<and> i < k + 1 + length es \<and> evictable (es ! (i - (k + 1)))"
    using that by (simp add: nth_Cons')
  show ?case
    using 2 shift
    by (auto simp: evictable_def split: if_splits option.splits)
qed auto

lemma select_victim_evictable:
  "select_victim c = Some i \<Longrightarrow> i < length (bc_entries c) \<and> evictable (bc_entries c ! i)"
  using select_victim_loop_evictable [of 0 "bc_entries c" None i] by (auto simp: select_victim_def)

section \<open>Invariant and view of a cache\<close>

text \<open>
  Resident sectors are unique and within the device, a clean entry agrees with the medium,
  and no entry is of a future generation.
\<close>

definition entry_ok :: "nat \<Rightarrow> nat \<Rightarrow> (nat \<Rightarrow> bytes) \<Rightarrow> ios_block_cache_entry \<Rightarrow> bool" where
  "entry_ok sector_count generation medium e \<longleftrightarrow> length (ce_bytes e) = IOS_BLOCK_SECTOR_SIZE
     \<and> (ce_state e \<noteq> IOS_BLOCK_CACHE_EMPTY \<longrightarrow> ce_sector e < sector_count)
     \<and> (ce_state e = IOS_BLOCK_CACHE_CLEAN \<longrightarrow> ce_bytes e = medium (ce_sector e))
     \<and> ce_dirty_generation e \<le> generation"

definition cache_ok ::
  "'d ios_block_device_operations \<Rightarrow> ('d \<Rightarrow> nat \<Rightarrow> bytes) \<Rightarrow> ('d \<Rightarrow> bool) \<Rightarrow> 'd ios_block_cache \<Rightarrow> bool" where
  "cache_ok ops contents ok c \<longleftrightarrow>
     bd_operations (bc_device c) = ops \<and> ok (bd_context (bc_device c))
     \<and> unique_sectors (bc_entries c)
     \<and> (\<forall>e \<in> set (bc_entries c). entry_ok (bd_sector_count (bc_device c)) (bc_current_generation c)
          (contents (bd_context (bc_device c))) e)"

definition medium :: "('d \<Rightarrow> nat \<Rightarrow> bytes) \<Rightarrow> 'd ios_block_cache \<Rightarrow> nat \<Rightarrow> bytes" where
  "medium contents c = contents (bd_context (bc_device c))"

definition cache_view :: "('d \<Rightarrow> nat \<Rightarrow> bytes) \<Rightarrow> 'd ios_block_cache \<Rightarrow> nat \<Rightarrow> bytes" where
  "cache_view contents c = entries_view (bc_entries c) (medium contents c)"

lemma zero_entry_simps [simp]:
  "ce_state zero_entry = IOS_BLOCK_CACHE_EMPTY" "length (ce_bytes zero_entry) = IOS_BLOCK_SECTOR_SIZE"
  "ce_dirty_generation zero_entry = 0" "\<not> cache_holds s zero_entry"
  by (simp_all add: zero_entry_def cache_holds_def)

text \<open>Changes of an entry that the view does not see: use time, pins.\<close>

lemma view_touch:
  assumes "unique_sectors es" and "i < length es"
    and "ce_state e = ce_state (es ! i)" "ce_sector e = ce_sector (es ! i)" "ce_bytes e = ce_bytes (es ! i)"
  shows "unique_sectors (es[i := e])" and "entries_view (es[i := e]) f = entries_view es f"
proof -
  have "cache_holds s (es[i := e] ! j) = cache_holds s (es ! j)" "ce_bytes (es[i := e] ! j) = ce_bytes (es ! j)"
    if "j < length es" for j s
    using that assms(3-5) by (cases "j = i"; simp add: cache_holds_def)+
  then show "unique_sectors (es[i := e])" and "entries_view (es[i := e]) f = entries_view es f"
    using view_same [OF assms(1), of "es[i := e]" f f] by simp_all
qed

text \<open>Overwriting the bytes of a resident entry.\<close>

lemma view_overwrite:
  assumes u: "unique_sectors es" and i: "i < length es" and s: "cache_holds s (es ! i)"
    and e: "ce_state e \<noteq> IOS_BLOCK_CACHE_EMPTY" "ce_sector e = s"
  shows "unique_sectors (es[i := e])" and "entries_view (es[i := e]) f = (entries_view es f)(s := ce_bytes e)"
proof -
  have nth: "cache_holds t (es[i := e] ! j) = cache_holds t (es ! j)" if "j < length es" for t j
    using that s e by (cases "j = i") (auto simp: cache_holds_def)
  show u': "unique_sectors (es[i := e])"
    using nth unique_sectorsD [OF u] by (intro unique_sectorsI) auto
  show "entries_view (es[i := e]) f = (entries_view es f)(s := ce_bytes e)"
  proof
    fix t
    show "entries_view (es[i := e]) f t = ((entries_view es f)(s := ce_bytes e)) t"
    proof (cases "t = s")
      case True
      have "entries_view (es[i := e]) f s = ce_bytes e"
        using view_hit [OF u', of i s f] nth [OF i, of s] s i by simp
      with True show ?thesis by simp
    next
      case False
      have "entries_view (es[i := e]) f t = entries_view es f t"
      proof (rule view_cases [OF u, of t])
        fix j assume j: "j < length es" "cache_holds t (es ! j)" "\<And>f. entries_view es f t = ce_bytes (es ! j)"
        then have "j \<noteq> i" using False s by (auto simp: cache_holds_def)
        then show ?thesis using view_hit [OF u', of j t f] j nth [OF j(1)] by simp
      next
        assume "\<And>j. j < length es \<Longrightarrow> \<not> cache_holds t (es ! j)" and "\<And>f. entries_view es f t = f t"
        then show ?thesis using view_miss [of "es[i := e]" t f] nth by simp
      qed
      with False show ?thesis by simp
    qed
  qed
qed

lemma find_entry_None: "find_entry c s = None \<Longrightarrow> \<forall>j < length (bc_entries c). \<not> cache_holds s (bc_entries c ! j)"
  by (simp add: find_entry_def find_index_None)

lemma find_entry_Some:
  "find_entry c s = Some i \<Longrightarrow> i < length (bc_entries c) \<and> cache_holds s (bc_entries c ! i)"
  by (auto simp: find_entry_def dest: find_index_SomeD)

text \<open>The first loop of the barrier.\<close>

definition flushed :: "nat \<Rightarrow> (nat \<Rightarrow> bytes) \<Rightarrow> bool \<Rightarrow> ios_block_cache_entry \<Rightarrow> ios_block_cache_entry \<Rightarrow> bool" where
  "flushed target f failed e e' \<longleftrightarrow>
     (if \<not> needs_write target e then e' = e
      else e' = e\<lparr>ce_io_active := False, ce_state := IOS_BLOCK_CACHE_DIRTY\<rparr> \<and> f (ce_sector e) = ce_bytes e
        \<or> failed \<and> e' = e\<lparr>ce_io_active := False, ce_state := IOS_BLOCK_CACHE_ERROR\<rparr>)"

definition due :: "nat \<Rightarrow> ios_block_cache_entry list \<Rightarrow> nat \<Rightarrow> bool" where
  "due target es t \<longleftrightarrow> (\<exists>e \<in> set es. needs_write target e \<and> ce_sector e = t)"

lemma due_holds: "due target es s \<Longrightarrow> \<exists>i < length es. cache_holds s (es ! i)"
  by (fastforce simp: due_def in_set_conv_nth cache_holds_def needs_write_def)

lemma unique_sectors_Cons:
  assumes "unique_sectors (e # es)"
  shows "unique_sectors es" and "needs_write target e \<Longrightarrow> \<not> due target es (ce_sector e)"
proof -
  show "unique_sectors es"
    using unique_sectorsD [OF assms, of "Suc _" "Suc _"] by (intro unique_sectorsI) force
  show "\<not> due target es (ce_sector e)" if "needs_write target e"
  proof
    assume "due target es (ce_sector e)"
    then obtain j where "j < length es" "needs_write target (es ! j)" "ce_sector (es ! j) = ce_sector e"
      by (auto simp: due_def in_set_conv_nth)
    then show False
      using unique_sectorsD [OF assms, of 0 "Suc j" "ce_sector e"] that by (auto simp: needs_write_def cache_holds_def)
  qed
qed

context block_driver
begin

lemma cache_okD:
  assumes "cache_ok ops contents ok c"
  shows "dev_ok (bc_device c)" and "unique_sectors (bc_entries c)"
    and "i < length (bc_entries c) \<Longrightarrow> entry_ok (bd_sector_count (bc_device c)) (bc_current_generation c)
          (medium contents c) (bc_entries c ! i)"
  using assms by (auto simp: cache_ok_def dev_ok_def medium_def)

lemma cache_okI:
  assumes "dev_ok (bc_device c)" and "unique_sectors (bc_entries c)"
    and "\<And>i. i < length (bc_entries c) \<Longrightarrow> entry_ok (bd_sector_count (bc_device c)) (bc_current_generation c)
          (medium contents c) (bc_entries c ! i)"
  shows "cache_ok ops contents ok c"
  using assms by (auto simp: cache_ok_def dev_ok_def medium_def in_set_conv_nth)

text \<open>Replacing one entry keeps the invariant.\<close>

lemma cache_ok_update:
  assumes "cache_ok ops contents ok c" and "bc_entries c' = (bc_entries c)[i := e]"
    and "unique_sectors (bc_entries c')" and "dev_ok (bc_device c')"
    and "medium contents c' = medium contents c" and "bd_sector_count (bc_device c') = bd_sector_count (bc_device c)"
    and "bc_current_generation c' = bc_current_generation c"
    and "entry_ok (bd_sector_count (bc_device c)) (bc_current_generation c) (medium contents c) e"
  shows "cache_ok ops contents ok c'"
proof (rule cache_okI)
  fix j assume j: "j < length (bc_entries c')"
  then have "entry_ok (bd_sector_count (bc_device c)) (bc_current_generation c) (medium contents c) (bc_entries c' ! j)"
    using assms(2,8) cache_okD(3) [OF assms(1), of j] by (cases "j = i") simp_all
  then show "entry_ok (bd_sector_count (bc_device c')) (bc_current_generation c') (medium contents c') (bc_entries c' ! j)"
    by (simp add: assms(5-7))
qed (use assms in auto)

lemma evictable_bytes:
  assumes "cache_ok ops contents ok c" and "i < length (bc_entries c)" and "evictable (bc_entries c ! i)"
  shows "\<forall>t. cache_holds t (bc_entries c ! i) \<longrightarrow> ce_bytes (bc_entries c ! i) = medium contents c t"
  using cache_okD(3) [OF assms(1,2)] assms(3) by (auto simp: evictable_def cache_holds_def entry_ok_def)

text \<open>What the three ways of acquiring an entry do.\<close>

lemma acquire_load:
  assumes ok: "cache_ok ops contents ok c" and acq: "acquire_entry c s True = (c', r)"
  shows "cache_ok ops contents ok c'" and "cache_view contents c' = cache_view contents c"
    and "r = Inr i \<Longrightarrow> i < length (bc_entries c') \<and> cache_holds s (bc_entries c' ! i)"
    and "bc_current_generation c' = bc_current_generation c \<and> bd_status (bc_device c') = bd_status (bc_device c)"
proof -
  note d = cache_okD [OF ok]
  have main: "cache_ok ops contents ok c' \<and> cache_view contents c' = cache_view contents c
    \<and> (\<forall>i. r = Inr i \<longrightarrow> i < length (bc_entries c') \<and> cache_holds s (bc_entries c' ! i))
    \<and> bc_current_generation c' = bc_current_generation c \<and> bd_status (bc_device c') = bd_status (bc_device c)"
  proof (cases "s < bd_sector_count (bc_device c)")
    case range: True
    show ?thesis
    proof (cases "find_entry c s")
      case (Some k)
      note k = find_entry_Some [OF Some]
      let ?e = "(bc_entries c ! k)\<lparr>ce_last_use := bc_use_clock c + 1\<rparr>"
      have c': "c' = c\<lparr>bc_use_clock := bc_use_clock c + 1, bc_entries := (bc_entries c)[k := ?e]\<rparr>" "r = Inr k"
        using acq range Some by (auto simp: acquire_entry_def Let_def)
      note t = view_touch [OF d(2) conjunct1 [OF k], of ?e]
      have "cache_ok ops contents ok c'"
        using d(1) t(1) d(3) [OF conjunct1 [OF k]]
        by (intro cache_ok_update [OF ok, of c' k ?e]) (auto simp: c' medium_def entry_ok_def)
      then show ?thesis using t(2) k by (auto simp: c' cache_view_def medium_def cache_holds_def)
    next
      case None
      note fresh = find_entry_None [OF None]
      show ?thesis
      proof (cases "select_victim c")
        case None': None
        then show ?thesis using acq range None ok by (auto simp: acquire_entry_def Let_def)
      next
        case (Some k)
        note k = select_victim_evictable [OF Some]
        obtain dv rd where rd: "block_device_read (bc_device c) s (Suc 0) = (dv, rd)" by (cases "block_device_read (bc_device c) s (Suc 0)")
        note keeps = device_read_keeps [OF d(1) rd]
        note rep = view_replace [OF d(2) conjunct1 [OF k] evictable_bytes [OF ok conjunct1 [OF k] conjunct2 [OF k]] fresh]
        show ?thesis
        proof (cases rd)
          case (Inl e)
          have c': "c' = c\<lparr>bc_use_clock := bc_use_clock c + 1, bc_device := dv, bc_entries := (bc_entries c)[k := zero_entry]\<rparr>" "r = Inl e"
            using acq range None Some rd Inl by (auto simp: acquire_entry_def Let_def)
          have "cache_ok ops contents ok c'"
            using keeps rep(3) [where e = zero_entry]
            by (intro cache_ok_update [OF ok, of c' k zero_entry]) (auto simp: c' medium_def entry_ok_def)
          then show ?thesis using rep(4) [where e = zero_entry] keeps by (auto simp: c' cache_view_def medium_def)
        next
          case (Inr bs)
          let ?e = "zero_entry\<lparr>ce_sector := s, ce_last_use := bc_use_clock c + 1, ce_bytes := bs, ce_state := IOS_BLOCK_CACHE_CLEAN\<rparr>"
          have c': "c' = c\<lparr>bc_use_clock := bc_use_clock c + 1, bc_device := dv, bc_entries := (bc_entries c)[k := ?e]\<rparr>" "r = Inr k"
            using acq range None Some rd Inr by (auto simp: acquire_entry_def Let_def)
          have bs: "bs = medium contents c s"
            using device_read_data [OF d(1), of s "Suc 0" dv bs] rd Inr by (simp add: medium_def)
          have holds: "cache_holds s ?e" by (simp add: cache_holds_def)
          have len: "length (medium contents c s) = IOS_BLOCK_SECTOR_SIZE"
            using sector_length d(1) by (simp add: medium_def dev_ok_def)
          have "cache_ok ops contents ok c'"
            using keeps rep(1) [OF holds] range bs len
            by (intro cache_ok_update [OF ok, of c' k ?e]) (auto simp: c' medium_def entry_ok_def)
          moreover have "entries_view (bc_entries c) (medium contents c) s = bs"
            using view_miss [of "bc_entries c" s] fresh bs by blast
          ultimately show ?thesis using rep(2) [OF holds] keeps holds k
            by (auto simp: c' cache_view_def medium_def)
        qed
      qed
    qed
  qed (use acq ok in \<open>auto simp: acquire_entry_def\<close>)
  then show "cache_ok ops contents ok c'" and "cache_view contents c' = cache_view contents c"
    and "r = Inr i \<Longrightarrow> i < length (bc_entries c') \<and> cache_holds s (bc_entries c' ! i)"
    and "bc_current_generation c' = bc_current_generation c \<and> bd_status (bc_device c') = bd_status (bc_device c)"
    by blast+
qed

lemma cache_read:
  assumes "cache_ok ops contents ok c" and "block_cache_read c s = (c', r)"
  shows "cache_ok ops contents ok c'" and "cache_view contents c' = cache_view contents c"
    and "r = Inr bs \<Longrightarrow> bs = cache_view contents c s"
proof -
  obtain ca ra where acq: "acquire_entry c s True = (ca, ra)" by (cases "acquire_entry c s True")
  note a = acquire_load [OF assms(1) acq]
  have c': "c' = ca" using assms(2) acq by (auto simp: block_cache_read_def split: sum.splits)
  show "cache_ok ops contents ok c'" "cache_view contents c' = cache_view contents c" using a(1,2) c' by auto
  show "bs = cache_view contents c s" if r: "r = Inr bs"
  proof -
    obtain i where i: "ra = Inr i" "bs = ce_bytes (bc_entries ca ! i)"
      using assms(2) acq r by (auto simp: block_cache_read_def split: sum.splits)
    have "entries_view (bc_entries ca) (medium contents ca) s = ce_bytes (bc_entries ca ! i)"
      using view_hit [OF cache_okD(2) [OF a(1)]] a(3) [OF i(1)] by blast
    then show ?thesis using a(2) i(2) by (simp add: cache_view_def fun_eq_iff)
  qed
qed

lemma acquire_write:
  assumes ok: "cache_ok ops contents ok c" and acq: "acquire_entry c s False = (c', Inr i)"
    and len: "length buf = IOS_BLOCK_SECTOR_SIZE" and gen: "g \<le> bc_current_generation c"
  defines "e \<equiv> (bc_entries c' ! i)\<lparr>ce_bytes := buf, ce_dirty_generation := g, ce_state := IOS_BLOCK_CACHE_DIRTY\<rparr>"
  defines "c2 \<equiv> c'\<lparr>bc_entries := (bc_entries c')[i := e]\<rparr>"
  shows "cache_ok ops contents ok c2 \<and> cache_view contents c2 = (cache_view contents c)(s := buf)
    \<and> bc_device c2 = bc_device c \<and> bc_current_generation c2 = bc_current_generation c"
proof -
  note d = cache_okD [OF ok]
  have range: "s < bd_sector_count (bc_device c)"
    using acq by (auto simp: acquire_entry_def split: if_splits)
  have e: "ce_bytes e = buf" "ce_dirty_generation e = g" "ce_state e = IOS_BLOCK_CACHE_DIRTY" by (simp_all add: e_def)
  show ?thesis
  proof (cases "find_entry c s")
    case (Some k)
    note k = find_entry_Some [OF Some]
    have c': "bc_entries c' = (bc_entries c)[i := (bc_entries c ! i)\<lparr>ce_last_use := bc_use_clock c + 1\<rparr>]"
      "i = k" "bc_device c' = bc_device c" "bc_current_generation c' = bc_current_generation c"
      using acq range Some by (auto simp: acquire_entry_def Let_def)
    have es: "bc_entries c2 = (bc_entries c)[k := e]" using c' k by (simp add: c2_def)
    have s: "ce_sector e = s" using c' k by (simp add: e_def cache_holds_def)
    note w = view_overwrite [OF d(2) conjunct1 [OF k] conjunct2 [OF k], of e]
    have "cache_ok ops contents ok c2"
      using d(1) w(1) e s es c' range len gen
      by (intro cache_ok_update [OF ok, of c2 k e]) (auto simp: c2_def medium_def entry_ok_def)
    then show ?thesis using w(2) e s es c' by (auto simp: cache_view_def medium_def c2_def)
  next
    case None
    note fresh = find_entry_None [OF None]
    obtain k where k: "select_victim c = Some k"
      using acq range None by (auto simp: acquire_entry_def Let_def split: option.splits)
    note kv = select_victim_evictable [OF k]
    have c': "bc_entries c' = (bc_entries c)[i := zero_entry\<lparr>ce_sector := s, ce_last_use := bc_use_clock c + 1,
        ce_state := IOS_BLOCK_CACHE_CLEAN\<rparr>]"
      "i = k" "bc_device c' = bc_device c" "bc_current_generation c' = bc_current_generation c"
      using acq range None k by (auto simp: acquire_entry_def Let_def)
    have es: "bc_entries c2 = (bc_entries c)[k := e]" using c' kv by (simp add: c2_def)
    have s: "ce_sector e = s" using c' kv by (simp add: e_def)
    then have holds: "cache_holds s e" using e by (simp add: cache_holds_def)
    note rep = view_replace [OF d(2) conjunct1 [OF kv] evictable_bytes [OF ok conjunct1 [OF kv] conjunct2 [OF kv]] fresh]
    have "cache_ok ops contents ok c2"
      using d(1) rep(1) [OF holds] e s es c' range len gen
      by (intro cache_ok_update [OF ok, of c2 k e]) (auto simp: c2_def medium_def entry_ok_def)
    then show ?thesis using rep(2) [OF holds] e es c' by (auto simp: cache_view_def medium_def c2_def)
  qed
qed

lemma acquire_write_fails:
  "acquire_entry c s False = (c', Inl e) \<Longrightarrow> c' = c"
  by (auto simp: acquire_entry_def Let_def split: if_splits option.splits)

lemma cache_write:
  assumes "cache_ok ops contents ok c" and "length buf = IOS_BLOCK_SECTOR_SIZE"
    and "block_cache_write c s buf g = (c', r)"
  shows "cache_ok ops contents ok c'"
    and "cache_view contents c' = (if r = Inr () then (cache_view contents c)(s := buf) else cache_view contents c)"
    and "medium contents c' = medium contents c"
proof -
  have "cache_ok ops contents ok c' \<and> medium contents c' = medium contents c
    \<and> cache_view contents c' = (if r = Inr () then (cache_view contents c)(s := buf) else cache_view contents c)"
  proof (cases "c' = c \<and> r \<noteq> Inr ()")
    case False
    then obtain ca i where acq: "acquire_entry c s False = (ca, Inr i)" "g \<le> bc_current_generation c" "r = Inr ()"
        "c' = ca\<lparr>bc_entries := (bc_entries ca)[i := (bc_entries ca ! i)
          \<lparr>ce_bytes := buf, ce_dirty_generation := g, ce_state := IOS_BLOCK_CACHE_DIRTY\<rparr>]\<rparr>"
      using assms(3) acquire_write_fails
      by (fastforce simp: block_cache_write_def split: if_splits sum.splits prod.splits)
    then show ?thesis using acquire_write [OF assms(1) acq(1) assms(2) acq(2)] by (simp add: medium_def)
  qed (use assms(1) in auto)
  then show "cache_ok ops contents ok c'"
    and "cache_view contents c' = (if r = Inr () then (cache_view contents c)(s := buf) else cache_view contents c)"
    and "medium contents c' = medium contents c" by blast+
qed

lemma cache_touch:
  assumes ok: "cache_ok ops contents ok c" and i: "i < length (bc_entries c)"
    and c': "c' = c\<lparr>bc_entries := (bc_entries c)[i := (bc_entries c ! i)\<lparr>ce_pin_count := p\<rparr>]\<rparr>"
  shows "cache_ok ops contents ok c'" and "cache_view contents c' = cache_view contents c"
proof -
  note d = cache_okD [OF ok]
  let ?e = "(bc_entries c ! i)\<lparr>ce_pin_count := p\<rparr>"
  note t = view_touch [OF d(2) i, of ?e]
  show "cache_ok ops contents ok c'"
    using d(1) t(1) d(3) [OF i]
    by (intro cache_ok_update [OF ok, of c' i ?e]) (auto simp: c' medium_def entry_ok_def)
  show "cache_view contents c' = cache_view contents c"
    using t(2) by (simp add: c' cache_view_def medium_def)
qed

lemma cache_pin:
  assumes "cache_ok ops contents ok c" and "block_cache_pin c s = (c', r)"
  shows "cache_ok ops contents ok c'" and "cache_view contents c' = cache_view contents c"
proof -
  obtain ca ra where acq: "acquire_entry c s True = (ca, ra)" by (cases "acquire_entry c s True")
  note a = acquire_load [OF assms(1) acq]
  have "c' = ca \<or> (\<exists>i p. ra = Inr i \<and> c' = ca\<lparr>bc_entries := (bc_entries ca)[i := (bc_entries ca ! i)\<lparr>ce_pin_count := p\<rparr>]\<rparr>)"
    using assms(2) acq by (auto simp: block_cache_pin_def Let_def split: sum.splits if_splits)
  then show "cache_ok ops contents ok c'" and "cache_view contents c' = cache_view contents c"
    using a cache_touch [OF a(1)] by auto
qed

lemma cache_unpin:
  assumes "cache_ok ops contents ok c" and "block_cache_unpin c s = (c', r)"
  shows "cache_ok ops contents ok c'" and "cache_view contents c' = cache_view contents c"
proof -
  have "c' = c \<or> (\<exists>i p. i < length (bc_entries c)
      \<and> c' = c\<lparr>bc_entries := (bc_entries c)[i := (bc_entries c ! i)\<lparr>ce_pin_count := p\<rparr>]\<rparr>)"
    using assms(2) find_entry_Some [of c s]
    by (fastforce simp: block_cache_unpin_def Let_def split: option.splits if_splits)
  then show "cache_ok ops contents ok c'" and "cache_view contents c' = cache_view contents c"
    using assms(1) cache_touch [OF assms(1)] by auto
qed

lemma barrier_loop:
  assumes "barrier_write_loop target dev es err = (dev', es', err')" and "dev_ok dev" and "unique_sectors es"
    and "\<forall>e \<in> set es. length (ce_bytes e) = IOS_BLOCK_SECTOR_SIZE"
  shows "dev_ok dev' \<and> bd_sector_count dev' = bd_sector_count dev \<and> bd_status dev' = bd_status dev
    \<and> list_all2 (flushed target (contents (bd_context dev')) (err' \<noteq> None)) es es'
    \<and> (\<forall>t. \<not> due target es t \<longrightarrow> contents (bd_context dev') t = contents (bd_context dev) t)
    \<and> (err \<noteq> None \<longrightarrow> err' \<noteq> None)"
  using assms
proof (induction target dev es err arbitrary: es' rule: barrier_write_loop.induct)
  case (2 target dev e es err)
  note u = unique_sectors_Cons [OF 2(6)]
  show ?case
  proof (cases "needs_write target e")
    case False
    obtain es1 where es1: "barrier_write_loop target dev es err = (dev', es1, err')" "es' = e # es1"
      using 2(4) False by (auto split: prod.splits)
    then show ?thesis using 2(1) [OF False es1(1) 2(5) u(1)] 2(7) False by (auto simp: flushed_def due_def)
  next
    case True
    obtain dv w where w: "block_device_write dev (ce_sector e) 1 (ce_bytes e) = (dv, w)"
      by (cases "block_device_write dev (ce_sector e) 1 (ce_bytes e)")
    have len: "length (ce_bytes e) = 1 * IOS_BLOCK_SECTOR_SIZE" using 2(7) by simp
    note keeps = device_write_keeps [OF 2(5) len w]
    have other: "contents (bd_context dv) t = contents (bd_context dev) t" if "t \<noteq> ce_sector e" for t
      using keeps(5) [of t] that by auto
    have nd: "\<not> due target es (ce_sector e)" using u(2) True by blast
    show ?thesis
    proof (cases w)
      case (Inl er)
      obtain es1 where es1: "barrier_write_loop target dv es (case err of None \<Rightarrow> Some er | Some f \<Rightarrow> Some f) = (dev', es1, err')"
          "es' = e\<lparr>ce_io_active := False, ce_state := IOS_BLOCK_CACHE_ERROR\<rparr> # es1"
        using 2(4) True w Inl by (auto split: prod.splits)
      have IH: "dev_ok dev' \<and> bd_sector_count dev' = bd_sector_count dv \<and> bd_status dev' = bd_status dv
        \<and> list_all2 (flushed target (contents (bd_context dev')) (err' \<noteq> None)) es es1
        \<and> (\<forall>t. \<not> due target es t \<longrightarrow> contents (bd_context dev') t = contents (bd_context dv) t)
        \<and> err' \<noteq> None"
        using 2(2) [OF _ w [symmetric] Inl es1(1) keeps(1) u(1)] True 2(7) by (auto split: option.splits)
      then have "flushed target (contents (bd_context dev')) (err' \<noteq> None) e (e\<lparr>ce_io_active := False, ce_state := IOS_BLOCK_CACHE_ERROR\<rparr>)"
        using True by (simp add: flushed_def)
      with IH show ?thesis using es1(2) keeps other True by (auto simp: due_def)
    next
      case (Inr v)
      obtain es1 where es1: "barrier_write_loop target dv es err = (dev', es1, err')"
          "es' = e\<lparr>ce_io_active := False, ce_state := IOS_BLOCK_CACHE_DIRTY\<rparr> # es1"
        using 2(4) True w Inr by (auto split: prod.splits)
      have IH: "dev_ok dev' \<and> bd_sector_count dev' = bd_sector_count dv \<and> bd_status dev' = bd_status dv
        \<and> list_all2 (flushed target (contents (bd_context dev')) (err' \<noteq> None)) es es1
        \<and> (\<forall>t. \<not> due target es t \<longrightarrow> contents (bd_context dev') t = contents (bd_context dv) t)
        \<and> (err \<noteq> None \<longrightarrow> err' \<noteq> None)"
        using 2(3) [OF _ w [symmetric] Inr es1(1) keeps(1) u(1)] True 2(7) by auto
      have "contents (bd_context dv) (ce_sector e) = ce_bytes e"
        using device_write_data [OF 2(5) len] w Inr len by (simp add: put_sectors_1)
      then have "contents (bd_context dev') (ce_sector e) = ce_bytes e" using IH nd by simp
      then have "flushed target (contents (bd_context dev')) (err' \<noteq> None) e (e\<lparr>ce_io_active := False, ce_state := IOS_BLOCK_CACHE_DIRTY\<rparr>)"
        using True by (simp add: flushed_def)
      then show ?thesis using IH es1(2) keeps other True by (auto simp: due_def)
    qed
  qed
qed auto

text \<open>
  Every outcome of a barrier is a flush of the due entries followed by a step that changes
  only their state and generation.
\<close>

definition settled :: "nat \<Rightarrow> (nat \<Rightarrow> bytes) \<Rightarrow> ios_block_cache_entry \<Rightarrow> ios_block_cache_entry \<Rightarrow> bool" where
  "settled target f e e' \<longleftrightarrow>
     (if needs_write target e
      then ce_state e' \<noteq> IOS_BLOCK_CACHE_EMPTY \<and> ce_sector e' = ce_sector e \<and> ce_bytes e' = ce_bytes e
        \<and> ce_dirty_generation e' \<le> ce_dirty_generation e
        \<and> (ce_state e' = IOS_BLOCK_CACHE_CLEAN \<longrightarrow> f (ce_sector e) = ce_bytes e)
      else e' = e)"

lemma settled_entries:
  assumes ok: "cache_ok ops contents ok c" and all: "list_all2 (settled target (medium contents c')) (bc_entries c) (bc_entries c')"
    and dev: "dev_ok (bc_device c')" "bd_sector_count (bc_device c') = bd_sector_count (bc_device c)"
      "bc_current_generation c' = bc_current_generation c"
    and other: "\<forall>t. \<not> due target (bc_entries c) t \<longrightarrow> medium contents c' t = medium contents c t"
  shows "cache_ok ops contents ok c'" and "cache_view contents c' = cache_view contents c"
proof -
  let ?es = "bc_entries c" and ?es' = "bc_entries c'"
  note d = cache_okD [OF ok]
  have len: "length ?es' = length ?es" using all by (simp add: list_all2_lengthD)
  have st: "settled target (medium contents c') (?es ! i) (?es' ! i)" if "i < length ?es" for i
    using all that by (rule list_all2_nthD)
  have holds: "cache_holds s (?es' ! i) = cache_holds s (?es ! i)" "ce_bytes (?es' ! i) = ce_bytes (?es ! i)"
    if "i < length ?es" for i s
    using st [OF that] by (auto simp: settled_def cache_holds_def needs_write_def split: if_splits)
  have base: "medium contents c' s = medium contents c s" if "\<And>i. i < length ?es \<Longrightarrow> \<not> cache_holds s (?es ! i)" for s
  proof -
    have "\<not> due target ?es s" using that due_holds by blast
    then show ?thesis using other by blast
  qed
  note v = view_same [OF d(2) len holds(1) holds(2) base]
  show "cache_view contents c' = cache_view contents c" using v(2) by (simp add: cache_view_def)
  show "cache_ok ops contents ok c'"
  proof (rule cache_okI [OF dev(1) v(1)])
    fix i assume "i < length ?es'"
    then have i: "i < length ?es" by (simp add: len)
    show "entry_ok (bd_sector_count (bc_device c')) (bc_current_generation c') (medium contents c') (?es' ! i)"
    proof (cases "needs_write target (?es ! i)")
      case True
      then show ?thesis using st [OF i] d(3) [OF i] dev
        by (auto simp: settled_def entry_ok_def needs_write_def)
    next
      case False
      have "\<not> due target ?es (ce_sector (?es ! i))" if "ce_state (?es ! i) = IOS_BLOCK_CACHE_CLEAN"
      proof
        assume "due target ?es (ce_sector (?es ! i))"
        then obtain j where j: "j < length ?es" "needs_write target (?es ! j)" "ce_sector (?es ! j) = ce_sector (?es ! i)"
          by (auto simp: due_def in_set_conv_nth)
        then have "j = i"
          using unique_sectorsD [OF d(2) i j(1), of "ce_sector (?es ! i)"] that
          by (auto simp: cache_holds_def needs_write_def)
        with j(2) False show False by simp
      qed
      then show ?thesis using False st [OF i] d(3) [OF i] dev other by (auto simp: settled_def entry_ok_def)
    qed
  qed
qed

lemma barrier_outcome:
  assumes ok: "cache_ok ops contents ok c" and bar: "block_cache_barrier c target = (c', r)"
  shows "c' = c \<and> r \<noteq> Inr () \<or>
    list_all2 (settled target (medium contents c')) (bc_entries c) (bc_entries c')
    \<and> dev_ok (bc_device c') \<and> bd_sector_count (bc_device c') = bd_sector_count (bc_device c)
    \<and> bc_current_generation c' = bc_current_generation c
    \<and> (\<forall>t. \<not> due target (bc_entries c) t \<longrightarrow> medium contents c' t = medium contents c t)
    \<and> (r = Inr () \<longrightarrow> (\<forall>e \<in> set (bc_entries c'). \<not> needs_write target e))"
proof (cases "target = 0 \<or> target > bc_current_generation c")
  case True
  then show ?thesis using bar by (auto simp: block_cache_barrier_def)
next
  case False
  note d = cache_okD [OF ok]
  let ?es = "bc_entries c"
  obtain dv es er where loop: "barrier_write_loop target (bc_device c) ?es None = (dv, es, er)"
    by (cases "barrier_write_loop target (bc_device c) ?es None")
  have lens: "\<forall>e \<in> set ?es. length (ce_bytes e) = IOS_BLOCK_SECTOR_SIZE"
    using d(3) by (auto simp: in_set_conv_nth entry_ok_def)
  note L = barrier_loop [OF loop d(1,2) lens]
  have L4: "list_all2 (flushed target (contents (bd_context dv)) (er \<noteq> None)) ?es es" using L by blast
  obtain df rf where flush: "block_device_flush dv = (df, rf)" by (cases "block_device_flush dv")
  note F = device_flush_keeps [OF conjunct1 [OF L] flush]
  show ?thesis
  proof (cases er)
    case (Some e)
    then have c': "c' = c\<lparr>bc_device := dv, bc_entries := es\<rparr>" "r = Inl e"
      using bar False loop by (simp_all add: block_cache_barrier_def)
    have "settled target (contents (bd_context dv)) x y" if "flushed target (contents (bd_context dv)) (er \<noteq> None) x y" for x y
      using that by (auto simp: flushed_def settled_def needs_write_def)
    then have "list_all2 (settled target (contents (bd_context dv))) ?es es"
      by (rule list_all2_mono [OF L4])
    then show ?thesis using L by (simp add: c' medium_def)
  next
    case None
    show ?thesis
    proof (cases rf)
      case (Inl e)
      let ?g = "\<lambda>entry. if ce_state entry = IOS_BLOCK_CACHE_DIRTY \<and> ce_dirty_generation entry \<le> target
        then entry\<lparr>ce_state := IOS_BLOCK_CACHE_ERROR\<rparr> else entry"
      have c': "c' = c\<lparr>bc_device := df, bc_entries := map ?g es\<rparr>" "r = Inl e"
        using bar False loop None flush Inl by (simp_all add: block_cache_barrier_def)
      have "settled target (contents (bd_context df)) x (?g y)" if "flushed target (contents (bd_context dv)) (er \<noteq> None) x y" for x y
        using that None F(2) by (auto simp: flushed_def settled_def needs_write_def split: if_splits)
      then have "list_all2 (settled target (contents (bd_context df))) ?es (map ?g es)"
        unfolding list_all2_map2 by (rule list_all2_mono [OF L4])
      then show ?thesis using L F by (simp add: c' medium_def)
    next
      case (Inr u)
      let ?g = "\<lambda>entry. if needs_write target entry
        then entry\<lparr>ce_state := IOS_BLOCK_CACHE_CLEAN, ce_dirty_generation := 0\<rparr> else entry"
      define E where "E = map ?g es"
      have c': "c' = c\<lparr>bc_device := df, bc_entries := E\<rparr>" "r = Inr ()"
        using bar False loop None flush Inr by (simp_all add: block_cache_barrier_def E_def)
      have "settled target (contents (bd_context df)) x (?g y)" if "flushed target (contents (bd_context dv)) (er \<noteq> None) x y" for x y
        using that None F(2) by (auto simp: flushed_def settled_def needs_write_def split: if_splits)
      then have "list_all2 (settled target (contents (bd_context df))) ?es E"
        unfolding E_def list_all2_map2 by (rule list_all2_mono [OF L4])
      moreover have "\<forall>e \<in> set E. \<not> needs_write target e" by (auto simp: needs_write_def E_def)
      ultimately show ?thesis using L F by (simp add: c' medium_def)
    qed
  qed
qed

lemma cache_barrier:
  assumes ok: "cache_ok ops contents ok c" and bar: "block_cache_barrier c target = (c', r)"
  shows "cache_ok ops contents ok c'" and "cache_view contents c' = cache_view contents c"
    and "r = Inr () \<Longrightarrow> \<forall>e \<in> set (bc_entries c'). \<not> needs_write target e"
proof -
  have "cache_ok ops contents ok c' \<and> cache_view contents c' = cache_view contents c"
    using barrier_outcome [OF assms] settled_entries [OF ok, of target c'] ok by auto
  then show "cache_ok ops contents ok c'" and "cache_view contents c' = cache_view contents c" by blast+
  show "\<forall>e \<in> set (bc_entries c'). \<not> needs_write target e" if "r = Inr ()"
    using barrier_outcome [OF assms] that by auto
qed

text \<open>A sector that is not resident with a newer generation is on the medium after the barrier.\<close>

lemma clean_view_is_medium:
  assumes ok: "cache_ok ops contents ok c" and "\<And>e. e \<in> set (bc_entries c) \<Longrightarrow> cache_holds s e \<Longrightarrow> ce_state e = IOS_BLOCK_CACHE_CLEAN"
  shows "medium contents c s = cache_view contents c s"
proof -
  note d = cache_okD [OF ok]
  show ?thesis unfolding cache_view_def
  proof (rule view_cases [OF d(2), of s])
    fix i assume i: "i < length (bc_entries c)" "cache_holds s (bc_entries c ! i)"
      "\<And>f. entries_view (bc_entries c) f s = ce_bytes (bc_entries c ! i)"
    then show "medium contents c s = entries_view (bc_entries c) (medium contents c) s"
      using d(3) [OF i(1)] assms(2) [of "bc_entries c ! i"] by (auto simp: entry_ok_def cache_holds_def)
  qed auto
qed

end

section \<open>Sequences of operations\<close>

text \<open>
  One client call on the cache, labelled with the sector write it performed, if any; and
  sequences of calls with all the writes performed, oldest first.
\<close>

inductive cache_step :: "'d ios_block_cache \<Rightarrow> (nat \<times> bytes) list \<Rightarrow> 'd ios_block_cache \<Rightarrow> bool" where
  step_read: "block_cache_read c s = (c', r) \<Longrightarrow> cache_step c [] c'"
| step_write: "length buf = IOS_BLOCK_SECTOR_SIZE \<Longrightarrow> block_cache_write c s buf g = (c', Inr ()) \<Longrightarrow> cache_step c [(s, buf)] c'"
| step_write_fails: "length buf = IOS_BLOCK_SECTOR_SIZE \<Longrightarrow> block_cache_write c s buf g = (c', Inl e) \<Longrightarrow> cache_step c [] c'"
| step_pin: "block_cache_pin c s = (c', u) \<Longrightarrow> cache_step c [] c'"
| step_unpin: "block_cache_unpin c s = (c', u) \<Longrightarrow> cache_step c [] c'"
| step_advance: "block_cache_advance_generation c = (c', n) \<Longrightarrow> cache_step c [] c'"
| step_barrier: "block_cache_barrier c target = (c', u) \<Longrightarrow> cache_step c [] c'"

inductive cache_run :: "'d ios_block_cache \<Rightarrow> (nat \<times> bytes) list \<Rightarrow> 'd ios_block_cache \<Rightarrow> bool" where
  run_start: "cache_run c [] c"
| run_step: "cache_run c ws c' \<Longrightarrow> cache_step c' vs c'' \<Longrightarrow> cache_run c (ws @ vs) c''"

definition apply_writes :: "(nat \<Rightarrow> bytes) \<Rightarrow> (nat \<times> bytes) list \<Rightarrow> nat \<Rightarrow> bytes" where
  "apply_writes = foldl (\<lambda>v (s, bs). v(s := bs))"

lemma apply_writes_simps [simp]:
  "apply_writes v [] = v" "apply_writes v (ws @ vs) = apply_writes (apply_writes v ws) vs"
  "apply_writes v [(s, bs)] = v(s := bs)"
  by (simp_all add: apply_writes_def)

context block_driver
begin

lemma cache_advance:
  assumes "cache_ok ops contents ok c" and "block_cache_advance_generation c = (c', r)"
  shows "cache_ok ops contents ok c'" and "cache_view contents c' = cache_view contents c"
  using assms
  by (auto simp: block_cache_advance_generation_def cache_ok_def cache_view_def medium_def entry_ok_def
      split: if_splits) force

lemma cache_step_view:
  assumes "cache_step c ws c'" and "cache_ok ops contents ok c"
  shows "cache_ok ops contents ok c' \<and> cache_view contents c' = apply_writes (cache_view contents c) ws"
  using assms
proof cases
  case (step_read s r)
  then show ?thesis using cache_read [OF assms(2)] by auto
next
  case (step_write buf s g)
  then show ?thesis using cache_write [OF assms(2)] by auto
next
  case (step_write_fails buf s g e)
  then show ?thesis using cache_write [OF assms(2)] by auto
next
  case (step_pin s u)
  then show ?thesis using cache_pin [OF assms(2)] by auto
next
  case (step_unpin s u)
  then show ?thesis using cache_unpin [OF assms(2)] by auto
next
  case (step_advance n)
  then show ?thesis using cache_advance [OF assms(2)] by auto
next
  case (step_barrier target u)
  then show ?thesis using cache_barrier [OF assms(2)] by auto
qed

lemma cache_run_view:
  "cache_run c ws c' \<Longrightarrow> cache_ok ops contents ok c \<Longrightarrow>
    cache_ok ops contents ok c' \<and> cache_view contents c' = apply_writes (cache_view contents c) ws"
proof (induction rule: cache_run.induct)
  case (run_step c ws c' vs c'')
  then show ?case using cache_step_view [OF run_step.hyps(2)] by simp
qed simp

lemma barrier_durable:
  assumes ok: "cache_ok ops contents ok c" and bar: "block_cache_barrier c target = (c', Inr ())"
    and old: "\<forall>e \<in> set (bc_entries c). cache_holds s e \<longrightarrow> ce_dirty_generation e \<le> target"
  shows "medium contents c' s = cache_view contents c s"
proof -
  note b = cache_barrier [OF ok bar]
  have all: "list_all2 (settled target (medium contents c')) (bc_entries c) (bc_entries c')"
    using barrier_outcome [OF ok bar] by blast
  have "ce_state e = IOS_BLOCK_CACHE_CLEAN" if e: "e \<in> set (bc_entries c')" "cache_holds s e" for e
  proof -
    obtain i where i: "i < length (bc_entries c')" "e = bc_entries c' ! i" using e(1) by (auto simp: in_set_conv_nth)
    then have st: "settled target (medium contents c') (bc_entries c ! i) e" and "i < length (bc_entries c)"
      using all by (auto simp: list_all2_conv_all_nth)
    then have "ce_dirty_generation e \<le> target"
      using old that(2) by (auto simp: settled_def cache_holds_def needs_write_def split: if_splits)
    moreover have "\<not> needs_write target e" using b(3) that(1) by blast
    ultimately show ?thesis using that(2) by (cases "ce_state e") (auto simp: needs_write_def cache_holds_def)
  qed
  then show ?thesis using clean_view_is_medium [OF b(1), of s] b(2) by simp
qed

end

section \<open>Properties\<close>


text \<open>A read returns the view of its sector, so after any sequence of calls it returns the last
  bytes written there, and it changes no sector.\<close>

theorem cache_read_last_write:
  assumes "block_driver ops contents ok" and "cache_ok ops contents ok c" and "cache_run c writes c'"
    and "block_cache_read c' s = (c'', Inr bs)"
  shows "bs = apply_writes (cache_view contents c) writes s \<and> cache_view contents c'' = cache_view contents c'"
  using block_driver.cache_run_view [OF assms(1,3,2)] block_driver.cache_read [OF assms(1) _ assms(4)] by auto


text \<open>Acquiring an entry never evicts a pinned, active, dirty or failed entry.\<close>

theorem cache_victim_evictable:
  assumes "select_victim c = Some i"
  shows "i < length (bc_entries c) \<and> ce_pin_count (bc_entries c ! i) = 0 \<and> \<not> ce_io_active (bc_entries c ! i)
    \<and> ce_state (bc_entries c ! i) \<in> {IOS_BLOCK_CACHE_EMPTY, IOS_BLOCK_CACHE_CLEAN}"
  using select_victim_evictable [OF assms] by (auto simp: evictable_def)

section \<open>Witnesses\<close>

text \<open>A cache of two entries over an empty test disk of eight sectors.\<close>

definition fake_disk :: ios_fake_block where
  "fake_disk = \<lparr>fb_sector_count = 8, fb_entries = replicate 4 None, fb_materialized_count = 0,
     fb_faults = None, fb_durable_generation = 0, fb_initialized = True\<rparr>"

definition fake_device :: "ios_fake_block ios_block_device" where
  "fake_device = \<lparr>bd_context = fake_disk, bd_operations = fake_operations, bd_sector_count = 8,
     bd_logical_sector_size = IOS_BLOCK_SECTOR_SIZE, bd_status = IOS_BLOCK_DEVICE_READY\<rparr>"

definition dirty_entry :: ios_block_cache_entry where
  "dirty_entry = \<lparr>ce_bytes = replicate IOS_BLOCK_SECTOR_SIZE 7, ce_sector = 3, ce_dirty_generation = 1,
     ce_last_use = 1, ce_pin_count = 0, ce_state = IOS_BLOCK_CACHE_DIRTY, ce_io_active = False\<rparr>"

definition fake_cache :: "ios_fake_block ios_block_cache" where
  "fake_cache = \<lparr>bc_device = fake_device, bc_entries = [dirty_entry, zero_entry],
     bc_current_generation = 1, bc_use_clock = 1\<rparr>"

lemma fake_cache_ok: "cache_ok fake_operations fake_sector fake_ok fake_cache"
  by (auto simp: cache_ok_def fake_cache_def fake_device_def fake_disk_def fake_ok_def entry_ok_def
      unique_sectors_def dirty_entry_def cache_holds_def less_Suc_eq zero_entry_def)

lemma fake_cache_run: "cache_run fake_cache [] (fst (block_cache_read fake_cache 5))"
  using run_step [OF run_start step_read [of fake_cache 5 "fst (block_cache_read fake_cache 5)"
    "snd (block_cache_read fake_cache 5)"]] by simp


lemma fake_cache_hit: "\<exists>c. block_cache_read fake_cache 3 = (c, Inr (replicate IOS_BLOCK_SECTOR_SIZE 7))"
  by (simp add: block_cache_read_def acquire_entry_def find_entry_def fake_cache_def fake_device_def
      dirty_entry_def cache_holds_def)

theorem cache_read_last_write_witness:
  "cache_view fake_sector fake_cache 3 = replicate IOS_BLOCK_SECTOR_SIZE 7"
proof -
  obtain c where "block_cache_read fake_cache 3 = (c, Inr (replicate IOS_BLOCK_SECTOR_SIZE 7))"
    using fake_cache_hit by blast
  then show ?thesis
    using cache_read_last_write [OF fake.block_driver_axioms fake_cache_ok run_start] by simp
qed

lemma fake_cache_barrier: "\<exists>c. block_cache_barrier fake_cache 1 = (c, Inr ())"
  by (simp add: block_cache_barrier_def fake_cache_def needs_write_def dirty_entry_def zero_entry_def
      block_device_write_def block_device_flush_def validate_range_def fake_device_def fake_operations_def
      fake_block_write_def fake_block_flush_def fake_validate_range_def fake_disk_def fault_injector_check_def
      fake_find_entry_def fake_materialize_def numeral_eq_Suc)


theorem cache_victim_evictable_witness: "ce_state (bc_entries fake_cache ! 1) \<in> {IOS_BLOCK_CACHE_EMPTY, IOS_BLOCK_CACHE_CLEAN}"
proof -
  have "select_victim fake_cache = Some 1"
    by (simp add: select_victim_def fake_cache_def dirty_entry_def zero_entry_def)
  then show ?thesis using cache_victim_evictable by blast
qed

end
