(* ===== verification/Fs_Sync.thy ===== *)
theory Fs_Sync
  imports Block_Cache
begin

text \<open>
  Generation-based synchronisation over the sector cache (sync.h, sync.c). The code's
  \<open>sync->cache\<close> points to a cache that others also use: here the cache is passed beside the
  synchronisation state, and \<open>sy_attached\<close> says whether the pointer is set. The theorems show
  that a successful barrier leaves nothing volatile and that dirtiness is never lost.
\<close>

section \<open>State\<close>

record ios_fs_sync =
  sy_attached :: bool
  sy_generation :: nat
  sy_durable_generation :: nat
  sy_dirty_components :: u32
  sy_last_result :: "unit res"

abbreviation IOS_FS_DIRTY_CONTENT :: u32 where "IOS_FS_DIRTY_CONTENT \<equiv> 1"
abbreviation IOS_FS_DIRTY_ALLOCATION :: u32 where "IOS_FS_DIRTY_ALLOCATION \<equiv> 2"
abbreviation IOS_FS_DIRTY_PRIMARY :: u32 where "IOS_FS_DIRTY_PRIMARY \<equiv> 4"
abbreviation IOS_FS_DIRTY_COMPANION :: u32 where "IOS_FS_DIRTY_COMPANION \<equiv> 8"
abbreviation IOS_FS_DIRTY_REGISTRY :: u32 where "IOS_FS_DIRTY_REGISTRY \<equiv> 16"
abbreviation IOS_FS_DIRTY_ALL :: u32 where "IOS_FS_DIRTY_ALL \<equiv> 31"

definition valid_component :: "u32 \<Rightarrow> bool" where
  "valid_component component \<longleftrightarrow> component \<noteq> 0 \<and> component AND NOT IOS_FS_DIRTY_ALL = 0"

section \<open>Operations\<close>

definition ios_fs_sync_initialize :: "'d ios_block_cache \<Rightarrow> ios_fs_sync" where
  "ios_fs_sync_initialize cache =
     \<lparr>sy_attached = True, sy_generation = bc_current_generation cache, sy_durable_generation = 0,
      sy_dirty_components = 0, sy_last_result = Inr ()\<rparr>"

definition ios_fs_sync_write_sector ::
  "ios_fs_sync \<Rightarrow> 'd ios_block_cache \<Rightarrow> nat \<Rightarrow> bytes \<Rightarrow> u32 \<Rightarrow> ios_fs_sync \<times> 'd ios_block_cache \<times> unit res" where
  "ios_fs_sync_write_sector sync cache sector buffer component =
     (if \<not> sy_attached sync \<or> \<not> valid_component component then (sync, cache, Inl IOS_E_INVALID_ARGUMENT)
      else case block_cache_write cache sector buffer (sy_generation sync) of
          (cache, Inl e) \<Rightarrow> (sync\<lparr>sy_last_result := Inl e\<rparr>, cache, Inl e)
        | (cache, Inr _) \<Rightarrow>
            (sync\<lparr>sy_dirty_components := sy_dirty_components sync OR component\<rparr>, cache, Inr ()))"

definition ios_fs_sync_barrier ::
  "ios_fs_sync \<Rightarrow> 'd ios_block_cache \<Rightarrow> ios_fs_sync \<times> 'd ios_block_cache \<times> unit res" where
  "ios_fs_sync_barrier sync cache =
     (if \<not> sy_attached sync then (sync, cache, Inl IOS_E_INVALID_ARGUMENT)
      else if sy_generation sync = UINT64_MAX
      then (sync\<lparr>sy_last_result := Inl IOS_E_OVERFLOW\<rparr>, cache, Inl IOS_E_OVERFLOW)
      else case block_cache_barrier cache (sy_generation sync) of
          (cache, Inl e) \<Rightarrow> (sync\<lparr>sy_last_result := Inl e\<rparr>, cache, Inl e)
        | (cache, Inr _) \<Rightarrow>
            let sync = sync\<lparr>sy_last_result := Inr (), sy_durable_generation := sy_generation sync,
                            sy_dirty_components := 0\<rparr>
            in case block_cache_advance_generation cache of
                 (cache, Inl e) \<Rightarrow> (sync\<lparr>sy_last_result := Inl e\<rparr>, cache, Inl e)
               | (cache, Inr next_generation) \<Rightarrow> (sync\<lparr>sy_generation := next_generation\<rparr>, cache, Inr ()))"

definition ios_fs_sync_barrier_operation ::
  "ios_fs_sync \<Rightarrow> 'd ios_block_cache \<Rightarrow> ios_fs_sync \<times> 'd ios_block_cache \<times> unit res" where
  "ios_fs_sync_barrier_operation = ios_fs_sync_barrier"

definition ios_fs_sync_invalidate_operation ::
  "ios_fs_sync \<Rightarrow> 'd ios_block_cache \<Rightarrow> ios_fs_sync \<times> 'd ios_block_cache" where
  "ios_fs_sync_invalidate_operation sync cache =
     (if \<not> sy_attached sync then (sync, cache)
      else (sync\<lparr>sy_attached := False, sy_dirty_components := 0\<rparr>, block_cache_invalidate cache))"

definition ios_fs_sync_all ::
  "ios_fs_sync \<Rightarrow> 'd ios_block_cache \<Rightarrow> ios_fs_sync \<times> 'd ios_block_cache \<times> unit res" where
  "ios_fs_sync_all sync cache = ios_fs_sync_barrier sync cache"

definition ios_fs_sync_is_dirty :: "ios_fs_sync \<Rightarrow> bool" where
  "ios_fs_sync_is_dirty sync \<longleftrightarrow> sy_dirty_components sync \<noteq> 0"

definition ios_fs_sync_durable_result :: "ios_fs_sync \<Rightarrow> unit res" where
  "ios_fs_sync_durable_result sync =
     (if IOS_FAILED (sy_last_result sync) then sy_last_result sync
      else if sy_dirty_components sync = 0 then Inr () else Inl IOS_E_WOULD_BLOCK)"

section \<open>Invariant\<close>

text \<open>The writes go to the cache's current generation.\<close>

definition sync_ok :: "ios_fs_sync \<Rightarrow> 'd ios_block_cache \<Rightarrow> bool" where
  "sync_ok sync cache \<longleftrightarrow> sy_generation sync = bc_current_generation cache
     \<and> 0 < sy_generation sync \<and> sy_durable_generation sync < sy_generation sync"

lemma acquire_generation: "bc_current_generation (fst (acquire_entry c s load)) = bc_current_generation c"
  by (auto simp: acquire_entry_def Let_def split: option.splits prod.splits sum.splits)

lemma cache_write_generation:
  "block_cache_write c s bs g = (c', r) \<Longrightarrow> bc_current_generation c' = bc_current_generation c"
  using acquire_generation [of c s False]
  by (auto simp: block_cache_write_def split: if_splits prod.splits sum.splits)

lemma cache_barrier_generation:
  "block_cache_barrier c g = (c', r) \<Longrightarrow> bc_current_generation c' = bc_current_generation c"
  by (auto simp: block_cache_barrier_def split: if_splits prod.splits sum.splits option.splits)

lemma sync_barrier_Inr:
  assumes "ios_fs_sync_barrier sync c = (sync', c', Inr ())"
  obtains c1 where "block_cache_barrier c (sy_generation sync) = (c1, Inr ())" and "sy_attached sync"
    and "c' = c1\<lparr>bc_current_generation := bc_current_generation c1 + 1\<rparr>"
    and "sync' = sync\<lparr>sy_last_result := Inr (), sy_durable_generation := sy_generation sync,
           sy_dirty_components := 0, sy_generation := bc_current_generation c1 + 1\<rparr>"
  using assms
  by (auto simp: ios_fs_sync_barrier_def Let_def block_cache_advance_generation_def
      split: if_splits prod.splits sum.splits)

section \<open>Runs of the synchronised client\<close>

text \<open>
  Reads through the cache, writes and barriers through the synchronisation state, each with
  whatever result; the middle argument lists the writes that succeeded.
\<close>

inductive sync_step ::
  "ios_fs_sync \<times> 'd ios_block_cache \<Rightarrow> (nat \<times> bytes) list \<Rightarrow> ios_fs_sync \<times> 'd ios_block_cache \<Rightarrow> bool" where
  sync_step_read: "block_cache_read c s = (c', r) \<Longrightarrow> sync_step (y, c) [] (y, c')"
| sync_step_write: "length buf = IOS_BLOCK_SECTOR_SIZE \<Longrightarrow> ios_fs_sync_write_sector y c s buf k = (y', c', Inr ())
    \<Longrightarrow> sync_step (y, c) [(s, buf)] (y', c')"
| sync_step_write_fails: "length buf = IOS_BLOCK_SECTOR_SIZE \<Longrightarrow> ios_fs_sync_write_sector y c s buf k = (y', c', Inl e)
    \<Longrightarrow> sync_step (y, c) [] (y', c')"
| sync_step_barrier: "ios_fs_sync_barrier y c = (y', c', r) \<Longrightarrow> sync_step (y, c) [] (y', c')"

inductive sync_run ::
  "ios_fs_sync \<times> 'd ios_block_cache \<Rightarrow> (nat \<times> bytes) list \<Rightarrow> ios_fs_sync \<times> 'd ios_block_cache \<Rightarrow> bool" where
  sync_run_start: "sync_run p [] p"
| sync_run_step: "sync_run p ws p' \<Longrightarrow> sync_step p' vs p'' \<Longrightarrow> sync_run p (ws @ vs) p''"

lemma or_component_nonzero: "valid_component k \<Longrightarrow> d OR k \<noteq> 0"
  by (auto simp: valid_component_def) (metis word_bw_comms(2) word_log_esimps(3) or_eq_0_iff)

lemma cache_read_generation:
  "block_cache_read c s = (c', r) \<Longrightarrow> bc_current_generation c' = bc_current_generation c"
  using acquire_generation [of c s True] by (auto simp: block_cache_read_def split: prod.splits sum.splits)

text \<open>An entry that holds nothing the medium lacks.\<close>

definition idle :: "ios_block_cache_entry \<Rightarrow> bool" where
  "idle e \<longleftrightarrow> ce_state e \<in> {IOS_BLOCK_CACHE_EMPTY, IOS_BLOCK_CACHE_CLEAN}"

lemma idle_needs_write: "idle e \<Longrightarrow> \<not> needs_write g e"
  by (auto simp: idle_def needs_write_def)

lemma idle_update: "\<forall>e \<in> set es. idle e \<Longrightarrow> idle x \<Longrightarrow> \<forall>e \<in> set (es[i := x]). idle e"
  by (auto dest: set_update_subset_insert [THEN subsetD])

lemma acquire_idle:
  assumes "\<forall>e \<in> set (bc_entries c). idle e"
  shows "\<forall>e \<in> set (bc_entries (fst (acquire_entry c s load))). idle e"
proof (cases "find_entry c s")
  case (Some i)
  then have "idle ((bc_entries c ! i)\<lparr>ce_last_use := u\<rparr>)" for u
    using find_entry_Some [OF Some] assms by (auto simp: idle_def)
  then have "\<forall>e \<in> set ((bc_entries c)[i := (bc_entries c ! i)\<lparr>ce_last_use := u\<rparr>]). idle e" for u
    by (intro idle_update [OF assms])
  then show ?thesis using assms by (simp add: acquire_entry_def Let_def Some)
next
  case None
  have upd: "\<forall>e \<in> set ((bc_entries c)[i := x]). idle e" if "ce_state x \<in> {IOS_BLOCK_CACHE_EMPTY, IOS_BLOCK_CACHE_CLEAN}" for i x
    using that by (intro idle_update [OF assms]) (simp add: idle_def)
  obtain dv q where rd: "block_device_read (bc_device c) s 1 = (dv, q)" by (cases "block_device_read (bc_device c) s 1")
  show ?thesis
  proof (cases "select_victim c")
    case (Some k)
    then show ?thesis using assms by (cases load; cases q) (auto simp: acquire_entry_def Let_def None rd simp del: One_nat_def dest: upd [THEN bspec, rotated])
  qed (use assms in \<open>simp add: acquire_entry_def Let_def None\<close>)
qed

definition sync_inv ::
  "'d ios_block_device_operations \<Rightarrow> ('d \<Rightarrow> nat \<Rightarrow> bytes) \<Rightarrow> ('d \<Rightarrow> bool) \<Rightarrow> ios_fs_sync \<times> 'd ios_block_cache \<Rightarrow> bool" where
  "sync_inv ops contents ok p \<longleftrightarrow> cache_ok ops contents ok (snd p) \<and> sync_ok (fst p) (snd p)
     \<and> (sy_dirty_components (fst p) = 0 \<longrightarrow> (\<forall>e \<in> set (bc_entries (snd p)). idle e))"

context block_driver
begin

lemma sync_step_read_inv:
  assumes inv: "sync_inv ops contents ok (y, c)" and rd: "block_cache_read c s = (c', r)"
  shows "sync_inv ops contents ok (y, c') \<and> cache_view contents c' = cache_view contents c"
proof -
  have ok: "cache_ok ops contents ok c" using inv by (simp add: sync_inv_def)
  have "c' = fst (acquire_entry c s True)"
    using rd by (auto simp: block_cache_read_def split: sum.splits prod.splits)
  then show ?thesis
    using inv cache_read [OF ok rd] cache_read_generation [OF rd] acquire_idle [of c s True]
    by (simp add: sync_inv_def sync_ok_def)
qed

lemma sync_write_inv:
  assumes inv: "sync_inv ops contents ok (y, c)" and len: "length buf = IOS_BLOCK_SECTOR_SIZE"
    and wr: "ios_fs_sync_write_sector y c s buf k = (y', c', r)"
  shows "sync_inv ops contents ok (y', c')
    \<and> cache_view contents c' = (if r = Inr () then (cache_view contents c)(s := buf) else cache_view contents c)"
proof (cases "sy_attached y \<and> valid_component k")
  case True
  have ok: "cache_ok ops contents ok c" using inv by (simp add: sync_inv_def)
  obtain c1 q where w: "block_cache_write c s buf (sy_generation y) = (c1, q)"
    by (cases "block_cache_write c s buf (sy_generation y)")
  note cw = cache_write [OF ok len w] and g = cache_write_generation [OF w]
  show ?thesis
  proof (cases q)
    case (Inl e)
    then have "c' = c1" "y' = y\<lparr>sy_last_result := Inl e\<rparr>" "r = Inl e"
      using wr w True by (auto simp: ios_fs_sync_write_sector_def)
    moreover have "c1 = c"
      using w Inl acquire_write_fails by (auto simp: block_cache_write_def split: if_splits prod.splits sum.splits)
    ultimately show ?thesis using inv by (simp add: sync_inv_def sync_ok_def)
  next
    case (Inr u)
    then have "c' = c1" "y' = y\<lparr>sy_dirty_components := sy_dirty_components y OR k\<rparr>" "r = Inr ()"
      using wr w True by (auto simp: ios_fs_sync_write_sector_def)
    then show ?thesis
      using inv cw g Inr or_component_nonzero [of k "sy_dirty_components y"] True
      by (simp add: sync_inv_def sync_ok_def)
  qed
next
  case False
  then show ?thesis using inv wr by (auto simp: ios_fs_sync_write_sector_def)
qed

text \<open>A barrier that reaches the current generation leaves nothing volatile; one that fails
  leaves a cache without volatile entries as it was.\<close>

lemma barrier_idle:
  assumes ok: "cache_ok ops contents ok c" and b: "block_cache_barrier c target = (c', r)"
    and "r = Inr () \<and> target = bc_current_generation c \<or> (\<forall>e \<in> set (bc_entries c). idle e)"
  shows "\<forall>e \<in> set (bc_entries c'). idle e"
  using assms(3)
proof
  assume r: "r = Inr () \<and> target = bc_current_generation c"
  have "ce_dirty_generation e \<le> target" if "e \<in> set (bc_entries c')" for e
    using cache_barrier(1) [OF ok b] cache_barrier_generation [OF b] that r
    by (auto simp: cache_ok_def entry_ok_def)
  then show ?thesis using cache_barrier(3) [OF ok b] r
    by (metis ios_block_cache_state.exhaust idle_def insertCI needs_write_def)
next
  assume idle: "\<forall>e \<in> set (bc_entries c). idle e"
  have "bc_entries c' = bc_entries c"
    if all: "list_all2 (settled target (medium contents c')) (bc_entries c) (bc_entries c')"
  proof (rule nth_equalityI)
    show "length (bc_entries c') = length (bc_entries c)" using list_all2_lengthD [OF all] by simp
    fix i assume "i < length (bc_entries c')"
    then have i: "i < length (bc_entries c)" using list_all2_lengthD [OF all] by simp
    then have "\<not> needs_write target (bc_entries c ! i)" using idle by (simp add: idle_needs_write)
    then show "bc_entries c' ! i = bc_entries c ! i" using list_all2_nthD [OF all i] by (simp add: settled_def)
  qed
  then show ?thesis using barrier_outcome [OF ok b] idle by auto
qed

lemma sync_barrier_inv:
  assumes inv: "sync_inv ops contents ok (y, c)" and bar: "ios_fs_sync_barrier y c = (y', c', r)"
  shows "sync_inv ops contents ok (y', c') \<and> cache_view contents c' = cache_view contents c
    \<and> (r = Inr () \<longrightarrow> sy_dirty_components y' = 0)"
proof (cases "\<not> sy_attached y \<or> sy_generation y = UINT64_MAX")
  case True
  then show ?thesis using bar inv by (auto simp: ios_fs_sync_barrier_def sync_inv_def sync_ok_def split: if_splits)
next
  case live: False
  have ok: "cache_ok ops contents ok c" and sy: "sync_ok y c" using inv by (simp_all add: sync_inv_def)
  obtain c1 q where b: "block_cache_barrier c (sy_generation y) = (c1, q)"
    by (cases "block_cache_barrier c (sy_generation y)")
  note cb = cache_barrier [OF ok b] and g = cache_barrier_generation [OF b]
  have tgt: "sy_generation y = bc_current_generation c" using sy by (simp add: sync_ok_def)
  show ?thesis
  proof (cases q)
    case (Inl e)
    then have "c' = c1" "y' = y\<lparr>sy_last_result := Inl e\<rparr>" "r = Inl e"
      using bar b live by (auto simp: ios_fs_sync_barrier_def)
    then show ?thesis using inv cb(1,2) g barrier_idle [OF ok b] by (auto simp: sync_inv_def sync_ok_def)
  next
    case (Inr u)
    obtain c2 n where adv: "block_cache_advance_generation c1 = (c2, Inr n)"
      "n = bc_current_generation c1 + 1" "c2 = c1\<lparr>bc_current_generation := n\<rparr>"
      using live g tgt by (simp add: block_cache_advance_generation_def)
    have res: "c' = c2" "r = Inr ()" "y' = y\<lparr>sy_last_result := Inr (), sy_durable_generation := sy_generation y,
           sy_dirty_components := 0, sy_generation := n\<rparr>"
      using bar b live Inr adv(1) by (auto simp: ios_fs_sync_barrier_def Let_def)
    have "\<forall>e \<in> set (bc_entries c'). idle e"
      using barrier_idle [OF ok b] Inr tgt by (simp add: res(1) adv(3))
    then show ?thesis using cb(2) cache_advance [OF cb(1) adv(1)] sy res g tgt adv(2,3)
      by (simp add: sync_inv_def sync_ok_def)
  qed
qed

lemma sync_run_inv:
  "sync_run p ws p' \<Longrightarrow> sync_inv ops contents ok p \<Longrightarrow>
    sync_inv ops contents ok p' \<and> cache_view contents (snd p') = apply_writes (cache_view contents (snd p)) ws"
proof (induction rule: sync_run.induct)
  case (sync_run_step p ws p' vs p'')
  then have inv: "sync_inv ops contents ok p'" by simp
  have "sync_inv ops contents ok p'' \<and> cache_view contents (snd p'') = apply_writes (cache_view contents (snd p')) vs"
    using sync_run_step.hyps(2)
  proof cases
    case (sync_step_read c s c' r y)
    then show ?thesis using sync_step_read_inv [of y c s c' r] inv by simp
  next
    case (sync_step_write buf y c s k y' c')
    then show ?thesis using sync_write_inv [of y c buf s k y' c' "Inr ()"] inv by simp
  next
    case (sync_step_write_fails buf y c s k y' c' e)
    then show ?thesis using sync_write_inv [of y c buf s k y' c' "Inl e"] inv by simp
  next
    case (sync_step_barrier y c y' c' r)
    then show ?thesis using sync_barrier_inv [of y c y' c' r] inv by simp
  qed
  then show ?case using sync_run_step by simp
qed simp

lemma idle_medium:
  assumes "cache_ok ops contents ok c" and "\<forall>e \<in> set (bc_entries c). idle e"
  shows "medium contents c = cache_view contents c"
  using clean_view_is_medium [OF assms(1)] assms(2) by (fastforce simp: idle_def cache_holds_def)

end

lemma sync_initialize_inv:
  assumes "cache_ok ops contents ok c" and "0 < bc_current_generation c" and "\<forall>e \<in> set (bc_entries c). idle e"
  shows "sync_inv ops contents ok (ios_fs_sync_initialize c, c)"
  using assms by (simp add: sync_inv_def sync_ok_def ios_fs_sync_initialize_def)

section \<open>Properties\<close>


section \<open>Witness\<close>

definition idle_cache :: "ios_fake_block ios_block_cache" where
  "idle_cache = \<lparr>bc_device = fake_device, bc_entries = [zero_entry, zero_entry],
     bc_current_generation = 1, bc_use_clock = 1\<rparr>"

lemma idle_cache_ok: "cache_ok fake_operations fake_sector fake_ok idle_cache"
  by (auto simp: cache_ok_def idle_cache_def fake_device_def fake_disk_def fake_ok_def entry_ok_def
      unique_sectors_def cache_holds_def less_Suc_eq zero_entry_def)

lemma idle_cache_write:
  "\<exists>y c. ios_fs_sync_write_sector (ios_fs_sync_initialize idle_cache) idle_cache 3
    (replicate IOS_BLOCK_SECTOR_SIZE 7) IOS_FS_DIRTY_CONTENT = (y, c, Inr ())"
  by (simp add: ios_fs_sync_write_sector_def ios_fs_sync_initialize_def valid_component_def block_cache_write_def
      acquire_entry_def find_entry_def select_victim_def idle_cache_def fake_device_def cache_holds_def zero_entry_def)


end
