(* ===== verification/Vfs_Path.thy ===== *)
theory Vfs_Path
  imports Vfs_Mount
begin

text \<open>
  Paths of the virtual file system (path.c). \<open>vfs_path_normalize\<close> rewrites a path, relative to
  the current directory, in a caller's buffer: it appends a component at a time, keeps the
  offset at which each component starts on a stack, and cuts the buffer back to the last such
  offset for \<open>..\<close>. The buffer is an array of characters of the given capacity, so that
  the terminator and the cut are writes to it. The reference definition works on lists of
  components. Resolution walks the normalised path from the root object of the mount, one call
  of the driver's \<open>lookup\<close> for each component, between the begin and the end of an operation.
\<close>

section \<open>C strings\<close>

abbreviation NUL :: char where "NUL \<equiv> CHR 0x00"
abbreviation SLASH :: char where "SLASH \<equiv> CHR 0x2F"
abbreviation DOT :: char where "DOT \<equiv> CHR 0x2E"

text \<open>
  A character array or string literal is a list of characters; reading at its end finds the
  terminator.
\<close>

definition cchar :: "string \<Rightarrow> nat \<Rightarrow> char" where
  "cchar s i = (if i < length s then s ! i else NUL)"

definition cstring :: "string \<Rightarrow> string" where
  "cstring s = takeWhile (\<lambda>c. c \<noteq> NUL) s"

section \<open>Normalisation\<close>

abbreviation IOS_VFS_PATH_MAX :: nat where "IOS_VFS_PATH_MAX \<equiv> 255"
abbreviation IOS_VFS_PATH_CAPACITY :: nat where "IOS_VFS_PATH_CAPACITY \<equiv> 256"
abbreviation IOS_VFS_MAX_DIRECTORY_LEVELS :: nat where "IOS_VFS_MAX_DIRECTORY_LEVELS \<equiv> 16"

function path_scan :: "string \<Rightarrow> nat \<Rightarrow> nat res" where
  "path_scan path index =
     (if index \<le> IOS_VFS_PATH_MAX then
        if cchar path index = NUL then Inr index else path_scan path (index + 1)
      else Inl IOS_E_OUT_OF_RANGE)"
  by pat_completeness auto
termination by (relation "measure (\<lambda>(path, index). 256 - index)") auto

declare path_scan.simps [simp del]

definition path_length :: "string \<Rightarrow> nat res" where
  "path_length path = path_scan path 0"

definition invalid_path_byte :: "char \<Rightarrow> bool" where
  "invalid_path_byte character \<longleftrightarrow>
     (let byte = (of_char character :: nat) in byte < 0x20 \<or> byte = 0x7f \<or> character = CHR 0x5C)"

text \<open>The buffer and the three variables that the helpers share by reference.\<close>

record path_state =
  ps_normalized :: string
  ps_output_length :: nat
  ps_starts :: "nat list"
  ps_depth :: nat

definition append_component :: "string \<Rightarrow> nat \<Rightarrow> path_state \<Rightarrow> path_state \<times> unit res" where
  "append_component component capacity s =
     (if length component = 1 \<and> component ! 0 = DOT then (s, Inr ())
      else if length component = 2 \<and> component ! 0 = DOT \<and> component ! 1 = DOT then
        if ps_depth s \<noteq> 0 then
          let depth = ps_depth s - 1; output_length = ps_starts s ! depth
          in (s\<lparr>ps_depth := depth, ps_output_length := output_length,
                ps_normalized := (ps_normalized s)[output_length := NUL]\<rparr>, Inr ())
        else (s, Inr ())
      else if ps_depth s \<ge> IOS_VFS_MAX_DIRECTORY_LEVELS - 1 then (s, Inl IOS_E_OUT_OF_RANGE)
      else if list_ex invalid_path_byte component then (s, Inl IOS_E_INVALID_ARGUMENT)
      else
        let start = ps_output_length s;
            output_length = (if start \<noteq> 1 then start + 1 else start)
        in if output_length > IOS_VFS_PATH_MAX \<or> length component > IOS_VFS_PATH_MAX - output_length
              \<or> output_length + length component \<ge> capacity
           then (s, Inl IOS_E_OUT_OF_RANGE)
           else
             let normalized = (if start \<noteq> 1 then (ps_normalized s)[start := SLASH] else ps_normalized s);
                 normalized = overwrite normalized output_length component
             in (\<lparr>ps_normalized = normalized[output_length + length component := NUL],
                  ps_output_length = output_length + length component,
                  ps_starts = (ps_starts s)[ps_depth s := start],
                  ps_depth = ps_depth s + 1\<rparr>, Inr ()))"

lemma length_dropWhile_lt: "xs \<noteq> [] \<Longrightarrow> P (hd xs) \<Longrightarrow> length (dropWhile P xs) < length xs"
  by (cases xs) (auto intro: le_less_trans [OF length_dropWhile_le])

lemma consume_rest_shorter:
  assumes "rest \<noteq> []"
  shows "length (dropWhile (\<lambda>c. c \<noteq> SLASH) (dropWhile (\<lambda>c. c = SLASH) rest)) < length rest"
proof (cases "hd rest = SLASH")
  case True
  then have "length (dropWhile (\<lambda>c. c = SLASH) rest) < length rest"
    using assms length_dropWhile_lt [of rest "\<lambda>c. c = SLASH"] by simp
  then show ?thesis by (rule le_less_trans [OF length_dropWhile_le])
next
  case False
  then have "dropWhile (\<lambda>c. c = SLASH) rest = rest" by (cases rest) auto
  then show ?thesis using assms False length_dropWhile_lt [of rest "\<lambda>c. c \<noteq> SLASH"] by simp
qed

text \<open>The cursor of the loop is the rest of the path that it has not passed yet.\<close>

function consume_path :: "string \<Rightarrow> nat \<Rightarrow> path_state \<Rightarrow> path_state \<times> unit res" where
  "consume_path rest capacity s =
     (if rest = [] then (s, Inr ())
      else
        let from_begin = dropWhile (\<lambda>c. c = SLASH) rest;
            component = takeWhile (\<lambda>c. c \<noteq> SLASH) from_begin;
            rest' = dropWhile (\<lambda>c. c \<noteq> SLASH) from_begin
        in if component \<noteq> [] then
             (case append_component component capacity s of
                (s', Inl e) \<Rightarrow> (s', Inl e)
              | (s', Inr _) \<Rightarrow> consume_path rest' capacity s')
           else consume_path rest' capacity s)"
  by pat_completeness auto
termination
  by (relation "measure (\<lambda>(rest, capacity, s). length rest)") (auto simp: consume_rest_shorter)

declare consume_path.simps [simp del]

text \<open>
  The buffer is the caller's array, its length the capacity. The second component of the
  result is the returned status.
\<close>

definition vfs_path_normalize :: "string \<Rightarrow> string \<Rightarrow> string \<Rightarrow> string \<times> unit res" where
  "vfs_path_normalize current_directory path normalized =
     (let capacity = length normalized in
      if capacity = 0 then (normalized, Inl IOS_E_INVALID_ARGUMENT)
      else
        let normalized = normalized[0 := NUL] in
        if cchar current_directory 0 \<noteq> SLASH then (normalized, Inl IOS_E_INVALID_ARGUMENT)
        else case path_length current_directory of
          Inl e \<Rightarrow> (normalized, Inl e)
        | Inr current_length \<Rightarrow>
          (case path_length path of
             Inl e \<Rightarrow> (normalized, Inl e)
           | Inr path_size \<Rightarrow>
              if path_size = 0 \<or> capacity < 2 then (normalized, Inl IOS_E_INVALID_ARGUMENT)
              else
                let s = \<lparr>ps_normalized = normalized[0 := SLASH, 1 := NUL], ps_output_length = 1,
                         ps_starts = replicate (IOS_VFS_MAX_DIRECTORY_LEVELS - 1) 0, ps_depth = 0\<rparr>
                in case (if cchar path 0 \<noteq> SLASH
                         then consume_path (take current_length current_directory) capacity s
                         else (s, Inr ())) of
                     (s, Inl e) \<Rightarrow> ((ps_normalized s)[0 := NUL], Inl e)
                   | (s, Inr _) \<Rightarrow>
                     (case consume_path (take path_size path) capacity s of
                        (s, Inl e) \<Rightarrow> ((ps_normalized s)[0 := NUL], Inl e)
                      | (s, Inr _) \<Rightarrow> (ps_normalized s, Inr ()))))"

section \<open>Reference: lists of components\<close>

fun split_slash :: "string \<Rightarrow> string list" where
  "split_slash [] = [[]]"
| "split_slash (c # s) =
     (if c = SLASH then [] # split_slash s else (c # hd (split_slash s)) # tl (split_slash s))"

definition path_components :: "string \<Rightarrow> string list" where
  "path_components s = filter (\<lambda>c. c \<noteq> []) (split_slash s)"

definition render :: "string list \<Rightarrow> string" where
  "render stack = (if stack = [] then [SLASH] else concat (map (\<lambda>c. SLASH # c) stack))"

definition path_step :: "nat \<Rightarrow> string list \<Rightarrow> string \<Rightarrow> string list res" where
  "path_step capacity stack c =
     (if c = [DOT] then Inr stack
      else if c = [DOT, DOT] then Inr (butlast stack)
      else if length stack \<ge> IOS_VFS_MAX_DIRECTORY_LEVELS - 1 then Inl IOS_E_OUT_OF_RANGE
      else if list_ex invalid_path_byte c then Inl IOS_E_INVALID_ARGUMENT
      else if length (render (stack @ [c])) > IOS_VFS_PATH_MAX \<or> length (render (stack @ [c])) \<ge> capacity
      then Inl IOS_E_OUT_OF_RANGE
      else Inr (stack @ [c]))"

fun path_walk :: "nat \<Rightarrow> string list \<Rightarrow> string list \<Rightarrow> string list res" where
  "path_walk capacity stack [] = Inr stack"
| "path_walk capacity stack (c # cs) =
     (case path_step capacity stack c of Inl e \<Rightarrow> Inl e | Inr stack' \<Rightarrow> path_walk capacity stack' cs)"

definition path_reference :: "string \<Rightarrow> string \<Rightarrow> nat \<Rightarrow> string list res" where
  "path_reference current_directory path capacity =
     (if capacity = 0 \<or> cchar current_directory 0 \<noteq> SLASH then Inl IOS_E_INVALID_ARGUMENT
      else if length current_directory > IOS_VFS_PATH_MAX \<or> length path > IOS_VFS_PATH_MAX then Inl IOS_E_OUT_OF_RANGE
      else if path = [] \<or> capacity < 2 then Inl IOS_E_INVALID_ARGUMENT
      else path_walk capacity []
        ((if cchar path 0 \<noteq> SLASH then path_components current_directory else []) @ path_components path))"

text \<open>A canonical list of components, the value of a normalised path.\<close>

definition plain_component :: "string \<Rightarrow> bool" where
  "plain_component c \<longleftrightarrow> c \<noteq> [] \<and> SLASH \<notin> set c \<and> c \<noteq> [DOT] \<and> c \<noteq> [DOT, DOT] \<and> \<not> list_ex invalid_path_byte c"

definition canonical :: "string list \<Rightarrow> bool" where
  "canonical stack \<longleftrightarrow> length stack \<le> IOS_VFS_MAX_DIRECTORY_LEVELS - 1 \<and> length (render stack) \<le> IOS_VFS_PATH_MAX
     \<and> list_all plain_component stack"

section \<open>Strings and components\<close>

lemma path_scan_cstring:
  "index \<le> length (cstring s) \<Longrightarrow>
    path_scan s index = (if length (cstring s) \<le> IOS_VFS_PATH_MAX then Inr (length (cstring s)) else Inl IOS_E_OUT_OF_RANGE)"
proof (induction s index rule: path_scan.induct)
  case (1 s index)
  have nul: "cchar s index = NUL \<longleftrightarrow> index = length (cstring s)"
  proof (cases "index = length (cstring s)")
    case True
    have "length (cstring s) < length s \<Longrightarrow> s ! length (cstring s) = NUL"
      unfolding cstring_def using nth_length_takeWhile by blast
    then show ?thesis using True by (auto simp: cchar_def)
  next
    case False
    then have lt: "index < length (cstring s)" using 1(2) by simp
    then have "s ! index = cstring s ! index" by (simp add: cstring_def takeWhile_nth)
    moreover have "cstring s ! index \<noteq> NUL"
      using nth_mem [OF lt] unfolding cstring_def by (auto dest: set_takeWhileD)
    moreover have "index < length s"
      using lt unfolding cstring_def by (rule less_le_trans [OF _ length_takeWhile_le])
    ultimately show ?thesis using False by (simp add: cchar_def)
  qed
  show ?case
    unfolding path_scan.simps [of s index] nul using 1 nul by auto
qed

lemma path_length_cstring:
  "path_length s = (if length (cstring s) \<le> IOS_VFS_PATH_MAX then Inr (length (cstring s)) else Inl IOS_E_OUT_OF_RANGE)"
  by (simp add: path_length_def path_scan_cstring)

lemma take_cstring: "take (length (cstring s)) s = cstring s"
  by (simp add: cstring_def takeWhile_eq_take [symmetric] flip: takeWhile_eq_take)


lemma cchar_cstring_0: "cchar s 0 = cchar (cstring s) 0"
  by (cases s) (auto simp: cchar_def cstring_def)

lemma cstring_prefix:
  assumes "n < length buf" and "buf ! n = NUL" and "NUL \<notin> set (take n buf)"
  shows "cstring buf = take n buf"
proof -
  have "buf = take n buf @ NUL # drop (Suc n) buf" using assms(1,2) by (metis id_take_nth_drop)
  then have "cstring buf = cstring (take n buf @ NUL # drop (Suc n) buf)" by simp
  also have "\<dots> = take n buf" using assms(3) unfolding cstring_def by (subst takeWhile_append2) auto
  finally show ?thesis .
qed

lemma cstring_id: "NUL \<notin> set s \<Longrightarrow> cstring s = s"
  unfolding cstring_def takeWhile_eq_all_conv by metis

lemma split_slash_not_Nil [simp]: "split_slash s \<noteq> []"
  by (cases s) auto

lemma split_slash_word: "SLASH \<notin> set u \<Longrightarrow> split_slash u = [u]"
  by (induction u) auto

lemma split_slash_append: "SLASH \<notin> set u \<Longrightarrow> split_slash (u @ SLASH # s) = u # split_slash s"
  by (induction u) auto

lemma path_components_simps [simp]:
  "path_components [] = []" "path_components (SLASH # s) = path_components s"
  by (simp_all add: path_components_def)

lemma path_components_skip: "path_components (dropWhile (\<lambda>c. c = SLASH) s) = path_components s"
  by (induction s) auto

lemma path_components_next:
  assumes "takeWhile (\<lambda>c. c \<noteq> SLASH) s \<noteq> []"
  shows "path_components s = takeWhile (\<lambda>c. c \<noteq> SLASH) s # path_components (dropWhile (\<lambda>c. c \<noteq> SLASH) s)"
proof -
  let ?u = "takeWhile (\<lambda>c. c \<noteq> SLASH) s" and ?r = "dropWhile (\<lambda>c. c \<noteq> SLASH) s"
  have s: "s = ?u @ ?r" and u: "SLASH \<notin> set ?u" by (simp, blast dest: set_takeWhileD)
  show ?thesis
  proof (cases ?r)
    case Nil
    then have "s = ?u" using s by (metis append_Nil2)
    then have "path_components s = path_components ?u" by (rule arg_cong)
    then show ?thesis using Nil u assms by (simp add: path_components_def split_slash_word del: takeWhile_eq_Nil_iff dropWhile_eq_Nil_conv)
  next
    case (Cons c r)
    then have c: "c = SLASH" using hd_dropWhile [of "\<lambda>c. c \<noteq> SLASH" s] by auto
    then have "path_components s = path_components (?u @ SLASH # r)" using s Cons by simp
    then show ?thesis
      using Cons c u assms by (simp add: path_components_def split_slash_append del: takeWhile_eq_Nil_iff)
  qed
qed

lemma path_components_word: "c \<noteq> [] \<Longrightarrow> SLASH \<notin> set c \<Longrightarrow> path_components (c @ SLASH # s) = c # path_components s"
  by (simp add: path_components_def split_slash_append)

lemma path_components_last: "c \<noteq> [] \<Longrightarrow> SLASH \<notin> set c \<Longrightarrow> path_components c = [c]"
  by (simp add: path_components_def split_slash_word)

lemma set_split_slash: "u \<in> set (split_slash s) \<Longrightarrow> SLASH \<notin> set u \<and> set u \<subseteq> set s"
proof (induction s arbitrary: u)
  case (Cons c s)
  have h: "hd (split_slash s) \<in> set (split_slash s)" "set (tl (split_slash s)) \<subseteq> set (split_slash s)"
    by (simp, cases "split_slash s", auto)
  show ?case
  proof (cases "u = c # hd (split_slash s) \<and> c \<noteq> SLASH")
    case True
    then show ?thesis using Cons.IH [OF h(1)] by auto
  next
    case False
    then have "u = [] \<or> u \<in> set (split_slash s)" using Cons.prems h(2) by (auto split: if_splits)
    then show ?thesis using Cons.IH [of u] by auto
  qed
qed simp

lemma set_path_components: "u \<in> set (path_components s) \<Longrightarrow> u \<noteq> [] \<and> SLASH \<notin> set u \<and> set u \<subseteq> set s"
  unfolding path_components_def using set_split_slash [of u s] by auto

section \<open>Rendered paths\<close>

lemma render_Nil [simp]: "render [] = [SLASH]"
  by (simp add: render_def)

lemma render_snoc: "render (stack @ [c]) = (if stack = [] then [SLASH] else render stack @ [SLASH]) @ c"
  by (simp add: render_def)

lemma render_Cons: "render (c # stack) = SLASH # c @ (if stack = [] then [] else render stack)"
  by (simp add: render_def)

lemma render_hd: "\<exists>r. render stack = SLASH # r"
  by (cases stack) (auto simp: render_Cons)

lemma render_length_1: "(\<forall>c \<in> set stack. c \<noteq> []) \<Longrightarrow> length (render stack) = 1 \<longleftrightarrow> stack = []"
  by (cases stack) (auto simp: render_Cons)

lemma length_render_pos: "0 < length (render stack)"
  using render_hd [of stack] by auto

lemma set_render: "set (render stack) = insert SLASH (\<Union> (set ` set stack))"
  by (induction stack) (auto simp: render_Cons)

lemma path_components_render:
  assumes "\<forall>c \<in> set stack. c \<noteq> [] \<and> SLASH \<notin> set c"
  shows "path_components (render stack) = stack"
  using assms
proof (induction stack)
  case (Cons c stack)
  show ?case
  proof (cases "stack = []")
    case True
    then show ?thesis using Cons.prems by (simp add: render_Cons path_components_last)
  next
    case False
    obtain r where r: "render stack = SLASH # r" using render_hd by blast
    then have "path_components (render (c # stack)) = c # path_components r"
      using False Cons.prems by (simp add: render_Cons path_components_word)
    then show ?thesis using Cons r by simp
  qed
qed simp

lemma plain_componentD: "plain_component c \<Longrightarrow> c \<noteq> [] \<and> SLASH \<notin> set c"
  by (simp add: plain_component_def)

lemma canonicalD: "canonical stack \<Longrightarrow> c \<in> set stack \<Longrightarrow> plain_component c"
  by (simp add: canonical_def list_all_iff)

lemma canonical_components: "canonical stack \<Longrightarrow> path_components (render stack) = stack"
  by (rule path_components_render) (blast dest: canonicalD plain_componentD)

lemma render_inject: "canonical a \<Longrightarrow> canonical b \<Longrightarrow> render a = render b \<Longrightarrow> a = b"
  by (metis canonical_components)

lemma canonical_Nil [simp]: "canonical []"
  by (simp add: canonical_def)

lemma length_render_take: "length (render (take n stack)) \<le> length (render stack)"
proof -
  have "length (render a) \<le> length (render (a @ b))" for a b by (simp add: render_def) (cases b; simp)
  from this [of "take n stack" "drop n stack"] show ?thesis by simp
qed

lemma canonical_take: "canonical stack \<Longrightarrow> canonical (take n stack)"
  using length_render_take [of n stack] unfolding canonical_def
  by (auto simp: list_all_length)

lemma canonical_butlast: "canonical stack \<Longrightarrow> canonical (butlast stack)"
  by (simp add: butlast_conv_take canonical_take)

lemma invalid_nul: "invalid_path_byte NUL"
  by (simp add: invalid_path_byte_def)

lemma plain_no_nul: "plain_component c \<Longrightarrow> NUL \<notin> set c"
  unfolding plain_component_def list_ex_iff using invalid_nul by blast

lemma canonical_no_nul: "canonical stack \<Longrightarrow> NUL \<notin> set (render stack)"
  unfolding set_render using canonicalD plain_no_nul by fastforce

lemma path_step_canonical:
  assumes "canonical stack" and "c \<noteq> []" and "SLASH \<notin> set c" and "path_step capacity stack c = Inr stack'"
  shows "canonical stack'"
proof -
  consider "stack' = stack" | "stack' = butlast stack"
    | "stack' = stack @ [c]" "plain_component c" "length (render (stack @ [c])) \<le> IOS_VFS_PATH_MAX" "length stack < 15"
    using assms(2-4) unfolding path_step_def plain_component_def by (auto split: if_splits simp: not_less)
  then show ?thesis
  proof cases
    case 3
    then show ?thesis using assms(1) unfolding canonical_def by simp
  qed (use assms(1) canonical_butlast in simp_all)
qed


section \<open>The buffer holds the rendered components\<close>

definition path_rel :: "nat \<Rightarrow> string list \<Rightarrow> path_state \<Rightarrow> bool" where
  "path_rel capacity stack s \<longleftrightarrow> canonical stack \<and> length (ps_normalized s) = capacity
     \<and> ps_depth s = length stack \<and> length (ps_starts s) = IOS_VFS_MAX_DIRECTORY_LEVELS - 1
     \<and> (\<forall>i < length stack. ps_starts s ! i = length (render (take i stack)))
     \<and> ps_output_length s = length (render stack) \<and> length (render stack) < capacity
     \<and> take (length (render stack)) (ps_normalized s) = render stack
     \<and> ps_normalized s ! length (render stack) = NUL"

lemma path_rel_cstring:
  assumes "path_rel capacity stack s"
  shows "cstring (ps_normalized s) = render stack"
proof -
  have r: "take (length (render stack)) (ps_normalized s) = render stack"
    and "length (render stack) < length (ps_normalized s)" "ps_normalized s ! length (render stack) = NUL"
    and "canonical stack" using assms by (auto simp: path_rel_def)
  then show ?thesis using cstring_prefix [of "length (render stack)" "ps_normalized s"] canonical_no_nul by simp
qed

lemma render_take_prefix:
  assumes "stack \<noteq> []"
  shows "take (length (render (butlast stack))) (render stack) = render (butlast stack)"
proof -
  have "render stack = render (butlast stack @ [last stack])" using assms by simp
  then show ?thesis by (simp add: render_snoc)
qed

lemma path_rel_pop:
  assumes rel: "path_rel capacity stack s" and ne: "stack \<noteq> []"
  shows "path_rel capacity (butlast stack)
    (s\<lparr>ps_depth := ps_depth s - 1, ps_output_length := ps_starts s ! (ps_depth s - 1),
       ps_normalized := (ps_normalized s)[ps_starts s ! (ps_depth s - 1) := NUL]\<rparr>)"
proof -
  let ?b = "butlast stack" and ?n = "ps_normalized s"
  have b: "?b = take (length stack - 1) stack" by (simp add: butlast_conv_take)
  have l: "length (render ?b) \<le> length (render stack)" unfolding b by (rule length_render_take)
  have start: "ps_starts s ! (length stack - 1) = length (render ?b)"
    using rel ne by (simp add: path_rel_def b)
  have "take (length (render ?b)) ?n = take (length (render ?b)) (take (length (render stack)) ?n)"
    using l by (simp add: min_absorb1)
  also have "\<dots> = render ?b" using rel render_take_prefix [OF ne] by (simp add: path_rel_def)
  finally have pre: "take (length (render ?b)) ?n = render ?b" .
  have starts: "ps_starts s ! i = length (render (take i ?b))" if "i < length stack - 1" for i
    using rel that unfolding b by (simp add: path_rel_def min_absorb1)
  show ?thesis
    using rel l start pre starts canonical_butlast [of stack] by (simp add: path_rel_def)
qed

lemma path_rel_push:
  assumes rel: "path_rel capacity stack s" and c: "plain_component c" and depth: "length stack < 15"
    and len: "length (render (stack @ [c])) \<le> IOS_VFS_PATH_MAX" "length (render (stack @ [c])) < capacity"
    and ol: "ol = (if ps_output_length s \<noteq> 1 then ps_output_length s + 1 else ps_output_length s)"
    and n: "n = (if ps_output_length s \<noteq> 1 then (ps_normalized s)[ps_output_length s := SLASH] else ps_normalized s)"
  shows "path_rel capacity (stack @ [c])
    \<lparr>ps_normalized = (overwrite n ol c)[ol + length c := NUL], ps_output_length = ol + length c,
     ps_starts = (ps_starts s)[ps_depth s := ps_output_length s], ps_depth = ps_depth s + 1\<rparr>"
proof -
  let ?r = "render stack" and ?b = "ps_normalized s"
  have R: "ps_output_length s = length ?r" "take (length ?r) ?b = ?r" "length ?b = capacity" "length ?r < capacity"
    "canonical stack" using rel by (auto simp: path_rel_def)
  have one: "length ?r = 1 \<longleftrightarrow> stack = []"
    by (rule render_length_1) (use R(5) canonicalD plain_componentD in blast)
  have pre: "ol = length (if stack = [] then [SLASH] else ?r @ [SLASH])"
    "take ol n = (if stack = [] then [SLASH] else ?r @ [SLASH])" "length n = capacity"
  proof -
    show "ol = length (if stack = [] then [SLASH] else ?r @ [SLASH])" using R(1) one by (simp add: ol)
    show "length n = capacity" using R(3) by (simp add: n)
    show "take ol n = (if stack = [] then [SLASH] else ?r @ [SLASH])"
    proof (cases "stack = []")
      case True
      then have "ol = length ?r" "n = ?b" "?r = [SLASH]" using R(1) one by (simp_all add: ol n)
      then show ?thesis using R(2) True by metis
    next
      case False
      then have "ol = Suc (length ?r)" "n = ?b[length ?r := SLASH]" using R(1) one by (simp_all add: ol n)
      then show ?thesis using R(2,3,4) False by (simp add: take_Suc_conv_app_nth)
    qed
  qed
  have rs: "render (stack @ [c]) = take ol n @ c" by (simp add: pre(2) render_snoc)
  have ll: "length (render (stack @ [c])) = ol + length c" by (simp add: render_snoc pre(1))
  have cap: "ol + length c < capacity" using len(2) ll by simp
  have buf: "take (ol + length c) (overwrite n ol c) = render (stack @ [c])"
    using cap pre(3) by (simp add: overwrite_def rs)
  have lb: "length (overwrite n ol c) = capacity" using cap pre(3) by simp
  have can: "canonical (stack @ [c])" using R(5) c len(1) depth by (simp add: canonical_def)
  have starts: "(ps_starts s)[ps_depth s := ps_output_length s] ! i = length (render (take i (stack @ [c])))"
    if "i < Suc (length stack)" for i
    using rel that depth by (auto simp: path_rel_def nth_list_update less_Suc_eq)
  show ?thesis
    using rel can cap ll lb buf starts by (simp add: path_rel_def)
qed

lemma append_component_refines:
  assumes rel: "path_rel capacity stack s" and c: "c \<noteq> []" "SLASH \<notin> set c"
  shows "case path_step capacity stack c of
      Inl e \<Rightarrow> \<exists>s'. append_component c capacity s = (s', Inl e) \<and> length (ps_normalized s') = capacity
    | Inr stack' \<Rightarrow> \<exists>s'. append_component c capacity s = (s', Inr ()) \<and> path_rel capacity stack' s'"
proof -
  have dot: "length c = 1 \<and> c ! 0 = DOT \<longleftrightarrow> c = [DOT]" by (cases c) auto
  have dots: "length c = 2 \<and> c ! 0 = DOT \<and> c ! 1 = DOT \<longleftrightarrow> c = [DOT, DOT]"
    by (cases c; cases "tl c") auto
  have R: "ps_depth s = length stack" "ps_output_length s = length (render stack)" "canonical stack"
    "length (ps_normalized s) = capacity" using rel by (auto simp: path_rel_def)
  have one: "length (render stack) = 1 \<longleftrightarrow> stack = []"
    by (rule render_length_1) (use R(3) canonicalD plain_componentD in blast)
  define ol where "ol = (if ps_output_length s \<noteq> 1 then ps_output_length s + 1 else ps_output_length s)"
  have ll: "length (render (stack @ [c])) = ol + length c"
    using one R(2) by (simp add: ol_def render_snoc)
  have big: "ol > 255 \<or> length c > 255 - ol \<or> ol + length c \<ge> capacity
    \<longleftrightarrow> length (render (stack @ [c])) > 255 \<or> length (render (stack @ [c])) \<ge> capacity"
  proof -
    have "0 < length c" using c(1) by simp
    then show ?thesis unfolding ll by linarith
  qed
  consider "c = [DOT]" | "c = [DOT, DOT]" "stack = []" | "c = [DOT, DOT]" "stack \<noteq> []"
    | "c \<noteq> [DOT]" "c \<noteq> [DOT, DOT]" by blast
  then show ?thesis
  proof cases
    case 3
    then show ?thesis using path_rel_pop [OF rel 3(2)] R(1)
      by (simp add: path_step_def append_component_def Let_def)
  next
    case 4
    note guard = append_component_def dot dots path_step_def
    consider "length stack \<ge> 15" | "length stack < 15" "list_ex invalid_path_byte c"
      | "length stack < 15" "\<not> list_ex invalid_path_byte c" by linarith
    then show ?thesis
    proof cases
      case 3
      then have "plain_component c" using 4 c by (simp add: plain_component_def)
      note push = path_rel_push [OF rel this 3(1) _ _ ol_def refl]
      show ?thesis
      proof (cases "length (render (stack @ [c])) > 255 \<or> length (render (stack @ [c])) \<ge> capacity")
        case True
        then show ?thesis using 3 4 R(1,4) unfolding guard Let_def ol_def [symmetric] big by simp
      next
        case False
        then show ?thesis
          using 3 4 R(1) push unfolding guard Let_def ol_def [symmetric] big by (simp add: not_le not_less)
      qed
    next
      case 1
      then show ?thesis using 4 R(1,4) unfolding guard by simp
    next
      case 2
      then show ?thesis using 4 R(1,4) unfolding guard by simp
    qed
  qed (use rel R in \<open>simp_all add: path_step_def append_component_def\<close>)
qed


lemma consume_path_refines:
  "path_rel capacity stack s \<Longrightarrow>
    (case path_walk capacity stack (path_components rest) of
       Inl e \<Rightarrow> \<exists>s'. consume_path rest capacity s = (s', Inl e) \<and> length (ps_normalized s') = capacity
     | Inr stack' \<Rightarrow> \<exists>s'. consume_path rest capacity s = (s', Inr ()) \<and> path_rel capacity stack' s')"
proof (induction rest capacity s arbitrary: stack rule: consume_path.induct)
  case (1 rest capacity s)
  let ?d = "dropWhile (\<lambda>c. c = SLASH) rest"
  let ?c = "takeWhile (\<lambda>c. c \<noteq> SLASH) ?d" and ?r = "dropWhile (\<lambda>c. c \<noteq> SLASH) ?d"
  show ?case
  proof (cases "rest = []")
    case True
    then show ?thesis using 1(3) by (simp add: consume_path.simps)
  next
    case ne: False
    show ?thesis
    proof (cases "?c = []")
      case True
      then have nn: "\<not> ?c \<noteq> []" by blast
      have a: "path_components ?r = path_components rest"
      proof -
        have "?r = ?d" using True by (metis append_Nil takeWhile_dropWhile_id)
        then show ?thesis using path_components_skip [of rest] by argo
      qed
      have b: "consume_path rest capacity s = consume_path ?r capacity s"
        using ne True by (simp add: consume_path.simps [of rest] Let_def del: takeWhile_eq_Nil_iff)
      show ?thesis using 1(2) [OF ne refl refl refl nn 1(3)] unfolding a b [symmetric] .
    next
      case False
      have pc: "path_components rest = ?c # path_components ?r"
        using path_components_next [OF False] path_components_skip [of rest] by argo
      have nosl: "SLASH \<notin> set ?c" by (blast dest: set_takeWhileD)
      note step = append_component_refines [OF 1(3) False nosl]
      show ?thesis
      proof (cases "path_step capacity stack ?c")
        case (Inl e)
        then show ?thesis using step ne False
          by (auto simp: pc consume_path.simps [of rest] Let_def simp del: takeWhile_eq_Nil_iff)
      next
        case (Inr stack')
        then obtain s' where s': "append_component ?c capacity s = (s', Inr ())" "path_rel capacity stack' s'"
          using step by auto
        have b: "consume_path rest capacity s = consume_path ?r capacity s'"
          using ne False s'(1) by (simp add: consume_path.simps [of rest] Let_def del: takeWhile_eq_Nil_iff)
        have a: "path_walk capacity stack (path_components rest) = path_walk capacity stack' (path_components ?r)"
          by (simp add: pc Inr)
        show ?thesis
          using 1(1) [OF ne refl refl refl False s'(1) [symmetric] refl s'(2)] unfolding a b .
      qed
    qed
  qed
qed

lemma path_walk_append:
  "path_walk capacity stack (a @ b) =
    (case path_walk capacity stack a of Inl e \<Rightarrow> Inl e | Inr stack' \<Rightarrow> path_walk capacity stack' b)"
  by (induction a arbitrary: stack) (auto split: sum.splits)

lemma path_walk_canonical:
  "canonical stack \<Longrightarrow> (\<forall>c \<in> set cs. c \<noteq> [] \<and> SLASH \<notin> set c) \<Longrightarrow> path_walk capacity stack cs = Inr stack' \<Longrightarrow> canonical stack'"
proof (induction cs arbitrary: stack)
  case (Cons c cs)
  then obtain t where t: "path_step capacity stack c = Inr t" "path_walk capacity t cs = Inr stack'"
    by (auto split: sum.splits)
  have "canonical t" using path_step_canonical [OF Cons.prems(1) _ _ t(1)] Cons.prems(2) by simp
  then show ?case using Cons.IH t(2) Cons.prems(2) by simp
qed simp

lemma path_rel_root:
  assumes "length buf = capacity" and "2 \<le> capacity"
  shows "path_rel capacity [] \<lparr>ps_normalized = buf[0 := SLASH, 1 := NUL], ps_output_length = 1,
    ps_starts = replicate (IOS_VFS_MAX_DIRECTORY_LEVELS - 1) 0, ps_depth = 0\<rparr>"
  using assms by (cases buf; cases "tl buf") (auto simp: path_rel_def)

lemma cstring_cut: "cstring (buf[0 := NUL]) = []"
  by (cases buf) (auto simp: cstring_def)

lemma normalize_refines:
  assumes "vfs_path_normalize current_directory path buf = (buf', r)"
  shows "length buf' = length buf \<and>
    (case path_reference (cstring current_directory) (cstring path) (length buf) of
       Inl e \<Rightarrow> r = Inl e \<and> cstring buf' = []
     | Inr stack \<Rightarrow> r = Inr () \<and> cstring buf' = render stack \<and> canonical stack)"
proof (cases "length buf = 0 \<or> cchar current_directory 0 \<noteq> SLASH \<or> length (cstring current_directory) > 255
    \<or> length (cstring path) > 255 \<or> cstring path = [] \<or> length buf < 2")
  case True
  then show ?thesis
    using assms cstring_cut [of buf]
    by (auto simp: vfs_path_normalize_def path_reference_def path_length_cstring cchar_cstring_0 [of current_directory]
        Let_def cstring_def split: if_splits)
next
  case False
  define s where "s = \<lparr>ps_normalized = buf[0 := NUL, 0 := SLASH, 1 := NUL], ps_output_length = 1,
    ps_starts = replicate (IOS_VFS_MAX_DIRECTORY_LEVELS - 1) 0, ps_depth = 0\<rparr>"
  define first where "first = (if cchar path 0 \<noteq> SLASH then path_components (cstring current_directory) else [])"
  have rel: "path_rel (length buf) [] s" unfolding s_def by (rule path_rel_root) (use False in simp_all)
  have ref: "path_reference (cstring current_directory) (cstring path) (length buf)
    = path_walk (length buf) [] (first @ path_components (cstring path))"
    using False by (simp add: path_reference_def first_def cchar_cstring_0 [symmetric] not_less)
  have run: "vfs_path_normalize current_directory path buf =
    (case (if cchar path 0 \<noteq> SLASH then consume_path (cstring current_directory) (length buf) s else (s, Inr ())) of
       (s, Inl e) \<Rightarrow> ((ps_normalized s)[0 := NUL], Inl e)
     | (s, Inr _) \<Rightarrow> (case consume_path (cstring path) (length buf) s of
          (s, Inl e) \<Rightarrow> ((ps_normalized s)[0 := NUL], Inl e)
        | (s, Inr _) \<Rightarrow> (ps_normalized s, Inr ())))"
    using False by (simp add: vfs_path_normalize_def Let_def path_length_cstring take_cstring s_def not_less)
  have one: "case path_walk (length buf) [] first of
      Inl e \<Rightarrow> \<exists>s'. (if cchar path 0 \<noteq> SLASH then consume_path (cstring current_directory) (length buf) s else (s, Inr ()))
          = (s', Inl e) \<and> length (ps_normalized s') = length buf
    | Inr stack' \<Rightarrow> \<exists>s'. (if cchar path 0 \<noteq> SLASH then consume_path (cstring current_directory) (length buf) s else (s, Inr ()))
          = (s', Inr ()) \<and> path_rel (length buf) stack' s'"
    using consume_path_refines [OF rel, of "cstring current_directory"] rel by (simp add: first_def)
  show ?thesis
  proof (cases "path_walk (length buf) [] first")
    case (Inl e)
    then show ?thesis using one assms run cstring_cut by (auto simp: ref path_walk_append)
  next
    case (Inr stack)
    then obtain s' where s': "path_rel (length buf) stack s'" and
      b: "vfs_path_normalize current_directory path buf = (case consume_path (cstring path) (length buf) s' of
          (s, Inl e) \<Rightarrow> ((ps_normalized s)[0 := NUL], Inl e) | (s, Inr _) \<Rightarrow> (ps_normalized s, Inr ()))"
      using one run by auto
    show ?thesis
      using consume_path_refines [OF s', of "cstring path"] assms b Inr cstring_cut path_rel_cstring
      by (auto simp: ref path_walk_append path_rel_def split: sum.splits)
  qed
qed


lemma path_walk_canonical_id:
  assumes "canonical (a @ b)" and "length (render (a @ b)) < capacity"
  shows "path_walk capacity a b = Inr (a @ b)"
  using assms
proof (induction b arbitrary: a)
  case (Cons c b)
  have all: "canonical ((a @ [c]) @ b)" "length (render ((a @ [c]) @ b)) < capacity" using Cons.prems by simp_all
  have pre: "canonical (a @ [c])" using canonical_take [OF all(1), of "length (a @ [c])"] by simp
  have len: "length (render (a @ [c])) < capacity"
    using length_render_take [of "length (a @ [c])" "(a @ [c]) @ b"] all(2) by simp
  have "plain_component c" using Cons.prems(1) by (rule canonicalD) simp
  then have "path_step capacity a c = Inr (a @ [c])"
    using pre len by (simp add: path_step_def canonical_def plain_component_def)
  then show ?case using Cons.IH [OF all] by simp
qed simp

lemma path_reference_canonical:
  assumes "canonical stack" and "length (render stack) < capacity" and "cchar cwd 0 = SLASH" and "length cwd \<le> IOS_VFS_PATH_MAX"
  shows "path_reference cwd (render stack) capacity = Inr stack"
proof -
  obtain r where r: "render stack = SLASH # r" using render_hd by blast
  have "0 < length (render stack)" by (rule length_render_pos)
  then have "2 \<le> capacity" using assms(2) by linarith
  moreover have "cchar (render stack) 0 = SLASH" by (simp add: r cchar_def)
  moreover have "length (render stack) \<le> 255" using assms(1) by (simp add: canonical_def)
  ultimately show ?thesis
    using assms path_walk_canonical_id [of "[]" stack capacity]
    using canonical_components [OF assms(1)] by (simp add: path_reference_def r)
qed

section \<open>Resolution\<close>

text \<open>
  The driver's lookup takes the driver's state, the identity of a directory and a component.
  Its result is the object it stores; an object kind has one of the two values of the enum.
\<close>

type_synonym 'x vfs_lookup = "'x \<Rightarrow> nat \<Rightarrow> string \<Rightarrow> 'x \<times> ios_vfs_object res"

record ios_vfs_path_context =
  pc_mount :: "nat option"
  pc_current_directory_identity :: nat
  pc_mount_generation :: nat
  pc_current_directory :: string

definition validate_context :: "'c vfs \<Rightarrow> ios_vfs_path_context \<Rightarrow> unit res" where
  "validate_context v context =
     (case pc_mount context of
        None \<Rightarrow> Inl IOS_E_INVALID_STATE
      | Some a \<Rightarrow>
          if vm_root (v_mounts v a) = None \<or> \<not> vm_mounted (v_mounts v a)
             \<or> vm_lifecycle (v_mounts v a) \<noteq> IOS_VFS_MOUNT_ACTIVE
             \<or> pc_mount_generation context \<noteq> vm_generation (v_mounts v a)
             \<or> pc_current_directory_identity context = 0
             \<or> cchar (pc_current_directory context) 0 \<noteq> SLASH
          then Inl IOS_E_INVALID_STATE else Inr ())"

definition vfs_path_context_initialize ::
  "'c vfs \<Rightarrow> ios_vfs_path_context \<Rightarrow> nat \<Rightarrow> ios_vfs_path_context \<times> unit res" where
  "vfs_path_context_initialize v context a =
     (case vm_root (v_mounts v a) of
        None \<Rightarrow> (context, Inl IOS_E_INVALID_ARGUMENT)
      | Some root \<Rightarrow>
          if \<not> vm_mounted (v_mounts v a) \<or> vm_lifecycle (v_mounts v a) \<noteq> IOS_VFS_MOUNT_ACTIVE
             \<or> vo_identity root = 0 \<or> vo_kind root \<noteq> IOS_VFS_OBJECT_DIRECTORY
          then (context, Inl IOS_E_INVALID_ARGUMENT)
          else (\<lparr>pc_mount = Some a, pc_current_directory_identity = vo_identity root,
                 pc_mount_generation = vm_generation (v_mounts v a),
                 pc_current_directory = (pc_current_directory context)[0 := SLASH, 1 := NUL]\<rparr>, Inr ()))"

text \<open>The loop of \<open>resolve_normalized\<close>; the cursor is the rest of the path.\<close>

function resolve_components :: "'x vfs_lookup \<Rightarrow> ios_vfs_object \<Rightarrow> string \<Rightarrow> 'x \<Rightarrow> 'x \<times> ios_vfs_object res" where
  "resolve_components driver_lookup current rest x =
     (if rest = [] then (x, Inr current)
      else if vo_kind current \<noteq> IOS_VFS_OBJECT_DIRECTORY then (x, Inl IOS_E_NOT_FOUND)
      else case driver_lookup x (vo_identity current) (takeWhile (\<lambda>c. c \<noteq> SLASH) rest) of
        (x', Inl e) \<Rightarrow> (x', Inl e)
      | (x', Inr object) \<Rightarrow>
          if vo_identity object = 0
             \<or> (vo_kind object \<noteq> IOS_VFS_OBJECT_DIRECTORY \<and> vo_kind object \<noteq> IOS_VFS_OBJECT_REGULAR_FILE)
          then (x', Inl IOS_E_PROTOCOL)
          else resolve_components driver_lookup object (drop 1 (dropWhile (\<lambda>c. c \<noteq> SLASH) rest)) x')"
  by pat_completeness auto
termination
  by (relation "measure (\<lambda>(driver_lookup, current, rest, x). length rest)")
    (auto intro: le_less_trans [OF diff_le_mono [OF length_dropWhile_le]])

declare resolve_components.simps [simp del]

definition resolve_normalized ::
  "'x vfs_lookup option \<Rightarrow> 'c ios_vfs_mount \<Rightarrow> string \<Rightarrow> 'x \<Rightarrow> 'x \<times> ios_vfs_object res" where
  "resolve_normalized driver_lookup m normalized x =
     (let current = the (vm_root m) in
      if cchar normalized 1 = NUL then (x, Inr current)
      else case driver_lookup of
        None \<Rightarrow> (x, Inl IOS_E_NOT_SUPPORTED)
      | Some lookup \<Rightarrow> resolve_components lookup current (cstring (drop 1 normalized)) x)"

text \<open>
  The local buffer is uninitialised in the code: here it is zero, and normalisation does
  not depend on what it holds. A failing call clears the caller's object.
\<close>

definition local_buffer :: string where "local_buffer = replicate IOS_VFS_PATH_CAPACITY NUL"

definition vfs_path_resolve ::
  "'x vfs_lookup option \<Rightarrow> ios_vfs_path_context \<Rightarrow> string \<Rightarrow> 'c vfs \<Rightarrow> 'x \<Rightarrow> 'c vfs \<times> 'x \<times> ios_vfs_object res" where
  "vfs_path_resolve driver_lookup context path v x =
     (case validate_context v context of
        Inl e \<Rightarrow> (v, x, Inl e)
      | Inr _ \<Rightarrow>
        (case vfs_path_normalize (pc_current_directory context) path local_buffer of
           (normalized, Inl e) \<Rightarrow> (v, x, Inl e)
         | (normalized, Inr _) \<Rightarrow>
             let a = the (pc_mount context) in
             case vfs_mount_begin_operation (v_mounts v a) False of
               (m, Inl e) \<Rightarrow> (set_mount v a m, x, Inl e)
             | (m, Inr _) \<Rightarrow>
               (case resolve_normalized driver_lookup m normalized x of
                  (x', status) \<Rightarrow>
                   (case vfs_mount_end_operation m of
                      (m', end_status) \<Rightarrow>
                        (set_mount v a m', x',
                         case status of Inl e \<Rightarrow> Inl e
                         | Inr object \<Rightarrow> (case end_status of Inl e \<Rightarrow> Inl e | Inr _ \<Rightarrow> Inr object))))))"

definition vfs_path_set_current ::
  "'x vfs_lookup option \<Rightarrow> ios_vfs_path_context \<Rightarrow> string \<Rightarrow> 'c vfs \<Rightarrow> 'x
    \<Rightarrow> 'c vfs \<times> 'x \<times> ios_vfs_path_context \<times> unit res" where
  "vfs_path_set_current driver_lookup context path v x =
     (case validate_context v context of
        Inl e \<Rightarrow> (v, x, context, Inl e)
      | Inr _ \<Rightarrow>
        (case vfs_path_normalize (pc_current_directory context) path local_buffer of
           (normalized, Inl e) \<Rightarrow> (v, x, context, Inl e)
         | (normalized, Inr _) \<Rightarrow>
           (case vfs_path_resolve driver_lookup context normalized v x of
              (v', x', Inl e) \<Rightarrow> (v', x', context, Inl e)
            | (v', x', Inr object) \<Rightarrow>
                if vo_kind object \<noteq> IOS_VFS_OBJECT_DIRECTORY then (v', x', context, Inl IOS_E_INVALID_ARGUMENT)
                else (v', x',
                  context\<lparr>pc_current_directory := overwrite (pc_current_directory context) 0
                            (take IOS_VFS_PATH_CAPACITY (cstring normalized @ [NUL])),
                          pc_current_directory_identity := vo_identity object\<rparr>, Inr ()))))"

definition vfs_path_get_current :: "'c vfs \<Rightarrow> ios_vfs_path_context \<Rightarrow> string \<Rightarrow> string \<times> unit res" where
  "vfs_path_get_current v context path =
     (let capacity = length path in
      if capacity = 0 then (path, Inl IOS_E_INVALID_ARGUMENT)
      else
        let path = path[0 := NUL] in
        case validate_context v context of
          Inl e \<Rightarrow> (path, Inl e)
        | Inr _ \<Rightarrow>
          (case path_length (pc_current_directory context) of
             Inl e \<Rightarrow> (path, Inl e)
           | Inr n \<Rightarrow>
               if capacity \<le> n then (path, Inl IOS_E_OUT_OF_RANGE)
               else (overwrite path 0 (map (cchar (pc_current_directory context)) [0..<n + 1]), Inr ())))"


section \<open>Operations on a mount are balanced\<close>

lemma begin_end_restores:
  assumes "mount_ok g m" and "vfs_mount_begin_operation m mutation = (m', Inr ())"
  shows "vfs_mount_end_operation m' = (m, Inr ())"
proof -
  obtain r where r: "vm_root m = Some r" "vo_reference_count r = vm_active_operations m"
    using assms by (auto simp: mount_ok_def vfs_mount_begin_operation_def split: option.splits if_splits)
  have g: "vm_mounted m" "vm_lifecycle m = IOS_VFS_MOUNT_ACTIVE" "vm_active_operations m < 4294967295"
    and m': "m' = m\<lparr>vm_active_operations := vm_active_operations m + 1,
              vm_root := map_option (\<lambda>r. r\<lparr>vo_reference_count := (vo_reference_count r + 1) mod 2 ^ 32\<rparr>) (vm_root m)\<rparr>"
    using assms by (auto simp: mount_ok_def vfs_mount_begin_operation_def split: if_splits)
  have "(vm_active_operations m + 1) mod 2 ^ 32 = vm_active_operations m + 1" using g(3) by simp
  then show ?thesis using r g unfolding m' by (simp add: vfs_mount_end_operation_def)
qed

lemma begin_fails_restores: "vfs_mount_begin_operation m mutation = (m', Inl e) \<Longrightarrow> m' = m"
  by (auto simp: vfs_mount_begin_operation_def split: if_splits)

lemma set_mount_id: "set_mount v a (v_mounts v a) = v"
  by simp

definition mounts_ok :: "'c vfs \<Rightarrow> bool" where
  "mounts_ok v \<longleftrightarrow> (\<forall>a. mount_ok (mr_next_generation (v_registry v)) (v_mounts v a))"

lemma reachable_mounts_ok: "vfs_reachable v \<Longrightarrow> mounts_ok v"
  using vfs_reachable_ok [of v] by (simp add: vfs_ok_def mounts_ok_def)

section \<open>Reference: a walk along the components\<close>

fun lookup_walk :: "'x vfs_lookup \<Rightarrow> ios_vfs_object \<Rightarrow> string list \<Rightarrow> 'x \<Rightarrow> 'x \<times> ios_vfs_object res" where
  "lookup_walk lookup object [] x = (x, Inr object)"
| "lookup_walk lookup object (c # cs) x =
     (if vo_kind object \<noteq> IOS_VFS_OBJECT_DIRECTORY then (x, Inl IOS_E_NOT_FOUND)
      else case lookup x (vo_identity object) c of
        (x', Inl e) \<Rightarrow> (x', Inl e)
      | (x', Inr object') \<Rightarrow>
          if vo_identity object' = 0 then (x', Inl IOS_E_PROTOCOL) else lookup_walk lookup object' cs x')"

definition object_at ::
  "'x vfs_lookup option \<Rightarrow> 'c ios_vfs_mount \<Rightarrow> string list \<Rightarrow> 'x \<Rightarrow> 'x \<times> ios_vfs_object res" where
  "object_at driver_lookup m stack x =
     (case vfs_mount_begin_operation m False of
        (m', Inl e) \<Rightarrow> (x, Inl e)
      | (m', Inr _) \<Rightarrow>
          if stack = [] then (x, Inr (the (vm_root m')))
          else case driver_lookup of
            None \<Rightarrow> (x, Inl IOS_E_NOT_SUPPORTED)
          | Some lookup \<Rightarrow> lookup_walk lookup (the (vm_root m')) stack x)"

lemma resolve_components_walk:
  "(\<forall>c \<in> set stack. c \<noteq> [] \<and> SLASH \<notin> set c) \<Longrightarrow>
    resolve_components lookup object (if stack = [] then [] else drop 1 (render stack)) x = lookup_walk lookup object stack x"
proof (induction stack arbitrary: object x)
  case Nil
  then show ?case by (simp add: resolve_components.simps)
next
  case (Cons c stack)
  let ?t = "if stack = [] then [] else render stack"
  have rest: "drop 1 (render (c # stack)) = c @ ?t" by (simp add: render_Cons)
  have t: "?t = [] \<or> hd ?t = SLASH" using render_hd [of stack] by auto
  have c: "c \<noteq> []" "\<And>b. b \<in> set c \<Longrightarrow> b \<noteq> SLASH" using Cons.prems by auto
  have take: "takeWhile (\<lambda>c. c \<noteq> SLASH) (c @ ?t) = c" and drop: "dropWhile (\<lambda>c. c \<noteq> SLASH) (c @ ?t) = ?t"
    using c(2) t by (cases ?t; simp add: takeWhile_append2 dropWhile_append2)+
  have tail: "drop 1 ?t = (if stack = [] then [] else drop 1 (render stack))" by simp
  have IH: "resolve_components lookup object' (drop 1 ?t) y = lookup_walk lookup object' stack y" for object' y
    unfolding tail using Cons.IH Cons.prems by simp
  have kind: "(k \<noteq> IOS_VFS_OBJECT_DIRECTORY \<and> k \<noteq> IOS_VFS_OBJECT_REGULAR_FILE) = False" for k by (cases k) auto
  show ?case
    unfolding rest if_not_P [OF list.distinct(2)] resolve_components.simps [of lookup object "c @ ?t"] take drop IH kind
    using c(1) by (simp split: prod.splits sum.splits)
qed

lemma resolve_normalized_walk:
  assumes "cstring normalized = render stack" and "canonical stack"
  shows "resolve_normalized driver_lookup m normalized x =
    (if stack = [] then (x, Inr (the (vm_root m)))
     else case driver_lookup of None \<Rightarrow> (x, Inl IOS_E_NOT_SUPPORTED)
       | Some lookup \<Rightarrow> lookup_walk lookup (the (vm_root m)) stack x)"
proof -
  have ok: "\<forall>c \<in> set stack. c \<noteq> [] \<and> SLASH \<notin> set c" using assms(2) by (blast dest: canonicalD plain_componentD)
  obtain r where r: "render stack = SLASH # r" using render_hd by blast
  then obtain n where n: "normalized = SLASH # n" "cstring n = r"
    using assms(1) by (cases normalized) (auto simp: cstring_def split: if_splits)
  have "cchar normalized 1 = cchar n 0" by (simp add: n(1) cchar_def)
  also have "\<dots> = cchar r 0" using cchar_cstring_0 [of n] n(2) by simp
  finally have c: "cchar normalized 1 = cchar r 0" .
  have nul: "cchar r 0 = NUL \<longleftrightarrow> stack = []"
  proof (cases "stack = []")
    case False
    then have "r \<noteq> []" using render_length_1 [of stack] ok r by auto
    moreover have "NUL \<notin> set r" using canonical_no_nul [OF assms(2)] r by simp
    ultimately show ?thesis using False by (cases r) (auto simp: cchar_def)
  qed (use r in \<open>simp add: cchar_def\<close>)
  have walk: "resolve_components lookup object r x = lookup_walk lookup object stack x" if "stack \<noteq> []" for lookup object
    using resolve_components_walk [OF ok, of lookup object x] that r by simp
  show ?thesis
    unfolding resolve_normalized_def Let_def c nul using walk n by (simp split: option.split)
qed

lemma validate_contextD:
  assumes "validate_context v context = Inr ()"
  obtains a where "pc_mount context = Some a" "vm_mounted (v_mounts v a)" "vm_lifecycle (v_mounts v a) = IOS_VFS_MOUNT_ACTIVE"
    "pc_mount_generation context = vm_generation (v_mounts v a)"
    "cchar (pc_current_directory context) 0 = SLASH"
  using assms by (auto simp: validate_context_def split: option.splits if_splits)

lemma validate_context_error: "validate_context v context = Inl e \<Longrightarrow> e = IOS_E_INVALID_STATE"
  by (auto simp: validate_context_def split: option.splits if_splits)


lemma length_local_buffer [simp]: "length local_buffer = 256"
  by (simp add: local_buffer_def)

text \<open>A context holds a directory in canonical form.\<close>

definition context_path :: "ios_vfs_path_context \<Rightarrow> string list \<Rightarrow> bool" where
  "context_path context stack \<longleftrightarrow> length (pc_current_directory context) = IOS_VFS_PATH_CAPACITY
     \<and> canonical stack \<and> cstring (pc_current_directory context) = render stack"

abbreviation path_target :: "ios_vfs_path_context \<Rightarrow> string \<Rightarrow> string list res" where
  "path_target context path \<equiv> path_reference (cstring (pc_current_directory context)) (cstring path) IOS_VFS_PATH_CAPACITY"

lemma normalize_local_error:
  assumes "path_target context path = Inl e"
  obtains b where "vfs_path_normalize (pc_current_directory context) path local_buffer = (b, Inl e)"
proof -
  obtain b r where n: "vfs_path_normalize (pc_current_directory context) path local_buffer = (b, r)" by fastforce
  have "r = Inl e" using normalize_refines [OF n] assms by simp
  then show ?thesis using n that by simp
qed

lemma normalize_local_ok:
  assumes "path_target context path = Inr stack"
  obtains b where "vfs_path_normalize (pc_current_directory context) path local_buffer = (b, Inr ())"
    and "cstring b = render stack" and "canonical stack"
proof -
  obtain b r where n: "vfs_path_normalize (pc_current_directory context) path local_buffer = (b, r)" by fastforce
  have "r = Inr () \<and> cstring b = render stack \<and> canonical stack" using normalize_refines [OF n] assms by simp
  then show ?thesis using n that by simp
qed

lemma vfs_path_resolve_eq:
  assumes ok: "mounts_ok v"
  shows "vfs_path_resolve driver_lookup context path v x =
    (case validate_context v context of
       Inl e \<Rightarrow> (v, x, Inl e)
     | Inr _ \<Rightarrow> (case path_target context path of
         Inl e \<Rightarrow> (v, x, Inl e)
       | Inr stack \<Rightarrow> (v, object_at driver_lookup (v_mounts v (the (pc_mount context))) stack x)))"
proof (cases "validate_context v context")
  case valid: (Inr u)
  define m where "m = v_mounts v (the (pc_mount context))"
  have m: "mount_ok (mr_next_generation (v_registry v)) m" using ok by (simp add: m_def mounts_ok_def)
  show ?thesis
  proof (cases "path_target context path")
    case (Inl e)
    then show ?thesis using valid by (auto elim: normalize_local_error simp: vfs_path_resolve_def)
  next
    case (Inr stack)
    obtain b where b: "vfs_path_normalize (pc_current_directory context) path local_buffer = (b, Inr ())"
      "cstring b = render stack" "canonical stack" using normalize_local_ok [OF Inr] by blast
    note walk = resolve_normalized_walk [OF b(2,3)]
    obtain m' r where bg: "vfs_mount_begin_operation m False = (m', r)" by fastforce
    show ?thesis
    proof (cases r)
      case (Inl e)
      then have "m' = m" using bg begin_fails_restores by blast
      then show ?thesis using bg Inl valid Inr b(1)
        by (simp add: vfs_path_resolve_def object_at_def m_def [symmetric]) (simp add: m_def)
    next
      case (Inr u)
      then have e: "vfs_mount_end_operation m' = (m, Inr ())" using begin_end_restores [OF m] bg by simp
      show ?thesis using bg Inr \<open>path_target context path = Inr stack\<close> valid b(1) e
        by (simp add: vfs_path_resolve_def object_at_def walk m_def [symmetric] split: prod.split option.split sum.split)
          (simp add: m_def)
    qed
  qed
qed (simp add: vfs_path_resolve_def)


lemma vfs_path_resolve_canonical:
  assumes ok: "mounts_ok v" and valid: "validate_context v context = Inr ()" and "canonical stack"
    and "cstring path = render stack" and len: "length (cstring (pc_current_directory context)) \<le> IOS_VFS_PATH_MAX"
  shows "vfs_path_resolve driver_lookup context path v x =
    (v, object_at driver_lookup (v_mounts v (the (pc_mount context))) stack x)"
proof -
  have "cchar (cstring (pc_current_directory context)) 0 = SLASH"
    using valid by (auto elim: validate_contextD simp: cchar_cstring_0 [symmetric])
  then have "path_target context path = Inr stack"
    using path_reference_canonical [OF assms(3), of 256] assms(3,4) len by (simp add: canonical_def)
  then show ?thesis using valid by (simp add: vfs_path_resolve_eq [OF ok])
qed

lemma target_length: "path_target context path = Inr stack \<Longrightarrow> length (cstring (pc_current_directory context)) \<le> IOS_VFS_PATH_MAX"
  by (auto simp: path_reference_def split: if_splits)

lemma cstring_overwrite:
  assumes "canonical stack" and "length buf = 256"
  shows "cstring (overwrite buf 0 (take 256 (render stack @ [NUL]))) = render stack"
    and "length (overwrite buf 0 (take 256 (render stack @ [NUL]))) = 256"
proof -
  have l: "length (render stack) < 256" using assms(1) by (simp add: canonical_def)
  then have t: "take 256 (render stack @ [NUL]) = render stack @ [NUL]" by simp
  have o: "overwrite buf 0 (render stack @ [NUL]) = render stack @ NUL # drop (Suc (length (render stack))) buf"
    by (simp add: overwrite_def)
  show "length (overwrite buf 0 (take 256 (render stack @ [NUL]))) = 256"
    unfolding t using l assms(2) by simp
  show "cstring (overwrite buf 0 (take 256 (render stack @ [NUL]))) = render stack"
    unfolding t o using canonical_no_nul [OF assms(1)] unfolding cstring_def by (subst takeWhile_append2) auto
qed

lemma path_walk_fits:
  "path_walk capacity stack cs = Inr stack' \<Longrightarrow> length (render stack) < capacity \<Longrightarrow> length (render stack') < capacity"
proof (induction cs arbitrary: stack)
  case (Cons c cs)
  then obtain t where t: "path_step capacity stack c = Inr t" "path_walk capacity t cs = Inr stack'"
    by (auto split: sum.splits)
  have "length (render (butlast stack)) < capacity"
    using Cons.prems(2) length_render_take [of "length stack - 1" stack] by (simp add: butlast_conv_take)
  then have "length (render t) < capacity"
    using t(1) Cons.prems(2) by (auto simp: path_step_def split: if_splits)
  then show ?case by (rule Cons.IH [OF t(2)])
qed simp

lemma path_reference_fits:
  "path_reference current_directory path capacity = Inr stack \<Longrightarrow> length (render stack) < capacity"
  unfolding path_reference_def by (rule path_walk_fits [of capacity "[]"]) (auto split: if_splits)

section \<open>Stale contexts\<close>

text \<open>The mount at \<open>a\<close> is not the one that was mounted with generation \<open>g\<close>, and never will be.\<close>

definition generation_gone :: "nat \<Rightarrow> nat \<Rightarrow> 'c vfs \<Rightarrow> bool" where
  "generation_gone a g v \<longleftrightarrow> g < mr_next_generation (v_registry v)
     \<and> (vm_mounted (v_mounts v a) \<longrightarrow> vm_generation (v_mounts v a) \<noteq> g)"

lemma gone_set:
  "generation_gone a g v \<Longrightarrow> vm_mounted m = vm_mounted (v_mounts v b) \<Longrightarrow> vm_generation m = vm_generation (v_mounts v b)
    \<Longrightarrow> generation_gone a g (set_mount v b m)"
  by (auto simp: generation_gone_def)

lemma gone_step:
  assumes "vfs_step v v'" and "vfs_ok v" and "generation_gone a g v"
  shows "generation_gone a g v'"
  using assms
proof (induction rule: vfs_step.induct)
  case (step_mount v b path v' r)
  then show ?case
    by (auto simp: vfs_mount_root_def generation_gone_def Let_def split: if_splits)
next
  case (step_unmount v v' r)
  show ?case
    using unmount_cases [OF step_unmount(1,2)] step_unmount(3)
  proof (elim disjE exE conjE)
    fix b :: nat and m :: "'a ios_vfs_mount"
    assume "v' = set_mount v b m" "vm_mounted (v_mounts v b)" "vm_mounted m" "vm_generation m = vm_generation (v_mounts v b)"
    then show ?thesis using gone_set [OF step_unmount(3)] by simp
  qed (auto simp: generation_gone_def)
next
  case (step_begin v b mutation m r)
  then show ?case
    by (intro gone_set) (auto simp: vfs_mount_begin_operation_def split: if_splits)
next
  case (step_end v b m r)
  then show ?case
    by (intro gone_set) (auto simp: vfs_mount_end_operation_def split: if_splits)
next
  case (step_configure v b c sync invl m r)
  then show ?case
    by (intro gone_set) (auto simp: vfs_mount_configure_unmount_def split: if_splits)
qed

lemma gone_steps: "vfs_step\<^sup>*\<^sup>* v v' \<Longrightarrow> vfs_ok v \<Longrightarrow> generation_gone a g v \<Longrightarrow> vfs_ok v' \<and> generation_gone a g v'"
  by (induction rule: rtranclp_induct) (auto intro: gone_step vfs_step_ok)

section \<open>Properties\<close>

text \<open>C32: Normalisation computes, in place in the caller's buffer, what the reference computes on lists of
  components: empty components and \<open>.\<close> vanish, \<open>..\<close> drops the last component and nothing at the
  root, and the errors (no absolute current directory, a string or a result that is too long, more than
  fifteen levels, a control character, DEL or a backslash in a component, no path, no room) are found
  in the same order. What the buffer held before has no influence; a failure leaves the empty string.\<close>

theorem path_normalize_exact:
  assumes "vfs_path_normalize current_directory path buffer = (buffer', status)"
  shows "length buffer' = length buffer \<and>
    (case path_reference (cstring current_directory) (cstring path) (length buffer) of
       Inl e \<Rightarrow> status = Inl e \<and> cstring buffer' = []
     | Inr stack \<Rightarrow> status = Inr () \<and> cstring buffer' = render stack)"
  using normalize_refines [OF assms] by (auto split: sum.splits)

text \<open>A normalised path is canonical: it is the rendering of at most fifteen components, at most 255
  characters long, none of them empty, \<open>.\<close> or \<open>..\<close>, so that it never leaves the root; and normalising
  it again, from any current directory, gives the same path.\<close>

theorem path_normalize_idempotent:
  assumes "vfs_path_normalize current_directory path buffer = (normalized, Inr ())"
    and "cchar other 0 = SLASH" and "length (cstring other) \<le> IOS_VFS_PATH_MAX"
    and "vfs_path_normalize other normalized buffer2 = (normalized2, status)" and "length buffer \<le> length buffer2"
  shows "(\<exists>stack. canonical stack \<and> cstring normalized = render stack) \<and> status = Inr () \<and> cstring normalized2 = cstring normalized"
proof -
  obtain stack where st: "path_reference (cstring current_directory) (cstring path) (length buffer) = Inr stack"
    "cstring normalized = render stack" "canonical stack" and l: "length normalized = length buffer"
    using normalize_refines [OF assms(1)] by (auto split: sum.splits)
  have fits: "length (render stack) < length buffer" using path_reference_fits [OF st(1)] .
  have "cchar (cstring other) 0 = SLASH" using assms(2) by (simp add: cchar_cstring_0 [symmetric])
  then have "path_reference (cstring other) (cstring normalized) (length buffer2) = Inr stack"
    unfolding st(2) using path_reference_canonical [OF st(3) _ _ assms(3), of "length buffer2"] fits assms(5) by simp
  then show ?thesis using normalize_refines [OF assms(4)] st by auto
qed


text \<open>C33: For a context that is valid, resolution is the walk from the root object along the components of the
  normalised path, one lookup in the directory reached so far for each component; it stops at the first
  error, at a component below a file and at an object without identity. The mount, with its
  count of operations, is left as it was found.\<close>

theorem path_resolve_exact:
  assumes "vfs_reachable v" and "validate_context v context = Inr ()"
  shows "vfs_path_resolve driver_lookup context path v x =
    (case path_target context path of
       Inl e \<Rightarrow> (v, x, Inl e)
     | Inr stack \<Rightarrow> (v, object_at driver_lookup (v_mounts v (the (pc_mount context))) stack x))"
  using assms(2) by (simp add: vfs_path_resolve_eq [OF reachable_mounts_ok [OF assms(1)]])

text \<open>Changing the current directory stores exactly the normalised path and the identity of the directory it
  resolves to; when it fails, and in particular when the path names a file, the context is as it was.\<close>

theorem path_set_current_exact:
  assumes "vfs_reachable v" and "context_path context old"
    and "vfs_path_set_current driver_lookup context path v x = (v', x', context', status)"
  shows "v' = v \<and> (case status of
      Inl e \<Rightarrow> context' = context
    | Inr _ \<Rightarrow> (\<exists>stack object. path_target context path = Inr stack
        \<and> object_at driver_lookup (v_mounts v (the (pc_mount context))) stack x = (x', Inr object)
        \<and> vo_kind object = IOS_VFS_OBJECT_DIRECTORY \<and> pc_current_directory_identity context' = vo_identity object
        \<and> pc_mount context' = pc_mount context \<and> pc_mount_generation context' = pc_mount_generation context
        \<and> context_path context' stack))"
proof (cases "validate_context v context")
  case (Inl e)
  then have "v' = v \<and> context' = context \<and> status = Inl e" using assms(3) by (simp add: vfs_path_set_current_def)
  then show ?thesis by simp
next
  case valid: (Inr u)
  note ok = reachable_mounts_ok [OF assms(1)]
  let ?m = "v_mounts v (the (pc_mount context))"
  show ?thesis
  proof (cases "path_target context path")
    case (Inl e)
    then obtain b where "vfs_path_normalize (pc_current_directory context) path local_buffer = (b, Inl e)"
      by (rule normalize_local_error)
    then have "v' = v \<and> context' = context \<and> status = Inl e"
      using assms(3) valid by (simp add: vfs_path_set_current_def)
    then show ?thesis by simp
  next
    case (Inr stack)
    then obtain b where b: "vfs_path_normalize (pc_current_directory context) path local_buffer = (b, Inr ())"
      "cstring b = render stack" "canonical stack" by (rule normalize_local_ok)
    have run: "vfs_path_resolve driver_lookup context b v x = (v, object_at driver_lookup ?m stack x)"
      using vfs_path_resolve_canonical [OF ok _ b(3,2) target_length [OF Inr]] valid by simp
    obtain y st where y: "object_at driver_lookup ?m stack x = (y, st)" by fastforce
    show ?thesis
    proof (cases "\<exists>object. st = Inr object \<and> vo_kind object = IOS_VFS_OBJECT_DIRECTORY")
      case False
      then show ?thesis using assms(3) valid b run y
        by (auto simp: vfs_path_set_current_def split: sum.splits if_splits)
    next
      case True
      then obtain object where obj: "st = Inr object" "vo_kind object = IOS_VFS_OBJECT_DIRECTORY" by blast
      define cd where "cd = overwrite (pc_current_directory context) 0 (take 256 (render stack @ [NUL]))"
      have cd: "cstring cd = render stack" "length cd = 256"
        unfolding cd_def using cstring_overwrite [OF b(3)] assms(2) by (simp_all add: context_path_def)
      have res: "v' = v" "x' = y" "status = Inr ()"
        "context' = context\<lparr>pc_current_directory := cd, pc_current_directory_identity := vo_identity object\<rparr>"
        using assms(3) valid b run y obj by (simp_all add: vfs_path_set_current_def cd_def)
      show ?thesis using res Inr y obj cd b(3) by (auto simp: context_path_def)
    qed
  qed
qed

text \<open>The current directory that a caller reads back is the path of the context, whenever its buffer has
  room for the path and the terminator.\<close>

theorem path_get_current_exact:
  assumes "validate_context v context = Inr ()" and "context_path context stack"
    and "vfs_path_get_current v context buffer = (buffer', status)" and "0 < length buffer"
  shows "if length (render stack) < length buffer then status = Inr () \<and> cstring buffer' = render stack
    else status = Inl IOS_E_OUT_OF_RANGE \<and> cstring buffer' = []"
proof -
  let ?cd = "pc_current_directory context" and ?n = "length (render stack)"
  have cs: "cstring ?cd = render stack" and can: "canonical stack" using assms(2) by (simp_all add: context_path_def)
  have n: "?n \<le> 255" using can by (simp add: canonical_def)
  then have len: "path_length ?cd = Inr ?n" by (simp add: path_length_cstring cs)
  have "?n < length ?cd" using n assms(2) by (simp add: context_path_def)
  then have nul: "cchar ?cd ?n = NUL"
    using nth_length_takeWhile [of "\<lambda>c. c \<noteq> NUL" ?cd] cs by (simp add: cchar_def cstring_def)
  have "map (cchar ?cd) [0..<?n] = take ?n ?cd"
    using \<open>?n < length ?cd\<close> by (intro nth_equalityI) (auto simp: cchar_def)
  then have bytes: "map (cchar ?cd) [0..<?n + 1] = render stack @ [NUL]"
    using nul take_cstring [of ?cd] by (simp add: cs)
  show ?thesis
  proof (cases "?n < length buffer")
    case True
    then have "buffer' = overwrite (buffer[0 := NUL]) 0 (render stack @ [NUL])" "status = Inr ()"
      using assms(1,3,4) bytes len by (auto simp: vfs_path_get_current_def Let_def)
    moreover have "cstring (overwrite (buffer[0 := NUL]) 0 (render stack @ [NUL])) = render stack"
      using canonical_no_nul [OF can] unfolding cstring_def overwrite_def by (simp, subst takeWhile_append2) auto
    ultimately show ?thesis using True by simp
  next
    case False
    then show ?thesis using assms(1,3,4) len cstring_cut [of buffer] by (auto simp: vfs_path_get_current_def Let_def)
  qed
qed

text \<open>A context never outlives the mount it was made for: once the root has been unmounted, the context is
  refused in every later state, also when the same mount has been mounted again.\<close>

theorem path_context_stale:
  assumes "vfs_reachable v" and "validate_context v context = Inr ()" and "mr_root (v_registry v) = pc_mount context"
    and "vfs_unmount_root v = (v1, Inr ())" and "vfs_step\<^sup>*\<^sup>* v1 v2"
  shows "validate_context v2 context = Inl IOS_E_INVALID_STATE"
proof -
  have ok: "vfs_ok v" using assms(1) by (rule vfs_reachable_ok)
  obtain a where a: "pc_mount context = Some a" "vm_mounted (v_mounts v a)" "pc_mount_generation context = vm_generation (v_mounts v a)"
    using assms(2) by (auto elim: validate_contextD)
  have "vm_generation (v_mounts v a) < mr_next_generation (v_registry v)"
    using ok a(2) by (auto simp: vfs_ok_def mount_ok_def)
  then have "generation_gone a (pc_mount_generation context) v1"
    using unmount_cases [OF assms(4) ok] a assms(3) by (auto simp: generation_gone_def)
  then have "generation_gone a (pc_mount_generation context) v2"
    using gone_steps [OF assms(5) unmount_ok [OF ok assms(4)]] by blast
  then show ?thesis using a by (auto simp: validate_context_def generation_gone_def)
qed


section \<open>Witnesses\<close>

lemma reference_sample:
  "path_reference ''/DOCS'' ''../a//./b/'' 256 = Inr [''a'', ''b'']"
  by (simp add: path_reference_def path_components_def path_step_def render_def cchar_def invalid_path_byte_def)

lemma cstring_samples:
  "cstring ''/DOCS'' = ''/DOCS''" "cstring ''../a//./b/'' = ''../a//./b/''" "cstring ''/'' = ''/''" "cstring ''/a/b'' = ''/a/b''"
  by (simp_all add: cstring_def)

theorem path_normalize_exact_witness:
  "cstring (fst (vfs_path_normalize ''/DOCS'' ''../a//./b/'' local_buffer)) = ''/a/b''"
  using path_normalize_exact [of "''/DOCS''" "''../a//./b/''" local_buffer, OF prod.collapse [symmetric]]
  by (simp add: cstring_samples reference_sample render_def)

lemma normalize_sample:
  "\<exists>b. vfs_path_normalize ''/DOCS'' ''../a//./b/'' local_buffer = (b, Inr ()) \<and> cstring b = ''/a/b''"
proof -
  obtain b r where n: "vfs_path_normalize ''/DOCS'' ''../a//./b/'' local_buffer = (b, r)" by fastforce
  show ?thesis using normalize_refines [OF n] n by (simp add: cstring_samples reference_sample render_def)
qed

theorem path_normalize_idempotent_witness:
  "\<exists>b. vfs_path_normalize ''/DOCS'' ''../a//./b/'' local_buffer = (b, Inr ())
     \<and> snd (vfs_path_normalize ''/'' b local_buffer) = Inr ()
     \<and> cstring (fst (vfs_path_normalize ''/'' b local_buffer)) = ''/a/b''"
proof -
  obtain b where b: "vfs_path_normalize ''/DOCS'' ''../a//./b/'' local_buffer = (b, Inr ())" "cstring b = ''/a/b''"
    using normalize_sample by blast
  have "cchar ''/'' 0 = SLASH" "length (cstring ''/'') \<le> 255" by (simp_all add: cchar_def cstring_def)
  note path_normalize_idempotent [OF b(1) this prod.collapse [symmetric], of local_buffer]
  then show ?thesis using b by auto
qed

text \<open>A driver with one directory, \<open>DOCS\<close> with identity 3, in the root, and a context for its mount.\<close>

definition sample_lookup :: "unit vfs_lookup" where
  "sample_lookup x directory component =
     (if directory = 2 \<and> component = ''DOCS''
      then (x, Inr \<lparr>vo_identity = 3, vo_kind = IOS_VFS_OBJECT_DIRECTORY, vo_reference_count = 0\<rparr>)
      else (x, Inl IOS_E_NOT_FOUND))"

definition sample_context :: ios_vfs_path_context where
  "sample_context = fst (vfs_path_context_initialize sample_mounted
     \<lparr>pc_mount = None, pc_current_directory_identity = 0, pc_mount_generation = 0, pc_current_directory = local_buffer\<rparr> 0)"

lemmas sample_defs = sample_mounted_def vfs_mount_root_def sample_vfs_def sample_mount_def
  vfs_mount_registry_initialize_def Let_def

lemma sample_context_eq:
  "sample_context = \<lparr>pc_mount = Some 0, pc_current_directory_identity = 2, pc_mount_generation = 1,
     pc_current_directory = local_buffer[0 := SLASH, 1 := NUL]\<rparr>"
  by (simp add: sample_context_def vfs_path_context_initialize_def sample_defs)

lemma sample_cd: "cstring (local_buffer[0 := SLASH, 1 := NUL]) = ''/''" "cchar (local_buffer[0 := SLASH, 1 := NUL]) 0 = SLASH"
proof -
  have b: "local_buffer[0 := SLASH, 1 := NUL] = SLASH # NUL # replicate 254 NUL"
    by (simp add: local_buffer_def numeral_eq_Suc)
  show "cstring (local_buffer[0 := SLASH, 1 := NUL]) = ''/''" unfolding b by (simp add: cstring_def)
  show "cchar (local_buffer[0 := SLASH, 1 := NUL]) 0 = SLASH" unfolding b by (simp add: cchar_def)
qed

lemma sample_valid: "validate_context sample_mounted sample_context = Inr ()"
  using sample_cd(2) by (simp add: validate_context_def sample_context_eq sample_defs)

lemma sample_context_path: "context_path sample_context []"
  using sample_cd(1) by (simp add: context_path_def sample_context_eq)

lemma sample_target: "path_target sample_context ''DOCS/.'' = Inr [''DOCS'']"
  using sample_cd(1)
  by (simp add: sample_context_eq)
    (simp add: cstring_def path_reference_def path_components_def path_step_def render_def cchar_def invalid_path_byte_def)

lemma sample_object_at:
  "object_at (Some sample_lookup) (v_mounts sample_mounted 0) [''DOCS''] () =
     ((), Inr \<lparr>vo_identity = 3, vo_kind = IOS_VFS_OBJECT_DIRECTORY, vo_reference_count = 0\<rparr>)"
  by (simp add: object_at_def sample_defs vfs_mount_begin_operation_def sample_lookup_def)

theorem path_resolve_exact_witness:
  "vfs_path_resolve (Some sample_lookup) sample_context ''DOCS/.'' sample_mounted () =
     (sample_mounted, (), Inr \<lparr>vo_identity = 3, vo_kind = IOS_VFS_OBJECT_DIRECTORY, vo_reference_count = 0\<rparr>)"
  using path_resolve_exact [OF sample_reachable sample_valid, of "Some sample_lookup" "''DOCS/.''" "()"] sample_object_at
  by (simp add: sample_target) (simp add: sample_context_eq)

lemma sample_set_current:
  "\<exists>context. vfs_path_set_current (Some sample_lookup) sample_context ''DOCS/.'' sample_mounted () = (sample_mounted, (), context, Inr ())"
proof -
  obtain b where b: "vfs_path_normalize (pc_current_directory sample_context) ''DOCS/.'' local_buffer = (b, Inr ())"
    "cstring b = render [''DOCS'']" "canonical [''DOCS'']" using normalize_local_ok [OF sample_target] by blast
  have "vfs_path_resolve (Some sample_lookup) sample_context b sample_mounted () =
    (sample_mounted, object_at (Some sample_lookup) (v_mounts sample_mounted 0) [''DOCS''] ())"
    using vfs_path_resolve_canonical [OF reachable_mounts_ok [OF sample_reachable] sample_valid b(3,2) target_length [OF sample_target]]
    by (simp add: sample_context_eq)
  then show ?thesis using b(1) sample_valid by (simp add: vfs_path_set_current_def sample_object_at)
qed

theorem path_set_current_exact_witness:
  "\<exists>context. vfs_path_set_current (Some sample_lookup) sample_context ''DOCS/.'' sample_mounted () = (sample_mounted, (), context, Inr ())
     \<and> context_path context [''DOCS''] \<and> pc_current_directory_identity context = 3"
proof -
  obtain c where c: "vfs_path_set_current (Some sample_lookup) sample_context ''DOCS/.'' sample_mounted () = (sample_mounted, (), c, Inr ())"
    using sample_set_current by blast
  show ?thesis
    using path_set_current_exact [OF sample_reachable sample_context_path c] c sample_object_at
    by (auto simp: sample_target) (auto simp: sample_context_eq)
qed

theorem path_get_current_exact_witness:
  "cstring (fst (vfs_path_get_current sample_mounted sample_context ''xyz'')) = ''/''"
  using path_get_current_exact [OF sample_valid sample_context_path prod.collapse [symmetric], of "''xyz''"]
  by simp

theorem path_context_stale_witness:
  "validate_context (fst (vfs_unmount_root sample_mounted)) sample_context = Inl IOS_E_INVALID_STATE"
proof -
  have r: "mr_root (v_registry sample_mounted) = pc_mount sample_context"
    by (simp add: sample_mounted_root sample_context_eq)
  have "snd (vfs_unmount_root sample_mounted) = Inr ()"
    by (simp add: vfs_unmount_root_def sample_defs run_unmount_sync_def run_unmount_invalidate_def)
  then have "vfs_unmount_root sample_mounted = (fst (vfs_unmount_root sample_mounted), Inr ())" by (simp add: prod_eq_iff)
  from path_context_stale [OF sample_reachable sample_valid r this rtranclp.rtrancl_refl] show ?thesis .
qed

end
