(* ===== verification/Vfs_Operations.thy ===== *)
theory Vfs_Operations
  imports Vfs_Path
begin

text \<open>
  Directories and files of the virtual file system (directory.c, file.c): the operations on
  paths, which split a normalised path into a parent and a last component, resolve the
  parent and call the driver, and the operations on objects by identity. Each call of the driver
  stands between the begin and the end of an operation on the mount. The driver's callbacks are the
  function pointers of \<open>struct ios_vfs_mount\<close>, functions on the driver's state that may be absent.
  The locale \<open>mount_call\<close> states what every operation promises to the mount life cycle.
\<close>

section \<open>Drivers\<close>

record ios_vfs_directory_entry =
  de_display_base_name :: string
  de_object_identity :: nat
  de_internal_type_identity :: nat
  de_type_prefilter :: nat
  de_byte_size :: nat
  de_allowed_operations :: nat
  de_generic_attributes :: nat
  de_kind :: ios_vfs_object_kind

record ios_vfs_search_result =
  sr_display_path :: string
  sr_object_identity :: nat
  sr_display_path_length :: nat

record 'x ios_vfs_driver =
  vd_enumerate :: "('x \<Rightarrow> nat \<Rightarrow> nat \<Rightarrow> nat \<Rightarrow> 'x \<times> (ios_vfs_directory_entry list \<times> nat) res) option"
  vd_lookup :: "'x vfs_lookup option"
  vd_create_directory :: "('x \<Rightarrow> nat \<Rightarrow> string \<Rightarrow> 'x \<times> ios_vfs_object res) option"
  vd_create_file :: "('x \<Rightarrow> nat \<Rightarrow> string \<Rightarrow> 'x \<times> ios_vfs_object res) option"
  vd_remove_directory :: "('x \<Rightarrow> nat \<Rightarrow> string \<Rightarrow> 'x \<times> unit res) option"
  vd_rename :: "('x \<Rightarrow> nat \<Rightarrow> string \<Rightarrow> nat \<Rightarrow> string \<Rightarrow> 'x \<times> unit res) option"
  vd_search_extension :: "('x \<Rightarrow> string \<Rightarrow> nat \<Rightarrow> 'x \<times> (ios_vfs_search_result list \<times> nat \<times> bool) res) option"
  vd_read_object :: "('x \<Rightarrow> nat \<Rightarrow> nat \<Rightarrow> nat \<Rightarrow> 'x \<times> (bytes \<times> nat \<times> bool) res) option"
  vd_replace_object :: "('x \<Rightarrow> nat \<Rightarrow> bytes \<Rightarrow> 'x \<times> unit res) option"
  vd_append_object :: "('x \<Rightarrow> nat \<Rightarrow> bytes \<Rightarrow> 'x \<times> unit res) option"
  vd_remove_object :: "('x \<Rightarrow> nat \<Rightarrow> 'x \<times> unit res) option"
  vd_rename_object :: "('x \<Rightarrow> nat \<Rightarrow> nat \<Rightarrow> string \<Rightarrow> 'x \<times> unit res) option"

section \<open>Shared steps\<close>

record path_leaf =
  pl_normalized :: string
  pl_parent :: string
  pl_component :: string

definition last_slash :: "string \<Rightarrow> nat" where
  "last_slash s = foldl (\<lambda>slash i. if s ! i = SLASH then i else slash) 0 [0..<length s]"

definition split_path :: "ios_vfs_path_context \<Rightarrow> string \<Rightarrow> path_leaf res" where
  "split_path context path =
     (case vfs_path_normalize (pc_current_directory context) path local_buffer of
        (buffer, Inl e) \<Rightarrow> Inl e
      | (buffer, Inr _) \<Rightarrow>
          let normalized = cstring buffer; slash = last_slash normalized in
          if length normalized = 1 then Inl IOS_E_INVALID_ARGUMENT
          else Inr \<lparr>pl_normalized = normalized,
                    pl_parent = (if slash = 0 then [SLASH] else take slash normalized),
                    pl_component = drop (slash + 1) normalized\<rparr>)"

definition resolve_parent ::
  "'x ios_vfs_driver \<Rightarrow> ios_vfs_path_context \<Rightarrow> path_leaf \<Rightarrow> 'c vfs \<Rightarrow> 'x \<Rightarrow> 'c vfs \<times> 'x \<times> ios_vfs_object res" where
  "resolve_parent d context leaf v x =
     (case vfs_path_resolve (vd_lookup d) context (pl_parent leaf) v x of
        (v', x', Inl e) \<Rightarrow> (v', x', Inl e)
      | (v', x', Inr parent) \<Rightarrow>
          (v', x', if vo_kind parent = IOS_VFS_OBJECT_DIRECTORY then Inr parent else Inl IOS_E_NOT_FOUND))"

definition finish_operation :: "'c ios_vfs_mount \<Rightarrow> 'a res \<Rightarrow> 'c ios_vfs_mount \<times> 'a res" where
  "finish_operation m status =
     (case vfs_mount_end_operation m of
        (m', end_status) \<Rightarrow>
          (m', case status of Inl e \<Rightarrow> Inl e
             | Inr output \<Rightarrow> (case end_status of Inl e \<Rightarrow> Inl e | Inr _ \<Rightarrow> Inr output)))"

text \<open>
  The lines that every operation has in common: begin an operation, return its error, call
  the driver, finish. The output of a call that fails is cleared by its caller.
\<close>

definition run_operation ::
  "nat \<Rightarrow> bool \<Rightarrow> ('x \<Rightarrow> 'x \<times> 'a res) \<Rightarrow> 'c vfs \<Rightarrow> 'x \<Rightarrow> 'c vfs \<times> 'x \<times> 'a res" where
  "run_operation a mutation callback v x =
     (case vfs_mount_begin_operation (v_mounts v a) mutation of
        (m, Inl e) \<Rightarrow> (set_mount v a m, x, Inl e)
      | (m, Inr _) \<Rightarrow>
          (case callback x of (x', status) \<Rightarrow>
             (case finish_operation m status of (m', status') \<Rightarrow> (set_mount v a m', x', status'))))"

abbreviation mount_of :: "ios_vfs_path_context \<Rightarrow> nat" where
  "mount_of context \<equiv> the (pc_mount context)"

section \<open>Operations on paths\<close>

definition vfs_create_directory ::
  "'x ios_vfs_driver \<Rightarrow> ios_vfs_path_context \<Rightarrow> string \<Rightarrow> 'c vfs \<Rightarrow> 'x \<Rightarrow> 'c vfs \<times> 'x \<times> ios_vfs_object res" where
  "vfs_create_directory d context path v x =
     (case split_path context path of
        Inl e \<Rightarrow> (v, x, Inl e)
      | Inr leaf \<Rightarrow>
        (case resolve_parent d context leaf v x of
           (v, x, Inl e) \<Rightarrow> (v, x, Inl e)
         | (v, x, Inr parent) \<Rightarrow>
           (case vd_create_directory d of
              None \<Rightarrow> (v, x, Inl IOS_E_NOT_SUPPORTED)
            | Some create \<Rightarrow>
              (case run_operation (mount_of context) True
                      (\<lambda>x. create x (vo_identity parent) (pl_component leaf)) v x of
                 (v, x, Inl e) \<Rightarrow> (v, x, Inl e)
               | (v, x, Inr object) \<Rightarrow>
                   (v, x, if vo_identity object = 0 \<or> vo_kind object \<noteq> IOS_VFS_OBJECT_DIRECTORY
                          then Inl IOS_E_PROTOCOL else Inr object)))))"

definition vfs_create_file ::
  "'x ios_vfs_driver \<Rightarrow> ios_vfs_path_context \<Rightarrow> string \<Rightarrow> 'c vfs \<Rightarrow> 'x \<Rightarrow> 'c vfs \<times> 'x \<times> ios_vfs_object res" where
  "vfs_create_file d context path v x =
     (case split_path context path of
        Inl e \<Rightarrow> (v, x, Inl e)
      | Inr leaf \<Rightarrow>
        (case resolve_parent d context leaf v x of
           (v, x, Inl e) \<Rightarrow> (v, x, Inl e)
         | (v, x, Inr parent) \<Rightarrow>
           (case vd_create_file d of
              None \<Rightarrow> (v, x, Inl IOS_E_NOT_SUPPORTED)
            | Some create \<Rightarrow>
              (case run_operation (mount_of context) True
                      (\<lambda>x. create x (vo_identity parent) (pl_component leaf)) v x of
                 (v, x, Inl e) \<Rightarrow> (v, x, Inl e)
               | (v, x, Inr object) \<Rightarrow>
                   (v, x, if vo_identity object = 0 \<or> vo_kind object \<noteq> IOS_VFS_OBJECT_REGULAR_FILE
                          then Inl IOS_E_PROTOCOL else Inr object)))))"

definition vfs_remove_directory ::
  "'x ios_vfs_driver \<Rightarrow> ios_vfs_path_context \<Rightarrow> string \<Rightarrow> 'c vfs \<Rightarrow> 'x \<Rightarrow> 'c vfs \<times> 'x \<times> unit res" where
  "vfs_remove_directory d context path v x =
     (case split_path context path of
        Inl e \<Rightarrow> (v, x, Inl e)
      | Inr leaf \<Rightarrow>
        (case vfs_path_resolve (vd_lookup d) context (pl_normalized leaf) v x of
           (v, x, Inl e) \<Rightarrow> (v, x, Inl e)
         | (v, x, Inr target) \<Rightarrow>
           if vo_kind target \<noteq> IOS_VFS_OBJECT_DIRECTORY then (v, x, Inl IOS_E_INVALID_ARGUMENT)
           else case resolve_parent d context leaf v x of
             (v, x, Inl e) \<Rightarrow> (v, x, Inl e)
           | (v, x, Inr parent) \<Rightarrow>
             (case vd_remove_directory d of
                None \<Rightarrow> (v, x, Inl IOS_E_NOT_SUPPORTED)
              | Some remove \<Rightarrow>
                  run_operation (mount_of context) True
                    (\<lambda>x. remove x (vo_identity parent) (pl_component leaf)) v x)))"

definition vfs_list_directory ::
  "'x ios_vfs_driver \<Rightarrow> ios_vfs_path_context \<Rightarrow> string \<Rightarrow> nat \<Rightarrow> nat \<Rightarrow> 'c vfs \<Rightarrow> 'x
    \<Rightarrow> 'c vfs \<times> 'x \<times> (ios_vfs_directory_entry list \<times> nat) res" where
  "vfs_list_directory d context path continuation capacity v x =
     (case vfs_path_resolve (vd_lookup d) context path v x of
        (v, x, Inl e) \<Rightarrow> (v, x, Inl e)
      | (v, x, Inr directory) \<Rightarrow>
        if vo_kind directory \<noteq> IOS_VFS_OBJECT_DIRECTORY then (v, x, Inl IOS_E_INVALID_ARGUMENT)
        else case vfs_enumerate (vd_enumerate d) (v_mounts v (mount_of context)) x
                    (vo_identity directory) continuation capacity of
          (m, x, status) \<Rightarrow> (set_mount v (mount_of context) m, x, status))"

abbreviation IOS_VFS_SEARCH_RESULT_CAPACITY :: nat where "IOS_VFS_SEARCH_RESULT_CAPACITY \<equiv> 16"

text \<open>The loop of \<open>valid_search_path\<close>: \<open>None\<close> is the early return of false.\<close>

function search_scan :: "string \<Rightarrow> nat \<Rightarrow> nat option" where
  "search_scan path index =
     (if index \<le> IOS_VFS_PATH_MAX then
        let character = cchar path index; byte = (of_char character :: nat) in
        if byte = 0 then Some index
        else if byte < 0x20 \<or> byte = 0x7f \<or> character = CHR 0x5C \<or> character = DOT then None
        else if character = SLASH \<and> index \<noteq> 0 \<and> cchar path (index - 1) = SLASH then None
        else search_scan path (index + 1)
      else Some index)"
  by pat_completeness auto
termination by (relation "measure (\<lambda>(path, index). 256 - index)") auto

declare search_scan.simps [simp del]

definition valid_search_path :: "ios_vfs_search_result \<Rightarrow> bool" where
  "valid_search_path entry =
     (if sr_object_identity entry = 0 \<or> sr_display_path_length entry = 0
         \<or> sr_display_path_length entry > IOS_VFS_PATH_MAX \<or> cchar (sr_display_path entry) 0 \<noteq> SLASH
      then False
      else case search_scan (sr_display_path entry) 0 of
        None \<Rightarrow> False
      | Some n \<Rightarrow> n = sr_display_path_length entry \<and> n \<le> IOS_VFS_PATH_MAX)"

definition empty_result :: ios_vfs_search_result where
  "empty_result = \<lparr>sr_display_path = replicate IOS_VFS_PATH_CAPACITY NUL, sr_object_identity = 0, sr_display_path_length = 0\<rparr>"

text \<open>The caller's array is cleared first; the driver stores its results at the front.\<close>

definition vfs_search_extension ::
  "'x ios_vfs_driver \<Rightarrow> nat \<Rightarrow> string \<Rightarrow> nat \<Rightarrow> 'c vfs \<Rightarrow> 'x
    \<Rightarrow> 'c vfs \<times> 'x \<times> (ios_vfs_search_result list \<times> nat \<times> bool) res" where
  "vfs_search_extension d a extension capacity v x =
     (if extension = [] \<or> capacity = 0 \<or> capacity > IOS_VFS_SEARCH_RESULT_CAPACITY
      then (v, x, Inl IOS_E_INVALID_ARGUMENT)
      else case vd_search_extension d of
        None \<Rightarrow> (v, x, Inl IOS_E_NOT_SUPPORTED)
      | Some search \<Rightarrow>
        (case run_operation a False (\<lambda>x. search x extension capacity) v x of
           (v, x, Inl e) \<Rightarrow> (v, x, Inl e)
         | (v, x, Inr (stored, entry_count, truncated)) \<Rightarrow>
             let entries = take capacity (stored @ replicate capacity empty_result) in
             if entry_count > capacity \<or> (truncated \<and> entry_count \<noteq> capacity) then (v, x, Inl IOS_E_PROTOCOL)
             else if \<not> list_all valid_search_path (take entry_count entries) then (v, x, Inl IOS_E_PROTOCOL)
             else (v, x, Inr (entries, entry_count, truncated))))"

text \<open>The comparison loop of \<open>path_is_descendant\<close> and \<open>paths_equal\<close>.\<close>

function common_prefix :: "string \<Rightarrow> string \<Rightarrow> nat \<Rightarrow> nat" where
  "common_prefix left right index =
     (if cchar left index \<noteq> NUL \<and> cchar left index = cchar right index
      then common_prefix left right (index + 1) else index)"
  by pat_completeness auto
termination
  by (relation "measure (\<lambda>(left, right, index). length left - index)") (auto simp: cchar_def split: if_splits)

declare common_prefix.simps [simp del]

definition path_is_descendant :: "string \<Rightarrow> string \<Rightarrow> bool" where
  "path_is_descendant ancestor candidate =
     (let index = common_prefix ancestor candidate 0 in
      cchar ancestor index = NUL \<and> (cchar candidate index = NUL \<or> cchar candidate index = SLASH))"

definition paths_equal :: "string \<Rightarrow> string \<Rightarrow> bool" where
  "paths_equal left right =
     (let index = common_prefix left right 0 in cchar left index = NUL \<and> cchar right index = NUL)"

definition vfs_rename ::
  "'x ios_vfs_driver \<Rightarrow> ios_vfs_path_context \<Rightarrow> string \<Rightarrow> string \<Rightarrow> 'c vfs \<Rightarrow> 'x \<Rightarrow> 'c vfs \<times> 'x \<times> unit res" where
  "vfs_rename d context source destination v x =
     (case split_path context source of
        Inl e \<Rightarrow> (v, x, Inl e)
      | Inr source_leaf \<Rightarrow>
        (case split_path context destination of
           Inl e \<Rightarrow> (v, x, Inl e)
         | Inr destination_leaf \<Rightarrow>
           (case vfs_path_resolve (vd_lookup d) context (pl_normalized source_leaf) v x of
              (v, x, Inl e) \<Rightarrow> (v, x, Inl e)
            | (v, x, Inr source_object) \<Rightarrow>
              if paths_equal (pl_normalized source_leaf) (pl_normalized destination_leaf) then (v, x, Inr ())
              else if vo_kind source_object = IOS_VFS_OBJECT_DIRECTORY
                      \<and> path_is_descendant (pl_normalized source_leaf) (pl_parent destination_leaf)
              then (v, x, Inl IOS_E_INVALID_ARGUMENT)
              else case resolve_parent d context source_leaf v x of
                (v, x, Inl e) \<Rightarrow> (v, x, Inl e)
              | (v, x, Inr source_parent) \<Rightarrow>
                (case resolve_parent d context destination_leaf v x of
                   (v, x, Inl e) \<Rightarrow> (v, x, Inl e)
                 | (v, x, Inr destination_parent) \<Rightarrow>
                   (case vd_rename d of
                      None \<Rightarrow> (v, x, Inl IOS_E_NOT_SUPPORTED)
                    | Some rename \<Rightarrow>
                        run_operation (mount_of context) True
                          (\<lambda>x. rename x (vo_identity source_parent) (pl_component source_leaf)
                                 (vo_identity destination_parent) (pl_component destination_leaf)) v x)))))"

section \<open>Operations on objects\<close>

text \<open>
  A byte argument is the list of the \<open>length\<close> bytes at the pointer. A read returns the bytes that
  the driver stored, the count it reports and whether the object ends there.
\<close>

definition vfs_read_object ::
  "'x ios_vfs_driver \<Rightarrow> nat \<Rightarrow> nat \<Rightarrow> nat \<Rightarrow> nat \<Rightarrow> 'c vfs \<Rightarrow> 'x \<Rightarrow> 'c vfs \<times> 'x \<times> (bytes \<times> nat \<times> bool) res" where
  "vfs_read_object d a object_identity offset capacity v x =
     (if object_identity = 0 \<or> capacity = 0 then (v, x, Inl IOS_E_INVALID_ARGUMENT)
      else case vd_read_object d of
        None \<Rightarrow> (v, x, Inl IOS_E_NOT_SUPPORTED)
      | Some read \<Rightarrow>
        (case run_operation a False (\<lambda>x. read x object_identity offset capacity) v x of
           (v, x, Inl e) \<Rightarrow> (v, x, Inl e)
         | (v, x, Inr (buffer, transferred, complete)) \<Rightarrow>
             (v, x, if transferred > capacity \<or> (\<not> complete \<and> transferred = 0) then Inl IOS_E_PROTOCOL
                    else Inr (buffer, transferred, complete))))"

definition vfs_replace_object ::
  "'x ios_vfs_driver \<Rightarrow> nat \<Rightarrow> nat \<Rightarrow> bytes \<Rightarrow> 'c vfs \<Rightarrow> 'x \<Rightarrow> 'c vfs \<times> 'x \<times> unit res" where
  "vfs_replace_object d a object_identity bytes v x =
     (if object_identity = 0 then (v, x, Inl IOS_E_INVALID_ARGUMENT)
      else case vd_replace_object d of
        None \<Rightarrow> (v, x, Inl IOS_E_NOT_SUPPORTED)
      | Some replace \<Rightarrow> run_operation a True (\<lambda>x. replace x object_identity bytes) v x)"

definition vfs_append_object ::
  "'x ios_vfs_driver \<Rightarrow> nat \<Rightarrow> nat \<Rightarrow> bytes \<Rightarrow> 'c vfs \<Rightarrow> 'x \<Rightarrow> 'c vfs \<times> 'x \<times> unit res" where
  "vfs_append_object d a object_identity bytes v x =
     (if object_identity = 0 then (v, x, Inl IOS_E_INVALID_ARGUMENT)
      else case vd_append_object d of
        None \<Rightarrow> (v, x, Inl IOS_E_NOT_SUPPORTED)
      | Some append_bytes \<Rightarrow> run_operation a True (\<lambda>x. append_bytes x object_identity bytes) v x)"

definition vfs_remove_object ::
  "'x ios_vfs_driver \<Rightarrow> nat \<Rightarrow> nat \<Rightarrow> 'c vfs \<Rightarrow> 'x \<Rightarrow> 'c vfs \<times> 'x \<times> unit res" where
  "vfs_remove_object d a object_identity v x =
     (if object_identity = 0 then (v, x, Inl IOS_E_INVALID_ARGUMENT)
      else case vd_remove_object d of
        None \<Rightarrow> (v, x, Inl IOS_E_NOT_SUPPORTED)
      | Some remove \<Rightarrow> run_operation a True (\<lambda>x. remove x object_identity) v x)"

definition vfs_rename_object ::
  "'x ios_vfs_driver \<Rightarrow> nat \<Rightarrow> nat \<Rightarrow> nat \<Rightarrow> string \<Rightarrow> 'c vfs \<Rightarrow> 'x \<Rightarrow> 'c vfs \<times> 'x \<times> unit res" where
  "vfs_rename_object d a object_identity destination_parent_identity destination_base v x =
     (if object_identity = 0 \<or> destination_parent_identity = 0 \<or> destination_base = [] then (v, x, Inl IOS_E_INVALID_ARGUMENT)
      else case vd_rename_object d of
        None \<Rightarrow> (v, x, Inl IOS_E_NOT_SUPPORTED)
      | Some rename \<Rightarrow>
          run_operation a True (\<lambda>x. rename x object_identity destination_parent_identity destination_base) v x)"


section \<open>Splitting a path\<close>

lemma last_slash_snoc: "last_slash (s @ [c]) = (if c = SLASH then length s else last_slash s)"
proof -
  have "foldl (\<lambda>slash i. if (s @ [c]) ! i = SLASH then i else slash) 0 [0..<length s]
      = foldl (\<lambda>slash i. if s ! i = SLASH then i else slash) 0 [0..<length s]"
    by (rule foldl_cong) (auto simp: nth_append)
  then show ?thesis by (simp add: last_slash_def)
qed

lemma last_slash_append: "SLASH \<notin> set w \<Longrightarrow> last_slash (u @ SLASH # w) = length u"
proof (induction w rule: rev_induct)
  case (snoc c w)
  then show ?case using last_slash_snoc [of "u @ SLASH # w" c] by auto
qed (use last_slash_snoc [of u SLASH] in simp)

lemma render_last: "stack \<noteq> [] \<Longrightarrow> render stack = (if butlast stack = [] then [] else render (butlast stack)) @ SLASH # last stack"
  using render_snoc [of "butlast stack" "last stack"] by simp

lemma split_path_eq:
  "split_path context path =
    (case path_target context path of
       Inl e \<Rightarrow> Inl e
     | Inr stack \<Rightarrow> if stack = [] then Inl IOS_E_INVALID_ARGUMENT
         else Inr \<lparr>pl_normalized = render stack, pl_parent = render (butlast stack), pl_component = last stack\<rparr>)"
proof (cases "path_target context path")
  case (Inl e)
  then show ?thesis by (auto elim: normalize_local_error simp: split_path_def)
next
  case (Inr stack)
  obtain b where b: "vfs_path_normalize (pc_current_directory context) path local_buffer = (b, Inr ())"
    "cstring b = render stack" "canonical stack" using normalize_local_ok [OF Inr] by blast
  have plain: "\<forall>c \<in> set stack. c \<noteq> []" using b(3) by (blast dest: canonicalD plain_componentD)
  show ?thesis
  proof (cases "stack = []")
    case True
    then show ?thesis using b Inr by (simp add: split_path_def)
  next
    case False
    define u where "u = (if butlast stack = [] then [] else render (butlast stack))"
    have r: "render stack = u @ SLASH # last stack" using render_last [OF False] by (simp add: u_def)
    have "SLASH \<notin> set (last stack)" using b(3) last_in_set [OF False] by (blast dest: canonicalD plain_componentD)
    then have l: "last_slash (render stack) = length u" unfolding r by (rule last_slash_append)
    have "length (render stack) \<noteq> 1" using render_length_1 [OF plain] False by simp
    moreover have "(if length u = 0 then [SLASH] else take (length u) (render stack)) = render (butlast stack)"
      using length_render_pos [of "butlast stack"] by (auto simp: r u_def)
    moreover have "drop (length u + 1) (render stack) = last stack" by (simp add: r)
    ultimately show ?thesis using b Inr False by (simp add: split_path_def l)
  qed
qed

lemma target_canonical: "path_target context path = Inr stack \<Longrightarrow> canonical stack"
  using normalize_local_ok by blast

section \<open>Comparing paths\<close>

lemma common_prefix_spec:
  "index \<le> length left \<Longrightarrow> take index left = take index right \<Longrightarrow> index \<le> length right \<Longrightarrow>
    (let k = common_prefix left right index in k \<le> length left \<and> k \<le> length right \<and> take k left = take k right
      \<and> (cchar left k = NUL \<or> cchar left k \<noteq> cchar right k))"
proof (induction left right index rule: common_prefix.induct)
  case (1 left right index)
  show ?case
  proof (cases "cchar left index \<noteq> NUL \<and> cchar left index = cchar right index")
    case True
    then have lt: "index < length left" "index < length right" by (auto simp: cchar_def split: if_splits)
    then have "left ! index = right ! index" using True by (simp add: cchar_def)
    then have "take (index + 1) left = take (index + 1) right"
      using lt 1(3) by (simp add: take_Suc_conv_app_nth)
    moreover have "common_prefix left right index = common_prefix left right (index + 1)"
      unfolding common_prefix.simps [of left right index] if_P [OF True] ..
    ultimately show ?thesis using 1(1) [OF True] lt by simp
  next
    case False
    have "common_prefix left right index = index"
      unfolding common_prefix.simps [of left right index] if_not_P [OF False] ..
    then show ?thesis using 1(2-4) False by (simp add: Let_def)
  qed
qed

lemma cchar_nul: "NUL \<notin> set s \<Longrightarrow> i \<le> length s \<Longrightarrow> cchar s i = NUL \<longleftrightarrow> i = length s"
  by (auto simp: cchar_def dest: nth_mem)

lemma common_prefix_facts:
  assumes "k = common_prefix left right 0"
  shows "k \<le> length left" "k \<le> length right" "take k left = take k right" "cchar left k = NUL \<or> cchar left k \<noteq> cchar right k"
  using common_prefix_spec [of 0 left right] assms by (simp_all add: Let_def)

lemma paths_equal_iff:
  assumes "NUL \<notin> set left" and "NUL \<notin> set right"
  shows "paths_equal left right \<longleftrightarrow> left = right"
proof -
  define k where "k = common_prefix left right 0"
  note k = common_prefix_facts [OF k_def]
  have "paths_equal left right \<longleftrightarrow> k = length left \<and> k = length right"
    using cchar_nul [OF assms(1) k(1)] cchar_nul [OF assms(2) k(2)] by (simp add: paths_equal_def k_def Let_def)
  moreover have "k = length left" if "left = right" using k(4) that cchar_nul [OF assms(1) k(1)] by simp
  ultimately show ?thesis using k(3) by auto
qed

lemma path_is_descendant_iff:
  assumes "NUL \<notin> set ancestor" and "NUL \<notin> set candidate"
  shows "path_is_descendant ancestor candidate \<longleftrightarrow> candidate = ancestor \<or> (\<exists>r. candidate = ancestor @ SLASH # r)"
proof -
  define k where "k = common_prefix ancestor candidate 0"
  note k = common_prefix_facts [OF k_def]
  have eq: "path_is_descendant ancestor candidate \<longleftrightarrow>
      k = length ancestor \<and> (k = length candidate \<or> (k < length candidate \<and> candidate ! k = SLASH))"
    using cchar_nul [OF assms(1) k(1)] cchar_nul [OF assms(2) k(2)]
    by (auto simp: path_is_descendant_def k_def [symmetric] Let_def cchar_def split: if_splits)
  show ?thesis
  proof
    assume "path_is_descendant ancestor candidate"
    then have d: "k = length ancestor" "k = length candidate \<or> (k < length candidate \<and> candidate ! k = SLASH)"
      using eq by blast+
    then have "ancestor = take k candidate" using k(3) by simp
    then show "candidate = ancestor \<or> (\<exists>r. candidate = ancestor @ SLASH # r)"
      using d(2) id_take_nth_drop [of k candidate] by auto
  next
    assume c: "candidate = ancestor \<or> (\<exists>r. candidate = ancestor @ SLASH # r)"
    have "k = length ancestor"
    proof (rule ccontr)
      assume "k \<noteq> length ancestor"
      then have "k < length ancestor" using k(1) by simp
      then have "cchar ancestor k = cchar candidate k" "cchar ancestor k \<noteq> NUL"
        using c cchar_nul [OF assms(1) k(1)] by (auto simp: cchar_def nth_append)
      then show False using k(4) by simp
    qed
    then show "path_is_descendant ancestor candidate" using c eq by (auto simp: nth_append)
  qed
qed

lemma descendant_render:
  assumes "canonical s" and "canonical p" and "s \<noteq> []"
  shows "path_is_descendant (render s) (render p) \<longleftrightarrow> take (length s) p = s"
proof -
  have iff: "path_is_descendant (render s) (render p) \<longleftrightarrow> render p = render s \<or> (\<exists>r. render p = render s @ SLASH # r)"
    using path_is_descendant_iff canonical_no_nul assms(1,2) by blast
  have comps: "path_components (render s @ SLASH # r) = s @ path_components r" if "\<forall>c \<in> set s. c \<noteq> [] \<and> SLASH \<notin> set c" "s \<noteq> []" for r
    using that
  proof (induction s)
    case (Cons c s)
    then show ?case
    proof (cases "s = []")
      case False
      obtain t where t: "render s = SLASH # t" using render_hd by blast
      then have "path_components (render (c # s) @ SLASH # r) = c # path_components (t @ SLASH # r)"
        using False Cons.prems path_components_word [of c "t @ SLASH # r"] by (simp add: render_Cons)
      then show ?thesis using Cons False t by simp
    qed (simp add: render_Cons path_components_word)
  qed simp
  have plain: "\<forall>c \<in> set s. c \<noteq> [] \<and> SLASH \<notin> set c" using assms(1) by (blast dest: canonicalD plain_componentD)
  show ?thesis
  proof
    assume "path_is_descendant (render s) (render p)"
    then consider "render p = render s" | r where "render p = render s @ SLASH # r" using iff by blast
    then show "take (length s) p = s"
    proof cases
      case 1
      then show ?thesis using render_inject [OF assms(2,1)] by simp
    next
      case 2
      then have "p = s @ path_components r" using canonical_components [OF assms(2)] comps [OF plain assms(3)] by simp
      then show ?thesis by simp
    qed
  next
    assume "take (length s) p = s"
    then obtain u where u: "p = s @ u" by (metis append_take_drop_id)
    show "path_is_descendant (render s) (render p)"
    proof (cases "u = []")
      case False
      then have "render p = render s @ render u" using assms(3) by (simp add: u render_def)
      then show ?thesis using iff render_hd [of u] by auto
    qed (use u iff in simp)
  qed
qed


section \<open>Operations are brackets\<close>

lemma run_operation_eq:
  assumes "mounts_ok v"
  shows "run_operation a mutation callback v x =
    (case snd (vfs_mount_begin_operation (v_mounts v a) mutation) of
       Inl e \<Rightarrow> (v, x, Inl e)
     | Inr _ \<Rightarrow> (v, callback x))"
proof -
  have ok: "mount_ok (mr_next_generation (v_registry v)) (v_mounts v a)" using assms by (simp add: mounts_ok_def)
  obtain m r where b: "vfs_mount_begin_operation (v_mounts v a) mutation = (m, r)" by fastforce
  show ?thesis
  proof (cases r)
    case (Inl e)
    then have "m = v_mounts v a" using b begin_fails_restores by blast
    then show ?thesis using b Inl by (simp add: run_operation_def)
  next
    case (Inr u)
    then have "vfs_mount_end_operation m = (v_mounts v a, Inr ())" using b begin_end_restores [OF ok] by simp
    then show ?thesis using b Inr
      by (simp add: run_operation_def finish_operation_def split: prod.split sum.split)
  qed
qed

text \<open>On a mount that is not read-write, a mutation never reaches the driver.\<close>

lemma run_operation_read_only:
  assumes "vm_state (v_mounts v a) \<noteq> IOS_MOUNT_RW"
  shows "run_operation a True callback v x = run_operation a True callback' v x"
proof -
  have "\<exists>m e. vfs_mount_begin_operation (v_mounts v a) True = (m, Inl e)"
    using assms by (simp add: vfs_mount_begin_operation_def)
  then show ?thesis by (auto simp: run_operation_def)
qed

definition usable :: "'c vfs \<Rightarrow> nat \<Rightarrow> bool" where
  "usable v a \<longleftrightarrow> vm_mounted (v_mounts v a) \<and> vm_lifecycle (v_mounts v a) = IOS_VFS_MOUNT_ACTIVE"

text \<open>What every operation promises: it leaves the mounts as they were, and on a mount that
  is not in service it fails without a call of the driver.\<close>

definition well_behaved :: "nat \<Rightarrow> ('c vfs \<Rightarrow> 'x \<Rightarrow> 'c vfs \<times> 'x \<times> 'a res) \<Rightarrow> bool" where
  "well_behaved a call \<longleftrightarrow> (\<forall>v x. mounts_ok v \<longrightarrow>
     fst (call v x) = v \<and> (\<not> usable v a \<longrightarrow> (\<exists>e. call v x = (v, x, Inl e))))"

lemma well_behavedI:
  assumes "\<And>v x. mounts_ok v \<Longrightarrow> fst (call v x) = v"
    and "\<And>v x. mounts_ok v \<Longrightarrow> \<not> usable v a \<Longrightarrow> \<exists>e. call v x = (v, x, Inl e)"
  shows "well_behaved a call"
  using assms by (simp add: well_behaved_def)

lemma well_behaved_run: "well_behaved a (run_operation a mutation callback)"
proof (rule well_behavedI)
  fix v :: "'a vfs" and x
  assume ok: "mounts_ok v"
  show "fst (run_operation a mutation callback v x) = v"
    by (simp add: run_operation_eq [OF ok] split: sum.split)
  assume "\<not> usable v a"
  then have "\<exists>e. snd (vfs_mount_begin_operation (v_mounts v a) mutation) = Inl e"
    by (auto simp: usable_def vfs_mount_begin_operation_def)
  then show "\<exists>e. run_operation a mutation callback v x = (v, x, Inl e)"
    by (auto simp: run_operation_eq [OF ok])
qed

lemma well_behaved_resolve:
  "well_behaved (mount_of context) (vfs_path_resolve driver_lookup context path)"
proof (rule well_behavedI)
  fix v :: "'a vfs" and x
  assume ok: "mounts_ok v"
  show "fst (vfs_path_resolve driver_lookup context path v x) = v"
    by (simp add: vfs_path_resolve_eq [OF ok] split: sum.split)
  assume "\<not> usable v (mount_of context)"
  then have "\<exists>e. validate_context v context = Inl e"
    by (auto simp: usable_def validate_context_def split: option.split)
  then show "\<exists>e. vfs_path_resolve driver_lookup context path v x = (v, x, Inl e)"
    by (auto simp: vfs_path_resolve_def)
qed

text \<open>
  Operations are composed from these by sequencing: when the first call fails, the
  operation fails with its error; otherwise it goes on from the state that the call left.
\<close>

definition restoring :: "('c vfs \<Rightarrow> 'x \<Rightarrow> 'c vfs \<times> 'x \<times> 'a res) \<Rightarrow> bool" where
  "restoring call \<longleftrightarrow> (\<forall>v x. mounts_ok v \<longrightarrow> fst (call v x) = v)"

lemma restoring_return: "restoring (\<lambda>v x. (v, x, r))"
  by (simp add: restoring_def)

lemma restoring_well_behaved: "well_behaved a call \<Longrightarrow> restoring call"
  by (simp add: restoring_def well_behaved_def)

lemma restoring_bind:
  assumes "restoring first" and "\<And>output. restoring (rest output)"
  shows "restoring (\<lambda>v x. case first v x of (v', x', Inl e) \<Rightarrow> (v', x', Inl e) | (v', x', Inr output) \<Rightarrow> rest output v' x')"
  unfolding restoring_def
proof (intro allI impI)
  fix v :: "'a vfs" and x
  assume ok: "mounts_ok v"
  obtain y r where f: "first v x = (v, y, r)" using assms(1) ok unfolding restoring_def by (metis prod.collapse)
  have "fst (rest z v y) = v" for z using assms(2) ok by (simp add: restoring_def)
  then show "fst (case first v x of (v', x', Inl e) \<Rightarrow> (v', x', Inl e) | (v', x', Inr output) \<Rightarrow> rest output v' x') = v"
    by (simp add: f split: sum.split)
qed

lemma restoring_option:
  "restoring none \<Longrightarrow> (\<And>f. restoring (some f)) \<Longrightarrow> restoring (\<lambda>v x. case c of None \<Rightarrow> none v x | Some f \<Rightarrow> some f v x)"
  by (cases c) simp_all

lemma restoring_if: "restoring yes \<Longrightarrow> restoring no \<Longrightarrow> restoring (\<lambda>v x. if b then yes v x else no v x)"
  by (cases b) simp_all

lemma restoring_triple:
  "(\<And>p q r. restoring (rest p q r)) \<Longrightarrow> restoring (\<lambda>v x. case t of (p, q, r) \<Rightarrow> rest p q r v x)"
  by (cases t) simp

lemma well_behaved_fail: "well_behaved a (\<lambda>v x. (v, x, Inl e))"
  by (simp add: well_behaved_def)

lemma well_behaved_bind:
  assumes "well_behaved a first" and "\<And>output. restoring (rest output)"
  shows "well_behaved a (\<lambda>v x. case first v x of (v', x', Inl e) \<Rightarrow> (v', x', Inl e) | (v', x', Inr output) \<Rightarrow> rest output v' x')"
proof (rule well_behavedI)
  fix v :: "'a vfs" and x
  assume ok: "mounts_ok v"
  show "fst (case first v x of (v', x', Inl e) \<Rightarrow> (v', x', Inl e) | (v', x', Inr output) \<Rightarrow> rest output v' x') = v"
    using restoring_bind [of first rest, OF restoring_well_behaved [OF assms(1)] assms(2)] ok
    unfolding restoring_def by blast
  assume "\<not> usable v a"
  then have "\<exists>e. first v x = (v, x, Inl e)" using assms(1) ok by (simp add: well_behaved_def)
  then show "\<exists>e. (case first v x of (v', x', Inl e) \<Rightarrow> (v', x', Inl e) | (v', x', Inr output) \<Rightarrow> rest output v' x') = (v, x, Inl e)"
    by auto
qed

lemma well_behaved_sum:
  "(\<And>y. well_behaved a (rest y)) \<Longrightarrow> well_behaved a (\<lambda>v x. case r of Inl e \<Rightarrow> (v, x, Inl e) | Inr y \<Rightarrow> rest y v x)"
  by (cases r) (simp_all add: well_behaved_fail)

lemma well_behaved_option:
  "(\<And>f. well_behaved a (some f)) \<Longrightarrow> well_behaved a (\<lambda>v x. case c of None \<Rightarrow> (v, x, Inl e) | Some f \<Rightarrow> some f v x)"
  by (cases c) (simp_all add: well_behaved_fail)

lemma well_behaved_guard:
  "well_behaved a no \<Longrightarrow> well_behaved a (\<lambda>v x. if b then (v, x, Inl e) else no v x)"
  by (cases b) (simp_all add: well_behaved_fail)

lemma well_behaved_resolve_parent: "well_behaved (mount_of context) (resolve_parent d context leaf)"
  unfolding resolve_parent_def by (intro well_behaved_bind well_behaved_resolve restoring_return)

lemmas restoring_calls =
  well_behaved_run [THEN restoring_well_behaved] well_behaved_resolve [THEN restoring_well_behaved]
  well_behaved_resolve_parent [THEN restoring_well_behaved]

lemmas bracket_intros =
  well_behaved_sum well_behaved_bind well_behaved_option well_behaved_guard well_behaved_resolve well_behaved_resolve_parent
  well_behaved_run restoring_bind restoring_option restoring_if restoring_triple restoring_return restoring_calls

lemma well_behaved_create_directory: "well_behaved (mount_of context) (vfs_create_directory d context path)"
  unfolding vfs_create_directory_def by (intro bracket_intros)

lemma well_behaved_create_file: "well_behaved (mount_of context) (vfs_create_file d context path)"
  unfolding vfs_create_file_def by (intro bracket_intros)

lemma well_behaved_remove_directory: "well_behaved (mount_of context) (vfs_remove_directory d context path)"
  unfolding vfs_remove_directory_def by (intro bracket_intros)

lemma well_behaved_rename: "well_behaved (mount_of context) (vfs_rename d context source destination)"
  unfolding vfs_rename_def by (intro bracket_intros)

lemma restoring_enumerate:
  "restoring (\<lambda>v x. case vfs_enumerate driver_enumerate (v_mounts v a) x identity continuation capacity of
     (m, x', status) \<Rightarrow> (set_mount v a m, x', status))"
  unfolding restoring_def
proof (intro allI impI)
  fix v :: "'a vfs" and x
  assume "mounts_ok v"
  then have ok: "mount_ok (mr_next_generation (v_registry v)) (v_mounts v a)" by (simp add: mounts_ok_def)
  have "fst (vfs_enumerate driver_enumerate (v_mounts v a) x identity continuation capacity) = v_mounts v a"
    using begin_end_restores [OF ok, of False] begin_fails_restores [of "v_mounts v a" False]
    unfolding vfs_enumerate_def by (auto split: prod.split sum.split option.split)
  then show "fst (case vfs_enumerate driver_enumerate (v_mounts v a) x identity continuation capacity of
     (m, x', status) \<Rightarrow> (set_mount v a m, x', status)) = v" by (auto split: prod.split)
qed

lemma well_behaved_list_directory:
  "well_behaved (mount_of context) (vfs_list_directory d context path continuation capacity)"
  unfolding vfs_list_directory_def by (intro bracket_intros restoring_enumerate)

lemma well_behaved_search: "well_behaved a (vfs_search_extension d a extension capacity)"
  unfolding vfs_search_extension_def Let_def by (intro bracket_intros)

lemma well_behaved_read: "well_behaved a (vfs_read_object d a identity offset capacity)"
  unfolding vfs_read_object_def by (intro bracket_intros)

lemma well_behaved_replace: "well_behaved a (vfs_replace_object d a identity bytes)"
  unfolding vfs_replace_object_def by (intro bracket_intros)

lemma well_behaved_append: "well_behaved a (vfs_append_object d a identity bytes)"
  unfolding vfs_append_object_def by (intro bracket_intros)

lemma well_behaved_remove: "well_behaved a (vfs_remove_object d a identity)"
  unfolding vfs_remove_object_def by (intro bracket_intros)

lemma well_behaved_rename_object: "well_behaved a (vfs_rename_object d a identity parent base)"
  unfolding vfs_rename_object_def by (intro bracket_intros)


section \<open>The contract of an operation\<close>

locale mount_call =
  fixes a :: nat and call :: "'c vfs \<Rightarrow> 'x \<Rightarrow> 'c vfs \<times> 'x \<times> 'a res"
  assumes restores: "mounts_ok v \<Longrightarrow> fst (call v x) = v"
    and refuses: "mounts_ok v \<Longrightarrow> \<not> usable v a \<Longrightarrow> \<exists>e. call v x = (v, x, Inl e)"
begin

lemma keeps_reachable: "vfs_reachable v \<Longrightarrow> vfs_reachable (fst (call v x))"
  by (simp add: restores reachable_mounts_ok)

lemma refused_after_unmount:
  assumes "vfs_reachable v" and "mr_root (v_registry v) = Some a" and "vfs_unmount_root v = (v', Inr ())"
  shows "\<exists>e. call v' x = (v', x, Inl e)"
proof (rule refuses)
  have ok: "vfs_ok v" using assms(1) by (rule vfs_reachable_ok)
  have "vfs_reachable v'" using assms(1,3) by (blast intro: reach_step step_unmount)
  then show "mounts_ok v'" by (rule reachable_mounts_ok)
  show "\<not> usable v' a" using unmount_cases [OF assms(3) ok] assms(2) by (auto simp: usable_def)
qed

lemma refused_while_draining:
  assumes "vfs_reachable v" and "vm_lifecycle (v_mounts v a) = IOS_VFS_MOUNT_DRAINING"
  shows "\<exists>e. call v x = (v, x, Inl e)"
  using assms by (intro refuses reachable_mounts_ok) (simp_all add: usable_def)

end

lemma mount_call_well_behaved: "well_behaved a call \<Longrightarrow> mount_call a call"
  by unfold_locales (simp_all add: well_behaved_def)

text \<open>All operations as requests of a caller, with the status that the caller sees.\<close>

datatype vfs_request =
    Resolve ios_vfs_path_context string
  | Create_Directory ios_vfs_path_context string
  | Create_File ios_vfs_path_context string
  | Remove_Directory ios_vfs_path_context string
  | List_Directory ios_vfs_path_context string nat nat
  | Rename ios_vfs_path_context string string
  | Search_Extension nat string nat
  | Read_Object nat nat nat nat
  | Replace_Object nat nat bytes
  | Append_Object nat nat bytes
  | Remove_Object nat nat
  | Rename_Object nat nat nat string

primrec request_mount :: "vfs_request \<Rightarrow> nat" where
  "request_mount (Resolve context path) = mount_of context"
| "request_mount (Create_Directory context path) = mount_of context"
| "request_mount (Create_File context path) = mount_of context"
| "request_mount (Remove_Directory context path) = mount_of context"
| "request_mount (List_Directory context path continuation capacity) = mount_of context"
| "request_mount (Rename context source destination) = mount_of context"
| "request_mount (Search_Extension a extension capacity) = a"
| "request_mount (Read_Object a identity offset capacity) = a"
| "request_mount (Replace_Object a identity bytes) = a"
| "request_mount (Append_Object a identity bytes) = a"
| "request_mount (Remove_Object a identity) = a"
| "request_mount (Rename_Object a identity parent base) = a"

definition status_of :: "('c vfs \<Rightarrow> 'x \<Rightarrow> 'c vfs \<times> 'x \<times> 'a res) \<Rightarrow> 'c vfs \<Rightarrow> 'x \<Rightarrow> 'c vfs \<times> 'x \<times> unit res" where
  "status_of call v x = (case call v x of (v', x', r) \<Rightarrow> (v', x', map_sum id (\<lambda>_. ()) r))"

primrec vfs_serve :: "'x ios_vfs_driver \<Rightarrow> vfs_request \<Rightarrow> 'c vfs \<Rightarrow> 'x \<Rightarrow> 'c vfs \<times> 'x \<times> unit res" where
  "vfs_serve d (Resolve context path) = status_of (vfs_path_resolve (vd_lookup d) context path)"
| "vfs_serve d (Create_Directory context path) = status_of (vfs_create_directory d context path)"
| "vfs_serve d (Create_File context path) = status_of (vfs_create_file d context path)"
| "vfs_serve d (Remove_Directory context path) = status_of (vfs_remove_directory d context path)"
| "vfs_serve d (List_Directory context path continuation capacity) =
     status_of (vfs_list_directory d context path continuation capacity)"
| "vfs_serve d (Rename context source destination) = status_of (vfs_rename d context source destination)"
| "vfs_serve d (Search_Extension a extension capacity) = status_of (vfs_search_extension d a extension capacity)"
| "vfs_serve d (Read_Object a identity offset capacity) = status_of (vfs_read_object d a identity offset capacity)"
| "vfs_serve d (Replace_Object a identity bytes) = status_of (vfs_replace_object d a identity bytes)"
| "vfs_serve d (Append_Object a identity bytes) = status_of (vfs_append_object d a identity bytes)"
| "vfs_serve d (Remove_Object a identity) = status_of (vfs_remove_object d a identity)"
| "vfs_serve d (Rename_Object a identity parent base) = status_of (vfs_rename_object d a identity parent base)"

primrec vfs_serve_all :: "'x ios_vfs_driver \<Rightarrow> vfs_request list \<Rightarrow> 'c vfs \<Rightarrow> 'x \<Rightarrow> 'c vfs \<times> 'x" where
  "vfs_serve_all d [] v x = (v, x)"
| "vfs_serve_all d (r # rs) v x = (case vfs_serve d r v x of (v', x', _) \<Rightarrow> vfs_serve_all d rs v' x')"

lemma well_behaved_status:
  assumes "well_behaved a call"
  shows "well_behaved a (status_of call)"
proof (rule well_behavedI)
  fix v :: "'a vfs" and x
  assume ok: "mounts_ok v"
  have "fst (call v x) = v" using assms ok by (simp add: well_behaved_def)
  then show "fst (status_of call v x) = v" by (auto simp: status_of_def split: prod.split)
  assume "\<not> usable v a"
  then have "\<exists>e. call v x = (v, x, Inl e)" using assms ok by (simp add: well_behaved_def)
  then show "\<exists>e. status_of call v x = (v, x, Inl e)" by (auto simp: status_of_def)
qed

lemma well_behaved_serve: "well_behaved (request_mount r) (vfs_serve d r)"
  by (cases r)
    (simp_all add: well_behaved_status well_behaved_resolve well_behaved_create_directory well_behaved_create_file
      well_behaved_remove_directory well_behaved_list_directory well_behaved_rename well_behaved_search well_behaved_read
      well_behaved_replace well_behaved_append well_behaved_remove well_behaved_rename_object)

interpretation vfs_request: mount_call "request_mount r" "vfs_serve d r"
  by (rule mount_call_well_behaved) (rule well_behaved_serve)

lemma serve_all_restores: "mounts_ok v \<Longrightarrow> fst (vfs_serve_all d rs v x) = v"
proof (induction rs arbitrary: x)
  case (Cons r rs)
  obtain v' y st where s: "vfs_serve d r v x = (v', y, st)" by (metis prod.exhaust)
  then have "v' = v" using vfs_request.restores [OF Cons.prems, of d r x] by simp
  then show ?case using Cons s by simp
qed simp


section \<open>Reference: operations on component lists\<close>

definition directory_at ::
  "'x ios_vfs_driver \<Rightarrow> 'c ios_vfs_mount \<Rightarrow> string list \<Rightarrow> 'x \<Rightarrow> 'x \<times> ios_vfs_object res" where
  "directory_at d m stack x =
     (case object_at (vd_lookup d) m stack x of
        (x', Inl e) \<Rightarrow> (x', Inl e)
      | (x', Inr object) \<Rightarrow> (x', if vo_kind object = IOS_VFS_OBJECT_DIRECTORY then Inr object else Inl IOS_E_NOT_FOUND))"

definition guarded :: "'c ios_vfs_mount \<Rightarrow> bool \<Rightarrow> ('x \<Rightarrow> 'x \<times> 'a res) \<Rightarrow> 'x \<Rightarrow> 'x \<times> 'a res" where
  "guarded m mutation callback x =
     (case snd (vfs_mount_begin_operation m mutation) of Inl e \<Rightarrow> (x, Inl e) | Inr _ \<Rightarrow> callback x)"

lemma run_operation_guarded:
  "mounts_ok v \<Longrightarrow> run_operation a mutation callback v x = (v, guarded (v_mounts v a) mutation callback x)"
  by (simp add: run_operation_eq guarded_def split: sum.split)

lemma resolve_parent_eq:
  assumes "mounts_ok v" and "validate_context v context = Inr ()" and "canonical stack" and "pl_parent leaf = render stack"
    and "length (cstring (pc_current_directory context)) \<le> IOS_VFS_PATH_MAX"
  shows "resolve_parent d context leaf v x = (v, directory_at d (v_mounts v (mount_of context)) stack x)"
proof -
  have "cstring (render stack) = render stack" using canonical_no_nul [OF assms(3)] by (rule cstring_id)
  then show ?thesis
    using vfs_path_resolve_canonical [OF assms(1,2,3) _ assms(5), of "pl_parent leaf" "vd_lookup d" x] assms(4)
    by (simp add: resolve_parent_def directory_at_def split: prod.split sum.split)
qed

lemma resolve_normalized_leaf:
  assumes "mounts_ok v" and "validate_context v context = Inr ()" and "canonical stack"
    and "length (cstring (pc_current_directory context)) \<le> IOS_VFS_PATH_MAX"
  shows "vfs_path_resolve (vd_lookup d) context (render stack) v x =
    (v, object_at (vd_lookup d) (v_mounts v (mount_of context)) stack x)"
  using vfs_path_resolve_canonical [OF assms(1-3) cstring_id [OF canonical_no_nul [OF assms(3)]] assms(4)] .

definition create_reference ::
  "ios_vfs_object_kind \<Rightarrow> ('x \<Rightarrow> nat \<Rightarrow> string \<Rightarrow> 'x \<times> ios_vfs_object res) option \<Rightarrow> 'x ios_vfs_driver
    \<Rightarrow> 'c ios_vfs_mount \<Rightarrow> string list \<Rightarrow> 'x \<Rightarrow> 'x \<times> ios_vfs_object res" where
  "create_reference kind driver_create d m stack x =
     (case directory_at d m (butlast stack) x of
        (x, Inl e) \<Rightarrow> (x, Inl e)
      | (x, Inr parent) \<Rightarrow>
        (case driver_create of
           None \<Rightarrow> (x, Inl IOS_E_NOT_SUPPORTED)
         | Some create \<Rightarrow>
           (case guarded m True (\<lambda>x. create x (vo_identity parent) (last stack)) x of
              (x, Inl e) \<Rightarrow> (x, Inl e)
            | (x, Inr object) \<Rightarrow>
                (x, if vo_identity object = 0 \<or> vo_kind object \<noteq> kind then Inl IOS_E_PROTOCOL else Inr object))))"

definition rename_reference ::
  "'x ios_vfs_driver \<Rightarrow> 'c ios_vfs_mount \<Rightarrow> string list \<Rightarrow> string list \<Rightarrow> 'x \<Rightarrow> 'x \<times> unit res" where
  "rename_reference d m source destination x =
     (case object_at (vd_lookup d) m source x of
        (x, Inl e) \<Rightarrow> (x, Inl e)
      | (x, Inr object) \<Rightarrow>
          if source = destination then (x, Inr ())
          else if vo_kind object = IOS_VFS_OBJECT_DIRECTORY \<and> take (length source) destination = source
          then (x, Inl IOS_E_INVALID_ARGUMENT)
          else case directory_at d m (butlast source) x of
            (x, Inl e) \<Rightarrow> (x, Inl e)
          | (x, Inr source_parent) \<Rightarrow>
            (case directory_at d m (butlast destination) x of
               (x, Inl e) \<Rightarrow> (x, Inl e)
             | (x, Inr destination_parent) \<Rightarrow>
               (case vd_rename d of
                  None \<Rightarrow> (x, Inl IOS_E_NOT_SUPPORTED)
                | Some rename \<Rightarrow>
                    guarded m True (\<lambda>x. rename x (vo_identity source_parent) (last source)
                      (vo_identity destination_parent) (last destination)) x)))"

lemma descendant_of_parent:
  assumes "s \<noteq> t" and "t \<noteq> []"
  shows "take (length s) (butlast t) = s \<longleftrightarrow> take (length s) t = s"
proof
  assume "take (length s) (butlast t) = s"
  then show "take (length s) t = s"
    by (metis butlast_conv_take length_take min.cobounded1 min.absorb_iff1 take_take)
next
  assume s: "take (length s) t = s"
  then have "length s \<le> length t" by (metis length_take min.cobounded2 min.commute)
  moreover have "length s \<noteq> length t" using s assms(1) by auto
  ultimately have "length s \<le> length t - 1" by simp
  then show "take (length s) (butlast t) = s" using s by (simp add: butlast_conv_take min_absorb1)
qed

lemma create_directory_eq:
  assumes ok: "mounts_ok v" and valid: "validate_context v context = Inr ()" and t: "path_target context path = Inr stack" and "stack \<noteq> []"
  shows "vfs_create_directory d context path v x =
    (v, create_reference IOS_VFS_OBJECT_DIRECTORY (vd_create_directory d) d (v_mounts v (mount_of context)) stack x)"
proof -
  note parent = resolve_parent_eq [OF ok valid canonical_butlast [OF target_canonical [OF t]] _ target_length [OF t]]
  show ?thesis
    using t assms(4)
    by (simp add: vfs_create_directory_def split_path_eq parent create_reference_def run_operation_guarded [OF ok]
        split: prod.split sum.split option.split)
qed

lemma create_file_eq:
  assumes ok: "mounts_ok v" and valid: "validate_context v context = Inr ()" and t: "path_target context path = Inr stack" and "stack \<noteq> []"
  shows "vfs_create_file d context path v x =
    (v, create_reference IOS_VFS_OBJECT_REGULAR_FILE (vd_create_file d) d (v_mounts v (mount_of context)) stack x)"
proof -
  note parent = resolve_parent_eq [OF ok valid canonical_butlast [OF target_canonical [OF t]] _ target_length [OF t]]
  show ?thesis
    using t assms(4)
    by (simp add: vfs_create_file_def split_path_eq parent create_reference_def run_operation_guarded [OF ok]
        split: prod.split sum.split option.split)
qed

lemma rename_eq:
  assumes ok: "mounts_ok v" and valid: "validate_context v context = Inr ()"
    and s: "path_target context source = Inr s" "s \<noteq> []" and t: "path_target context destination = Inr t" "t \<noteq> []"
  shows "vfs_rename d context source destination v x = (v, rename_reference d (v_mounts v (mount_of context)) s t x)"
proof -
  note cs = target_canonical [OF s(1)] and ct = target_canonical [OF t(1)]
  note len = target_length [OF s(1)]
  note sp = resolve_parent_eq [OF ok valid canonical_butlast [OF cs] _ len]
  note tp = resolve_parent_eq [OF ok valid canonical_butlast [OF ct] _ len]
  have eq: "paths_equal (render s) (render t) \<longleftrightarrow> s = t"
    using paths_equal_iff [OF canonical_no_nul [OF cs] canonical_no_nul [OF ct]] render_inject [OF cs ct] by blast
  have desc: "path_is_descendant (render s) (render (butlast t)) \<longleftrightarrow> take (length s) t = s" if "s \<noteq> t"
    using descendant_render [OF cs canonical_butlast [OF ct] s(2)] descendant_of_parent [OF that t(2)] by simp
  show ?thesis
    using s t desc
    by (simp add: vfs_rename_def split_path_eq sp tp resolve_normalized_leaf [OF ok valid cs len] eq rename_reference_def
        run_operation_guarded [OF ok] split: prod.split sum.split option.split)
qed


section \<open>Mounts that are not read-write\<close>

text \<open>Two drivers that read alike and have the same callbacks, whatever their mutations do.\<close>

definition read_alike :: "'x ios_vfs_driver \<Rightarrow> 'x ios_vfs_driver \<Rightarrow> bool" where
  "read_alike d d' \<longleftrightarrow> vd_lookup d' = vd_lookup d \<and> vd_enumerate d' = vd_enumerate d
     \<and> vd_search_extension d' = vd_search_extension d \<and> vd_read_object d' = vd_read_object d
     \<and> (vd_create_directory d' = None \<longleftrightarrow> vd_create_directory d = None)
     \<and> (vd_create_file d' = None \<longleftrightarrow> vd_create_file d = None)
     \<and> (vd_remove_directory d' = None \<longleftrightarrow> vd_remove_directory d = None)
     \<and> (vd_rename d' = None \<longleftrightarrow> vd_rename d = None)
     \<and> (vd_replace_object d' = None \<longleftrightarrow> vd_replace_object d = None)
     \<and> (vd_append_object d' = None \<longleftrightarrow> vd_append_object d = None)
     \<and> (vd_remove_object d' = None \<longleftrightarrow> vd_remove_object d = None)
     \<and> (vd_rename_object d' = None \<longleftrightarrow> vd_rename_object d = None)"

lemma run_operation_refused:
  assumes "vm_state (v_mounts v a) \<noteq> IOS_MOUNT_RW" and "mounts_ok v"
  shows "run_operation a True callback v x = (v, x, Inl (projl (snd (vfs_mount_begin_operation (v_mounts v a) True))))"
proof -
  have "\<exists>e. snd (vfs_mount_begin_operation (v_mounts v a) True) = Inl e"
    using assms(1) by (simp add: vfs_mount_begin_operation_def)
  then show ?thesis by (auto simp: run_operation_eq [OF assms(2)])
qed

lemma resolve_parent_alike: "vd_lookup d' = vd_lookup d \<Longrightarrow> resolve_parent d' context leaf v x = resolve_parent d context leaf v x"
  by (simp add: resolve_parent_def)

lemma path_resolve_same: "mounts_ok v \<Longrightarrow> \<exists>y r. vfs_path_resolve driver_lookup context path v x = (v, y, r)"
  using restoring_calls(2) unfolding restoring_def by (metis prod.collapse)

lemma resolve_parent_same: "mounts_ok v \<Longrightarrow> \<exists>y r. resolve_parent d context leaf v x = (v, y, r)"
  using restoring_calls(3) unfolding restoring_def by (metis prod.collapse)

lemma create_directory_read_only:
  assumes ro: "vm_state (v_mounts v (mount_of context)) \<noteq> IOS_MOUNT_RW" and ok: "mounts_ok v" and alike: "read_alike d d'"
  shows "vfs_create_directory d' context path v x = vfs_create_directory d context path v x"
proof (cases "split_path context path")
  case (Inr leaf)
  obtain y r where p: "resolve_parent d context leaf v x = (v, y, r)" using resolve_parent_same [OF ok, of d "context" leaf x] by blast
  show ?thesis
    using alike p resolve_parent_alike [of d' d "context" leaf v x]
    by (cases r; cases "vd_create_directory d"; cases "vd_create_directory d'")
      (auto simp: vfs_create_directory_def read_alike_def Inr run_operation_refused [OF ro ok])
qed (simp add: vfs_create_directory_def)

lemma create_file_read_only:
  assumes ro: "vm_state (v_mounts v (mount_of context)) \<noteq> IOS_MOUNT_RW" and ok: "mounts_ok v" and alike: "read_alike d d'"
  shows "vfs_create_file d' context path v x = vfs_create_file d context path v x"
proof (cases "split_path context path")
  case (Inr leaf)
  obtain y r where p: "resolve_parent d context leaf v x = (v, y, r)" using resolve_parent_same [OF ok, of d "context" leaf x] by blast
  show ?thesis
    using alike p resolve_parent_alike [of d' d "context" leaf v x]
    by (cases r; cases "vd_create_file d"; cases "vd_create_file d'")
      (auto simp: vfs_create_file_def read_alike_def Inr run_operation_refused [OF ro ok])
qed (simp add: vfs_create_file_def)

lemma remove_directory_read_only:
  assumes ro: "vm_state (v_mounts v (mount_of context)) \<noteq> IOS_MOUNT_RW" and ok: "mounts_ok v" and alike: "read_alike d d'"
  shows "vfs_remove_directory d' context path v x = vfs_remove_directory d context path v x"
proof (cases "split_path context path")
  case (Inr leaf)
  have look: "vd_lookup d' = vd_lookup d" using alike by (simp add: read_alike_def)
  obtain y r where q: "vfs_path_resolve (vd_lookup d) context (pl_normalized leaf) v x = (v, y, r)" using path_resolve_same [OF ok, of "vd_lookup d" "context" "pl_normalized leaf" x] by blast
  obtain z t where p: "resolve_parent d context leaf v y = (v, z, t)" using resolve_parent_same [OF ok, of d "context" leaf y] by blast
  show ?thesis
    using alike p q resolve_parent_alike [OF look, of "context" leaf v y]
    by (cases r; cases t; cases "vd_remove_directory d"; cases "vd_remove_directory d'")
      (auto simp: vfs_remove_directory_def read_alike_def Inr run_operation_refused [OF ro ok])
qed (simp add: vfs_remove_directory_def)

lemma rename_read_only:
  assumes ro: "vm_state (v_mounts v (mount_of context)) \<noteq> IOS_MOUNT_RW" and ok: "mounts_ok v" and alike: "read_alike d d'"
  shows "vfs_rename d' context source destination v x = vfs_rename d context source destination v x"
proof (cases "split_path context source")
  case s: (Inr s)
  show ?thesis
  proof (cases "split_path context destination")
    case t: (Inr t)
    have look: "vd_lookup d' = vd_lookup d" using alike by (simp add: read_alike_def)
    obtain y r where q: "vfs_path_resolve (vd_lookup d) context (pl_normalized s) v x = (v, y, r)" using path_resolve_same [OF ok, of "vd_lookup d" "context" "pl_normalized s" x] by blast
    obtain z p1 where p: "resolve_parent d context s v y = (v, z, p1)" using resolve_parent_same [OF ok, of d "context" s y] by blast
    obtain w p2 where p': "resolve_parent d context t v z = (v, w, p2)" using resolve_parent_same [OF ok, of d "context" t z] by blast
    show ?thesis
      using alike p p' q look resolve_parent_alike [OF look, of "context" s v y] resolve_parent_alike [OF look, of "context" t v z]
      by (cases r; cases p1; cases p2; cases "vd_rename d"; cases "vd_rename d'")
        (simp_all add: vfs_rename_def read_alike_def s t run_operation_refused [OF ro ok])
  qed (simp add: vfs_rename_def s)
qed (simp add: vfs_rename_def)

lemma option_alike:
  "(c' = None \<longleftrightarrow> c = None) \<Longrightarrow> (case c' of None \<Rightarrow> none | Some f \<Rightarrow> some) = (case c of None \<Rightarrow> none | Some g \<Rightarrow> some)"
  by (cases c; cases c') simp_all

lemma object_calls_read_only:
  assumes ro: "vm_state (v_mounts v a) \<noteq> IOS_MOUNT_RW" and ok: "mounts_ok v" and alike: "read_alike d d'"
  shows "vfs_replace_object d' a identity bytes v x = vfs_replace_object d a identity bytes v x"
    "vfs_append_object d' a identity bytes v x = vfs_append_object d a identity bytes v x"
    "vfs_remove_object d' a identity v x = vfs_remove_object d a identity v x"
    "vfs_rename_object d' a identity parent base v x = vfs_rename_object d a identity parent base v x"
proof -
  have e: "vd_replace_object d' = None \<longleftrightarrow> vd_replace_object d = None" "vd_append_object d' = None \<longleftrightarrow> vd_append_object d = None"
    "vd_remove_object d' = None \<longleftrightarrow> vd_remove_object d = None" "vd_rename_object d' = None \<longleftrightarrow> vd_rename_object d = None"
    using alike unfolding read_alike_def by blast+
  note refused = run_operation_refused [OF ro ok]
  show "vfs_replace_object d' a identity bytes v x = vfs_replace_object d a identity bytes v x"
    unfolding vfs_replace_object_def refused option_alike [OF e(1)] ..
  show "vfs_append_object d' a identity bytes v x = vfs_append_object d a identity bytes v x"
    unfolding vfs_append_object_def refused option_alike [OF e(2)] ..
  show "vfs_remove_object d' a identity v x = vfs_remove_object d a identity v x"
    unfolding vfs_remove_object_def refused option_alike [OF e(3)] ..
  show "vfs_rename_object d' a identity parent base v x = vfs_rename_object d a identity parent base v x"
    unfolding vfs_rename_object_def refused option_alike [OF e(4)] ..
qed

lemma reading_calls_alike:
  assumes "read_alike d d'"
  shows "vfs_list_directory d' context path continuation capacity = vfs_list_directory d context path continuation capacity"
    "vfs_search_extension d' a extension n = vfs_search_extension d a extension n"
    "vfs_read_object d' a identity offset n = vfs_read_object d a identity offset n"
proof -
  have e: "vd_lookup d' = vd_lookup d" "vd_enumerate d' = vd_enumerate d"
    "vd_search_extension d' = vd_search_extension d" "vd_read_object d' = vd_read_object d"
    using assms by (simp_all add: read_alike_def)
  show "vfs_list_directory d' context path continuation capacity = vfs_list_directory d context path continuation capacity"
    unfolding vfs_list_directory_def e ..
  show "vfs_search_extension d' a extension n = vfs_search_extension d a extension n"
    unfolding vfs_search_extension_def e ..
  show "vfs_read_object d' a identity offset n = vfs_read_object d a identity offset n"
    unfolding vfs_read_object_def e ..
qed

lemma serve_read_only:
  assumes ro: "vm_state (v_mounts v (request_mount r)) \<noteq> IOS_MOUNT_RW" and ok: "mounts_ok v" and alike: "read_alike d d'"
  shows "vfs_serve d' r v x = vfs_serve d r v x"
proof -
  have look: "vd_lookup d' = vd_lookup d" using alike by (simp add: read_alike_def)
  note mutations = create_directory_read_only [OF _ ok alike] create_file_read_only [OF _ ok alike]
    remove_directory_read_only [OF _ ok alike] rename_read_only [OF _ ok alike] object_calls_read_only [OF _ ok alike]
  show ?thesis
    using ro by (cases r) (simp_all add: status_of_def mutations reading_calls_alike [OF alike] look)
qed


section \<open>Search results\<close>

definition displayable :: "string \<Rightarrow> nat \<Rightarrow> bool" where
  "displayable path i \<longleftrightarrow> cchar path i \<noteq> NUL \<and> \<not> invalid_path_byte (cchar path i) \<and> cchar path i \<noteq> DOT
     \<and> \<not> (cchar path i = SLASH \<and> i \<noteq> 0 \<and> cchar path (i - 1) = SLASH)"

lemma search_scan_step:
  assumes "index \<le> IOS_VFS_PATH_MAX"
  shows "search_scan path index =
    (if cchar path index = NUL then Some index else if displayable path index then search_scan path (index + 1) else None)"
proof -
  let ?c = "cchar path index"
  have zero: "(of_char ?c :: nat) = 0 \<longleftrightarrow> ?c = NUL"
    using of_char_eq_iff [of ?c NUL, where 'a = nat] by simp
  have bad: "((of_char ?c :: nat) < 0x20 \<or> (of_char ?c :: nat) = 0x7f \<or> ?c = CHR 0x5C \<or> ?c = DOT)
      \<longleftrightarrow> invalid_path_byte ?c \<or> ?c = DOT"
    by (auto simp: invalid_path_byte_def Let_def)
  show ?thesis
    unfolding search_scan.simps [of path index] Let_def zero if_P [OF assms] bad displayable_def by argo
qed

lemma search_scan_sound:
  "search_scan path index = Some n \<Longrightarrow> n \<le> IOS_VFS_PATH_MAX \<Longrightarrow>
    cchar path n = NUL \<and> (\<forall>i. index \<le> i \<longrightarrow> i < n \<longrightarrow> displayable path i)"
proof (induction path index rule: search_scan.induct)
  case (1 path index)
  have le: "index \<le> 255"
  proof (rule ccontr)
    assume "\<not> index \<le> 255"
    then show False using "1.prems" by (simp add: search_scan.simps [of path index])
  qed
  note run = search_scan_step [OF le, of path]
  show ?case
  proof (cases "cchar path index = NUL")
    case True
    then have "n = index" using run "1.prems"(1) by simp
    then show ?thesis using True by auto
  next
    case False
    then have ok: "displayable path index" and go: "search_scan path (index + 1) = Some n"
      using run "1.prems"(1) by (auto split: if_splits)
    then have "(of_char (cchar path index) :: nat) \<noteq> 0"
      using of_char_eq_iff [of "cchar path index" NUL, where 'a = nat] False by simp
    moreover have "\<not> ((of_char (cchar path index) :: nat) < 0x20 \<or> (of_char (cchar path index) :: nat) = 0x7f
        \<or> cchar path index = CHR 0x5C \<or> cchar path index = DOT)"
      using ok by (auto simp: displayable_def invalid_path_byte_def Let_def)
    moreover have "\<not> (cchar path index = SLASH \<and> index \<noteq> 0 \<and> cchar path (index - 1) = SLASH)"
      using ok by (simp add: displayable_def)
    ultimately have rest: "cchar path n = NUL" "\<And>i. index + 1 \<le> i \<Longrightarrow> i < n \<Longrightarrow> displayable path i"
      using "1.IH" [OF le refl refl _ _ _ go "1.prems"(2)] by blast+
    have "displayable path i" if "index \<le> i" "i < n" for i
      using that ok rest(2) [of i] by (cases "i = index") simp_all
    then show ?thesis using rest(1) by blast
  qed
qed

lemma cstring_length:
  assumes "cchar s n = NUL" and "\<And>i. i < n \<Longrightarrow> cchar s i \<noteq> NUL"
  shows "length (cstring s) = n"
proof -
  have "n \<le> length s"
  proof (rule ccontr)
    assume "\<not> n \<le> length s"
    then show False using assms(2) [of "length s"] by (simp add: cchar_def)
  qed
  then have "cstring s = take n s"
    unfolding cstring_def using assms by (intro takeWhile_eq_take_P_nth) (auto simp: cchar_def split: if_splits)
  then show ?thesis using \<open>n \<le> length s\<close> by simp
qed

lemma valid_search_pathD:
  assumes "valid_search_path entry"
  shows "sr_object_identity entry \<noteq> 0 \<and> length (cstring (sr_display_path entry)) = sr_display_path_length entry
    \<and> cchar (sr_display_path entry) 0 = SLASH \<and> (\<forall>i < sr_display_path_length entry. displayable (sr_display_path entry) i)"
proof -
  let ?p = "sr_display_path entry" and ?n = "sr_display_path_length entry"
  have g: "sr_object_identity entry \<noteq> 0" "cchar ?p 0 = SLASH" "search_scan ?p 0 = Some ?n" "?n \<le> 255"
    using assms by (auto simp: valid_search_path_def split: if_splits option.splits)
  note s = search_scan_sound [OF g(3,4)]
  have d: "displayable ?p i" if "i < ?n" for i using s that by blast
  have "length (cstring ?p) = ?n" by (rule cstring_length) (use s d in \<open>auto simp: displayable_def\<close>)
  then show ?thesis using g d by blast
qed

section \<open>Properties\<close>

text \<open>Creating a directory or a file by path calls the driver exactly once, in the directory that the
  components but the last lead to and with the last component, provided that directory exists and the mount
  admits mutations; what the driver returns without an identity or with the wrong kind is refused.\<close>

theorem vfs_create_exact:
  assumes "vfs_reachable v" and "validate_context v context = Inr ()" and "path_target context path = Inr stack" and "stack \<noteq> []"
  shows "vfs_create_directory d context path v x =
      (v, create_reference IOS_VFS_OBJECT_DIRECTORY (vd_create_directory d) d (v_mounts v (mount_of context)) stack x)
    \<and> vfs_create_file d context path v x =
      (v, create_reference IOS_VFS_OBJECT_REGULAR_FILE (vd_create_file d) d (v_mounts v (mount_of context)) stack x)"
  by (intro conjI create_directory_eq create_file_eq reachable_mounts_ok assms)

text \<open>C36: A rename never moves a directory into itself: for all paths that name something, it is the reference
  on lists of components, in which the driver is called only when the source exists, differs from the
  destination and, if it is a directory, is not a prefix of the destination, and when both parents are directories.
  The comparison of the two strings is thus one of whole components.\<close>

theorem vfs_rename_exact:
  assumes "vfs_reachable v" and "validate_context v context = Inr ()"
    and "path_target context source = Inr s" and "s \<noteq> []" and "path_target context destination = Inr t" and "t \<noteq> []"
  shows "vfs_rename d context source destination v x = (v, rename_reference d (v_mounts v (mount_of context)) s t x)"
  using rename_eq [OF reachable_mounts_ok [OF assms(1)] assms(2-6)] .

text \<open>C37: Any sequence of requests, each with any outcome, leaves the registry and all mounts as they were, so
  that no operation stays counted and an unmount is never blocked by a finished request; and once the
  root has been unmounted, no request for it reaches the driver.\<close>

theorem vfs_requests_balanced:
  assumes "vfs_reachable v"
  shows "fst (vfs_serve_all d requests v x) = v
    \<and> (\<forall>r v'. mr_root (v_registry v) = Some (request_mount r) \<and> vfs_unmount_root v = (v', Inr ()) \<longrightarrow>
        (\<exists>e. vfs_serve d r v' x = (v', x, Inl e)))"
  using serve_all_restores [OF reachable_mounts_ok [OF assms], of d requests x]
    vfs_request.refused_after_unmount [OF assms, of _ _ d x] by simp

text \<open>A successful search reports at most as many results as the caller has room for, all of them when it
  does not say that there are more, and each has an identity and an absolute path of the recorded length,
  without control characters, backslashes, dots or two slashes in a row, whatever the driver stored.\<close>

theorem vfs_search_checked:
  assumes "vfs_search_extension d a extension capacity v x = (v', x', Inr (entries, entry_count, truncated))"
  shows "entry_count \<le> capacity \<and> length entries = capacity \<and> capacity \<le> IOS_VFS_SEARCH_RESULT_CAPACITY
    \<and> (truncated \<longrightarrow> entry_count = capacity)
    \<and> (\<forall>i < entry_count. sr_object_identity (entries ! i) \<noteq> 0
        \<and> length (cstring (sr_display_path (entries ! i))) = sr_display_path_length (entries ! i)
        \<and> cchar (sr_display_path (entries ! i)) 0 = SLASH
        \<and> (\<forall>k < sr_display_path_length (entries ! i). displayable (sr_display_path (entries ! i)) k))"
proof -
  have g: "entry_count \<le> capacity" "length entries = capacity" "capacity \<le> 16" "truncated \<longrightarrow> entry_count = capacity"
    and all: "list_all valid_search_path (take entry_count entries)"
    using assms by (auto simp: vfs_search_extension_def Let_def split: if_splits option.splits prod.splits sum.splits)
  have "valid_search_path (entries ! i)" if "i < entry_count" for i
    using all that g(1,2) by (auto simp: list_all_length)
  then show ?thesis using g valid_search_pathD by blast
qed

text \<open>On a mount that is not in read-write state no request calls a callback that changes the file system:
  whatever those callbacks do, the outcome, the driver's state included, is the same.\<close>

theorem vfs_read_only_driver:
  assumes "vfs_reachable v" and "vm_state (v_mounts v (request_mount r)) \<noteq> IOS_MOUNT_RW" and "read_alike d d'"
  shows "vfs_serve d' r v x = vfs_serve d r v x"
  using serve_read_only [OF assms(2) reachable_mounts_ok [OF assms(1)] assms(3)] .


section \<open>Witnesses\<close>

definition sample_driver :: "unit ios_vfs_driver" where
  "sample_driver = \<lparr>vd_enumerate = None, vd_lookup = Some sample_lookup,
     vd_create_directory = Some (\<lambda>x parent component. (x, Inr \<lparr>vo_identity = 9, vo_kind = IOS_VFS_OBJECT_DIRECTORY, vo_reference_count = 0\<rparr>)),
     vd_create_file = None, vd_remove_directory = None,
     vd_rename = Some (\<lambda>x source_parent source parent component. (x, Inr ())),
     vd_search_extension = Some (\<lambda>x extension capacity.
       (x, Inr ([\<lparr>sr_display_path = ''/a'', sr_object_identity = 4, sr_display_path_length = 2\<rparr>], 1, False))),
     vd_read_object = None, vd_replace_object = Some (\<lambda>x identity bytes. (x, Inr ())), vd_append_object = None,
     vd_remove_object = None, vd_rename_object = None\<rparr>"

lemma sample_targets:
  "path_target sample_context ''NEW'' = Inr [''NEW'']" "path_target sample_context ''DOCS/IN'' = Inr [''DOCS'', ''IN'']"
  using sample_cd(1)
  by (simp_all add: sample_context_eq)
    (simp_all add: cstring_def path_reference_def path_components_def path_step_def render_def cchar_def invalid_path_byte_def)

lemmas sample_run = object_at_def directory_at_def guarded_def sample_driver_def sample_lookup_def
  vfs_mount_begin_operation_def sample_defs

theorem vfs_create_exact_witness:
  "vfs_create_directory sample_driver sample_context ''NEW'' sample_mounted () =
     (sample_mounted, (), Inr \<lparr>vo_identity = 9, vo_kind = IOS_VFS_OBJECT_DIRECTORY, vo_reference_count = 0\<rparr>)"
proof -
  have "create_reference IOS_VFS_OBJECT_DIRECTORY (vd_create_directory sample_driver) sample_driver
      (v_mounts sample_mounted (mount_of sample_context)) [''NEW''] ()
    = ((), Inr \<lparr>vo_identity = 9, vo_kind = IOS_VFS_OBJECT_DIRECTORY, vo_reference_count = 0\<rparr>)"
    by (simp add: create_reference_def sample_context_eq sample_run)
  then show ?thesis
    using vfs_create_exact [OF sample_reachable sample_valid sample_targets(1), of sample_driver "()"] by simp
qed

theorem vfs_rename_exact_witness:
  "vfs_rename sample_driver sample_context ''DOCS/.'' ''NEW'' sample_mounted () = (sample_mounted, (), Inr ())
    \<and> vfs_rename sample_driver sample_context ''DOCS/.'' ''DOCS/IN'' sample_mounted () =
       (sample_mounted, (), Inl IOS_E_INVALID_ARGUMENT)"
proof
  have "rename_reference sample_driver (v_mounts sample_mounted (mount_of sample_context)) [''DOCS''] [''NEW''] () = ((), Inr ())"
    by (simp add: rename_reference_def sample_context_eq sample_run)
  then show "vfs_rename sample_driver sample_context ''DOCS/.'' ''NEW'' sample_mounted () = (sample_mounted, (), Inr ())"
    using vfs_rename_exact [OF sample_reachable sample_valid sample_target _ sample_targets(1), of sample_driver "()"] by simp
  have "rename_reference sample_driver (v_mounts sample_mounted (mount_of sample_context)) [''DOCS''] [''DOCS'', ''IN''] ()
      = ((), Inl IOS_E_INVALID_ARGUMENT)"
    by (simp add: rename_reference_def sample_context_eq sample_run)
  then show "vfs_rename sample_driver sample_context ''DOCS/.'' ''DOCS/IN'' sample_mounted () =
      (sample_mounted, (), Inl IOS_E_INVALID_ARGUMENT)"
    using vfs_rename_exact [OF sample_reachable sample_valid sample_target _ sample_targets(2), of sample_driver "()"] by simp
qed

theorem vfs_requests_balanced_witness:
  "fst (vfs_serve_all sample_driver [Create_Directory sample_context ''NEW'', Rename sample_context ''DOCS'' ''NEW'',
     Read_Object 0 4 0 16] sample_mounted ()) = sample_mounted"
  by (rule vfs_requests_balanced [OF sample_reachable, THEN conjunct1])

lemma sample_operation: "run_operation 0 False callback sample_mounted x = (sample_mounted, callback x)"
  unfolding run_operation_guarded [OF reachable_mounts_ok [OF sample_reachable]] by (simp add: sample_run)

lemma sample_search:
  "vfs_search_extension sample_driver 0 ''TXT'' 1 sample_mounted () =
     (sample_mounted, (), Inr ([\<lparr>sr_display_path = ''/a'', sr_object_identity = 4, sr_display_path_length = 2\<rparr>], 1, False))"
proof -
  have "valid_search_path \<lparr>sr_display_path = ''/a'', sr_object_identity = 4, sr_display_path_length = 2\<rparr>"
    by (simp add: valid_search_path_def search_scan_step displayable_def invalid_path_byte_def cchar_def)
  then show ?thesis by (simp add: vfs_search_extension_def sample_driver_def sample_operation)
qed

theorem vfs_search_checked_witness:
  "snd (snd (vfs_search_extension sample_driver 0 ''TXT'' 1 sample_mounted ())) \<noteq> Inl IOS_E_PROTOCOL
    \<and> (1::nat) \<le> IOS_VFS_SEARCH_RESULT_CAPACITY"
  using vfs_search_checked [OF sample_search] sample_search by simp

text \<open>The same file system mounted for diagnosis only.\<close>

definition sample_diagnostic :: "unit vfs" where
  "sample_diagnostic = fst (vfs_mount_root (sample_vfs\<lparr>v_mounts := \<lambda>_. sample_mount\<lparr>vm_state := IOS_MOUNT_DIAGNOSTIC\<rparr>\<rparr>) 0 ''/'')"

lemma sample_diagnostic_reachable: "vfs_reachable sample_diagnostic"
proof -
  let ?v = "sample_vfs\<lparr>v_mounts := \<lambda>_. sample_mount\<lparr>vm_state := IOS_MOUNT_DIAGNOSTIC\<rparr>\<rparr>"
  have "vfs_reachable ?v"
    by (rule reach_initial) (simp add: vfs_initial_def sample_vfs_def sample_mount_def)
  moreover have "vfs_step ?v sample_diagnostic"
    unfolding sample_diagnostic_def by (rule step_mount) (rule prod.collapse [symmetric])
  ultimately show ?thesis by (rule reach_step)
qed

theorem vfs_read_only_driver_witness:
  "vfs_serve (sample_driver\<lparr>vd_replace_object := Some (\<lambda>x identity bytes. (x, Inl IOS_E_CORRUPT))\<rparr>) (Replace_Object 0 4 [1])
       sample_diagnostic () = vfs_serve sample_driver (Replace_Object 0 4 [1]) sample_diagnostic ()"
proof (rule vfs_read_only_driver [OF sample_diagnostic_reachable])
  show "vm_state (v_mounts sample_diagnostic (request_mount (Replace_Object 0 4 [1]))) \<noteq> IOS_MOUNT_RW"
    by (simp add: sample_diagnostic_def sample_defs)
  show "read_alike sample_driver (sample_driver\<lparr>vd_replace_object := Some (\<lambda>x identity bytes. (x, Inl IOS_E_CORRUPT))\<rparr>)"
    by (simp add: read_alike_def sample_driver_def)
qed

end
