(* ===== verification/Kernel_Handles.thy ===== *)
theory Kernel_Handles
  imports IOS_Prelude
begin

text \<open>
  The handle table of a process (handle_table.h, handle_table.c). Objects are opaque, and the
  retain and release callbacks of an entry are functions on a world \<open>'w\<close> that the tables are not
  part of. Interrupt masking around an operation is not represented: each operation is atomic.
  Where two tables meet, they live in a store, so that source and destination may be one table.
  The theorems show that a table is a map from handles to capabilities, that no operation
  amplifies rights, and that closed handles stay dead.
\<close>

section \<open>State\<close>

abbreviation IOS_HANDLE_TABLE_CAPACITY :: nat where "IOS_HANDLE_TABLE_CAPACITY \<equiv> 256"

type_synonym ios_handle = u64

abbreviation IOS_INVALID_HANDLE :: ios_handle where "IOS_INVALID_HANDLE \<equiv> 0"

datatype ios_object_kind =
    IOS_OBJECT_NONE | IOS_OBJECT_PROCESS | IOS_OBJECT_FILE | IOS_OBJECT_DIRECTORY | IOS_OBJECT_IPC_ENDPOINT
  | IOS_OBJECT_WINDOW | IOS_OBJECT_TYPE_CAPABILITY | IOS_OBJECT_DIAGNOSTIC_CAPABILITY | IOS_OBJECT_CONTENT
  | IOS_OBJECT_ADAPTER_CAPABILITY

abbreviation IOS_RIGHT_READ :: u64 where "IOS_RIGHT_READ \<equiv> 1"
abbreviation IOS_RIGHT_WRITE :: u64 where "IOS_RIGHT_WRITE \<equiv> 2"
abbreviation IOS_RIGHT_DUPLICATE :: u64 where "IOS_RIGHT_DUPLICATE \<equiv> 16"
abbreviation IOS_RIGHT_TRANSFER :: u64 where "IOS_RIGHT_TRANSFER \<equiv> 32"
abbreviation IOS_RIGHT_ALL :: u64 where "IOS_RIGHT_ALL \<equiv> 0x1ff"

record ('o, 'w) ios_handle_entry =
  he_object :: "'o option"
  he_rights :: u64
  he_generation :: u64
  he_kind :: ios_object_kind
  he_retain :: "('o \<Rightarrow> 'w \<Rightarrow> 'w) option"
  he_release :: "('o \<Rightarrow> 'w \<Rightarrow> 'w) option"

record ('o, 'w) ios_handle_table =
  ht_entries :: "('o, 'w) ios_handle_entry list"
  ht_owner_tag :: u32
  ht_open_count :: u32

abbreviation HANDLE_SLOT_MASK :: u64 where "HANDLE_SLOT_MASK \<equiv> 0xffff"
abbreviation HANDLE_GENERATION_MASK :: u64 where "HANDLE_GENERATION_MASK \<equiv> 0x0000ffffffffffff"
abbreviation HANDLE_COUNTER_MASK :: u64 where "HANDLE_COUNTER_MASK \<equiv> 0x00ffffff"

section \<open>Handle values\<close>

definition owner_tag_from_identity :: "u64 \<Rightarrow> u32" where
  "owner_tag_from_identity identity =
     (let tag = ucast (identity XOR drop_bit 24 identity XOR drop_bit 48 identity) AND 0x00ffffff
      in if tag = 0 then 1 else tag)"

definition initial_generation :: "u32 \<Rightarrow> u64" where
  "initial_generation owner_tag = push_bit 24 (ucast owner_tag) OR 1"

definition next_generation :: "u64 \<Rightarrow> u32 \<Rightarrow> u64" where
  "next_generation generation owner_tag =
     (let counter = (generation + 1) AND HANDLE_COUNTER_MASK;
          counter = (if counter = 0 then 1 else counter)
      in push_bit 24 (ucast owner_tag) OR counter)"

definition encode_handle :: "nat \<Rightarrow> u64 \<Rightarrow> ios_handle" where
  "encode_handle index generation =
     push_bit 16 (generation AND HANDLE_GENERATION_MASK) OR of_nat (index + 1)"

definition decode_handle :: "('o, 'w) ios_handle_table \<Rightarrow> ios_handle \<Rightarrow> nat res" where
  "decode_handle table handle =
     (let encoded_slot = handle AND HANDLE_SLOT_MASK;
          generation = drop_bit 16 handle AND HANDLE_GENERATION_MASK
      in if handle = IOS_INVALID_HANDLE \<or> encoded_slot = 0 \<or> unat encoded_slot > IOS_HANDLE_TABLE_CAPACITY
         then Inl IOS_E_BAD_HANDLE
         else let index = unat (encoded_slot - 1) in
           if he_object (ht_entries table ! index) = None \<or> he_generation (ht_entries table ! index) \<noteq> generation
           then Inl IOS_E_BAD_HANDLE else Inr index)"

section \<open>Operations\<close>

definition validate_new_entry ::
  "('o, 'w) ios_handle_table \<Rightarrow> 'o option \<Rightarrow> ios_object_kind \<Rightarrow> u64 \<Rightarrow> unit res" where
  "validate_new_entry table object kind rights =
     (if object = None \<or> ht_owner_tag table = 0 \<or> kind = IOS_OBJECT_NONE \<or> rights AND NOT IOS_RIGHT_ALL \<noteq> 0
      then Inl IOS_E_INVALID_ARGUMENT else Inr ())"

definition handle_table_initialize :: "u64 \<Rightarrow> ('o, 'w) ios_handle_table res" where
  "handle_table_initialize owner_identity =
     (if owner_identity = 0 then Inl IOS_E_INVALID_ARGUMENT
      else let owner_tag = owner_tag_from_identity owner_identity in
        Inr \<lparr>ht_entries = replicate IOS_HANDLE_TABLE_CAPACITY
               \<lparr>he_object = None, he_rights = 0, he_generation = initial_generation owner_tag,
                he_kind = IOS_OBJECT_NONE, he_retain = None, he_release = None\<rparr>,
             ht_owner_tag = owner_tag, ht_open_count = 0\<rparr>)"

fun insert_loop ::
  "('o, 'w) ios_handle_entry list \<Rightarrow> nat \<Rightarrow> nat option" where
  "insert_loop [] index = None"
| "insert_loop (entry # rest) index =
     (if he_object entry = None then Some index else insert_loop rest (index + 1))"

definition handle_table_insert ::
  "('o, 'w) ios_handle_table \<Rightarrow> 'o option \<Rightarrow> ios_object_kind \<Rightarrow> u64 \<Rightarrow> ('o \<Rightarrow> 'w \<Rightarrow> 'w) option
    \<Rightarrow> ('o \<Rightarrow> 'w \<Rightarrow> 'w) option \<Rightarrow> ('o, 'w) ios_handle_table \<times> ios_handle res" where
  "handle_table_insert table object kind rights retain release =
     (case validate_new_entry table object kind rights of
        Inl e \<Rightarrow> (table, Inl e)
      | Inr _ \<Rightarrow>
         (case insert_loop (ht_entries table) 0 of
            None \<Rightarrow> (table, Inl IOS_E_NO_SPACE)
          | Some index \<Rightarrow>
              let entry = ht_entries table ! index in
              (table\<lparr>ht_entries := (ht_entries table)[index := entry\<lparr>he_object := object, he_kind := kind,
                       he_rights := rights, he_retain := retain, he_release := release\<rparr>],
                     ht_open_count := ht_open_count table + 1\<rparr>,
               Inr (encode_handle index (he_generation entry)))))"

definition handle_table_resolve ::
  "('o, 'w) ios_handle_table \<Rightarrow> ios_handle \<Rightarrow> ios_object_kind \<Rightarrow> u64 \<Rightarrow> 'o res" where
  "handle_table_resolve table handle expected_kind required_rights =
     (if expected_kind = IOS_OBJECT_NONE \<or> required_rights AND NOT IOS_RIGHT_ALL \<noteq> 0
      then Inl IOS_E_INVALID_ARGUMENT
      else case decode_handle table handle of
          Inl e \<Rightarrow> Inl e
        | Inr index \<Rightarrow>
            let entry = ht_entries table ! index in
            if he_kind entry \<noteq> expected_kind then Inl IOS_E_WRONG_HANDLE_TYPE
            else if he_rights entry AND required_rights \<noteq> required_rights then Inl IOS_E_ACCESS_DENIED
            else case he_object entry of Some object \<Rightarrow> Inr object | None \<Rightarrow> Inl IOS_E_BAD_HANDLE)"

definition call_object :: "('o \<Rightarrow> 'w \<Rightarrow> 'w) option \<Rightarrow> 'o option \<Rightarrow> 'w \<Rightarrow> 'w" where
  "call_object f object world = (case (f, object) of (Some f, Some object) \<Rightarrow> f object world | _ \<Rightarrow> world)"

definition handle_table_duplicate ::
  "('o, 'w) ios_handle_table \<Rightarrow> ios_handle \<Rightarrow> u64 \<Rightarrow> 'w \<Rightarrow> ('o, 'w) ios_handle_table \<times> 'w \<times> ios_handle res" where
  "handle_table_duplicate table source reduced_rights world =
     (case decode_handle table source of
        Inl e \<Rightarrow> (table, world, Inl e)
      | Inr index \<Rightarrow>
         let entry = ht_entries table ! index in
         if he_rights entry AND IOS_RIGHT_DUPLICATE = 0 \<or> reduced_rights AND NOT (he_rights entry) \<noteq> 0
         then (table, world, Inl IOS_E_ACCESS_DENIED)
         else if he_release entry \<noteq> None \<and> he_retain entry = None then (table, world, Inl IOS_E_INVALID_STATE)
         else let world = call_object (he_retain entry) (he_object entry) world in
           case handle_table_insert table (he_object entry) (he_kind entry) reduced_rights
                  (he_retain entry) (he_release entry) of
             (table, Inl e) \<Rightarrow> (table, call_object (he_release entry) (he_object entry) world, Inl e)
           | (table, Inr duplicate) \<Rightarrow> (table, world, Inr duplicate))"

definition handle_table_close ::
  "('o, 'w) ios_handle_table \<Rightarrow> ios_handle \<Rightarrow> 'w \<Rightarrow> ('o, 'w) ios_handle_table \<times> 'w \<times> unit res" where
  "handle_table_close table handle world =
     (case decode_handle table handle of
        Inl e \<Rightarrow> (table, world, Inl e)
      | Inr index \<Rightarrow>
         let entry = ht_entries table ! index in
         (table\<lparr>ht_entries := (ht_entries table)[index :=
                  \<lparr>he_object = None, he_rights = 0,
                   he_generation = next_generation (he_generation entry) (ht_owner_tag table),
                   he_kind = IOS_OBJECT_NONE, he_retain = None, he_release = None\<rparr>],
                ht_open_count := ht_open_count table - 1\<rparr>,
          call_object (he_release entry) (he_object entry) world, Inr ()))"

definition handle_table_transfer ::
  "('t \<Rightarrow> ('o, 'w) ios_handle_table) \<Rightarrow> 't \<Rightarrow> 't \<Rightarrow> ios_handle \<Rightarrow> u64 \<Rightarrow> bool \<Rightarrow> 'w
    \<Rightarrow> ('t \<Rightarrow> ('o, 'w) ios_handle_table) \<times> 'w \<times> ios_handle res" where
  "handle_table_transfer store source_table destination_table source reduced_rights close_source world =
     (case decode_handle (store source_table) source of
        Inl e \<Rightarrow> (store, world, Inl e)
      | Inr index \<Rightarrow>
         let entry = ht_entries (store source_table) ! index in
         if he_rights entry AND IOS_RIGHT_TRANSFER = 0 \<or> reduced_rights AND NOT (he_rights entry) \<noteq> 0
         then (store, world, Inl IOS_E_ACCESS_DENIED)
         else if he_release entry \<noteq> None \<and> he_retain entry = None then (store, world, Inl IOS_E_INVALID_STATE)
         else let world = call_object (he_retain entry) (he_object entry) world in
           case handle_table_insert (store destination_table) (he_object entry) (he_kind entry) reduced_rights
                  (he_retain entry) (he_release entry) of
             (table, Inl e) \<Rightarrow>
               (store(destination_table := table), call_object (he_release entry) (he_object entry) world, Inl e)
           | (table, Inr transferred) \<Rightarrow>
               let store = store(destination_table := table) in
               if close_source then
                 (case handle_table_close (store source_table) source world of
                    (table, world, _) \<Rightarrow> (store(source_table := table), world, Inr transferred))
               else (store, world, Inr transferred))"

fun close_all_loop ::
  "nat list \<Rightarrow> ('o, 'w) ios_handle_table \<Rightarrow> 'w \<Rightarrow> ('o, 'w) ios_handle_table \<times> 'w" where
  "close_all_loop [] table world = (table, world)"
| "close_all_loop (index # rest) table world =
     (if he_object (ht_entries table ! index) \<noteq> None then
        (case handle_table_close table (encode_handle index (he_generation (ht_entries table ! index))) world of
           (table, world, _) \<Rightarrow> close_all_loop rest table world)
      else close_all_loop rest table world)"

definition handle_table_close_all ::
  "('o, 'w) ios_handle_table \<Rightarrow> 'w \<Rightarrow> ('o, 'w) ios_handle_table \<times> 'w" where
  "handle_table_close_all table world =
     (if ht_owner_tag table = 0 then (table, world)
      else close_all_loop [0..<IOS_HANDLE_TABLE_CAPACITY] table world)"

definition handle_table_open_count :: "('o, 'w) ios_handle_table \<Rightarrow> u32" where
  "handle_table_open_count table = ht_open_count table"

section \<open>Handle arithmetic\<close>

lemma and_ffff: "(x :: u64) AND 0xffff = take_bit 16 x"
  by (simp add: take_bit_eq_mask mask_eq_exp_minus_1)

lemma and_ffffff: "(x :: u64) AND 0xffffff = take_bit 24 x"
  by (simp add: take_bit_eq_mask mask_eq_exp_minus_1)

lemma and_gen: "(x :: u64) AND 0xffffffffffff = take_bit 48 x"
  by (simp add: take_bit_eq_mask mask_eq_exp_minus_1)

lemma unat_low: "unat (take_bit k (x :: u64)) = unat x mod 2 ^ k"
  by (subst unsigned_take_bit_eq) (rule take_bit_eq_mod)

lemma unat_high: "unat (drop_bit k (x :: u64)) = unat x div 2 ^ k"
  by (subst unat_drop_bit_eq) (rule drop_bit_eq_div)

lemma unat_small: "n < 2 ^ 64 \<Longrightarrow> unat (of_nat n :: u64) = n"
  by (simp add: unat_of_nat)

lemma or_is_add: "take_bit k (b :: u64) = b \<Longrightarrow> push_bit k a OR b = push_bit k a + b"
  by (rule disjunctive_add_eq_or [symmetric]) (auto simp: bit_eq_iff bit_simps)

lemma unat_or:
  assumes "unat b < 2 ^ k" and "unat a * 2 ^ k + unat b < 2 ^ 64"
  shows "unat (push_bit k a OR b :: u64) = unat a * 2 ^ k + unat b"
proof -
  have "take_bit k b = b" using assms(1) by (simp add: word_unat_eq_iff unsigned_take_bit_eq take_bit_nat_eq_self)
  then have "push_bit k a OR b = push_bit k a + b" by (rule or_is_add)
  also have "\<dots> = of_nat (unat a * 2 ^ k + unat b)" by (simp add: push_bit_eq_mult)
  finally show ?thesis using assms(2) by (simp only: unat_small)
qed

text \<open>The generation of a slot: the owner tag above a counter of 24 bits that is never zero.\<close>

definition gen :: "u32 \<Rightarrow> nat \<Rightarrow> nat" where
  "gen tag n = unat tag * 2 ^ 24 + n"

lemma unat_gen:
  assumes "unat tag < 2 ^ 24" and "unat c < 2 ^ 24"
  shows "unat (push_bit 24 (ucast (tag :: u32)) OR c :: u64) = gen tag (unat c)"
proof -
  have "unat (ucast tag :: u64) = unat tag" using assms(1) by (simp add: unsigned_ucast_eq take_bit_nat_eq_self)
  then show ?thesis using assms by (subst unat_or) (simp_all add: gen_def)
qed

lemma gen_less: "unat tag < 2 ^ 24 \<Longrightarrow> n < 2 ^ 24 \<Longrightarrow> gen tag n < 2 ^ 48"
  by (simp add: gen_def)

lemma gen_split: "n < 2 ^ 24 \<Longrightarrow> gen tag n mod 2 ^ 24 = n \<and> gen tag n div 2 ^ 24 = unat tag"
  by (simp add: gen_def)

definition step_counter :: "nat \<Rightarrow> nat" where
  "step_counter n = (if n + 1 = 2 ^ 24 then 1 else n + 1)"

lemma initial_gen: "unat tag < 2 ^ 24 \<Longrightarrow> unat (initial_generation tag) = gen tag 1"
  by (simp add: initial_generation_def unat_gen)

lemma next_gen:
  assumes "unat tag < 2 ^ 24" and "unat g = gen tag n" and "n < 2 ^ 24"
  shows "unat (next_generation g tag) = gen tag (step_counter n)"
proof -
  have "unat (g + 1) = gen tag n + 1"
    using assms(2) gen_less [OF assms(1,3)] by (simp add: unat_word_ariths(1))
  then have c: "unat ((g + 1) AND HANDLE_COUNTER_MASK) = (n + 1) mod 2 ^ 24"
    unfolding and_ffffff unat_low by (simp add: gen_def mod_simps)
  have "unat (if (g + 1) AND HANDLE_COUNTER_MASK = 0 then 1 else (g + 1) AND HANDLE_COUNTER_MASK) = step_counter n"
    using c assms(3) by (auto simp: step_counter_def word_unat_eq_iff)
  moreover have "step_counter n < 2 ^ 24" using assms(3) by (auto simp: step_counter_def)
  ultimately show ?thesis using unat_gen [OF assms(1)] by (simp only: next_generation_def Let_def)
qed

lemma unat_encode:
  assumes "i < IOS_HANDLE_TABLE_CAPACITY" and "unat g < 2 ^ 48"
  shows "unat (encode_handle i g) = unat g * 2 ^ 16 + (i + 1)"
proof -
  have "g AND HANDLE_GENERATION_MASK = g"
    using assms(2) by (simp add: and_gen word_unat_eq_iff unsigned_take_bit_eq take_bit_nat_eq_self)
  moreover have "unat (of_nat (i + 1) :: u64) = i + 1" using assms(1) by (intro unat_small) simp
  ultimately show ?thesis using assms unfolding encode_handle_def by (subst unat_or) auto
qed

lemma encode_inj:
  assumes "i < IOS_HANDLE_TABLE_CAPACITY" "j < IOS_HANDLE_TABLE_CAPACITY" "unat g < 2 ^ 48" "unat g' < 2 ^ 48"
    and "encode_handle i g = encode_handle j g'"
  shows "i = j \<and> g = g'"
proof -
  have eq: "unat g * 2 ^ 16 + (i + 1) = unat g' * 2 ^ 16 + (j + 1)"
    using assms(5) unat_encode [OF assms(1,3)] unat_encode [OF assms(2,4)] by simp
  then have "(unat g * 2 ^ 16 + (i + 1)) mod 2 ^ 16 = (unat g' * 2 ^ 16 + (j + 1)) mod 2 ^ 16" by simp
  then have "i = j" using assms(1,2) by (simp only: mod_mult_self3) simp
  then show ?thesis using eq by (simp add: word_unat_eq_iff)
qed

section \<open>Invariant and capabilities\<close>

definition used :: "('o, 'w) ios_handle_entry \<Rightarrow> bool" where
  "used e \<longleftrightarrow> he_object e \<noteq> None"

definition counter :: "('o, 'w) ios_handle_table \<Rightarrow> nat \<Rightarrow> nat" where
  "counter t i = unat (he_generation (ht_entries t ! i)) mod 2 ^ 24"

text \<open>A table that belongs to an owner: every slot carries the owner's tag and a counter that is
  not zero, the open count counts the used slots, and a used slot has a kind and known rights.\<close>

definition table_ok :: "('o, 'w) ios_handle_table \<Rightarrow> bool" where
  "table_ok t \<longleftrightarrow> length (ht_entries t) = IOS_HANDLE_TABLE_CAPACITY
     \<and> 0 < unat (ht_owner_tag t) \<and> unat (ht_owner_tag t) < 2 ^ 24
     \<and> (\<forall>i < IOS_HANDLE_TABLE_CAPACITY. unat (he_generation (ht_entries t ! i)) = gen (ht_owner_tag t) (counter t i)
          \<and> 0 < counter t i)
     \<and> unat (ht_open_count t) = length (filter used (ht_entries t))
     \<and> (\<forall>e \<in> set (ht_entries t). used e \<longrightarrow> he_kind e \<noteq> IOS_OBJECT_NONE \<and> he_rights e AND NOT IOS_RIGHT_ALL = 0)"

text \<open>What a handle stands for.\<close>

definition cap :: "('o, 'w) ios_handle_entry \<Rightarrow> 'o \<times> ios_object_kind \<times> u64" where
  "cap e = (the (he_object e), he_kind e, he_rights e)"

definition caps :: "('o, 'w) ios_handle_table \<Rightarrow> ios_handle \<rightharpoonup> 'o \<times> ios_object_kind \<times> u64" where
  "caps t h = (case decode_handle t h of Inl e \<Rightarrow> None | Inr i \<Rightarrow> Some (cap (ht_entries t ! i)))"

definition handle_at :: "('o, 'w) ios_handle_table \<Rightarrow> nat \<Rightarrow> ios_handle" where
  "handle_at t i = encode_handle i (he_generation (ht_entries t ! i))"

lemma table_ok_gen:
  assumes "table_ok t" and "i < IOS_HANDLE_TABLE_CAPACITY"
  shows "unat (he_generation (ht_entries t ! i)) < 2 ^ 48"
  using assms gen_less [of "ht_owner_tag t" "counter t i"] by (simp add: table_ok_def counter_def)

lemma handle_at_inj:
  assumes "table_ok t" and "i < IOS_HANDLE_TABLE_CAPACITY" and "j < IOS_HANDLE_TABLE_CAPACITY"
    and "handle_at t i = handle_at t j"
  shows "i = j"
  using encode_inj [OF assms(2,3) table_ok_gen [OF assms(1,2)] table_ok_gen [OF assms(1,3)]] assms(4)
  by (simp add: handle_at_def)

lemma handle_at_eq:
  assumes "table_ok t" and "table_ok t'" and "i < IOS_HANDLE_TABLE_CAPACITY" and "j < IOS_HANDLE_TABLE_CAPACITY"
    and "handle_at t i = handle_at t' j"
  shows "i = j \<and> he_generation (ht_entries t ! i) = he_generation (ht_entries t' ! j)"
  by (rule encode_inj [OF assms(3,4) table_ok_gen [OF assms(1,3)] table_ok_gen [OF assms(2,4)] assms(5) [unfolded handle_at_def]])

lemma decode_iff:
  assumes ok: "table_ok t"
  shows "decode_handle t h = Inr i \<longleftrightarrow>
    i < IOS_HANDLE_TABLE_CAPACITY \<and> used (ht_entries t ! i) \<and> h = handle_at t i"
proof
  assume l: "decode_handle t h = Inr i"
  define slot where "slot = h AND HANDLE_SLOT_MASK"
  define g where "g = drop_bit 16 h AND HANDLE_GENERATION_MASK"
  have s: "slot \<noteq> 0" "unat slot \<le> 256" "i = unat (slot - 1)" "he_object (ht_entries t ! i) \<noteq> None"
    "he_generation (ht_entries t ! i) = g"
    using l by (auto simp: decode_handle_def Let_def slot_def g_def split: if_splits)
  have "0 < unat slot" using s(1) by (simp add: word_unat_eq_iff)
  then have i: "unat slot = i + 1" using s(1,3) unat_minus_one [OF s(1)] by simp
  have "unat slot = unat h mod 2 ^ 16" by (simp only: slot_def and_ffff unat_low)
  moreover have "unat h < 2 ^ 64" using unsigned_less [of h] by simp
  then have "unat h div 2 ^ 16 < 2 ^ 48" by (simp add: less_mult_imp_div_less)
  then have "unat g = unat h div 2 ^ 16"
    by (simp only: g_def and_gen unat_low unat_high mod_less)
  ultimately have "unat h = unat g * 2 ^ 16 + (i + 1)" using i by (metis div_mult_mod_eq)
  moreover have "i < 256" using i s(2) by simp
  ultimately have "unat h = unat (encode_handle i g)"
    using unat_encode [of i g] table_ok_gen [OF ok, of i] s(5) by simp
  then have "h = handle_at t i" by (simp only: word_unat_eq_iff [symmetric] handle_at_def s(5))
  then show "i < IOS_HANDLE_TABLE_CAPACITY \<and> used (ht_entries t ! i) \<and> h = handle_at t i"
    using s(4) \<open>i < 256\<close> by (simp add: used_def)
next
  assume r: "i < IOS_HANDLE_TABLE_CAPACITY \<and> used (ht_entries t ! i) \<and> h = handle_at t i"
  let ?g = "he_generation (ht_entries t ! i)"
  have u: "unat h = unat ?g * 2 ^ 16 + (i + 1)"
    using r unat_encode table_ok_gen [OF ok] by (simp add: handle_at_def)
  have "unat (h AND HANDLE_SLOT_MASK) = (unat ?g * 2 ^ 16 + (i + 1)) mod 2 ^ 16"
    by (simp only: and_ffff unat_low u)
  also have "\<dots> = i + 1" using r by (simp only: mod_mult_self3) simp
  finally have "unat (h AND HANDLE_SLOT_MASK) = i + 1" .
  then obtain S where S: "h AND HANDLE_SLOT_MASK = S" "unat S = i + 1" by blast
  then have S0: "S \<noteq> 0" by auto
  then have S1: "unat (S - 1) = i" using S(2) unat_minus_one by fastforce
  have "(unat ?g * 2 ^ 16 + (i + 1)) div 2 ^ 16 = unat ?g" using r by (simp del: add_Suc_right One_nat_def)
  then have "unat h div 2 ^ 16 = unat ?g" by (simp only: u)
  then have g: "drop_bit 16 h AND HANDLE_GENERATION_MASK = ?g"
    using table_ok_gen [OF ok, of i] r
    by (simp only: word_unat_eq_iff and_gen unat_low unat_high mod_less)
  have "h \<noteq> 0" using u by auto
  then show "decode_handle t h = Inr i"
    using r S0 S1 S(2) unfolding decode_handle_def Let_def g S(1) by (auto simp: used_def)
qed

lemma caps_Some:
  assumes "table_ok t"
  shows "caps t h = Some x \<longleftrightarrow> (\<exists>i < IOS_HANDLE_TABLE_CAPACITY. used (ht_entries t ! i) \<and> h = handle_at t i
    \<and> x = cap (ht_entries t ! i))"
proof (cases "decode_handle t h")
  case (Inl e)
  then show ?thesis using decode_iff [OF assms, of h] by (auto simp: caps_def)
next
  case (Inr i)
  then show ?thesis using decode_iff [OF assms, of h i] handle_at_inj [OF assms, of i] by (auto simp: caps_def)
qed

lemma caps_None:
  assumes "table_ok t" and "i < IOS_HANDLE_TABLE_CAPACITY" and "\<not> used (ht_entries t ! i)"
  shows "caps t (handle_at t i) = None"
  using caps_Some [OF assms(1), of "handle_at t i"] handle_at_inj [OF assms(1,2)] assms(3)
  by (cases "caps t (handle_at t i)") auto

lemma decode_cases:
  assumes ok: "table_ok t"
  obtains (bad) "decode_handle t h = Inl IOS_E_BAD_HANDLE" "caps t h = None"
  | (good) i where "decode_handle t h = Inr i" "i < IOS_HANDLE_TABLE_CAPACITY" "used (ht_entries t ! i)" "h = handle_at t i"
      "caps t h = Some (cap (ht_entries t ! i))"
proof (cases "decode_handle t h")
  case (Inl e)
  then have "e = IOS_E_BAD_HANDLE" by (auto simp: decode_handle_def Let_def split: if_splits)
  then show thesis using Inl bad by (simp add: caps_def)
next
  case (Inr i)
  then have "i < IOS_HANDLE_TABLE_CAPACITY \<and> used (ht_entries t ! i) \<and> h = handle_at t i"
    using decode_iff [OF ok] by blast
  moreover have "caps t h = Some (cap (ht_entries t ! i))" using Inr by (simp add: caps_def)
  ultimately show thesis using Inr by (intro good) auto
qed

section \<open>Replacing one entry\<close>

lemma filter_update:
  "i < length xs \<Longrightarrow> length (filter P (xs[i := x])) + (if P (xs ! i) then 1 else 0)
    = length (filter P xs) + (if P x then 1 else (0 :: nat))"
proof (induction xs arbitrary: i)
  case (Cons y ys)
  then show ?case using Cons.IH [of "i - 1"] by (cases i) (auto split: if_splits)
qed simp

definition entry_fine :: "('o, 'w) ios_handle_entry \<Rightarrow> bool" where
  "entry_fine e \<longleftrightarrow> used e \<longrightarrow> he_kind e \<noteq> IOS_OBJECT_NONE \<and> he_rights e AND NOT IOS_RIGHT_ALL = 0"

lemma table_ok_update:
  assumes ok: "table_ok t" and i: "i < IOS_HANDLE_TABLE_CAPACITY" and fine: "entry_fine e"
    and g: "unat (he_generation e) = gen (ht_owner_tag t) n" "0 < n" "n < 2 ^ 24"
    and t': "t' = t\<lparr>ht_entries := (ht_entries t)[i := e], ht_open_count := k\<rparr>"
    and k: "unat k = length (filter used ((ht_entries t)[i := e]))"
  shows "table_ok t'"
proof -
  have len: "length (ht_entries t) = IOS_HANDLE_TABLE_CAPACITY" using ok by (simp add: table_ok_def)
  have "unat (he_generation (ht_entries t' ! j)) = gen (ht_owner_tag t) (counter t' j) \<and> 0 < counter t' j"
    if "j < IOS_HANDLE_TABLE_CAPACITY" for j
  proof (cases "j = i")
    case True
    then show ?thesis using g gen_split [OF g(3)] i len by (simp add: counter_def t')
  next
    case False
    then show ?thesis using ok that by (simp add: counter_def t' table_ok_def)
  qed
  moreover have "entry_fine x" if "x \<in> set (ht_entries t')" for x
    using that ok fine set_update_subset_insert [of "ht_entries t" i e] by (auto simp: t' table_ok_def entry_fine_def)
  ultimately show ?thesis using ok k len by (simp add: table_ok_def t' entry_fine_def)
qed

lemma option_eqI: "(\<And>x. a = Some x \<longleftrightarrow> b = Some x) \<Longrightarrow> a = b"
  by (cases a; cases b) auto

lemma caps_update:
  assumes ok: "table_ok t" and ok': "table_ok t'" and i: "i < IOS_HANDLE_TABLE_CAPACITY"
    and t': "ht_entries t' = (ht_entries t)[i := e]"
    and e: "used e \<Longrightarrow> he_generation e = he_generation (ht_entries t ! i)"
  shows "caps t' = (caps t)(handle_at t i := if used e then Some (cap e) else None)"
proof
  fix h
  have len: "length (ht_entries t) = IOS_HANDLE_TABLE_CAPACITY" using ok by (simp add: table_ok_def)
  have other: "handle_at t' j = handle_at t j" "ht_entries t' ! j = ht_entries t ! j" if "j \<noteq> i" for j
    using that by (simp_all add: handle_at_def t')
  have here: "ht_entries t' ! i = e" "used e \<Longrightarrow> handle_at t' i = handle_at t i"
    using i len e by (simp_all add: handle_at_def t')
  have "caps t' h = Some x \<longleftrightarrow> (if h = handle_at t i then used e \<and> x = cap e else caps t h = Some x)" for x
  proof (cases "h = handle_at t i")
    case True
    have "j = i" if "j < IOS_HANDLE_TABLE_CAPACITY" "h = handle_at t' j" for j
      using handle_at_inj [OF ok that(1) i] that(2) other True by metis
    then show ?thesis using True here i caps_Some [OF ok', of h x] by metis
  next
    case False
    have "(\<exists>j < IOS_HANDLE_TABLE_CAPACITY. used (ht_entries t' ! j) \<and> h = handle_at t' j \<and> x = cap (ht_entries t' ! j))
      \<longleftrightarrow> (\<exists>j < IOS_HANDLE_TABLE_CAPACITY. used (ht_entries t ! j) \<and> h = handle_at t j \<and> x = cap (ht_entries t ! j))"
      using False here other by metis
    then show ?thesis using False caps_Some [OF ok] caps_Some [OF ok'] by simp
  qed
  then show "caps t' h = ((caps t)(handle_at t i := if used e then Some (cap e) else None)) h"
    by (intro option_eqI) auto
qed

section \<open>The operations as operations on the capability map\<close>

lemma insert_loop_iff:
  "insert_loop es k = Some i \<Longrightarrow> k \<le> i \<and> i - k < length es \<and> \<not> used (es ! (i - k))"
  "insert_loop es k = None \<Longrightarrow> list_all used es"
  by (induction es k rule: insert_loop.induct)
    (auto simp: used_def nth_Cons' split: if_splits)

lemma insert_cases:
  assumes ok: "table_ok t" and ins: "handle_table_insert t object kind rights retain release = (t', r)"
  obtains (fails) e where "r = Inl e" "t' = t" "(object = None \<or> kind = IOS_OBJECT_NONE \<or> rights AND NOT IOS_RIGHT_ALL \<noteq> 0)
      \<and> e = IOS_E_INVALID_ARGUMENT \<or> list_all used (ht_entries t) \<and> e = IOS_E_NO_SPACE"
  | (enters) i obj where "i < IOS_HANDLE_TABLE_CAPACITY" "\<not> used (ht_entries t ! i)" "r = Inr (handle_at t i)"
      "object = Some obj" "table_ok t'" "caps t' = (caps t)(handle_at t i \<mapsto> (obj, kind, rights))"
      "t' = t\<lparr>ht_entries := (ht_entries t)[i := (ht_entries t ! i)\<lparr>he_object := object, he_kind := kind,
         he_rights := rights, he_retain := retain, he_release := release\<rparr>], ht_open_count := ht_open_count t + 1\<rparr>"
proof (cases "validate_new_entry t object kind rights")
  case (Inl e)
  then have "object = None \<or> kind = IOS_OBJECT_NONE \<or> rights AND NOT IOS_RIGHT_ALL \<noteq> 0" "e = IOS_E_INVALID_ARGUMENT"
    using ok by (auto simp: validate_new_entry_def table_ok_def split: if_splits)
  then show thesis using Inl ins by (intro fails [of e]) (auto simp: handle_table_insert_def)
next
  case valid: (Inr u)
  show thesis
  proof (cases "insert_loop (ht_entries t) 0")
    case None
    then show thesis using valid ins insert_loop_iff(2) [OF None]
      by (intro fails [of IOS_E_NO_SPACE]) (auto simp: handle_table_insert_def)
  next
    case (Some i)
    note free = insert_loop_iff(1) [OF Some]
    have len: "length (ht_entries t) = IOS_HANDLE_TABLE_CAPACITY" using ok by (simp add: table_ok_def)
    have i: "i < IOS_HANDLE_TABLE_CAPACITY" "\<not> used (ht_entries t ! i)" using free len by simp_all
    define e where "e = (ht_entries t ! i)\<lparr>he_object := object, he_kind := kind,
         he_rights := rights, he_retain := retain, he_release := release\<rparr>"
    have t': "t' = t\<lparr>ht_entries := (ht_entries t)[i := e], ht_open_count := ht_open_count t + 1\<rparr>" "r = Inr (handle_at t i)"
      using ins valid Some by (simp_all add: handle_table_insert_def Let_def e_def handle_at_def)
    obtain obj where obj: "object = Some obj" using valid by (auto simp: validate_new_entry_def split: if_splits)
    have e: "entry_fine e" "used e" "cap e = (obj, kind, rights)"
      using valid obj by (auto simp: e_def entry_fine_def used_def cap_def validate_new_entry_def split: if_splits)
    have cnt: "length (filter used ((ht_entries t)[i := e])) = length (filter used (ht_entries t)) + 1"
      using filter_update [of i "ht_entries t" used e] i e(2) len by simp
    have "length (filter used (ht_entries t)) \<le> IOS_HANDLE_TABLE_CAPACITY" using len by (metis length_filter_le)
    then have "unat (ht_open_count t + 1) = length (filter used ((ht_entries t)[i := e]))"
      using ok cnt by (simp add: table_ok_def unat_word_ariths(1))
    then have ok': "table_ok t'"
      using ok i e(1) by (intro table_ok_update [OF ok i(1) e(1), of "counter t i"])
        (auto simp: table_ok_def e_def t'(1) counter_def)
    show thesis
      using caps_update [OF ok ok' i(1), of e] t' e by (intro enters [OF i t'(2) obj ok']) (simp_all add: e_def)
  qed
qed

lemma close_cases:
  assumes ok: "table_ok t" and cl: "handle_table_close t h w = (t', w', r)"
  obtains (fails) "r = Inl IOS_E_BAD_HANDLE" "t' = t" "w' = w" "caps t h = None"
  | (closes) i where "r = Inr ()" "i < IOS_HANDLE_TABLE_CAPACITY" "h = handle_at t i" "used (ht_entries t ! i)" "table_ok t'"
      "caps t h \<noteq> None" "caps t' = (caps t)(h := None)"
      "w' = call_object (he_release (ht_entries t ! i)) (he_object (ht_entries t ! i)) w"
      "counter t' i = step_counter (counter t i)" "\<And>j. j \<noteq> i \<Longrightarrow> ht_entries t' ! j = ht_entries t ! j"
      "\<not> used (ht_entries t' ! i)" "ht_owner_tag t' = ht_owner_tag t"
  using ok
proof (cases rule: decode_cases [where h = h])
  case bad
  then show thesis using cl by (intro fails) (auto simp: handle_table_close_def)
next
  case (good i)
  have len: "length (ht_entries t) = IOS_HANDLE_TABLE_CAPACITY" using ok by (simp add: table_ok_def)
  define e :: "('a, 'b) ios_handle_entry" where "e = \<lparr>he_object = None, he_rights = 0,
                   he_generation = next_generation (he_generation (ht_entries t ! i)) (ht_owner_tag t),
                   he_kind = IOS_OBJECT_NONE, he_retain = None, he_release = None\<rparr>"
  have t': "t' = t\<lparr>ht_entries := (ht_entries t)[i := e], ht_open_count := ht_open_count t - 1\<rparr>" "r = Inr ()"
    "w' = call_object (he_release (ht_entries t ! i)) (he_object (ht_entries t ! i)) w"
    using cl good(1) by (auto simp: handle_table_close_def Let_def e_def)
  have e: "entry_fine e" "\<not> used e" by (simp_all add: e_def entry_fine_def used_def)
  have c: "0 < counter t i" "counter t i < 2 ^ 24"
    and g: "unat (he_generation (ht_entries t ! i)) = gen (ht_owner_tag t) (counter t i)"
    using ok good(2) by (simp_all add: table_ok_def counter_def)
  have tag: "unat (ht_owner_tag t) < 2 ^ 24" using ok by (simp add: table_ok_def)
  have ge: "unat (he_generation e) = gen (ht_owner_tag t) (step_counter (counter t i))"
    using next_gen [OF tag g c(2)] by (simp add: e_def)
  have step: "0 < step_counter (counter t i)" "step_counter (counter t i) < 2 ^ 24"
    using c by (auto simp: step_counter_def)
  have cnt: "length (filter used ((ht_entries t)[i := e])) + 1 = length (filter used (ht_entries t))"
    using filter_update [of i "ht_entries t" used e] good(2,3) e(2) len by simp
  have "unat (ht_open_count t - 1) = unat (ht_open_count t) - 1"
    using ok cnt by (intro unat_minus_one) (auto simp: table_ok_def)
  then have "unat (ht_open_count t - 1) = length (filter used ((ht_entries t)[i := e]))"
    using ok cnt by (simp add: table_ok_def)
  then have ok': "table_ok t'" by (rule table_ok_update [OF ok good(2) e(1) ge step t'(1)])
  have "counter t' i = step_counter (counter t i)"
    using ge gen_split [OF step(2)] good(2) len by (simp add: counter_def t'(1))
  then show thesis
    using caps_update [OF ok ok' good(2), of e] t' e good len ok'
    by (intro closes [of i, OF _ _ _ _ ok']) simp_all
qed

text \<open>Duplicating and transferring share their checks.\<close>

lemma grant_insert:
  assumes "table_ok t" and "used e" and "reduced AND NOT (he_rights e) = 0" and "entry_fine e"
    and "handle_table_insert d (he_object e) (he_kind e) reduced (he_retain e) (he_release e) = (d', Inl x)"
    and "table_ok d"
  shows "x = IOS_E_NO_SPACE \<and> list_all used (ht_entries d) \<and> d' = d"
proof -
  have sub: "reduced AND NOT IOS_RIGHT_ALL = 0"
    using assms(2-4) by (auto simp: entry_fine_def bit_eq_iff bit_simps)
  show ?thesis using assms(6,5)
  proof (cases rule: insert_cases)
    case (fails e')
    then show ?thesis using sub assms(2,4) by (auto simp: used_def entry_fine_def)
  qed simp
qed

lemma entry_fine_at: "table_ok t \<Longrightarrow> i < IOS_HANDLE_TABLE_CAPACITY \<Longrightarrow> entry_fine (ht_entries t ! i)"
  by (simp add: table_ok_def entry_fine_def)

text \<open>A grant: a fresh handle with the object and kind of an existing capability and no more rights.\<close>

definition grants :: "('o \<times> ios_object_kind \<times> u64) \<Rightarrow> u64 \<Rightarrow> (ios_handle \<rightharpoonup> 'o \<times> ios_object_kind \<times> u64)
    \<Rightarrow> ios_handle \<Rightarrow> (ios_handle \<rightharpoonup> 'o \<times> ios_object_kind \<times> u64) \<Rightarrow> bool" where
  "grants c reduced m h m' \<longleftrightarrow> reduced AND NOT (snd (snd c)) = 0 \<and> m h = None \<and> m' = m(h \<mapsto> (fst c, fst (snd c), reduced))"

lemma duplicate_effect:
  assumes ok: "table_ok t" and dup: "handle_table_duplicate t h reduced w = (t', w', r)"
  shows "table_ok t' \<and> (case r of Inl e \<Rightarrow> caps t' = caps t
    | Inr h' \<Rightarrow> \<exists>c. caps t h = Some c \<and> snd (snd c) AND IOS_RIGHT_DUPLICATE \<noteq> 0 \<and> grants c reduced (caps t) h' (caps t'))"
  using ok
proof (cases rule: decode_cases [where h = h])
  case bad
  then show ?thesis using dup ok by (auto simp: handle_table_duplicate_def)
next
  case (good i)
  let ?e = "ht_entries t ! i"
  show ?thesis
  proof (cases "he_rights ?e AND IOS_RIGHT_DUPLICATE = 0 \<or> reduced AND NOT (he_rights ?e) \<noteq> 0
      \<or> he_release ?e \<noteq> None \<and> he_retain ?e = None")
    case True
    then show ?thesis using dup ok good(1) by (auto simp: handle_table_duplicate_def Let_def split: if_splits)
  next
    case False
    obtain d q where ins: "handle_table_insert t (he_object ?e) (he_kind ?e) reduced (he_retain ?e) (he_release ?e) = (d, q)"
      by (cases "handle_table_insert t (he_object ?e) (he_kind ?e) reduced (he_retain ?e) (he_release ?e)")
    have res: "t' = d \<and> r = q" using dup good(1) False ins
      by (cases q) (auto simp: handle_table_duplicate_def Let_def)
    show ?thesis using ok ins
    proof (cases rule: insert_cases)
      case (fails e)
      then show ?thesis using res ok by simp
    next
      case (enters j obj)
      then show ?thesis
        using res good False caps_None [OF ok enters(1,2)] by (simp add: grants_def cap_def)
    qed
  qed
qed

lemma transfer_effect:
  assumes ok: "\<forall>k. table_ok (s k)" and tr: "handle_table_transfer s a b h reduced closing w = (s', w', r)"
  shows "(\<forall>k. table_ok (s' k)) \<and> (case r of Inl e \<Rightarrow> \<forall>k. caps (s' k) = caps (s k)
    | Inr h' \<Rightarrow> \<exists>c m. caps (s a) h = Some c \<and> snd (snd c) AND IOS_RIGHT_TRANSFER \<noteq> 0
        \<and> grants c reduced (caps (s b)) h' m
        \<and> (\<forall>k. caps (s' k) = (let x = (if k = b then m else caps (s k)) in if k = a \<and> closing then x(h := None) else x)))"
proof -
  have oka: "table_ok (s a)" and okb: "table_ok (s b)" using ok by simp_all
  show ?thesis using oka
  proof (cases rule: decode_cases [where h = h])
    case bad
    then show ?thesis using tr ok by (auto simp: handle_table_transfer_def)
  next
    case (good i)
    let ?e = "ht_entries (s a) ! i"
    show ?thesis
    proof (cases "he_rights ?e AND IOS_RIGHT_TRANSFER = 0 \<or> reduced AND NOT (he_rights ?e) \<noteq> 0
        \<or> he_release ?e \<noteq> None \<and> he_retain ?e = None")
      case True
      then show ?thesis using tr ok good(1) by (auto simp: handle_table_transfer_def Let_def split: if_splits)
    next
      case False
      let ?w = "call_object (he_retain ?e) (he_object ?e) w"
      obtain d q where ins: "handle_table_insert (s b) (he_object ?e) (he_kind ?e) reduced (he_retain ?e) (he_release ?e) = (d, q)"
        by (cases "handle_table_insert (s b) (he_object ?e) (he_kind ?e) reduced (he_retain ?e) (he_release ?e)")
      show ?thesis using okb ins
      proof (cases rule: insert_cases)
        case (fails e)
        then show ?thesis using tr good(1) False ins ok by (auto simp: handle_table_transfer_def Let_def)
      next
        case (enters j obj)
        let ?s = "s(b := d)"
        have g: "grants (cap ?e) reduced (caps (s b)) (handle_at (s b) j) (caps d)"
          using False enters(4,6) caps_None [OF okb enters(1,2)] by (simp add: grants_def cap_def)
        have oks: "\<forall>k. table_ok (?s k)" using ok enters(5) by simp
        obtain t2 w2 q2 where cl: "handle_table_close (?s a) h ?w = (t2, w2, q2)"
          by (cases "handle_table_close (?s a) h ?w")
        have live: "caps (?s a) h \<noteq> None" using good(5) enters(6) by (auto simp: cap_def)
        have t2: "table_ok t2" "caps t2 = (caps (?s a))(h := None)"
          using oks [rule_format, of a] cl live by (cases rule: close_cases; simp)+
        have res: "r = Inr (handle_at (s b) j)" "s' = (if closing then ?s(a := t2) else ?s)"
          using tr good(1) False ins enters(3) cl
          by (auto simp: handle_table_transfer_def Let_def simp del: fun_upd_apply split: if_splits)
        have rights: "he_rights ?e AND IOS_RIGHT_TRANSFER \<noteq> 0" using False by blast
        have "\<forall>k. table_ok (s' k)" using res(2) t2(1) oks by simp
        moreover have "caps (s' k) = (let x = (if k = b then caps d else caps (s k))
            in if k = a \<and> closing then x(h := None) else x)" for k
          using res(2) t2(2) by (simp add: Let_def)
        ultimately show ?thesis using res(1) g good(5) rights by (auto simp: cap_def)
      qed
    qed
  qed
qed

lemma close_all_effect:
  assumes "table_ok t" and "set is \<subseteq> {..<IOS_HANDLE_TABLE_CAPACITY}" and "distinct is"
    and "close_all_loop is t w = (t', w')"
  shows "table_ok t' \<and> (\<forall>i \<in> set is. \<not> used (ht_entries t' ! i)) \<and> (\<forall>j. j \<notin> set is \<longrightarrow> ht_entries t' ! j = ht_entries t ! j)
    \<and> caps t' \<subseteq>\<^sub>m caps t
    \<and> w' = fold (\<lambda>i. call_object (he_release (ht_entries t ! i)) (he_object (ht_entries t ! i))) is w"
  using assms
proof (induction "is" arbitrary: t w)
  case (Cons i "is")
  have i: "i < IOS_HANDLE_TABLE_CAPACITY" using Cons.prems(2) by simp
  show ?case
  proof (cases "used (ht_entries t ! i)")
    case False
    then have "close_all_loop is t w = (t', w')" using Cons.prems(4) by (simp add: used_def)
    then have IH: "table_ok t' \<and> (\<forall>i \<in> set is. \<not> used (ht_entries t' ! i)) \<and> (\<forall>j. j \<notin> set is \<longrightarrow> ht_entries t' ! j = ht_entries t ! j)
      \<and> caps t' \<subseteq>\<^sub>m caps t
      \<and> w' = fold (\<lambda>i. call_object (he_release (ht_entries t ! i)) (he_object (ht_entries t ! i))) is w"
      using Cons.prems by (intro Cons.IH) auto
    have "call_object (he_release (ht_entries t ! i)) (he_object (ht_entries t ! i)) w = w"
      using False by (simp add: used_def call_object_def split: option.splits)
    then show ?thesis using IH False Cons.prems(3) by auto
  next
    case True
    obtain t1 w1 q where cl: "handle_table_close t (handle_at t i) w = (t1, w1, q)"
      by (cases "handle_table_close t (handle_at t i) w")
    have live: "caps t (handle_at t i) \<noteq> None" using caps_Some [OF Cons.prems(1)] i True by blast
    have rest: "close_all_loop is t1 w1 = (t', w')"
      using Cons.prems(4) True cl by (simp add: used_def handle_at_def)
    obtain j where j: "handle_at t i = handle_at t j" "j < IOS_HANDLE_TABLE_CAPACITY" "table_ok t1"
      "caps t1 = (caps t)(handle_at t i := None)" "\<not> used (ht_entries t1 ! j)"
      "w1 = call_object (he_release (ht_entries t ! j)) (he_object (ht_entries t ! j)) w"
      "\<And>k. k \<noteq> j \<Longrightarrow> ht_entries t1 ! k = ht_entries t ! k"
      using Cons.prems(1) cl live by (cases rule: close_cases) auto
    have ji: "j = i" using handle_at_inj [OF Cons.prems(1) j(2) i] j(1) by simp
    have IH: "table_ok t' \<and> (\<forall>i \<in> set is. \<not> used (ht_entries t' ! i)) \<and> (\<forall>j. j \<notin> set is \<longrightarrow> ht_entries t' ! j = ht_entries t1 ! j)
      \<and> caps t' \<subseteq>\<^sub>m caps t1
      \<and> w' = fold (\<lambda>i. call_object (he_release (ht_entries t1 ! i)) (he_object (ht_entries t1 ! i))) is w1"
      using Cons.prems j(3) rest by (intro Cons.IH) auto
    have rest_same: "ht_entries t1 ! k = ht_entries t ! k" if "k \<in> set is" for k
      using Cons.prems(3) j(7) ji that by (metis distinct.simps(2))
    have same: "fold (\<lambda>i. call_object (he_release (ht_entries t1 ! i)) (he_object (ht_entries t1 ! i))) is w1
      = fold (\<lambda>i. call_object (he_release (ht_entries t ! i)) (he_object (ht_entries t ! i))) is w1"
      by (intro fold_cong) (simp_all add: rest_same)
    have "caps t' \<subseteq>\<^sub>m caps t" using IH j(4) by (auto simp: map_le_def split: if_splits)
    then show ?thesis using IH same j(5-7) ji Cons.prems(3) by auto
  qed
qed simp

section \<open>Runs over several tables\<close>

text \<open>The operations that derive or drop handles, on a store of tables: everything a set of
  processes can do to its tables without the kernel inserting a new object.\<close>

inductive handle_step ::
  "('t \<Rightarrow> ('o, 'w) ios_handle_table) \<times> 'w \<Rightarrow> ('t \<Rightarrow> ('o, 'w) ios_handle_table) \<times> 'w \<Rightarrow> bool" where
  step_duplicate: "handle_table_duplicate (s k) h reduced w = (t, w', r) \<Longrightarrow> handle_step (s, w) (s(k := t), w')"
| step_transfer: "handle_table_transfer s a b h reduced closing w = (s', w', r') \<Longrightarrow> handle_step (s, w) (s', w')"
| step_close: "handle_table_close (s k) h w = (t, w', u) \<Longrightarrow> handle_step (s, w) (s(k := t), w')"
| step_close_all: "handle_table_close_all (s k) w = (t, w') \<Longrightarrow> handle_step (s, w) (s(k := t), w')"

definition authority :: "('t \<Rightarrow> ('o, 'w) ios_handle_table) \<Rightarrow> ('o \<times> ios_object_kind \<times> u64) set" where
  "authority s = {c. \<exists>k h. caps (s k) h = Some c}"

definition within :: "('o \<times> ios_object_kind \<times> u64) set \<Rightarrow> ('o \<times> ios_object_kind \<times> u64) set \<Rightarrow> bool" where
  "within A B \<longleftrightarrow> (\<forall>(obj, kind, rights) \<in> A. \<exists>rights'. (obj, kind, rights') \<in> B \<and> rights AND NOT rights' = 0)"

lemma within_refl: "within A A"
  unfolding within_def
proof (clarify)
  fix obj kind r assume "(obj, kind, r) \<in> A"
  then show "\<exists>r'. (obj, kind, r') \<in> A \<and> r AND NOT r' = 0" by (intro exI [of _ r]) simp
qed

lemma within_mono: "A \<subseteq> B \<Longrightarrow> within A B"
  using within_refl [of A] unfolding within_def by blast

lemma within_trans:
  assumes "within A B" and "within B C"
  shows "within A C"
  unfolding within_def
proof (clarify)
  fix obj kind r assume "(obj, kind, r) \<in> A"
  then obtain r1 where r1: "(obj, kind, r1) \<in> B" "r AND NOT r1 = 0" using assms(1) by (fastforce simp: within_def)
  then obtain r2 where r2: "(obj, kind, r2) \<in> C" "r1 AND NOT r2 = 0" using assms(2) by (fastforce simp: within_def)
  have "r AND NOT r2 = 0"
  proof (rule bit_eqI)
    fix n show "bit (r AND NOT r2) n = bit 0 n"
      using arg_cong [OF r1(2), of "\<lambda>x. bit x n"] arg_cong [OF r2(2), of "\<lambda>x. bit x n"] by (auto simp: bit_simps)
  qed
  then show "\<exists>rights'. (obj, kind, rights') \<in> C \<and> r AND NOT rights' = 0" using r2(1) by blast
qed

lemma within_grant:
  assumes "grants c reduced m h m'" and "c \<in> A" and "ran m \<subseteq> A"
  shows "within (ran m') A"
proof -
  have "within {(fst c, fst (snd c), reduced)} A" using assms(1,2) by (cases c) (auto simp: within_def grants_def)
  moreover have "within (ran m) A" using assms(3) by (rule within_mono)
  ultimately have "within (insert (fst c, fst (snd c), reduced) (ran m)) A" unfolding within_def by blast
  moreover have "ran m' \<subseteq> insert (fst c, fst (snd c), reduced) (ran m)"
    using assms(1) by (auto simp: grants_def ran_def split: if_splits)
  ultimately show ?thesis using within_trans [OF within_mono] by blast
qed

lemma authority_ran: "authority s = (\<Union>k. ran (caps (s k)))"
  by (auto simp: authority_def ran_def)

lemma authority_shrinks:
  assumes "ran (caps t) \<subseteq> ran (caps (s k))"
  shows "authority (s(k := t)) \<subseteq> authority s"
proof
  fix x assume "x \<in> authority (s(k := t))"
  then obtain j where "x \<in> ran (caps ((s(k := t)) j))" by (auto simp: authority_ran)
  then have "x \<in> ran (caps (s j))" using assms by (cases "j = k") auto
  then show "x \<in> authority s" by (auto simp: authority_ran)
qed

lemma within_UN: "(\<And>k. within (F k) B) \<Longrightarrow> within (\<Union>k. F k) B"
  unfolding within_def by blast

lemma handle_step_effect:
  assumes "handle_step p p'" and "\<forall>k. table_ok (fst p k)"
  shows "(\<forall>k. table_ok (fst p' k)) \<and> within (authority (fst p')) (authority (fst p))"
  using assms
proof cases
  case (step_duplicate s k h reduced w t w' r)
  have ok: "table_ok (s k)" using assms(2) step_duplicate(1) by simp
  note d = duplicate_effect [OF ok step_duplicate(3)]
  have "within (ran (caps t)) (authority s)"
  proof (cases r)
    case (Inl e)
    then show ?thesis using d by (auto intro!: within_mono simp: authority_ran)
  next
    case (Inr h')
    then obtain c where "caps (s k) h = Some c" "grants c reduced (caps (s k)) h' (caps t)" using d by auto
    then show ?thesis by (intro within_grant) (auto simp: authority_def ran_def)
  qed
  moreover have "within (ran (caps (s j))) (authority s)" for j by (rule within_mono) (auto simp: authority_ran)
  ultimately have "within (\<Union>j. ran (caps ((s(k := t)) j))) (authority s)" by (intro within_UN) simp
  then show ?thesis using step_duplicate d assms(2) by (simp add: authority_ran)
next
  case (step_transfer s a b h reduced closing w s' w' r')
  have ok: "\<forall>k. table_ok (s k)" using assms(2) step_transfer(1) by simp
  note d = transfer_effect [OF ok step_transfer(3)]
  have "within (ran (caps (s' k))) (authority s)" for k
  proof (cases r')
    case (Inl e)
    then show ?thesis using d by (auto intro!: within_mono simp: authority_ran)
  next
    case (Inr h')
    then obtain c m where c: "caps (s a) h = Some c" "grants c reduced (caps (s b)) h' m"
      "caps (s' k) = (let x = (if k = b then m else caps (s k)) in if k = a \<and> closing then x(h := None) else x)"
      using d by auto
    have "within (ran m) (authority s)" using c(1,2) by (intro within_grant [OF c(2)]) (auto simp: authority_def ran_def)
    moreover have "within (ran (caps (s k))) (authority s)" by (rule within_mono) (auto simp: authority_ran)
    ultimately have "within (ran (if k = b then m else caps (s k))) (authority s)" by simp
    moreover have "ran (caps (s' k)) \<subseteq> ran (if k = b then m else caps (s k))"
      using c(3) by (auto simp: Let_def ran_def split: if_splits)
    ultimately show ?thesis using within_trans [OF within_mono] by blast
  qed
  then show ?thesis using step_transfer d by (simp add: authority_ran within_UN)
next
  case (step_close s k h w t w' u)
  have ok: "table_ok (s k)" using assms(2) step_close(1) by simp
  have d: "table_ok t \<and> ran (caps t) \<subseteq> ran (caps (s k))"
    using ok step_close(3) by (cases rule: close_cases) (auto simp: ok ran_def split: if_splits)
  then show ?thesis using step_close assms(2) authority_shrinks [of t s k] by (simp add: within_mono)
next
  case (step_close_all s k w t w')
  have ok: "table_ok (s k)" using assms(2) step_close_all(1) by simp
  then have "ht_owner_tag (s k) \<noteq> 0" by (auto simp: table_ok_def)
  then have "close_all_loop [0..<IOS_HANDLE_TABLE_CAPACITY] (s k) w = (t, w')"
    using step_close_all(3) by (simp add: handle_table_close_all_def)
  then have "table_ok t \<and> caps t \<subseteq>\<^sub>m caps (s k)" using close_all_effect [OF ok] by (metis atLeast_upt distinct_upt order_refl set_upt)
  then have d: "table_ok t \<and> ran (caps t) \<subseteq> ran (caps (s k))" by (auto simp: map_le_def ran_def dom_def) (metis option.distinct(1))
  then show ?thesis using step_close_all assms(2) authority_shrinks [of t s k] by (simp add: within_mono)
qed

lemma handle_run_effect:
  assumes "handle_step\<^sup>*\<^sup>* p p'" and "\<forall>k. table_ok (fst p k)"
  shows "(\<forall>k. table_ok (fst p' k)) \<and> within (authority (fst p')) (authority (fst p))"
  using assms
proof (induction rule: rtranclp_induct)
  case (step y z)
  then show ?case using handle_step_effect [OF step(2)] within_trans by blast
qed (simp add: within_refl)

section \<open>Reuse of slots\<close>

text \<open>What one owner does to its own table, with the number of closes.\<close>

inductive table_run :: "('o, 'w) ios_handle_table \<Rightarrow> nat \<Rightarrow> ('o, 'w) ios_handle_table \<Rightarrow> bool" where
  run_start: "table_run t 0 t"
| run_insert: "table_run t n t' \<Longrightarrow> handle_table_insert t' object kind rights retain release = (t'', r) \<Longrightarrow> table_run t n t''"
| run_duplicate: "table_run t n t' \<Longrightarrow> handle_table_duplicate t' h reduced w = (t'', w', r) \<Longrightarrow> table_run t n t''"
| run_close: "table_run t n t' \<Longrightarrow> handle_table_close t' h w = (t'', w', u) \<Longrightarrow> table_run t (n + 1) t''"

lemma insert_counter:
  assumes "table_ok t" and "handle_table_insert t object kind rights retain release = (t', r)"
  shows "table_ok t' \<and> counter t' i = counter t i \<and> ht_owner_tag t' = ht_owner_tag t"
  using assms
proof (cases rule: insert_cases)
  case (enters j obj)
  have "length (ht_entries t) = IOS_HANDLE_TABLE_CAPACITY" using assms(1) by (simp add: table_ok_def)
  then show ?thesis using enters by (cases "j = i") (simp_all add: counter_def)
qed (use assms(1) in simp)

lemma duplicate_counter:
  assumes "table_ok t" and "handle_table_duplicate t h reduced w = (t', w', r)"
  shows "table_ok t' \<and> counter t' i = counter t i \<and> ht_owner_tag t' = ht_owner_tag t"
proof -
  have "t' = t \<or> (\<exists>object kind retain release q. handle_table_insert t object kind reduced retain release = (t', q))"
    using assms(2) by (fastforce simp: handle_table_duplicate_def Let_def split: sum.splits if_splits prod.splits)
  then show ?thesis using assms(1) insert_counter by blast
qed

lemma close_counter:
  assumes "table_ok t" and "handle_table_close t h w = (t', w', r)"
  shows "table_ok t' \<and> counter t' i \<in> {counter t i, step_counter (counter t i)} \<and> ht_owner_tag t' = ht_owner_tag t"
  using assms
proof (cases rule: close_cases)
  case (closes j)
  then show ?thesis by (cases "j = i") (simp_all add: counter_def)
qed (use assms(1) in simp)

lemma run_counter:
  assumes "table_run t n t'" and "table_ok t"
  shows "table_ok t' \<and> ht_owner_tag t' = ht_owner_tag t \<and> (\<exists>m \<le> n. counter t' i = (step_counter ^^ m) (counter t i))"
  using assms
proof (induction rule: table_run.induct)
  case (run_insert t n t' object kind rights retain release t'' r)
  then show ?case using insert_counter by metis
next
  case (run_duplicate t n t' h reduced w t'' w' r)
  then show ?case using duplicate_counter by metis
next
  case (run_close t n t' h w t'' w' u)
  then obtain m where m: "m \<le> n" "counter t' i = (step_counter ^^ m) (counter t i)" and ok: "table_ok t'"
    "ht_owner_tag t' = ht_owner_tag t" by blast
  have "counter t'' i \<in> {counter t' i, step_counter (counter t' i)}" using close_counter [OF ok(1) run_close(2)] by blast
  then have "\<exists>m' \<le> n + 1. counter t'' i = (step_counter ^^ m') (counter t i)"
    using m by (elim insertE) (auto intro: exI [of _ m] exI [of _ "Suc m"])
  then show ?case using close_counter [OF ok(1) run_close(2)] ok(2) by simp
qed auto

lemma step_counter_power:
  assumes "0 < c" and "c < 2 ^ 24"
  shows "(step_counter ^^ k) c = (c - 1 + k) mod (2 ^ 24 - 1) + 1"
proof (induction k)
  case (Suc k)
  have "(step_counter ^^ Suc k) c = step_counter ((c - 1 + k) mod (2 ^ 24 - 1) + 1)" using Suc by simp
  also have "\<dots> = ((c - 1 + k) mod (2 ^ 24 - 1) + 1) mod (2 ^ 24 - 1) + 1"
    using mod_less_divisor [of "2 ^ 24 - 1" "c - 1 + k"] by (auto simp: step_counter_def mod_Suc)
  finally show ?case by (simp add: mod_Suc_eq)
qed (use assms in simp)

lemma step_counter_no_return:
  assumes "0 < c" and "c < 2 ^ 24" and "0 < k" and "k < 2 ^ 24 - 1"
  shows "(step_counter ^^ k) c \<noteq> c"
proof
  assume "(step_counter ^^ k) c = c"
  then have "(c - 1 + k) mod (2 ^ 24 - 1) = c - 1" using step_counter_power [OF assms(1,2), of k] assms(1) by linarith
  then show False using assms by (cases "c - 1 + k < 2 ^ 24 - 1") (auto simp: le_mod_geq)
qed

lemma owner_tag_range: "0 < unat (owner_tag_from_identity x) \<and> unat (owner_tag_from_identity x) < 2 ^ 24"
proof -
  define y :: u32 where "y = ucast (x XOR drop_bit 24 x XOR drop_bit 48 x) AND 0x00ffffff"
  have "y = take_bit 24 (ucast (x XOR drop_bit 24 x XOR drop_bit 48 x))"
    by (simp add: y_def take_bit_eq_mask mask_eq_exp_minus_1)
  then have "unat y = take_bit 24 (unat (ucast (x XOR drop_bit 24 x XOR drop_bit 48 x) :: u32))"
    by (simp only: unsigned_take_bit_eq)
  then have "unat y < 2 ^ 24" by (simp only: take_bit_nat_less_exp)
  moreover have "owner_tag_from_identity x = (if y = 0 then 1 else y)"
    by (simp add: owner_tag_from_identity_def Let_def y_def)
  ultimately show ?thesis by (auto simp: word_unat_eq_iff)
qed

lemma initialize_ok:
  assumes "handle_table_initialize x = Inr t"
  shows "table_ok t \<and> caps t = Map.empty"
proof -
  have t: "t = \<lparr>ht_entries = replicate IOS_HANDLE_TABLE_CAPACITY
               \<lparr>he_object = None, he_rights = 0, he_generation = initial_generation (owner_tag_from_identity x),
                he_kind = IOS_OBJECT_NONE, he_retain = None, he_release = None\<rparr>,
             ht_owner_tag = owner_tag_from_identity x, ht_open_count = 0\<rparr>"
    using assms by (auto simp: handle_table_initialize_def Let_def split: if_splits)
  note tag = owner_tag_range [of x]
  have "unat (initial_generation (owner_tag_from_identity x)) = gen (owner_tag_from_identity x) 1"
    using tag by (intro initial_gen) simp
  then have ok: "table_ok t"
    using tag gen_split [of 1 "owner_tag_from_identity x"] by (simp add: table_ok_def t counter_def used_def)
  have "caps t h \<noteq> Some c" for h c using caps_Some [OF ok, of h c] by (simp add: t used_def)
  then show ?thesis using ok by (metis not_None_eq ext)
qed

section \<open>Properties\<close>

text \<open>Inserting an object adds exactly one capability under a handle that meant nothing before and
  is never the invalid handle; it fails only for a bad argument or when all slots are used, and
  then changes nothing. The invariant is kept, the open count exact.\<close>

theorem handle_insert_correct:
  assumes "table_ok t" and "handle_table_insert t object kind rights retain release = (t', r)"
  shows "table_ok t' \<and> (case r of
      Inr h \<Rightarrow> h \<noteq> IOS_INVALID_HANDLE \<and> caps t h = None
        \<and> (\<exists>obj. object = Some obj \<and> caps t' = (caps t)(h \<mapsto> (obj, kind, rights)))
    | Inl e \<Rightarrow> t' = t \<and> ((object = None \<or> kind = IOS_OBJECT_NONE \<or> rights AND NOT IOS_RIGHT_ALL \<noteq> 0)
                         \<and> e = IOS_E_INVALID_ARGUMENT
                       \<or> list_all (\<lambda>e. he_object e \<noteq> None) (ht_entries t) \<and> e = IOS_E_NO_SPACE))"
  using assms
proof (cases rule: insert_cases)
  case (fails e)
  then show ?thesis using assms(1) by (simp add: used_def [abs_def])
next
  case (enters i obj)
  have "handle_at t i \<noteq> 0"
    using unat_encode [OF enters(1) table_ok_gen [OF assms(1) enters(1)]] by (auto simp: handle_at_def)
  then show ?thesis using enters caps_None [OF assms(1) enters(1,2)] by auto
qed

text \<open>Resolving a handle answers exactly from the capability map: it returns the object if and
  only if the handle is live with the expected kind and all the required rights.\<close>

theorem handle_resolve_exact:
  assumes "table_ok t"
  shows "handle_table_resolve t h kind required = Inr obj \<longleftrightarrow>
    kind \<noteq> IOS_OBJECT_NONE \<and> required AND NOT IOS_RIGHT_ALL = 0
    \<and> (\<exists>rights. caps t h = Some (obj, kind, rights) \<and> rights AND required = required)"
  using assms
proof (cases rule: decode_cases [where h = h])
  case bad
  then show ?thesis by (simp add: handle_table_resolve_def)
next
  case (good i)
  obtain x where x: "he_object (ht_entries t ! i) = Some x" using good(3) by (auto simp: used_def)
  show ?thesis using good(1,5) x by (auto simp: handle_table_resolve_def Let_def cap_def)
qed

text \<open>C13: Authority is confined. However a set of tables duplicates, transfers (within one table too),
  closes one handle or all of them, every table keeps its invariant, and every capability in any
  table afterwards has the object and kind of one that existed before and no right beyond it.\<close>

theorem handle_authority_confined:
  assumes "\<forall>k. table_ok (s k)" and "handle_step\<^sup>*\<^sup>* (s, w) (s', w')"
    and "caps (s' k) h = Some (obj, kind, rights)"
  shows "(\<forall>k. table_ok (s' k))
    \<and> (\<exists>k0 h0 rights0. caps (s k0) h0 = Some (obj, kind, rights0) \<and> rights AND NOT rights0 = 0)"
proof -
  note run = handle_run_effect [OF assms(2)]
  have ok: "\<forall>k. table_ok (s' k)" and "within (authority s') (authority s)" using run assms(1) by simp_all
  moreover have "(obj, kind, rights) \<in> authority s'" using assms(3) by (auto simp: authority_def)
  ultimately show ?thesis unfolding within_def by (fastforce simp: authority_def)
qed

text \<open>C14: A closed handle stays dead. After a handle is closed, whatever its owner inserts, duplicates
  and closes, it resolves to nothing as long as fewer than \<open>2 ^ 24 - 2\<close> closes follow, which is one
  full turn of the 24-bit generation counter.\<close>

theorem handle_stale_dead:
  assumes "table_ok t" and "handle_table_close t h w = (t1, w1, Inr ())" and "table_run t1 n t2"
    and "n + 1 < 2 ^ 24 - 1"
  shows "caps t2 h = None"
  using assms(1,2)
proof (cases rule: close_cases)
  case (closes i)
  have c: "0 < counter t i" "counter t i < 2 ^ 24" using assms(1) closes(2) by (simp_all add: table_ok_def counter_def)
  obtain m where m: "m \<le> n" "counter t2 i = (step_counter ^^ m) (counter t1 i)" and ok2: "table_ok t2"
    using run_counter [OF assms(3) closes(5), of i] by blast
  have "counter t2 i = (step_counter ^^ Suc m) (counter t i)"
    using m(2) closes(9) by (simp add: funpow_swap1)
  then have ne: "counter t2 i \<noteq> counter t i" using step_counter_no_return [OF c, of "Suc m"] m(1) assms(4) by simp
  have "caps t2 h \<noteq> Some x" for x
  proof
    assume "caps t2 h = Some x"
    then obtain j where j: "j < IOS_HANDLE_TABLE_CAPACITY" "h = handle_at t2 j" using caps_Some [OF ok2] by blast
    then have "i = j \<and> he_generation (ht_entries t ! i) = he_generation (ht_entries t2 ! j)"
      using handle_at_eq [OF assms(1) ok2 closes(2) j(1)] closes(3) by metis
    then show False using ne unfolding counter_def by metis
  qed
  then show ?thesis by (cases "caps t2 h") auto
qed simp

text \<open>Two tables whose owners have different tags never accept the same handle.\<close>

theorem handle_owner_separation:
  assumes "table_ok t" and "table_ok t'" and "ht_owner_tag t \<noteq> ht_owner_tag t'" and "caps t h \<noteq> None"
  shows "caps t' h = None"
proof (rule ccontr)
  assume "caps t' h \<noteq> None"
  then obtain i j where i: "i < IOS_HANDLE_TABLE_CAPACITY" "h = handle_at t i"
    and j: "j < IOS_HANDLE_TABLE_CAPACITY" "h = handle_at t' j"
    using assms(4) caps_Some [OF assms(1)] caps_Some [OF assms(2)] by blast
  have "he_generation (ht_entries t ! i) = he_generation (ht_entries t' ! j)"
    using handle_at_eq [OF assms(1,2) i(1) j(1)] i(2) j(2) by metis
  moreover have "unat (he_generation (ht_entries t ! i)) = gen (ht_owner_tag t) (counter t i)" "counter t i < 2 ^ 24"
    "unat (he_generation (ht_entries t' ! j)) = gen (ht_owner_tag t') (counter t' j)" "counter t' j < 2 ^ 24"
    using assms(1,2) i(1) j(1) by (simp_all add: table_ok_def counter_def)
  ultimately have "unat (ht_owner_tag t) = unat (ht_owner_tag t')" using gen_split by metis
  then show False using assms(3) by (simp add: word_unat_eq_iff)
qed

text \<open>C15: Closing all handles terminates with an empty table, an open count of zero, and every held
  object released exactly once, in slot order.\<close>

theorem handle_close_all_correct:
  assumes "table_ok t" and "handle_table_close_all t w = (t', w')"
  shows "table_ok t' \<and> caps t' = Map.empty \<and> handle_table_open_count t' = 0
    \<and> w' = fold (\<lambda>e. call_object (he_release e) (he_object e)) (ht_entries t) w"
proof -
  have tag: "ht_owner_tag t \<noteq> 0" using assms(1) by (auto simp: table_ok_def)
  have len: "length (ht_entries t) = IOS_HANDLE_TABLE_CAPACITY" using assms(1) by (simp add: table_ok_def)
  have loop: "close_all_loop [0..<IOS_HANDLE_TABLE_CAPACITY] t w = (t', w')"
    using assms(2) tag by (simp add: handle_table_close_all_def del: upt_Suc)
  have sub: "set [0..<IOS_HANDLE_TABLE_CAPACITY] \<subseteq> {..<IOS_HANDLE_TABLE_CAPACITY}" by (simp only: set_upt) auto
  note eff = close_all_effect [OF assms(1) sub distinct_upt loop]
  have dead: "\<not> used (ht_entries t' ! i)" if "i < IOS_HANDLE_TABLE_CAPACITY" for i
    using eff that by (simp only: set_upt atLeastLessThan_iff Ball_def) blast
  have ok': "table_ok t'" using eff by blast
  have "caps t' h \<noteq> Some c" for h c using caps_Some [OF ok'] dead by blast
  then have "caps t' = Map.empty" by (metis not_None_eq ext)
  moreover have "length (ht_entries t') = IOS_HANDLE_TABLE_CAPACITY" using ok' by (simp add: table_ok_def)
  then have "filter used (ht_entries t') = []" using dead by (auto simp: filter_empty_conv in_set_conv_nth)
  then have "handle_table_open_count t' = 0" using ok' by (simp add: table_ok_def handle_table_open_count_def word_unat_eq_iff)
  moreover have "fold (\<lambda>i. call_object (he_release (ht_entries t ! i)) (he_object (ht_entries t ! i))) [0..<IOS_HANDLE_TABLE_CAPACITY] w
    = fold (\<lambda>e. call_object (he_release e) (he_object e)) (map ((!) (ht_entries t)) [0..<length (ht_entries t)]) w"
    by (simp only: fold_map len comp_def)
  ultimately show ?thesis using eff ok' by (simp only: map_nth)
qed

section \<open>Witnesses\<close>

text \<open>The table of owner 7 holding object 5, released into a log.\<close>

definition empty_table :: "u64 \<Rightarrow> (nat, nat list) ios_handle_table" where
  "empty_table identity = projr (handle_table_initialize identity)"

definition file_insert :: "u64 \<Rightarrow> (nat, nat list) ios_handle_table \<times> ios_handle res" where
  "file_insert identity = handle_table_insert (empty_table identity) (Some 5) IOS_OBJECT_FILE 0x31 (Some (#)) (Some (#))"

definition file_table :: "u64 \<Rightarrow> (nat, nat list) ios_handle_table" where
  "file_table identity = fst (file_insert identity)"

definition file_handle :: "u64 \<Rightarrow> ios_handle" where
  "file_handle identity = projr (snd (file_insert identity))"

lemma empty_table_ok: "identity \<noteq> 0 \<Longrightarrow> table_ok (empty_table identity) \<and> caps (empty_table identity) = Map.empty"
  using initialize_ok [of identity "empty_table identity"] by (simp add: empty_table_def handle_table_initialize_def Let_def)

lemma file_table_ok:
  assumes "identity \<noteq> 0"
  shows "file_insert identity = (file_table identity, Inr (file_handle identity)) \<and> table_ok (file_table identity)
    \<and> caps (file_table identity) = [file_handle identity \<mapsto> (5, IOS_OBJECT_FILE, 0x31)]"
proof -
  obtain t r where ins: "handle_table_insert (empty_table identity) (Some 5) IOS_OBJECT_FILE 0x31 (Some (#)) (Some (#)) = (t, r)"
    by (cases "handle_table_insert (empty_table identity) (Some 5) IOS_OBJECT_FILE 0x31 (Some (#)) (Some (#))")
  have ok: "table_ok (empty_table identity)" using empty_table_ok [OF assms] by simp
  have free: "\<not> list_all used (ht_entries (empty_table identity))"
    using assms by (simp add: empty_table_def handle_table_initialize_def Let_def used_def list_all_iff)
  show ?thesis using ok ins
  proof (cases rule: insert_cases)
    case (fails e)
    then show ?thesis using free by simp
  next
    case (enters i obj)
    then show ?thesis using ins empty_table_ok [OF assms] by (simp add: file_table_def file_handle_def file_insert_def)
  qed
qed

theorem handle_insert_correct_witness: "caps (file_table 7) (file_handle 7) = Some (5, IOS_OBJECT_FILE, 0x31)"
  using handle_insert_correct [OF _ file_table_ok [THEN conjunct1, unfolded file_insert_def], of 7] empty_table_ok [of 7]
  by auto

theorem handle_resolve_exact_witness: "handle_table_resolve (file_table 7) (file_handle 7) IOS_OBJECT_FILE IOS_RIGHT_READ = Inr 5"
  using handle_resolve_exact [of "file_table 7" "file_handle 7" IOS_OBJECT_FILE IOS_RIGHT_READ 5] file_table_ok [of 7] by simp

theorem handle_authority_confined_witness:
  "\<exists>k h rights. caps ((\<lambda>_ :: unit. file_table 7) k) h = Some (5, IOS_OBJECT_FILE, rights) \<and> 0x31 AND NOT rights = 0"
proof -
  let ?s = "\<lambda>_ :: unit. file_table 7"
  obtain t w r where dup: "handle_table_duplicate (?s ()) (file_handle 7) IOS_RIGHT_READ [] = (t, w, r)"
    by (cases "handle_table_duplicate (?s ()) (file_handle 7) IOS_RIGHT_READ []")
  have ok: "table_ok (file_table 7)" using file_table_ok [of 7] by simp
  have run: "handle_step\<^sup>*\<^sup>* (?s, []) (?s(() := t), w)"
    using step_duplicate [of ?s, OF dup] by blast
  have "caps t (file_handle 7) = Some (5, IOS_OBJECT_FILE, 0x31)"
    using duplicate_effect [OF ok dup] file_table_ok [of 7]
    by (cases r) (auto simp: grants_def)
  then show ?thesis
    using handle_authority_confined [OF _ run, of "()" "file_handle 7" 5 IOS_OBJECT_FILE "0x31"] ok by auto
qed

lemma file_close: "\<exists>t w. handle_table_close (file_table 7) (file_handle 7) [] = (t, w, Inr ())"
proof -
  obtain t w u where cl: "handle_table_close (file_table 7) (file_handle 7) [] = (t, w, u)"
    by (cases "handle_table_close (file_table 7) (file_handle 7) []")
  note f = file_table_ok [of 7]
  have "table_ok (file_table 7)" using f by simp
  then have "u = Inr ()" using cl by (cases rule: close_cases) (use f in auto)
  then show ?thesis using cl by blast
qed

theorem handle_stale_dead_witness:
  "\<exists>t w. handle_table_close (file_table 7) (file_handle 7) [] = (t, w, Inr ()) \<and> caps t (file_handle 7) = None"
proof -
  obtain t w where cl: "handle_table_close (file_table 7) (file_handle 7) [] = (t, w, Inr ())" using file_close by blast
  then show ?thesis using handle_stale_dead [OF _ cl run_start] file_table_ok [of 7] by simp
qed

lemma file_table_tag: "identity \<noteq> 0 \<Longrightarrow> ht_owner_tag (file_table identity) = owner_tag_from_identity identity"
  using insert_counter [OF _ file_table_ok [THEN conjunct1, unfolded file_insert_def], of identity] empty_table_ok [of identity]
  by (simp add: empty_table_def handle_table_initialize_def Let_def)

theorem handle_owner_separation_witness: "caps (file_table 8) (file_handle 7) = None"
proof -
  have "ht_owner_tag (file_table 7) \<noteq> ht_owner_tag (file_table 8)"
    by (simp add: file_table_tag owner_tag_from_identity_def Let_def drop_bit_eq_div)
  then show ?thesis
    using handle_owner_separation [of "file_table 7" "file_table 8" "file_handle 7"] file_table_ok [of 7] file_table_ok [of 8]
    by simp
qed

theorem handle_close_all_correct_witness:
  "caps (fst (handle_table_close_all (file_table 7) [])) = Map.empty"
  using handle_close_all_correct [of "file_table 7" "[]", OF _ surjective_pairing] file_table_ok [of 7] by simp

end
