(* ===== verification/Kernel_Scheduler.thy ===== *)
theory Kernel_Scheduler
  imports IOS_Prelude
begin

text \<open>
  The scheduler and its wait queues (scheduler.h, scheduler.c, wait_queue.c), with the part of a
  process that it uses (process.h, \<open>process_activate\<close>). Tasks are slots of a table and are named
  by their index, the idle task apart; a wait queue is a linked list through the tasks' next
  fields, kept in a store of queues. A failed kernel assertion is the value None. Interrupt
  masking is atomicity of the operations. The theorems relate the linked queues to lists, show
  what the selection order guarantees, and what a timer interrupt does to a user context.
\<close>

section \<open>State\<close>

abbreviation IOS_SCHEDULER_MAX_TASKS :: nat where "IOS_SCHEDULER_MAX_TASKS \<equiv> 64"
abbreviation IOS_SCHEDULER_USER_PRIORITY :: nat where "IOS_SCHEDULER_USER_PRIORITY \<equiv> 0"
abbreviation IOS_SCHEDULER_KERNEL_PRIORITY_LOW :: nat where "IOS_SCHEDULER_KERNEL_PRIORITY_LOW \<equiv> 1"
abbreviation IOS_SCHEDULER_KERNEL_PRIORITY_RECOVERY :: nat where "IOS_SCHEDULER_KERNEL_PRIORITY_RECOVERY \<equiv> 4"

text \<open>A cleared task has kind 0, which is no enumerator.\<close>

abbreviation IOS_TASK_USER_PROCESS :: nat where "IOS_TASK_USER_PROCESS \<equiv> 1"
abbreviation IOS_TASK_KERNEL_WORK :: nat where "IOS_TASK_KERNEL_WORK \<equiv> 2"
abbreviation IOS_TASK_IDLE :: nat where "IOS_TASK_IDLE \<equiv> 3"

datatype ios_scheduler_task_state =
  IOS_TASK_UNUSED | IOS_TASK_RUNNABLE | IOS_TASK_RUNNING | IOS_TASK_BLOCKED | IOS_TASK_EXITED

datatype ios_process_state = IOS_PROCESS_UNUSED | IOS_PROCESS_CREATED | IOS_PROCESS_RUNNABLE | IOS_PROCESS_EXITED

record x86_64_user_context =
  uc_r15 :: u64  uc_r14 :: u64  uc_r13 :: u64  uc_r12 :: u64  uc_r11 :: u64  uc_r10 :: u64
  uc_r9 :: u64  uc_r8 :: u64  uc_rdi :: u64  uc_rsi :: u64  uc_rbp :: u64  uc_rdx :: u64
  uc_rcx :: u64  uc_rbx :: u64  uc_rax :: u64
  uc_instruction_pointer :: u64
  uc_flags :: u64
  uc_stack_pointer :: u64

text \<open>The frame that the entry path saves, with the two words that follow it on an interrupt
  from user mode.\<close>

record x86_64_interrupt_frame =
  if_r15 :: u64  if_r14 :: u64  if_r13 :: u64  if_r12 :: u64  if_r11 :: u64  if_r10 :: u64
  if_r9 :: u64  if_r8 :: u64  if_rdi :: u64  if_rsi :: u64  if_rbp :: u64  if_rdx :: u64
  if_rcx :: u64  if_rbx :: u64  if_rax :: u64
  if_vector :: u64
  if_error_code :: u64
  if_rip :: u64
  if_cs :: u64
  if_rflags :: u64
  if_user_rsp :: u64
  if_user_ss :: u64

record ios_process =
  pr_state :: ios_process_state
  pr_root_address :: u64
  pr_kernel_stack_address :: u64
  pr_kernel_stack_pages :: u64
  pr_user_context :: x86_64_user_context
  pr_exit_status :: u64

record ios_wait_queue =
  wq_head :: "nat option"
  wq_tail :: "nat option"

datatype task_ref = Idle | Task nat

record ('p, 'q) ios_scheduler_task =
  tk_task_id :: u64
  tk_kind :: nat
  tk_state :: ios_scheduler_task_state
  tk_priority :: nat
  tk_process :: "'p option"
  tk_wait_queue :: "'q option"
  tk_wait_next :: "nat option"
  tk_exit_status :: u64

record ('p, 'q) scheduler =
  sc_tasks :: "('p, 'q) ios_scheduler_task list"
  sc_idle_task :: "('p, 'q) ios_scheduler_task"
  sc_current_task :: "task_ref option"
  sc_deferred_exit_task :: "nat option"
  sc_last_selected :: "nat list"
  sc_ticks :: u64
  sc_next_task_id :: u64
  sc_ready :: bool
  sc_queues :: "'q \<Rightarrow> ios_wait_queue"
  sc_processes :: "'p \<Rightarrow> ios_process"
  sc_active :: "('p \<times> u64) option"

text \<open>\<open>sc_active\<close> is the hardware state that \<open>process_activate\<close> sets: whose address space is
  loaded, and the kernel stack of the next entry.\<close>

definition zero_task :: "('p, 'q) ios_scheduler_task" where
  "zero_task = \<lparr>tk_task_id = 0, tk_kind = 0, tk_state = IOS_TASK_UNUSED, tk_priority = 0, tk_process = None,
     tk_wait_queue = None, tk_wait_next = None, tk_exit_status = 0\<rparr>"

definition task_of :: "('p, 'q) scheduler \<Rightarrow> task_ref \<Rightarrow> ('p, 'q) ios_scheduler_task" where
  "task_of s r = (case r of Idle \<Rightarrow> sc_idle_task s | Task i \<Rightarrow> sc_tasks s ! i)"

definition put_task ::
  "task_ref \<Rightarrow> ('p, 'q) ios_scheduler_task \<Rightarrow> ('p, 'q) scheduler \<Rightarrow> ('p, 'q) scheduler" where
  "put_task r t s = (case r of Idle \<Rightarrow> s\<lparr>sc_idle_task := t\<rparr> | Task i \<Rightarrow> s\<lparr>sc_tasks := (sc_tasks s)[i := t]\<rparr>)"

definition set_state ::
  "task_ref \<Rightarrow> ios_scheduler_task_state \<Rightarrow> ('p, 'q) scheduler \<Rightarrow> ('p, 'q) scheduler" where
  "set_state r st s = put_task r ((task_of s r)\<lparr>tk_state := st\<rparr>) s"

section \<open>Wait queues\<close>

definition wait_queue_initialize :: ios_wait_queue where
  "wait_queue_initialize = \<lparr>wq_head = None, wq_tail = None\<rparr>"

definition link_after ::
  "'q \<Rightarrow> nat option \<Rightarrow> nat option \<Rightarrow> ('p, 'q) scheduler \<Rightarrow> ('p, 'q) scheduler" where
  "link_after queue previous next_task s =
     (case previous of
        None \<Rightarrow> s\<lparr>sc_queues := (sc_queues s)(queue := (sc_queues s queue)\<lparr>wq_head := next_task\<rparr>)\<rparr>
      | Some p \<Rightarrow> s\<lparr>sc_tasks := (sc_tasks s)[p := (sc_tasks s ! p)\<lparr>tk_wait_next := next_task\<rparr>]\<rparr>)"

definition unlink :: "'q \<Rightarrow> nat \<Rightarrow> nat option \<Rightarrow> ('p, 'q) scheduler \<Rightarrow> ('p, 'q) scheduler" where
  "unlink queue current previous s =
     (let s = link_after queue previous (tk_wait_next (sc_tasks s ! current)) s;
          s = (if wq_tail (sc_queues s queue) = Some current
               then s\<lparr>sc_queues := (sc_queues s)(queue := (sc_queues s queue)\<lparr>wq_tail := previous\<rparr>)\<rparr> else s)
      in s\<lparr>sc_tasks := (sc_tasks s)[current := (sc_tasks s ! current)\<lparr>tk_wait_next := None, tk_wait_queue := None\<rparr>]\<rparr>)"

fun remove_loop ::
  "nat \<Rightarrow> 'q \<Rightarrow> nat \<Rightarrow> nat option \<Rightarrow> nat option \<Rightarrow> ('p, 'q) scheduler \<Rightarrow> ('p, 'q) scheduler" where
  "remove_loop 0 queue task previous current s = s"
| "remove_loop (Suc fuel) queue task previous current s =
     (case current of
        None \<Rightarrow> s
      | Some c \<Rightarrow> if c = task then unlink queue c previous s
                  else remove_loop fuel queue task (Some c) (tk_wait_next (sc_tasks s ! c)) s)"

text \<open>A queue of distinct tasks has at most as many members as the table has slots, which bounds the
  loop.\<close>

definition wait_queue_remove :: "'q \<Rightarrow> nat \<Rightarrow> ('p, 'q) scheduler \<Rightarrow> ('p, 'q) scheduler" where
  "wait_queue_remove queue task s =
     remove_loop (IOS_SCHEDULER_MAX_TASKS + 1) queue task None (wq_head (sc_queues s queue)) s"

definition scheduler_wake_task :: "nat \<Rightarrow> ('p, 'q) scheduler \<Rightarrow> ('p, 'q) scheduler \<times> unit res" where
  "scheduler_wake_task task s =
     (if \<not> sc_ready s \<or> tk_state (sc_tasks s ! task) \<noteq> IOS_TASK_BLOCKED then (s, Inl IOS_E_INVALID_STATE)
      else let s = (case tk_wait_queue (sc_tasks s ! task) of None \<Rightarrow> s | Some queue \<Rightarrow> wait_queue_remove queue task s)
           in (set_state (Task task) IOS_TASK_RUNNABLE s, Inr ()))"

definition wait_queue_wake_one :: "'q \<Rightarrow> ('p, 'q) scheduler \<Rightarrow> ('p, 'q) scheduler \<times> nat option" where
  "wait_queue_wake_one queue s =
     (case wq_head (sc_queues s queue) of
        None \<Rightarrow> (s, None)
      | Some task \<Rightarrow>
          let new_head = tk_wait_next (sc_tasks s ! task);
              tail = (if new_head = None then None else wq_tail (sc_queues s queue));
              s = s\<lparr>sc_queues := (sc_queues s)(queue := \<lparr>wq_head = new_head, wq_tail = tail\<rparr>),
                    sc_tasks := (sc_tasks s)[task := (sc_tasks s ! task)\<lparr>tk_wait_next := None, tk_wait_queue := None\<rparr>]\<rparr>
          in case scheduler_wake_task task s of
               (s, Inl e) \<Rightarrow> (s, None)
             | (s, Inr _) \<Rightarrow> (s, Some task))"

fun wake_all_loop :: "nat \<Rightarrow> 'q \<Rightarrow> nat \<Rightarrow> ('p, 'q) scheduler \<Rightarrow> ('p, 'q) scheduler \<times> nat" where
  "wake_all_loop 0 queue count s = (s, count)"
| "wake_all_loop (Suc fuel) queue count s =
     (case wait_queue_wake_one queue s of
        (s, None) \<Rightarrow> (s, count)
      | (s, Some task) \<Rightarrow> wake_all_loop fuel queue (count + 1) s)"

definition wait_queue_wake_all :: "'q \<Rightarrow> ('p, 'q) scheduler \<Rightarrow> ('p, 'q) scheduler \<times> nat" where
  "wait_queue_wake_all queue s = wake_all_loop (IOS_SCHEDULER_MAX_TASKS + 1) queue 0 s"

section \<open>Selection\<close>

fun allocate_loop :: "('p, 'q) ios_scheduler_task list \<Rightarrow> nat \<Rightarrow> nat option" where
  "allocate_loop [] index = None"
| "allocate_loop (task # rest) index =
     (if tk_state task = IOS_TASK_UNUSED then Some index else allocate_loop rest (index + 1))"

definition allocate_task :: "('p, 'q) scheduler \<Rightarrow> ('p, 'q) scheduler \<times> nat option" where
  "allocate_task s =
     (case allocate_loop (sc_tasks s) 0 of
        None \<Rightarrow> (s, None)
      | Some index \<Rightarrow>
          (s\<lparr>sc_tasks := (sc_tasks s)[index := zero_task\<lparr>tk_task_id := sc_next_task_id s\<rparr>],
             sc_next_task_id := sc_next_task_id s + 1\<rparr>, Some index))"

text \<open>The inner loop of both selections: offsets 1 to 64 after the last index selected.\<close>

fun select_loop ::
  "(('p, 'q) ios_scheduler_task \<Rightarrow> bool) \<Rightarrow> ('p, 'q) ios_scheduler_task list \<Rightarrow> nat \<Rightarrow> nat list \<Rightarrow> nat option" where
  "select_loop eligible tasks start [] = None"
| "select_loop eligible tasks start (offset # rest) =
     (let index = (start + offset) mod IOS_SCHEDULER_MAX_TASKS in
      if eligible (tasks ! index) then Some index else select_loop eligible tasks start rest)"

fun select_priority :: "nat list \<Rightarrow> ('p, 'q) scheduler \<Rightarrow> (nat \<times> nat) option" where
  "select_priority [] s = None"
| "select_priority (priority # rest) s =
     (case select_loop (\<lambda>t. tk_state t = IOS_TASK_RUNNABLE \<and> tk_priority t = priority) (sc_tasks s)
             (sc_last_selected s ! priority) [1..<IOS_SCHEDULER_MAX_TASKS + 1] of
        Some index \<Rightarrow> Some (priority, index)
      | None \<Rightarrow> select_priority rest s)"

definition select_runnable :: "('p, 'q) scheduler \<Rightarrow> ('p, 'q) scheduler \<times> task_ref" where
  "select_runnable s =
     (case select_priority (rev [IOS_SCHEDULER_USER_PRIORITY..<IOS_SCHEDULER_KERNEL_PRIORITY_RECOVERY + 1]) s of
        Some (priority, index) \<Rightarrow> (s\<lparr>sc_last_selected := (sc_last_selected s)[priority := index]\<rparr>, Task index)
      | None \<Rightarrow> (s, Idle))"

definition select_runnable_user :: "('p, 'q) scheduler \<Rightarrow> ('p, 'q) scheduler \<times> nat option" where
  "select_runnable_user s =
     (case select_loop (\<lambda>t. tk_state t = IOS_TASK_RUNNABLE \<and> tk_kind t = IOS_TASK_USER_PROCESS) (sc_tasks s)
             (sc_last_selected s ! IOS_SCHEDULER_USER_PRIORITY) [1..<IOS_SCHEDULER_MAX_TASKS + 1] of
        Some index \<Rightarrow>
          (s\<lparr>sc_last_selected := (sc_last_selected s)[IOS_SCHEDULER_USER_PRIORITY := index]\<rparr>, Some index)
      | None \<Rightarrow> (s, None))"

section \<open>User contexts\<close>

abbreviation X86_64_USER_FLAGS_REQUIRED :: u64 where "X86_64_USER_FLAGS_REQUIRED \<equiv> 0x202"
abbreviation X86_64_USER_FLAGS_FORBIDDEN :: u64 where "X86_64_USER_FLAGS_FORBIDDEN \<equiv> 0x27000"
abbreviation X86_64_USER_CODE_SELECTOR :: u64 where "X86_64_USER_CODE_SELECTOR \<equiv> 0x23"
abbreviation X86_64_USER_DATA_SELECTOR :: u64 where "X86_64_USER_DATA_SELECTOR \<equiv> 0x1b"
abbreviation USER_VIRTUAL_START :: u64 where "USER_VIRTUAL_START \<equiv> 0x0000010000000000"
abbreviation USER_VIRTUAL_END :: u64 where "USER_VIRTUAL_END \<equiv> 0x0000800000000000"
abbreviation IOS_PAGE_SIZE :: u64 where "IOS_PAGE_SIZE \<equiv> 4096"

definition user_flags_sanitize :: "u64 \<Rightarrow> u64" where
  "user_flags_sanitize flags = (flags AND NOT X86_64_USER_FLAGS_FORBIDDEN) OR X86_64_USER_FLAGS_REQUIRED"

definition x86_64_interrupt_from_user :: "x86_64_interrupt_frame \<Rightarrow> bool" where
  "x86_64_interrupt_from_user frame \<longleftrightarrow> if_cs frame AND 3 = 3"

definition virtual_user_range_is_valid :: "u64 \<Rightarrow> u64 \<Rightarrow> bool" where
  "virtual_user_range_is_valid address byte_count \<longleftrightarrow>
     \<not> (byte_count = 0 \<or> address < USER_VIRTUAL_START \<or> address \<ge> USER_VIRTUAL_END
        \<or> byte_count > 0xffffffffffffffff - address)
     \<and> address + byte_count \<le> USER_VIRTUAL_END"

definition save_user_interrupt_context :: "x86_64_interrupt_frame \<Rightarrow> x86_64_user_context" where
  "save_user_interrupt_context frame =
     \<lparr>uc_r15 = if_r15 frame, uc_r14 = if_r14 frame, uc_r13 = if_r13 frame, uc_r12 = if_r12 frame,
      uc_r11 = if_r11 frame, uc_r10 = if_r10 frame, uc_r9 = if_r9 frame, uc_r8 = if_r8 frame,
      uc_rdi = if_rdi frame, uc_rsi = if_rsi frame, uc_rbp = if_rbp frame, uc_rdx = if_rdx frame,
      uc_rcx = if_rcx frame, uc_rbx = if_rbx frame, uc_rax = if_rax frame,
      uc_instruction_pointer = if_rip frame, uc_flags = user_flags_sanitize (if_rflags frame),
      uc_stack_pointer = if_user_rsp frame\<rparr>"

definition load_user_interrupt_context ::
  "x86_64_interrupt_frame \<Rightarrow> x86_64_user_context \<Rightarrow> x86_64_interrupt_frame option" where
  "load_user_interrupt_context frame context =
     (if \<not> virtual_user_range_is_valid (uc_instruction_pointer context) 1
         \<or> \<not> virtual_user_range_is_valid (uc_stack_pointer context) 1 then None
      else Some (frame\<lparr>
        if_r15 := uc_r15 context, if_r14 := uc_r14 context, if_r13 := uc_r13 context, if_r12 := uc_r12 context,
        if_r11 := uc_r11 context, if_r10 := uc_r10 context, if_r9 := uc_r9 context, if_r8 := uc_r8 context,
        if_rdi := uc_rdi context, if_rsi := uc_rsi context, if_rbp := uc_rbp context, if_rdx := uc_rdx context,
        if_rcx := uc_rcx context, if_rbx := uc_rbx context, if_rax := uc_rax context,
        if_rip := uc_instruction_pointer context, if_cs := X86_64_USER_CODE_SELECTOR,
        if_rflags := user_flags_sanitize (uc_flags context),
        if_user_rsp := uc_stack_pointer context, if_user_ss := X86_64_USER_DATA_SELECTOR\<rparr>))"

definition process_activate :: "'p \<Rightarrow> ('p, 'q) scheduler \<Rightarrow> ('p, 'q) scheduler \<times> unit res" where
  "process_activate p s =
     (let process = sc_processes s p in
      if pr_state process \<noteq> IOS_PROCESS_RUNNABLE \<or> pr_root_address process = 0
         \<or> pr_kernel_stack_address process = 0 \<or> pr_kernel_stack_pages process = 0
         \<or> pr_kernel_stack_pages process > 0xffffffffffffffff div IOS_PAGE_SIZE
      then (s, Inl IOS_E_INVALID_STATE)
      else (s\<lparr>sc_active := Some (p, (pr_kernel_stack_address process
              + pr_kernel_stack_pages process * IOS_PAGE_SIZE) AND NOT 0xf)\<rparr>, Inr ()))"

section \<open>Operations\<close>

definition scheduler_initialize :: "('p, 'q) scheduler \<Rightarrow> ('p, 'q) scheduler" where
  "scheduler_initialize s = s\<lparr>sc_tasks := replicate IOS_SCHEDULER_MAX_TASKS zero_task,
     sc_last_selected := replicate (IOS_SCHEDULER_KERNEL_PRIORITY_RECOVERY + 1) 0,
     sc_idle_task := zero_task\<lparr>tk_kind := IOS_TASK_IDLE, tk_state := IOS_TASK_RUNNABLE,
       tk_priority := IOS_SCHEDULER_USER_PRIORITY\<rparr>,
     sc_current_task := None, sc_deferred_exit_task := None, sc_ticks := 0, sc_next_task_id := 1, sc_ready := True\<rparr>"

definition scheduler_add_process :: "'p \<Rightarrow> ('p, 'q) scheduler \<Rightarrow> ('p, 'q) scheduler \<times> unit res" where
  "scheduler_add_process process s =
     (if \<not> sc_ready s \<or> pr_state (sc_processes s process) \<noteq> IOS_PROCESS_RUNNABLE then (s, Inl IOS_E_INVALID_ARGUMENT)
      else case allocate_task s of
          (s, None) \<Rightarrow> (s, Inl IOS_E_NO_SPACE)
        | (s, Some task) \<Rightarrow>
            (put_task (Task task) ((sc_tasks s ! task)\<lparr>tk_kind := IOS_TASK_USER_PROCESS,
               tk_state := IOS_TASK_RUNNABLE, tk_priority := IOS_SCHEDULER_USER_PRIORITY, tk_process := Some process\<rparr>) s,
             Inr ()))"

definition scheduler_add_kernel_work :: "nat \<Rightarrow> ('p, 'q) scheduler \<Rightarrow> ('p, 'q) scheduler \<times> nat res" where
  "scheduler_add_kernel_work priority s =
     (if \<not> sc_ready s \<or> priority < IOS_SCHEDULER_KERNEL_PRIORITY_LOW
         \<or> priority > IOS_SCHEDULER_KERNEL_PRIORITY_RECOVERY then (s, Inl IOS_E_INVALID_ARGUMENT)
      else case allocate_task s of
          (s, None) \<Rightarrow> (s, Inl IOS_E_NO_SPACE)
        | (s, Some task) \<Rightarrow>
            (put_task (Task task) ((sc_tasks s ! task)\<lparr>tk_kind := IOS_TASK_KERNEL_WORK,
               tk_state := IOS_TASK_BLOCKED, tk_priority := priority\<rparr>) s, Inr task))"

definition run_selected :: "('p, 'q) scheduler \<times> task_ref \<Rightarrow> ('p, 'q) scheduler" where
  "run_selected = (\<lambda>(s, selected). (set_state selected IOS_TASK_RUNNING s)\<lparr>sc_current_task := Some selected\<rparr>)"

definition scheduler_select_next :: "('p, 'q) scheduler \<Rightarrow> ('p, 'q) scheduler" where
  "scheduler_select_next s =
     (let s = (case sc_current_task s of
                 None \<Rightarrow> s
               | Some r \<Rightarrow> if tk_state (task_of s r) = IOS_TASK_RUNNING then set_state r IOS_TASK_RUNNABLE s else s)
      in run_selected (select_runnable s))"

definition scheduler_on_quantum :: "('p, 'q) scheduler \<Rightarrow> ('p, 'q) scheduler" where
  "scheduler_on_quantum s = scheduler_select_next (s\<lparr>sc_ticks := sc_ticks s + 1\<rparr>)"

definition scheduler_on_timer_interrupt ::
  "(('p, 'q) scheduler \<Rightarrow> ('p, 'q) scheduler) option \<Rightarrow> x86_64_interrupt_frame \<Rightarrow> ('p, 'q) scheduler
    \<Rightarrow> (('p, 'q) scheduler \<times> x86_64_interrupt_frame) option" where
  "scheduler_on_timer_interrupt tick_callback frame s =
     (if \<not> sc_ready s then None
      else let s = s\<lparr>sc_ticks := sc_ticks s + 1\<rparr>;
               s = (case tick_callback of None \<Rightarrow> s | Some f \<Rightarrow> f s)
      in case sc_current_task s of
          None \<Rightarrow> Some (s, frame)
        | Some r \<Rightarrow>
          (case tk_process (task_of s r) of
             None \<Rightarrow> Some (s, frame)
           | Some p \<Rightarrow>
              if \<not> x86_64_interrupt_from_user frame \<or> tk_kind (task_of s r) \<noteq> IOS_TASK_USER_PROCESS
                 \<or> tk_state (task_of s r) \<noteq> IOS_TASK_RUNNING then Some (s, frame)
              else
                let s = s\<lparr>sc_processes := (sc_processes s)(p :=
                          (sc_processes s p)\<lparr>pr_user_context := save_user_interrupt_context frame\<rparr>)\<rparr>;
                    s = set_state r IOS_TASK_RUNNABLE s
                in case select_runnable_user s of
                     (s, None) \<Rightarrow> None
                   | (s, Some selected) \<Rightarrow>
                      let s = run_selected (s, Task selected) in
                      (case tk_process (sc_tasks s ! selected) of
                         None \<Rightarrow> None
                       | Some q \<Rightarrow>
                          (case process_activate q s of
                             (s, Inl e) \<Rightarrow> None
                           | (s, Inr _) \<Rightarrow>
                              (case load_user_interrupt_context frame (pr_user_context (sc_processes s q)) of
                                 None \<Rightarrow> None
                               | Some frame \<Rightarrow> Some (s, frame))))))"

definition join_queue :: "'q \<Rightarrow> nat \<Rightarrow> ('p, 'q) scheduler \<Rightarrow> ('p, 'q) scheduler" where
  "join_queue queue task s =
     (let s = put_task (Task task) ((sc_tasks s ! task)\<lparr>tk_state := IOS_TASK_BLOCKED, tk_wait_queue := Some queue,
                tk_wait_next := None\<rparr>) s;
          s = (case wq_tail (sc_queues s queue) of
                 None \<Rightarrow> s\<lparr>sc_queues := (sc_queues s)(queue := (sc_queues s queue)\<lparr>wq_head := Some task\<rparr>)\<rparr>
               | Some t \<Rightarrow> put_task (Task t) ((sc_tasks s ! t)\<lparr>tk_wait_next := Some task\<rparr>) s)
      in s\<lparr>sc_queues := (sc_queues s)(queue := (sc_queues s queue)\<lparr>wq_tail := Some task\<rparr>)\<rparr>)"

definition scheduler_block_current :: "'q \<Rightarrow> ('p, 'q) scheduler \<Rightarrow> ('p, 'q) scheduler \<times> unit res" where
  "scheduler_block_current queue s =
     (case sc_current_task s of
        Some (Task task) \<Rightarrow>
          if \<not> sc_ready s \<or> tk_state (sc_tasks s ! task) \<noteq> IOS_TASK_RUNNING \<or> tk_wait_queue (sc_tasks s ! task) \<noteq> None
          then (s, Inl IOS_E_INVALID_STATE)
          else (run_selected (select_runnable (join_queue queue task s)), Inr ())
      | _ \<Rightarrow> (s, Inl IOS_E_INVALID_STATE))"

definition scheduler_exit_current :: "u64 \<Rightarrow> ('p, 'q) scheduler \<Rightarrow> ('p, 'q) scheduler \<times> unit res" where
  "scheduler_exit_current exit_status s =
     (case sc_current_task s of
        Some (Task task) \<Rightarrow>
          (case tk_process (sc_tasks s ! task) of
             None \<Rightarrow> (s, Inl IOS_E_INVALID_STATE)
           | Some p \<Rightarrow>
              if \<not> sc_ready s \<or> tk_kind (sc_tasks s ! task) \<noteq> IOS_TASK_USER_PROCESS \<or> sc_deferred_exit_task s \<noteq> None
              then (s, Inl IOS_E_INVALID_STATE)
              else
                let s = (case tk_wait_queue (sc_tasks s ! task) of None \<Rightarrow> s | Some queue \<Rightarrow> wait_queue_remove queue task s);
                    s = put_task (Task task) ((sc_tasks s ! task)\<lparr>tk_exit_status := exit_status, tk_state := IOS_TASK_EXITED\<rparr>) s;
                    s = s\<lparr>sc_processes := (sc_processes s)(p := (sc_processes s p)\<lparr>pr_exit_status := exit_status\<rparr>),
                          sc_deferred_exit_task := Some task\<rparr>
                in (run_selected (select_runnable s), Inr ()))
      | _ \<Rightarrow> (s, Inl IOS_E_INVALID_STATE))"

definition scheduler_finish_switch ::
  "(ios_process \<Rightarrow> u64 \<Rightarrow> ios_process) \<Rightarrow> ('p, 'q) scheduler \<Rightarrow> ('p, 'q) scheduler" where
  "scheduler_finish_switch process_mark_exited s =
     (if \<not> sc_ready s then s
      else case sc_deferred_exit_task s of
          None \<Rightarrow> s
        | Some exited \<Rightarrow>
           (let s = s\<lparr>sc_deferred_exit_task := None\<rparr> in
            case tk_process (sc_tasks s ! exited) of
              None \<Rightarrow> s
            | Some p \<Rightarrow> s\<lparr>sc_processes := (sc_processes s)(p :=
                process_mark_exited (sc_processes s p) (tk_exit_status (sc_tasks s ! exited)))\<rparr>))"

section \<open>Linked queues as lists\<close>

definition linked :: "(nat \<Rightarrow> nat option) \<Rightarrow> nat option \<Rightarrow> nat list \<Rightarrow> bool" where
  "linked nx h xs \<longleftrightarrow> h # map nx xs = map Some xs @ [None]"

lemma linked_Nil [simp]: "linked nx h [] \<longleftrightarrow> h = None"
  by (simp add: linked_def)

lemma linked_Cons [simp]: "linked nx h (x # xs) \<longleftrightarrow> h = Some x \<and> linked nx (nx x) xs"
  by (simp add: linked_def)

lemma linked_split:
  "linked nx h (as @ t # bs) \<longleftrightarrow> h # map nx as = map Some as @ [Some t] \<and> linked nx (nx t) bs"
  by (induction as arbitrary: h) auto

lemma linked_cong: "(\<And>x. x \<in> set xs \<Longrightarrow> nx' x = nx x) \<Longrightarrow> linked nx' h xs = linked nx h xs"
  by (simp add: linked_def cong: map_cong)

lemma linked_snoc:
  assumes "linked nx h xs" and "distinct xs" and "t \<notin> set xs"
  shows "linked (if xs = [] then nx(t := None) else (nx(t := None))(last xs := Some t))
    (if xs = [] then Some t else h) (xs @ [t])"
proof (cases xs rule: rev_cases)
  case (snoc ys y)
  have "h # map nx ys = map Some ys @ [Some y]" using assms(1) snoc by (simp add: linked_split)
  moreover have "map ((nx(t := None))(y := Some t)) ys = map nx ys"
    using assms(2,3) snoc by (intro map_cong) auto
  moreover have "t \<noteq> y" using assms(3) snoc by auto
  ultimately show ?thesis using snoc by (simp add: linked_split del: map_eq_conv)
qed simp

lemma linked_remove:
  assumes "linked nx h (as @ t # bs)" and "distinct (as @ t # bs)"
  shows "linked (if as = [] then nx else nx(last as := nx t)) (if as = [] then nx t else h) (as @ bs)"
proof (cases as rule: rev_cases)
  case Nil
  then show ?thesis using assms by simp
next
  case (snoc ys p)
  have h: "h # map nx ys = map Some ys @ [Some p]" "linked nx (nx t) bs"
    using assms(1) snoc by (simp_all add: linked_split)
  have "map (nx(p := nx t)) ys = map nx ys" using assms(2) snoc by (intro map_cong) auto
  moreover have "linked (nx(p := nx t)) (nx t) bs"
    using h(2) assms(2) snoc by (subst linked_cong [of bs _ nx]) auto
  ultimately show ?thesis using h(1) snoc by (simp add: linked_split del: map_eq_conv)
qed

section \<open>Invariant\<close>

abbreviation next_of :: "('p, 'q) scheduler \<Rightarrow> nat \<Rightarrow> nat option" where
  "next_of s i \<equiv> tk_wait_next (sc_tasks s ! i)"

text \<open>
  \<open>sched_rep s Q\<close>: the wait queue \<open>q\<close> is the list \<open>Q q\<close>, which holds exactly the tasks that name it,
  all blocked; at most one task is running and it is the current one; a user task has a process.
\<close>

definition queue_rep :: "('p, 'q) scheduler \<Rightarrow> 'q \<Rightarrow> nat list \<Rightarrow> bool" where
  "queue_rep s q xs \<longleftrightarrow> linked (next_of s) (wq_head (sc_queues s q)) xs
     \<and> wq_tail (sc_queues s q) = (if xs = [] then None else Some (last xs))
     \<and> distinct xs \<and> set xs = {i. i < IOS_SCHEDULER_MAX_TASKS \<and> tk_wait_queue (sc_tasks s ! i) = Some q}"

definition sched_rep :: "('p, 'q) scheduler \<Rightarrow> ('q \<Rightarrow> nat list) \<Rightarrow> bool" where
  "sched_rep s Q \<longleftrightarrow> sc_ready s \<and> length (sc_tasks s) = IOS_SCHEDULER_MAX_TASKS \<and> length (sc_last_selected s) = 5
     \<and> (\<forall>q. queue_rep s q (Q q))
     \<and> (\<forall>i < IOS_SCHEDULER_MAX_TASKS. tk_wait_queue (sc_tasks s ! i) \<noteq> None \<longrightarrow> tk_state (sc_tasks s ! i) = IOS_TASK_BLOCKED)
     \<and> (\<forall>i < IOS_SCHEDULER_MAX_TASKS. tk_state (sc_tasks s ! i) = IOS_TASK_RUNNING \<longrightarrow> sc_current_task s = Some (Task i))
     \<and> (\<forall>i. sc_current_task s = Some (Task i) \<longrightarrow> i < IOS_SCHEDULER_MAX_TASKS)"

lemma queue_rep_mem: "queue_rep s q xs \<Longrightarrow> t \<in> set xs \<longleftrightarrow> t < IOS_SCHEDULER_MAX_TASKS \<and> tk_wait_queue (sc_tasks s ! t) = Some q"
  unfolding queue_rep_def by (elim conjE) (simp only: mem_Collect_eq)

lemma sched_repD:
  assumes "sched_rep s Q"
  shows "sc_ready s" and "length (sc_tasks s) = IOS_SCHEDULER_MAX_TASKS" and "length (sc_last_selected s) = 5"
    and "queue_rep s q (Q q)"
    and "i < IOS_SCHEDULER_MAX_TASKS \<Longrightarrow> tk_wait_queue (sc_tasks s ! i) \<noteq> None \<Longrightarrow> tk_state (sc_tasks s ! i) = IOS_TASK_BLOCKED"
    and "i < IOS_SCHEDULER_MAX_TASKS \<Longrightarrow> tk_state (sc_tasks s ! i) = IOS_TASK_RUNNING \<Longrightarrow> sc_current_task s = Some (Task i)"
    and "sc_current_task s = Some (Task i) \<Longrightarrow> i < IOS_SCHEDULER_MAX_TASKS"
  using assms unfolding sched_rep_def by blast+

lemma sched_repI:
  assumes "sc_ready s" and "length (sc_tasks s) = IOS_SCHEDULER_MAX_TASKS" and "length (sc_last_selected s) = 5"
    and "\<And>q. queue_rep s q (Q q)"
    and "\<And>i. i < IOS_SCHEDULER_MAX_TASKS \<Longrightarrow> tk_wait_queue (sc_tasks s ! i) \<noteq> None \<Longrightarrow> tk_state (sc_tasks s ! i) = IOS_TASK_BLOCKED"
    and "\<And>i. i < IOS_SCHEDULER_MAX_TASKS \<Longrightarrow> tk_state (sc_tasks s ! i) = IOS_TASK_RUNNING \<Longrightarrow> sc_current_task s = Some (Task i)"
    and "\<And>i. sc_current_task s = Some (Task i) \<Longrightarrow> i < IOS_SCHEDULER_MAX_TASKS"
  shows "sched_rep s Q"
  using assms unfolding sched_rep_def by blast

text \<open>A change of one task's state and queue membership.\<close>

lemma sched_rep_step:
  assumes rep: "sched_rep s Q" and same: "sc_ready s' = sc_ready s" "length (sc_tasks s') = length (sc_tasks s)"
      "sc_last_selected s' = sc_last_selected s" "sc_current_task s' = sc_current_task s"
    and queues: "\<And>q. queue_rep s' q (Q' q)"
    and other: "\<And>i. i < IOS_SCHEDULER_MAX_TASKS \<Longrightarrow> i \<noteq> t \<Longrightarrow>
      tk_state (sc_tasks s' ! i) = tk_state (sc_tasks s ! i) \<and> tk_wait_queue (sc_tasks s' ! i) = tk_wait_queue (sc_tasks s ! i)"
    and here: "tk_wait_queue (sc_tasks s' ! t) = None \<or> tk_state (sc_tasks s' ! t) = IOS_TASK_BLOCKED"
      "tk_state (sc_tasks s' ! t) \<noteq> IOS_TASK_RUNNING"
  shows "sched_rep s' Q'"
proof (rule sched_repI)
  note d = sched_repD [OF rep]
  show "sc_ready s'" "length (sc_tasks s') = IOS_SCHEDULER_MAX_TASKS" "length (sc_last_selected s') = 5"
    using d(1-3) same by simp_all
  show "queue_rep s' q (Q' q)" for q by (rule queues)
  fix i
  show "sc_current_task s' = Some (Task i) \<Longrightarrow> i < IOS_SCHEDULER_MAX_TASKS" using d(7) same(4) by simp
  assume i: "i < IOS_SCHEDULER_MAX_TASKS"
  show "tk_wait_queue (sc_tasks s' ! i) \<noteq> None \<Longrightarrow> tk_state (sc_tasks s' ! i) = IOS_TASK_BLOCKED"
    using d(5) [OF i] other [OF i] here(1) by (cases "i = t") auto
  show "tk_state (sc_tasks s' ! i) = IOS_TASK_RUNNING \<Longrightarrow> sc_current_task s' = Some (Task i)"
    using d(6) [OF i] other [OF i] here(2) same(4) by (cases "i = t") auto
qed

lemma queue_rep_length:
  assumes "queue_rep s q xs"
  shows "length xs \<le> IOS_SCHEDULER_MAX_TASKS"
proof -
  have "set xs \<subseteq> {..<IOS_SCHEDULER_MAX_TASKS}" "distinct xs" using assms by (auto simp: queue_rep_def)
  then have "card (set xs) \<le> IOS_SCHEDULER_MAX_TASKS" using card_mono [of "{..<IOS_SCHEDULER_MAX_TASKS}" "set xs"] by simp
  then show ?thesis using distinct_card [OF \<open>distinct xs\<close>] by simp
qed

lemma remove_loop_unlink:
  "linked (next_of s) cur (as @ t # bs) \<Longrightarrow> t \<notin> set as \<Longrightarrow> length as < fuel \<Longrightarrow>
    remove_loop fuel q t prev cur s = unlink q t (if as = [] then prev else Some (last as)) s"
proof (induction as arbitrary: cur prev fuel)
  case Nil
  then show ?case by (cases fuel) auto
next
  case (Cons a as)
  then obtain f where f: "fuel = Suc f" by (cases fuel) auto
  have "remove_loop f q t (Some a) (next_of s a) s = unlink q t (if as = [] then Some a else Some (last as)) s"
    using Cons.prems f by (intro Cons.IH) auto
  then show ?case using Cons.prems f by simp
qed

lemma wait_queue_remove_unlink:
  assumes "queue_rep s q (as @ t # bs)"
  shows "wait_queue_remove q t s = unlink q t (if as = [] then None else Some (last as)) s"
proof -
  have "length as < IOS_SCHEDULER_MAX_TASKS + 1" using queue_rep_length [OF assms] by simp
  then show ?thesis unfolding wait_queue_remove_def
    using assms by (intro remove_loop_unlink [of s _ as t bs]) (auto simp: queue_rep_def)
qed

lemma unlink_fields [simp]:
  "sc_current_task (unlink q t p s) = sc_current_task s" "sc_ready (unlink q t p s) = sc_ready s"
  "sc_last_selected (unlink q t p s) = sc_last_selected s" "sc_idle_task (unlink q t p s) = sc_idle_task s"
  "sc_processes (unlink q t p s) = sc_processes s" "sc_deferred_exit_task (unlink q t p s) = sc_deferred_exit_task s"
  "length (sc_tasks (unlink q t p s)) = length (sc_tasks s)" "sc_next_task_id (unlink q t p s) = sc_next_task_id s"
  by (simp_all add: unlink_def link_after_def Let_def split: option.splits)

lemma unlink_task:
  assumes "t < length (sc_tasks s)" and "p \<noteq> Some t" and "\<And>k. p = Some k \<Longrightarrow> k < length (sc_tasks s)"
  shows "i < length (sc_tasks s) \<Longrightarrow> sc_tasks (unlink q t p s) ! i =
    (if i = t then (sc_tasks s ! t)\<lparr>tk_wait_next := None, tk_wait_queue := None\<rparr>
     else if p = Some i then (sc_tasks s ! i)\<lparr>tk_wait_next := next_of s t\<rparr> else sc_tasks s ! i)"
  using assms by (cases p) (auto simp: unlink_def link_after_def Let_def nth_list_update)

lemma unlink_queues:
  assumes "p \<noteq> Some t"
  shows "sc_queues (unlink q t p s) = (sc_queues s)(q :=
    \<lparr>wq_head = (if p = None then next_of s t else wq_head (sc_queues s q)),
     wq_tail = (if wq_tail (sc_queues s q) = Some t then p else wq_tail (sc_queues s q))\<rparr>)"
  by (cases p; cases "sc_queues s q") (auto simp: unlink_def link_after_def Let_def fun_eq_iff)

text \<open>A step that changes the queue fields of no other task keeps the other queues.\<close>

lemma queue_rep_other:
  assumes "queue_rep s q' xs" and "sc_queues s' q' = sc_queues s q'"
    and "\<And>i. i < IOS_SCHEDULER_MAX_TASKS \<Longrightarrow> tk_wait_queue (sc_tasks s' ! i) = Some q' \<longleftrightarrow> tk_wait_queue (sc_tasks s ! i) = Some q'"
    and "\<And>i. i < IOS_SCHEDULER_MAX_TASKS \<Longrightarrow> tk_wait_queue (sc_tasks s ! i) = Some q' \<Longrightarrow> next_of s' i = next_of s i"
  shows "queue_rep s' q' xs"
proof -
  have set: "set xs = {i. i < IOS_SCHEDULER_MAX_TASKS \<and> tk_wait_queue (sc_tasks s ! i) = Some q'}"
    using assms(1) by (simp add: queue_rep_def)
  have "linked (next_of s') h xs = linked (next_of s) h xs" for h
    using assms(4) set by (intro linked_cong) auto
  moreover have "set xs = {i. i < IOS_SCHEDULER_MAX_TASKS \<and> tk_wait_queue (sc_tasks s' ! i) = Some q'}"
    using set assms(3) by auto
  ultimately show ?thesis using assms(1,2) by (simp add: queue_rep_def)
qed

lemma unlink_queue_rep:
  assumes rep: "sched_rep s Q" and split: "Q q = as @ t # bs"
  defines "s' \<equiv> unlink q t (if as = [] then None else Some (last as)) s"
  shows "queue_rep s' q' ((Q(q := as @ bs)) q')"
proof -
  let ?p = "if as = [] then None else Some (last as)"
  have len: "length (sc_tasks s) = IOS_SCHEDULER_MAX_TASKS" and qr: "queue_rep s q'' (Q q'')" for q''
    using rep by (simp_all add: sched_rep_def)
  have q: "linked (next_of s) (wq_head (sc_queues s q)) (as @ t # bs)" "distinct (as @ t # bs)"
    "set (as @ t # bs) = {i. i < IOS_SCHEDULER_MAX_TASKS \<and> tk_wait_queue (sc_tasks s ! i) = Some q}"
    "wq_tail (sc_queues s q) = Some (last (t # bs))"
    using qr [of q] split by (auto simp: queue_rep_def)
  have t: "t < length (sc_tasks s)" "?p \<noteq> Some t" using q(2,3) len by (auto simp: set_eq_iff)
  have pl: "k < length (sc_tasks s)" if "?p = Some k" for k
    using that q(3) len by (cases as rule: rev_cases) (auto simp: set_eq_iff)
  have tk: "sc_tasks s' ! i = (if i = t then (sc_tasks s ! t)\<lparr>tk_wait_next := None, tk_wait_queue := None\<rparr>
      else if ?p = Some i then (sc_tasks s ! i)\<lparr>tk_wait_next := next_of s t\<rparr> else sc_tasks s ! i)"
    if "i < IOS_SCHEDULER_MAX_TASKS" for i
    using unlink_task [OF t pl, of i q] that len by (simp add: s'_def)
  note qs = unlink_queues [OF t(2), of q s, folded s'_def]
  show ?thesis
  proof (cases "q' = q")
    case True
    have "next_of s' x = (if as = [] then next_of s else (next_of s)(last as := next_of s t)) x"
      if "x \<in> set (as @ bs)" for x
    proof -
      have "x < IOS_SCHEDULER_MAX_TASKS" "x \<noteq> t" using that q(2,3) by (auto simp: set_eq_iff)
      then show ?thesis using tk [of x] by auto
    qed
    then have cong: "linked (next_of s') h (as @ bs)
      = linked (if as = [] then next_of s else (next_of s)(last as := next_of s t)) h (as @ bs)" for h
      by (rule linked_cong)
    have head: "wq_head (sc_queues s' q) = (if as = [] then next_of s t else wq_head (sc_queues s q))"
      by (simp add: qs)
    have "linked (next_of s') (wq_head (sc_queues s' q)) (as @ bs)"
      unfolding cong head by (rule linked_remove [OF q(1,2)])
    moreover have wq': "tk_wait_queue (sc_tasks s' ! i) = (if i = t then None else tk_wait_queue (sc_tasks s ! i))"
      if "i < IOS_SCHEDULER_MAX_TASKS" for i using tk [OF that] by simp
    have "set (as @ bs) = set (as @ t # bs) - {t}" using q(2) by auto
    then have "set (as @ bs) = {i. i < IOS_SCHEDULER_MAX_TASKS \<and> tk_wait_queue (sc_tasks s' ! i) = Some q}"
      unfolding q(3) using wq' by (auto split: if_splits)
    moreover have "wq_tail (sc_queues s' q) = (if as @ bs = [] then None else Some (last (as @ bs)))"
      using q(2,4) by (auto simp: qs split: if_splits dest: last_in_set)
    ultimately show ?thesis using True q(2) by (simp add: queue_rep_def)
  next
    case False
    have "queue_rep s' q' (Q q')"
    proof (rule queue_rep_other [OF qr])
      show "sc_queues s' q' = sc_queues s q'" using False by (simp add: qs)
      fix i assume i: "i < IOS_SCHEDULER_MAX_TASKS"
      have "tk_wait_queue (sc_tasks s ! t) = Some q" using q(3) by (auto simp: set_eq_iff)
      then show "tk_wait_queue (sc_tasks s' ! i) = Some q' \<longleftrightarrow> tk_wait_queue (sc_tasks s ! i) = Some q'"
        using tk [OF i] False by auto
      assume other: "tk_wait_queue (sc_tasks s ! i) = Some q'"
      have "i \<notin> set (as @ t # bs)" using other False q(3) by auto
      then show "next_of s' i = next_of s i" using tk [OF i] by (cases as rule: rev_cases) auto
    qed
    then show ?thesis using False by simp
  qed
qed

lemma task_of_Task [simp]: "task_of s (Task i) = sc_tasks s ! i" "task_of s Idle = sc_idle_task s"
  by (simp_all add: task_of_def)

lemma put_task_fields [simp]:
  "sc_queues (put_task r t s) = sc_queues s" "sc_ready (put_task r t s) = sc_ready s"
  "sc_current_task (put_task r t s) = sc_current_task s" "sc_last_selected (put_task r t s) = sc_last_selected s"
  "sc_processes (put_task r t s) = sc_processes s" "sc_deferred_exit_task (put_task r t s) = sc_deferred_exit_task s"
  "length (sc_tasks (put_task r t s)) = length (sc_tasks s)" "sc_tasks (put_task Idle t s) = sc_tasks s"
  "sc_tasks (put_task (Task i) t s) = (sc_tasks s)[i := t]" "sc_idle_task (put_task (Task i) t s) = sc_idle_task s"
  by (cases r; simp add: put_task_def)+

lemma set_state_fields [simp]:
  "sc_queues (set_state r st s) = sc_queues s" "sc_ready (set_state r st s) = sc_ready s"
  "sc_current_task (set_state r st s) = sc_current_task s" "sc_last_selected (set_state r st s) = sc_last_selected s"
  "sc_processes (set_state r st s) = sc_processes s" "length (sc_tasks (set_state r st s)) = length (sc_tasks s)"
  "sc_tasks (set_state Idle st s) = sc_tasks s"
  "sc_tasks (set_state (Task i) st s) = (sc_tasks s)[i := (sc_tasks s ! i)\<lparr>tk_state := st\<rparr>]"
  by (cases r; simp add: set_state_def put_task_def)+

lemma queue_rep_tasks:
  assumes "queue_rep s q xs" and "sc_queues s' = sc_queues s" and "length (sc_tasks s) = IOS_SCHEDULER_MAX_TASKS"
    and "sc_tasks s' = (sc_tasks s)[i := t]" and "tk_wait_queue t = tk_wait_queue (sc_tasks s ! i)"
    and "tk_wait_next t = next_of s i"
  shows "queue_rep s' q xs"
  using assms(1)
proof (rule queue_rep_other)
  show "sc_queues s' q = sc_queues s q" using assms(2) by simp
  fix j assume j: "j < IOS_SCHEDULER_MAX_TASKS"
  show "tk_wait_queue (sc_tasks s' ! j) = Some q \<longleftrightarrow> tk_wait_queue (sc_tasks s ! j) = Some q"
    using assms(3-5) j by (cases "j = i") auto
  show "next_of s' j = next_of s j" using assms(3,4,6) j by (cases "j = i") auto
qed

lemma queue_rep_set_state:
  assumes "queue_rep s q xs" and "length (sc_tasks s) = IOS_SCHEDULER_MAX_TASKS"
  shows "queue_rep (set_state r st s) q xs"
proof (cases r)
  case Idle
  show ?thesis using assms(1) by (rule queue_rep_other) (simp_all add: Idle)
next
  case (Task i)
  show ?thesis
    by (rule queue_rep_tasks [OF assms(1) _ assms(2), where i = i and t = "(sc_tasks s ! i)\<lparr>tk_state := st\<rparr>"])
      (simp_all add: Task)
qed

lemma unlink_rep:
  assumes rep: "sched_rep s Q" and split: "Q q = as @ t # bs"
    and st: "st \<noteq> IOS_TASK_RUNNING"
  shows "sched_rep (set_state (Task t) st (unlink q t (if as = [] then None else Some (last as)) s)) (Q(q := as @ bs))"
proof -
  let ?p = "if as = [] then None else Some (last as)"
  let ?u = "unlink q t ?p s"
  have len: "length (sc_tasks s) = IOS_SCHEDULER_MAX_TASKS" and qr: "queue_rep s q (Q q)"
    using rep by (simp_all add: sched_rep_def)
  have q: "distinct (as @ t # bs)" "set (as @ t # bs) = {i. i < IOS_SCHEDULER_MAX_TASKS \<and> tk_wait_queue (sc_tasks s ! i) = Some q}"
    using qr split by (auto simp: queue_rep_def)
  have t: "t < length (sc_tasks s)" "?p \<noteq> Some t" using q len by (auto simp: set_eq_iff)
  have pl: "k < length (sc_tasks s)" if "?p = Some k" for k
    using that q(2) len by (cases as rule: rev_cases) (auto simp: set_eq_iff)
  have tk: "sc_tasks ?u ! i = (if i = t then (sc_tasks s ! t)\<lparr>tk_wait_next := None, tk_wait_queue := None\<rparr>
      else if ?p = Some i then (sc_tasks s ! i)\<lparr>tk_wait_next := next_of s t\<rparr> else sc_tasks s ! i)"
    if "i < IOS_SCHEDULER_MAX_TASKS" for i using unlink_task [OF t pl, of i q] that len by simp
  show ?thesis
  proof (rule sched_rep_step [OF rep, where t = t])
    show "queue_rep (set_state (Task t) st ?u) q' ((Q(q := as @ bs)) q')" for q'
      by (rule queue_rep_set_state [OF unlink_queue_rep [OF rep split]]) (simp add: len)
    show "tk_wait_queue (sc_tasks (set_state (Task t) st ?u) ! t) = None
        \<or> tk_state (sc_tasks (set_state (Task t) st ?u) ! t) = IOS_TASK_BLOCKED"
      "tk_state (sc_tasks (set_state (Task t) st ?u) ! t) \<noteq> IOS_TASK_RUNNING"
      using tk [of t] t(1) len st by simp_all
    fix i assume "i < IOS_SCHEDULER_MAX_TASKS" "i \<noteq> t"
    then show "tk_state (sc_tasks (set_state (Task t) st ?u) ! i) = tk_state (sc_tasks s ! i)
      \<and> tk_wait_queue (sc_tasks (set_state (Task t) st ?u) ! i) = tk_wait_queue (sc_tasks s ! i)"
      using tk [of i] by simp
  qed (simp_all add: len)
qed

lemma queued_iff:
  assumes "sched_rep s Q" and "t < IOS_SCHEDULER_MAX_TASKS"
  shows "t \<in> set (Q q) \<longleftrightarrow> tk_wait_queue (sc_tasks s ! t) = Some q"
  using queue_rep_mem [OF sched_repD(4) [OF assms(1)]] assms(2) by blast

lemma wake_task_rep:
  assumes rep: "sched_rep s Q" and t: "t < IOS_SCHEDULER_MAX_TASKS" and blocked: "tk_state (sc_tasks s ! t) = IOS_TASK_BLOCKED"
    and w: "scheduler_wake_task t s = (s', r)"
  shows "r = Inr () \<and> tk_state (sc_tasks s' ! t) = IOS_TASK_RUNNABLE \<and> sched_rep s' (\<lambda>q. removeAll t (Q q))"
proof (cases "tk_wait_queue (sc_tasks s ! t)")
  case None
  then have s': "s' = set_state (Task t) IOS_TASK_RUNNABLE s" "r = Inr ()"
    using w blocked sched_repD(1) [OF rep] by (auto simp: scheduler_wake_task_def)
  have "removeAll t (Q q) = Q q" for q using queued_iff [OF rep t, of q] None by simp
  then have Q: "(\<lambda>q. removeAll t (Q q)) = Q" by auto
  have "sched_rep s' Q"
  proof (rule sched_rep_step [OF rep, where t = t])
    show "queue_rep s' q (Q q)" for q unfolding s'(1) by (rule queue_rep_set_state [OF sched_repD(4,2) [OF rep]])
  qed (use None t sched_repD(2) [OF rep] in \<open>simp_all add: s'(1)\<close>)
  then show ?thesis using s' t sched_repD(2) [OF rep] Q by simp
next
  case (Some q)
  then have "t \<in> set (Q q)" using queued_iff [OF rep t] by simp
  then obtain as bs where split: "Q q = as @ t # bs" by (meson split_list)
  have d: "distinct (as @ t # bs)" and qr: "queue_rep s q (as @ t # bs)"
    using sched_repD(4) [OF rep, of q] split by (simp_all add: queue_rep_def)
  have s': "s' = set_state (Task t) IOS_TASK_RUNNABLE (unlink q t (if as = [] then None else Some (last as)) s)" "r = Inr ()"
    using w blocked sched_repD(1) [OF rep] Some wait_queue_remove_unlink [OF qr] by (auto simp: scheduler_wake_task_def Let_def)
  have "removeAll t (Q q') = (Q(q := as @ bs)) q'" for q'
    using queued_iff [OF rep t, of q'] Some split d by (cases "q' = q") auto
  then have "(\<lambda>q. removeAll t (Q q)) = Q(q := as @ bs)" by auto
  moreover have "t < length (sc_tasks s)" using t sched_repD(2) [OF rep] by simp
  ultimately show ?thesis using unlink_rep [OF rep split, of IOS_TASK_RUNNABLE] s' by simp
qed

lemma wake_one_empty: "sched_rep s Q \<Longrightarrow> Q q = [] \<Longrightarrow> wait_queue_wake_one q s = (s, None)"
  using sched_repD(4) [of s Q q] by (simp add: wait_queue_wake_one_def queue_rep_def)

lemma wake_one_rep:
  assumes rep: "sched_rep s Q" and Q: "Q q = t # ts"
  obtains s' where "wait_queue_wake_one q s = (s', Some t)" and "sched_rep s' (Q(q := ts))"
    and "t < IOS_SCHEDULER_MAX_TASKS" and "tk_state (sc_tasks s' ! t) = IOS_TASK_RUNNABLE"
    and "\<And>i. i < IOS_SCHEDULER_MAX_TASKS \<Longrightarrow> i \<noteq> t \<Longrightarrow> tk_state (sc_tasks s' ! i) = tk_state (sc_tasks s ! i)"
proof -
  have qr: "queue_rep s q (t # ts)" using sched_repD(4) [OF rep, of q] Q by simp
  have t: "t < IOS_SCHEDULER_MAX_TASKS" "tk_wait_queue (sc_tasks s ! t) = Some q" using queue_rep_mem [OF qr, of t] by simp_all
  have len: "length (sc_tasks s) = IOS_SCHEDULER_MAX_TASKS" by (rule sched_repD(2) [OF rep])
  have blocked: "tk_state (sc_tasks s ! t) = IOS_TASK_BLOCKED" using sched_repD(5) [OF rep t(1)] t(2) by simp
  have q: "wq_head (sc_queues s q) = Some t" "wq_tail (sc_queues s q) = Some (last (t # ts))"
    "linked (next_of s) (next_of s t) ts" "t \<notin> set ts" using qr by (simp_all add: queue_rep_def)
  have nx: "next_of s t = None \<longleftrightarrow> ts = []" using q(3) by (cases ts) auto
  let ?u = "unlink q t None s"
  have "s\<lparr>sc_queues := (sc_queues s)(q := \<lparr>wq_head = next_of s t,
            wq_tail = (if next_of s t = None then None else wq_tail (sc_queues s q))\<rparr>),
          sc_tasks := (sc_tasks s)[t := (sc_tasks s ! t)\<lparr>tk_wait_next := None, tk_wait_queue := None\<rparr>]\<rparr> = ?u"
  proof -
    have qq: "sc_queues s q = \<lparr>wq_head = Some t, wq_tail = Some (last (t # ts))\<rparr>"
      using q(1,2) by (cases "sc_queues s q") simp
    have "last (t # ts) = t \<longleftrightarrow> ts = []" using q(4) last_in_set [of ts] by (cases "ts = []") auto
    then show ?thesis using nx by (cases "ts = []") (auto simp: unlink_def link_after_def Let_def qq)
  qed
  moreover have "sc_tasks ?u ! i = (if i = t then (sc_tasks s ! t)\<lparr>tk_wait_next := None, tk_wait_queue := None\<rparr> else sc_tasks s ! i)"
    if "i < IOS_SCHEDULER_MAX_TASKS" for i
    using unlink_task [of t s None i q] t(1) len that by simp
  ultimately have w: "wait_queue_wake_one q s = (set_state (Task t) IOS_TASK_RUNNABLE ?u, Some t)"
    using q(1) blocked sched_repD(1) [OF rep] t(1) len
    by (simp add: wait_queue_wake_one_def Let_def scheduler_wake_task_def)
  have "sched_rep (set_state (Task t) IOS_TASK_RUNNABLE ?u) (Q(q := ts))"
    using unlink_rep [OF rep, of q "[]" t ts IOS_TASK_RUNNABLE] Q by simp
  then show thesis
    using that [OF w] t(1) len unlink_task [of t s None _ q] by simp
qed

lemma wake_all_loop_rep:
  assumes "sched_rep s Q" and "length (Q q) < fuel"
  shows "\<exists>s'. wake_all_loop fuel q n s = (s', n + length (Q q)) \<and> sched_rep s' (Q(q := []))
    \<and> (\<forall>i < IOS_SCHEDULER_MAX_TASKS.
         tk_state (sc_tasks s' ! i) = (if i \<in> set (Q q) then IOS_TASK_RUNNABLE else tk_state (sc_tasks s ! i)))"
  using assms
proof (induction fuel arbitrary: s Q n)
  case (Suc fuel)
  show ?case
  proof (cases "Q q")
    case Nil
    then have "Q(q := []) = Q" by auto
    then show ?thesis using wake_one_empty [OF Suc.prems(1) Nil] Nil Suc.prems(1) by simp
  next
    case (Cons t ts)
    obtain s1 where s1: "wait_queue_wake_one q s = (s1, Some t)" "sched_rep s1 (Q(q := ts))"
      "t < IOS_SCHEDULER_MAX_TASKS" "tk_state (sc_tasks s1 ! t) = IOS_TASK_RUNNABLE"
      "\<And>i. i < IOS_SCHEDULER_MAX_TASKS \<Longrightarrow> i \<noteq> t \<Longrightarrow> tk_state (sc_tasks s1 ! i) = tk_state (sc_tasks s ! i)"
      using wake_one_rep [OF Suc.prems(1) Cons] by metis
    have shorter: "length ((Q(q := ts)) q) < fuel" using Suc.prems(2) Cons by simp
    obtain s' where s': "wake_all_loop fuel q (n + 1) s1 = (s', n + 1 + length ((Q(q := ts)) q))"
      "sched_rep s' ((Q(q := ts))(q := []))"
      "\<forall>i < IOS_SCHEDULER_MAX_TASKS.
        tk_state (sc_tasks s' ! i) = (if i \<in> set ((Q(q := ts)) q) then IOS_TASK_RUNNABLE else tk_state (sc_tasks s1 ! i))"
      using Suc.IH [OF s1(2) shorter, of "n + 1"] by blast
    have "tk_state (sc_tasks s' ! i) = (if i \<in> set (Q q) then IOS_TASK_RUNNABLE else tk_state (sc_tasks s ! i))"
      if "i < IOS_SCHEDULER_MAX_TASKS" for i
      using s'(3) s1(4) s1(5) [OF that] Cons that by (cases "i = t") simp_all
    moreover have "wake_all_loop (Suc fuel) q n s = (s', n + length (Q q))" using s1(1) s'(1) Cons by simp
    moreover have "sched_rep s' (Q(q := []))" using s'(2) by simp
    ultimately show ?thesis by blast
  qed
qed simp

section \<open>Selection keeps the invariant\<close>

lemma select_loop_Some:
  "select_loop el ts start os = Some i \<Longrightarrow> \<exists>k < length os. i = (start + os ! k) mod IOS_SCHEDULER_MAX_TASKS \<and> el (ts ! i)
     \<and> (\<forall>j < k. \<not> el (ts ! ((start + os ! j) mod IOS_SCHEDULER_MAX_TASKS)))"
proof (induction os)
  case (Cons a os)
  show ?case
  proof (cases "el (ts ! ((start + a) mod IOS_SCHEDULER_MAX_TASKS))")
    case True
    then show ?thesis using Cons.prems by (intro exI [of _ 0]) (simp add: Let_def)
  next
    case False
    then obtain k where k: "k < length os" "i = (start + os ! k) mod IOS_SCHEDULER_MAX_TASKS" "el (ts ! i)"
      "\<forall>j < k. \<not> el (ts ! ((start + os ! j) mod IOS_SCHEDULER_MAX_TASKS))" using Cons by (auto simp: Let_def)
    have "\<not> el (ts ! ((start + (a # os) ! j) mod IOS_SCHEDULER_MAX_TASKS))" if "j < Suc k" for j
      using that k(4) False by (cases j) simp_all
    then show ?thesis using k by (intro exI [of _ "Suc k"]) auto
  qed
qed simp

lemma select_loop_None:
  "select_loop el ts start os = None \<longleftrightarrow> (\<forall>o' \<in> set os. \<not> el (ts ! ((start + o') mod IOS_SCHEDULER_MAX_TASKS)))"
  by (induction os) (auto simp: Let_def)

text \<open>The 64 offsets reach every slot.\<close>

lemma offset_reaches:
  assumes "i < IOS_SCHEDULER_MAX_TASKS"
  shows "\<exists>off \<in> set [1..<IOS_SCHEDULER_MAX_TASKS + 1]. (start + off) mod IOS_SCHEDULER_MAX_TASKS = i"
proof -
  define off where "off = (if start mod IOS_SCHEDULER_MAX_TASKS < i then i - start mod IOS_SCHEDULER_MAX_TASKS
    else i + IOS_SCHEDULER_MAX_TASKS - start mod IOS_SCHEDULER_MAX_TASKS)"
  have "off \<in> set [1..<IOS_SCHEDULER_MAX_TASKS + 1]"
    using assms by (simp only: set_upt atLeastLessThan_iff) (auto simp: off_def)
  moreover have "(start mod IOS_SCHEDULER_MAX_TASKS + off) mod IOS_SCHEDULER_MAX_TASKS = i"
    using assms by (auto simp: off_def)
  then have "(start + off) mod IOS_SCHEDULER_MAX_TASKS = i" by (simp add: mod_add_left_eq)
  ultimately show ?thesis by blast
qed

lemma select_full:
  shows "select_loop el ts start [1..<IOS_SCHEDULER_MAX_TASKS + 1] = None \<longleftrightarrow> (\<forall>i < IOS_SCHEDULER_MAX_TASKS. \<not> el (ts ! i))"
    and "select_loop el ts start [1..<IOS_SCHEDULER_MAX_TASKS + 1] = Some i \<Longrightarrow> i < IOS_SCHEDULER_MAX_TASKS \<and> el (ts ! i)"
proof -
  show "select_loop el ts start [1..<IOS_SCHEDULER_MAX_TASKS + 1] = None \<longleftrightarrow> (\<forall>i < IOS_SCHEDULER_MAX_TASKS. \<not> el (ts ! i))"
    unfolding select_loop_None using offset_reaches [of _ start] by (metis mod_less_divisor zero_less_numeral)
  show "i < IOS_SCHEDULER_MAX_TASKS \<and> el (ts ! i)"
    if "select_loop el ts start [1..<IOS_SCHEDULER_MAX_TASKS + 1] = Some i"
    using select_loop_Some [OF that] by auto
qed

text \<open>The table with nothing running, and the selection that follows.\<close>

definition none_running :: "('p, 'q) scheduler \<Rightarrow> bool" where
  "none_running s \<longleftrightarrow> (\<forall>i < IOS_SCHEDULER_MAX_TASKS. tk_state (sc_tasks s ! i) \<noteq> IOS_TASK_RUNNING)"

definition runnable_at :: "('p, 'q) scheduler \<Rightarrow> nat \<Rightarrow> nat \<Rightarrow> bool" where
  "runnable_at s p i \<longleftrightarrow> i < IOS_SCHEDULER_MAX_TASKS \<and> tk_state (sc_tasks s ! i) = IOS_TASK_RUNNABLE \<and> tk_priority (sc_tasks s ! i) = p"

lemma select_priority_Some:
  "select_priority ps s = Some (p, i) \<Longrightarrow> p \<in> set ps \<and> runnable_at s p i
    \<and> (\<exists>as bs. ps = as @ p # bs \<and> (\<forall>p' \<in> set as. \<forall>j. \<not> runnable_at s p' j))"
proof (induction ps)
  case (Cons a ps)
  let ?sel = "select_loop (\<lambda>t. tk_state t = IOS_TASK_RUNNABLE \<and> tk_priority t = a) (sc_tasks s)
             (sc_last_selected s ! a) [1..<IOS_SCHEDULER_MAX_TASKS + 1]"
  show ?case
  proof (cases ?sel)
    case None
    have none: "\<not> runnable_at s a j" for j using None unfolding select_full(1) runnable_at_def by simp
    obtain as bs where "ps = as @ p # bs" "\<forall>p' \<in> set as. \<forall>j. \<not> runnable_at s p' j" "p \<in> set ps" "runnable_at s p i"
      using Cons None by (auto simp del: upt_Suc)
    then show ?thesis using none by (intro conjI exI [of _ "a # as"] exI [of _ bs]) auto
  next
    case (Some j)
    then have "p = a" "i = j" using Cons.prems by (simp_all del: upt_Suc)
    then show ?thesis using select_full(2) [OF Some] by (auto simp: runnable_at_def intro: exI [of _ "[]"])
  qed
qed simp

lemma select_priority_None:
  "select_priority ps s = None \<Longrightarrow> p \<in> set ps \<Longrightarrow> \<not> runnable_at s p i"
proof (induction ps)
  case (Cons a ps)
  let ?sel = "select_loop (\<lambda>t. tk_state t = IOS_TASK_RUNNABLE \<and> tk_priority t = a) (sc_tasks s)
             (sc_last_selected s ! a) [1..<IOS_SCHEDULER_MAX_TASKS + 1]"
  have sel: "?sel = None" and rest: "select_priority ps s = None"
    using Cons.prems(1) by (auto simp del: upt_Suc split: option.splits)
  have "\<not> runnable_at s a i" using sel unfolding select_full(1) runnable_at_def by simp
  then show ?case using Cons rest by auto
qed simp

abbreviation priorities :: "nat list" where "priorities \<equiv> [4, 3, 2, 1, 0]"

lemma priorities_eq: "rev [IOS_SCHEDULER_USER_PRIORITY..<IOS_SCHEDULER_KERNEL_PRIORITY_RECOVERY + 1] = priorities"
  by (simp add: upt_rec)

lemma select_runnable_cases:
  obtains (task) p i where "select_runnable s = (s\<lparr>sc_last_selected := (sc_last_selected s)[p := i]\<rparr>, Task i)"
      "runnable_at s p i" "p \<le> 4" "\<And>p' j. p < p' \<Longrightarrow> p' \<le> 4 \<Longrightarrow> \<not> runnable_at s p' j"
  | (idle) "select_runnable s = (s, Idle)" "\<And>p j. p \<le> 4 \<Longrightarrow> \<not> runnable_at s p j"
proof (cases "select_priority priorities s")
  case None
  have "\<not> runnable_at s p j" if "p \<le> 4" for p j
    using select_priority_None [OF None, of p j] that by (auto simp: le_Suc_eq numeral_eq_Suc)
  then show thesis using None idle by (simp only: select_runnable_def priorities_eq) simp
next
  case (Some x)
  obtain p i where x: "x = (p, i)" by (cases x)
  obtain as bs where ps: "priorities = as @ p # bs" "\<forall>p' \<in> set as. \<forall>j. \<not> runnable_at s p' j" "p \<in> set priorities" "runnable_at s p i"
    using select_priority_Some [OF Some [unfolded x]] by blast
  have "p' \<in> set as" if "p < p'" "p' \<le> 4" for p'
  proof -
    have "sorted_wrt (>) priorities" by simp
    then have "\<forall>y \<in> set bs. y < p" using ps(1) by (metis sorted_wrt_append sorted_wrt.simps(2))
    moreover have "p' \<in> set (as @ p # bs)" unfolding ps(1) [symmetric] using that by auto
    ultimately show ?thesis using that(1) by auto
  qed
  then show thesis using ps(2-4) Some x by (intro task [of p i]) (auto simp only: select_runnable_def priorities_eq, auto)
qed

text \<open>Making a task that is in no queue the current one.\<close>

lemma run_task_rep:
  assumes rep: "sched_rep s Q" and none: "none_running s"
    and s': "s' = run_selected (s\<lparr>sc_last_selected := ls\<rparr>, r)" and ls: "length ls = 5"
    and r: "\<And>i. r = Task i \<Longrightarrow> i < IOS_SCHEDULER_MAX_TASKS \<and> tk_wait_queue (sc_tasks s ! i) = None"
  shows "sched_rep s' Q"
proof (rule sched_repI)
  note d = sched_repD [OF rep]
  let ?t = "s\<lparr>sc_last_selected := ls\<rparr>"
  have tasks: "sc_tasks s' ! i = (if r = Task i then (sc_tasks s ! i)\<lparr>tk_state := IOS_TASK_RUNNING\<rparr> else sc_tasks s ! i)"
    if "i < IOS_SCHEDULER_MAX_TASKS" for i
    using that d(2) by (cases r) (simp_all add: s' run_selected_def nth_list_update)
  show "sc_ready s'" "length (sc_tasks s') = IOS_SCHEDULER_MAX_TASKS" "length (sc_last_selected s') = 5"
    using d(1,2) ls by (simp_all add: s' run_selected_def)
  show "queue_rep s' q (Q q)" for q
    using d(4) [of q] by (rule queue_rep_other) (simp_all add: tasks, simp add: s' run_selected_def)
  fix i
  show "sc_current_task s' = Some (Task i) \<Longrightarrow> i < IOS_SCHEDULER_MAX_TASKS" using r by (simp add: s' run_selected_def)
  assume i: "i < IOS_SCHEDULER_MAX_TASKS"
  show "tk_wait_queue (sc_tasks s' ! i) \<noteq> None \<Longrightarrow> tk_state (sc_tasks s' ! i) = IOS_TASK_BLOCKED"
    using tasks [OF i] d(5) [OF i] r [of i] by (auto split: if_splits)
  show "tk_state (sc_tasks s' ! i) = IOS_TASK_RUNNING \<Longrightarrow> sc_current_task s' = Some (Task i)"
    using tasks [OF i] none i by (auto simp: none_running_def s' run_selected_def split: if_splits)
qed

lemma run_selected_rep:
  assumes rep: "sched_rep s Q" and none: "none_running s"
  shows "sched_rep (run_selected (select_runnable s)) Q"
proof (cases rule: select_runnable_cases [of s])
  case (task p i)
  have "tk_wait_queue (sc_tasks s ! i) = None"
    using sched_repD(5) [OF rep, of i] task(2) by (cases "tk_wait_queue (sc_tasks s ! i)") (auto simp: runnable_at_def)
  then show ?thesis
    using task(2) sched_repD(3) [OF rep]
    by (intro run_task_rep [OF rep none, where ls = "(sc_last_selected s)[p := i]" and r = "Task i"])
      (auto simp: task(1) runnable_at_def)
next
  case idle
  then show ?thesis
    by (intro run_task_rep [OF rep none, where ls = "sc_last_selected s" and r = Idle])
      (simp_all add: idle(1) sched_repD(3) [OF rep])
qed

lemma yield_rep:
  assumes rep: "sched_rep s Q"
  defines "s' \<equiv> (case sc_current_task s of None \<Rightarrow> s
    | Some r \<Rightarrow> if tk_state (task_of s r) = IOS_TASK_RUNNING then set_state r IOS_TASK_RUNNABLE s else s)"
  shows "sched_rep s' Q \<and> none_running s'"
proof -
  note d = sched_repD [OF rep]
  have stopped: "none_running s" if "\<And>i. sc_current_task s = Some (Task i) \<Longrightarrow> tk_state (sc_tasks s ! i) \<noteq> IOS_TASK_RUNNING"
    using d(6) that unfolding none_running_def by blast
  have task: "sched_rep (set_state (Task i) IOS_TASK_RUNNABLE s) Q \<and> none_running (set_state (Task i) IOS_TASK_RUNNABLE s)"
    if c: "sc_current_task s = Some (Task i)" and "tk_state (sc_tasks s ! i) = IOS_TASK_RUNNING" for i
  proof -
    have i: "i < IOS_SCHEDULER_MAX_TASKS" using d(7) c by blast
    have w: "tk_wait_queue (sc_tasks s ! i) = None" using d(5) [OF i] that(2) by (cases "tk_wait_queue (sc_tasks s ! i)") auto
    have "sched_rep (set_state (Task i) IOS_TASK_RUNNABLE s) Q"
    proof (rule sched_rep_step [OF rep, where t = i])
      show "queue_rep (set_state (Task i) IOS_TASK_RUNNABLE s) q (Q q)" for q by (rule queue_rep_set_state [OF d(4,2)])
    qed (use i w d(2) in simp_all)
    moreover have "tk_state (sc_tasks (set_state (Task i) IOS_TASK_RUNNABLE s) ! j) \<noteq> IOS_TASK_RUNNING"
      if "j < IOS_SCHEDULER_MAX_TASKS" for j
      using d(6) [OF that] c i d(2) that by (cases "j = i") auto
    ultimately show ?thesis unfolding none_running_def by blast
  qed
  have idle: "sched_rep (set_state Idle IOS_TASK_RUNNABLE s) Q"
  proof -
    have "sched_rep (s\<lparr>sc_idle_task := x\<rparr>) Q = sched_rep s Q" for x by (simp add: sched_rep_def queue_rep_def)
    then show ?thesis using rep by (simp add: set_state_def put_task_def)
  qed
  show ?thesis
  proof (cases "sc_current_task s")
    case None
    then show ?thesis using rep stopped by (simp add: s'_def)
  next
    case (Some r)
    show ?thesis
    proof (cases r)
      case Idle
      have "none_running (set_state Idle IOS_TASK_RUNNABLE s)" using stopped Some Idle by (simp add: none_running_def)
      then show ?thesis using Some Idle idle rep stopped by (simp add: s'_def)
    next
      case (Task i)
      then show ?thesis using Some task [of i] rep stopped by (simp add: s'_def)
    qed
  qed
qed

lemma select_next_rep: "sched_rep s Q \<Longrightarrow> sched_rep (scheduler_select_next s) Q"
  unfolding scheduler_select_next_def Let_def using yield_rep [of s Q] by (intro run_selected_rep) simp_all

text \<open>Slots never become unused again.\<close>

definition grows :: "('p, 'q) scheduler \<Rightarrow> ('p, 'q) scheduler \<Rightarrow> bool" where
  "grows s s' \<longleftrightarrow> (\<forall>i < IOS_SCHEDULER_MAX_TASKS. tk_state (sc_tasks s' ! i) = IOS_TASK_UNUSED \<longrightarrow> tk_state (sc_tasks s ! i) = IOS_TASK_UNUSED)"

text \<open>The queue part of blocking: the current task leaves the processor and joins the queue.\<close>

lemma block_queue_rep:
  fixes q :: 'q
  assumes rep: "sched_rep s Q" and cur: "sc_current_task s = Some (Task t)"
    and run: "tk_state (sc_tasks s ! t) = IOS_TASK_RUNNING"
  defines "s3 \<equiv> join_queue q t s"
  shows "sched_rep s3 (Q(q := Q q @ [t])) \<and> none_running s3 \<and> grows s s3"
proof -
  note d = sched_repD [OF rep]
  have t: "t < IOS_SCHEDULER_MAX_TASKS" using d(7) cur by blast
  have w: "tk_wait_queue (sc_tasks s ! t) = None" using d(5) [OF t] run by (cases "tk_wait_queue (sc_tasks s ! t)") auto
  have notin: "t \<notin> set (Q q')" for q' using queue_rep_mem [OF d(4) [of q'], of t] w by simp
  have q: "linked (next_of s) (wq_head (sc_queues s q)) (Q q)" "distinct (Q q)"
    "wq_tail (sc_queues s q) = (if Q q = [] then None else Some (last (Q q)))" using d(4) [of q] by (simp_all add: queue_rep_def)
  have lastin: "last (Q q) \<in> set (Q q)" if "Q q \<noteq> []" using that by simp
  then have lastlt: "last (Q q) < IOS_SCHEDULER_MAX_TASKS" "last (Q q) \<noteq> t" if "Q q \<noteq> []"
    using that queue_rep_mem [OF d(4) [of q]] notin by metis+
  have tasks: "sc_tasks s3 ! i = (if i = t then (sc_tasks s ! t)\<lparr>tk_state := IOS_TASK_BLOCKED, tk_wait_queue := Some q, tk_wait_next := None\<rparr>
      else if Q q \<noteq> [] \<and> i = last (Q q) then (sc_tasks s ! i)\<lparr>tk_wait_next := Some t\<rparr> else sc_tasks s ! i)"
    if "i < IOS_SCHEDULER_MAX_TASKS" for i
    using that d(2) t q(3) lastlt by (auto simp: s3_def join_queue_def Let_def nth_list_update split: if_splits)
  have queues: "sc_queues s3 = (sc_queues s)(q := \<lparr>wq_head = (if Q q = [] then Some t else wq_head (sc_queues s q)), wq_tail = Some t\<rparr>)"
    using q(3) by (cases "sc_queues s q") (auto simp: s3_def join_queue_def Let_def)
  have same: "sc_ready s3 = sc_ready s" "length (sc_tasks s3) = length (sc_tasks s)"
      "sc_last_selected s3 = sc_last_selected s" "sc_current_task s3 = sc_current_task s"
    by (simp_all add: s3_def join_queue_def Let_def split: option.splits)
  have wq: "tk_wait_queue (sc_tasks s3 ! i) = (if i = t then Some q else tk_wait_queue (sc_tasks s ! i))"
    "next_of s3 i = (if Q q = [] then (next_of s)(t := None) else ((next_of s)(t := None))(last (Q q) := Some t)) i"
    if "i < IOS_SCHEDULER_MAX_TASKS" for i
    using tasks [OF that] lastlt by simp_all
  have "queue_rep s3 q' ((Q(q := Q q @ [t])) q')" for q'
  proof (cases "q' = q")
    case True
    have members: "x < IOS_SCHEDULER_MAX_TASKS" if "x \<in> set (Q q @ [t])" for x
      using that t queue_rep_mem [OF d(4) [of q], of x] by auto
    have "linked (next_of s3) h (Q q @ [t])
      = linked (if Q q = [] then (next_of s)(t := None) else ((next_of s)(t := None))(last (Q q) := Some t)) h (Q q @ [t])" for h
      by (rule linked_cong) (rule wq(2) [OF members])
    then have "linked (next_of s3) (wq_head (sc_queues s3 q)) (Q q @ [t])"
      using linked_snoc [OF q(1,2) notin] by (simp add: queues)
    moreover have "x \<in> set (Q q @ [t]) \<longleftrightarrow> x < IOS_SCHEDULER_MAX_TASKS \<and> tk_wait_queue (sc_tasks s3 ! x) = Some q" for x
      using queue_rep_mem [OF d(4) [of q], of x] wq(1) [of x] t by auto
    ultimately show ?thesis using True q(2) notin by (simp add: queue_rep_def queues set_eq_iff)
  next
    case False
    have "queue_rep s3 q' (Q q')"
      using d(4) [of q']
    proof (rule queue_rep_other)
      show "sc_queues s3 q' = sc_queues s q'" using False by (simp add: queues)
      fix i assume i: "i < IOS_SCHEDULER_MAX_TASKS"
      show "tk_wait_queue (sc_tasks s3 ! i) = Some q' \<longleftrightarrow> tk_wait_queue (sc_tasks s ! i) = Some q'"
        using wq(1) [OF i] False w by auto
      assume other: "tk_wait_queue (sc_tasks s ! i) = Some q'"
      have "i \<noteq> t" using other w by auto
      moreover have "i \<noteq> last (Q q)" if "Q q \<noteq> []"
        using other lastin [OF that] queue_rep_mem [OF d(4) [of q], of i] False by auto
      ultimately show "next_of s3 i = next_of s i" using wq(2) [OF i] by simp
    qed
    then show ?thesis using False by simp
  qed
  then have "sched_rep s3 (Q(q := Q q @ [t]))"
    using same tasks t by (intro sched_rep_step [OF rep, where t = t]) simp_all
  moreover have "tk_state (sc_tasks s3 ! i) \<noteq> IOS_TASK_RUNNING" if "i < IOS_SCHEDULER_MAX_TASKS" for i
    using tasks [OF that] d(6) [OF that] cur by (cases "i = t") auto
  moreover have "tk_state (sc_tasks s3 ! i) = IOS_TASK_UNUSED \<longrightarrow> tk_state (sc_tasks s ! i) = IOS_TASK_UNUSED"
    if "i < IOS_SCHEDULER_MAX_TASKS" for i using tasks [OF that] by simp
  ultimately show ?thesis unfolding none_running_def grows_def by blast
qed

lemma block_current_rep:
  assumes rep: "sched_rep s Q" and cur: "sc_current_task s = Some (Task t)"
    and run: "tk_state (sc_tasks s ! t) = IOS_TASK_RUNNING" and blk: "scheduler_block_current q s = (s', r)"
  shows "r = Inr () \<and> sched_rep s' (Q(q := Q q @ [t]))"
proof -
  note d = sched_repD [OF rep]
  have t: "t < IOS_SCHEDULER_MAX_TASKS" using d(7) cur by blast
  have w: "tk_wait_queue (sc_tasks s ! t) = None" using d(5) [OF t] run by (cases "tk_wait_queue (sc_tasks s ! t)") auto
  note b = block_queue_rep [OF rep cur run, of q]
  show ?thesis using blk cur run w d(1) run_selected_rep [OF conjunct1 [OF b] conjunct1 [OF conjunct2 [OF b]]]
    by (simp add: scheduler_block_current_def Let_def)
qed

lemma allocate_loop_Some:
  "allocate_loop ts k = Some i \<Longrightarrow> k \<le> i \<and> i - k < length ts \<and> tk_state (ts ! (i - k)) = IOS_TASK_UNUSED"
  by (induction ts k rule: allocate_loop.induct) (auto simp: nth_Cons' split: if_splits)

lemma allocate_loop_None: "allocate_loop ts k = None \<longleftrightarrow> (\<forall>t \<in> set ts. tk_state t \<noteq> IOS_TASK_UNUSED)"
  by (induction ts k rule: allocate_loop.induct) auto

text \<open>Filling a free slot with a task that waits for nothing.\<close>

lemma add_task_rep:
  assumes rep: "sched_rep s Q" and alloc: "allocate_task s = (s1, Some i)"
    and "tk_wait_queue t = None" and "tk_state t \<noteq> IOS_TASK_RUNNING"
  shows "sched_rep (put_task (Task i) t s1) Q" and "i < IOS_SCHEDULER_MAX_TASKS" and "tk_state (sc_tasks s ! i) = IOS_TASK_UNUSED"
    and "sc_tasks (put_task (Task i) t s1) = (sc_tasks s)[i := t]" and "grows s (put_task (Task i) t s1)"
proof -
  note d = sched_repD [OF rep]
  have al: "allocate_loop (sc_tasks s) 0 = Some i" and s1: "s1 = s\<lparr>sc_tasks := (sc_tasks s)[i := zero_task\<lparr>tk_task_id := sc_next_task_id s\<rparr>],
             sc_next_task_id := sc_next_task_id s + 1\<rparr>"
    using alloc by (auto simp: allocate_task_def split: option.splits)
  show i: "i < IOS_SCHEDULER_MAX_TASKS" and unused: "tk_state (sc_tasks s ! i) = IOS_TASK_UNUSED"
    using allocate_loop_Some [OF al] d(2) by simp_all
  show tasks: "sc_tasks (put_task (Task i) t s1) = (sc_tasks s)[i := t]" by (simp add: s1)
  have "tk_state (sc_tasks (put_task (Task i) t s1) ! j) = IOS_TASK_UNUSED \<longrightarrow> tk_state (sc_tasks s ! j) = IOS_TASK_UNUSED" for j
    unfolding tasks using unused by (cases "j = i") simp_all
  then show "grows s (put_task (Task i) t s1)" unfolding grows_def by blast
  have w: "tk_wait_queue (sc_tasks s ! i) = None" using d(5) [OF i] unused by (cases "tk_wait_queue (sc_tasks s ! i)") auto
  show "sched_rep (put_task (Task i) t s1) Q"
  proof (rule sched_rep_step [OF rep, where t = i])
    show "queue_rep (put_task (Task i) t s1) q (Q q)" for q
      using d(4) [of q]
    proof (rule queue_rep_other)
      fix j assume j: "j < IOS_SCHEDULER_MAX_TASKS"
      show "tk_wait_queue (sc_tasks (put_task (Task i) t s1) ! j) = Some q \<longleftrightarrow> tk_wait_queue (sc_tasks s ! j) = Some q"
        unfolding tasks using j w assms(3) d(2) by (cases "j = i") simp_all
      assume "tk_wait_queue (sc_tasks s ! j) = Some q"
      then show "next_of (put_task (Task i) t s1) j = next_of s j" unfolding tasks using w by (cases "j = i") simp_all
    qed (simp add: s1)
  qed (use assms(3,4) i d(2) in \<open>simp_all add: s1\<close>)
qed

lemma grows_trans: "grows s s' \<Longrightarrow> grows s' s'' \<Longrightarrow> grows s s''"
  unfolding grows_def by blast

lemma set_state_grows: "length (sc_tasks s) = IOS_SCHEDULER_MAX_TASKS \<Longrightarrow> st \<noteq> IOS_TASK_UNUSED \<Longrightarrow> grows s (set_state r st s)"
proof (cases r)
  case (Task k)
  assume "length (sc_tasks s) = IOS_SCHEDULER_MAX_TASKS" "st \<noteq> IOS_TASK_UNUSED"
  then have "tk_state (sc_tasks (set_state r st s) ! i) = IOS_TASK_UNUSED \<Longrightarrow> tk_state (sc_tasks s ! i) = IOS_TASK_UNUSED"
    if "i < IOS_SCHEDULER_MAX_TASKS" for i using that by (cases "i = k") (simp_all add: Task)
  then show ?thesis unfolding grows_def by blast
qed (simp add: grows_def)

lemma run_selected_grows:
  assumes "length (sc_tasks s) = IOS_SCHEDULER_MAX_TASKS"
  shows "grows s (run_selected (select_runnable s))"
proof -
  obtain ls r where "select_runnable s = (s\<lparr>sc_last_selected := ls\<rparr>, r)"
  proof (cases rule: select_runnable_cases [of s])
    case idle
    then show thesis using that [of "sc_last_selected s" Idle] by simp
  qed (use that in blast)
  then show ?thesis
    using set_state_grows [of "s\<lparr>sc_last_selected := ls\<rparr>" IOS_TASK_RUNNING r] assms by (simp add: run_selected_def grows_def)
qed

lemma exit_current_rep:
  assumes rep: "sched_rep s Q" and ex: "scheduler_exit_current x s = (s', Inr ())"
  shows "\<exists>t. sc_current_task s = Some (Task t) \<and> sched_rep s' (\<lambda>q. removeAll t (Q q)) \<and> grows s s'"
proof -
  note d = sched_repD [OF rep]
  obtain t p where t: "sc_current_task s = Some (Task t)" "tk_process (sc_tasks s ! t) = Some p"
    "tk_kind (sc_tasks s ! t) = IOS_TASK_USER_PROCESS" "sc_deferred_exit_task s = None"
    using ex by (auto simp: scheduler_exit_current_def split: option.splits task_ref.splits if_splits)
  have tl: "t < IOS_SCHEDULER_MAX_TASKS" using d(7) t(1) by blast
  define s1 where "s1 = (case tk_wait_queue (sc_tasks s ! t) of None \<Rightarrow> s | Some q \<Rightarrow> wait_queue_remove q t s)"
  define s2 where "s2 = (put_task (Task t) ((sc_tasks s1 ! t)\<lparr>tk_exit_status := x, tk_state := IOS_TASK_EXITED\<rparr>) s1)
    \<lparr>sc_processes := (sc_processes s1)(p := (sc_processes s1 p)\<lparr>pr_exit_status := x\<rparr>), sc_deferred_exit_task := Some t\<rparr>"
  have s': "s' = run_selected (select_runnable s2)"
    using ex t d(1) by (simp add: scheduler_exit_current_def Let_def s1_def s2_def)
  have s1: "sched_rep s1 (\<lambda>q. removeAll t (Q q)) \<and> tk_wait_queue (sc_tasks s1 ! t) = None
    \<and> (\<forall>i < IOS_SCHEDULER_MAX_TASKS. i \<noteq> t \<longrightarrow> tk_state (sc_tasks s1 ! i) = tk_state (sc_tasks s ! i))
    \<and> sc_current_task s1 = sc_current_task s"
  proof (cases "tk_wait_queue (sc_tasks s ! t)")
    case None
    then have "removeAll t (Q q) = Q q" for q using queued_iff [OF rep tl, of q] by simp
    then have "(\<lambda>q. removeAll t (Q q)) = Q" by auto
    then show ?thesis using rep None by (simp add: s1_def)
  next
    case (Some q)
    then have "t \<in> set (Q q)" using queued_iff [OF rep tl] by simp
    then obtain as bs where split: "Q q = as @ t # bs" by (meson split_list)
    let ?p = "if as = [] then None else Some (last as)"
    have qr: "queue_rep s q (as @ t # bs)" and dist: "distinct (as @ t # bs)"
      using d(4) [of q] split by (simp_all add: queue_rep_def)
    have p: "?p \<noteq> Some t" "\<And>k. ?p = Some k \<Longrightarrow> k < length (sc_tasks s)"
      using dist queue_rep_mem [OF qr, of "last as"] d(2) last_in_set [of as] by (auto split: if_splits)
    have st: "tk_state (sc_tasks s ! t) = IOS_TASK_BLOCKED" using d(5) [OF tl] Some by simp
    have eq: "s1 = unlink q t ?p s" using Some wait_queue_remove_unlink [OF qr] by (simp add: s1_def)
    have tasks: "sc_tasks s1 ! i = (if i = t then (sc_tasks s ! t)\<lparr>tk_wait_next := None, tk_wait_queue := None\<rparr>
        else if ?p = Some i then (sc_tasks s ! i)\<lparr>tk_wait_next := next_of s t\<rparr> else sc_tasks s ! i)"
      if "i < IOS_SCHEDULER_MAX_TASKS" for i
      using unlink_task [where t = t and s = s and p = ?p and i = i and q = q, OF _ p] that tl d(2) by (simp add: eq)
    have "set_state (Task t) IOS_TASK_BLOCKED s1 = s1"
      using tasks [OF tl] st d(2) tl by (simp add: set_state_def put_task_def list_update_same_conv eq)
    moreover have "removeAll t (Q q') = (Q(q := as @ bs)) q'" for q'
      using queued_iff [OF rep tl, of q'] Some split dist by (cases "q' = q") auto
    then have "(\<lambda>q. removeAll t (Q q)) = Q(q := as @ bs)" by auto
    ultimately have "sched_rep s1 (\<lambda>q. removeAll t (Q q))"
      using unlink_rep [OF rep split, of IOS_TASK_BLOCKED, folded eq] by simp
    moreover have "sc_current_task s1 = sc_current_task s" by (simp add: eq)
    moreover have "tk_wait_queue (sc_tasks s1 ! t) = None" using tasks [OF tl] by simp
    moreover have "tk_state (sc_tasks s1 ! i) = tk_state (sc_tasks s ! i)" if "i < IOS_SCHEDULER_MAX_TASKS" for i
      using tasks [OF that] by simp
    ultimately show ?thesis by blast
  qed
  have len: "length (sc_tasks s1) = IOS_SCHEDULER_MAX_TASKS" using sched_repD(2) s1 by blast
  have tasks: "sc_tasks s2 = (sc_tasks s1)[t := (sc_tasks s1 ! t)\<lparr>tk_exit_status := x, tk_state := IOS_TASK_EXITED\<rparr>]"
    "sc_queues s2 = sc_queues s1" by (simp_all add: s2_def)
  have rep2: "sched_rep s2 (\<lambda>q. removeAll t (Q q))"
  proof (rule sched_rep_step [OF conjunct1 [OF s1], where t = t])
    show "queue_rep s2 q (removeAll t (Q q))" for q
      by (rule queue_rep_tasks [OF sched_repD(4) [OF conjunct1 [OF s1]] tasks(2) len tasks(1)]) simp_all
  qed (use s1 tl len in \<open>simp_all add: s2_def\<close>)
  have "tk_state (sc_tasks s2 ! i) \<noteq> IOS_TASK_RUNNING" if "i < IOS_SCHEDULER_MAX_TASKS" for i
  proof (cases "i = t")
    case True
    then show ?thesis using tl len by (simp add: tasks)
  next
    case False
    then show ?thesis using sched_repD(6) [OF conjunct1 [OF s1] that] s1 t(1) by (auto simp: tasks)
  qed
  then have none: "none_running s2" unfolding none_running_def by blast
  have "grows s s2"
    unfolding grows_def using s1 tl len by (auto simp: tasks nth_list_update split: if_splits)
  then have "grows s s'" using run_selected_grows [of s2] len grows_trans by (auto simp: s' tasks)
  then show ?thesis using t(1) run_selected_rep [OF rep2 none] s' by blast
qed

section \<open>Runs\<close>

text \<open>Every call that other parts of the kernel make, with any result; queue identifiers, tasks and
  processes are arbitrary.\<close>

inductive sched_step :: "('p, 'q) scheduler \<Rightarrow> ('p, 'q) scheduler \<Rightarrow> bool" where
  step_add_process: "scheduler_add_process p s = (s', r) \<Longrightarrow> sched_step s s'"
| step_add_kernel_work: "scheduler_add_kernel_work k s = (s', i) \<Longrightarrow> sched_step s s'"
| step_select_next: "sched_step s (scheduler_select_next s)"
| step_quantum: "sched_step s (scheduler_on_quantum s)"
| step_block: "scheduler_block_current q s = (s', r) \<Longrightarrow> sched_step s s'"
| step_wake_task: "t < IOS_SCHEDULER_MAX_TASKS \<Longrightarrow> scheduler_wake_task t s = (s', r) \<Longrightarrow> sched_step s s'"
| step_wake_one: "wait_queue_wake_one q s = (s', j) \<Longrightarrow> sched_step s s'"
| step_wake_all: "wait_queue_wake_all q s = (s', n) \<Longrightarrow> sched_step s s'"
| step_exit: "scheduler_exit_current x s = (s', r) \<Longrightarrow> sched_step s s'"
| step_finish: "sched_step s (scheduler_finish_switch mark s)"

lemma add_process_rep:
  assumes rep: "sched_rep s Q" and a: "scheduler_add_process p s = (s', r)"
  shows "sched_rep s' Q \<and> grows s s'"
proof (cases "s' = s")
  case False
  then obtain s1 i where al: "allocate_task s = (s1, Some i)"
    and s': "s' = put_task (Task i) ((sc_tasks s1 ! i)\<lparr>tk_kind := IOS_TASK_USER_PROCESS,
               tk_state := IOS_TASK_RUNNABLE, tk_priority := IOS_SCHEDULER_USER_PRIORITY, tk_process := Some p\<rparr>) s1"
    using a by (auto simp: scheduler_add_process_def allocate_task_def split: if_splits option.splits)
  have "tk_wait_queue (sc_tasks s1 ! i) = None"
    using al allocate_loop_Some [of "sc_tasks s" 0 i]
    by (auto simp: allocate_task_def zero_task_def split: option.splits)
  then show ?thesis unfolding s' by (intro conjI add_task_rep(1,5) [OF rep al]) simp_all
qed (use rep in \<open>simp add: grows_def\<close>)

lemma add_kernel_work_rep:
  assumes rep: "sched_rep s Q" and a: "scheduler_add_kernel_work p s = (s', r)"
  shows "sched_rep s' Q \<and> grows s s'"
proof (cases "s' = s")
  case False
  then obtain s1 i where al: "allocate_task s = (s1, Some i)"
    and s': "s' = put_task (Task i) ((sc_tasks s1 ! i)\<lparr>tk_kind := IOS_TASK_KERNEL_WORK,
               tk_state := IOS_TASK_BLOCKED, tk_priority := p\<rparr>) s1"
    using a by (auto simp: scheduler_add_kernel_work_def allocate_task_def split: if_splits option.splits)
  have "tk_wait_queue (sc_tasks s1 ! i) = None"
    using al allocate_loop_Some [of "sc_tasks s" 0 i]
    by (auto simp: allocate_task_def zero_task_def split: option.splits)
  then show ?thesis unfolding s' by (intro conjI add_task_rep(1,5) [OF rep al]) simp_all
qed (use rep in \<open>simp add: grows_def\<close>)

lemma select_next_grows: "sched_rep s Q \<Longrightarrow> grows s (scheduler_select_next s)"
proof -
  assume rep: "sched_rep s Q"
  let ?y = "case sc_current_task s of None \<Rightarrow> s
    | Some r \<Rightarrow> if tk_state (task_of s r) = IOS_TASK_RUNNING then set_state r IOS_TASK_RUNNABLE s else s"
  have len: "length (sc_tasks s) = IOS_SCHEDULER_MAX_TASKS" by (rule sched_repD(2) [OF rep])
  have "grows s ?y" using set_state_grows [OF len, of IOS_TASK_RUNNABLE] by (auto simp: grows_def split: option.splits)
  moreover have "grows ?y (run_selected (select_runnable ?y))"
    using yield_rep [OF rep] by (intro run_selected_grows) (auto dest: sched_repD(2))
  ultimately show ?thesis unfolding scheduler_select_next_def Let_def by (rule grows_trans)
qed

lemma ticks_rep: "sched_rep (s\<lparr>sc_ticks := n\<rparr>) Q = sched_rep s Q"
  by (simp add: sched_rep_def queue_rep_def)

lemma finish_rep: "sched_rep (scheduler_finish_switch mark s) Q = sched_rep s Q \<and> grows s (scheduler_finish_switch mark s)"
  by (simp add: scheduler_finish_switch_def sched_rep_def queue_rep_def grows_def Let_def split: option.splits)

lemma wake_task_grows:
  assumes rep: "sched_rep s Q" and t: "t < IOS_SCHEDULER_MAX_TASKS" and w: "scheduler_wake_task t s = (s', r)"
  shows "(\<exists>Q'. sched_rep s' Q') \<and> grows s s'"
proof (cases "tk_state (sc_tasks s ! t) = IOS_TASK_BLOCKED")
  case False
  then have "s' = s" using w by (simp add: scheduler_wake_task_def)
  then show ?thesis using rep by (auto simp: grows_def)
next
  case True
  note d = sched_repD [OF rep]
  have "tk_state (sc_tasks s' ! i) = IOS_TASK_UNUSED \<longrightarrow> tk_state (sc_tasks s ! i) = IOS_TASK_UNUSED"
    if i: "i < IOS_SCHEDULER_MAX_TASKS" for i
  proof (cases "tk_wait_queue (sc_tasks s ! t)")
    case None
    then have "s' = set_state (Task t) IOS_TASK_RUNNABLE s" using w True d(1) by (auto simp: scheduler_wake_task_def)
    then show ?thesis using d(2) t by (cases "i = t") simp_all
  next
    case (Some q)
    then have "t \<in> set (Q q)" using queued_iff [OF rep t] by simp
    then obtain as bs where split: "Q q = as @ t # bs" by (meson split_list)
    let ?p = "if as = [] then None else Some (last as)"
    have qr: "queue_rep s q (as @ t # bs)" and dist: "distinct (as @ t # bs)"
      using d(4) [of q] split by (simp_all add: queue_rep_def)
    have p: "?p \<noteq> Some t" "\<And>k. ?p = Some k \<Longrightarrow> k < length (sc_tasks s)"
      using dist queue_rep_mem [OF qr, of "last as"] d(2) last_in_set [of as] by (auto split: if_splits)
    have s': "s' = set_state (Task t) IOS_TASK_RUNNABLE (unlink q t ?p s)"
      using w True d(1) Some wait_queue_remove_unlink [OF qr] by (auto simp: scheduler_wake_task_def Let_def)
    have "tk_state (sc_tasks (unlink q t ?p s) ! i) = tk_state (sc_tasks s ! i)"
      using unlink_task [where t = t and s = s and p = ?p and i = i and q = q, OF _ p] i t d(2) by simp
    then show ?thesis using d(2) t by (cases "i = t") (simp_all add: s')
  qed
  then show ?thesis using wake_task_rep [OF rep t True w] unfolding grows_def by blast
qed

lemma wake_one_step:
  assumes rep: "sched_rep s Q" and w: "wait_queue_wake_one q s = (s', j)"
  shows "(\<exists>Q'. sched_rep s' Q') \<and> grows s s'"
proof (cases "Q q")
  case Nil
  then show ?thesis using w wake_one_empty [OF rep Nil] rep by (auto simp: grows_def)
next
  case (Cons t ts)
  obtain s1 where s1: "wait_queue_wake_one q s = (s1, Some t)" "sched_rep s1 (Q(q := ts))"
    "tk_state (sc_tasks s1 ! t) = IOS_TASK_RUNNABLE"
    "\<And>i. i < IOS_SCHEDULER_MAX_TASKS \<Longrightarrow> i \<noteq> t \<Longrightarrow> tk_state (sc_tasks s1 ! i) = tk_state (sc_tasks s ! i)"
    using wake_one_rep [OF rep Cons] by metis
  have "tk_state (sc_tasks s1 ! i) = IOS_TASK_UNUSED \<longrightarrow> tk_state (sc_tasks s ! i) = IOS_TASK_UNUSED"
    if "i < IOS_SCHEDULER_MAX_TASKS" for i using s1(3) s1(4) [OF that] by (cases "i = t") simp_all
  then show ?thesis using s1(1,2) w unfolding grows_def by auto
qed

lemma block_step:
  assumes rep: "sched_rep s Q" and b: "scheduler_block_current q s = (s', r)"
  shows "(\<exists>Q'. sched_rep s' Q') \<and> grows s s'"
proof (cases "s' = s")
  case False
  then obtain t where t: "sc_current_task s = Some (Task t)" "tk_state (sc_tasks s ! t) = IOS_TASK_RUNNING"
    "s' = run_selected (select_runnable (join_queue q t s))"
    using b by (auto simp: scheduler_block_current_def split: option.splits task_ref.splits if_splits)
  have j: "sched_rep (join_queue q t s) (Q(q := Q q @ [t]))" using block_queue_rep [OF rep t(1,2)] by blast
  have "grows s (join_queue q t s)" using block_queue_rep [OF rep t(1,2)] by blast
  then have "grows s s'" unfolding t(3) by (rule grows_trans) (rule run_selected_grows [OF sched_repD(2) [OF j]])
  then show ?thesis using block_current_rep [OF rep t(1,2) b] by blast
qed (use rep in \<open>auto simp: grows_def\<close>)

lemma wake_all_step:
  assumes rep: "sched_rep s Q" and w: "wait_queue_wake_all q s = (s', n)"
  shows "sched_rep s' (Q(q := [])) \<and> n = length (Q q) \<and> grows s s'
    \<and> (\<forall>i < IOS_SCHEDULER_MAX_TASKS.
         tk_state (sc_tasks s' ! i) = (if i \<in> set (Q q) then IOS_TASK_RUNNABLE else tk_state (sc_tasks s ! i)))"
proof -
  have "length (Q q) < IOS_SCHEDULER_MAX_TASKS + 1" using queue_rep_length [OF sched_repD(4) [OF rep, of q]] by simp
  from wake_all_loop_rep [OF rep this, of 0] obtain s1 where s1:
    "wake_all_loop (IOS_SCHEDULER_MAX_TASKS + 1) q 0 s = (s1, length (Q q))" "sched_rep s1 (Q(q := []))"
    "\<forall>i < IOS_SCHEDULER_MAX_TASKS.
         tk_state (sc_tasks s1 ! i) = (if i \<in> set (Q q) then IOS_TASK_RUNNABLE else tk_state (sc_tasks s ! i))" by auto
  have "s' = s1" "n = length (Q q)" using w s1(1) unfolding wait_queue_wake_all_def by simp_all
  then show ?thesis using s1(2,3) unfolding grows_def by auto
qed

lemma sched_step_effect:
  assumes "sched_step s s'" and "sched_rep s Q"
  shows "(\<exists>Q'. sched_rep s' Q') \<and> grows s s'"
  using assms(1)
proof cases
  case (step_add_process p r)
  then show ?thesis using add_process_rep [OF assms(2)] by blast
next
  case (step_add_kernel_work k i)
  then show ?thesis using add_kernel_work_rep [OF assms(2)] by blast
next
  case step_select_next
  then show ?thesis using select_next_rep [OF assms(2)] select_next_grows [OF assms(2)] by blast
next
  case step_quantum
  have t: "sched_rep (s\<lparr>sc_ticks := sc_ticks s + 1\<rparr>) Q" using assms(2) by (simp only: ticks_rep)
  have "grows s (s\<lparr>sc_ticks := sc_ticks s + 1\<rparr>)" by (simp add: grows_def)
  then show ?thesis
    using select_next_rep [OF t] grows_trans [OF _ select_next_grows [OF t]] step_quantum
    by (auto simp: scheduler_on_quantum_def)
next
  case (step_block q r)
  then show ?thesis using block_step [OF assms(2)] by blast
next
  case (step_wake_task t r)
  then show ?thesis using wake_task_grows [OF assms(2)] by blast
next
  case (step_wake_one q j)
  then show ?thesis using wake_one_step [OF assms(2)] by blast
next
  case (step_wake_all q n)
  then show ?thesis using wake_all_step [OF assms(2)] by blast
next
  case (step_exit x r)
  show ?thesis
  proof (cases r)
    case (Inl e)
    then have "s' = s" using step_exit
      by (auto simp: scheduler_exit_current_def Let_def split: option.splits task_ref.splits if_splits)
    then show ?thesis using assms(2) by (auto simp: grows_def)
  next
    case (Inr u)
    then have "scheduler_exit_current x s = (s', Inr ())" using step_exit by simp
    from exit_current_rep [OF assms(2) this] show ?thesis by blast
  qed
next
  case (step_finish mark)
  then show ?thesis using finish_rep [of mark s Q] assms(2) by blast
qed

lemma sched_run_effect:
  assumes "sched_step\<^sup>*\<^sup>* s s'" and "sched_rep s Q"
  shows "(\<exists>Q'. sched_rep s' Q') \<and> grows s s'"
  using assms
proof (induction rule: rtranclp_induct)
  case (step y z)
  then obtain Q' where "sched_rep y Q'" by blast
  then show ?case using sched_step_effect [OF step(2)] step grows_trans by blast
qed (auto simp: grows_def)

lemma initialize_rep:
  assumes "\<And>q. sc_queues s q = wait_queue_initialize"
  shows "sched_rep (scheduler_initialize s) (\<lambda>_. [])"
  using assms by (auto simp: scheduler_initialize_def sched_rep_def queue_rep_def zero_task_def wait_queue_initialize_def)

section \<open>Rotation\<close>

text \<open>How many slots the rotation visits before slot \<open>i\<close>.\<close>

definition ahead :: "nat \<Rightarrow> nat \<Rightarrow> nat" where
  "ahead start i = (i + 63 - start mod IOS_SCHEDULER_MAX_TASKS) mod IOS_SCHEDULER_MAX_TASKS"

lemma mod_64: "(x :: nat) < 128 \<Longrightarrow> x mod 64 = (if x < 64 then x else x - 64)"
  by (simp add: le_mod_geq)

lemma ahead_offset:
  assumes "i < IOS_SCHEDULER_MAX_TASKS"
  shows "(start + (ahead start i + 1)) mod IOS_SCHEDULER_MAX_TASKS = i" and "ahead start i < IOS_SCHEDULER_MAX_TASKS"
proof -
  define a where "a = start mod IOS_SCHEDULER_MAX_TASKS"
  have a: "a < IOS_SCHEDULER_MAX_TASKS" by (simp add: a_def)
  show lt: "ahead start i < IOS_SCHEDULER_MAX_TASKS" by (simp add: ahead_def)
  have "(a + (ahead start i + 1)) mod IOS_SCHEDULER_MAX_TASKS = i"
    using assms a mod_64 [of "i + 63 - a"] mod_64 [of "a + (ahead start i + 1)"] lt
    unfolding ahead_def a_def [symmetric] by (auto split: if_splits)
  then show "(start + (ahead start i + 1)) mod IOS_SCHEDULER_MAX_TASKS = i" by (simp only: a_def mod_add_left_eq)
qed

lemma rotation_step:
  assumes sel: "select_loop el ts start [1..<IOS_SCHEDULER_MAX_TASKS + 1] = Some j"
    and i: "i < IOS_SCHEDULER_MAX_TASKS" "el (ts ! i)" "i \<noteq> j"
  shows "ahead j i < ahead start i"
proof -
  obtain k where k: "k < IOS_SCHEDULER_MAX_TASKS" "j = (start + (k + 1)) mod IOS_SCHEDULER_MAX_TASKS"
    "\<forall>m < k. \<not> el (ts ! ((start + (m + 1)) mod IOS_SCHEDULER_MAX_TASKS))"
    using select_loop_Some [OF sel] by (auto simp: nth_upt simp del: upt_Suc)
  note d = ahead_offset [OF i(1), of start]
  have "\<not> ahead start i < k" using k(3) d(1) i(2) by metis
  moreover have "ahead start i \<noteq> k" using k(2) d(1) i(3) by metis
  ultimately have less: "k < ahead start i" by simp
  define a where "a = start mod IOS_SCHEDULER_MAX_TASKS"
  have a: "a < 64" by (simp add: a_def)
  have j: "j = (a + (k + 1)) mod 64" unfolding a_def mod_add_left_eq by (rule k(2))
  have i': "i = (a + (ahead start i + 1)) mod 64" unfolding a_def mod_add_left_eq using d(1) by simp
  have jlt: "j < 64" using j by simp
  have "ahead j i = ahead start i - k - 1"
    unfolding ahead_def [of j] mod_less [OF jlt]
    using a d(2) less i' j mod_64 [of "a + (k + 1)"] mod_64 [of "a + (ahead start i + 1)"] mod_64 [of "i + 63 - j"] k(1)
    by (auto split: if_splits)
  then show ?thesis using less by simp
qed

text \<open>Selections of user-priority tasks that pass over a task that is ready all along: by the timer,
  or by the general selection. Between two selections anything may happen to the tasks.\<close>

inductive passed_over :: "nat \<Rightarrow> ('p, 'q) scheduler \<Rightarrow> nat \<Rightarrow> ('p, 'q) scheduler \<Rightarrow> bool" for i s0 where
  passed_none: "passed_over i s0 0 s0"
| passed_other: "passed_over i s0 n s \<Longrightarrow>
    sc_last_selected s' ! IOS_SCHEDULER_USER_PRIORITY = sc_last_selected s ! IOS_SCHEDULER_USER_PRIORITY \<Longrightarrow>
    passed_over i s0 n s'"
| passed_timer: "passed_over i s0 n s \<Longrightarrow> length (sc_last_selected s) = 5 \<Longrightarrow>
    tk_state (sc_tasks s ! i) = IOS_TASK_RUNNABLE \<Longrightarrow> tk_kind (sc_tasks s ! i) = IOS_TASK_USER_PROCESS \<Longrightarrow>
    select_runnable_user s = (s', Some j) \<Longrightarrow> j \<noteq> i \<Longrightarrow> passed_over i s0 (n + 1) s'"
| passed_select: "passed_over i s0 n s \<Longrightarrow> length (sc_last_selected s) = 5 \<Longrightarrow>
    runnable_at s IOS_SCHEDULER_USER_PRIORITY i \<Longrightarrow> select_runnable s = (s', Task j) \<Longrightarrow>
    tk_priority (sc_tasks s ! j) = IOS_SCHEDULER_USER_PRIORITY \<Longrightarrow> j \<noteq> i \<Longrightarrow> passed_over i s0 (n + 1) s'"

lemma select_runnable_loop:
  assumes "select_runnable s = (s', Task j)" and "tk_priority (sc_tasks s ! j) = IOS_SCHEDULER_USER_PRIORITY"
    and "length (sc_last_selected s) = 5"
  shows "select_loop (\<lambda>t. tk_state t = IOS_TASK_RUNNABLE \<and> tk_priority t = IOS_SCHEDULER_USER_PRIORITY) (sc_tasks s)
      (sc_last_selected s ! IOS_SCHEDULER_USER_PRIORITY) [1..<IOS_SCHEDULER_MAX_TASKS + 1] = Some j
    \<and> sc_last_selected s' ! IOS_SCHEDULER_USER_PRIORITY = j"
proof -
  obtain p where p: "select_priority priorities s = Some (p, j)" "s' = s\<lparr>sc_last_selected := (sc_last_selected s)[p := j]\<rparr>"
    using assms(1) unfolding select_runnable_def priorities_eq by (auto split: option.splits)
  have "runnable_at s p j" using select_priority_Some [OF p(1)] by blast
  then have p0: "p = IOS_SCHEDULER_USER_PRIORITY" using assms(2) by (simp add: runnable_at_def)
  then show ?thesis using p assms(3) by (auto simp del: upt_Suc split: option.splits)
qed

lemma passed_over_bound:
  assumes "passed_over i s0 n s" and "i < IOS_SCHEDULER_MAX_TASKS"
  shows "n + ahead (sc_last_selected s ! IOS_SCHEDULER_USER_PRIORITY) i \<le> ahead (sc_last_selected s0 ! IOS_SCHEDULER_USER_PRIORITY) i"
  using assms
proof (induction rule: passed_over.induct)
  case (passed_timer n s s' j)
  have sel: "select_loop (\<lambda>t. tk_state t = IOS_TASK_RUNNABLE \<and> tk_kind t = IOS_TASK_USER_PROCESS) (sc_tasks s)
      (sc_last_selected s ! IOS_SCHEDULER_USER_PRIORITY) [1..<IOS_SCHEDULER_MAX_TASKS + 1] = Some j"
    and "sc_last_selected s' ! IOS_SCHEDULER_USER_PRIORITY = j"
    using passed_timer(2,5) unfolding select_runnable_user_def by (auto split: option.splits)
  then show ?case using rotation_step [OF sel, of i] passed_timer by simp
next
  case (passed_select n s s' j)
  note l = select_runnable_loop [OF passed_select(4,5,2)]
  then show ?case using rotation_step [OF conjunct1 [OF l], of i] passed_select by (simp add: runnable_at_def)
qed simp_all

section \<open>Timer interrupts\<close>

text \<open>What preemption relies on: every task that may be selected has a process that can be
  activated and a saved context inside the user range.\<close>

definition context_valid :: "x86_64_user_context \<Rightarrow> bool" where
  "context_valid c \<longleftrightarrow> virtual_user_range_is_valid (uc_instruction_pointer c) 1 \<and> virtual_user_range_is_valid (uc_stack_pointer c) 1"

definition process_ready :: "ios_process \<Rightarrow> bool" where
  "process_ready p \<longleftrightarrow> pr_state p = IOS_PROCESS_RUNNABLE \<and> pr_root_address p \<noteq> 0 \<and> pr_kernel_stack_address p \<noteq> 0
     \<and> pr_kernel_stack_pages p \<noteq> 0 \<and> pr_kernel_stack_pages p \<le> 0xffffffffffffffff div IOS_PAGE_SIZE"

lemma process_activate_ready:
  "process_ready (sc_processes s p) \<Longrightarrow> \<exists>x. process_activate p s = (s\<lparr>sc_active := Some (p, x)\<rparr>, Inr ())"
  by (auto simp: process_activate_def process_ready_def Let_def)

lemma process_activate_not_ready:
  "\<not> process_ready (sc_processes s p) \<Longrightarrow> process_activate p s = (s, Inl IOS_E_INVALID_STATE)"
  by (auto simp: process_activate_def process_ready_def Let_def)

text \<open>The frame of a timer interrupt that preempts task \<open>t\<close> of process \<open>p\<close>.\<close>

definition preempts :: "x86_64_interrupt_frame \<Rightarrow> ('p, 'q) scheduler \<Rightarrow> nat \<Rightarrow> 'p \<Rightarrow> bool" where
  "preempts frame s t p \<longleftrightarrow> sc_ready s \<and> sc_current_task s = Some (Task t) \<and> t < IOS_SCHEDULER_MAX_TASKS
     \<and> x86_64_interrupt_from_user frame \<and> tk_kind (sc_tasks s ! t) = IOS_TASK_USER_PROCESS
     \<and> tk_state (sc_tasks s ! t) = IOS_TASK_RUNNING \<and> tk_process (sc_tasks s ! t) = Some p"

definition interrupted :: "x86_64_interrupt_frame \<Rightarrow> nat \<Rightarrow> 'p \<Rightarrow> ('p, 'q) scheduler \<Rightarrow> ('p, 'q) scheduler" where
  "interrupted frame t p s = set_state (Task t) IOS_TASK_RUNNABLE (s\<lparr>sc_ticks := sc_ticks s + 1,
     sc_processes := (sc_processes s)(p := (sc_processes s p)\<lparr>pr_user_context := save_user_interrupt_context frame\<rparr>)\<rparr>)"

definition switched ::
  "x86_64_interrupt_frame \<Rightarrow> nat \<Rightarrow> 'p \<Rightarrow> nat \<Rightarrow> ('p, 'q) scheduler \<Rightarrow> ('p, 'q) scheduler" where
  "switched frame t p j s = run_selected ((interrupted frame t p s)\<lparr>sc_last_selected :=
     (sc_last_selected s)[IOS_SCHEDULER_USER_PRIORITY := j]\<rparr>, Task j)"

definition hand_over ::
  "x86_64_interrupt_frame \<Rightarrow> 'p \<Rightarrow> ('p, 'q) scheduler \<Rightarrow> (('p, 'q) scheduler \<times> x86_64_interrupt_frame) option" where
  "hand_over frame q s =
     (case process_activate q s of
        (s, Inl e) \<Rightarrow> None
      | (s, Inr _) \<Rightarrow> (case load_user_interrupt_context frame (pr_user_context (sc_processes s q)) of
           None \<Rightarrow> None | Some f \<Rightarrow> Some (s, f)))"

lemma timer_selects:
  assumes "preempts frame s t p" and len: "length (sc_tasks s) = IOS_SCHEDULER_MAX_TASKS"
  obtains j s1 where "select_runnable_user (interrupted frame t p s) = (s1, Some j)" and "j < IOS_SCHEDULER_MAX_TASKS"
    and "tk_state (sc_tasks (interrupted frame t p s) ! j) = IOS_TASK_RUNNABLE" and "tk_kind (sc_tasks s ! j) = IOS_TASK_USER_PROCESS"
    and "s1 = (interrupted frame t p s)\<lparr>sc_last_selected := (sc_last_selected s)[IOS_SCHEDULER_USER_PRIORITY := j]\<rparr>"
proof -
  let ?i = "interrupted frame t p s"
  let ?sel = "select_loop (\<lambda>t. tk_state t = IOS_TASK_RUNNABLE \<and> tk_kind t = IOS_TASK_USER_PROCESS) (sc_tasks ?i)
             (sc_last_selected ?i ! IOS_SCHEDULER_USER_PRIORITY) [1..<IOS_SCHEDULER_MAX_TASKS + 1]"
  have t: "t < IOS_SCHEDULER_MAX_TASKS" "tk_state (sc_tasks ?i ! t) = IOS_TASK_RUNNABLE" "tk_kind (sc_tasks ?i ! t) = IOS_TASK_USER_PROCESS"
    using assms by (simp_all add: preempts_def interrupted_def)
  have "?sel \<noteq> None" unfolding select_full(1) using t by blast
  then obtain j where j: "?sel = Some j" by blast
  have "tk_kind (sc_tasks ?i ! k) = tk_kind (sc_tasks s ! k)" for k
    using t(1) len by (cases "k = t") (simp_all add: interrupted_def)
  then show thesis
    using select_full(2) [OF j] j
    by (intro that [of "?i\<lparr>sc_last_selected := (sc_last_selected s)[IOS_SCHEDULER_USER_PRIORITY := j]\<rparr>" j])
      (simp_all add: select_runnable_user_def del: upt_Suc, simp add: interrupted_def)
qed

lemma timer_outcome:
  assumes pre: "preempts frame s t p" and len: "length (sc_tasks s) = IOS_SCHEDULER_MAX_TASKS"
  obtains j where "j < IOS_SCHEDULER_MAX_TASKS" and "j = t \<or> tk_state (sc_tasks s ! j) = IOS_TASK_RUNNABLE"
    and "tk_kind (sc_tasks s ! j) = IOS_TASK_USER_PROCESS"
    and "scheduler_on_timer_interrupt None frame s =
      (case tk_process (sc_tasks s ! j) of None \<Rightarrow> None
       | Some q \<Rightarrow> hand_over frame q (switched frame t p j s))"
proof -
  let ?i = "interrupted frame t p s"
  obtain j s1 where j: "select_runnable_user ?i = (s1, Some j)" "j < IOS_SCHEDULER_MAX_TASKS"
    "tk_state (sc_tasks ?i ! j) = IOS_TASK_RUNNABLE" "tk_kind (sc_tasks s ! j) = IOS_TASK_USER_PROCESS"
    "s1 = ?i\<lparr>sc_last_selected := (sc_last_selected s)[IOS_SCHEDULER_USER_PRIORITY := j]\<rparr>"
    using timer_selects [OF pre len] by metis
  have proc: "tk_process (sc_tasks (run_selected (s1, Task j)) ! j) = tk_process (sc_tasks s ! j)"
    using j(2) len by (cases "j = t") (simp_all add: j(5) run_selected_def interrupted_def)
  have state: "j = t \<or> tk_state (sc_tasks s ! j) = IOS_TASK_RUNNABLE" using j(3) by (cases "j = t") (simp_all add: interrupted_def)
  have out: "scheduler_on_timer_interrupt None frame s =
      (case tk_process (sc_tasks (run_selected (s1, Task j)) ! j) of None \<Rightarrow> None
       | Some q \<Rightarrow> hand_over frame q (run_selected (s1, Task j)))"
    using pre j(1) unfolding interrupted_def hand_over_def
    by (simp add: scheduler_on_timer_interrupt_def preempts_def Let_def)
  show thesis by (rule that [OF j(2) state j(4) out [unfolded proc, unfolded j(5), folded switched_def]])
qed

lemma switched_facts:
  assumes "j < IOS_SCHEDULER_MAX_TASKS" and "length (sc_tasks s) = IOS_SCHEDULER_MAX_TASKS"
  shows "sc_processes (switched frame t p j s)
      = (sc_processes s)(p := (sc_processes s p)\<lparr>pr_user_context := save_user_interrupt_context frame\<rparr>)"
    and "sc_current_task (switched frame t p j s) = Some (Task j)"
    and "tk_state (sc_tasks (switched frame t p j s) ! j) = IOS_TASK_RUNNING"
    and "pr_user_context (sc_processes (switched frame t p j s) q)
      = (if q = p then save_user_interrupt_context frame else pr_user_context (sc_processes s q))"
    and "process_ready (sc_processes (switched frame t p j s) q) = process_ready (sc_processes s q)"
  using assms by (simp_all add: switched_def run_selected_def interrupted_def process_ready_def)

lemma or_and_absorb: "(x OR y) AND y = (y :: u64)"
  by (rule bit_eqI) (auto simp: bit_simps)

lemma user_flags: "user_flags_sanitize f AND X86_64_USER_FLAGS_FORBIDDEN = 0" "user_flags_sanitize f AND X86_64_USER_FLAGS_REQUIRED = X86_64_USER_FLAGS_REQUIRED"
proof -
  have d: "X86_64_USER_FLAGS_REQUIRED AND X86_64_USER_FLAGS_FORBIDDEN = 0" by simp
  show "user_flags_sanitize f AND X86_64_USER_FLAGS_FORBIDDEN = 0"
    unfolding user_flags_sanitize_def bit.conj_disj_distrib2 d by (simp add: and.assoc)
  show "user_flags_sanitize f AND X86_64_USER_FLAGS_REQUIRED = X86_64_USER_FLAGS_REQUIRED"
    unfolding user_flags_sanitize_def by (rule or_and_absorb)
qed

definition resumed :: "x86_64_user_context \<Rightarrow> x86_64_interrupt_frame \<Rightarrow> bool" where
  "resumed c f \<longleftrightarrow> if_rip f = uc_instruction_pointer c \<and> if_user_rsp f = uc_stack_pointer c \<and> if_rax f = uc_rax c
     \<and> if_rbx f = uc_rbx c \<and> if_rcx f = uc_rcx c \<and> if_rdx f = uc_rdx c \<and> if_rsi f = uc_rsi c \<and> if_rdi f = uc_rdi c
     \<and> if_rbp f = uc_rbp c \<and> if_r8 f = uc_r8 c \<and> if_r9 f = uc_r9 c \<and> if_r10 f = uc_r10 c \<and> if_r11 f = uc_r11 c
     \<and> if_r12 f = uc_r12 c \<and> if_r13 f = uc_r13 c \<and> if_r14 f = uc_r14 c \<and> if_r15 f = uc_r15 c
     \<and> if_cs f = X86_64_USER_CODE_SELECTOR \<and> if_user_ss f = X86_64_USER_DATA_SELECTOR
     \<and> if_rflags f AND X86_64_USER_FLAGS_FORBIDDEN = 0 \<and> if_rflags f AND X86_64_USER_FLAGS_REQUIRED = X86_64_USER_FLAGS_REQUIRED"

lemma load_resumed: "load_user_interrupt_context frame c = Some f \<Longrightarrow> resumed c f"
  using user_flags [of "uc_flags c"] by (auto simp: load_user_interrupt_context_def resumed_def split: if_splits)

lemma load_defined: "load_user_interrupt_context frame c = None \<longleftrightarrow> \<not> context_valid c"
  by (auto simp: load_user_interrupt_context_def context_valid_def)

lemma hand_over_None:
  "hand_over frame q r = None \<longleftrightarrow> \<not> (process_ready (sc_processes r q) \<and> context_valid (pr_user_context (sc_processes r q)))"
proof (cases "process_ready (sc_processes r q)")
  case True
  obtain x where "process_activate q r = (r\<lparr>sc_active := Some (q, x)\<rparr>, Inr ())" using process_activate_ready [OF True] by blast
  then show ?thesis using True load_defined [of frame "pr_user_context (sc_processes r q)"]
    by (cases "load_user_interrupt_context frame (pr_user_context (sc_processes r q))") (simp_all add: hand_over_def)
qed (simp add: hand_over_def process_activate_not_ready)

lemma hand_over_Some:
  assumes "hand_over frame q r = Some (s', f)"
  shows "resumed (pr_user_context (sc_processes r q)) f \<and> (\<exists>x. s' = r\<lparr>sc_active := Some (q, x)\<rparr>)"
proof -
  have "hand_over frame q r \<noteq> None" unfolding assms by (rule option.distinct(2))
  then have "process_ready (sc_processes r q)" unfolding hand_over_None by blast
  then obtain x where x: "process_activate q r = (r\<lparr>sc_active := Some (q, x)\<rparr>, Inr ())" by (rule exE [OF process_activate_ready])
  then have "load_user_interrupt_context frame (pr_user_context (sc_processes r q)) = Some f \<and> s' = r\<lparr>sc_active := Some (q, x)\<rparr>"
    using assms by (cases "load_user_interrupt_context frame (pr_user_context (sc_processes r q))") (simp_all add: hand_over_def)
  then show ?thesis using load_resumed by blast
qed

section \<open>Properties\<close>


text \<open>C17: The linked wait queues are first-in first-out lists: blocking appends the current task, waking
  one removes the oldest waiter and makes it runnable, waking all empties the queue and counts
  every waiter, and waking a blocked task takes it out of whatever queue it is in.\<close>

theorem wait_queue_refines_fifo:
  assumes "sched_rep s Q"
  shows "(sc_current_task s = Some (Task t) \<and> tk_state (sc_tasks s ! t) = IOS_TASK_RUNNING \<longrightarrow>
        snd (scheduler_block_current q s) = Inr () \<and> sched_rep (fst (scheduler_block_current q s)) (Q(q := Q q @ [t])))
    \<and> (case Q q of
         [] \<Rightarrow> wait_queue_wake_one q s = (s, None)
       | u # us \<Rightarrow> snd (wait_queue_wake_one q s) = Some u \<and> sched_rep (fst (wait_queue_wake_one q s)) (Q(q := us))
           \<and> tk_state (sc_tasks (fst (wait_queue_wake_one q s)) ! u) = IOS_TASK_RUNNABLE)
    \<and> (snd (wait_queue_wake_all q s) = length (Q q) \<and> sched_rep (fst (wait_queue_wake_all q s)) (Q(q := [])))
    \<and> (k < IOS_SCHEDULER_MAX_TASKS \<and> tk_state (sc_tasks s ! k) = IOS_TASK_BLOCKED \<longrightarrow>
        snd (scheduler_wake_task k s) = Inr () \<and> sched_rep (fst (scheduler_wake_task k s)) (\<lambda>q. removeAll k (Q q)))"
proof -
  have "case Q q of
         [] \<Rightarrow> wait_queue_wake_one q s = (s, None)
       | u # us \<Rightarrow> snd (wait_queue_wake_one q s) = Some u \<and> sched_rep (fst (wait_queue_wake_one q s)) (Q(q := us))
           \<and> tk_state (sc_tasks (fst (wait_queue_wake_one q s)) ! u) = IOS_TASK_RUNNABLE"
  proof (cases "Q q")
    case Nil
    then show ?thesis using wake_one_empty [OF assms Nil] by simp
  next
    case (Cons u us)
    obtain s' where "wait_queue_wake_one q s = (s', Some u)" "sched_rep s' (Q(q := us))"
      "tk_state (sc_tasks s' ! u) = IOS_TASK_RUNNABLE" using wake_one_rep [OF assms Cons] by metis
    then show ?thesis using Cons by simp
  qed
  moreover have "snd (scheduler_block_current q s) = Inr () \<and> sched_rep (fst (scheduler_block_current q s)) (Q(q := Q q @ [t]))"
    if "sc_current_task s = Some (Task t)" "tk_state (sc_tasks s ! t) = IOS_TASK_RUNNING"
    by (rule block_current_rep [OF assms that surjective_pairing])
  moreover have "snd (wait_queue_wake_all q s) = length (Q q) \<and> sched_rep (fst (wait_queue_wake_all q s)) (Q(q := []))"
    using wake_all_step [OF assms surjective_pairing, of q] by blast
  moreover have "snd (scheduler_wake_task k s) = Inr () \<and> sched_rep (fst (scheduler_wake_task k s)) (\<lambda>q. removeAll k (Q q))"
    if "k < IOS_SCHEDULER_MAX_TASKS" "tk_state (sc_tasks s ! k) = IOS_TASK_BLOCKED"
    using wake_task_rep [OF assms that surjective_pairing] by blast
  ultimately show ?thesis by blast
qed

text \<open>C18: No user task starves: a user task that stays runnable is passed over by at most 63
  selections of user-priority tasks, whether they come from the timer or from blocking, exiting
  or yielding tasks, whatever else happens between them.\<close>

theorem round_robin_bounded:
  assumes "passed_over i s0 n s" and "i < IOS_SCHEDULER_MAX_TASKS"
  shows "n \<le> 63"
  using passed_over_bound [OF assms] ahead_offset(2) [OF assms(2), of "sc_last_selected s0 ! IOS_SCHEDULER_USER_PRIORITY"] by simp


text \<open>The slot of a task that has exited is never used again: once every slot has held a task, no
  process can be added, whatever exits and is collected meanwhile.\<close>

theorem task_slots_never_reused:
  assumes "sched_rep s Q" and "\<forall>i < IOS_SCHEDULER_MAX_TASKS. tk_state (sc_tasks s ! i) \<noteq> IOS_TASK_UNUSED"
    and "sched_step\<^sup>*\<^sup>* s s'" and "pr_state (sc_processes s' p) = IOS_PROCESS_RUNNABLE"
  shows "scheduler_add_process p s' = (s', Inl IOS_E_NO_SPACE)"
proof -
  obtain Q' where rep: "sched_rep s' Q'" and g: "grows s s'" using sched_run_effect [OF assms(3,1)] by blast
  have "tk_state t \<noteq> IOS_TASK_UNUSED" if t: "t \<in> set (sc_tasks s')" for t
  proof -
    obtain i where i: "i < length (sc_tasks s')" "t = sc_tasks s' ! i"
      using in_set_conv_nth [THEN iffD1, OF t] by blast
    then have "i < IOS_SCHEDULER_MAX_TASKS" using sched_repD(2) [OF rep] by (simp only:)
    then show ?thesis using g assms(2) i(2) unfolding grows_def by blast
  qed
  then have "allocate_loop (sc_tasks s') 0 = None" unfolding allocate_loop_None by blast
  then show ?thesis using sched_repD(1) [OF rep] assms(4) by (simp add: scheduler_add_process_def allocate_task_def)
qed

text \<open>A user program can stop the kernel: if the only ready user task is interrupted with a stack
  pointer outside the user range, which user code may load at will, the kernel's own assertion on
  the context it has just saved fails.\<close>

theorem timer_bad_stack_asserts:
  assumes "preempts frame s t p" and "length (sc_tasks s) = IOS_SCHEDULER_MAX_TASKS"
    and "\<forall>j < IOS_SCHEDULER_MAX_TASKS. j \<noteq> t \<longrightarrow> tk_state (sc_tasks s ! j) \<noteq> IOS_TASK_RUNNABLE"
    and "\<not> virtual_user_range_is_valid (if_user_rsp frame) 1"
  shows "scheduler_on_timer_interrupt None frame s = None"
proof -
  obtain j where j: "j < IOS_SCHEDULER_MAX_TASKS" "j = t \<or> tk_state (sc_tasks s ! j) = IOS_TASK_RUNNABLE"
    and out: "scheduler_on_timer_interrupt None frame s =
      (case tk_process (sc_tasks s ! j) of None \<Rightarrow> None | Some q \<Rightarrow> hand_over frame q (switched frame t p j s))"
    using timer_outcome [OF assms(1,2)] by blast
  have "j = t" using j assms(3) by blast
  then have "tk_process (sc_tasks s ! j) = Some p" using assms(1) by (simp add: preempts_def)
  moreover have "hand_over frame p (switched frame t p j s) = None"
    unfolding hand_over_None switched_facts(4) [OF j(1) assms(2)]
    using assms(4) by (simp add: context_valid_def save_user_interrupt_context_def)
  ultimately show ?thesis using out by simp
qed

section \<open>Witnesses\<close>

definition demo_context :: x86_64_user_context where
  "demo_context = \<lparr>uc_r15 = 0, uc_r14 = 0, uc_r13 = 0, uc_r12 = 0, uc_r11 = 0, uc_r10 = 0, uc_r9 = 0, uc_r8 = 0,
     uc_rdi = 0, uc_rsi = 0, uc_rbp = 0, uc_rdx = 0, uc_rcx = 0, uc_rbx = 0, uc_rax = 0,
     uc_instruction_pointer = 0x20000000000, uc_flags = 0x202, uc_stack_pointer = 0x20000001000\<rparr>"

definition demo_frame :: "u64 \<Rightarrow> x86_64_interrupt_frame" where
  "demo_frame rsp = \<lparr>if_r15 = 0, if_r14 = 0, if_r13 = 0, if_r12 = 0, if_r11 = 0, if_r10 = 0, if_r9 = 0, if_r8 = 0,
     if_rdi = 0, if_rsi = 0, if_rbp = 0, if_rdx = 0, if_rcx = 0, if_rbx = 0, if_rax = 0, if_vector = 32,
     if_error_code = 0, if_rip = 0x20000000000, if_cs = 0x23, if_rflags = 0x3202, if_user_rsp = rsp, if_user_ss = 0x1b\<rparr>"

definition demo_process :: ios_process where
  "demo_process = \<lparr>pr_state = IOS_PROCESS_RUNNABLE, pr_root_address = 0x1000, pr_kernel_stack_address = 0x2000,
     pr_kernel_stack_pages = 8, pr_user_context = demo_context, pr_exit_status = 0\<rparr>"

definition user_task :: "ios_scheduler_task_state \<Rightarrow> (nat, nat) ios_scheduler_task" where
  "user_task st = zero_task\<lparr>tk_kind := IOS_TASK_USER_PROCESS, tk_state := st, tk_process := Some 0\<rparr>"

definition demo_scheduler :: "(nat, nat) ios_scheduler_task list \<Rightarrow> (nat, nat) scheduler" where
  "demo_scheduler tasks = \<lparr>sc_tasks = tasks, sc_idle_task = zero_task, sc_current_task = Some (Task 0),
     sc_deferred_exit_task = None, sc_last_selected = replicate 5 0, sc_ticks = 0, sc_next_task_id = 2, sc_ready = True,
     sc_queues = (\<lambda>_. wait_queue_initialize), sc_processes = (\<lambda>_. demo_process), sc_active = None\<rparr>"

definition one_task :: "(nat, nat) scheduler" where
  "one_task = demo_scheduler (user_task IOS_TASK_RUNNING # replicate 63 zero_task)"

definition three_tasks :: "(nat, nat) scheduler" where
  "three_tasks = demo_scheduler (user_task IOS_TASK_RUNNING # user_task IOS_TASK_RUNNABLE # user_task IOS_TASK_RUNNABLE # replicate 61 zero_task)"


theorem wait_queue_refines_fifo_witness: "snd (wait_queue_wake_all 0 (scheduler_initialize one_task)) = 0"
proof -
  have "sched_rep (scheduler_initialize one_task) (\<lambda>_. [])" by (rule initialize_rep) (simp add: one_task_def demo_scheduler_def)
  then show ?thesis using wait_queue_refines_fifo [of "scheduler_initialize one_task" "\<lambda>_. []" 0 0 0] by simp
qed

theorem round_robin_bounded_witness: "passed_over 2 three_tasks 1 (fst (select_runnable_user three_tasks)) \<and> (1 :: nat) \<le> 63"
proof -
  have "snd (select_runnable_user three_tasks) = Some 1"
    by (simp add: select_runnable_user_def three_tasks_def demo_scheduler_def upt_conv_Cons Let_def user_task_def zero_task_def
        del: upt_Suc)
  then have sel: "select_runnable_user three_tasks = (fst (select_runnable_user three_tasks), Some 1)"
    by (metis surjective_pairing)
  have "passed_over 2 three_tasks (0 + 1) (fst (select_runnable_user three_tasks))"
    by (rule passed_timer [OF passed_none _ _ _ sel])
      (simp_all add: three_tasks_def demo_scheduler_def user_task_def)
  then show ?thesis using round_robin_bounded [of 2 three_tasks 1] by simp
qed

lemma one_task_preempts: "preempts (demo_frame rsp) one_task 0 0"
  by (simp add: preempts_def one_task_def demo_scheduler_def user_task_def x86_64_interrupt_from_user_def demo_frame_def)

lemma one_task_others: "0 < j \<Longrightarrow> j < IOS_SCHEDULER_MAX_TASKS \<Longrightarrow> sc_tasks one_task ! j = zero_task"
  by (simp add: one_task_def demo_scheduler_def nth_Cons')


theorem task_slots_never_reused_witness:
  "scheduler_add_process 0 (demo_scheduler (replicate 64 (user_task IOS_TASK_EXITED)))
    = (demo_scheduler (replicate 64 (user_task IOS_TASK_EXITED)), Inl IOS_E_NO_SPACE)"
proof -
  let ?s = "demo_scheduler (replicate 64 (user_task IOS_TASK_EXITED))"
  have "sched_rep ?s (\<lambda>_. [])"
    by (auto simp: sched_rep_def queue_rep_def demo_scheduler_def user_task_def zero_task_def wait_queue_initialize_def)
  then show ?thesis
    using task_slots_never_reused [of ?s "\<lambda>_. []" ?s 0]
    by (simp add: demo_scheduler_def user_task_def demo_process_def)
qed

theorem timer_bad_stack_asserts_witness: "scheduler_on_timer_interrupt None (demo_frame 0) one_task = None"
proof (rule timer_bad_stack_asserts [OF one_task_preempts])
  show "length (sc_tasks one_task) = IOS_SCHEDULER_MAX_TASKS" by (simp add: one_task_def demo_scheduler_def)
  show "\<forall>j < IOS_SCHEDULER_MAX_TASKS. j \<noteq> 0 \<longrightarrow> tk_state (sc_tasks one_task ! j) \<noteq> IOS_TASK_RUNNABLE"
    using one_task_others by (auto simp: zero_task_def)
  show "\<not> virtual_user_range_is_valid (if_user_rsp (demo_frame 0)) 1"
    by (simp add: virtual_user_range_is_valid_def demo_frame_def)
qed

end
