(* ===== verification/Kernel_Ipc.thy ===== *)
theory Kernel_Ipc
  imports Kernel_Handles Kernel_Scheduler
begin

text \<open>
  Message passing between processes (ipc.h, ipc.c): endpoints with bounded message queues, named by
  handles, and the registry of trusted services. Endpoints are slots of a table and are named by
  their index; an endpoint's two wait queues are queues of the scheduler. The state that all calls
  share, the world of the handle callbacks, is the record \<open>ipc\<close>; a failed \<^verbatim>\<open>IOS_ASSERT\<close> sets
  \<open>ic_panic\<close>. The theorems show that the ring buffers are first-in first-out queues, that the
  reference counts are exact so that no handle dangles, and who can use which service.
\<close>

unbundle bit_operations_syntax

section \<open>State\<close>

abbreviation IOS_IPC_ABI_VERSION :: u16 where "IOS_IPC_ABI_VERSION \<equiv> 1"
abbreviation IOS_IPC_MAX_ENDPOINTS :: nat where "IOS_IPC_MAX_ENDPOINTS \<equiv> 64"
abbreviation IOS_IPC_MAX_QUEUE_DEPTH :: nat where "IOS_IPC_MAX_QUEUE_DEPTH \<equiv> 16"
abbreviation IOS_IPC_MAX_PAYLOAD_SIZE :: nat where "IOS_IPC_MAX_PAYLOAD_SIZE \<equiv> 512"
abbreviation IOS_IPC_MAX_ITEM_COUNT :: nat where "IOS_IPC_MAX_ITEM_COUNT \<equiv> 64"
abbreviation IOS_IPC_MAX_SERVICES :: nat where "IOS_IPC_MAX_SERVICES \<equiv> 16"
abbreviation IOS_SERVICE_SHELL :: nat where "IOS_SERVICE_SHELL \<equiv> 1"
abbreviation IOS_SERVICE_PROPRIETARY_ADAPTER :: nat where "IOS_SERVICE_PROPRIETARY_ADAPTER \<equiv> 4"
abbreviation IOS_RIGHT_WAIT :: u64 where "IOS_RIGHT_WAIT \<equiv> 4"
abbreviation IOS_RIGHT_SIGNAL :: u64 where "IOS_RIGHT_SIGNAL \<equiv> 8"
abbreviation IOS_RIGHT_ADMINISTER :: u64 where "IOS_RIGHT_ADMINISTER \<equiv> 256"

record ios_ipc_message_header =
  mh_size :: u16
  mh_version :: u16
  mh_operation :: u32
  mh_request_id :: u64
  mh_caller_process_id :: u64
  mh_caller_application_identity :: u64
  mh_flags :: u32
  mh_item_count :: nat
  mh_payload_size :: nat

record ios_ipc_message =
  ms_header :: ios_ipc_message_header
  ms_payload :: bytes

record ios_ipc_endpoint =
  ep_allocated :: bool
  ep_revoked :: bool
  ep_capacity :: nat
  ep_head :: nat
  ep_tail :: nat
  ep_count :: nat
  ep_reference_count :: nat
  ep_owner_process_id :: u64
  ep_owner_application_identity :: u64
  ep_messages :: "ios_ipc_message list"

record trusted_service_entry =
  sv_trusted_application_identity :: u64
  sv_generation :: u64
  sv_endpoint :: "nat option"
  sv_provider_process_id :: u64

text \<open>The wait queues of the endpoints, among the other queues of the kernel.\<close>

datatype kernel_queue = Receivers nat | Senders nat | Other_Queue nat

record 'p ipc =
  ic_endpoints :: "ios_ipc_endpoint list"
  ic_services :: "trusted_service_entry list"
  ic_ready :: bool
  ic_scheduler :: "('p, kernel_queue) scheduler"
  ic_panic :: bool

record 'p ipc_process =
  pc_process_id :: u64
  pc_application_identity :: u64
  pc_handles :: "(nat, 'p ipc) ios_handle_table"

definition zero_message :: ios_ipc_message where
  "zero_message = \<lparr>ms_header = \<lparr>mh_size = 0, mh_version = 0, mh_operation = 0, mh_request_id = 0, mh_caller_process_id = 0,
     mh_caller_application_identity = 0, mh_flags = 0, mh_item_count = 0, mh_payload_size = 0\<rparr>,
     ms_payload = replicate IOS_IPC_MAX_PAYLOAD_SIZE 0\<rparr>"

definition zero_endpoint :: ios_ipc_endpoint where
  "zero_endpoint = \<lparr>ep_allocated = False, ep_revoked = False, ep_capacity = 0, ep_head = 0, ep_tail = 0, ep_count = 0,
     ep_reference_count = 0, ep_owner_process_id = 0, ep_owner_application_identity = 0,
     ep_messages = replicate IOS_IPC_MAX_QUEUE_DEPTH zero_message\<rparr>"

definition zero_service :: trusted_service_entry where
  "zero_service = \<lparr>sv_trusted_application_identity = 0, sv_generation = 0, sv_endpoint = None, sv_provider_process_id = 0\<rparr>"

definition put_endpoint :: "nat \<Rightarrow> ios_ipc_endpoint \<Rightarrow> 'p ipc \<Rightarrow> 'p ipc" where
  "put_endpoint e ep w = w\<lparr>ic_endpoints := (ic_endpoints w)[e := ep]\<rparr>"

text \<open>\<open>memset(endpoint, 0, sizeof(*endpoint))\<close>: the wait queues are part of the structure.\<close>

definition clear_endpoint :: "nat \<Rightarrow> 'p ipc \<Rightarrow> 'p ipc" where
  "clear_endpoint e w = put_endpoint e zero_endpoint (w\<lparr>ic_scheduler := (ic_scheduler w)\<lparr>sc_queues :=
     (sc_queues (ic_scheduler w))(Receivers e := wait_queue_initialize, Senders e := wait_queue_initialize)\<rparr>\<rparr>)"

section \<open>Operations\<close>

definition service_is_valid :: "nat \<Rightarrow> bool" where
  "service_is_valid service \<longleftrightarrow> service \<ge> IOS_SERVICE_SHELL \<and> service \<le> IOS_SERVICE_PROPRIETARY_ADAPTER"

definition endpoint_retain :: "nat \<Rightarrow> 'p ipc \<Rightarrow> 'p ipc" where
  "endpoint_retain e w =
     (let endpoint = ic_endpoints w ! e in
      if \<not> ep_allocated endpoint \<or> ep_reference_count endpoint = UINT32_MAX then w\<lparr>ic_panic := True\<rparr>
      else put_endpoint e (endpoint\<lparr>ep_reference_count := ep_reference_count endpoint + 1\<rparr>) w)"

definition endpoint_release :: "nat \<Rightarrow> 'p ipc \<Rightarrow> 'p ipc" where
  "endpoint_release e w =
     (let endpoint = ic_endpoints w ! e in
      if \<not> ep_allocated endpoint \<or> ep_reference_count endpoint = 0 then w\<lparr>ic_panic := True\<rparr>
      else let w = put_endpoint e (endpoint\<lparr>ep_reference_count := ep_reference_count endpoint - 1\<rparr>) w in
        if ep_reference_count endpoint - 1 = 0
        then let s = fst (wait_queue_wake_all (Receivers e) (ic_scheduler w));
                 s = fst (wait_queue_wake_all (Senders e) s)
             in clear_endpoint e (w\<lparr>ic_scheduler := s\<rparr>)
        else w)"

definition resolve_endpoint :: "'p ipc_process \<Rightarrow> ios_handle \<Rightarrow> u64 \<Rightarrow> 'p ipc \<Rightarrow> nat res" where
  "resolve_endpoint process handle rights w =
     (if \<not> ic_ready w then Inl IOS_E_INVALID_STATE
      else case handle_table_resolve (pc_handles process) handle IOS_OBJECT_IPC_ENDPOINT rights of
          Inl e \<Rightarrow> Inl e
        | Inr endpoint \<Rightarrow>
            if \<not> ep_allocated (ic_endpoints w ! endpoint) \<or> ep_revoked (ic_endpoints w ! endpoint)
            then Inl IOS_E_INVALID_STATE else Inr endpoint)"

definition ipc_initialize :: "'p ipc \<Rightarrow> 'p ipc" where
  "ipc_initialize w = w\<lparr>ic_endpoints := replicate IOS_IPC_MAX_ENDPOINTS zero_endpoint,
     ic_services := replicate IOS_IPC_MAX_SERVICES (zero_service\<lparr>sv_generation := 1\<rparr>), ic_ready := True,
     ic_scheduler := (ic_scheduler w)\<lparr>sc_queues := (\<lambda>q. case q of Other_Queue _ \<Rightarrow> sc_queues (ic_scheduler w) q
       | Receivers e \<Rightarrow> if e < IOS_IPC_MAX_ENDPOINTS then wait_queue_initialize else sc_queues (ic_scheduler w) q
       | Senders e \<Rightarrow> if e < IOS_IPC_MAX_ENDPOINTS then wait_queue_initialize else sc_queues (ic_scheduler w) q)\<rparr>\<rparr>"

definition ipc_endpoint_create :: "'p ipc_process \<Rightarrow> nat \<Rightarrow> 'p ipc \<Rightarrow> 'p ipc_process \<times> 'p ipc \<times> ios_handle res" where
  "ipc_endpoint_create owner queue_depth w =
     (if \<not> ic_ready w \<or> pc_process_id owner = 0 \<or> queue_depth = 0 \<or> queue_depth > IOS_IPC_MAX_QUEUE_DEPTH
      then (owner, w, Inl IOS_E_INVALID_ARGUMENT)
      else case find_index (\<lambda>endpoint. \<not> ep_allocated endpoint) (ic_endpoints w) of
          None \<Rightarrow> (owner, w, Inl IOS_E_NO_SPACE)
        | Some index \<Rightarrow>
            let w = put_endpoint index (zero_endpoint\<lparr>ep_allocated := True, ep_capacity := queue_depth, ep_reference_count := 1,
                      ep_owner_process_id := pc_process_id owner,
                      ep_owner_application_identity := pc_application_identity owner\<rparr>) (clear_endpoint index w)
            in case handle_table_insert (pc_handles owner) (Some index) IOS_OBJECT_IPC_ENDPOINT
                      (IOS_RIGHT_WAIT OR IOS_RIGHT_SIGNAL OR IOS_RIGHT_DUPLICATE OR IOS_RIGHT_TRANSFER OR IOS_RIGHT_ADMINISTER)
                      (Some endpoint_retain) (Some endpoint_release) of
                 (handles, Inl e) \<Rightarrow> (owner\<lparr>pc_handles := handles\<rparr>, clear_endpoint index w, Inl e)
               | (handles, Inr handle) \<Rightarrow> (owner\<lparr>pc_handles := handles\<rparr>, w, Inr handle))"

text \<open>The message a send stores: the caller's identity comes from the process, not from the caller.\<close>

definition built_message :: "'p ipc_process \<Rightarrow> u64 \<Rightarrow> u32 \<Rightarrow> nat \<Rightarrow> bytes option \<Rightarrow> nat \<Rightarrow> ios_ipc_message" where
  "built_message sender request_id operation item_count payload payload_size =
     \<lparr>ms_header = \<lparr>mh_size = of_nat (40 + payload_size), mh_version = IOS_IPC_ABI_VERSION, mh_operation = operation,
        mh_request_id = request_id, mh_caller_process_id = pc_process_id sender,
        mh_caller_application_identity = pc_application_identity sender, mh_flags = 0, mh_item_count = item_count,
        mh_payload_size = payload_size\<rparr>,
      ms_payload = (if payload_size \<noteq> 0 then overwrite (replicate IOS_IPC_MAX_PAYLOAD_SIZE 0) 0 (take payload_size (the payload))
        else replicate IOS_IPC_MAX_PAYLOAD_SIZE 0)\<rparr>"

definition ipc_send ::
  "'p ipc_process \<Rightarrow> ios_handle \<Rightarrow> u64 \<Rightarrow> u32 \<Rightarrow> u32 \<Rightarrow> nat \<Rightarrow> bytes option \<Rightarrow> nat \<Rightarrow> bool \<Rightarrow> 'p ipc \<Rightarrow> 'p ipc \<times> unit res" where
  "ipc_send sender endpoint_handle request_id operation flags item_count payload payload_size block w =
     (if request_id = 0 \<or> operation = 0 \<or> flags \<noteq> 0 \<or> item_count > IOS_IPC_MAX_ITEM_COUNT
         \<or> payload_size > IOS_IPC_MAX_PAYLOAD_SIZE \<or> (payload_size \<noteq> 0 \<and> payload = None)
      then (w, Inl IOS_E_PROTOCOL)
      else case resolve_endpoint sender endpoint_handle IOS_RIGHT_SIGNAL w of
          Inl e \<Rightarrow> (w, Inl e)
        | Inr e \<Rightarrow>
            let endpoint = ic_endpoints w ! e in
            if ep_count endpoint = ep_capacity endpoint
            then (if block then (case scheduler_block_current (Senders e) (ic_scheduler w) of
                                   (s, status) \<Rightarrow> (w\<lparr>ic_scheduler := s\<rparr>, status))
                  else (w, Inl IOS_E_WOULD_BLOCK))
            else let w = put_endpoint e (endpoint\<lparr>
                       ep_messages := (ep_messages endpoint)[ep_tail endpoint :=
                         built_message sender request_id operation item_count payload payload_size],
                       ep_tail := (ep_tail endpoint + 1) mod ep_capacity endpoint,
                       ep_count := ep_count endpoint + 1\<rparr>) w
                 in (w\<lparr>ic_scheduler := fst (wait_queue_wake_one (Receivers e) (ic_scheduler w))\<rparr>, Inr ()))"

text \<open>The result of a receive that succeeds is the message, or nothing if the caller was blocked
  instead: the code then returns success with the caller's message unwritten.\<close>

definition ipc_receive :: "'p ipc_process \<Rightarrow> ios_handle \<Rightarrow> bool \<Rightarrow> 'p ipc \<Rightarrow> 'p ipc \<times> ios_ipc_message option res" where
  "ipc_receive receiver endpoint_handle block w =
     (case resolve_endpoint receiver endpoint_handle IOS_RIGHT_WAIT w of
        Inl e \<Rightarrow> (w, Inl e)
      | Inr e \<Rightarrow>
          let endpoint = ic_endpoints w ! e in
          if ep_owner_process_id endpoint \<noteq> pc_process_id receiver then (w, Inl IOS_E_ACCESS_DENIED)
          else if ep_count endpoint = 0
          then (if block then (case scheduler_block_current (Receivers e) (ic_scheduler w) of
                                 (s, Inl e) \<Rightarrow> (w\<lparr>ic_scheduler := s\<rparr>, Inl e)
                               | (s, Inr _) \<Rightarrow> (w\<lparr>ic_scheduler := s\<rparr>, Inr None))
                else (w, Inl IOS_E_WOULD_BLOCK))
          else let w = put_endpoint e (endpoint\<lparr>
                     ep_messages := (ep_messages endpoint)[ep_head endpoint := zero_message],
                     ep_head := (ep_head endpoint + 1) mod ep_capacity endpoint,
                     ep_count := ep_count endpoint - 1\<rparr>) w
               in (w\<lparr>ic_scheduler := fst (wait_queue_wake_one (Senders e) (ic_scheduler w))\<rparr>,
                   Inr (Some (ep_messages endpoint ! ep_head endpoint))))"

definition put_service :: "nat \<Rightarrow> trusted_service_entry \<Rightarrow> 'p ipc \<Rightarrow> 'p ipc" where
  "put_service service entry w = w\<lparr>ic_services := (ic_services w)[service - 1 := entry]\<rparr>"

definition ipc_trust_service :: "nat \<Rightarrow> u64 \<Rightarrow> 'p ipc \<Rightarrow> 'p ipc \<times> unit res" where
  "ipc_trust_service service application_identity w =
     (if \<not> ic_ready w \<or> \<not> service_is_valid service \<or> application_identity = 0 then (w, Inl IOS_E_INVALID_ARGUMENT)
      else let entry = ic_services w ! (service - 1) in
        if sv_trusted_application_identity entry \<noteq> 0 \<and> sv_trusted_application_identity entry \<noteq> application_identity
        then (w, Inl IOS_E_ALREADY_EXISTS)
        else (put_service service (entry\<lparr>sv_trusted_application_identity := application_identity\<rparr>) w, Inr ()))"

text \<open>\<open>++entry->generation\<close>, skipping zero.\<close>

definition next_service_generation :: "u64 \<Rightarrow> u64" where
  "next_service_generation generation = (if generation + 1 = 0 then 1 else generation + 1)"

definition ipc_service_register :: "'p ipc_process \<Rightarrow> nat \<Rightarrow> ios_handle \<Rightarrow> 'p ipc \<Rightarrow> 'p ipc \<times> unit res" where
  "ipc_service_register provider service endpoint_handle w =
     (if \<not> ic_ready w \<or> \<not> service_is_valid service then (w, Inl IOS_E_INVALID_ARGUMENT)
      else let entry = ic_services w ! (service - 1) in
        if sv_trusted_application_identity entry = 0
           \<or> sv_trusted_application_identity entry \<noteq> pc_application_identity provider then (w, Inl IOS_E_ACCESS_DENIED)
        else case resolve_endpoint provider endpoint_handle (IOS_RIGHT_ADMINISTER OR IOS_RIGHT_WAIT) w of
            Inl e \<Rightarrow> (w, Inl e)
          | Inr endpoint \<Rightarrow>
              if ep_owner_process_id (ic_endpoints w ! endpoint) \<noteq> pc_process_id provider then (w, Inl IOS_E_ACCESS_DENIED)
              else if sv_endpoint entry = Some endpoint then (w, Inl IOS_E_ALREADY_EXISTS)
              else let w = endpoint_retain endpoint w;
                       w = (case sv_endpoint entry of
                              None \<Rightarrow> w
                            | Some old \<Rightarrow> endpoint_release old (put_endpoint old ((ic_endpoints w ! old)\<lparr>ep_revoked := True\<rparr>) w))
                   in (put_service service (entry\<lparr>sv_endpoint := Some endpoint, sv_provider_process_id := pc_process_id provider,
                         sv_generation := next_service_generation (sv_generation entry)\<rparr>) w, Inr ()))"

definition ipc_service_connect :: "'p ipc_process \<Rightarrow> nat \<Rightarrow> 'p ipc \<Rightarrow> 'p ipc_process \<times> 'p ipc \<times> ios_handle res" where
  "ipc_service_connect client service w =
     (if \<not> ic_ready w \<or> \<not> service_is_valid service then (client, w, Inl IOS_E_INVALID_ARGUMENT)
      else case sv_endpoint (ic_services w ! (service - 1)) of
          None \<Rightarrow> (client, w, Inl IOS_E_NOT_FOUND)
        | Some endpoint \<Rightarrow>
            if ep_revoked (ic_endpoints w ! endpoint) then (client, w, Inl IOS_E_NOT_FOUND)
            else let w = endpoint_retain endpoint w in
              case handle_table_insert (pc_handles client) (Some endpoint) IOS_OBJECT_IPC_ENDPOINT
                     (IOS_RIGHT_SIGNAL OR IOS_RIGHT_DUPLICATE OR IOS_RIGHT_TRANSFER)
                     (Some endpoint_retain) (Some endpoint_release) of
                (handles, Inl e) \<Rightarrow> (client\<lparr>pc_handles := handles\<rparr>, endpoint_release endpoint w, Inl e)
              | (handles, Inr handle) \<Rightarrow> (client\<lparr>pc_handles := handles\<rparr>, w, Inr handle))"

definition ipc_service_generation :: "nat \<Rightarrow> 'p ipc \<Rightarrow> u64" where
  "ipc_service_generation service w =
     (if ic_ready w \<and> service_is_valid service then sv_generation (ic_services w ! (service - 1)) else 0)"

definition ipc_service_unregister :: "'p ipc_process \<Rightarrow> nat \<Rightarrow> 'p ipc \<Rightarrow> 'p ipc \<times> unit res" where
  "ipc_service_unregister provider service w =
     (if \<not> ic_ready w \<or> \<not> service_is_valid service then (w, Inl IOS_E_INVALID_ARGUMENT)
      else let entry = ic_services w ! (service - 1) in
        case sv_endpoint entry of
          None \<Rightarrow> (w, Inl IOS_E_NOT_FOUND)
        | Some endpoint \<Rightarrow>
            if sv_provider_process_id entry \<noteq> pc_process_id provider
               \<or> sv_trusted_application_identity entry \<noteq> pc_application_identity provider then (w, Inl IOS_E_ACCESS_DENIED)
            else let w = endpoint_release endpoint (put_endpoint endpoint ((ic_endpoints w ! endpoint)\<lparr>ep_revoked := True\<rparr>) w)
                 in (put_service service (entry\<lparr>sv_endpoint := None, sv_provider_process_id := 0,
                       sv_generation := next_service_generation (sv_generation entry)\<rparr>) w, Inr ()))"

section \<open>Ring buffers as lists\<close>

definition endpoint_ok :: "ios_ipc_endpoint \<Rightarrow> bool" where
  "endpoint_ok ep \<longleftrightarrow> (if ep_allocated ep
     then length (ep_messages ep) = IOS_IPC_MAX_QUEUE_DEPTH \<and> 0 < ep_capacity ep \<and> ep_capacity ep \<le> IOS_IPC_MAX_QUEUE_DEPTH
       \<and> ep_head ep < ep_capacity ep \<and> ep_count ep \<le> ep_capacity ep
       \<and> ep_tail ep = (ep_head ep + ep_count ep) mod ep_capacity ep
     else ep = zero_endpoint)"

text \<open>The messages an endpoint holds, oldest first.\<close>

definition pending :: "ios_ipc_endpoint \<Rightarrow> ios_ipc_message list" where
  "pending ep = map (\<lambda>i. ep_messages ep ! ((ep_head ep + i) mod ep_capacity ep)) [0..<ep_count ep]"

definition enqueued :: "ios_ipc_message \<Rightarrow> ios_ipc_endpoint \<Rightarrow> ios_ipc_endpoint" where
  "enqueued m ep = ep\<lparr>ep_messages := (ep_messages ep)[ep_tail ep := m], ep_tail := (ep_tail ep + 1) mod ep_capacity ep,
     ep_count := ep_count ep + 1\<rparr>"

definition dequeued :: "ios_ipc_endpoint \<Rightarrow> ios_ipc_endpoint" where
  "dequeued ep = ep\<lparr>ep_messages := (ep_messages ep)[ep_head ep := zero_message], ep_head := (ep_head ep + 1) mod ep_capacity ep,
     ep_count := ep_count ep - 1\<rparr>"

lemma ring_inj: "i < c \<Longrightarrow> j < c \<Longrightarrow> (h + i) mod c = (h + j) mod c \<Longrightarrow> i = (j :: nat)"
proof (induction i j rule: linorder_wlog)
  case (le i j)
  then have "c dvd (h + j) - (h + i)" by (metis add_le_cancel_left mod_eq_dvd_iff_nat)
  then have "c dvd j - i" by simp
  then show ?case using le by (cases "j - i = 0") (auto dest: dvd_imp_le)
qed simp

lemma length_pending [simp]: "length (pending ep) = ep_count ep"
  by (simp add: pending_def)

lemma enqueued_ring:
  assumes "endpoint_ok ep" and "ep_allocated ep" and "ep_count ep \<noteq> ep_capacity ep"
  shows "endpoint_ok (enqueued m ep)" and "pending (enqueued m ep) = pending ep @ [m]"
proof -
  have ok: "length (ep_messages ep) = IOS_IPC_MAX_QUEUE_DEPTH" "0 < ep_capacity ep" "ep_capacity ep \<le> IOS_IPC_MAX_QUEUE_DEPTH"
    "ep_head ep < ep_capacity ep" "ep_count ep < ep_capacity ep" "ep_tail ep = (ep_head ep + ep_count ep) mod ep_capacity ep"
    using assms by (auto simp: endpoint_ok_def)
  have tail: "ep_tail ep < ep_capacity ep" using ok(2) by (simp add: ok(6))
  show "endpoint_ok (enqueued m ep)"
    using assms(2) ok by (auto simp: endpoint_ok_def enqueued_def mod_simps)
  have "(ep_messages ep)[ep_tail ep := m] ! ((ep_head ep + i) mod ep_capacity ep) = ep_messages ep ! ((ep_head ep + i) mod ep_capacity ep)"
    if "i < ep_count ep" for i
    using ring_inj [of i "ep_capacity ep" "ep_count ep" "ep_head ep"] that ok(5,6) by (intro nth_list_update_neq) auto
  then have "map (\<lambda>i. (ep_messages ep)[ep_tail ep := m] ! ((ep_head ep + i) mod ep_capacity ep)) [0..<ep_count ep] = pending ep"
    unfolding pending_def by (intro map_cong refl) simp
  then show "pending (enqueued m ep) = pending ep @ [m]"
    using tail ok(1,3) by (simp add: pending_def enqueued_def ok(6) [symmetric])
qed

lemma dequeued_ring:
  assumes "endpoint_ok ep" and "ep_allocated ep" and "ep_count ep \<noteq> 0"
  shows "endpoint_ok (dequeued ep)" and "pending ep = ep_messages ep ! ep_head ep # pending (dequeued ep)"
proof -
  have ok: "length (ep_messages ep) = IOS_IPC_MAX_QUEUE_DEPTH" "0 < ep_capacity ep" "ep_capacity ep \<le> IOS_IPC_MAX_QUEUE_DEPTH"
    "ep_head ep < ep_capacity ep" "ep_count ep \<le> ep_capacity ep" "ep_tail ep = (ep_head ep + ep_count ep) mod ep_capacity ep"
    using assms by (auto simp: endpoint_ok_def)
  obtain n where n: "ep_count ep = Suc n" using assms(3) by (cases "ep_count ep") auto
  show "endpoint_ok (dequeued ep)"
    using assms(2) ok n by (auto simp: endpoint_ok_def dequeued_def mod_simps)
  have "(ep_messages ep)[ep_head ep := zero_message] ! (Suc (ep_head ep + i) mod ep_capacity ep) = ep_messages ep ! (Suc (ep_head ep + i) mod ep_capacity ep)"
    if "i < n" for i
    using ring_inj [of "Suc i" "ep_capacity ep" 0 "ep_head ep"] that ok(4,5) n by (intro nth_list_update_neq) auto
  then have rest: "pending (dequeued ep) = map (\<lambda>i. ep_messages ep ! ((ep_head ep + Suc i) mod ep_capacity ep)) [0..<n]"
    unfolding pending_def dequeued_def using n by (auto simp: mod_simps intro!: map_cong)
  have "pending ep = map (\<lambda>i. ep_messages ep ! ((ep_head ep + i) mod ep_capacity ep)) (0 # map Suc [0..<n])"
    unfolding pending_def n by (simp add: upt_conv_Cons map_Suc_upt del: upt_Suc)
  then show "pending ep = ep_messages ep ! ep_head ep # pending (dequeued ep)"
    using ok(4) by (simp add: rest comp_def)
qed

section \<open>The invariant of the shared state\<close>

text \<open>
  What a queued message is: its header describes it, the payload is padded with zeroes, and the
  caller is one of the given processes.
\<close>

definition message_ok :: "(u64 \<times> u64) set \<Rightarrow> ios_ipc_message \<Rightarrow> bool" where
  "message_ok P m \<longleftrightarrow> (let h = ms_header m in
     mh_size h = of_nat (40 + mh_payload_size h) \<and> mh_version h = IOS_IPC_ABI_VERSION \<and> mh_operation h \<noteq> 0 \<and> mh_request_id h \<noteq> 0
     \<and> (mh_caller_process_id h, mh_caller_application_identity h) \<in> P \<and> mh_flags h = 0 \<and> mh_item_count h \<le> IOS_IPC_MAX_ITEM_COUNT
     \<and> mh_payload_size h \<le> IOS_IPC_MAX_PAYLOAD_SIZE \<and> length (ms_payload m) = IOS_IPC_MAX_PAYLOAD_SIZE
     \<and> (\<forall>i < IOS_IPC_MAX_PAYLOAD_SIZE. mh_payload_size h \<le> i \<longrightarrow> ms_payload m ! i = 0))"

definition endpoint_fine :: "(u64 \<times> u64) set \<Rightarrow> ios_ipc_endpoint \<Rightarrow> bool" where
  "endpoint_fine P ep \<longleftrightarrow> endpoint_ok ep \<and> (\<forall>m \<in> set (pending ep). message_ok P m)"

lemma pending_update [simp]:
  "pending (ep\<lparr>ep_reference_count := n\<rparr>) = pending ep" "pending (ep\<lparr>ep_revoked := b\<rparr>) = pending ep"
  "pending (zero_endpoint\<lparr>ep_allocated := True, ep_capacity := c, ep_reference_count := n, ep_owner_process_id := i,
     ep_owner_application_identity := a\<rparr>) = []" "pending zero_endpoint = []"
  by (simp_all add: pending_def zero_endpoint_def)

lemma fresh_endpoint_fine [simp]:
  "endpoint_fine P zero_endpoint" "\<not> ep_allocated zero_endpoint" "ep_reference_count zero_endpoint = 0"
  "0 < c \<Longrightarrow> c \<le> IOS_IPC_MAX_QUEUE_DEPTH \<Longrightarrow> endpoint_fine P (zero_endpoint\<lparr>ep_allocated := True, ep_capacity := c,
     ep_reference_count := n, ep_owner_process_id := i, ep_owner_application_identity := a\<rparr>)"
  by (simp_all only: endpoint_fine_def pending_update) (simp_all add: endpoint_ok_def zero_endpoint_def)

text \<open>
  \<open>R e\<close> is the number of references to endpoint \<open>e\<close> that exist; an endpoint is allocated exactly when
  there is one. No task waits on an endpoint that is not allocated.
\<close>

definition queues_ok :: "'p ipc \<Rightarrow> (kernel_queue \<Rightarrow> nat list) \<Rightarrow> bool" where
  "queues_ok w Q \<longleftrightarrow> sched_rep (ic_scheduler w) Q
     \<and> (\<forall>e < IOS_IPC_MAX_ENDPOINTS. \<not> ep_allocated (ic_endpoints w ! e) \<longrightarrow> Q (Receivers e) = [] \<and> Q (Senders e) = [])"

definition ipc_ok :: "(u64 \<times> u64) set \<Rightarrow> (nat \<Rightarrow> nat) \<Rightarrow> 'p ipc \<Rightarrow> bool" where
  "ipc_ok P R w \<longleftrightarrow> \<not> ic_panic w \<and> length (ic_endpoints w) = IOS_IPC_MAX_ENDPOINTS \<and> length (ic_services w) = IOS_IPC_MAX_SERVICES
     \<and> (\<forall>e < IOS_IPC_MAX_ENDPOINTS. endpoint_fine P (ic_endpoints w ! e) \<and> ep_reference_count (ic_endpoints w ! e) = R e
          \<and> (ep_allocated (ic_endpoints w ! e) \<longleftrightarrow> 0 < R e))
     \<and> (\<forall>e \<ge> IOS_IPC_MAX_ENDPOINTS. R e = 0) \<and> (\<exists>Q. queues_ok w Q)"

lemma ipc_okD:
  assumes "ipc_ok P R w"
  shows "\<not> ic_panic w" and "length (ic_endpoints w) = IOS_IPC_MAX_ENDPOINTS" and "length (ic_services w) = IOS_IPC_MAX_SERVICES"
    and "e < IOS_IPC_MAX_ENDPOINTS \<Longrightarrow> endpoint_fine P (ic_endpoints w ! e)"
    and "e < IOS_IPC_MAX_ENDPOINTS \<Longrightarrow> ep_reference_count (ic_endpoints w ! e) = R e"
    and "e < IOS_IPC_MAX_ENDPOINTS \<Longrightarrow> ep_allocated (ic_endpoints w ! e) \<longleftrightarrow> 0 < R e"
    and "0 < R e \<Longrightarrow> e < IOS_IPC_MAX_ENDPOINTS" and "\<exists>Q. queues_ok w Q"
  using assms unfolding ipc_ok_def by (blast, blast, blast, blast, blast, blast, metis not_less less_irrefl, blast)

lemma ipc_okI:
  assumes "\<not> ic_panic w" and "length (ic_endpoints w) = IOS_IPC_MAX_ENDPOINTS" and "length (ic_services w) = IOS_IPC_MAX_SERVICES"
    and "\<And>e. e < IOS_IPC_MAX_ENDPOINTS \<Longrightarrow> endpoint_fine P (ic_endpoints w ! e) \<and> ep_reference_count (ic_endpoints w ! e) = R e
          \<and> (ep_allocated (ic_endpoints w ! e) \<longleftrightarrow> 0 < R e)"
    and "\<And>e. \<not> e < IOS_IPC_MAX_ENDPOINTS \<Longrightarrow> R e = 0" and "queues_ok w Q"
  shows "ipc_ok P R w"
  using assms unfolding ipc_ok_def by (metis not_less)

lemma put_endpoint_simps [simp]:
  "ic_endpoints (put_endpoint e ep w) = (ic_endpoints w)[e := ep]" "ic_services (put_endpoint e ep w) = ic_services w"
  "ic_ready (put_endpoint e ep w) = ic_ready w" "ic_scheduler (put_endpoint e ep w) = ic_scheduler w"
  "ic_panic (put_endpoint e ep w) = ic_panic w"
  by (simp_all add: put_endpoint_def)

lemma empty_queue: "sched_rep s Q \<Longrightarrow> Q q = [] \<Longrightarrow> sc_queues s q = wait_queue_initialize"
  using sched_repD(4) [of s Q q] by (simp add: queue_rep_def wait_queue_initialize_def)

text \<open>Clearing the queues of an endpoint on which no task waits changes nothing.\<close>

lemma clear_idle:
  assumes "sched_rep (ic_scheduler w) Q" and "Q (Receivers e) = []" and "Q (Senders e) = []"
  shows "clear_endpoint e w = put_endpoint e zero_endpoint w"
proof -
  have "(sc_queues (ic_scheduler w))(Receivers e := wait_queue_initialize, Senders e := wait_queue_initialize) = sc_queues (ic_scheduler w)"
    using empty_queue [OF assms(1,2)] empty_queue [OF assms(1,3)] by (intro ext) simp
  then show ?thesis by (simp add: clear_endpoint_def)
qed

lemma put_endpoint_twice: "put_endpoint e ep' ((put_endpoint e ep w)\<lparr>ic_scheduler := s\<rparr>) = put_endpoint e ep' (w\<lparr>ic_scheduler := s\<rparr>)"
  by (simp add: put_endpoint_def)

text \<open>No endpoint appears, and those that stay keep their owners.\<close>

definition shrinks :: "'p ipc \<Rightarrow> 'p ipc \<Rightarrow> bool" where
  "shrinks w w' \<longleftrightarrow> (\<forall>e. ep_allocated (ic_endpoints w' ! e) \<longrightarrow> ep_allocated (ic_endpoints w ! e)
     \<and> ep_owner_process_id (ic_endpoints w' ! e) = ep_owner_process_id (ic_endpoints w ! e))"

lemma shrinks_trans: "shrinks w w' \<Longrightarrow> shrinks w' w'' \<Longrightarrow> shrinks w w''"
  by (simp add: shrinks_def)

lemma shrinks_same: "ic_endpoints w' = ic_endpoints w \<Longrightarrow> shrinks w w'"
  by (simp add: shrinks_def)

lemma shrinks_simps [simp]:
  "shrinks w w" "shrinks w (w'\<lparr>ic_scheduler := s\<rparr>) = shrinks w w'" "shrinks w (w'\<lparr>ic_panic := b\<rparr>) = shrinks w w'"
  "shrinks w (put_endpoint e ep (w'\<lparr>ic_scheduler := s\<rparr>)) = shrinks w (put_endpoint e ep w')"
  "put_endpoint e ep (put_endpoint e ep' w') = put_endpoint e ep w'"
  by (simp_all add: shrinks_def put_endpoint_def)

lemma shrinks_put:
  assumes "ep_allocated ep \<longrightarrow> ep_allocated (ic_endpoints w ! i) \<and> ep_owner_process_id ep = ep_owner_process_id (ic_endpoints w ! i)"
  shows "shrinks w (put_endpoint i ep w)"
proof (cases "i < length (ic_endpoints w)")
  case True
  then show ?thesis using assms by (simp add: shrinks_def nth_list_update)
next
  case False
  then show ?thesis by (simp add: shrinks_def not_less list_update_beyond)
qed

lemma retain_shrinks: "shrinks w (endpoint_retain e w)"
  by (simp add: endpoint_retain_def Let_def shrinks_put)

lemma release_shrinks: "shrinks w (endpoint_release e w)"
proof -
  have "shrinks w (put_endpoint e zero_endpoint w)" by (simp add: shrinks_put zero_endpoint_def)
  then show ?thesis by (simp add: endpoint_release_def clear_endpoint_def Let_def shrinks_put put_endpoint_twice)
qed

lemma revoke_shrinks: "shrinks w (endpoint_release e (put_endpoint e ((ic_endpoints w ! e)\<lparr>ep_revoked := b\<rparr>) w))"
  by (rule shrinks_trans [OF shrinks_put release_shrinks]) simp

text \<open>An endpoint replaced by another, with the number of its references.\<close>

lemma put_endpoint_ok:
  assumes ok: "ipc_ok P R w" and e: "e < IOS_IPC_MAX_ENDPOINTS"
    and ep: "endpoint_fine P ep" "ep_reference_count ep = n" "ep_allocated ep \<longleftrightarrow> 0 < n"
    and Q: "queues_ok w Q" "\<not> ep_allocated ep \<longrightarrow> Q (Receivers e) = [] \<and> Q (Senders e) = []"
  shows "ipc_ok P (R(e := n)) (put_endpoint e ep w)"
proof (rule ipc_okI)
  note d = ipc_okD [OF ok]
  have at: "ic_endpoints (put_endpoint e ep w) ! x = (if x = e then ep else ic_endpoints w ! x)" for x
    using e d(2) by (simp add: nth_list_update)
  show "queues_ok (put_endpoint e ep w) Q"
    using Q unfolding queues_ok_def at by (simp del: put_endpoint_simps(1))
  show "endpoint_fine P (ic_endpoints (put_endpoint e ep w) ! x) \<and> ep_reference_count (ic_endpoints (put_endpoint e ep w) ! x) = (R(e := n)) x
      \<and> (ep_allocated (ic_endpoints (put_endpoint e ep w) ! x) \<longleftrightarrow> 0 < (R(e := n)) x)" if "x < IOS_IPC_MAX_ENDPOINTS" for x
    unfolding at using d(4-6) [OF that] ep by simp
  show "(R(e := n)) x = 0" if "\<not> x < IOS_IPC_MAX_ENDPOINTS" for x using that e d(7) [of x] by auto
qed (use ipc_okD [OF ok] in simp_all)

lemma retain_ok:
  assumes ok: "ipc_ok P R w" and pos: "0 < R e" and max: "R e < UINT32_MAX"
  shows "ipc_ok P (R(e := R e + 1)) (endpoint_retain e w)" and "ic_services (endpoint_retain e w) = ic_services w"
proof -
  have e: "e < IOS_IPC_MAX_ENDPOINTS" using ipc_okD(7) [OF ok pos] .
  note d = ipc_okD(4-6) [OF ok e]
  let ?ep = "(ic_endpoints w ! e)\<lparr>ep_reference_count := R e + 1\<rparr>"
  have r: "endpoint_retain e w = put_endpoint e ?ep w"
    using d pos max by (simp add: endpoint_retain_def)
  obtain Q where Q: "queues_ok w Q" using ipc_okD(8) [OF ok] by blast
  have "endpoint_fine P ?ep" "ep_allocated ?ep" using d pos by (simp_all add: endpoint_fine_def endpoint_ok_def)
  then show "ipc_ok P (R(e := R e + 1)) (endpoint_retain e w)" unfolding r by (intro put_endpoint_ok [OF ok e _ _ _ Q]) simp_all
  show "ic_services (endpoint_retain e w) = ic_services w" by (simp add: r)
qed

lemma scheduler_ok: "ipc_ok P R w \<Longrightarrow> queues_ok (w\<lparr>ic_scheduler := s\<rparr>) Q \<Longrightarrow> ipc_ok P R (w\<lparr>ic_scheduler := s\<rparr>)"
  unfolding ipc_ok_def by auto

text \<open>The last release wakes every waiter and frees the slot.\<close>

lemma free_endpoint_ok:
  assumes ok: "ipc_ok P R w" and e: "e < IOS_IPC_MAX_ENDPOINTS"
  defines "s \<equiv> fst (wait_queue_wake_all (Senders e) (fst (wait_queue_wake_all (Receivers e) (ic_scheduler w))))"
  shows "ipc_ok P (R(e := 0)) (clear_endpoint e ((put_endpoint e ep w)\<lparr>ic_scheduler := s\<rparr>))"
    and "ic_services (clear_endpoint e ((put_endpoint e ep w)\<lparr>ic_scheduler := s\<rparr>)) = ic_services w"
proof -
  obtain Q where Q: "queues_ok w Q" using ipc_okD(8) [OF ok] by blast
  let ?Q = "Q(Receivers e := [], Senders e := [])"
  have r: "sched_rep (fst (wait_queue_wake_all (Receivers e) (ic_scheduler w))) (Q(Receivers e := []))"
    using wake_all_step [of "ic_scheduler w" Q "Receivers e"] Q unfolding queues_ok_def by (metis prod.collapse)
  have rep: "sched_rep s ?Q" unfolding s_def using wake_all_step [OF r, of "Senders e"] by (metis prod.collapse)
  have idle: "clear_endpoint e ((put_endpoint e ep w)\<lparr>ic_scheduler := s\<rparr>) = put_endpoint e zero_endpoint (w\<lparr>ic_scheduler := s\<rparr>)"
    using clear_idle [of "(put_endpoint e ep w)\<lparr>ic_scheduler := s\<rparr>" ?Q e] rep by (simp add: put_endpoint_twice)
  have Qs: "queues_ok (w\<lparr>ic_scheduler := s\<rparr>) ?Q" using Q rep by (simp add: queues_ok_def)
  show "ipc_ok P (R(e := 0)) (clear_endpoint e ((put_endpoint e ep w)\<lparr>ic_scheduler := s\<rparr>))"
    unfolding idle by (rule put_endpoint_ok [OF scheduler_ok [OF ok Qs] e _ _ _ Qs]) simp_all
  show "ic_services (clear_endpoint e ((put_endpoint e ep w)\<lparr>ic_scheduler := s\<rparr>)) = ic_services w"
    unfolding idle by simp
qed

lemma release_ok:
  assumes ok: "ipc_ok P R w" and pos: "0 < R e"
  shows "ipc_ok P (R(e := R e - 1)) (endpoint_release e w)" and "ic_services (endpoint_release e w) = ic_services w"
proof -
  have e: "e < IOS_IPC_MAX_ENDPOINTS" using ipc_okD(7) [OF ok pos] .
  note d = ipc_okD(4-6) [OF ok e]
  let ?ep = "(ic_endpoints w ! e)\<lparr>ep_reference_count := R e - 1\<rparr>"
  obtain Q where Q: "queues_ok w Q" using ipc_okD(8) [OF ok] by blast
  have "ipc_ok P (R(e := R e - 1)) (endpoint_release e w) \<and> ic_services (endpoint_release e w) = ic_services w"
  proof (cases "R e - 1 = 0")
    case True
    then have "endpoint_release e w = clear_endpoint e ((put_endpoint e ?ep w)\<lparr>ic_scheduler :=
        fst (wait_queue_wake_all (Senders e) (fst (wait_queue_wake_all (Receivers e) (ic_scheduler w))))\<rparr>)"
      using d pos by (simp add: endpoint_release_def Let_def)
    then show ?thesis using free_endpoint_ok [OF ok e, of ?ep] True by simp
  next
    case False
    then have "endpoint_release e w = put_endpoint e ?ep w" using d pos by (simp add: endpoint_release_def Let_def)
    moreover have "endpoint_fine P ?ep" "ep_allocated ?ep" using d pos by (simp_all add: endpoint_fine_def endpoint_ok_def)
    ultimately show ?thesis using put_endpoint_ok [OF ok e _ _ _ Q, of ?ep "R e - 1"] False by simp
  qed
  then show "ipc_ok P (R(e := R e - 1)) (endpoint_release e w)" and "ic_services (endpoint_release e w) = ic_services w" by blast+
qed

section \<open>References from handle tables and services\<close>

definition entry_ref :: "(nat, 'p ipc) ios_handle_entry \<Rightarrow> nat \<Rightarrow> nat" where
  "entry_ref en e = (if he_object en = Some e \<and> he_kind en = IOS_OBJECT_IPC_ENDPOINT then 1 else 0)"

definition table_refs :: "(nat, 'p ipc) ios_handle_table \<Rightarrow> nat \<Rightarrow> nat" where
  "table_refs t e = (\<Sum>en \<leftarrow> ht_entries t. entry_ref en e)"

definition service_refs :: "trusted_service_entry list \<Rightarrow> nat \<Rightarrow> nat" where
  "service_refs ss e = (\<Sum>s \<leftarrow> ss. if sv_endpoint s = Some e then 1 else 0)"

text \<open>The callbacks of an endpoint handle are those of this module; others leave this state alone.\<close>

definition entry_ok :: "(nat, 'p ipc) ios_handle_entry \<Rightarrow> bool" where
  "entry_ok en \<longleftrightarrow> (if he_kind en = IOS_OBJECT_IPC_ENDPOINT
     then he_retain en = Some endpoint_retain \<and> he_release en = Some endpoint_release
     else (\<forall>f. he_retain en = Some f \<or> he_release en = Some f \<longrightarrow> (\<forall>x w. f x w = w)))"

definition handles_ok :: "(nat, 'p ipc) ios_handle_table \<Rightarrow> bool" where
  "handles_ok t \<longleftrightarrow> table_ok t \<and> (\<forall>en \<in> set (ht_entries t). used en \<longrightarrow> entry_ok en)"

lemma sum_list_update_nat:
  "i < length xs \<Longrightarrow> (\<Sum>x \<leftarrow> xs[i := y]. f x) + f (xs ! i) = (\<Sum>x \<leftarrow> xs. f x) + (f y :: nat)"
proof (induction xs arbitrary: i)
  case (Cons x xs)
  then show ?case by (cases i) auto
qed simp

lemma entry_retain_ok:
  assumes "ipc_ok P R w" and "entry_ok en" and "used en" and "\<And>e. entry_ref en e \<le> R e" and "\<And>e. R e < UINT32_MAX"
  shows "ipc_ok P (\<lambda>e. R e + entry_ref en e) (call_object (he_retain en) (he_object en) w)"
    and "ic_services (call_object (he_retain en) (he_object en) w) = ic_services w"
    and "shrinks w (call_object (he_retain en) (he_object en) w)"
proof -
  obtain x where x: "he_object en = Some x" using assms(3) by (auto simp: used_def)
  have "ipc_ok P (\<lambda>e. R e + entry_ref en e) (call_object (he_retain en) (he_object en) w)
    \<and> ic_services (call_object (he_retain en) (he_object en) w) = ic_services w \<and> shrinks w (call_object (he_retain en) (he_object en) w)"
  proof (cases "he_kind en = IOS_OBJECT_IPC_ENDPOINT")
    case True
    then have "(\<lambda>e. R e + entry_ref en e) = R(x := R x + 1)" "0 < R x" using x assms(4) [of x] by (auto simp: entry_ref_def)
    then show ?thesis using retain_ok [OF assms(1) _ assms(5), of x] retain_shrinks [of w x] assms(2) True x by (simp add: entry_ok_def call_object_def)
  next
    case False
    then have "(\<lambda>e. R e + entry_ref en e) = R" by (simp add: entry_ref_def)
    moreover have "call_object (he_retain en) (he_object en) w = w" using assms(2) False x by (auto simp: entry_ok_def call_object_def split: option.splits)
    ultimately show ?thesis using assms(1) by (simp add: shrinks_same)
  qed
  then show "ipc_ok P (\<lambda>e. R e + entry_ref en e) (call_object (he_retain en) (he_object en) w)"
    and "ic_services (call_object (he_retain en) (he_object en) w) = ic_services w"
    and "shrinks w (call_object (he_retain en) (he_object en) w)" by blast+
qed

lemma entry_release_ok:
  assumes "ipc_ok P R w" and "entry_ok en" and "used en" and "\<And>e. entry_ref en e \<le> R e"
  shows "ipc_ok P (\<lambda>e. R e - entry_ref en e) (call_object (he_release en) (he_object en) w)"
    and "ic_services (call_object (he_release en) (he_object en) w) = ic_services w"
    and "shrinks w (call_object (he_release en) (he_object en) w)"
proof -
  obtain x where x: "he_object en = Some x" using assms(3) by (auto simp: used_def)
  have "ipc_ok P (\<lambda>e. R e - entry_ref en e) (call_object (he_release en) (he_object en) w)
    \<and> ic_services (call_object (he_release en) (he_object en) w) = ic_services w \<and> shrinks w (call_object (he_release en) (he_object en) w)"
  proof (cases "he_kind en = IOS_OBJECT_IPC_ENDPOINT")
    case True
    then have "(\<lambda>e. R e - entry_ref en e) = R(x := R x - 1)" "0 < R x" using x assms(4) [of x] by (auto simp: entry_ref_def)
    then show ?thesis using release_ok [OF assms(1), of x] release_shrinks [of w x] assms(2) True x by (simp add: entry_ok_def call_object_def)
  next
    case False
    then have "(\<lambda>e. R e - entry_ref en e) = R" by (simp add: entry_ref_def)
    moreover have "call_object (he_release en) (he_object en) w = w" using assms(2) False x by (auto simp: entry_ok_def call_object_def split: option.splits)
    ultimately show ?thesis using assms(1) by (simp add: shrinks_same)
  qed
  then show "ipc_ok P (\<lambda>e. R e - entry_ref en e) (call_object (he_release en) (he_object en) w)"
    and "ic_services (call_object (he_release en) (he_object en) w) = ic_services w"
    and "shrinks w (call_object (he_release en) (he_object en) w)" by blast+
qed

lemma table_refs_update:
  assumes "i < length (ht_entries t)" and "ht_entries t' = (ht_entries t)[i := en]"
  shows "table_refs t' e + entry_ref (ht_entries t ! i) e = table_refs t e + entry_ref en e"
  using sum_list_update_nat [OF assms(1), of "\<lambda>en. entry_ref en e" en] by (simp add: table_refs_def assms(2))

lemma entry_ref_unused [simp]: "\<not> used en \<Longrightarrow> entry_ref en e = 0"
  by (simp add: entry_ref_def used_def)

lemma entry_ref_le:
  assumes "i < length (ht_entries t)"
  shows "entry_ref (ht_entries t ! i) e \<le> table_refs t e"
  using sum_list_update_nat [OF assms, of "\<lambda>en. entry_ref en e" "ht_entries t ! i"] member_le_sum_list [of "entry_ref (ht_entries t ! i) e" "map (\<lambda>en. entry_ref en e) (ht_entries t)"] assms
  by (simp add: table_refs_def)

lemma handles_okD:
  assumes "handles_ok t"
  shows "table_ok t" and "length (ht_entries t) = IOS_HANDLE_TABLE_CAPACITY"
    and "i < IOS_HANDLE_TABLE_CAPACITY \<Longrightarrow> used (ht_entries t ! i) \<Longrightarrow> entry_ok (ht_entries t ! i)"
  using assms by (auto simp: handles_ok_def table_ok_def)

lemma handles_ok_update:
  assumes "handles_ok t" and "table_ok t'" and "ht_entries t' = (ht_entries t)[i := en]" and "used en \<Longrightarrow> entry_ok en"
  shows "handles_ok t'"
  using assms set_update_subset_insert [of "ht_entries t" i en] by (auto simp: handles_ok_def)

lemma insert_refs:
  assumes ok: "handles_ok t" and ins: "handle_table_insert t (he_object en) (he_kind en) rights (he_retain en) (he_release en) = (t', r)"
    and en: "entry_ok en"
  obtains e where "r = Inl e" and "t' = t"
  | h where "r = Inr h" and "handles_ok t'" and "\<And>e. table_refs t' e = table_refs t e + entry_ref en e"
  using handles_okD(1) [OF ok] ins
proof (cases rule: insert_cases)
  case (fails e)
  then show thesis by (intro that(1)) simp_all
next
  case (enters i obj)
  let ?new = "(ht_entries t ! i)\<lparr>he_object := he_object en, he_kind := he_kind en, he_rights := rights,
      he_retain := he_retain en, he_release := he_release en\<rparr>"
  have t': "ht_entries t' = (ht_entries t)[i := ?new]" using enters(7) by simp
  have new: "entry_ok ?new" "entry_ref ?new e = entry_ref en e" for e using en by (simp_all add: entry_ok_def entry_ref_def)
  have i: "i < length (ht_entries t)" using enters(1) handles_okD(2) [OF ok] by simp
  have refs: "table_refs t' e = table_refs t e + entry_ref en e" for e
    using table_refs_update [OF i t', of e] enters(2) new(2) by simp
  show thesis by (rule that(2) [OF enters(3) handles_ok_update [OF ok enters(5) t' new(1)] refs])
qed

lemma close_refs:
  assumes ok: "handles_ok t" and w: "ipc_ok P (\<lambda>e. C e + table_refs t e) w" and cl: "handle_table_close t h w = (t', w', r)"
  shows "handles_ok t' \<and> ipc_ok P (\<lambda>e. C e + table_refs t' e) w' \<and> ic_services w' = ic_services w \<and> shrinks w w'"
  using handles_okD(1) [OF ok] cl
proof (cases rule: close_cases)
  case fails
  then show ?thesis using ok w by (simp add: shrinks_same)
next
  case (closes i)
  have i: "i < length (ht_entries t)" using closes(2) handles_okD(2) [OF ok] by simp
  have len: "length (ht_entries t') = length (ht_entries t)" using closes(5) handles_okD(2) [OF ok] by (simp add: table_ok_def)
  have t': "ht_entries t' = (ht_entries t)[i := ht_entries t' ! i]"
  proof (rule nth_equalityI)
    fix j
    assume "j < length (ht_entries t')"
    then show "ht_entries t' ! j = (ht_entries t)[i := ht_entries t' ! i] ! j"
      using i len closes(10) [of j] by (cases "j = i") simp_all
  qed (simp add: len)
  have refs: "table_refs t' e + entry_ref (ht_entries t ! i) e = table_refs t e" for e
    using table_refs_update [OF i t', of e] closes(11) by simp
  have "(\<lambda>e. C e + table_refs t e - entry_ref (ht_entries t ! i) e) = (\<lambda>e. C e + table_refs t' e)"
    using refs by (intro ext) (metis add.assoc add_diff_cancel_right')
  moreover have "entry_ref (ht_entries t ! i) e \<le> C e + table_refs t e" for e using refs [of e] by linarith
  ultimately show ?thesis
    using entry_release_ok [OF w handles_okD(3) [OF ok closes(2,4)] closes(4)] closes(8) handles_ok_update [OF ok closes(5) t'] closes(11) by simp
qed

lemma close_all_refs:
  assumes "handles_ok t" and "ipc_ok P (\<lambda>e. C e + table_refs t e) w" and "close_all_loop is t w = (t', w')"
  shows "handles_ok t' \<and> ipc_ok P (\<lambda>e. C e + table_refs t' e) w' \<and> ic_services w' = ic_services w \<and> shrinks w w'"
  using assms
proof (induction "is" t w rule: close_all_loop.induct)
  case (2 i "is" t w)
  show ?case
  proof (cases "he_object (ht_entries t ! i) = None")
    case True
    then show ?thesis using 2 by simp
  next
    case False
    obtain t1 w1 r where cl: "handle_table_close t (encode_handle i (he_generation (ht_entries t ! i))) w = (t1, w1, r)" by (metis prod_cases3)
    note c = close_refs [OF 2(3,4) cl]
    have run: "close_all_loop is t1 w1 = (t', w')" using 2(5) False cl by simp
    show ?thesis using 2(1) [OF False cl [symmetric] refl _ _ run] c shrinks_trans [of w w1 w'] by simp
  qed
qed (simp add: shrinks_same)

lemma duplicate_refs:
  assumes ok: "handles_ok t" and w: "ipc_ok P (\<lambda>e. C e + table_refs t e) w" and max: "\<And>e. C e + table_refs t e < UINT32_MAX"
    and dup: "handle_table_duplicate t h rights w = (t', w', r)"
  shows "handles_ok t' \<and> ipc_ok P (\<lambda>e. C e + table_refs t' e) w' \<and> ic_services w' = ic_services w \<and> shrinks w w'"
  using handles_okD(1) [OF ok]
proof (cases rule: decode_cases [where h = h])
  case bad
  then show ?thesis using dup ok w by (simp add: handle_table_duplicate_def shrinks_same)
next
  case (good i)
  let ?en = "ht_entries t ! i"
  have en: "entry_ok ?en" using handles_okD(3) [OF ok good(2,3)] .
  have le: "entry_ref ?en e \<le> C e + table_refs t e" for e using entry_ref_le [of i t e] good(2) handles_okD(2) [OF ok] by (simp add: trans_le_add2)
  note ret = entry_retain_ok [OF w en good(3) le max]
  show ?thesis
  proof (cases "he_rights ?en AND IOS_RIGHT_DUPLICATE = 0 \<or> rights AND NOT (he_rights ?en) \<noteq> 0 \<or> he_release ?en \<noteq> None \<and> he_retain ?en = None")
    case True
    then show ?thesis using dup ok w good(1) shrinks_same [of w w] by (auto simp: handle_table_duplicate_def Let_def split: if_splits)
  next
    case False
    obtain t1 r1 where ins: "handle_table_insert t (he_object ?en) (he_kind ?en) rights (he_retain ?en) (he_release ?en) = (t1, r1)" by fastforce
    let ?w = "call_object (he_retain ?en) (he_object ?en) w"
    show ?thesis
    proof (cases rule: insert_refs [OF ok ins en])
      case (1 e)
      then have "t' = t" "w' = call_object (he_release ?en) (he_object ?en) ?w"
        using dup good(1) False ins by (auto simp: handle_table_duplicate_def Let_def)
      then show ?thesis using entry_release_ok [OF ret(1) en good(3)] ret(2) ok shrinks_trans [OF ret(3)] by simp
    next
      case (2 h')
      then have "t' = t1" "w' = ?w" using dup good(1) False ins by (auto simp: handle_table_duplicate_def Let_def)
      then show ?thesis using ret 2 by (simp add: add.assoc)
    qed
  qed
qed

section \<open>Sending and receiving\<close>

lemma resolve_cases:
  assumes ok: "handles_ok t" "pc_handles p = t" and res: "resolve_endpoint p h rights w = Inr e"
  obtains i where "i < IOS_HANDLE_TABLE_CAPACITY" and "entry_ref (ht_entries t ! i) e = 1" and "used (ht_entries t ! i)"
    and "caps t h = Some (e, IOS_OBJECT_IPC_ENDPOINT, he_rights (ht_entries t ! i))"
    and "he_rights (ht_entries t ! i) AND rights = rights" and "0 < table_refs t e"
    and "ep_allocated (ic_endpoints w ! e)" and "\<not> ep_revoked (ic_endpoints w ! e)" and "ic_ready w"
  using handles_okD(1) [OF ok(1)]
proof (cases rule: decode_cases [where h = h])
  case bad
  then show thesis using res ok(2) by (auto simp: resolve_endpoint_def handle_table_resolve_def split: if_splits)
next
  case (good i)
  obtain x where x: "he_object (ht_entries t ! i) = Some x" using good(3) by (auto simp: used_def)
  have r: "x = e" "he_kind (ht_entries t ! i) = IOS_OBJECT_IPC_ENDPOINT" "he_rights (ht_entries t ! i) AND rights = rights"
    "ep_allocated (ic_endpoints w ! e)" "\<not> ep_revoked (ic_endpoints w ! e)" "ic_ready w"
    using res good(1) ok(2) x by (auto simp: resolve_endpoint_def handle_table_resolve_def Let_def split: if_splits)
  have ref: "entry_ref (ht_entries t ! i) e = 1" using r x by (simp add: entry_ref_def)
  have "0 < table_refs t e" using entry_ref_le [of i t e] ref good(2) handles_okD(2) [OF ok(1)] by simp
  then show thesis using that [OF good(2) ref good(3)] good(5) r x by (simp add: cap_def)
qed

lemma caps_refs:
  assumes "handles_ok t" and "caps t h = Some (e, IOS_OBJECT_IPC_ENDPOINT, rights)"
  shows "0 < table_refs t e"
  using handles_okD(1) [OF assms(1)]
proof (cases rule: decode_cases [where h = h])
  case (good i)
  then have "entry_ref (ht_entries t ! i) e = 1" using assms(2) by (auto simp: entry_ref_def cap_def used_def)
  then show ?thesis using entry_ref_le [of i t e] good(2) handles_okD(2) [OF assms(1)] by simp
qed (use assms(2) in simp)

text \<open>What the scheduler does on a queue of an endpoint that is allocated.\<close>

lemma wake_one_tail:
  assumes "sched_rep s Q"
  shows "sched_rep (fst (wait_queue_wake_one q s)) (Q(q := tl (Q q)))"
proof (cases "Q q")
  case Nil
  then show ?thesis using wake_one_empty [OF assms Nil] assms fun_upd_triv [of Q q] by simp
next
  case (Cons t ts)
  then show ?thesis using wake_one_rep [OF assms Cons] by (metis fst_conv list.sel(3))
qed

lemma wake_queues:
  assumes Q: "queues_ok w Q" and q: "q = Receivers e \<or> q = Senders e" and e: "ep_allocated (ic_endpoints w ! e)"
  shows "\<exists>Q. queues_ok (w\<lparr>ic_scheduler := fst (wait_queue_wake_one q (ic_scheduler w))\<rparr>) Q"
proof -
  have "queues_ok (w\<lparr>ic_scheduler := fst (wait_queue_wake_one q (ic_scheduler w))\<rparr>) (Q(q := tl (Q q)))"
    using Q q e wake_one_tail [of "ic_scheduler w" Q q] by (auto simp: queues_ok_def)
  then show ?thesis by blast
qed

lemma block_queues:
  assumes Q: "queues_ok w Q" and q: "q = Receivers e \<or> q = Senders e" and e: "ep_allocated (ic_endpoints w ! e)"
    and b: "scheduler_block_current q (ic_scheduler w) = (s, r)"
  shows "\<exists>Q. queues_ok (w\<lparr>ic_scheduler := s\<rparr>) Q"
proof (cases "s = ic_scheduler w")
  case True
  then show ?thesis using Q by auto
next
  case False
  then obtain t where t: "sc_current_task (ic_scheduler w) = Some (Task t)" "tk_state (sc_tasks (ic_scheduler w) ! t) = IOS_TASK_RUNNING"
    using b by (auto simp: scheduler_block_current_def split: option.splits task_ref.splits if_splits)
  have "sched_rep s (Q(q := Q q @ [t]))" using block_current_rep [OF _ t b] Q by (simp add: queues_ok_def)
  then have "queues_ok (w\<lparr>ic_scheduler := s\<rparr>) (Q(q := Q q @ [t]))" using Q q e by (auto simp: queues_ok_def)
  then show ?thesis by blast
qed

lemma enqueued_fields [simp]:
  "ep_allocated (enqueued m ep) = ep_allocated ep" "ep_reference_count (enqueued m ep) = ep_reference_count ep"
  "ep_owner_process_id (enqueued m ep) = ep_owner_process_id ep" "ep_owner_process_id (dequeued ep) = ep_owner_process_id ep"
  "ep_allocated (dequeued ep) = ep_allocated ep" "ep_reference_count (dequeued ep) = ep_reference_count ep"
  by (simp_all add: enqueued_def dequeued_def)

lemma built_message_ok:
  assumes "request_id \<noteq> 0" and "operation \<noteq> 0" and "item_count \<le> IOS_IPC_MAX_ITEM_COUNT"
    and "payload_size \<le> IOS_IPC_MAX_PAYLOAD_SIZE" and "(pc_process_id p, pc_application_identity p) \<in> P"
  shows "message_ok P (built_message p request_id operation item_count payload payload_size)"
proof -
  let ?z = "replicate IOS_IPC_MAX_PAYLOAD_SIZE 0 :: bytes" and ?pl = "take payload_size (the payload)"
  have "length (overwrite ?z 0 ?pl) = IOS_IPC_MAX_PAYLOAD_SIZE" using assms(4) by simp
  moreover have "overwrite ?z 0 ?pl ! i = 0" if "payload_size \<le> i" "i < IOS_IPC_MAX_PAYLOAD_SIZE" for i
    using nth_overwrite [of 0 ?pl ?z i] that assms(4) by simp
  ultimately show ?thesis using assms by (simp add: message_ok_def built_message_def Let_def)
qed

lemma put_wake_ok:
  assumes ok: "ipc_ok P R w" and e: "e < IOS_IPC_MAX_ENDPOINTS" "0 < R e" and q: "q = Receivers e \<or> q = Senders e"
    and ep: "endpoint_fine P ep" "ep_allocated ep" "ep_reference_count ep = R e"
  shows "ipc_ok P R ((put_endpoint e ep w)\<lparr>ic_scheduler := fst (wait_queue_wake_one q (ic_scheduler (put_endpoint e ep w)))\<rparr>)"
proof -
  obtain Q where Q: "queues_ok w Q" using ipc_okD(8) [OF ok] by blast
  have ok': "ipc_ok P R (put_endpoint e ep w)"
    using put_endpoint_ok [OF ok e(1) ep(1,3) _ Q] ep(2) e(2) by simp
  then obtain Q' where Q': "queues_ok (put_endpoint e ep w) Q'" using ipc_okD(8) by blast
  have "ep_allocated (ic_endpoints (put_endpoint e ep w) ! e)" using ipc_okD(2) [OF ok] e(1) ep(2) by simp
  then show ?thesis using scheduler_ok [OF ok'] wake_queues [OF Q' q] by blast
qed

text \<open>The branches of a send and of a receive.\<close>

lemma send_cases:
  assumes snd: "ipc_send p h request_id operation flags item_count payload payload_size block w = (w', r)"
  obtains (refused) err where "r = Inl err" "w' = w"
  | (blocked) e where "resolve_endpoint p h IOS_RIGHT_SIGNAL w = Inr e" "block"
      "ep_count (ic_endpoints w ! e) = ep_capacity (ic_endpoints w ! e)"
      "scheduler_block_current (Senders e) (ic_scheduler w) = (ic_scheduler w', r)" "w' = w\<lparr>ic_scheduler := ic_scheduler w'\<rparr>"
  | (sent) e where "resolve_endpoint p h IOS_RIGHT_SIGNAL w = Inr e" "r = Inr ()"
      "ep_count (ic_endpoints w ! e) \<noteq> ep_capacity (ic_endpoints w ! e)"
      "request_id \<noteq> 0" "operation \<noteq> 0" "item_count \<le> IOS_IPC_MAX_ITEM_COUNT" "payload_size \<le> IOS_IPC_MAX_PAYLOAD_SIZE"
      "w' = (let w = put_endpoint e (enqueued (built_message p request_id operation item_count payload payload_size) (ic_endpoints w ! e)) w
             in w\<lparr>ic_scheduler := fst (wait_queue_wake_one (Receivers e) (ic_scheduler w))\<rparr>)"
proof (cases "resolve_endpoint p h IOS_RIGHT_SIGNAL w")
  case (Inl err)
  then show thesis using snd refused by (auto simp: ipc_send_def split: if_splits)
next
  case (Inr e)
  show thesis
  proof (cases "request_id = 0 \<or> operation = 0 \<or> flags \<noteq> 0 \<or> item_count > IOS_IPC_MAX_ITEM_COUNT
         \<or> payload_size > IOS_IPC_MAX_PAYLOAD_SIZE \<or> (payload_size \<noteq> 0 \<and> payload = None)")
    case True
    then show thesis using snd by (intro refused [of IOS_E_PROTOCOL]) (auto simp: ipc_send_def)
  next
    case valid: False
    show thesis
    proof (cases "ep_count (ic_endpoints w ! e) = ep_capacity (ic_endpoints w ! e)")
      case True
      then show thesis using snd valid Inr refused blocked [OF Inr _ True] by (cases block) (auto simp: ipc_send_def Let_def split: prod.splits)
    next
      case False
      have run: "r = Inr ()" "w' = (let w = put_endpoint e (enqueued (built_message p request_id operation item_count payload payload_size) (ic_endpoints w ! e)) w
             in w\<lparr>ic_scheduler := fst (wait_queue_wake_one (Receivers e) (ic_scheduler w))\<rparr>)"
        using snd False unfolding ipc_send_def if_not_P [OF valid] Inr by (simp_all add: Let_def enqueued_def)
      show thesis by (rule sent [OF Inr run(1) False _ _ _ _ run(2)]) (use valid in auto)
    qed
  qed
qed

lemma receive_cases:
  assumes rcv: "ipc_receive p h block w = (w', r)"
  obtains (refused) err where "r = Inl err" "w' = w"
  | (blocked) e r' where "resolve_endpoint p h IOS_RIGHT_WAIT w = Inr e" "block" "ep_count (ic_endpoints w ! e) = 0"
      "ep_owner_process_id (ic_endpoints w ! e) = pc_process_id p"
      "scheduler_block_current (Receivers e) (ic_scheduler w) = (ic_scheduler w', r')" "w' = w\<lparr>ic_scheduler := ic_scheduler w'\<rparr>"
      "r = (case r' of Inl x \<Rightarrow> Inl x | Inr _ \<Rightarrow> Inr None)"
  | (received) e where "resolve_endpoint p h IOS_RIGHT_WAIT w = Inr e" "ep_count (ic_endpoints w ! e) \<noteq> 0"
      "ep_owner_process_id (ic_endpoints w ! e) = pc_process_id p"
      "r = Inr (Some (ep_messages (ic_endpoints w ! e) ! ep_head (ic_endpoints w ! e)))"
      "w' = (let w = put_endpoint e (dequeued (ic_endpoints w ! e)) w
             in w\<lparr>ic_scheduler := fst (wait_queue_wake_one (Senders e) (ic_scheduler w))\<rparr>)"
proof (cases "resolve_endpoint p h IOS_RIGHT_WAIT w")
  case (Inl err)
  then show thesis using rcv refused by (auto simp: ipc_receive_def)
next
  case (Inr e)
  show thesis
  proof (cases "ep_owner_process_id (ic_endpoints w ! e) = pc_process_id p")
    case owner: True
    show thesis
    proof (cases "ep_count (ic_endpoints w ! e) = 0")
      case True
      then show thesis using rcv Inr owner refused blocked [OF Inr _ True owner]
        by (cases block) (auto simp: ipc_receive_def Let_def split: prod.splits sum.splits)
    next
      case False
      then show thesis using rcv Inr owner received [OF Inr False owner] by (simp add: ipc_receive_def Let_def dequeued_def)
    qed
  next
    case False
    then show thesis using rcv Inr by (intro refused [of IOS_E_ACCESS_DENIED]) (auto simp: ipc_receive_def Let_def)
  qed
qed

lemma send_ok:
  assumes t: "handles_ok (pc_handles p)" and ok: "ipc_ok P R w" and le: "\<And>e. table_refs (pc_handles p) e \<le> R e"
    and P: "(pc_process_id p, pc_application_identity p) \<in> P"
    and snd: "ipc_send p h request_id operation flags item_count payload payload_size block w = (w', r)"
  shows "ipc_ok P R w'" and "ic_services w' = ic_services w" and "shrinks w w'"
proof -
  have "ipc_ok P R w' \<and> ic_services w' = ic_services w \<and> shrinks w w'"
    using snd
  proof (cases rule: send_cases)
    case refused
    then show ?thesis using ok by simp
  next
    case (blocked e)
    have "ep_allocated (ic_endpoints w ! e)" by (rule resolve_cases [OF t refl blocked(1)])
    moreover obtain Q where "queues_ok w Q" using ipc_okD(8) [OF ok] by blast
    ultimately obtain Q' where "queues_ok (w\<lparr>ic_scheduler := ic_scheduler w'\<rparr>) Q'" using block_queues [OF _ _ _ blocked(4)] by blast
    then have "ipc_ok P R (w\<lparr>ic_scheduler := ic_scheduler w'\<rparr>)" by (rule scheduler_ok [OF ok])
    then show ?thesis by (subst blocked(5), subst (2) blocked(5), subst (3) blocked(5)) simp
  next
    case (sent e)
    let ?ep = "enqueued (built_message p request_id operation item_count payload payload_size) (ic_endpoints w ! e)"
    have alloc: "ep_allocated (ic_endpoints w ! e)" by (rule resolve_cases [OF t refl sent(1)])
    have "0 < table_refs (pc_handles p) e" by (rule resolve_cases [OF t refl sent(1)])
    then have pos: "0 < R e" using le [of e] by simp
    note e = ipc_okD(7) [OF ok pos]
    note fine = ipc_okD(4) [OF ok e]
    have "endpoint_fine P ?ep"
      using fine enqueued_ring [OF _ alloc sent(3)] built_message_ok [OF sent(4-7) P] by (simp add: endpoint_fine_def)
    then show ?thesis
      using put_wake_ok [OF ok e pos, of "Receivers e" ?ep] alloc ipc_okD(5) [OF ok e] sent(8)
        shrinks_put [of ?ep w e] by (simp add: Let_def)
  qed
  then show "ipc_ok P R w'" and "ic_services w' = ic_services w" and "shrinks w w'" by blast+
qed

lemma receive_ok:
  assumes t: "handles_ok (pc_handles p)" and ok: "ipc_ok P R w" and le: "\<And>e. table_refs (pc_handles p) e \<le> R e"
    and rcv: "ipc_receive p h block w = (w', r)"
  shows "ipc_ok P R w'" and "ic_services w' = ic_services w" and "shrinks w w'"
proof -
  have "ipc_ok P R w' \<and> ic_services w' = ic_services w \<and> shrinks w w'"
    using rcv
  proof (cases rule: receive_cases)
    case refused
    then show ?thesis using ok by simp
  next
    case (blocked e r')
    have "ep_allocated (ic_endpoints w ! e)" by (rule resolve_cases [OF t refl blocked(1)])
    moreover obtain Q where "queues_ok w Q" using ipc_okD(8) [OF ok] by blast
    ultimately obtain Q' where "queues_ok (w\<lparr>ic_scheduler := ic_scheduler w'\<rparr>) Q'" using block_queues [OF _ _ _ blocked(5)] by blast
    then have "ipc_ok P R (w\<lparr>ic_scheduler := ic_scheduler w'\<rparr>)" by (rule scheduler_ok [OF ok])
    then show ?thesis by (subst blocked(6), subst (2) blocked(6), subst (3) blocked(6)) simp
  next
    case (received e)
    let ?ep = "dequeued (ic_endpoints w ! e)"
    have alloc: "ep_allocated (ic_endpoints w ! e)" by (rule resolve_cases [OF t refl received(1)])
    have "0 < table_refs (pc_handles p) e" by (rule resolve_cases [OF t refl received(1)])
    then have pos: "0 < R e" using le [of e] by simp
    note e = ipc_okD(7) [OF ok pos]
    note fine = ipc_okD(4) [OF ok e]
    have "endpoint_fine P ?ep" using fine dequeued_ring [OF _ alloc received(2)] by (simp add: endpoint_fine_def)
    then show ?thesis
      using put_wake_ok [OF ok e pos, of "Senders e" ?ep] alloc ipc_okD(5) [OF ok e] received(5)
        shrinks_put [of ?ep w e] by (simp add: Let_def)
  qed
  then show "ipc_ok P R w'" and "ic_services w' = ic_services w" and "shrinks w w'" by blast+
qed

section \<open>Services\<close>

lemma service_refs_update:
  assumes "i < length ss"
  shows "service_refs (ss[i := s]) e + (if sv_endpoint (ss ! i) = Some e then 1 else 0) = service_refs ss e + (if sv_endpoint s = Some e then 1 else 0)"
  using sum_list_update_nat [OF assms, of "\<lambda>s. if sv_endpoint s = Some e then 1 else 0" s] by (simp add: service_refs_def)

lemma put_service_simps [simp]:
  "ic_endpoints (put_service i s w) = ic_endpoints w" "ic_services (put_service i s w) = (ic_services w)[i - 1 := s]"
  "ic_panic (put_service i s w) = ic_panic w" "ic_ready (put_service i s w) = ic_ready w" "ic_scheduler (put_service i s w) = ic_scheduler w"
  by (simp_all add: put_service_def)

lemma put_service_ok [simp]: "ipc_ok P R (put_service i s w) = ipc_ok P R w"
  by (simp add: ipc_ok_def queues_ok_def)

lemma revoke_ok:
  assumes ok: "ipc_ok P R w" and pos: "0 < R e"
  shows "ipc_ok P R (put_endpoint e ((ic_endpoints w ! e)\<lparr>ep_revoked := True\<rparr>) w)"
proof -
  have e: "e < IOS_IPC_MAX_ENDPOINTS" using ipc_okD(7) [OF ok pos] .
  note d = ipc_okD(4-6) [OF ok e]
  obtain Q where Q: "queues_ok w Q" using ipc_okD(8) [OF ok] by blast
  let ?ep = "(ic_endpoints w ! e)\<lparr>ep_revoked := True\<rparr>"
  have "endpoint_fine P ?ep" "ep_allocated ?ep" using d pos by (simp_all add: endpoint_fine_def endpoint_ok_def)
  then show ?thesis using put_endpoint_ok [OF ok e _ _ _ Q, of ?ep "R e"] d pos by simp
qed

text \<open>Giving up the reference of a service revokes its endpoint.\<close>

lemma revoke_release_ok:
  assumes ok: "ipc_ok P R w" and pos: "0 < R e"
  defines "w' \<equiv> endpoint_release e (put_endpoint e ((ic_endpoints w ! e)\<lparr>ep_revoked := True\<rparr>) w)"
  shows "ipc_ok P (R(e := R e - 1)) w'" and "ic_services w' = ic_services w"
  using release_ok [OF revoke_ok [OF ok pos] pos] by (simp_all add: w'_def)

lemma service_ref_pos:
  assumes "i < length ss" and "sv_endpoint (ss ! i) = Some e"
  shows "0 < service_refs ss e"
  using service_refs_update [OF assms(1), of zero_service e] assms(2) by (simp add: zero_service_def)

lemma service_index: "service_is_valid s \<Longrightarrow> length ss = IOS_IPC_MAX_SERVICES \<Longrightarrow> s - 1 < length ss"
  unfolding service_is_valid_def by linarith

section \<open>The contract of a call\<close>

text \<open>
  All references there are, seen from one process: those of its handle table, those of the services
  and \<open>C\<close>, the rest. A call that a process makes keeps the process's table well formed and the counts
  exact, whatever the rest is.
\<close>

definition refs :: "(nat \<Rightarrow> nat) \<Rightarrow> 'p ipc_process \<Rightarrow> 'p ipc \<Rightarrow> nat \<Rightarrow> nat" where
  "refs C p w = (\<lambda>e. C e + service_refs (ic_services w) e + table_refs (pc_handles p) e)"

lemma insert_endpoint:
  assumes ok: "handles_ok t"
    and ins: "handle_table_insert t (Some e) IOS_OBJECT_IPC_ENDPOINT rights (Some endpoint_retain) (Some endpoint_release) = (t', r)"
  obtains (full) err where "r = Inl err" and "t' = t"
  | (entered) h where "r = Inr h" and "handles_ok t'" and "table_refs t' = (table_refs t)(e := table_refs t e + 1)"
proof -
  let ?en = "(ht_entries t ! 0)\<lparr>he_object := Some e, he_kind := IOS_OBJECT_IPC_ENDPOINT, he_retain := Some endpoint_retain,
    he_release := Some endpoint_release\<rparr>"
  have en: "entry_ok ?en" by (simp add: entry_ok_def)
  have ref: "entry_ref ?en x = (if x = e then 1 else 0)" for x by (simp add: entry_ref_def)
  have ins': "handle_table_insert t (he_object ?en) (he_kind ?en) rights (he_retain ?en) (he_release ?en) = (t', r)" using ins by simp
  show thesis
  proof (cases rule: insert_refs [OF ok ins' en])
    case (1 err)
    then show thesis by (rule full)
  next
    case (2 h)
    have "table_refs t' = (table_refs t)(e := table_refs t e + 1)" using 2(3) ref by (intro ext) simp
    then show thesis by (rule entered [OF 2(1,2)])
  qed
qed

lemma create_keeps:
  assumes t: "handles_ok (pc_handles p)" and ok: "ipc_ok P (refs C p w) w" and run: "ipc_endpoint_create p depth w = (p', w', r)"
  shows "handles_ok (pc_handles p') \<and> ipc_ok P (refs C p' w') w'"
proof (cases "\<not> ic_ready w \<or> pc_process_id p = 0 \<or> depth = 0 \<or> depth > IOS_IPC_MAX_QUEUE_DEPTH
    \<or> find_index (\<lambda>endpoint. \<not> ep_allocated endpoint) (ic_endpoints w) = None")
  case True
  then have "p' = p" "w' = w" using run by (auto simp: ipc_endpoint_create_def split: if_splits)
  then show ?thesis using t ok by simp
next
  case False
  then obtain e where e: "find_index (\<lambda>endpoint. \<not> ep_allocated endpoint) (ic_endpoints w) = Some e"
    and depth: "0 < depth" "depth \<le> IOS_IPC_MAX_QUEUE_DEPTH" by auto
  let ?ep = "zero_endpoint\<lparr>ep_allocated := True, ep_capacity := depth, ep_reference_count := 1,
     ep_owner_process_id := pc_process_id p, ep_owner_application_identity := pc_application_identity p\<rparr>"
  have lt: "e < IOS_IPC_MAX_ENDPOINTS" and free: "\<not> ep_allocated (ic_endpoints w ! e)"
    using find_index_SomeD [OF e] ipc_okD(2) [OF ok] by simp_all
  have zero: "refs C p w e = 0" using ipc_okD(6) [OF ok lt] free by simp
  obtain Q where Q: "queues_ok w Q" using ipc_okD(8) [OF ok] by blast
  have Qe: "sched_rep (ic_scheduler w) Q" "Q (Receivers e) = []" "Q (Senders e) = []" using Q free lt by (auto simp: queues_ok_def)
  let ?w = "put_endpoint e ?ep (clear_endpoint e w)"
  have w1: "?w = put_endpoint e ?ep w" unfolding clear_idle [OF Qe] by (simp add: put_endpoint_def)
  have w2: "clear_endpoint e ?w = put_endpoint e zero_endpoint w"
    unfolding w1 using clear_idle [of "put_endpoint e ?ep w" Q e] Qe by (simp add: put_endpoint_def)
  obtain t' r' where ins: "handle_table_insert (pc_handles p) (Some e) IOS_OBJECT_IPC_ENDPOINT
      (IOS_RIGHT_WAIT OR IOS_RIGHT_SIGNAL OR IOS_RIGHT_DUPLICATE OR IOS_RIGHT_TRANSFER OR IOS_RIGHT_ADMINISTER)
      (Some endpoint_retain) (Some endpoint_release) = (t', r')" by fastforce
  have res: "(p', w', r) = (case (t', r') of (handles, Inl e') \<Rightarrow> (p\<lparr>pc_handles := handles\<rparr>, clear_endpoint e ?w, Inl e')
      | (handles, Inr handle) \<Rightarrow> (p\<lparr>pc_handles := handles\<rparr>, ?w, Inr handle))"
    using run e ins False unfolding ipc_endpoint_create_def Let_def by (simp split: if_splits)
  show ?thesis
  proof (cases rule: insert_endpoint [OF t ins])
    case (1 err)
    have "ipc_ok P ((refs C p w)(e := 0)) (put_endpoint e zero_endpoint w)"
      using Qe by (intro put_endpoint_ok [OF ok lt _ _ _ Q]) simp_all
    then show ?thesis using res t zero unfolding w2 by (simp add: 1 refs_def fun_upd_idem)
  next
    case (2 h)
    have "ipc_ok P ((refs C p w)(e := 1)) (put_endpoint e ?ep w)"
      using depth by (intro put_endpoint_ok [OF ok lt _ _ _ Q]) simp_all
    moreover have "refs C (p\<lparr>pc_handles := t'\<rparr>) (put_endpoint e ?ep w) = (refs C p w)(e := 1)"
      using zero by (intro ext) (simp add: refs_def 2(3))
    ultimately show ?thesis using res t unfolding w1 by (simp add: 2(1,2))
  qed
qed

lemma trust_cases:
  assumes "ipc_trust_service s a w = (w', r)"
  obtains (refused) err where "r = Inl err" "w' = w"
  | (trusted) "r = Inr ()" "ic_ready w" "service_is_valid s" "a \<noteq> 0"
      "sv_trusted_application_identity (ic_services w ! (s - 1)) \<in> {0, a}"
      "w' = put_service s ((ic_services w ! (s - 1))\<lparr>sv_trusted_application_identity := a\<rparr>) w"
  using assms unfolding ipc_trust_service_def Let_def by (auto split: if_splits)

lemma trust_keeps:
  assumes ok: "ipc_ok P (refs C p w) w" and run: "ipc_trust_service s a w = (w', r)"
  shows "ipc_ok P (refs C p w') w'"
  using run
proof (cases rule: trust_cases)
  case trusted
  have "refs C p w' = refs C p w"
  proof
    fix x
    show "refs C p w' x = refs C p w x"
      using service_refs_update [OF service_index [OF trusted(3) ipc_okD(3) [OF ok]],
          of "(ic_services w ! (s - 1))\<lparr>sv_trusted_application_identity := a\<rparr>" x] by (simp add: refs_def trusted(6))
  qed
  then show ?thesis using ok by (simp add: trusted(6))
qed (use ok in simp)

lemma register_cases:
  assumes "ipc_service_register p s h w = (w', r)"
  obtains (refused) err where "r = Inl err" "w' = w"
  | (registered) e where "r = Inr ()" "service_is_valid s"
      "sv_trusted_application_identity (ic_services w ! (s - 1)) = pc_application_identity p" "pc_application_identity p \<noteq> 0"
      "resolve_endpoint p h (IOS_RIGHT_ADMINISTER OR IOS_RIGHT_WAIT) w = Inr e"
      "ep_owner_process_id (ic_endpoints w ! e) = pc_process_id p" "sv_endpoint (ic_services w ! (s - 1)) \<noteq> Some e"
      "w' = put_service s ((ic_services w ! (s - 1))\<lparr>sv_endpoint := Some e, sv_provider_process_id := pc_process_id p,
         sv_generation := next_service_generation (sv_generation (ic_services w ! (s - 1)))\<rparr>)
         (let w1 = endpoint_retain e w in case sv_endpoint (ic_services w ! (s - 1)) of
            None \<Rightarrow> w1
          | Some old \<Rightarrow> endpoint_release old (put_endpoint old ((ic_endpoints w1 ! old)\<lparr>ep_revoked := True\<rparr>) w1))"
proof (cases "\<not> ic_ready w \<or> \<not> service_is_valid s \<or> sv_trusted_application_identity (ic_services w ! (s - 1)) = 0
    \<or> sv_trusted_application_identity (ic_services w ! (s - 1)) \<noteq> pc_application_identity p")
  case True
  then show thesis using assms refused unfolding ipc_service_register_def Let_def by (auto split: if_splits)
next
  case valid: False
  show thesis
  proof (cases "resolve_endpoint p h (IOS_RIGHT_ADMINISTER OR IOS_RIGHT_WAIT) w")
    case (Inl err)
    then show thesis using assms valid refused unfolding ipc_service_register_def Let_def by (auto split: if_splits)
  next
    case (Inr e)
    show thesis
    proof (cases "ep_owner_process_id (ic_endpoints w ! e) \<noteq> pc_process_id p \<or> sv_endpoint (ic_services w ! (s - 1)) = Some e")
      case True
      then show thesis using assms valid Inr refused unfolding ipc_service_register_def Let_def by (auto split: if_splits)
    next
      case False
      show thesis by (rule registered [OF _ _ _ _ Inr]) (use assms valid Inr False in \<open>auto simp: ipc_service_register_def Let_def\<close>)
    qed
  qed
qed

lemma register_keeps:
  assumes t: "handles_ok (pc_handles p)" and ok: "ipc_ok P (refs C p w) w" and max: "\<And>e. refs C p w e < UINT32_MAX"
    and run: "ipc_service_register p s h w = (w', r)"
  shows "ipc_ok P (refs C p w') w'"
  using run
proof (cases rule: register_cases)
  case (registered e)
  let ?s = "ic_services w ! (s - 1)"
  have i: "s - 1 < length (ic_services w)" using service_index [OF registered(2) ipc_okD(3) [OF ok]] .
  have "0 < table_refs (pc_handles p) e" by (rule resolve_cases [OF t refl registered(5)])
  then have pos: "0 < refs C p w e" by (simp add: refs_def)
  note ret = retain_ok [OF ok pos max]
  show ?thesis
  proof (cases "sv_endpoint ?s")
    case None
    have "refs C p w' x = ((refs C p w)(e := refs C p w e + 1)) x" for x
      using service_refs_update [OF i, of "?s\<lparr>sv_endpoint := Some e, sv_provider_process_id := pc_process_id p,
         sv_generation := next_service_generation (sv_generation ?s)\<rparr>" x] None
      by (auto simp: refs_def registered(8) ret(2) split: if_splits)
    then have "refs C p w' = (refs C p w)(e := refs C p w e + 1)" by blast
    then show ?thesis using ret(1) None by (simp add: registered(8))
  next
    case (Some old)
    have ne: "old \<noteq> e" using registered(7) Some by simp
    have old: "0 < service_refs (ic_services w) old" using service_ref_pos [OF i Some] .
    let ?R = "(refs C p w)(e := refs C p w e + 1)"
    have "0 < ?R old" using old by (simp add: refs_def)
    note rel = revoke_release_ok [OF ret(1) this]
    have "refs C p w' x = (?R(old := ?R old - 1)) x" for x
      using service_refs_update [OF i, of "?s\<lparr>sv_endpoint := Some e, sv_provider_process_id := pc_process_id p,
         sv_generation := next_service_generation (sv_generation ?s)\<rparr>" x] Some ne
      by (auto simp: refs_def registered(8) Let_def rel(2) ret(2) split: if_splits)
    then have "refs C p w' = ?R(old := ?R old - 1)" by blast
    moreover have "ipc_ok P (?R(old := ?R old - 1)) w'"
      using rel(1) unfolding registered(8) Let_def Some by (simp only: put_service_ok option.case)
    ultimately show ?thesis by (simp only:)
  qed
qed (use ok in simp)

lemma unregister_cases:
  assumes "ipc_service_unregister p s w = (w', r)"
  obtains (refused) err where "r = Inl err" "w' = w"
  | (removed) e where "r = Inr ()" "service_is_valid s" "sv_endpoint (ic_services w ! (s - 1)) = Some e"
      "sv_provider_process_id (ic_services w ! (s - 1)) = pc_process_id p"
      "sv_trusted_application_identity (ic_services w ! (s - 1)) = pc_application_identity p"
      "w' = put_service s ((ic_services w ! (s - 1))\<lparr>sv_endpoint := None, sv_provider_process_id := 0,
         sv_generation := next_service_generation (sv_generation (ic_services w ! (s - 1)))\<rparr>)
         (endpoint_release e (put_endpoint e ((ic_endpoints w ! e)\<lparr>ep_revoked := True\<rparr>) w))"
proof (cases "\<not> ic_ready w \<or> \<not> service_is_valid s \<or> sv_endpoint (ic_services w ! (s - 1)) = None
    \<or> sv_provider_process_id (ic_services w ! (s - 1)) \<noteq> pc_process_id p
    \<or> sv_trusted_application_identity (ic_services w ! (s - 1)) \<noteq> pc_application_identity p")
  case True
  then show thesis using assms refused unfolding ipc_service_unregister_def Let_def by (auto split: if_splits option.splits)
next
  case False
  then obtain e where e: "sv_endpoint (ic_services w ! (s - 1)) = Some e" by (metis option.exhaust)
  show thesis by (rule removed [OF _ _ e]) (use assms e False in \<open>auto simp: ipc_service_unregister_def Let_def\<close>)
qed

lemma unregister_keeps:
  assumes ok: "ipc_ok P (refs C p w) w" and run: "ipc_service_unregister p s w = (w', r)"
  shows "ipc_ok P (refs C p w') w'"
  using run
proof (cases rule: unregister_cases)
  case (removed e)
  have i: "s - 1 < length (ic_services w)" using service_index [OF removed(2) ipc_okD(3) [OF ok]] .
  have "0 < refs C p w e" using service_ref_pos [OF i removed(3)] by (simp add: refs_def)
  note rel = revoke_release_ok [OF ok this]
  have "refs C p w' x = ((refs C p w)(e := refs C p w e - 1)) x" for x
    using service_refs_update [OF i, of "(ic_services w ! (s - 1))\<lparr>sv_endpoint := None, sv_provider_process_id := 0,
         sv_generation := next_service_generation (sv_generation (ic_services w ! (s - 1)))\<rparr>" x] removed(3)
    by (auto simp: refs_def removed(6) rel(2) split: if_splits)
  then have "refs C p w' = (refs C p w)(e := refs C p w e - 1)" by blast
  then show ?thesis using rel(1) by (simp add: removed(6))
qed (use ok in simp)

lemma connect_cases:
  assumes "ipc_service_connect p s w = (p', w', r)"
  obtains (refused) err where "r = Inl err" "p' = p" "w' = w"
  | (tried) e t r' where "service_is_valid s" "sv_endpoint (ic_services w ! (s - 1)) = Some e" "\<not> ep_revoked (ic_endpoints w ! e)"
      "handle_table_insert (pc_handles p) (Some e) IOS_OBJECT_IPC_ENDPOINT (IOS_RIGHT_SIGNAL OR IOS_RIGHT_DUPLICATE OR IOS_RIGHT_TRANSFER)
         (Some endpoint_retain) (Some endpoint_release) = (t, r')"
      "p' = p\<lparr>pc_handles := t\<rparr>" "r = r'"
      "w' = (case r' of Inl _ \<Rightarrow> endpoint_release e (endpoint_retain e w) | Inr _ \<Rightarrow> endpoint_retain e w)"
proof (cases "\<not> ic_ready w \<or> \<not> service_is_valid s \<or> sv_endpoint (ic_services w ! (s - 1)) = None
    \<or> ep_revoked (ic_endpoints w ! the (sv_endpoint (ic_services w ! (s - 1))))")
  case True
  then show thesis using assms refused unfolding ipc_service_connect_def Let_def by (auto split: if_splits option.splits)
next
  case False
  then obtain e where e: "sv_endpoint (ic_services w ! (s - 1)) = Some e" by (metis option.exhaust)
  obtain t r' where ins: "handle_table_insert (pc_handles p) (Some e) IOS_OBJECT_IPC_ENDPOINT
      (IOS_RIGHT_SIGNAL OR IOS_RIGHT_DUPLICATE OR IOS_RIGHT_TRANSFER) (Some endpoint_retain) (Some endpoint_release) = (t, r')" by fastforce
  have "(p', w', r) = (p\<lparr>pc_handles := t\<rparr>, case r' of Inl _ \<Rightarrow> endpoint_release e (endpoint_retain e w) | Inr _ \<Rightarrow> endpoint_retain e w, r')"
    using assms False e ins unfolding ipc_service_connect_def Let_def by (cases r') auto
  then show thesis using False e by (intro tried [OF _ e _ ins]) simp_all
qed

lemma connect_keeps:
  assumes t: "handles_ok (pc_handles p)" and ok: "ipc_ok P (refs C p w) w" and max: "\<And>e. refs C p w e < UINT32_MAX"
    and run: "ipc_service_connect p s w = (p', w', r)"
  shows "handles_ok (pc_handles p') \<and> ipc_ok P (refs C p' w') w'"
  using run
proof (cases rule: connect_cases)
  case (tried e t' r')
  have i: "s - 1 < length (ic_services w)" using service_index [OF tried(1) ipc_okD(3) [OF ok]] .
  have pos: "0 < refs C p w e" using service_ref_pos [OF i tried(2)] by (simp add: refs_def)
  note ret = retain_ok [OF ok pos max]
  show ?thesis
  proof (cases rule: insert_endpoint [OF t tried(4)])
    case (1 err)
    have "0 < ((refs C p w)(e := refs C p w e + 1)) e" by simp
    note rel = release_ok [OF ret(1) this]
    have w': "w' = endpoint_release e (endpoint_retain e w)" and p': "pc_handles p' = pc_handles p" using tried(5,7) 1 by simp_all
    have "refs C p' w' = refs C p w" by (simp add: refs_def w' p' rel(2) ret(2))
    moreover have "((refs C p w)(e := refs C p w e + 1))(e := ((refs C p w)(e := refs C p w e + 1)) e - 1) = refs C p w"
      by (intro ext) simp
    ultimately show ?thesis using rel(1) t by (simp only: w' p')
  next
    case (2 h)
    have w': "w' = endpoint_retain e w" and p': "pc_handles p' = t'" using tried(5,7) 2 by simp_all
    have "refs C p' w' = (refs C p w)(e := refs C p w e + 1)" by (intro ext) (simp add: refs_def w' p' ret(2) 2(3))
    then show ?thesis using ret(1) 2(2) by (simp add: w' p')
  qed
qed (use t ok in simp)

lemma connect_world:
  assumes ok: "ipc_ok P (refs C p w) w" and max: "\<And>e. refs C p w e < UINT32_MAX" and run: "ipc_service_connect p s w = (p', w', r)"
  shows "ic_services w' = ic_services w" and "shrinks w w'"
proof -
  have "ic_services w' = ic_services w \<and> shrinks w w'"
    using run
  proof (cases rule: connect_cases)
    case (tried e t' r')
    have "0 < refs C p w e"
      using service_ref_pos [OF service_index [OF tried(1) ipc_okD(3) [OF ok]] tried(2)] by (simp add: refs_def)
    note ret = retain_ok [OF ok this max]
    have "0 < ((refs C p w)(e := refs C p w e + 1)) e" by simp
    note rel = release_ok(2) [OF ret(1) this]
    have "shrinks w (endpoint_release e (endpoint_retain e w))" by (rule shrinks_trans [OF retain_shrinks release_shrinks])
    then show ?thesis using ret(2) rel retain_shrinks [of w e] tried(7) by (simp split: sum.split)
  qed simp
  then show "ic_services w' = ic_services w" and "shrinks w w'" by blast+
qed

section \<open>A system of processes\<close>

text \<open>The calls one process makes, and what it changes: the process's handles and the shared state.\<close>

datatype ipc_request =
    Endpoint_Create nat
  | Send ios_handle u64 u32 u32 nat "bytes option" nat bool
  | Receive ios_handle bool
  | Trust nat u64
  | Register nat ios_handle
  | Connect nat
  | Unregister nat
  | Duplicate ios_handle u64
  | Close ios_handle
  | Close_All

fun perform :: "ipc_request \<Rightarrow> 'p ipc_process \<Rightarrow> 'p ipc \<Rightarrow> 'p ipc_process \<times> 'p ipc" where
  "perform (Endpoint_Create depth) p w = (case ipc_endpoint_create p depth w of (p, w, _) \<Rightarrow> (p, w))"
| "perform (Send h request_id operation flags items payload n block) p w =
     (p, fst (ipc_send p h request_id operation flags items payload n block w))"
| "perform (Receive h block) p w = (p, fst (ipc_receive p h block w))"
| "perform (Trust service identity) p w = (p, fst (ipc_trust_service service identity w))"
| "perform (Register service h) p w = (p, fst (ipc_service_register p service h w))"
| "perform (Connect service) p w = (case ipc_service_connect p service w of (p, w, _) \<Rightarrow> (p, w))"
| "perform (Unregister service) p w = (p, fst (ipc_service_unregister p service w))"
| "perform (Duplicate h rights) p w = (case handle_table_duplicate (pc_handles p) h rights w of (t, w, _) \<Rightarrow> (p\<lparr>pc_handles := t\<rparr>, w))"
| "perform (Close h) p w = (case handle_table_close (pc_handles p) h w of (t, w, _) \<Rightarrow> (p\<lparr>pc_handles := t\<rparr>, w))"
| "perform Close_All p w = (case handle_table_close_all (pc_handles p) w of (t, w) \<Rightarrow> (p\<lparr>pc_handles := t\<rparr>, w))"

inductive ipc_step :: "nat \<Rightarrow> (nat \<Rightarrow> 'p ipc_process) \<times> 'p ipc \<Rightarrow> (nat \<Rightarrow> 'p ipc_process) \<times> 'p ipc \<Rightarrow> bool" for n where
  step_request: "k < n \<Longrightarrow> perform r (ps k) w = (p', w') \<Longrightarrow> ipc_step n (ps, w) (ps(k := p'), w')"
| step_transfer: "a < n \<Longrightarrow> b < n \<Longrightarrow> handle_table_transfer (\<lambda>k. pc_handles (ps k)) a b h rights closing w = (s', w', r)
    \<Longrightarrow> ipc_step n (ps, w) (\<lambda>k. (ps k)\<lparr>pc_handles := s' k\<rparr>, w')"

definition total_refs :: "nat \<Rightarrow> (nat \<Rightarrow> (nat, 'p ipc) ios_handle_table) \<Rightarrow> 'p ipc \<Rightarrow> nat \<Rightarrow> nat" where
  "total_refs n s w = (\<lambda>e. service_refs (ic_services w) e + (\<Sum>k < n. table_refs (s k) e))"

definition identities :: "nat \<Rightarrow> (nat \<Rightarrow> 'p ipc_process) \<Rightarrow> (u64 \<times> u64) set" where
  "identities n ps = (\<lambda>k. (pc_process_id (ps k), pc_application_identity (ps k))) ` {..<n}"

text \<open>A service that has an endpoint is provided by a process that has the identity trusted with it.\<close>

definition service_ok :: "(u64 \<times> u64) set \<Rightarrow> ios_ipc_endpoint list \<Rightarrow> trusted_service_entry \<Rightarrow> bool" where
  "service_ok P eps s \<longleftrightarrow> (case sv_endpoint s of None \<Rightarrow> True | Some e \<Rightarrow>
     sv_trusted_application_identity s \<noteq> 0 \<and> (sv_provider_process_id s, sv_trusted_application_identity s) \<in> P
     \<and> ep_owner_process_id (eps ! e) = sv_provider_process_id s)"

definition services_ok :: "(u64 \<times> u64) set \<Rightarrow> 'p ipc \<Rightarrow> bool" where
  "services_ok P w \<longleftrightarrow> (\<forall>s \<in> set (ic_services w). service_ok P (ic_endpoints w) s)"

definition system_ok :: "(u64 \<times> u64) set \<Rightarrow> nat \<Rightarrow> (nat \<Rightarrow> 'p ipc_process) \<times> 'p ipc \<Rightarrow> bool" where
  "system_ok P n = (\<lambda>(ps, w). identities n ps \<subseteq> P \<and> (\<forall>k < n. handles_ok (pc_handles (ps k)))
     \<and> ipc_ok P (total_refs n (\<lambda>k. pc_handles (ps k)) w) w \<and> services_ok P w)"

text \<open>The state after the kernel has initialised the scheduler, the module and the handle tables.\<close>

definition booted :: "nat \<Rightarrow> (nat \<Rightarrow> 'p ipc_process) \<times> 'p ipc \<Rightarrow> bool" where
  "booted n = (\<lambda>(ps, w). (\<exists>w0 s0. \<not> ic_panic w0 \<and> ic_scheduler w0 = scheduler_initialize s0
        \<and> (\<forall>q. sc_queues s0 q = wait_queue_initialize) \<and> w = ipc_initialize w0)
     \<and> (\<forall>k < n. handle_table_initialize (pc_process_id (ps k)) = Inr (pc_handles (ps k))))"

lemma service_refs_le: "service_refs ss e \<le> length ss"
  by (induction ss) (simp_all add: service_refs_def)

lemma table_refs_le: "table_refs t e \<le> length (ht_entries t)"
proof -
  have "(\<Sum>en \<leftarrow> ens. entry_ref en e) \<le> length ens" for ens :: "(nat, 'a ipc) ios_handle_entry list"
    by (induction ens) (auto simp: entry_ref_def)
  then show ?thesis by (simp add: table_refs_def)
qed

text \<open>There are too few handles and services for a reference count to overflow.\<close>

lemma total_refs_less:
  assumes "\<And>k. k < n \<Longrightarrow> handles_ok (s k)" and "n \<le> IOS_SCHEDULER_MAX_TASKS" and "length (ic_services w) = IOS_IPC_MAX_SERVICES"
  shows "total_refs n s w e < UINT32_MAX"
proof -
  have "table_refs (s k) e \<le> 256" if "k < n" for k using table_refs_le [of "s k" e] handles_okD(2) [OF assms(1) [OF that]] by simp
  then have "(\<Sum>k < n. table_refs (s k) e) \<le> (\<Sum>k < n. 256)" by (intro sum_mono) simp
  also have "\<dots> \<le> 16384" using assms(2) by simp
  finally show ?thesis using service_refs_le [of "ic_services w" e] assms(3) by (simp add: total_refs_def)
qed

lemma total_refs_at:
  assumes "k < n"
  shows "total_refs n (\<lambda>k. pc_handles (ps k)) w = refs (\<lambda>e. \<Sum>j \<in> {..<n} - {k}. table_refs (pc_handles (ps j)) e) (ps k) w"
  using assms by (intro ext) (simp add: total_refs_def refs_def sum.remove [of "{..<n}" k])

lemma total_refs_update:
  assumes "k < n"
  shows "total_refs n (s(k := t)) w e + table_refs (s k) e = total_refs n s w e + table_refs t e"
proof -
  have "(\<Sum>j \<in> {..<n} - {k}. table_refs ((s(k := t)) j) e) = (\<Sum>j \<in> {..<n} - {k}. table_refs (s j) e)" by (intro sum.cong) simp_all
  then show ?thesis using assms by (simp add: total_refs_def sum.remove [of "{..<n}" k])
qed

text \<open>The contract of a call, and what follows from it for the whole system.\<close>

locale ipc_call =
  fixes call :: "'p ipc_process \<Rightarrow> 'p ipc \<Rightarrow> 'p ipc_process \<times> 'p ipc"
  assumes identity: "call p w = (p', w') \<Longrightarrow> pc_process_id p' = pc_process_id p \<and> pc_application_identity p' = pc_application_identity p"
    and keeps: "call p w = (p', w') \<Longrightarrow> handles_ok (pc_handles p) \<Longrightarrow> ipc_ok P (refs C p w) w \<Longrightarrow> \<forall>e. refs C p w e < UINT32_MAX
      \<Longrightarrow> (pc_process_id p, pc_application_identity p) \<in> P \<Longrightarrow> handles_ok (pc_handles p') \<and> ipc_ok P (refs C p' w') w'"
    and serves: "call p w = (p', w') \<Longrightarrow> handles_ok (pc_handles p) \<Longrightarrow> ipc_ok P (refs C p w) w \<Longrightarrow> \<forall>e. refs C p w e < UINT32_MAX
      \<Longrightarrow> (pc_process_id p, pc_application_identity p) \<in> P \<Longrightarrow> services_ok P w \<Longrightarrow> services_ok P w'"
begin

lemma keeps_system:
  assumes ok: "system_ok P n (ps, w)" and k: "k < n" and n: "n \<le> IOS_SCHEDULER_MAX_TASKS" and run: "call (ps k) w = (p', w')"
  shows "system_ok P n (ps(k := p'), w')"
proof -
  let ?C = "\<lambda>e. \<Sum>j \<in> {..<n} - {k}. table_refs (pc_handles (ps j)) e"
  have t: "handles_ok (pc_handles (ps j))" if "j < n" for j using ok that by (simp add: system_ok_def)
  have ids: "identities n ps \<subseteq> P" and w: "ipc_ok P (total_refs n (\<lambda>k. pc_handles (ps k)) w) w" using ok by (simp_all add: system_ok_def)
  have here: "total_refs n (\<lambda>k. pc_handles (ps k)) w = refs ?C (ps k) w" by (rule total_refs_at [OF k])
  have there: "total_refs n (\<lambda>j. pc_handles ((ps(k := p')) j)) w' = refs ?C p' w'"
  proof -
    have "(\<Sum>j \<in> {..<n} - {k}. table_refs (pc_handles ((ps(k := p')) j)) e) = ?C e" for e by (intro sum.cong) simp_all
    then show ?thesis using total_refs_at [OF k, of "ps(k := p')" w'] by (simp only: fun_upd_same)
  qed
  have len: "length (ic_services w) = IOS_IPC_MAX_SERVICES" by (rule ipc_okD(3) [OF w])
  have max: "\<forall>e. refs ?C (ps k) w e < UINT32_MAX"
    unfolding here [symmetric] by (intro allI total_refs_less [OF _ n len] t)
  have pk: "(pc_process_id (ps k), pc_application_identity (ps k)) \<in> P" using ids k by (auto simp: identities_def)
  have "handles_ok (pc_handles p') \<and> ipc_ok P (refs ?C p' w') w'"
    by (rule keeps [OF run t [OF k] w [unfolded here] max pk])
  moreover have "services_ok P w'"
    by (rule serves [OF run t [OF k] w [unfolded here] max pk]) (use ok in \<open>simp add: system_ok_def\<close>)
  moreover have "identities n (ps(k := p')) = identities n ps" using identity [OF run] by (auto simp: identities_def)
  ultimately show ?thesis using ids t by (simp add: system_ok_def there del: fun_upd_apply) (simp add: fun_upd_apply)
qed

end

lemma refs_world: "ic_services w' = ic_services w \<Longrightarrow> refs C p w' = refs C p w"
  by (simp add: refs_def)

lemma refs_le: "table_refs (pc_handles p) e \<le> refs C p w e"
  by (simp add: refs_def)

lemma request_identity:
  assumes "perform r p w = (p', w')"
  shows "pc_process_id p' = pc_process_id p \<and> pc_application_identity p' = pc_application_identity p"
proof (cases r)
  case (Endpoint_Create d)
  then show ?thesis using assms
    by (auto simp: ipc_endpoint_create_def Let_def split: prod.splits sum.splits option.splits if_splits)
next
  case (Connect s)
  obtain x where "ipc_service_connect p s w = (p', w', x)" using assms Connect by (auto split: prod.splits)
  then show ?thesis by (cases rule: connect_cases) simp_all
qed (use assms in \<open>auto split: prod.splits\<close>)

text \<open>A call that changes the table only through the handle operations.\<close>

lemma table_call:
  assumes "ipc_ok P (refs C p w) w"
    and "\<And>C. ipc_ok P (\<lambda>e. C e + table_refs (pc_handles p) e) w \<Longrightarrow> handles_ok t \<and> ipc_ok P (\<lambda>e. C e + table_refs t e) w' \<and> ic_services w' = ic_services w \<and> shrinks w w'"
  shows "handles_ok (pc_handles (p\<lparr>pc_handles := t\<rparr>)) \<and> ipc_ok P (refs C (p\<lparr>pc_handles := t\<rparr>) w') w'"
  using assms(2) [of "\<lambda>e. C e + service_refs (ic_services w) e"] assms(1) by (simp add: refs_def)

lemma close_all_runs:
  assumes "handles_ok t" and "handle_table_close_all t w = (t', w')"
  shows "close_all_loop [0..<IOS_HANDLE_TABLE_CAPACITY] t w = (t', w')"
proof -
  have "ht_owner_tag t \<noteq> 0" using handles_okD(1) [OF assms(1)] unfolding table_ok_def by auto
  then show ?thesis using assms(2) unfolding handle_table_close_all_def by (simp only: if_False)
qed

lemma world_result: "(p, fst x) = (p', w') \<Longrightarrow> \<exists>r. x = (w', r) \<and> p' = p"
  by (cases x) simp

lemma request_keeps:
  assumes run: "perform r p w = (p', w')" and t: "handles_ok (pc_handles p)" and ok: "ipc_ok P (refs C p w) w"
    and max: "\<forall>e. refs C p w e < UINT32_MAX" and P: "(pc_process_id p, pc_application_identity p) \<in> P"
  shows "handles_ok (pc_handles p') \<and> ipc_ok P (refs C p' w') w'"
proof (cases r)
  case (Endpoint_Create d)
  obtain x where "ipc_endpoint_create p d w = (p', w', x)" using run Endpoint_Create by (auto split: prod.splits)
  then show ?thesis by (rule create_keeps [OF t ok])
next
  case (Send h a b c d e f g)
  obtain x where s: "ipc_send p h a b c d e f g w = (w', x)" "p' = p" using world_result [OF run [unfolded Send perform.simps]] by blast
  show ?thesis using send_ok [OF t ok refs_le P s(1)] t s(2) refs_world by metis
next
  case (Receive h b)
  obtain x where s: "ipc_receive p h b w = (w', x)" "p' = p" using world_result [OF run [unfolded Receive perform.simps]] by blast
  show ?thesis using receive_ok [OF t ok refs_le s(1)] t s(2) refs_world by metis
next
  case (Trust s a)
  obtain x where "ipc_trust_service s a w = (w', x)" "p' = p" using world_result [OF run [unfolded Trust perform.simps]] by blast
  then show ?thesis using trust_keeps [OF ok] t by simp
next
  case (Register s h)
  obtain x where "ipc_service_register p s h w = (w', x)" "p' = p" using world_result [OF run [unfolded Register perform.simps]] by blast
  then show ?thesis using register_keeps [OF t ok max [rule_format]] t by simp
next
  case (Connect s)
  obtain x where "ipc_service_connect p s w = (p', w', x)" using run Connect by (auto split: prod.splits)
  then show ?thesis by (rule connect_keeps [OF t ok max [rule_format]])
next
  case (Unregister s)
  obtain x where "ipc_service_unregister p s w = (w', x)" "p' = p" using world_result [OF run [unfolded Unregister perform.simps]] by blast
  then show ?thesis using unregister_keeps [OF ok] t by simp
next
  case (Duplicate h rights)
  obtain t' x where d: "handle_table_duplicate (pc_handles p) h rights w = (t', w', x)" "p' = p\<lparr>pc_handles := t'\<rparr>"
    using run Duplicate by (auto split: prod.splits)
  have "handles_ok t' \<and> ipc_ok P (\<lambda>e. C e + service_refs (ic_services w) e + table_refs t' e) w' \<and> ic_services w' = ic_services w"
    using duplicate_refs [OF t _ _ d(1), of P "\<lambda>e. C e + service_refs (ic_services w) e"] ok max by (simp add: refs_def)
  then show ?thesis by (simp add: refs_def d(2))
next
  case (Close h)
  obtain t' x where d: "handle_table_close (pc_handles p) h w = (t', w', x)" "p' = p\<lparr>pc_handles := t'\<rparr>"
    using run Close by (auto split: prod.splits)
  show ?thesis unfolding d(2) by (rule table_call [OF ok close_refs [OF t _ d(1)]])
next
  case Close_All
  obtain t' where d: "handle_table_close_all (pc_handles p) w = (t', w')" "p' = p\<lparr>pc_handles := t'\<rparr>"
    using run Close_All by (auto split: prod.splits)
  show ?thesis unfolding d(2) by (rule table_call [OF ok close_all_refs [OF t _ close_all_runs [OF t d(1)]]])
qed

text \<open>The services stay authentic, request by request.\<close>

lemma services_unchanged:
  assumes sv: "services_ok P w" and ok: "ipc_ok P R w" "ipc_ok P R' w'" and same: "ic_services w' = ic_services w"
    and R: "\<And>e. service_refs (ic_services w) e \<le> R e" "\<And>e. service_refs (ic_services w) e \<le> R' e"
    and owner: "\<And>e. ep_allocated (ic_endpoints w ! e) \<Longrightarrow> ep_allocated (ic_endpoints w' ! e)
      \<Longrightarrow> ep_owner_process_id (ic_endpoints w' ! e) = ep_owner_process_id (ic_endpoints w ! e)"
  shows "services_ok P w'"
  unfolding services_ok_def same
proof (intro ballI)
  fix s
  assume s: "s \<in> set (ic_services w)"
  show "service_ok P (ic_endpoints w') s"
  proof (cases "sv_endpoint s")
    case (Some e)
    have "0 < service_refs (ic_services w) e" using s Some service_ref_pos by (metis in_set_conv_nth)
    then have "0 < R e" "0 < R' e" using R [of e] by simp_all
    then have "ep_allocated (ic_endpoints w ! e)" "ep_allocated (ic_endpoints w' ! e)" using ipc_okD(6,7) ok by blast+
    then have "ep_owner_process_id (ic_endpoints w' ! e) = ep_owner_process_id (ic_endpoints w ! e)" by (rule owner)
    then show ?thesis using bspec [OF sv [unfolded services_ok_def] s] Some by (simp add: service_ok_def)
  qed (simp add: service_ok_def)
qed

lemma refs_service: "service_refs (ic_services w) e \<le> refs C p w e"
  by (simp add: refs_def)

lemma shrinks_services:
  assumes "services_ok P w" and "ipc_ok P (refs C p w) w" "ipc_ok P (refs C' p' w') w'" and "ic_services w' = ic_services w" and "shrinks w w'"
  shows "services_ok P w'"
  using assms refs_service [of w _ C p] refs_service [of w' _ C' p'] unfolding shrinks_def
  by (intro services_unchanged [OF assms(1-4)]) simp_all

lemma services_put:
  assumes "services_ok P w" and "service_ok P (ic_endpoints w) sv" and "ic_services w' = (ic_services w)[i := sv]" and "ic_endpoints w' = ic_endpoints w"
  shows "services_ok P w'"
  using assms set_update_subset_insert [of "ic_services w" i sv] by (auto simp: services_ok_def)

lemma create_owners:
  assumes "ipc_endpoint_create p depth w = (p', w', r)" and "length (ic_endpoints w) = IOS_IPC_MAX_ENDPOINTS"
  shows "ic_services w' = ic_services w"
    and "ep_allocated (ic_endpoints w ! x) \<Longrightarrow> ic_endpoints w' ! x = ic_endpoints w ! x"
proof -
  have "ic_services w' = ic_services w \<and> (ep_allocated (ic_endpoints w ! x) \<longrightarrow> ic_endpoints w' ! x = ic_endpoints w ! x)"
  proof (cases "find_index (\<lambda>endpoint. \<not> ep_allocated endpoint) (ic_endpoints w)")
    case None
    then show ?thesis using assms(1) by (auto simp: ipc_endpoint_create_def split: if_splits)
  next
    case (Some e)
    have "\<not> ep_allocated (ic_endpoints w ! e)" using find_index_SomeD(2) [OF Some] by simp
    then have ne: "x \<noteq> e" if "ep_allocated (ic_endpoints w ! x)" using that by blast
    have "w' = w \<or> (\<exists>ep s. w' = put_endpoint e ep (w\<lparr>ic_scheduler := s\<rparr>))"
      using assms(1) Some
      by (auto simp: ipc_endpoint_create_def Let_def clear_endpoint_def put_endpoint_def split: if_splits prod.splits sum.splits)
    then show ?thesis using ne by auto
  qed
  then show "ic_services w' = ic_services w"
    and "ep_allocated (ic_endpoints w ! x) \<Longrightarrow> ic_endpoints w' ! x = ic_endpoints w ! x" by blast+
qed

lemma trust_services:
  assumes sv: "services_ok P w" and len: "length (ic_services w) = IOS_IPC_MAX_SERVICES" and run: "ipc_trust_service s a w = (w', r)"
  shows "services_ok P w'"
  using run
proof (cases rule: trust_cases)
  case trusted
  let ?s = "ic_services w ! (s - 1)"
  have "?s \<in> set (ic_services w)" using service_index [OF trusted(3) len] by (rule nth_mem)
  then have "service_ok P (ic_endpoints w) ?s" using sv by (simp add: services_ok_def)
  then have "service_ok P (ic_endpoints w) (?s\<lparr>sv_trusted_application_identity := a\<rparr>)"
    using trusted(5) by (auto simp: service_ok_def split: option.splits)
  then show ?thesis by (rule services_put [OF sv]) (simp_all add: trusted(6))
qed (use sv in simp)

text \<open>The references of a service go up and down while its entry is still the old one.\<close>

lemma released_services:
  assumes sv: "services_ok P w" and ok: "ipc_ok P R w" and same: "ic_services w' = ic_services w" and sh: "shrinks w w'"
    and put: "ic_services w'' = (ic_services w')[i := x]" "ic_endpoints w'' = ic_endpoints w'" and ok'': "ipc_ok P R'' w''"
    and R: "\<And>e. service_refs (ic_services w) e \<le> R e" "\<And>e. service_refs (ic_services w'') e \<le> R'' e"
    and x: "service_ok P (ic_endpoints w) x"
  shows "services_ok P w''"
  unfolding services_ok_def
proof (intro ballI)
  fix s
  assume s: "s \<in> set (ic_services w'')"
  show "service_ok P (ic_endpoints w'') s"
  proof (cases "sv_endpoint s")
    case (Some e)
    have "0 < service_refs (ic_services w'') e" using s Some service_ref_pos by (metis in_set_conv_nth)
    then have "0 < R'' e" using R(2) [of e] by simp
    then have "ep_allocated (ic_endpoints w'' ! e)" using ipc_okD(6,7) [OF ok''] by blast
    then have "ep_owner_process_id (ic_endpoints w'' ! e) = ep_owner_process_id (ic_endpoints w ! e)"
      using sh unfolding put(2) shrinks_def by blast
    moreover have "s \<in> insert x (set (ic_services w))" using s set_update_subset_insert [of "ic_services w" i x] by (auto simp: put(1) same)
    then have "service_ok P (ic_endpoints w) s" using sv x by (auto simp: services_ok_def)
    ultimately show ?thesis using Some by (simp add: service_ok_def)
  qed (simp add: service_ok_def)
qed

lemma register_services:
  assumes sv: "services_ok P w" and t: "handles_ok (pc_handles p)" and ok: "ipc_ok P (refs C p w) w" and max: "\<And>e. refs C p w e < UINT32_MAX"
    and P: "(pc_process_id p, pc_application_identity p) \<in> P" and run: "ipc_service_register p s h w = (w', r)"
  shows "services_ok P w'"
  using run
proof (cases rule: register_cases)
  case (registered e)
  let ?s = "ic_services w ! (s - 1)"
  define w1 where "w1 = (let w1 = endpoint_retain e w in case sv_endpoint ?s of
            None \<Rightarrow> w1
          | Some old \<Rightarrow> endpoint_release old (put_endpoint old ((ic_endpoints w1 ! old)\<lparr>ep_revoked := True\<rparr>) w1))"
  have i: "s - 1 < length (ic_services w)" using service_index [OF registered(2) ipc_okD(3) [OF ok]] .
  have "0 < table_refs (pc_handles p) e" by (rule resolve_cases [OF t refl registered(5)])
  then have pos: "0 < refs C p w e" by (simp add: refs_def)
  note ret = retain_ok [OF ok pos max]
  have sh: "shrinks w w1"
    unfolding w1_def Let_def by (cases "sv_endpoint ?s") (auto intro: retain_shrinks shrinks_trans [OF retain_shrinks revoke_shrinks])
  have same: "ic_services w1 = ic_services w"
  proof (cases "sv_endpoint ?s")
    case (Some old)
    have "0 < refs C p w old" using service_ref_pos [OF i Some] by (simp add: refs_def)
    then have "0 < ((refs C p w)(e := refs C p w e + 1)) old" by simp
    then show ?thesis using revoke_release_ok(2) [OF ret(1)] ret(2) Some by (simp add: w1_def Let_def)
  qed (simp add: w1_def ret(2))
  define x where "x = ?s\<lparr>sv_endpoint := Some e, sv_provider_process_id := pc_process_id p,
         sv_generation := next_service_generation (sv_generation ?s)\<rparr>"
  have "w' = put_service s x w1" unfolding registered(8) w1_def x_def ..
  moreover have "service_ok P (ic_endpoints w) x" using P registered(3,4,6) by (simp add: service_ok_def x_def)
  ultimately show ?thesis
    using released_services [OF sv ok same sh _ _ register_keeps [OF t ok max run] refs_service refs_service, of "s - 1" x] by simp
qed (use sv in simp)

lemma unregister_services:
  assumes sv: "services_ok P w" and ok: "ipc_ok P (refs C p w) w" and run: "ipc_service_unregister p s w = (w', r)"
  shows "services_ok P w'"
  using run
proof (cases rule: unregister_cases)
  case (removed e)
  have i: "s - 1 < length (ic_services w)" using service_index [OF removed(2) ipc_okD(3) [OF ok]] .
  have "0 < refs C p w e" using service_ref_pos [OF i removed(3)] by (simp add: refs_def)
  note rel = revoke_release_ok [OF ok this]
  define x where "x = (ic_services w ! (s - 1))\<lparr>sv_endpoint := None, sv_provider_process_id := 0,
         sv_generation := next_service_generation (sv_generation (ic_services w ! (s - 1)))\<rparr>"
  have "service_ok P (ic_endpoints w) x" by (simp add: service_ok_def x_def)
  moreover have "w' = put_service s x (endpoint_release e (put_endpoint e ((ic_endpoints w ! e)\<lparr>ep_revoked := True\<rparr>) w))"
    unfolding removed(6) x_def ..
  ultimately show ?thesis
    using released_services [OF sv ok rel(2) revoke_shrinks _ _ unregister_keeps [OF ok run] refs_service refs_service, of "s - 1" x] by simp
qed (use sv in simp)

lemma request_services:
  assumes run: "perform r p w = (p', w')" and t: "handles_ok (pc_handles p)" and ok: "ipc_ok P (refs C p w) w"
    and max: "\<forall>e. refs C p w e < UINT32_MAX" and P: "(pc_process_id p, pc_application_identity p) \<in> P" and sv: "services_ok P w"
  shows "services_ok P w'"
proof -
  have ok': "ipc_ok P (refs C p' w') w'" using request_keeps [OF run t ok max P] by blast
  note unchanged = shrinks_services [OF sv ok ok']
  show ?thesis
  proof (cases r)
    case (Endpoint_Create d)
    obtain x where c: "ipc_endpoint_create p d w = (p', w', x)" using run Endpoint_Create by (auto split: prod.splits)
    note o = create_owners [OF c ipc_okD(2) [OF ok]]
    show ?thesis using refs_service [of w _ C p] refs_service [of w' _ C p'] o
      by (intro services_unchanged [OF sv ok ok' o(1)]) simp_all
  next
    case (Send h a b c d e f g)
    obtain x where s: "ipc_send p h a b c d e f g w = (w', x)" using world_result [OF run [unfolded Send perform.simps]] by blast
    show ?thesis by (rule unchanged [OF send_ok(2,3) [OF t ok refs_le P s]])
  next
    case (Receive h b)
    obtain x where s: "ipc_receive p h b w = (w', x)" using world_result [OF run [unfolded Receive perform.simps]] by blast
    show ?thesis by (rule unchanged [OF receive_ok(2,3) [OF t ok refs_le s]])
  next
    case (Trust s a)
    obtain x where "ipc_trust_service s a w = (w', x)" using world_result [OF run [unfolded Trust perform.simps]] by blast
    then show ?thesis by (rule trust_services [OF sv ipc_okD(3) [OF ok]])
  next
    case (Register s h)
    obtain x where "ipc_service_register p s h w = (w', x)" using world_result [OF run [unfolded Register perform.simps]] by blast
    then show ?thesis by (rule register_services [OF sv t ok max [rule_format] P])
  next
    case (Connect s)
    obtain x where c: "ipc_service_connect p s w = (p', w', x)" using run Connect by (auto split: prod.splits)
    show ?thesis by (rule unchanged [OF connect_world [OF ok max [rule_format] c]])
  next
    case (Unregister s)
    obtain x where "ipc_service_unregister p s w = (w', x)" using world_result [OF run [unfolded Unregister perform.simps]] by blast
    then show ?thesis by (rule unregister_services [OF sv ok])
  next
    case (Duplicate h rights)
    obtain t' x where d: "handle_table_duplicate (pc_handles p) h rights w = (t', w', x)" using run Duplicate by (auto split: prod.splits)
    have "ic_services w' = ic_services w \<and> shrinks w w'"
      using duplicate_refs [OF t _ _ d, of P "\<lambda>e. C e + service_refs (ic_services w) e"] ok max by (simp add: refs_def)
    then show ?thesis using unchanged by blast
  next
    case (Close h)
    obtain t' x where d: "handle_table_close (pc_handles p) h w = (t', w', x)" using run Close by (auto split: prod.splits)
    have "ic_services w' = ic_services w \<and> shrinks w w'"
      using close_refs [OF t _ d, of P "\<lambda>e. C e + service_refs (ic_services w) e"] ok by (simp add: refs_def)
    then show ?thesis using unchanged by blast
  next
    case Close_All
    obtain t' where d: "handle_table_close_all (pc_handles p) w = (t', w')" using run Close_All by (auto split: prod.splits)
    have "ic_services w' = ic_services w \<and> shrinks w w'"
      using close_all_refs [OF t _ close_all_runs [OF t d], of P "\<lambda>e. C e + service_refs (ic_services w) e"] ok by (simp add: refs_def)
    then show ?thesis using unchanged by blast
  qed
qed

interpretation request: ipc_call "perform r" for r
  by unfold_locales (fact request_identity, fact request_keeps, fact request_services)

text \<open>Passing a handle on: the reference moves or is shared, within one table or between two.\<close>

lemma transfer_keeps:
  assumes t: "\<And>k. k < n \<Longrightarrow> handles_ok (s k)" and ok: "ipc_ok P (total_refs n s w) w" and n: "n \<le> IOS_SCHEDULER_MAX_TASKS"
    and ab: "a < n" "b < n" and tr: "handle_table_transfer s a b h rights closing w = (s', w', r)"
  shows "(\<forall>k < n. handles_ok (s' k)) \<and> ipc_ok P (total_refs n s' w') w' \<and> ic_services w' = ic_services w \<and> shrinks w w'"
  using handles_okD(1) [OF t [OF ab(1)]]
proof (cases rule: decode_cases [where h = h])
  case bad
  then show ?thesis using tr t ok by (simp add: handle_table_transfer_def)
next
  case (good i)
  let ?en = "ht_entries (s a) ! i"
  note len = ipc_okD(3) [OF ok]
  have en: "entry_ok ?en" using handles_okD(3) [OF t [OF ab(1)] good(2,3)] .
  have sum: "table_refs (s a) e \<le> total_refs n s w e" for e using ab(1) by (simp add: total_refs_def sum.remove [of "{..<n}" a])
  have le: "entry_ref ?en e \<le> total_refs n s w e" for e
    using entry_ref_le [of i "s a" e] good(2) handles_okD(2) [OF t [OF ab(1)]] sum [of e] by simp
  note ret = entry_retain_ok [OF ok en good(3) le total_refs_less [OF t n len]]
  let ?w = "call_object (he_retain ?en) (he_object ?en) w"
  show ?thesis
  proof (cases "he_rights ?en AND IOS_RIGHT_TRANSFER = 0 \<or> rights AND NOT (he_rights ?en) \<noteq> 0 \<or> he_release ?en \<noteq> None \<and> he_retain ?en = None")
    case True
    then show ?thesis using tr t ok good(1) by (auto simp: handle_table_transfer_def Let_def split: if_splits)
  next
    case False
    obtain t1 r1 where ins: "handle_table_insert (s b) (he_object ?en) (he_kind ?en) rights (he_retain ?en) (he_release ?en) = (t1, r1)" by fastforce
    show ?thesis
    proof (cases rule: insert_refs [OF t [OF ab(2)] ins en])
      case (1 e)
      then have "s' = s" "w' = call_object (he_release ?en) (he_object ?en) ?w"
        using tr good(1) False ins by (auto simp: handle_table_transfer_def Let_def)
      then show ?thesis using entry_release_ok [OF ret(1) en good(3)] ret(2) t shrinks_trans [OF ret(3)] by (simp add: total_refs_def)
    next
      case (2 h')
      let ?s = "s(b := t1)"
      have t1: "handles_ok (?s k)" if "k < n" for k using t [OF that] 2(2) by simp
      have "(\<lambda>e. total_refs n s w e + entry_ref ?en e) = total_refs n ?s ?w"
        using total_refs_update [OF ab(2), of s t1 w] 2(3) ret(2) by (intro ext) (simp add: total_refs_def)
      then have ok1: "ipc_ok P (total_refs n ?s ?w) ?w" using ret(1) by simp
      show ?thesis
      proof (cases closing)
        case False
        then have "s' = ?s" "w' = ?w" using tr good(1) \<open>\<not> (_ \<or> _)\<close> ins 2(1) by (auto simp: handle_table_transfer_def Let_def)
        then show ?thesis using t1 ok1 ret(2,3) by simp
      next
        case True
        obtain t2 w2 x where cl: "handle_table_close (?s a) h ?w = (t2, w2, x)" by (metis prod_cases3)
        have s': "s' = ?s(a := t2)" "w' = w2" using tr good(1) False ins 2(1) True cl by (auto simp: handle_table_transfer_def Let_def)
        let ?C = "\<lambda>e. service_refs (ic_services ?w) e + (\<Sum>j \<in> {..<n} - {a}. table_refs (?s j) e)"
        have "total_refs n ?s ?w = (\<lambda>e. ?C e + table_refs (?s a) e)"
          using ab(1) by (intro ext) (simp add: total_refs_def sum.remove [of "{..<n}" a] del: fun_upd_apply)
        then have c: "handles_ok t2 \<and> ipc_ok P (\<lambda>e. ?C e + table_refs t2 e) w2 \<and> ic_services w2 = ic_services ?w \<and> shrinks ?w w2"
          using close_refs [OF t1 [OF ab(1)] _ cl, of P ?C] ok1 by simp
        have "(\<lambda>e. ?C e + table_refs t2 e) = total_refs n s' w'"
          using ab(1) c unfolding s' by (intro ext) (simp add: total_refs_def sum.remove [of "{..<n}" a])
        then show ?thesis using c t1 ret(2) shrinks_trans [OF ret(3), of w2] unfolding s' by (simp add: fun_upd_apply)
      qed
    qed
  qed
qed

lemma step_ok:
  assumes "ipc_step n x y" and "system_ok P n x" and "n \<le> IOS_SCHEDULER_MAX_TASKS"
  shows "system_ok P n y"
  using assms(1)
proof cases
  case (step_request k r ps w p' w')
  then show ?thesis using request.keeps_system [OF _ _ assms(3)] assms(2) by blast
next
  case (step_transfer a b ps h rights closing w s' w' r)
  have t: "handles_ok (pc_handles (ps k))" if "k < n" for k using assms(2) that step_transfer(1) by (simp add: system_ok_def)
  have ok: "ipc_ok P (total_refs n (\<lambda>k. pc_handles (ps k)) w) w" using assms(2) step_transfer(1) by (simp add: system_ok_def)
  note tr = transfer_keeps [OF t ok assms(3) step_transfer(3-5)]
  have sv: "services_ok P w" using assms(2) step_transfer(1) by (simp add: system_ok_def)
  have refs: "service_refs (ic_services x) e \<le> total_refs n s x e" for x s e by (simp add: total_refs_def)
  have "services_ok P w'"
    using tr refs [of w] refs [of w'] unfolding shrinks_def by (intro services_unchanged [OF sv ok, of "total_refs n s' w'" w']) simp_all
  then show ?thesis using assms(2) tr unfolding step_transfer(1,2) by (simp add: system_ok_def identities_def)
qed

lemma run_ok:
  assumes "(ipc_step n)\<^sup>*\<^sup>* x y" and "system_ok P n x" and "n \<le> IOS_SCHEDULER_MAX_TASKS"
  shows "system_ok P n y"
  using assms(1)
  by (induction rule: rtranclp_induct) (use assms(2,3) step_ok in blast)+

lemma empty_table_handles:
  assumes "handle_table_initialize pid = Inr t"
  shows "handles_ok t" and "table_refs t e = 0"
proof -
  have ok: "table_ok t" using initialize_ok [OF assms] by blast
  have "\<forall>en \<in> set (ht_entries t). \<not> used en"
    using assms by (auto simp: handle_table_initialize_def Let_def used_def split: if_splits)
  then show "handles_ok t" "table_refs t e = 0" using ok by (auto simp: handles_ok_def table_refs_def)
qed

lemma booted_ok:
  assumes "booted n (ps, w)"
  shows "system_ok (identities n ps) n (ps, w)"
proof -
  obtain w0 s0 where w0: "\<not> ic_panic w0" "ic_scheduler w0 = scheduler_initialize s0" "\<forall>q. sc_queues s0 q = wait_queue_initialize"
    "w = ipc_initialize w0" and t: "\<And>k. k < n \<Longrightarrow> handle_table_initialize (pc_process_id (ps k)) = Inr (pc_handles (ps k))"
    using assms by (auto simp: booted_def)
  have tables: "handles_ok (pc_handles (ps k)) \<and> table_refs (pc_handles (ps k)) e = 0" if "k < n" for k e
    using empty_table_handles [OF t [OF that]] by blast
  have services: "service_refs (ic_services w) e = 0" for e by (simp add: w0(4) ipc_initialize_def service_refs_def zero_service_def)
  have refs: "total_refs n (\<lambda>k. pc_handles (ps k)) w e = 0" for e using tables services by (simp add: total_refs_def)
  have rep: "sched_rep (scheduler_initialize s0) (\<lambda>_. [])" using initialize_rep w0(3) by blast
  have "sc_queues (scheduler_initialize s0) q = wait_queue_initialize" for q using empty_queue [OF rep] by simp
  then have "ic_scheduler w = ic_scheduler w0"
    unfolding w0(4) ipc_initialize_def by (simp add: w0(2) fun_eq_iff split: kernel_queue.split)
  then have "queues_ok w (\<lambda>_. [])" using rep by (simp add: queues_ok_def w0(2))
  then have "ipc_ok (identities n ps) (total_refs n (\<lambda>k. pc_handles (ps k)) w) w"
    by (rule ipc_okI [rotated -1]) (use w0(1) refs in \<open>simp_all add: w0(4) ipc_initialize_def\<close>)
  moreover have "services_ok P w" for P by (simp add: services_ok_def service_ok_def w0(4) ipc_initialize_def zero_service_def)
  ultimately show ?thesis using tables by (simp add: system_ok_def)
qed

lemma reachable_ok:
  assumes "booted n (ps0, w0)" and "n \<le> IOS_SCHEDULER_MAX_TASKS" and "(ipc_step n)\<^sup>*\<^sup>* (ps0, w0) (ps, w)"
  shows "system_ok (identities n ps0) n (ps, w)"
  by (rule run_ok [OF assms(3) booted_ok [OF assms(1)] assms(2)])

section \<open>Properties\<close>

text \<open>C10: In every state the system reaches, no assertion has failed, the reference count of an endpoint
  is the number of handles and services that name it, an endpoint is allocated exactly as long as
  there is one, and no handle of any process and no service names a slot that is not.\<close>

theorem ipc_references_exact:
  assumes "booted n (ps0, w0)" and "n \<le> IOS_SCHEDULER_MAX_TASKS" and "(ipc_step n)\<^sup>*\<^sup>* (ps0, w0) (ps, w)"
  shows "\<not> ic_panic w
    \<and> (\<forall>e < IOS_IPC_MAX_ENDPOINTS. ep_reference_count (ic_endpoints w ! e) = total_refs n (\<lambda>k. pc_handles (ps k)) w e
         \<and> (ep_allocated (ic_endpoints w ! e) \<longleftrightarrow> 0 < total_refs n (\<lambda>k. pc_handles (ps k)) w e))
    \<and> (\<forall>k < n. \<forall>h e rights. caps (pc_handles (ps k)) h = Some (e, IOS_OBJECT_IPC_ENDPOINT, rights)
         \<longrightarrow> e < IOS_IPC_MAX_ENDPOINTS \<and> ep_allocated (ic_endpoints w ! e))
    \<and> (\<forall>s \<in> set (ic_services w). \<forall>e. sv_endpoint s = Some e \<longrightarrow> e < IOS_IPC_MAX_ENDPOINTS \<and> ep_allocated (ic_endpoints w ! e))"
proof (intro conjI)
  note ok = reachable_ok [OF assms]
  have w: "ipc_ok (identities n ps0) (total_refs n (\<lambda>k. pc_handles (ps k)) w) w" using ok by (simp add: system_ok_def)
  have live: "e < IOS_IPC_MAX_ENDPOINTS \<and> ep_allocated (ic_endpoints w ! e)" if "0 < total_refs n (\<lambda>k. pc_handles (ps k)) w e" for e
    using ipc_okD(6,7) [OF w, of e] that by blast
  show "\<not> ic_panic w" by (rule ipc_okD(1) [OF w])
  show "\<forall>e < IOS_IPC_MAX_ENDPOINTS. ep_reference_count (ic_endpoints w ! e) = total_refs n (\<lambda>k. pc_handles (ps k)) w e
      \<and> (ep_allocated (ic_endpoints w ! e) \<longleftrightarrow> 0 < total_refs n (\<lambda>k. pc_handles (ps k)) w e)"
    using ipc_okD(5,6) [OF w] by blast
  show "\<forall>k < n. \<forall>h e rights. caps (pc_handles (ps k)) h = Some (e, IOS_OBJECT_IPC_ENDPOINT, rights)
         \<longrightarrow> e < IOS_IPC_MAX_ENDPOINTS \<and> ep_allocated (ic_endpoints w ! e)"
  proof (intro allI impI)
    fix k h e rights
    assume k: "k < n" and c: "caps (pc_handles (ps k)) h = Some (e, IOS_OBJECT_IPC_ENDPOINT, rights)"
    have "handles_ok (pc_handles (ps k))" using ok k by (simp add: system_ok_def)
    then have "0 < table_refs (pc_handles (ps k)) e" by (rule caps_refs [OF _ c])
    then have "0 < total_refs n (\<lambda>k. pc_handles (ps k)) w e" using k by (simp add: total_refs_at refs_def)
    then show "e < IOS_IPC_MAX_ENDPOINTS \<and> ep_allocated (ic_endpoints w ! e)" by (rule live)
  qed
  show "\<forall>s \<in> set (ic_services w). \<forall>e. sv_endpoint s = Some e \<longrightarrow> e < IOS_IPC_MAX_ENDPOINTS \<and> ep_allocated (ic_endpoints w ! e)"
  proof (intro ballI allI impI)
    fix s e
    assume "s \<in> set (ic_services w)" and "sv_endpoint s = Some e"
    then have "0 < total_refs n (\<lambda>k. pc_handles (ps k)) w e" using service_ref_pos unfolding total_refs_def by (metis in_set_conv_nth add_gr_0)
    then show "e < IOS_IPC_MAX_ENDPOINTS \<and> ep_allocated (ic_endpoints w ! e)" by (rule live)
  qed
qed


text \<open>C11: In every state the system reaches, a service that has an endpoint has been entrusted to an
  identity, the process that provides it has that identity and owns the endpoint; and what a client
  obtains by connecting is a handle on that very endpoint with which it can send, duplicate and pass
  on, but neither receive nor administer.\<close>

theorem ipc_services_authentic:
  assumes "booted n (ps0, w0)" and "n \<le> IOS_SCHEDULER_MAX_TASKS" and "(ipc_step n)\<^sup>*\<^sup>* (ps0, w0) (ps, w)" and "k < n"
    and "ipc_service_connect (ps k) s w = (p', w', Inr h)"
  shows "\<exists>e sv j. sv = ic_services w ! (s - 1) \<and> sv_endpoint sv = Some e \<and> j < n
    \<and> sv_trusted_application_identity sv = pc_application_identity (ps0 j) \<and> pc_application_identity (ps0 j) \<noteq> 0
    \<and> ep_owner_process_id (ic_endpoints w ! e) = pc_process_id (ps0 j) \<and> caps (pc_handles (ps k)) h = None
    \<and> caps (pc_handles p') = (caps (pc_handles (ps k)))(h \<mapsto> (e, IOS_OBJECT_IPC_ENDPOINT, IOS_RIGHT_SIGNAL OR IOS_RIGHT_DUPLICATE OR IOS_RIGHT_TRANSFER))"
proof -
  note ok = reachable_ok [OF assms(1-3)]
  have t: "handles_ok (pc_handles (ps k))" and sv: "services_ok (identities n ps0) w"
    and w: "ipc_ok (identities n ps0) (total_refs n (\<lambda>k. pc_handles (ps k)) w) w" using ok assms(4) by (simp_all add: system_ok_def)
  from assms(5) show ?thesis
  proof (cases rule: connect_cases)
    case (tried e t' r')
    let ?s = "ic_services w ! (s - 1)"
    have "?s \<in> set (ic_services w)" using service_index [OF tried(1) ipc_okD(3) [OF w]] by (rule nth_mem)
    then have "service_ok (identities n ps0) (ic_endpoints w) ?s" using sv by (simp add: services_ok_def)
    then obtain j where j: "j < n" "sv_trusted_application_identity ?s = pc_application_identity (ps0 j)" "pc_application_identity (ps0 j) \<noteq> 0"
      "ep_owner_process_id (ic_endpoints w ! e) = pc_process_id (ps0 j)"
      using tried(2) by (auto simp: service_ok_def identities_def)
    have "caps (pc_handles (ps k)) h = None \<and> caps t' = (caps (pc_handles (ps k)))(h \<mapsto> (e, IOS_OBJECT_IPC_ENDPOINT, IOS_RIGHT_SIGNAL OR IOS_RIGHT_DUPLICATE OR IOS_RIGHT_TRANSFER))"
      using handles_okD(1) [OF t] tried(4)
    proof (cases rule: insert_cases)
      case (enters i obj)
      then show ?thesis using tried(6) caps_None [OF handles_okD(1) [OF t] enters(1,2)] by simp
    qed (use tried(6) in simp)
    then show ?thesis using j tried(2,5) by auto
  qed simp
qed

text \<open>A send that does not block appends to the queue of the endpoint the handle names, with the
  identity of the sending process in the message, and wakes the receiver that has waited longest; a
  full queue refuses it and nothing changes. No other endpoint is touched.\<close>

theorem ipc_send_appends:
  assumes "endpoint_ok (ic_endpoints w ! e)" and "e < length (ic_endpoints w)" and "sched_rep (ic_scheduler w) Q"
    and "resolve_endpoint p h IOS_RIGHT_SIGNAL w = Inr e"
    and "request_id \<noteq> 0" and "operation \<noteq> 0" and "item_count \<le> IOS_IPC_MAX_ITEM_COUNT"
    and "payload_size \<le> IOS_IPC_MAX_PAYLOAD_SIZE" and "payload_size = 0 \<or> payload \<noteq> None"
    and "ipc_send p h request_id operation 0 item_count payload payload_size False w = (w', r)"
  shows "if length (pending (ic_endpoints w ! e)) < ep_capacity (ic_endpoints w ! e)
    then r = Inr () \<and> pending (ic_endpoints w' ! e) =
           pending (ic_endpoints w ! e) @ [built_message p request_id operation item_count payload payload_size]
         \<and> sched_rep (ic_scheduler w') (Q(Receivers e := tl (Q (Receivers e))))
         \<and> (\<forall>x. x \<noteq> e \<longrightarrow> ic_endpoints w' ! x = ic_endpoints w ! x)
    else r = Inl IOS_E_WOULD_BLOCK \<and> w' = w"
proof -
  let ?ep = "ic_endpoints w ! e"
  have alloc: "ep_allocated ?ep" using assms(4) by (auto simp: resolve_endpoint_def split: if_splits sum.splits)
  then have le: "ep_count ?ep \<le> ep_capacity ?ep" using assms(1) by (simp add: endpoint_ok_def)
  show ?thesis
  proof (cases "ep_count ?ep = ep_capacity ?ep")
    case True
    then show ?thesis using assms(4-10) by (auto simp: ipc_send_def Let_def)
  next
    case False
    let ?w = "put_endpoint e (enqueued (built_message p request_id operation item_count payload payload_size) ?ep) w"
    have "r = Inr ()" and w': "w' = ?w\<lparr>ic_scheduler := fst (wait_queue_wake_one (Receivers e) (ic_scheduler w))\<rparr>"
      using assms(4-10) False by (auto simp: ipc_send_def Let_def enqueued_def)
    then show ?thesis
      using False le enqueued_ring(2) [OF assms(1) alloc False] wake_one_tail [OF assms(3)] assms(2) by (simp add: nth_list_update)
  qed
qed

text \<open>A receive that does not block hands the owner of the endpoint the oldest message, removes it, and
  wakes the sender that has waited longest; an empty queue and a process that does not own the
  endpoint are refused and nothing changes.\<close>

theorem ipc_receive_oldest:
  assumes "endpoint_ok (ic_endpoints w ! e)" and "e < length (ic_endpoints w)" and "sched_rep (ic_scheduler w) Q"
    and "resolve_endpoint p h IOS_RIGHT_WAIT w = Inr e" and "ipc_receive p h False w = (w', r)"
  shows "if ep_owner_process_id (ic_endpoints w ! e) \<noteq> pc_process_id p then r = Inl IOS_E_ACCESS_DENIED \<and> w' = w
    else case pending (ic_endpoints w ! e) of
        [] \<Rightarrow> r = Inl IOS_E_WOULD_BLOCK \<and> w' = w
      | m # ms \<Rightarrow> r = Inr (Some m) \<and> pending (ic_endpoints w' ! e) = ms
          \<and> sched_rep (ic_scheduler w') (Q(Senders e := tl (Q (Senders e))))
          \<and> (\<forall>x. x \<noteq> e \<longrightarrow> ic_endpoints w' ! x = ic_endpoints w ! x)"
proof -
  let ?ep = "ic_endpoints w ! e"
  have alloc: "ep_allocated ?ep" using assms(4) by (auto simp: resolve_endpoint_def split: if_splits sum.splits)
  show ?thesis
  proof (cases "ep_owner_process_id ?ep \<noteq> pc_process_id p \<or> ep_count ?ep = 0")
    case True
    then show ?thesis using assms(4,5) by (auto simp: ipc_receive_def Let_def pending_def split: if_splits)
  next
    case False
    then have count: "ep_count ?ep \<noteq> 0" by blast
    let ?w = "put_endpoint e (dequeued ?ep) w"
    have "r = Inr (Some (ep_messages ?ep ! ep_head ?ep))"
      and w': "w' = ?w\<lparr>ic_scheduler := fst (wait_queue_wake_one (Senders e) (ic_scheduler w))\<rparr>"
      using assms(4,5) False by (auto simp: ipc_receive_def Let_def dequeued_def)
    then show ?thesis
      using False dequeued_ring(2) [OF assms(1) alloc count] wake_one_tail [OF assms(3)] assms(2) by (simp add: nth_list_update)
  qed
qed

text \<open>C40: A blocking send on a full queue reports success to the caller although it has stored no message:
  the task is put on the queue of waiting senders and the call, with its message, is over.\<close>

theorem ipc_blocked_send_lost:
  assumes "sched_rep (ic_scheduler w) Q" and "resolve_endpoint p h IOS_RIGHT_SIGNAL w = Inr e"
    and "ep_count (ic_endpoints w ! e) = ep_capacity (ic_endpoints w ! e)"
    and "sc_current_task (ic_scheduler w) = Some (Task t)" and "tk_state (sc_tasks (ic_scheduler w) ! t) = IOS_TASK_RUNNING"
    and "request_id \<noteq> 0" and "operation \<noteq> 0" and "item_count \<le> IOS_IPC_MAX_ITEM_COUNT"
    and "payload_size \<le> IOS_IPC_MAX_PAYLOAD_SIZE" and "payload_size = 0 \<or> payload \<noteq> None"
    and "ipc_send p h request_id operation 0 item_count payload payload_size True w = (w', r)"
  shows "r = Inr () \<and> ic_endpoints w' = ic_endpoints w \<and> sched_rep (ic_scheduler w') (Q(Senders e := Q (Senders e) @ [t]))"
proof -
  obtain s x where b: "scheduler_block_current (Senders e) (ic_scheduler w) = (s, x)" by fastforce
  have "w' = w\<lparr>ic_scheduler := s\<rparr>" "r = x" using assms(2,3,6-11) b by (auto simp: ipc_send_def Let_def)
  then show ?thesis using block_current_rep [OF assms(1,4,5) b] by simp
qed

section \<open>Witnesses\<close>

text \<open>When creating an endpoint succeeds.\<close>

lemma create_succeeds:
  assumes t: "handles_ok (pc_handles p)" and room: "\<not> list_all used (ht_entries (pc_handles p))" and ready: "ic_ready w" "pc_process_id p \<noteq> 0"
    and depth: "0 < depth" "depth \<le> IOS_IPC_MAX_QUEUE_DEPTH" and e: "find_index (\<lambda>endpoint. \<not> ep_allocated endpoint) (ic_endpoints w) = Some e"
  defines "x \<equiv> ipc_endpoint_create p depth w"
  shows "snd (snd x) = Inr (projr (snd (snd x)))" and "0x13c AND rights = rights \<Longrightarrow> rights AND NOT IOS_RIGHT_ALL = 0
      \<Longrightarrow> resolve_endpoint (fst x) (projr (snd (snd x))) rights (fst (snd x)) = Inr e"
    and "ic_endpoints (fst (snd x)) = (ic_endpoints w)[e := zero_endpoint\<lparr>ep_allocated := True, ep_capacity := depth, ep_reference_count := 1,
     ep_owner_process_id := pc_process_id p, ep_owner_application_identity := pc_application_identity p\<rparr>]"
    and "ic_ready (fst (snd x))" and "pc_process_id (fst x) = pc_process_id p"
proof -
  let ?ep = "zero_endpoint\<lparr>ep_allocated := True, ep_capacity := depth, ep_reference_count := 1,
     ep_owner_process_id := pc_process_id p, ep_owner_application_identity := pc_application_identity p\<rparr>"
  obtain t' r where ins: "handle_table_insert (pc_handles p) (Some e) IOS_OBJECT_IPC_ENDPOINT
      (IOS_RIGHT_WAIT OR IOS_RIGHT_SIGNAL OR IOS_RIGHT_DUPLICATE OR IOS_RIGHT_TRANSFER OR IOS_RIGHT_ADMINISTER)
      (Some endpoint_retain) (Some endpoint_release) = (t', r)" by fastforce
  have len: "e < length (ic_endpoints w)" using find_index_SomeD(1) [OF e] .
  from handles_okD(1) [OF t] ins
  have "x = (p\<lparr>pc_handles := t'\<rparr>, put_endpoint e ?ep (clear_endpoint e w), r) \<and> r = Inr (projr r) \<and> table_ok t'
    \<and> caps t' (projr r) = Some (e, IOS_OBJECT_IPC_ENDPOINT, 0x13c)"
  proof (cases rule: insert_cases)
    case (fails err)
    then show ?thesis using room by auto
  next
    case (enters i obj)
    then show ?thesis using ins ready depth e unfolding x_def ipc_endpoint_create_def Let_def by simp
  qed
  then have x: "x = (p\<lparr>pc_handles := t'\<rparr>, put_endpoint e ?ep (clear_endpoint e w), r)" "r = Inr (projr r)" "table_ok t'"
    and c: "caps t' (projr r) = Some (e, IOS_OBJECT_IPC_ENDPOINT, 0x13c)" by blast+
  show "snd (snd x) = Inr (projr (snd (snd x)))" using x(2) by (simp add: x(1))
  have eps: "ic_endpoints (put_endpoint e ?ep (clear_endpoint e w)) = (ic_endpoints w)[e := ?ep]" by (simp add: clear_endpoint_def)
  then show "ic_endpoints (fst (snd x)) = (ic_endpoints w)[e := ?ep]" by (simp add: x(1))
  show "ic_ready (fst (snd x))" and "pc_process_id (fst x) = pc_process_id p" using ready by (simp_all add: x(1) clear_endpoint_def)
  have "handle_table_resolve t' (projr r) IOS_OBJECT_IPC_ENDPOINT rights = Inr e"
    if rights: "0x13c AND rights = rights" "rights AND NOT IOS_RIGHT_ALL = 0"
    using x(3)
  proof (cases rule: decode_cases [where h = "projr r"])
    case (good i)
    then show ?thesis using c rights by (auto simp: handle_table_resolve_def Let_def cap_def used_def)
  qed (use c in simp)
  then show "0x13c AND rights = rights \<Longrightarrow> rights AND NOT IOS_RIGHT_ALL = 0
      \<Longrightarrow> resolve_endpoint (fst x) (projr (snd (snd x))) rights (fst (snd x)) = Inr e"
    using ready len by (simp add: x(1) resolve_endpoint_def clear_endpoint_def zero_endpoint_def)
qed

lemma resolve_same:
  assumes "resolve_endpoint p h rights w = Inr e" and "ic_ready w' = ic_ready w"
    and "ep_allocated (ic_endpoints w' ! e) = ep_allocated (ic_endpoints w ! e)" and "ep_revoked (ic_endpoints w' ! e) = ep_revoked (ic_endpoints w ! e)"
  shows "resolve_endpoint p h rights w' = Inr e"
  using assms by (auto simp: resolve_endpoint_def split: sum.splits if_splits)

text \<open>A system of two processes; the first has created an endpoint for one message.\<close>

definition demo_tasks :: "(nat, kernel_queue) scheduler" where
  "demo_tasks = \<lparr>sc_tasks = zero_task\<lparr>tk_kind := IOS_TASK_USER_PROCESS, tk_state := IOS_TASK_RUNNING, tk_process := Some 0\<rparr> # replicate 63 zero_task,
     sc_idle_task = zero_task, sc_current_task = Some (Task 0), sc_deferred_exit_task = None, sc_last_selected = replicate 5 0, sc_ticks = 0,
     sc_next_task_id = 2, sc_ready = True, sc_queues = (\<lambda>_. wait_queue_initialize), sc_processes = (\<lambda>_. demo_process), sc_active = None\<rparr>"

definition demo_start :: "nat ipc" where
  "demo_start = ipc_initialize \<lparr>ic_endpoints = [], ic_services = [], ic_ready = False, ic_scheduler = scheduler_initialize demo_tasks, ic_panic = False\<rparr>"

definition demo_client :: "u64 \<Rightarrow> nat ipc_process" where
  "demo_client i = \<lparr>pc_process_id = i, pc_application_identity = i + 2, pc_handles = projr (handle_table_initialize i)\<rparr>"

definition demo_pair :: "nat \<Rightarrow> nat ipc_process" where
  "demo_pair k = (if k = 0 then demo_client 7 else demo_client 8)"

definition demo_owner :: "nat ipc_process" where
  "demo_owner = fst (ipc_endpoint_create (demo_client 7) 1 demo_start)"

definition demo_world :: "nat ipc" where
  "demo_world = fst (snd (ipc_endpoint_create (demo_client 7) 1 demo_start))"

definition demo_handle :: ios_handle where
  "demo_handle = projr (snd (snd (ipc_endpoint_create (demo_client 7) 1 demo_start)))"

definition demo_sent :: "nat ipc" where
  "demo_sent = fst (ipc_send demo_owner demo_handle 1 2 0 0 None 0 False demo_world)"

lemma demo_client_handles:
  assumes "i \<noteq> 0"
  shows "handle_table_initialize i = Inr (pc_handles (demo_client i))" and "handles_ok (pc_handles (demo_client i))"
    and "\<not> list_all used (ht_entries (pc_handles (demo_client i)))" and "pc_process_id (demo_client i) = i"
proof -
  show i: "handle_table_initialize i = Inr (pc_handles (demo_client i))"
    using assms by (simp add: demo_client_def handle_table_initialize_def Let_def)
  show "handles_ok (pc_handles (demo_client i))" by (rule empty_table_handles(1) [OF i])
  show "\<not> list_all used (ht_entries (pc_handles (demo_client i)))"
    using assms by (simp add: demo_client_def handle_table_initialize_def Let_def list_all_iff used_def)
qed (simp add: demo_client_def)

lemma demo_booted: "booted 2 (demo_pair, demo_start)"
  unfolding booted_def demo_start_def using demo_client_handles(1) [of 7] demo_client_handles(1) [of 8]
  by (auto simp: demo_pair_def demo_client_def demo_tasks_def intro!: exI)

lemma demo_start_fields: "ic_ready demo_start" "ic_endpoints demo_start = replicate IOS_IPC_MAX_ENDPOINTS zero_endpoint"
  "find_index (\<lambda>endpoint. \<not> ep_allocated endpoint) (ic_endpoints demo_start) = Some 0"
  by (simp_all add: demo_start_def ipc_initialize_def find_index_Some)

lemmas demo_create = create_succeeds [OF demo_client_handles(2,3) [of 7] demo_start_fields(1) _ _ _ demo_start_fields(3), of 1,
    simplified demo_client_handles, folded demo_owner_def demo_world_def demo_handle_def, simplified]

lemma demo_resolves:
  "resolve_endpoint demo_owner demo_handle IOS_RIGHT_SIGNAL demo_world = Inr 0"
  "resolve_endpoint demo_owner demo_handle IOS_RIGHT_WAIT demo_world = Inr 0"
  "resolve_endpoint demo_owner demo_handle (IOS_RIGHT_ADMINISTER OR IOS_RIGHT_WAIT) demo_world = Inr 0"
  using demo_create(2) [of IOS_RIGHT_SIGNAL] demo_create(2) [of IOS_RIGHT_WAIT] demo_create(2) [of "IOS_RIGHT_ADMINISTER OR IOS_RIGHT_WAIT"] by simp_all

lemma demo_endpoint:
  "ic_endpoints demo_world ! 0 = zero_endpoint\<lparr>ep_allocated := True, ep_capacity := 1, ep_reference_count := 1,
     ep_owner_process_id := 7, ep_owner_application_identity := 9\<rparr>" "0 < length (ic_endpoints demo_world)"
  using demo_create(3) by (simp_all add: demo_start_fields(2) demo_client_def)

lemma demo_created: "(ipc_step 2)\<^sup>*\<^sup>* (demo_pair, demo_start) (demo_pair(0 := demo_owner), demo_world)"
proof -
  have "perform (Endpoint_Create 1) (demo_pair 0) demo_start = (demo_owner, demo_world)"
    by (simp add: demo_pair_def demo_owner_def demo_world_def split: prod.split)
  from step_request [where ps = demo_pair and k = 0 and n = 2, OF _ this] show ?thesis by (intro r_into_rtranclp) simp
qed

lemma demo_reached: "(ipc_step 2)\<^sup>*\<^sup>* (demo_pair, demo_start) (demo_pair(0 := demo_owner), demo_sent)"
proof -
  let ?ps = "demo_pair(0 := demo_owner)"
  have "perform (Send demo_handle 1 2 0 0 None 0 False) (?ps 0) demo_world = (demo_owner, demo_sent)" by (simp add: demo_sent_def)
  from step_request [where ps = ?ps and k = 0 and n = 2, OF _ this] have "ipc_step 2 (?ps, demo_world) (?ps(0 := demo_owner), demo_sent)" by simp
  then show ?thesis using demo_created by (simp add: rtranclp.rtrancl_into_rtrancl)
qed

lemma demo_rep: "\<exists>Q. sched_rep (ic_scheduler demo_world) Q"
  using reachable_ok [OF demo_booted _ demo_created] ipc_okD(8) by (fastforce simp: system_ok_def queues_ok_def)

lemma demo_pending: "pending (ic_endpoints demo_world ! 0) = []" "endpoint_ok (ic_endpoints demo_world ! 0)"
  by (simp_all add: demo_endpoint pending_def endpoint_ok_def zero_endpoint_def)

theorem ipc_references_exact_witness:
  "\<not> ic_panic demo_world \<and> ep_reference_count (ic_endpoints demo_world ! 0) = total_refs 2 (\<lambda>k. pc_handles ((demo_pair(0 := demo_owner)) k)) demo_world 0"
  using ipc_references_exact [OF demo_booted _ demo_created] by simp


theorem ipc_send_appends_witness: "pending (ic_endpoints demo_sent ! 0) = [built_message demo_owner 1 2 0 None 0]"
proof -
  obtain Q where Q: "sched_rep (ic_scheduler demo_world) Q" using demo_rep by blast
  obtain r where r: "ipc_send demo_owner demo_handle 1 2 0 0 None 0 False demo_world = (demo_sent, r)"
    unfolding demo_sent_def by (metis prod.collapse)
  show ?thesis
    using ipc_send_appends [OF demo_pending(2) demo_endpoint(2) Q demo_resolves(1) _ _ _ _ _ r] demo_pending(1)
    by (simp add: demo_endpoint(1))
qed

definition demo_full :: "nat ipc" where
  "demo_full = (put_endpoint 0 (enqueued zero_message (ic_endpoints demo_world ! 0)) demo_world)\<lparr>ic_scheduler := demo_tasks\<rparr>"

lemma demo_tasks_rep: "sched_rep demo_tasks (\<lambda>_. [])"
  by (auto simp: sched_rep_def queue_rep_def demo_tasks_def zero_task_def wait_queue_initialize_def nth_Cons')

lemma demo_full_endpoint:
  "0 < length (ic_endpoints demo_full)" "endpoint_ok (ic_endpoints demo_full ! 0)" "pending (ic_endpoints demo_full ! 0) = [zero_message]"
  "ep_owner_process_id (ic_endpoints demo_full ! 0) = 7" "ep_count (ic_endpoints demo_full ! 0) = ep_capacity (ic_endpoints demo_full ! 0)"
proof -
  have at: "ic_endpoints demo_full ! 0 = enqueued zero_message (ic_endpoints demo_world ! 0)" using demo_endpoint(2) by (simp add: demo_full_def)
  have "ep_allocated (ic_endpoints demo_world ! 0)" "ep_count (ic_endpoints demo_world ! 0) \<noteq> ep_capacity (ic_endpoints demo_world ! 0)"
    by (simp_all add: demo_endpoint(1) zero_endpoint_def)
  note ring = enqueued_ring [OF demo_pending(2) this, of zero_message]
  show "endpoint_ok (ic_endpoints demo_full ! 0)" "pending (ic_endpoints demo_full ! 0) = [zero_message]"
    using ring demo_pending(1) by (simp_all add: at)
  show "0 < length (ic_endpoints demo_full)" using demo_endpoint(2) by (simp add: demo_full_def)
  show "ep_owner_process_id (ic_endpoints demo_full ! 0) = 7" "ep_count (ic_endpoints demo_full ! 0) = ep_capacity (ic_endpoints demo_full ! 0)"
    by (simp_all add: at demo_endpoint(1) enqueued_def zero_endpoint_def)
qed

lemma demo_full_resolves:
  "resolve_endpoint demo_owner demo_handle IOS_RIGHT_SIGNAL demo_full = Inr 0" "resolve_endpoint demo_owner demo_handle IOS_RIGHT_WAIT demo_full = Inr 0"
  using demo_endpoint(2) by (auto intro!: resolve_same [OF demo_resolves(1)] resolve_same [OF demo_resolves(2)] simp: demo_full_def enqueued_def)

lemma demo_full_sched: "ic_scheduler demo_full = demo_tasks"
  by (simp add: demo_full_def)

theorem ipc_receive_oldest_witness: "snd (ipc_receive demo_owner demo_handle False demo_full) = Inr (Some zero_message)"
proof -
  obtain w r where r: "ipc_receive demo_owner demo_handle False demo_full = (w, r)" by fastforce
  have Q: "sched_rep (ic_scheduler demo_full) (\<lambda>_. [])" using demo_tasks_rep by (simp add: demo_full_sched)
  show ?thesis
    using ipc_receive_oldest [OF demo_full_endpoint(2,1) Q demo_full_resolves(2) r] demo_create(5)
    by (simp add: demo_full_endpoint(3,4) r)
qed

theorem ipc_blocked_send_lost_witness:
  "snd (ipc_send demo_owner demo_handle 1 2 0 0 None 0 True demo_full) = Inr ()
    \<and> ic_endpoints (fst (ipc_send demo_owner demo_handle 1 2 0 0 None 0 True demo_full)) = ic_endpoints demo_full"
proof -
  obtain w r where r: "ipc_send demo_owner demo_handle 1 2 0 0 None 0 True demo_full = (w, r)" by fastforce
  have "sched_rep (ic_scheduler demo_full) (\<lambda>_. [])" "sc_current_task (ic_scheduler demo_full) = Some (Task 0)"
    "tk_state (sc_tasks (ic_scheduler demo_full) ! 0) = IOS_TASK_RUNNING"
    using demo_tasks_rep by (simp_all add: demo_full_sched demo_tasks_def)
  from ipc_blocked_send_lost [OF this(1) demo_full_resolves(1) demo_full_endpoint(5) this(2,3) _ _ _ _ _ r] show ?thesis by (simp add: r)
qed

text \<open>The first process provides the shell service, the second connects to it.\<close>

definition demo_trusted :: "nat ipc" where
  "demo_trusted = put_service 1 (zero_service\<lparr>sv_generation := 1, sv_trusted_application_identity := 9\<rparr>) demo_world"

definition demo_served :: "nat ipc" where
  "demo_served = put_service 1 \<lparr>sv_trusted_application_identity = 9, sv_generation = 2, sv_endpoint = Some 0, sv_provider_process_id = 7\<rparr>
     (endpoint_retain 0 demo_trusted)"

lemma demo_services: "ic_services demo_world = replicate IOS_IPC_MAX_SERVICES (zero_service\<lparr>sv_generation := 1\<rparr>)"
proof -
  obtain r where "ipc_endpoint_create (demo_client 7) 1 demo_start = (demo_owner, demo_world, r)"
    unfolding demo_owner_def demo_world_def by (metis prod.collapse)
  from create_owners(1) [OF this] show ?thesis by (simp add: demo_start_def ipc_initialize_def)
qed

lemma demo_trust: "ipc_trust_service 1 9 demo_world = (demo_trusted, Inr ())"
  using demo_create(4) by (simp add: ipc_trust_service_def demo_services service_is_valid_def demo_trusted_def zero_service_def)

lemma demo_register: "ipc_service_register demo_owner 1 demo_handle demo_trusted = (demo_served, Inr ())"
proof -
  have res: "resolve_endpoint demo_owner demo_handle (IOS_RIGHT_ADMINISTER OR IOS_RIGHT_WAIT) demo_trusted = Inr 0"
    by (rule resolve_same [OF demo_resolves(3)]) (simp_all add: demo_trusted_def)
  have app: "pc_application_identity demo_owner = 9"
    unfolding demo_owner_def by (simp add: ipc_endpoint_create_def demo_client_def Let_def split: prod.split sum.split option.split)
  have sv: "ic_services demo_trusted ! 0 = \<lparr>sv_trusted_application_identity = 9, sv_generation = 1, sv_endpoint = None, sv_provider_process_id = 0\<rparr>"
    by (simp add: demo_trusted_def demo_services zero_service_def)
  have "ic_ready demo_trusted" "ep_owner_process_id (ic_endpoints demo_trusted ! 0) = 7" "pc_process_id demo_owner = 7"
    using demo_create(4,5) by (simp_all add: demo_trusted_def demo_endpoint(1))
  then show ?thesis
    using res app sv by (simp add: ipc_service_register_def service_is_valid_def Let_def demo_served_def next_service_generation_def)
qed

lemma demo_serving: "(ipc_step 2)\<^sup>*\<^sup>* (demo_pair, demo_start) (demo_pair(0 := demo_owner), demo_served)"
proof -
  let ?ps = "demo_pair(0 := demo_owner)"
  have "perform (Trust 1 9) (?ps 0) demo_world = (demo_owner, demo_trusted)" by (simp add: demo_trust [simplified])
  from step_request [where ps = ?ps and k = 0 and n = 2, OF _ this] have 1: "ipc_step 2 (?ps, demo_world) (?ps, demo_trusted)" by simp
  have "perform (Register 1 demo_handle) (?ps 0) demo_trusted = (demo_owner, demo_served)" by (simp add: demo_register [simplified])
  from step_request [where ps = ?ps and k = 0 and n = 2, OF _ this] have "ipc_step 2 (?ps, demo_trusted) (?ps, demo_served)" by simp
  with demo_created 1 show ?thesis by (meson rtranclp.rtrancl_into_rtrancl)
qed

lemma demo_connects: "\<exists>p w h. ipc_service_connect (demo_client 8) 1 demo_served = (p, w, Inr h)"
proof -
  obtain t r where ins: "handle_table_insert (pc_handles (demo_client 8)) (Some 0) IOS_OBJECT_IPC_ENDPOINT
      (IOS_RIGHT_SIGNAL OR IOS_RIGHT_DUPLICATE OR IOS_RIGHT_TRANSFER) (Some endpoint_retain) (Some endpoint_release) = (t, r)" by fastforce
  have "table_ok (pc_handles (demo_client 8))" using handles_okD(1) [OF demo_client_handles(2)] by simp
  then have "\<exists>h. r = Inr h" using ins
  proof (cases rule: insert_cases)
    case (fails e)
    then show ?thesis using demo_client_handles(3) [of 8] by simp
  qed blast
  moreover have sv: "sv_endpoint (ic_services demo_served ! 0) = Some 0"
    by (simp add: demo_served_def demo_trusted_def endpoint_retain_def Let_def demo_services)
  moreover have "ic_ready demo_served" "\<not> ep_revoked (ic_endpoints demo_served ! 0)"
    using demo_create(4) demo_endpoint(2) by (simp_all add: demo_served_def demo_trusted_def endpoint_retain_def Let_def demo_endpoint(1) zero_endpoint_def)
  ultimately show ?thesis using ins by (auto simp: ipc_service_connect_def service_is_valid_def Let_def)
qed

theorem ipc_services_authentic_witness:
  "\<exists>p w h e. ipc_service_connect (demo_client 8) 1 demo_served = (p, w, Inr h)
    \<and> caps (pc_handles p) h = Some (e, IOS_OBJECT_IPC_ENDPOINT, IOS_RIGHT_SIGNAL OR IOS_RIGHT_DUPLICATE OR IOS_RIGHT_TRANSFER)"
proof -
  obtain p w h where c: "ipc_service_connect (demo_client 8) 1 demo_served = (p, w, Inr h)" using demo_connects by blast
  have "(demo_pair(0 := demo_owner)) 1 = demo_client 8" by (simp add: demo_pair_def)
  with ipc_services_authentic [OF demo_booted _ demo_serving, of 1 1 p w h] c show ?thesis by auto
qed

end
