(* ===== verification/Kernel_Physical.thy ===== *)
theory Kernel_Physical
  imports IOS_Prelude
begin

text \<open>
  The physical page allocator (memory.h, kernel/memory/physical.c): two bits of state for every page
  below the end of usable memory, packed four to a byte, with a hint where to search next.
  64-bit quantities are natural numbers; where the code can wrap around, \<open>wrap\<close> says so, and the
  alignment arithmetic is on words. The theorems give the state of every page after initialisation,
  show that allocation hands out aligned free pages only and counts them exactly, and that an
  allocation can fail although a suitable run exists, but not twice in a row.
\<close>

unbundle bit_operations_syntax

section \<open>State\<close>

abbreviation UINT64_MAX :: nat where "UINT64_MAX \<equiv> 18446744073709551615"
abbreviation IOS_PAGE_SIZE :: nat where "IOS_PAGE_SIZE \<equiv> 4096"
abbreviation IOS_MEMORY_MAP_MAX_REGIONS :: nat where "IOS_MEMORY_MAP_MAX_REGIONS \<equiv> 256"
abbreviation X86_64_PHYSICAL_ADDRESS_LIMIT :: nat where "X86_64_PHYSICAL_ADDRESS_LIMIT \<equiv> 0x0010000000000000"

datatype page_state = PAGE_UNAVAILABLE | PAGE_FREE | PAGE_ALLOCATED | PAGE_RECLAIMABLE

datatype ios_physical_memory_kind = IOS_PHYSICAL_RESERVED | IOS_PHYSICAL_USABLE | IOS_PHYSICAL_RECLAIMABLE | Other_Kind nat

record ios_physical_memory_region =
  rg_base :: nat
  rg_page_count :: nat
  rg_kind :: ios_physical_memory_kind

record ios_physical_reservation =
  rv_base :: nat
  rv_byte_count :: nat

record ios_physical_memory_statistics =
  st_total_pages :: nat
  st_free_pages :: nat
  st_allocated_pages :: nat
  st_unavailable_pages :: nat
  st_metadata_base :: nat
  st_metadata_pages :: nat

record physical_memory =
  pm_page_states :: bytes
  pm_managed_page_count :: nat
  pm_free_page_count :: nat
  pm_allocated_page_count :: nat
  pm_metadata_physical_base :: nat
  pm_metadata_page_count :: nat
  pm_search_hint :: nat
  pm_allocator_initialized :: bool

fun page_state_value :: "page_state \<Rightarrow> u8" where
  "page_state_value PAGE_UNAVAILABLE = 0"
| "page_state_value PAGE_FREE = 1"
| "page_state_value PAGE_ALLOCATED = 2"
| "page_state_value PAGE_RECLAIMABLE = 3"

definition page_state_of :: "u8 \<Rightarrow> page_state" where
  "page_state_of v = (if v = 0 then PAGE_UNAVAILABLE else if v = 1 then PAGE_FREE else if v = 2 then PAGE_ALLOCATED else PAGE_RECLAIMABLE)"

section \<open>Arithmetic\<close>

definition wrap :: "nat \<Rightarrow> nat" where
  "wrap x = x mod 18446744073709551616"

definition add_overflows :: "nat \<Rightarrow> nat \<Rightarrow> nat option" where
  "add_overflows left right = (if right > UINT64_MAX - left then None else Some (left + right))"

definition multiply_overflows :: "nat \<Rightarrow> nat \<Rightarrow> nat option" where
  "multiply_overflows left right = (if left \<noteq> 0 \<and> right > UINT64_MAX div left then None else Some (left * right))"

definition ranges_overlap :: "nat \<Rightarrow> nat \<Rightarrow> nat \<Rightarrow> nat \<Rightarrow> bool" where
  "ranges_overlap left_base left_size right_base right_size =
     (if left_size = 0 \<or> right_size = 0 then False
      else case (add_overflows left_base left_size, add_overflows right_base right_size) of
          (Some left_end, Some right_end) \<Rightarrow> left_base < right_end \<and> right_base < left_end
        | _ \<Rightarrow> True)"

text \<open>Rounding up to a page, and up to a power of two as the code's mask does it.\<close>

definition page_round_up :: "nat \<Rightarrow> nat" where
  "page_round_up x = wrap (x + (IOS_PAGE_SIZE - 1)) div IOS_PAGE_SIZE * IOS_PAGE_SIZE"

definition align_up :: "nat \<Rightarrow> nat \<Rightarrow> nat" where
  "align_up page alignment = unat ((of_nat page + of_nat alignment - 1 :: u64) AND NOT (of_nat alignment - 1))"

definition is_power_of_two :: "nat \<Rightarrow> bool" where
  "is_power_of_two alignment \<longleftrightarrow> (of_nat alignment :: u64) AND (of_nat alignment - 1) = 0"

section \<open>The state of a page\<close>

definition get_page_state :: "physical_memory \<Rightarrow> nat \<Rightarrow> page_state" where
  "get_page_state m page = page_state_of (drop_bit (page mod 4 * 2) (pm_page_states m ! (page div 4)) AND 3)"

definition set_page_state :: "nat \<Rightarrow> page_state \<Rightarrow> physical_memory \<Rightarrow> physical_memory" where
  "set_page_state page st m =
     (let byte_index = page div 4; shift = page mod 4 * 2; mask = push_bit shift 3 in
      m\<lparr>pm_page_states := (pm_page_states m)[byte_index :=
        ((pm_page_states m ! byte_index) AND NOT mask) OR push_bit shift (page_state_value st)]\<rparr>)"

definition mark_range :: "nat \<Rightarrow> nat \<Rightarrow> page_state \<Rightarrow> physical_memory \<Rightarrow> physical_memory" where
  "mark_range first_page page_count st m =
     (let end_page = wrap (first_page + page_count);
          end_page = (if end_page > pm_managed_page_count m then pm_managed_page_count m else end_page)
      in fold (\<lambda>page. set_page_state page st) [first_page..<end_page] m)"

section \<open>Initialisation\<close>

definition reservation_is_valid :: "ios_physical_reservation \<Rightarrow> bool" where
  "reservation_is_valid reservation \<longleftrightarrow> rv_byte_count reservation = 0
     \<or> (case add_overflows (rv_base reservation) (rv_byte_count reservation) of
          None \<Rightarrow> False | Some e \<Rightarrow> e \<le> X86_64_PHYSICAL_ADDRESS_LIMIT)"

text \<open>The page behind the first reservation that the candidate overlaps.\<close>

fun candidate_overlaps_reservation :: "nat \<Rightarrow> nat \<Rightarrow> ios_physical_reservation list \<Rightarrow> nat option" where
  "candidate_overlaps_reservation candidate byte_count [] = None"
| "candidate_overlaps_reservation candidate byte_count (reservation # rest) =
     (if ranges_overlap candidate byte_count (rv_base reservation) (rv_byte_count reservation)
      then Some (page_round_up (wrap (rv_base reservation + rv_byte_count reservation)))
      else candidate_overlaps_reservation candidate byte_count rest)"

function metadata_loop :: "ios_physical_reservation list \<Rightarrow> nat \<Rightarrow> nat \<Rightarrow> nat \<Rightarrow> nat option" where
  "metadata_loop reservations byte_count region_end candidate =
     (if candidate \<le> region_end \<and> byte_count \<le> region_end - candidate
      then case candidate_overlaps_reservation candidate byte_count reservations of
          None \<Rightarrow> Some candidate
        | Some next_candidate \<Rightarrow>
            if next_candidate \<le> candidate then None
            else metadata_loop reservations byte_count region_end next_candidate
      else None)"
  by pat_completeness auto
termination
  by (relation "measure (\<lambda>(_, _, region_end, candidate). region_end + 1 - candidate)") auto

fun find_metadata_space ::
  "ios_physical_memory_region list \<Rightarrow> ios_physical_reservation list \<Rightarrow> nat \<Rightarrow> nat option" where
  "find_metadata_space [] reservations byte_count = None"
| "find_metadata_space (region # rest) reservations byte_count =
     (if rg_kind region \<noteq> IOS_PHYSICAL_USABLE then find_metadata_space rest reservations byte_count
      else case multiply_overflows (rg_page_count region) IOS_PAGE_SIZE of
          None \<Rightarrow> find_metadata_space rest reservations byte_count
        | Some region_bytes \<Rightarrow>
            (case add_overflows (rg_base region) region_bytes of
               None \<Rightarrow> find_metadata_space rest reservations byte_count
             | Some region_end \<Rightarrow>
                 (case metadata_loop reservations byte_count region_end (rg_base region) of
                    Some base \<Rightarrow> Some base
                  | None \<Rightarrow> find_metadata_space rest reservations byte_count)))"

text \<open>The checks on one region, with the end of the region.\<close>

definition region_end_of :: "ios_physical_memory_region \<Rightarrow> nat option" where
  "region_end_of region =
     (if rg_base region mod IOS_PAGE_SIZE \<noteq> 0 \<or> rg_page_count region = 0 then None
      else case multiply_overflows (rg_page_count region) IOS_PAGE_SIZE of
          None \<Rightarrow> None
        | Some region_bytes \<Rightarrow>
            (case add_overflows (rg_base region) region_bytes of
               None \<Rightarrow> None
             | Some region_end \<Rightarrow>
                 if region_end > X86_64_PHYSICAL_ADDRESS_LIMIT then None
                 else if rg_kind region \<noteq> IOS_PHYSICAL_RESERVED \<and> rg_kind region \<noteq> IOS_PHYSICAL_USABLE
                         \<and> rg_kind region \<noteq> IOS_PHYSICAL_RECLAIMABLE then None
                 else Some region_end))"

definition region_overlaps :: "ios_physical_memory_region \<Rightarrow> ios_physical_memory_region \<Rightarrow> bool" where
  "region_overlaps region other =
     (case multiply_overflows (rg_page_count other) IOS_PAGE_SIZE of
        None \<Rightarrow> True
      | Some other_bytes \<Rightarrow> ranges_overlap (rg_base region) (rg_page_count region * IOS_PAGE_SIZE) (rg_base other) other_bytes)"

fun check_regions :: "ios_physical_memory_region list \<Rightarrow> nat \<Rightarrow> nat option" where
  "check_regions [] maximum_usable_end = Some maximum_usable_end"
| "check_regions (region # rest) maximum_usable_end =
     (case region_end_of region of
        None \<Rightarrow> None
      | Some region_end \<Rightarrow>
          let maximum_usable_end = (if rg_kind region \<noteq> IOS_PHYSICAL_RESERVED \<and> region_end > maximum_usable_end
                                    then region_end else maximum_usable_end)
          in if list_ex (region_overlaps region) rest then None else check_regions rest maximum_usable_end)"

definition mark_region :: "ios_physical_memory_region \<Rightarrow> physical_memory \<Rightarrow> physical_memory" where
  "mark_region region m =
     (if rg_kind region = IOS_PHYSICAL_USABLE then mark_range (rg_base region div IOS_PAGE_SIZE) (rg_page_count region) PAGE_FREE m
      else if rg_kind region = IOS_PHYSICAL_RECLAIMABLE
      then mark_range (rg_base region div IOS_PAGE_SIZE) (rg_page_count region) PAGE_RECLAIMABLE m
      else m)"

definition mark_reservation :: "ios_physical_reservation \<Rightarrow> physical_memory \<Rightarrow> physical_memory" where
  "mark_reservation reservation m =
     (let first = rv_base reservation div IOS_PAGE_SIZE;
          e = wrap (rv_base reservation + rv_byte_count reservation);
          e = (if e mod IOS_PAGE_SIZE \<noteq> 0 then page_round_up e else e)
      in mark_range first (wrap (e div IOS_PAGE_SIZE + 18446744073709551616 - first)) PAGE_UNAVAILABLE m)"

definition physical_memory_initialize ::
  "ios_physical_memory_region list \<Rightarrow> ios_physical_reservation list \<Rightarrow> physical_memory \<Rightarrow> physical_memory \<times> unit res" where
  "physical_memory_initialize regions reservations m =
     (if pm_allocator_initialized m then (m, Inl IOS_E_INVALID_STATE)
      else if regions = [] \<or> length regions > IOS_MEMORY_MAP_MAX_REGIONS \<or> length reservations > IOS_MEMORY_MAP_MAX_REGIONS
      then (m, Inl IOS_E_INVALID_ARGUMENT)
      else case check_regions regions 0 of
          None \<Rightarrow> (m, Inl IOS_E_INVALID_ARGUMENT)
        | Some maximum_usable_end \<Rightarrow>
            if \<not> list_all reservation_is_valid reservations then (m, Inl IOS_E_INVALID_ARGUMENT)
            else if maximum_usable_end = 0 then (m, Inl IOS_E_NO_MEMORY)
            else let managed = maximum_usable_end div IOS_PAGE_SIZE;
                     state_bytes = (managed + 3) div 4;
                     metadata_pages = (state_bytes + (IOS_PAGE_SIZE - 1)) div IOS_PAGE_SIZE;
                     metadata_bytes = metadata_pages * IOS_PAGE_SIZE;
                     m = m\<lparr>pm_managed_page_count := managed, pm_metadata_page_count := metadata_pages\<rparr>
                 in case find_metadata_space regions reservations metadata_bytes of
                      None \<Rightarrow> (m, Inl IOS_E_NO_MEMORY)
                    | Some base \<Rightarrow>
                        let m = m\<lparr>pm_metadata_physical_base := base, pm_page_states := replicate metadata_bytes 0\<rparr>;
                            m = fold mark_region regions m;
                            m = fold mark_reservation reservations m;
                            m = mark_range 0 1 PAGE_UNAVAILABLE m;
                            m = mark_range (base div IOS_PAGE_SIZE) metadata_pages PAGE_UNAVAILABLE m
                        in (m\<lparr>pm_free_page_count := length (filter (\<lambda>page. get_page_state m page = PAGE_FREE) [0..<managed]),
                              pm_allocated_page_count := 0, pm_search_hint := 1, pm_allocator_initialized := True\<rparr>, Inr ()))"

definition physical_memory_is_initialized :: "physical_memory \<Rightarrow> bool" where
  "physical_memory_is_initialized m = pm_allocator_initialized m"

section \<open>Allocation and release\<close>

text \<open>How many pages from \<open>page\<close> on are free, up to a number.\<close>

fun available_pages :: "physical_memory \<Rightarrow> nat \<Rightarrow> nat \<Rightarrow> nat" where
  "available_pages m page 0 = 0"
| "available_pages m page (Suc n) = (if get_page_state m page = PAGE_FREE then Suc (available_pages m (Suc page) n) else 0)"

text \<open>One pass over the pages below a limit. The loop ends as soon as an aligned candidate does not lie
  behind the page it was computed from; with the alignments the function admits this does not happen.\<close>

function allocate_pass :: "physical_memory \<Rightarrow> nat \<Rightarrow> nat \<Rightarrow> nat \<Rightarrow> nat \<Rightarrow> nat option" where
  "allocate_pass m page_count alignment limit page =
     (if page < limit then
        let aligned = align_up page alignment in
        if aligned < page then None
        else if aligned \<ge> limit \<or> page_count > limit - aligned then None
        else let available = available_pages m aligned page_count in
          if available = page_count then Some aligned
          else allocate_pass m page_count alignment limit (aligned + available + 1)
      else None)"
  by pat_completeness auto
termination
  by (relation "measure (\<lambda>(_, _, _, limit, page). limit - page)") (auto simp: Let_def)

declare allocate_pass.simps [simp del] metadata_loop.simps [simp del]

definition physical_allocate_pages :: "nat \<Rightarrow> nat \<Rightarrow> physical_memory \<Rightarrow> physical_memory \<times> nat res" where
  "physical_allocate_pages page_count alignment m =
     (if \<not> pm_allocator_initialized m \<or> page_count = 0 \<or> alignment = 0 \<or> \<not> is_power_of_two alignment
      then (m, Inl IOS_E_INVALID_ARGUMENT)
      else if page_count > pm_free_page_count m then (m, Inl IOS_E_NO_MEMORY)
      else let found = (case allocate_pass m page_count alignment (pm_managed_page_count m) (pm_search_hint m) of
                          Some page \<Rightarrow> Some page
                        | None \<Rightarrow> allocate_pass m page_count alignment (pm_search_hint m) 1)
           in case found of
                Some page \<Rightarrow>
                  let m = fold (\<lambda>offset. set_page_state (page + offset) PAGE_ALLOCATED) [0..<page_count] m;
                      hint = page + page_count
                  in (m\<lparr>pm_free_page_count := pm_free_page_count m - page_count,
                        pm_allocated_page_count := pm_allocated_page_count m + page_count,
                        pm_search_hint := (if hint \<ge> pm_managed_page_count m then 1 else hint)\<rparr>, Inr (page * IOS_PAGE_SIZE))
              | None \<Rightarrow> (m\<lparr>pm_search_hint := 1\<rparr>, Inl IOS_E_NO_MEMORY))"

definition range_rejected :: "nat \<Rightarrow> nat \<Rightarrow> physical_memory \<Rightarrow> bool" where
  "range_rejected physical_address page_count m \<longleftrightarrow>
     \<not> pm_allocator_initialized m \<or> page_count = 0 \<or> physical_address mod IOS_PAGE_SIZE \<noteq> 0
     \<or> physical_address div IOS_PAGE_SIZE \<ge> pm_managed_page_count m
     \<or> page_count > pm_managed_page_count m - physical_address div IOS_PAGE_SIZE"

definition physical_free_pages :: "nat \<Rightarrow> nat \<Rightarrow> physical_memory \<Rightarrow> physical_memory \<times> unit res" where
  "physical_free_pages physical_address page_count m =
     (let first_page = physical_address div IOS_PAGE_SIZE in
      if range_rejected physical_address page_count m then (m, Inl IOS_E_INVALID_ARGUMENT)
      else if list_ex (\<lambda>offset. get_page_state m (first_page + offset) \<noteq> PAGE_ALLOCATED) [0..<page_count]
      then (m, Inl IOS_E_INVALID_STATE)
      else let m = fold (\<lambda>offset. set_page_state (first_page + offset) PAGE_FREE) [0..<page_count] m in
        (m\<lparr>pm_free_page_count := pm_free_page_count m + page_count,
           pm_allocated_page_count := pm_allocated_page_count m - page_count,
           pm_search_hint := (if first_page < pm_search_hint m then first_page else pm_search_hint m)\<rparr>, Inr ()))"

definition physical_reclaim_pages :: "nat \<Rightarrow> nat \<Rightarrow> physical_memory \<Rightarrow> physical_memory \<times> unit res" where
  "physical_reclaim_pages physical_address page_count m =
     (let first_page = physical_address div IOS_PAGE_SIZE in
      if range_rejected physical_address page_count m then (m, Inl IOS_E_INVALID_ARGUMENT)
      else if list_ex (\<lambda>offset. get_page_state m (first_page + offset) \<noteq> PAGE_RECLAIMABLE) [0..<page_count]
      then (m, Inl IOS_E_INVALID_STATE)
      else let m = fold (\<lambda>offset. set_page_state (first_page + offset) PAGE_FREE) [0..<page_count] m in
        (m\<lparr>pm_free_page_count := pm_free_page_count m + page_count,
           pm_search_hint := (if first_page < pm_search_hint m then first_page else pm_search_hint m)\<rparr>, Inr ()))"

definition physical_page_is_allocated :: "nat \<Rightarrow> physical_memory \<Rightarrow> bool" where
  "physical_page_is_allocated physical_address m \<longleftrightarrow>
     pm_allocator_initialized m \<and> physical_address mod IOS_PAGE_SIZE = 0
     \<and> physical_address div IOS_PAGE_SIZE < pm_managed_page_count m
     \<and> get_page_state m (physical_address div IOS_PAGE_SIZE) = PAGE_ALLOCATED"

definition physical_memory_statistics :: "physical_memory \<Rightarrow> ios_physical_memory_statistics" where
  "physical_memory_statistics m = \<lparr>st_total_pages = pm_managed_page_count m, st_free_pages = pm_free_page_count m,
     st_allocated_pages = pm_allocated_page_count m,
     st_unavailable_pages = pm_managed_page_count m - pm_free_page_count m - pm_allocated_page_count m,
     st_metadata_base = pm_metadata_physical_base m, st_metadata_pages = pm_metadata_page_count m\<rparr>"

section \<open>The packed states\<close>

lemma three_mask: "(3 :: u8) = mask 2"
  by (simp add: mask_eq_exp_minus_1)

lemma page_state_value_small: "take_bit 2 (page_state_value st) = page_state_value st"
  by (cases st) (simp_all add: take_bit_eq_mask mask_eq_exp_minus_1)

lemma page_state_of_value [simp]: "page_state_of (page_state_value st) = st"
  by (cases st) (simp_all add: page_state_of_def)

lemma field_same:
  fixes a v :: u8
  assumes "i < 4" and "take_bit 2 v = v"
  shows "drop_bit (i * 2) ((a AND NOT (push_bit (i * 2) 3)) OR push_bit (i * 2) v) AND 3 = v"
proof (rule bit_word_eqI)
  fix n
  assume n: "n < LENGTH(8)"
  have v: "bit v n \<longleftrightarrow> n < 2 \<and> bit v n" using arg_cong [OF assms(2), of "\<lambda>w. bit w n"] by (auto simp: bit_take_bit_iff)
  have "n < 2 \<Longrightarrow> i * 2 + n < 8" using assms(1) by simp
  then show "bit (drop_bit (i * 2) ((a AND NOT (push_bit (i * 2) 3)) OR push_bit (i * 2) v) AND 3) n = bit v n"
    using v unfolding three_mask by (auto simp: bit_simps)
qed

lemma field_other:
  fixes a v :: u8
  assumes "i < 4" and "j < 4" and "i \<noteq> j" and "take_bit 2 v = v"
  shows "drop_bit (j * 2) ((a AND NOT (push_bit (i * 2) 3)) OR push_bit (i * 2) v) AND 3 = drop_bit (j * 2) a AND 3"
proof (rule bit_word_eqI)
  fix n
  assume n: "n < LENGTH(8)"
  have v: "bit v k \<longleftrightarrow> k < 2 \<and> bit v k" for k using arg_cong [OF assms(4), of "\<lambda>w. bit w k"] by (auto simp: bit_take_bit_iff)
  have "n < 2 \<Longrightarrow> i * 2 \<le> j * 2 + n \<Longrightarrow> \<not> j * 2 + n - i * 2 < 2" using assms(3) by presburger
  moreover have "n < 2 \<Longrightarrow> j * 2 + n < 8" using assms(2) by simp
  ultimately show "bit (drop_bit (j * 2) ((a AND NOT (push_bit (i * 2) 3)) OR push_bit (i * 2) v) AND 3) n = bit (drop_bit (j * 2) a AND 3) n"
    using v [of "j * 2 + n - i * 2"] unfolding three_mask by (auto simp: bit_simps)
qed

lemma get_set:
  assumes "p div 4 < length (pm_page_states m)"
  shows "get_page_state (set_page_state p st m) q = (if p = q then st else get_page_state m q)"
proof (cases "q div 4 = p div 4")
  case True
  note small = page_state_value_small [of st]
  show ?thesis
  proof (cases "p = q")
    case True
    then show ?thesis using assms field_same [of "p mod 4" "page_state_value st" "pm_page_states m ! (p div 4)"] small
      by (simp add: get_page_state_def set_page_state_def Let_def)
  next
    case False
    then have "p mod 4 \<noteq> q mod 4" using True by (metis div_mult_mod_eq)
    then show ?thesis using assms True False small field_other [of "p mod 4" "q mod 4" "page_state_value st" "pm_page_states m ! (p div 4)"]
      by (simp add: get_page_state_def set_page_state_def Let_def)
  qed
next
  case False
  then show ?thesis by (auto simp: get_page_state_def set_page_state_def Let_def)
qed

lemma set_page_state_fields [simp]:
  "length (pm_page_states (set_page_state p st m)) = length (pm_page_states m)"
  "pm_managed_page_count (set_page_state p st m) = pm_managed_page_count m"
  "pm_free_page_count (set_page_state p st m) = pm_free_page_count m"
  "pm_allocated_page_count (set_page_state p st m) = pm_allocated_page_count m"
  "pm_metadata_physical_base (set_page_state p st m) = pm_metadata_physical_base m"
  "pm_metadata_page_count (set_page_state p st m) = pm_metadata_page_count m"
  "pm_search_hint (set_page_state p st m) = pm_search_hint m"
  "pm_allocator_initialized (set_page_state p st m) = pm_allocator_initialized m"
  by (simp_all add: set_page_state_def Let_def)

lemma set_pages_fields [simp]:
  "length (pm_page_states (fold (\<lambda>p. set_page_state (f p) st) ps m)) = length (pm_page_states m)"
  "pm_managed_page_count (fold (\<lambda>p. set_page_state (f p) st) ps m) = pm_managed_page_count m"
  "pm_free_page_count (fold (\<lambda>p. set_page_state (f p) st) ps m) = pm_free_page_count m"
  "pm_allocated_page_count (fold (\<lambda>p. set_page_state (f p) st) ps m) = pm_allocated_page_count m"
  "pm_metadata_physical_base (fold (\<lambda>p. set_page_state (f p) st) ps m) = pm_metadata_physical_base m"
  "pm_metadata_page_count (fold (\<lambda>p. set_page_state (f p) st) ps m) = pm_metadata_page_count m"
  "pm_search_hint (fold (\<lambda>p. set_page_state (f p) st) ps m) = pm_search_hint m"
  "pm_allocator_initialized (fold (\<lambda>p. set_page_state (f p) st) ps m) = pm_allocator_initialized m"
  by (induction ps arbitrary: m) simp_all

lemma get_set_pages:
  assumes "\<forall>p \<in> set ps. f p div 4 < length (pm_page_states m)"
  shows "get_page_state (fold (\<lambda>p. set_page_state (f p) st) ps m) q = (if q \<in> f ` set ps then st else get_page_state m q)"
  using assms
proof (induction ps arbitrary: m)
  case (Cons p ps)
  then show ?case using get_set [of "f p" m st q] by auto
qed simp

text \<open>The states do not depend on the other fields.\<close>

lemma get_page_state_fields [simp]:
  "get_page_state (m\<lparr>pm_free_page_count := a\<rparr>) p = get_page_state m p" "get_page_state (m\<lparr>pm_allocated_page_count := a\<rparr>) p = get_page_state m p"
  "get_page_state (m\<lparr>pm_search_hint := a\<rparr>) p = get_page_state m p" "get_page_state (m\<lparr>pm_allocator_initialized := b\<rparr>) p = get_page_state m p"
  by (simp_all add: get_page_state_def)

section \<open>Alignment\<close>

lemma power_of_two_nat: "(a :: nat) AND (a - 1) = 0 \<Longrightarrow> 0 < a \<Longrightarrow> \<exists>k. a = 2 ^ k"
proof (induction a rule: less_induct)
  case (less a)
  obtain b where b: "a = 2 * b \<or> a = 2 * b + 1" by (metis evenE oddE)
  from b show ?case
  proof
    assume a: "a = 2 * b"
    then have "b > 0" using less(3) by simp
    then have m: "a - 1 = 2 * (b - 1) + 1" using a by simp
    have "2 * (b AND (b - 1)) = a AND (a - 1)" unfolding m unfolding a by (subst (2) and_nat_rec) simp
    then have "b AND (b - 1) = 0" using less(2) by simp
    then obtain k where "b = 2 ^ k" using less(1) [of b] \<open>b > 0\<close> a by auto
    then have "a = 2 ^ Suc k" using a by simp
    then show ?thesis ..
  next
    assume a: "a = 2 * b + 1"
    have "2 * b = a AND (a - 1)" unfolding a by (subst and_nat_rec) simp
    then have "a = 2 ^ 0" using less(2) a by simp
    then show ?thesis ..
  qed
qed

lemma power_of_two_word:
  assumes "is_power_of_two a" and "0 < a" and "a \<le> UINT64_MAX"
  shows "\<exists>k < 64. a = 2 ^ k"
proof -
  let ?w = "of_nat a :: u64"
  have u: "unat ?w = a" using assms(3) by (simp add: unat_of_nat)
  then have nz: "?w \<noteq> 0" using assms(2) by auto
  have "unat (?w - 1) = a - 1" using unat_minus_one [OF nz] u by simp
  then have "a AND (a - 1) = 0" using arg_cong [OF assms(1) [unfolded is_power_of_two_def], of unat] u by (simp add: unsigned_and_eq)
  then obtain k where k: "a = 2 ^ k" using power_of_two_nat assms(2) by blast
  have "(2 :: nat) ^ k < 2 ^ 64" using assms(3) k by simp
  then have "k < 64" using power_less_imp_less_exp by (metis one_less_numeral_iff semiring_norm(76))
  then show ?thesis using k by blast
qed

lemma align_up_power:
  assumes k: "k < 64" and page: "page + 2 ^ k \<le> 2 ^ 64"
  shows "align_up page (2 ^ k) = (page + 2 ^ k - 1) div 2 ^ k * 2 ^ k"
proof -
  let ?x = "of_nat page + of_nat (2 ^ k) - 1 :: u64"
  have "1 \<le> page + 2 ^ k" by (simp add: trans_le_add2)
  then have x: "?x = of_nat (page + 2 ^ k - 1)" by (subst of_nat_diff) simp_all
  have ux: "unat ?x = page + 2 ^ k - 1" unfolding x using page by (simp add: unat_of_nat del: of_nat_diff)
  have mask: "of_nat (2 ^ k) - 1 = (mask k :: u64)" by (simp add: mask_eq_exp_minus_1)
  have "?x AND NOT (mask k) = push_bit k (drop_bit k ?x)" by (rule bit_word_eqI) (auto simp: bit_simps)
  then have "align_up page (2 ^ k) = unat (push_bit k (drop_bit k ?x))" by (simp only: align_up_def mask)
  also have "\<dots> = take_bit 64 (push_bit k (unat (drop_bit k ?x)))" by (subst unsigned_push_bit_eq) simp
  also have "unat (drop_bit k ?x) = unat ?x div 2 ^ k" by (subst unat_drop_bit_eq) (rule drop_bit_eq_div)
  also have "take_bit 64 (push_bit k (unat ?x div 2 ^ k)) = (unat ?x div 2 ^ k * 2 ^ k) mod 2 ^ 64" by (simp add: take_bit_eq_mod push_bit_eq_mult)
  also have "\<dots> = unat ?x div 2 ^ k * 2 ^ k"
  proof (rule mod_less)
    have "unat ?x div 2 ^ k * 2 ^ k \<le> unat ?x" by (rule div_times_less_eq_dividend)
    also have "unat ?x < 2 ^ 64" using unsigned_less [of ?x, where 'a = nat] by simp
    finally show "unat ?x div 2 ^ k * 2 ^ k < 2 ^ 64" .
  qed
  finally show ?thesis by (simp only: ux)
qed

text \<open>The least multiple that is not smaller.\<close>

lemma round_up_least:
  fixes a :: nat
  assumes "0 < a"
  shows "page \<le> (page + a - 1) div a * a" and "a dvd q \<Longrightarrow> page \<le> q \<Longrightarrow> (page + a - 1) div a * a \<le> q"
proof -
  have "page + a - 1 < (page + a - 1) div a * a + a" using dividend_less_div_times [OF assms, of "page + a - 1"] by simp
  then show "page \<le> (page + a - 1) div a * a" using assms by simp
  assume "a dvd q" and "page \<le> q"
  then obtain c where c: "q = c * a" by (metis dvd_def mult.commute)
  have "page + a - 1 < (c + 1) * a" using \<open>page \<le> q\<close> assms c by simp
  then have "(page + a - 1) div a < c + 1" using assms by (simp add: div_less_iff_less_mult)
  then show "(page + a - 1) div a * a \<le> q" using c by simp
qed

section \<open>One pass\<close>

definition run_at :: "physical_memory \<Rightarrow> nat \<Rightarrow> nat \<Rightarrow> nat \<Rightarrow> bool" where
  "run_at m page_count alignment p \<longleftrightarrow> alignment dvd p \<and> (\<forall>i < page_count. get_page_state m (p + i) = PAGE_FREE)"

lemma available_pages_le: "available_pages m p n \<le> n"
  by (induction n arbitrary: p) auto

lemma available_pages_free: "i < available_pages m p n \<Longrightarrow> get_page_state m (p + i) = PAGE_FREE"
proof (induction n arbitrary: p i)
  case (Suc n)
  then show ?case by (cases i) (auto split: if_splits dest: Suc.IH [of _ "Suc p"])
qed simp

lemma available_pages_stop: "available_pages m p n \<noteq> n \<Longrightarrow> get_page_state m (p + available_pages m p n) \<noteq> PAGE_FREE"
proof (induction n arbitrary: p)
  case (Suc n)
  then show ?case using Suc.IH [of "Suc p"] by auto
qed simp

lemma allocate_pass_exact:
  assumes "a = 2 ^ k" and "k < 64" and "0 < c" and "limit \<le> 2 ^ 40"
  shows "allocate_pass m c a limit page = Some p \<Longrightarrow> page \<le> p \<and> p + c \<le> limit \<and> run_at m c a p"
    and "allocate_pass m c a limit page = None \<Longrightarrow> page \<le> q \<Longrightarrow> q + c \<le> limit \<Longrightarrow> \<not> run_at m c a q"
proof -
  have "case allocate_pass m c a limit page of Some p \<Rightarrow> page \<le> p \<and> p + c \<le> limit \<and> run_at m c a p
    | None \<Rightarrow> (\<forall>q. page \<le> q \<and> q + c \<le> limit \<longrightarrow> \<not> run_at m c a q)"
    using assms
  proof (induction m c a limit page rule: allocate_pass.induct)
    case (1 m c a limit page)
    show ?case
    proof (cases "page < limit")
      case lim: True
      let ?al = "align_up page a" and ?av = "available_pages m (align_up page a) c"
      have pos: "0 < a" using 1(2) by simp
      have "(2 :: nat) ^ k \<le> 2 ^ 63" using 1(3) by (intro power_increasing) simp_all
      then have "page + 2 ^ k \<le> 2 ^ 64" using lim 1(5) by simp
      then have al: "?al = (page + a - 1) div a * a" using align_up_power [OF 1(3), of page] 1(2) by simp
      note least = round_up_least [OF pos, where page = page, folded al]
      have dvd: "a dvd ?al" by (simp add: al)
      show ?thesis
      proof (cases "?al \<ge> limit \<or> c > limit - ?al")
        case True
        then have "allocate_pass m c a limit page = None" using lim least(1) by (subst allocate_pass.simps) simp
        moreover have "\<not> run_at m c a q" if "page \<le> q" "q + c \<le> limit" for q
        proof
          assume "run_at m c a q"
          then have "?al \<le> q" using least(2) [of q] that by (simp add: run_at_def)
          then show False using True that 1(4) by linarith
        qed
        ultimately show ?thesis by simp
      next
        case fits: False
        show ?thesis
        proof (cases "?av = c")
          case True
          then have "allocate_pass m c a limit page = Some ?al" using lim least(1) fits by (subst allocate_pass.simps) simp
          moreover have "run_at m c a ?al" using dvd available_pages_free [of _ m ?al c] True by (simp add: run_at_def)
          moreover have "?al + c \<le> limit" using fits by linarith
          ultimately show ?thesis using least(1) by simp
        next
          case False
          let ?next = "?al + ?av + 1"
          have eq: "allocate_pass m c a limit page = allocate_pass m c a limit ?next"
            using lim least(1) fits False by (subst allocate_pass.simps) (simp add: Let_def)
          have IH: "case allocate_pass m c a limit ?next of Some p \<Rightarrow> ?next \<le> p \<and> p + c \<le> limit \<and> run_at m c a p
            | None \<Rightarrow> (\<forall>q. ?next \<le> q \<and> q + c \<le> limit \<longrightarrow> \<not> run_at m c a q)"
            using 1(1) [OF lim refl _ _ refl] False fits least(1) 1(2-5) by simp
          have skip: "\<not> run_at m c a q" if "page \<le> q" "\<not> ?next \<le> q" for q
          proof
            assume run: "run_at m c a q"
            then have "?al \<le> q" using least(2) [of q] that by (simp add: run_at_def)
            moreover have "?av < c" using available_pages_le [of m ?al c] False by simp
            ultimately have "?al + ?av - q < c" "q + (?al + ?av - q) = ?al + ?av" using that(2) by linarith+
            then have "get_page_state m (?al + ?av) = PAGE_FREE" using run unfolding run_at_def by metis
            then show False using available_pages_stop [OF False] by blast
          qed
          show ?thesis
          proof (cases "allocate_pass m c a limit ?next")
            case None
            then show ?thesis using IH skip eq by auto
          next
            case (Some p)
            then show ?thesis using IH eq least(1) by auto
          qed
        qed
      qed
    next
      case False
      then have "allocate_pass m c a limit page = None" by (subst allocate_pass.simps) simp
      then show ?thesis using False 1(4) by auto
    qed
  qed
  then show "allocate_pass m c a limit page = Some p \<Longrightarrow> page \<le> p \<and> p + c \<le> limit \<and> run_at m c a p"
    and "allocate_pass m c a limit page = None \<Longrightarrow> page \<le> q \<Longrightarrow> q + c \<le> limit \<Longrightarrow> \<not> run_at m c a q"
    by simp_all
qed

section \<open>The invariant\<close>

definition pages :: "physical_memory \<Rightarrow> page_state \<Rightarrow> nat set" where
  "pages m st = {p. p < pm_managed_page_count m \<and> get_page_state m p = st}"

definition physical_ok :: "physical_memory \<Rightarrow> bool" where
  "physical_ok m \<longleftrightarrow> pm_allocator_initialized m \<and> 0 < pm_managed_page_count m \<and> pm_managed_page_count m \<le> 2 ^ 40
     \<and> pm_managed_page_count m \<le> 4 * length (pm_page_states m) \<and> get_page_state m 0 = PAGE_UNAVAILABLE
     \<and> pm_free_page_count m = card (pages m PAGE_FREE) \<and> pm_allocated_page_count m = card (pages m PAGE_ALLOCATED)
     \<and> 1 \<le> pm_search_hint m \<and> pm_search_hint m \<le> pm_managed_page_count m"

lemma physical_okD:
  assumes "physical_ok m"
  shows "pm_allocator_initialized m" and "0 < pm_managed_page_count m" and "pm_managed_page_count m \<le> 2 ^ 40"
    and "p < pm_managed_page_count m \<Longrightarrow> p div 4 < length (pm_page_states m)" and "get_page_state m 0 = PAGE_UNAVAILABLE"
    and "pm_free_page_count m = card (pages m PAGE_FREE)" and "pm_allocated_page_count m = card (pages m PAGE_ALLOCATED)"
    and "1 \<le> pm_search_hint m" and "pm_search_hint m \<le> pm_managed_page_count m"
  using assms unfolding physical_ok_def by auto

lemma finite_pages [simp]: "finite (pages m st)"
  by (rule finite_subset [of _ "{..<pm_managed_page_count m}"]) (auto simp: pages_def)

text \<open>A run of pages that changes its state.\<close>

definition moved :: "nat \<Rightarrow> nat \<Rightarrow> page_state \<Rightarrow> physical_memory \<Rightarrow> physical_memory \<Rightarrow> bool" where
  "moved p c st m m' \<longleftrightarrow> (\<forall>q. get_page_state m' q = (if p \<le> q \<and> q < p + c then st else get_page_state m q))
     \<and> pm_managed_page_count m' = pm_managed_page_count m \<and> length (pm_page_states m') = length (pm_page_states m)"

lemma moved_at: "moved p c st m m' \<Longrightarrow> get_page_state m' q = (if p \<le> q \<and> q < p + c then st else get_page_state m q)"
  by (simp add: moved_def)

lemma set_run_moved:
  assumes "physical_ok m" and "p + c \<le> pm_managed_page_count m"
  shows "moved p c st m (fold (\<lambda>offset. set_page_state (p + offset) st) [0..<c] m)"
proof -
  have "\<forall>i \<in> set [0..<c]. (p + i) div 4 < length (pm_page_states m)" using physical_okD(4) [OF assms(1)] assms(2) by auto
  moreover have "q \<in> (+) p ` {0..<c} \<longleftrightarrow> p \<le> q \<and> q < p + c" for q by (auto simp: image_iff intro: bexI [of _ "q - p"])
  ultimately show ?thesis using get_set_pages [of "[0..<c]" "(+) p" m st] by (simp add: moved_def)
qed

lemma moved_pages:
  assumes mv: "moved p c t m m'" and run: "p + c \<le> pm_managed_page_count m" "\<And>i. i < c \<Longrightarrow> get_page_state m (p + i) = s" and "s \<noteq> t"
  shows "card (pages m' s) = card (pages m s) - c" and "card (pages m' t) = card (pages m t) + c" and "c \<le> card (pages m s)"
    and "u \<noteq> s \<Longrightarrow> u \<noteq> t \<Longrightarrow> pages m' u = pages m u"
proof -
  let ?R = "{p..<p + c}"
  have in_run: "get_page_state m q = s" if "q \<in> ?R" for q
  proof -
    have "q - p < c" using that by auto
    then show ?thesis using run(2) [of "q - p"] that by simp
  qed
  have sub: "?R \<subseteq> pages m s" using in_run run(1) by (auto simp: pages_def)
  have "pages m' s = pages m s - ?R" using mv \<open>s \<noteq> t\<close> by (auto simp: moved_def pages_def)
  then show "card (pages m' s) = card (pages m s) - c" using sub by (simp add: card_Diff_subset)
  have "pages m' t = pages m t \<union> ?R" using mv run(1) by (auto simp: moved_def pages_def split: if_splits)
  moreover have "pages m t \<inter> ?R = {}" using sub \<open>s \<noteq> t\<close> by (auto simp: pages_def)
  ultimately show "card (pages m' t) = card (pages m t) + c" by (simp add: card_Un_disjoint)
  show "c \<le> card (pages m s)" using card_mono [OF _ sub] by simp
  show "pages m' u = pages m u" if "u \<noteq> s" "u \<noteq> t"
    using mv that in_run by (auto simp: moved_def pages_def split: if_splits)
qed

lemma run_positive:
  assumes "physical_ok m" and "0 < c" and "run_at m c a p"
  shows "0 < p"
proof (rule ccontr)
  assume "\<not> 0 < p"
  then have "get_page_state m 0 = PAGE_FREE" using assms(2,3) by (auto simp: run_at_def)
  then show False using physical_okD(5) [OF assms(1)] by simp
qed

lemma moved_ok:
  assumes ok: "physical_ok m" and mv: "moved p c t m m'" and p: "0 < p"
    and fields: "pm_allocator_initialized m'" "pm_free_page_count m' = card (pages m' PAGE_FREE)"
      "pm_allocated_page_count m' = card (pages m' PAGE_ALLOCATED)" "1 \<le> pm_search_hint m'" "pm_search_hint m' \<le> pm_managed_page_count m"
  shows "physical_ok m'"
  using physical_okD(2,3,5) [OF ok] ok mv p fields by (simp add: physical_ok_def moved_def)

section \<open>What initialisation marks\<close>

lemma mark_range_fields [simp]:
  "length (pm_page_states (mark_range f n st m)) = length (pm_page_states m)"
  "pm_managed_page_count (mark_range f n st m) = pm_managed_page_count m"
  by (simp_all add: mark_range_def Let_def)

lemma get_mark_range:
  assumes "pm_managed_page_count m \<le> 4 * length (pm_page_states m)"
  shows "get_page_state (mark_range f n st m) q = (if f \<le> q \<and> q < wrap (f + n) \<and> q < pm_managed_page_count m then st else get_page_state m q)"
proof -
  let ?e = "if wrap (f + n) > pm_managed_page_count m then pm_managed_page_count m else wrap (f + n)"
  have "\<forall>p \<in> set [f..<?e]. p div 4 < length (pm_page_states m)" using assms by auto
  then show ?thesis using get_set_pages [of "[f..<?e]" "\<lambda>p. p" m st q] by (auto simp: mark_range_def Let_def)
qed

definition region_pages :: "ios_physical_memory_region \<Rightarrow> nat set" where
  "region_pages r = {rg_base r div IOS_PAGE_SIZE..<rg_base r div IOS_PAGE_SIZE + rg_page_count r}"

definition reservation_pages :: "ios_physical_reservation \<Rightarrow> nat set" where
  "reservation_pages v = {rv_base v div IOS_PAGE_SIZE..<(rv_base v + rv_byte_count v + 4095) div IOS_PAGE_SIZE}"

lemma region_end_of_Some:
  assumes "region_end_of r = Some e"
  shows "rg_base r mod IOS_PAGE_SIZE = 0" and "0 < rg_page_count r" and "e = rg_base r + rg_page_count r * IOS_PAGE_SIZE"
    and "e \<le> X86_64_PHYSICAL_ADDRESS_LIMIT"
  using assms by (auto simp: region_end_of_def multiply_overflows_def add_overflows_def split: if_splits)

lemma regions_disjoint:
  assumes r: "region_end_of r = Some e" and s: "region_end_of s = Some f" and no: "\<not> region_overlaps r s"
  shows "region_pages r \<inter> region_pages s = {}"
proof -
  note r = region_end_of_Some [OF r] and s = region_end_of_Some [OF s]
  obtain x where x: "rg_base r = 4096 * x" using r(1) by (metis mult_div_mod_eq add.right_neutral)
  obtain y where y: "rg_base s = 4096 * y" using s(1) by (metis mult_div_mod_eq add.right_neutral)
  have "multiply_overflows (rg_page_count s) IOS_PAGE_SIZE = Some (rg_page_count s * IOS_PAGE_SIZE)"
    "add_overflows (rg_base r) (rg_page_count r * IOS_PAGE_SIZE) = Some e" "add_overflows (rg_base s) (rg_page_count s * IOS_PAGE_SIZE) = Some f"
    using r(3,4) s(2,3,4) by (auto simp: multiply_overflows_def add_overflows_def less_eq_div_iff_mult_less_eq not_less)
  then have "\<not> (rg_base r < f \<and> rg_base s < e)" using no r(2) s(2) by (simp add: region_overlaps_def ranges_overlap_def)
  then show ?thesis using r(3) s(3) by (auto simp: region_pages_def x y)
qed

text \<open>What the first loop of the initialisation has checked.\<close>

lemma check_regions_Some:
  assumes "check_regions rs start = Some limit_end"
  shows "\<forall>r \<in> set rs. \<exists>e. region_end_of r = Some e \<and> (rg_kind r \<noteq> IOS_PHYSICAL_RESERVED \<longrightarrow> e \<le> limit_end)"
    and "sorted_wrt (\<lambda>r s. region_pages r \<inter> region_pages s = {}) rs" and "start \<le> limit_end"
    and "start \<le> X86_64_PHYSICAL_ADDRESS_LIMIT \<Longrightarrow> limit_end \<le> X86_64_PHYSICAL_ADDRESS_LIMIT"
    and "start mod IOS_PAGE_SIZE = 0 \<Longrightarrow> limit_end mod IOS_PAGE_SIZE = 0"
proof -
  have "(\<forall>r \<in> set rs. \<exists>e. region_end_of r = Some e \<and> (rg_kind r \<noteq> IOS_PHYSICAL_RESERVED \<longrightarrow> e \<le> limit_end))
    \<and> sorted_wrt (\<lambda>r s. region_pages r \<inter> region_pages s = {}) rs \<and> start \<le> limit_end
    \<and> (start \<le> X86_64_PHYSICAL_ADDRESS_LIMIT \<longrightarrow> limit_end \<le> X86_64_PHYSICAL_ADDRESS_LIMIT)
    \<and> (start mod IOS_PAGE_SIZE = 0 \<longrightarrow> limit_end mod IOS_PAGE_SIZE = 0)"
    using assms
  proof (induction rs arbitrary: start)
    case (Cons r rs)
    obtain e where e: "region_end_of r = Some e" using Cons.prems by (auto split: option.splits)
    let ?start = "if rg_kind r \<noteq> IOS_PHYSICAL_RESERVED \<and> e > start then e else start"
    have run: "(if list_ex (region_overlaps r) rs then None else check_regions rs ?start) = Some limit_end"
      using Cons.prems unfolding check_regions.simps e Let_def option.case .
    then have no: "\<not> list_ex (region_overlaps r) rs" by (metis option.distinct(1))
    have rest: "check_regions rs ?start = Some limit_end" using run unfolding if_not_P [OF no] .
    note IH = Cons.IH [OF rest]
    note IH1 = conjunct1 [OF IH] and IH2 = conjunct1 [OF conjunct2 [OF IH]] and IH3 = conjunct2 [OF conjunct2 [OF IH]]
    have disj: "region_pages r \<inter> region_pages s = {}" if s: "s \<in> set rs" for s
    proof -
      obtain f where f: "region_end_of s = Some f" using bspec [OF IH1 s] by blast
      have "\<not> region_overlaps r s" using no s by (simp add: list_ex_iff)
      then show ?thesis by (rule regions_disjoint [OF e f])
    qed
    have e4: "e \<le> X86_64_PHYSICAL_ADDRESS_LIMIT" "e mod IOS_PAGE_SIZE = 0" using region_end_of_Some(1,3,4) [OF e] by simp_all
    have top: "rg_kind r \<noteq> IOS_PHYSICAL_RESERVED \<longrightarrow> e \<le> limit_end" "start \<le> limit_end"
      using conjunct1 [OF IH3] by (auto split: if_splits)
    show ?case
    proof (intro conjI)
      show "\<forall>s \<in> set (r # rs). \<exists>e. region_end_of s = Some e \<and> (rg_kind s \<noteq> IOS_PHYSICAL_RESERVED \<longrightarrow> e \<le> limit_end)"
        using IH1 e top(1) by simp
      show "sorted_wrt (\<lambda>r s. region_pages r \<inter> region_pages s = {}) (r # rs)" using IH2 disj by simp
      show "start \<le> limit_end" by (rule top(2))
      show "start \<le> X86_64_PHYSICAL_ADDRESS_LIMIT \<longrightarrow> limit_end \<le> X86_64_PHYSICAL_ADDRESS_LIMIT"
        using conjunct2 [OF IH3] e4 by (simp split: if_splits)
      show "start mod IOS_PAGE_SIZE = 0 \<longrightarrow> limit_end mod IOS_PAGE_SIZE = 0" using conjunct2 [OF IH3] e4 by (simp split: if_splits)
    qed
  qed simp
  then show "\<forall>r \<in> set rs. \<exists>e. region_end_of r = Some e \<and> (rg_kind r \<noteq> IOS_PHYSICAL_RESERVED \<longrightarrow> e \<le> limit_end)"
    "sorted_wrt (\<lambda>r s. region_pages r \<inter> region_pages s = {}) rs" "start \<le> limit_end"
    "start \<le> X86_64_PHYSICAL_ADDRESS_LIMIT \<Longrightarrow> limit_end \<le> X86_64_PHYSICAL_ADDRESS_LIMIT"
    "start mod IOS_PAGE_SIZE = 0 \<Longrightarrow> limit_end mod IOS_PAGE_SIZE = 0" by (blast, blast, blast, blast, simp)
qed

lemma mark_region_fields [simp]:
  "length (pm_page_states (mark_region r m)) = length (pm_page_states m)"
  "pm_managed_page_count (mark_region r m) = pm_managed_page_count m"
  by (simp_all add: mark_region_def)

lemma mark_reservation_fields [simp]:
  "length (pm_page_states (mark_reservation v m)) = length (pm_page_states m)"
  "pm_managed_page_count (mark_reservation v m) = pm_managed_page_count m"
  by (simp_all add: mark_reservation_def Let_def)

lemma mark_folds_fields [simp]:
  "length (pm_page_states (fold mark_region rs m)) = length (pm_page_states m)"
  "pm_managed_page_count (fold mark_region rs m) = pm_managed_page_count m"
  by (induction rs arbitrary: m) simp_all

lemma mark_reservations_fields [simp]:
  "length (pm_page_states (fold mark_reservation vs m)) = length (pm_page_states m)"
  "pm_managed_page_count (fold mark_reservation vs m) = pm_managed_page_count m"
  by (induction vs arbitrary: m) simp_all

text \<open>A region of a page in the managed range decides its state.\<close>

lemma get_mark_region:
  assumes "region_end_of r = Some e" and "pm_managed_page_count m \<le> 4 * length (pm_page_states m)" and "q < pm_managed_page_count m"
  shows "get_page_state (mark_region r m) q = (if q \<in> region_pages r \<and> rg_kind r = IOS_PHYSICAL_USABLE then PAGE_FREE
    else if q \<in> region_pages r \<and> rg_kind r = IOS_PHYSICAL_RECLAIMABLE then PAGE_RECLAIMABLE else get_page_state m q)"
proof -
  have "rg_base r div IOS_PAGE_SIZE + rg_page_count r < 18446744073709551616" using region_end_of_Some(3,4) [OF assms(1)] by simp
  then have "wrap (rg_base r div IOS_PAGE_SIZE + rg_page_count r) = rg_base r div IOS_PAGE_SIZE + rg_page_count r" by (simp add: wrap_def)
  then show ?thesis using assms(2,3) by (simp add: mark_region_def get_mark_range region_pages_def)
qed

lemma get_mark_regions:
  assumes "\<forall>r \<in> set rs. region_end_of r \<noteq> None" and "sorted_wrt (\<lambda>r s. region_pages r \<inter> region_pages s = {}) rs"
    and "pm_managed_page_count m \<le> 4 * length (pm_page_states m)" and "q < pm_managed_page_count m"
  shows "get_page_state (fold mark_region rs m) q =
    (if \<exists>r \<in> set rs. q \<in> region_pages r \<and> rg_kind r = IOS_PHYSICAL_USABLE then PAGE_FREE
     else if \<exists>r \<in> set rs. q \<in> region_pages r \<and> rg_kind r = IOS_PHYSICAL_RECLAIMABLE then PAGE_RECLAIMABLE else get_page_state m q)"
  using assms
proof (induction rs arbitrary: m)
  case (Cons r rs)
  obtain e where e: "region_end_of r = Some e" using Cons.prems(1) by auto
  note one = get_mark_region [OF e Cons.prems(3,4)]
  have IH: "get_page_state (fold mark_region rs (mark_region r m)) q =
    (if \<exists>r \<in> set rs. q \<in> region_pages r \<and> rg_kind r = IOS_PHYSICAL_USABLE then PAGE_FREE
     else if \<exists>r \<in> set rs. q \<in> region_pages r \<and> rg_kind r = IOS_PHYSICAL_RECLAIMABLE then PAGE_RECLAIMABLE
     else get_page_state (mark_region r m) q)"
    using Cons.prems by (intro Cons.IH) simp_all
  have "\<not> (\<exists>s \<in> set rs. q \<in> region_pages s)" if "q \<in> region_pages r" using Cons.prems(2) that by auto
  then show ?case unfolding fold_simps comp_apply IH one by (cases "q \<in> region_pages r") auto
qed simp

lemma get_mark_reservation:
  assumes v: "reservation_is_valid v" and "pm_managed_page_count m \<le> 4 * length (pm_page_states m)" and q: "q < pm_managed_page_count m"
    and managed: "pm_managed_page_count m \<le> 2 ^ 40"
  shows "get_page_state (mark_reservation v m) q = (if q \<in> reservation_pages v then PAGE_UNAVAILABLE else get_page_state m q)"
proof (cases "rv_base v div IOS_PAGE_SIZE \<le> q")
  case False
  then show ?thesis using assms(2) by (simp add: mark_reservation_def Let_def get_mark_range reservation_pages_def)
next
  case True
  let ?e = "rv_base v + rv_byte_count v"
  have "rv_base v div IOS_PAGE_SIZE < 2 ^ 40" using True q managed by simp
  then have base: "rv_base v < 2 ^ 52" by (simp add: div_less_iff_less_mult)
  then have e: "?e \<le> 2 ^ 52" using v by (auto simp: reservation_is_valid_def add_overflows_def split: if_splits)
  then have w: "wrap ?e = ?e" "wrap (?e + 4095) = ?e + 4095" by (simp_all add: wrap_def)
  have up: "(if ?e mod IOS_PAGE_SIZE \<noteq> 0 then page_round_up ?e else ?e) div IOS_PAGE_SIZE = (?e + 4095) div IOS_PAGE_SIZE"
  proof (cases "?e mod IOS_PAGE_SIZE = 0")
    case True
    then obtain c where "?e = 4096 * c" by (metis mult_div_mod_eq add.right_neutral)
    then show ?thesis by simp
  next
    case False
    then show ?thesis using w(2) by (simp add: page_round_up_def)
  qed
  have le: "rv_base v div IOS_PAGE_SIZE \<le> (?e + 4095) div IOS_PAGE_SIZE" by (intro div_le_mono) simp
  have lt: "(?e + 4095) div IOS_PAGE_SIZE < 18446744073709551616" using e by (simp add: div_less_iff_less_mult)
  define f where "f = rv_base v div IOS_PAGE_SIZE"
  define g where "g = (?e + 4095) div IOS_PAGE_SIZE"
  have fg: "f \<le> g" "g < 18446744073709551616" using le lt by (simp_all add: f_def g_def)
  then have "g + 18446744073709551616 - f = (g - f) + 18446744073709551616" by simp
  then have "wrap (g + 18446744073709551616 - f) = ((g - f) + 18446744073709551616) mod 18446744073709551616" unfolding wrap_def by (rule arg_cong)
  also have "\<dots> = g - f" using fg by (simp only: mod_add_self2 mod_less less_imp_diff_less)
  finally have "wrap (g + 18446744073709551616 - f) = g - f" .
  then have "wrap (f + wrap (g + 18446744073709551616 - f)) = g" using fg by (simp add: wrap_def)
  then show ?thesis using assms(2) q unfolding mark_reservation_def Let_def w(1) up
    by (simp add: get_mark_range reservation_pages_def f_def g_def)
qed

lemma get_mark_reservations:
  assumes "\<forall>v \<in> set vs. reservation_is_valid v" and "pm_managed_page_count m \<le> 4 * length (pm_page_states m)" and "q < pm_managed_page_count m"
    and "pm_managed_page_count m \<le> 2 ^ 40"
  shows "get_page_state (fold mark_reservation vs m) q = (if \<exists>v \<in> set vs. q \<in> reservation_pages v then PAGE_UNAVAILABLE else get_page_state m q)"
  using assms
proof (induction vs arbitrary: m)
  case (Cons v vs)
  then show ?case using get_mark_reservation [of v m q] Cons.IH [of "mark_reservation v m"] by auto
qed simp

section \<open>The space for the states\<close>

lemma candidate_None: "candidate_overlaps_reservation x n vs = None \<longleftrightarrow> (\<forall>v \<in> set vs. \<not> ranges_overlap x n (rv_base v) (rv_byte_count v))"
  by (induction vs) auto

lemma candidate_aligned: "candidate_overlaps_reservation x n vs = Some y \<Longrightarrow> y mod IOS_PAGE_SIZE = 0"
  by (induction vs) (auto simp: page_round_up_def split: if_splits)

lemma metadata_loop_Some:
  assumes "metadata_loop vs n e x = Some b" and "x mod IOS_PAGE_SIZE = 0"
  shows "x \<le> b" and "b + n \<le> e" and "b mod IOS_PAGE_SIZE = 0" and "candidate_overlaps_reservation b n vs = None"
proof -
  have "x \<le> b \<and> b + n \<le> e \<and> b mod IOS_PAGE_SIZE = 0 \<and> candidate_overlaps_reservation b n vs = None"
    using assms
  proof (induction vs n e x rule: metadata_loop.induct)
    case (1 vs n e x)
    have fits: "x \<le> e \<and> n \<le> e - x" using 1(2) by (subst (asm) metadata_loop.simps) (auto split: if_splits)
    show ?case
    proof (cases "candidate_overlaps_reservation x n vs")
      case None
      then have "b = x" using 1(2) fits by (subst (asm) metadata_loop.simps) simp
      moreover have "x + n \<le> e" using fits by linarith
      ultimately show ?thesis using None 1(3) by simp
    next
      case (Some y)
      then have y: "\<not> y \<le> x" "metadata_loop vs n e y = Some b"
        using 1(2) fits by (subst (asm) (1) metadata_loop.simps, simp split: if_splits)+
      show ?thesis using 1(1) [OF fits Some y(1,2) candidate_aligned [OF Some]] y(1) by simp
    qed
  qed
  then show "x \<le> b" "b + n \<le> e" "b mod IOS_PAGE_SIZE = 0" "candidate_overlaps_reservation b n vs = None" by (blast, blast, simp, blast)
qed

lemma find_metadata_Some:
  assumes "find_metadata_space rs vs n = Some b" and "\<forall>r \<in> set rs. region_end_of r \<noteq> None"
  obtains r e where "r \<in> set rs" "rg_kind r = IOS_PHYSICAL_USABLE" "region_end_of r = Some e" "rg_base r \<le> b" "b + n \<le> e"
    "b mod IOS_PAGE_SIZE = 0" "candidate_overlaps_reservation b n vs = None"
proof -
  have "\<exists>r e. r \<in> set rs \<and> rg_kind r = IOS_PHYSICAL_USABLE \<and> region_end_of r = Some e \<and> rg_base r \<le> b \<and> b + n \<le> e
    \<and> b mod IOS_PAGE_SIZE = 0 \<and> candidate_overlaps_reservation b n vs = None"
    using assms
  proof (induction rs)
    case (Cons r rs)
    obtain e where e: "region_end_of r = Some e" using Cons.prems(2) by auto
    note d = region_end_of_Some [OF e]
    show ?case
    proof (cases "rg_kind r = IOS_PHYSICAL_USABLE \<and> metadata_loop vs n e (rg_base r) \<noteq> None")
      case True
      have "multiply_overflows (rg_page_count r) IOS_PAGE_SIZE = Some (rg_page_count r * IOS_PAGE_SIZE)" "add_overflows (rg_base r) (rg_page_count r * IOS_PAGE_SIZE) = Some e"
        using e by (auto simp: region_end_of_def multiply_overflows_def add_overflows_def split: if_splits)
      then have "metadata_loop vs n e (rg_base r) = Some b" using Cons.prems(1) True by auto
      from metadata_loop_Some [OF this d(1)] show ?thesis using True e by (intro exI [of _ r] exI [of _ e]) simp
    next
      case False
      have "multiply_overflows (rg_page_count r) IOS_PAGE_SIZE = Some (rg_page_count r * IOS_PAGE_SIZE)" "add_overflows (rg_base r) (rg_page_count r * IOS_PAGE_SIZE) = Some e"
        using e by (auto simp: region_end_of_def multiply_overflows_def add_overflows_def split: if_splits)
      then have "find_metadata_space rs vs n = Some b" using Cons.prems(1) False by (auto split: if_splits)
      then obtain r' e' where "r' \<in> set rs" "rg_kind r' = IOS_PHYSICAL_USABLE" "region_end_of r' = Some e'" "rg_base r' \<le> b" "b + n \<le> e'"
        "b mod IOS_PAGE_SIZE = 0" "candidate_overlaps_reservation b n vs = None" using Cons.IH Cons.prems(2) by auto
      then show ?thesis by (intro exI [of _ r'] exI [of _ e']) simp
    qed
  qed simp
  then show thesis using that by (elim exE conjE) assumption
qed

section \<open>The state after initialisation\<close>

lemma initialize_cases:
  assumes "physical_memory_initialize rs vs m = (m', Inr ())"
  obtains limit_end b managed n where "check_regions rs 0 = Some limit_end" "list_all reservation_is_valid vs" "limit_end \<noteq> 0"
    "managed = limit_end div IOS_PAGE_SIZE" "n = ((managed + 3) div 4 + (IOS_PAGE_SIZE - 1)) div IOS_PAGE_SIZE"
    "find_metadata_space rs vs (n * IOS_PAGE_SIZE) = Some b"
    "m' = (let m1 = mark_range (b div IOS_PAGE_SIZE) n PAGE_UNAVAILABLE (mark_range 0 1 PAGE_UNAVAILABLE (fold mark_reservation vs (fold mark_region rs
        (m\<lparr>pm_managed_page_count := managed, pm_metadata_page_count := n, pm_metadata_physical_base := b,
           pm_page_states := replicate (n * IOS_PAGE_SIZE) 0\<rparr>))))
      in m1\<lparr>pm_free_page_count := length (filter (\<lambda>page. get_page_state m1 page = PAGE_FREE) [0..<managed]),
            pm_allocated_page_count := 0, pm_search_hint := 1, pm_allocator_initialized := True\<rparr>)"
proof (cases "pm_allocator_initialized m \<or> rs = [] \<or> length rs > IOS_MEMORY_MAP_MAX_REGIONS \<or> length vs > IOS_MEMORY_MAP_MAX_REGIONS")
  case True
  then show thesis using assms unfolding physical_memory_initialize_def by (auto split: if_splits)
next
  case False
  show thesis
  proof (cases "check_regions rs 0")
    case None
    then show thesis using assms False unfolding physical_memory_initialize_def by (simp split: if_splits)
  next
    case (Some limit_end)
    let ?managed = "limit_end div IOS_PAGE_SIZE"
    let ?n = "((?managed + 3) div 4 + (IOS_PAGE_SIZE - 1)) div IOS_PAGE_SIZE"
    have ok: "list_all reservation_is_valid vs" "limit_end \<noteq> 0"
      using assms False Some unfolding physical_memory_initialize_def by (auto split: if_splits)
    show thesis
    proof (cases "find_metadata_space rs vs (?n * IOS_PAGE_SIZE)")
      case None
      then show thesis using assms False Some ok unfolding physical_memory_initialize_def Let_def by (simp split: if_splits)
    next
      case (Some b)
      show thesis
        by (rule that [OF \<open>check_regions rs 0 = _\<close> ok refl refl Some])
          (use assms False \<open>check_regions rs 0 = _\<close> ok Some in \<open>auto simp: physical_memory_initialize_def Let_def\<close>)
    qed
  qed
qed

definition metadata_pages :: "physical_memory \<Rightarrow> nat set" where
  "metadata_pages m = {pm_metadata_physical_base m div IOS_PAGE_SIZE..<pm_metadata_physical_base m div IOS_PAGE_SIZE + pm_metadata_page_count m}"

lemma mark_metadata [simp]:
  "pm_metadata_physical_base (mark_range f n st m) = pm_metadata_physical_base m" "pm_metadata_page_count (mark_range f n st m) = pm_metadata_page_count m"
  "pm_metadata_physical_base (fold mark_region rs m) = pm_metadata_physical_base m" "pm_metadata_page_count (fold mark_region rs m) = pm_metadata_page_count m"
  "pm_metadata_physical_base (fold mark_reservation vs m) = pm_metadata_physical_base m" "pm_metadata_page_count (fold mark_reservation vs m) = pm_metadata_page_count m"
proof -
  have r: "pm_metadata_physical_base (mark_range f n st m) = pm_metadata_physical_base m" "pm_metadata_page_count (mark_range f n st m) = pm_metadata_page_count m"
    for f n st m by (simp_all add: mark_range_def Let_def)
  then show "pm_metadata_physical_base (mark_range f n st m) = pm_metadata_physical_base m" "pm_metadata_page_count (mark_range f n st m) = pm_metadata_page_count m" by blast+
  show "pm_metadata_physical_base (fold mark_region rs m) = pm_metadata_physical_base m" "pm_metadata_page_count (fold mark_region rs m) = pm_metadata_page_count m"
    by (induction rs arbitrary: m) (simp_all add: mark_region_def r)
  show "pm_metadata_physical_base (fold mark_reservation vs m) = pm_metadata_physical_base m" "pm_metadata_page_count (fold mark_reservation vs m) = pm_metadata_page_count m"
    by (induction vs arbitrary: m) (simp_all add: mark_reservation_def Let_def r)
qed

text \<open>The state every page has after a successful initialisation.\<close>

definition initial_state :: "ios_physical_memory_region list \<Rightarrow> ios_physical_reservation list \<Rightarrow> nat set \<Rightarrow> nat \<Rightarrow> page_state" where
  "initial_state rs vs meta q =
     (if q = 0 \<or> (\<exists>v \<in> set vs. q \<in> reservation_pages v) \<or> q \<in> meta then PAGE_UNAVAILABLE
      else if \<exists>r \<in> set rs. q \<in> region_pages r \<and> rg_kind r = IOS_PHYSICAL_USABLE then PAGE_FREE
      else if \<exists>r \<in> set rs. q \<in> region_pages r \<and> rg_kind r = IOS_PHYSICAL_RECLAIMABLE then PAGE_RECLAIMABLE
      else PAGE_UNAVAILABLE)"

lemma fresh_states: "q div 4 < n \<Longrightarrow> pm_page_states m = replicate n 0 \<Longrightarrow> get_page_state m q = PAGE_UNAVAILABLE"
  by (simp add: get_page_state_def page_state_of_def)

lemma marked_states:
  assumes rs: "\<forall>r \<in> set rs. region_end_of r \<noteq> None" "sorted_wrt (\<lambda>r s. region_pages r \<inter> region_pages s = {}) rs"
    and vs: "list_all reservation_is_valid vs" and q: "q < pm_managed_page_count m" and managed: "pm_managed_page_count m \<le> 2 ^ 40"
    and room: "pm_managed_page_count m \<le> 4 * k" and fresh: "pm_page_states m = replicate k 0" and b: "b div IOS_PAGE_SIZE + n < 18446744073709551616"
  shows "get_page_state (mark_range (b div IOS_PAGE_SIZE) n PAGE_UNAVAILABLE (mark_range 0 1 PAGE_UNAVAILABLE (fold mark_reservation vs (fold mark_region rs m)))) q
    = initial_state rs vs {b div IOS_PAGE_SIZE..<b div IOS_PAGE_SIZE + n} q"
proof -
  have len: "pm_managed_page_count m \<le> 4 * length (pm_page_states m)" using room fresh by simp
  have "get_page_state m q = PAGE_UNAVAILABLE" using fresh_states [OF _ fresh] q room by auto
  moreover have "\<forall>v \<in> set vs. reservation_is_valid v" using vs by (simp add: list_all_iff)
  moreover have "wrap (b div IOS_PAGE_SIZE + n) = b div IOS_PAGE_SIZE + n" "wrap (0 + 1) = 1" using b by (simp_all add: wrap_def)
  ultimately show ?thesis using get_mark_regions [OF rs len q] get_mark_reservations [of vs "fold mark_region rs m" q] len q managed
    by (auto simp: get_mark_range initial_state_def)
qed

text \<open>After a successful initialisation the states are exactly those that the memory map gives: a page
  is free if it lies in a usable region, reclaimable if it lies in a reclaimable one, and
  unavailable if it lies in neither or is page zero, touched by a reservation or used for the states
  themselves, which lie within a usable region; the counts are exact.\<close>

theorem physical_initialize_exact:
  assumes "physical_memory_initialize rs vs m = (m', Inr ())"
  shows "physical_ok m' \<and> pm_allocated_page_count m' = 0
    \<and> (\<exists>r \<in> set rs. rg_kind r = IOS_PHYSICAL_USABLE \<and> metadata_pages m' \<subseteq> region_pages r)
    \<and> (\<forall>q < pm_managed_page_count m'. get_page_state m' q = initial_state rs vs (metadata_pages m') q)"
  using assms
proof (cases rule: initialize_cases)
  case (1 limit_end b managed n)
  note chk = check_regions_Some [OF 1(1)]
  have valid: "\<forall>r \<in> set rs. region_end_of r \<noteq> None" using chk(1) by auto
  have top: "limit_end \<le> 2 ^ 52" "limit_end mod IOS_PAGE_SIZE = 0" using chk(4,5) by simp_all
  then obtain c where c: "limit_end = 4096 * c" by (metis mult_div_mod_eq add.right_neutral)
  have managed: "0 < managed" "managed \<le> 2 ^ 40" using c 1(3,4) top(1) by simp_all
  have "(managed + 3) div 4 \<le> n * IOS_PAGE_SIZE" using dividend_less_div_times [of IOS_PAGE_SIZE "(managed + 3) div 4 + (IOS_PAGE_SIZE - 1)"] 1(5) by simp
  then have room: "managed \<le> 4 * (n * IOS_PAGE_SIZE)" by linarith
  obtain r e where r: "r \<in> set rs" "rg_kind r = IOS_PHYSICAL_USABLE" "region_end_of r = Some e" "rg_base r \<le> b" "b + n * IOS_PAGE_SIZE \<le> e" "b mod IOS_PAGE_SIZE = 0"
    using find_metadata_Some [OF 1(6) valid] by metis
  note d = region_end_of_Some [OF r(3)]
  obtain x where x: "b = 4096 * x" using r(6) by (metis mult_div_mod_eq add.right_neutral)
  obtain y where y: "rg_base r = 4096 * y" using d(1) by (metis mult_div_mod_eq add.right_neutral)
  have meta: "{b div IOS_PAGE_SIZE..<b div IOS_PAGE_SIZE + n} \<subseteq> region_pages r"
    using r(4,5) d(3) x y by (auto simp: region_pages_def)
  have bound: "b div IOS_PAGE_SIZE + n < 18446744073709551616" using r(5) d(4) x by simp
  let ?m0 = "m\<lparr>pm_managed_page_count := managed, pm_metadata_page_count := n, pm_metadata_physical_base := b,
           pm_page_states := replicate (n * IOS_PAGE_SIZE) 0\<rparr>"
  define m1 where "m1 = mark_range (b div IOS_PAGE_SIZE) n PAGE_UNAVAILABLE (mark_range 0 1 PAGE_UNAVAILABLE (fold mark_reservation vs (fold mark_region rs ?m0)))"
  have m': "m' = m1\<lparr>pm_free_page_count := length (filter (\<lambda>page. get_page_state m1 page = PAGE_FREE) [0..<managed]),
            pm_allocated_page_count := 0, pm_search_hint := 1, pm_allocator_initialized := True\<rparr>" using 1(7) unfolding m1_def Let_def .
  have st: "get_page_state m1 q = initial_state rs vs {b div IOS_PAGE_SIZE..<b div IOS_PAGE_SIZE + n} q" if "q < managed" for q
    unfolding m1_def by (rule marked_states [OF valid chk(2) 1(2) _ _ _ _ bound]) (use that managed room in simp_all)
  have fields: "pm_managed_page_count m1 = managed" "length (pm_page_states m1) = n * IOS_PAGE_SIZE" "metadata_pages m1 = {b div IOS_PAGE_SIZE..<b div IOS_PAGE_SIZE + n}"
    by (simp_all add: m1_def metadata_pages_def)
  have pages': "pages m' s = {q. q < managed \<and> get_page_state m1 q = s}" for s by (simp add: pages_def m' fields)
  have "pages m' PAGE_ALLOCATED = {}" unfolding pages' using st by (auto simp: initial_state_def split: if_splits)
  moreover have "pm_free_page_count m' = card (pages m' PAGE_FREE)" unfolding pages' by (simp add: m' length_filter_conv_card) (rule arg_cong [of _ _ card], auto)
  moreover have "get_page_state m' 0 = PAGE_UNAVAILABLE" using st [OF managed(1)] by (simp add: m' initial_state_def)
  ultimately have "physical_ok m'" using managed room fields by (simp add: physical_ok_def m')
  then show ?thesis using st meta r(1,2) fields by (auto simp: m' metadata_pages_def)
qed

section \<open>The search\<close>

text \<open>The search succeeds exactly when one of the two passes contains a run.\<close>

definition found_run :: "physical_memory \<Rightarrow> nat \<Rightarrow> nat \<Rightarrow> nat option" where
  "found_run m c a = (case allocate_pass m c a (pm_managed_page_count m) (pm_search_hint m) of
     Some page \<Rightarrow> Some page | None \<Rightarrow> allocate_pass m c a (pm_search_hint m) 1)"

lemma found_run_exact:
  assumes ok: "physical_ok m" and c: "0 < c" and a: "is_power_of_two a" "0 < a" "a \<le> UINT64_MAX"
  shows "found_run m c a = Some p \<Longrightarrow> run_at m c a p \<and> 0 < p \<and> p + c \<le> pm_managed_page_count m"
    and "found_run m c a = None \<Longrightarrow> run_at m c a q \<Longrightarrow> q + c \<le> pm_managed_page_count m \<Longrightarrow> q < pm_search_hint m \<and> pm_search_hint m < q + c"
proof -
  obtain k where k: "a = 2 ^ k" "k < 64" using power_of_two_word [OF a] by blast
  note d = physical_okD [OF ok]
  have hint: "pm_search_hint m \<le> 2 ^ 40" using d(3,9) by simp
  note pass = allocate_pass_exact [OF k c d(3), of m "pm_search_hint m"] and pass2 = allocate_pass_exact [OF k c hint, of m 1]
  show "run_at m c a p \<and> 0 < p \<and> p + c \<le> pm_managed_page_count m" if "found_run m c a = Some p"
  proof (cases "allocate_pass m c a (pm_managed_page_count m) (pm_search_hint m)")
    case None
    then have "1 \<le> p \<and> p + c \<le> pm_search_hint m \<and> run_at m c a p" using that pass2(1) by (simp add: found_run_def)
    then show ?thesis using d(9) by simp
  next
    case (Some x)
    then have "p + c \<le> pm_managed_page_count m \<and> run_at m c a p" using that pass(1) by (simp add: found_run_def)
    then show ?thesis using run_positive [OF ok c] by blast
  qed
  show "q < pm_search_hint m \<and> pm_search_hint m < q + c"
    if none: "found_run m c a = None" and q: "run_at m c a q" "q + c \<le> pm_managed_page_count m"
  proof -
    have "allocate_pass m c a (pm_managed_page_count m) (pm_search_hint m) = None" "allocate_pass m c a (pm_search_hint m) 1 = None"
      using none by (auto simp: found_run_def split: option.splits)
    then have "\<not> pm_search_hint m \<le> q" "\<not> q + c \<le> pm_search_hint m"
      using pass(2) [of q] pass2(2) [of q] q run_positive [OF ok c q(1)] by auto
    then show ?thesis by simp
  qed
qed

lemma physical_allocate_eq:
  "physical_allocate_pages c a m =
     (if \<not> pm_allocator_initialized m \<or> c = 0 \<or> a = 0 \<or> \<not> is_power_of_two a then (m, Inl IOS_E_INVALID_ARGUMENT)
      else if c > pm_free_page_count m then (m, Inl IOS_E_NO_MEMORY)
      else case found_run m c a of
          Some page \<Rightarrow>
            let m = fold (\<lambda>offset. set_page_state (page + offset) PAGE_ALLOCATED) [0..<c] m in
            (m\<lparr>pm_free_page_count := pm_free_page_count m - c, pm_allocated_page_count := pm_allocated_page_count m + c,
               pm_search_hint := (if page + c \<ge> pm_managed_page_count m then 1 else page + c)\<rparr>, Inr (page * IOS_PAGE_SIZE))
        | None \<Rightarrow> (m\<lparr>pm_search_hint := 1\<rparr>, Inl IOS_E_NO_MEMORY))"
  unfolding physical_allocate_pages_def found_run_def Let_def by simp

lemma allocate_run:
  assumes ok: "physical_ok m" and a: "a \<le> UINT64_MAX" and c: "c \<noteq> 0" "a \<noteq> 0" "is_power_of_two a" and found: "found_run m c a = Some p"
  defines "m' \<equiv> fold (\<lambda>offset. set_page_state (p + offset) PAGE_ALLOCATED) [0..<c] m"
  shows "physical_ok (m'\<lparr>pm_free_page_count := pm_free_page_count m' - c, pm_allocated_page_count := pm_allocated_page_count m' + c,
      pm_search_hint := (if p + c \<ge> pm_managed_page_count m' then 1 else p + c)\<rparr>)"
    and "run_at m c a p" and "0 < p" and "p + c \<le> pm_managed_page_count m" and "moved p c PAGE_ALLOCATED m m'"
proof -
  have run: "run_at m c a p" "0 < p" "p + c \<le> pm_managed_page_count m" using found_run_exact(1) [OF ok _ c(3) _ a found] c by auto
  then show "run_at m c a p" "0 < p" "p + c \<le> pm_managed_page_count m" by blast+
  show mv: "moved p c PAGE_ALLOCATED m m'" unfolding m'_def by (rule set_run_moved [OF ok run(3)])
  have free: "get_page_state m (p + i) = PAGE_FREE" if "i < c" for i using run(1) that by (simp add: run_at_def)
  note cards = moved_pages(1,2) [OF mv run(3) free]
  let ?m = "m'\<lparr>pm_free_page_count := pm_free_page_count m' - c, pm_allocated_page_count := pm_allocated_page_count m' + c,
      pm_search_hint := (if p + c \<ge> pm_managed_page_count m' then 1 else p + c)\<rparr>"
  have "moved p c PAGE_ALLOCATED m ?m" using mv by (simp add: moved_def)
  moreover have "pages ?m st = pages m' st" for st by (simp add: pages_def)
  ultimately show "physical_ok ?m"
    using cards physical_okD [OF ok] run(2) by (intro moved_ok [OF ok]) (simp_all add: m'_def)
qed

text \<open>C28: An allocation that succeeds hands out a run of pages at the alignment asked for, all of which were
  free and none of which is page zero; exactly these become allocated, no other page changes, and the
  counts stay exact. One that fails changes the state of no page.\<close>

theorem physical_allocate_exact:
  assumes "physical_ok m" and "a \<le> UINT64_MAX" and "physical_allocate_pages c a m = (m', r)"
  shows "physical_ok m' \<and> (case r of
      Inl e \<Rightarrow> \<forall>q. get_page_state m' q = get_page_state m q
    | Inr address \<Rightarrow> \<exists>p. address = p * IOS_PAGE_SIZE \<and> 0 < p \<and> a dvd p \<and> p + c \<le> pm_managed_page_count m
        \<and> (\<forall>q. p \<le> q \<and> q < p + c \<longrightarrow> get_page_state m q = PAGE_FREE)
        \<and> (\<forall>q. get_page_state m' q = (if p \<le> q \<and> q < p + c then PAGE_ALLOCATED else get_page_state m q)))"
proof (cases "\<not> pm_allocator_initialized m \<or> c = 0 \<or> a = 0 \<or> \<not> is_power_of_two a \<or> c > pm_free_page_count m")
  case True
  then have "m' = m" "\<exists>e. r = Inl e" using assms(3) unfolding physical_allocate_eq by (auto split: if_splits)
  then show ?thesis using assms(1) by auto
next
  case False
  then have c: "c \<noteq> 0" "a \<noteq> 0" "is_power_of_two a" by simp_all
  show ?thesis
  proof (cases "found_run m c a")
    case None
    then have m': "m' = m\<lparr>pm_search_hint := 1\<rparr>" "r = Inl IOS_E_NO_MEMORY" using assms(3) False unfolding physical_allocate_eq by auto
    have "physical_ok m'" using assms(1) physical_okD(2) [OF assms(1)] unfolding m' by (simp add: physical_ok_def pages_def)
    then show ?thesis by (simp add: m')
  next
    case (Some p)
    note run = allocate_run [OF assms(1,2) c Some]
    let ?m = "fold (\<lambda>offset. set_page_state (p + offset) PAGE_ALLOCATED) [0..<c] m"
    have m': "m' = ?m\<lparr>pm_free_page_count := pm_free_page_count ?m - c, pm_allocated_page_count := pm_allocated_page_count ?m + c,
      pm_search_hint := (if p + c \<ge> pm_managed_page_count ?m then 1 else p + c)\<rparr>" "r = Inr (p * IOS_PAGE_SIZE)"
      using assms(3) False Some unfolding physical_allocate_eq Let_def by auto
    have "get_page_state m q = PAGE_FREE" if "p \<le> q" "q < p + c" for q
    proof -
      have "q - p < c" using that by simp
      then have "get_page_state m (p + (q - p)) = PAGE_FREE" using run(2) unfolding run_at_def by blast
      then show ?thesis using that by simp
    qed
    moreover have "get_page_state m' q = (if p \<le> q \<and> q < p + c then PAGE_ALLOCATED else get_page_state m q)" for q
      using run(5) by (simp add: m'(1) moved_def)
    ultimately show ?thesis using run(1-4) unfolding m'(2) by (simp add: m'(1) run_at_def)
  qed
qed

text \<open>If an aligned run of free pages exists, then an allocation that fails is followed by one that
  succeeds: the failure resets the search hint, and the next search sees every run.\<close>

theorem physical_allocate_retry:
  assumes "physical_ok m" and "a \<le> UINT64_MAX" and "a \<noteq> 0" and "is_power_of_two a" and "c \<noteq> 0"
    and "run_at m c a p" and "p + c \<le> pm_managed_page_count m" and "physical_allocate_pages c a m = (m', Inl e)"
  shows "\<exists>m'' address. physical_allocate_pages c a m' = (m'', Inr address)"
proof -
  have "c \<le> card (pages m PAGE_FREE)"
  proof -
    have "{p..<p + c} \<subseteq> pages m PAGE_FREE"
    proof
      fix q assume "q \<in> {p..<p + c}"
      then have "q - p < c" "q = p + (q - p)" by auto
      then show "q \<in> pages m PAGE_FREE" using assms(6,7) \<open>q \<in> _\<close> unfolding pages_def run_at_def by (metis (mono_tags) atLeastLessThan_iff le_trans less_le_trans mem_Collect_eq)
    qed
    from card_mono [OF finite_pages this] show ?thesis by simp
  qed
  then have enough: "c \<le> pm_free_page_count m" using physical_okD(6) [OF assms(1)] by simp
  then have m': "m' = m\<lparr>pm_search_hint := 1\<rparr>"
    using assms(3-5,8) physical_okD(1) [OF assms(1)] unfolding physical_allocate_eq Let_def by (auto split: option.splits)
  have ok': "physical_ok m'" using assms(1) physical_okD(2) [OF assms(1)] unfolding m' by (simp add: physical_ok_def pages_def)
  have run: "run_at m' c a p" "p + c \<le> pm_managed_page_count m'" using assms(6,7) by (simp_all add: m' run_at_def)
  have "0 < p" using run_positive [OF assms(1) _ assms(6)] assms(5) by simp
  then have "found_run m' c a \<noteq> None" using found_run_exact(2) [OF ok' _ assms(4) _ assms(2) _ run] assms(3,5) by (auto simp: m')
  then obtain x where "found_run m' c a = Some x" by blast
  then show ?thesis using physical_okD(1) [OF ok'] assms(3-5) enough unfolding physical_allocate_eq Let_def by (simp add: m')
qed

text \<open>An allocation fails although enough aligned free pages lie in one run, when every such run
  straddles the search hint: the first pass starts at the hint and the second ends there.\<close>

theorem physical_allocate_straddled_run_missed:
  assumes "physical_ok m" and "a \<le> UINT64_MAX" and "a \<noteq> 0" and "is_power_of_two a" and "c \<noteq> 0" and "c \<le> pm_free_page_count m"
    and "\<forall>p. run_at m c a p \<and> p + c \<le> pm_managed_page_count m \<longrightarrow> p < pm_search_hint m \<and> pm_search_hint m < p + c"
  shows "physical_allocate_pages c a m = (m\<lparr>pm_search_hint := 1\<rparr>, Inl IOS_E_NO_MEMORY)"
proof -
  have "found_run m c a = None"
  proof (rule ccontr)
    assume "found_run m c a \<noteq> None"
    then obtain p where p: "found_run m c a = Some p" by blast
    obtain k where k: "a = 2 ^ k" "k < 64" using power_of_two_word [OF assms(4) _ assms(2)] assms(3) by blast
    have "pm_search_hint m \<le> p \<or> p + c \<le> pm_search_hint m"
      using p allocate_pass_exact(1) [OF k, of c] assms(5) physical_okD(3,9) [OF assms(1)]
      by (auto simp: found_run_def split: option.splits)
    moreover have "run_at m c a p" "p + c \<le> pm_managed_page_count m"
      using found_run_exact(1) [OF assms(1) _ assms(4) _ assms(2) p] assms(3,5) by simp_all
    ultimately show False using assms(7) by force
  qed
  then show ?thesis using assms(3-6) physical_okD(1) [OF assms(1)] unfolding physical_allocate_eq by simp
qed


section \<open>Release\<close>

text \<open>A run of allocated or reclaimable pages becomes free.\<close>

lemma freed_run:
  assumes ok: "physical_ok m" and accepted: "\<not> range_rejected (p * IOS_PAGE_SIZE) c m"
    and st: "\<not> list_ex (\<lambda>offset. get_page_state m (p + offset) \<noteq> s) [0..<c]" and s: "s \<noteq> PAGE_FREE" "s \<noteq> PAGE_UNAVAILABLE"
  defines "m' \<equiv> fold (\<lambda>offset. set_page_state (p + offset) PAGE_FREE) [0..<c] m"
  shows "p + c \<le> pm_managed_page_count m" and "\<forall>q. p \<le> q \<and> q < p + c \<longrightarrow> get_page_state m q = s" and "moved p c PAGE_FREE m m'"
    and "physical_ok (m'\<lparr>pm_free_page_count := pm_free_page_count m' + c,
      pm_allocated_page_count := (if s = PAGE_ALLOCATED then pm_allocated_page_count m' - c else pm_allocated_page_count m'),
      pm_search_hint := (if p < pm_search_hint m' then p else pm_search_hint m')\<rparr>)"
proof -
  have fits: "c \<noteq> 0" "p < pm_managed_page_count m" "c \<le> pm_managed_page_count m - p" using accepted by (simp_all add: range_rejected_def not_le not_less)
  then show le: "p + c \<le> pm_managed_page_count m" by linarith
  have run: "get_page_state m (p + i) = s" if "i < c" for i using st that by (simp add: list_ex_iff)
  show "\<forall>q. p \<le> q \<and> q < p + c \<longrightarrow> get_page_state m q = s"
  proof (intro allI impI)
    fix q assume "p \<le> q \<and> q < p + c"
    then have "q - p < c" "p + (q - p) = q" by auto
    then show "get_page_state m q = s" using run [of "q - p"] by simp
  qed
  show mv: "moved p c PAGE_FREE m m'" unfolding m'_def by (rule set_run_moved [OF ok le])
  have "p \<noteq> 0" using run [of 0] fits(1) physical_okD(5) [OF ok] s(2) by (cases "p = 0") auto
  note cards = moved_pages [OF mv le run s(1)]
  let ?m = "m'\<lparr>pm_free_page_count := pm_free_page_count m' + c,
      pm_allocated_page_count := (if s = PAGE_ALLOCATED then pm_allocated_page_count m' - c else pm_allocated_page_count m'),
      pm_search_hint := (if p < pm_search_hint m' then p else pm_search_hint m')\<rparr>"
  have "moved p c PAGE_FREE m ?m" using mv by (simp add: moved_def)
  moreover have "pages ?m u = pages m' u" for u by (simp add: pages_def)
  moreover have "card (pages m' PAGE_ALLOCATED) = (if s = PAGE_ALLOCATED then card (pages m PAGE_ALLOCATED) - c else card (pages m PAGE_ALLOCATED))"
    using cards(1) cards(4) [of PAGE_ALLOCATED] by auto
  ultimately show "physical_ok ?m"
    using cards(2) physical_okD [OF ok] \<open>p \<noteq> 0\<close> by (intro moved_ok [OF ok]) (simp_all add: m'_def)
qed

lemma accepted_address: "\<not> range_rejected x c m \<Longrightarrow> x = x div IOS_PAGE_SIZE * IOS_PAGE_SIZE"
  by (auto simp: range_rejected_def)

text \<open>Pages are given back only if all of them are allocated: then exactly they become free and the
  counts stay exact; otherwise nothing changes. In particular a second release of the same pages is
  refused.\<close>

theorem physical_free_exact:
  assumes "physical_ok m" and "physical_free_pages address c m = (m', r)"
  shows "physical_ok m' \<and> (case r of
      Inl e \<Rightarrow> m' = m
    | Inr _ \<Rightarrow> \<exists>p. address = p * IOS_PAGE_SIZE \<and> p + c \<le> pm_managed_page_count m
        \<and> (\<forall>q. p \<le> q \<and> q < p + c \<longrightarrow> get_page_state m q = PAGE_ALLOCATED)
        \<and> (\<forall>q. get_page_state m' q = (if p \<le> q \<and> q < p + c then PAGE_FREE else get_page_state m q))
        \<and> physical_free_pages address c m' = (m', Inl IOS_E_INVALID_STATE))"
proof (cases "range_rejected address c m \<or> list_ex (\<lambda>offset. get_page_state m (address div IOS_PAGE_SIZE + offset) \<noteq> PAGE_ALLOCATED) [0..<c]")
  case True
  then have "m' = m \<and> (\<exists>e. r = Inl e)" using assms(2) unfolding physical_free_pages_def Let_def by (auto split: if_splits)
  then show ?thesis using assms(1) by auto
next
  case False
  define p where "p = address div IOS_PAGE_SIZE"
  have x: "address = p * IOS_PAGE_SIZE" using accepted_address False unfolding p_def by blast
  have acc: "\<not> range_rejected (p * IOS_PAGE_SIZE) c m" using False unfolding x [symmetric] by blast
  have st: "\<not> list_ex (\<lambda>offset. get_page_state m (p + offset) \<noteq> PAGE_ALLOCATED) [0..<c]" using False unfolding p_def by blast
  note run = freed_run [OF assms(1) acc st, simplified]
  let ?m = "fold (\<lambda>offset. set_page_state (p + offset) PAGE_FREE) [0..<c] m"
  have m': "m' = ?m\<lparr>pm_free_page_count := pm_free_page_count ?m + c, pm_allocated_page_count := pm_allocated_page_count ?m - c,
      pm_search_hint := (if p < pm_search_hint ?m then p else pm_search_hint ?m)\<rparr>" "r = Inr ()"
    using assms(2) unfolding physical_free_pages_def Let_def p_def [symmetric] if_not_P [OF acc [folded x]] if_not_P [OF st]
    by (metis prod.inject)+
  have states: "\<forall>q. get_page_state m' q = (if p \<le> q \<and> q < p + c then PAGE_FREE else get_page_state m q)" using run(3) by (simp add: m'(1) moved_def)
  have c: "c \<noteq> 0" using acc by (simp add: range_rejected_def)
  have "\<not> range_rejected address c m'" using acc by (simp add: x range_rejected_def m'(1))
  moreover have "list_ex (\<lambda>offset. get_page_state m' (p + offset) \<noteq> PAGE_ALLOCATED) [0..<c]" using states c by (auto simp: list_ex_iff)
  ultimately have "physical_free_pages address c m' = (m', Inl IOS_E_INVALID_STATE)" unfolding physical_free_pages_def Let_def p_def by simp
  then show ?thesis using run(1,2,4) states x unfolding m'(2) by (auto simp: m'(1))
qed

text \<open>Reclaiming works on reclaimable pages only, and exactly as release does on allocated ones.\<close>

theorem physical_reclaim_exact:
  assumes "physical_ok m" and "physical_reclaim_pages address c m = (m', r)"
  shows "physical_ok m' \<and> (case r of
      Inl e \<Rightarrow> m' = m
    | Inr _ \<Rightarrow> \<exists>p. address = p * IOS_PAGE_SIZE \<and> p + c \<le> pm_managed_page_count m
        \<and> (\<forall>q. p \<le> q \<and> q < p + c \<longrightarrow> get_page_state m q = PAGE_RECLAIMABLE)
        \<and> (\<forall>q. get_page_state m' q = (if p \<le> q \<and> q < p + c then PAGE_FREE else get_page_state m q)))"
proof (cases "range_rejected address c m \<or> list_ex (\<lambda>offset. get_page_state m (address div IOS_PAGE_SIZE + offset) \<noteq> PAGE_RECLAIMABLE) [0..<c]")
  case True
  then have "m' = m \<and> (\<exists>e. r = Inl e)" using assms(2) unfolding physical_reclaim_pages_def Let_def by (auto split: if_splits)
  then show ?thesis using assms(1) by auto
next
  case False
  define p where "p = address div IOS_PAGE_SIZE"
  have x: "address = p * IOS_PAGE_SIZE" using accepted_address False unfolding p_def by blast
  have acc: "\<not> range_rejected (p * IOS_PAGE_SIZE) c m" using False unfolding x [symmetric] by blast
  have st: "\<not> list_ex (\<lambda>offset. get_page_state m (p + offset) \<noteq> PAGE_RECLAIMABLE) [0..<c]" using False unfolding p_def by blast
  note run = freed_run [OF assms(1) acc st, simplified]
  let ?m = "fold (\<lambda>offset. set_page_state (p + offset) PAGE_FREE) [0..<c] m"
  have m': "m' = ?m\<lparr>pm_free_page_count := pm_free_page_count ?m + c, pm_search_hint := (if p < pm_search_hint ?m then p else pm_search_hint ?m)\<rparr>" "r = Inr ()"
    using assms(2) unfolding physical_reclaim_pages_def Let_def p_def [symmetric] if_not_P [OF acc [folded x]] if_not_P [OF st]
    by (metis prod.inject)+
  have "get_page_state m' q = (if p \<le> q \<and> q < p + c then PAGE_FREE else get_page_state m q)" for q using run(3) by (simp add: m'(1) moved_def)
  moreover have "physical_ok m'" using run(4) by (simp add: m'(1) physical_ok_def pages_def)
  ultimately show ?thesis using run(1,2) x unfolding m'(2) by auto
qed

text \<open>Giving back what an allocation has just handed out succeeds and restores the state of every page
  and both counts.\<close>

theorem physical_allocate_free_roundtrip:
  assumes "physical_ok m" and "a \<le> UINT64_MAX" and "physical_allocate_pages c a m = (m', Inr address)"
  shows "\<exists>m''. physical_free_pages address c m' = (m'', Inr ()) \<and> (\<forall>q. get_page_state m'' q = get_page_state m q)
    \<and> pm_free_page_count m'' = pm_free_page_count m \<and> pm_allocated_page_count m'' = pm_allocated_page_count m"
proof -
  have c: "c \<noteq> 0" "a \<noteq> 0" "is_power_of_two a" "c \<le> pm_free_page_count m" using assms(3) unfolding physical_allocate_eq by (auto split: if_splits)
  obtain p where p: "found_run m c a = Some p" using assms(3) c unfolding physical_allocate_eq by (auto split: if_splits option.splits)
  note run = allocate_run [OF assms(1,2) c(1-3) p]
  let ?m = "fold (\<lambda>offset. set_page_state (p + offset) PAGE_ALLOCATED) [0..<c] m"
  have m': "m' = ?m\<lparr>pm_free_page_count := pm_free_page_count ?m - c, pm_allocated_page_count := pm_allocated_page_count ?m + c,
      pm_search_hint := (if p + c \<ge> pm_managed_page_count ?m then 1 else p + c)\<rparr>" "address = p * IOS_PAGE_SIZE"
    using assms(3) c p physical_okD(1) [OF assms(1)] unfolding physical_allocate_eq Let_def by auto
  have ok': "physical_ok m'" using run(1) unfolding m'(1) .
  have acc: "\<not> range_rejected (p * IOS_PAGE_SIZE) c m'"
    using c(1) run(4) physical_okD(1) [OF ok'] by (simp add: range_rejected_def m'(1))
  have st: "\<not> list_ex (\<lambda>offset. get_page_state m' (p + offset) \<noteq> PAGE_ALLOCATED) [0..<c]"
    using run(5) by (simp add: list_ex_iff m'(1) moved_def)
  let ?m2 = "fold (\<lambda>offset. set_page_state (p + offset) PAGE_FREE) [0..<c] m'"
  have freed: "moved p c PAGE_FREE m' ?m2" by (rule freed_run(3) [OF ok' acc st]) simp_all
  have "physical_free_pages address c m' = (?m2\<lparr>pm_free_page_count := pm_free_page_count ?m2 + c,
      pm_allocated_page_count := pm_allocated_page_count ?m2 - c,
      pm_search_hint := (if p < pm_search_hint ?m2 then p else pm_search_hint ?m2)\<rparr>, Inr ())"
    using acc st by (simp add: physical_free_pages_def m'(2))
  moreover have "get_page_state ?m2 q = get_page_state m q" for q
  proof (cases "p \<le> q \<and> q < p + c")
    case True
    then have "q - p < c" "p + (q - p) = q" by auto
    then have "get_page_state m q = PAGE_FREE" using run(2) unfolding run_at_def by metis
    then show ?thesis using freed True by (simp add: moved_def)
  next
    case False
    then have "get_page_state ?m q = get_page_state m q" using moved_at [OF run(5), of q] by (simp only: if_False)
    then have "get_page_state m' q = get_page_state m q" by (simp add: m'(1))
    then show ?thesis using moved_at [OF freed, of q] False by (simp only: if_False)
  qed
  ultimately show ?thesis using c(4) by (simp add: m'(1))
qed

section \<open>Witnesses\<close>

text \<open>Nine pages: the first is unavailable, and the fifth and sixth are allocated or free like the rest.\<close>

definition demo_memory :: "bool \<Rightarrow> nat \<Rightarrow> physical_memory" where
  "demo_memory taken hint = \<lparr>pm_page_states = [0x54, (if taken then 0x5a else 0x55), 0x01], pm_managed_page_count = 9,
     pm_free_page_count = (if taken then 6 else 8), pm_allocated_page_count = (if taken then 2 else 0),
     pm_metadata_physical_base = 0, pm_metadata_page_count = 1, pm_search_hint = hint, pm_allocator_initialized = True\<rparr>"

lemma demo_memory_states:
  "map (get_page_state (demo_memory taken hint)) [0..<9] = PAGE_UNAVAILABLE # replicate 3 PAGE_FREE
     @ replicate 2 (if taken then PAGE_ALLOCATED else PAGE_FREE) @ replicate 3 PAGE_FREE"
proof (cases taken)
  case True
  then have t: "taken = True" by simp
  show ?thesis unfolding demo_memory_def t if_True by code_simp
next
  case False
  then have f: "taken = False" by simp
  show ?thesis unfolding demo_memory_def f if_False by code_simp
qed

lemma demo_memory_state:
  assumes "q < 9"
  shows "get_page_state (demo_memory taken hint) q = (if q = 0 then PAGE_UNAVAILABLE else if taken \<and> (q = 4 \<or> q = 5) then PAGE_ALLOCATED else PAGE_FREE)"
proof -
  have "get_page_state (demo_memory taken hint) q = (PAGE_UNAVAILABLE # replicate 3 PAGE_FREE
     @ replicate 2 (if taken then PAGE_ALLOCATED else PAGE_FREE) @ replicate 3 PAGE_FREE) ! q"
    using arg_cong [OF demo_memory_states [of taken hint], of "\<lambda>xs. xs ! q"] assms by simp
  also have "\<dots> = (if q = 0 then PAGE_UNAVAILABLE else if taken \<and> (q = 4 \<or> q = 5) then PAGE_ALLOCATED else PAGE_FREE)"
    using assms by (auto simp: nth_Cons' nth_append)
  finally show ?thesis .
qed

lemma demo_memory_ok:
  assumes "1 \<le> hint" "hint \<le> 9"
  shows "physical_ok (demo_memory taken hint)"
proof -
  have n: "pm_managed_page_count (demo_memory taken hint) = 9" by (simp add: demo_memory_def)
  have "pages (demo_memory taken hint) PAGE_FREE = (if taken then {1, 2, 3, 6, 7, 8} else {1, 2, 3, 4, 5, 6, 7, 8})"
    "pages (demo_memory taken hint) PAGE_ALLOCATED = (if taken then {4, 5} else {})"
    using demo_memory_state [of _ taken hint] by (auto simp: pages_def n split: if_splits)
  then show ?thesis using assms demo_memory_state [of 0 taken hint] by (simp add: physical_ok_def) (simp add: demo_memory_def)
qed

lemma demo_allocates: "physical_allocate_pages 2 4 (demo_memory False 1) = (fst (physical_allocate_pages 2 4 (demo_memory False 1)), Inr 0x4000)"
  unfolding demo_memory_def by code_simp

theorem physical_allocate_exact_witness: "get_page_state (fst (physical_allocate_pages 2 4 (demo_memory False 1))) 4 = PAGE_ALLOCATED"
  using physical_allocate_exact [OF demo_memory_ok _ demo_allocates] by auto

theorem physical_allocate_free_roundtrip_witness:
  "\<exists>m. physical_free_pages 0x4000 2 (fst (physical_allocate_pages 2 4 (demo_memory False 1))) = (m, Inr ())"
  using physical_allocate_free_roundtrip [OF demo_memory_ok _ demo_allocates] by auto

lemma demo_taken:
  "\<not> range_rejected 0x4000 2 (demo_memory True 1)" "get_page_state (demo_memory True 1) 4 = PAGE_ALLOCATED" "get_page_state (demo_memory True 1) 5 = PAGE_ALLOCATED"
  "[0..<2] = [0, 1 :: nat]"
  using demo_memory_state [of 4 True 1] demo_memory_state [of 5 True 1] by (simp_all add: range_rejected_def) (simp_all add: demo_memory_def upt_rec)

theorem physical_free_exact_witness:
  "snd (physical_free_pages 0x4000 2 (demo_memory True 1)) = Inr () \<and> get_page_state (fst (physical_free_pages 0x4000 2 (demo_memory True 1))) 5 = PAGE_FREE"
proof -
  have s: "snd (physical_free_pages 0x4000 2 (demo_memory True 1)) = Inr ()"
    using demo_taken by (simp add: physical_free_pages_def Let_def)
  then have run: "physical_free_pages 0x4000 2 (demo_memory True 1) = (fst (physical_free_pages 0x4000 2 (demo_memory True 1)), Inr ())"
    by (metis prod.collapse)
  show ?thesis using physical_free_exact [OF demo_memory_ok run] s by auto
qed

theorem physical_reclaim_exact_witness:
  "snd (physical_reclaim_pages 0x4000 2 (demo_memory True 1)) = Inl IOS_E_INVALID_STATE \<and> fst (physical_reclaim_pages 0x4000 2 (demo_memory True 1)) = demo_memory True 1"
proof -
  have "snd (physical_reclaim_pages 0x4000 2 (demo_memory True 1)) = Inl IOS_E_INVALID_STATE"
    using demo_taken by (simp add: physical_reclaim_pages_def Let_def)
  then have run: "physical_reclaim_pages 0x4000 2 (demo_memory True 1) = (fst (physical_reclaim_pages 0x4000 2 (demo_memory True 1)), Inl IOS_E_INVALID_STATE)"
    by (metis prod.collapse)
  show ?thesis using physical_reclaim_exact [OF demo_memory_ok run] run by simp
qed

lemma demo_runs: "run_at (demo_memory False 4) 7 1 p \<and> p + 7 \<le> 9 \<longleftrightarrow> p = 1 \<or> p = 2"
proof
  assume p: "run_at (demo_memory False 4) 7 1 p \<and> p + 7 \<le> 9"
  then have "get_page_state (demo_memory False 4) (p + 0) = PAGE_FREE" unfolding run_at_def by (metis zero_less_numeral)
  then have "p \<noteq> 0" using demo_memory_state [of 0 False 4] by (cases "p = 0") auto
  then show "p = 1 \<or> p = 2" using p by auto
next
  assume "p = 1 \<or> p = 2"
  then show "run_at (demo_memory False 4) 7 1 p \<and> p + 7 \<le> 9" using demo_memory_state [of _ False 4] by (auto simp: run_at_def)
qed

lemma one_power [simp]: "is_power_of_two 1"
  by (simp add: is_power_of_two_def)

theorem physical_allocate_straddled_run_missed_witness:
  "snd (physical_allocate_pages 7 1 (demo_memory False 4)) = Inl IOS_E_NO_MEMORY \<and> run_at (demo_memory False 4) 7 1 1"
proof -
  have n: "pm_managed_page_count (demo_memory False 4) = 9" "pm_free_page_count (demo_memory False 4) = 8" "pm_search_hint (demo_memory False 4) = 4"
    by (simp_all add: demo_memory_def)
  have "\<forall>p. run_at (demo_memory False 4) 7 1 p \<and> p + 7 \<le> pm_managed_page_count (demo_memory False 4)
    \<longrightarrow> p < pm_search_hint (demo_memory False 4) \<and> pm_search_hint (demo_memory False 4) < p + 7"
    unfolding n using demo_runs by auto
  from physical_allocate_straddled_run_missed [OF demo_memory_ok _ _ one_power _ _ this] show ?thesis
    using demo_runs [of 1] by (simp add: n)
qed

theorem physical_allocate_retry_witness:
  "\<exists>m address. physical_allocate_pages 7 1 (fst (physical_allocate_pages 7 1 (demo_memory False 4))) = (m, Inr address)"
proof -
  have "snd (physical_allocate_pages 7 1 (demo_memory False 4)) = Inl IOS_E_NO_MEMORY" unfolding demo_memory_def by code_simp
  then have fails: "physical_allocate_pages 7 1 (demo_memory False 4) = (fst (physical_allocate_pages 7 1 (demo_memory False 4)), Inl IOS_E_NO_MEMORY)"
    by (metis prod.collapse)
  have "run_at (demo_memory False 4) 7 1 1" "1 + 7 \<le> pm_managed_page_count (demo_memory False 4)" using demo_runs [of 1] by (simp_all add: demo_memory_def)
  from physical_allocate_retry [OF demo_memory_ok _ _ one_power _ this fails] show ?thesis by simp
qed

definition demo_map :: "ios_physical_memory_region list" where
  "demo_map = [\<lparr>rg_base = 0x100000, rg_page_count = 256, rg_kind = IOS_PHYSICAL_USABLE\<rparr>]"

theorem physical_initialize_exact_witness:
  "physical_ok (fst (physical_memory_initialize demo_map [] ((demo_memory False 1)\<lparr>pm_allocator_initialized := False\<rparr>)))"
proof -
  let ?m = "(demo_memory False 1)\<lparr>pm_allocator_initialized := False\<rparr>"
  have "snd (physical_memory_initialize demo_map [] ?m) = Inr ()"
    by (simp add: physical_memory_initialize_def demo_map_def region_end_of_def multiply_overflows_def add_overflows_def Let_def
        metadata_loop.simps demo_memory_def)
  then have run: "physical_memory_initialize demo_map [] ?m = (fst (physical_memory_initialize demo_map [] ?m), Inr ())" by (metis prod.collapse)
  show ?thesis using physical_initialize_exact [OF run] by blast
qed

end
