(* ===== verification/Kernel_Virtual.thy ===== *)
theory Kernel_Virtual
  imports Kernel_Physical "HOL-Library.Sublist"
begin

text \<open>
  Page tables (kernel/memory/virtual.c). Tables are pages of 512 entries, addressed physically
  and reached through the identity mapping, so that the memory they live in is a function from a table's
  address and an index to the entry, a 64-bit word with the hardware's bits. New tables come from the
  allocator of \<open>Kernel_Physical\<close> and go back to it. The processor's root register is a field; an
  invalidation of a cached translation is recorded. The invariant \<open>forest_ok\<close> says that the user halves of all
  address spaces are disjoint trees of allocated pages; the lemmas say what mapping and unmapping one page,
  their failures included, do to every leaf of every address space. \<open>Kernel_Spaces\<close> has the theorems.
\<close>

section \<open>State\<close>

abbreviation PAGE_TABLE_ENTRY_COUNT :: nat where "PAGE_TABLE_ENTRY_COUNT \<equiv> 512"
abbreviation PTE_PRESENT :: u64 where "PTE_PRESENT \<equiv> 0x001"
abbreviation PTE_WRITABLE :: u64 where "PTE_WRITABLE \<equiv> 0x002"
abbreviation PTE_USER :: u64 where "PTE_USER \<equiv> 0x004"
abbreviation PTE_LARGE :: u64 where "PTE_LARGE \<equiv> 0x080"
abbreviation PTE_GLOBAL :: u64 where "PTE_GLOBAL \<equiv> 0x100"
abbreviation PTE_OWNED :: u64 where "PTE_OWNED \<equiv> 0x200"
abbreviation PTE_ADDRESS_MASK :: u64 where "PTE_ADDRESS_MASK \<equiv> 0x000ffffffffff000"
abbreviation PTE_2M_ADDRESS_MASK :: u64 where "PTE_2M_ADDRESS_MASK \<equiv> 0x000fffffffe00000"
abbreviation PTE_1G_ADDRESS_MASK :: u64 where "PTE_1G_ADDRESS_MASK \<equiv> 0x000fffffc0000000"
abbreviation PTE_NO_EXECUTE :: u64 where "PTE_NO_EXECUTE \<equiv> 0x8000000000000000"
abbreviation VM_USER_START :: nat where "VM_USER_START \<equiv> 0x0000010000000000"
abbreviation VM_USER_END :: nat where "VM_USER_END \<equiv> 0x0000800000000000"

abbreviation IOS_VM_WRITE :: u32 where "IOS_VM_WRITE \<equiv> 1"
abbreviation IOS_VM_EXECUTE :: u32 where "IOS_VM_EXECUTE \<equiv> 2"
abbreviation IOS_VM_USER :: u32 where "IOS_VM_USER \<equiv> 4"
abbreviation IOS_VM_GLOBAL :: u32 where "IOS_VM_GLOBAL \<equiv> 8"
abbreviation IOS_VM_OWNED :: u32 where "IOS_VM_OWNED \<equiv> 16"

record virtual_memory =
  vm_tables :: "nat \<Rightarrow> nat \<Rightarrow> u64"
  vm_physical :: physical_memory
  vm_execute_disable_enabled :: bool
  vm_kernel_root_address :: nat
  vm_paging_root :: nat
  vm_invalidated :: "nat list"

definition entry_at :: "virtual_memory \<Rightarrow> nat \<Rightarrow> nat \<Rightarrow> u64" where
  "entry_at s table index = vm_tables s table index"

definition set_entry :: "nat \<Rightarrow> nat \<Rightarrow> u64 \<Rightarrow> virtual_memory \<Rightarrow> virtual_memory" where
  "set_entry table index entry s =
     s\<lparr>vm_tables := (vm_tables s)(table := (vm_tables s table)(index := entry))\<rparr>"

definition clear_table :: "nat \<Rightarrow> virtual_memory \<Rightarrow> virtual_memory" where
  "clear_table table s = s\<lparr>vm_tables := (vm_tables s)(table := (\<lambda>_. 0))\<rparr>"

text \<open>A page given back to the allocator; the code ignores the status.\<close>

definition free_page :: "nat \<Rightarrow> virtual_memory \<Rightarrow> virtual_memory" where
  "free_page address s = s\<lparr>vm_physical := fst (physical_free_pages address 1 (vm_physical s))\<rparr>"

definition invalidate_if_active :: "nat \<Rightarrow> nat \<Rightarrow> virtual_memory \<Rightarrow> virtual_memory" where
  "invalidate_if_active root virtual_address s =
     (if root = vm_paging_root s then s\<lparr>vm_invalidated := vm_invalidated s @ [virtual_address]\<rparr> else s)"

section \<open>Indices and entries\<close>

definition pml4_index :: "nat \<Rightarrow> nat" where "pml4_index address = address div 2 ^ 39 mod 512"
definition pdpt_index :: "nat \<Rightarrow> nat" where "pdpt_index address = address div 2 ^ 30 mod 512"
definition pd_index :: "nat \<Rightarrow> nat" where "pd_index address = address div 2 ^ 21 mod 512"
definition pt_index :: "nat \<Rightarrow> nat" where "pt_index address = address div 2 ^ 12 mod 512"

definition table_from_entry :: "u64 \<Rightarrow> nat" where
  "table_from_entry entry = unat (entry AND PTE_ADDRESS_MASK)"

definition table_is_empty :: "virtual_memory \<Rightarrow> nat \<Rightarrow> bool" where
  "table_is_empty s table \<longleftrightarrow> list_all (\<lambda>index. entry_at s table index = 0) [0..<PAGE_TABLE_ENTRY_COUNT]"

section \<open>Walking and changing the tables\<close>

definition ensure_next_table ::
  "nat \<Rightarrow> nat \<Rightarrow> bool \<Rightarrow> virtual_memory \<Rightarrow> virtual_memory \<times> (nat \<times> bool) res" where
  "ensure_next_table table index user s =
     (let entry = entry_at s table index in
      if entry AND PTE_PRESENT \<noteq> 0 then
        if entry AND PTE_LARGE \<noteq> 0 then (s, Inl IOS_E_INVALID_STATE)
        else
          let entry = (if user then entry OR (PTE_USER OR PTE_WRITABLE) else entry)
          in (set_entry table index entry s, Inr (table_from_entry entry, False))
      else
        case physical_allocate_pages 1 1 (vm_physical s) of
          (physical, Inl e) \<Rightarrow> (s\<lparr>vm_physical := physical\<rparr>, Inl e)
        | (physical, Inr physical_address) \<Rightarrow>
            (set_entry table index (of_nat physical_address OR PTE_PRESENT OR PTE_WRITABLE OR (if user then PTE_USER else 0))
               (clear_table physical_address (s\<lparr>vm_physical := physical\<rparr>)),
             Inr (physical_address, True)))"

definition next_table :: "virtual_memory \<Rightarrow> nat \<Rightarrow> nat \<Rightarrow> nat option" where
  "next_table s table index =
     (let entry = entry_at s table index in
      if entry AND PTE_PRESENT = 0 \<or> entry AND PTE_LARGE \<noteq> 0 then None else Some (table_from_entry entry))"

definition locate_leaf :: "virtual_memory \<Rightarrow> nat \<Rightarrow> nat \<Rightarrow> (nat \<times> nat) res" where
  "locate_leaf s root virtual_address =
     (case next_table s root (pml4_index virtual_address) of
        None \<Rightarrow> Inl IOS_E_NOT_FOUND
      | Some pdpt \<Rightarrow>
        (case next_table s pdpt (pdpt_index virtual_address) of
           None \<Rightarrow> Inl IOS_E_NOT_FOUND
         | Some pd \<Rightarrow>
           (case next_table s pd (pd_index virtual_address) of
              None \<Rightarrow> Inl IOS_E_NOT_FOUND
            | Some pt \<Rightarrow> Inr (pt, pt_index virtual_address))))"

text \<open>Taking a table that was just made out of its parent again.\<close>

definition undo_table :: "bool \<Rightarrow> nat \<Rightarrow> nat \<Rightarrow> nat \<Rightarrow> virtual_memory \<Rightarrow> virtual_memory" where
  "undo_table created parent index table s = (if created then free_page table (set_entry parent index 0 s) else s)"

definition leaf_flags :: "u32 \<Rightarrow> u64" where
  "leaf_flags flags = PTE_PRESENT
     OR (if flags AND IOS_VM_WRITE \<noteq> 0 then PTE_WRITABLE else 0)
     OR (if flags AND IOS_VM_USER \<noteq> 0 then PTE_USER else 0)
     OR (if flags AND IOS_VM_GLOBAL \<noteq> 0 then PTE_GLOBAL else 0)
     OR (if flags AND IOS_VM_OWNED \<noteq> 0 then PTE_OWNED else 0)
     OR (if flags AND IOS_VM_EXECUTE = 0 then PTE_NO_EXECUTE else 0)"

definition map_one :: "nat \<Rightarrow> nat \<Rightarrow> nat \<Rightarrow> u32 \<Rightarrow> virtual_memory \<Rightarrow> virtual_memory \<times> unit res" where
  "map_one root virtual_address physical_address flags s =
     (let user = flags AND IOS_VM_USER \<noteq> 0 in
      case ensure_next_table root (pml4_index virtual_address) user s of
        (s, Inl e) \<Rightarrow> (s, Inl e)
      | (s, Inr (pdpt, created_pdpt)) \<Rightarrow>
        (case ensure_next_table pdpt (pdpt_index virtual_address) user s of
           (s, Inl e) \<Rightarrow> (undo_table created_pdpt root (pml4_index virtual_address) pdpt s, Inl e)
         | (s, Inr (pd, created_pd)) \<Rightarrow>
           (case ensure_next_table pd (pd_index virtual_address) user s of
              (s, Inl e) \<Rightarrow>
                (undo_table created_pdpt root (pml4_index virtual_address) pdpt
                   (undo_table created_pd pdpt (pdpt_index virtual_address) pd s), Inl e)
            | (s, Inr (pt, created_pt)) \<Rightarrow>
                let index = pt_index virtual_address in
                if entry_at s pt index AND PTE_PRESENT \<noteq> 0 then
                  (undo_table created_pdpt root (pml4_index virtual_address) pdpt
                     (undo_table created_pd pdpt (pdpt_index virtual_address) pd
                        (undo_table created_pt pd (pd_index virtual_address) pt s)), Inl IOS_E_ALREADY_EXISTS)
                else
                  (invalidate_if_active root virtual_address
                     (set_entry pt index (of_nat physical_address OR leaf_flags flags) s), Inr ()))))"

definition release_empty :: "nat \<Rightarrow> nat \<Rightarrow> nat \<Rightarrow> virtual_memory \<Rightarrow> virtual_memory" where
  "release_empty parent index table s =
     (if table_is_empty s table then free_page table (set_entry parent index 0 s) else s)"

definition unmap_one :: "nat \<Rightarrow> nat \<Rightarrow> bool \<Rightarrow> virtual_memory \<Rightarrow> virtual_memory \<times> unit res" where
  "unmap_one root virtual_address release_owned_page s =
     (case next_table s root (pml4_index virtual_address) of
        None \<Rightarrow> (s, Inl IOS_E_NOT_FOUND)
      | Some pdpt \<Rightarrow>
        (case next_table s pdpt (pdpt_index virtual_address) of
           None \<Rightarrow> (s, Inl IOS_E_NOT_FOUND)
         | Some pd \<Rightarrow>
           (case next_table s pd (pd_index virtual_address) of
              None \<Rightarrow> (s, Inl IOS_E_NOT_FOUND)
            | Some pt \<Rightarrow>
                let old_entry = entry_at s pt (pt_index virtual_address) in
                if old_entry AND PTE_PRESENT = 0 then (s, Inl IOS_E_NOT_FOUND)
                else
                  let s = invalidate_if_active root virtual_address (set_entry pt (pt_index virtual_address) 0 s);
                      s = (if release_owned_page \<and> old_entry AND PTE_OWNED \<noteq> 0
                           then free_page (table_from_entry old_entry) s else s);
                      s = release_empty pd (pd_index virtual_address) pt s;
                      s = release_empty pdpt (pdpt_index virtual_address) pd s;
                      s = release_empty root (pml4_index virtual_address) pdpt s
                  in (s, Inr ()))))"

primrec destroy_table :: "nat \<Rightarrow> nat \<Rightarrow> virtual_memory \<Rightarrow> virtual_memory" where
  "destroy_table 0 table s = s"
| "destroy_table (Suc l) table s =
     fold (\<lambda>index s.
       let entry = entry_at s table index in
       if entry AND PTE_PRESENT = 0 then s
       else
         let s = (if l = 0 \<or> entry AND PTE_LARGE \<noteq> 0
                  then (if entry AND PTE_OWNED \<noteq> 0 then free_page (table_from_entry entry) s else s)
                  else free_page (table_from_entry entry) (destroy_table l (table_from_entry entry) s))
         in set_entry table index 0 s) [0..<PAGE_TABLE_ENTRY_COUNT] s"

section \<open>Interface\<close>

text \<open>\<open>x86_64_paging_enable_execute_disable\<close> reports whether the processor has the feature.\<close>

definition virtual_memory_initialize :: "bool \<Rightarrow> virtual_memory \<Rightarrow> virtual_memory \<times> unit res" where
  "virtual_memory_initialize has_execute_disable s =
     (if \<not> physical_memory_is_initialized (vm_physical s) then (s, Inl IOS_E_INVALID_STATE)
      else
        let s = s\<lparr>vm_kernel_root_address := vm_paging_root s, vm_execute_disable_enabled := has_execute_disable\<rparr>
        in (s, if has_execute_disable then Inr () else Inl IOS_E_NOT_SUPPORTED))"

definition virtual_kernel_address_space_activate :: "virtual_memory \<Rightarrow> virtual_memory option" where
  "virtual_kernel_address_space_activate s =
     (if vm_kernel_root_address s = 0 then None else Some (s\<lparr>vm_paging_root := vm_kernel_root_address s\<rparr>))"

definition virtual_address_is_canonical :: "nat \<Rightarrow> bool" where
  "virtual_address_is_canonical address \<longleftrightarrow> address \<le> 0x00007fffffffffff \<or> address \<ge> 0xffff800000000000"

definition virtual_user_range :: "nat \<Rightarrow> nat \<Rightarrow> bool" where
  "virtual_user_range address byte_count \<longleftrightarrow>
     \<not> (byte_count = 0 \<or> address < VM_USER_START \<or> address \<ge> VM_USER_END \<or> byte_count > UINT64_MAX - address)
     \<and> address + byte_count \<le> VM_USER_END"

definition virtual_range_is_canonical :: "nat \<Rightarrow> nat \<Rightarrow> bool" where
  "virtual_range_is_canonical address byte_count \<longleftrightarrow>
     \<not> (byte_count = 0 \<or> byte_count - 1 > UINT64_MAX - address)
     \<and> (let last = address + byte_count - 1 in
        if address \<le> 0x00007fffffffffff then last \<le> 0x00007fffffffffff
        else address \<ge> 0xffff800000000000 \<and> last \<ge> 0xffff800000000000)"

definition virtual_address_space_create :: "virtual_memory \<Rightarrow> virtual_memory \<times> nat res" where
  "virtual_address_space_create s =
     (if \<not> vm_execute_disable_enabled s then (s, Inl IOS_E_INVALID_STATE)
      else case physical_allocate_pages 1 1 (vm_physical s) of
        (physical, Inl e) \<Rightarrow> (s\<lparr>vm_physical := physical\<rparr>, Inl e)
      | (physical, Inr root) \<Rightarrow>
          let s = clear_table root (s\<lparr>vm_physical := physical\<rparr>);
              copy = (\<lambda>index s. set_entry root index (entry_at s (vm_kernel_root_address s) index) s);
              s = fold copy [0..<2] s;
              s = fold copy [256..<PAGE_TABLE_ENTRY_COUNT] s
          in (s, Inr root))"

text \<open>The assertions are \<open>None\<close>; the new root address of the space is zero.\<close>

definition virtual_address_space_destroy :: "nat \<Rightarrow> virtual_memory \<Rightarrow> virtual_memory option" where
  "virtual_address_space_destroy root s =
     (if root = 0 \<or> root = vm_kernel_root_address s then None
      else Some (free_page root (fold (\<lambda>index s.
        if entry_at s root index AND PTE_PRESENT \<noteq> 0 then
          let child = table_from_entry (entry_at s root index)
          in set_entry root index 0 (free_page child (destroy_table 3 child s))
        else s) [2..<256] s)))"

definition virtual_address_space_activate :: "nat \<Rightarrow> virtual_memory \<Rightarrow> virtual_memory option" where
  "virtual_address_space_activate root s = (if root = 0 then None else Some (s\<lparr>vm_paging_root := root\<rparr>))"

text \<open>Undoing the pages mapped so far, the last one first.\<close>

primrec unmap_back :: "nat \<Rightarrow> nat \<Rightarrow> nat \<Rightarrow> virtual_memory \<Rightarrow> virtual_memory" where
  "unmap_back root virtual_address 0 s = s"
| "unmap_back root virtual_address (Suc page) s =
     unmap_back root virtual_address page (fst (unmap_one root (virtual_address + page * IOS_PAGE_SIZE) False s))"

text \<open>The loop over the pages; \<open>left\<close> counts those not mapped yet.\<close>

primrec map_loop :: "nat \<Rightarrow> nat \<Rightarrow> nat \<Rightarrow> u32 \<Rightarrow> nat \<Rightarrow> nat \<Rightarrow> virtual_memory \<Rightarrow> virtual_memory \<times> unit res" where
  "map_loop root virtual_address physical_address flags 0 page s = (s, Inr ())"
| "map_loop root virtual_address physical_address flags (Suc left) page s =
     (case map_one root (virtual_address + page * IOS_PAGE_SIZE) (physical_address + page * IOS_PAGE_SIZE) flags s of
        (s, Inl e) \<Rightarrow> (unmap_back root virtual_address page s, Inl e)
      | (s, Inr _) \<Rightarrow> map_loop root virtual_address physical_address flags left (page + 1) s)"

definition map_rejected :: "nat \<Rightarrow> nat \<Rightarrow> nat \<Rightarrow> nat \<Rightarrow> u32 \<Rightarrow> virtual_memory \<Rightarrow> bool" where
  "map_rejected root virtual_address physical_address page_count flags s \<longleftrightarrow>
     \<not> vm_execute_disable_enabled s \<or> root = 0 \<or> page_count = 0 \<or> page_count > UINT64_MAX div IOS_PAGE_SIZE
     \<or> (let byte_count = page_count * IOS_PAGE_SIZE; user_range = virtual_user_range virtual_address byte_count in
        virtual_address mod IOS_PAGE_SIZE \<noteq> 0 \<or> physical_address mod IOS_PAGE_SIZE \<noteq> 0
        \<or> virtual_address > UINT64_MAX - byte_count
        \<or> physical_address > unat PTE_ADDRESS_MASK
        \<or> byte_count - IOS_PAGE_SIZE > unat PTE_ADDRESS_MASK - physical_address
        \<or> \<not> virtual_range_is_canonical virtual_address byte_count
        \<or> flags AND NOT (IOS_VM_WRITE OR IOS_VM_EXECUTE OR IOS_VM_USER OR IOS_VM_GLOBAL OR IOS_VM_OWNED) \<noteq> 0
        \<or> flags AND (IOS_VM_WRITE OR IOS_VM_EXECUTE) = (IOS_VM_WRITE OR IOS_VM_EXECUTE)
        \<or> (flags AND IOS_VM_USER \<noteq> 0) \<noteq> user_range
        \<or> (\<not> user_range \<and> root \<noteq> vm_paging_root s))"

definition virtual_map_pages ::
  "nat \<Rightarrow> nat \<Rightarrow> nat \<Rightarrow> nat \<Rightarrow> u32 \<Rightarrow> virtual_memory \<Rightarrow> virtual_memory \<times> unit res" where
  "virtual_map_pages root virtual_address physical_address page_count flags s =
     (if map_rejected root virtual_address physical_address page_count flags s then (s, Inl IOS_E_INVALID_ARGUMENT)
      else if flags AND IOS_VM_OWNED \<noteq> 0
              \<and> list_ex (\<lambda>page. \<not> physical_page_is_allocated (physical_address + page * IOS_PAGE_SIZE) (vm_physical s)) [0..<page_count]
      then (s, Inl IOS_E_INVALID_STATE)
      else map_loop root virtual_address physical_address flags page_count 0 s)"

definition unmap_rejected :: "nat \<Rightarrow> nat \<Rightarrow> nat \<Rightarrow> virtual_memory \<Rightarrow> bool" where
  "unmap_rejected root virtual_address page_count s \<longleftrightarrow>
     root = 0 \<or> page_count = 0 \<or> virtual_address mod IOS_PAGE_SIZE \<noteq> 0 \<or> page_count > UINT64_MAX div IOS_PAGE_SIZE
     \<or> virtual_address > UINT64_MAX - page_count * IOS_PAGE_SIZE
     \<or> (\<not> virtual_user_range virtual_address (page_count * IOS_PAGE_SIZE) \<and> root \<noteq> vm_paging_root s)"

definition virtual_unmap_pages :: "nat \<Rightarrow> nat \<Rightarrow> nat \<Rightarrow> virtual_memory \<Rightarrow> virtual_memory \<times> unit res" where
  "virtual_unmap_pages root virtual_address page_count s =
     (if unmap_rejected root virtual_address page_count s then (s, Inl IOS_E_INVALID_ARGUMENT)
      else if list_ex (\<lambda>page. case locate_leaf s root (virtual_address + page * IOS_PAGE_SIZE) of
                Inl _ \<Rightarrow> True | Inr (pt, index) \<Rightarrow> entry_at s pt index AND PTE_PRESENT = 0) [0..<page_count]
      then (s, Inl IOS_E_NOT_FOUND)
      else (fold (\<lambda>page s. fst (unmap_one root (virtual_address + page * IOS_PAGE_SIZE) True s)) [0..<page_count] s, Inr ()))"

definition virtual_translate :: "virtual_memory \<Rightarrow> nat \<Rightarrow> nat \<Rightarrow> nat res" where
  "virtual_translate s root virtual_address =
     (if root = 0 \<or> \<not> virtual_address_is_canonical virtual_address then Inl IOS_E_INVALID_ARGUMENT
      else
        let pml4e = entry_at s root (pml4_index virtual_address) in
        if pml4e AND PTE_PRESENT = 0 \<or> pml4e AND PTE_LARGE \<noteq> 0 then Inl IOS_E_NOT_FOUND
        else
          let pdpte = entry_at s (table_from_entry pml4e) (pdpt_index virtual_address) in
          if pdpte AND PTE_PRESENT = 0 then Inl IOS_E_NOT_FOUND
          else if pdpte AND PTE_LARGE \<noteq> 0 then Inr (unat (pdpte AND PTE_1G_ADDRESS_MASK) + virtual_address mod 2 ^ 30)
          else
            let pde = entry_at s (table_from_entry pdpte) (pd_index virtual_address) in
            if pde AND PTE_PRESENT = 0 then Inl IOS_E_NOT_FOUND
            else if pde AND PTE_LARGE \<noteq> 0 then Inr (unat (pde AND PTE_2M_ADDRESS_MASK) + virtual_address mod 2 ^ 21)
            else
              let pte = entry_at s (table_from_entry pde) (pt_index virtual_address) in
              if pte AND PTE_PRESENT = 0 then Inl IOS_E_NOT_FOUND
              else Inr (unat (pte AND PTE_ADDRESS_MASK) + virtual_address mod IOS_PAGE_SIZE))"

definition query_flags :: "u64 \<Rightarrow> u32" where
  "query_flags leaf =
     (if leaf AND PTE_WRITABLE \<noteq> 0 then IOS_VM_WRITE else 0)
     OR (if leaf AND PTE_NO_EXECUTE = 0 then IOS_VM_EXECUTE else 0)
     OR (if leaf AND PTE_USER \<noteq> 0 then IOS_VM_USER else 0)
     OR (if leaf AND PTE_GLOBAL \<noteq> 0 then IOS_VM_GLOBAL else 0)
     OR (if leaf AND PTE_OWNED \<noteq> 0 then IOS_VM_OWNED else 0)"

definition virtual_query :: "virtual_memory \<Rightarrow> nat \<Rightarrow> nat \<Rightarrow> (nat \<times> u32) res" where
  "virtual_query s root virtual_address =
     (case virtual_translate s root virtual_address of
        Inl e \<Rightarrow> Inl e
      | Inr physical_address \<Rightarrow>
        (case locate_leaf s root virtual_address of
           Inl e \<Rightarrow> Inl e
         | Inr (pt, index) \<Rightarrow> Inr (physical_address, query_flags (entry_at s pt index))))"

section \<open>Bits of entries\<close>

lemma address_mask: "PTE_ADDRESS_MASK = push_bit 12 (mask 40)"
  by (simp add: mask_eq_exp_minus_1 push_bit_eq_mult)

definition frame_ok :: "nat \<Rightarrow> bool" where
  "frame_ok a \<longleftrightarrow> a mod IOS_PAGE_SIZE = 0 \<and> a < 2 ^ 52"

lemma frame_masked:
  assumes "frame_ok a"
  shows "of_nat a AND PTE_ADDRESS_MASK = (of_nat a :: u64)"
proof -
  obtain b where a: "a = b * 4096" using assms by (auto simp: frame_ok_def mod_0_imp_dvd dvd_def mult.commute)
  have b: "b < 2 ^ 40" using assms by (simp add: a frame_ok_def)
  have w: "of_nat a = (push_bit 12 (of_nat b) :: u64)" by (simp add: a push_bit_eq_mult mult.commute)
  have "take_bit 40 (of_nat b :: u64) = of_nat b" using b by (simp add: take_bit_of_nat take_bit_nat_eq_self)
  then show ?thesis unfolding w address_mask push_bit_and [symmetric] take_bit_eq_mask [symmetric] by simp
qed

lemma entry_bits:
  assumes "frame_ok a" and "PTE_ADDRESS_MASK AND g = 0"
  shows "(of_nat a OR f) AND g = f AND (g :: u64)"
proof -
  have "of_nat a AND g = (of_nat a AND PTE_ADDRESS_MASK) AND g" by (simp only: frame_masked [OF assms(1)])
  also have "\<dots> = 0" using assms(2) by (simp only: and.assoc and_zero_eq)
  finally show ?thesis by (simp only: bit.conj_disj_distrib2 or.left_neutral)
qed

lemma entry_frame:
  assumes "frame_ok a" and "f AND PTE_ADDRESS_MASK = 0"
  shows "table_from_entry (of_nat a OR f) = a"
proof -
  have "(of_nat a OR f) AND PTE_ADDRESS_MASK = of_nat a"
    using frame_masked [OF assms(1)] assms(2) by (simp only: bit.conj_disj_distrib2 or.right_neutral)
  moreover have "a < 2 ^ 64" using assms(1) by (simp add: frame_ok_def)
  ultimately show ?thesis by (simp add: table_from_entry_def unsigned_of_nat take_bit_nat_eq_self)
qed

lemma flag_bits:
  assumes "f AND g = (0 :: u64)"
  shows "(e OR f) AND g = e AND g"
  using assms by (simp only: bit.conj_disj_distrib2 or.right_neutral)

lemma leaf_flags_bits:
  "leaf_flags flags AND PTE_ADDRESS_MASK = 0"
  "leaf_flags flags AND PTE_PRESENT = PTE_PRESENT"
  "leaf_flags flags AND PTE_WRITABLE = (if flags AND IOS_VM_WRITE \<noteq> 0 then PTE_WRITABLE else 0)"
  "leaf_flags flags AND PTE_USER = (if flags AND IOS_VM_USER \<noteq> 0 then PTE_USER else 0)"
  "leaf_flags flags AND PTE_GLOBAL = (if flags AND IOS_VM_GLOBAL \<noteq> 0 then PTE_GLOBAL else 0)"
  "leaf_flags flags AND PTE_OWNED = (if flags AND IOS_VM_OWNED \<noteq> 0 then PTE_OWNED else 0)"
  "leaf_flags flags AND PTE_NO_EXECUTE = (if flags AND IOS_VM_EXECUTE = 0 then PTE_NO_EXECUTE else 0)"
  by (simp_all add: leaf_flags_def)

text \<open>The entry that maps a frame with the given flags, read back.\<close>

definition leaf_entry :: "nat \<Rightarrow> u32 \<Rightarrow> u64" where
  "leaf_entry physical_address flags = of_nat physical_address OR leaf_flags flags"

lemma leaf_entry_bits:
  assumes "frame_ok a"
  shows "table_from_entry (leaf_entry a flags) = a"
    and "leaf_entry a flags AND PTE_PRESENT = PTE_PRESENT"
    and "leaf_entry a flags AND PTE_WRITABLE = (if flags AND IOS_VM_WRITE \<noteq> 0 then PTE_WRITABLE else 0)"
    and "leaf_entry a flags AND PTE_USER = (if flags AND IOS_VM_USER \<noteq> 0 then PTE_USER else 0)"
    and "leaf_entry a flags AND PTE_GLOBAL = (if flags AND IOS_VM_GLOBAL \<noteq> 0 then PTE_GLOBAL else 0)"
    and "leaf_entry a flags AND PTE_OWNED = (if flags AND IOS_VM_OWNED \<noteq> 0 then PTE_OWNED else 0)"
    and "leaf_entry a flags AND PTE_NO_EXECUTE = (if flags AND IOS_VM_EXECUTE = 0 then PTE_NO_EXECUTE else 0)"
proof -
  show "table_from_entry (leaf_entry a flags) = a"
    unfolding leaf_entry_def by (rule entry_frame [OF assms leaf_flags_bits(1)])
qed (unfold leaf_entry_def, (subst entry_bits [OF assms], simp, simp only: leaf_flags_bits)+)

lemma small_flags:
  assumes "flags AND NOT (IOS_VM_WRITE OR IOS_VM_EXECUTE OR IOS_VM_USER OR IOS_VM_GLOBAL OR IOS_VM_OWNED) = 0"
  shows "unat flags < 32"
proof -
  have "flags AND NOT (mask 5) = 0" using assms by (simp add: mask_eq_exp_minus_1)
  then have "take_bit 5 flags = flags" by (metis (no_types) word_ao_absorbs(8) bit.conj_disj_distrib take_bit_eq_mask or.right_neutral bit.disj_cancel_right and.right_neutral)
  then have "unat flags = take_bit 5 (unat flags)" by (metis unsigned_take_bit_eq)
  also have "\<dots> < 2 ^ 5" by (rule take_bit_nat_less_exp)
  finally show ?thesis by simp
qed

lemma all_flags: "\<forall>n \<in> set [0..<32]. (of_nat n :: u32) =
    (if of_nat n AND IOS_VM_WRITE \<noteq> 0 then IOS_VM_WRITE else 0)
     OR (if of_nat n AND IOS_VM_EXECUTE \<noteq> 0 then IOS_VM_EXECUTE else 0)
     OR (if of_nat n AND IOS_VM_USER \<noteq> 0 then IOS_VM_USER else 0)
     OR (if of_nat n AND IOS_VM_GLOBAL \<noteq> 0 then IOS_VM_GLOBAL else 0)
     OR (if of_nat n AND IOS_VM_OWNED \<noteq> 0 then IOS_VM_OWNED else 0)"
  by code_simp

lemma query_leaf_entry:
  assumes "frame_ok a" and "flags AND NOT (IOS_VM_WRITE OR IOS_VM_EXECUTE OR IOS_VM_USER OR IOS_VM_GLOBAL OR IOS_VM_OWNED) = 0"
  shows "query_flags (leaf_entry a flags) = flags"
proof -
  have "flags = (if flags AND IOS_VM_WRITE \<noteq> 0 then IOS_VM_WRITE else 0)
     OR (if flags AND IOS_VM_EXECUTE \<noteq> 0 then IOS_VM_EXECUTE else 0)
     OR (if flags AND IOS_VM_USER \<noteq> 0 then IOS_VM_USER else 0)
     OR (if flags AND IOS_VM_GLOBAL \<noteq> 0 then IOS_VM_GLOBAL else 0)
     OR (if flags AND IOS_VM_OWNED \<noteq> 0 then IOS_VM_OWNED else 0)"
    using bspec [OF all_flags, of "unat flags"] small_flags [OF assms(2)] by simp
  note sum = this
  have nz: "(if b then c else 0) \<noteq> 0 \<longleftrightarrow> b" "(if b then c else 0) = 0 \<longleftrightarrow> \<not> b" if "c \<noteq> 0" for b and c :: u64 using that by simp_all
  show ?thesis
    unfolding query_flags_def leaf_entry_bits [OF assms(1)] nz [of PTE_WRITABLE, simplified] nz [of PTE_USER, simplified]
      nz [of PTE_GLOBAL, simplified] nz [of PTE_OWNED, simplified] nz [of PTE_NO_EXECUTE, simplified] not_not
    by (rule sum [symmetric])
qed

section \<open>The allocator, one page at a time\<close>

lemma allocate_page:
  assumes "physical_ok m" and "physical_allocate_pages 1 1 m = (m', r)"
  shows "physical_ok m'"
    and "r = Inl e \<Longrightarrow> e = IOS_E_NO_MEMORY \<and> physical_page_is_allocated x m' = physical_page_is_allocated x m"
    and "r = Inr a \<Longrightarrow> frame_ok a \<and> \<not> physical_page_is_allocated a m
      \<and> physical_page_is_allocated x m' = (x = a \<or> physical_page_is_allocated x m)"
proof -
  have one: "is_power_of_two 1" by (simp add: is_power_of_two_def)
  note d = physical_okD [OF assms(1)]
  have eq: "physical_allocate_pages 1 1 m = (if 1 > pm_free_page_count m then (m, Inl IOS_E_NO_MEMORY)
      else case found_run m 1 1 of
          Some page \<Rightarrow>
            let m = fold (\<lambda>offset. set_page_state (page + offset) PAGE_ALLOCATED) [0..<1] m in
            (m\<lparr>pm_free_page_count := pm_free_page_count m - 1, pm_allocated_page_count := pm_allocated_page_count m + 1,
               pm_search_hint := (if page + 1 \<ge> pm_managed_page_count m then 1 else page + 1)\<rparr>, Inr (page * IOS_PAGE_SIZE))
        | None \<Rightarrow> (m\<lparr>pm_search_hint := 1\<rparr>, Inl IOS_E_NO_MEMORY))"
    unfolding physical_allocate_eq using one d(1) by simp
  have none: "physical_ok m' \<and> (\<forall>x. physical_page_is_allocated x m' = physical_page_is_allocated x m)"
    if "m' = m \<or> m' = m\<lparr>pm_search_hint := 1\<rparr>"
    using that assms(1) d(2) by (auto simp: physical_ok_def pages_def physical_page_is_allocated_def)
  have some: "physical_ok m' \<and> frame_ok a \<and> \<not> physical_page_is_allocated a m
      \<and> (\<forall>x. physical_page_is_allocated x m' = (x = a \<or> physical_page_is_allocated x m))" if r: "r = Inr a" for a
  proof -
    obtain p where p: "found_run m 1 1 = Some p" "a = p * IOS_PAGE_SIZE"
      using assms(2) r unfolding eq Let_def by (auto split: if_splits option.splits)
    note run = allocate_run [OF assms(1) _ _ _ one p(1), simplified]
    define m0 where "m0 = set_page_state p PAGE_ALLOCATED m"
    have m': "m' = m0\<lparr>pm_free_page_count := pm_free_page_count m0 - 1, pm_allocated_page_count := pm_allocated_page_count m0 + 1,
               pm_search_hint := (if p + 1 \<ge> pm_managed_page_count m0 then 1 else p + 1)\<rparr>"
      using assms(2) r p unfolding eq Let_def by (auto simp: m0_def split: if_splits)
    have mv: "moved p 1 PAGE_ALLOCATED m m0" using run(5) by (simp add: m0_def)
    have "physical_ok m'" using run(1) unfolding m' m0_def by simp
    moreover have "get_page_state m p = PAGE_FREE" using run(2) by (simp add: run_at_def)
    moreover have "frame_ok a" using run(4) d(3) by (simp add: p(2) frame_ok_def)
    moreover have "get_page_state m' q = (if q = p then PAGE_ALLOCATED else get_page_state m q)" for q
      using moved_at [OF mv, of q] by (simp add: m')
    moreover have "pm_managed_page_count m' = pm_managed_page_count m" "pm_allocator_initialized m'"
      using mv d(1) by (simp_all add: m' moved_def m0_def)
    moreover have "x div 4096 = p \<and> x mod 4096 = 0 \<longleftrightarrow> x = p * 4096" for x by auto
    ultimately show ?thesis using run(4) d(1) by (auto simp: physical_page_is_allocated_def p(2))
  qed
  show "physical_ok m'" using none some assms(2) unfolding eq by (cases r) (auto split: if_splits option.splits simp: Let_def)
  show "e = IOS_E_NO_MEMORY \<and> physical_page_is_allocated x m' = physical_page_is_allocated x m" if "r = Inl e"
    using none that assms(2) unfolding eq by (auto split: if_splits option.splits simp: Let_def)
  show "frame_ok a \<and> \<not> physical_page_is_allocated a m
      \<and> physical_page_is_allocated x m' = (x = a \<or> physical_page_is_allocated x m)" if "r = Inr a"
    using some [OF that] by simp
qed

lemma release_page:
  assumes "physical_ok m" and "physical_page_is_allocated a m"
  shows "physical_ok (fst (physical_free_pages a 1 m))"
    and "physical_page_is_allocated x (fst (physical_free_pages a 1 m)) = (x \<noteq> a \<and> physical_page_is_allocated x m)"
proof -
  have a: "a mod 4096 = 0" "a div 4096 < pm_managed_page_count m" "get_page_state m (a div 4096) = PAGE_ALLOCATED"
    using assms(2) by (simp_all add: physical_page_is_allocated_def)
  have acc: "\<not> range_rejected a 1 m" using a assms by (auto simp: range_rejected_def physical_page_is_allocated_def)
  have "snd (physical_free_pages a 1 m) = Inr ()" using acc a by (simp add: physical_free_pages_def Let_def)
  then have run: "physical_free_pages a 1 m = (fst (physical_free_pages a 1 m), Inr ())" by (metis prod.collapse)
  have m: "pm_managed_page_count (fst (physical_free_pages a 1 m)) = pm_managed_page_count m"
    "pm_allocator_initialized (fst (physical_free_pages a 1 m)) = pm_allocator_initialized m"
    by (simp_all add: physical_free_pages_def Let_def set_page_state_def)
  show "physical_ok (fst (physical_free_pages a 1 m))" using physical_free_exact [OF assms(1) run] by simp
  obtain p where p: "a = p * IOS_PAGE_SIZE"
      "\<forall>q. get_page_state (fst (physical_free_pages a 1 m)) q = (if p \<le> q \<and> q < p + 1 then PAGE_FREE else get_page_state m q)"
    using physical_free_exact [OF assms(1) run] by auto
  then show "physical_page_is_allocated x (fst (physical_free_pages a 1 m)) = (x \<noteq> a \<and> physical_page_is_allocated x m)"
    using m by (auto simp: physical_page_is_allocated_def)
qed

section \<open>Walks and the forest of address spaces\<close>

text \<open>
  A table is named by the root of its address space and the indices on the way to it. \<open>node\<close> says which names
  belong to the user halves: up to three indices below 512, the first between 2 and 255.
\<close>

primrec walk :: "virtual_memory \<Rightarrow> nat \<Rightarrow> nat list \<Rightarrow> nat option" where
  "walk s t [] = Some t"
| "walk s t (i # p) = (case next_table s t i of None \<Rightarrow> None | Some u \<Rightarrow> walk s u p)"

definition node :: "nat set \<Rightarrow> nat \<Rightarrow> nat list \<Rightarrow> bool" where
  "node R r p \<longleftrightarrow> r \<in> R \<and> length p \<le> 3 \<and> (\<forall>i \<in> set p. i < 512) \<and> (p \<noteq> [] \<longrightarrow> 2 \<le> hd p \<and> hd p < 256)"

definition leaf_node :: "nat set \<Rightarrow> nat \<Rightarrow> nat list \<Rightarrow> nat \<Rightarrow> bool" where
  "leaf_node R r p i \<longleftrightarrow> node R r p \<and> length p = 3 \<and> i < 512"

definition leaf :: "virtual_memory \<Rightarrow> nat \<Rightarrow> nat list \<Rightarrow> nat \<Rightarrow> u64" where
  "leaf s r p i = (case walk s r p of None \<Rightarrow> 0 | Some t \<Rightarrow> entry_at s t i)"

definition tables :: "virtual_memory \<Rightarrow> nat set \<Rightarrow> nat set" where
  "tables s R = {t. \<exists>r p. node R r p \<and> walk s r p = Some t}"

abbreviation allocated :: "virtual_memory \<Rightarrow> nat \<Rightarrow> bool" where
  "allocated s a \<equiv> physical_page_is_allocated a (vm_physical s)"

definition owned :: "u64 \<Rightarrow> bool" where
  "owned e \<longleftrightarrow> e AND PTE_PRESENT \<noteq> 0 \<and> e AND PTE_OWNED \<noteq> 0"

text \<open>A leaf is empty or maps a page for the user that is not both writable and executable.\<close>

definition leaf_ok :: "u64 \<Rightarrow> bool" where
  "leaf_ok e \<longleftrightarrow> e = 0 \<or> (e AND PTE_PRESENT \<noteq> 0 \<and> e AND PTE_USER \<noteq> 0 \<and> (e AND PTE_WRITABLE = 0 \<or> e AND PTE_NO_EXECUTE \<noteq> 0))"

definition forest_ok :: "virtual_memory \<Rightarrow> nat set \<Rightarrow> bool" where
  "forest_ok s R \<longleftrightarrow> physical_ok (vm_physical s)
     \<and> (\<forall>t \<in> tables s R. allocated s t)
     \<and> (\<forall>r p r' p' t. node R r p \<longrightarrow> node R r' p' \<longrightarrow> walk s r p = Some t \<longrightarrow> walk s r' p' = Some t \<longrightarrow> r = r' \<and> p = p')
     \<and> (\<forall>r p i t. node R r (p @ [i]) \<longrightarrow> walk s r p = Some t \<longrightarrow> entry_at s t i AND PTE_PRESENT \<noteq> 0 \<longrightarrow> entry_at s t i AND PTE_LARGE = 0)
     \<and> (\<forall>r p i. leaf_node R r p i \<longrightarrow> leaf_ok (leaf s r p i))
     \<and> (\<forall>r p i. leaf_node R r p i \<longrightarrow> owned (leaf s r p i) \<longrightarrow>
          allocated s (table_from_entry (leaf s r p i)) \<and> table_from_entry (leaf s r p i) \<notin> tables s R)
     \<and> (\<forall>r p i r' p' i'. leaf_node R r p i \<longrightarrow> leaf_node R r' p' i' \<longrightarrow> owned (leaf s r p i) \<longrightarrow> owned (leaf s r' p' i') \<longrightarrow>
          table_from_entry (leaf s r p i) = table_from_entry (leaf s r' p' i') \<longrightarrow> r = r' \<and> p = p' \<and> i = i')"

lemma forest_okD:
  assumes "forest_ok s R"
  shows "physical_ok (vm_physical s)" and "t \<in> tables s R \<Longrightarrow> allocated s t"
    and "node R r p \<Longrightarrow> node R r' p' \<Longrightarrow> walk s r p = Some t \<Longrightarrow> walk s r' p' = Some t \<Longrightarrow> r = r' \<and> p = p'"
    and "node R r (p @ [i]) \<Longrightarrow> walk s r p = Some t \<Longrightarrow> entry_at s t i AND PTE_PRESENT \<noteq> 0 \<Longrightarrow> entry_at s t i AND PTE_LARGE = 0"
    and "leaf_node R r p i \<Longrightarrow> leaf_ok (leaf s r p i)"
    and "leaf_node R r p i \<Longrightarrow> owned (leaf s r p i) \<Longrightarrow>
          allocated s (table_from_entry (leaf s r p i)) \<and> table_from_entry (leaf s r p i) \<notin> tables s R"
    and "leaf_node R r p i \<Longrightarrow> leaf_node R r' p' i' \<Longrightarrow> owned (leaf s r p i) \<Longrightarrow> owned (leaf s r' p' i') \<Longrightarrow>
          table_from_entry (leaf s r p i) = table_from_entry (leaf s r' p' i') \<Longrightarrow> r = r' \<and> p = p' \<and> i = i'"
proof -
  note c = assms [unfolded forest_ok_def]
  note c2 = conjunct2 [OF c]
  note c3 = conjunct2 [OF c2]
  note c4 = conjunct2 [OF c3]
  note c5 = conjunct2 [OF c4]
  note c6 = conjunct2 [OF c5]
  show "physical_ok (vm_physical s)" using conjunct1 [OF c] .
  show "t \<in> tables s R \<Longrightarrow> allocated s t" using conjunct1 [OF c2] by simp
  show "node R r p \<Longrightarrow> node R r' p' \<Longrightarrow> walk s r p = Some t \<Longrightarrow> walk s r' p' = Some t \<Longrightarrow> r = r' \<and> p = p'"
    using conjunct1 [OF c3] by meson
  show "node R r (p @ [i]) \<Longrightarrow> walk s r p = Some t \<Longrightarrow> entry_at s t i AND PTE_PRESENT \<noteq> 0 \<Longrightarrow> entry_at s t i AND PTE_LARGE = 0"
    using conjunct1 [OF c4] by meson
  show "leaf_node R r p i \<Longrightarrow> leaf_ok (leaf s r p i)" using conjunct1 [OF c5] by simp
  show "leaf_node R r p i \<Longrightarrow> owned (leaf s r p i) \<Longrightarrow>
          allocated s (table_from_entry (leaf s r p i)) \<and> table_from_entry (leaf s r p i) \<notin> tables s R"
    using conjunct1 [OF c6] by simp
  show "leaf_node R r p i \<Longrightarrow> leaf_node R r' p' i' \<Longrightarrow> owned (leaf s r p i) \<Longrightarrow> owned (leaf s r' p' i') \<Longrightarrow>
          table_from_entry (leaf s r p i) = table_from_entry (leaf s r' p' i') \<Longrightarrow> r = r' \<and> p = p' \<and> i = i'"
    using conjunct2 [OF c6] by simp
qed

lemma node_prefix: "node R r (p @ q) \<Longrightarrow> node R r p"
  by (cases p) (auto simp: node_def)

lemma tablesI: "node R r p \<Longrightarrow> walk s r p = Some t \<Longrightarrow> t \<in> tables s R"
  by (auto simp: tables_def)

lemma tables_cong:
  assumes "\<And>r p. node R r p \<Longrightarrow> walk s' r p = walk s r p"
  shows "tables s' R = tables s R"
  unfolding tables_def using assms by (intro Collect_cong ex_cong1 conj_cong) simp_all

lemma tables_mono:
  assumes "\<And>r p t. node R r p \<Longrightarrow> walk s' r p = Some t \<Longrightarrow> walk s r p = Some t"
  shows "tables s' R \<subseteq> tables s R"
  unfolding tables_def using assms by fastforce

lemma walk_append: "walk s t (p @ q) = (case walk s t p of None \<Rightarrow> None | Some u \<Rightarrow> walk s u q)"
  by (induction p arbitrary: t) (auto split: option.splits)

lemma walk_snoc: "walk s t (p @ [i]) = (case walk s t p of None \<Rightarrow> None | Some u \<Rightarrow> next_table s u i)"
  by (auto simp: walk_append split: option.splits)

lemma walk_cong:
  assumes "\<And>q i rest u. p = q @ i # rest \<Longrightarrow> walk s t q = Some u \<Longrightarrow> next_table s' u i = next_table s u i"
  shows "walk s' t p = walk s t p"
  using assms
proof (induction p arbitrary: t)
  case (Cons i p)
  have head: "next_table s' t i = next_table s t i" using Cons.prems [of "[]" i p t] by simp
  show ?case
  proof (cases "next_table s t i")
    case (Some u)
    have "walk s' u p = walk s u p"
    proof (rule Cons.IH)
      fix q j rest v assume "p = q @ j # rest" "walk s u q = Some v"
      then show "next_table s' v j = next_table s v j" using Cons.prems [of "i # q" j rest v] Some by simp
    qed
    then show ?thesis using head Some by simp
  qed (simp add: head)
qed simp

lemma leaf_walk: "walk s r p = Some t \<Longrightarrow> leaf s r p i = entry_at s t i"
  by (simp add: leaf_def)

lemma leaf_None: "walk s r p = None \<Longrightarrow> leaf s r p i = 0"
  by (simp add: leaf_def)

lemma leaf_cases_zero [simp]: "leaf_ok 0" "\<not> owned 0"
  by (simp_all add: leaf_ok_def owned_def)

text \<open>Every change of the forest below is a case of this one: at most one table \<open>b\<close> is new, at most one leaf gets a new entry.\<close>

lemma forest_change:
  assumes f: "forest_ok s R" and ok: "physical_ok (vm_physical s')"
    and walks: "\<And>r p t. node R r p \<Longrightarrow> walk s' r p = Some t \<Longrightarrow> walk s r p = Some t \<or> r = rn \<and> p = pn \<and> t = b"
    and fresh: "\<not> allocated s b"
    and alloc: "\<And>t. t \<in> tables s' R \<Longrightarrow> allocated s' t"
    and large: "\<And>r p i t. node R r (p @ [i]) \<Longrightarrow> walk s' r p = Some t \<Longrightarrow> entry_at s' t i AND PTE_PRESENT \<noteq> 0 \<Longrightarrow> entry_at s' t i AND PTE_LARGE = 0"
    and leaves: "\<And>r p i. leaf_node R r p i \<Longrightarrow>
      leaf s' r p i = leaf s r p i \<or> leaf s' r p i = 0 \<or> r = rl \<and> p = pl \<and> i = il \<and> leaf s' r p i = ne"
    and ne: "leaf_ok ne" "owned ne \<Longrightarrow> allocated s (table_from_entry ne) \<and> table_from_entry ne \<notin> tables s R"
      "\<And>r p i. owned ne \<Longrightarrow> leaf_node R r p i \<Longrightarrow> owned (leaf s r p i) \<Longrightarrow> table_from_entry (leaf s r p i) \<noteq> table_from_entry ne"
    and frames: "\<And>r p i. leaf_node R r p i \<Longrightarrow> owned (leaf s' r p i) \<Longrightarrow> allocated s' (table_from_entry (leaf s' r p i))"
  shows "forest_ok s' R"
proof -
  note d = forest_okD [OF f]
  have tab: "t \<in> tables s R \<or> t = b" if "t \<in> tables s' R" for t using that walks unfolding tables_def by blast
  have old: "t \<noteq> b" if "node R r p" "walk s r p = Some t" for r p t using d(2) [OF tablesI [OF that]] fresh by blast
  have one: "r = r' \<and> p = p'"
    if "node R r p" "node R r' p'" "walk s' r p = Some t" "walk s' r' p' = Some t" for r p r' p' t
    using walks [OF that(1,3)] walks [OF that(2,4)] old [OF that(1), of t] old [OF that(2), of t] d(3) [OF that(1,2), of t] by blast
  have lf: "leaf_ok (leaf s' r p i)" if "leaf_node R r p i" for r p i
    using leaves [OF that] d(5) [OF that] ne(1) by auto
  have own: "table_from_entry (leaf s' r p i) \<notin> tables s' R" if l: "leaf_node R r p i" "owned (leaf s' r p i)" for r p i
  proof -
    have "allocated s (table_from_entry (leaf s' r p i)) \<and> table_from_entry (leaf s' r p i) \<notin> tables s R"
      using leaves [OF l(1)] d(6) [OF l(1)] ne(2) l(2) by auto
    then show ?thesis using tab fresh by blast
  qed
  have uniq: "r = r' \<and> p = p' \<and> i = i'"
    if l: "leaf_node R r p i" "leaf_node R r' p' i'" "owned (leaf s' r p i)" "owned (leaf s' r' p' i')"
      "table_from_entry (leaf s' r p i) = table_from_entry (leaf s' r' p' i')" for r p i r' p' i'
    using leaves [OF l(1)] leaves [OF l(2)]
  proof (elim disjE)
    assume "leaf s' r p i = leaf s r p i" "leaf s' r' p' i' = leaf s r' p' i'"
    then show ?thesis using d(7) [OF l(1,2)] l(3-5) by simp
  qed (use l ne(3) leaf_cases_zero in metis)+
  show ?thesis unfolding forest_ok_def using ok alloc one large lf frames own uniq by blast
qed

section \<open>The elementary changes\<close>

lemma update_simps [simp]:
  "entry_at (set_entry t i e s) u j = (if u = t \<and> j = i then e else entry_at s u j)"
  "entry_at (clear_table t s) u j = (if u = t then 0 else entry_at s u j)"
  "entry_at (free_page a s) u j = entry_at s u j"
  "entry_at (invalidate_if_active r a s) u j = entry_at s u j"
  "entry_at (s\<lparr>vm_physical := m\<rparr>) u j = entry_at s u j"
  "vm_physical (set_entry t i e s) = vm_physical s" "vm_physical (clear_table t s) = vm_physical s"
  "vm_physical (invalidate_if_active r a s) = vm_physical s"
  "vm_physical (free_page a s) = fst (physical_free_pages a 1 (vm_physical s))"
  by (simp_all add: entry_at_def set_entry_def clear_table_def free_page_def invalidate_if_active_def)

lemma allocated_frame_ok:
  assumes "physical_ok m" and "physical_page_is_allocated a m"
  shows "frame_ok a"
proof -
  have "a mod 4096 = 0" "a div 4096 < 2 ^ 40"
    using assms(2) physical_okD(3) [OF assms(1)] by (simp_all add: physical_page_is_allocated_def)
  then show ?thesis by (auto simp: frame_ok_def)
qed

lemma node_snoc: "node R r (p @ [i]) \<Longrightarrow> node R r p \<and> length p \<le> 2 \<and> i < 512"
  using node_prefix [of R r p "[i]"] by (simp add: node_def)

lemma walk_edit:
  assumes f: "forest_ok s R" and n: "node R r (p @ [i])" and t: "walk s r p = Some t"
    and same: "\<forall>u \<in> tables s R. \<forall>j. \<not> (u = t \<and> j = i) \<longrightarrow> next_table s' u j = next_table s u j"
  shows "node R r' q \<Longrightarrow> \<not> (r' = r \<and> prefix (p @ [i]) q) \<Longrightarrow> walk s' r' q = walk s r' q"
    and "walk s' r (p @ i # rest) = (case next_table s' t i of None \<Rightarrow> None | Some u \<Rightarrow> walk s' u rest)"
proof -
  have keep: "walk s' r' q = walk s r' q" if q: "node R r' q" "\<not> (r' = r \<and> prefix (p @ [i]) q)" for r' q
  proof (rule walk_cong)
    fix q1 j q2 u assume e: "q = q1 @ j # q2" and u: "walk s r' q1 = Some u"
    have n1: "node R r' q1" using q(1) e node_prefix by blast
    have "\<not> (u = t \<and> j = i)"
    proof
      assume "u = t \<and> j = i"
      then have "r' = r \<and> q1 = p" using forest_okD(3) [OF f n1 conjunct1 [OF node_snoc [OF n]] u] t by simp
      then show False using q(2) e \<open>u = t \<and> j = i\<close> by (auto simp: prefix_def)
    qed
    then show "next_table s' u j = next_table s u j" using bspec [OF same tablesI [OF n1 u]] by blast
  qed
  then show "node R r' q \<Longrightarrow> \<not> (r' = r \<and> prefix (p @ [i]) q) \<Longrightarrow> walk s' r' q = walk s r' q" .
  have "walk s' r p = Some t" using keep [of r p] node_snoc [OF n] t by (auto dest: prefix_length_le)
  then show "walk s' r (p @ i # rest) = (case next_table s' t i of None \<Rightarrow> None | Some u \<Rightarrow> walk s' u rest)"
    by (simp add: walk_append)
qed

text \<open>Entries of a leaf table are no part of any walk.\<close>

lemma leaf_table_other:
  assumes f: "forest_ok s R" and l: "node R r p" "length p = 3" "walk s r p = Some t"
    and n: "node R r' q" "length q \<le> 2" "walk s r' q = Some u"
  shows "u \<noteq> t"
  using forest_okD(3) [OF f l(1) n(1) l(3)] l(2) n(2,3) by auto

lemma link_table:
  assumes f: "forest_ok s R" and n: "node R r (p @ [i])" and t: "walk s r p = Some t" and none: "next_table s t i = None"
    and alloc: "physical_allocate_pages 1 1 (vm_physical s) = (m', Inr b)"
  defines "s' \<equiv> set_entry t i (of_nat b OR PTE_PRESENT OR PTE_WRITABLE OR PTE_USER) (clear_table b (s\<lparr>vm_physical := m'\<rparr>))"
  shows "forest_ok s' R"
    and "node R r' q \<Longrightarrow> walk s' r' q = (if r' = r \<and> q = p @ [i] then Some b else walk s r' q)"
    and "leaf_node R r' q j \<Longrightarrow> leaf s' r' q j = leaf s r' q j"
    and "allocated s' x \<longleftrightarrow> x = b \<or> allocated s x" and "\<not> allocated s b" and "walk s r (p @ i # rest) = None"
proof -
  note d = forest_okD [OF f]
  note al = allocate_page [OF d(1) alloc]
  have b: "frame_ok b" "\<not> allocated s b" using al(3) by blast+
  have A: "allocated s' x \<longleftrightarrow> x = b \<or> allocated s x" for x using al(3) [OF refl, of x] by (simp add: s'_def)
  show "allocated s' x \<longleftrightarrow> x = b \<or> allocated s x" "\<not> allocated s b" by (fact A b(2))+
  have ub: "u \<noteq> b" if "u \<in> tables s R" for u using d(2) [OF that] b(2) by auto
  have tab: "t \<in> tables s R" "t \<noteq> b" using tablesI [of R r p s t] node_snoc [OF n] t ub by auto
  let ?e = "of_nat b OR PTE_PRESENT OR PTE_WRITABLE OR PTE_USER :: u64"
  have e: "?e = of_nat b OR 7" by (simp add: or.assoc)
  have bits: "?e AND PTE_PRESENT = 1" "?e AND PTE_LARGE = 0" "table_from_entry ?e = b"
    unfolding e by (simp_all add: entry_bits [OF b(1)] entry_frame [OF b(1)])
  have nx: "\<forall>u \<in> tables s R. \<forall>j. \<not> (u = t \<and> j = i) \<longrightarrow> next_table s' u j = next_table s u j"
    using ub by (auto simp: next_table_def s'_def)
  have nt: "next_table s' t i = Some b" using bits by (simp add: next_table_def s'_def)
  have nb: "next_table s' b j = None" for j using tab(2) by (simp add: next_table_def s'_def)
  have below: "walk s r (p @ i # rest) = None" for rest using t none by (simp add: walk_append)
  then show "walk s r (p @ i # rest) = None" .
  note edit = walk_edit [OF f n t nx]
  have W: "walk s' r' q = (if r' = r \<and> q = p @ [i] then Some b else walk s r' q)" if "node R r' q" for r' q
  proof (cases "r' = r \<and> prefix (p @ [i]) q")
    case True
    then obtain rest where q: "q = p @ i # rest" by (auto simp: prefix_def)
    have "walk s' b rest = (if rest = [] then Some b else None)" by (cases rest) (simp_all add: nb)
    then show ?thesis using edit(2) [of rest] True nt below [of rest] by (simp add: q)
  qed (use edit(1) [OF that] in auto)
  then show "node R r' q \<Longrightarrow> walk s' r' q = (if r' = r \<and> q = p @ [i] then Some b else walk s r' q)" .
  have L: "leaf s' r' q j = leaf s r' q j" if l: "leaf_node R r' q j" for r' q j
  proof -
    have q: "node R r' q" "length q = 3" using l by (simp_all add: leaf_node_def)
    show ?thesis
    proof (cases "r' = r \<and> q = p @ [i]")
      case True
      then show ?thesis using W [OF q(1)] below [of "[]"] tab(2) by (simp add: leaf_def s'_def)
    next
      case False
      have w: "walk s' r' q = walk s r' q" using W [OF q(1)] unfolding if_not_P [OF False] .
      show ?thesis
      proof (cases "walk s r' q")
        case (Some u)
        then have "u \<noteq> t" "u \<noteq> b"
          using leaf_table_other [OF f q Some, of r p t] node_snoc [OF n] t ub [OF tablesI [OF q(1) Some]] by auto
        then show ?thesis using w Some by (simp add: leaf_def s'_def)
      qed (simp add: leaf_def w)
    qed
  qed
  then show "leaf_node R r' q j \<Longrightarrow> leaf s' r' q j = leaf s r' q j" .
  show "forest_ok s' R"
  proof (rule forest_change [OF f, where b = b and rn = r and pn = "p @ [i]" and ne = 0])
    show "physical_ok (vm_physical s')" using al(1) by (simp add: s'_def)
    show "walk s r' q = Some v \<or> r' = r \<and> q = p @ [i] \<and> v = b" if "node R r' q" "walk s' r' q = Some v" for r' q v
      using W [OF that(1)] that(2) by (auto split: if_splits)
    show "allocated s' v" if "v \<in> tables s' R" for v
      using that W d(2) [OF tablesI] unfolding tables_def A by (auto split: if_splits)
    show "entry_at s' u j AND PTE_LARGE = 0"
      if "node R r' (q @ [j])" "walk s' r' q = Some u" "entry_at s' u j AND PTE_PRESENT \<noteq> 0" for r' q j u
    proof (cases "u = t \<and> j = i")
      case False
      have "u \<noteq> b \<Longrightarrow> walk s r' q = Some u" using W [of r' q] node_snoc [OF that(1)] that(2) by (auto split: if_splits)
      then show ?thesis using d(4) [OF that(1), of u] that(3) False tab(2) by (auto simp: s'_def split: if_splits)
    qed (simp add: s'_def bits [unfolded e])
    show "allocated s' (table_from_entry (leaf s' r' q j))" if "leaf_node R r' q j" "owned (leaf s' r' q j)" for r' q j
      using d(6) [OF that(1)] that(2) L [OF that(1)] A by simp
  qed (use b L in auto)
qed

text \<open>Nothing hangs below a name, and a leaf table of that name is empty.\<close>

definition bare :: "virtual_memory \<Rightarrow> nat set \<Rightarrow> nat \<Rightarrow> nat list \<Rightarrow> bool" where
  "bare s R r p \<longleftrightarrow> (\<forall>q. q \<noteq> [] \<longrightarrow> node R r (p @ q) \<longrightarrow> walk s r (p @ q) = None) \<and> (\<forall>j. leaf_node R r p j \<longrightarrow> leaf s r p j = 0)"

lemma not_allocated_one: "\<not> allocated s 1"
  by (simp add: physical_page_is_allocated_def)

lemma unlink_table:
  assumes f: "forest_ok s R" and n: "node R r (p @ [i])" and t: "walk s r p = Some t" and b: "walk s r (p @ [i]) = Some b"
    and bare: "bare s R r (p @ [i])"
  defines "s' \<equiv> free_page b (set_entry t i 0 s)"
  shows "forest_ok s' R"
    and "node R r' q \<Longrightarrow> walk s' r' q = (if r' = r \<and> q = p @ [i] then None else walk s r' q)"
    and "leaf_node R r' q j \<Longrightarrow> leaf s' r' q j = leaf s r' q j"
    and "allocated s' x \<longleftrightarrow> x \<noteq> b \<and> allocated s x"
proof -
  note d = forest_okD [OF f]
  have bt: "b \<in> tables s R" using tablesI [OF n b] .
  note rel = release_page [OF d(1) d(2) [OF bt]]
  have A: "allocated s' x \<longleftrightarrow> x \<noteq> b \<and> allocated s x" for x using rel(2) by (simp add: s'_def)
  then show "allocated s' x \<longleftrightarrow> x \<noteq> b \<and> allocated s x" .
  have nx: "\<forall>u \<in> tables s R. \<forall>j. \<not> (u = t \<and> j = i) \<longrightarrow> next_table s' u j = next_table s u j"
    by (auto simp: next_table_def s'_def)
  have nt: "next_table s' t i = None" by (simp add: next_table_def s'_def)
  note edit = walk_edit [OF f n t nx]
  have W: "walk s' r' q = (if r' = r \<and> q = p @ [i] then None else walk s r' q)" if m: "node R r' q" for r' q
  proof (cases "r' = r \<and> prefix (p @ [i]) q")
    case True
    then obtain rest where q: "q = (p @ [i]) @ rest" by (auto simp: prefix_def)
    have "walk s' r' q = None" using edit(2) [of rest] True nt by (simp add: q)
    moreover have "walk s r' q = None" if "q \<noteq> p @ [i]" using bare m True that unfolding bare_def q by simp
    ultimately show ?thesis using True by auto
  qed (use edit(1) [OF m] in auto)
  then show "node R r' q \<Longrightarrow> walk s' r' q = (if r' = r \<and> q = p @ [i] then None else walk s r' q)" .
  have L: "leaf s' r' q j = leaf s r' q j" if l: "leaf_node R r' q j" for r' q j
  proof -
    have q: "node R r' q" "length q = 3" using l by (simp_all add: leaf_node_def)
    show ?thesis
    proof (cases "r' = r \<and> q = p @ [i]")
      case True
      then have "leaf s r' q j = 0" using bare l unfolding bare_def by simp
      then show ?thesis using W [OF q(1)] True by (simp add: leaf_None)
    next
      case False
      have w: "walk s' r' q = walk s r' q" using W [OF q(1)] unfolding if_not_P [OF False] .
      show ?thesis
      proof (cases "walk s r' q")
        case (Some u)
        then have "t \<noteq> u" using leaf_table_other [OF f q Some, of r p t] node_snoc [OF n] t by auto
        then show ?thesis using w Some by (simp add: leaf_def s'_def)
      qed (simp add: leaf_def w)
    qed
  qed
  then show "leaf_node R r' q j \<Longrightarrow> leaf s' r' q j = leaf s r' q j" .
  show "forest_ok s' R"
  proof (rule forest_change [OF f, where b = 1 and ne = 0])
    show "physical_ok (vm_physical s')" using rel(1) by (simp add: s'_def)
    show "walk s r' q = Some v \<or> r' = 0 \<and> q = [] \<and> v = 1" if "node R r' q" "walk s' r' q = Some v" for r' q v
      using W [OF that(1)] that(2) by (auto split: if_splits)
    show "allocated s' v" if v: "v \<in> tables s' R" for v
    proof -
      obtain r' q where q: "node R r' q" "walk s' r' q = Some v" using v by (auto simp: tables_def)
      then have w: "walk s r' q = Some v" "\<not> (r' = r \<and> q = p @ [i])" using W [OF q(1)] by (auto split: if_splits)
      then have "v \<noteq> b" using d(3) [OF q(1) n w(1)] b by auto
      then show ?thesis using d(2) [OF tablesI [OF q(1) w(1)]] A by simp
    qed
    show "entry_at s' u j AND PTE_LARGE = 0"
      if "node R r' (q @ [j])" "walk s' r' q = Some u" "entry_at s' u j AND PTE_PRESENT \<noteq> 0" for r' q j u
    proof -
      have "walk s r' q = Some u" using W [of r' q] node_snoc [OF that(1)] that(2) by (auto split: if_splits)
      then show ?thesis using d(4) [OF that(1), of u] that(3) by (simp add: s'_def split: if_splits)
    qed
    show "allocated s' (table_from_entry (leaf s' r' q j))" if "leaf_node R r' q j" "owned (leaf s' r' q j)" for r' q j
      using d(6) [OF that(1)] that(2) L [OF that(1)] A bt by auto
  qed (use not_allocated_one L in auto)
qed

lemma set_leaf:
  assumes f: "forest_ok s R" and l: "leaf_node R r p i" and t: "walk s r p = Some t"
    and e: "leaf_ok e" "owned e \<Longrightarrow> allocated s (table_from_entry e) \<and> table_from_entry e \<notin> tables s R"
      "\<And>r' q j. owned e \<Longrightarrow> leaf_node R r' q j \<Longrightarrow> owned (leaf s r' q j) \<Longrightarrow> table_from_entry (leaf s r' q j) \<noteq> table_from_entry e"
  defines "s' \<equiv> set_entry t i e s"
  shows "forest_ok s' R"
    and "node R r' q \<Longrightarrow> walk s' r' q = walk s r' q"
    and "leaf_node R r' q j \<Longrightarrow> leaf s' r' q j = (if r' = r \<and> q = p \<and> j = i then e else leaf s r' q j)"
proof -
  note d = forest_okD [OF f]
  have p: "node R r p" "length p = 3" using l by (simp_all add: leaf_node_def)
  have W: "walk s' r' q = walk s r' q" if q: "node R r' q" for r' q
  proof (rule walk_cong)
    fix q1 j q2 u assume e: "q = q1 @ j # q2" and w: "walk s r' q1 = Some u"
    have n1: "node R r' q1" using q unfolding e by (rule node_prefix)
    have "length q1 \<le> 2" using q unfolding e by (simp add: node_def)
    then have "u \<noteq> t" by (rule leaf_table_other [OF f p t n1 _ w])
    then show "next_table s' u j = next_table s u j" by (simp add: next_table_def s'_def)
  qed
  then show "node R r' q \<Longrightarrow> walk s' r' q = walk s r' q" .
  have L: "leaf s' r' q j = (if r' = r \<and> q = p \<and> j = i then e else leaf s r' q j)" if "leaf_node R r' q j" for r' q j
  proof -
    have q: "node R r' q" using that by (simp add: leaf_node_def)
    show ?thesis
    proof (cases "walk s r' q")
      case (Some u)
      have "u = t \<longleftrightarrow> r' = r \<and> q = p" using d(3) [OF q p(1) Some] t Some by auto
      then show ?thesis using W [OF q] Some by (auto simp: leaf_def s'_def)
    qed (use W [OF q] t in \<open>auto simp: leaf_def\<close>)
  qed
  then show "leaf_node R r' q j \<Longrightarrow> leaf s' r' q j = (if r' = r \<and> q = p \<and> j = i then e else leaf s r' q j)" .
  have tabs: "tables s' R = tables s R" by (rule tables_cong [OF W])
  show "forest_ok s' R"
  proof (rule forest_change [OF f, where b = 1 and ne = e and rl = r and pl = p and il = i])
    show "physical_ok (vm_physical s')" using d(1) by (simp add: s'_def)
    show "walk s r' q = Some v \<or> r' = 0 \<and> q = [] \<and> v = 1" if "node R r' q" "walk s' r' q = Some v" for r' q v
      using W [OF that(1)] that(2) by simp
    show "allocated s' v" if "v \<in> tables s' R" for v using that d(2) unfolding tabs by (simp add: s'_def)
    show "entry_at s' u j AND PTE_LARGE = 0"
      if "node R r' (q @ [j])" "walk s' r' q = Some u" "entry_at s' u j AND PTE_PRESENT \<noteq> 0" for r' q j u
    proof -
      have q: "node R r' q" "length q \<le> 2" using node_snoc [OF that(1)] by simp_all
      have w: "walk s r' q = Some u" using W [OF q(1)] that(2) by simp
      then have "u \<noteq> t" using leaf_table_other [OF f p t q] by simp
      then show ?thesis using d(4) [OF that(1) w] that(3) by (simp add: s'_def)
    qed
    show "allocated s' (table_from_entry (leaf s' r' q j))" if "leaf_node R r' q j" "owned (leaf s' r' q j)" for r' q j
      using d(6) [OF that(1)] that(2) L [OF that(1)] e(2) by (auto simp: s'_def split: if_splits)
    show "leaf s' r' q j = leaf s r' q j \<or> leaf s' r' q j = 0 \<or> r' = r \<and> q = p \<and> j = i \<and> leaf s' r' q j = e"
      if "leaf_node R r' q j" for r' q j using L [OF that] by simp
  qed (use not_allocated_one e in auto)
qed

lemma same_tables:
  assumes "\<And>u j. entry_at s' u j = entry_at s u j"
  shows "walk s' r q = walk s r q" and "leaf s' r q j = leaf s r q j" and "tables s' R = tables s R"
proof -
  have w: "walk s' r q = walk s r q" for r q by (rule walk_cong) (simp add: next_table_def assms)
  then show "walk s' r q = walk s r q" .
  show "leaf s' r q j = leaf s r q j" by (simp add: leaf_def w assms split: option.split)
  show "tables s' R = tables s R" by (simp add: tables_def w)
qed

text \<open>Giving back pages that are neither tables nor frames of owned leaves, and changes that leave all tables alone.\<close>

lemma same_forest:
  assumes f: "forest_ok s R" and same: "\<And>u j. entry_at s' u j = entry_at s u j" and ok: "physical_ok (vm_physical s')"
    and keep: "\<And>a. allocated s a \<Longrightarrow> a \<in> tables s R \<or> (\<exists>r p i. leaf_node R r p i \<and> owned (leaf s r p i) \<and> table_from_entry (leaf s r p i) = a)
      \<Longrightarrow> allocated s' a"
  shows "forest_ok s' R"
proof -
  note d = forest_okD [OF f]
  note st = same_tables [OF same]
  show ?thesis
  proof (rule forest_change [OF f ok, where b = 1 and ne = 0])
    show "allocated s' v" if "v \<in> tables s' R" for v using that d(2) keep unfolding st by blast
    show "allocated s' (table_from_entry (leaf s' r q j))" if "leaf_node R r q j" "owned (leaf s' r q j)" for r q j
      using that d(6) [OF that(1)] keep unfolding st by blast
    show "entry_at s' u j AND PTE_LARGE = 0"
      if "node R r' (q @ [j])" "walk s' r' q = Some u" "entry_at s' u j AND PTE_PRESENT \<noteq> 0" for r' q j u
      using d(4) [OF that(1)] that(2,3) unfolding st same by blast
  qed (use not_allocated_one st in auto)
qed

section \<open>Mapping one page\<close>

text \<open>What the callers rely on while tables come and go: the leaves stay, and an allocated page that is no table stays so.\<close>

definition spare :: "virtual_memory \<Rightarrow> nat set \<Rightarrow> nat \<Rightarrow> bool" where
  "spare s R a \<longleftrightarrow> allocated s a \<and> a \<notin> tables s R"

definition keeps :: "nat set \<Rightarrow> virtual_memory \<Rightarrow> virtual_memory \<Rightarrow> bool" where
  "keeps R s s' \<longleftrightarrow> forest_ok s' R \<and> (\<forall>r p i. leaf_node R r p i \<longrightarrow> leaf s' r p i = leaf s r p i) \<and> (\<forall>a. spare s R a \<longrightarrow> spare s' R a)"

lemma keepsI:
  assumes "forest_ok s' R" and "\<And>r p i. leaf_node R r p i \<Longrightarrow> leaf s' r p i = leaf s r p i" and "\<And>a. spare s R a \<Longrightarrow> spare s' R a"
  shows "keeps R s s'"
  using assms by (simp add: keeps_def)

lemma keepsD:
  assumes "keeps R s s'"
  shows "forest_ok s' R" and "leaf_node R r p i \<Longrightarrow> leaf s' r p i = leaf s r p i" and "spare s R a \<Longrightarrow> spare s' R a"
  using assms by (simp_all add: keeps_def)

lemma keeps_trans: "keeps R s s' \<Longrightarrow> keeps R s' s'' \<Longrightarrow> keeps R s s''"
  by (simp add: keeps_def)

lemma keeps_refl: "forest_ok s R \<Longrightarrow> keeps R s s"
  by (simp add: keeps_def)

lemma raised_entry:
  "(e OR 6) AND PTE_PRESENT = e AND PTE_PRESENT"
  "(e OR 6) AND PTE_LARGE = e AND PTE_LARGE"
  "table_from_entry (e OR 6) = table_from_entry e"
  by (simp_all add: flag_bits table_from_entry_def)

lemma raise_entry:
  assumes f: "forest_ok s R" and n: "node R r (p @ [i])" and t: "walk s r p = Some t"
  defines "s' \<equiv> set_entry t i (entry_at s t i OR (PTE_USER OR PTE_WRITABLE)) s"
  shows "keeps R s s'" and "walk s' r' q = walk s r' q"
proof -
  note d = forest_okD [OF f]
  have nx: "next_table s' u j = next_table s u j" for u j by (simp add: next_table_def s'_def raised_entry Let_def)
  have W: "walk s' r' q = walk s r' q" for r' q by (rule walk_cong) (rule nx)
  then show "walk s' r' q = walk s r' q" .
  have tabs: "tables s' R = tables s R" by (rule tables_cong [OF W])
  have L: "leaf s' r' q j = leaf s r' q j" if "leaf_node R r' q j" for r' q j
  proof (cases "walk s r' q")
    case (Some u)
    have "t \<noteq> u" using that leaf_table_other [OF f _ _ Some, of r p t] node_snoc [OF n] t by (simp add: leaf_node_def)
    then show ?thesis using Some W by (simp add: leaf_def s'_def)
  qed (simp add: leaf_def W)
  have "forest_ok s' R"
  proof (rule forest_change [OF f, where b = 1 and ne = 0])
    show "physical_ok (vm_physical s')" using d(1) by (simp add: s'_def)
    show "allocated s' v" if "v \<in> tables s' R" for v using that d(2) unfolding tabs by (simp add: s'_def)
    show "entry_at s' u j AND PTE_LARGE = 0"
      if "node R r' (q @ [j])" "walk s' r' q = Some u" "entry_at s' u j AND PTE_PRESENT \<noteq> 0" for r' q j u
      using d(4) [OF that(1)] that(2,3) raised_entry unfolding W by (auto simp: s'_def split: if_splits)
    show "allocated s' (table_from_entry (leaf s' r' q j))" if "leaf_node R r' q j" "owned (leaf s' r' q j)" for r' q j
      using d(6) [OF that(1)] that(2) L [OF that(1)] by (simp add: s'_def)
  qed (use not_allocated_one L W in auto)
  then show "keeps R s s'" using L by (intro keepsI) (simp_all add: spare_def tabs, simp add: s'_def)
qed

lemma ensure_user:
  assumes f: "forest_ok s R" and n: "node R r (p @ [i])" and t: "walk s r p = Some t"
    and run: "ensure_next_table t i True s = (s', res)"
  shows "keeps R s s'"
    and "res = Inl e \<Longrightarrow> e = IOS_E_NO_MEMORY \<and> walk s' r' q = walk s r' q"
    and "res = Inr (b, created) \<Longrightarrow> node R r' q \<Longrightarrow> walk s' r' q = (if r' = r \<and> q = p @ [i] then Some b else walk s r' q)"
    and "res = Inr (b, created) \<Longrightarrow> walk s r (p @ [i]) = (if created then None else Some b)"
proof -
  note d = forest_okD [OF f]
  have all: "keeps R s s' \<and> (\<forall>e r' q. res = Inl e \<longrightarrow> e = IOS_E_NO_MEMORY \<and> walk s' r' q = walk s r' q)
    \<and> (\<forall>b created r' q. res = Inr (b, created) \<longrightarrow> node R r' q \<longrightarrow> walk s' r' q = (if r' = r \<and> q = p @ [i] then Some b else walk s r' q))
    \<and> (\<forall>b created. res = Inr (b, created) \<longrightarrow> walk s r (p @ [i]) = (if created then None else Some b))"
  proof (cases "entry_at s t i AND PTE_PRESENT \<noteq> 0")
    case True
    have l: "entry_at s t i AND PTE_LARGE = 0" by (rule d(4) [OF n t True])
    have r: "s' = set_entry t i (entry_at s t i OR (PTE_USER OR PTE_WRITABLE)) s" "res = Inr (table_from_entry (entry_at s t i), False)"
      using run True l raised_entry(3) unfolding ensure_next_table_def Let_def by auto
    have "walk s r (p @ [i]) = Some (table_from_entry (entry_at s t i))" using t True l by (simp add: walk_snoc next_table_def Let_def)
    then show ?thesis using raise_entry [OF f n t] unfolding r by auto
  next
    case False
    then have none: "next_table s t i = None" by (simp add: next_table_def)
    have w: "walk s r (p @ [i]) = None" using t none by (simp add: walk_snoc)
    obtain m' pr where al: "physical_allocate_pages 1 1 (vm_physical s) = (m', pr)" by (cases "physical_allocate_pages 1 1 (vm_physical s)")
    show ?thesis
    proof (cases pr)
      case (Inl e)
      have r: "s' = s\<lparr>vm_physical := m'\<rparr>" "res = Inl e" using run False al Inl unfolding ensure_next_table_def Let_def by auto
      note st = same_tables [of s' s, unfolded r, OF update_simps(5)]
      note ap = allocate_page [OF d(1) al]
      have e: "e = IOS_E_NO_MEMORY" "\<And>x. allocated s' x = allocated s x" using ap(2) [OF Inl] by (simp_all add: r)
      have "forest_ok s' R"
        by (rule same_forest [OF f]) (use ap(1) e(2) in \<open>simp_all add: r\<close>)
      then have "keeps R s s'" using e(2) st unfolding r by (intro keepsI) (simp_all add: spare_def)
      then show ?thesis using e(1) st unfolding r by simp
    next
      case (Inr b)
      note al' = al [unfolded Inr]
      have r: "s' = set_entry t i (of_nat b OR PTE_PRESENT OR PTE_WRITABLE OR PTE_USER) (clear_table b (s\<lparr>vm_physical := m'\<rparr>))"
          "res = Inr (b, True)"
        using run False al' unfolding ensure_next_table_def Let_def by auto
      note link = link_table [OF f n t none al', folded r(1)]
      have "spare s' R a" if "spare s R a" for a
      proof -
        have "a \<noteq> b" using that link(5) by (auto simp: spare_def)
        moreover have "v = b \<or> v \<in> tables s R" if "v \<in> tables s' R" for v
          using that link(2) by (auto simp: tables_def split: if_splits)
        ultimately show ?thesis using that link(4) by (auto simp: spare_def)
      qed
      then have "keeps R s s'" using link(1,3) by (intro keepsI)
      then show ?thesis using link(2) w unfolding r(2) by auto
    qed
  qed
  show "keeps R s s'" using all by blast
  show "e = IOS_E_NO_MEMORY \<and> walk s' r' q = walk s r' q" if "res = Inl e" using all that by blast
  show "walk s' r' q = (if r' = r \<and> q = p @ [i] then Some b else walk s r' q)" if "res = Inr (b, created)" "node R r' q" using all that by blast
  show "walk s r (p @ [i]) = (if created then None else Some b)" if "res = Inr (b, created)" using all that by blast
qed

text \<open>Undoing a table brings back the walks of the state before it was made.\<close>

lemma undo_restores:
  assumes f: "forest_ok s' R" and n: "node R r (p @ [i])" and t: "walk s' r p = Some t"
    and W: "\<And>r' q. node R r' q \<Longrightarrow> walk s' r' q = (if r' = r \<and> q = p @ [i] then Some b else walk s r' q)"
    and c: "walk s r (p @ [i]) = (if created then None else Some b)"
    and L: "\<And>r' q j. leaf_node R r' q j \<Longrightarrow> leaf s' r' q j = leaf s r' q j"
  shows "keeps R s' (undo_table created t i b s')" and "node R r' q \<Longrightarrow> walk (undo_table created t i b s') r' q = walk s r' q"
proof -
  have all: "keeps R s' (undo_table created t i b s') \<and> (\<forall>r' q. node R r' q \<longrightarrow> walk (undo_table created t i b s') r' q = walk s r' q)"
  proof (cases created)
    case True
    have w: "walk s' r (p @ [i]) = Some b" using W [OF n] by simp
    have none: "walk s r (p @ [i]) = None" using c True by simp
    have "bare s' R r (p @ [i])" unfolding bare_def
    proof (intro conjI allI impI)
      fix q assume q: "q \<noteq> []" "node R r ((p @ [i]) @ q)"
      then show "walk s' r ((p @ [i]) @ q) = None" using W [OF q(2)] none by (simp add: walk_append [of s r "p @ [i]" q, simplified])
    next
      fix j assume "leaf_node R r (p @ [i]) j"
      then show "leaf s' r (p @ [i]) j = 0" using L none by (simp add: leaf_None)
    qed
    note un = unlink_table [OF f n t w this]
    have s: "undo_table created t i b s' = free_page b (set_entry t i 0 s')" using True by (simp add: undo_table_def)
    have b: "b \<in> tables s' R" by (rule tablesI [OF n w])
    have "spare (free_page b (set_entry t i 0 s')) R a" if a: "spare s' R a" for a
    proof -
      have "tables (free_page b (set_entry t i 0 s')) R \<subseteq> tables s' R"
      proof (rule tables_mono)
        fix r' q v assume "node R r' q" "walk (free_page b (set_entry t i 0 s')) r' q = Some v"
        then show "walk s' r' q = Some v" using un(2) [of r' q] by (auto split: if_splits)
      qed
      then show ?thesis using a b un(4) by (auto simp: spare_def)
    qed
    then have "keeps R s' (undo_table created t i b s')" using un(1,3) unfolding s by (intro keepsI)
    moreover have "walk (undo_table created t i b s') r' q = walk s r' q" if "node R r' q" for r' q
      using un(2) [OF that] W [OF that] none unfolding s by auto
    ultimately show ?thesis by blast
  next
    case False
    then have "undo_table created t i b s' = s'" by (simp add: undo_table_def)
    then show ?thesis using keeps_refl [OF f] W c False by auto
  qed
  then show "keeps R s' (undo_table created t i b s')"
    and "node R r' q \<Longrightarrow> walk (undo_table created t i b s') r' q = walk s r' q" by blast+
qed

text \<open>The name of the leaf of an address, and the leaves of user addresses.\<close>

definition table_path :: "nat \<Rightarrow> nat list" where
  "table_path va = [pml4_index va, pdpt_index va, pd_index va]"

definition leaf_of :: "virtual_memory \<Rightarrow> nat \<Rightarrow> nat \<Rightarrow> u64" where
  "leaf_of s r va = leaf s r (table_path va) (pt_index va)"

definition user_address :: "nat \<Rightarrow> bool" where
  "user_address va \<longleftrightarrow> VM_USER_START \<le> va \<and> va < VM_USER_END"

lemma user_leaf_node:
  assumes "r \<in> R" and "user_address va"
  shows "leaf_node R r (table_path va) (pt_index va)"
proof -
  have "2 \<le> va div 2 ^ 39" "va div 2 ^ 39 < 256" using assms(2) by (simp_all add: user_address_def less_eq_div_iff_mult_less_eq div_less_iff_less_mult)
  then have "2 \<le> pml4_index va \<and> pml4_index va < 256" by (simp add: pml4_index_def)
  then show ?thesis
    using assms(1) by (simp add: leaf_node_def node_def table_path_def pdpt_index_def pd_index_def pt_index_def)
qed

text \<open>The indices are the digits of the page number in base 512.\<close>

lemma index_digits:
  "pt_index x = x div 4096 mod 512" "pd_index x = x div 4096 div 512 mod 512"
  "pdpt_index x = x div 4096 div 512 div 512 mod 512" "pml4_index x = x div 4096 div 512 div 512 div 512 mod 512"
  unfolding pt_index_def pd_index_def pdpt_index_def pml4_index_def div_mult2_eq [symmetric] by simp_all

lemma nested_digits:
  fixes y a b c y0 a0 b0 :: nat
  assumes "y = a * 512 + y0" and "a = b * 512 + a0" and "b = c * 512 + b0"
  shows "y = ((c * 512 + b0) * 512 + a0) * 512 + y0"
  using assms by simp

lemma digits_page:
  fixes y :: nat
  assumes "y div 512 div 512 div 512 < 512"
  shows "y = ((y div 512 div 512 div 512 mod 512 * 512 + y div 512 div 512 mod 512) * 512 + y div 512 mod 512) * 512 + y mod 512"
proof -
  define a b c where "a = y div 512" and "b = a div 512" and "c = b div 512"
  have "y = a * 512 + y mod 512" "a = b * 512 + a mod 512" "b = c * 512 + b mod 512"
    unfolding a_def b_def c_def by (simp_all only: div_mult_mod_eq)
  from nested_digits [OF this] have "y = ((c * 512 + b mod 512) * 512 + a mod 512) * 512 + y mod 512" .
  moreover have "c mod 512 = c" using assms by (simp add: a_def b_def c_def)
  ultimately have "y = ((c mod 512 * 512 + b mod 512) * 512 + a mod 512) * 512 + y mod 512" by simp
  then show ?thesis unfolding a_def b_def c_def .
qed

lemma same_leaf:
  assumes "user_address va" and "user_address va'"
  shows "table_path va' = table_path va \<and> pt_index va' = pt_index va \<longleftrightarrow> va' div 4096 = va div 4096"
proof
  have small: "x div 4096 div 512 div 512 div 512 < 512" if "user_address x" for x
    using that unfolding user_address_def div_mult2_eq [symmetric] by (simp add: div_less_iff_less_mult)
  assume "table_path va' = table_path va \<and> pt_index va' = pt_index va"
  then show "va' div 4096 = va div 4096"
    using digits_page [OF small [OF assms(1)]] digits_page [OF small [OF assms(2)]] unfolding table_path_def index_digits
    by (metis list.inject)
next
  assume "va' div 4096 = va div 4096"
  then show "table_path va' = table_path va \<and> pt_index va' = pt_index va" by (simp add: table_path_def index_digits)
qed

definition map_outcome :: "nat set \<Rightarrow> nat \<Rightarrow> nat \<Rightarrow> u64 \<Rightarrow> virtual_memory \<Rightarrow> virtual_memory \<Rightarrow> unit res \<Rightarrow> bool" where
  "map_outcome R r va entry s s' res \<longleftrightarrow> forest_ok s' R \<and> (\<forall>a. spare s R a \<longrightarrow> spare s' R a)
     \<and> (case res of
          Inl e \<Rightarrow> (e = IOS_E_NO_MEMORY \<or> e = IOS_E_ALREADY_EXISTS \<and> leaf_of s r va \<noteq> 0)
            \<and> (\<forall>r' q j. leaf_node R r' q j \<longrightarrow> leaf s' r' q j = leaf s r' q j)
        | Inr _ \<Rightarrow> leaf_of s r va = 0 \<and> (\<forall>r' q j. leaf_node R r' q j \<longrightarrow>
            leaf s' r' q j = (if r' = r \<and> q = table_path va \<and> j = pt_index va then entry else leaf s r' q j)))"

lemma map_fails:
  assumes "keeps R s s'" and "e = IOS_E_NO_MEMORY \<or> e = IOS_E_ALREADY_EXISTS \<and> leaf_of s r va \<noteq> 0"
  shows "map_outcome R r va entry s s' (Inl e)"
  using assms by (simp add: map_outcome_def keeps_def)

lemma map_one_user:
  assumes f: "forest_ok s R" and r: "r \<in> R" and va: "user_address va" and flags: "flags AND IOS_VM_USER \<noteq> 0"
    and e: "leaf_ok (leaf_entry pa flags)" "frame_ok pa" "flags AND IOS_VM_OWNED \<noteq> 0 \<Longrightarrow> spare s R pa"
      "\<And>r' q j. flags AND IOS_VM_OWNED \<noteq> 0 \<Longrightarrow> leaf_node R r' q j \<Longrightarrow> owned (leaf s r' q j) \<Longrightarrow> table_from_entry (leaf s r' q j) \<noteq> pa"
    and run: "map_one r va pa flags s = (s', res)"
  shows "map_outcome R r va (leaf_entry pa flags) s s' res"
proof -
  define i4 i3 i2 i1 where "i4 = pml4_index va" and "i3 = pdpt_index va" and "i2 = pd_index va" and "i1 = pt_index va"
  note ix = i4_def [symmetric] i3_def [symmetric] i2_def [symmetric] i1_def [symmetric]
  have ln: "leaf_node R r [i4, i3, i2] i1" using user_leaf_node [OF r va] by (simp add: table_path_def ix)
  have n3: "node R r ([i4, i3] @ [i2])" using ln by (simp add: leaf_node_def)
  have n2: "node R r ([i4] @ [i3])" using node_prefix [OF n3] by simp
  have n1: "node R r ([] @ [i4])" using node_prefix [OF n2] by simp
  have lo: "leaf_of s r va = leaf s r [i4, i3, i2] i1" by (simp add: leaf_of_def table_path_def ix)
  note run = run [unfolded map_one_def Let_def ix, simplified flags, simplified]
  obtain s1 r1 where x1: "ensure_next_table r i4 True s = (s1, r1)" by (cases "ensure_next_table r i4 True s")
  note E1 = ensure_user [OF f n1 _ x1, simplified]
  note k1 = E1(1) note f1 = keepsD(1) [OF k1]
  show ?thesis
  proof (cases r1)
    case (Inl e1)
    then show ?thesis using run x1 map_fails [OF k1, of e1] E1(2) [OF Inl] by simp
  next
    case r1: (Inr v1)
    obtain pdpt c1 where v1: "v1 = (pdpt, c1)" by (cases v1)
    note W1 = E1(3) [OF r1 [unfolded v1]] note C1 = E1(4) [OF r1 [unfolded v1]]
    have w1: "walk s1 r [i4] = Some pdpt" using W1 [of r "[i4]"] n1 by simp
    obtain s2 r2 where x2: "ensure_next_table pdpt i3 True s1 = (s2, r2)" by (cases "ensure_next_table pdpt i3 True s1")
    note E2 = ensure_user [OF f1 n2 w1 x2, simplified]
    note k2 = keeps_trans [OF k1 E2(1)] note f2 = keepsD(1) [OF k2]
    have u1: "keeps R u (undo_table c1 r i4 pdpt u)" if "keeps R s u" "\<And>r' q. node R r' q \<Longrightarrow> walk u r' q = walk s1 r' q" for u
      by (rule undo_restores(1) [where s = s and p = "[]" and r = r]) (use that n1 W1 C1 keepsD [OF that(1)] in \<open>simp_all\<close>)
    show ?thesis
    proof (cases r2)
      case (Inl e2)
      have "keeps R s2 (undo_table c1 r i4 pdpt s2)" by (rule u1 [OF k2]) (simp add: E2(2) [OF Inl])
      then show ?thesis using run x1 r1 v1 x2 Inl map_fails [OF keeps_trans [OF k2], of _ e2] E2(2) [OF Inl] by simp
    next
      case r2: (Inr v2)
      obtain pd c2 where v2: "v2 = (pd, c2)" by (cases v2)
      note W2 = E2(3) [OF r2 [unfolded v2]] note C2 = E2(4) [OF r2 [unfolded v2]]
      have w2: "walk s2 r [i4, i3] = Some pd" using W2 [of r "[i4, i3]"] n2 by simp
      obtain s3 r3 where x3: "ensure_next_table pd i2 True s2 = (s3, r3)" by (cases "ensure_next_table pd i2 True s2")
      note E3 = ensure_user [OF f2 n3 w2 x3, simplified]
      note k3 = keeps_trans [OF k2 E3(1)] note f3 = keepsD(1) [OF k3]
      have undone: "keeps R s (undo_table c1 r i4 pdpt (undo_table c2 pdpt i3 pd u))"
        if u: "keeps R s u" "\<And>r' q. node R r' q \<Longrightarrow> walk u r' q = walk s2 r' q" for u
      proof -
        let ?u = "undo_table c2 pdpt i3 pd u"
        have t: "walk u r [i4] = Some pdpt" using u(2) [of r "[i4]"] W2 [of r "[i4]"] n1 w1 by simp
        have W: "walk u r' q = (if r' = r \<and> q = [i4] @ [i3] then Some pd else walk s1 r' q)" if "node R r' q" for r' q
          using u(2) [OF that] W2 [OF that] by simp
        have L: "leaf u r' q j = leaf s1 r' q j" if "leaf_node R r' q j" for r' q j
          using keepsD(2) [OF u(1) that] keepsD(2) [OF k1 that] by simp
        note un = undo_restores [OF keepsD(1) [OF u(1)] n2 t W _ L, of c2, simplified, OF C2]
        show ?thesis using keeps_trans [OF u(1) un(1)] u1 [OF _ un(2)] keeps_trans by blast
      qed
      show ?thesis
      proof (cases r3)
        case (Inl e3)
        have "keeps R s (undo_table c1 r i4 pdpt (undo_table c2 pdpt i3 pd s3))" by (rule undone [OF k3]) (simp add: E3(2) [OF Inl])
        from map_fails [OF this, of e3 r va "leaf_entry pa flags"] show ?thesis
          using run x1 r1 v1 x2 r2 v2 x3 Inl E3(2) [OF Inl] by auto
      next
        case r3: (Inr v3)
        obtain pt c3 where v3: "v3 = (pt, c3)" by (cases v3)
        note W3 = E3(3) [OF r3 [unfolded v3]] note C3 = E3(4) [OF r3 [unfolded v3]]
        have w3: "walk s3 r [i4, i3, i2] = Some pt" using W3 [of r "[i4, i3, i2]"] n3 by simp
        have leaf3: "entry_at s3 pt i1 = leaf_of s r va" using leaf_walk [OF w3, of i1] keepsD(2) [OF k3 ln] lo by simp
        show ?thesis
        proof (cases "entry_at s3 pt i1 AND PTE_PRESENT \<noteq> 0")
          case True
          have t3: "walk s3 r [i4, i3] = Some pd" using W3 [of r "[i4, i3]"] n2 w2 by simp
          have L3: "leaf s3 r' q j = leaf s2 r' q j" if "leaf_node R r' q j" for r' q j
            using keepsD(2) [OF k3 that] keepsD(2) [OF k2 that] by simp
          have W3': "walk s3 r' q = (if r' = r \<and> q = [i4, i3] @ [i2] then Some pt else walk s2 r' q)" if "node R r' q" for r' q
            using W3 [OF that] by simp
          note un = undo_restores [OF f3 n3 t3 W3' _ L3, of c3, simplified, OF C3]
          have "keeps R s (undo_table c1 r i4 pdpt (undo_table c2 pdpt i3 pd (undo_table c3 pd i2 pt s3)))"
            by (rule undone [OF keeps_trans [OF k3 un(1)] un(2)])
          then have "map_outcome R r va (leaf_entry pa flags) s
              (undo_table c1 r i4 pdpt (undo_table c2 pdpt i3 pd (undo_table c3 pd i2 pt s3))) (Inl IOS_E_ALREADY_EXISTS)"
            by (rule map_fails) (use True leaf3 in auto)
          then show ?thesis using run x1 r1 v1 x2 r2 v2 x3 r3 v3 True by simp
        next
          case False
          have z: "leaf_of s r va = 0" using forest_okD(5) [OF f ln] False leaf3 by (simp add: lo leaf_ok_def)
          have o: "flags AND IOS_VM_OWNED \<noteq> 0" if "owned (leaf_entry pa flags)"
            using that leaf_entry_bits(6) [OF e(2), of flags] by (auto simp: owned_def split: if_splits)
          have pa: "table_from_entry (leaf_entry pa flags) = pa" by (rule leaf_entry_bits(1) [OF e(2)])
          note sl = set_leaf [OF f3 ln w3 e(1), unfolded pa]
          have S: "owned (leaf_entry pa flags) \<Longrightarrow> allocated s3 pa \<and> pa \<notin> tables s3 R"
            using keepsD(3) [OF k3, of pa] e(3) o by (simp add: spare_def)
          have D: "table_from_entry (leaf s3 r' q j) \<noteq> pa"
            if "owned (leaf_entry pa flags)" "leaf_node R r' q j" "owned (leaf s3 r' q j)" for r' q j
            using that e(4) o keepsD(2) [OF k3 that(2)] by simp
          let ?s = "set_entry pt i1 (leaf_entry pa flags) s3"
          let ?t = "invalidate_if_active r va ?s"
          note same = same_tables [of ?t ?s, OF update_simps(4)]
          have "forest_ok ?t R"
            by (rule same_forest [OF sl(1) [OF S D] update_simps(4)])
              (use forest_okD(1) [OF sl(1) [OF S D]] in \<open>simp_all\<close>)
          moreover have "spare ?t R a" if "spare s R a" for a
            using keepsD(3) [OF k3 that] tables_cong [of R ?s s3, OF sl(2) [OF S D]] unfolding spare_def same by simp
          moreover have "leaf ?t r' q j = (if r' = r \<and> q = table_path va \<and> j = pt_index va then leaf_entry pa flags else leaf s r' q j)"
            if "leaf_node R r' q j" for r' q j
            using sl(3) [OF S D that] keepsD(2) [OF k3 that] unfolding same by (simp add: table_path_def ix)
          ultimately have "map_outcome R r va (leaf_entry pa flags) s ?t (Inr ())" using z by (simp add: map_outcome_def)
          moreover have "s' = ?t \<and> res = Inr ()"
            using run x1 r1 v1 x2 r2 v2 x3 r3 v3 False by (simp add: leaf_entry_def)
          ultimately show ?thesis by simp
        qed
      qed
    qed
  qed
qed

section \<open>Unmapping one page\<close>

lemma release_table:
  assumes f: "forest_ok s R" and n: "node R r (p @ [i])" and t: "walk s r p = Some t" and b: "walk s r (p @ [i]) = Some b"
  shows "keeps R s (release_empty t i b s)"
    and "node R r' q \<Longrightarrow> \<not> (r' = r \<and> q = p @ [i]) \<Longrightarrow> walk (release_empty t i b s) r' q = walk s r' q"
    and "allocated (release_empty t i b s) x \<Longrightarrow> allocated s x"
proof -
  let ?s = "release_empty t i b s"
  have "keeps R s ?s \<and> (\<forall>r' q. node R r' q \<longrightarrow> \<not> (r' = r \<and> q = p @ [i]) \<longrightarrow> walk ?s r' q = walk s r' q)
    \<and> (\<forall>x. allocated ?s x \<longrightarrow> allocated s x)"
  proof (cases "table_is_empty s b")
    case True
    then have z: "entry_at s b j = 0" if "j < 512" for j using that by (simp add: table_is_empty_def list_all_iff)
    have "bare s R r (p @ [i])" unfolding bare_def
    proof (intro conjI allI impI)
      fix q assume q: "q \<noteq> []" "node R r ((p @ [i]) @ q)"
      obtain j q' where e: "q = j # q'" using q(1) by (cases q) simp_all
      have "j < 512" using q(2) by (simp add: node_def e)
      then have "walk s b q = None" using z by (simp add: e next_table_def)
      then show "walk s r ((p @ [i]) @ q) = None" using b by (simp add: walk_append [of s r "p @ [i]"] del: append_assoc)
    next
      fix j assume "leaf_node R r (p @ [i]) j"
      then show "leaf s r (p @ [i]) j = 0" using z by (simp add: leaf_walk [OF b] leaf_node_def)
    qed
    note un = unlink_table [OF f n t b this]
    have eq: "?s = free_page b (set_entry t i 0 s)" using True by (simp add: release_empty_def)
    have "tables ?s R \<subseteq> tables s R"
    proof (rule tables_mono)
      fix r' q v assume "node R r' q" "walk ?s r' q = Some v"
      then show "walk s r' q = Some v" using un(2) [of r' q] unfolding eq by (auto split: if_splits)
    qed
    then have "spare ?s R a" if "spare s R a" for a
      using that tablesI [OF n b] un(4) unfolding eq by (auto simp: spare_def)
    then have "keeps R s ?s" using un(1,3) unfolding eq by (intro keepsI)
    then show ?thesis using un(2,4) unfolding eq by auto
  next
    case False
    then have "?s = s" by (simp add: release_empty_def)
    then show ?thesis using keeps_refl [OF f] by simp
  qed
  then show "keeps R s ?s"
    and "node R r' q \<Longrightarrow> \<not> (r' = r \<and> q = p @ [i]) \<Longrightarrow> walk ?s r' q = walk s r' q"
    and "allocated ?s x \<Longrightarrow> allocated s x" by blast+
qed

lemma walk3:
  "walk s r [i4, i3, i2] = Some pt \<longleftrightarrow>
    (\<exists>pdpt pd. next_table s r i4 = Some pdpt \<and> next_table s pdpt i3 = Some pd \<and> next_table s pd i2 = Some pt)"
  by (auto split: option.splits)

lemma unmap_one_absent:
  assumes "forest_ok s R" and "r \<in> R" and "user_address va" and "leaf_of s r va = 0"
  shows "unmap_one r va release s = (s, Inl IOS_E_NOT_FOUND)"
proof (cases "walk s r (table_path va)")
  case None
  then show ?thesis unfolding unmap_one_def table_path_def by (simp split: option.splits)
next
  case (Some pt)
  then have "entry_at s pt (pt_index va) = 0" using assms(4) by (simp add: leaf_of_def leaf_walk)
  then show ?thesis using Some unfolding unmap_one_def table_path_def walk3 by (auto simp: Let_def)
qed

lemma free_frame:
  assumes f: "forest_ok s R" and a: "spare s R a"
    and own: "\<And>r p i. leaf_node R r p i \<Longrightarrow> owned (leaf s r p i) \<Longrightarrow> table_from_entry (leaf s r p i) \<noteq> a"
  shows "forest_ok (free_page a s) R" and "allocated (free_page a s) x \<longleftrightarrow> x \<noteq> a \<and> allocated s x"
    and "spare (free_page a s) R x \<longleftrightarrow> x \<noteq> a \<and> spare s R x"
proof -
  note d = forest_okD [OF f]
  have al: "allocated s a" "a \<notin> tables s R" using a by (simp_all add: spare_def)
  note rel = release_page [OF d(1) al(1)]
  show A: "allocated (free_page a s) x \<longleftrightarrow> x \<noteq> a \<and> allocated s x" for x using rel(2) by simp
  show "forest_ok (free_page a s) R"
  proof (rule same_forest [OF f update_simps(3)])
    show "physical_ok (vm_physical (free_page a s))" using rel(1) by simp
  next
    fix x assume "allocated s x" "x \<in> tables s R \<or> (\<exists>r p i. leaf_node R r p i \<and> owned (leaf s r p i) \<and> table_from_entry (leaf s r p i) = x)"
    then show "allocated (free_page a s) x" using A al(2) own by blast
  qed
  show "spare (free_page a s) R x \<longleftrightarrow> x \<noteq> a \<and> spare s R x"
    using A same_tables(3) [of "free_page a s" s R, OF update_simps(3)] by (auto simp: spare_def)
qed

text \<open>What a successful unmapping leaves: exactly one leaf is cleared; the frame is given back if it is owned and asked for.\<close>

definition unmapped :: "nat set \<Rightarrow> nat \<Rightarrow> nat \<Rightarrow> bool \<Rightarrow> virtual_memory \<Rightarrow> virtual_memory \<Rightarrow> bool" where
  "unmapped R r va release s s' \<longleftrightarrow> forest_ok s' R
     \<and> (\<forall>r' q j. leaf_node R r' q j \<longrightarrow> leaf s' r' q j = (if r' = r \<and> q = table_path va \<and> j = pt_index va then 0 else leaf s r' q j))
     \<and> (\<forall>a. spare s R a \<longrightarrow> spare s' R a \<or> release \<and> owned (leaf_of s r va) \<and> a = table_from_entry (leaf_of s r va))
     \<and> (\<forall>a. allocated s' a \<longrightarrow> allocated s a)
     \<and> (release \<and> owned (leaf_of s r va) \<longrightarrow> \<not> allocated s' (table_from_entry (leaf_of s r va)))"

lemma unmap_one_user:
  assumes f: "forest_ok s R" and r: "r \<in> R" and va: "user_address va" and present: "leaf_of s r va \<noteq> 0"
  shows "\<exists>s'. unmap_one r va release s = (s', Inr ()) \<and> unmapped R r va release s s'"
proof -
  define i4 i3 i2 i1 where "i4 = pml4_index va" and "i3 = pdpt_index va" and "i2 = pd_index va" and "i1 = pt_index va"
  note ix = i4_def [symmetric] i3_def [symmetric] i2_def [symmetric] i1_def [symmetric]
  have path: "table_path va = [i4, i3, i2]" by (simp add: table_path_def ix)
  have ln: "leaf_node R r [i4, i3, i2] i1" using user_leaf_node [OF r va] by (simp add: path ix)
  have n3: "node R r ([i4, i3] @ [i2])" using ln by (simp add: leaf_node_def)
  have n2: "node R r ([i4] @ [i3])" using node_prefix [OF n3] by simp
  have n1: "node R r ([] @ [i4])" using node_prefix [OF n2] by simp
  define old where "old = leaf_of s r va"
  have lo: "old = leaf s r [i4, i3, i2] i1" by (simp add: old_def leaf_of_def path ix)
  obtain pt where w3: "walk s r [i4, i3, i2] = Some pt"
    using present leaf_None [of s r "[i4, i3, i2]" i1] lo old_def by (cases "walk s r [i4, i3, i2]") auto
  obtain pdpt pd where nx: "next_table s r i4 = Some pdpt" "next_table s pdpt i3 = Some pd" "next_table s pd i2 = Some pt"
    using w3 unfolding walk3 by blast
  have w1: "walk s r [i4] = Some pdpt" and w2: "walk s r [i4, i3] = Some pd" using nx by simp_all
  have old: "entry_at s pt i1 = old" using leaf_walk [OF w3] lo by simp
  have okl: "leaf_ok old" using forest_okD(5) [OF f ln] by (simp add: lo)
  then have pr: "old AND PTE_PRESENT \<noteq> 0" using present by (simp add: leaf_ok_def old_def)
  define s1 where "s1 = invalidate_if_active r va (set_entry pt i1 0 s)"
  define s2 where "s2 = (if release \<and> old AND PTE_OWNED \<noteq> 0 then free_page (table_from_entry old) s1 else s1)"
  define s3 where "s3 = release_empty pd i2 pt s2"
  define s4 where "s4 = release_empty pdpt i3 pd s3"
  define s5 where "s5 = release_empty r i4 pdpt s4"
  have run: "unmap_one r va release s = (s5, Inr ())"
    using pr unfolding unmap_one_def ix by (simp add: nx Let_def old s1_def s2_def s3_def s4_def s5_def)
  note sl = set_leaf [OF f ln w3, of 0, simplified]
  let ?s = "set_entry pt i1 0 s"
  note same = same_tables [of s1 ?s, unfolded s1_def, OF update_simps(4), folded s1_def]
  have f1: "forest_ok s1 R" unfolding s1_def
    by (rule same_forest [OF sl(1) update_simps(4)]) (use forest_okD(1) [OF sl(1)] in simp_all)
  have L1: "leaf s1 r' q j = (if r' = r \<and> q = table_path va \<and> j = pt_index va then 0 else leaf s r' q j)" if "leaf_node R r' q j" for r' q j
    using sl(3) [OF that] unfolding same path ix .
  have W1: "walk s1 r' q = walk s r' q" if "node R r' q" for r' q using sl(2) [OF that] unfolding same .
  have T1: "tables s1 R = tables s R" by (rule tables_cong [OF W1])
  have A1: "allocated s1 a = allocated s a" for a by (simp add: s1_def)
  have W2: "walk s2 r' q = walk s1 r' q" for r' q
    unfolding s2_def using same_tables(1) [of "free_page (table_from_entry old) s1" s1, OF update_simps(3)] by simp
  have own: "owned old \<longleftrightarrow> old AND PTE_OWNED \<noteq> 0" using pr by (simp add: owned_def)
  have s2: "forest_ok s2 R \<and> (\<forall>a. spare s R a \<longrightarrow> spare s2 R a \<or> release \<and> owned old \<and> a = table_from_entry old)
    \<and> (\<forall>a. allocated s2 a \<longrightarrow> allocated s a) \<and> (release \<and> owned old \<longrightarrow> \<not> allocated s2 (table_from_entry old))
    \<and> (\<forall>r' q j. leaf s2 r' q j = leaf s1 r' q j)"
  proof (cases "release \<and> owned old")
    case True
    have sp: "spare s1 R (table_from_entry old)" using forest_okD(6) [OF f ln] True by (simp add: lo spare_def T1 A1)
    have "table_from_entry (leaf s1 r' q j) \<noteq> table_from_entry old" if "leaf_node R r' q j" "owned (leaf s1 r' q j)" for r' q j
    proof
      assume e: "table_from_entry (leaf s1 r' q j) = table_from_entry old"
      have ne: "\<not> (r' = r \<and> q = table_path va \<and> j = pt_index va)" and eq: "leaf s1 r' q j = leaf s r' q j"
        using L1 [OF that(1)] that(2) by (auto split: if_splits)
      then show False using forest_okD(7) [OF f that(1) ln] that(2) e True by (auto simp: lo path ix)
    qed
    note fr = free_frame [OF f1 sp this]
    have eq: "s2 = free_page (table_from_entry old) s1" using True own by (simp add: s2_def)
    have "spare s R a \<longleftrightarrow> spare s1 R a" for a by (simp add: spare_def T1 A1)
    then show ?thesis using fr True same_tables(2) [of s2 s1] A1 unfolding eq by auto
  next
    case False
    then have "s2 = s1" using own by (auto simp: s2_def)
    then show ?thesis using f1 False by (auto simp: spare_def T1 A1)
  qed
  have w: "walk s2 r [i4] = Some pdpt" "walk s2 r [i4, i3] = Some pd" "walk s2 r ([i4, i3] @ [i2]) = Some pt"
    using W2 W1 n1 n2 n3 w1 w2 w3 by (simp_all del: walk.simps)
  note R3 = release_table [OF conjunct1 [OF s2] n3 w(2,3), folded s3_def]
  have w': "walk s3 r [i4] = Some pdpt" "walk s3 r ([i4] @ [i3]) = Some pd"
    using R3(2) [of r "[i4]"] R3(2) [of r "[i4] @ [i3]"] w n1 n2 by (simp_all del: walk.simps)
  note R4 = release_table [OF keepsD(1) [OF R3(1)] n2 w', folded s4_def]
  have w'': "walk s4 r [] = Some r" "walk s4 r ([] @ [i4]) = Some pdpt"
    using R4(2) [of r "[i4]"] w'(1) n1 by (simp_all del: walk.simps(2))
  note R5 = release_table [OF keepsD(1) [OF R4(1)] n1 w'', folded s5_def]
  have k: "keeps R s2 s5" by (rule keeps_trans [OF R3(1) keeps_trans [OF R4(1) R5(1)]])
  have A: "allocated s5 a \<Longrightarrow> allocated s2 a" for a using R3(3) R4(3) R5(3) by blast
  have "unmapped R r va release s s5" unfolding unmapped_def old_def [symmetric]
    using keepsD [OF k] A s2 L1 by auto
  then show ?thesis using run by blast
qed

end
