(* ===== verification/Kernel_Spaces.thy ===== *)
theory Kernel_Spaces
  imports Kernel_Virtual
begin

text \<open>
  Address spaces (kernel/memory/virtual.c, continued): what mapping and unmapping a range, creating
  and destroying an address space do to the queries of every user address in every space and to the
  pages of the allocator. The operations are the definitions of \<open>Kernel_Virtual\<close>; here are the loops over pages, the
  recursive destruction, the step relation of a system with several spaces and the theorems.
\<close>

section \<open>Ranges of pages\<close>

lemma leaf_of_update:
  assumes "\<forall>r' q j. leaf_node R r' q j \<longrightarrow> leaf s' r' q j = (if r' = r \<and> q = table_path va \<and> j = pt_index va then e else leaf s r' q j)"
    and "r' \<in> R" and "user_address va" and "user_address x"
  shows "leaf_of s' r' x = (if r' = r \<and> x div 4096 = va div 4096 then e else leaf_of s r' x)"
  using assms(1) user_leaf_node [OF assms(2,4)] unfolding leaf_of_def same_leaf [OF assms(3,4), symmetric] by simp

text \<open>An allocated page that is no table and that no leaf owns: what a caller may hand over with a mapping.\<close>

definition unowned :: "virtual_memory \<Rightarrow> nat set \<Rightarrow> nat \<Rightarrow> bool" where
  "unowned s R a \<longleftrightarrow> spare s R a \<and> (\<forall>r p i. leaf_node R r p i \<longrightarrow> owned (leaf s r p i) \<longrightarrow> table_from_entry (leaf s r p i) \<noteq> a)"

definition in_range :: "nat \<Rightarrow> nat \<Rightarrow> nat \<Rightarrow> nat \<Rightarrow> bool" where
  "in_range va first count x \<longleftrightarrow> va div 4096 + first \<le> x div 4096 \<and> x div 4096 < va div 4096 + first + count"

lemma page_number: "(va + k * 4096) div 4096 = va div 4096 + (k :: nat)"
  by simp

lemma unmap_back_restores:
  assumes "forest_ok s R" and "r \<in> R" and "\<And>k. k < n \<Longrightarrow> user_address (va + k * 4096)" and "\<And>k. k < n \<Longrightarrow> leaf_of s r (va + k * 4096) \<noteq> 0"
  shows "forest_ok (unmap_back r va n s) R \<and> (\<forall>r' x. r' \<in> R \<longrightarrow> user_address x \<longrightarrow>
    leaf_of (unmap_back r va n s) r' x = (if r' = r \<and> in_range va 0 n x then 0 else leaf_of s r' x))
    \<and> (\<forall>a. spare s R a \<longrightarrow> spare (unmap_back r va n s) R a)"
  using assms(1,3,4)
proof (induction n arbitrary: s)
  case 0
  then show ?case by (auto simp: in_range_def)
next
  case (Suc n)
  let ?a = "va + n * 4096"
  have u: "user_address ?a" by (rule Suc.prems(2)) simp
  have "leaf_of s r ?a \<noteq> 0" by (rule Suc.prems(3)) simp
  from unmap_one_user [OF Suc.prems(1) assms(2) u this, of False]
  obtain s1 where run: "unmap_one r ?a False s = (s1, Inr ())" and un: "unmapped R r ?a False s s1" by blast
  have f1: "forest_ok s1 R" using un by (simp add: unmapped_def)
  have L: "leaf_of s1 r' x = (if r' = r \<and> x div 4096 = va div 4096 + n then 0 else leaf_of s r' x)"
    if "r' \<in> R" "user_address x" for r' x
    using leaf_of_update [OF _ that(1) u that(2), of s1 r 0 s] un unfolding unmapped_def page_number by blast
  have sp: "spare s R a \<Longrightarrow> spare s1 R a" for a using un by (simp add: unmapped_def)
  have "forest_ok (unmap_back r va n s1) R \<and> (\<forall>r' x. r' \<in> R \<longrightarrow> user_address x \<longrightarrow>
    leaf_of (unmap_back r va n s1) r' x = (if r' = r \<and> in_range va 0 n x then 0 else leaf_of s1 r' x))
    \<and> (\<forall>a. spare s1 R a \<longrightarrow> spare (unmap_back r va n s1) R a)"
  proof (rule Suc.IH [OF f1])
    fix k assume k: "k < n"
    show "user_address (va + k * 4096)" by (rule Suc.prems(2)) (use k in simp)
    then show "leaf_of s1 r (va + k * 4096) \<noteq> 0" using L [OF assms(2)] k Suc.prems(3) [of k] by simp
  qed
  then show ?case using L sp by (auto simp: run in_range_def)
qed

definition map_range_outcome ::
  "nat set \<Rightarrow> nat \<Rightarrow> nat \<Rightarrow> nat \<Rightarrow> u32 \<Rightarrow> nat \<Rightarrow> nat \<Rightarrow> virtual_memory \<Rightarrow> virtual_memory \<Rightarrow> unit res \<Rightarrow> bool" where
  "map_range_outcome R r va pa flags left page s s' res \<longleftrightarrow> forest_ok s' R \<and> (\<forall>a. spare s R a \<longrightarrow> spare s' R a) \<and> (case res of
      Inl e \<Rightarrow> (e = IOS_E_NO_MEMORY \<or> e = IOS_E_ALREADY_EXISTS \<and> (\<exists>k. page \<le> k \<and> k < page + left \<and> leaf_of s r (va + k * 4096) \<noteq> 0))
        \<and> (\<forall>r' x. r' \<in> R \<longrightarrow> user_address x \<longrightarrow> leaf_of s' r' x = (if r' = r \<and> in_range va 0 page x then 0 else leaf_of s r' x))
    | Inr _ \<Rightarrow> (\<forall>k. page \<le> k \<longrightarrow> k < page + left \<longrightarrow> leaf_of s r (va + k * 4096) = 0)
        \<and> (\<forall>r' x. r' \<in> R \<longrightarrow> user_address x \<longrightarrow> leaf_of s' r' x = (if r' = r \<and> in_range va page left x
        then leaf_entry (pa + (x div 4096 - va div 4096) * 4096) flags else leaf_of s r' x)))"

lemma map_loop_user:
  assumes "forest_ok s R" and r: "r \<in> R" and "\<And>k. k < page + left \<Longrightarrow> user_address (va + k * 4096)"
    and "\<And>k. k < page \<Longrightarrow> leaf_of s r (va + k * 4096) \<noteq> 0" and flags: "flags AND IOS_VM_USER \<noteq> 0"
    and ok: "\<And>k. k < page + left \<Longrightarrow> leaf_ok (leaf_entry (pa + k * 4096) flags) \<and> frame_ok (pa + k * 4096)"
    and "\<And>k. page \<le> k \<Longrightarrow> k < page + left \<Longrightarrow> flags AND IOS_VM_OWNED \<noteq> 0 \<Longrightarrow> unowned s R (pa + k * 4096)"
    and "map_loop r va pa flags left page s = (s', res)"
  shows "map_range_outcome R r va pa flags left page s s' res"
  using assms(1,3,4,6-8)
proof (induction left arbitrary: page s)
  case 0
  then have "s' = s" "res = Inr ()" by simp_all
  then show ?case using 0(1) by (auto simp: map_range_outcome_def in_range_def)
next
  case (Suc left)
  let ?a = "va + page * 4096" let ?p = "pa + page * 4096" let ?e = "leaf_entry ?p flags"
  have u: "user_address ?a" by (rule Suc.prems(2)) simp
  have okp: "leaf_ok ?e" "frame_ok ?p" using Suc.prems(4) [of page] by simp_all
  obtain s1 r1 where x: "map_one r ?a ?p flags s = (s1, r1)" by (cases "map_one r ?a ?p flags s")
  have un: "unowned s R ?p" if "flags AND IOS_VM_OWNED \<noteq> 0" using Suc.prems(5) [of page] that by simp
  have mo: "map_outcome R r ?a ?e s s1 r1"
    by (rule map_one_user [OF Suc.prems(1) r u flags okp _ _ x]) (use un in \<open>auto simp: unowned_def\<close>)
  have f1: "forest_ok s1 R" and sp: "\<And>a. spare s R a \<Longrightarrow> spare s1 R a" using mo by (simp_all add: map_outcome_def)
  show ?case
  proof (cases r1)
    case (Inl e)
    have same: "leaf_of s1 r' y = leaf_of s r' y" if "r' \<in> R" "user_address y" for r' y
      using mo Inl user_leaf_node [OF that] by (simp add: map_outcome_def leaf_of_def)
    have e: "e = IOS_E_NO_MEMORY \<or> e = IOS_E_ALREADY_EXISTS \<and> leaf_of s r ?a \<noteq> 0" using mo Inl by (simp add: map_outcome_def)
    have "s' = unmap_back r va page s1" "res = Inl e" using Suc.prems(6) x Inl by simp_all
    moreover have "forest_ok (unmap_back r va page s1) R \<and> (\<forall>r' x. r' \<in> R \<longrightarrow> user_address x \<longrightarrow>
        leaf_of (unmap_back r va page s1) r' x = (if r' = r \<and> in_range va 0 page x then 0 else leaf_of s1 r' x))
        \<and> (\<forall>a. spare s1 R a \<longrightarrow> spare (unmap_back r va page s1) R a)"
    proof (rule unmap_back_restores [OF f1 r])
      fix k assume k: "k < page"
      show "user_address (va + k * 4096)" by (rule Suc.prems(2)) (use k in simp)
      then show "leaf_of s1 r (va + k * 4096) \<noteq> 0" using same [OF r] Suc.prems(3) [OF k] by simp
    qed
    ultimately show ?thesis using e same sp unfolding map_range_outcome_def by (auto intro!: exI [of _ page])
  next
    case (Inr v)
    have z: "leaf_of s r ?a = 0" using mo Inr by (simp add: map_outcome_def)
    have L: "leaf_of s1 r' y = (if r' = r \<and> y div 4096 = va div 4096 + page then ?e else leaf_of s r' y)"
      if "r' \<in> R" "user_address y" for r' y
      using leaf_of_update [OF _ that(1) u that(2), of s1 r ?e s] mo Inr unfolding map_outcome_def page_number by simp
    have nz: "?e \<noteq> 0" using leaf_entry_bits(2) [OF okp(2), of flags] by auto
    have "map_range_outcome R r va pa flags left (page + 1) s1 s' res"
    proof (rule Suc.IH [OF f1])
      show "user_address (va + k * 4096)" if "k < page + 1 + left" for k by (rule Suc.prems(2)) (use that in simp)
      then show "leaf_of s1 r (va + k * 4096) \<noteq> 0" if "k < page + 1" for k
        using L [OF r, of "va + k * 4096"] that nz Suc.prems(3) [of k] by auto
      show "leaf_ok (leaf_entry (pa + k * 4096) flags) \<and> frame_ok (pa + k * 4096)" if "k < page + 1 + left" for k
        by (rule Suc.prems(4)) (use that in simp)
      show "map_loop r va pa flags left (page + 1) s1 = (s', res)" using Suc.prems(6) x Inr by simp
      fix k assume k: "page + 1 \<le> k" "k < page + 1 + left" and o: "flags AND IOS_VM_OWNED \<noteq> 0"
      have old: "unowned s R (pa + k * 4096)" by (rule Suc.prems(5)) (use k o in auto)
      have "table_from_entry ?e \<noteq> pa + k * 4096" using leaf_entry_bits(1) [OF okp(2)] k by simp
      then show "unowned s1 R (pa + k * 4096)" using old mo Inr unfolding unowned_def map_outcome_def by auto
    qed
    note IH = this
    show ?thesis
    proof (cases res)
      case (Inl e)
      have "\<exists>k. page \<le> k \<and> k < page + Suc left \<and> leaf_of s r (va + k * 4096) \<noteq> 0"
        if k: "page + 1 \<le> k" "k < page + 1 + left" "leaf_of s1 r (va + k * 4096) \<noteq> 0" for k
      proof -
        have "user_address (va + k * 4096)" by (rule Suc.prems(2)) (use k in simp)
        then have "leaf_of s r (va + k * 4096) \<noteq> 0" using L [OF r, of "va + k * 4096"] k by simp
        then show ?thesis using k by (intro exI [of _ k]) simp
      qed
      moreover have "leaf_of s' r' y = (if r' = r \<and> in_range va 0 page y then 0 else leaf_of s r' y)"
        if "r' \<in> R" "user_address y" for r' y
      proof -
        have "leaf_of s r' y = 0" if "r' = r" "y div 4096 = va div 4096 + page"
          using z that same_leaf [OF u \<open>user_address y\<close>] unfolding page_number leaf_of_def by simp
        moreover have "leaf_of s' r' y = (if r' = r \<and> in_range va 0 (page + 1) y then 0 else leaf_of s1 r' y)"
          using IH Inl that unfolding map_range_outcome_def by simp
        ultimately show ?thesis using L [OF that] by (auto simp: in_range_def)
      qed
      ultimately show ?thesis using IH Inl sp unfolding map_range_outcome_def by auto
    next
      case (Inr w)
      have "leaf_of s' r' y = (if r' = r \<and> in_range va page (Suc left) y
          then leaf_entry (pa + (y div 4096 - va div 4096) * 4096) flags else leaf_of s r' y)"
        if "r' \<in> R" "user_address y" for r' y
      proof -
        have "leaf_of s' r' y = (if r' = r \<and> in_range va (page + 1) left y
          then leaf_entry (pa + (y div 4096 - va div 4096) * 4096) flags else leaf_of s1 r' y)"
          using IH Inr that unfolding map_range_outcome_def by simp
        then show ?thesis using L [OF that] by (auto simp: in_range_def)
      qed
      moreover have "leaf_of s r (va + k * 4096) = 0" if k: "page \<le> k" "k < page + Suc left" for k
      proof (cases "k = page")
        case False
        have "user_address (va + k * 4096)" by (rule Suc.prems(2)) (use k in simp)
        moreover have "leaf_of s1 r (va + k * 4096) = 0" using IH Inr k False unfolding map_range_outcome_def by simp
        ultimately show ?thesis using L [OF r, of "va + k * 4096"] False by simp
      qed (simp add: z)
      ultimately show ?thesis using IH Inr sp unfolding map_range_outcome_def by simp
    qed
  qed
qed

section \<open>Queries\<close>

lemma root_positive:
  assumes "forest_ok s R" and "r \<in> R"
  shows "0 < r"
proof -
  have "node R r []" using assms(2) by (simp add: node_def)
  then have "r \<in> tables s R" by (rule tablesI) simp
  then have "get_page_state (vm_physical s) (r div 4096) = PAGE_ALLOCATED"
    using forest_okD(2) [OF assms(1)] by (simp add: physical_page_is_allocated_def)
  then show ?thesis using physical_okD(5) [OF forest_okD(1) [OF assms(1)]] by (cases "r = 0") auto
qed

lemma query_leaf:
  assumes f: "forest_ok s R" and r: "r \<in> R" and x: "user_address x"
  shows "virtual_query s r x = (if leaf_of s r x = 0 then Inl IOS_E_NOT_FOUND
    else Inr (table_from_entry (leaf_of s r x) + x mod 4096, query_flags (leaf_of s r x)))"
proof -
  define i4 i3 i2 i1 where "i4 = pml4_index x" and "i3 = pdpt_index x" and "i2 = pd_index x" and "i1 = pt_index x"
  note ix = i4_def [symmetric] i3_def [symmetric] i2_def [symmetric] i1_def [symmetric]
  have path: "table_path x = [i4, i3, i2]" by (simp add: table_path_def ix)
  have ln: "leaf_node R r [i4, i3, i2] i1" using user_leaf_node [OF r x] by (simp add: path ix)
  have n3: "node R r ([i4, i3] @ [i2])" using ln by (simp add: leaf_node_def)
  have n2: "node R r ([i4] @ [i3])" using node_prefix [OF n3] by simp
  have n1: "node R r ([] @ [i4])" using node_prefix [OF n2] by simp
  have guard: "\<not> (r = 0 \<or> \<not> virtual_address_is_canonical x)"
    using root_positive [OF f r] x by (simp add: virtual_address_is_canonical_def user_address_def)
  note large = forest_okD(4) [OF f]
  have lo: "leaf_of s r x = leaf s r [i4, i3, i2] i1" by (simp add: leaf_of_def path ix)
  have nt: "next_table s t i = (if entry_at s t i AND PTE_PRESENT = 0 then None else Some (table_from_entry (entry_at s t i)))"
    if "node R r (p @ [i])" "walk s r p = Some t" for p i t
    using large [OF that] by (auto simp: next_table_def Let_def)
  show ?thesis
  proof (cases "entry_at s r i4 AND PTE_PRESENT = 0")
    case True
    then have "leaf_of s r x = 0" using nt [OF n1, of r] by (simp add: lo leaf_def)
    then show ?thesis using True guard unfolding virtual_query_def virtual_translate_def ix by (simp add: Let_def)
  next
    case p1: False
    define pdpt where "pdpt = table_from_entry (entry_at s r i4)"
    have l1: "entry_at s r i4 AND PTE_LARGE = 0" using large [OF n1, of r] p1 by simp
    have w1: "walk s r [i4] = Some pdpt" and x1: "next_table s r i4 = Some pdpt" using nt [OF n1, of r] p1 by (simp_all add: pdpt_def)
    show ?thesis
    proof (cases "entry_at s pdpt i3 AND PTE_PRESENT = 0")
      case True
      then have "leaf_of s r x = 0" using nt [OF n2 w1] x1 by (simp add: lo leaf_def)
      then show ?thesis using True p1 l1 guard unfolding virtual_query_def virtual_translate_def ix by (simp add: Let_def pdpt_def)
    next
      case p2: False
      define pd where "pd = table_from_entry (entry_at s pdpt i3)"
      have l2: "entry_at s pdpt i3 AND PTE_LARGE = 0" using large [OF n2 w1] p2 by simp
      have x2: "next_table s pdpt i3 = Some pd" using nt [OF n2 w1] p2 by (simp add: pd_def)
      have w2: "walk s r [i4, i3] = Some pd" using x1 x2 by simp
      show ?thesis
      proof (cases "entry_at s pd i2 AND PTE_PRESENT = 0")
        case True
        then have "leaf_of s r x = 0" using nt [OF n3 w2] x1 x2 by (simp add: lo leaf_def)
        then show ?thesis using True p1 l1 p2 l2 guard unfolding virtual_query_def virtual_translate_def ix
          by (simp add: Let_def pdpt_def pd_def)
      next
        case p3: False
        define pt where "pt = table_from_entry (entry_at s pd i2)"
        have l3: "entry_at s pd i2 AND PTE_LARGE = 0" using large [OF n3 w2] p3 by simp
        have x3: "next_table s pd i2 = Some pt" using nt [OF n3 w2] p3 by (simp add: pt_def)
        have e: "entry_at s pt i1 = leaf_of s r x" using x1 x2 x3 by (simp add: lo leaf_def)
        have "leaf_of s r x AND PTE_PRESENT = 0 \<longleftrightarrow> leaf_of s r x = 0"
          using forest_okD(5) [OF f ln] by (auto simp: lo leaf_ok_def)
        moreover have "virtual_translate s r x = (if leaf_of s r x AND PTE_PRESENT = 0 then Inl IOS_E_NOT_FOUND
            else Inr (table_from_entry (leaf_of s r x) + x mod 4096))"
          using p1 l1 p2 l2 p3 l3 guard e unfolding virtual_translate_def ix
          by (simp add: Let_def pdpt_def [symmetric] pd_def [symmetric] pt_def [symmetric]) (simp add: table_from_entry_def)
        moreover have "locate_leaf s r x = Inr (pt, i1)" using x1 x2 x3 by (simp add: locate_leaf_def ix)
        ultimately show ?thesis using e unfolding virtual_query_def by simp
      qed
    qed
  qed
qed

section \<open>Mapping and unmapping a range\<close>

lemma write_or_execute: "\<forall>n \<in> set [0..<32]. (of_nat n :: u32) AND (IOS_VM_WRITE OR IOS_VM_EXECUTE) \<noteq> (IOS_VM_WRITE OR IOS_VM_EXECUTE)
    \<longrightarrow> of_nat n AND IOS_VM_WRITE = 0 \<or> of_nat n AND IOS_VM_EXECUTE = 0"
  by code_simp

lemma map_not_rejected:
  assumes "\<not> map_rejected r va pa n flags s" and "flags AND IOS_VM_USER \<noteq> 0"
  shows "va mod 4096 = 0" and "k < n \<Longrightarrow> user_address (va + k * 4096)" and "k < n \<Longrightarrow> frame_ok (pa + k * 4096)"
    and "k < n \<Longrightarrow> leaf_ok (leaf_entry (pa + k * 4096) flags)"
    and "flags AND NOT (IOS_VM_WRITE OR IOS_VM_EXECUTE OR IOS_VM_USER OR IOS_VM_GLOBAL OR IOS_VM_OWNED) = 0"
proof -
  have g: "va mod 4096 = 0" "pa mod 4096 = 0" "pa \<le> unat PTE_ADDRESS_MASK" "n * 4096 - 4096 \<le> unat PTE_ADDRESS_MASK - pa"
      "virtual_user_range va (n * 4096)" "flags AND (IOS_VM_WRITE OR IOS_VM_EXECUTE) \<noteq> (IOS_VM_WRITE OR IOS_VM_EXECUTE)"
    and h: "flags AND NOT (IOS_VM_WRITE OR IOS_VM_EXECUTE OR IOS_VM_USER OR IOS_VM_GLOBAL OR IOS_VM_OWNED) = 0"
    using assms unfolding map_rejected_def Let_def by (simp_all only: de_Morgan_disj not_not not_less) blast+
  show "va mod 4096 = 0" by fact
  show "flags AND NOT (IOS_VM_WRITE OR IOS_VM_EXECUTE OR IOS_VM_USER OR IOS_VM_GLOBAL OR IOS_VM_OWNED) = 0" by fact
  show u: "user_address (va + k * 4096)" if "k < n" for k
    using g(5) that by (simp add: virtual_user_range_def user_address_def)
  show fr: "frame_ok (pa + k * 4096)" if "k < n" for k
  proof -
    have "k * 4096 \<le> n * 4096 - 4096" using that by simp
    then have "pa + k * 4096 \<le> unat PTE_ADDRESS_MASK" using g(3,4) by linarith
    then show ?thesis using g(2) by (simp add: frame_ok_def)
  qed
  have wx: "flags AND IOS_VM_WRITE = 0 \<or> flags AND IOS_VM_EXECUTE = 0"
    using bspec [OF write_or_execute, of "unat flags"] small_flags [OF h] g(6) by auto
  show "leaf_ok (leaf_entry (pa + k * 4096) flags)" if "k < n" for k
    using wx assms(2) leaf_entry_bits [OF fr [OF that], of flags] by (auto simp: leaf_ok_def)
qed

lemma range_page:
  assumes "va mod 4096 = (0 :: nat)"
  shows "in_range va 0 n x \<longleftrightarrow> va \<le> x \<and> x < va + n * 4096"
    and "va \<le> x \<Longrightarrow> (x div 4096 - va div 4096) * 4096 + x mod 4096 = x - va"
proof -
  obtain v where v: "va = v * 4096" using assms by (auto simp: mod_0_imp_dvd dvd_def mult.commute)
  have "v \<le> x div 4096 \<longleftrightarrow> v * 4096 \<le> x" by (rule less_eq_div_iff_mult_less_eq) simp
  moreover have "x div 4096 < v + n \<longleftrightarrow> x < (v + n) * 4096" by (rule div_less_iff_less_mult) simp
  ultimately show "in_range va 0 n x \<longleftrightarrow> va \<le> x \<and> x < va + n * 4096" by (simp add: in_range_def v algebra_simps)
  assume "va \<le> x"
  have "(x div 4096 - v) * 4096 + x mod 4096 = x - v * 4096"
    using div_mult_mod_eq [of x 4096] \<open>va \<le> x\<close> \<open>v \<le> x div 4096 \<longleftrightarrow> v * 4096 \<le> x\<close> unfolding v diff_mult_distrib by simp
  then show "(x div 4096 - va div 4096) * 4096 + x mod 4096 = x - va" by (simp add: v)
qed

lemma map_pages_user:
  assumes f: "forest_ok s R" and r: "r \<in> R" and flags: "flags AND IOS_VM_USER \<noteq> 0"
    and own: "\<And>k. k < n \<Longrightarrow> flags AND IOS_VM_OWNED \<noteq> 0 \<Longrightarrow> unowned s R (pa + k * 4096)"
    and run: "virtual_map_pages r va pa n flags s = (s', res)"
  shows "forest_ok s' R \<and> (\<forall>a. spare s R a \<longrightarrow> spare s' R a) \<and> (case res of
      Inl e \<Rightarrow> (\<forall>r' x. r' \<in> R \<longrightarrow> user_address x \<longrightarrow> leaf_of s' r' x = leaf_of s r' x)
        \<and> (e = IOS_E_INVALID_ARGUMENT \<and> map_rejected r va pa n flags s \<or> e = IOS_E_NO_MEMORY
           \<or> e = IOS_E_ALREADY_EXISTS \<and> (\<exists>k < n. leaf_of s r (va + k * 4096) \<noteq> 0))
    | Inr _ \<Rightarrow> \<not> map_rejected r va pa n flags s \<and> (\<forall>k < n. leaf_of s r (va + k * 4096) = 0) \<and> (\<forall>r' x. r' \<in> R \<longrightarrow> user_address x \<longrightarrow>
        leaf_of s' r' x = (if r' = r \<and> in_range va 0 n x then leaf_entry (pa + (x div 4096 - va div 4096) * 4096) flags else leaf_of s r' x)))"
proof (cases "map_rejected r va pa n flags s")
  case True
  then show ?thesis using run f by (auto simp: virtual_map_pages_def)
next
  case False
  note nr = map_not_rejected [OF False flags]
  have al: "\<not> (flags AND IOS_VM_OWNED \<noteq> 0 \<and> list_ex (\<lambda>page. \<not> physical_page_is_allocated (pa + page * IOS_PAGE_SIZE) (vm_physical s)) [0..<n])"
    using own by (auto simp: list_ex_iff unowned_def spare_def)
  have "map_loop r va pa flags n 0 s = (s', res)" using run False unfolding virtual_map_pages_def if_not_P [OF al] by simp
  then have "map_range_outcome R r va pa flags n 0 s s' res"
    by (intro map_loop_user [OF f r _ _ flags]) (use nr own in simp_all)
  then show ?thesis using False unfolding map_range_outcome_def by (cases res) (auto simp: in_range_def)
qed

text \<open>Unmapping the pages of a range one after the other.\<close>

lemma unmap_pages_loop:
  assumes "forest_ok s R" and r: "r \<in> R" and "\<And>k. k < first + n \<Longrightarrow> user_address (va + k * 4096)"
    and "\<And>k. first \<le> k \<Longrightarrow> k < first + n \<Longrightarrow> leaf_of s r (va + k * 4096) \<noteq> 0"
  defines "s' \<equiv> fold (\<lambda>page s. fst (unmap_one r (va + page * IOS_PAGE_SIZE) True s)) [first..<first + n] s"
  shows "forest_ok s' R \<and> (\<forall>r' x. r' \<in> R \<longrightarrow> user_address x \<longrightarrow>
      leaf_of s' r' x = (if r' = r \<and> in_range va first n x then 0 else leaf_of s r' x))
    \<and> (\<forall>a. allocated s' a \<longrightarrow> allocated s a)
    \<and> (\<forall>k. first \<le> k \<longrightarrow> k < first + n \<longrightarrow> owned (leaf_of s r (va + k * 4096)) \<longrightarrow> \<not> allocated s' (table_from_entry (leaf_of s r (va + k * 4096))))"
  using assms(1,3,4) unfolding s'_def
proof (induction n arbitrary: s first)
  case 0
  then show ?case by (auto simp: in_range_def)
next
  case (Suc n)
  let ?a = "va + first * 4096"
  have u: "user_address ?a" by (rule Suc.prems(2)) simp
  have "leaf_of s r ?a \<noteq> 0" by (rule Suc.prems(3)) simp_all
  from unmap_one_user [OF Suc.prems(1) r u this, of True]
  obtain s1 where run: "unmap_one r ?a True s = (s1, Inr ())" and un: "unmapped R r ?a True s s1" by blast
  have f1: "forest_ok s1 R" using un by (simp add: unmapped_def)
  have A: "allocated s1 a \<Longrightarrow> allocated s a" for a using un by (simp add: unmapped_def)
  have L: "leaf_of s1 r' x = (if r' = r \<and> x div 4096 = va div 4096 + first then 0 else leaf_of s r' x)"
    if "r' \<in> R" "user_address x" for r' x
    using leaf_of_update [OF _ that(1) u that(2), of s1 r 0 s] un unfolding unmapped_def page_number by blast
  have L1: "leaf_of s1 r (va + k * 4096) = leaf_of s r (va + k * 4096)" if "first < k" "k < first + Suc n" for k
    using L [OF r Suc.prems(2)] that by simp
  let ?s = "fold (\<lambda>page s. fst (unmap_one r (va + page * IOS_PAGE_SIZE) True s)) [Suc first..<Suc first + n] s1"
  have IH: "forest_ok ?s R \<and> (\<forall>r' x. r' \<in> R \<longrightarrow> user_address x \<longrightarrow>
      leaf_of ?s r' x = (if r' = r \<and> in_range va (Suc first) n x then 0 else leaf_of s1 r' x))
    \<and> (\<forall>a. allocated ?s a \<longrightarrow> allocated s1 a)
    \<and> (\<forall>k. Suc first \<le> k \<longrightarrow> k < Suc first + n \<longrightarrow> owned (leaf_of s1 r (va + k * 4096)) \<longrightarrow> \<not> allocated ?s (table_from_entry (leaf_of s1 r (va + k * 4096))))"
  proof (rule Suc.IH [OF f1])
    show "user_address (va + k * 4096)" if "k < Suc first + n" for k by (rule Suc.prems(2)) (use that in simp)
    show "leaf_of s1 r (va + k * 4096) \<noteq> 0" if "Suc first \<le> k" "k < Suc first + n" for k
      using L1 [of k] Suc.prems(3) [of k] that by simp
  qed
  have eq: "fold (\<lambda>page s. fst (unmap_one r (va + page * IOS_PAGE_SIZE) True s)) [first..<first + Suc n] s = ?s"
    using upt_conv_Cons [of first "first + Suc n"] run by simp
  have "\<not> allocated ?s (table_from_entry (leaf_of s r (va + k * 4096)))"
    if k: "first \<le> k" "k < first + Suc n" "owned (leaf_of s r (va + k * 4096))" for k
  proof (cases "k = first")
    case True
    then show ?thesis using un IH k(3) unfolding unmapped_def by blast
  next
    case False
    then have k': "Suc first \<le> k" "k < Suc first + n" using k(1,2) by simp_all
    have "leaf_of s1 r (va + k * 4096) = leaf_of s r (va + k * 4096)" by (rule L1) (use k' in simp_all)
    then show ?thesis using IH k' k(3) by metis
  qed
  moreover have "leaf_of ?s r' x = (if r' = r \<and> in_range va first (Suc n) x then 0 else leaf_of s r' x)" if "r' \<in> R" "user_address x" for r' x
  proof -
    have "leaf_of ?s r' x = (if r' = r \<and> in_range va (Suc first) n x then 0 else leaf_of s1 r' x)" using IH that by blast
    then show ?thesis using L [OF that] by (auto simp: in_range_def)
  qed
  ultimately show ?case using IH A unfolding eq by blast
qed

lemma located_leaf:
  assumes "forest_ok s R" and "r \<in> R" and "user_address x"
  shows "(case locate_leaf s r x of Inl _ \<Rightarrow> True | Inr (pt, index) \<Rightarrow> entry_at s pt index AND PTE_PRESENT = 0) \<longleftrightarrow> leaf_of s r x = 0"
proof -
  have "leaf_of s r x AND PTE_PRESENT = 0 \<longleftrightarrow> leaf_of s r x = 0"
    using forest_okD(5) [OF assms(1) user_leaf_node [OF assms(2,3)]] by (auto simp: leaf_of_def leaf_ok_def)
  then show ?thesis by (auto simp: locate_leaf_def leaf_of_def leaf_def table_path_def split: option.splits)
qed

section \<open>Destroying an address space\<close>

text \<open>
  Tables and leaves below a name disappear, everything else stays; exactly the pages of the tables that
  disappear and the frames that their leaves own are given back.
\<close>

definition prunes :: "nat set \<Rightarrow> nat \<Rightarrow> nat list \<Rightarrow> virtual_memory \<Rightarrow> virtual_memory \<Rightarrow> bool" where
  "prunes R r p s s' \<longleftrightarrow> forest_ok s' R
     \<and> (\<forall>r' q. node R r' q \<longrightarrow> walk s' r' q = walk s r' q \<or> walk s' r' q = None \<and> r' = r \<and> strict_prefix p q)
     \<and> (\<forall>r' q j. leaf_node R r' q j \<longrightarrow> leaf s' r' q j = leaf s r' q j \<or> leaf s' r' q j = 0 \<and> r' = r \<and> prefix p q)
     \<and> (\<forall>a. allocated s' a \<longleftrightarrow> allocated s a
          \<and> \<not> (\<exists>q. node R r q \<and> walk s r q = Some a \<and> walk s' r q = None)
          \<and> \<not> (\<exists>q j. leaf_node R r q j \<and> owned (leaf s r q j) \<and> table_from_entry (leaf s r q j) = a \<and> leaf s' r q j = 0))"

lemma prunesD:
  assumes "prunes R r p s s'"
  shows "forest_ok s' R"
    and "node R r' q \<Longrightarrow> walk s' r' q = walk s r' q \<or> walk s' r' q = None \<and> r' = r \<and> strict_prefix p q"
    and "leaf_node R r' q j \<Longrightarrow> leaf s' r' q j = leaf s r' q j \<or> leaf s' r' q j = 0 \<and> r' = r \<and> prefix p q"
    and "allocated s' a \<longleftrightarrow> allocated s a
          \<and> \<not> (\<exists>q. node R r q \<and> walk s r q = Some a \<and> walk s' r q = None)
          \<and> \<not> (\<exists>q j. leaf_node R r q j \<and> owned (leaf s r q j) \<and> table_from_entry (leaf s r q j) = a \<and> leaf s' r q j = 0)"
proof -
  note c = assms [unfolded prunes_def]
  note c2 = conjunct2 [OF c]
  note c3 = conjunct2 [OF c2]
  show "forest_ok s' R" using conjunct1 [OF c] .
  show "node R r' q \<Longrightarrow> walk s' r' q = walk s r' q \<or> walk s' r' q = None \<and> r' = r \<and> strict_prefix p q" using conjunct1 [OF c2] by blast
  show "leaf_node R r' q j \<Longrightarrow> leaf s' r' q j = leaf s r' q j \<or> leaf s' r' q j = 0 \<and> r' = r \<and> prefix p q" using conjunct1 [OF c3] by blast
  show "allocated s' a \<longleftrightarrow> allocated s a
          \<and> \<not> (\<exists>q. node R r q \<and> walk s r q = Some a \<and> walk s' r q = None)
          \<and> \<not> (\<exists>q j. leaf_node R r q j \<and> owned (leaf s r q j) \<and> table_from_entry (leaf s r q j) = a \<and> leaf s' r q j = 0)"
    using conjunct2 [OF c3] by (rule spec)
qed

lemma prunes_refl: "forest_ok s R \<Longrightarrow> prunes R r p s s"
  by (auto simp: prunes_def)

lemma prunes_weaken:
  assumes "prunes R r (p @ [i]) s s'"
  shows "prunes R r p s s'"
  unfolding prunes_def
proof (intro conjI allI impI)
  show "forest_ok s' R" by (rule prunesD(1) [OF assms])
  show "walk s' r' q = walk s r' q \<or> walk s' r' q = None \<and> r' = r \<and> strict_prefix p q" if "node R r' q" for r' q
    using prunesD(2) [OF assms that] by (auto simp: strict_prefix_def prefix_def)
  show "leaf s' r' q j = leaf s r' q j \<or> leaf s' r' q j = 0 \<and> r' = r \<and> prefix p q" if "leaf_node R r' q j" for r' q j
    using prunesD(3) [OF assms that] by (auto simp: prefix_def)
qed (rule prunesD(4) [OF assms])

lemma prunes_trans:
  assumes a: "prunes R r p s s'" and b: "prunes R r p s' s''"
  shows "prunes R r p s s''"
  unfolding prunes_def
proof (intro conjI allI impI)
  show "forest_ok s'' R" by (rule prunesD(1) [OF b])
  show "walk s'' r' q = walk s r' q \<or> walk s'' r' q = None \<and> r' = r \<and> strict_prefix p q" if "node R r' q" for r' q
    using prunesD(2) [OF a that] prunesD(2) [OF b that] by auto
  show "leaf s'' r' q j = leaf s r' q j \<or> leaf s'' r' q j = 0 \<and> r' = r \<and> prefix p q" if "leaf_node R r' q j" for r' q j
    using prunesD(3) [OF a that] prunesD(3) [OF b that] by auto
  fix x
  have w: "walk s r q = Some x \<and> walk s'' r q = None \<longleftrightarrow>
      walk s r q = Some x \<and> walk s' r q = None \<or> walk s' r q = Some x \<and> walk s'' r q = None" if "node R r q" for q
    using prunesD(2) [OF a that] prunesD(2) [OF b that] by auto
  have l: "owned (leaf s r q j) \<and> table_from_entry (leaf s r q j) = x \<and> leaf s'' r q j = 0 \<longleftrightarrow>
      owned (leaf s r q j) \<and> table_from_entry (leaf s r q j) = x \<and> leaf s' r q j = 0
      \<or> owned (leaf s' r q j) \<and> table_from_entry (leaf s' r q j) = x \<and> leaf s'' r q j = 0" if "leaf_node R r q j" for q j
    using prunesD(3) [OF a that] prunesD(3) [OF b that] by auto
  show "allocated s'' x \<longleftrightarrow> allocated s x
          \<and> \<not> (\<exists>q. node R r q \<and> walk s r q = Some x \<and> walk s'' r q = None)
          \<and> \<not> (\<exists>q j. leaf_node R r q j \<and> owned (leaf s r q j) \<and> table_from_entry (leaf s r q j) = x \<and> leaf s'' r q j = 0)"
    unfolding prunesD(4) [OF b, of x] prunesD(4) [OF a, of x] using w l by blast
qed

lemma prune_child:
  assumes f: "forest_ok s R" and n: "node R r (p @ [i])" and t: "walk s r p = Some t" and b: "walk s r (p @ [i]) = Some b"
    and bare: "bare s R r (p @ [i])"
  shows "prunes R r p s (set_entry t i 0 (free_page b s))" and "walk (set_entry t i 0 (free_page b s)) r (p @ [i]) = None"
proof -
  have eq: "set_entry t i 0 (free_page b s) = free_page b (set_entry t i 0 s)" by (simp add: set_entry_def free_page_def)
  note un = unlink_table [OF f n t b bare]
  show "walk (set_entry t i 0 (free_page b s)) r (p @ [i]) = None" using un(2) [OF n] unfolding eq by simp
  show "prunes R r p s (set_entry t i 0 (free_page b s))" unfolding eq prunes_def
  proof (intro conjI allI impI)
    fix a
    have "(\<exists>q. node R r q \<and> walk s r q = Some a \<and> walk (free_page b (set_entry t i 0 s)) r q = None) \<longleftrightarrow> a = b"
      using un(2) [of r] n b by (auto split: if_splits)
    moreover have "\<not> (owned (leaf s r q j) \<and> leaf (free_page b (set_entry t i 0 s)) r q j = 0)" if "leaf_node R r q j" for q j
      using un(3) [OF that] by auto
    ultimately show "allocated (free_page b (set_entry t i 0 s)) a \<longleftrightarrow> allocated s a
          \<and> \<not> (\<exists>q. node R r q \<and> walk s r q = Some a \<and> walk (free_page b (set_entry t i 0 s)) r q = None)
          \<and> \<not> (\<exists>q j. leaf_node R r q j \<and> owned (leaf s r q j) \<and> table_from_entry (leaf s r q j) = a
               \<and> leaf (free_page b (set_entry t i 0 s)) r q j = 0)"
      unfolding un(4) by blast
    show "walk (free_page b (set_entry t i 0 s)) r' q = walk s r' q \<or> walk (free_page b (set_entry t i 0 s)) r' q = None \<and> r' = r \<and> strict_prefix p q"
      if "node R r' q" for r' q using un(2) [OF that] by (auto simp: strict_prefix_def)
  qed (use un(1,3) in auto)
qed

lemma prune_leaf:
  assumes f: "forest_ok s R" and l: "leaf_node R r p i" and t: "walk s r p = Some t" and e: "e = leaf s r p i"
  defines "s' \<equiv> set_entry t i 0 (if owned e then free_page (table_from_entry e) s else s)"
  shows "prunes R r p s s'" and "leaf s' r p i = 0"
proof -
  define s1 where "s1 = set_entry t i 0 s"
  note sl = set_leaf [OF f l t, of 0, simplified, folded s1_def]
  have tabs: "tables s1 R = tables s R" by (rule tables_cong [OF sl(2)])
  have eq: "s' = (if owned e then free_page (table_from_entry e) s1 else s1)" by (simp add: s'_def s1_def set_entry_def free_page_def)
  have A1: "allocated s1 a = allocated s a" for a by (simp add: s1_def)
  have fr: "forest_ok s' R" "allocated s' a \<longleftrightarrow> allocated s a \<and> \<not> (owned e \<and> a = table_from_entry e)" for a
  proof -
    have "forest_ok s' R \<and> (\<forall>a. allocated s' a \<longleftrightarrow> allocated s a \<and> \<not> (owned e \<and> a = table_from_entry e))"
    proof (cases "owned e")
      case True
      have "spare s1 R (table_from_entry e)" using forest_okD(6) [OF f l] True by (simp add: e spare_def tabs A1)
      moreover have "table_from_entry (leaf s1 r' q j) \<noteq> table_from_entry e" if "leaf_node R r' q j" "owned (leaf s1 r' q j)" for r' q j
      proof
        assume eqf: "table_from_entry (leaf s1 r' q j) = table_from_entry e"
        have ne: "\<not> (r' = r \<and> q = p \<and> j = i)" and lf: "leaf s1 r' q j = leaf s r' q j"
          using sl(3) [OF that(1)] that(2) by (auto split: if_splits)
        then show False using forest_okD(7) [OF f that(1) l] that(2) eqf True by (auto simp: e)
      qed
      ultimately show ?thesis using free_frame [OF sl(1), of "table_from_entry e"] True A1 unfolding eq by auto
    qed (use sl(1) A1 in \<open>auto simp: eq\<close>)
    then show "forest_ok s' R" "allocated s' a \<longleftrightarrow> allocated s a \<and> \<not> (owned e \<and> a = table_from_entry e)" by blast+
  qed
  note same = same_tables [of s' s1]
  have en: "entry_at s' u j = entry_at s1 u j" for u j by (simp add: eq)
  have L: "leaf s' r' q j = (if r' = r \<and> q = p \<and> j = i then 0 else leaf s r' q j)" if "leaf_node R r' q j" for r' q j
    using sl(3) [OF that] same(2) [OF en] by simp
  have W: "walk s' r' q = walk s r' q" if "node R r' q" for r' q using sl(2) [OF that] same(1) [OF en] by simp
  show "leaf s' r p i = 0" using L [OF l] by simp
  show "prunes R r p s s'" unfolding prunes_def
  proof (intro conjI allI impI)
    fix a
    have "(\<exists>q j. leaf_node R r q j \<and> owned (leaf s r q j) \<and> table_from_entry (leaf s r q j) = a \<and> leaf s' r q j = 0) \<longleftrightarrow>
        owned e \<and> a = table_from_entry e"
    proof
      assume "\<exists>q j. leaf_node R r q j \<and> owned (leaf s r q j) \<and> table_from_entry (leaf s r q j) = a \<and> leaf s' r q j = 0"
      then obtain q j where q: "leaf_node R r q j" "owned (leaf s r q j)" "table_from_entry (leaf s r q j) = a" "leaf s' r q j = 0" by blast
      then have "q = p \<and> j = i" using L [OF q(1)] by (auto split: if_splits)
      then show "owned e \<and> a = table_from_entry e" using q by (simp add: e)
    next
      assume "owned e \<and> a = table_from_entry e"
      then show "\<exists>q j. leaf_node R r q j \<and> owned (leaf s r q j) \<and> table_from_entry (leaf s r q j) = a \<and> leaf s' r q j = 0"
        using l L [OF l] by (intro exI [of _ p] exI [of _ i]) (simp add: e)
    qed
    moreover have "\<not> (walk s r q = Some a \<and> walk s' r q = None)" if "node R r q" for q using W [OF that] by auto
    ultimately show "allocated s' a \<longleftrightarrow> allocated s a
          \<and> \<not> (\<exists>q. node R r q \<and> walk s r q = Some a \<and> walk s' r q = None)
          \<and> \<not> (\<exists>q j. leaf_node R r q j \<and> owned (leaf s r q j) \<and> table_from_entry (leaf s r q j) = a \<and> leaf s' r q j = 0)"
      unfolding fr(2) by blast
    show "leaf s' r' q j = leaf s r' q j \<or> leaf s' r' q j = 0 \<and> r' = r \<and> prefix p q" if "leaf_node R r' q j" for r' q j
      using L [OF that] by auto
  qed (use fr(1) W in auto)
qed

text \<open>One step of the loop over the entries of a table: the entry and what hangs below it are gone.\<close>

definition destroy_step :: "nat \<Rightarrow> nat \<Rightarrow> nat \<Rightarrow> virtual_memory \<Rightarrow> virtual_memory" where
  "destroy_step l table index s =
     (let entry = entry_at s table index in
       if entry AND PTE_PRESENT = 0 then s
       else
         let s = (if l = 0 \<or> entry AND PTE_LARGE \<noteq> 0
                  then (if entry AND PTE_OWNED \<noteq> 0 then free_page (table_from_entry entry) s else s)
                  else free_page (table_from_entry entry) (destroy_table l (table_from_entry entry) s))
         in set_entry table index 0 s)"

lemma destroy_table_fold: "destroy_table (Suc l) table s = fold (destroy_step l table) [0..<512] s"
  unfolding destroy_table.simps destroy_step_def ..

definition destroys :: "nat set \<Rightarrow> nat \<Rightarrow> bool" where
  "destroys R l \<longleftrightarrow> (\<forall>s r p t. forest_ok s R \<longrightarrow> node R r p \<longrightarrow> length p + l = 4 \<longrightarrow> walk s r p = Some t \<longrightarrow>
     prunes R r p s (destroy_table l t s) \<and> bare (destroy_table l t s) R r p)"

definition cleared :: "nat set \<Rightarrow> nat \<Rightarrow> nat list \<Rightarrow> nat \<Rightarrow> virtual_memory \<Rightarrow> bool" where
  "cleared R r p i s \<longleftrightarrow> (node R r (p @ [i]) \<longrightarrow> walk s r (p @ [i]) = None) \<and> (leaf_node R r p i \<longrightarrow> leaf s r p i = 0)"

lemma cleared_prunes: "cleared R r p i s \<Longrightarrow> prunes R r p s s' \<Longrightarrow> cleared R r p i s'"
  using prunesD(2) [of R r p s s' r "p @ [i]"] prunesD(3) [of R r p s s' r p i] by (auto simp: cleared_def)

lemma cleared_bare:
  assumes "\<And>i. i < 512 \<Longrightarrow> cleared R r p i s"
  shows "bare s R r p"
  unfolding bare_def
proof (intro conjI allI impI)
  fix q assume q: "q \<noteq> []" "node R r (p @ q)"
  then obtain i q' where e: "q = i # q'" by (cases q) auto
  have i: "i < 512" using q(2) by (simp add: node_def e)
  have "node R r (p @ [i])" using node_prefix [of R r "p @ [i]" q'] q(2) by (simp add: e)
  then have "walk s r (p @ [i]) = None" using assms [OF i] by (simp add: cleared_def)
  then show "walk s r (p @ q) = None" using walk_append [of s r "p @ [i]" q'] by (simp add: e)
next
  fix j assume "leaf_node R r p j"
  then show "leaf s r p j = 0" using assms [of j] by (simp add: cleared_def leaf_node_def)
qed

lemma destroy_child:
  assumes D: "destroys R l" and f: "forest_ok s R" and n: "node R r (p @ [i])" and len: "length p + 1 + l = 4" and t: "walk s r p = Some t"
    and pr: "entry_at s t i AND PTE_PRESENT \<noteq> 0"
  defines "c \<equiv> table_from_entry (entry_at s t i)"
  defines "s' \<equiv> set_entry t i 0 (free_page c (destroy_table l c s))"
  shows "prunes R r p s s' \<and> cleared R r p i s'"
proof -
  have lg: "entry_at s t i AND PTE_LARGE = 0" by (rule forest_okD(4) [OF f n t pr])
  have w: "walk s r (p @ [i]) = Some c" using t pr lg by (simp add: walk_snoc next_table_def Let_def c_def)
  have "prunes R r (p @ [i]) s (destroy_table l c s) \<and> bare (destroy_table l c s) R r (p @ [i])"
    using D f n len w unfolding destroys_def by simp
  then have pd: "prunes R r (p @ [i]) s (destroy_table l c s)" and b: "bare (destroy_table l c s) R r (p @ [i])" by blast+
  have "walk (destroy_table l c s) r p = Some t" "walk (destroy_table l c s) r (p @ [i]) = Some c"
    using prunesD(2) [OF pd n] prunesD(2) [OF pd conjunct1 [OF node_snoc [OF n]]] t w by (auto simp: strict_prefix_def prefix_def)
  note ch = prune_child [OF prunesD(1) [OF pd] n this b]
  have "prunes R r p s s'" unfolding s'_def by (rule prunes_trans [OF prunes_weaken [OF pd] ch(1)])
  moreover have "\<not> leaf_node R r p i" using len n D by (auto simp: leaf_node_def node_def)
  ultimately show ?thesis using ch(2) by (simp add: cleared_def s'_def)
qed

lemma destroy_step_clears:
  assumes D: "l \<noteq> 0 \<Longrightarrow> destroys R l" and f: "forest_ok s R" and n: "node R r p" "p \<noteq> []" and len: "length p + Suc l = 4"
    and t: "walk s r p = Some t" and i: "i < 512"
  shows "prunes R r p s (destroy_step l t i s) \<and> cleared R r p i (destroy_step l t i s)"
proof -
  have ni: "node R r (p @ [i]) \<longleftrightarrow> l \<noteq> 0" using n i len by (auto simp: node_def)
  have li: "leaf_node R r p i \<longleftrightarrow> l = 0" using n i len by (auto simp: leaf_node_def)
  show ?thesis
  proof (cases "entry_at s t i AND PTE_PRESENT = 0")
    case True
    have "cleared R r p i s"
    proof (cases "l = 0")
      case True
      then have "leaf_ok (entry_at s t i)" using forest_okD(5) [OF f, of r p i] li leaf_walk [OF t] by simp
      then show ?thesis using \<open>entry_at s t i AND PTE_PRESENT = 0\<close> True ni leaf_walk [OF t] by (simp add: cleared_def leaf_ok_def)
    next
      case False
      then show ?thesis using True li t by (simp add: cleared_def walk_snoc next_table_def)
    qed
    then show ?thesis using True prunes_refl [OF f] by (simp add: destroy_step_def)
  next
    case pr: False
    show ?thesis
    proof (cases "l = 0")
      case True
      then have l: "leaf_node R r p i" using li by simp
      have ow: "owned (leaf s r p i) \<longleftrightarrow> entry_at s t i AND PTE_OWNED \<noteq> 0" using pr leaf_walk [OF t] by (simp add: owned_def)
      have eq: "destroy_step l t i s = set_entry t i 0 (if owned (leaf s r p i) then free_page (table_from_entry (leaf s r p i)) s else s)"
        using pr True unfolding destroy_step_def ow by (simp add: Let_def leaf_walk [OF t])
      show ?thesis using prune_leaf [OF f l t refl] ni True unfolding eq by (simp add: cleared_def)
    next
      case False
      then have n': "node R r (p @ [i])" using ni by simp
      have "entry_at s t i AND PTE_LARGE = 0" by (rule forest_okD(4) [OF f n' t pr])
      then have eq: "destroy_step l t i s = set_entry t i 0
          (free_page (table_from_entry (entry_at s t i)) (destroy_table l (table_from_entry (entry_at s t i)) s))"
        using pr False unfolding destroy_step_def by (simp add: Let_def)
      show ?thesis unfolding eq by (rule destroy_child [OF D [OF False] f n' _ t pr]) (use len in simp)
    qed
  qed
qed

text \<open>A loop of steps each of which prunes below one name and clears its own entry.\<close>

lemma prune_loop:
  assumes step: "\<And>s i. forest_ok s R \<Longrightarrow> walk s r p = Some t \<Longrightarrow> i \<in> set idx \<Longrightarrow> prunes R r p s (step i s) \<and> cleared R r p i (step i s)"
    and "forest_ok s R" and n: "node R r p" and "walk s r p = Some t"
  shows "prunes R r p s (fold step idx s) \<and> (\<forall>i \<in> set idx. cleared R r p i (fold step idx s))"
  using assms(1,2,4)
proof (induction idx arbitrary: s)
  case Nil
  then show ?case by (simp add: prunes_refl)
next
  case (Cons i idx)
  have st: "prunes R r p s (step i s)" "cleared R r p i (step i s)" using Cons.prems(1) [OF Cons.prems(2,3), of i] by auto
  have w: "walk (step i s) r p = Some t" using prunesD(2) [OF st(1) n] Cons.prems(3) by simp
  have IH: "prunes R r p (step i s) (fold step idx (step i s)) \<and> (\<forall>k \<in> set idx. cleared R r p k (fold step idx (step i s)))"
  proof (rule Cons.IH)
    show "forest_ok (step i s) R" "walk (step i s) r p = Some t" by (rule prunesD(1) [OF st(1)], rule w)
    show "prunes R r p u (step j u) \<and> cleared R r p j (step j u)" if "forest_ok u R" "walk u r p = Some t" "j \<in> set idx" for u j
      using Cons.prems(1) [OF that(1,2), of j] that(3) by simp
  qed
  then show ?case using prunes_trans [OF st(1)] cleared_prunes [OF st(2)] by auto
qed

lemma destroys_all: "l \<noteq> 0 \<Longrightarrow> l \<le> 3 \<Longrightarrow> destroys R l"
proof (induction l)
  case (Suc l)
  have D: "destroys R l" if "l \<noteq> 0" using Suc that by simp
  show ?case unfolding destroys_def
  proof (intro allI impI)
    fix s r p t assume f: "forest_ok s R" and n: "node R r p" and len: "length p + Suc l = 4" and t: "walk s r p = Some t"
    have p: "p \<noteq> []" using len Suc.prems(2) by auto
    have "prunes R r p s (destroy_table (Suc l) t s) \<and> (\<forall>i \<in> set [0..<512]. cleared R r p i (destroy_table (Suc l) t s))"
      unfolding destroy_table_fold
    proof (rule prune_loop [OF _ f n t])
      fix u i assume u: "forest_ok u R" "walk u r p = Some t" and i: "i \<in> set [0..<512]"
      have "i < 512" using i by (simp only: set_upt atLeastLessThan_iff)
      then show "prunes R r p u (destroy_step l t i u) \<and> cleared R r p i (destroy_step l t i u)"
        using destroy_step_clears [OF D u(1) n p len u(2)] by blast
    qed
    then show "prunes R r p s (destroy_table (Suc l) t s) \<and> bare (destroy_table (Suc l) t s) R r p"
      using cleared_bare [of R r p "destroy_table (Suc l) t s"] unfolding set_upt by simp
  qed
qed simp

lemma forest_remove:
  assumes f: "forest_ok s R" and r: "r \<in> R" and bare: "bare s R r []"
  shows "forest_ok (free_page r s) (R - {r})" and "allocated (free_page r s) a \<longleftrightarrow> a \<noteq> r \<and> allocated s a"
proof -
  note d = forest_okD [OF f]
  have nr: "node R r []" using r by (simp add: node_def)
  have sub: "node R r' q" "r' \<noteq> r" if "node (R - {r}) r' q" for r' q using that by (auto simp: node_def)
  have subl: "leaf_node R r' q j" "r' \<noteq> r" if "leaf_node (R - {r}) r' q j" for r' q j using that sub by (auto simp: leaf_node_def)
  have tr: "r \<in> tables s R" by (rule tablesI [OF nr]) simp
  note rel = release_page [OF d(1) d(2) [OF tr]]
  note same = same_tables [of "free_page r s" s, OF update_simps(3)]
  have A: "allocated (free_page r s) a \<longleftrightarrow> a \<noteq> r \<and> allocated s a" for a using rel(2) by simp
  then show "allocated (free_page r s) a \<longleftrightarrow> a \<noteq> r \<and> allocated s a" .
  have tab: "t \<in> tables s R \<and> t \<noteq> r" if t: "t \<in> tables s (R - {r})" for t
  proof -
    obtain r' q where q: "node (R - {r}) r' q" "walk s r' q = Some t" using t by (auto simp: tables_def)
    note q' = sub [OF q(1)]
    have "t \<noteq> r" using d(3) [OF q'(1) nr q(2)] q'(2) by auto
    then show ?thesis using tablesI [OF q'(1) q(2)] by simp
  qed
  show "forest_ok (free_page r s) (R - {r})" unfolding forest_ok_def same
  proof (intro conjI allI impI ballI)
    show "physical_ok (vm_physical (free_page r s))" using rel(1) by simp
    show "allocated (free_page r s) t" if "t \<in> tables s (R - {r})" for t using tab [OF that] d(2) A by simp
  next
    fix r1 p r' p' t assume "node (R - {r}) r1 p" "node (R - {r}) r' p'" "walk s r1 p = Some t" "walk s r' p' = Some t"
    then show "r1 = r'" "p = p'" using d(3) sub by blast+
  next
    fix r' p i t assume a: "node (R - {r}) r' (p @ [i])" "walk s r' p = Some t" "entry_at (free_page r s) t i AND PTE_PRESENT \<noteq> 0"
    show "entry_at (free_page r s) t i AND PTE_LARGE = 0" using d(4) [OF sub(1) [OF a(1)] a(2)] a(3) by simp
  next
    fix r' p i assume a: "leaf_node (R - {r}) r' p i"
    show "leaf_ok (leaf s r' p i)" by (rule d(5) [OF subl(1) [OF a]])
    assume o: "owned (leaf s r' p i)"
    have al: "allocated s (table_from_entry (leaf s r' p i)) \<and> table_from_entry (leaf s r' p i) \<notin> tables s R"
      by (rule d(6) [OF subl(1) [OF a] o])
    then show "allocated (free_page r s) (table_from_entry (leaf s r' p i))" using A tr by auto
    show "table_from_entry (leaf s r' p i) \<notin> tables s (R - {r})" using al tab by blast
  next
    fix r1 p i r' p' i'
    assume a: "leaf_node (R - {r}) r1 p i" "leaf_node (R - {r}) r' p' i'" "owned (leaf s r1 p i)" "owned (leaf s r' p' i')"
      "table_from_entry (leaf s r1 p i) = table_from_entry (leaf s r' p' i')"
    show "r1 = r'" "p = p'" "i = i'" using d(7) [OF subl(1) [OF a(1)] subl(1) [OF a(2)] a(3-5)] by blast+
  qed
qed

definition pages_of :: "virtual_memory \<Rightarrow> nat \<Rightarrow> nat set" where
  "pages_of s r = {a. (\<exists>q. node {r} r q \<and> walk s r q = Some a) \<or>
     (\<exists>q j. leaf_node {r} r q j \<and> owned (leaf s r q j) \<and> table_from_entry (leaf s r q j) = a)}"

lemma own_node: "r \<in> R \<Longrightarrow> node R r q \<longleftrightarrow> node {r} r q" "r \<in> R \<Longrightarrow> leaf_node R r q j \<longleftrightarrow> leaf_node {r} r q j"
  by (simp_all add: node_def leaf_node_def)

lemma destroy_space:
  assumes f: "forest_ok s R" and r: "r \<in> R" and run: "virtual_address_space_destroy r s = Some s'"
  shows "forest_ok s' (R - {r})" and "r' \<in> R - {r} \<Longrightarrow> user_address x \<Longrightarrow> leaf_of s' r' x = leaf_of s r' x"
    and "allocated s' a \<longleftrightarrow> allocated s a \<and> a \<notin> pages_of s r"
proof -
  let ?step = "\<lambda>index s. if entry_at s r index AND PTE_PRESENT \<noteq> 0
    then let child = table_from_entry (entry_at s r index)
         in set_entry r index 0 (free_page child (destroy_table 3 child s)) else s"
  define idx where "idx = [2..<256 :: nat]"
  have idx: "i \<in> set idx \<longleftrightarrow> 2 \<le> i \<and> i < 256" for i unfolding idx_def by (simp only: set_upt atLeastLessThan_iff)
  define s1 where "s1 = fold ?step idx s"
  have c: "\<not> (r = 0 \<or> r = vm_kernel_root_address s)"
  proof
    assume h: "r = 0 \<or> r = vm_kernel_root_address s"
    show False using run unfolding virtual_address_space_destroy_def if_P [OF h] by (simp only: option.distinct)
  qed
  have s': "s' = free_page r s1"
    using run unfolding virtual_address_space_destroy_def if_not_P [OF c] s1_def idx_def option.inject by (rule sym)
  have nr: "node R r []" using r by (simp add: node_def)
  have st: "prunes R r [] u (?step i u) \<and> cleared R r [] i (?step i u)" if u: "forest_ok u R" "i \<in> set idx" for u i
  proof -
    have n: "node R r ([] @ [i])" using r u(2) by (simp add: node_def idx)
    show ?thesis
    proof (cases "entry_at u r i AND PTE_PRESENT = 0")
      case True
      then have "cleared R r [] i u" by (simp add: cleared_def next_table_def leaf_node_def)
      then show ?thesis using True prunes_refl [OF u(1)] by simp
    next
      case False
      then show ?thesis using destroy_child [OF destroys_all [of 3 R] u(1) n _ _ False] by (simp add: Let_def)
    qed
  qed
  have pl: "prunes R r [] s s1 \<and> (\<forall>i \<in> set idx. cleared R r [] i s1)"
    unfolding s1_def by (rule prune_loop [OF _ f nr]) (use st in simp_all)
  then have pr: "prunes R r [] s s1" and cl: "\<And>i. 2 \<le> i \<Longrightarrow> i < 256 \<Longrightarrow> cleared R r [] i s1" using idx by blast+
  have bare: "bare s1 R r []"
  proof (rule cleared_bare)
    fix i :: nat
    show "cleared R r [] i s1" using cl [of i] by (cases "2 \<le> i \<and> i < 256") (auto simp: cleared_def node_def leaf_node_def)
  qed
  note rem = forest_remove [OF prunesD(1) [OF pr] r bare]
  show "forest_ok s' (R - {r})" using rem(1) by (simp add: s')
  note same = same_tables [of s' s1, unfolded s', OF update_simps(3)]
  show "leaf_of s' r' x = leaf_of s r' x" if "r' \<in> R - {r}" "user_address x"
    using prunesD(3) [OF pr user_leaf_node [of r' R x]] that same(2) by (auto simp: leaf_of_def s')
  have W: "walk s1 r q = None" if "node R r q" "q \<noteq> []" for q using bare that unfolding bare_def by simp
  have L: "leaf s1 r q j = 0" if l: "leaf_node R r q j" for q j
  proof (rule leaf_None [OF W])
    show "node R r q" "q \<noteq> []" using l by (auto simp: leaf_node_def)
  qed
  have "(\<exists>q. node R r q \<and> walk s r q = Some a) \<longleftrightarrow> a = r \<or> (\<exists>q. node R r q \<and> walk s r q = Some a \<and> walk s1 r q = None)" for a
  proof
    assume "\<exists>q. node R r q \<and> walk s r q = Some a"
    then obtain q where "node R r q" "walk s r q = Some a" by blast
    then show "a = r \<or> (\<exists>q. node R r q \<and> walk s r q = Some a \<and> walk s1 r q = None)" using W [of q] by (cases "q = []") auto
  next
    assume "a = r \<or> (\<exists>q. node R r q \<and> walk s r q = Some a \<and> walk s1 r q = None)"
    then show "\<exists>q. node R r q \<and> walk s r q = Some a" using nr walk.simps(1) [of s r] by blast
  qed
  then show "allocated s' a \<longleftrightarrow> allocated s a \<and> a \<notin> pages_of s r"
    unfolding s' rem(2) prunesD(4) [OF pr, of a] pages_of_def own_node [OF r, symmetric] using L by blast
qed

section \<open>Creating an address space\<close>

lemma copy_entries:
  assumes copy: "copy = (\<lambda>index s. set_entry root index (entry_at s (vm_kernel_root_address s) index) s)"
  shows "u \<noteq> root \<or> j \<notin> set idx \<Longrightarrow> entry_at (fold copy idx s) u j = entry_at s u j"
    and "vm_physical (fold copy idx s) = vm_physical s"
proof -
  show "entry_at (fold copy idx s) u j = entry_at s u j" if "u \<noteq> root \<or> j \<notin> set idx"
    using that by (induction idx arbitrary: s) (auto simp: copy)
  show "vm_physical (fold copy idx s) = vm_physical s"
    by (induction idx arbitrary: s) (simp_all add: copy)
qed

lemma create_fails:
  assumes f: "forest_ok s R" and run: "virtual_address_space_create s = (s', Inl e)"
  shows "forest_ok s' R" and "leaf_of s' r x = leaf_of s r x"
proof -
  note d = forest_okD [OF f]
  obtain m' pr where al: "physical_allocate_pages 1 1 (vm_physical s) = (m', pr)" by (cases "physical_allocate_pages 1 1 (vm_physical s)")
  have "s' = s \<or> s' = s\<lparr>vm_physical := m'\<rparr> \<and> pr = Inl e"
    using run unfolding virtual_address_space_create_def Let_def al by (auto simp del: upt_rec_numeral split: if_splits sum.splits)
  moreover have "forest_ok (s\<lparr>vm_physical := m'\<rparr>) R" if "pr = Inl e"
    by (rule same_forest [OF f]) (use allocate_page(1,2) [OF d(1) al] that in simp_all)
  ultimately show "forest_ok s' R" "leaf_of s' r x = leaf_of s r x"
    using f same_tables(2) [of "s\<lparr>vm_physical := m'\<rparr>" s, OF update_simps(5)] by (auto simp: leaf_of_def)
qed

lemma create_space:
  assumes f: "forest_ok s R" and run: "virtual_address_space_create s = (s', Inr root)"
  shows "root \<notin> R" and "forest_ok s' (insert root R)" and "r \<in> R \<Longrightarrow> user_address x \<Longrightarrow> leaf_of s' r x = leaf_of s r x"
    and "user_address x \<Longrightarrow> leaf_of s' root x = 0"
proof -
  note d = forest_okD [OF f]
  define copy where "copy = (\<lambda>index s. set_entry root index (entry_at s (vm_kernel_root_address s) index) s)"
  note cp = copy_entries [OF copy_def]
  obtain m' pr where al: "physical_allocate_pages 1 1 (vm_physical s) = (m', pr)" by (cases "physical_allocate_pages 1 1 (vm_physical s)")
  define u where "u = clear_table root (s\<lparr>vm_physical := m'\<rparr>)"
  have xd: "vm_execute_disable_enabled s"
    by (rule ccontr) (use run in \<open>simp add: virtual_address_space_create_def\<close>)
  define low high where "low = [0..<2 :: nat]" and "high = [256..<512 :: nat]"
  have pr: "pr = Inr root" and s': "s' = fold copy high (fold copy low u)"
    using run xd unfolding virtual_address_space_create_def al Let_def u_def copy_def low_def [symmetric] high_def [symmetric]
    by (auto split: sum.splits)
  note ap = allocate_page [OF d(1) al [unfolded pr]]
  have fresh: "\<not> allocated s root" using ap(3) by blast
  have A: "allocated s' a \<longleftrightarrow> a = root \<or> allocated s a" for a using ap(3) [OF refl, of a] by (simp add: s' cp(2) u_def)
  have other: "entry_at s' t j = entry_at s t j" if "t \<noteq> root" for t j using that by (simp add: s' cp(1) u_def)
  have zero: "entry_at s' root j = 0" if "2 \<le> j" "j < 256" for j
  proof -
    have "j \<notin> set high" "j \<notin> set low" using that unfolding low_def high_def by (simp_all only: set_upt atLeastLessThan_iff) simp_all
    then show ?thesis by (simp add: s' cp(1) u_def)
  qed
  have old: "t \<noteq> root" if "t \<in> tables s R" for t using d(2) [OF that] fresh by blast
  have W: "walk s' r p = walk s r p" if n: "node R r p" for r p
  proof (rule walk_cong)
    fix q i rest t assume "p = q @ i # rest" "walk s r q = Some t"
    then have "t \<noteq> root" using old tablesI [of R r q s t] n node_prefix [of R r q] by blast
    then show "next_table s' t i = next_table s t i" by (simp add: next_table_def other)
  qed
  have new: "walk s' root (i # q) = None" if "2 \<le> i" "i < 256" for i q using zero [OF that] by (simp add: next_table_def)
  show notin: "root \<notin> R"
  proof
    assume "root \<in> R"
    then show False using old [of root] tablesI [of R root "[]" s root] by (simp add: node_def)
  qed
  have cases: "node R r p \<and> r \<noteq> root \<and> walk s r p = Some t \<or> r = root \<and> p = [] \<and> t = root"
    if "node (insert root R) r p" "walk s' r p = Some t" for r p t
  proof (cases "r = root")
    case True
    then show ?thesis using that new by (cases p) (auto simp: node_def)
  next
    case False
    then have "node R r p" using that(1) by (simp add: node_def)
    then show ?thesis using W that(2) False by simp
  qed
  have L: "leaf s' r q j = leaf s r q j" if "leaf_node R r q j" for r q j
  proof (cases "walk s r q")
    case (Some t)
    have n: "node R r q" using that by (simp add: leaf_node_def)
    then show ?thesis using W Some other [OF old [OF tablesI [OF n Some]]] by (simp add: leaf_def)
  qed (use W that in \<open>simp add: leaf_def leaf_node_def\<close>)
  have lz: "leaf s' root q j = 0" if l: "leaf_node (insert root R) root q j" for q j
  proof -
    obtain i q' where "q = i # q'" "2 \<le> i" "i < 256" using l by (cases q) (auto simp: leaf_node_def node_def)
    then show ?thesis using new by (simp add: leaf_None)
  qed
  have leaves: "leaf_node R r q j \<and> leaf s' r q j = leaf s r q j \<or> leaf s' r q j = 0" if "leaf_node (insert root R) r q j" for r q j
  proof (cases "r = root")
    case False
    then have "leaf_node R r q j" using that by (simp add: leaf_node_def node_def)
    then show ?thesis using L by simp
  qed (use lz that in simp)
  have tab: "t = root \<or> t \<in> tables s R" if t: "t \<in> tables s' (insert root R)" for t
  proof -
    obtain r p where "node (insert root R) r p" "walk s' r p = Some t" using t by (auto simp: tables_def)
    then show ?thesis using cases tablesI by blast
  qed
  show "forest_ok s' (insert root R)" unfolding forest_ok_def
  proof (intro conjI allI impI ballI)
    show "physical_ok (vm_physical s')" using ap(1) by (simp add: s' cp(2) u_def)
    show "allocated s' t" if "t \<in> tables s' (insert root R)" for t using tab [OF that] d(2) A by blast
  next
    fix r p r' p' t assume a: "node (insert root R) r p" "node (insert root R) r' p'" "walk s' r p = Some t" "walk s' r' p' = Some t"
    have "t \<noteq> root" if "node R r p" "walk s r p = Some t" for r p using old [OF tablesI [OF that]] .
    then have "r = r' \<and> p = p'" using cases [OF a(1,3)] cases [OF a(2,4)] d(3) by blast
    then show "r = r'" "p = p'" by simp_all
  next
    fix r p i t assume a: "node (insert root R) r (p @ [i])" "walk s' r p = Some t" "entry_at s' t i AND PTE_PRESENT \<noteq> 0"
    show "entry_at s' t i AND PTE_LARGE = 0"
      using cases [OF node_prefix [OF a(1)] a(2)]
    proof (elim disjE conjE)
      assume b: "node R r p" "r \<noteq> root" "walk s r p = Some t"
      have "node R r (p @ [i])" using a(1) b(2) by (simp add: node_def)
      then show ?thesis using d(4) [OF _ b(3)] a(3) other [OF old [OF tablesI [OF b(1,3)]]] by simp
    next
      assume "r = root" "p = []" "t = root"
      then show ?thesis using a(1) zero [of i] by (simp add: node_def)
    qed
  next
    fix r p i assume a: "leaf_node (insert root R) r p i"
    show "leaf_ok (leaf s' r p i)" using leaves [OF a] d(5) [of r p i] by auto
    assume o: "owned (leaf s' r p i)"
    then have b: "leaf_node R r p i" "leaf s' r p i = leaf s r p i" using leaves [OF a] by auto
    have c: "allocated s (table_from_entry (leaf s r p i)) \<and> table_from_entry (leaf s r p i) \<notin> tables s R" using d(6) [OF b(1)] o b(2) by simp
    then show "allocated s' (table_from_entry (leaf s' r p i))" using A b(2) by simp
    show "table_from_entry (leaf s' r p i) \<notin> tables s' (insert root R)" using c tab fresh b(2) by auto
  next
    fix r p i r' p' i'
    assume a: "leaf_node (insert root R) r p i" "leaf_node (insert root R) r' p' i'" and o: "owned (leaf s' r p i)" "owned (leaf s' r' p' i')"
      "table_from_entry (leaf s' r p i) = table_from_entry (leaf s' r' p' i')"
    have b: "leaf_node R r p i" "leaf s' r p i = leaf s r p i" "leaf_node R r' p' i'" "leaf s' r' p' i' = leaf s r' p' i'"
      using leaves [OF a(1)] leaves [OF a(2)] o(1,2) by auto
    show "r = r'" "p = p'" "i = i'" using d(7) [OF b(1,3)] o unfolding b(2,4) by blast+
  qed
  show "leaf_of s' r x = leaf_of s r x" if "r \<in> R" "user_address x" using L [OF user_leaf_node [OF that]] by (simp add: leaf_of_def)
  show "leaf_of s' root x = 0" if "user_address x" using lz user_leaf_node [OF _ that, of root] by (simp add: leaf_of_def)
qed

section \<open>A system of address spaces\<close>

text \<open>
  The calls that the kernel makes for user mappings, with the set of live roots. A mapping that hands over its frames
  names allocated pages that nothing else uses; other parts of the kernel allocate pages and give
  back only pages of their own.
\<close>

definition handed_over :: "nat \<Rightarrow> nat \<Rightarrow> u32 \<Rightarrow> virtual_memory \<Rightarrow> nat set \<Rightarrow> bool" where
  "handed_over pa n flags s R \<longleftrightarrow> (flags AND IOS_VM_OWNED \<noteq> 0 \<longrightarrow> (\<forall>k < n. unowned s R (pa + k * 4096)))"

inductive vm_step :: "virtual_memory \<times> nat set \<Rightarrow> virtual_memory \<times> nat set \<Rightarrow> bool" where
  vm_create: "virtual_address_space_create s = (s', Inr root) \<Longrightarrow> vm_step (s, R) (s', insert root R)"
| vm_create_fails: "virtual_address_space_create s = (s', Inl e) \<Longrightarrow> vm_step (s, R) (s', R)"
| vm_destroy: "root \<in> R \<Longrightarrow> virtual_address_space_destroy root s = Some s' \<Longrightarrow> vm_step (s, R) (s', R - {root})"
| vm_activate: "virtual_address_space_activate root s = Some s' \<Longrightarrow> vm_step (s, R) (s', R)"
| vm_activate_kernel: "virtual_kernel_address_space_activate s = Some s' \<Longrightarrow> vm_step (s, R) (s', R)"
| vm_map: "root \<in> R \<Longrightarrow> flags AND IOS_VM_USER \<noteq> 0 \<Longrightarrow> handed_over pa n flags s R \<Longrightarrow>
    virtual_map_pages root va pa n flags s = (s', res) \<Longrightarrow> vm_step (s, R) (s', R)"
| vm_unmap: "root \<in> R \<Longrightarrow> virtual_user_range va (n * 4096) \<Longrightarrow> virtual_unmap_pages root va n s = (s', res) \<Longrightarrow> vm_step (s, R) (s', R)"
| vm_allocate: "physical_allocate_pages 1 1 (vm_physical s) = (m, res) \<Longrightarrow> vm_step (s, R) (s\<lparr>vm_physical := m\<rparr>, R)"
| vm_free: "unowned s R a \<Longrightarrow> vm_step (s, R) (free_page a s, R)"

lemma unmap_pages_forest:
  assumes f: "forest_ok s R" and r: "r \<in> R" and range: "virtual_user_range va (n * 4096)" and run: "virtual_unmap_pages r va n s = (s', res)"
  shows "forest_ok s' R"
proof -
  have u: "user_address (va + k * 4096)" if "k < n" for k
    using range that by (simp add: virtual_user_range_def user_address_def)
  let ?missing = "list_ex (\<lambda>page. case locate_leaf s r (va + page * IOS_PAGE_SIZE) of
                Inl _ \<Rightarrow> True | Inr (pt, index) \<Rightarrow> entry_at s pt index AND PTE_PRESENT = 0) [0..<n]"
  show ?thesis
  proof (cases "unmap_rejected r va n s \<or> ?missing")
    case True
    then show ?thesis using f run unfolding virtual_unmap_pages_def by (auto split: if_splits)
  next
    case False
    then have leaf: "leaf_of s r (va + k * 4096) \<noteq> 0" if "k < n" for k
      using located_leaf [OF f r u [OF that]] that by (auto simp: list_ex_iff)
    have "s' = fold (\<lambda>page s. fst (unmap_one r (va + page * IOS_PAGE_SIZE) True s)) [0..<0 + n] s"
      using run False unfolding virtual_unmap_pages_def by simp
    moreover have "forest_ok (fold (\<lambda>page s. fst (unmap_one r (va + page * IOS_PAGE_SIZE) True s)) [0..<0 + n] s) R"
      using unmap_pages_loop [OF f r, of 0 n va] u leaf by simp
    ultimately show ?thesis by simp
  qed
qed

lemma vm_step_forest:
  assumes "vm_step (s, R) (s', R')" and "forest_ok s R"
  shows "forest_ok s' R'"
  using assms
proof (cases rule: vm_step.cases)
  case (vm_create root)
  then show ?thesis using create_space(2) [OF assms(2)] by simp
next
  case (vm_create_fails e)
  then show ?thesis using create_fails(1) [OF assms(2)] by simp
next
  case (vm_destroy root)
  then show ?thesis using destroy_space(1) [OF assms(2)] by simp
next
  case (vm_activate root)
  then have "s' = s\<lparr>vm_paging_root := root\<rparr>" by (auto simp: virtual_address_space_activate_def split: if_splits)
  moreover have "forest_ok (s\<lparr>vm_paging_root := root\<rparr>) R"
    by (rule same_forest [OF assms(2)]) (use forest_okD(1) [OF assms(2)] in \<open>simp_all add: entry_at_def\<close>)
  ultimately show ?thesis using vm_activate by simp
next
  case vm_activate_kernel
  then have "s' = s\<lparr>vm_paging_root := vm_kernel_root_address s\<rparr>" by (auto simp: virtual_kernel_address_space_activate_def split: if_splits)
  moreover have "forest_ok (s\<lparr>vm_paging_root := vm_kernel_root_address s\<rparr>) R"
    by (rule same_forest [OF assms(2)]) (use forest_okD(1) [OF assms(2)] in \<open>simp_all add: entry_at_def\<close>)
  ultimately show ?thesis using vm_activate_kernel by simp
next
  case (vm_map root flags pa n va res)
  have "forest_ok s' R"
    using map_pages_user [OF assms(2) vm_map(2,3) _ vm_map(5)] vm_map(4) by (simp add: handed_over_def)
  then show ?thesis using vm_map(1) by simp
next
  case (vm_unmap root va n res)
  then show ?thesis using unmap_pages_forest [OF assms(2)] by blast
next
  case (vm_allocate m res)
  have "forest_ok (s\<lparr>vm_physical := m\<rparr>) R"
  proof (rule same_forest [OF assms(2) update_simps(5)])
    note al = allocate_page [OF forest_okD(1) [OF assms(2)] vm_allocate(3)]
    show "physical_ok (vm_physical (s\<lparr>vm_physical := m\<rparr>))" using al(1) by simp
    show "allocated (s\<lparr>vm_physical := m\<rparr>) a" if "allocated s a" for a
      using al(2,3) that by (cases res) auto
  qed
  then show ?thesis using vm_allocate by simp
next
  case (vm_free a)
  then show ?thesis using free_frame(1) [OF assms(2), of a] by (auto simp: unowned_def)
qed

lemma vm_run_forest:
  assumes "vm_step\<^sup>*\<^sup>* c c'" and "forest_ok (fst c) (snd c)"
  shows "forest_ok (fst c') (snd c')"
  using assms
proof (induction rule: rtranclp_induct)
  case (step c1 c2)
  then show ?case using vm_step_forest [of "fst c1" "snd c1" "fst c2" "snd c2"] by simp
qed simp

lemma no_spaces:
  assumes "physical_ok (vm_physical s)"
  shows "forest_ok s {}"
  using assms by (auto simp: forest_ok_def tables_def node_def leaf_node_def)

lemma pages_disjoint:
  assumes f: "forest_ok s R" and r: "r \<in> R" "r' \<in> R" "r \<noteq> r'"
  shows "pages_of s r \<inter> pages_of s r' = {}"
proof (rule ccontr)
  assume "pages_of s r \<inter> pages_of s r' \<noteq> {}"
  then obtain a where a: "a \<in> pages_of s r" "a \<in> pages_of s r'" by blast
  note d = forest_okD [OF f]
  have c: "(\<exists>q. node R x q \<and> walk s x q = Some a) \<or> (\<exists>q j. leaf_node R x q j \<and> owned (leaf s x q j) \<and> table_from_entry (leaf s x q j) = a)"
    if "x \<in> R" "a \<in> pages_of s x" for x using that(2) unfolding pages_of_def own_node [OF that(1)] by blast
  show False using c [OF r(1) a(1)] c [OF r(2) a(2)]
  proof (elim disjE exE conjE)
    fix q q' assume "node R r q" "walk s r q = Some a" "node R r' q'" "walk s r' q' = Some a"
    then show False using d(3) r(3) by blast
  next
    fix q q' j assume "node R r q" "walk s r q = Some a" "leaf_node R r' q' j" "owned (leaf s r' q' j)" "table_from_entry (leaf s r' q' j) = a"
    then show False using d(6) [of r' q' j] tablesI [of R r q s a] by blast
  next
    fix q q' j assume "leaf_node R r q j" "owned (leaf s r q j)" "table_from_entry (leaf s r q j) = a" "node R r' q'" "walk s r' q' = Some a"
    then show False using d(6) [of r q j] tablesI [of R r' q' s a] by blast
  next
    fix q q' j j' assume "leaf_node R r q j" "owned (leaf s r q j)" "table_from_entry (leaf s r q j) = a"
      "leaf_node R r' q' j'" "owned (leaf s r' q' j')" "table_from_entry (leaf s r' q' j') = a"
    then show False using d(7) [of r q j r' q' j'] r(3) by simp
  qed
qed

lemma query_wx:
  assumes "forest_ok s R" and "r \<in> R" and "user_address x" and "virtual_query s r x = Inr (a, flags)"
  shows "flags AND IOS_VM_USER \<noteq> 0 \<and> (flags AND IOS_VM_WRITE = 0 \<or> flags AND IOS_VM_EXECUTE = 0)"
proof -
  have l: "leaf_ok (leaf_of s r x)" unfolding leaf_of_def by (rule forest_okD(5) [OF assms(1) user_leaf_node [OF assms(2,3)]])
  have e: "leaf_of s r x \<noteq> 0" "flags = query_flags (leaf_of s r x)"
    using assms(4) unfolding query_leaf [OF assms(1-3)] by (auto split: if_splits)
  show ?thesis using l e(1) unfolding e(2) by (auto simp: leaf_ok_def query_flags_def)
qed

section \<open>Queries after a change\<close>

lemma query_of_leaf:
  assumes "forest_ok s R" and "forest_ok s' R'" and "r \<in> R" and "r \<in> R'" and "user_address x" and "leaf_of s' r x = leaf_of s r x"
  shows "virtual_query s' r x = virtual_query s r x"
  unfolding query_leaf [OF assms(1,3,5)] query_leaf [OF assms(2,4,5)] assms(6) ..

lemma query_new_leaf:
  assumes "forest_ok s R" and "r \<in> R" and "user_address x" and "leaf_of s r x = leaf_entry a flags" and "frame_ok a"
    and "flags AND NOT (IOS_VM_WRITE OR IOS_VM_EXECUTE OR IOS_VM_USER OR IOS_VM_GLOBAL OR IOS_VM_OWNED) = 0"
  shows "virtual_query s r x = Inr (a + x mod 4096, flags)"
proof -
  have "leaf_entry a flags \<noteq> 0" using leaf_entry_bits(2) [OF assms(5), of flags] by auto
  then show ?thesis
    unfolding query_leaf [OF assms(1-3)] assms(4) leaf_entry_bits(1) [OF assms(5)] query_leaf_entry [OF assms(5,6)] by simp
qed

lemma map_queries:
  assumes "forest_ok s R" and "root \<in> R" and "flags AND IOS_VM_USER \<noteq> 0" and "handed_over pa n flags s R"
    and "virtual_map_pages root va pa n flags s = (s', res)"
  shows "forest_ok s' R \<and> (\<forall>r x. r \<in> R \<longrightarrow> user_address x \<longrightarrow> virtual_query s' r x =
      (if res = Inr () \<and> r = root \<and> va \<le> x \<and> x < va + n * 4096 then Inr (pa + (x - va), flags) else virtual_query s r x))
    \<and> (\<forall>e. res = Inl e \<longrightarrow> e = IOS_E_INVALID_ARGUMENT \<and> map_rejected root va pa n flags s \<or> e = IOS_E_NO_MEMORY
         \<or> e = IOS_E_ALREADY_EXISTS \<and> (\<exists>k < n. \<exists>v. virtual_query s root (va + k * 4096) = Inr v))"
proof -
  have own: "unowned s R (pa + k * 4096)" if "k < n" "flags AND IOS_VM_OWNED \<noteq> 0" for k using assms(4) that by (simp add: handed_over_def)
  note out = map_pages_user [OF assms(1-3) own assms(5)]
  have f': "forest_ok s' R" using out by simp
  show ?thesis
  proof (cases res)
    case (Inl e)
    have "virtual_query s' r x = virtual_query s r x" if "r \<in> R" "user_address x" for r x
      by (rule query_of_leaf [OF assms(1) f' that(1,1,2)]) (use out Inl that in simp)
    moreover have "e = IOS_E_INVALID_ARGUMENT \<and> map_rejected root va pa n flags s \<or> e = IOS_E_NO_MEMORY
         \<or> e = IOS_E_ALREADY_EXISTS \<and> (\<exists>k < n. \<exists>v. virtual_query s root (va + k * 4096) = Inr v)"
    proof (cases "map_rejected root va pa n flags s")
      case True
      then show ?thesis using assms(5) Inl by (simp add: virtual_map_pages_def)
    next
      case False
      have "virtual_query s root (va + k * 4096) = Inr (table_from_entry (leaf_of s root (va + k * 4096)) + (va + k * 4096) mod 4096,
          query_flags (leaf_of s root (va + k * 4096)))" if "k < n" "leaf_of s root (va + k * 4096) \<noteq> 0" for k
        using query_leaf [OF assms(1,2) map_not_rejected(2) [OF False assms(3) that(1)]] that(2) by simp
      then show ?thesis using out Inl False by (simp only: sum.case) blast
    qed
    ultimately show ?thesis using Inl f' by simp
  next
    case (Inr u)
    then have nr: "\<not> map_rejected root va pa n flags s" using out by simp
    note m = map_not_rejected [OF nr assms(3)]
    have "virtual_query s' r x = (if r = root \<and> va \<le> x \<and> x < va + n * 4096 then Inr (pa + (x - va), flags) else virtual_query s r x)"
      if rx: "r \<in> R" "user_address x" for r x
    proof (cases "r = root \<and> in_range va 0 n x")
      case True
      then have vx: "va \<le> x" "x < va + n * 4096" using range_page(1) [OF m(1), of n x] by simp_all
      let ?k = "x div 4096 - va div 4096"
      have k: "?k < n" using True by (auto simp: in_range_def)
      have "leaf_of s' r x = leaf_entry (pa + ?k * 4096) flags" using out Inr rx True by simp
      from query_new_leaf [OF f' rx this m(3) [OF k] m(5)] show ?thesis
        using range_page(2) [OF m(1) vx(1)] True vx by (simp add: add.assoc)
    next
      case False
      have "virtual_query s' r x = virtual_query s r x"
        by (rule query_of_leaf [OF assms(1) f' rx(1,1,2)]) (use out Inr rx False in auto)
      then show ?thesis using False range_page(1) [OF m(1), of n x] by auto
    qed
    then show ?thesis using f' Inr by simp
  qed
qed

lemma query_owned: "query_flags e AND IOS_VM_OWNED \<noteq> 0 \<longleftrightarrow> e AND PTE_OWNED \<noteq> 0"
  by (simp add: query_flags_def)

lemma unmap_queries:
  assumes "forest_ok s R" and "root \<in> R" and "virtual_user_range va (n * 4096)" and "va mod 4096 = 0"
    and "virtual_unmap_pages root va n s = (s', res)"
  shows "(res = Inr () \<longleftrightarrow> (\<forall>k < n. \<exists>v. virtual_query s root (va + k * 4096) = Inr v)) \<and> (res \<noteq> Inr () \<longrightarrow> s' = s)
    \<and> forest_ok s' R \<and> (\<forall>r x. r \<in> R \<longrightarrow> user_address x \<longrightarrow> virtual_query s' r x =
      (if res = Inr () \<and> r = root \<and> va \<le> x \<and> x < va + n * 4096 then Inl IOS_E_NOT_FOUND else virtual_query s r x))
    \<and> (res = Inr () \<longrightarrow> (\<forall>k < n. \<forall>a flags. virtual_query s root (va + k * 4096) = Inr (a, flags) \<longrightarrow> flags AND IOS_VM_OWNED \<noteq> 0 \<longrightarrow> \<not> allocated s' a))
    \<and> (\<forall>a. allocated s' a \<longrightarrow> allocated s a)"
proof -
  have u: "user_address (va + k * 4096)" if "k < n" for k
    using assms(3) that by (simp add: virtual_user_range_def user_address_def)
  have nr: "\<not> unmap_rejected root va n s"
    using assms(3,4) root_positive [OF assms(1,2)] by (auto simp: unmap_rejected_def virtual_user_range_def)
  have mapped: "(\<exists>v. virtual_query s root (va + k * 4096) = Inr v) \<longleftrightarrow> leaf_of s root (va + k * 4096) \<noteq> 0" if "k < n" for k
    unfolding query_leaf [OF assms(1,2) u [OF that]] by simp
  define missing where "missing = list_ex (\<lambda>page. case locate_leaf s root (va + page * IOS_PAGE_SIZE) of
                Inl _ \<Rightarrow> True | Inr (pt, index) \<Rightarrow> entry_at s pt index AND PTE_PRESENT = 0) [0..<n]"
  have mi: "missing \<longleftrightarrow> (\<exists>k < n. leaf_of s root (va + k * 4096) = 0)"
    unfolding missing_def list_ex_iff using located_leaf [OF assms(1,2) u] by auto
  have all: "(\<forall>k < n. \<exists>v. virtual_query s root (va + k * 4096) = Inr v) \<longleftrightarrow> \<not> missing" unfolding mi using mapped by blast
  show ?thesis
  proof (cases missing)
    case True
    then have "s' = s" "res = Inl IOS_E_NOT_FOUND"
      using assms(5) unfolding virtual_unmap_pages_def if_not_P [OF nr] missing_def [symmetric] by simp_all
    then show ?thesis using True assms(1) unfolding all by simp
  next
    case False
    then have leaf: "leaf_of s root (va + k * 4096) \<noteq> 0" if "k < n" for k using mi that by blast
    have run: "s' = fold (\<lambda>page s. fst (unmap_one root (va + page * IOS_PAGE_SIZE) True s)) [0..<0 + n] s" "res = Inr ()"
      using assms(5) False unfolding virtual_unmap_pages_def if_not_P [OF nr] missing_def [symmetric] by simp_all
    have loop: "forest_ok s' R \<and> (\<forall>r' x. r' \<in> R \<longrightarrow> user_address x \<longrightarrow>
      leaf_of s' r' x = (if r' = root \<and> in_range va 0 n x then 0 else leaf_of s r' x))
    \<and> (\<forall>a. allocated s' a \<longrightarrow> allocated s a)
    \<and> (\<forall>k. 0 \<le> k \<longrightarrow> k < 0 + n \<longrightarrow> owned (leaf_of s root (va + k * 4096)) \<longrightarrow> \<not> allocated s' (table_from_entry (leaf_of s root (va + k * 4096))))"
      unfolding run(1) by (rule unmap_pages_loop [OF assms(1,2)]) (use u leaf in simp_all)
    then have f': "forest_ok s' R" by blast
    have q: "virtual_query s' r x = (if r = root \<and> va \<le> x \<and> x < va + n * 4096 then Inl IOS_E_NOT_FOUND else virtual_query s r x)"
      if rx: "r \<in> R" "user_address x" for r x
    proof (cases "r = root \<and> in_range va 0 n x")
      case True
      then have "leaf_of s' r x = 0" using loop rx by simp
      then show ?thesis using True range_page(1) [OF assms(4), of n x] unfolding query_leaf [OF f' rx] by simp
    next
      case False
      have "virtual_query s' r x = virtual_query s r x"
        by (rule query_of_leaf [OF assms(1) f' rx(1,1,2)]) (use loop rx False in auto)
      then show ?thesis using False range_page(1) [OF assms(4), of n x] by auto
    qed
    have freed: "\<not> allocated s' a" if k: "k < n" and v: "virtual_query s root (va + k * 4096) = Inr (a, flags)" "flags AND IOS_VM_OWNED \<noteq> 0" for k a flags
    proof -
      have e: "a = table_from_entry (leaf_of s root (va + k * 4096))" "flags = query_flags (leaf_of s root (va + k * 4096))"
        using v(1) leaf [OF k] assms(4) unfolding query_leaf [OF assms(1,2) u [OF k]] by simp_all
      have "leaf_ok (leaf_of s root (va + k * 4096))"
        unfolding leaf_of_def by (rule forest_okD(5) [OF assms(1) user_leaf_node [OF assms(2) u [OF k]]])
      then have "owned (leaf_of s root (va + k * 4096))"
        using v(2) leaf [OF k] unfolding e(2) query_owned by (simp add: leaf_ok_def owned_def)
      then show ?thesis using loop k unfolding e(1) by simp
    qed
    show ?thesis using False run(2) f' q freed loop unfolding all by simp
  qed
qed

lemma mapped_before:
  assumes "forest_ok s R" and "root \<in> R" and "flags AND IOS_VM_USER \<noteq> 0" and "handed_over pa n flags s R"
    and "virtual_map_pages root va pa n flags s = (s', Inr ())" and "user_address x" and "va \<le> x" and "x < va + n * 4096"
  shows "virtual_query s root x = Inl IOS_E_NOT_FOUND" and "\<not> map_rejected root va pa n flags s"
proof -
  have own: "unowned s R (pa + k * 4096)" if "k < n" "flags AND IOS_VM_OWNED \<noteq> 0" for k using assms(4) that by (simp add: handed_over_def)
  note out = map_pages_user [OF assms(1-3) own assms(5)]
  show nr: "\<not> map_rejected root va pa n flags s" using out by simp
  note m = map_not_rejected [OF nr assms(3)]
  let ?k = "x div 4096 - va div 4096"
  have "in_range va 0 n x" using range_page(1) [OF m(1), of n x] assms(7,8) by simp
  then have k: "?k < n" "x div 4096 = va div 4096 + ?k" by (auto simp: in_range_def)
  have "leaf_of s root x = leaf_of s root (va + ?k * 4096)"
    using same_leaf [OF m(2) [OF k(1)] assms(6)] k(2) by (simp add: leaf_of_def)
  then have "leaf_of s root x = 0" using out k(1) by simp
  then show "virtual_query s root x = Inl IOS_E_NOT_FOUND" unfolding query_leaf [OF assms(1,2,6)] by simp
qed

section \<open>Ranges as a service\<close>

text \<open>
  What a client of the mapping calls relies on: an installed range answers for its keys, which were free before,
  a removed one does not, and nothing else changes.
\<close>

locale range_mapping =
  fixes inv :: "'s \<Rightarrow> bool" and lookup :: "'s \<Rightarrow> 'k \<Rightarrow> 'v option" and install :: "'d \<Rightarrow> 's \<Rightarrow> 's option"
    and remove :: "'d \<Rightarrow> 's \<Rightarrow> 's option" and content :: "'d \<Rightarrow> 'k \<Rightarrow> 'v option"
  assumes install_exact: "inv s \<Longrightarrow> install d s = Some s' \<Longrightarrow>
      inv s' \<and> (\<forall>k. lookup s' k = (if content d k = None then lookup s k else content d k))"
    and install_free: "inv s \<Longrightarrow> install d s = Some s' \<Longrightarrow> content d k \<noteq> None \<Longrightarrow> lookup s k = None"
    and remove_exact: "inv s \<Longrightarrow> remove d s = Some s' \<Longrightarrow> inv s' \<and> (\<forall>k. lookup s' k = (if content d k = None then lookup s k else None))"
    and remove_total: "inv s \<Longrightarrow> install d t = Some t' \<Longrightarrow> (\<forall>k. content d k \<noteq> None \<longrightarrow> lookup s k \<noteq> None) \<Longrightarrow> remove d s \<noteq> None"
begin

lemma install_remove:
  assumes "inv s" and "install d s = Some s'"
  shows "\<exists>s''. remove d s' = Some s'' \<and> inv s'' \<and> (\<forall>k. lookup s'' k = lookup s k)"
proof -
  note i = install_exact [OF assms]
  have "remove d s' \<noteq> None" by (rule remove_total [OF _ assms(2)]) (use i in simp_all)
  then obtain s'' where r: "remove d s' = Some s''" by blast
  have "lookup s'' k = lookup s k" for k
    using remove_exact [OF _ r] i install_free [OF assms, of k] by simp
  then show ?thesis using r remove_exact [OF _ r] i by blast
qed

lemma install_twice:
  assumes "inv s" and "install d s = Some s'" and "content d k \<noteq> None"
  shows "install d s' = None"
proof (rule ccontr)
  assume "install d s' \<noteq> None"
  then obtain u where "install d s' = Some u" by blast
  then have "lookup s' k = None" using install_free install_exact [OF assms(1,2)] assms(3) by blast
  then show False using install_exact [OF assms(1,2)] assms(3) by simp
qed

end

type_synonym map_request = "nat \<times> nat \<times> nat \<times> nat \<times> u32"

fun user_lookup :: "nat set \<Rightarrow> virtual_memory \<Rightarrow> nat \<times> nat \<Rightarrow> (nat \<times> u32) option" where
  "user_lookup R s (r, x) = (if r \<in> R \<and> user_address x then (case virtual_query s r x of Inr v \<Rightarrow> Some v | Inl _ \<Rightarrow> None) else None)"

fun user_install :: "nat set \<Rightarrow> map_request \<Rightarrow> virtual_memory \<Rightarrow> virtual_memory option" where
  "user_install R (root, va, pa, n, flags) s =
     (if root \<in> R \<and> flags AND IOS_VM_USER \<noteq> 0 \<and> flags AND IOS_VM_OWNED = 0
      then case virtual_map_pages root va pa n flags s of (s', Inr _) \<Rightarrow> Some s' | (s', Inl _) \<Rightarrow> None else None)"

fun user_remove :: "nat set \<Rightarrow> map_request \<Rightarrow> virtual_memory \<Rightarrow> virtual_memory option" where
  "user_remove R (root, va, pa, n, flags) s =
     (if root \<in> R \<and> virtual_user_range va (n * 4096) \<and> va mod 4096 = 0
      then case virtual_unmap_pages root va n s of (s', Inr _) \<Rightarrow> Some s' | (s', Inl _) \<Rightarrow> None else None)"

fun user_content :: "nat set \<Rightarrow> map_request \<Rightarrow> nat \<times> nat \<Rightarrow> (nat \<times> u32) option" where
  "user_content R (root, va, pa, n, flags) (r, x) =
     (if r = root \<and> root \<in> R \<and> user_address x \<and> va \<le> x \<and> x < va + n * 4096 then Some (pa + (x - va), flags) else None)"

lemma user_install_Some:
  "user_install R (root, va, pa, n, flags) s = Some s' \<longleftrightarrow> root \<in> R \<and> flags AND IOS_VM_USER \<noteq> 0 \<and> flags AND IOS_VM_OWNED = 0
     \<and> virtual_map_pages root va pa n flags s = (s', Inr ())"
  by (auto split: prod.splits sum.splits)

lemma user_remove_Some:
  "user_remove R (root, va, pa, n, flags) s = Some s' \<longleftrightarrow> root \<in> R \<and> virtual_user_range va (n * 4096) \<and> va mod 4096 = 0
     \<and> virtual_unmap_pages root va n s = (s', Inr ())"
  by (auto split: prod.splits sum.splits)

lemma user_range_of_map:
  assumes "\<not> map_rejected root va pa n flags s" and "flags AND IOS_VM_USER \<noteq> 0"
  shows "virtual_user_range va (n * 4096) \<and> va mod 4096 = 0"
  using assms unfolding map_rejected_def Let_def by blast

interpretation user_map: range_mapping "\<lambda>s. forest_ok s R" "user_lookup R" "user_install R" "user_remove R" "user_content R" for R
proof (unfold_locales, goal_cases)
  case (1 s d s')
  obtain root va pa n flags where d: "d = (root, va, pa, n, flags)" by (cases d)
  have g: "root \<in> R" "flags AND IOS_VM_USER \<noteq> 0" "flags AND IOS_VM_OWNED = 0" "virtual_map_pages root va pa n flags s = (s', Inr ())"
    using 1(2) unfolding d user_install_Some by blast+
  have q: "forest_ok s' R \<and> (\<forall>r x. r \<in> R \<longrightarrow> user_address x \<longrightarrow> virtual_query s' r x =
      (if r = root \<and> va \<le> x \<and> x < va + n * 4096 then Inr (pa + (x - va), flags) else virtual_query s r x))"
    using map_queries [OF 1(1) g(1,2) _ g(4)] g(3) by (simp add: handed_over_def)
  have "user_lookup R s' (r, x) = (if user_content R d (r, x) = None then user_lookup R s (r, x) else user_content R d (r, x))" for r x
    using q g(1) unfolding d by auto
  then show ?case using q by auto
next
  case (2 s d s' k)
  obtain root va pa n flags where d: "d = (root, va, pa, n, flags)" by (cases d)
  obtain r x where k: "k = (r, x)" by (cases k)
  have g: "root \<in> R" "flags AND IOS_VM_USER \<noteq> 0" "flags AND IOS_VM_OWNED = 0" "virtual_map_pages root va pa n flags s = (s', Inr ())"
    using 2(2) unfolding d user_install_Some by blast+
  have x: "r = root" "user_address x" "va \<le> x" "x < va + n * 4096" using 2(3) unfolding d k by (simp_all split: if_splits)
  have "virtual_query s root x = Inl IOS_E_NOT_FOUND"
    by (rule mapped_before(1) [OF 2(1) g(1,2) _ g(4) x(2-4)]) (simp add: handed_over_def g(3))
  then show ?case by (simp add: k x(1))
next
  case (3 s d s')
  obtain root va pa n flags where d: "d = (root, va, pa, n, flags)" by (cases d)
  have g: "root \<in> R" "virtual_user_range va (n * 4096)" "va mod 4096 = 0" "virtual_unmap_pages root va n s = (s', Inr ())"
    using 3(2) unfolding d user_remove_Some by blast+
  have q: "forest_ok s' R \<and> (\<forall>r x. r \<in> R \<longrightarrow> user_address x \<longrightarrow> virtual_query s' r x =
      (if r = root \<and> va \<le> x \<and> x < va + n * 4096 then Inl IOS_E_NOT_FOUND else virtual_query s r x))"
    using unmap_queries [OF 3(1) g] by simp
  have "user_lookup R s' (r, x) = (if user_content R d (r, x) = None then user_lookup R s (r, x) else None)" for r x
    using q g(1) unfolding d by auto
  then show ?case using q by auto
next
  case (4 s d t t')
  obtain root va pa n flags where d: "d = (root, va, pa, n, flags)" by (cases d)
  have g: "root \<in> R" "flags AND IOS_VM_USER \<noteq> 0" "flags AND IOS_VM_OWNED = 0" "virtual_map_pages root va pa n flags t = (t', Inr ())"
    using 4(2) unfolding d user_install_Some by blast+
  have nr: "\<not> map_rejected root va pa n flags t" using g(4) by (auto simp: virtual_map_pages_def)
  note ur = user_range_of_map [OF nr g(2)]
  have "\<exists>v. virtual_query s root (va + k * 4096) = Inr v" if "k < n" for k
  proof -
    have "user_address (va + k * 4096)" by (rule map_not_rejected(2) [OF nr g(2) that])
    then have "user_content R d (root, va + k * 4096) \<noteq> None" using g(1) that by (simp add: d)
    then have "user_lookup R s (root, va + k * 4096) \<noteq> None" using 4(3) by blast
    then show ?thesis by (auto split: if_splits sum.splits)
  qed
  moreover obtain s' res where run: "virtual_unmap_pages root va n s = (s', res)" by (cases "virtual_unmap_pages root va n s")
  ultimately have "res = Inr ()" using unmap_queries [OF 4(1) g(1) conjunct1 [OF ur] conjunct2 [OF ur] run] by blast
  then show ?case using run g(1) ur by (simp add: d)
qed

section \<open>Properties\<close>

text \<open>C20: Mapping a range of user pages is all or nothing. On success every address of the range translates to
  the frame at the same distance with exactly the flags asked for, and no other user address of
  any address space changes its translation; on failure, for lack of memory for page tables or because a page
  is mapped already, no translation changes, although tables were created and taken back on
  the way. The page tables stay disjoint trees of allocated pages throughout.\<close>

theorem virtual_map_exact:
  assumes "forest_ok s R" and "root \<in> R" and "flags AND IOS_VM_USER \<noteq> 0" and "handed_over pa n flags s R"
    and "virtual_map_pages root va pa n flags s = (s', res)"
  shows "forest_ok s' R \<and> (\<forall>r x. r \<in> R \<longrightarrow> user_address x \<longrightarrow> virtual_query s' r x =
      (if res = Inr () \<and> r = root \<and> va \<le> x \<and> x < va + n * 4096 then Inr (pa + (x - va), flags) else virtual_query s r x))
    \<and> (\<forall>e. res = Inl e \<longrightarrow> e = IOS_E_INVALID_ARGUMENT \<and> map_rejected root va pa n flags s \<or> e = IOS_E_NO_MEMORY
         \<or> e = IOS_E_ALREADY_EXISTS \<and> (\<exists>k < n. \<exists>v. virtual_query s root (va + k * 4096) = Inr v))"
  using map_queries [OF assms] .

text \<open>C22: Unmapping a range of user pages succeeds exactly when all of them are mapped, and changes nothing otherwise.
  On success none of them is mapped any more, no other translation in any address space changes, the frames
  that the mappings own are free, and no page becomes allocated.\<close>

theorem virtual_unmap_exact:
  assumes "forest_ok s R" and "root \<in> R" and "virtual_user_range va (n * 4096)" and "va mod 4096 = 0"
    and "virtual_unmap_pages root va n s = (s', res)"
  shows "(res = Inr () \<longleftrightarrow> (\<forall>k < n. \<exists>v. virtual_query s root (va + k * 4096) = Inr v)) \<and> (res \<noteq> Inr () \<longrightarrow> s' = s)
    \<and> forest_ok s' R \<and> (\<forall>r x. r \<in> R \<longrightarrow> user_address x \<longrightarrow> virtual_query s' r x =
      (if res = Inr () \<and> r = root \<and> va \<le> x \<and> x < va + n * 4096 then Inl IOS_E_NOT_FOUND else virtual_query s r x))
    \<and> (res = Inr () \<longrightarrow> (\<forall>k < n. \<forall>a flags. virtual_query s root (va + k * 4096) = Inr (a, flags) \<longrightarrow> flags AND IOS_VM_OWNED \<noteq> 0 \<longrightarrow> \<not> allocated s' a))
    \<and> (\<forall>a. allocated s' a \<longrightarrow> allocated s a)"
  using unmap_queries [OF assms] .

text \<open>Mapping a range of user pages that the caller keeps and unmapping it again is the identity: the unmapping succeeds
  and every translation of every address space is what it was.\<close>

theorem virtual_map_unmap_roundtrip:
  assumes "forest_ok s R" and "root \<in> R" and "flags AND IOS_VM_USER \<noteq> 0" and "flags AND IOS_VM_OWNED = 0"
    and "virtual_map_pages root va pa n flags s = (s', Inr ())"
  shows "\<exists>s''. virtual_unmap_pages root va n s' = (s'', Inr ()) \<and> forest_ok s'' R
    \<and> (\<forall>r x. r \<in> R \<longrightarrow> user_address x \<longrightarrow> virtual_query s'' r x = virtual_query s r x)"
proof -
  have "user_install R (root, va, pa, n, flags) s = Some s'" using assms unfolding user_install_Some by simp
  from user_map.install_remove [OF assms(1) this] obtain s'' where
    r: "user_remove R (root, va, pa, n, flags) s' = Some s''" and f: "forest_ok s'' R" and l: "\<forall>k. user_lookup R s'' k = user_lookup R s k" by blast
  have "virtual_query s'' r x = virtual_query s r x" if rx: "r \<in> R" "user_address x" for r x
    using spec [OF l, of "(r, x)"] rx unfolding query_leaf [OF f rx] query_leaf [OF assms(1) rx]
    by (simp add: query_leaf [OF f rx] query_leaf [OF assms(1) rx] split: if_splits)
  then show ?thesis using r f unfolding user_remove_Some by blast
qed

text \<open>C23: Destroying an address space gives back exactly its own pages: its root, all page tables of its user half and
  the frames that its mappings own, each of them once, and no other page. The translations of the other
  address spaces stay, and so do the invariants of their page tables.\<close>

theorem virtual_destroy_exact:
  assumes "forest_ok s R" and "root \<in> R" and "virtual_address_space_destroy root s = Some s'"
  shows "forest_ok s' (R - {root}) \<and> (\<forall>a. allocated s' a \<longleftrightarrow> allocated s a \<and> a \<notin> pages_of s root)
    \<and> (\<forall>r x. r \<in> R - {root} \<longrightarrow> user_address x \<longrightarrow> virtual_query s' r x = virtual_query s r x)"
proof -
  note ds = destroy_space [OF assms]
  have "virtual_query s' r x = virtual_query s r x" if "r \<in> R - {root}" "user_address x" for r x
    by (rule query_of_leaf [OF assms(1) ds(1) _ that ds(2) [OF that]]) (use that in simp)
  then show ?thesis using ds(1,3) by blast
qed


section \<open>Witnesses\<close>

text \<open>Nine pages of memory, one address space, one page mapped for reading and writing.\<close>

definition bare_machine :: virtual_memory where
  "bare_machine = \<lparr>vm_tables = \<lambda>_ _. 0, vm_physical = demo_memory False 1, vm_execute_disable_enabled = True,
     vm_kernel_root_address = 0, vm_paging_root = 0, vm_invalidated = []\<rparr>"

definition memory_after :: "nat \<Rightarrow> physical_memory" where
  "memory_after k = \<lparr>pm_page_states = [[0x54, 0x58, 0x68, 0xa8, 0xa8] ! k, [0x55, 0x55, 0x55, 0x55, 0x56] ! k, 0x01],
     pm_managed_page_count = 9, pm_free_page_count = 8 - k, pm_allocated_page_count = k,
     pm_metadata_physical_base = 0, pm_metadata_page_count = 1, pm_search_hint = 1 + k, pm_allocator_initialized = True\<rparr>"

lemma next_page:
  "physical_allocate_pages 1 1 (memory_after 0) = (memory_after 1, Inr 0x1000)" "physical_allocate_pages 1 1 (memory_after 1) = (memory_after 2, Inr 0x2000)"
  "physical_allocate_pages 1 1 (memory_after 2) = (memory_after 3, Inr 0x3000)" "physical_allocate_pages 1 1 (memory_after 3) = (memory_after 4, Inr 0x4000)"
  unfolding memory_after_def by code_simp+

lemmas next_pages = next_page next_page [unfolded One_nat_def]

definition one_space :: virtual_memory where
  "one_space = bare_machine\<lparr>vm_physical := memory_after 1\<rparr>"

lemma copy_zeros:
  assumes "\<And>u j. entry_at s u j = 0"
  shows "fold (\<lambda>index s. set_entry root index (entry_at s (vm_kernel_root_address s) index) s) idx s = s"
proof -
  have "set_entry root index (entry_at s (vm_kernel_root_address s) index) s = s" for index
    using assms by (simp add: set_entry_def entry_at_def fun_upd_idem)
  then show ?thesis by (induction idx) simp_all
qed

lemma one_space_created: "virtual_address_space_create bare_machine = (one_space, Inr 0x1000)"
proof -
  define low high where "low = [0..<2 :: nat]" and "high = [256..<512 :: nat]"
  have "clear_table 0x1000 (bare_machine\<lparr>vm_physical := memory_after 1\<rparr>) = one_space"
    by (simp add: clear_table_def one_space_def bare_machine_def fun_upd_idem)
  moreover have "vm_physical bare_machine = memory_after 0" "vm_execute_disable_enabled bare_machine"
    by (simp_all add: bare_machine_def memory_after_def demo_memory_def)
  moreover have "entry_at one_space u j = 0" for u j by (simp add: one_space_def bare_machine_def entry_at_def)
  ultimately show ?thesis
    unfolding virtual_address_space_create_def low_def [symmetric] high_def [symmetric] by (simp add: next_pages Let_def copy_zeros)
qed

lemma bare_machine_ok: "physical_ok (vm_physical bare_machine)"
  using demo_memory_ok [of 1 False] by (simp add: bare_machine_def)

lemma one_space_ok: "forest_ok one_space {0x1000}"
  using create_space(2) [OF no_spaces [OF bare_machine_ok] one_space_created] by simp

abbreviation one_page :: virtual_memory where
  "one_page \<equiv> fst (virtual_map_pages 0x1000 VM_USER_START 0x5000 1 5 one_space)"

lemma one_page_mapped: "virtual_map_pages 0x1000 VM_USER_START 0x5000 1 5 one_space = (one_page, Inr ())"
proof -
  have ix: "pml4_index VM_USER_START = 2" "pdpt_index VM_USER_START = 0" "pd_index VM_USER_START = 0" "pt_index VM_USER_START = 0"
    by (simp_all add: pml4_index_def pdpt_index_def pd_index_def pt_index_def)
  have z: "entry_at one_space u j = 0" "vm_physical one_space = memory_after 1" "vm_execute_disable_enabled one_space" for u j
    by (simp_all add: one_space_def bare_machine_def entry_at_def)
  have "snd (virtual_map_pages 0x1000 VM_USER_START 0x5000 1 5 one_space) = Inr ()"
    by (simp add: virtual_map_pages_def map_rejected_def virtual_user_range_def virtual_range_is_canonical_def z map_one_def ix
        ensure_next_table_def next_pages Let_def)
  then show ?thesis by (simp add: prod_eq_iff)
qed

theorem virtual_map_exact_witness: "virtual_query one_page 0x1000 (VM_USER_START + 8) = Inr (0x5008, 5)"
  using virtual_map_exact [OF one_space_ok _ _ _ one_page_mapped] by (simp add: handed_over_def user_address_def)

lemma one_page_ok:
  shows "forest_ok one_page {0x1000}" and "leaf_of one_page 0x1000 VM_USER_START = leaf_entry 0x5000 5"
  using map_pages_user [OF one_space_ok _ _ _ one_page_mapped] by (simp_all add: in_range_def user_address_def)

theorem virtual_unmap_exact_witness:
  "snd (virtual_unmap_pages 0x1000 VM_USER_START 1 one_page) = Inr ()
    \<and> virtual_query (fst (virtual_unmap_pages 0x1000 VM_USER_START 1 one_page)) 0x1000 VM_USER_START = Inl IOS_E_NOT_FOUND"
proof -
  have "leaf_entry 0x5000 5 \<noteq> 0" using leaf_entry_bits(2) [of "0x5000" 5] by (auto simp: frame_ok_def)
  then have "\<exists>v. virtual_query one_page 0x1000 VM_USER_START = Inr v"
    using query_leaf [OF one_page_ok(1), of "0x1000" "VM_USER_START"] one_page_ok(2) by (simp add: user_address_def)
  then show ?thesis
    using virtual_unmap_exact [OF one_page_ok(1), of "0x1000" "VM_USER_START" 1] by (simp add: virtual_user_range_def user_address_def prod_eq_iff)
qed

theorem virtual_map_unmap_roundtrip_witness:
  "\<exists>s. virtual_unmap_pages 0x1000 VM_USER_START 1 one_page = (s, Inr ()) \<and> forest_ok s {0x1000}"
  using virtual_map_unmap_roundtrip [OF one_space_ok _ _ _ one_page_mapped] by auto

theorem virtual_destroy_exact_witness:
  "\<exists>s. virtual_address_space_destroy 0x1000 one_space = Some s \<and> forest_ok s {} \<and> \<not> allocated s 0x1000"
proof -
  have "\<exists>s. virtual_address_space_destroy 0x1000 one_space = Some s"
    unfolding virtual_address_space_destroy_def by (simp add: one_space_def bare_machine_def del: upt_rec_numeral)
  then obtain s where s: "virtual_address_space_destroy 0x1000 one_space = Some s" by blast
  have "node {0x1000} 0x1000 []" by (simp add: node_def)
  then have "0x1000 \<in> pages_of one_space 0x1000" by (auto simp: pages_of_def intro: exI [of _ "[]"])
  then show ?thesis using virtual_destroy_exact [OF one_space_ok _ s] s by auto
qed


end
