(* ===== verification/Kernel_Usercopy.thy ===== *)
theory Kernel_Usercopy
  imports Kernel_Spaces
begin

text \<open>
  Copying between the kernel and user memory (kernel/syscall/usercopy.c). Physical memory outside the
  page tables is a function from addresses to bytes. A copy walks the pages of the user range, asks
  the page tables for each (\<open>virtual_query\<close>) and copies a piece through the identity mapping. The theorems give the
  exact condition for success, the bytes that are copied, and the bytes that can change at all.
\<close>

section \<open>Physical bytes\<close>

type_synonym memory = "nat \<Rightarrow> u8"

definition store_bytes :: "memory \<Rightarrow> nat \<Rightarrow> bytes \<Rightarrow> memory" where
  "store_bytes mem a bs = (\<lambda>x. if a \<le> x \<and> x < a + length bs then bs ! (x - a) else mem x)"

definition load_bytes :: "memory \<Rightarrow> nat \<Rightarrow> nat \<Rightarrow> bytes" where
  "load_bytes mem a n = map (\<lambda>i. mem (a + i)) [0..<n]"

section \<open>Copying\<close>

definition copy_chunk :: "nat \<Rightarrow> nat \<Rightarrow> nat \<Rightarrow> nat" where
  "copy_chunk user_base byte_count copied =
     (let page_remaining = IOS_PAGE_SIZE - (user_base + copied) mod IOS_PAGE_SIZE
      in if byte_count - copied < page_remaining then byte_count - copied else page_remaining)"

lemma copy_chunk_bounds:
  assumes "copied < byte_count"
  shows "0 < copy_chunk user_base byte_count copied" and "copied + copy_chunk user_base byte_count copied \<le> byte_count"
    and "j < copy_chunk user_base byte_count copied \<Longrightarrow> (user_base + copied) mod 4096 + j < 4096"
proof -
  have "(user_base + copied) mod 4096 < 4096" by simp
  moreover define c where "c = (user_base + copied) mod 4096"
  ultimately have "c < 4096" by simp
  then show "0 < copy_chunk user_base byte_count copied" and "copied + copy_chunk user_base byte_count copied \<le> byte_count"
    and "j < copy_chunk user_base byte_count copied \<Longrightarrow> (user_base + copied) mod 4096 + j < 4096"
    using assms unfolding copy_chunk_def Let_def c_def [symmetric] by (auto split: if_splits)
qed

text \<open>The loop of \<open>copy_user_pages\<close>: physical memory and the kernel's buffer are passed along.\<close>

function copy_loop ::
  "virtual_memory \<Rightarrow> nat \<Rightarrow> nat \<Rightarrow> nat \<Rightarrow> bool \<Rightarrow> bool \<Rightarrow> nat \<Rightarrow> memory \<Rightarrow> bytes \<Rightarrow> memory \<times> bytes \<times> unit res" where
  "copy_loop s root user_base byte_count copy_to_user clear_user copied mem kernel_bytes =
     (if copied < byte_count then
        let chunk = copy_chunk user_base byte_count copied in
        case virtual_query s root (user_base + copied) of
          Inl _ \<Rightarrow> (mem, kernel_bytes, Inl IOS_E_BAD_ADDRESS)
        | Inr (physical_address, flags) \<Rightarrow>
            if flags AND IOS_VM_USER = 0 \<or> (copy_to_user \<and> flags AND IOS_VM_WRITE = 0)
            then (mem, kernel_bytes, Inl IOS_E_BAD_ADDRESS)
            else if clear_user
            then copy_loop s root user_base byte_count copy_to_user clear_user (copied + chunk)
                   (store_bytes mem physical_address (replicate chunk 0)) kernel_bytes
            else if copy_to_user
            then copy_loop s root user_base byte_count copy_to_user clear_user (copied + chunk)
                   (store_bytes mem physical_address (take chunk (drop copied kernel_bytes))) kernel_bytes
            else copy_loop s root user_base byte_count copy_to_user clear_user (copied + chunk)
                   mem (overwrite kernel_bytes copied (load_bytes mem physical_address chunk))
      else (mem, kernel_bytes, Inr ()))"
  by pat_completeness auto
termination
  by (relation "measure (\<lambda>(_, _, _, byte_count, _, _, copied, _, _). byte_count - copied)")
    (auto simp: copy_chunk_bounds(1) diff_less_mono2)

declare copy_loop.simps [simp del]

definition copy_user_pages ::
  "virtual_memory \<Rightarrow> nat \<Rightarrow> nat \<Rightarrow> bytes \<Rightarrow> nat \<Rightarrow> bool \<Rightarrow> bool \<Rightarrow> memory \<Rightarrow> memory \<times> bytes \<times> unit res" where
  "copy_user_pages s root user_base kernel_buffer byte_count copy_to_user clear_user mem =
     (if byte_count = 0 then (mem, kernel_buffer, Inr ())
      else if \<not> virtual_user_range user_base byte_count then (mem, kernel_buffer, Inl IOS_E_BAD_ADDRESS)
      else copy_loop s root user_base byte_count copy_to_user clear_user 0 mem kernel_buffer)"

definition user_copy_from ::
  "virtual_memory \<Rightarrow> nat \<Rightarrow> bytes \<Rightarrow> nat \<Rightarrow> nat \<Rightarrow> memory \<Rightarrow> memory \<times> bytes \<times> unit res" where
  "user_copy_from s root kernel_destination user_source byte_count mem =
     copy_user_pages s root user_source kernel_destination byte_count False False mem"

definition user_copy_to ::
  "virtual_memory \<Rightarrow> nat \<Rightarrow> nat \<Rightarrow> bytes \<Rightarrow> nat \<Rightarrow> memory \<Rightarrow> memory \<times> bytes \<times> unit res" where
  "user_copy_to s root user_destination kernel_source byte_count mem =
     copy_user_pages s root user_destination kernel_source byte_count True False mem"

definition user_clear :: "virtual_memory \<Rightarrow> nat \<Rightarrow> nat \<Rightarrow> nat \<Rightarrow> memory \<Rightarrow> memory \<times> bytes \<times> unit res" where
  "user_clear s root user_destination byte_count mem =
     copy_user_pages s root user_destination [0] byte_count True True mem"

section \<open>What the user sees\<close>

definition accessible :: "virtual_memory \<Rightarrow> nat \<Rightarrow> bool \<Rightarrow> nat \<Rightarrow> bool" where
  "accessible s root writing x = (case virtual_query s root x of
     Inl _ \<Rightarrow> False | Inr (a, flags) \<Rightarrow> flags AND IOS_VM_USER \<noteq> 0 \<and> (writing \<longrightarrow> flags AND IOS_VM_WRITE \<noteq> 0))"

definition physical_of :: "virtual_memory \<Rightarrow> nat \<Rightarrow> nat \<Rightarrow> nat" where
  "physical_of s root x = (case virtual_query s root x of Inl _ \<Rightarrow> 0 | Inr (a, flags) \<Rightarrow> a)"

lemma within_page:
  fixes x j m :: nat
  assumes "x mod m + j < m"
  shows "(x + j) div m = x div m \<and> (x + j) mod m = x mod m + j"
proof -
  have e: "x + j = x div m * m + (x mod m + j)" using div_mult_mod_eq [of x m] by simp
  have "(q * m + t) div m = q \<and> (q * m + t) mod m = t" if "t < m" for q t using that by simp
  from this [OF assms, of "x div m"] show ?thesis unfolding e [symmetric] .
qed

lemma query_same_page:
  assumes f: "forest_ok s R" and r: "root \<in> R" and u: "user_address x" "user_address (x + j)" and j: "x mod 4096 + j < 4096"
    and q: "virtual_query s root x = Inr (a, flags)"
  shows "virtual_query s root (x + j) = Inr (a + j, flags)"
proof -
  have d: "(x + j) div 4096 = x div 4096" "(x + j) mod 4096 = x mod 4096 + j"
    using within_page [OF j] by simp_all
  have "leaf_of s root (x + j) = leaf_of s root x" using same_leaf [OF u] d(1) by (simp add: leaf_of_def)
  then show ?thesis using q unfolding query_leaf [OF f r u(1)] query_leaf [OF f r u(2)] d(2) by (auto split: if_splits)
qed

lemma chunk_query:
  assumes f: "forest_ok s R" and r: "root \<in> R" and range: "virtual_user_range ub n" and c: "copied < n"
    and q: "virtual_query s root (ub + copied) = Inr (a, flags)" and j: "j < copy_chunk ub n copied"
  shows "virtual_query s root (ub + (copied + j)) = Inr (a + j, flags)"
proof -
  have u: "user_address (ub + i)" if "i < n" for i using range that by (simp add: virtual_user_range_def user_address_def)
  have "copied + j < n" using copy_chunk_bounds(2) [OF c, of ub] j by simp
  then show ?thesis
    using query_same_page [OF f r u [OF c] _ copy_chunk_bounds(3) [OF c j] q] u [of "copied + j"] by (simp add: add.assoc)
qed

definition source_byte :: "bool \<Rightarrow> bytes \<Rightarrow> nat \<Rightarrow> u8" where
  "source_byte clear buf i = (if clear then 0 else buf ! i)"

text \<open>What the loop does from a given point on. Bytes of physical memory change only where the user may write, and then to
  a byte of the source; where two addresses of the range share a frame the last one wins.\<close>

definition copy_outcome ::
  "virtual_memory \<Rightarrow> nat \<Rightarrow> nat \<Rightarrow> nat \<Rightarrow> bool \<Rightarrow> bool \<Rightarrow> nat \<Rightarrow> memory \<Rightarrow> bytes \<Rightarrow> memory \<Rightarrow> bytes \<Rightarrow> unit res \<Rightarrow> bool" where
  "copy_outcome s root ub n writing clear copied mem buf mem' buf' res \<longleftrightarrow>
     res = (if \<forall>i. copied \<le> i \<longrightarrow> i < n \<longrightarrow> accessible s root writing (ub + i) then Inr () else Inl IOS_E_BAD_ADDRESS)
     \<and> (\<forall>a. mem' a = mem a \<or> writing \<and> (\<exists>k. copied \<le> k \<and> k < n \<and> accessible s root True (ub + k)
          \<and> a = physical_of s root (ub + k) \<and> mem' a = source_byte clear buf k))
     \<and> (writing \<longrightarrow> buf' = buf \<and> (res = Inr () \<longrightarrow> (\<forall>i. copied \<le> i \<longrightarrow> i < n \<longrightarrow> (\<exists>k. copied \<le> k \<and> k < n
          \<and> physical_of s root (ub + k) = physical_of s root (ub + i) \<and> mem' (physical_of s root (ub + i)) = source_byte clear buf k))))
     \<and> (\<not> writing \<longrightarrow> length buf' = length buf \<and> (\<forall>i < copied. buf' ! i = buf ! i)
          \<and> (res = Inr () \<longrightarrow> (\<forall>i. copied \<le> i \<longrightarrow> i < n \<longrightarrow> buf' ! i = mem (physical_of s root (ub + i)))))"

lemma copy_step:
  assumes c: "copied < n" and n': "0 < chunk" "copied + chunk \<le> n"
    and q: "\<And>j. j < chunk \<Longrightarrow> virtual_query s root (ub + (copied + j)) = Inr (pa + j, flags)"
    and fl: "flags AND IOS_VM_USER \<noteq> 0" "writing \<longrightarrow> flags AND IOS_VM_WRITE \<noteq> 0"
    and st: "if writing then buf1 = buf \<and> (\<exists>src. length src = chunk \<and> mem1 = store_bytes mem pa src \<and> (\<forall>j < chunk. src ! j = source_byte clear buf (copied + j)))
      else mem1 = mem \<and> buf1 = overwrite buf copied (load_bytes mem pa chunk) \<and> n \<le> length buf"
    and rest: "copy_outcome s root ub n writing clear (copied + chunk) mem1 buf1 mem' buf' res"
  shows "copy_outcome s root ub n writing clear copied mem buf mem' buf' res"
proof -
  have acc: "accessible s root writing (ub + (copied + j))" "physical_of s root (ub + (copied + j)) = pa + j" if "j < chunk" for j
    using q [OF that] fl by (simp_all add: accessible_def physical_of_def)
  have acc': "accessible s root writing (ub + i)" "physical_of s root (ub + i) = pa + (i - copied)" if "copied \<le> i" "i < copied + chunk" for i
    using acc [of "i - copied"] that by simp_all
  have all: "(\<forall>i. copied \<le> i \<longrightarrow> i < n \<longrightarrow> accessible s root writing (ub + i)) \<longleftrightarrow>
      (\<forall>i. copied + chunk \<le> i \<longrightarrow> i < n \<longrightarrow> accessible s root writing (ub + i))"
    using acc'(1) by (metis le_trans le_add1 not_le)
  note o = rest [unfolded copy_outcome_def]
  show ?thesis
  proof (cases writing)
    case True
    then obtain src where src: "length src = chunk" "mem1 = store_bytes mem pa src" "\<forall>j < chunk. src ! j = source_byte clear buf (copied + j)"
      and b1: "buf1 = buf" using st by auto
    have m1: "mem1 a = (if pa \<le> a \<and> a < pa + chunk then source_byte clear buf (copied + (a - pa)) else mem a)" for a
      using src by (auto simp: store_bytes_def)
    have conf: "mem' a = mem a \<or> (\<exists>k. copied \<le> k \<and> k < n \<and> accessible s root True (ub + k)
          \<and> a = physical_of s root (ub + k) \<and> mem' a = source_byte clear buf k)" for a
    proof -
      consider "mem' a = mem1 a" | k where "copied + chunk \<le> k" "k < n" "accessible s root True (ub + k)"
          "a = physical_of s root (ub + k)" "mem' a = source_byte clear buf k"
        using o b1 by blast
      then show ?thesis
      proof cases
        case 1
        show ?thesis
        proof (cases "pa \<le> a \<and> a < pa + chunk")
          case in_chunk: True
          then have k: "copied \<le> copied + (a - pa)" "copied + (a - pa) < copied + chunk" by auto
          have "a = physical_of s root (ub + (copied + (a - pa)))" using acc'(2) [OF k] in_chunk by simp
          moreover have "accessible s root True (ub + (copied + (a - pa)))" using acc'(1) [OF k] True by simp
          moreover have "mem' a = source_byte clear buf (copied + (a - pa))" using 1 m1 [of a] in_chunk by simp
          ultimately show ?thesis using k n' by (intro disjI2 exI [of _ "copied + (a - pa)"]) simp
        qed (use 1 m1 [of a] in auto)
      next
        case 2
        then show ?thesis by (intro disjI2 exI [of _ k]) simp
      qed
    qed
    have wr: "\<exists>k. copied \<le> k \<and> k < n \<and> physical_of s root (ub + k) = physical_of s root (ub + i)
        \<and> mem' (physical_of s root (ub + i)) = source_byte clear buf k" if r: "res = Inr ()" and i: "copied \<le> i" "i < n" for i
    proof (cases "i < copied + chunk")
      case in_chunk: True
      let ?a = "physical_of s root (ub + i)"
      have a: "?a = pa + (i - copied)" by (rule acc'(2) [OF i(1) in_chunk])
      obtain j where j: "i = copied + j" "j < chunk" using i(1) in_chunk by (metis le_add_diff_inverse nat_add_left_cancel_less)
      have "mem1 ?a = source_byte clear buf i" using m1 [of "pa + j"] j unfolding a by simp
      moreover consider "mem' ?a = mem1 ?a" | k where "copied + chunk \<le> k" "k < n" "?a = physical_of s root (ub + k)" "mem' ?a = source_byte clear buf k"
        using o b1 by blast
      ultimately show ?thesis using i by (metis le_add1 le_trans)
    next
      case False
      then have i': "copied + chunk \<le> i" by simp
      have "\<exists>k. copied + chunk \<le> k \<and> k < n \<and> physical_of s root (ub + k) = physical_of s root (ub + i)
        \<and> mem' (physical_of s root (ub + i)) = source_byte clear buf k" using o True r b1 i' i(2) by simp
      then show ?thesis by (metis le_add1 le_trans)
    qed
    show ?thesis unfolding copy_outcome_def all using o True b1 conf wr by simp
  next
    case False
    then have m1: "mem1 = mem" and b1: "buf1 = overwrite buf copied (load_bytes mem pa chunk)" and len: "n \<le> length buf" using st by simp_all
    have fits: "copied + length (load_bytes mem pa chunk) \<le> length buf" using n'(2) len by (simp add: load_bytes_def)
    have bn: "buf1 ! i = (if copied \<le> i \<and> i < copied + chunk then mem (pa + (i - copied)) else buf ! i)" if "i < n" for i
      using nth_overwrite [OF fits, of i] that len by (auto simp: b1 load_bytes_def)
    have "buf' ! i = mem (physical_of s root (ub + i))" if r: "res = Inr ()" and i: "copied \<le> i" "i < n" for i
    proof (cases "i < copied + chunk")
      case True
      then have "buf' ! i = buf1 ! i" using o False by simp
      then show ?thesis using bn [OF i(2)] i(1) True acc'(2) [OF i(1) True] by simp
    next
      case out: False
      then show ?thesis using o False r i(2) m1 by simp
    qed
    moreover have "buf' ! i = buf ! i" if "i < copied" for i using o False bn [of i] that c by simp
    moreover have "length buf' = length buf" using o False length_overwrite [OF fits] b1 by simp
    ultimately show ?thesis unfolding copy_outcome_def all using o False m1 by simp
  qed
qed

lemma copy_loop_outcome:
  assumes "forest_ok s R" and "root \<in> R" and "virtual_user_range ub n" and "clear \<longrightarrow> writing" and "\<not> clear \<longrightarrow> n \<le> length buf"
    and "copied \<le> n" and "copy_loop s root ub n writing clear copied mem buf = (mem', buf', res)"
  shows "copy_outcome s root ub n writing clear copied mem buf mem' buf' res"
  using assms
proof (induction s root ub n writing clear copied mem buf rule: copy_loop.induct)
  case (1 s root ub n writing clear copied mem buf)
  note prems = "1.prems"
  show ?case
  proof (cases "copied < n")
    case False
    then have "mem' = mem" "buf' = buf" "res = Inr ()" using prems(7) by (simp_all add: copy_loop.simps)
    then show ?thesis using False prems(6) by (simp add: copy_outcome_def)
  next
    case c: True
    define chunk where "chunk = copy_chunk ub n copied"
    note cb = copy_chunk_bounds [OF c, of ub, folded chunk_def]
    note run = prems(7) [unfolded copy_loop.simps [of s root ub n writing clear copied mem buf] if_P [OF c] Let_def, folded chunk_def]
    have bad: "copy_outcome s root ub n writing clear copied mem buf mem buf (Inl IOS_E_BAD_ADDRESS)"
      if "\<not> accessible s root writing (ub + copied)"
      using that c by (auto simp: copy_outcome_def)
    show ?thesis
    proof (cases "virtual_query s root (ub + copied)")
      case (Inl e)
      then have "\<not> accessible s root writing (ub + copied)" by (simp add: accessible_def)
      then show ?thesis using bad run Inl by simp
    next
      case (Inr v)
      obtain pa flags where v: "v = (pa, flags)" by (cases v)
      note q = Inr [unfolded v]
      show ?thesis
      proof (cases "flags AND IOS_VM_USER = 0 \<or> (writing \<and> flags AND IOS_VM_WRITE = 0)")
        case True
        then have "\<not> accessible s root writing (ub + copied)" using q by (auto simp: accessible_def)
        then show ?thesis using bad run q True by simp
      next
        case ok: False
        note cq = chunk_query [OF prems(1-3) c q, folded chunk_def]
        note IH = "1.IH" [OF c chunk_def q refl ok]
        have fl: "flags AND IOS_VM_USER \<noteq> 0" "writing \<longrightarrow> flags AND IOS_VM_WRITE \<noteq> 0" using ok by auto
        consider (cl) "clear" | (put) "\<not> clear" "writing" | (get) "\<not> clear" "\<not> writing" by blast
        then show ?thesis
        proof cases
          case cl
          let ?m = "store_bytes mem pa (replicate chunk 0)"
          have "copy_loop s root ub n writing clear (copied + chunk) ?m buf = (mem', buf', res)" using run q ok cl by simp
          then have rest: "copy_outcome s root ub n writing clear (copied + chunk) ?m buf mem' buf' res"
            using IH(1) [OF cl prems(1-5)] cb(2) by blast
          show ?thesis
            by (rule copy_step [OF c cb(1,2) cq fl _ rest])
              (use cl prems(4) in \<open>auto simp: source_byte_def intro!: exI [of _ "replicate chunk 0"]\<close>)
        next
          case put
          let ?b = "take chunk (drop copied buf)"
          have "copy_loop s root ub n writing clear (copied + chunk) (store_bytes mem pa ?b) buf = (mem', buf', res)" using run q ok put by simp
          then have rest: "copy_outcome s root ub n writing clear (copied + chunk) (store_bytes mem pa ?b) buf mem' buf' res"
            using IH(2) [OF put prems(1-5)] cb(2) by blast
          have "length ?b = chunk" using put(1) prems(5) cb(2) by simp
          then show ?thesis
            by (intro copy_step [OF c cb(1,2) cq fl _ rest])
              (use put prems(5) cb(2) in \<open>auto simp: source_byte_def intro!: exI [of _ ?b]\<close>)
        next
          case get
          let ?b = "overwrite buf copied (load_bytes mem pa chunk)"
          have "copy_loop s root ub n writing clear (copied + chunk) mem ?b = (mem', buf', res)" using run q ok get by simp
          moreover have "length ?b = length buf" using get(1) prems(5) cb(2) by (simp add: load_bytes_def)
          ultimately have rest: "copy_outcome s root ub n writing clear (copied + chunk) mem ?b mem' buf' res"
            using IH(3) [OF get prems(1-4)] prems(5) cb(2) by simp
          show ?thesis
            by (rule copy_step [OF c cb(1,2) cq fl _ rest]) (use get prems(5) in simp_all)
        qed
      qed
    qed
  qed
qed

lemma copy_pages_outcome:
  assumes "forest_ok s R" and "root \<in> R" and "clear \<longrightarrow> writing" and "\<not> clear \<longrightarrow> n \<le> length buf"
    and "copy_user_pages s root ub buf n writing clear mem = (mem', buf', res)"
  shows "if n = 0 \<or> virtual_user_range ub n then copy_outcome s root ub n writing clear 0 mem buf mem' buf' res
    else mem' = mem \<and> buf' = buf \<and> res = Inl IOS_E_BAD_ADDRESS"
proof (cases "n = 0")
  case True
  then show ?thesis using assms(5) by (auto simp: copy_user_pages_def copy_outcome_def)
next
  case n: False
  show ?thesis
  proof (cases "virtual_user_range ub n")
    case True
    then have "copy_loop s root ub n writing clear 0 mem buf = (mem', buf', res)" using assms(5) n by (simp add: copy_user_pages_def)
    from copy_loop_outcome [OF assms(1,2) True assms(3,4) _ this] True show ?thesis by simp
  qed (use assms(5) n in \<open>auto simp: copy_user_pages_def\<close>)
qed

text \<open>The bytes the user sees in a range, and when a call accepts the range.\<close>

definition user_bytes :: "virtual_memory \<Rightarrow> nat \<Rightarrow> memory \<Rightarrow> nat \<Rightarrow> nat \<Rightarrow> bytes" where
  "user_bytes s root mem ub n = map (\<lambda>i. mem (physical_of s root (ub + i))) [0..<n]"

definition accepts :: "virtual_memory \<Rightarrow> nat \<Rightarrow> bool \<Rightarrow> nat \<Rightarrow> nat \<Rightarrow> bool" where
  "accepts s root writing ub n \<longleftrightarrow> n = 0 \<or> virtual_user_range ub n \<and> (\<forall>i < n. accessible s root writing (ub + i))"

text \<open>No two addresses of the range share a byte of physical memory.\<close>

definition unaliased :: "virtual_memory \<Rightarrow> nat \<Rightarrow> nat \<Rightarrow> nat \<Rightarrow> bool" where
  "unaliased s root ub n \<longleftrightarrow> (\<forall>i j. i < n \<longrightarrow> j < n \<longrightarrow> physical_of s root (ub + i) = physical_of s root (ub + j) \<longrightarrow> i = j)"

lemma outcome_result:
  assumes "copy_outcome s root ub n writing clear 0 mem buf mem' buf' res" and "n = 0 \<or> virtual_user_range ub n"
  shows "res = (if accepts s root writing ub n then Inr () else Inl IOS_E_BAD_ADDRESS)"
  using assms by (auto simp: copy_outcome_def accepts_def)

lemma copy_in_bytes:
  assumes f: "forest_ok s R" and r: "root \<in> R" and len: "length buf = n" and run: "user_copy_from s root buf ub n mem = (mem', buf', res)"
  shows "mem' = mem" and "res = (if accepts s root False ub n then Inr () else Inl IOS_E_BAD_ADDRESS)"
    and "res = Inr () \<Longrightarrow> buf' = user_bytes s root mem ub n"
proof -
  note out = copy_pages_outcome [OF f r, of False False n buf ub mem mem' buf' res] run [unfolded user_copy_from_def] len
  have all: "mem' = mem \<and> res = (if accepts s root False ub n then Inr () else Inl IOS_E_BAD_ADDRESS)
    \<and> (res = Inr () \<longrightarrow> buf' = user_bytes s root mem ub n)"
  proof (cases "n = 0 \<or> virtual_user_range ub n")
    case True
    then have o: "copy_outcome s root ub n False False 0 mem buf mem' buf' res" using out by simp
    have "mem' = mem" using o by (auto simp: copy_outcome_def)
    moreover have "buf' = user_bytes s root mem ub n" if "res = Inr ()"
      using o that len by (intro nth_equalityI) (auto simp: copy_outcome_def user_bytes_def)
    ultimately show ?thesis using outcome_result [OF o True] by blast
  next
    case False
    then show ?thesis using out by (simp add: accepts_def)
  qed
  then show "mem' = mem" "res = (if accepts s root False ub n then Inr () else Inl IOS_E_BAD_ADDRESS)"
    "res = Inr () \<Longrightarrow> buf' = user_bytes s root mem ub n" by blast+
qed

lemma copy_out_bytes:
  assumes f: "forest_ok s R" and r: "root \<in> R" and cl: "\<not> clear \<longrightarrow> length buf = n"
    and run: "copy_user_pages s root ub buf n True clear mem = (mem', buf', res)"
  shows "res = (if accepts s root True ub n then Inr () else Inl IOS_E_BAD_ADDRESS)"
    and "mem' a \<noteq> mem a \<Longrightarrow> \<exists>i < n. accessible s root True (ub + i) \<and> a = physical_of s root (ub + i) \<and> user_address (ub + i)"
    and "res = Inr () \<Longrightarrow> clear \<or> unaliased s root ub n \<Longrightarrow> i < n \<Longrightarrow> mem' (physical_of s root (ub + i)) = source_byte clear buf i"
proof -
  note out = copy_pages_outcome [OF f r, of clear True n buf ub mem mem' buf' res] run cl
  have u: "user_address (ub + i)" if "virtual_user_range ub n" "i < n" for i
    using that by (simp add: virtual_user_range_def user_address_def)
  have all: "res = (if accepts s root True ub n then Inr () else Inl IOS_E_BAD_ADDRESS)
    \<and> (\<forall>a. mem' a = mem a \<or> (\<exists>i < n. accessible s root True (ub + i) \<and> a = physical_of s root (ub + i) \<and> user_address (ub + i)))
    \<and> (res = Inr () \<longrightarrow> clear \<or> unaliased s root ub n \<longrightarrow> (\<forall>i < n. mem' (physical_of s root (ub + i)) = source_byte clear buf i))"
  proof (cases "n = 0 \<or> virtual_user_range ub n")
    case True
    then have o: "copy_outcome s root ub n True clear 0 mem buf mem' buf' res" using out by simp
    have "mem' a = mem a \<or> (\<exists>i < n. accessible s root True (ub + i) \<and> a = physical_of s root (ub + i) \<and> user_address (ub + i))" for a
      using o u True unfolding copy_outcome_def by (metis less_nat_zero_code)
    moreover have "mem' (physical_of s root (ub + i)) = source_byte clear buf i"
      if ok: "res = Inr ()" "clear \<or> unaliased s root ub n" "i < n" for i
    proof -
      obtain k where k: "k < n" "physical_of s root (ub + k) = physical_of s root (ub + i)"
          "mem' (physical_of s root (ub + i)) = source_byte clear buf k"
        using o ok(1,3) unfolding copy_outcome_def by blast
      then show ?thesis using ok(2,3) by (auto simp: unaliased_def source_byte_def)
    qed
    ultimately show ?thesis using outcome_result [OF o True] by blast
  next
    case False
    then show ?thesis using out by (simp add: accepts_def)
  qed
  show "res = (if accepts s root True ub n then Inr () else Inl IOS_E_BAD_ADDRESS)" using all by blast
  show "mem' a \<noteq> mem a \<Longrightarrow> \<exists>i < n. accessible s root True (ub + i) \<and> a = physical_of s root (ub + i) \<and> user_address (ub + i)" using all by blast
  show "res = Inr () \<Longrightarrow> clear \<or> unaliased s root ub n \<Longrightarrow> i < n \<Longrightarrow> mem' (physical_of s root (ub + i)) = source_byte clear buf i" using all by blast
qed

section \<open>Properties\<close>

text \<open>C26: Copying from the user succeeds exactly when every byte of the range lies in a user mapping of the process, and then
  the kernel has exactly the bytes the user sees, also across page boundaries; otherwise the call
  reports a bad address. Memory does not change.\<close>

theorem user_copy_from_exact:
  assumes "forest_ok s R" and "root \<in> R" and "length buf = n" and "user_copy_from s root buf ub n mem = (mem', buf', res)"
  shows "mem' = mem \<and> res = (if accepts s root False ub n then Inr () else Inl IOS_E_BAD_ADDRESS)
    \<and> (res = Inr () \<longrightarrow> buf' = user_bytes s root mem ub n)"
  using copy_in_bytes [OF assms] by blast

text \<open>C27: Copying to the user, whether it succeeds or stops half way, changes bytes only where the process itself may
  write: in a writable user mapping of the address space named, never in a read-only page. Where that mapping
  owns its frame, the byte lies in no page table of any address space and in no page that belongs
  to another one.\<close>

theorem user_copy_to_confined:
  assumes "forest_ok s R" and "root \<in> R" and "length buf = n" and "user_copy_to s root ub buf n mem = (mem', buf', res)" and "mem' a \<noteq> mem a"
  shows "\<exists>x flags. ub \<le> x \<and> x < ub + n \<and> virtual_query s root x = Inr (a, flags) \<and> flags AND IOS_VM_USER \<noteq> 0 \<and> flags AND IOS_VM_WRITE \<noteq> 0
    \<and> (flags AND IOS_VM_OWNED \<noteq> 0 \<longrightarrow> a - a mod 4096 \<notin> tables s R \<and> (\<forall>r \<in> R. r \<noteq> root \<longrightarrow> a - a mod 4096 \<notin> pages_of s r))"
proof -
  obtain i where i: "i < n" "accessible s root True (ub + i)" "a = physical_of s root (ub + i)" "user_address (ub + i)"
    using copy_out_bytes(2) [OF assms(1,2) _ assms(4) [unfolded user_copy_to_def] assms(5)] assms(3) by blast
  obtain flags where q: "virtual_query s root (ub + i) = Inr (a, flags)" and fl: "flags AND IOS_VM_USER \<noteq> 0" "flags AND IOS_VM_WRITE \<noteq> 0"
    using i(2,3) by (auto simp: accessible_def physical_of_def split: sum.splits)
  let ?e = "leaf_of s root (ub + i)"
  have ln: "leaf_node R root (table_path (ub + i)) (pt_index (ub + i))" by (rule user_leaf_node [OF assms(2) i(4)])
  have e: "?e \<noteq> 0" "a = table_from_entry ?e + (ub + i) mod 4096" "flags = query_flags ?e"
    using q unfolding query_leaf [OF assms(1,2) i(4)] by (auto split: if_splits)
  have "a - a mod 4096 \<notin> tables s R \<and> (\<forall>r \<in> R. r \<noteq> root \<longrightarrow> a - a mod 4096 \<notin> pages_of s r)" if "flags AND IOS_VM_OWNED \<noteq> 0"
  proof -
    have "leaf_ok ?e" unfolding leaf_of_def by (rule forest_okD(5) [OF assms(1) ln])
    then have o: "owned ?e" using that e(1) unfolding e(3) query_owned by (simp add: leaf_ok_def owned_def)
    have al: "allocated s (table_from_entry ?e)" "table_from_entry ?e \<notin> tables s R"
      using forest_okD(6) [OF assms(1) ln] o by (simp_all add: leaf_of_def)
    have "table_from_entry ?e mod 4096 = 0" using al(1) by (simp add: physical_page_is_allocated_def)
    then have "a mod 4096 = (ub + i) mod 4096"
      using mod_add_left_eq [of "table_from_entry ?e" 4096 "(ub + i) mod 4096"] unfolding e(2) by simp
    then have fr: "a - a mod 4096 = table_from_entry ?e" using e(2) by simp
    have "table_from_entry ?e \<in> pages_of s root"
      unfolding pages_of_def own_node [OF assms(2), symmetric] using ln o by (auto simp: leaf_of_def)
    then show ?thesis using al(2) pages_disjoint [OF assms(1,2)] unfolding fr by blast
  qed
  then show ?thesis using i(1) q fl by (intro exI [of _ "ub + i"] exI [of _ flags]) simp
qed

text \<open>What the kernel writes to the user and reads back is what it wrote, where the range is not mapped twice
  onto the same memory.\<close>

theorem user_copy_roundtrip:
  assumes "forest_ok s R" and "root \<in> R" and "length buf = n" and "length buf' = n" and "unaliased s root ub n"
    and "user_copy_to s root ub buf n mem = (mem', buf1, Inr ())"
  shows "\<exists>mem''. user_copy_from s root buf' ub n mem' = (mem'', buf, Inr ())"
proof -
  note put = copy_out_bytes [OF assms(1,2) _ assms(6) [unfolded user_copy_to_def]]
  have "accepts s root True ub n" using put(1) assms(3) by (simp split: if_splits)
  then have acc: "accepts s root False ub n" by (auto simp: accepts_def accessible_def split: sum.splits)
  have "user_bytes s root mem' ub n = buf"
    using put(3) assms(3,5) by (intro nth_equalityI) (simp_all add: user_bytes_def source_byte_def)
  moreover obtain m b r where run: "user_copy_from s root buf' ub n mem' = (m, b, r)" by (cases "user_copy_from s root buf' ub n mem'")
  ultimately show ?thesis using copy_in_bytes [OF assms(1,2,4) run] acc by simp
qed

section \<open>Witnesses\<close>

lemma one_page_query:
  assumes "i < 4096"
  shows "virtual_query one_page 0x1000 (VM_USER_START + i) = Inr (0x5000 + i, 5)" and "accessible one_page 0x1000 w (VM_USER_START + i)"
    and "physical_of one_page 0x1000 (VM_USER_START + i) = 0x5000 + i"
proof -
  show q: "virtual_query one_page 0x1000 (VM_USER_START + i) = Inr (0x5000 + i, 5)"
    using map_queries [OF one_space_ok _ _ _ one_page_mapped] assms by (simp add: handed_over_def user_address_def)
  show "accessible one_page 0x1000 w (VM_USER_START + i)" "physical_of one_page 0x1000 (VM_USER_START + i) = 0x5000 + i"
    unfolding accessible_def physical_of_def q by simp_all
qed

lemma one_page_accepts: "n \<le> 4096 \<Longrightarrow> accepts one_page 0x1000 w VM_USER_START n"
  using one_page_query(2) [of _ w] by (auto simp: accepts_def virtual_user_range_def)

theorem user_copy_from_exact_witness:
  "user_copy_from one_page 0x1000 [0, 0] VM_USER_START 2 (\<lambda>a. if a = 0x5001 then 7 else 1) = (\<lambda>a. if a = 0x5001 then 7 else 1, [1, 7], Inr ())"
proof -
  obtain m b r where run: "user_copy_from one_page 0x1000 [0, 0] VM_USER_START 2 (\<lambda>a. if a = 0x5001 then 7 else 1) = (m, b, r)"
    by (cases "user_copy_from one_page 0x1000 [0, 0] VM_USER_START 2 (\<lambda>a. if a = 0x5001 then 7 else 1)")
  have "[0..<2] = [0, 1 :: nat]" by (simp add: upt_rec)
  then have "user_bytes one_page 0x1000 (\<lambda>a. if a = 0x5001 then 7 else 1) VM_USER_START 2 = [1, 7]"
    using one_page_query(3) [of 0] one_page_query(3) [of 1] by (simp add: user_bytes_def)
  then show ?thesis using user_copy_from_exact [OF one_page_ok(1) _ _ run] one_page_accepts [of 2 False] run by simp
qed

lemma one_byte_out:
  "\<exists>m b. user_copy_to one_page 0x1000 VM_USER_START [7] 1 (\<lambda>_. 0) = (m, b, Inr ()) \<and> m 0x5000 = 7"
proof -
  obtain m b r where run: "user_copy_to one_page 0x1000 VM_USER_START [7] 1 (\<lambda>_. 0) = (m, b, r)"
    by (cases "user_copy_to one_page 0x1000 VM_USER_START [7] 1 (\<lambda>_. 0)")
  note o = copy_out_bytes [OF one_page_ok(1) _ _ run [unfolded user_copy_to_def]]
  have "unaliased one_page 0x1000 VM_USER_START 1" by (simp add: unaliased_def)
  then show ?thesis using o(1) o(3) [of 0] one_page_accepts [of 1 True] one_page_query(3) [of 0] run by (simp add: source_byte_def)
qed

theorem user_copy_to_confined_witness:
  "\<exists>m x flags. m 0x5000 = (7 :: u8) \<and> virtual_query one_page 0x1000 x = Inr (0x5000, flags) \<and> flags AND IOS_VM_WRITE \<noteq> 0"
proof -
  obtain m b where m: "user_copy_to one_page 0x1000 VM_USER_START [7] 1 (\<lambda>_. 0) = (m, b, Inr ())" "m 0x5000 = 7"
    using one_byte_out by blast
  have "m 0x5000 \<noteq> (\<lambda>_. 0) (0x5000 :: nat)" using m(2) by simp
  from user_copy_to_confined [OF one_page_ok(1) _ _ m(1) this] show ?thesis using m(2) by auto
qed

theorem user_copy_roundtrip_witness:
  "\<exists>m m'. user_copy_from one_page 0x1000 [0] VM_USER_START 1 m = (m', [7], Inr ())"
proof -
  obtain m b where m: "user_copy_to one_page 0x1000 VM_USER_START [7] 1 (\<lambda>_. 0) = (m, b, Inr ())" using one_byte_out by blast
  have "unaliased one_page 0x1000 VM_USER_START 1" by (simp add: unaliased_def)
  from user_copy_roundtrip [OF one_page_ok(1) _ _ _ this m, of "[0]"] show ?thesis by auto
qed

end
