(* ===== verification/Kernel_Loader.thy ===== *)
theory Kernel_Loader
  imports Kernel_Usercopy
begin

text \<open>
  The program loader (kernel/process/loader.c): the headers of an executable image, their validation, and
  the mapping of its segments into an address space. A machine is the page tables and the allocator of
  \<open>Kernel_Virtual\<close> with the bytes of physical memory. The theorems say that a program that loads is in memory as its
  image says, that its entry point is executable, and that loading, whether it succeeds or not,
  touches no other address space and no page in use.
\<close>

section \<open>The image\<close>

abbreviation ELF_CLASS_64 :: u8 where "ELF_CLASS_64 \<equiv> 2"
abbreviation ELF_DATA_LITTLE_ENDIAN :: u8 where "ELF_DATA_LITTLE_ENDIAN \<equiv> 1"
abbreviation ELF_TYPE_EXECUTABLE :: nat where "ELF_TYPE_EXECUTABLE \<equiv> 2"
abbreviation ELF_MACHINE_X86_64 :: nat where "ELF_MACHINE_X86_64 \<equiv> 62"
abbreviation ELF_PROGRAM_LOAD :: nat where "ELF_PROGRAM_LOAD \<equiv> 1"
abbreviation ELF_SEGMENT_EXECUTE :: u32 where "ELF_SEGMENT_EXECUTE \<equiv> 1"
abbreviation ELF_SEGMENT_WRITE :: u32 where "ELF_SEGMENT_WRITE \<equiv> 2"
abbreviation ELF_SEGMENT_READ :: u32 where "ELF_SEGMENT_READ \<equiv> 4"

record elf64_header =
  eh_identification :: bytes
  eh_type :: nat
  eh_machine :: nat
  eh_version :: nat
  eh_entry :: nat
  eh_program_header_offset :: nat
  eh_header_size :: nat
  eh_program_header_size :: nat
  eh_program_header_count :: nat

record elf64_program_header =
  ph_type :: nat
  ph_flags :: u32
  ph_offset :: nat
  ph_virtual_address :: nat
  ph_file_size :: nat
  ph_memory_size :: nat
  ph_alignment :: nat

text \<open>The structures as they lie in the bytes of the image; fields the code never reads are left out.\<close>

definition elf_header_of :: "bytes \<Rightarrow> elf64_header" where
  "elf_header_of bin = \<lparr>eh_identification = field_at 0 16 bin, eh_type = unat (read_u16 (field_at 16 2 bin)),
     eh_machine = unat (read_u16 (field_at 18 2 bin)), eh_version = unat (read_u32 (field_at 20 4 bin)),
     eh_entry = unat (read_u64 (field_at 24 8 bin)), eh_program_header_offset = unat (read_u64 (field_at 32 8 bin)),
     eh_header_size = unat (read_u16 (field_at 52 2 bin)), eh_program_header_size = unat (read_u16 (field_at 54 2 bin)),
     eh_program_header_count = unat (read_u16 (field_at 56 2 bin))\<rparr>"

definition validate_header :: "elf64_header \<Rightarrow> nat \<Rightarrow> unit res" where
  "validate_header header image_size =
     (if image_size < 64 \<or> take 4 (eh_identification header) \<noteq> [0x7f, 0x45, 0x4c, 0x46]
         \<or> eh_identification header ! 4 \<noteq> ELF_CLASS_64 \<or> eh_identification header ! 5 \<noteq> ELF_DATA_LITTLE_ENDIAN
         \<or> eh_identification header ! 6 \<noteq> 1
         \<or> eh_type header \<noteq> ELF_TYPE_EXECUTABLE \<or> eh_machine header \<noteq> ELF_MACHINE_X86_64
         \<or> eh_version header \<noteq> 1 \<or> eh_header_size header \<noteq> 64
         \<or> eh_program_header_size header \<noteq> 56 \<or> eh_program_header_count header = 0
         \<or> eh_program_header_offset header mod 8 \<noteq> 0
      then Inl IOS_E_PROTOCOL
      else
        let table_size = eh_program_header_count header * eh_program_header_size header in
        if eh_program_header_offset header > image_size \<or> table_size > image_size - eh_program_header_offset header
        then Inl IOS_E_OUT_OF_RANGE else Inr ())"

definition program_header_at :: "bytes \<Rightarrow> elf64_header \<Rightarrow> nat \<Rightarrow> elf64_program_header" where
  "program_header_at bin header index =
     (let base = eh_program_header_offset header + index * eh_program_header_size header in
      \<lparr>ph_type = unat (read_u32 (field_at base 4 bin)), ph_flags = read_u32 (field_at (base + 4) 4 bin),
       ph_offset = unat (read_u64 (field_at (base + 8) 8 bin)), ph_virtual_address = unat (read_u64 (field_at (base + 16) 8 bin)),
       ph_file_size = unat (read_u64 (field_at (base + 32) 8 bin)), ph_memory_size = unat (read_u64 (field_at (base + 40) 8 bin)),
       ph_alignment = unat (read_u64 (field_at (base + 48) 8 bin))\<rparr>)"

definition validate_segment :: "elf64_program_header \<Rightarrow> nat \<Rightarrow> unit res" where
  "validate_segment segment image_size =
     (if ph_memory_size segment = 0 then Inr ()
      else if ph_flags segment AND NOT (ELF_SEGMENT_READ OR ELF_SEGMENT_WRITE OR ELF_SEGMENT_EXECUTE) \<noteq> 0
         \<or> ph_flags segment AND ELF_SEGMENT_READ = 0
         \<or> ph_flags segment AND (ELF_SEGMENT_WRITE OR ELF_SEGMENT_EXECUTE) = (ELF_SEGMENT_WRITE OR ELF_SEGMENT_EXECUTE)
         \<or> ph_file_size segment > ph_memory_size segment \<or> ph_offset segment > image_size
         \<or> ph_file_size segment > image_size - ph_offset segment
         \<or> ph_alignment segment \<noteq> IOS_PAGE_SIZE
         \<or> ph_virtual_address segment mod IOS_PAGE_SIZE \<noteq> ph_offset segment mod IOS_PAGE_SIZE
         \<or> \<not> virtual_user_range (ph_virtual_address segment) (ph_memory_size segment)
      then Inl IOS_E_PROTOCOL else Inr ())"

definition page_base :: "nat \<Rightarrow> nat" where
  "page_base address = address div IOS_PAGE_SIZE * IOS_PAGE_SIZE"

definition segments_overlap :: "elf64_program_header \<Rightarrow> elf64_program_header \<Rightarrow> bool" where
  "segments_overlap left right =
     (let left_base = page_base (ph_virtual_address left); right_base = page_base (ph_virtual_address right);
          left_end = page_base (wrap (ph_virtual_address left + ph_memory_size left + IOS_PAGE_SIZE - 1));
          right_end = page_base (wrap (ph_virtual_address right + ph_memory_size right + IOS_PAGE_SIZE - 1))
      in ph_memory_size left \<noteq> 0 \<and> ph_memory_size right \<noteq> 0 \<and> left_base < right_end \<and> right_base < left_end)"

section \<open>Loading\<close>

record machine =
  mc_vm :: virtual_memory
  mc_bytes :: memory

definition segment_flags :: "elf64_program_header \<Rightarrow> u32" where
  "segment_flags segment = IOS_VM_USER OR IOS_VM_OWNED
     OR (if ph_flags segment AND ELF_SEGMENT_WRITE \<noteq> 0 then IOS_VM_WRITE else 0)
     OR (if ph_flags segment AND ELF_SEGMENT_EXECUTE \<noteq> 0 then IOS_VM_EXECUTE else 0)"

definition segment_base :: "elf64_program_header \<Rightarrow> nat" where
  "segment_base segment = ph_virtual_address segment - ph_virtual_address segment mod IOS_PAGE_SIZE"

definition segment_pages :: "elf64_program_header \<Rightarrow> nat" where
  "segment_pages segment =
     (ph_virtual_address segment mod IOS_PAGE_SIZE + ph_memory_size segment + IOS_PAGE_SIZE - 1) div IOS_PAGE_SIZE"

definition map_segment :: "nat \<Rightarrow> bytes \<Rightarrow> elf64_program_header \<Rightarrow> machine \<Rightarrow> machine \<times> unit res" where
  "map_segment root bin segment m =
     (let page_offset = ph_virtual_address segment mod IOS_PAGE_SIZE; page_count = segment_pages segment in
      case physical_allocate_pages page_count 1 (vm_physical (mc_vm m)) of
        (physical, Inl e) \<Rightarrow> (m\<lparr>mc_vm := (mc_vm m)\<lparr>vm_physical := physical\<rparr>\<rparr>, Inl e)
      | (physical, Inr physical_address) \<Rightarrow>
          let mem = store_bytes (mc_bytes m) physical_address (replicate (page_count * IOS_PAGE_SIZE) 0);
              mem = store_bytes mem (physical_address + page_offset) (take (ph_file_size segment) (drop (ph_offset segment) bin))
          in case virtual_map_pages root (segment_base segment) physical_address page_count (segment_flags segment)
                    ((mc_vm m)\<lparr>vm_physical := physical\<rparr>) of
               (s, Inr _) \<Rightarrow> (\<lparr>mc_vm = s, mc_bytes = mem\<rparr>, Inr ())
             | (s, Inl e) \<Rightarrow>
                 (\<lparr>mc_vm = s\<lparr>vm_physical := fst (physical_free_pages physical_address page_count (vm_physical s))\<rparr>, mc_bytes = mem\<rparr>, Inl e))"

text \<open>The first loop: every segment on its own and against those before it; whether the entry point lies in an executable one.\<close>

fun check_segments :: "nat \<Rightarrow> nat \<Rightarrow> elf64_program_header list \<Rightarrow> elf64_program_header list \<Rightarrow> bool \<Rightarrow> bool res" where
  "check_segments entry image_size before [] entry_is_executable = Inr entry_is_executable"
| "check_segments entry image_size before (segment # rest) entry_is_executable =
     (if ph_type segment \<noteq> ELF_PROGRAM_LOAD then check_segments entry image_size (before @ [segment]) rest entry_is_executable
      else case validate_segment segment image_size of
          Inl e \<Rightarrow> Inl e
        | Inr _ \<Rightarrow>
            let entry_is_executable = (entry_is_executable \<or> (ph_flags segment AND ELF_SEGMENT_EXECUTE \<noteq> 0
                  \<and> entry \<ge> ph_virtual_address segment \<and> entry - ph_virtual_address segment < ph_memory_size segment))
            in if list_ex (\<lambda>other. ph_type other = ELF_PROGRAM_LOAD \<and> segments_overlap segment other) before
               then Inl IOS_E_PROTOCOL
               else check_segments entry image_size (before @ [segment]) rest entry_is_executable)"

fun map_segments :: "nat \<Rightarrow> bytes \<Rightarrow> elf64_program_header list \<Rightarrow> machine \<Rightarrow> machine \<times> unit res" where
  "map_segments root bin [] m = (m, Inr ())"
| "map_segments root bin (segment # rest) m =
     (if ph_type segment = ELF_PROGRAM_LOAD \<and> ph_memory_size segment \<noteq> 0
      then case map_segment root bin segment m of
          (m, Inl e) \<Rightarrow> (m, Inl e)
        | (m, Inr _) \<Rightarrow> map_segments root bin rest m
      else map_segments root bin rest m)"

text \<open>The entry point is the output; the code stores it in the process.\<close>

definition process_load_static_elf64 :: "nat \<Rightarrow> bytes \<Rightarrow> machine \<Rightarrow> machine \<times> nat res" where
  "process_load_static_elf64 root bin m =
     (if root = 0 then (m, Inl IOS_E_INVALID_ARGUMENT)
      else
        let header = elf_header_of bin in
        case validate_header header (length bin) of
          Inl e \<Rightarrow> (m, Inl e)
        | Inr _ \<Rightarrow>
            let segments = map (program_header_at bin header) [0..<eh_program_header_count header] in
            (case check_segments (eh_entry header) (length bin) [] segments False of
               Inl e \<Rightarrow> (m, Inl e)
             | Inr entry_is_executable \<Rightarrow>
                 if \<not> entry_is_executable then (m, Inl IOS_E_BAD_ADDRESS)
                 else case map_segments root bin segments m of
                     (m, Inl e) \<Rightarrow> (m, Inl e)
                   | (m, Inr _) \<Rightarrow> (m, Inr (eh_entry header))))"

section \<open>Runs of pages\<close>

lemma allocated_page:
  assumes "moved p c st m m'" and "pm_allocator_initialized m" and "pm_allocator_initialized m'" and "p + c \<le> pm_managed_page_count m"
  shows "physical_page_is_allocated a m' \<longleftrightarrow>
    (if \<exists>k < c. a = p * 4096 + k * 4096 then st = PAGE_ALLOCATED else physical_page_is_allocated a m)"
proof (cases "a mod 4096 = 0")
  case True
  then have a: "a = a div 4096 * 4096" by auto
  have "(\<exists>k < c. a = p * 4096 + k * 4096) \<longleftrightarrow> p \<le> a div 4096 \<and> a div 4096 < p + c"
  proof
    assume "\<exists>k < c. a = p * 4096 + k * 4096"
    then obtain k where "k < c" "a = (p + k) * 4096" by (auto simp: add_mult_distrib)
    then show "p \<le> a div 4096 \<and> a div 4096 < p + c" by simp
  next
    assume "p \<le> a div 4096 \<and> a div 4096 < p + c"
    then show "\<exists>k < c. a = p * 4096 + k * 4096"
      using a by (intro exI [of _ "a div 4096 - p"]) (auto simp: diff_mult_distrib)
  qed
  moreover have "pm_managed_page_count m' = pm_managed_page_count m" using assms(1) by (simp add: moved_def)
  ultimately show ?thesis using assms(2-4) moved_at [OF assms(1), of "a div 4096"] True by (auto simp: physical_page_is_allocated_def)
next
  case False
  then have "a \<noteq> p * 4096 + k * 4096" for k by (metis add_mult_distrib mod_mult_self2_is_0)
  then show ?thesis using False by (simp add: physical_page_is_allocated_def)
qed

lemma allocate_pages:
  assumes ok: "physical_ok m" and run: "physical_allocate_pages c 1 m = (m', r)"
  shows "physical_ok m'"
    and "r = Inl e \<Longrightarrow> physical_page_is_allocated x m' = physical_page_is_allocated x m"
    and "r = Inr a \<Longrightarrow> k < c \<Longrightarrow> \<not> physical_page_is_allocated (a + k * 4096) m"
    and "r = Inr a \<Longrightarrow> a mod 4096 = 0 \<and> (physical_page_is_allocated x m' \<longleftrightarrow> (\<exists>k < c. x = a + k * 4096) \<or> physical_page_is_allocated x m)"
proof -
  have all: "physical_ok m' \<and> (case r of
      Inl e \<Rightarrow> \<forall>x. physical_page_is_allocated x m' = physical_page_is_allocated x m
    | Inr a \<Rightarrow> a mod 4096 = 0 \<and> (\<forall>k < c. \<not> physical_page_is_allocated (a + k * 4096) m)
        \<and> (\<forall>x. physical_page_is_allocated x m' \<longleftrightarrow> (\<exists>k < c. x = a + k * 4096) \<or> physical_page_is_allocated x m))"
  proof (cases "\<not> pm_allocator_initialized m \<or> c = 0 \<or> c > pm_free_page_count m")
    case True
    then show ?thesis using run ok unfolding physical_allocate_eq by (auto split: if_splits)
  next
    case False
    then have c: "c \<noteq> 0" by simp
    show ?thesis
    proof (cases "found_run m c 1")
      case None
      then have m': "m' = m\<lparr>pm_search_hint := 1\<rparr>" "r = Inl IOS_E_NO_MEMORY" using run False one_power unfolding physical_allocate_eq by auto
      have "physical_ok m'" using ok physical_okD(2) [OF ok] unfolding m' by (simp add: physical_ok_def pages_def)
      then show ?thesis by (simp add: m' physical_page_is_allocated_def)
    next
      case (Some p)
      note ar = allocate_run [OF ok _ c _ one_power Some, simplified]
      let ?m = "fold (\<lambda>offset. set_page_state (p + offset) PAGE_ALLOCATED) [0..<c] m"
      have m': "m' = ?m\<lparr>pm_free_page_count := pm_free_page_count ?m - c, pm_allocated_page_count := pm_allocated_page_count ?m + c,
          pm_search_hint := (if p + c \<ge> pm_managed_page_count ?m then 1 else p + c)\<rparr>" "r = Inr (p * IOS_PAGE_SIZE)"
        using run False Some one_power unfolding physical_allocate_eq Let_def by auto
      have ok': "physical_ok m'" using ar(1) by (simp add: m'(1))
      have "moved p c PAGE_ALLOCATED m m'" using ar(5) by (simp add: m'(1) moved_def)
      note ap = allocated_page [OF this physical_okD(1) [OF ok] physical_okD(1) [OF ok'] ar(4)]
      have "get_page_state m (p + k) = PAGE_FREE" if "k < c" for k using ar(2) that by (simp add: run_at_def)
      moreover have "(p * 4096 + k * 4096) div 4096 = p + k" for k by simp
      ultimately have no: "\<not> physical_page_is_allocated (p * 4096 + k * 4096) m" if "k < c" for k
        using that unfolding physical_page_is_allocated_def by simp
      have now: "physical_page_is_allocated x m' \<longleftrightarrow> (\<exists>k < c. x = p * 4096 + k * 4096) \<or> physical_page_is_allocated x m" for x
        using ap [of x] by argo
      show ?thesis unfolding m'(2) sum.case
        by (intro conjI allI impI) (rule ok', rule mod_mult_self2_is_0, erule no, rule now)
    qed
  qed
  show "physical_ok m'" using all by blast
  show "r = Inl e \<Longrightarrow> physical_page_is_allocated x m' = physical_page_is_allocated x m" using all by simp
  show "r = Inr a \<Longrightarrow> k < c \<Longrightarrow> \<not> physical_page_is_allocated (a + k * 4096) m" using all by simp
  show "r = Inr a \<Longrightarrow> a mod 4096 = 0 \<and> (physical_page_is_allocated x m' \<longleftrightarrow> (\<exists>k < c. x = a + k * 4096) \<or> physical_page_is_allocated x m)"
    using all by simp
qed

lemma free_pages:
  assumes ok: "physical_ok m" and all: "\<forall>k < c. physical_page_is_allocated (a + k * 4096) m"
  defines "m' \<equiv> fst (physical_free_pages a c m)"
  shows "physical_ok m'" and "physical_page_is_allocated x m \<Longrightarrow> \<forall>k < c. x \<noteq> a + k * 4096 \<Longrightarrow> physical_page_is_allocated x m'"
proof -
  obtain r where run: "physical_free_pages a c m = (m', r)" by (metis m'_def prod.collapse)
  note ex = physical_free_exact [OF ok run]
  show ok': "physical_ok m'" using ex by blast
  assume x: "physical_page_is_allocated x m" "\<forall>k < c. x \<noteq> a + k * 4096"
  show "physical_page_is_allocated x m'"
  proof (cases r)
    case (Inl e)
    then show ?thesis using ex x by simp
  next
    case (Inr u)
    then obtain p where p: "a = p * 4096" "p + c \<le> pm_managed_page_count m"
        "\<forall>q. get_page_state m' q = (if p \<le> q \<and> q < p + c then PAGE_FREE else get_page_state m q)" using ex by auto
    have "pm_managed_page_count m' = pm_managed_page_count m" "length (pm_page_states m') = length (pm_page_states m)"
      unfolding m'_def physical_free_pages_def Let_def by auto
    then have "moved p c PAGE_FREE m m'" using p(3) by (simp add: moved_def)
    from allocated_page [OF this physical_okD(1) [OF ok] physical_okD(1) [OF ok'] p(2), of x] x show ?thesis by (auto simp: p(1))
  qed
qed

lemma allocate_frames:
  assumes f: "forest_ok s R" and run: "physical_allocate_pages c 1 (vm_physical s) = (m', r)"
  defines "s' \<equiv> s\<lparr>vm_physical := m'\<rparr>"
  shows "forest_ok s' R" and "leaf s' t p i = leaf s t p i" and "spare s R a \<Longrightarrow> spare s' R a"
    and "r = Inr pa \<Longrightarrow> k < c \<Longrightarrow> unowned s' R (pa + k * 4096)"
proof -
  note al = allocate_pages [OF forest_okD(1) [OF f] run]
  note st = same_tables [of s' s, unfolded s'_def, OF update_simps(5)]
  have keep: "allocated s' x" if "allocated s x" for x using al(2,4) that by (cases r) (auto simp: s'_def)
  show f': "forest_ok s' R"
    unfolding s'_def by (rule same_forest [OF f update_simps(5)]) (use al(1) keep in \<open>simp_all add: s'_def\<close>)
  show lf: "leaf s' t p i = leaf s t p i" for t p i using st by (simp add: s'_def)
  show "spare s R a \<Longrightarrow> spare s' R a" using keep st by (simp add: spare_def s'_def)
  assume r: "r = Inr pa" and k: "k < c"
  have no: "\<not> allocated s (pa + k * 4096)" using al(3) r k by blast
  moreover have "allocated s' (pa + k * 4096)" using al(4) [OF r] k by (auto simp: s'_def)
  moreover have "tables s' R = tables s R" using st by (simp add: s'_def)
  ultimately have "spare s' R (pa + k * 4096)" using forest_okD(2) [OF f] by (auto simp: spare_def)
  then show "unowned s' R (pa + k * 4096)" using forest_okD(6) [OF f] no unfolding unowned_def lf by metis
qed

lemma free_frames:
  assumes f: "forest_ok s R" and un: "\<forall>k < c. unowned s R (pa + k * 4096)"
  defines "s' \<equiv> s\<lparr>vm_physical := fst (physical_free_pages pa c (vm_physical s))\<rparr>"
  shows "forest_ok s' R" and "leaf s' t p i = leaf s t p i" and "spare s R a \<Longrightarrow> \<forall>k < c. a \<noteq> pa + k * 4096 \<Longrightarrow> spare s' R a"
proof -
  have "\<forall>k < c. allocated s (pa + k * 4096)" using un by (simp add: unowned_def spare_def)
  note fr = free_pages [OF forest_okD(1) [OF f] this]
  note st = same_tables [of s' s, unfolded s'_def, OF update_simps(5)]
  have notin: "\<forall>k < c. x \<noteq> pa + k * 4096"
    if "x \<in> tables s R \<or> (\<exists>r p i. leaf_node R r p i \<and> owned (leaf s r p i) \<and> table_from_entry (leaf s r p i) = x)" for x
    using that un by (auto simp: unowned_def spare_def)
  show "forest_ok s' R"
    unfolding s'_def by (rule same_forest [OF f update_simps(5)]) (use fr notin in \<open>simp_all\<close>)
  show "leaf s' t p i = leaf s t p i" using st by (simp add: s'_def)
  show "spare s R a \<Longrightarrow> \<forall>k < c. a \<noteq> pa + k * 4096 \<Longrightarrow> spare s' R a" using fr(2) [of a] st by (simp add: spare_def s'_def)
qed

text \<open>Every leaf of a user half is the leaf of a user address, so equal translations are equal leaves.\<close>

lemma digit: "i < 512 \<Longrightarrow> (q * 512 + i) div 512 = q \<and> (q * 512 + i) mod 512 = (i :: nat)"
  by simp

lemma leaf_node_address:
  assumes "leaf_node R r p i"
  shows "\<exists>x. user_address x \<and> table_path x = p \<and> pt_index x = i"
proof -
  have n: "length p = 3" "\<forall>j \<in> set p. j < 512" "p \<noteq> [] \<longrightarrow> 2 \<le> hd p \<and> hd p < 256" "i < 512"
    using assms by (auto simp: leaf_node_def node_def)
  then obtain a b c where p: "p = [a, b, c]" by (auto simp: length_Suc_conv numeral_eq_Suc)
  have d: "2 \<le> a" "a < 256" "b < 512" "c < 512" using n(2,3) by (simp_all add: p)
  define v2 v1 v0 where "v2 = a * 512 + b" and "v1 = v2 * 512 + c" and "v0 = v1 * 512 + i"
  define x where "x = v0 * 4096"
  have e: "v2 div 512 = a" "v2 mod 512 = b" "v1 div 512 = v2" "v1 mod 512 = c" "v0 div 512 = v1" "v0 mod 512 = i"
    unfolding v2_def v1_def v0_def using digit d n(4) by blast+
  have x0: "x div 2 ^ 12 = v0" by (simp add: x_def)
  have x1: "x div 2 ^ 21 = v1" using div_mult2_eq [of x "2 ^ 12" 512] unfolding x0 e by simp
  have x2: "x div 2 ^ 30 = v2" using div_mult2_eq [of x "2 ^ 21" 512] unfolding x1 e by simp
  have x3: "x div 2 ^ 39 = a" using div_mult2_eq [of x "2 ^ 30" 512] unfolding x2 e by simp
  have "a mod 512 = a" using d(2) by simp
  then have "table_path x = p" "pt_index x = i"
    unfolding table_path_def pml4_index_def pdpt_index_def pd_index_def pt_index_def x0 x1 x2 x3 e p by simp_all
  moreover have "user_address x" using d n(4) unfolding user_address_def x_def v0_def v1_def v2_def by simp
  ultimately show ?thesis by blast
qed

lemma unowned_kept:
  assumes "unowned s R a" and "spare s' R a" and "\<forall>r x. r \<in> R \<longrightarrow> user_address x \<longrightarrow> leaf_of s' r x = leaf_of s r x"
  shows "unowned s' R a"
proof -
  have "leaf s' r p i = leaf s r p i" if ln: "leaf_node R r p i" for r p i
  proof -
    have "r \<in> R" using ln by (simp add: leaf_node_def node_def)
    then show ?thesis using leaf_node_address [OF ln] assms(3) unfolding leaf_of_def by metis
  qed
  then show ?thesis using assms(1,2) by (simp add: unowned_def)
qed

section \<open>Mapping a segment\<close>

definition segment_byte :: "bytes \<Rightarrow> elf64_program_header \<Rightarrow> nat \<Rightarrow> u8" where
  "segment_byte bin segment i = (if i < ph_file_size segment then bin ! (ph_offset segment + i) else 0)"

text \<open>A segment that the loop accepts and maps.\<close>

definition mappable :: "bytes \<Rightarrow> elf64_program_header \<Rightarrow> bool" where
  "mappable bin segment \<longleftrightarrow> ph_type segment = ELF_PROGRAM_LOAD \<and> ph_memory_size segment \<noteq> 0 \<and> validate_segment segment (length bin) = Inr ()"

lemma mappableD:
  assumes "mappable bin segment"
  shows "ph_memory_size segment \<noteq> 0" and "ph_file_size segment \<le> ph_memory_size segment"
    and "ph_offset segment + ph_file_size segment \<le> length bin"
    and "virtual_user_range (ph_virtual_address segment) (ph_memory_size segment)"
    and "ph_flags segment AND ELF_SEGMENT_READ \<noteq> 0"
    and "ph_flags segment AND (ELF_SEGMENT_WRITE OR ELF_SEGMENT_EXECUTE) \<noteq> (ELF_SEGMENT_WRITE OR ELF_SEGMENT_EXECUTE)"
  using assms unfolding mappable_def validate_segment_def by (auto split: if_splits)

lemma write_and_execute:
  fixes flags :: u32
  assumes "flags AND ELF_SEGMENT_WRITE \<noteq> 0" and "flags AND ELF_SEGMENT_EXECUTE \<noteq> 0"
  shows "flags AND (ELF_SEGMENT_WRITE OR ELF_SEGMENT_EXECUTE) = (ELF_SEGMENT_WRITE OR ELF_SEGMENT_EXECUTE)"
proof -
  have one: "flags AND 2 ^ k = 2 ^ k" if "flags AND 2 ^ k \<noteq> 0" for k
    using that unfolding and_exp_eq_0_iff_not_bit by (intro bit_eqI) (auto simp: bit_and_iff bit_exp_iff)
  have "flags AND 2 = 2" "flags AND 1 = 1" using one [of 1] one [of 0] assms by simp_all
  then show ?thesis by (simp only: bit.conj_disj_distrib)
qed

lemma segment_flags_user:
  "segment_flags segment AND IOS_VM_USER \<noteq> 0" "segment_flags segment AND IOS_VM_OWNED \<noteq> 0"
  "segment_flags segment AND IOS_VM_EXECUTE \<noteq> 0 \<longleftrightarrow> ph_flags segment AND ELF_SEGMENT_EXECUTE \<noteq> 0"
  "segment_flags segment AND IOS_VM_WRITE \<noteq> 0 \<longleftrightarrow> ph_flags segment AND ELF_SEGMENT_WRITE \<noteq> 0"
  by (simp_all add: segment_flags_def)

lemma segment_extent:
  "segment_base segment + ph_virtual_address segment mod 4096 = ph_virtual_address segment"
  "ph_virtual_address segment mod 4096 + ph_memory_size segment \<le> segment_pages segment * 4096"
proof -
  show "segment_base segment + ph_virtual_address segment mod 4096 = ph_virtual_address segment" by (simp add: segment_base_def)
  define k where "k = ph_virtual_address segment mod 4096 + ph_memory_size segment"
  have "segment_pages segment = (k + 4095) div 4096" by (simp add: segment_pages_def k_def)
  moreover have "k \<le> (k + 4095) div 4096 * 4096"
    using div_mult_mod_eq [of "k + 4095" 4096] mod_less_divisor [of 4096 "k + 4095"] by linarith
  ultimately show "ph_virtual_address segment mod 4096 + ph_memory_size segment \<le> segment_pages segment * 4096" by (simp add: k_def)
qed

text \<open>The bytes of the new frames.\<close>

lemma segment_stored:
  fixes mem :: memory and pa :: nat
  assumes m: "mappable bin segment"
  defines "off \<equiv> ph_virtual_address segment mod 4096" and "n \<equiv> segment_pages segment"
  defines "mem' \<equiv> store_bytes (store_bytes mem pa (replicate (n * 4096) 0)) (pa + off) (take (ph_file_size segment) (drop (ph_offset segment) bin))"
  shows "i < ph_memory_size segment \<Longrightarrow> mem' (pa + (off + i)) = segment_byte bin segment i"
    and "x < pa \<or> pa + n * 4096 \<le> x \<Longrightarrow> mem' x = mem x"
proof -
  note d = mappableD [OF m]
  have len: "length (take (ph_file_size segment) (drop (ph_offset segment) bin)) = ph_file_size segment" using d(3) by simp
  have ext: "off + ph_memory_size segment \<le> n * 4096" using segment_extent(2) [of segment] by (simp add: off_def n_def)
  have nth: "take (ph_file_size segment) (drop (ph_offset segment) bin) ! i = bin ! (ph_offset segment + i)" if "i < ph_file_size segment" for i
    using that d(3) by simp
  show "i < ph_memory_size segment \<Longrightarrow> mem' (pa + (off + i)) = segment_byte bin segment i"
    using ext nth unfolding mem'_def store_bytes_def len segment_byte_def by (auto simp: add.assoc)
  show "x < pa \<or> pa + n * 4096 \<le> x \<Longrightarrow> mem' x = mem x"
    using ext d(2) unfolding mem'_def store_bytes_def len by auto
qed

lemma in_run:
  fixes x pa n :: nat
  assumes "pa mod 4096 = 0" and "pa \<le> x" and "x < pa + n * 4096"
  shows "\<exists>k < n. x - x mod 4096 = pa + k * 4096"
proof -
  obtain p where p: "pa = p * 4096" using assms(1) by auto
  have x: "x = x div 4096 * 4096 + x mod 4096" by simp
  have "p \<le> x div 4096" using assms(2) by (simp add: p less_eq_div_iff_mult_less_eq)
  moreover have "x div 4096 < p + n" using assms(3) unfolding p add_mult_distrib [symmetric] by (simp add: div_less_iff_less_mult)
  moreover have "x - x mod 4096 = x div 4096 * 4096" using x by linarith
  ultimately show ?thesis unfolding p by (intro exI [of _ "x div 4096 - p"]) (auto simp: diff_mult_distrib)
qed

text \<open>What every step of loading keeps: the page tables stay sound, a page in use stays in use, and its bytes stay.\<close>

definition kept :: "nat set \<Rightarrow> machine \<Rightarrow> machine \<Rightarrow> bool" where
  "kept R m m' \<longleftrightarrow> forest_ok (mc_vm m') R \<and> (\<forall>a. spare (mc_vm m) R a \<longrightarrow> spare (mc_vm m') R a)
     \<and> (\<forall>x. spare (mc_vm m) R (x - x mod 4096) \<longrightarrow> mc_bytes m' x = mc_bytes m x)"

lemma kept_refl: "forest_ok (mc_vm m) R \<Longrightarrow> kept R m m"
  by (simp add: kept_def)

lemma kept_trans: "kept R m m1 \<Longrightarrow> kept R m1 m2 \<Longrightarrow> kept R m m2"
  unfolding kept_def by metis

definition in_segment :: "elf64_program_header \<Rightarrow> nat \<Rightarrow> bool" where
  "in_segment segment x \<longleftrightarrow> segment_base segment \<le> x \<and> x < segment_base segment + segment_pages segment * 4096"

definition segment_loaded :: "nat set \<Rightarrow> nat \<Rightarrow> bytes \<Rightarrow> elf64_program_header \<Rightarrow> machine \<Rightarrow> bool" where
  "segment_loaded R root bin segment m \<longleftrightarrow> (\<forall>i < ph_memory_size segment. \<exists>a. spare (mc_vm m) R (a - a mod 4096)
     \<and> virtual_query (mc_vm m) root (ph_virtual_address segment + i) = Inr (a, segment_flags segment) \<and> mc_bytes m a = segment_byte bin segment i)"

definition segment_outcome :: "nat set \<Rightarrow> nat \<Rightarrow> bytes \<Rightarrow> elf64_program_header \<Rightarrow> machine \<Rightarrow> machine \<Rightarrow> unit res \<Rightarrow> bool" where
  "segment_outcome R root bin segment m m' res \<longleftrightarrow> kept R m m'
     \<and> (\<forall>r x. r \<in> R \<longrightarrow> user_address x \<longrightarrow> \<not> (res = Inr () \<and> r = root \<and> in_segment segment x) \<longrightarrow> virtual_query (mc_vm m') r x = virtual_query (mc_vm m) r x)
     \<and> (res = Inr () \<longrightarrow> segment_loaded R root bin segment m'
          \<and> (\<forall>x. user_address x \<longrightarrow> in_segment segment x \<longrightarrow> virtual_query (mc_vm m) root x = Inl IOS_E_NOT_FOUND))"

lemma in_own_segment: "i < ph_memory_size segment \<Longrightarrow> in_segment segment (ph_virtual_address segment + i)"
  using segment_extent [of segment] unfolding in_segment_def by linarith

lemma query_of_leaves:
  assumes "forest_ok s R" and "forest_ok s' R" and "\<forall>r p i. leaf s' r p i = leaf s r p i" and "r \<in> R" and "user_address x"
  shows "virtual_query s' r x = virtual_query s r x"
  by (rule query_of_leaf [OF assms(1,2,4,4,5)]) (simp add: leaf_of_def assms(3))

lemma map_segment_outcome:
  assumes f: "forest_ok (mc_vm m) R" and r: "root \<in> R" and mp: "mappable bin segment" and run: "map_segment root bin segment m = (m', res)"
  shows "segment_outcome R root bin segment m m' res"
proof -
  let ?n = "segment_pages segment" and ?off = "ph_virtual_address segment mod 4096" and ?fl = "segment_flags segment" and ?base = "segment_base segment"
  obtain ph ar where al: "physical_allocate_pages ?n 1 (vm_physical (mc_vm m)) = (ph, ar)"
    by (cases "physical_allocate_pages ?n 1 (vm_physical (mc_vm m))")
  define s1 where "s1 = (mc_vm m)\<lparr>vm_physical := ph\<rparr>"
  note a1 = allocate_frames [OF f al, folded s1_def]
  note q1 = query_of_leaves [OF f a1(1), unfolded a1(2), simplified]
  show ?thesis
  proof (cases ar)
    case (Inl e)
    then have "m' = m\<lparr>mc_vm := s1\<rparr>" "res = Inl e" using run al unfolding map_segment_def s1_def by (auto simp: Let_def)
    then show ?thesis using a1(1,3) q1 by (simp add: segment_outcome_def kept_def)
  next
    case (Inr pa)
    note fresh = allocate_pages(3,4) [OF forest_okD(1) [OF f] al Inr]
    define mem' where "mem' = store_bytes (store_bytes (mc_bytes m) pa (replicate (?n * 4096) 0)) (pa + ?off)
      (take (ph_file_size segment) (drop (ph_offset segment) bin))"
    note stored = segment_stored [OF mp, where pa = pa and mem = "mc_bytes m", folded mem'_def]
    have bytes: "mem' x = mc_bytes m x" if "spare (mc_vm m) R (x - x mod 4096)" for x
    proof (rule stored(2), rule ccontr)
      assume "\<not> (x < pa \<or> pa + ?n * 4096 \<le> x)"
      then obtain k where "k < ?n" "x - x mod 4096 = pa + k * 4096" using in_run [of pa x ?n] fresh(2) by auto
      then show False using fresh(1) that by (simp add: spare_def)
    qed
    obtain s2 mr where ma: "virtual_map_pages root ?base pa ?n ?fl s1 = (s2, mr)" by (cases "virtual_map_pages root ?base pa ?n ?fl s1")
    have ho: "handed_over pa ?n ?fl s1 R" using a1(4) [OF Inr] by (simp add: handed_over_def)
    note mu = map_pages_user [OF a1(1) r segment_flags_user(1) a1(4) [OF Inr] ma]
    note mq = map_queries [OF a1(1) r segment_flags_user(1) ho ma]
    have sp: "spare s2 R a" if "spare s1 R a" for a using mu that by blast
    show ?thesis
    proof (cases mr)
      case mr: (Inr u)
      have m': "m' = \<lparr>mc_vm = s2, mc_bytes = mem'\<rparr>" "res = Inr ()"
        using run al Inr ma mr unfolding map_segment_def s1_def [symmetric] mem'_def by (auto simp: Let_def s1_def)
      have k: "kept R m m'" using mu a1(3) bytes by (simp add: kept_def m'(1))
      have qs: "virtual_query s2 r' x = (if r' = root \<and> in_segment segment x then Inr (pa + (x - ?base), ?fl) else virtual_query (mc_vm m) r' x)"
        if "r' \<in> R" "user_address x" for r' x
        using mq that q1 [OF that] mr by (simp add: in_segment_def)
      have "segment_loaded R root bin segment m'"
        unfolding segment_loaded_def m'(1)
      proof (intro allI impI)
        fix i assume i: "i < ph_memory_size segment"
        let ?x = "ph_virtual_address segment + i"
        have "user_address ?x" using mappableD(4) [OF mp] i by (simp add: virtual_user_range_def user_address_def)
        moreover have "?x - ?base = ?off + i" using segment_extent(1) [of segment] by linarith
        ultimately have q: "virtual_query s2 root ?x = Inr (pa + (?off + i), ?fl)" using qs [OF r] in_own_segment [OF i] by simp
        have "?off + i < ?n * 4096" using segment_extent(2) [of segment] i by linarith
        then obtain k where "k < ?n" "(pa + (?off + i)) - (pa + (?off + i)) mod 4096 = pa + k * 4096"
          using in_run [of pa "pa + (?off + i)" ?n] fresh(2) by auto
        then have "spare s2 R ((pa + (?off + i)) - (pa + (?off + i)) mod 4096)" using sp a1(4) [OF Inr] by (simp add: unowned_def)
        then show "\<exists>a. spare (mc_vm \<lparr>mc_vm = s2, mc_bytes = mem'\<rparr>) R (a - a mod 4096)
            \<and> virtual_query (mc_vm \<lparr>mc_vm = s2, mc_bytes = mem'\<rparr>) root ?x = Inr (a, ?fl)
            \<and> mc_bytes \<lparr>mc_vm = s2, mc_bytes = mem'\<rparr> a = segment_byte bin segment i"
          using q stored(1) [OF i] by (intro exI [of _ "pa + (?off + i)"]) simp
      qed
      moreover have "virtual_query (mc_vm m) root x = Inl IOS_E_NOT_FOUND" if "user_address x" "in_segment segment x" for x
        using mapped_before(1) [OF a1(1) r segment_flags_user(1) ho _ that(1)] ma mr that(2) q1 [OF r that(1)] by (simp add: in_segment_def)
      ultimately show ?thesis using k qs unfolding segment_outcome_def m'(2) by (simp add: m'(1))
    next
      case mr: (Inl e)
      define s3 where "s3 = s2\<lparr>vm_physical := fst (physical_free_pages pa ?n (vm_physical s2))\<rparr>"
      have m': "m' = \<lparr>mc_vm = s3, mc_bytes = mem'\<rparr>" "res = Inl e"
        using run al Inr ma mr unfolding map_segment_def s3_def mem'_def by (auto simp: Let_def s1_def)
      have lf: "\<forall>r x. r \<in> R \<longrightarrow> user_address x \<longrightarrow> leaf_of s2 r x = leaf_of s1 r x" using mu mr by simp
      have "\<forall>k < ?n. unowned s2 R (pa + k * 4096)"
        using unowned_kept [OF a1(4) [OF Inr] sp lf] a1(4) [OF Inr] by (simp add: unowned_def)
      note a3 = free_frames [OF _ this, folded s3_def]
      have f2: "forest_ok s2 R" using mu by blast
      have "spare s3 R a" if a: "spare (mc_vm m) R a" for a
        by (rule a3(3) [OF f2 sp [OF a1(3) [OF a]]]) (use fresh(1) a in \<open>auto simp: spare_def\<close>)
      then have k: "kept R m m'" using a3(1) [OF f2] bytes by (simp add: kept_def m'(1))
      have "virtual_query s3 r' x = virtual_query (mc_vm m) r' x" if "r' \<in> R" "user_address x" for r' x
        using query_of_leaves [OF f2 a3(1) [OF f2] _ that] a3(2) [OF f2] mq mr q1 [OF that] that by simp
      then show ?thesis using k by (simp add: segment_outcome_def m')
    qed
  qed
qed

section \<open>Mapping all segments\<close>

definition loads :: "elf64_program_header \<Rightarrow> bool" where
  "loads segment \<longleftrightarrow> ph_type segment = ELF_PROGRAM_LOAD \<and> ph_memory_size segment \<noteq> 0"

definition load_segments :: "bytes \<Rightarrow> elf64_program_header list" where
  "load_segments bin = (let header = elf_header_of bin in
     filter loads (map (program_header_at bin header) [0..<eh_program_header_count header]))"

lemma loaded_kept:
  assumes "segment_loaded R root bin segment m" and "mappable bin segment" and "kept R m m'"
    and "\<And>x v. user_address x \<Longrightarrow> virtual_query (mc_vm m) root x = Inr v \<Longrightarrow> virtual_query (mc_vm m') root x = Inr v"
  shows "segment_loaded R root bin segment m'"
  unfolding segment_loaded_def
proof (intro allI impI)
  fix i assume i: "i < ph_memory_size segment"
  then obtain a where a: "spare (mc_vm m) R (a - a mod 4096)"
      "virtual_query (mc_vm m) root (ph_virtual_address segment + i) = Inr (a, segment_flags segment)" "mc_bytes m a = segment_byte bin segment i"
    using assms(1) unfolding segment_loaded_def by blast
  have "user_address (ph_virtual_address segment + i)"
    using mappableD(4) [OF assms(2)] i by (simp add: virtual_user_range_def user_address_def)
  then show "\<exists>a. spare (mc_vm m') R (a - a mod 4096) \<and> virtual_query (mc_vm m') root (ph_virtual_address segment + i) = Inr (a, segment_flags segment)
      \<and> mc_bytes m' a = segment_byte bin segment i"
    using a assms(3,4) by (intro exI [of _ a]) (simp add: kept_def)
qed

definition load_outcome :: "nat set \<Rightarrow> nat \<Rightarrow> bytes \<Rightarrow> elf64_program_header list \<Rightarrow> machine \<Rightarrow> machine \<Rightarrow> unit res \<Rightarrow> bool" where
  "load_outcome R root bin segments m m' res \<longleftrightarrow> kept R m m'
     \<and> (\<forall>r x. r \<in> R \<longrightarrow> user_address x \<longrightarrow> \<not> (r = root \<and> (\<exists>segment \<in> set segments. loads segment \<and> in_segment segment x)) \<longrightarrow>
          virtual_query (mc_vm m') r x = virtual_query (mc_vm m) r x)
     \<and> (\<forall>x v. user_address x \<longrightarrow> virtual_query (mc_vm m) root x = Inr v \<longrightarrow> virtual_query (mc_vm m') root x = Inr v)
     \<and> (res = Inr () \<longrightarrow> (\<forall>segment \<in> set segments. loads segment \<longrightarrow> segment_loaded R root bin segment m'))"

lemma map_segments_outcome:
  assumes "forest_ok (mc_vm m) R" and r: "root \<in> R" and "\<forall>segment \<in> set segments. loads segment \<longrightarrow> mappable bin segment"
    and "map_segments root bin segments m = (m', res)"
  shows "load_outcome R root bin segments m m' res"
  using assms(1,3,4)
proof (induction segments arbitrary: m)
  case Nil
  then show ?case by (simp add: load_outcome_def kept_refl)
next
  case (Cons segment rest)
  show ?case
  proof (cases "loads segment")
    case False
    then have "map_segments root bin rest m = (m', res)" using Cons.prems(3) by (auto simp: loads_def)
    from Cons.IH [OF Cons.prems(1) _ this] Cons.prems(2) False show ?thesis by (simp add: load_outcome_def)
  next
    case True
    obtain m1 r1 where one: "map_segment root bin segment m = (m1, r1)" by (cases "map_segment root bin segment m")
    have mp: "mappable bin segment" using Cons.prems(2) True by simp
    note so = map_segment_outcome [OF Cons.prems(1) r mp one, unfolded segment_outcome_def]
    have old: "virtual_query (mc_vm m1) root x = Inr v" if "user_address x" "virtual_query (mc_vm m) root x = Inr v" for x v
      using so r that by (metis Inl_Inr_False)
    show ?thesis
    proof (cases r1)
      case (Inl e)
      then have "m' = m1" "res = Inl e" using Cons.prems(3) one True by (auto simp: loads_def)
      then show ?thesis using so old Inl by (simp add: load_outcome_def)
    next
      case (Inr u)
      then have run: "map_segments root bin rest m1 = (m', res)" using Cons.prems(3) one True by (auto simp: loads_def)
      have f1: "forest_ok (mc_vm m1) R" using so by (simp add: kept_def)
      have "\<forall>segment \<in> set rest. loads segment \<longrightarrow> mappable bin segment" using Cons.prems(2) by simp
      note lo = Cons.IH [OF f1 this run, unfolded load_outcome_def]
      have "kept R m m'" using kept_trans so lo by blast
      moreover have "segment_loaded R root bin segment m'" by (rule loaded_kept [where m = m1, OF _ mp]) (use so Inr in simp, use lo in blast, use lo in blast)
      moreover have "virtual_query (mc_vm m') r' x = virtual_query (mc_vm m) r' x"
        if "r' \<in> R" "user_address x" "\<not> (r' = root \<and> (\<exists>t \<in> set (segment # rest). loads t \<and> in_segment t x))" for r' x
        using so lo that True by simp
      ultimately show ?thesis using lo old unfolding load_outcome_def by simp
    qed
  qed
qed

section \<open>Checking all segments\<close>

definition apart :: "elf64_program_header \<Rightarrow> elf64_program_header \<Rightarrow> bool" where
  "apart other segment \<longleftrightarrow> (ph_type other = ELF_PROGRAM_LOAD \<longrightarrow> ph_type segment = ELF_PROGRAM_LOAD \<longrightarrow> \<not> segments_overlap segment other)"

definition holds_entry :: "nat \<Rightarrow> elf64_program_header \<Rightarrow> bool" where
  "holds_entry entry segment \<longleftrightarrow> ph_type segment = ELF_PROGRAM_LOAD \<and> ph_flags segment AND ELF_SEGMENT_EXECUTE \<noteq> 0
     \<and> ph_virtual_address segment \<le> entry \<and> entry - ph_virtual_address segment < ph_memory_size segment"

lemma check_segments_exact:
  "check_segments entry n before segments known = Inr b \<longleftrightarrow>
     (\<forall>segment \<in> set segments. ph_type segment = ELF_PROGRAM_LOAD \<longrightarrow> validate_segment segment n = Inr ())
     \<and> sorted_wrt apart segments \<and> (\<forall>segment \<in> set segments. \<forall>other \<in> set before. apart other segment)
     \<and> b = (known \<or> (\<exists>segment \<in> set segments. holds_entry entry segment))"
proof (induction segments arbitrary: before known)
  case (Cons segment rest)
  show ?case
  proof (cases "ph_type segment = ELF_PROGRAM_LOAD")
    case False
    then have "apart o' segment" "apart segment o'" "\<not> holds_entry entry segment" for o' by (simp_all add: apart_def holds_entry_def)
    then show ?thesis using False by (auto simp: Cons.IH)
  next
    case True
    have ap: "list_ex (\<lambda>other. ph_type other = ELF_PROGRAM_LOAD \<and> segments_overlap segment other) before \<longleftrightarrow> \<not> (\<forall>other \<in> set before. apart other segment)"
      using True by (auto simp: list_ex_iff apart_def)
    have en: "(known \<or> (ph_flags segment AND ELF_SEGMENT_EXECUTE \<noteq> 0 \<and> entry \<ge> ph_virtual_address segment
        \<and> entry - ph_virtual_address segment < ph_memory_size segment)) \<longleftrightarrow> known \<or> holds_entry entry segment"
      using True by (simp add: holds_entry_def)
    show ?thesis
    proof (cases "validate_segment segment n")
      case (Inl e)
      then show ?thesis using True by simp
    next
      case (Inr u)
      show ?thesis
      proof (cases "\<forall>other \<in> set before. apart other segment")
        case True
        then show ?thesis using Inr \<open>ph_type segment = ELF_PROGRAM_LOAD\<close> by (auto simp: Let_def ap [unfolded One_nat_def] en Cons.IH)
      next
        case False
        then show ?thesis using Inr \<open>ph_type segment = ELF_PROGRAM_LOAD\<close> by (auto simp: Let_def ap [unfolded One_nat_def])
      qed
    qed
  qed
qed auto

lemma segment_end:
  assumes "mappable bin segment"
  shows "page_base (ph_virtual_address segment) = segment_base segment"
    and "page_base (wrap (ph_virtual_address segment + ph_memory_size segment + IOS_PAGE_SIZE - 1)) = segment_base segment + segment_pages segment * 4096"
proof -
  define va n where "va = ph_virtual_address segment" and "n = ph_memory_size segment"
  have b: "segment_base segment = va div 4096 * 4096" by (simp add: segment_base_def va_def minus_mod_eq_div_mult)
  then show "page_base (ph_virtual_address segment) = segment_base segment" by (simp add: page_base_def va_def)
  have "va + n \<le> VM_USER_END" using mappableD(4) [OF assms] by (simp add: virtual_user_range_def va_def n_def)
  then have "wrap (va + n + IOS_PAGE_SIZE - 1) = va + n + 4095" by (simp add: wrap_def)
  also have "\<dots> = va div 4096 * 4096 + (va mod 4096 + n + 4095)" using div_mult_mod_eq [of va 4096] by linarith
  finally have w: "wrap (va + n + IOS_PAGE_SIZE - 1) = va div 4096 * 4096 + (va mod 4096 + n + 4095)" .
  have dv: "(q * 4096 + t) div 4096 = q + t div 4096" for q t :: nat by simp
  have "page_base (wrap (va + n + IOS_PAGE_SIZE - 1)) = (va div 4096 + (va mod 4096 + n + 4095) div 4096) * 4096"
    unfolding page_base_def w dv ..
  then show "page_base (wrap (ph_virtual_address segment + ph_memory_size segment + IOS_PAGE_SIZE - 1)) = segment_base segment + segment_pages segment * 4096"
    unfolding b segment_pages_def va_def n_def by (simp add: add_mult_distrib)
qed

lemma apart_disjoint:
  assumes "mappable bin a" and "mappable bin b" and "apart a b \<or> apart b a" and "in_segment a x"
  shows "\<not> in_segment b x"
proof -
  note e = segment_end [OF assms(1)] segment_end [OF assms(2)]
  have "ph_type a = ELF_PROGRAM_LOAD" "ph_type b = ELF_PROGRAM_LOAD" using assms(1,2) by (simp_all add: mappable_def)
  then have "\<not> (segment_base a < segment_base b + segment_pages b * 4096 \<and> segment_base b < segment_base a + segment_pages a * 4096)"
    using assms(3) mappableD(1) [OF assms(1)] mappableD(1) [OF assms(2)] unfolding apart_def segments_overlap_def Let_def e by blast
  then show ?thesis using assms(4) unfolding in_segment_def by linarith
qed

section \<open>Properties\<close>

lemma load_cases:
  assumes "process_load_static_elf64 root bin m = (m', res)"
  shows "(m' = m \<and> (\<exists>e. res = Inl e)) \<or> (\<exists>mr. map_segments root bin (map (program_header_at bin (elf_header_of bin)) [0..<eh_program_header_count (elf_header_of bin)]) m = (m', mr)
      \<and> check_segments (eh_entry (elf_header_of bin)) (length bin) []
          (map (program_header_at bin (elf_header_of bin)) [0..<eh_program_header_count (elf_header_of bin)]) False = Inr True
      \<and> res = (case mr of Inl e \<Rightarrow> Inl e | Inr _ \<Rightarrow> Inr (eh_entry (elf_header_of bin))))"
  using assms unfolding process_load_static_elf64_def Let_def by (auto split: if_splits sum.splits prod.splits)

lemma load_run:
  assumes "forest_ok (mc_vm m) R" and "root \<in> R" and "process_load_static_elf64 root bin m = (m', res)" and "m' \<noteq> m \<or> res = Inr entry"
  defines "segments \<equiv> map (program_header_at bin (elf_header_of bin)) [0..<eh_program_header_count (elf_header_of bin)]"
  shows "\<exists>mr. load_outcome R root bin segments m m' mr \<and> res = (case mr of Inl e \<Rightarrow> Inl e | Inr _ \<Rightarrow> Inr (eh_entry (elf_header_of bin)))"
    and "segment \<in> set segments \<Longrightarrow> loads segment \<Longrightarrow> mappable bin segment"
    and "\<exists>segment \<in> set segments. loads segment \<and> holds_entry (eh_entry (elf_header_of bin)) segment" and "sorted_wrt apart segments"
proof -
  obtain mr where mr: "map_segments root bin segments m = (m', mr)" "check_segments (eh_entry (elf_header_of bin)) (length bin) [] segments False = Inr True"
      "res = (case mr of Inl e \<Rightarrow> Inl e | Inr _ \<Rightarrow> Inr (eh_entry (elf_header_of bin)))"
    using load_cases [OF assms(3)] assms(4) unfolding segments_def by blast
  note ck = mr(2) [unfolded check_segments_exact]
  have mp: "mappable bin segment" if "segment \<in> set segments" "loads segment" for segment
    using ck that by (simp add: mappable_def loads_def)
  show "\<exists>mr. load_outcome R root bin segments m m' mr \<and> res = (case mr of Inl e \<Rightarrow> Inl e | Inr _ \<Rightarrow> Inr (eh_entry (elf_header_of bin)))"
    using map_segments_outcome [OF assms(1,2) _ mr(1)] mp mr(3) by blast
  show "segment \<in> set segments \<Longrightarrow> loads segment \<Longrightarrow> mappable bin segment" by (rule mp)
  show "\<exists>segment \<in> set segments. loads segment \<and> holds_entry (eh_entry (elf_header_of bin)) segment"
    using ck by (auto simp: holds_entry_def loads_def)
  show "sorted_wrt apart segments" using ck by blast
qed

lemma loaded_bytes:
  assumes "segment_loaded R root bin segment m" and "mappable bin segment"
  shows "user_bytes (mc_vm m) root (mc_bytes m) (ph_virtual_address segment) (ph_memory_size segment) =
    take (ph_file_size segment) (drop (ph_offset segment) bin) @ replicate (ph_memory_size segment - ph_file_size segment) 0"
proof (rule nth_equalityI)
  note d = mappableD [OF assms(2)]
  show "length (user_bytes (mc_vm m) root (mc_bytes m) (ph_virtual_address segment) (ph_memory_size segment)) =
    length (take (ph_file_size segment) (drop (ph_offset segment) bin) @ replicate (ph_memory_size segment - ph_file_size segment) 0)"
    using d(2,3) by (simp add: user_bytes_def)
  fix i assume "i < length (user_bytes (mc_vm m) root (mc_bytes m) (ph_virtual_address segment) (ph_memory_size segment))"
  then have i: "i < ph_memory_size segment" by (simp add: user_bytes_def)
  then obtain a where "virtual_query (mc_vm m) root (ph_virtual_address segment + i) = Inr (a, segment_flags segment)" "mc_bytes m a = segment_byte bin segment i"
    using assms(1) unfolding segment_loaded_def by blast
  then have "user_bytes (mc_vm m) root (mc_bytes m) (ph_virtual_address segment) (ph_memory_size segment) ! i = segment_byte bin segment i"
    using i by (simp add: user_bytes_def physical_of_def)
  then show "user_bytes (mc_vm m) root (mc_bytes m) (ph_virtual_address segment) (ph_memory_size segment) ! i =
    (take (ph_file_size segment) (drop (ph_offset segment) bin) @ replicate (ph_memory_size segment - ph_file_size segment) 0) ! i"
    using i d(2,3) by (simp add: nth_append segment_byte_def)
qed


text \<open>C25: Loading a program, whether it succeeds or fails half way for lack of memory or because of the image, disturbs nobody: the page
  tables stay sound, no translation of another address space changes, what the process itself had mapped stays mapped to the
  same memory, and no byte of a page in use is written.\<close>

theorem process_load_confined:
  assumes "forest_ok (mc_vm m) R" and "root \<in> R" and "process_load_static_elf64 root bin m = (m', res)"
  shows "forest_ok (mc_vm m') R
    \<and> (\<forall>r x. r \<in> R \<longrightarrow> r \<noteq> root \<longrightarrow> user_address x \<longrightarrow> virtual_query (mc_vm m') r x = virtual_query (mc_vm m) r x)
    \<and> (\<forall>x v. user_address x \<longrightarrow> virtual_query (mc_vm m) root x = Inr v \<longrightarrow> virtual_query (mc_vm m') root x = Inr v)
    \<and> (\<forall>x. spare (mc_vm m) R (x - x mod 4096) \<longrightarrow> mc_bytes m' x = mc_bytes m x)"
proof (cases "m' = m")
  case True
  then show ?thesis using assms(1) by simp
next
  case False
  then show ?thesis using load_run(1) [OF assms disjI1] unfolding load_outcome_def kept_def by blast
qed

section \<open>Witnesses\<close>

text \<open>An image with one executable segment, which is the file itself, loaded into the address space of \<open>one_space\<close>.\<close>

definition demo_image :: bytes where
  "demo_image = [0x7f, 0x45, 0x4c, 0x46, 2, 1, 1, 0, 0, 0, 0, 0, 0, 0, 0, 0, 2, 0, 62, 0, 1, 0, 0, 0,
     120, 0, 0, 0, 0, 1, 0, 0, 64, 0, 0, 0, 0, 0, 0, 0, 0, 0, 0, 0, 0, 0, 0, 0, 0, 0, 0, 0, 64, 0, 56, 0, 1, 0, 0, 0, 0, 0, 0, 0,
     1, 0, 0, 0, 5, 0, 0, 0, 0, 0, 0, 0, 0, 0, 0, 0, 0, 0, 0, 0, 0, 1, 0, 0, 0, 0, 0, 0, 0, 0, 0, 0,
     121, 0, 0, 0, 0, 0, 0, 0, 128, 0, 0, 0, 0, 0, 0, 0, 0, 16, 0, 0, 0, 0, 0, 0, 0xc3]"

definition demo_segment :: elf64_program_header where
  "demo_segment = \<lparr>ph_type = 1, ph_flags = 5, ph_offset = 0, ph_virtual_address = VM_USER_START, ph_file_size = 121, ph_memory_size = 128, ph_alignment = 4096\<rparr>"

lemma short_upts: "[0..<8] = [0, 1, 2, 3, 4, 5, 6, 7 :: nat]" "[0..<4] = [0, 1, 2, 3 :: nat]"
  by (simp_all add: upt_rec)

lemma demo_fields:
  "field_at 0 16 demo_image = [0x7f, 0x45, 0x4c, 0x46, 2, 1, 1, 0, 0, 0, 0, 0, 0, 0, 0, 0]" "field_at 16 2 demo_image = [2, 0]"
  "field_at 18 2 demo_image = [62, 0]" "field_at 20 4 demo_image = [1, 0, 0, 0]" "field_at 24 8 demo_image = [120, 0, 0, 0, 0, 1, 0, 0]"
  "field_at 32 8 demo_image = [64, 0, 0, 0, 0, 0, 0, 0]" "field_at 52 2 demo_image = [64, 0]" "field_at 54 2 demo_image = [56, 0]"
  "field_at 56 2 demo_image = [1, 0]" "field_at 64 4 demo_image = [1, 0, 0, 0]" "field_at 68 4 demo_image = [5, 0, 0, 0]"
  "field_at 72 8 demo_image = [0, 0, 0, 0, 0, 0, 0, 0]" "field_at 80 8 demo_image = [0, 0, 0, 0, 0, 1, 0, 0]"
  "field_at 96 8 demo_image = [121, 0, 0, 0, 0, 0, 0, 0]" "field_at 104 8 demo_image = [128, 0, 0, 0, 0, 0, 0, 0]"
  "field_at 112 8 demo_image = [0, 16, 0, 0, 0, 0, 0, 0]"
  by code_simp+

lemmas read_fields = demo_fields read_u16_def read_u32_def read_u64_def read_le_def short_upts

lemma demo_header: "elf_header_of demo_image = \<lparr>eh_identification = [0x7f, 0x45, 0x4c, 0x46, 2, 1, 1, 0, 0, 0, 0, 0, 0, 0, 0, 0], eh_type = 2,
    eh_machine = 62, eh_version = 1, eh_entry = VM_USER_START + 120, eh_program_header_offset = 64, eh_header_size = 64,
    eh_program_header_size = 56, eh_program_header_count = 1\<rparr>"
  by (simp add: elf_header_of_def read_fields)

lemma demo_program_header: "program_header_at demo_image (elf_header_of demo_image) 0 = demo_segment"
  unfolding demo_header
  by (simp add: program_header_at_def demo_segment_def read_fields)

lemma demo_flags: "segment_flags demo_segment = 22"
  by (simp add: segment_flags_def demo_segment_def)

lemma demo_extent: "segment_base demo_segment = VM_USER_START" "segment_pages demo_segment = 1"
  by (simp_all add: segment_base_def segment_pages_def demo_segment_def)

lemma last_page: "\<exists>ph. physical_allocate_pages (Suc 0) (Suc 0) (memory_after 4) = (ph, Inr 0x5000)"
proof -
  have "snd (physical_allocate_pages 1 1 (memory_after 4)) = Inr 0x5000" unfolding memory_after_def by code_simp
  then show ?thesis by (intro exI [of _ "fst (physical_allocate_pages 1 1 (memory_after 4))"]) (simp add: prod_eq_iff)
qed

lemma demo_frame: "physical_page_is_allocated 0x2000 (memory_after 2)"
  unfolding memory_after_def by code_simp

abbreviation demo_machine :: machine where
  "demo_machine \<equiv> \<lparr>mc_vm = one_space, mc_bytes = \<lambda>_. 7\<rparr>"

lemma demo_mapped: "\<exists>s. virtual_map_pages 0x1000 VM_USER_START 0x2000 1 22 (one_space\<lparr>vm_physical := memory_after 2\<rparr>) = (s, Inr ())"
proof -
  obtain ph where ph: "physical_allocate_pages (Suc 0) (Suc 0) (memory_after 4) = (ph, Inr 0x5000)" using last_page by blast
  define s where "s = one_space\<lparr>vm_physical := memory_after 2\<rparr>"
  have ix: "pml4_index VM_USER_START = 2" "pdpt_index VM_USER_START = 0" "pd_index VM_USER_START = 0" "pt_index VM_USER_START = 0"
    by (simp_all add: pml4_index_def pdpt_index_def pd_index_def pt_index_def)
  have z: "entry_at s u j = 0" "vm_physical s = memory_after 2" "vm_execute_disable_enabled s" for u j
    by (simp_all add: s_def one_space_def bare_machine_def entry_at_def)
  have "snd (virtual_map_pages 0x1000 VM_USER_START 0x2000 1 22 s) = Inr ()"
    by (simp add: virtual_map_pages_def map_rejected_def virtual_user_range_def virtual_range_is_canonical_def z map_one_def ix
        ensure_next_table_def next_pages ph demo_frame Let_def)
  then show ?thesis unfolding s_def [symmetric] by (intro exI [of _ "fst (virtual_map_pages 0x1000 VM_USER_START 0x2000 1 22 s)"]) (simp add: prod_eq_iff)
qed

lemma demo_length: "length demo_image = 121"
  by (simp add: demo_image_def)

lemma demo_loads: "\<exists>m. process_load_static_elf64 0x1000 demo_image demo_machine = (m, Inr (VM_USER_START + 120))"
proof -
  have vh: "validate_header (elf_header_of demo_image) (length demo_image) = Inr ()"
    unfolding demo_header demo_length by (simp add: validate_header_def)
  have hd: "map (program_header_at demo_image (elf_header_of demo_image)) [0..<eh_program_header_count (elf_header_of demo_image)] = [demo_segment]"
    using demo_program_header by (simp add: demo_header)
  have en: "eh_entry (elf_header_of demo_image) = VM_USER_START + 120" by (simp add: demo_header)
  have ck: "check_segments (VM_USER_START + 120) (length demo_image) [] [demo_segment] False = Inr True"
    unfolding demo_length by (simp add: demo_segment_def validate_segment_def virtual_user_range_def)
  have "vm_physical one_space = memory_after 1" by (simp add: one_space_def)
  then have "\<exists>m. map_segment 0x1000 demo_image demo_segment demo_machine = (m, Inr ())"
    using demo_mapped unfolding map_segment_def demo_extent demo_flags Let_def by (auto simp: next_pages)
  moreover have "ph_type demo_segment = ELF_PROGRAM_LOAD \<and> ph_memory_size demo_segment \<noteq> 0" by (simp add: demo_segment_def)
  ultimately have "\<exists>m. map_segments 0x1000 demo_image [demo_segment] demo_machine = (m, Inr ())" by auto
  then show ?thesis unfolding process_load_static_elf64_def Let_def hd vh en ck by auto
qed


theorem process_load_confined_witness:
  "\<exists>m. process_load_static_elf64 0x1000 demo_image demo_machine = (m, Inr (VM_USER_START + 120)) \<and> forest_ok (mc_vm m) {0x1000}"
proof -
  obtain m where m: "process_load_static_elf64 0x1000 demo_image demo_machine = (m, Inr (VM_USER_START + 120))" using demo_loads by blast
  have "forest_ok (mc_vm demo_machine) {0x1000}" using one_space_ok by simp
  from process_load_confined [OF this _ m] m show ?thesis by blast
qed

end
