(* ===== verification/Fs_File.thy ===== *)
theory Fs_File
  imports Fs_Fat
begin

text \<open>
  Open files (file.h, file.c): reading, writing, seeking and appending over the cluster chain of a
  file. The three cluster operations of a store are function pointers; they are a record of functions
  over the store's context, and the locale \<open>cluster_device\<close> states what a file relies on. The store
  is shared by files, so it is passed beside the file. The chain workspace and the scratch cluster
  hold nothing between two calls and are local values. Theorems are about the byte sequence that
  a file denotes, \<open>file_content\<close>.
\<close>

unbundle bit_operations_syntax

section \<open>Data\<close>

record 'c ios_fs_cluster_operations =
  co_read :: "'c \<Rightarrow> nat \<Rightarrow> 'c \<times> bytes res"
  co_write :: "'c \<Rightarrow> nat \<Rightarrow> bytes \<Rightarrow> 'c \<times> unit res"
  co_zero :: "'c \<Rightarrow> nat \<Rightarrow> 'c \<times> unit res"

record 'c ios_fs_file_store =
  st_fat :: "u32 list"
  st_cluster_bytes :: u32
  st_io_context :: 'c
  st_operations :: "'c ios_fs_cluster_operations"
  st_writable :: bool

datatype ios_fs_seek_origin = IOS_FS_SEEK_SET | IOS_FS_SEEK_CURRENT | IOS_FS_SEEK_END

record ios_fs_file =
  fi_primary :: ios_fs_primary
  fi_position :: u32
  fi_chain_capacity :: nat
  fi_scratch_size :: nat
  fi_writable :: bool
  fi_open :: bool

abbreviation IOS_FS_CLUSTER_BYTES :: nat where "IOS_FS_CLUSTER_BYTES \<equiv> 4096"

section \<open>Operations\<close>

definition validate_store :: "'c ios_fs_file_store \<Rightarrow> unit res" where
  "validate_store store =
     (if length (st_fat store) \<le> 2 \<or> unat (st_cluster_bytes store) \<noteq> IOS_FS_CLUSTER_BYTES
      then Inl IOS_E_INVALID_ARGUMENT else Inr ())"

definition load_chain :: "ios_fs_file \<Rightarrow> 'c ios_fs_file_store \<Rightarrow> nat list res" where
  "load_chain file store =
     (if p_file_size (fi_primary file) = 0
      then (if p_first_cluster (fi_primary file) = 0 then Inr [] else Inl IOS_E_CORRUPT)
      else ios_fs_fat_traverse (st_fat store) (unat (p_first_cluster (fi_primary file))) (fi_chain_capacity file))"

text \<open>The loop that clears the new clusters.\<close>

primrec zero_loop :: "'c ios_fs_cluster_operations \<Rightarrow> 'c \<Rightarrow> nat list \<Rightarrow> 'c \<times> unit res" where
  "zero_loop operations context [] = (context, Inr ())"
| "zero_loop operations context (cluster # clusters) =
     (case co_zero operations context cluster of
        (context, Inl e) \<Rightarrow> (context, Inl e)
      | (context, Inr _) \<Rightarrow> zero_loop operations context clusters)"

definition ensure_clusters ::
  "ios_fs_file \<Rightarrow> 'c ios_fs_file_store \<Rightarrow> nat \<Rightarrow> ios_fs_file \<times> 'c ios_fs_file_store \<times> nat list res" where
  "ensure_clusters file store required =
     (case load_chain file store of
        Inl e \<Rightarrow> (file, store, Inl e)
      | Inr existing \<Rightarrow>
         if required \<le> length existing then (file, store, Inr existing)
         else if required > fi_chain_capacity file then (file, store, Inl IOS_E_NO_SPACE)
         else case ios_fs_fat_allocate (st_fat store) (required - length existing)
                     (fi_chain_capacity file - length existing) of
             Inl e \<Rightarrow> (file, store, Inl e)
           | Inr (fat, allocated) \<Rightarrow>
              (case zero_loop (st_operations store) (st_io_context store) allocated of
                 (context, Inl e) \<Rightarrow>
                   (file, store\<lparr>st_fat := release_clusters fat allocated, st_io_context := context\<rparr>, Inl e)
               | (context, Inr _) \<Rightarrow>
                   if existing = []
                   then (file\<lparr>fi_primary := (fi_primary file)\<lparr>p_first_cluster := of_nat (hd allocated)\<rparr>\<rparr>,
                         store\<lparr>st_fat := fat, st_io_context := context\<rparr>, Inr allocated)
                   else (file, store\<lparr>st_fat := fat[last existing := of_nat (hd allocated)], st_io_context := context\<rparr>,
                         Inr (existing @ allocated))))"

definition ios_fs_file_open ::
  "'c ios_fs_file_store \<Rightarrow> companion_disk \<Rightarrow> primary_disk \<Rightarrow> bool \<Rightarrow> nat \<Rightarrow> nat \<Rightarrow> ios_fs_file res" where
  "ios_fs_file_open store companion primary_disk writable chain_capacity scratch_size =
     (if chain_capacity = 0 then Inl IOS_E_INVALID_ARGUMENT
      else case validate_store store of
          Inl e \<Rightarrow> Inl e
        | Inr _ \<Rightarrow>
      if scratch_size < unat (st_cluster_bytes store) then Inl IOS_E_NO_SPACE
      else if writable \<and> \<not> st_writable store then Inl IOS_E_READ_ONLY
      else case ios_fs_record_pair_validate companion primary_disk of
          Inl e \<Rightarrow> Inl e
        | Inr _ \<Rightarrow>
     (case ios_fs_primary_decode primary_disk of
          Inl e \<Rightarrow> Inl e
        | Inr primary \<Rightarrow>
           let file = \<lparr>fi_primary = primary, fi_position = 0, fi_chain_capacity = chain_capacity,
                 fi_scratch_size = scratch_size, fi_writable = writable, fi_open = True\<rparr>
           in if p_file_size primary \<noteq> 0
           then (case ios_fs_fat_validate_file_capacity (st_fat store) (unat (p_first_cluster primary))
                        (unat (p_file_size primary)) (unat (st_cluster_bytes store)) of
                   Inl e \<Rightarrow> Inl e
                 | Inr _ \<Rightarrow>
                    (case ios_fs_fat_traverse (st_fat store) (unat (p_first_cluster primary)) chain_capacity of
                       Inl e \<Rightarrow> Inl e
                     | Inr _ \<Rightarrow> Inr file))
           else Inr file))"

text \<open>A closed file is cleared.\<close>

definition closed_file :: ios_fs_file where
  "closed_file = \<lparr>fi_primary = \<lparr>p_name = replicate 11 0, p_attributes = 0, p_first_cluster = 0, p_file_size = 0\<rparr>,
     fi_position = 0, fi_chain_capacity = 0, fi_scratch_size = 0, fi_writable = False, fi_open = False\<rparr>"

definition ios_fs_file_close :: "ios_fs_file \<Rightarrow> ios_fs_file \<times> unit res" where
  "ios_fs_file_close file = (if \<not> fi_open file then (file, Inl IOS_E_INVALID_STATE) else (closed_file, Inr ()))"

text \<open>
  The loop of a read: the context, the position, the bytes transferred so far and the result. Every
  round transfers at least one byte, so the fuel is the number of bytes to transfer.
\<close>

primrec read_loop ::
  "nat \<Rightarrow> 'c ios_fs_cluster_operations \<Rightarrow> u32 \<Rightarrow> nat list \<Rightarrow> 'c \<Rightarrow> u32 \<Rightarrow> nat \<Rightarrow> bytes
    \<Rightarrow> 'c \<times> u32 \<times> bytes \<times> unit res" where
  "read_loop 0 operations cluster_bytes chain context position remaining output = (context, position, output, Inr ())"
| "read_loop (Suc fuel) operations cluster_bytes chain context position remaining output =
     (if remaining = 0 then (context, position, output, Inr ())
      else let chain_index = unat (position div cluster_bytes);
               cluster_offset = unat (position mod cluster_bytes);
               chunk = min (unat cluster_bytes - cluster_offset) remaining
      in if chain_index \<ge> length chain then (context, position, output, Inl IOS_E_CORRUPT)
      else case co_read operations context (chain ! chain_index) of
          (context, Inl e) \<Rightarrow> (context, position, output, Inl e)
        | (context, Inr scratch) \<Rightarrow>
            read_loop fuel operations cluster_bytes chain context (position + of_nat chunk) (remaining - chunk)
              (output @ field_at cluster_offset chunk scratch))"

definition ios_fs_file_read ::
  "ios_fs_file \<Rightarrow> 'c ios_fs_file_store \<Rightarrow> nat \<Rightarrow> ios_fs_file \<times> 'c ios_fs_file_store \<times> bytes \<times> unit res" where
  "ios_fs_file_read file store count =
     (if \<not> fi_open file then (file, store, [], Inl IOS_E_INVALID_ARGUMENT)
      else if count = 0 \<or> fi_position file = p_file_size (fi_primary file) then (file, store, [], Inr ())
      else let remaining = min count (unat (p_file_size (fi_primary file) - fi_position file))
      in case load_chain file store of
          Inl e \<Rightarrow> (file, store, [], Inl e)
        | Inr chain \<Rightarrow>
           (case read_loop remaining (st_operations store) (st_cluster_bytes store) chain (st_io_context store)
                   (fi_position file) remaining [] of
              (context, position, output, status) \<Rightarrow>
                (file\<lparr>fi_position := position\<rparr>, store\<lparr>st_io_context := context\<rparr>, output, status)))"

text \<open>The loop of a write: the context, the position, the number of bytes transferred and the result.\<close>

primrec write_loop ::
  "nat \<Rightarrow> 'c ios_fs_cluster_operations \<Rightarrow> u32 \<Rightarrow> nat list \<Rightarrow> 'c \<Rightarrow> u32 \<Rightarrow> bytes \<Rightarrow> nat
    \<Rightarrow> 'c \<times> u32 \<times> nat \<times> unit res" where
  "write_loop 0 operations cluster_bytes chain context position input transferred = (context, position, transferred, Inr ())"
| "write_loop (Suc fuel) operations cluster_bytes chain context position input transferred =
     (if length input = 0 then (context, position, transferred, Inr ())
      else let chain_index = unat (position div cluster_bytes);
               cluster_offset = unat (position mod cluster_bytes);
               chunk = min (unat cluster_bytes - cluster_offset) (length input)
      in if chain_index \<ge> length chain then (context, position, transferred, Inl IOS_E_CORRUPT)
      else case co_read operations context (chain ! chain_index) of
          (context, Inl e) \<Rightarrow> (context, position, transferred, Inl e)
        | (context, Inr scratch) \<Rightarrow>
           (case co_write operations context (chain ! chain_index)
                   (overwrite scratch cluster_offset (take chunk input)) of
              (context, Inl e) \<Rightarrow> (context, position, transferred, Inl e)
            | (context, Inr _) \<Rightarrow>
                write_loop fuel operations cluster_bytes chain context (position + of_nat chunk) (drop chunk input)
                  (transferred + chunk)))"

definition ios_fs_file_write ::
  "ios_fs_file \<Rightarrow> 'c ios_fs_file_store \<Rightarrow> bytes \<Rightarrow> ios_fs_file \<times> 'c ios_fs_file_store \<times> nat \<times> unit res" where
  "ios_fs_file_write file store input =
     (if \<not> fi_open file then (file, store, 0, Inl IOS_E_INVALID_ARGUMENT)
      else if \<not> fi_writable file \<or> \<not> st_writable store then (file, store, 0, Inl IOS_E_READ_ONLY)
      else if fi_position file > p_file_size (fi_primary file) then (file, store, 0, Inl IOS_E_INVALID_ARGUMENT)
      else if length input = 0 then (file, store, 0, Inr ())
      else if length input > UINT32_MAX - unat (fi_position file) then (file, store, 0, Inl IOS_E_OVERFLOW)
      else let end_position = unat (fi_position file) + length input;
               required_clusters = (end_position + unat (st_cluster_bytes store) - 1) div unat (st_cluster_bytes store)
      in case ensure_clusters file store required_clusters of
          (file, store, Inl e) \<Rightarrow> (file, store, 0, Inl e)
        | (file, store, Inr chain) \<Rightarrow>
           (case write_loop (length input) (st_operations store) (st_cluster_bytes store) chain (st_io_context store)
                   (fi_position file) input 0 of
              (context, position, transferred, Inl e) \<Rightarrow>
                (file\<lparr>fi_position := position\<rparr>, store\<lparr>st_io_context := context\<rparr>, transferred, Inl e)
            | (context, position, transferred, Inr _) \<Rightarrow>
                (file\<lparr>fi_position := position,
                      fi_primary := (if position > p_file_size (fi_primary file)
                        then (fi_primary file)\<lparr>p_file_size := position\<rparr> else fi_primary file)\<rparr>,
                 store\<lparr>st_io_context := context\<rparr>, transferred, Inr ())))"

abbreviation INT64_MAX :: int where "INT64_MAX \<equiv> 9223372036854775807"
abbreviation INT64_MIN :: int where "INT64_MIN \<equiv> - 9223372036854775808"

text \<open>Offsets are signed 64-bit numbers; the guard makes the addition exact.\<close>

definition ios_fs_file_seek :: "ios_fs_file \<Rightarrow> ios_fs_seek_origin \<Rightarrow> int \<Rightarrow> ios_fs_file \<times> u32 res" where
  "ios_fs_file_seek file origin offset =
     (if \<not> fi_open file then (file, Inl IOS_E_INVALID_ARGUMENT)
      else let base = (case origin of
               IOS_FS_SEEK_SET \<Rightarrow> 0
             | IOS_FS_SEEK_CURRENT \<Rightarrow> int (unat (fi_position file))
             | IOS_FS_SEEK_END \<Rightarrow> int (unat (p_file_size (fi_primary file))))
      in if (offset > 0 \<and> base > INT64_MAX - offset) \<or> (offset < 0 \<and> base < INT64_MIN - offset)
         then (file, Inl IOS_E_OVERFLOW)
      else let next_position = base + offset
      in if next_position < 0 \<or> next_position > int UINT32_MAX then (file, Inl IOS_E_OUT_OF_RANGE)
      else (file\<lparr>fi_position := of_int next_position\<rparr>, Inr (of_int next_position)))"

definition ios_fs_file_append ::
  "ios_fs_file \<Rightarrow> 'c ios_fs_file_store \<Rightarrow> bytes \<Rightarrow> ios_fs_file \<times> 'c ios_fs_file_store \<times> nat \<times> unit res" where
  "ios_fs_file_append file store input =
     (case ios_fs_file_seek file IOS_FS_SEEK_END 0 of
        (file, Inl e) \<Rightarrow> (file, store, 0, Inl e)
      | (file, Inr _) \<Rightarrow> ios_fs_file_write file store input)"

definition ios_fs_file_metadata :: "ios_fs_file \<Rightarrow> ios_fs_primary res" where
  "ios_fs_file_metadata file = (if \<not> fi_open file then Inl IOS_E_INVALID_ARGUMENT else Inr (fi_primary file))"

section \<open>A chain as one byte sequence\<close>

definition flat :: "(nat \<Rightarrow> bytes) \<Rightarrow> nat list \<Rightarrow> bytes" where
  "flat d cs = concat (map d cs)"

lemma flat_simps [simp]: "flat d [] = []" "flat d (c # cs) = d c @ flat d cs" "flat d (xs @ ys) = flat d xs @ flat d ys"
  by (simp_all add: flat_def)

lemma flat_cong: "(\<And>c. c \<in> set cs \<Longrightarrow> d c = d' c) \<Longrightarrow> flat d cs = flat d' cs"
  unfolding flat_def by (metis map_cong)

lemma length_flat:
  assumes "\<And>c. length (d c) = n"
  shows "length (flat d cs) = length cs * n"
  using assms by (induction cs) simp_all

lemma flat_split:
  assumes "\<And>c. length (d c) = n" and "i < length cs"
  shows "flat d cs = flat d (take i cs) @ d (cs ! i) @ flat d (drop (Suc i) cs)"
    and "length (flat d (take i cs)) = i * n"
proof -
  have "flat d cs = flat d (take i cs @ cs ! i # drop (Suc i) cs)" using assms(2) by (simp add: id_take_nth_drop [symmetric])
  then show "flat d cs = flat d (take i cs) @ d (cs ! i) @ flat d (drop (Suc i) cs)" by simp
  show "length (flat d (take i cs)) = i * n" using assms by (simp add: length_flat)
qed

text \<open>A piece of one cluster is a piece of the sequence.\<close>

lemma flat_field:
  assumes "\<And>c. length (d c) = n" and "i < length cs" and "off + k \<le> n"
  shows "field_at (i * n + off) k (flat d cs) = field_at off k (d (cs ! i))"
  using flat_split [OF assms(1,2)] assms(1,3) by (simp add: field_at_def)

text \<open>Writing a piece of one cluster writes a piece of the sequence.\<close>

lemma flat_overwrite:
  assumes "\<And>c. length (d c) = n" and "i < length cs" and "off + length src \<le> n" and "distinct cs"
  shows "flat (d(cs ! i := overwrite (d (cs ! i)) off src)) cs = overwrite (flat d cs) (i * n + off) src"
proof -
  let ?d = "d(cs ! i := overwrite (d (cs ! i)) off src)"
  have len: "length (?d c) = n" for c using assms(1,3) by simp
  have "c \<noteq> cs ! i" if "c \<in> set (take i cs)" for c
    using that assms(2,4) by (auto simp: in_set_conv_nth nth_eq_iff_index_eq)
  then have a: "flat ?d (take i cs) = flat d (take i cs)" by (intro flat_cong) auto
  have "c \<noteq> cs ! i" if "c \<in> set (drop (Suc i) cs)" for c
    using that assms(2,4) by (auto simp: in_set_conv_nth nth_eq_iff_index_eq)
  then have b: "flat ?d (drop (Suc i) cs) = flat d (drop (Suc i) cs)" by (intro flat_cong) auto
  have "flat ?d cs = flat d (take i cs) @ overwrite (d (cs ! i)) off src @ flat d (drop (Suc i) cs)"
    using flat_split(1) [of ?d n i cs, OF len assms(2)] a b by simp
  also have "\<dots> = overwrite (flat d (take i cs) @ d (cs ! i) @ flat d (drop (Suc i) cs)) (i * n + off) src"
    using flat_split(2) [OF assms(1,2)] assms(1,3) by (simp add: overwrite_def)
  finally show ?thesis using flat_split(1) [OF assms(1,2)] by simp
qed

text \<open>Two adjacent pieces.\<close>

lemma field_at_append:
  "field_at p k bs @ field_at (p + k) j bs = field_at p (k + j) bs"
  by (simp only: field_at_def take_add drop_drop add.commute [of p k])

lemma overwrite_append:
  assumes "p + length xs + length ys \<le> length bs"
  shows "overwrite (overwrite bs p xs) (p + length xs) ys = overwrite bs p (xs @ ys)"
  using assms by (simp add: overwrite_def min_absorb2 ac_simps)

section \<open>Cluster devices\<close>

text \<open>The errors that operations can return.\<close>

definition device_fails :: "'c ios_fs_cluster_operations \<Rightarrow> ios_error \<Rightarrow> bool" where
  "device_fails operations e \<longleftrightarrow> (\<exists>c n c'. co_read operations c n = (c', Inl e))
     \<or> (\<exists>c n bs c'. co_write operations c n bs = (c', Inl e)) \<or> (\<exists>c n c'. co_zero operations c n = (c', Inl e))"

text \<open>
  What a file relies on: a failed operation affects no other cluster, a read returns the bytes of its
  cluster, a write and a clear that succeed have replaced them.
\<close>

locale cluster_device =
  fixes operations :: "'c ios_fs_cluster_operations" and ok :: "'c \<Rightarrow> bool" and disk :: "'c \<Rightarrow> nat \<Rightarrow> bytes"
  assumes disk_length: "ok c \<Longrightarrow> length (disk c n) = IOS_FS_CLUSTER_BYTES"
    and read_law: "ok c \<Longrightarrow> co_read operations c n = (c', r) \<Longrightarrow>
      ok c' \<and> disk c' = disk c \<and> (\<forall>bs. r = Inr bs \<longrightarrow> bs = disk c n)"
    and write_law: "ok c \<Longrightarrow> length bs = IOS_FS_CLUSTER_BYTES \<Longrightarrow> co_write operations c n bs = (c', w) \<Longrightarrow>
      ok c' \<and> (\<forall>m. m \<noteq> n \<longrightarrow> disk c' m = disk c m) \<and> (w = Inr () \<longrightarrow> disk c' n = bs)"
    and zero_law: "ok c \<Longrightarrow> co_zero operations c n = (c', w) \<Longrightarrow>
      ok c' \<and> (\<forall>m. m \<noteq> n \<longrightarrow> disk c' m = disk c m) \<and> (w = Inr () \<longrightarrow> disk c' n = replicate IOS_FS_CLUSTER_BYTES 0)"
begin

lemma zero_loop_effect:
  assumes "zero_loop operations c cs = (c', r)" and "ok c"
  shows "ok c' \<and> (\<forall>m. m \<notin> set cs \<longrightarrow> disk c' m = disk c m) \<and> (\<forall>e. r = Inl e \<longrightarrow> device_fails operations e)
    \<and> (r = Inr () \<longrightarrow> (\<forall>m \<in> set cs. disk c' m = replicate IOS_FS_CLUSTER_BYTES 0))"
  using assms
proof (induction cs arbitrary: c)
  case (Cons n cs)
  obtain c1 w where z: "co_zero operations c n = (c1, w)" by fastforce
  note law = zero_law [OF Cons.prems(2) z]
  show ?case
  proof (cases w)
    case (Inl e)
    then show ?thesis using Cons.prems z law unfolding device_fails_def by auto
  next
    case (Inr u)
    then have run: "zero_loop operations c1 cs = (c', r)" using Cons.prems(1) z by simp
    have "w = Inr ()" using Inr by simp
    then have zero: "disk c1 n = replicate IOS_FS_CLUSTER_BYTES 0" using law by blast
    have ih: "ok c'" "\<forall>m. m \<notin> set cs \<longrightarrow> disk c' m = disk c1 m" "\<forall>e. r = Inl e \<longrightarrow> device_fails operations e"
      "r = Inr () \<longrightarrow> (\<forall>m \<in> set cs. disk c' m = replicate IOS_FS_CLUSTER_BYTES 0)"
      using Cons.IH [OF run] law by blast+
    have "disk c' m = disk c m" if "m \<notin> set (n # cs)" for m using that ih(2) law by simp
    moreover have "disk c' m = replicate IOS_FS_CLUSTER_BYTES 0" if "r = Inr ()" "m \<in> set (n # cs)" for m
      using that ih(2,4) zero by (cases "m \<in> set cs") auto
    ultimately show ?thesis using ih(1,3) by blast
  qed
qed auto

end

text \<open>The cluster and the offset of a position, without wrap-around.\<close>

lemma position_split:
  assumes "unat cb = IOS_FS_CLUSTER_BYTES"
  shows "unat (position div cb) = unat (position :: u32) div IOS_FS_CLUSTER_BYTES"
    and "unat (position mod cb) = unat position mod IOS_FS_CLUSTER_BYTES"
  using assms by (simp_all add: unat_div unat_mod)

lemma unat_u32_max: "unat (x :: u32) \<le> UINT32_MAX"
  using unsigned_less [of x, where 'a = nat] by simp

lemma uint_u32_max: "uint (x :: u32) \<le> 4294967295"
  using unsigned_less [of x, where 'a = int] by simp

lemma position_add:
  "unat (p :: u32) + k \<le> UINT32_MAX \<Longrightarrow> unat (p + of_nat k) = unat p + k"
  by (simp add: unat_word_ariths unat_of_nat)

text \<open>The piece of the current cluster that a loop handles next.\<close>

lemma position_chunk:
  assumes "0 < n" and "p + n \<le> m * IOS_FS_CLUSTER_BYTES"
  defines "k \<equiv> min (IOS_FS_CLUSTER_BYTES - p mod IOS_FS_CLUSTER_BYTES) n"
  shows "p div IOS_FS_CLUSTER_BYTES < m" and "0 < k" and "k \<le> n" and "p mod IOS_FS_CLUSTER_BYTES + k \<le> IOS_FS_CLUSTER_BYTES"
    and "p = p div IOS_FS_CLUSTER_BYTES * IOS_FS_CLUSTER_BYTES + p mod IOS_FS_CLUSTER_BYTES"
proof -
  have "p < m * IOS_FS_CLUSTER_BYTES" using assms(1,2) by linarith
  then show "p div IOS_FS_CLUSTER_BYTES < m" by (rule less_mult_imp_div_less)
  have "p mod IOS_FS_CLUSTER_BYTES < IOS_FS_CLUSTER_BYTES" by simp
  then show "0 < k" "p mod IOS_FS_CLUSTER_BYTES + k \<le> IOS_FS_CLUSTER_BYTES" using assms(1) unfolding k_def by linarith+
  show "k \<le> n" by (simp add: k_def)
qed simp

context cluster_device
begin

lemma read_loop_effect:
  assumes "read_loop fuel operations cb cs c p n out = (c', p', out', r)" and "ok c" and cb: "unat cb = IOS_FS_CLUSTER_BYTES"
    and "unat p + n \<le> length cs * IOS_FS_CLUSTER_BYTES" and "unat p + n \<le> UINT32_MAX" and "n \<le> fuel"
  shows "\<exists>k \<le> n. ok c' \<and> disk c' = disk c \<and> unat p' = unat p + k \<and> out' = out @ field_at (unat p) k (flat (disk c) cs)
    \<and> (r = Inr () \<longrightarrow> k = n) \<and> (\<forall>e. r = Inl e \<longrightarrow> device_fails operations e)"
  using assms(1,2,4-6)
proof (induction fuel arbitrary: c p n out)
  case 0
  then show ?case by (auto simp: field_at_def)
next
  case (Suc fuel)
  show ?case
  proof (cases "n = 0")
    case True
    then show ?thesis using Suc.prems by (auto simp: field_at_def)
  next
    case False
    let ?i = "unat p div IOS_FS_CLUSTER_BYTES" and ?o = "unat p mod IOS_FS_CLUSTER_BYTES"
    define k where "k = min (IOS_FS_CLUSTER_BYTES - ?o) n"
    note chunk = position_chunk [OF False [unfolded neq0_conv] Suc.prems(3), folded k_def]
    obtain c1 rd where rd: "co_read operations c (cs ! ?i) = (c1, rd)" by fastforce
    note law = read_law [OF Suc.prems(2) rd]
    have i: "\<not> length cs \<le> ?i" using chunk(1) by simp
    show ?thesis
    proof (cases rd)
      case (Inl e)
      then have "c' = c1" "p' = p" "out' = out" "r = Inl e"
        using Suc.prems(1) False rd i by (simp_all add: position_split [OF cb] cb Let_def)
      moreover have "device_fails operations e" using rd Inl unfolding device_fails_def by blast
      ultimately show ?thesis using law by (intro exI [of _ 0]) (simp add: field_at_def)
    next
      case (Inr scratch)
      have scratch: "scratch = disk c (cs ! ?i)" using law Inr by blast
      have q: "unat (p + of_nat k) = unat p + k" using chunk(3) Suc.prems(4) by (intro position_add) linarith
      have run: "read_loop fuel operations cb cs c1 (p + of_nat k) (n - k) (out @ field_at ?o k scratch) = (c', p', out', r)"
        using Suc.prems(1) False rd Inr i by (simp add: position_split [OF cb] cb Let_def k_def)
      have piece: "field_at ?o k scratch = field_at (unat p) k (flat (disk c) cs)"
        using flat_field [of "disk c" IOS_FS_CLUSTER_BYTES ?i cs ?o k] disk_length [OF Suc.prems(2)] chunk(1,4,5) scratch by simp
      have rest: "unat p + k + (n - k) \<le> length cs * IOS_FS_CLUSTER_BYTES" "unat p + k + (n - k) \<le> UINT32_MAX" "n - k \<le> fuel"
        using chunk(2,3) Suc.prems(3-5) by linarith+
      obtain j where j: "j \<le> n - k" "ok c'" "disk c' = disk c1" "unat p' = unat p + k + j"
        "out' = (out @ field_at ?o k scratch) @ field_at (unat p + k) j (flat (disk c1) cs)"
        "r = Inr () \<longrightarrow> j = n - k" "\<forall>e. r = Inl e \<longrightarrow> device_fails operations e"
        using Suc.IH [OF run] law rest(1-3) unfolding q by blast
      have "k + j \<le> n" "r = Inr () \<longrightarrow> k + j = n" using j(1,6) chunk(3) by linarith+
      moreover have "out' = out @ field_at (unat p) (k + j) (flat (disk c) cs)"
        using j(5) law piece field_at_append [of "unat p" k "flat (disk c) cs" j] by simp
      ultimately show ?thesis using j(2-4,7) law by (intro exI [of _ "k + j"]) simp
    qed
  qed
qed

lemma write_round:
  assumes "ok c" and rd: "co_read operations c n = (c1, Inr scratch)" and "off + length src \<le> IOS_FS_CLUSTER_BYTES"
    and wr: "co_write operations c1 n (overwrite scratch off src) = (c2, w)"
  shows "ok c2 \<and> (\<forall>m. m \<noteq> n \<longrightarrow> disk c2 m = disk c m) \<and> (w = Inr () \<longrightarrow> disk c2 = (disk c)(n := overwrite (disk c n) off src))"
proof -
  have r: "ok c1" "disk c1 = disk c" "scratch = disk c n" using read_law [OF assms(1) rd] by blast+
  have "length (overwrite scratch off src) = IOS_FS_CLUSTER_BYTES" using assms(1,3) r(3) disk_length by simp
  then have "ok c2" "\<forall>m. m \<noteq> n \<longrightarrow> disk c2 m = disk c m" "w = Inr () \<longrightarrow> disk c2 n = overwrite (disk c n) off src"
    using write_law [OF r(1) _ wr] r(2,3) by auto
  then show ?thesis by (auto simp: fun_eq_iff)
qed

lemma write_loop_effect:
  assumes "write_loop fuel operations cb cs c p input t = (c', p', t', r)" and "ok c" and cb: "unat cb = IOS_FS_CLUSTER_BYTES"
    and "unat p + length input \<le> length cs * IOS_FS_CLUSTER_BYTES" and "unat p + length input \<le> UINT32_MAX"
    and "length input \<le> fuel" and dist: "distinct cs"
  shows "\<exists>k \<le> length input. ok c' \<and> unat p' = unat p + k \<and> t' = t + k \<and> (\<forall>m. m \<notin> set cs \<longrightarrow> disk c' m = disk c m)
    \<and> (r = Inr () \<longrightarrow> k = length input \<and> flat (disk c') cs = overwrite (flat (disk c) cs) (unat p) input)
    \<and> (\<forall>e. r = Inl e \<longrightarrow> device_fails operations e)"
  using assms(1,2,4-6)
proof (induction fuel arbitrary: c p input t)
  case 0
  then show ?case by (auto simp: overwrite_def)
next
  case (Suc fuel)
  show ?case
  proof (cases "length input = 0")
    case True
    then show ?thesis using Suc.prems by (auto simp: overwrite_def)
  next
    case False
    let ?i = "unat p div IOS_FS_CLUSTER_BYTES" and ?o = "unat p mod IOS_FS_CLUSTER_BYTES"
    define k where "k = min (IOS_FS_CLUSTER_BYTES - ?o) (length input)"
    note chunk = position_chunk [OF False [unfolded neq0_conv] Suc.prems(3), folded k_def]
    have i: "\<not> length cs \<le> ?i" "cs ! ?i \<in> set cs" using chunk(1) by simp_all
    obtain c1 rd where rd: "co_read operations c (cs ! ?i) = (c1, rd)" by fastforce
    note rlaw = read_law [OF Suc.prems(2) rd]
    show ?thesis
    proof (cases rd)
      case (Inl e)
      then have "c' = c1" "p' = p" "t' = t" "r = Inl e"
        using Suc.prems(1) False rd i by (simp_all add: position_split [OF cb] cb Let_def)
      moreover have "device_fails operations e" using rd Inl unfolding device_fails_def by blast
      ultimately show ?thesis using rlaw by (intro exI [of _ 0]) simp
    next
      case (Inr scratch)
      have len: "length (disk c n) = IOS_FS_CLUSTER_BYTES" for n using disk_length Suc.prems(2) .
      have piece: "length (take k input) = k" using chunk(3) by simp
      have room: "?o + length (take k input) \<le> IOS_FS_CLUSTER_BYTES" unfolding piece by (rule chunk(4))
      obtain c2 wr where wr: "co_write operations c1 (cs ! ?i) (overwrite scratch ?o (take k input)) = (c2, wr)" by fastforce
      note round = write_round [OF Suc.prems(2) rd [unfolded Inr] room wr]
      have out2: "\<forall>m. m \<notin> set cs \<longrightarrow> disk c2 m = disk c m" using round i(2) by metis
      show ?thesis
      proof (cases wr)
        case (Inl e)
        then have "c' = c2" "p' = p" "t' = t" "r = Inl e"
          using Suc.prems(1) False rd Inr wr i by (simp_all add: position_split [OF cb] cb Let_def k_def)
        moreover have "device_fails operations e" using wr Inl unfolding device_fails_def by blast
        ultimately show ?thesis using round out2 by (intro exI [of _ 0]) simp
      next
        case wrote: (Inr u)
        have "wr = Inr ()" using wrote by simp
        then have flat2: "flat (disk c2) cs = overwrite (flat (disk c) cs) (unat p) (take k input)"
          using round flat_overwrite [of "disk c", OF len chunk(1) room dist] chunk(5) by simp
        have q: "unat (p + of_nat k) = unat p + k" using chunk(3) Suc.prems(4) by (intro position_add) linarith
        have run: "write_loop fuel operations cb cs c2 (p + of_nat k) (drop k input) (t + k) = (c', p', t', r)"
          using Suc.prems(1) False rd Inr wr wrote i by (simp add: position_split [OF cb] cb Let_def k_def)
        have rest: "unat p + k + length (drop k input) \<le> length cs * IOS_FS_CLUSTER_BYTES"
          "unat p + k + length (drop k input) \<le> UINT32_MAX" "length (drop k input) \<le> fuel"
          using chunk(2,3) Suc.prems(3-5) unfolding length_drop by linarith+
        obtain j where j: "j \<le> length (drop k input)" "ok c'" "unat p' = unat p + k + j" "t' = t + k + j"
          "\<forall>m. m \<notin> set cs \<longrightarrow> disk c' m = disk c2 m"
          "r = Inr () \<longrightarrow> j = length (drop k input) \<and> flat (disk c') cs = overwrite (flat (disk c2) cs) (unat p + k) (drop k input)"
          "\<forall>e. r = Inl e \<longrightarrow> device_fails operations e"
          using Suc.IH [OF run] round rest(1-3) unfolding q by blast
        have "k + j \<le> length input" "r = Inr () \<longrightarrow> k + j = length input" using j(1,6) chunk(3) unfolding length_drop by linarith+
        moreover have "overwrite (flat (disk c2) cs) (unat p + k) (drop k input) = overwrite (flat (disk c) cs) (unat p) input"
          using overwrite_append [of "unat p" "take k input" "drop k input" "flat (disk c) cs"] chunk(3) Suc.prems(3)
          by (simp add: flat2 piece length_flat [OF len])
        moreover have "\<forall>m. m \<notin> set cs \<longrightarrow> disk c' m = disk c m" using j(5) out2 by simp
        ultimately show ?thesis using j(2-4,6,7) by (intro exI [of _ "k + j"]) simp
      qed
    qed
  qed
qed

end

section \<open>Well-formed open files\<close>

text \<open>\<open>cs\<close> is the chain of the file and can hold its bytes.\<close>

definition file_ok :: "ios_fs_file \<Rightarrow> 'c ios_fs_file_store \<Rightarrow> nat list \<Rightarrow> bool" where
  "file_ok file store cs \<longleftrightarrow> fi_open file \<and> unat (st_cluster_bytes store) = IOS_FS_CLUSTER_BYTES
     \<and> valid_entry_count (length (st_fat store)) \<and> length cs \<le> fi_chain_capacity file
     \<and> unat (p_file_size (fi_primary file)) \<le> length cs * IOS_FS_CLUSTER_BYTES
     \<and> (if p_file_size (fi_primary file) = 0 then p_first_cluster (fi_primary file) = 0 \<and> cs = []
        else fat_chain (st_fat store) (unat (p_first_cluster (fi_primary file))) cs)"

text \<open>The bytes a file denotes, over the clusters \<open>d\<close> of the device.\<close>

definition file_content :: "(nat \<Rightarrow> bytes) \<Rightarrow> ios_fs_file \<Rightarrow> nat list \<Rightarrow> bytes" where
  "file_content d file cs = take (unat (p_file_size (fi_primary file))) (flat d cs)"

lemma load_chain_ok: "file_ok file store cs \<Longrightarrow> load_chain file store = Inr cs"
  by (auto simp: file_ok_def load_chain_def traverse_iff_chain split: if_splits)

lemma file_ok_distinct: "file_ok file store cs \<Longrightarrow> distinct cs"
  using fat_chain_distinct by (auto simp: file_ok_def split: if_splits)

text \<open>Linking a second chain behind a first.\<close>

lemma fat_chain_extend:
  assumes "fat_chain fat s cs" and "length fat' = length fat" and "\<And>d. d \<in> set (butlast cs) \<Longrightarrow> fat' ! d = fat ! d"
    and "fat' ! last cs = of_nat t" and "valid_cluster t (length fat)" and "fat_chain fat' t ds"
  shows "fat_chain fat' s (cs @ ds)"
  using assms
proof (induction rule: fat_chain.induct)
  case (fat_chain_last c)
  then show ?case
    using classify_data_cluster [of t "length fat"] by (auto simp: fat_next_def intro!: fat_chain.fat_chain_link)
next
  case (fat_chain_link c cs)
  have ne: "cs \<noteq> []" using fat_chain_link.hyps(3) by (auto elim: fat_chain.cases)
  have c: "fat' ! c = fat ! c" using fat_chain_link.prems(2) ne by simp
  have "fat_chain fat' (fat_next fat c) (cs @ ds)"
    using ne by (intro fat_chain_link.IH fat_chain_link.prems) (use fat_chain_link.prems ne in auto)
  then show ?case using fat_chain_link.hyps(1,2) fat_chain_link.prems(1) c
    by (auto simp: fat_next_def intro!: fat_chain.fat_chain_link)
qed

lemma fat_chain_link_new:
  assumes "fat_chain fat s cs" and "fat_chain fat t ds" and "set cs \<inter> set ds = {}"
  shows "fat_chain (fat[last cs := of_nat t]) s (cs @ ds)"
proof -
  have ne: "cs \<noteq> []" using assms(1) by (auto elim: fat_chain.cases)
  have l: "last cs < length fat" "last cs \<notin> set ds" "last cs \<notin> set (butlast cs)"
    using chain_lt [OF assms(1)] fat_chain_distinct [OF assms(1)] assms(3) ne by (cases cs rule: rev_cases; simp)+
  have t: "valid_cluster t (length fat)"
    using assms(2) by (auto elim: fat_chain.cases)
  show ?thesis
  proof (rule fat_chain_extend [OF assms(1)])
    show "fat[last cs := of_nat t] ! d = fat ! d" if "d \<in> set (butlast cs)" for d
      using that l(3) by (cases "d = last cs") auto
    have "fat[last cs := of_nat t] ! d = fat ! d" if "d \<in> set ds" for d using that l(2) by (cases "d = last cs") auto
    then show "fat_chain (fat[last cs := of_nat t]) t ds" by (intro fat_chain_cong [OF assms(2)]) auto
  qed (use l t in simp_all)
qed

text \<open>Chains apart from \<open>cs\<close> are left as they are, in the table and on the device.\<close>

definition keeps_others :: "nat list \<Rightarrow> u32 list \<Rightarrow> (nat \<Rightarrow> bytes) \<Rightarrow> u32 list \<Rightarrow> (nat \<Rightarrow> bytes) \<Rightarrow> bool" where
  "keeps_others cs fat d fat' d' \<longleftrightarrow> (\<forall>s xs. fat_chain fat s xs \<and> set xs \<inter> set cs = {} \<longrightarrow>
     fat_chain fat' s xs \<and> (\<forall>m \<in> set xs. d' m = d m))"

text \<open>The table after growing a chain by newly allocated clusters.\<close>

lemma grown_chain:
  assumes alloc: "ios_fs_fat_allocate fat k cap = Inr (fat1, new)" and "cs = [] \<or> fat_chain fat s cs"
  defines "fat2 \<equiv> if cs = [] then fat1 else fat1[last cs := of_nat (hd new)]"
  shows "fat_chain fat2 (if cs = [] then hd new else s) (cs @ new)" and "length fat2 = length fat"
    and "fat_chain fat t xs \<Longrightarrow> set xs \<inter> set cs = {} \<Longrightarrow> fat_chain fat2 t xs \<and> set xs \<inter> set (cs @ new) = {}"
proof -
  note facts = allocate_facts [OF alloc]
  show "length fat2 = length fat" using facts(7) by (simp add: fat2_def)
  show "fat_chain fat2 (if cs = [] then hd new else s) (cs @ new)"
  proof (cases "cs = []")
    case False
    then have c: "fat_chain fat s cs" using assms(2) by simp
    show ?thesis using fat_chain_link_new [of fat1 s cs "hd new" new] allocate_disjoint_chain [OF alloc c] facts(9) False
      by (simp add: fat2_def)
  qed (use facts(9) in \<open>simp add: fat2_def\<close>)
  assume xs: "fat_chain fat t xs" "set xs \<inter> set cs = {}"
  note x1 = allocate_disjoint_chain [OF alloc xs(1)]
  have "fat2 ! d = fat1 ! d" if "d \<in> set xs" for d
    using that xs(2) by (cases "d = last cs") (auto simp: fat2_def)
  then have "fat_chain fat2 t xs" using facts(7) by (intro fat_chain_cong [OF x1(2)]) (simp_all add: fat2_def)
  then show "fat_chain fat2 t xs \<and> set xs \<inter> set (cs @ new) = {}" using xs(2) x1(1) by auto
qed

lemma unat_first_cluster: "valid_cluster c n \<Longrightarrow> unat (of_nat c :: u32) = c"
  by (simp add: valid_cluster_def unat_of_nat)

text \<open>The four ways in which the chain is made long enough, or not.\<close>

lemma release_allocated:
  assumes "ios_fs_fat_allocate fat k cap = Inr (fat1, new)"
  shows "release_clusters fat1 new = fat"
proof (rule nth_equalityI)
  note facts = allocate_facts [OF assms]
  show "length (release_clusters fat1 new) = length fat" using facts(7) by simp
  show "release_clusters fat1 new ! i = fat ! i" for i
    using facts(6-8) by (subst nth_release) (auto simp: valid_cluster_def)
qed

lemma ensure_cases:
  assumes fok: "file_ok file store cs" and run: "ensure_clusters file store required = (file', store', r)"
  obtains "required \<le> length cs" and "file' = file" and "store' = store" and "r = Inr cs"
  | "file' = file" and "store' = store" and "r = Inl IOS_E_NO_SPACE"
  | fat new ctx e where "ios_fs_fat_allocate (st_fat store) (required - length cs) (fi_chain_capacity file - length cs) = Inr (fat, new)"
      and "zero_loop (st_operations store) (st_io_context store) new = (ctx, Inl e)" and "file' = file"
      and "store' = store\<lparr>st_io_context := ctx\<rparr>" and "r = Inl e"
  | fat new ctx where "ios_fs_fat_allocate (st_fat store) (required - length cs) (fi_chain_capacity file - length cs) = Inr (fat, new)"
      and "zero_loop (st_operations store) (st_io_context store) new = (ctx, Inr ())"
      and "length (cs @ new) = required" and "required \<le> fi_chain_capacity file"
      and "file' = file\<lparr>fi_primary := (fi_primary file)\<lparr>p_first_cluster :=
             (if cs = [] then of_nat (hd new) else p_first_cluster (fi_primary file))\<rparr>\<rparr>"
      and "store' = store\<lparr>st_fat := (if cs = [] then fat else fat[last cs := of_nat (hd new)]), st_io_context := ctx\<rparr>"
      and "r = Inr (cs @ new)"
proof -
  note l = load_chain_ok [OF fok]
  consider "required \<le> length cs" | "\<not> required \<le> length cs" "required > fi_chain_capacity file"
    | "\<not> required \<le> length cs" "\<not> required > fi_chain_capacity file" by blast
  then show thesis
  proof cases
    case 1
    then show thesis using run l by (intro that(1)) (simp_all add: ensure_clusters_def)
  next
    case 2
    then show thesis using run l by (intro that(2)) (simp_all add: ensure_clusters_def)
  next
    case 3
    show thesis
    proof (cases "ios_fs_fat_allocate (st_fat store) (required - length cs) (fi_chain_capacity file - length cs)")
      case (Inl e)
      have "valid_entry_count (length (st_fat store))" using fok by (simp add: file_ok_def)
      then have "e = IOS_E_NO_SPACE" using Inl 3 by (auto simp: allocate_eq split: if_splits)
      then show thesis using run l Inl 3 by (intro that(2)) (simp_all add: ensure_clusters_def)
    next
      case (Inr p)
      obtain fat new where p: "p = (fat, new)" by fastforce
      note a = Inr [unfolded p]
      obtain ctx z where z: "zero_loop (st_operations store) (st_io_context store) new = (ctx, z)" by fastforce
      show thesis
      proof (cases z)
        case (Inl e)
        then show thesis using run l a z 3 release_allocated [OF a]
          by (intro that(3) [of fat new ctx e]) (simp_all add: ensure_clusters_def)
      next
        case (Inr u)
        have len: "length new = required - length cs" using allocate_facts(2) [OF a] .
        show thesis
        proof (cases "cs = []")
          case True
          then show thesis using run l a z Inr 3 len by (intro that(4) [of fat new ctx]) (simp_all add: ensure_clusters_def)
        next
          case False
          then show thesis using run l a z Inr 3 len by (intro that(4) [of fat new ctx]) (simp_all add: ensure_clusters_def)
        qed
      qed
    qed
  qed
qed

lemma store_eta: "store = store\<lparr>st_fat := st_fat store, st_io_context := st_io_context store\<rparr>"
  by simp

lemma flat_zeros: "(\<And>c. c \<in> set cs \<Longrightarrow> d c = replicate n 0) \<Longrightarrow> flat d cs = replicate (length cs * n) 0"
  by (induction cs) (simp_all add: replicate_add)

lemma first_cluster_chain:
  assumes "file_ok file store cs" and "p_file_size (fi_primary file) \<noteq> 0 \<or> cs \<noteq> []"
  shows "fat_chain (st_fat store) (unat (p_first_cluster (fi_primary file))) cs" and "cs \<noteq> []"
proof -
  show c: "fat_chain (st_fat store) (unat (p_first_cluster (fi_primary file))) cs"
    using assms by (auto simp: file_ok_def split: if_splits)
  show "cs \<noteq> []" using c by (auto elim: fat_chain.cases)
qed

context cluster_device
begin

lemma ensure_effect:
  assumes fok: "file_ok file store cs" and okc: "ok (st_io_context store)" and ops: "st_operations store = operations"
    and run: "ensure_clusters file store required = (file', store', r)"
  obtains e where "r = Inl e" and "e = IOS_E_NO_SPACE \<or> device_fails operations e" and "file' = file"
      and "store' = store\<lparr>st_io_context := st_io_context store'\<rparr>" and "ok (st_io_context store')"
      and "\<And>s xs m. fat_chain (st_fat store) s xs \<Longrightarrow> m \<in> set xs \<Longrightarrow> disk (st_io_context store') m = disk (st_io_context store) m"
  | new first where "r = Inr (cs @ new)" and "required \<le> length (cs @ new)" and "length (cs @ new) \<le> fi_chain_capacity file"
      and "file' = file\<lparr>fi_primary := (fi_primary file)\<lparr>p_first_cluster := first\<rparr>\<rparr>"
      and "cs @ new \<noteq> [] \<Longrightarrow> fat_chain (st_fat store') (unat first) (cs @ new)"
      and "store' = store\<lparr>st_fat := st_fat store', st_io_context := st_io_context store'\<rparr>"
      and "ok (st_io_context store')" and "length (st_fat store') = length (st_fat store)"
      and "flat (disk (st_io_context store')) (cs @ new) = flat (disk (st_io_context store)) cs @ replicate (length new * IOS_FS_CLUSTER_BYTES) 0"
      and "\<And>t xs. fat_chain (st_fat store) t xs \<Longrightarrow> set xs \<inter> set cs = {} \<Longrightarrow> fat_chain (st_fat store') t xs
        \<and> set xs \<inter> set (cs @ new) = {} \<and> (\<forall>m \<in> set xs. disk (st_io_context store') m = disk (st_io_context store) m)"
  using fok run
proof (cases rule: ensure_cases)
  case 1
  have "cs \<noteq> [] \<Longrightarrow> fat_chain (st_fat store) (unat (p_first_cluster (fi_primary file))) cs" using first_cluster_chain(1) [OF fok] by blast
  then show thesis using 1 fok okc by (intro that(2) [of "[]" "p_first_cluster (fi_primary file)"]) (simp_all add: file_ok_def)
next
  case 2
  then show thesis using okc by (intro that(1) [of IOS_E_NO_SPACE]) simp_all
next
  case (3 fat new ctx e)
  note z = zero_loop_effect [OF 3(2) [unfolded ops] okc]
  have "disk ctx m = disk (st_io_context store) m" if "fat_chain (st_fat store) s xs" "m \<in> set xs" for s xs m
    using z allocate_disjoint_chain(1) [OF 3(1) that(1)] that(2) by blast
  then show thesis using 3 z by (intro that(1) [of e]) simp_all
next
  case (4 fat new ctx)
  note z = zero_loop_effect [OF 4(2) [unfolded ops] okc]
  have cs: "cs = [] \<or> fat_chain (st_fat store) (unat (p_first_cluster (fi_primary file))) cs" using first_cluster_chain(1) [OF fok] by blast
  note g = grown_chain [OF 4(1) cs]
  have new: "disk ctx m = disk (st_io_context store) m" if "fat_chain (st_fat store) s xs" "m \<in> set xs" for s xs m
    using z allocate_disjoint_chain(1) [OF 4(1) that(1)] that(2) by blast
  have "valid_cluster (hd new) (length (st_fat store))" using allocate_facts(6) [OF 4(1)] allocate_facts(2,3) [OF 4(1)] by (metis hd_in_set length_greater_0_conv)
  then have hd: "unat (of_nat (hd new) :: u32) = hd new" by (rule unat_first_cluster)
  have "flat (disk ctx) cs = flat (disk (st_io_context store)) cs" using new cs by (intro flat_cong) auto
  moreover have "flat (disk ctx) new = replicate (length new * IOS_FS_CLUSTER_BYTES) 0" using z by (intro flat_zeros) blast
  ultimately show thesis using 4 z g new hd
    by (intro that(2) [of new "if cs = [] then of_nat (hd new) else p_first_cluster (fi_primary file)"]) (simp_all split: if_splits)
qed

lemma read_effect:
  assumes fok: "file_ok file store cs" and okc: "ok (st_io_context store)" and ops: "st_operations store = operations"
    and pos: "unat (fi_position file) \<le> unat (p_file_size (fi_primary file))"
    and run: "ios_fs_file_read file store n = (file', store', out, r)"
  shows "ok (st_io_context store') \<and> store' = store\<lparr>st_io_context := st_io_context store'\<rparr>
    \<and> disk (st_io_context store') = disk (st_io_context store)
    \<and> out = take (length out) (drop (unat (fi_position file)) (file_content (disk (st_io_context store)) file cs))
    \<and> file' = file\<lparr>fi_position := fi_position file'\<rparr> \<and> unat (fi_position file') = unat (fi_position file) + length out
    \<and> (r = Inr () \<longrightarrow> length out = min n (unat (p_file_size (fi_primary file)) - unat (fi_position file)))
    \<and> (\<forall>e. r = Inl e \<longrightarrow> device_fails operations e)"
proof (cases "n = 0 \<or> fi_position file = p_file_size (fi_primary file)")
  case True
  then show ?thesis using run fok okc by (auto simp: ios_fs_file_read_def file_ok_def)
next
  case False
  let ?sz = "unat (p_file_size (fi_primary file))" and ?p = "unat (fi_position file)"
  define m where "m = min n (?sz - ?p)"
  have m: "unat (p_file_size (fi_primary file) - fi_position file) = ?sz - ?p" using pos by (simp add: unat_sub word_le_nat_alt)
  have sz: "?sz \<le> length cs * IOS_FS_CLUSTER_BYTES" "fi_open file" "unat (st_cluster_bytes store) = IOS_FS_CLUSTER_BYTES"
    using fok by (simp_all add: file_ok_def)
  have "?sz \<le> UINT32_MAX" by (rule unat_u32_max)
  then have bound: "?p + m \<le> length cs * IOS_FS_CLUSTER_BYTES" "?p + m \<le> UINT32_MAX" "?p + m \<le> ?sz"
    using sz(1) pos unfolding m_def by linarith+
  obtain ctx p' where loop: "read_loop m operations (st_cluster_bytes store) cs (st_io_context store) (fi_position file) m [] = (ctx, p', out, r)"
    and eqs: "file' = file\<lparr>fi_position := p'\<rparr>" "store' = store\<lparr>st_io_context := ctx\<rparr>"
    using run False sz(2) load_chain_ok [OF fok] ops by (auto simp: ios_fs_file_read_def m m_def Let_def split: prod.splits)
  obtain k where k: "k \<le> m" "ok ctx" "disk ctx = disk (st_io_context store)" "unat p' = ?p + k"
    "out = field_at ?p k (flat (disk (st_io_context store)) cs)" "r = Inr () \<longrightarrow> k = m" "\<forall>e. r = Inl e \<longrightarrow> device_fails operations e"
    using read_loop_effect [OF loop okc sz(3) bound(1,2)] by auto
  have "length (flat (disk (st_io_context store)) cs) = length cs * IOS_FS_CLUSTER_BYTES" by (rule length_flat) (rule disk_length [OF okc])
  then have len: "length out = k" unfolding k(5) using k(1) bound(1) by (intro length_field_at) linarith
  have "k \<le> ?sz - ?p" using k(1) bound(3) by linarith
  then have "out = take k (drop ?p (file_content (disk (st_io_context store)) file cs))"
    unfolding k(5) file_content_def field_at_def drop_take by (simp add: min_absorb1)
  then have out: "out = take (length out) (drop ?p (file_content (disk (st_io_context store)) file cs))" unfolding len .
  show ?thesis unfolding eqs
  proof (intro conjI)
    show "out = take (length out) (drop ?p (file_content (disk (st_io_context store)) file cs))" by (rule out)
  qed (use k(2-4,6,7) len in \<open>simp_all add: m_def\<close>)
qed

text \<open>A sequence with a piece replaced, possibly past its end.\<close>

lemma content_overwrite:
  assumes "p \<le> sz" and "sz \<le> length f" and "p + length src \<le> length f + z"
  shows "take (max sz (p + length src)) (overwrite (f @ replicate z 0) p src) = take p (take sz f) @ src @ drop (p + length src) (take sz f)"
proof (cases "p + length src \<le> sz")
  case True
  then show ?thesis using assms by (simp add: overwrite_def max_absorb1 drop_take min_absorb1 min_absorb2)
next
  case False
  then show ?thesis using assms by (simp add: overwrite_def max_absorb2 min_absorb1 min_absorb2)
qed

lemma ensure_grown:
  assumes "file_ok file store cs" and "ok (st_io_context store)" and "st_operations store = operations"
    and "ensure_clusters file store required = (file1, store1, Inr chain)"
  obtains new first where "chain = cs @ new" and "required \<le> length chain" and "length chain \<le> fi_chain_capacity file"
      and "file1 = file\<lparr>fi_primary := (fi_primary file)\<lparr>p_first_cluster := first\<rparr>\<rparr>"
      and "chain \<noteq> [] \<longrightarrow> fat_chain (st_fat store1) (unat first) chain"
      and "store1 = store\<lparr>st_fat := st_fat store1, st_io_context := st_io_context store1\<rparr>"
      and "ok (st_io_context store1)" and "length (st_fat store1) = length (st_fat store)"
      and "flat (disk (st_io_context store1)) chain = flat (disk (st_io_context store)) cs @ replicate (length new * IOS_FS_CLUSTER_BYTES) 0"
      and "\<forall>t xs. fat_chain (st_fat store) t xs \<and> set xs \<inter> set cs = {} \<longrightarrow> fat_chain (st_fat store1) t xs
        \<and> set xs \<inter> set chain = {} \<and> (\<forall>m \<in> set xs. disk (st_io_context store1) m = disk (st_io_context store) m)"
  using assms
proof (cases rule: ensure_effect)
  case (1 e)
  then show thesis by simp
next
  case (2 new first)
  have c: "chain = cs @ new" using 2(1) by simp
  have "chain \<noteq> [] \<longrightarrow> fat_chain (st_fat store1) (unat first) chain" unfolding c using 2(5) by blast
  moreover have "\<forall>t xs. fat_chain (st_fat store) t xs \<and> set xs \<inter> set cs = {} \<longrightarrow> fat_chain (st_fat store1) t xs
        \<and> set xs \<inter> set chain = {} \<and> (\<forall>m \<in> set xs. disk (st_io_context store1) m = disk (st_io_context store) m)"
    unfolding c using 2(10) by blast
  ultimately show thesis by (rule that [OF c 2(2,3) [folded c] 2(4) _ 2(6-8) 2(9) [folded c]])
qed

text \<open>The part of a write behind its guards.\<close>

lemma write_run_effect:
  assumes fok: "file_ok file store cs" and okc: "ok (st_io_context store)" and ops: "st_operations store = operations"
    and pos: "unat (fi_position file) \<le> unat (p_file_size (fi_primary file))"
    and ens: "ensure_clusters file store required = (file1, store1, Inr chain)"
    and req: "unat (fi_position file) + length input \<le> required * IOS_FS_CLUSTER_BYTES" "input \<noteq> []"
    and max: "unat (fi_position file) + length input \<le> UINT32_MAX"
    and loop: "write_loop (length input) operations (st_cluster_bytes store1) chain (st_io_context store1) (fi_position file1) input 0 = (ctx, p', t, r)"
  defines "file' \<equiv> file1\<lparr>fi_position := p', fi_primary := (if p' > p_file_size (fi_primary file1)
        then (fi_primary file1)\<lparr>p_file_size := p'\<rparr> else fi_primary file1)\<rparr>"
  shows "ok ctx" and "keeps_others cs (st_fat store) (disk (st_io_context store)) (st_fat store1) (disk ctx)"
    and "r = Inl e \<Longrightarrow> device_fails operations e"
    and "r = Inr () \<Longrightarrow> t = length input \<and> unat (fi_position file') = unat (fi_position file) + length input
      \<and> file_ok file' (store1\<lparr>st_io_context := ctx\<rparr>) chain
      \<and> file_content (disk ctx) file' chain = take (unat (fi_position file)) (file_content (disk (st_io_context store)) file cs) @ input
          @ drop (unat (fi_position file) + length input) (file_content (disk (st_io_context store)) file cs)"
proof -
  let ?p = "unat (fi_position file)" and ?sz = "unat (p_file_size (fi_primary file))" and ?d = "disk (st_io_context store)"
  obtain new first where g: "chain = cs @ new" "required \<le> length chain" "length chain \<le> fi_chain_capacity file"
      "file1 = file\<lparr>fi_primary := (fi_primary file)\<lparr>p_first_cluster := first\<rparr>\<rparr>"
      "chain \<noteq> [] \<longrightarrow> fat_chain (st_fat store1) (unat first) chain"
      "store1 = store\<lparr>st_fat := st_fat store1, st_io_context := st_io_context store1\<rparr>"
      "ok (st_io_context store1)" "length (st_fat store1) = length (st_fat store)"
      "flat (disk (st_io_context store1)) chain = flat ?d cs @ replicate (length new * IOS_FS_CLUSTER_BYTES) 0"
      "\<forall>t xs. fat_chain (st_fat store) t xs \<and> set xs \<inter> set cs = {} \<longrightarrow> fat_chain (st_fat store1) t xs
        \<and> set xs \<inter> set chain = {} \<and> (\<forall>m \<in> set xs. disk (st_io_context store1) m = ?d m)"
    by (rule ensure_grown [OF fok okc ops ens])
  have room: "?p + length input \<le> length chain * IOS_FS_CLUSTER_BYTES"
    using req(1) mult_le_mono1 [OF g(2), of IOS_FS_CLUSTER_BYTES] by linarith
  have ne: "chain \<noteq> []" using room req(2) by auto
  then have chain: "fat_chain (st_fat store1) (unat first) chain" using g(5) by blast
  have cb: "unat (st_cluster_bytes store1) = IOS_FS_CLUSTER_BYTES" using fok g(6) by (metis file_ok_def ios_fs_file_store.select_convs(2) ios_fs_file_store.surjective ios_fs_file_store.update_convs(1,3))
  have p1: "fi_position file1 = fi_position file" "fi_open file1" "p_file_size (fi_primary file1) = p_file_size (fi_primary file)"
    using fok by (simp_all add: g(4) file_ok_def)
  obtain k where k: "ok ctx" "unat p' = ?p + k" "t = k" "\<forall>m. m \<notin> set chain \<longrightarrow> disk ctx m = disk (st_io_context store1) m"
    "r = Inr () \<longrightarrow> k = length input \<and> flat (disk ctx) chain = overwrite (flat (disk (st_io_context store1)) chain) ?p input"
    "\<forall>e. r = Inl e \<longrightarrow> device_fails operations e"
    using write_loop_effect [OF loop g(7) cb _ _ order_refl fat_chain_distinct [OF chain]] room max unfolding p1(1) by auto
  show "ok ctx" and "r = Inl e \<Longrightarrow> device_fails operations e" using k(1,6) by blast+
  show "keeps_others cs (st_fat store) ?d (st_fat store1) (disk ctx)"
    unfolding keeps_others_def using g(10) k(4) by (metis disjoint_iff)
  assume r: "r = Inr ()"
  have sz: "?sz \<le> length (flat ?d cs)" using fok length_flat [of ?d, OF disk_length [OF okc]] by (simp add: file_ok_def)
  have size': "unat (p_file_size (fi_primary file')) = max ?sz (?p + length input)"
    using k(2,5) r by (auto simp: file'_def p1 word_less_nat_alt)
  have "file_content (disk ctx) file' chain = take (max ?sz (?p + length input)) (overwrite (flat ?d cs @ replicate (length new * IOS_FS_CLUSTER_BYTES) 0) ?p input)"
    using k(5) r by (simp add: file_content_def size' g(9))
  moreover have "?p + length input \<le> length (flat ?d cs) + length new * IOS_FS_CLUSTER_BYTES"
    using room g(1) length_flat [of ?d _ cs, OF disk_length [OF okc]] by (simp add: algebra_simps)
  ultimately have "file_content (disk ctx) file' chain = take ?p (file_content ?d file cs) @ input @ drop (?p + length input) (file_content ?d file cs)"
    using content_overwrite [OF pos sz] by (simp add: file_content_def)
  moreover have "file_ok file' (store1\<lparr>st_io_context := ctx\<rparr>) chain"
  proof -
    have "p_file_size (fi_primary file') \<noteq> 0" using size' req(2) by (auto simp: unat_eq_0 [symmetric])
    moreover have "?sz \<le> length chain * IOS_FS_CLUSTER_BYTES" using fok g(1) by (simp add: file_ok_def algebra_simps)
    ultimately show ?thesis
      using fok room g(3,8) chain cb by (auto simp: file_ok_def size') (simp_all add: file'_def g(4))
  qed
  ultimately show "t = length input \<and> unat (fi_position file') = ?p + length input \<and> file_ok file' (store1\<lparr>st_io_context := ctx\<rparr>) chain
      \<and> file_content (disk ctx) file' chain = take ?p (file_content ?d file cs) @ input @ drop (?p + length input) (file_content ?d file cs)"
    using k(2,3,5) r by (simp add: file'_def)
qed

lemma write_effect:
  assumes fok: "file_ok file store cs" and okc: "ok (st_io_context store)" and ops: "st_operations store = operations"
    and run: "ios_fs_file_write file store input = (file', store', t, r)"
  shows "ok (st_io_context store') \<and> keeps_others cs (st_fat store) (disk (st_io_context store)) (st_fat store') (disk (st_io_context store'))
    \<and> (\<forall>e. r = Inl e \<longrightarrow> e \<in> {IOS_E_READ_ONLY, IOS_E_INVALID_ARGUMENT, IOS_E_OVERFLOW, IOS_E_NO_SPACE} \<or> device_fails operations e)
    \<and> (r = Inr () \<longrightarrow> t = length input \<and> unat (fi_position file') = unat (fi_position file) + length input
      \<and> (\<exists>cs'. file_ok file' store' cs'
        \<and> file_content (disk (st_io_context store')) file' cs' = take (unat (fi_position file)) (file_content (disk (st_io_context store)) file cs)
            @ input @ drop (unat (fi_position file) + length input) (file_content (disk (st_io_context store)) file cs)))"
proof -
  have opened: "fi_open file" "unat (st_cluster_bytes store) = IOS_FS_CLUSTER_BYTES" using fok by (simp_all add: file_ok_def)
  have keep: "keeps_others cs fat d fat d" for cs fat d by (simp add: keeps_others_def)
  consider (stop) "file' = file" "store' = store" "t = 0" "(\<exists>e \<in> {IOS_E_READ_ONLY, IOS_E_INVALID_ARGUMENT, IOS_E_OVERFLOW}. r = Inl e) \<or> (r = Inr () \<and> input = [])"
    | (go) "input \<noteq> []" "\<not> fi_position file > p_file_size (fi_primary file)" "\<not> length input > UINT32_MAX - unat (fi_position file)"
        "fi_writable file" "st_writable store"
    using run opened(1) by (auto simp: ios_fs_file_write_def split: if_splits)
  then show ?thesis
  proof cases
    case stop
    then show ?thesis using okc keep fok by (auto intro: exI [of _ cs])
  next
    case go
    let ?req = "(unat (fi_position file) + length input + unat (st_cluster_bytes store) - 1) div unat (st_cluster_bytes store)"
    have pos: "unat (fi_position file) \<le> unat (p_file_size (fi_primary file))" using go(2) by (simp add: word_less_nat_alt)
    have max: "unat (fi_position file) + length input \<le> UINT32_MAX" using go(3) unat_u32_max [of "fi_position file"] by linarith
    have req: "unat (fi_position file) + length input \<le> ?req * IOS_FS_CLUSTER_BYTES" unfolding opened(2) by linarith
    obtain file1 store1 re where e: "ensure_clusters file store ?req = (file1, store1, re)" by (metis prod_cases3)
    show ?thesis
    proof (cases rule: ensure_effect [OF fok okc ops e])
      case (1 e')
      have "file' = file" "store' = store1" "r = Inl e'"
        using run go opened(1) e 1(1,3) by (simp_all add: ios_fs_file_write_def Let_def)
      moreover have "keeps_others cs (st_fat store) (disk (st_io_context store)) (st_fat store1) (disk (st_io_context store1))"
        unfolding keeps_others_def using 1(4,6) by (metis ios_fs_file_store.select_convs(1) ios_fs_file_store.surjective ios_fs_file_store.update_convs(3))
      ultimately show ?thesis using 1(2,5) by auto
    next
      case (2 new first)
      obtain ctx p' n w where loop: "write_loop (length input) operations (st_cluster_bytes store1) (cs @ new) (st_io_context store1) (fi_position file1) input 0 = (ctx, p', n, w)"
        by (metis prod_cases4)
      note eff = write_run_effect [OF fok okc ops pos e [unfolded 2(1)] req go(1) max loop]
      have ops1: "st_operations store1 = operations" using 2(6) ops by (metis ios_fs_file_store.select_convs(4) ios_fs_file_store.surjective ios_fs_file_store.update_convs(1,3))
      show ?thesis
      proof (cases w)
        case (Inl e')
        then have "r = Inl e'" "store' = store1\<lparr>st_io_context := ctx\<rparr>"
          using run go opened(1) e 2(1) loop ops1 by (simp_all add: ios_fs_file_write_def Let_def)
        then show ?thesis using eff(1-3) Inl by auto
      next
        case (Inr u)
        then have "r = Inr ()" "store' = store1\<lparr>st_io_context := ctx\<rparr>" "t = n" "file' = file1\<lparr>fi_position := p', fi_primary := (if p' > p_file_size (fi_primary file1)
            then (fi_primary file1)\<lparr>p_file_size := p'\<rparr> else fi_primary file1)\<rparr>"
          using run go opened(1) e 2(1) loop ops1 by (simp_all add: ios_fs_file_write_def Let_def)
        then show ?thesis using eff(1,2,4) Inr by auto
      qed
    qed
  qed
qed

end

section \<open>A device in memory\<close>

text \<open>The clusters that the unit tests of the module use (\<^verbatim>\<open>tests/unit/file_test.c\<close>): two arrays.\<close>

record memory_clusters =
  mc_bytes :: "nat \<Rightarrow> nat \<Rightarrow> u8"
  mc_zeroed :: "nat \<Rightarrow> bool"

abbreviation TEST_CLUSTER_COUNT :: nat where "TEST_CLUSTER_COUNT \<equiv> 8"

definition memory_cluster :: "memory_clusters \<Rightarrow> nat \<Rightarrow> bytes" where
  "memory_cluster memory cluster = map (mc_bytes memory cluster) [0..<IOS_FS_CLUSTER_BYTES]"

definition memory_read :: "memory_clusters \<Rightarrow> nat \<Rightarrow> memory_clusters \<times> bytes res" where
  "memory_read memory cluster =
     (if cluster \<ge> TEST_CLUSTER_COUNT then (memory, Inl IOS_E_OUT_OF_RANGE)
      else (memory, Inr (memory_cluster memory cluster)))"

definition memory_write :: "memory_clusters \<Rightarrow> nat \<Rightarrow> bytes \<Rightarrow> memory_clusters \<times> unit res" where
  "memory_write memory cluster buffer =
     (if cluster \<ge> TEST_CLUSTER_COUNT then (memory, Inl IOS_E_OUT_OF_RANGE)
      else (memory\<lparr>mc_bytes := (mc_bytes memory)(cluster := (\<lambda>i. buffer ! i))\<rparr>, Inr ()))"

definition memory_zero :: "memory_clusters \<Rightarrow> nat \<Rightarrow> memory_clusters \<times> unit res" where
  "memory_zero memory cluster =
     (if cluster \<ge> TEST_CLUSTER_COUNT then (memory, Inl IOS_E_OUT_OF_RANGE)
      else (memory\<lparr>mc_bytes := (mc_bytes memory)(cluster := (\<lambda>i. 0)), mc_zeroed := (mc_zeroed memory)(cluster := True)\<rparr>, Inr ()))"

definition memory_operations :: "memory_clusters ios_fs_cluster_operations" where
  "memory_operations = \<lparr>co_read = memory_read, co_write = memory_write, co_zero = memory_zero\<rparr>"

lemma memory_cluster_write: "length bs = n \<Longrightarrow> map (\<lambda>i. bs ! i) [0..<n] = bs"
  by (rule nth_equalityI) simp_all

interpretation mem: cluster_device memory_operations "\<lambda>_. True" memory_cluster
proof
  show "length (memory_cluster c n) = IOS_FS_CLUSTER_BYTES" for c n by (simp add: memory_cluster_def)
  show "True \<and> memory_cluster c' = memory_cluster c \<and> (\<forall>bs. r = Inr bs \<longrightarrow> bs = memory_cluster c n)"
    if "co_read memory_operations c n = (c', r)" for c n c' r
    using that by (auto simp: memory_operations_def memory_read_def split: if_splits)
  show "True \<and> (\<forall>m. m \<noteq> n \<longrightarrow> memory_cluster c' m = memory_cluster c m) \<and> (w = Inr () \<longrightarrow> memory_cluster c' n = bs)"
    if "length bs = IOS_FS_CLUSTER_BYTES" "co_write memory_operations c n bs = (c', w)" for c n bs c' w
    using that(2) memory_cluster_write [OF that(1)]
    by (auto simp: memory_operations_def memory_write_def memory_cluster_def simp del: upt_conv_Cons split: if_splits)
  show "True \<and> (\<forall>m. m \<noteq> n \<longrightarrow> memory_cluster c' m = memory_cluster c m) \<and> (w = Inr () \<longrightarrow> memory_cluster c' n = replicate IOS_FS_CLUSTER_BYTES 0)"
    if "co_zero memory_operations c n = (c', w)" for c n c' w
    using that map_replicate_const [of "0 :: u8" "[0..<IOS_FS_CLUSTER_BYTES]"]
    by (auto simp: memory_operations_def memory_zero_def memory_cluster_def split: if_splits)
qed

section \<open>Opening and seeking\<close>

lemma open_fields:
  assumes "ios_fs_file_open store companion pd writable cap scratch = Inr file"
  shows "ios_fs_primary_decode pd = Inr (fi_primary file)" and "fi_open file" and "fi_position file = 0"
    and "fi_writable file = writable" and "writable \<longrightarrow> st_writable store" and "fi_chain_capacity file = cap"
    and "unat (st_cluster_bytes store) = IOS_FS_CLUSTER_BYTES" and "p_attributes (fi_primary file) = IOS_FS_ATTRIBUTE_REGULAR"
    and "p_file_size (fi_primary file) \<noteq> 0 \<Longrightarrow> ios_fs_fat_validate_file_capacity (st_fat store) (unat (p_first_cluster (fi_primary file)))
          (unat (p_file_size (fi_primary file))) IOS_FS_CLUSTER_BYTES = Inr ()
        \<and> (\<exists>cs. ios_fs_fat_traverse (st_fat store) (unat (p_first_cluster (fi_primary file))) cap = Inr cs)"
  using assms
  by (auto simp: ios_fs_file_open_def validate_store_def ios_fs_record_pair_validate_def Let_def split: if_splits sum.splits prod.splits)

lemma open_file_ok:
  assumes run: "ios_fs_file_open store companion pd writable cap scratch = Inr file" and "valid_entry_count (length (st_fat store))"
  shows "\<exists>cs. file_ok file store cs"
proof (cases "p_file_size (fi_primary file) = 0")
  case True
  have "\<not> primary_fields_rejected (p_name (fi_primary file)) (p_attributes (fi_primary file)) (p_first_cluster (fi_primary file)) (p_file_size (fi_primary file))"
    by (rule primary_decode_Inr(1) [OF open_fields(1) [OF run]])
  then have "p_first_cluster (fi_primary file) = 0" using True open_fields(8) [OF run] by (auto simp: primary_fields_rejected_def)
  then show ?thesis using True assms(2) open_fields(2,7) [OF run] by (intro exI [of _ "[]"]) (simp add: file_ok_def)
next
  case False
  let ?start = "unat (p_first_cluster (fi_primary file))"
  obtain cs where cs: "fat_chain (st_fat store) ?start cs" "length cs \<le> cap"
    using open_fields(9) [OF run False] by (auto simp: traverse_iff_chain)
  have "unat (p_file_size (fi_primary file)) \<noteq> 0" using False by (simp add: unat_eq_0)
  then obtain cs' where "fat_chain (st_fat store) ?start cs'" "unat (p_file_size (fi_primary file)) \<le> length cs' * IOS_FS_CLUSTER_BYTES"
    using open_fields(9) [OF run False] file_capacity_iff by blast
  then have "unat (p_file_size (fi_primary file)) \<le> length cs * IOS_FS_CLUSTER_BYTES" using fat_chain_deterministic [OF cs(1)] by blast
  then show ?thesis using False assms(2) cs open_fields(2,6,7) [OF run] by (intro exI [of _ cs]) (simp add: file_ok_def)
qed

lemma seek_set:
  assumes "fi_open file"
  shows "ios_fs_file_seek file IOS_FS_SEEK_SET (int (unat (p :: u32))) = (file\<lparr>fi_position := p\<rparr>, Inr p)"
  using assms uint_u32_max [of p] by (auto simp: ios_fs_file_seek_def Let_def)

lemma seek_end:
  assumes "fi_open file"
  shows "ios_fs_file_seek file IOS_FS_SEEK_END 0 = (file\<lparr>fi_position := p_file_size (fi_primary file)\<rparr>, Inr (p_file_size (fi_primary file)))"
  using assms uint_u32_max [of "p_file_size (fi_primary file)"] by (auto simp: ios_fs_file_seek_def Let_def)

lemma ops_kept: "ios_fs_file_write file store input = (file', store', t, r) \<Longrightarrow> st_operations store' = st_operations store"
  by (auto simp: ios_fs_file_write_def ensure_clusters_def Let_def split: if_splits sum.splits prod.splits)

section \<open>Properties\<close>

text \<open>C9: Opening a file and reading it from any position up to its end returns the bytes that its
  chain denotes there: the whole request, or as much as the file has; on a device error a
  prefix of it. Reading changes neither the device nor the table.\<close>

theorem file_read_exact:
  assumes "cluster_device (st_operations store) ok disk" and "ok (st_io_context store)"
    and "ios_fs_file_open store companion pd writable cap scratch = Inr file" and "valid_entry_count (length (st_fat store))"
    and "unat (p :: u32) \<le> unat (p_file_size (fi_primary file))"
    and "ios_fs_file_read (fst (ios_fs_file_seek file IOS_FS_SEEK_SET (int (unat p)))) store n = (file', store', out, r)"
  shows "\<exists>cs. file_ok file store cs \<and> disk (st_io_context store') = disk (st_io_context store) \<and> st_fat store' = st_fat store
    \<and> out = take (length out) (drop (unat p) (file_content (disk (st_io_context store)) file cs))
    \<and> unat (fi_position file') = unat p + length out
    \<and> (r = Inr () \<longrightarrow> length out = min n (unat (p_file_size (fi_primary file)) - unat p))
    \<and> (\<forall>e. r = Inl e \<longrightarrow> device_fails (st_operations store) e)"
proof -
  obtain cs where cs: "file_ok file store cs" using open_file_ok [OF assms(3,4)] by blast
  define f where "f = file\<lparr>fi_position := p\<rparr>"
  have f: "file_ok f store cs" "fi_position f = p" "fi_primary f = fi_primary file" using cs by (simp_all add: f_def file_ok_def)
  have run: "ios_fs_file_read f store n = (file', store', out, r)"
    using assms(6) unfolding seek_set [OF open_fields(2) [OF assms(3)]] by (simp add: f_def)
  have "st_fat store' = st_fat store"
    using cluster_device.read_effect [OF assms(1) f(1) assms(2) refl _ run] assms(5) unfolding f
    by (metis ios_fs_file_store.select_convs(1) ios_fs_file_store.surjective ios_fs_file_store.update_convs(3))
  moreover have "file_content d f cs = file_content d file cs" for d by (simp add: file_content_def f)
  ultimately show ?thesis using cs cluster_device.read_effect [OF assms(1) f(1) assms(2) refl _ run] assms(5) unfolding f by metis
qed

text \<open>C8: A write that succeeds replaces exactly the bytes at its position, extending the file when it runs
  past the end, and keeps the file well-formed. Whether it succeeds or fails, the chains and bytes
  of every other file stay as they are, and it fails only for the reasons its guards name, for want
  of space, or because the device failed.\<close>

theorem file_write_correct:
  assumes "cluster_device (st_operations store) ok disk" and "ok (st_io_context store)" and "file_ok file store cs"
    and "ios_fs_file_write file store input = (file', store', t, r)"
  shows "keeps_others cs (st_fat store) (disk (st_io_context store)) (st_fat store') (disk (st_io_context store'))
    \<and> (\<forall>e. r = Inl e \<longrightarrow> e \<in> {IOS_E_READ_ONLY, IOS_E_INVALID_ARGUMENT, IOS_E_OVERFLOW, IOS_E_NO_SPACE}
        \<or> device_fails (st_operations store) e)
    \<and> (r = Inr () \<longrightarrow> t = length input \<and> unat (fi_position file') = unat (fi_position file) + length input
      \<and> (\<exists>cs'. file_ok file' store' cs'
        \<and> file_content (disk (st_io_context store')) file' cs' = take (unat (fi_position file)) (file_content (disk (st_io_context store)) file cs)
            @ input @ drop (unat (fi_position file) + length input) (file_content (disk (st_io_context store)) file cs)))"
  using cluster_device.write_effect [OF assms(1,3,2) refl assms(4)] by blast

text \<open>What has been written is read back: after a successful write, seeking to where it began and
  reading as many bytes returns exactly the bytes written, unless the device fails.\<close>

theorem file_write_read_back:
  assumes "cluster_device (st_operations store) ok disk" and "ok (st_io_context store)" and "file_ok file store cs"
    and "ios_fs_file_write file store input = (file', store', t, Inr ())"
    and "ios_fs_file_read (fst (ios_fs_file_seek file' IOS_FS_SEEK_SET (int (unat (fi_position file))))) store' (length input) = (file'', store'', out, Inr ())"
  shows "out = input"
proof -
  let ?p = "unat (fi_position file)" and ?c = "file_content (disk (st_io_context store)) file cs"
  note w = cluster_device.write_effect [OF assms(1,3,2) refl assms(4)]
  obtain cs' where cs': "file_ok file' store' cs'"
    "file_content (disk (st_io_context store')) file' cs' = take ?p ?c @ input @ drop (?p + length input) ?c"
    using w by blast
  have okc: "ok (st_io_context store')" using w by blast
  define f where "f = file'\<lparr>fi_position := fi_position file\<rparr>"
  have f: "file_ok f store' cs'" "fi_position f = fi_position file" "fi_primary f = fi_primary file'" "fi_open file'"
    using cs'(1) by (simp_all add: f_def file_ok_def)
  have run: "ios_fs_file_read f store' (length input) = (file'', store'', out, Inr ())"
    using assms(5) unfolding seek_set [OF f(4)] by (simp add: f_def)
  have len: "length ?c = unat (p_file_size (fi_primary file))" "length (file_content (disk (st_io_context store')) file' cs') = unat (p_file_size (fi_primary file'))"
    using assms(3) cs'(1) length_flat [of "disk (st_io_context store)", OF cluster_device.disk_length [OF assms(1,2)]]
      length_flat [of "disk (st_io_context store')", OF cluster_device.disk_length [OF assms(1) okc]] by (simp_all add: file_ok_def file_content_def)
  have pos: "?p \<le> length ?c \<or> input = []"
    using assms(4) len(1) by (auto simp: ios_fs_file_write_def word_less_nat_alt split: if_splits)
  show ?thesis
  proof (cases "input = []")
    case True
    then show ?thesis using run f(4) by (simp add: ios_fs_file_read_def f_def)
  next
    case False
    then have p: "?p \<le> length ?c" using pos by blast
    then have size: "?p + length input \<le> unat (p_file_size (fi_primary file'))" unfolding len(2) [symmetric] cs'(2) by simp
    have le: "unat (fi_position f) \<le> unat (p_file_size (fi_primary f))" using size by (simp add: f(2,3))
    note rd = cluster_device.read_effect [OF assms(1) f(1) okc ops_kept [OF assms(4)] le run]
    have out: "out = take (length out) (drop ?p (file_content (disk (st_io_context store')) f cs'))" using rd unfolding f(2) by blast
    have "length out = min (length input) (unat (p_file_size (fi_primary file')) - ?p)" using rd unfolding f(2,3) by blast
    then have n: "length out = length input" using size by simp
    have "file_content (disk (st_io_context store')) f cs' = take ?p ?c @ input @ drop (?p + length input) ?c"
      using cs'(2) by (simp add: file_content_def f(3))
    then show ?thesis using out p unfolding n by simp
  qed
qed


text \<open>A first write that fails on the device ruins the open file: it leaves a first cluster beside a
  size of zero, and from then on every write, from whatever position in the file, is refused as
  corrupt; the clusters stay allocated.\<close>

theorem file_failed_write_poisons:
  assumes "file_ok file store cs" and "p_file_size (fi_primary file) = 0"
    and "ios_fs_file_write file store input = (file', store', t, Inl e)" and "p_first_cluster (fi_primary file') \<noteq> 0"
    and "input' \<noteq> []" and "length input' \<le> UINT32_MAX"
  shows "p_file_size (fi_primary file') = 0
    \<and> ios_fs_file_write (file'\<lparr>fi_position := 0\<rparr>) store' input' = (file'\<lparr>fi_position := 0\<rparr>, store', 0, Inl IOS_E_CORRUPT)"
proof -
  have opened: "fi_open file" "p_first_cluster (fi_primary file) = 0" using assms(1,2) by (simp_all add: file_ok_def)
  then have w: "fi_writable file" "st_writable store" using assms(3,4) by (auto simp: ios_fs_file_write_def split: if_splits)
  have "p_file_size (fi_primary file') = 0 \<and> fi_open file' \<and> fi_writable file' \<and> st_writable store'"
    using assms(2,3) opened w
    by (auto simp: ios_fs_file_write_def ensure_clusters_def Let_def split: if_splits sum.splits prod.splits)
  then show ?thesis using assms(4-6) by (auto simp: ios_fs_file_write_def ensure_clusters_def load_chain_def Let_def)
qed

section \<open>Witnesses\<close>

text \<open>A file of five bytes in cluster 2 of a store in memory, and an empty file.\<close>

definition hello_memory :: memory_clusters where
  "hello_memory = \<lparr>mc_bytes = (\<lambda>c i. if c = 2 \<and> i < 5 then [104, 101, 108, 108, 111] ! i else 0xa5), mc_zeroed = (\<lambda>_. False)\<rparr>"

definition hello_store :: "memory_clusters ios_fs_file_store" where
  "hello_store = \<lparr>st_fat = [IOS_FS_FAT_END_OF_CHAIN, IOS_FS_FAT_END_OF_CHAIN, IOS_FS_FAT_END_OF_CHAIN, 0, 0, 0, 0, 0],
     st_cluster_bytes = 4096, st_io_context = hello_memory, st_operations = memory_operations, st_writable = True\<rparr>"

definition hello_primary :: ios_fs_primary where
  "hello_primary = primary_A_TXT\<lparr>p_first_cluster := 2, p_file_size := 5\<rparr>"

definition hello_disk :: primary_disk where
  "hello_disk = projr (ios_fs_primary_encode hello_primary)"

definition hello_file :: "u32 \<Rightarrow> ios_fs_file" where
  "hello_file position = \<lparr>fi_primary = hello_primary, fi_position = position, fi_chain_capacity = 8,
     fi_scratch_size = 4096, fi_writable = True, fi_open = True\<rparr>"

lemma hello_records:
  "ios_fs_primary_decode hello_disk = Inr hello_primary"
  "ios_fs_record_pair_validate companion_disk_A_TXT hello_disk = Inr ()"
proof -
  have enc: "ios_fs_primary_encode hello_primary = Inr hello_disk"
    using valid_A_TXT(2)
    by (simp add: hello_disk_def hello_primary_def primary_A_TXT_def ios_fs_primary_encode_def primary_fields_rejected_def)
  show dec: "ios_fs_primary_decode hello_disk = Inr hello_primary"
    using primary_decode_encode [OF _ enc] valid_A_TXT by (simp add: hello_primary_def primary_A_TXT_def)
  have wf: "primary_disk_wf hello_disk" using primary_encode_wf [OF _ enc] valid_A_TXT by (simp add: hello_primary_def primary_A_TXT_def)
  show "ios_fs_record_pair_validate companion_disk_A_TXT hello_disk = Inr ()"
    using pair_validate_iff [OF wf_A_TXT(1) wf] dec encode_A_TXT(2) by (simp add: hello_primary_def primary_A_TXT_def)
qed

lemma hello_entries: "valid_entry_count (length (st_fat hello_store))" "fat_chain (st_fat hello_store) 2 [2]"
  by (simp add: hello_store_def valid_entry_count_def)
    (rule fat_chain.fat_chain_last; simp add: hello_store_def valid_cluster_def classify_next_def)

lemma hello_ok: "file_ok (hello_file p) hello_store [2]"
  using hello_entries by (simp add: file_ok_def hello_file_def hello_primary_def) (simp add: hello_store_def)

lemma hello_open: "ios_fs_file_open hello_store companion_disk_A_TXT hello_disk True 8 4096 = Inr (hello_file 0)"
proof -
  have "ios_fs_fat_validate_file_capacity (st_fat hello_store) 2 5 4096 = Inr ()"
    using file_capacity_iff [of 5 "st_fat hello_store" 2 4096] hello_entries by auto
  moreover have "ios_fs_fat_traverse (st_fat hello_store) 2 8 = Inr [2]" using hello_entries by (simp add: traverse_iff_chain)
  moreover have "validate_store hello_store = Inr ()" "st_cluster_bytes hello_store = 4096" "st_writable hello_store"
    by (simp_all add: validate_store_def hello_store_def)
  ultimately show ?thesis
    using hello_records by (simp add: ios_fs_file_open_def hello_file_def hello_primary_def)
qed

lemma hello_store_device: "cluster_device (st_operations hello_store) (\<lambda>_. True) memory_cluster"
  using mem.cluster_device_axioms by (simp add: hello_store_def)

lemma hello_load: "load_chain (hello_file p) hello_store = Inr [2]"
  by (rule load_chain_ok [OF hello_ok])

lemma hello_field: "off + k \<le> IOS_FS_CLUSTER_BYTES \<Longrightarrow> field_at off k (memory_cluster m c) = map (mc_bytes m c) [off..<off + k]"
  by (simp add: field_at_def memory_cluster_def take_map drop_map take_upt drop_upt)

theorem file_read_exact_witness:
  "\<exists>cs. file_ok (hello_file 0) hello_store cs
    \<and> fst (snd (snd (ios_fs_file_read (hello_file 1) hello_store 3)))
        = take (length (fst (snd (snd (ios_fs_file_read (hello_file 1) hello_store 3))))) (drop 1 (file_content (memory_cluster hello_memory) (hello_file 0) cs))"
proof -
  obtain f s out r where run: "ios_fs_file_read (hello_file 1) hello_store 3 = (f, s, out, r)" by (metis prod_cases4)
  have "fst (ios_fs_file_seek (hello_file 0) IOS_FS_SEEK_SET (int (unat (1 :: u32)))) = hello_file 1"
    by (subst seek_set) (simp_all add: hello_file_def)
  then show ?thesis
    using file_read_exact [OF hello_store_device TrueI hello_open hello_entries(1), of 1 3 f s out r] run
    by (auto simp: hello_file_def hello_primary_def hello_store_def)
qed

lemma loop_done [simp]:
  "read_loop fuel ops cb chain c p 0 out = (c, p, out, Inr ())" "write_loop fuel ops cb chain c p [] t = (c, p, t, Inr ())"
  by (cases fuel; simp)+

lemma hello_loop: "read_loop 2 memory_operations 4096 [2] hello_memory 6 2 [] = (hello_memory, 8, field_at 6 2 (memory_cluster hello_memory 2), Inr ())"
proof -
  have "read_loop (Suc 1) memory_operations 4096 [2] hello_memory 6 2 [] = (hello_memory, 8, field_at 6 2 (memory_cluster hello_memory 2), Inr ())"
    by (simp add: memory_operations_def memory_read_def Let_def)
  then show ?thesis by (simp only: Suc_1)
qed


theorem file_write_correct_witness:
  "keeps_others [2] (st_fat hello_store) (memory_cluster hello_memory)
     (st_fat (fst (snd (ios_fs_file_write (hello_file 5) hello_store [33]))))
     (memory_cluster (st_io_context (fst (snd (ios_fs_file_write (hello_file 5) hello_store [33])))))"
proof -
  obtain f s t r where run: "ios_fs_file_write (hello_file 5) hello_store [33] = (f, s, t, r)" by (metis prod_cases4)
  show ?thesis using file_write_correct [OF hello_store_device TrueI hello_ok run] run by (simp add: hello_store_def)
qed

text \<open>A device whose writes fail.\<close>

definition broken_store :: "memory_clusters ios_fs_file_store" where
  "broken_store = hello_store\<lparr>st_operations := memory_operations\<lparr>co_write := (\<lambda>memory cluster buffer. (memory, Inl IOS_E_IO))\<rparr>\<rparr>"

definition empty_file :: ios_fs_file where
  "empty_file = (hello_file 0)\<lparr>fi_primary := primary_A_TXT\<rparr>"

lemma empty_ok: "file_ok empty_file broken_store []"
  using hello_entries(1) by (simp add: file_ok_def empty_file_def hello_file_def primary_A_TXT_def broken_store_def) (simp add: hello_store_def)

lemma broken_allocate: "ios_fs_fat_allocate (st_fat hello_store) 1 8 = Inr ((st_fat hello_store)[3 := IOS_FS_FAT_END_OF_CHAIN], [3])"
  by (simp add: hello_store_def ios_fs_fat_allocate_def valid_entry_count_def upt_rec)

lemma broken_write:
  "ios_fs_file_write empty_file broken_store [33]
    = (empty_file\<lparr>fi_primary := primary_A_TXT\<lparr>p_first_cluster := 3\<rparr>\<rparr>,
       broken_store\<lparr>st_fat := (st_fat hello_store)[3 := IOS_FS_FAT_END_OF_CHAIN],
         st_io_context := fst (memory_zero hello_memory 3)\<rparr>, 0, Inl IOS_E_IO)"
proof -
  have chain: "load_chain empty_file broken_store = Inr []" by (rule load_chain_ok [OF empty_ok])
  have ens: "ensure_clusters empty_file broken_store 1 = (empty_file\<lparr>fi_primary := primary_A_TXT\<lparr>p_first_cluster := 3\<rparr>\<rparr>,
       broken_store\<lparr>st_fat := (st_fat hello_store)[3 := IOS_FS_FAT_END_OF_CHAIN],
         st_io_context := fst (memory_zero hello_memory 3)\<rparr>, Inr [3])"
    using chain broken_allocate unfolding ensure_clusters_def
    by (simp add: empty_file_def hello_file_def broken_store_def memory_operations_def memory_zero_def del: One_nat_def)
      (simp add: hello_store_def)
  have st: "st_cluster_bytes broken_store = 4096" "st_writable broken_store" "st_operations broken_store = memory_operations\<lparr>co_write := (\<lambda>memory cluster buffer. (memory, Inl IOS_E_IO))\<rparr>"
    by (simp_all add: broken_store_def hello_store_def)
  have fl: "fi_open empty_file" "fi_writable empty_file" "fi_position empty_file = 0" "fi_primary empty_file = primary_A_TXT"
    by (simp_all add: empty_file_def hello_file_def)
  show ?thesis using ens st fl
    by (simp add: ios_fs_file_write_def primary_A_TXT_def memory_operations_def memory_read_def Let_def del: One_nat_def)
qed

theorem file_failed_write_poisons_witness:
  "snd (snd (snd (ios_fs_file_write (empty_file\<lparr>fi_primary := primary_A_TXT\<lparr>p_first_cluster := 3\<rparr>\<rparr>)
    (broken_store\<lparr>st_fat := (st_fat hello_store)[3 := IOS_FS_FAT_END_OF_CHAIN], st_io_context := fst (memory_zero hello_memory 3)\<rparr>) [34]))) = Inl IOS_E_CORRUPT"
  using file_failed_write_poisons [OF empty_ok _ broken_write, of "[34]"]
  by (simp add: empty_file_def hello_file_def primary_A_TXT_def)

lemma hello_write:
  "ios_fs_file_write (hello_file 5) hello_store [33] = ((hello_file 6)\<lparr>fi_primary := hello_primary\<lparr>p_file_size := 6\<rparr>\<rparr>,
     hello_store\<lparr>st_io_context := fst (memory_write hello_memory 2 (overwrite (memory_cluster hello_memory 2) 5 [33]))\<rparr>, 1, Inr ())"
proof -
  have ens: "ensure_clusters (hello_file 5) hello_store 1 = (hello_file 5, hello_store, Inr [2])"
    using hello_load [of 5] by (simp add: ensure_clusters_def)
  have st: "st_cluster_bytes hello_store = 4096" "st_writable hello_store" "st_operations hello_store = memory_operations" "st_io_context hello_store = hello_memory"
    by (simp_all add: hello_store_def)
  have fl: "fi_open (hello_file p)" "fi_writable (hello_file p)" "fi_position (hello_file p) = p" "fi_primary (hello_file p) = hello_primary"
    "p_file_size hello_primary = 5" for p by (simp_all add: hello_file_def hello_primary_def)
  show ?thesis using ens st fl
    by (simp add: ios_fs_file_write_def memory_operations_def memory_read_def memory_write_def Let_def del: One_nat_def)
      (simp add: memory_operations_def memory_read_def memory_write_def Let_def hello_file_def)
qed

theorem file_write_read_back_witness:
  "\<exists>file' store' t file'' store'' out. ios_fs_file_write (hello_file 5) hello_store [33] = (file', store', t, Inr ())
    \<and> ios_fs_file_read (file'\<lparr>fi_position := 5\<rparr>) store' 1 = (file'', store'', out, Inr ()) \<and> out = [33]"
proof -
  define f where "f = (hello_file 5)\<lparr>fi_primary := hello_primary\<lparr>p_file_size := 6\<rparr>\<rparr>"
  define m where "m = fst (memory_write hello_memory 2 (overwrite (memory_cluster hello_memory 2) 5 [33]))"
  have f: "fi_open f" "fi_position f = 5" "p_file_size (fi_primary f) = 6" by (simp_all add: f_def hello_file_def)
  have "load_chain f (hello_store\<lparr>st_io_context := m\<rparr>) = Inr [2]"
    using hello_entries by (simp add: load_chain_def f_def hello_file_def hello_primary_def traverse_iff_chain)
  then obtain file'' store'' out where rd: "ios_fs_file_read f (hello_store\<lparr>st_io_context := m\<rparr>) 1 = (file'', store'', out, Inr ())"
    using f by (simp add: ios_fs_file_read_def hello_store_def memory_operations_def memory_read_def Let_def)
  have "f = (fst (ios_fs_file_seek ((hello_file 6)\<lparr>fi_primary := hello_primary\<lparr>p_file_size := 6\<rparr>\<rparr>) IOS_FS_SEEK_SET (int (unat (5 :: u32)))))"
    by (subst seek_set) (simp_all add: f_def hello_file_def)
  then have "out = [33]"
    using file_write_read_back [OF hello_store_device TrueI hello_ok hello_write [folded m_def], of file'' store'' out] rd
    by (simp add: hello_file_def)
  then show ?thesis using hello_write [folded m_def] rd by (auto simp: f_def hello_file_def)
qed

end
