(* ===== verification/Hyperv_Ring.thy ===== *)
theory Hyperv_Ring
  imports IOS_Prelude
begin

text \<open>
  The packet ring of the Hyper-V bus (ring.c): a circular byte buffer shared with the host, its
  indices in a header page. A packet is a descriptor, a payload, padding to eight bytes and a
  trailer, copied in at the write index and out at the read index, in two parts where it
  meets the end of the buffer. The ring refines a queue of bytes (\<open>ring_bytes\<close>) and on top of it a
  first-in first-out queue of packets; the locale \<open>packet_channel\<close> states what its
  clients rely on. Indices are 32-bit values written as naturals with the wrap-around of
  their sum explicit. Each call reads the two indices once, between barriers, so that it is a
  single step; the host moves the other end between calls.
\<close>

section \<open>State\<close>

abbreviation IOS_HV_PAGE_SIZE :: nat where "IOS_HV_PAGE_SIZE \<equiv> 4096"
abbreviation IOS_HV_PACKET_ALIGNMENT :: nat where "IOS_HV_PACKET_ALIGNMENT \<equiv> 8"
abbreviation IOS_HV_PACKET_TRAILER_SIZE :: nat where "IOS_HV_PACKET_TRAILER_SIZE \<equiv> 8"
abbreviation IOS_HV_MESSAGE_PAYLOAD_SIZE :: nat where "IOS_HV_MESSAGE_PAYLOAD_SIZE \<equiv> 240"
abbreviation IOS_HV_PACKET_TYPE_DATA_USING_GPA_DIRECT :: u16 where "IOS_HV_PACKET_TYPE_DATA_USING_GPA_DIRECT \<equiv> 9"

record ios_hv_ring =
  hr_write_index :: nat
  hr_read_index :: nat
  hr_interrupt_mask :: nat
  hr_pending_send_size :: nat
  hr_data :: bytes
  hr_data_size :: nat

record ios_hv_packet_descriptor =
  pd_type :: u16
  pd_data_offset_8 :: u16
  pd_length_8 :: u16
  pd_flags :: u16
  pd_transaction_id :: u64

abbreviation descriptor_size :: nat where "descriptor_size \<equiv> 16"

definition descriptor_bytes :: "ios_hv_packet_descriptor \<Rightarrow> bytes" where
  "descriptor_bytes d = write_u16 (pd_type d) @ write_u16 (pd_data_offset_8 d) @ write_u16 (pd_length_8 d)
     @ write_u16 (pd_flags d) @ write_u64 (pd_transaction_id d)"

definition descriptor_of_bytes :: "bytes \<Rightarrow> ios_hv_packet_descriptor" where
  "descriptor_of_bytes bs = \<lparr>pd_type = read_u16 (field_at 0 2 bs), pd_data_offset_8 = read_u16 (field_at 2 2 bs),
     pd_length_8 = read_u16 (field_at 4 2 bs), pd_flags = read_u16 (field_at 6 2 bs),
     pd_transaction_id = read_u64 (field_at 8 8 bs)\<rparr>"

section \<open>Operations\<close>

definition ring_used :: "nat \<Rightarrow> nat \<Rightarrow> nat \<Rightarrow> nat" where
  "ring_used write_index read_index ring_size =
     (if write_index \<ge> read_index then write_index - read_index else ring_size - (read_index - write_index))"

definition ring_copy_in :: "nat \<Rightarrow> bytes \<Rightarrow> nat \<Rightarrow> bytes \<Rightarrow> bytes" where
  "ring_copy_in data_size data index source =
     (let first = (if length source > data_size - index then data_size - index else length source);
          data = overwrite data index (take first source)
      in if length source > first then overwrite data 0 (drop first source) else data)"

definition ring_copy_out :: "nat \<Rightarrow> bytes \<Rightarrow> nat \<Rightarrow> nat \<Rightarrow> bytes" where
  "ring_copy_out data_size data index count =
     (let first = (if count > data_size - index then data_size - index else count)
      in take first (drop index data) @ (if count > first then take (count - first) data else []))"

definition ring_advance :: "nat \<Rightarrow> nat \<Rightarrow> nat \<Rightarrow> nat" where
  "ring_advance data_size index amount = (index + amount) mod 2 ^ 32 mod data_size"

text \<open>The memory is given by its address and by what its header and data hold.\<close>

definition hyperv_ring_initialize :: "nat \<Rightarrow> nat \<Rightarrow> ios_hv_ring \<Rightarrow> ios_hv_ring \<times> unit res" where
  "hyperv_ring_initialize memory byte_count contents =
     (if memory = 0 \<or> memory mod IOS_HV_PAGE_SIZE \<noteq> 0 \<or> byte_count < IOS_HV_PAGE_SIZE + 64 \<or> byte_count > UINT32_MAX
         \<or> (byte_count - IOS_HV_PAGE_SIZE) mod IOS_HV_PACKET_ALIGNMENT \<noteq> 0
      then (contents, Inl IOS_E_INVALID_ARGUMENT)
      else
        let ring = contents\<lparr>hr_data_size := byte_count - IOS_HV_PAGE_SIZE\<rparr> in
        if hr_write_index ring \<ge> hr_data_size ring \<or> hr_read_index ring \<ge> hr_data_size ring
        then (ring, Inl IOS_E_CORRUPT) else (ring, Inr ()))"

definition align_packet :: "nat \<Rightarrow> nat" where
  "align_packet n = (n + (IOS_HV_PACKET_ALIGNMENT - 1)) div IOS_HV_PACKET_ALIGNMENT * IOS_HV_PACKET_ALIGNMENT"

definition ring_trailer :: "nat \<Rightarrow> nat \<Rightarrow> bytes" where
  "ring_trailer write_index read_index = write_u64 (push_bit 32 (of_nat write_index) OR of_nat read_index)"

definition hyperv_ring_write ::
  "ios_hv_ring \<Rightarrow> u16 \<Rightarrow> u16 \<Rightarrow> u64 \<Rightarrow> bytes \<Rightarrow> ios_hv_ring \<times> bool res" where
  "hyperv_ring_write ring packet_type flags transaction_id payload =
     (if length payload > 65535 * IOS_HV_PACKET_ALIGNMENT - descriptor_size then (ring, Inl IOS_E_INVALID_ARGUMENT)
      else
        let packet_size = descriptor_size + length payload;
            aligned_size = align_packet packet_size
        in if aligned_size > SIZE_MAX - IOS_HV_PACKET_TRAILER_SIZE then (ring, Inl IOS_E_OVERFLOW)
        else
          let required = aligned_size + IOS_HV_PACKET_TRAILER_SIZE; data_size = hr_data_size ring in
          if required \<ge> data_size then (ring, Inl IOS_E_NO_SPACE)
          else if hr_write_index ring \<ge> data_size \<or> hr_read_index ring \<ge> data_size then (ring, Inl IOS_E_CORRUPT)
          else if required > data_size - ring_used (hr_write_index ring) (hr_read_index ring) data_size - 1
          then (ring\<lparr>hr_pending_send_size := required\<rparr>, Inl IOS_E_WOULD_BLOCK)
          else
            let descriptor = \<lparr>pd_type = packet_type,
                  pd_data_offset_8 = of_nat (descriptor_size div IOS_HV_PACKET_ALIGNMENT),
                  pd_length_8 = of_nat (aligned_size div IOS_HV_PACKET_ALIGNMENT),
                  pd_flags = flags, pd_transaction_id = transaction_id\<rparr>;
                data = ring_copy_in data_size (hr_data ring) (hr_write_index ring) (descriptor_bytes descriptor);
                write_index = ring_advance data_size (hr_write_index ring) descriptor_size;
                (data, write_index) =
                  (if length payload \<noteq> 0
                   then (ring_copy_in data_size data write_index payload, ring_advance data_size write_index (length payload))
                   else (data, write_index));
                (data, write_index) =
                  (if aligned_size > packet_size
                   then (ring_copy_in data_size data write_index (replicate (aligned_size - packet_size) 0),
                         ring_advance data_size write_index (aligned_size - packet_size))
                   else (data, write_index));
                data = ring_copy_in data_size data write_index (ring_trailer (hr_write_index ring) (hr_read_index ring));
                write_index = ring_advance data_size write_index IOS_HV_PACKET_TRAILER_SIZE
            in (ring\<lparr>hr_data := data, hr_write_index := write_index\<rparr>, Inr (hr_interrupt_mask ring = 0)))"

abbreviation MAX_GPA_PAGES :: nat where "MAX_GPA_PAGES \<equiv> 64"

definition gpa_page_count :: "nat \<Rightarrow> nat \<Rightarrow> nat" where
  "gpa_page_count data_physical data_size =
     (data_physical mod IOS_HV_PAGE_SIZE + data_size + IOS_HV_PAGE_SIZE - 1) div IOS_HV_PAGE_SIZE"

text \<open>The packet behind its descriptor: the range header, the page numbers, the payload, zeros.\<close>

definition gpa_direct_body :: "bytes \<Rightarrow> nat \<Rightarrow> nat \<Rightarrow> bytes" where
  "gpa_direct_body payload data_physical data_size =
     (let page_count = gpa_page_count data_physical data_size;
          packet_size = descriptor_size + 16 + page_count * 8 + length payload
      in write_u32 0 @ write_u32 1 @ write_u32 (of_nat data_size) @ write_u32 (of_nat (data_physical mod IOS_HV_PAGE_SIZE))
         @ concat (map (\<lambda>index. write_u64 (of_nat (data_physical div IOS_HV_PAGE_SIZE + index))) [0..<page_count])
         @ payload @ replicate (align_packet packet_size - packet_size) 0)"

definition hyperv_ring_write_gpa_direct ::
  "ios_hv_ring \<Rightarrow> u16 \<Rightarrow> u64 \<Rightarrow> bytes \<Rightarrow> nat \<Rightarrow> nat \<Rightarrow> ios_hv_ring \<times> bool res" where
  "hyperv_ring_write_gpa_direct ring flags transaction_id payload data_physical data_bytes =
     (if payload = [] \<or> length payload > IOS_HV_MESSAGE_PAYLOAD_SIZE \<or> data_bytes = 0 \<or> data_bytes > UINT32_MAX
         \<or> data_physical > SIZE_MAX - data_bytes
      then (ring, Inl IOS_E_INVALID_ARGUMENT)
      else
        let page_count = gpa_page_count data_physical data_bytes in
        if page_count = 0 \<or> page_count > MAX_GPA_PAGES then (ring, Inl IOS_E_OUT_OF_RANGE)
        else
          let data_offset = descriptor_size + 16 + page_count * 8;
              aligned_size = align_packet (data_offset + length payload);
              required = aligned_size + IOS_HV_PACKET_TRAILER_SIZE;
              data_size = hr_data_size ring
          in if required \<ge> data_size then (ring, Inl IOS_E_NO_SPACE)
          else if hr_write_index ring \<ge> data_size \<or> hr_read_index ring \<ge> data_size then (ring, Inl IOS_E_CORRUPT)
          else if required > data_size - ring_used (hr_write_index ring) (hr_read_index ring) data_size - 1
          then (ring\<lparr>hr_pending_send_size := required\<rparr>, Inl IOS_E_WOULD_BLOCK)
          else
            let descriptor = \<lparr>pd_type = IOS_HV_PACKET_TYPE_DATA_USING_GPA_DIRECT,
                  pd_data_offset_8 = of_nat (data_offset div IOS_HV_PACKET_ALIGNMENT),
                  pd_length_8 = of_nat (aligned_size div IOS_HV_PACKET_ALIGNMENT),
                  pd_flags = flags, pd_transaction_id = transaction_id\<rparr>;
                packet = descriptor_bytes descriptor @ gpa_direct_body payload data_physical data_bytes;
                data = ring_copy_in data_size (hr_data ring) (hr_write_index ring) packet;
                write_index = ring_advance data_size (hr_write_index ring) aligned_size;
                data = ring_copy_in data_size data write_index (ring_trailer (hr_write_index ring) (hr_read_index ring));
                write_index = ring_advance data_size write_index IOS_HV_PACKET_TRAILER_SIZE
            in (ring\<lparr>hr_data := data, hr_write_index := write_index\<rparr>, Inr (hr_interrupt_mask ring = 0)))"

text \<open>
  A read returns the type, the transaction and the payload. When the caller's buffer is too
  small the needed size is returned beside the error; it is the last component.
\<close>

definition hyperv_ring_read :: "ios_hv_ring \<Rightarrow> nat \<Rightarrow> ios_hv_ring \<times> (u16 \<times> u64 \<times> bytes) res \<times> nat option" where
  "hyperv_ring_read ring payload_capacity =
     (let data_size = hr_data_size ring; read_index = hr_read_index ring; write_index = hr_write_index ring in
      if write_index \<ge> data_size \<or> read_index \<ge> data_size then (ring, Inl IOS_E_CORRUPT, None)
      else
        let used = ring_used write_index read_index data_size in
        if used = 0 then (ring, Inl IOS_E_WOULD_BLOCK, None)
        else if used < descriptor_size + IOS_HV_PACKET_TRAILER_SIZE then (ring, Inl IOS_E_CORRUPT, None)
        else
          let descriptor = descriptor_of_bytes (ring_copy_out data_size (hr_data ring) read_index descriptor_size);
              data_offset = unat (pd_data_offset_8 descriptor) * IOS_HV_PACKET_ALIGNMENT;
              packet_size = unat (pd_length_8 descriptor) * IOS_HV_PACKET_ALIGNMENT
          in if data_offset < descriptor_size \<or> data_offset > packet_size
                \<or> packet_size > used - IOS_HV_PACKET_TRAILER_SIZE
                \<or> packet_size mod IOS_HV_PACKET_ALIGNMENT \<noteq> 0
             then (ring, Inl IOS_E_PROTOCOL, None)
             else
               let n = packet_size - data_offset in
               if n > payload_capacity then (ring, Inl IOS_E_NO_SPACE, Some n)
               else
                 let payload = (if n \<noteq> 0
                       then ring_copy_out data_size (hr_data ring) (ring_advance data_size read_index data_offset) n else [])
                 in (ring\<lparr>hr_read_index := ring_advance data_size read_index (packet_size + IOS_HV_PACKET_TRAILER_SIZE)\<rparr>,
                     Inr (pd_type descriptor, pd_transaction_id descriptor, payload), Some n))"


section \<open>Windows of a circular buffer\<close>

definition window :: "nat \<Rightarrow> 'a list \<Rightarrow> nat \<Rightarrow> nat \<Rightarrow> 'a list" where
  "window m data index n = map (\<lambda>i. data ! ((index + i) mod m)) [0..<n]"

lemma length_window [simp]: "length (window m data index n) = n"
  by (simp add: window_def)

lemma window_nth: "i < n \<Longrightarrow> window m data index n ! i = data ! ((index + i) mod m)"
  by (simp add: window_def)

lemma window_0 [simp]: "window m data index 0 = []"
  by (simp add: window_def)

lemma window_append: "window m data index (a + b) = window m data index a @ window m data ((index + a) mod m) b"
proof -
  have "[0..<a + b] = [0..<a] @ map (\<lambda>i. i + a) [0..<b]"
    using upt_add_eq_append [of 0 a b] map_add_upt [of a b] by (simp add: add.commute)
  moreover have "(index + (i + a)) mod m = ((index + a) mod m + i) mod m" for i
    by (metis add.assoc add.commute mod_add_left_eq)
  ultimately show ?thesis by (simp add: window_def)
qed

lemma window_mod: "window m data (index mod m) n = window m data index n"
  by (simp add: window_def mod_simps)

lemma take_window: "a \<le> n \<Longrightarrow> take a (window m data index n) = window m data index a"
  by (rule nth_equalityI) (auto simp: window_nth)

lemma drop_window: "a \<le> n \<Longrightarrow> drop a (window m data index n) = window m data ((index + a) mod m) (n - a)"
  using window_append [of m data index a "n - a"] by simp

text \<open>The distance from an index to a position, going round.\<close>

definition distance :: "nat \<Rightarrow> nat \<Rightarrow> nat \<Rightarrow> nat" where
  "distance m index j = (if index \<le> j then j - index else j + m - index)"

lemma distance_lt: "index < m \<Longrightarrow> j < m \<Longrightarrow> distance m index j < m"
  by (auto simp: distance_def)

lemma distance_mod: "index < m \<Longrightarrow> i < m \<Longrightarrow> distance m index ((index + i) mod m) = i"
  by (cases "index + i < m") (auto simp: distance_def mod_if)

lemma distance_self: "index < m \<Longrightarrow> j < m \<Longrightarrow> (index + distance m index j) mod m = j"
  by (auto simp: distance_def)

lemma distance_shift:
  assumes "index < m" and "j < m" and "a < m"
  shows "distance m ((index + a) mod m) j =
    (if a \<le> distance m index j then distance m index j - a else distance m index j + m - a)"
  using assms by (cases "index + a < m") (auto simp: distance_def mod_if)

lemma length_copy_in [simp]:
  assumes "length data = m" and "index < m" and "length src \<le> m"
  shows "length (ring_copy_in m data index src) = m"
  using assms by (auto simp: ring_copy_in_def Let_def)

lemma copy_in_nth:
  assumes "length data = m" and "index < m" and "length src \<le> m" and "j < m"
  shows "ring_copy_in m data index src ! j =
    (if distance m index j < length src then src ! distance m index j else data ! j)"
proof (cases "length src > m - index")
  case True
  define first where "first = m - index"
  have l: "length (overwrite data index (take first src)) = m"
    using assms True by (simp add: first_def)
  have "ring_copy_in m data index src = overwrite (overwrite data index (take first src)) 0 (drop first src)"
    using True assms(2) by (simp add: ring_copy_in_def Let_def first_def)
  also have "\<dots> ! j = (if j < length src - first then drop first src ! j else overwrite data index (take first src) ! j)"
    using assms l by (subst nth_overwrite) (auto simp: first_def)
  also have "\<dots> = (if j < length src - first then src ! (first + j)
      else if index \<le> j then src ! (j - index) else data ! j)"
    using assms True by (auto simp: nth_overwrite first_def)
  finally have eq: "ring_copy_in m data index src ! j = (if j < length src - first then src ! (first + j)
      else if index \<le> j then src ! (j - index) else data ! j)" .
  have "length src - first \<le> index" using assms by (simp add: first_def)
  then show ?thesis using assms True unfolding eq by (auto simp: distance_def first_def add.commute)
next
  case False
  then have "ring_copy_in m data index src = overwrite data index src"
    by (simp add: ring_copy_in_def Let_def)
  then show ?thesis using assms False by (auto simp: nth_overwrite distance_def)
qed

lemma copy_in_window:
  assumes "length data = m" and "index < m" and "length src \<le> m" and "n + length src \<le> m" and "n < m" "start < m"
    and "index = (start + n) mod m"
  shows "window m (ring_copy_in m data index src) start n = window m data start n"
proof (rule nth_equalityI)
  fix i assume "i < length (window m (ring_copy_in m data index src) start n)"
  then have i: "i < n" by simp
  have "distance m index ((start + i) mod m) = i + m - n"
  proof -
    have "distance m start ((start + i) mod m) = i" using i assms by (intro distance_mod) simp_all
    then show ?thesis
      using distance_shift [of start m "(start + i) mod m" n] i assms by simp
  qed
  then have "\<not> distance m index ((start + i) mod m) < length src" using assms(4) i by simp
  then show "window m (ring_copy_in m data index src) start n ! i = window m data start n ! i"
    using i assms by (simp add: window_nth copy_in_nth)
qed simp

lemma copy_in_window_self:
  assumes "length data = m" and "index < m" and "length src \<le> m"
  shows "window m (ring_copy_in m data index src) index (length src) = src"
proof (rule nth_equalityI)
  fix i assume "i < length (window m (ring_copy_in m data index src) index (length src))"
  then have i: "i < length src" by simp
  then have "distance m index ((index + i) mod m) = i" using assms by (intro distance_mod) simp_all
  then show "window m (ring_copy_in m data index src) index (length src) ! i = src ! i"
    using i assms by (simp add: window_nth copy_in_nth)
qed simp

lemma copy_in_append:
  assumes "length data = m" and "index < m" and "length a + length b \<le> m" and "length a < m"
  shows "ring_copy_in m (ring_copy_in m data index a) ((index + length a) mod m) b = ring_copy_in m data index (a @ b)"
    (is "?l = ?r")
proof (rule nth_equalityI)
  have la: "length (ring_copy_in m data index a) = m" using assms by simp
  have i': "(index + length a) mod m < m" using assms(2) by simp
  show "length ?l = length ?r" using assms la i' by simp
  fix j assume "j < length ?l"
  then have j: "j < m" using la i' assms by simp
  define k where "k = distance m index j"
  have k: "k < m" unfolding k_def using assms(2) j by (rule distance_lt)
  have "?l ! j = (if distance m ((index + length a) mod m) j < length b
      then b ! distance m ((index + length a) mod m) j else ring_copy_in m data index a ! j)"
    using la i' assms j by (intro copy_in_nth) simp_all
  also have "\<dots> = (if k < length a then a ! k else if k - length a < length b then b ! (k - length a) else data ! j)"
    using assms j k distance_shift [OF assms(2) j assms(4)] by (auto simp: copy_in_nth k_def)
  also have "\<dots> = ?r ! j" using assms j by (auto simp: copy_in_nth k_def nth_append)
  finally show "?l ! j = ?r ! j" .
qed

lemma copy_out_window:
  assumes "length data = m" and "index < m" and "n \<le> m"
  shows "ring_copy_out m data index n = window m data index n"
proof (rule nth_equalityI)
  show "length (ring_copy_out m data index n) = length (window m data index n)"
    using assms by (auto simp: ring_copy_out_def Let_def)
  fix i assume "i < length (ring_copy_out m data index n)"
  then have i: "i < n" using assms by (auto simp: ring_copy_out_def Let_def split: if_splits)
  have "(index + i) mod m = (if index + i < m then index + i else index + i - m)"
    using assms i by (auto simp: mod_if)
  then show "ring_copy_out m data index n ! i = window m data index n ! i"
    using assms i by (auto simp: ring_copy_out_def Let_def window_nth nth_append add.commute)
qed


section \<open>The ring as a queue of bytes\<close>

text \<open>
  The indices are in range and sums of two of them do not wrap around at 32 bits, which holds
  for rings of up to two gigabytes.
\<close>

definition ring_ok :: "ios_hv_ring \<Rightarrow> bool" where
  "ring_ok r \<longleftrightarrow> length (hr_data r) = hr_data_size r \<and> 64 \<le> hr_data_size r \<and> 2 * hr_data_size r \<le> 2 ^ 32
     \<and> hr_write_index r < hr_data_size r \<and> hr_read_index r < hr_data_size r"

definition ring_count :: "ios_hv_ring \<Rightarrow> nat" where
  "ring_count r = ring_used (hr_write_index r) (hr_read_index r) (hr_data_size r)"

definition ring_bytes :: "ios_hv_ring \<Rightarrow> bytes" where
  "ring_bytes r = window (hr_data_size r) (hr_data r) (hr_read_index r) (ring_count r)"

lemma length_ring_bytes [simp]: "length (ring_bytes r) = ring_count r"
  by (simp add: ring_bytes_def)

lemma ring_used_distance: "ring_used w r m = (if r \<le> w then w - r else m - (r - w))"
  by (simp add: ring_used_def)

lemma ring_count_lt: "ring_ok r \<Longrightarrow> ring_count r < hr_data_size r"
  by (auto simp: ring_ok_def ring_count_def ring_used_def)

lemma write_index_eq: "ring_ok r \<Longrightarrow> hr_write_index r = (hr_read_index r + ring_count r) mod hr_data_size r"
  by (auto simp: ring_ok_def ring_count_def ring_used_def)

lemma ring_used_mod:
  assumes "read < m" and "n < m"
  shows "ring_used ((read + n) mod m) read m = n"
  using assms by (cases "read + n < m") (auto simp: ring_used_def mod_if)

lemma advance_mod:
  assumes "index < m" and "amount \<le> m" and "2 * m \<le> 2 ^ 32"
  shows "ring_advance m index amount = (index + amount) mod m"
proof -
  have "index + amount < 2 ^ 32" using assms by simp
  then show ?thesis by (simp add: ring_advance_def)
qed

lemma ring_put:
  assumes ok: "ring_ok r" and fits: "length bs < hr_data_size r - ring_count r"
  defines "r' \<equiv> r\<lparr>hr_data := ring_copy_in (hr_data_size r) (hr_data r) (hr_write_index r) bs,
    hr_write_index := (hr_write_index r + length bs) mod hr_data_size r\<rparr>"
  shows "ring_ok r'" and "ring_bytes r' = ring_bytes r @ bs"
proof -
  let ?m = "hr_data_size r" and ?n = "ring_count r"
  have m: "length (hr_data r) = ?m" "hr_write_index r < ?m" "hr_read_index r < ?m" using ok by (simp_all add: ring_ok_def)
  have len: "?n + length bs < ?m" "?n < ?m" using fits by simp_all
  show "ring_ok r'" using ok m len by (simp add: ring_ok_def r'_def)
  have w: "hr_write_index r = (hr_read_index r + ?n) mod ?m" by (rule write_index_eq [OF ok])
  have w': "hr_write_index r' = (hr_read_index r + (?n + length bs)) mod ?m"
    by (simp add: r'_def w mod_simps ac_simps)
  have "ring_count r' = ?n + length bs"
    using ring_used_mod [OF m(3) len(1)] w' by (simp add: ring_count_def r'_def)
  then have "ring_bytes r' = window ?m (hr_data r') (hr_read_index r) (?n + length bs)"
    by (simp add: ring_bytes_def r'_def)
  also have "\<dots> = window ?m (hr_data r') (hr_read_index r) ?n @ window ?m (hr_data r') (hr_write_index r) (length bs)"
    by (simp add: window_append w)
  also have "window ?m (hr_data r') (hr_write_index r) (length bs) = bs"
    using copy_in_window_self [OF m(1,2), of bs] len by (simp add: r'_def)
  also have "window ?m (hr_data r') (hr_read_index r) ?n = ring_bytes r"
    using copy_in_window [OF m(1,2) _ _ len(2) m(3) w, of bs] len by (simp add: r'_def ring_bytes_def)
  finally show "ring_bytes r' = ring_bytes r @ bs" .
qed

lemma ring_take:
  assumes ok: "ring_ok r" and n: "n \<le> ring_count r"
  defines "r' \<equiv> r\<lparr>hr_read_index := (hr_read_index r + n) mod hr_data_size r\<rparr>"
  shows "ring_ok r'" and "ring_bytes r' = drop n (ring_bytes r)"
proof -
  let ?m = "hr_data_size r"
  have m: "hr_read_index r < ?m" "ring_count r < ?m" using ok ring_count_lt by (simp_all add: ring_ok_def)
  show "ring_ok r'" using ok m by (simp add: ring_ok_def r'_def)
  have w: "hr_write_index r = ((hr_read_index r + n) mod ?m + (ring_count r - n)) mod ?m"
  proof -
    have "hr_read_index r + ring_count r = hr_read_index r + n + (ring_count r - n)" using n by simp
    then show ?thesis unfolding write_index_eq [OF ok] by (simp only: mod_add_left_eq)
  qed
  have "ring_count r' = ring_count r - n"
    unfolding ring_count_def [of r'] using ring_used_mod [of "(hr_read_index r + n) mod ?m" ?m "ring_count r - n"] w m
    by (simp add: r'_def)
  then show "ring_bytes r' = drop n (ring_bytes r)"
    using n by (simp add: ring_bytes_def drop_window r'_def)
qed

section \<open>Packets\<close>

text \<open>A packet on the ring: what lies between descriptor and data, the data, and the trailer.\<close>

record ring_packet =
  rp_type :: u16
  rp_flags :: u16
  rp_transaction :: u64
  rp_ranges :: bytes
  rp_payload :: bytes
  rp_trailer :: bytes

definition packet_size_of :: "ring_packet \<Rightarrow> nat" where
  "packet_size_of p = descriptor_size + length (rp_ranges p) + length (rp_payload p)"

definition packet_wf :: "ring_packet \<Rightarrow> bool" where
  "packet_wf p \<longleftrightarrow> length (rp_ranges p) mod 8 = 0 \<and> length (rp_payload p) mod 8 = 0
     \<and> packet_size_of p \<le> 65535 * 8 \<and> length (rp_trailer p) = 8"

definition encode_packet :: "ring_packet \<Rightarrow> bytes" where
  "encode_packet p = descriptor_bytes \<lparr>pd_type = rp_type p,
       pd_data_offset_8 = of_nat ((descriptor_size + length (rp_ranges p)) div 8),
       pd_length_8 = of_nat (packet_size_of p div 8), pd_flags = rp_flags p, pd_transaction_id = rp_transaction p\<rparr>
     @ rp_ranges p @ rp_payload p @ rp_trailer p"

lemma length_descriptor_bytes [simp]: "length (descriptor_bytes d) = 16"
  by (simp add: descriptor_bytes_def)

lemma descriptor_roundtrip: "descriptor_of_bytes (descriptor_bytes d @ rest) = d"
  by (simp add: descriptor_of_bytes_def descriptor_bytes_def field_at_def)

lemma length_encode_packet: "packet_wf p \<Longrightarrow> length (encode_packet p) = packet_size_of p + 8"
  by (simp add: encode_packet_def packet_wf_def packet_size_of_def)


lemma align_packet_bounds: "n \<le> align_packet n" "align_packet n < n + 8" "align_packet n mod 8 = 0" "align_packet n div 8 * 8 = align_packet n"
  unfolding align_packet_def by presburger+

lemma align_packet_le: "n \<le> k \<Longrightarrow> k mod 8 = 0 \<Longrightarrow> align_packet n \<le> k"
  unfolding align_packet_def by presburger

definition written_packet :: "ios_hv_ring \<Rightarrow> u16 \<Rightarrow> u16 \<Rightarrow> u64 \<Rightarrow> bytes \<Rightarrow> ring_packet" where
  "written_packet r packet_type flags transaction_id payload =
     \<lparr>rp_type = packet_type, rp_flags = flags, rp_transaction = transaction_id, rp_ranges = [],
      rp_payload = payload @ replicate (align_packet (16 + length payload) - (16 + length payload)) 0,
      rp_trailer = ring_trailer (hr_write_index r) (hr_read_index r)\<rparr>"

definition gpa_ranges :: "nat \<Rightarrow> nat \<Rightarrow> bytes" where
  "gpa_ranges data_physical data_bytes =
     write_u32 0 @ write_u32 1 @ write_u32 (of_nat data_bytes) @ write_u32 (of_nat (data_physical mod 4096))
     @ concat (map (\<lambda>index. write_u64 (of_nat (data_physical div 4096 + index))) [0..<gpa_page_count data_physical data_bytes])"

definition gpa_packet :: "ios_hv_ring \<Rightarrow> u16 \<Rightarrow> u64 \<Rightarrow> bytes \<Rightarrow> nat \<Rightarrow> nat \<Rightarrow> ring_packet" where
  "gpa_packet r flags transaction_id payload data_physical data_bytes =
     (let n = 32 + gpa_page_count data_physical data_bytes * 8 + length payload in
      \<lparr>rp_type = IOS_HV_PACKET_TYPE_DATA_USING_GPA_DIRECT, rp_flags = flags, rp_transaction = transaction_id,
       rp_ranges = gpa_ranges data_physical data_bytes, rp_payload = payload @ replicate (align_packet n - n) 0,
       rp_trailer = ring_trailer (hr_write_index r) (hr_read_index r)\<rparr>)"

lemma length_gpa_ranges: "length (gpa_ranges a b) = 16 + gpa_page_count a b * 8"
  by (simp add: gpa_ranges_def length_concat comp_def sum_list_triv)

lemma length_ring_trailer [simp]: "length (ring_trailer w r) = 8"
  by (simp add: ring_trailer_def)

lemma written_packet_size:
  assumes "p = written_packet r t f x payload"
  shows "packet_size_of p = align_packet (16 + length payload)"
  using align_packet_bounds(1) [of "16 + length payload"] by (simp add: assms packet_size_of_def written_packet_def)

lemma written_packet_wf:
  assumes "length payload \<le> 65535 * 8 - 16"
  shows "packet_wf (written_packet r t f x payload)"
proof -
  let ?n = "16 + length payload"
  have "align_packet ?n \<le> 65535 * 8" using assms by (intro align_packet_le) simp_all
  moreover have "length (rp_payload (written_packet r t f x payload)) = align_packet ?n - 16"
    using align_packet_bounds(1) [of ?n] by (simp add: written_packet_def)
  moreover have "(align_packet ?n - 16) mod 8 = 0"
    using align_packet_bounds(1,3) [of ?n] by presburger
  ultimately show ?thesis
    by (simp add: packet_wf_def written_packet_size) (simp add: written_packet_def)
qed

lemma gpa_packet_size:
  assumes "p = gpa_packet r f x payload a b"
  shows "packet_size_of p = align_packet (32 + gpa_page_count a b * 8 + length payload)"
  using align_packet_bounds(1) [of "32 + gpa_page_count a b * 8 + length payload"]
  by (simp add: assms packet_size_of_def gpa_packet_def length_gpa_ranges Let_def)

lemma gpa_packet_wf:
  assumes "gpa_page_count a b \<le> 64" and "length payload \<le> 240"
  shows "packet_wf (gpa_packet r f x payload a b)"
proof -
  let ?c = "gpa_page_count a b" and ?n = "32 + gpa_page_count a b * 8 + length payload"
  have "align_packet ?n \<le> 65535 * 8" using assms by (intro align_packet_le) simp_all
  moreover have "length (rp_payload (gpa_packet r f x payload a b)) = align_packet ?n - (32 + ?c * 8)"
    using align_packet_bounds(1) [of ?n] by (simp add: gpa_packet_def Let_def)
  moreover have "(align_packet ?n - (32 + ?c * 8)) mod 8 = 0"
  proof -
    have "8 dvd align_packet ?n" using align_packet_bounds(3) [of ?n] by (simp add: mod_eq_0_iff_dvd)
    moreover have "8 dvd 32 + ?c * 8" by simp
    ultimately show ?thesis by (metis dvd_diff_nat mod_eq_0_iff_dvd)
  qed
  moreover have "length (rp_ranges (gpa_packet r f x payload a b)) mod 8 = 0"
    by (simp add: gpa_packet_def Let_def length_gpa_ranges)
  ultimately show ?thesis
    by (simp add: packet_wf_def gpa_packet_size) (simp add: gpa_packet_def Let_def)
qed


section \<open>Writing appends a packet\<close>

lemma encode_written:
  assumes "length payload \<le> 65535 * 8 - 16"
  shows "encode_packet (written_packet r t f x payload) =
    descriptor_bytes \<lparr>pd_type = t, pd_data_offset_8 = of_nat (16 div 8),
      pd_length_8 = of_nat (align_packet (16 + length payload) div 8), pd_flags = f, pd_transaction_id = x\<rparr>
    @ payload @ replicate (align_packet (16 + length payload) - (16 + length payload)) 0
    @ ring_trailer (hr_write_index r) (hr_read_index r)"
  unfolding encode_packet_def written_packet_size [OF refl] by (simp add: written_packet_def)

lemma copy_chain:
  assumes "length data = m" and "index < m" and "length a + length b \<le> m" and "length a < m" and "2 * m \<le> 2 ^ 32"
  shows "ring_copy_in m (ring_copy_in m data index a) (ring_advance m index (length a)) b = ring_copy_in m data index (a @ b)"
    and "ring_advance m (ring_advance m index (length a)) (length b) = ring_advance m index (length (a @ b))"
proof -
  have adv: "ring_advance m index (length a) = (index + length a) mod m" using assms by (intro advance_mod) simp_all
  show "ring_copy_in m (ring_copy_in m data index a) (ring_advance m index (length a)) b = ring_copy_in m data index (a @ b)"
    unfolding adv using assms by (intro copy_in_append) simp_all
  have "ring_advance m ((index + length a) mod m) (length b) = ((index + length a) mod m + length b) mod m"
    using assms by (intro advance_mod) simp_all
  also have "\<dots> = (index + length (a @ b)) mod m" by (simp add: mod_add_left_eq add.assoc)
  also have "\<dots> = ring_advance m index (length (a @ b))" using assms by (intro advance_mod [symmetric]) simp_all
  finally show "ring_advance m (ring_advance m index (length a)) (length b) = ring_advance m index (length (a @ b))"
    unfolding adv .
qed

lemma optional_copy:
  assumes "length data = m" and "index < m" and "length a + length b \<le> m" and "length a < m" and "2 * m \<le> 2 ^ 32"
  shows "(if length b \<noteq> 0
      then (ring_copy_in m (ring_copy_in m data index a) (ring_advance m index (length a)) b,
            ring_advance m (ring_advance m index (length a)) (length b))
      else (ring_copy_in m data index a, ring_advance m index (length a)))
    = (ring_copy_in m data index (a @ b), ring_advance m index (length (a @ b)))"
  using copy_chain [OF assms] by simp

lemma copy_in_Nil: "length data = m \<Longrightarrow> index < m \<Longrightarrow> ring_copy_in m data index [] = data"
  by (simp add: ring_copy_in_def overwrite_def)

lemma write_cases:
  assumes ok: "ring_ok r" and p_def: "p = written_packet r t f x payload" and required_def: "required = align_packet (16 + length payload) + 8"
  shows "hyperv_ring_write r t f x payload =
    (if length payload > 65535 * 8 - 16 then (r, Inl IOS_E_INVALID_ARGUMENT)
     else if required \<ge> hr_data_size r then (r, Inl IOS_E_NO_SPACE)
     else if ring_count r + required \<ge> hr_data_size r then (r\<lparr>hr_pending_send_size := required\<rparr>, Inl IOS_E_WOULD_BLOCK)
     else (r\<lparr>hr_data := ring_copy_in (hr_data_size r) (hr_data r) (hr_write_index r) (encode_packet p),
             hr_write_index := (hr_write_index r + length (encode_packet p)) mod hr_data_size r\<rparr>,
           Inr (hr_interrupt_mask r = 0)))"
proof (cases "length payload > 65535 * 8 - 16 \<or> required \<ge> hr_data_size r")
  case True
  have small: "\<not> align_packet (16 + length payload) > SIZE_MAX - 8" if "\<not> length payload > 65535 * 8 - 16"
    using that align_packet_bounds(2) [of "16 + length payload"] by simp
  show ?thesis using True small unfolding hyperv_ring_write_def Let_def required_def by auto
next
  case False
  define m where "m = hr_data_size r"
  have M: "length (hr_data r) = m" "hr_write_index r < m" "hr_read_index r < m" "2 * m \<le> 2 ^ 32" "ring_count r < m"
    using ok ring_count_lt [OF ok] by (simp_all add: ring_ok_def m_def)
  have small: "length payload \<le> 65535 * 8 - 16" "\<not> align_packet (16 + length payload) > SIZE_MAX - 8" "\<not> required \<ge> m"
    using False align_packet_bounds(2) [of "16 + length payload"] by (simp_all add: m_def)
  have guards: "\<not> (hr_write_index r \<ge> m \<or> hr_read_index r \<ge> m)" using M by simp
  have rc: "ring_used (hr_write_index r) (hr_read_index r) m = ring_count r" by (simp add: ring_count_def m_def)
  show ?thesis
  proof (cases "ring_count r + required \<ge> m")
    case True
    then have "required > m - ring_count r - 1" using M(5) by simp
    then show ?thesis
      using True small guards unfolding hyperv_ring_write_def Let_def
      by (simp add: m_def [symmetric] required_def [symmetric] rc)
  next
    case fits: False
    define a where "a = descriptor_bytes \<lparr>pd_type = t, pd_data_offset_8 = of_nat (16 div 8),
      pd_length_8 = of_nat (align_packet (16 + length payload) div 8), pd_flags = f, pd_transaction_id = x\<rparr>"
    define pad where "pad = replicate (align_packet (16 + length payload) - (16 + length payload)) (0 :: u8)"
    define z where "z = ring_trailer (hr_write_index r) (hr_read_index r)"
    have enc: "encode_packet p = ((a @ payload) @ pad) @ z"
      using encode_written [OF small(1), of r t f x] by (simp add: p_def a_def pad_def z_def)
    have len: "length a = 16" "length z = 8" "16 + length payload + length pad = align_packet (16 + length payload)"
      "length (a @ payload @ pad) + 8 < m"
      using small(3) align_packet_bounds(1) [of "16 + length payload"]
      by (simp_all add: a_def z_def pad_def required_def)
    have fits': "\<not> required > m - ring_count r - 1" using fits M(5) by simp
    have one: "(if length payload \<noteq> 0
        then (ring_copy_in m (ring_copy_in m (hr_data r) (hr_write_index r) a) (ring_advance m (hr_write_index r) 16) payload,
              ring_advance m (ring_advance m (hr_write_index r) 16) (length payload))
        else (ring_copy_in m (hr_data r) (hr_write_index r) a, ring_advance m (hr_write_index r) 16))
      = (ring_copy_in m (hr_data r) (hr_write_index r) (a @ payload), ring_advance m (hr_write_index r) (length (a @ payload)))"
    proof -
      have "length a + length payload \<le> m" "length a < m" using len by simp_all
      from optional_copy [OF M(1,2) this M(4)] show ?thesis unfolding len(1) .
    qed
    have two: "(if align_packet (16 + length payload) > 16 + length payload
        then (ring_copy_in m (ring_copy_in m (hr_data r) (hr_write_index r) (a @ payload))
                (ring_advance m (hr_write_index r) (length (a @ payload))) pad,
              ring_advance m (ring_advance m (hr_write_index r) (length (a @ payload)))
                (align_packet (16 + length payload) - (16 + length payload)))
        else (ring_copy_in m (hr_data r) (hr_write_index r) (a @ payload), ring_advance m (hr_write_index r) (length (a @ payload))))
      = (ring_copy_in m (hr_data r) (hr_write_index r) ((a @ payload) @ pad),
         ring_advance m (hr_write_index r) (length ((a @ payload) @ pad)))"
    proof -
      have c: "align_packet (16 + length payload) > 16 + length payload \<longleftrightarrow> length pad \<noteq> 0"
        "align_packet (16 + length payload) - (16 + length payload) = length pad" by (auto simp: pad_def)
      have "length (a @ payload) + length pad \<le> m" "length (a @ payload) < m" using len by simp_all
      from optional_copy [OF M(1,2) this M(4)] show ?thesis unfolding c .
    qed
    have three: "ring_copy_in m (ring_copy_in m (hr_data r) (hr_write_index r) ((a @ payload) @ pad))
          (ring_advance m (hr_write_index r) (length ((a @ payload) @ pad))) z
        = ring_copy_in m (hr_data r) (hr_write_index r) (encode_packet p)"
      "ring_advance m (ring_advance m (hr_write_index r) (length ((a @ payload) @ pad))) 8
        = (hr_write_index r + length (encode_packet p)) mod m"
    proof -
      have l: "length ((a @ payload) @ pad) + length z \<le> m" "length ((a @ payload) @ pad) < m" using len by simp_all
      note c = copy_chain [OF M(1,2) l M(4)]
      show "ring_copy_in m (ring_copy_in m (hr_data r) (hr_write_index r) ((a @ payload) @ pad))
          (ring_advance m (hr_write_index r) (length ((a @ payload) @ pad))) z
        = ring_copy_in m (hr_data r) (hr_write_index r) (encode_packet p)" unfolding enc by (rule c(1))
      have "ring_advance m (hr_write_index r) (length (encode_packet p)) = (hr_write_index r + length (encode_packet p)) mod m"
        using M len by (intro advance_mod) (simp_all add: enc)
      then show "ring_advance m (ring_advance m (hr_write_index r) (length ((a @ payload) @ pad))) 8
        = (hr_write_index r + length (encode_packet p)) mod m"
        using c(2) unfolding len(2) enc by (simp only:)
    qed
    have "hyperv_ring_write r t f x payload = (r\<lparr>hr_data := ring_copy_in m (hr_data r) (hr_write_index r) (encode_packet p),
             hr_write_index := (hr_write_index r + length (encode_packet p)) mod m\<rparr>, Inr (hr_interrupt_mask r = 0))"
      unfolding hyperv_ring_write_def Let_def m_def [symmetric] required_def [symmetric] rc
        a_def [symmetric] pad_def [symmetric] z_def [symmetric] one prod.case two three
        if_not_P [OF small(2)] if_not_P [OF small(3)] if_not_P [OF guards] if_not_P [OF fits']
        if_not_P [OF small(1) [folded not_less]]
      by (rule refl)
    then show ?thesis using False fits unfolding m_def by simp
  qed
qed


lemma encode_gpa:
  "encode_packet (gpa_packet r f x payload a b) =
    (descriptor_bytes \<lparr>pd_type = IOS_HV_PACKET_TYPE_DATA_USING_GPA_DIRECT,
      pd_data_offset_8 = of_nat ((16 + 16 + gpa_page_count a b * 8) div 8),
      pd_length_8 = of_nat (align_packet (16 + 16 + gpa_page_count a b * 8 + length payload) div 8),
      pd_flags = f, pd_transaction_id = x\<rparr>
    @ gpa_direct_body payload a b) @ ring_trailer (hr_write_index r) (hr_read_index r)"
  unfolding encode_packet_def gpa_packet_size [OF refl]
  by (simp add: gpa_packet_def gpa_direct_body_def gpa_ranges_def [symmetric] length_gpa_ranges Let_def)
    (simp add: gpa_ranges_def)

lemma length_gpa_body: "16 + length (gpa_direct_body payload a b) = align_packet (16 + 16 + gpa_page_count a b * 8 + length payload)"
  using align_packet_bounds(1) [of "32 + gpa_page_count a b * 8 + length payload"]
  by (simp add: gpa_direct_body_def Let_def length_concat comp_def sum_list_triv)

lemma gpa_write_cases:
  assumes ok: "ring_ok r" and p_def: "p = gpa_packet r f x payload a b"
    and required_def: "required = align_packet (32 + gpa_page_count a b * 8 + length payload) + 8"
  shows "hyperv_ring_write_gpa_direct r f x payload a b =
    (if payload = [] \<or> length payload > 240 \<or> b = 0 \<or> b > UINT32_MAX \<or> a > SIZE_MAX - b then (r, Inl IOS_E_INVALID_ARGUMENT)
     else if gpa_page_count a b = 0 \<or> gpa_page_count a b > 64 then (r, Inl IOS_E_OUT_OF_RANGE)
     else if required \<ge> hr_data_size r then (r, Inl IOS_E_NO_SPACE)
     else if ring_count r + required \<ge> hr_data_size r then (r\<lparr>hr_pending_send_size := required\<rparr>, Inl IOS_E_WOULD_BLOCK)
     else (r\<lparr>hr_data := ring_copy_in (hr_data_size r) (hr_data r) (hr_write_index r) (encode_packet p),
             hr_write_index := (hr_write_index r + length (encode_packet p)) mod hr_data_size r\<rparr>,
           Inr (hr_interrupt_mask r = 0)))"
proof -
  define m where "m = hr_data_size r"
  have M: "length (hr_data r) = m" "hr_write_index r < m" "hr_read_index r < m" "2 * m \<le> 2 ^ 32" "ring_count r < m"
    using ok ring_count_lt [OF ok] by (simp_all add: ring_ok_def m_def)
  have guards: "\<not> (hr_write_index r \<ge> m \<or> hr_read_index r \<ge> m)" using M by simp
  have rc: "ring_used (hr_write_index r) (hr_read_index r) m = ring_count r" by (simp add: ring_count_def m_def)
  have n: "16 + 16 + gpa_page_count a b * 8 + length payload = 32 + gpa_page_count a b * 8 + length payload" by simp
  have room: "required > m - ring_count r - 1 \<longleftrightarrow> ring_count r + required \<ge> m" using M(5) by linarith
  define u where "u = descriptor_bytes \<lparr>pd_type = IOS_HV_PACKET_TYPE_DATA_USING_GPA_DIRECT,
      pd_data_offset_8 = of_nat ((16 + 16 + gpa_page_count a b * 8) div 8),
      pd_length_8 = of_nat (align_packet (32 + gpa_page_count a b * 8 + length payload) div 8),
      pd_flags = f, pd_transaction_id = x\<rparr> @ gpa_direct_body payload a b"
  define z where "z = ring_trailer (hr_write_index r) (hr_read_index r)"
  have enc: "encode_packet p = u @ z" unfolding p_def encode_gpa u_def z_def n ..
  have lu: "length u = align_packet (32 + gpa_page_count a b * 8 + length payload)" "length z = 8"
    using length_gpa_body [of payload a b] by (simp_all add: u_def z_def)
  have data: "ring_copy_in m (ring_copy_in m (hr_data r) (hr_write_index r) u)
        (ring_advance m (hr_write_index r) (align_packet (32 + gpa_page_count a b * 8 + length payload))) z
      = ring_copy_in m (hr_data r) (hr_write_index r) (encode_packet p)"
    "ring_advance m (ring_advance m (hr_write_index r) (align_packet (32 + gpa_page_count a b * 8 + length payload))) 8
      = (hr_write_index r + length (encode_packet p)) mod m" if "\<not> ring_count r + required \<ge> m"
  proof -
    have l: "length u + length z \<le> m" "length u < m" using that lu by (simp_all add: required_def)
    note c = copy_chain [OF M(1,2) l M(4)]
    show "ring_copy_in m (ring_copy_in m (hr_data r) (hr_write_index r) u)
        (ring_advance m (hr_write_index r) (align_packet (32 + gpa_page_count a b * 8 + length payload))) z
      = ring_copy_in m (hr_data r) (hr_write_index r) (encode_packet p)" using c(1) unfolding lu(1) enc .
    have "ring_advance m (hr_write_index r) (length (encode_packet p)) = (hr_write_index r + length (encode_packet p)) mod m"
      using M l by (intro advance_mod) (simp_all add: enc)
    then show "ring_advance m (ring_advance m (hr_write_index r) (align_packet (32 + gpa_page_count a b * 8 + length payload))) 8
      = (hr_write_index r + length (encode_packet p)) mod m" using c(2) unfolding lu enc by (simp only:)
  qed
  show ?thesis
    unfolding hyperv_ring_write_gpa_direct_def Let_def n m_def [symmetric] required_def [symmetric] rc room
      u_def [symmetric] z_def [symmetric] if_not_P [OF guards]
    using data by (simp split del: if_split cong: if_cong)
qed

section \<open>Reading takes the oldest packet\<close>

lemma read_cases:
  assumes ok: "ring_ok r"
  defines "bs \<equiv> ring_bytes r"
  defines "d \<equiv> descriptor_of_bytes (take 16 bs)"
  defines "offset \<equiv> unat (pd_data_offset_8 d) * 8" and "n \<equiv> unat (pd_length_8 d) * 8"
  shows "hyperv_ring_read r capacity =
    (if bs = [] then (r, Inl IOS_E_WOULD_BLOCK, None)
     else if length bs < 24 then (r, Inl IOS_E_CORRUPT, None)
     else if offset < 16 \<or> offset > n \<or> n > length bs - 8 then (r, Inl IOS_E_PROTOCOL, None)
     else if n - offset > capacity then (r, Inl IOS_E_NO_SPACE, Some (n - offset))
     else (r\<lparr>hr_read_index := (hr_read_index r + (n + 8)) mod hr_data_size r\<rparr>,
           Inr (pd_type d, pd_transaction_id d, take (n - offset) (drop offset bs)), Some (n - offset)))"
proof -
  define m where "m = hr_data_size r"
  have M: "length (hr_data r) = m" "hr_write_index r < m" "hr_read_index r < m" "2 * m \<le> 2 ^ 32" "ring_count r < m"
    using ok ring_count_lt [OF ok] by (simp_all add: ring_ok_def m_def)
  have rc: "ring_used (hr_write_index r) (hr_read_index r) m = length bs" by (simp add: ring_count_def m_def bs_def)
  have guards: "\<not> (hr_write_index r \<ge> m \<or> hr_read_index r \<ge> m)" using M by simp
  have lb: "length bs < m" using M(5) by (simp add: bs_def)
  have win: "bs = window m (hr_data r) (hr_read_index r) (length bs)" by (simp add: bs_def ring_bytes_def m_def)
  have d: "descriptor_of_bytes (ring_copy_out m (hr_data r) (hr_read_index r) 16) = d" if "\<not> length bs < 24"
  proof -
    have "ring_copy_out m (hr_data r) (hr_read_index r) 16 = window m (hr_data r) (hr_read_index r) 16"
      using M that lb by (intro copy_out_window) simp_all
    also have "\<dots> = take 16 bs" using that by (subst win) (simp add: take_window)
    finally show ?thesis by (simp add: d_def)
  qed
  have payload: "(if n - offset \<noteq> 0 then ring_copy_out m (hr_data r) (ring_advance m (hr_read_index r) offset) (n - offset) else [])
      = take (n - offset) (drop offset bs)"
    and adv: "ring_advance m (hr_read_index r) (n + 8) = (hr_read_index r + (n + 8)) mod m"
    if g: "\<not> length bs < 24" "\<not> (offset < 16 \<or> offset > n \<or> n > length bs - 8)"
  proof -
    have le: "offset \<le> n" "n + 8 \<le> length bs" using g by linarith+
    have a: "ring_advance m (hr_read_index r) offset = (hr_read_index r + offset) mod m"
      using M le lb by (intro advance_mod) simp_all
    have "ring_copy_out m (hr_data r) ((hr_read_index r + offset) mod m) (n - offset)
        = window m (hr_data r) ((hr_read_index r + offset) mod m) (n - offset)"
      using M le lb by (intro copy_out_window) simp_all
    also have "\<dots> = take (n - offset) (drop offset bs)"
      using le by (subst win) (simp add: take_window drop_window)
    finally show "(if n - offset \<noteq> 0 then ring_copy_out m (hr_data r) (ring_advance m (hr_read_index r) offset) (n - offset) else [])
      = take (n - offset) (drop offset bs)" unfolding a by simp
    show "ring_advance m (hr_read_index r) (n + 8) = (hr_read_index r + (n + 8)) mod m"
      using M le lb by (intro advance_mod) simp_all
  qed
  show ?thesis
  proof (cases "length bs < 24")
    case True
    then show ?thesis unfolding hyperv_ring_read_def Let_def m_def [symmetric] rc if_not_P [OF guards] by simp
  next
    case False
    have mod8: "n mod 8 = 0" by (simp add: n_def)
    have ne: "bs \<noteq> []" "length bs \<noteq> 0" using False by auto
    show ?thesis
      using payload [OF False] adv [OF False] mod8 ne False
      unfolding hyperv_ring_read_def Let_def m_def [symmetric] rc if_not_P [OF guards] d [OF False]
        offset_def [symmetric] n_def [symmetric]
      by simp
  qed
qed


lemma encode_fields:
  fixes rest :: bytes
  assumes "packet_wf p"
  defines "d \<equiv> descriptor_of_bytes (take 16 (encode_packet p @ rest))"
  shows "unat (pd_data_offset_8 d) * 8 = 16 + length (rp_ranges p)" "unat (pd_length_8 d) * 8 = packet_size_of p"
    "pd_type d = rp_type p" "pd_transaction_id d = rp_transaction p"
proof -
  have "take 16 (encode_packet p @ rest) = descriptor_bytes \<lparr>pd_type = rp_type p,
       pd_data_offset_8 = of_nat ((descriptor_size + length (rp_ranges p)) div 8),
       pd_length_8 = of_nat (packet_size_of p div 8), pd_flags = rp_flags p, pd_transaction_id = rp_transaction p\<rparr>"
    by (simp add: encode_packet_def)
  then have d: "d = \<lparr>pd_type = rp_type p, pd_data_offset_8 = of_nat ((descriptor_size + length (rp_ranges p)) div 8),
       pd_length_8 = of_nat (packet_size_of p div 8), pd_flags = rp_flags p, pd_transaction_id = rp_transaction p\<rparr>"
    using descriptor_roundtrip [where rest = "[]"] by (simp add: d_def)
  have wf: "length (rp_ranges p) mod 8 = 0" "length (rp_payload p) mod 8 = 0" "packet_size_of p \<le> 65535 * 8"
    using assms(1) by (simp_all add: packet_wf_def)
  have s: "packet_size_of p = 16 + length (rp_ranges p) + length (rp_payload p)" by (simp add: packet_size_of_def)
  have u: "unat (of_nat k :: u16) = k" if "k \<le> 65535" for k
    using that by (simp add: unsigned_of_nat take_bit_nat_eq_self)
  have "unat (pd_length_8 d) = packet_size_of p div 8" unfolding d using wf(3) by (simp add: u)
  moreover have "packet_size_of p div 8 * 8 = packet_size_of p" using wf(1,2) unfolding s by presburger
  ultimately show "unat (pd_length_8 d) * 8 = packet_size_of p" by simp
  have "unat (pd_data_offset_8 d) = (16 + length (rp_ranges p)) div 8" unfolding d using wf(3) s by (simp add: u)
  moreover have "(16 + length (rp_ranges p)) div 8 * 8 = 16 + length (rp_ranges p)" using wf(1) by presburger
  ultimately show "unat (pd_data_offset_8 d) * 8 = 16 + length (rp_ranges p)" by simp
  show "pd_type d = rp_type p" "pd_transaction_id d = rp_transaction p" by (simp_all add: d)
qed

lemma read_packet:
  assumes ok: "ring_ok r" and bytes: "ring_bytes r = encode_packet p @ rest" and wf: "packet_wf p"
  shows "length (rp_payload p) \<le> capacity \<Longrightarrow> \<exists>r'. hyperv_ring_read r capacity =
      (r', Inr (rp_type p, rp_transaction p, rp_payload p), Some (length (rp_payload p))) \<and> ring_ok r' \<and> ring_bytes r' = rest"
    and "capacity < length (rp_payload p) \<Longrightarrow>
      hyperv_ring_read r capacity = (r, Inl IOS_E_NO_SPACE, Some (length (rp_payload p)))"
proof -
  note f = encode_fields [OF wf, of rest]
  have s: "packet_size_of p = 16 + length (rp_ranges p) + length (rp_payload p)" by (simp add: packet_size_of_def)
  have le: "length (encode_packet p) = packet_size_of p + 8" by (rule length_encode_packet [OF wf])
  have ne: "encode_packet p @ rest \<noteq> []" "\<not> length (encode_packet p @ rest) < 24" using le s by auto
  have g: "\<not> (16 + length (rp_ranges p) < 16 \<or> 16 + length (rp_ranges p) > packet_size_of p
      \<or> packet_size_of p > length (encode_packet p @ rest) - 8)" using le s by simp
  have n: "packet_size_of p - (16 + length (rp_ranges p)) = length (rp_payload p)" by (simp add: s)
  have pay: "take (length (rp_payload p)) (drop (16 + length (rp_ranges p)) (encode_packet p @ rest)) = rp_payload p"
    by (simp add: encode_packet_def)
  note run = read_cases [OF ok, unfolded bytes f n pay if_not_P [OF ne(1)] if_not_P [OF ne(2)] if_not_P [OF g]]
  show "hyperv_ring_read r capacity = (r, Inl IOS_E_NO_SPACE, Some (length (rp_payload p)))" if "capacity < length (rp_payload p)"
    using run [of capacity] that by simp
  define r' where "r' = r\<lparr>hr_read_index := (hr_read_index r + (packet_size_of p + 8)) mod hr_data_size r\<rparr>"
  have c: "packet_size_of p + 8 \<le> ring_count r" using bytes le length_ring_bytes [of r] by (metis le_add1 length_append)
  have "ring_ok r'" "ring_bytes r' = rest"
    using ring_take [OF ok c] bytes le by (simp_all add: r'_def)
  then show "\<exists>r'. hyperv_ring_read r capacity =
      (r', Inr (rp_type p, rp_transaction p, rp_payload p), Some (length (rp_payload p))) \<and> ring_ok r' \<and> ring_bytes r' = rest"
    if "length (rp_payload p) \<le> capacity"
    using run [of capacity] that by (simp add: r'_def)
qed


section \<open>A first-in first-out channel of packets\<close>

primrec send_all :: "('r \<Rightarrow> 'm \<Rightarrow> 'r option) \<Rightarrow> 'r \<Rightarrow> 'm list \<Rightarrow> 'r option" where
  "send_all send r [] = Some r"
| "send_all send r (m # ms) = Option.bind (send r m) (\<lambda>r'. send_all send r' ms)"

primrec receive_all :: "('r \<Rightarrow> ('r \<times> 'v) option) \<Rightarrow> nat \<Rightarrow> 'r \<Rightarrow> ('r \<times> 'v list) option" where
  "receive_all receive 0 r = Some (r, [])"
| "receive_all receive (Suc n) r =
     Option.bind (receive r) (\<lambda>(r', v). Option.bind (receive_all receive n r') (\<lambda>(r'', vs). Some (r'', v # vs)))"

text \<open>
  What a client of the ring relies on: \<open>holds r ps\<close> says that \<open>r\<close> holds the packets \<open>ps\<close>,
  oldest first; a send that succeeds appends what the reader will see, a receive takes the
  oldest packet.
\<close>

locale packet_channel =
  fixes holds :: "'r \<Rightarrow> 'p list \<Rightarrow> bool"
    and send :: "'r \<Rightarrow> 'm \<Rightarrow> 'r option"
    and receive :: "'r \<Rightarrow> ('r \<times> 'v) option"
    and seen :: "'p \<Rightarrow> 'v"
    and shown :: "'m \<Rightarrow> 'v"
  assumes send_appends: "holds r ps \<Longrightarrow> send r m = Some r' \<Longrightarrow> \<exists>p. holds r' (ps @ [p]) \<and> seen p = shown m"
    and receive_oldest: "holds r (p # ps) \<Longrightarrow> \<exists>r'. receive r = Some (r', seen p) \<and> holds r' ps"
begin

lemma send_all_holds:
  "holds r ps \<Longrightarrow> send_all send r ms = Some r' \<Longrightarrow> \<exists>qs. holds r' (ps @ qs) \<and> map seen qs = map shown ms"
proof (induction ms arbitrary: r ps)
  case (Cons m ms)
  then obtain s where s: "send r m = Some s" "send_all send s ms = Some r'" by (auto simp: bind_eq_Some_conv)
  obtain p where p: "holds s (ps @ [p])" "seen p = shown m" using send_appends [OF Cons.prems(1) s(1)] by blast
  obtain qs where "holds r' ((ps @ [p]) @ qs)" "map seen qs = map shown ms" using Cons.IH [OF p(1) s(2)] by blast
  then show ?case using p(2) by (intro exI [of _ "p # qs"]) simp
qed (intro exI [of _ "[]"], simp)

lemma receive_all_holds:
  "holds r (ps @ qs) \<Longrightarrow> \<exists>r'. receive_all receive (length ps) r = Some (r', map seen ps) \<and> holds r' qs"
proof (induction ps arbitrary: r)
  case (Cons p ps)
  obtain s where s: "receive r = Some (s, seen p)" "holds s (ps @ qs)" using receive_oldest [of r p "ps @ qs"] Cons.prems by auto
  then show ?case using Cons.IH [OF s(2)] by auto
qed simp

lemma fifo:
  assumes "holds r []" and "send_all send r ms = Some r'"
  shows "\<exists>r''. receive_all receive (length ms) r' = Some (r'', map shown ms) \<and> holds r'' []"
proof -
  obtain qs where q: "holds r' qs" "map seen qs = map shown ms" using send_all_holds [OF assms] by auto
  then have "length qs = length ms" by (metis length_map)
  then show ?thesis using receive_all_holds [of r' qs "[]"] q by simp
qed

end

definition ring_holds :: "ios_hv_ring \<Rightarrow> ring_packet list \<Rightarrow> bool" where
  "ring_holds r ps \<longleftrightarrow> ring_ok r \<and> ring_bytes r = concat (map encode_packet ps) \<and> list_all packet_wf ps"

text \<open>A message: type, flags, transaction and payload. The reader sees the payload padded with zeros.\<close>

type_synonym ring_message = "u16 \<times> u16 \<times> u64 \<times> bytes"

definition padded :: "bytes \<Rightarrow> bytes" where
  "padded payload = payload @ replicate (align_packet (16 + length payload) - (16 + length payload)) 0"

fun ring_send :: "ios_hv_ring \<Rightarrow> ring_message \<Rightarrow> ios_hv_ring option" where
  "ring_send r (t, f, x, payload) =
     (case hyperv_ring_write r t f x payload of (r', Inr _) \<Rightarrow> Some r' | (r', Inl e) \<Rightarrow> None)"

text \<open>A receive with room for the largest packet.\<close>

definition ring_receive :: "ios_hv_ring \<Rightarrow> (ios_hv_ring \<times> (u16 \<times> u64 \<times> bytes)) option" where
  "ring_receive r = (case hyperv_ring_read r (65535 * 8) of (r', Inr v, _) \<Rightarrow> Some (r', v) | (r', Inl e, _) \<Rightarrow> None)"

definition packet_view :: "ring_packet \<Rightarrow> u16 \<times> u64 \<times> bytes" where
  "packet_view p = (rp_type p, rp_transaction p, rp_payload p)"

fun message_view :: "ring_message \<Rightarrow> u16 \<times> u64 \<times> bytes" where
  "message_view (t, f, x, payload) = (t, x, padded payload)"

lemma ring_write_ok:
  assumes ok: "ring_ok r" and run: "hyperv_ring_write r t f x payload = (r', Inr signal)"
  shows "ring_ok r' \<and> ring_bytes r' = ring_bytes r @ encode_packet (written_packet r t f x payload)
    \<and> packet_wf (written_packet r t f x payload) \<and> signal = (hr_interrupt_mask r = 0)"
proof -
  let ?p = "written_packet r t f x payload" and ?q = "align_packet (16 + length payload) + 8"
  have g: "length payload \<le> 65535 * 8 - 16" "ring_count r + ?q < hr_data_size r" "signal = (hr_interrupt_mask r = 0)"
    and r': "r' = r\<lparr>hr_data := ring_copy_in (hr_data_size r) (hr_data r) (hr_write_index r) (encode_packet ?p),
             hr_write_index := (hr_write_index r + length (encode_packet ?p)) mod hr_data_size r\<rparr>"
    using run unfolding write_cases [OF ok refl refl] by (auto split: if_splits)
  have wf: "packet_wf ?p" by (rule written_packet_wf [OF g(1)])
  have "length (encode_packet ?p) = ?q" using length_encode_packet [OF wf] written_packet_size [OF refl] by simp
  then have "length (encode_packet ?p) < hr_data_size r - ring_count r" using g(2) by simp
  from ring_put [OF ok this] show ?thesis using wf g(3) by (simp add: r')
qed

lemma ring_gpa_ok:
  assumes ok: "ring_ok r" and run: "hyperv_ring_write_gpa_direct r f x payload a b = (r', Inr signal)"
  shows "ring_ok r' \<and> ring_bytes r' = ring_bytes r @ encode_packet (gpa_packet r f x payload a b)
    \<and> packet_wf (gpa_packet r f x payload a b) \<and> signal = (hr_interrupt_mask r = 0)"
proof -
  let ?p = "gpa_packet r f x payload a b" and ?q = "align_packet (32 + gpa_page_count a b * 8 + length payload) + 8"
  have g: "gpa_page_count a b \<le> 64" "length payload \<le> 240" "ring_count r + ?q < hr_data_size r" "signal = (hr_interrupt_mask r = 0)"
    and r': "r' = r\<lparr>hr_data := ring_copy_in (hr_data_size r) (hr_data r) (hr_write_index r) (encode_packet ?p),
             hr_write_index := (hr_write_index r + length (encode_packet ?p)) mod hr_data_size r\<rparr>"
    using run unfolding gpa_write_cases [OF ok refl refl] by (auto split: if_splits)
  have wf: "packet_wf ?p" by (rule gpa_packet_wf [OF g(1,2)])
  have "length (encode_packet ?p) = ?q" using length_encode_packet [OF wf] gpa_packet_size [OF refl] by simp
  then have "length (encode_packet ?p) < hr_data_size r - ring_count r" using g(3) by simp
  from ring_put [OF ok this] show ?thesis using wf g(4) by (simp add: r')
qed

interpretation vmbus: packet_channel ring_holds ring_send ring_receive packet_view message_view
proof
  fix r ps and m :: ring_message and r'
  assume h: "ring_holds r ps" and s: "ring_send r m = Some r'"
  obtain t f x payload where m: "m = (t, f, x, payload)" by (cases m)
  obtain signal where run: "hyperv_ring_write r t f x payload = (r', Inr signal)"
    using s by (auto simp: m split: prod.splits sum.splits)
  have ok: "ring_ok r" using h by (simp add: ring_holds_def)
  show "\<exists>p. ring_holds r' (ps @ [p]) \<and> packet_view p = message_view m"
    using ring_write_ok [OF ok run] h
    by (intro exI [of _ "written_packet r t f x payload"])
      (simp add: ring_holds_def packet_view_def m padded_def, simp add: written_packet_def)
next
  fix r p ps
  assume h: "ring_holds r (p # ps)"
  then have g: "ring_ok r" "ring_bytes r = encode_packet p @ concat (map encode_packet ps)" "packet_wf p" "list_all packet_wf ps"
    by (simp_all add: ring_holds_def)
  have "length (rp_payload p) \<le> 65535 * 8" using g(3) by (simp add: packet_wf_def packet_size_of_def)
  from read_packet(1) [OF g(1-3) this]
  show "\<exists>r'. ring_receive r = Some (r', packet_view p) \<and> ring_holds r' ps"
    using g(4) by (auto simp: ring_receive_def packet_view_def ring_holds_def)
qed


section \<open>Properties\<close>


text \<open>C35: The ring delivers packets in order: after any number of writes that succeed on an empty ring, the
  same number of reads returns the types, transactions and payloads that were written, each payload padded with zeros to
  a multiple of eight bytes, and the ring is empty again.\<close>

theorem ring_fifo:
  assumes "ring_holds r []" and "send_all ring_send r messages = Some r'"
  shows "\<exists>r''. receive_all ring_receive (length messages) r' = Some (r'', map message_view messages) \<and> ring_holds r'' []"
  using vmbus.fifo [OF assms] .

text \<open>Whatever the host has put into the ring, a read is confined: an error leaves the ring as it was, and a
  packet that is returned fits the caller's buffer and is a slice of the bytes between the indices, of which
  a prefix, no longer than what is there, is consumed.\<close>

theorem ring_read_confined:
  assumes "length (hr_data r) = hr_data_size r" and "2 * hr_data_size r \<le> 2 ^ 32" and "64 \<le> hr_data_size r"
    and "hyperv_ring_read r capacity = (r', result, reported)"
  shows "case result of
      Inl e \<Rightarrow> r' = r
    | Inr (packet_type, transaction, payload) \<Rightarrow> length payload \<le> capacity \<and> ring_ok r'
        \<and> (\<exists>offset n. 16 \<le> offset \<and> offset + length payload = n \<and> n + 8 \<le> ring_count r
            \<and> payload = take (length payload) (drop offset (ring_bytes r)) \<and> ring_bytes r' = drop (n + 8) (ring_bytes r))"
proof (cases "ring_ok r")
  case False
  then have "hr_write_index r \<ge> hr_data_size r \<or> hr_read_index r \<ge> hr_data_size r" using assms(1-3) by (auto simp: ring_ok_def)
  then show ?thesis using assms(4) by (auto simp: hyperv_ring_read_def Let_def)
next
  case ok: True
  define d where "d = descriptor_of_bytes (take 16 (ring_bytes r))"
  define offset where "offset = unat (pd_data_offset_8 d) * 8"
  define n where "n = unat (pd_length_8 d) * 8"
  note run = read_cases [OF ok, of capacity, folded d_def, folded offset_def n_def]
  show ?thesis
  proof (cases result)
    case (Inl e)
    then show ?thesis using assms(4) unfolding run by (auto split: if_splits)
  next
    case (Inr v)
    have g: "\<not> length (ring_bytes r) < 24" "16 \<le> offset" "offset \<le> n" "n \<le> length (ring_bytes r) - 8" "n - offset \<le> capacity"
      and v: "v = (pd_type d, pd_transaction_id d, take (n - offset) (drop offset (ring_bytes r)))"
      and r': "r' = r\<lparr>hr_read_index := (hr_read_index r + (n + 8)) mod hr_data_size r\<rparr>"
      using assms(4) Inr unfolding run by (auto split: if_splits)
    have c: "n + 8 \<le> ring_count r" using g(1,4) by simp
    have l: "length (take (n - offset) (drop offset (ring_bytes r))) = n - offset" using c by simp
    have t: "ring_ok r'" "ring_bytes r' = drop (n + 8) (ring_bytes r)"
      using ring_take [OF ok c] by (simp_all add: r')
    have "\<exists>offset n. 16 \<le> offset \<and> offset + length (snd (snd v)) = n \<and> n + 8 \<le> ring_count r
            \<and> snd (snd v) = take (length (snd (snd v))) (drop offset (ring_bytes r)) \<and> ring_bytes r' = drop (n + 8) (ring_bytes r)"
      using c g(2,3) l t(2) by (intro exI [of _ offset] exI [of _ n]) (simp add: v)
    then show ?thesis using Inr l g(5) t(1) by (simp add: v)
  qed
qed

text \<open>A packet that describes guest memory carries one range: the exact byte count, the offset in the first page
  and the numbers of all pages that the range touches, in order; it is refused beyond 64 pages.\<close>

theorem ring_gpa_write_exact:
  assumes "ring_ok r" and "hyperv_ring_write_gpa_direct r flags transaction payload data_physical data_bytes = (r', Inr signal)"
  shows "ring_ok r' \<and> ring_bytes r' = ring_bytes r @ encode_packet (gpa_packet r flags transaction payload data_physical data_bytes)
    \<and> (\<forall>i < data_bytes. (data_physical + i) div 4096 \<in>
         {data_physical div 4096 ..< data_physical div 4096 + gpa_page_count data_physical data_bytes})
    \<and> gpa_page_count data_physical data_bytes \<le> 64"
proof -
  have g: "gpa_page_count data_physical data_bytes \<le> 64" "data_bytes \<noteq> 0"
    using assms(2) unfolding gpa_write_cases [OF assms(1) refl refl] by (auto split: if_splits)
  have "(data_physical + i) div 4096 < data_physical div 4096 + gpa_page_count data_physical data_bytes" if "i < data_bytes" for i
  proof -
    let ?r = "data_physical mod 4096"
    have "(data_physical + i) div 4096 = data_physical div 4096 + (?r + i) div 4096"
      using div_mult_self3 [of 4096 "data_physical div 4096" "?r + i"] by (simp add: ac_simps)
    moreover have "(?r + i) div 4096 + 1 = (?r + i + 4096) div 4096" by simp
    moreover have "(?r + i + 4096) div 4096 \<le> (?r + data_bytes + 4096 - 1) div 4096" using that by (intro div_le_mono) simp
    ultimately show ?thesis unfolding gpa_page_count_def by linarith
  qed
  moreover have "data_physical div 4096 \<le> (data_physical + i) div 4096" for i by (simp add: div_le_mono)
  ultimately show ?thesis using ring_gpa_ok [OF assms] g by auto
qed

text \<open>The advance of an index adds in 32 bits before it takes the remainder. A ring of nearly four gigabytes,
  which the initialisation accepts, therefore gets a wrong index where the sum passes \<open>2 ^ 32\<close>.\<close>

theorem ring_advance_overflow:
  assumes "hr_write_index contents = 0" and "hr_read_index contents = 0"
  shows "snd (hyperv_ring_initialize 4096 4294967288 contents) = Inr ()
    \<and> hr_data_size (fst (hyperv_ring_initialize 4096 4294967288 contents)) = 4294963192
    \<and> ring_advance 4294963192 4294963184 8192 \<noteq> (4294963184 + 8192) mod 4294963192"
  using assms by (simp add: hyperv_ring_initialize_def ring_advance_def Let_def)

section \<open>Witnesses\<close>

definition sample_ring :: ios_hv_ring where
  "sample_ring = \<lparr>hr_write_index = 48, hr_read_index = 48, hr_interrupt_mask = 0, hr_pending_send_size = 0,
     hr_data = replicate 64 0, hr_data_size = 64\<rparr>"

lemma sample_ring_ok: "ring_ok sample_ring"
  by (simp add: ring_ok_def sample_ring_def)

lemma sample_ring_count: "ring_count sample_ring = 0"
  by (simp add: ring_count_def ring_used_def sample_ring_def)

lemma sample_ring_empty: "ring_holds sample_ring []"
  using sample_ring_ok sample_ring_count by (simp add: ring_holds_def ring_bytes_def)

lemma sample_write: "\<exists>r'. hyperv_ring_write sample_ring 6 1 7 [1, 2, 3] = (r', Inr True)"
  unfolding write_cases [OF sample_ring_ok refl refl] sample_ring_count
  by (simp add: align_packet_def) (simp add: sample_ring_def)


theorem ring_fifo_witness:
  "\<exists>r' r''. send_all ring_send sample_ring [(6, 1, 7, [1, 2, 3])] = Some r'
    \<and> receive_all ring_receive 1 r' = Some (r'', [(6, 7, [1, 2, 3, 0, 0, 0, 0, 0])])"
proof -
  obtain r' where "hyperv_ring_write sample_ring 6 1 7 [1, 2, 3] = (r', Inr True)" using sample_write by blast
  then have s: "send_all ring_send sample_ring [(6, 1, 7, [1, 2, 3])] = Some r'" by simp
  have five: "replicate 5 (0 :: u8) = [0, 0, 0, 0, 0]" by (simp add: numeral_eq_Suc)
  have "padded [1, 2, 3] = [1, 2, 3, 0, 0, 0, 0, 0]" by (simp add: padded_def align_packet_def five)
  then have v: "map message_view [(6, 1, 7, [1, 2, 3])] = [(6, 7, [1, 2, 3, 0, 0, 0, 0, 0])]" by simp
  obtain r'' where "receive_all ring_receive (length [(6, 1, 7, [1, 2, 3]) :: ring_message]) r' = Some (r'', map message_view [(6, 1, 7, [1, 2, 3])])"
    using ring_fifo [OF sample_ring_empty s] by blast
  then have "receive_all ring_receive 1 r' = Some (r'', [(6, 7, [1, 2, 3, 0, 0, 0, 0, 0])])"
    unfolding v by (simp only: list.size add_0 One_nat_def)
  then show ?thesis using s by blast
qed

theorem ring_read_confined_witness:
  "hyperv_ring_read sample_ring 8 = (sample_ring, Inl IOS_E_WOULD_BLOCK, None)"
proof -
  have r: "hyperv_ring_read sample_ring 8 = (fst (hyperv_ring_read sample_ring 8), Inl IOS_E_WOULD_BLOCK, None)"
    by (simp add: hyperv_ring_read_def sample_ring_def ring_used_def)
  have "fst (hyperv_ring_read sample_ring 8) = sample_ring"
    using ring_read_confined [OF _ _ _ r] by (simp add: sample_ring_def)
  then show ?thesis using r by simp
qed

definition sample_ring_2 :: ios_hv_ring where
  "sample_ring_2 = sample_ring\<lparr>hr_data := replicate 128 0, hr_data_size := 128\<rparr>"

theorem ring_gpa_write_exact_witness:
  "\<exists>r'. hyperv_ring_write_gpa_direct sample_ring_2 1 9 [0x5a] 0x123ff0 32 = (r', Inr True)
    \<and> ring_bytes r' = encode_packet (gpa_packet sample_ring_2 1 9 [0x5a] 0x123ff0 32)"
proof -
  have ok: "ring_ok sample_ring_2" by (simp add: ring_ok_def sample_ring_2_def sample_ring_def)
  have c: "ring_count sample_ring_2 = 0" by (simp add: ring_count_def ring_used_def sample_ring_2_def sample_ring_def)
  have "\<exists>r'. hyperv_ring_write_gpa_direct sample_ring_2 1 9 [0x5a] 0x123ff0 32 = (r', Inr True)"
    unfolding gpa_write_cases [OF ok refl refl] c
    by (simp add: align_packet_def gpa_page_count_def) (simp add: sample_ring_2_def sample_ring_def)
  then obtain r' where r': "hyperv_ring_write_gpa_direct sample_ring_2 1 9 [0x5a] 0x123ff0 32 = (r', Inr True)" by blast
  then show ?thesis using ring_gpa_write_exact [OF ok r'] c by (auto simp: ring_bytes_def)
qed

theorem ring_advance_overflow_witness:
  "snd (hyperv_ring_initialize 4096 4294967288 (sample_ring\<lparr>hr_write_index := 0, hr_read_index := 0\<rparr>)) = Inr ()"
  using ring_advance_overflow [of "sample_ring\<lparr>hr_write_index := 0, hr_read_index := 0\<rparr>"] by simp

end
