(* ===== verification/Spec2Isabelle.thy ===== *)
theory Spec2Isabelle
  imports Fs_Mount Fs_Registry Fs_Directory Fs_Transaction Fs_Sync Vfs_Operations Kernel_Handles Kernel_Scheduler Kernel_Ipc Kernel_Loader Fs_File Hyperv_Ring
begin

text \<open>
  A verification library for InferenceOS: the on-disk format and the block layer of its file
  system, open files, mounts, paths and directories, and the handle tables, scheduler, message passing
  and physical and virtual memory of its kernel, and the packet ring of its Hyper-V drivers. Paths below are relative to \<^verbatim>\<open>src/src/\<close>.

  \<^bold>\<open>Parts of the program and how they interact.\<close> A platform driver provides a block device
  (\<^verbatim>\<open>block/device.c\<close>); the sector cache (\<^verbatim>\<open>block/cache.c\<close>) sits on it; the file system
  (\<^verbatim>\<open>filesystems/inferenceos_fs/\<close>) lays superblocks, an allocation table and directory clusters on
  the device, writes through the cache in generations (\<^verbatim>\<open>sync.c\<close>) and orders its updates in
  transactions (\<^verbatim>\<open>transaction.c\<close>). The virtual file system (\<^verbatim>\<open>vfs/\<close>) registers mounts and counts the
  operations in flight. In the kernel every process names objects through its handle table
  (\<^verbatim>\<open>kernel/process/handle_table.c\<close>) and runs as a task of the scheduler (\<^verbatim>\<open>kernel/scheduler/\<close>);
  message passing (\<^verbatim>\<open>kernel/ipc/ipc.c\<close>) names its endpoints by handles, whose callbacks count the
  references to them, and lets tasks wait on the scheduler's queues.

  \<^bold>\<open>Theories, by part.\<close>
  \<^item> \<open>IOS_Prelude\<close>: fixed-width integers as words, the error numbers of \<^verbatim>\<open>errors.h\<close>, results as
    \<open>ios_error + 'a\<close>, the little-endian codecs, and the lemmas on lists and words that the
    other theories share.
  \<^item> \<open>Fs_Hash\<close> (\<^verbatim>\<open>crc32.c\<close>, \<^verbatim>\<open>hash.c\<close>) and \<open>Fs_Records\<close> (\<^verbatim>\<open>records.c\<close>): checksums, 8.3 names and the
    pair of records of a file. Encoders and decoders are inverse on exactly the values they accept;
    any damage to one byte of a companion is detected; a pair is accepted exactly when the
    companion is the one the encoder makes for the primary.
  \<^item> \<open>Fs_Fat\<close> (\<^verbatim>\<open>fat.c\<close>): the allocation table as a list of entries. Traversal returns exactly the
    finite chains of the table, allocation and release change exactly the chains they name,
    and the ownership check accepts exactly disjoint chains.
  \<^item> \<open>Fs_Directory\<close> (\<^verbatim>\<open>directory.c\<close>): the scan against a declarative reading of the slots, and the
    slot search against the scan.
  \<^item> \<open>Block_Device\<close> (\<^verbatim>\<open>block/device.c\<close>): the driver interface as the locale \<open>block_driver\<close>,
    interpreted on the sparse disk of \<^verbatim>\<open>tests/support/fake_block.c\<close> with its fault injector.
  \<^item> \<open>Block_Cache\<close> (\<^verbatim>\<open>block/cache.c\<close>): the cache refines an array of sectors, and a barrier that
    reports success has left every due sector on the medium.
  \<^item> \<open>Fs_Superblock\<close> (\<^verbatim>\<open>superblock.c\<close>), \<open>Fs_Format\<close> (\<^verbatim>\<open>formatter.c\<close>), \<open>Fs_Mount\<close> (\<^verbatim>\<open>validator.c\<close>,
    \<^verbatim>\<open>mount.c\<close>, \<^verbatim>\<open>diagnostic_mount.c\<close>): the geometry search finds the least table that describes its own
    volume, a volume just formatted mounts for reading and writing, and a volume mounts so only if
    both superblocks agree, fit the device and the root chain is sound.
  \<^item> \<open>Fs_Registry\<close> (\<^verbatim>\<open>registry_record.c\<close>, \<^verbatim>\<open>registry.c\<close>): the extension registry is a hint; a lookup
    returns exactly the matching files.
  \<^item> \<open>Fs_Sync\<close> (\<^verbatim>\<open>sync.c\<close>): a durable result is truthful.
  \<^item> \<open>Fs_Transaction\<close> (\<^verbatim>\<open>transaction.c\<close>): what a crash between any two device operations of a save,
    create, rename or delete can leave behind. The callbacks are a parameter; the locale
    \<open>commit_storage\<close> states what they promise and is interpreted on a storage with a write log.
  \<^item> \<open>Fs_File\<close> (\<^verbatim>\<open>file.c\<close>): open files over the allocation table; the store of clusters is the locale
    \<open>cluster_device\<close>, interpreted on the store of the unit tests. A write that succeeds changes
    exactly the bytes it names and keeps the chain sound, a read returns the bytes of the file,
    and two error paths that do not do what they mean to are proved as they are.
  \<^item> \<open>Vfs_Mount\<close> (\<^verbatim>\<open>vfs/mount.c\<close>, \<^verbatim>\<open>vfs/unmount.c\<close>): the life cycle of a mount as a step relation with
    its invariant, and the safety of unmounting.
  \<^item> \<open>Vfs_Path\<close> (\<^verbatim>\<open>vfs/path.c\<close>) and \<open>Vfs_Operations\<close> (\<^verbatim>\<open>vfs/directory.c\<close>, \<^verbatim>\<open>vfs/file.c\<close>): path
    normalisation in the caller's buffer against a reference on lists of components, resolution as
    a walk of lookups, contexts that do not survive an unmount, and the operations on directories and
    objects over the driver's callbacks. The locale \<open>mount_call\<close> is the contract every operation keeps
    with the life cycle of its mount; a rename never moves a directory into itself, and on a mount that is
    not read-write no mutation reaches the driver.
  \<^item> \<open>Kernel_Handles\<close> (\<^verbatim>\<open>kernel/process/handle_table.c\<close>): the bit layout of handles, insertion,
    resolution, duplication, transfer and closing; authority never grows, a closed handle is dead
    until its slot counter has wrapped, and tables of different owners do not accept each other's
    handles.
  \<^item> \<open>Kernel_Scheduler\<close> (\<^verbatim>\<open>kernel/scheduler/scheduler.c\<close>, \<^verbatim>\<open>wait_queue.c\<close>, \<open>process_activate\<close> of
    \<^verbatim>\<open>kernel/process/process.c\<close>): the task table with its linked wait queues as a step relation; the
    queues refine first-in first-out lists, the round robin is bounded, and a timer interrupt
    resumes exactly the saved context of a ready task.
  \<^item> \<open>Kernel_Ipc\<close> (\<^verbatim>\<open>kernel/ipc/ipc.c\<close>): endpoints as bounded rings that refine queues; a system of
    processes as a step relation over their handle tables and the shared state. The locale
    \<open>ipc_call\<close> is the contract every call of a process keeps, interpreted on all of them: reference
    counts are exact so that no handle dangles and no assertion fails, every queued message is well
    formed and carries its true sender, and services are provided by the identity trusted with them.
  \<^item> \<open>Kernel_Physical\<close> (\<^verbatim>\<open>kernel/memory/physical.c\<close>): the page states as the packed bytes of the code.
    Initialisation gives every page the state its memory map says, allocation hands out aligned free
    pages only, release restores them, and the counts are exact; an allocation can miss a run that
    straddles the search hint, but not twice.
  \<^item> \<open>Kernel_Virtual\<close> and \<open>Kernel_Spaces\<close> (\<^verbatim>\<open>kernel/memory/virtual.c\<close>): page tables as pages of the allocator.
    The invariant \<open>forest_ok\<close> says that the user halves of all address spaces are disjoint trees of
    allocated pages. Mapping is all or nothing, unmapping and destruction give back exactly the pages they
    should, no other address space is affected, and no user page is writable and executable; the locale
    \<open>range_mapping\<close> is what a client of the two mapping calls relies on.
  \<^item> \<open>Kernel_Usercopy\<close> (\<^verbatim>\<open>kernel/syscall/usercopy.c\<close>): copies between the kernel and user memory over the page
    tables. A copy succeeds exactly when every byte is accessible, it moves exactly the bytes the user sees, and it
    changes memory only where the process itself may write.
  \<^item> \<open>Kernel_Loader\<close> (\<^verbatim>\<open>kernel/process/loader.c\<close>): the headers of an executable image, their validation and the mapping of
    its segments. A program that loads is in memory as its image says, with an entry point that is executable
    and not writable; loading, whether it succeeds or not, leaves every other address space and every page in use alone.
  \<^item> \<open>Hyperv_Ring\<close> (\<^verbatim>\<open>drivers/hyperv/ring.c\<close>): the byte ring shared with the host refines a queue of bytes and a
    first-in first-out channel of packets (locale \<open>packet_channel\<close>); whatever the host writes, a read is confined to
    the bytes between the indices.

  \<^bold>\<open>Conventions.\<close> A C function that returns \<^verbatim>\<open>ios_status\<close> returns \<open>Inl e\<close> or \<open>Inr v\<close>, with \<open>v\<close> its
  output parameters; state it changes is passed in and returned. Null-pointer guards disappear where
  the parameter is not a pointer in the model, and are an \<open>option\<close> where absence is data. Integers
  whose wrap-around a branch depends on are words; sector numbers and counters with an explicit
  guard are naturals, and the guard is written out. Sections that run with interrupts disabled are
  single steps. A failed \<^verbatim>\<open>IOS_ASSERT\<close> is \<open>None\<close> or a flag of the state where a caller can reach it and a premise
  otherwise.

  \<^bold>\<open>Bounds and fuel.\<close> Chain walks carry the fuel of the code's own loop bound, the length of the
  table. The two loops over wait queues have fuel 65: a queue holds distinct tasks of a table of 64,
  so the fuel is never spent on a reachable state (\<open>sched_rep\<close>). All other loops are structural.

  \<^bold>\<open>Not modelled.\<close> The other drivers, architecture and boot code (device registers and firmware); the user
  interface, shell services and applications; the dispatch of system calls; the creation of processes; the file service with subdirectories, which composes the structures modelled here; diagnostic reports. Of the scheduler, the hand-over of the processor
  (\<^verbatim>\<open>scheduler_run_current\<close>, \<^verbatim>\<open>scheduler_idle_loop\<close>) and the timer set-up are left out, and
  \<^verbatim>\<open>process_mark_exited\<close> is a parameter.
\<close>

end
